(* ===== verification/Prelude.thy ===== *)
theory Prelude
  imports Main "HOL-Library.Word" "HOL-Library.Monad_Syntax" "HOL-Library.Multiset"
begin

text \<open>
  Shared ground of the development: the C fragments that every component of libhl uses.

  \<^item> A C function is a HOL function into \<open>'a option\<close>: \<open>None\<close> stands for a run that the
    C language leaves undefined (a signed overflow, an access outside of an allocated block, a
    dereference of NULL or of a released cell). A theorem that an operation returns \<open>Some\<close>
    therefore also shows that the operation is free of these errors.
  \<^item> A value of type \<open>int\<close> of the source is an \<open>int\<close> of HOL; every signed operation
    goes through \<open>ck\<close>, which is undefined outside of the 32-bit range.
  \<^item> A block of bytes is a list; \<open>memcpy\<close>, \<open>rd\<close> and \<open>wr\<close> check their bounds.

  The collections \<open>c_simps\<close> and \<open>c_defs\<close> carry the component proofs.
\<close>

named_theorems c_simps "evaluation rules of the C fragments"
named_theorems c_defs "unfolding of the operations of a component"

type_synonym byte = "8 word"

section \<open>Signed 32-bit arithmetic\<close>

abbreviation (input) INT_MAX :: int where "INT_MAX \<equiv> 2147483647"
abbreviation (input) INT_MIN :: int where "INT_MIN \<equiv> - 2147483648"

definition int_ok :: "int \<Rightarrow> bool" where
  "int_ok i \<longleftrightarrow> INT_MIN \<le> i \<and> i \<le> INT_MAX"

definition ck :: "int \<Rightarrow> int option" where
  "ck i = (if int_ok i then Some i else None)"

lemma ck_Some [c_simps]: "INT_MIN \<le> i \<Longrightarrow> i \<le> INT_MAX \<Longrightarrow> ck i = Some i"
  by (simp add: ck_def int_ok_def)

lemma ck_eq_Some [c_simps]: "ck i = Some j \<longleftrightarrow> i = j \<and> int_ok i"
  by (auto simp: ck_def)

section \<open>Unsigned arithmetic on nat\<close>

text \<open>
  \<open>size_t\<close> has 64 bits; \<open>u32\<close> is the conversion to \<open>unsigned int\<close>.
\<close>

definition SIZE_MAX :: nat where
  "SIZE_MAX = 18446744073709551615"

definition dec64 :: "nat \<Rightarrow> nat" where
  "dec64 n = (if n = 0 then SIZE_MAX else n - 1)"

definition inc64 :: "nat \<Rightarrow> nat" where
  "inc64 n = (if n = SIZE_MAX then 0 else Suc n)"

definition u32 :: "nat \<Rightarrow> nat" where
  "u32 n = n mod 4294967296"

text \<open>\<open>unsigned int\<close> wraps around at 32 bits; \<open>to_int\<close> converts to \<open>int\<close>.\<close>

definition add32 :: "nat \<Rightarrow> nat \<Rightarrow> nat" where
  "add32 a b = (a + b) mod 4294967296"

definition sub32 :: "nat \<Rightarrow> nat \<Rightarrow> nat" where
  "sub32 a b = (a + (4294967296 - b)) mod 4294967296"

definition to_int :: "nat \<Rightarrow> int" where
  "to_int n = signed_take_bit 31 (int n)"

lemma add32_eq [c_simps]: "a + b < 4294967296 \<Longrightarrow> add32 a b = a + b"
  by (simp add: add32_def)

lemma add32_Suc [c_simps]:
  "n < 4294967295 \<Longrightarrow> add32 n 1 = Suc n" "n < 4294967295 \<Longrightarrow> add32 n (Suc 0) = Suc n"
  by (simp_all add: add32_def)

lemma sub32_eq [c_simps]: "b \<le> a \<Longrightarrow> a < 4294967296 \<Longrightarrow> sub32 a b = a - b"
proof -
  assume "b \<le> a" "a < 4294967296"
  then have "sub32 a b = (a - b + 4294967296) mod 4294967296" unfolding sub32_def by simp
  then show ?thesis using \<open>a < 4294967296\<close> by (simp add: less_imp_diff_less)
qed

lemma to_int_eq [c_simps]: "n < 2147483648 \<Longrightarrow> to_int n = int n"
  by (simp add: to_int_def signed_take_bit_int_eq_self_iff)

lemma to_int_sub32:
  assumes "a < 2147483648" and "b < 2147483648"
  shows "to_int (sub32 a b) = int a - int b"
proof (cases "b \<le> a")
  case True
  then show ?thesis using assms by (simp add: sub32_eq to_int_eq of_nat_diff)
next
  case False
  then have "sub32 a b = 4294967296 - (b - a)" using assms unfolding sub32_def by (subst mod_less) auto
  then have "int (sub32 a b) = int a - int b + 4294967296" using False assms by (simp add: of_nat_diff)
  then have "to_int (sub32 a b) = signed_take_bit 31 (int a - int b)"
    by (simp add: to_int_def signed_take_bit_eq_iff_take_bit_eq take_bit_eq_mod)
  then show ?thesis using assms False by (simp add: signed_take_bit_int_eq_self_iff)
qed

lemma inc64_eq: "n < 2147483648 \<Longrightarrow> inc64 n = Suc n"
  by (simp add: inc64_def SIZE_MAX_def)

lemma inc64_Suc: "n < SIZE_MAX \<Longrightarrow> inc64 n = Suc n"
  by (simp add: inc64_def)

lemma dec64_eq: "0 < n \<Longrightarrow> dec64 n = n - 1"
  by (simp add: dec64_def)

lemma u32_eq: "n < 4294967296 \<Longrightarrow> u32 n = n"
  by (simp add: u32_def)

section \<open>Lists\<close>

lemma take_take_min: "take k (take u xs) = take (min k u) xs"
  by (simp add: min.commute)

lemma drop_take_min: "drop k (take u xs) = take (u - min k u) (drop (min k u) xs)"
  by (cases "k \<le> u") (simp_all add: drop_take min_def)

text \<open>The first position of a value, and the prefix up to and including it.\<close>

definition first_pos :: "'a \<Rightarrow> 'a list \<Rightarrow> nat" where
  "first_pos x xs = length (takeWhile (\<lambda>y. y \<noteq> x) xs)"

fun upto_first :: "'a \<Rightarrow> 'a list \<Rightarrow> 'a list" where
  "upto_first x [] = []"
| "upto_first x (y # ys) = (if y = x then [y] else y # upto_first x ys)"

lemma first_pos_Cons [simp]: "first_pos x (y # ys) = (if y = x then 0 else Suc (first_pos x ys))"
  by (simp add: first_pos_def)

lemma first_pos_append:
  "first_pos x (xs @ ys) = (if x \<in> set xs then first_pos x xs else length xs + first_pos x ys)"
  by (induction xs) auto

lemma first_pos_take: "x \<in> set (take k xs) \<Longrightarrow> first_pos x (take k xs) = first_pos x xs"
  using first_pos_append [of x "take k xs" "drop k xs"] by simp

lemma first_pos_less: "x \<in> set xs \<Longrightarrow> first_pos x xs < length xs"
  by (induction xs) auto

lemma first_pos_nth: "x \<in> set xs \<Longrightarrow> xs ! first_pos x xs = x"
  by (induction xs) auto

lemma first_pos_notin: "x \<notin> set (take (first_pos x xs) xs)"
  by (induction xs) auto

lemma upto_first_absent: "x \<notin> set xs \<Longrightarrow> upto_first x xs = xs"
  by (induction xs) auto

lemma upto_first_append:
  "upto_first x (xs @ ys) = (if x \<in> set xs then upto_first x xs else xs @ upto_first x ys)"
  by (induction xs) auto

lemma upto_first_prefix: "upto_first x xs = take (length (upto_first x xs)) xs"
  by (induction xs) auto

lemma upto_first_take: "x \<in> set (take k xs) \<Longrightarrow> upto_first x (take k xs) = upto_first x xs"
  using upto_first_append [of x "take k xs" "drop k xs"] by simp

lemma length_upto_first: "length (upto_first x xs) \<le> length xs"
  by (induction xs) auto

definition patch :: "'a list \<Rightarrow> nat \<Rightarrow> 'a list \<Rightarrow> 'a list" where
  "patch xs i ys = take i xs @ ys @ drop (i + length ys) xs"

lemma length_patch [simp]: "i + length ys \<le> length xs \<Longrightarrow> length (patch xs i ys) = length xs"
  by (simp add: patch_def)

lemma patch_Nil [simp]: "patch xs i [] = xs"
  by (simp add: patch_def)

lemma patch_update: "i < length xs \<Longrightarrow> patch (xs[i := y]) (Suc i) ys = patch xs i (y # ys)"
  by (simp add: patch_def take_Suc_conv_app_nth)

lemma patch_patch:
  "i + length ys + length zs \<le> length xs \<Longrightarrow>
     patch (patch xs i ys) (i + length ys) zs = patch xs i (ys @ zs)"
  by (simp add: patch_def ac_simps)

section \<open>Blocks of memory\<close>

definition memcpy :: "'a list \<Rightarrow> int \<Rightarrow> 'a list \<Rightarrow> int \<Rightarrow> int \<Rightarrow> 'a list option" where
  "memcpy dst d src s n =
     (if 0 \<le> n \<and> 0 \<le> d \<and> d + n \<le> int (length dst) \<and> 0 \<le> s \<and> s + n \<le> int (length src)
      then Some (take (nat d) dst @ take (nat n) (drop (nat s) src) @ drop (nat (d + n)) dst)
      else None)"

definition rd :: "'a list \<Rightarrow> int \<Rightarrow> 'a option" where
  "rd b i = (if 0 \<le> i \<and> i < int (length b) then Some (b ! nat i) else None)"

definition wr :: "'a list \<Rightarrow> int \<Rightarrow> 'a \<Rightarrow> 'a list option" where
  "wr b i x = (if 0 \<le> i \<and> i < int (length b) then Some (b[nat i := x]) else None)"

lemma rd_Some [c_simps]: "0 \<le> i \<Longrightarrow> i < int (length b) \<Longrightarrow> rd b i = Some (b ! nat i)"
  by (simp add: rd_def)

lemma wr_Some [c_simps]: "0 \<le> i \<Longrightarrow> i < int (length b) \<Longrightarrow> wr b i x = Some (b[nat i := x])"
  by (simp add: wr_def)

lemma memcpy_nat [c_simps]:
  "d + n \<le> length dst \<Longrightarrow> s + n \<le> length src \<Longrightarrow>
     memcpy dst (int d) src (int s) (int n) = Some (take d dst @ take n (drop s src) @ drop (d + n) dst)"
  by (simp add: memcpy_def nat_add_distrib flip: of_nat_add)

lemma memcpy_zero [c_simps]:
  "0 \<le> d \<Longrightarrow> d \<le> int (length dst) \<Longrightarrow> 0 \<le> s \<Longrightarrow> s \<le> int (length src) \<Longrightarrow> memcpy dst d src s 0 = Some dst"
  by (simp add: memcpy_def)

section \<open>Comparing blocks\<close>

text \<open>\<open>memcmp\<close> on two blocks of the same length: the difference of the first bytes that differ, of which only the sign is used.\<close>

fun memcmp :: "byte list \<Rightarrow> byte list \<Rightarrow> int" where
  "memcmp (x # xs) (y # ys) = (if x = y then memcmp xs ys else uint x - uint y)"
| "memcmp _ _ = 0"

lemma memcmp_flip: "length k1 = length k2 \<Longrightarrow> memcmp k2 k1 = - memcmp k1 k2"
  by (induction k1 k2 rule: list_induct2) auto

lemma memcmp_trans: "length x = length y \<Longrightarrow> length y = length z \<Longrightarrow> 0 \<le> memcmp x y \<Longrightarrow> 0 \<le> memcmp y z \<Longrightarrow> 0 \<le> memcmp x z"
  by (induction x y z rule: list_induct3) (auto simp: word_uint_eq_iff split: if_splits)

section \<open>Sequences of calls\<close>

text \<open>A client that makes calls one after the other and collects their answers.\<close>

fun calls_run :: "('c \<Rightarrow> 's \<Rightarrow> ('a \<times> 's) option) \<Rightarrow> 'c list \<Rightarrow> 's \<Rightarrow> ('a list \<times> 's) option" where
  "calls_run exec [] s = Some ([], s)"
| "calls_run exec (c # cs) s = do { (a, s) \<leftarrow> exec c s; (as, s) \<leftarrow> calls_run exec cs s; Some (a # as, s) }"

lemma calls_run_append:
  "calls_run exec (cs @ ds) s = do { (as, s) \<leftarrow> calls_run exec cs s; (bs, s) \<leftarrow> calls_run exec ds s; Some (as @ bs, s) }"
  by (induction cs arbitrary: s) (simp_all add: bind_eq_Some_conv split: bind_splits prod.splits)

lemma calls_run_length: "calls_run exec cs s = Some (as, s') \<Longrightarrow> length as = length cs"
  by (induction cs arbitrary: s as) (auto simp: bind_eq_Some_conv split: prod.splits)

end
