(* ===== verification/Fifo.thy ===== *)
theory Fifo
  imports Prelude
begin

text \<open>
  The interface of a byte channel, as its clients see it: \<open>put\<close> stores a prefix of the given
  bytes and tells how many it took, \<open>get\<close> gives back at most \<open>n\<close> of the oldest ones.
  \<open>rbuf.h\<close> tells a client to check the returned value and to retry with the remainder: the lemmas
  of the locales show what a client that does so can rely on. The ring buffer of \<open>rbuf.c\<close>
  and the flat buffer of \<open>fbuf.c\<close> both provide the interface.
\<close>

datatype 'a fifo_op = Put "'a list" | Get nat

text \<open>
  A run of operations, in the order given; the result holds the bytes that the channel accepted and
  the bytes that it delivered, each in order, and the final state.
\<close>

fun fifo_run ::
  "('r \<Rightarrow> 'a list \<Rightarrow> (nat \<times> 'r) option) \<Rightarrow> ('r \<Rightarrow> nat \<Rightarrow> ('a list \<times> 'r) option) \<Rightarrow>
   'r \<Rightarrow> 'a fifo_op list \<Rightarrow> ('a list \<times> 'a list \<times> 'r) option"
where
  "fifo_run put get r [] = Some ([], [], r)"
| "fifo_run put get r (Put xs # ops) = do {
     (n, r) \<leftarrow> put r xs;
     (acc, del, r) \<leftarrow> fifo_run put get r ops;
     Some (take n xs @ acc, del, r)
   }"
| "fifo_run put get r (Get n # ops) = do {
     (ys, r) \<leftarrow> get r n;
     (acc, del, r) \<leftarrow> fifo_run put get r ops;
     Some (acc, ys @ del, r)
   }"

text \<open>
  The retry loop of a client that pushes \<open>src\<close> through the channel: put what is left, keep the
  part that was not taken, get up to \<open>n\<close> bytes, until there is nothing left to put.
  \<open>fuel\<close> bounds the number of rounds.
\<close>

fun fifo_pump ::
  "('r \<Rightarrow> 'a list \<Rightarrow> (nat \<times> 'r) option) \<Rightarrow> ('r \<Rightarrow> nat \<Rightarrow> ('a list \<times> 'r) option) \<Rightarrow>
   nat \<Rightarrow> nat \<Rightarrow> 'r \<Rightarrow> 'a list \<Rightarrow> ('a list \<times> 'r) option"
where
  "fifo_pump put get n 0 r src = None"
| "fifo_pump put get n (Suc fuel) r src =
     (if src = [] then Some ([], r)
      else do {
        (k, r) \<leftarrow> put r src;
        (ys, r) \<leftarrow> get r n;
        (zs, r) \<leftarrow> fifo_pump put get n fuel r (drop k src);
        Some (ys @ zs, r)
      })"

locale byte_fifo =
  fixes inv :: "'r \<Rightarrow> bool"
    and content :: "'r \<Rightarrow> 'a list"
    and put :: "'r \<Rightarrow> 'a list \<Rightarrow> (nat \<times> 'r) option"
    and get :: "'r \<Rightarrow> nat \<Rightarrow> ('a list \<times> 'r) option"
    and limit :: nat
  assumes put_law: "inv r \<Longrightarrow> length xs \<le> limit \<Longrightarrow>
      \<exists>n r'. put r xs = Some (n, r') \<and> inv r' \<and> content r' = content r @ take n xs"
    and get_law: "inv r \<Longrightarrow> n \<le> limit \<Longrightarrow>
      \<exists>r'. get r n = Some (take n (content r), r') \<and> inv r' \<and> content r' = drop n (content r)"
begin

lemma fifo_run_order:
  assumes "inv r" and "\<And>xs. Put xs \<in> set ops \<Longrightarrow> length xs \<le> limit" and "\<And>n. Get n \<in> set ops \<Longrightarrow> n \<le> limit"
  shows "\<exists>acc del r'. fifo_run put get r ops = Some (acc, del, r') \<and> inv r' \<and>
           content r @ acc = del @ content r'"
  using assms
proof (induction ops arbitrary: r)
  case Nil
  then show ?case by simp
next
  case (Cons op ops)
  show ?case
  proof (cases op)
    case (Put xs)
    with Cons.prems obtain n r1 where 1: "put r xs = Some (n, r1)" "inv r1" "content r1 = content r @ take n xs"
      using put_law [of r xs] by auto
    with Cons.IH [of r1] Cons.prems show ?thesis by (fastforce simp: Put)
  next
    case (Get n)
    with Cons.prems obtain r1 where 1: "get r n = Some (take n (content r), r1)" "inv r1" "content r1 = drop n (content r)"
      using get_law [of r n] by auto
    with Cons.IH [of r1] Cons.prems obtain acc del r' where
      2: "fifo_run put get r1 ops = Some (acc, del, r')" "inv r'" "content r1 @ acc = del @ content r'"
      by auto
    have "content r @ acc = take n (content r) @ content r1 @ acc" by (simp add: 1(3))
    with 1 2 show ?thesis by (auto simp: Get)
  qed
qed

end

text \<open>
  A channel with a capacity takes as many bytes as it has room for; then the retry loop ends and
  the bytes come out unchanged.
\<close>

locale bounded_fifo = byte_fifo inv content put get limit
  for inv :: "'r \<Rightarrow> bool" and content :: "'r \<Rightarrow> 'a list"
    and put :: "'r \<Rightarrow> 'a list \<Rightarrow> (nat \<times> 'r) option"
    and get :: "'r \<Rightarrow> nat \<Rightarrow> ('a list \<times> 'r) option" and limit :: nat +
  fixes cap :: "'r \<Rightarrow> nat"
  assumes put_room: "inv r \<Longrightarrow> length xs \<le> limit \<Longrightarrow> put r xs = Some (n, r') \<Longrightarrow>
      n = min (length xs) (cap r - length (content r)) \<and> cap r' = cap r"
    and get_cap: "inv r \<Longrightarrow> n \<le> limit \<Longrightarrow> get r n = Some (ys, r') \<Longrightarrow> cap r' = cap r"
    and content_cap: "inv r \<Longrightarrow> length (content r) \<le> cap r"
    and cap_pos: "inv r \<Longrightarrow> 0 < cap r"
begin

lemma fifo_pump_delivers:
  assumes "inv r" and "length src \<le> limit" and "0 < n" and "n \<le> limit"
    and "2 * length src + length (content r) < fuel"
  shows "\<exists>out r'. fifo_pump put get n fuel r src = Some (out, r') \<and> inv r' \<and>
           out @ content r' = content r @ src"
  using assms
proof (induction fuel arbitrary: r src)
  case 0
  then show ?case by simp
next
  case (Suc fuel)
  show ?case
  proof (cases "src = []")
    case False
    from Suc.prems obtain k r1 where 1: "put r src = Some (k, r1)" "inv r1" "content r1 = content r @ take k src"
      using put_law [of r src] by auto
    from put_room [OF Suc.prems(1,2) 1(1)] have k: "k = min (length src) (cap r - length (content r))" "cap r1 = cap r"
      by auto
    from Suc.prems 1(2) obtain r2 where 2: "get r1 n = Some (take n (content r1), r2)" "inv r2" "content r2 = drop n (content r1)"
      using get_law [of r1 n] by auto
    have "0 < length (content r1)"
      using cap_pos [OF Suc.prems(1)] content_cap [OF Suc.prems(1)] False k 1(3) by auto
    moreover have "length (content r1) = length (content r) + k" using k(1) 1(3) by simp
    ultimately have "length (content r2) < length (content r) + k" using 2(3) Suc.prems(3) by simp
    then have "2 * length (drop k src) + length (content r2) < fuel"
      using Suc.prems(5) k(1) by auto
    moreover have "length (drop k src) \<le> limit" using Suc.prems(2) by simp
    ultimately obtain zs r' where
      3: "fifo_pump put get n fuel r2 (drop k src) = Some (zs, r')" "inv r'" "zs @ content r' = content r2 @ drop k src"
      using Suc.IH [of r2 "drop k src"] Suc.prems(3,4) 2(2) by auto
    have "content r @ src = take n (content r1) @ content r2 @ drop k src"
      using 1(3) 2(3) by (metis append.assoc append_take_drop_id)
    with False 1 2 3 show ?thesis by auto
  qed (use Suc.prems in auto)
qed

end

end
