(* ===== verification/Rbuf.thy ===== *)
theory Rbuf
  imports Fifo
begin

text \<open>
  Model of \<open>src/src/rbuf.c\<close>: byte-oriented ring buffers.
\<close>

section \<open>State and operations\<close>

datatype rbuf_mode_t = RBUF_MODE_BLOCKING | RBUF_MODE_OVERWRITE

record rbuf_t =
  rb_buf :: "byte list"
  rb_size :: int
  rb_used :: int
  rb_rfx :: int
  rb_wfx :: int
  rb_mode :: rbuf_mode_t

definition RBUF_DEFAULT_SIZE :: int where
  "RBUF_DEFAULT_SIZE = 4096"

definition rbuf_create :: "bool \<Rightarrow> (nat \<Rightarrow> byte list option) \<Rightarrow> int \<Rightarrow> rbuf_t option" where
  "rbuf_create calloc_ok malloc sz =
     (if \<not> calloc_ok then None
      else let s = (if sz = 0 then RBUF_DEFAULT_SIZE else sz) in
        case malloc (nat (s mod 2 ^ 64)) of
          None \<Rightarrow> None
        | Some b \<Rightarrow> Some \<lparr>rb_buf = b, rb_size = s, rb_used = 0, rb_rfx = 0, rb_wfx = 0,
                          rb_mode = RBUF_MODE_BLOCKING\<rparr>)"

definition rbuf_set_mode :: "rbuf_t \<Rightarrow> rbuf_mode_t \<Rightarrow> rbuf_t" where
  "rbuf_set_mode rb mode = rb\<lparr>rb_mode := mode\<rparr>"

definition rbuf_mode :: "rbuf_t \<Rightarrow> rbuf_mode_t" where
  "rbuf_mode rb = rb_mode rb"

definition rbuf_skip :: "rbuf_t \<Rightarrow> int \<Rightarrow> rbuf_t option" where
  "rbuf_skip rb sz =
     (if sz \<ge> rb_used rb then Some (rb\<lparr>rb_rfx := rb_wfx rb, rb_used := 0\<rparr>)
      else do {
        used \<leftarrow> ck (rb_used rb - sz);
        to_end \<leftarrow> ck (rb_size rb - rb_rfx rb);
        if sz > to_end then do {
          rest \<leftarrow> ck (sz - to_end);
          Some (rb\<lparr>rb_used := used, rb_rfx := rest\<rparr>)
        } else do {
          rfx \<leftarrow> ck (rb_rfx rb + sz);
          Some (rb\<lparr>rb_used := used, rb_rfx := rfx\<rparr>)
        }
      })"

definition rbuf_read :: "rbuf_t \<Rightarrow> byte list \<Rightarrow> int \<Rightarrow> (int \<times> byte list \<times> rbuf_t) option" where
  "rbuf_read rb out sz = do {
     let read_size = (if sz > rb_used rb then rb_used rb else sz);
     to_end \<leftarrow> ck (rb_size rb - rb_rfx rb);
     (out, rfx) \<leftarrow>
       (if read_size > to_end then do {
          out \<leftarrow> memcpy out 0 (rb_buf rb) (rb_rfx rb) to_end;
          start_size \<leftarrow> ck (read_size - to_end);
          out \<leftarrow> memcpy out to_end (rb_buf rb) 0 start_size;
          Some (out, start_size)
        } else do {
          out \<leftarrow> memcpy out 0 (rb_buf rb) (rb_rfx rb) read_size;
          rfx \<leftarrow> ck (rb_rfx rb + read_size);
          Some (out, rfx)
        });
     used \<leftarrow> ck (rb_used rb - read_size);
     Some (read_size, out, rb\<lparr>rb_rfx := rfx, rb_used := used\<rparr>)
   }"

text \<open>
  \<open>rbuf_put\<close> is the tail of \<open>rbuf_write\<close>: it stores \<open>write_size\<close> bytes of
  \<open>inp\<close> at the write offset, wrapping around at the end of the buffer. \<open>to_end\<close> is
  computed by the caller before the overwrite branch.
\<close>

definition rbuf_put :: "rbuf_t \<Rightarrow> byte list \<Rightarrow> int \<Rightarrow> int \<Rightarrow> rbuf_t option" where
  "rbuf_put rb inp to_end write_size = do {
     (buf, wfx) \<leftarrow>
       (if write_size > to_end then do {
          buf \<leftarrow> memcpy (rb_buf rb) (rb_wfx rb) inp 0 to_end;
          from_start \<leftarrow> ck (write_size - to_end);
          buf \<leftarrow> memcpy buf 0 inp to_end from_start;
          Some (buf, from_start)
        } else do {
          buf \<leftarrow> memcpy (rb_buf rb) (rb_wfx rb) inp 0 write_size;
          wfx \<leftarrow> ck (rb_wfx rb + write_size);
          Some (buf, wfx)
        });
     used \<leftarrow> ck (rb_used rb + write_size);
     Some (rb\<lparr>rb_buf := buf, rb_wfx := wfx, rb_used := used\<rparr>)
   }"

definition rbuf_write ::
  "rbuf_t option \<Rightarrow> byte list option \<Rightarrow> int \<Rightarrow> (int \<times> rbuf_t option) option" where
  "rbuf_write rb_ptr in_ptr sz =
     (case (rb_ptr, in_ptr) of
        (Some rb, Some inp) \<Rightarrow>
          if sz = 0 then Some (0, Some rb)
          else do {
            available_size \<leftarrow> ck (rb_size rb - rb_used rb);
            to_end \<leftarrow> ck (rb_size rb - rb_wfx rb);
            let write_size = (if sz > available_size then available_size else sz);
            if write_size < sz \<and> rb_mode rb = RBUF_MODE_OVERWRITE then
              if sz > rb_size rb then do {
                off \<leftarrow> ck (sz - rb_size rb);
                buf \<leftarrow> memcpy (rb_buf rb) 0 inp off (rb_size rb);
                Some (sz, Some (rb\<lparr>rb_buf := buf, rb_rfx := 0, rb_wfx := 0, rb_used := rb_size rb\<rparr>))
              } else do {
                diff \<leftarrow> ck (sz - write_size);
                rfx \<leftarrow> ck (rb_rfx rb + diff);
                write_size \<leftarrow> ck (write_size + diff);
                rfx \<leftarrow> (if rfx \<ge> rb_size rb then ck (rfx - rb_size rb) else Some rfx);
                used \<leftarrow> ck (rb_used rb - diff);
                rb \<leftarrow> rbuf_put (rb\<lparr>rb_rfx := rfx, rb_used := used\<rparr>) inp to_end write_size;
                Some (write_size, Some rb)
              }
            else do {
              rb \<leftarrow> rbuf_put rb inp to_end write_size;
              Some (write_size, Some rb)
            }
          }
      | _ \<Rightarrow> Some (0, rb_ptr))"

definition rbuf_used :: "rbuf_t \<Rightarrow> int" where
  "rbuf_used rb = rb_used rb"

definition rbuf_size :: "rbuf_t \<Rightarrow> int" where
  "rbuf_size rb = rb_size rb"

definition rbuf_available :: "rbuf_t \<Rightarrow> int option" where
  "rbuf_available rb = ck (rb_size rb - rb_used rb)"

definition rbuf_clear :: "rbuf_t \<Rightarrow> rbuf_t" where
  "rbuf_clear rb = rb\<lparr>rb_rfx := 0, rb_wfx := 0, rb_used := 0\<rparr>"

text \<open>
  \<open>rbuf_scan b octet i hi\<close> is the loop \<open>for (; i < hi; i++) if (b[i] == octet) \<dots>\<close> of
  \<open>rbuf_find\<close>: the index where it stops, if it finds the byte.
\<close>

function rbuf_scan :: "byte list \<Rightarrow> byte \<Rightarrow> int \<Rightarrow> int \<Rightarrow> int option option" where
  "rbuf_scan b octet i hi =
     (if i < hi then do {
        x \<leftarrow> rd b i;
        if x = octet then Some (Some i) else rbuf_scan b octet (i + 1) hi
      } else Some None)"
  by pat_completeness auto
termination
  by (relation "measure (\<lambda>(b, octet, i, hi). nat (hi - i))") auto

declare rbuf_scan.simps [simp del]

definition rbuf_find :: "rbuf_t \<Rightarrow> byte \<Rightarrow> int option" where
  "rbuf_find rb octet =
     (if rbuf_used rb = 0 then Some (- 1)
      else if rb_wfx rb > rb_rfx rb then do {
        hit \<leftarrow> rbuf_scan (rb_buf rb) octet (rb_rfx rb) (rb_wfx rb + 1);
        case hit of Some i \<Rightarrow> ck (i - rb_rfx rb) | None \<Rightarrow> Some (- 1)
      } else do {
        hit \<leftarrow> rbuf_scan (rb_buf rb) octet (rb_rfx rb) (rb_size rb);
        case hit of
          Some i \<Rightarrow> ck (i - rb_rfx rb)
        | None \<Rightarrow> do {
            hit \<leftarrow> rbuf_scan (rb_buf rb) octet 0 (rb_wfx rb + 1);
            case hit of Some i \<Rightarrow> ck (rb_size rb - rb_rfx rb + i) | None \<Rightarrow> Some (- 1)
          }
      })"

text \<open>
  The two loops of \<open>rbuf_read_until\<close>. The result is (found, j, to\_read, out); \<open>used\<close>
  is the local \<open>size\<close> of the source, the number of stored bytes at the start.
\<close>

function rbuf_until_to_end ::
  "rbuf_t \<Rightarrow> byte \<Rightarrow> int \<Rightarrow> int \<Rightarrow> int \<Rightarrow> int \<Rightarrow> int \<Rightarrow> byte list \<Rightarrow> (bool \<times> int \<times> int \<times> byte list) option"
where
  "rbuf_until_to_end rb octet used maxsize i j to_read out =
     (if i < rb_size rb then do {
        done_bytes \<leftarrow> ck (used - to_read);
        if done_bytes < maxsize then do {
          to_read \<leftarrow> ck (to_read - 1);
          x \<leftarrow> rd (rb_buf rb) i;
          out \<leftarrow> wr out j x;
          if x = octet then Some (True, j, to_read, out)
          else rbuf_until_to_end rb octet used maxsize (i + 1) (j + 1) to_read out
        } else Some (False, j, to_read, out)
      } else Some (False, j, to_read, out))"
  by pat_completeness auto
termination
  by (relation "measure (\<lambda>(rb, octet, used, maxsize, i, j, to_read, out). nat (rb_size rb - i))") auto

function rbuf_until_from_start ::
  "rbuf_t \<Rightarrow> byte \<Rightarrow> int \<Rightarrow> int \<Rightarrow> int \<Rightarrow> int \<Rightarrow> int \<Rightarrow> byte list \<Rightarrow> (int \<times> byte list) option"
where
  "rbuf_until_from_start rb octet used maxsize i j to_read out =
     (if to_read > 0 then do {
        done_bytes \<leftarrow> ck (used - to_read);
        if done_bytes < maxsize then do {
          x \<leftarrow> rd (rb_buf rb) i;
          out \<leftarrow> wr out j x;
          if x = octet then Some (to_read - 1, out)
          else rbuf_until_from_start rb octet used maxsize (i + 1) (j + 1) (to_read - 1) out
        } else Some (to_read, out)
      } else Some (to_read, out))"
  by pat_completeness auto
termination
  by (relation "measure (\<lambda>(rb, octet, used, maxsize, i, j, to_read, out). nat to_read)") auto

declare rbuf_until_to_end.simps [simp del] rbuf_until_from_start.simps [simp del]

definition rbuf_read_until ::
  "rbuf_t \<Rightarrow> byte \<Rightarrow> byte list \<Rightarrow> int \<Rightarrow> (int \<times> byte list \<times> rbuf_t) option" where
  "rbuf_read_until rb octet out maxsize = do {
     let used = rb_used rb;
     (found, j, to_read, out) \<leftarrow>
       rbuf_until_to_end rb octet used maxsize (rb_rfx rb) 0 used out;
     (to_read, out) \<leftarrow>
       (if \<not> found then rbuf_until_from_start rb octet used maxsize 0 j to_read out
        else Some (to_read, out));
     n \<leftarrow> ck (used - to_read);
     rb \<leftarrow> rbuf_skip rb n;
     Some (n, out, rb)
   }"

text \<open>\<open>rbuf_read\<close> into the block \<open>buf\<close> at offset \<open>off\<close>, its result thrown away.\<close>

definition rbuf_read_at :: "rbuf_t \<Rightarrow> byte list \<Rightarrow> int \<Rightarrow> int \<Rightarrow> (rbuf_t \<times> byte list) option" where
  "rbuf_read_at src buf off n =
     (if 0 \<le> off \<and> off \<le> int (length buf) then do {
        (_, out, src) \<leftarrow> rbuf_read src (drop (nat off) buf) n;
        Some (src, take (nat off) buf @ out)
      } else None)"

text \<open>
  \<open>rbuf_copy_internal\<close>. The first of the two blocks below is the branch where the free
  part of \<open>dst\<close> that follows the write offset is taken to be large enough; the second one is
  the branch that wraps around. Both give the new source, the new destination block and the write
  offset that the branch leaves in \<open>dst\<close>.
\<close>

definition rbuf_copy_flat :: "rbuf_t \<Rightarrow> rbuf_t \<Rightarrow> int \<Rightarrow> bool \<Rightarrow> (rbuf_t \<times> byte list \<times> int) option" where
  "rbuf_copy_flat src dst to_copy move =
     (if move then do {
        (src, buf) \<leftarrow> rbuf_read_at src (rb_buf dst) (rb_wfx dst) to_copy;
        wfx \<leftarrow> ck (rb_wfx dst + to_copy);
        Some (src, buf, wfx)
      } else if rb_rfx src < rb_wfx src then do {
        buf \<leftarrow> memcpy (rb_buf dst) (rb_wfx dst) (rb_buf src) (rb_rfx src) to_copy;
        wfx \<leftarrow> ck (rb_wfx dst + to_copy);
        Some (src, buf, wfx)
      } else do {
        to_end \<leftarrow> ck (rb_size src - rb_rfx src);
        buf \<leftarrow> memcpy (rb_buf dst) (rb_wfx dst) (rb_buf src) (rb_rfx src) to_end;
        wfx \<leftarrow> ck (rb_wfx dst + to_end);
        rest \<leftarrow> ck (to_copy - to_end);
        buf \<leftarrow> memcpy buf wfx (rb_buf src) 0 rest;
        wfx \<leftarrow> ck (wfx + to_copy);
        Some (src, buf, wfx)
      })"

definition rbuf_copy_wrap ::
  "rbuf_t \<Rightarrow> rbuf_t \<Rightarrow> int \<Rightarrow> int \<Rightarrow> bool \<Rightarrow> (rbuf_t \<times> byte list \<times> int) option" where
  "rbuf_copy_wrap src dst contiguous to_copy move = do {
     remainder \<leftarrow> ck (to_copy - contiguous);
     (src, buf) \<leftarrow>
       (if move then do {
          (src, buf) \<leftarrow> rbuf_read_at src (rb_buf dst) (rb_wfx dst) contiguous;
          rbuf_read_at src buf 0 remainder
        } else if rb_rfx src < rb_wfx src then do {
          buf \<leftarrow> memcpy (rb_buf dst) (rb_wfx dst) (rb_buf src) (rb_rfx src) contiguous;
          off \<leftarrow> ck (rb_rfx src + contiguous);
          buf \<leftarrow> memcpy buf 0 (rb_buf src) off remainder;
          Some (src, buf)
        } else do {
          to_end \<leftarrow> ck (rb_size src - rb_rfx src);
          if to_end > contiguous then do {
            buf \<leftarrow> memcpy (rb_buf dst) (rb_wfx dst) (rb_buf src) (rb_rfx dst) contiguous;
            diff \<leftarrow> ck (to_end - contiguous);
            off \<leftarrow> ck (rb_rfx dst + contiguous);
            if diff > remainder then do {
              buf \<leftarrow> memcpy buf 0 (rb_buf src) off remainder;
              Some (src, buf)
            } else do {
              buf \<leftarrow> memcpy buf 0 (rb_buf src) off diff;
              rest \<leftarrow> ck (remainder - diff);
              buf \<leftarrow> memcpy buf diff (rb_buf src) 0 rest;
              Some (src, buf)
            }
          } else do {
            buf \<leftarrow> memcpy (rb_buf dst) (rb_wfx dst) (rb_buf src) (rb_rfx dst) to_end;
            diff \<leftarrow> ck (contiguous - to_end);
            if diff \<noteq> 0 then do {
              off \<leftarrow> ck (rb_wfx dst + to_end);
              buf \<leftarrow> memcpy buf off (rb_buf src) 0 diff;
              buf \<leftarrow> memcpy buf 0 (rb_buf src) diff remainder;
              Some (src, buf)
            } else Some (src, buf)
          }
        });
     Some (src, buf, remainder)
   }"

definition rbuf_copy_internal ::
  "rbuf_t option \<Rightarrow> rbuf_t option \<Rightarrow> int \<Rightarrow> bool \<Rightarrow> (int \<times> rbuf_t option \<times> rbuf_t option) option" where
  "rbuf_copy_internal src_ptr dst_ptr len move =
     (case (src_ptr, dst_ptr) of
        (Some src, Some dst) \<Rightarrow>
          if len = 0 then Some (0, src_ptr, dst_ptr)
          else do {
            available \<leftarrow> rbuf_available dst;
            let to_copy = (if len < available then len else available);
            let to_copy = (if rbuf_used src < to_copy then rbuf_used src else to_copy);
            contiguous \<leftarrow> (if rb_wfx dst > rb_rfx dst then ck (rb_size dst - rb_wfx dst)
                           else ck (rb_rfx dst - rb_wfx dst));
            (src, buf, wfx) \<leftarrow>
              (if contiguous \<ge> to_copy then rbuf_copy_flat src dst to_copy move
               else rbuf_copy_wrap src dst contiguous to_copy move);
            Some (to_copy, Some src,
                  Some (dst\<lparr>rb_buf := buf, rb_wfx := wfx, rb_used := to_copy\<rparr>))
          }
      | _ \<Rightarrow> Some (0, src_ptr, dst_ptr))"

definition rbuf_move ::
  "rbuf_t option \<Rightarrow> rbuf_t option \<Rightarrow> int \<Rightarrow> (int \<times> rbuf_t option \<times> rbuf_t option) option" where
  "rbuf_move src dst len = rbuf_copy_internal src dst len True"

definition rbuf_copy ::
  "rbuf_t option \<Rightarrow> rbuf_t option \<Rightarrow> int \<Rightarrow> (int \<times> rbuf_t option \<times> rbuf_t option) option" where
  "rbuf_copy src dst len = rbuf_copy_internal src dst len False"

section \<open>Well-formed ring buffers and their contents\<close>

definition rbuf_wf :: "rbuf_t \<Rightarrow> bool" where
  "rbuf_wf rb \<longleftrightarrow>
     0 < rb_size rb \<and> rb_size rb \<le> INT_MAX \<and> int (length (rb_buf rb)) = rb_size rb \<and>
     0 \<le> rb_used rb \<and> rb_used rb \<le> rb_size rb \<and>
     0 \<le> rb_rfx rb \<and> rb_rfx rb \<le> rb_size rb \<and>
     0 \<le> rb_wfx rb \<and> rb_wfx rb \<le> rb_size rb \<and>
     rb_wfx rb - (rb_rfx rb + rb_used rb) \<in> {0, - rb_size rb, rb_size rb}"

definition rbuf_content :: "rbuf_t \<Rightarrow> byte list" where
  "rbuf_content rb = take (nat (rb_used rb)) (drop (nat (rb_rfx rb)) (rb_buf rb) @ rb_buf rb)"

lemma rbuf_wfD:
  assumes "rbuf_wf rb"
  shows "0 < rb_size rb" "rb_size rb \<le> INT_MAX" "length (rb_buf rb) = nat (rb_size rb)"
    "0 \<le> rb_used rb" "rb_used rb \<le> rb_size rb" "0 \<le> rb_rfx rb" "rb_rfx rb \<le> rb_size rb"
    "0 \<le> rb_wfx rb" "rb_wfx rb \<le> rb_size rb"
    "rb_wfx rb - (rb_rfx rb + rb_used rb) \<in> {0, - rb_size rb, rb_size rb}"
  using assms by (auto simp: rbuf_wf_def)

lemma rbuf_fields:
  assumes "rbuf_wf rb"
  obtains b n u r w m where
    "rb = \<lparr>rb_buf = b, rb_size = int n, rb_used = int u, rb_rfx = int r, rb_wfx = int w, rb_mode = m\<rparr>"
    "0 < n" "int n \<le> INT_MAX" "length b = n" "u \<le> n" "r \<le> n" "w \<le> n" "w = r + u \<or> w + n = r + u \<or> w = r + u + n"
proof -
  obtain b s u r w m where rb: "rb = \<lparr>rb_buf = b, rb_size = s, rb_used = u, rb_rfx = r, rb_wfx = w, rb_mode = m\<rparr>"
    by (cases rb)
  with assms have w: "0 < s" "s \<le> INT_MAX" "int (length b) = s" "0 \<le> u" "u \<le> s" "0 \<le> r" "r \<le> s"
      "0 \<le> w" "w \<le> s" "w = r + u \<or> w = r + u - s \<or> w = r + u + s"
    by (auto simp: rbuf_wf_def)
  show thesis
    by (rule that [of b "nat s" "nat u" "nat r" "nat w" m]) (use rb w in auto)
qed

lemma rbuf_wf_eq:
  "rbuf_wf \<lparr>rb_buf = b, rb_size = int n, rb_used = int u, rb_rfx = int r, rb_wfx = int w, rb_mode = m\<rparr> \<longleftrightarrow>
     0 < n \<and> int n \<le> INT_MAX \<and> length b = n \<and> u \<le> n \<and> r \<le> n \<and> w \<le> n \<and> (w = r + u \<or> w + n = r + u \<or> w = r + u + n)"
  by (auto simp: rbuf_wf_def)

lemma rbuf_content_eq:
  "rbuf_content \<lparr>rb_buf = b, rb_size = s, rb_used = int u, rb_rfx = int r, rb_wfx = w, rb_mode = m\<rparr> =
     take u (drop r b @ b)"
  by (simp add: rbuf_content_def)

lemma length_rbuf_content: "rbuf_wf rb \<Longrightarrow> length (rbuf_content rb) = nat (rb_used rb)"
  by (erule rbuf_fields) (auto simp: rbuf_content_eq)

lemma rbuf_read_ok:
  assumes "rbuf_wf rb" and "min k (nat (rb_used rb)) \<le> length out"
  obtains rb' where
    "rbuf_read rb out (int k) =
       Some (int (min k (nat (rb_used rb))), take k (rbuf_content rb) @ drop (min k (nat (rb_used rb))) out, rb')"
    "rbuf_wf rb'" "rbuf_content rb' = drop k (rbuf_content rb)" "rb_size rb' = rb_size rb"
    "rb_mode rb' = rb_mode rb"
  using assms(1)
proof (rule rbuf_fields)
  fix b n u r w m
  assume rb: "rb = \<lparr>rb_buf = b, rb_size = int n, rb_used = int u, rb_rfx = int r, rb_wfx = int w, rb_mode = m\<rparr>"
    and wf: "0 < n" "int n \<le> INT_MAX" "length b = n" "u \<le> n" "r \<le> n" "w \<le> n" "w = r + u \<or> w + n = r + u \<or> w = r + u + n"
  define j where "j = min k u"
  have j: "min k (nat (rb_used rb)) = j" "(if int k > int u then int u else int k) = int j" "j \<le> u"
    by (auto simp: j_def rb)
  have c: "take k (rbuf_content rb) = take j (drop r b @ b)" "drop k (rbuf_content rb) = take (u - j) (drop j (drop r b @ b))"
    by (simp_all only: rb rbuf_content_eq j_def take_take_min drop_take_min)
  have out: "j \<le> length out" using assms(2) j by simp
  show thesis
  proof (cases "n - r < j")
    case True
    have lt: "int n - int r < int j" using True wf by linarith
    have 1: "memcpy out 0 b (int r) (int n - int r) = Some (drop r b @ drop (n - r) out)"
      using True wf out by (auto simp: memcpy_def nat_diff_distrib')
    have 2: "memcpy (drop r b @ drop (n - r) out) (int n - int r) b 0 (int j - (int n - int r)) =
      Some (drop r b @ take (j - (n - r)) b @ drop j out)"
      using True wf out j by (auto simp: memcpy_def nat_diff_distrib')
    let ?rb = "\<lparr>rb_buf = b, rb_size = int n, rb_used = int (u - j), rb_rfx = int (j - (n - r)), rb_wfx = int w, rb_mode = m\<rparr>"
    show thesis
    proof (rule that [of ?rb], unfold j(1) c)
      show "rbuf_read rb out (int k) = Some (int j, take j (drop r b @ b) @ drop j out, ?rb)"
        using True lt wf 1 2 j(3) unfolding rbuf_read_def rb Let_def rbuf_t.select_convs j(2)
        by (simp add: c_simps)
      show "rbuf_wf ?rb" unfolding rbuf_wf_eq using wf True j(3) by auto
      show "rbuf_content ?rb = take (u - j) (drop j (drop r b @ b))"
        unfolding rb rbuf_content_eq using wf True j(3) by auto
    qed (simp_all add: rb)
  next
    case False
    have ge: "\<not> int n - int r < int j" using False wf by linarith
    have 1: "memcpy out 0 b (int r) (int j) = Some (take j (drop r b) @ drop j out)"
      using False wf out j(3) by (auto simp: memcpy_def)
    let ?rb = "\<lparr>rb_buf = b, rb_size = int n, rb_used = int (u - j), rb_rfx = int (r + j), rb_wfx = int w, rb_mode = m\<rparr>"
    show thesis
    proof (rule that [of ?rb], unfold j(1) c)
      show "rbuf_read rb out (int k) = Some (int j, take j (drop r b @ b) @ drop j out, ?rb)"
        using False ge wf 1 j(3) unfolding rbuf_read_def rb Let_def rbuf_t.select_convs j(2)
        by (simp add: c_simps)
      show "rbuf_wf ?rb" unfolding rbuf_wf_eq using wf False j(3) by auto
      show "rbuf_content ?rb = take (u - j) (drop j (drop r b @ b))"
        unfolding rb rbuf_content_eq using wf False j(3) by (auto simp: add.commute)
    qed (simp_all add: rb)
  qed
qed

lemma rbuf_put_ok:
  assumes "rbuf_wf rb" and "k \<le> nat (rb_size rb - rb_used rb)" and "k \<le> length inp"
  obtains rb' where "rbuf_put rb inp (rb_size rb - rb_wfx rb) (int k) = Some rb'"
    "rbuf_wf rb'" "rbuf_content rb' = rbuf_content rb @ take k inp"
    "rb_size rb' = rb_size rb" "rb_mode rb' = rb_mode rb"
  using assms(1)
proof (rule rbuf_fields)
  fix b n u r w m
  assume rb: "rb = \<lparr>rb_buf = b, rb_size = int n, rb_used = int u, rb_rfx = int r, rb_wfx = int w, rb_mode = m\<rparr>"
    and wf: "0 < n" "int n \<le> INT_MAX" "length b = n" "u \<le> n" "r \<le> n" "w \<le> n" "w = r + u \<or> w + n = r + u \<or> w = r + u + n"
  have k: "k \<le> n - u" using assms(2) by (simp add: rb)
  show thesis
  proof (cases "n - w < k")
    case True
    have lt: "int n - int w < int k" using True wf by linarith
    have w: "w = r + u \<or> w = n \<and> r = 0 \<and> u = 0" using wf k True by linarith
    let ?s = "k - (n - w)"
    let ?b1 = "take w b @ take (n - w) inp"
    let ?b = "take ?s (drop (n - w) inp) @ drop ?s ?b1"
    have s: "?s \<le> w" "n - w \<le> k" "?s \<le> n" using k True wf w by auto
    have sr: "w = r + u \<Longrightarrow> ?s \<le> r" using k True wf by auto
    have 1: "memcpy b (int w) inp 0 (int n - int w) = Some ?b1"
      using memcpy_nat [of w "n - w" b 0 inp] True wf assms(3) by (simp add: memcpy_def)
    have ints: "int n - int w = int (n - w)" "int k - int (n - w) = int ?s" using s wf by auto
    have 2: "memcpy ?b1 0 inp (int n - int w) (int k - (int n - int w)) = Some ?b"
      unfolding ints using memcpy_nat [of 0 ?s ?b1 "n - w" inp] True wf assms(3) s
      by (simp del: of_nat_diff)
    let ?rb = "\<lparr>rb_buf = ?b, rb_size = int n, rb_used = int (u + k), rb_rfx = int r, rb_wfx = int ?s, rb_mode = m\<rparr>"
    show thesis
    proof (rule that [of ?rb])
      show "rbuf_put rb inp (rb_size rb - rb_wfx rb) (int k) = Some ?rb"
        using True lt wf 1 2 k s unfolding rbuf_put_def rb by (simp add: c_simps)
      show "rbuf_wf ?rb" unfolding rbuf_wf_eq using wf s sr True k w assms(3) by auto
      show "rbuf_content ?rb = rbuf_content rb @ take k inp"
        unfolding rb rbuf_content_eq using w
      proof
        assume w: "w = r + u"
        have "take k inp = take (n - w) inp @ take ?s (drop (n - w) inp)"
          using s take_add [of "n - w" ?s inp] by simp
        then show "take (u + k) (drop r ?b @ ?b) = take u (drop r b @ b) @ take k inp"
          using w sr wf s True k assms(3) by (auto simp: drop_take)
      next
        assume "w = n \<and> r = 0 \<and> u = 0"
        with wf s True k assms(3) show "take (u + k) (drop r ?b @ ?b) = take u (drop r b @ b) @ take k inp"
          by auto
      qed
    qed (simp_all add: rb)
  next
    case False
    have ge: "\<not> int n - int w < int k" using False wf by linarith
    have w': "w + n = r + u \<Longrightarrow> u + r - n = w" by simp
    let ?b = "take w b @ take k inp @ drop (w + k) b"
    have 1: "memcpy b (int w) inp 0 (int k) = Some ?b"
      using memcpy_nat [of w k b 0 inp] False wf assms(3) by simp
    let ?rb = "\<lparr>rb_buf = ?b, rb_size = int n, rb_used = int (u + k), rb_rfx = int r, rb_wfx = int (w + k), rb_mode = m\<rparr>"
    show thesis
    proof (rule that [of ?rb])
      show "rbuf_put rb inp (rb_size rb - rb_wfx rb) (int k) = Some ?rb"
        using False ge wf 1 k unfolding rbuf_put_def rb by (simp add: c_simps)
      show "rbuf_wf ?rb" unfolding rbuf_wf_eq using wf False k assms(3) by auto
      show "rbuf_content ?rb = rbuf_content rb @ take k inp"
        unfolding rb rbuf_content_eq using wf False k assms(3) w' by (auto simp: drop_take)
    qed (simp_all add: rb)
  qed
qed

lemma rbuf_drop_ok:
  assumes "rbuf_wf rb" and "d \<le> nat (rb_used rb)"
  defines "rfx \<equiv> (if rb_rfx rb + int d \<ge> rb_size rb then rb_rfx rb + int d - rb_size rb else rb_rfx rb + int d)"
  shows "rbuf_wf (rb\<lparr>rb_rfx := rfx, rb_used := rb_used rb - int d\<rparr>)"
    and "rbuf_content (rb\<lparr>rb_rfx := rfx, rb_used := rb_used rb - int d\<rparr>) = drop d (rbuf_content rb)"
proof -
  obtain b n u r w m where rb: "rb = \<lparr>rb_buf = b, rb_size = int n, rb_used = int u, rb_rfx = int r, rb_wfx = int w, rb_mode = m\<rparr>"
    and wf: "0 < n" "int n \<le> INT_MAX" "length b = n" "u \<le> n" "r \<le> n" "w \<le> n" "w = r + u \<or> w + n = r + u \<or> w = r + u + n"
    using assms(1) by (rule rbuf_fields)
  have d: "d \<le> u" using assms(2) by (simp add: rb)
  let ?r = "if r + d \<ge> n then r + d - n else r + d"
  have eq: "rb\<lparr>rb_rfx := rfx, rb_used := rb_used rb - int d\<rparr> =
      \<lparr>rb_buf = b, rb_size = int n, rb_used = int (u - d), rb_rfx = int ?r, rb_wfx = int w, rb_mode = m\<rparr>"
    using d by (auto simp: rb rfx_def)
  show "rbuf_wf (rb\<lparr>rb_rfx := rfx, rb_used := rb_used rb - int d\<rparr>)"
    unfolding eq rbuf_wf_eq using wf d by auto
  show "rbuf_content (rb\<lparr>rb_rfx := rfx, rb_used := rb_used rb - int d\<rparr>) = drop d (rbuf_content rb)"
    unfolding eq unfolding rb rbuf_content_eq using wf d by (auto simp: drop_take add.commute)
qed

lemma rbuf_write_room:
  assumes "rbuf_wf rb" and "k \<le> length inp" and "0 < k" and "int (length inp) \<le> INT_MAX"
    and "rb_mode rb = RBUF_MODE_BLOCKING \<or> k \<le> nat (rb_size rb - rb_used rb)"
  defines "w \<equiv> min k (nat (rb_size rb - rb_used rb))"
  obtains rb' where "rbuf_write (Some rb) (Some inp) (int k) = Some (int w, Some rb')"
    "rbuf_wf rb'" "rbuf_content rb' = rbuf_content rb @ take w inp" "rb_size rb' = rb_size rb" "rb_mode rb' = rb_mode rb"
proof -
  note wf = rbuf_wfD [OF assms(1)]
  obtain rb' where rb': "rbuf_put rb inp (rb_size rb - rb_wfx rb) (int w) = Some rb'"
    "rbuf_wf rb'" "rbuf_content rb' = rbuf_content rb @ take w inp" "rb_size rb' = rb_size rb" "rb_mode rb' = rb_mode rb"
    by (rule rbuf_put_ok [OF assms(1), of w inp]) (use assms(2) in \<open>auto simp: w_def\<close>)
  have w: "(if int k > rb_size rb - rb_used rb then rb_size rb - rb_used rb else int k) = int w"
    using wf by (auto simp: w_def)
  have no: "(int w < int k \<and> rb_mode rb = RBUF_MODE_OVERWRITE) = False"
    using assms(5) by (auto simp: w_def)
  have av: "ck (rb_size rb - rb_used rb) = Some (rb_size rb - rb_used rb)"
    "ck (rb_size rb - rb_wfx rb) = Some (rb_size rb - rb_wfx rb)"
    using wf by (simp_all add: c_simps)
  have "rbuf_write (Some rb) (Some inp) (int k) = Some (int w, Some rb')"
    using assms(3) unfolding rbuf_write_def Let_def av bind.bind_lunit prod.case option.case w no if_False rb'(1)
    by simp
  then show thesis using rb'(2-) by (rule that)
qed

lemma rbuf_write_big:
  assumes "rbuf_wf rb" and "rb_mode rb = RBUF_MODE_OVERWRITE" and "k \<le> length inp" and "int k \<le> INT_MAX"
    and "nat (rb_size rb) < k"
  obtains rb' where "rbuf_write (Some rb) (Some inp) (int k) = Some (int k, Some rb')"
    "rbuf_wf rb'" "rbuf_content rb' = drop (k - nat (rb_size rb)) (take k inp)"
    "rb_size rb' = rb_size rb" "rb_mode rb' = rb_mode rb"
  using assms(1)
proof (rule rbuf_fields)
  fix b n u r w m
  assume rb: "rb = \<lparr>rb_buf = b, rb_size = int n, rb_used = int u, rb_rfx = int r, rb_wfx = int w, rb_mode = m\<rparr>"
    and wf: "0 < n" "int n \<le> INT_MAX" "length b = n" "u \<le> n" "r \<le> n" "w \<le> n" "w = r + u \<or> w + n = r + u \<or> w = r + u + n"
  have k: "n < k" using assms(5) by (simp add: rb)
  let ?b = "take n (drop (k - n) inp)"
  let ?rb = "\<lparr>rb_buf = ?b, rb_size = int n, rb_used = int n, rb_rfx = int 0, rb_wfx = int 0, rb_mode = m\<rparr>"
  have "memcpy b 0 inp (int k - int n) (int n) = Some ?b"
    using memcpy_nat [of 0 n b "k - n" inp] k wf assms(3) by simp
  moreover have "\<not> int k < int n" using k by simp
  ultimately have "rbuf_write (Some rb) (Some inp) (int k) = Some (int k, Some ?rb)"
    using k wf assms(2,4) unfolding rbuf_write_def rb by (simp add: c_simps)
  then show thesis
  proof (rule that)
    show "rbuf_wf ?rb" unfolding rbuf_wf_eq using wf k assms(3) by auto
    show "rbuf_content ?rb = drop (k - nat (rb_size rb)) (take k inp)"
      unfolding rb rbuf_content_eq using wf k assms(3) by (auto simp: drop_take)
  qed (simp_all add: rb)
qed

lemma rbuf_write_replace:
  assumes "rbuf_wf rb" and "rb_mode rb = RBUF_MODE_OVERWRITE" and "k \<le> length inp"
    and "nat (rb_size rb - rb_used rb) < k" and "k \<le> nat (rb_size rb)" and "rb_size rb < 2 ^ 30"
  obtains rb' where "rbuf_write (Some rb) (Some inp) (int k) = Some (int k, Some rb')"
    "rbuf_wf rb'" "rbuf_content rb' = drop (k - nat (rb_size rb - rb_used rb)) (rbuf_content rb) @ take k inp"
    "rb_size rb' = rb_size rb" "rb_mode rb' = rb_mode rb"
proof -
  note wf = rbuf_wfD [OF assms(1)]
  define a where "a = nat (rb_size rb - rb_used rb)"
  define d where "d = k - a"
  have a: "rb_size rb - rb_used rb = int a" "a < k" using wf assms(4) by (simp_all add: a_def)
  have d: "d \<le> nat (rb_used rb)" "int k - int a = int d" "int d \<le> rb_size rb" "int a + int d = int k"
    using a wf(4,5) assms(5) by (auto simp: d_def)
  let ?rfx = "if rb_rfx rb + int d \<ge> rb_size rb then rb_rfx rb + int d - rb_size rb else rb_rfx rb + int d"
  let ?rb = "rb\<lparr>rb_rfx := ?rfx, rb_used := rb_used rb - int d\<rparr>"
  note rb1 = rbuf_drop_ok [OF assms(1) d(1)]
  obtain rb' where rb': "rbuf_put ?rb inp (rb_size ?rb - rb_wfx ?rb) (int k) = Some rb'"
    "rbuf_wf rb'" "rbuf_content rb' = rbuf_content ?rb @ take k inp" "rb_size rb' = rb_size ?rb" "rb_mode rb' = rb_mode ?rb"
    by (rule rbuf_put_ok [OF rb1(1), of k inp]) (use assms(3) a d in auto)
  have no: "int a < int k" "\<not> int k > rb_size rb" "int k > int a" "rb_size rb - rb_wfx rb \<le> INT_MAX" "INT_MIN \<le> rb_size rb - rb_wfx rb"
      "int a \<le> INT_MAX" "INT_MIN \<le> int a" "int d \<le> INT_MAX" "INT_MIN \<le> int d" "INT_MIN \<le> rb_used rb - int d" "rb_used rb - int d \<le> INT_MAX"
      "INT_MIN \<le> rb_rfx rb + int d" "rb_rfx rb + int d \<le> INT_MAX" "int k \<le> INT_MAX" "INT_MIN \<le> int k"
    using a wf assms(5,6) d by auto
  have rfx: "(if rb_rfx rb + int d \<ge> rb_size rb then ck (rb_rfx rb + int d - rb_size rb) else Some (rb_rfx rb + int d)) = Some ?rfx"
    using wf d no by (simp add: c_simps)
  have "rbuf_write (Some rb) (Some inp) (int k) = Some (int k, Some rb')"
    using no assms(2) rb'(1) unfolding rbuf_write_def Let_def prod.case option.case a
    by (simp add: ck_Some d rfx)
  moreover have "rbuf_content rb' = drop (k - nat (rb_size rb - rb_used rb)) (rbuf_content rb) @ take k inp"
    using rb'(3) rb1(2) by (simp add: d_def a_def)
  ultimately show thesis using rb' by (auto intro: that)
qed

section \<open>Searching\<close>

lemma rbuf_scan_hit:
  assumes "octet \<in> set (take k (drop i b))" and "i + k \<le> hi"
  shows "rbuf_scan b octet (int i) (int hi) = Some (Some (int (i + first_pos octet (drop i b))))"
  using assms
proof (induction k arbitrary: i)
  case (Suc k)
  then have i: "i < length b" by (metis drop_all empty_iff leI list.set(1) take_Nil)
  then have cons: "drop i b = b ! i # drop (Suc i) b" by (simp add: Cons_nth_drop_Suc)
  show ?case
  proof (cases "b ! i = octet")
    case False
    with Suc.prems cons have "octet \<in> set (take k (drop (Suc i) b))" "Suc i + k \<le> hi" by auto
    from Suc.IH [OF this] False i cons Suc.prems show ?thesis
      by (subst rbuf_scan.simps) (auto simp: rd_def add.commute)
  qed (use i cons Suc.prems in \<open>subst rbuf_scan.simps, auto simp: rd_def\<close>)
qed simp

lemma rbuf_scan_miss:
  assumes "octet \<notin> set (take (hi - i) (drop i b))" and "hi \<le> length b"
  shows "rbuf_scan b octet (int i) (int hi) = Some None"
  using assms
proof (induction "hi - i" arbitrary: i)
  case 0
  then show ?case by (subst rbuf_scan.simps) simp
next
  case (Suc k)
  then have i: "i < length b" "i < hi" "hi - i = Suc (hi - Suc i)" by linarith+
  then have cons: "drop i b = b ! i # drop (Suc i) b" by (simp add: Cons_nth_drop_Suc)
  have "octet \<notin> set (take (hi - Suc i) (drop (Suc i) b))" "b ! i \<noteq> octet"
    using Suc.prems(1) unfolding cons i(3) by auto
  with Suc.hyps(1) [of "Suc i"] Suc.hyps(2) Suc.prems(2) i show ?case
    by (subst rbuf_scan.simps) (auto simp: rd_def add.commute)
qed

lemma rbuf_find_hit:
  assumes "rbuf_wf rb" and "octet \<in> set (rbuf_content rb)"
  shows "rbuf_find rb octet = Some (int (first_pos octet (rbuf_content rb)))"
  using assms(1)
proof (rule rbuf_fields)
  fix b n u r w m
  assume rb: "rb = \<lparr>rb_buf = b, rb_size = int n, rb_used = int u, rb_rfx = int r, rb_wfx = int w, rb_mode = m\<rparr>"
    and wf: "0 < n" "int n \<le> INT_MAX" "length b = n" "u \<le> n" "r \<le> n" "w \<le> n" "w = r + u \<or> w + n = r + u \<or> w = r + u + n"
  have c: "rbuf_content rb = take u (drop r b @ b)" by (simp add: rb rbuf_content_eq)
  have u: "0 < u" using assms(2) by (cases u) (auto simp: c)
  have le: "first_pos octet (rbuf_content rb) < n"
    using first_pos_less [OF assms(2)] length_rbuf_content [OF assms(1)] wf by (simp add: rb)
  show ?thesis
  proof (cases "w > r")
    case True
    then have w: "w = r + u" using wf u by linarith
    then have c': "rbuf_content rb = take u (drop r b)" using wf by (simp add: c)
    have "first_pos octet (drop r b) = first_pos octet (rbuf_content rb)"
      using assms(2) by (simp add: c' first_pos_take)
    with rbuf_scan_hit [of octet u r b "w + 1"] assms(2) c' True u w le wf show ?thesis
      by (simp add: rb rbuf_find_def rbuf_used_def c_simps add.commute)
  next
    case False
    then have w: "w + n = r + u" using wf u by linarith
    then have "u - (n - r) = w" using wf by linarith
    with w have c': "rbuf_content rb = drop r b @ take w b" using wf by (auto simp: c)
    show ?thesis
    proof (cases "octet \<in> set (drop r b)")
      case True
      then have fp: "first_pos octet (rbuf_content rb) = first_pos octet (drop r b)"
        by (simp add: c' first_pos_append)
      have "octet \<in> set (take (n - r) (drop r b))" using True wf by simp
      from rbuf_scan_hit [OF this, of n] False u w le [unfolded fp] wf show ?thesis
        unfolding fp by (simp add: rb rbuf_find_def rbuf_used_def c_simps int_ok_def)
    next
      case absent: False
      then have miss: "rbuf_scan b octet (int r) (int n) = Some None"
        using rbuf_scan_miss [of octet n r b] wf by simp
      have in_w: "octet \<in> set (take w (drop 0 b))" using assms(2) absent by (simp add: c')
      have fp: "first_pos octet (rbuf_content rb) = (n - r) + first_pos octet b"
        using in_w absent wf by (simp add: c' first_pos_append first_pos_take)
      from rbuf_scan_hit [OF in_w, of "w + 1"] miss False u w le [unfolded fp] wf show ?thesis
        unfolding fp by (simp add: rb rbuf_find_def rbuf_used_def c_simps int_ok_def add.commute)
    qed
  qed
qed

lemma rbuf_until_to_end_ok:
  assumes "length b = nat (rb_size rb)" "rb_buf rb = b" "rb_size rb \<le> INT_MAX" "i \<le> length b" "j \<le> i" "used = int u" "u \<le> length b"
    and "to_read = int u - int j" and "ys = upto_first octet (take (q - j) (drop i b))" and "j + length ys \<le> length out"
  shows "rbuf_until_to_end rb octet used (int q) (int i) (int j) to_read out =
     Some (octet \<in> set (take (q - j) (drop i b)),
           int (if octet \<in> set (take (q - j) (drop i b)) then j + length ys - 1 else j + length ys),
           int u - int j - int (length ys), patch out j ys)"
  using assms
proof (induction "length b - i" arbitrary: i j to_read out ys)
  case 0
  then show ?case by (subst rbuf_until_to_end.simps) (simp)
next
  case (Suc k)
  then have i: "i < length b" by linarith
  then have cons: "drop i b = b ! i # drop (Suc i) b" by (simp add: Cons_nth_drop_Suc)
  show ?case
  proof (cases "j < q")
    case False
    with Suc.prems show ?thesis by (subst rbuf_until_to_end.simps) (simp add: c_simps)
  next
    case True
    then have q: "q - j = Suc (q - Suc j)" by simp
    let ?zs = "upto_first octet (take (q - Suc j) (drop (Suc i) b))"
    have ys: "ys = (if b ! i = octet then [b ! i] else b ! i # ?zs)"
      using Suc.prems(9) by (simp add: cons q)
    have out: "j < length out" using Suc.prems(10) ys by (auto split: if_splits)
    show ?thesis
    proof (cases "b ! i = octet")
      case hit: True
      with Suc.prems i True out ys q cons show ?thesis
        by (subst rbuf_until_to_end.simps) (simp add: c_simps patch_update [symmetric])
    next
      case miss: False
      have IH: "rbuf_until_to_end rb octet used (int q) (int (Suc i)) (int (Suc j)) (to_read - 1) (out[j := b ! i]) =
         Some (octet \<in> set (take (q - Suc j) (drop (Suc i) b)),
           int (if octet \<in> set (take (q - Suc j) (drop (Suc i) b)) then Suc j + length ?zs - 1 else Suc j + length ?zs),
           int u - int (Suc j) - int (length ?zs), patch (out[j := b ! i]) (Suc j) ?zs)"
        by (rule Suc.hyps(1)) (use Suc.hyps(2) Suc.prems(1-8) Suc.prems(10) i miss ys in auto)
      with Suc.prems i True out miss ys q cons show ?thesis
        by (subst rbuf_until_to_end.simps) (simp add: c_simps patch_update add.commute)
    qed
  qed
qed

lemma rbuf_until_from_start_ok:
  assumes "rb_buf rb = b" "used = int u" "int u \<le> INT_MAX" "to_read = int t" "t \<le> u" "i + t \<le> length b"
    and "ys = upto_first octet (take (min (q - (u - t)) t) (drop i b))" and "j + length ys \<le> length out"
  shows "rbuf_until_from_start rb octet used (int q) (int i) (int j) to_read out =
     Some (int t - int (length ys), patch out j ys)"
  using assms
proof (induction t arbitrary: i j to_read out ys)
  case 0
  then show ?case by (subst rbuf_until_from_start.simps) simp
next
  case (Suc t)
  then have i: "i < length b" by linarith
  then have cons: "drop i b = b ! i # drop (Suc i) b" by (simp add: Cons_nth_drop_Suc)
  show ?case
  proof (cases "u - Suc t < q")
    case False
    then have "\<not> int u - int (Suc t) < int q" using Suc.prems(5) by linarith
    with False Suc.prems show ?thesis by (subst rbuf_until_from_start.simps) (simp add: c_simps)
  next
    case True
    then have q: "min (q - (u - Suc t)) (Suc t) = Suc (min (q - (u - t)) t)" using Suc.prems(5) by linarith
    have lt: "int u - int (Suc t) < int q" using True Suc.prems(5) by linarith
    let ?zs = "upto_first octet (take (min (q - (u - t)) t) (drop (Suc i) b))"
    have ys: "ys = (if b ! i = octet then [b ! i] else b ! i # ?zs)"
      using Suc.prems(7) by (simp add: cons q)
    have out: "j < length out" using Suc.prems(8) ys by (auto split: if_splits)
    show ?thesis
    proof (cases "b ! i = octet")
      case hit: True
      with Suc.prems(1-6) i lt out ys show ?thesis
        by (subst rbuf_until_from_start.simps) (simp add: c_simps patch_update [symmetric])
    next
      case miss: False
      have IH: "rbuf_until_from_start rb octet used (int q) (int (Suc i)) (int (Suc j)) (int t) (out[j := b ! i]) =
         Some (int t - int (length ?zs), patch (out[j := b ! i]) (Suc j) ?zs)"
        by (rule Suc.IH) (use Suc.prems(1-6) Suc.prems(8) i miss ys in auto)
      with Suc.prems(1-6) i lt out miss ys show ?thesis
        by (subst rbuf_until_from_start.simps) (simp add: c_simps patch_update add.commute)
    qed
  qed
qed

lemma rbuf_skip_ok:
  assumes "rbuf_wf rb"
  obtains rb' where "rbuf_skip rb (int k) = Some rb'" "rbuf_wf rb'" "rbuf_content rb' = drop k (rbuf_content rb)"
    "rb_size rb' = rb_size rb" "rb_mode rb' = rb_mode rb"
  using assms
proof (rule rbuf_fields)
  fix b n u r w m
  assume rb: "rb = \<lparr>rb_buf = b, rb_size = int n, rb_used = int u, rb_rfx = int r, rb_wfx = int w, rb_mode = m\<rparr>"
    and wf: "0 < n" "int n \<le> INT_MAX" "length b = n" "u \<le> n" "r \<le> n" "w \<le> n" "w = r + u \<or> w + n = r + u \<or> w = r + u + n"
  show thesis
  proof (cases "k \<ge> u")
    case True
    let ?rb = "\<lparr>rb_buf = b, rb_size = int n, rb_used = int 0, rb_rfx = int w, rb_wfx = int w, rb_mode = m\<rparr>"
    show thesis
    proof (rule that [of ?rb])
      show "rbuf_wf ?rb" unfolding rbuf_wf_eq using wf by auto
      show "rbuf_content ?rb = drop k (rbuf_content rb)"
        unfolding rb rbuf_content_eq using True by (simp only: drop_take_min) simp
    qed (use True in \<open>simp_all add: rb rbuf_skip_def\<close>)
  next
    case False
    let ?r = "if k > n - r then k - (n - r) else r + k"
    have lt: "int k > int n - int r \<longleftrightarrow> k > n - r" using wf by linarith
    let ?rb = "\<lparr>rb_buf = b, rb_size = int n, rb_used = int (u - k), rb_rfx = int ?r, rb_wfx = int w, rb_mode = m\<rparr>"
    show thesis
    proof (rule that [of ?rb])
      show "rbuf_skip rb (int k) = Some ?rb"
        using False wf lt by (auto simp: rb rbuf_skip_def c_simps)
      show "rbuf_wf ?rb" unfolding rbuf_wf_eq using wf False by auto
      show "rbuf_content ?rb = drop k (rbuf_content rb)"
        unfolding rb rbuf_content_eq using wf False by (auto simp: drop_take add.commute)
    qed (simp_all add: rb)
  qed
qed

lemma rbuf_read_until_ok:
  assumes "rbuf_wf rb" and "octet \<in> set (rbuf_content rb) \<or> q \<le> nat (rb_used rb)"
    and "ys = upto_first octet (take q (rbuf_content rb))" and "length ys \<le> length out"
  obtains rb' where "rbuf_read_until rb octet out (int q) = Some (int (length ys), patch out 0 ys, rb')"
    "rbuf_wf rb'" "rbuf_content rb' = drop (length ys) (rbuf_content rb)" "rb_size rb' = rb_size rb" "rb_mode rb' = rb_mode rb"
  using assms(1)
proof (rule rbuf_fields)
  fix b n u r w m
  assume rb: "rb = \<lparr>rb_buf = b, rb_size = int n, rb_used = int u, rb_rfx = int r, rb_wfx = int w, rb_mode = m\<rparr>"
    and wf: "0 < n" "int n \<le> INT_MAX" "length b = n" "u \<le> n" "r \<le> n" "w \<le> n" "w = r + u \<or> w + n = r + u \<or> w = r + u + n"
  have c: "rbuf_content rb = take u (drop r b @ b)" by (simp add: rb rbuf_content_eq)
  have oct: "octet \<in> set (take u (drop r b @ b)) \<or> q \<le> u" using assms(2) unfolding c by (simp add: rb)
  let ?A = "take q (drop r b)" and ?B = "take (min q u - (n - r)) b"
  define zs where "zs = (if octet \<in> set ?A then [] else upto_first octet ?B)"
  have le: "length ?A \<le> u" if "octet \<notin> set ?A"
    using that oct set_take_subset_set_take [of u q "drop r b"] wf by (cases "q \<le> u"; cases "u \<le> n - r") auto
  have "take q (rbuf_content rb) = take (min q u) (drop r b @ b)" by (simp only: c take_take_min)
  also have "\<dots> = take (min q u) (drop r b) @ ?B" using wf by simp
  finally have ys0: "ys = upto_first octet (take (min q u) (drop r b) @ ?B)" by (simp add: assms(3))
  have ys: "ys = upto_first octet ?A @ zs"
  proof (cases "octet \<in> set ?A")
    case True
    show ?thesis
    proof (cases "q \<le> u")
      case False
      then have "ys = upto_first octet (take u (drop r b @ b))" using assms(3) by (simp add: c)
      also have "\<dots> = upto_first octet (drop r b @ b)" using oct False by (intro upto_first_take) blast
      also have "\<dots> = upto_first octet ?A"
        using in_set_takeD [OF True] by (simp add: upto_first_append upto_first_take True)
      finally show ?thesis by (simp add: zs_def True)
    qed (use True in \<open>simp add: ys0 zs_def upto_first_append min_def\<close>)
  next
    case False
    have "take u ?A = ?A" using le [OF False] by (rule take_all)
    then have "take (min q u) (drop r b) = ?A" by (simp only: take_take_min min.commute)
    with False show ?thesis by (simp add: ys0 zs_def upto_first_append upto_first_absent)
  qed
  obtain rb' where skip: "rbuf_skip rb (int (length ys)) = Some rb'" "rbuf_wf rb'" "rbuf_content rb' = drop (length ys) (rbuf_content rb)"
    "rb_size rb' = rb_size rb" "rb_mode rb' = rb_mode rb"
    using assms(1) by (rule rbuf_skip_ok)
  let ?ys = "upto_first octet ?A"
  have ylen: "length ys \<le> n"
    using length_upto_first [of octet "take q (rbuf_content rb)"] length_rbuf_content [OF assms(1)]
      rbuf_wfD(5) [OF assms(1)] unfolding assms(3) by (simp add: rb)
  have 1: "rbuf_until_to_end rb octet (int u) (int q) (int r) (int 0) (int u) out =
     Some (octet \<in> set (take (q - 0) (drop r b)),
           int (if octet \<in> set (take (q - 0) (drop r b)) then 0 + length ?ys - 1 else 0 + length ?ys),
           int u - int 0 - int (length ?ys), patch out 0 ?ys)"
    by (rule rbuf_until_to_end_ok) (use wf assms(4) ys in \<open>auto simp: rb\<close>)
  have "rbuf_read_until rb octet out (int q) = Some (int (length ys), patch out 0 ys, rb')"
  proof (cases "octet \<in> set ?A")
    case True
    with 1 ys skip ylen wf show ?thesis
      by (simp add: rbuf_read_until_def rb zs_def c_simps)
  next
    case False
    let ?t = "u - length ?A"
    have A: "?ys = ?A" using False by (simp add: upto_first_absent)
    have "min (n - r) q \<le> u" using le [OF False] wf by simp
    then have "min (q - min (n - r) q) (u - min (n - r) q) = min q u - (n - r)" by (auto simp: min_def)
    then have lim: "min (q - (u - ?t)) ?t = min q u - (n - r)" using le [OF False] wf by simp
    have lens: "length ?A + length zs \<le> length (patch out 0 ?A)" using assms(4) unfolding ys A by (subst length_patch) simp_all
    have 2: "rbuf_until_from_start rb octet (int u) (int q) (int 0) (int (length ?A)) (int ?t) (patch out 0 ?A) =
       Some (int ?t - int (length zs), patch (patch out 0 ?A) (length ?A) zs)"
    proof (rule rbuf_until_from_start_ok [OF _ refl _ refl _ _ _ lens])
      show "zs = upto_first octet (take (min (q - (u - ?t)) ?t) (drop 0 b))"
        unfolding lim zs_def using False by simp
      show "0 + ?t \<le> length b" "int u \<le> INT_MAX" "?t \<le> u" using wf(2-4) by simp_all
    qed (simp add: rb)
    have "patch (patch out 0 ?A) (length ?A) zs = patch out 0 ys"
      using patch_patch [of 0 ?A zs out] assms(4) ys A by simp
    with 1 2 A ys skip False ylen wf le [OF False] show ?thesis
      by (simp add: rbuf_read_until_def rb c_simps)
  qed
  then show thesis using skip(2-) by (rule that)
qed

section \<open>Moving and copying into a cleared ring buffer\<close>

lemma rbuf_read_at_ok:
  assumes "rbuf_wf src" and "off + min k (nat (rb_used src)) \<le> length buf"
  obtains src' where "rbuf_read_at src buf (int off) (int k) = Some (src', patch buf off (take k (rbuf_content src)))"
    "rbuf_wf src'" "rbuf_content src' = drop k (rbuf_content src)" "rb_size src' = rb_size src" "rb_mode src' = rb_mode src"
proof -
  have out: "min k (nat (rb_used src)) \<le> length (drop off buf)" using assms(2) by simp
  obtain src' where src': "rbuf_read src (drop off buf) (int k) =
       Some (int (min k (nat (rb_used src))), take k (rbuf_content src) @ drop (min k (nat (rb_used src))) (drop off buf), src')"
    "rbuf_wf src'" "rbuf_content src' = drop k (rbuf_content src)" "rb_size src' = rb_size src" "rb_mode src' = rb_mode src"
    by (rule rbuf_read_ok [OF assms(1) out])
  have "rbuf_read_at src buf (int off) (int k) = Some (src', patch buf off (take k (rbuf_content src)))"
    using src'(1) assms(2) length_rbuf_content [OF assms(1)]
    by (simp add: rbuf_read_at_def patch_def min.commute add.commute)
  then show thesis using src'(2-) by (rule that)
qed

definition rbuf_fresh :: "rbuf_t \<Rightarrow> bool" where
  "rbuf_fresh rb \<longleftrightarrow> rbuf_wf rb \<and> rb_rfx rb = 0 \<and> rb_wfx rb = 0 \<and> rb_used rb = 0"

lemma rbuf_fresh_filled:
  assumes "rbuf_fresh dst" and "length xs \<le> nat (rb_size dst)"
  defines "dst' \<equiv> dst\<lparr>rb_buf := patch (rb_buf dst) 0 xs, rb_wfx := int (length xs), rb_used := int (length xs)\<rparr>"
  shows "rbuf_wf dst'" and "rbuf_content dst' = xs"
  using assms by (auto simp: rbuf_fresh_def rbuf_wf_def rbuf_content_def patch_def)

lemma rbuf_clear_fresh: "rbuf_wf rb \<Longrightarrow> rbuf_fresh (rbuf_clear rb)"
  by (auto simp: rbuf_fresh_def rbuf_wf_def rbuf_clear_def)

lemma rbuf_create_fresh:
  assumes "rbuf_create True malloc sz = Some rb" and "\<And>n b. malloc n = Some b \<Longrightarrow> length b = n"
    and "0 \<le> sz" and "sz \<le> INT_MAX"
  shows "rbuf_fresh rb" and "rb_size rb = (if sz = 0 then 4096 else sz)"
  using assms by (auto simp: rbuf_create_def rbuf_fresh_def rbuf_wf_def RBUF_DEFAULT_SIZE_def Let_def split: option.splits if_splits)

lemma rbuf_copy_internal_fresh:
  assumes "rbuf_wf src" and "rbuf_fresh dst" and "0 < len"
  defines "k \<equiv> min len (min (nat (rb_size dst)) (nat (rb_used src)))"
  shows "rbuf_copy_internal (Some src) (Some dst) (int len) mv =
    do { (src, buf, wfx) \<leftarrow> (if k = 0 then rbuf_copy_flat src dst 0 mv else rbuf_copy_wrap src dst 0 (int k) mv);
         Some (int k, Some src, Some (dst\<lparr>rb_buf := buf, rb_wfx := wfx, rb_used := int k\<rparr>)) }"
proof -
  have dst: "rb_rfx dst = 0" "rb_wfx dst = 0" "rb_used dst = 0" "rbuf_wf dst" using assms(2) by (auto simp: rbuf_fresh_def)
  note wfs = rbuf_wfD [OF assms(1)] and wfd = rbuf_wfD [OF dst(4)]
  have k: "(if rb_used src < (if int len < rb_size dst then int len else rb_size dst) then rb_used src
      else (if int len < rb_size dst then int len else rb_size dst)) = int k"
    using wfs wfd by (auto simp: k_def min_def)
  have ck: "ck (rb_size dst - rb_used dst) = Some (rb_size dst)"
    "(if rb_wfx dst > rb_rfx dst then ck (rb_size dst - rb_wfx dst) else ck (rb_rfx dst - rb_wfx dst)) = Some 0"
    using dst wfd by (simp_all add: c_simps)
  have len: "(int len = 0) = False" "(0 \<ge> int k) = (k = 0)" using assms(3) by auto
  have k0: "(if k = 0 then rbuf_copy_flat src dst (int k) mv else rbuf_copy_wrap src dst 0 (int k) mv) =
      (if k = 0 then rbuf_copy_flat src dst 0 mv else rbuf_copy_wrap src dst 0 (int k) mv)" by simp
  show ?thesis
    unfolding rbuf_copy_internal_def prod.case option.case len if_False rbuf_available_def rbuf_used_def ck
      bind.bind_lunit Let_def k k0 by simp
qed

lemma rbuf_move_fresh_ok:
  assumes "rbuf_wf src" and "rbuf_fresh dst" and "0 < len"
  defines "k \<equiv> min len (min (nat (rb_size dst)) (nat (rb_used src)))"
  obtains src' dst' where "rbuf_move (Some src) (Some dst) (int len) = Some (int k, Some src', Some dst')"
    "rbuf_wf src'" "rbuf_wf dst'" "rbuf_content src' = drop k (rbuf_content src)" "rbuf_content dst' = take k (rbuf_content src)"
proof -
  have dst: "rb_rfx dst = 0" "rb_wfx dst = 0" "rb_used dst = 0" "rbuf_wf dst" using assms(2) by (auto simp: rbuf_fresh_def)
  note wfs = rbuf_wfD [OF assms(1)] and wfd = rbuf_wfD [OF dst(4)]
  have kle: "k \<le> nat (rb_used src)" "k \<le> length (rb_buf dst)" using wfd by (auto simp: k_def)
  have len: "length (take k (rbuf_content src)) = k" using kle length_rbuf_content [OF assms(1)] by simp
  obtain src1 where 1: "rbuf_read_at src (rb_buf dst) (int 0) (int 0) = Some (src1, patch (rb_buf dst) 0 (take 0 (rbuf_content src)))"
      "rbuf_wf src1" "rbuf_content src1 = drop 0 (rbuf_content src)" "rb_size src1 = rb_size src" "rb_mode src1 = rb_mode src"
    by (rule rbuf_read_at_ok [OF assms(1), of 0 0 "rb_buf dst"]) auto
  have used: "nat (rb_used src1) = nat (rb_used src)"
    using length_rbuf_content [OF 1(2)] length_rbuf_content [OF assms(1)] 1(3) by simp
  obtain src2 where 2: "rbuf_read_at src1 (rb_buf dst) (int 0) (int k) = Some (src2, patch (rb_buf dst) 0 (take k (rbuf_content src1)))"
      "rbuf_wf src2" "rbuf_content src2 = drop k (rbuf_content src1)" "rb_size src2 = rb_size src1" "rb_mode src2 = rb_mode src1"
    by (rule rbuf_read_at_ok [OF 1(2), of 0 k "rb_buf dst"]) (use kle used in auto)
  let ?dst = "dst\<lparr>rb_buf := patch (rb_buf dst) 0 (take k (rbuf_content src)), rb_wfx := int (length (take k (rbuf_content src))),
                 rb_used := int (length (take k (rbuf_content src)))\<rparr>"
  have fd: "rbuf_wf ?dst" "rbuf_content ?dst = take k (rbuf_content src)"
    using rbuf_fresh_filled [OF assms(2), of "take k (rbuf_content src)"] len kle wfd(3) by simp_all
  show thesis
  proof (cases "k = 0")
    case True
    then have "rbuf_move (Some src) (Some dst) (int len) = Some (int k, Some src1, Some ?dst)"
      using 1 dst len unfolding rbuf_move_def rbuf_copy_internal_fresh [OF assms(1-3)] k_def [symmetric]
      by (simp add: rbuf_copy_flat_def c_simps)
    then show thesis using 1 fd True by (intro that [of src1 ?dst]) auto
  next
    case False
    then have "rbuf_move (Some src) (Some dst) (int len) = Some (int k, Some src2, Some ?dst)"
      using 1 2 wfd dst len kle unfolding rbuf_move_def rbuf_copy_internal_fresh [OF assms(1-3)] k_def [symmetric]
      by (simp add: rbuf_copy_wrap_def c_simps)
    then show thesis using 1 2 fd by (intro that [of src2 ?dst]) auto
  qed
qed

lemma rbuf_copy_fresh_ok:
  assumes "rbuf_wf src" and "rb_rfx src < rb_wfx src" and "rb_used src > 0" and "rbuf_fresh dst" and "0 < len"
  defines "k \<equiv> min len (min (nat (rb_size dst)) (nat (rb_used src)))"
  obtains dst' where "rbuf_copy (Some src) (Some dst) (int len) = Some (int k, Some src, Some dst')"
    "rbuf_wf dst'" "rbuf_content dst' = take k (rbuf_content src)"
proof -
  have dst: "rb_rfx dst = 0" "rb_wfx dst = 0" "rb_used dst = 0" "rbuf_wf dst" using assms(4) by (auto simp: rbuf_fresh_def)
  note wfs = rbuf_wfD [OF assms(1)] and wfd = rbuf_wfD [OF dst(4)]
  have kpos: "0 < k" using assms(3,5) wfd by (simp add: k_def)
  have kle: "k \<le> nat (rb_used src)" "k \<le> length (rb_buf dst)" using wfd by (auto simp: k_def)
  have flat: "nat (rb_rfx src) + k \<le> length (rb_buf src)" using wfs assms(2) kle kpos by auto
  then have c: "take k (drop (nat (rb_rfx src)) (rb_buf src)) = take k (rbuf_content src)"
    using kle by (simp add: rbuf_content_def min_absorb1)
  have len: "length (take k (rbuf_content src)) = k" using kle length_rbuf_content [OF assms(1)] by simp
  have cpy: "memcpy (rb_buf dst) 0 (rb_buf src) (rb_rfx src) (int k) = Some (patch (rb_buf dst) 0 (take k (rbuf_content src)))"
    using memcpy_nat [of 0 k "rb_buf dst" "nat (rb_rfx src)" "rb_buf src"] flat kle wfs c len by (simp add: patch_def)
  let ?dst = "dst\<lparr>rb_buf := patch (rb_buf dst) 0 (take k (rbuf_content src)), rb_wfx := int (length (take k (rbuf_content src))),
                 rb_used := int (length (take k (rbuf_content src)))\<rparr>"
  have fd: "rbuf_wf ?dst" "rbuf_content ?dst = take k (rbuf_content src)"
    using rbuf_fresh_filled [OF assms(4), of "take k (rbuf_content src)"] len kle wfd(3) by simp_all
  have "rbuf_copy (Some src) (Some dst) (int len) = Some (int k, Some src, Some ?dst)"
    using cpy assms(2) wfd wfs dst len kle kpos unfolding rbuf_copy_def rbuf_copy_internal_fresh [OF assms(1,4,5)] k_def [symmetric]
    by (simp add: rbuf_copy_wrap_def c_simps)
  then show thesis using fd by (intro that) auto
qed

section \<open>The channel interface\<close>

definition rbuf_fifo_put :: "rbuf_t \<Rightarrow> byte list \<Rightarrow> (nat \<times> rbuf_t) option" where
  "rbuf_fifo_put rb xs =
     (case rbuf_write (Some rb) (Some xs) (int (length xs)) of
        Some (n, Some rb') \<Rightarrow> Some (nat n, rb') | _ \<Rightarrow> None)"

definition rbuf_fifo_get :: "rbuf_t \<Rightarrow> nat \<Rightarrow> (byte list \<times> rbuf_t) option" where
  "rbuf_fifo_get rb n = do {
     (k, out, rb') \<leftarrow> rbuf_read rb (replicate n 0) (int n);
     Some (take (nat k) out, rb')
   }"

lemma rbuf_fifo_put_ok:
  assumes "rbuf_wf rb" and "rb_mode rb = RBUF_MODE_BLOCKING" and "length xs \<le> 2147483647"
  defines "n \<equiv> min (length xs) (nat (rb_size rb - rb_used rb))"
  obtains rb' where "rbuf_fifo_put rb xs = Some (n, rb')" "rbuf_wf rb'"
    "rbuf_content rb' = rbuf_content rb @ take n xs" "rb_size rb' = rb_size rb" "rb_mode rb' = rb_mode rb"
proof (cases "xs = []")
  case True
  then show thesis using assms(1) by (intro that [of rb]) (simp_all add: n_def rbuf_write_def rbuf_fifo_put_def)
next
  case False
  obtain rb' where "rbuf_write (Some rb) (Some xs) (int (length xs)) = Some (int n, Some rb')"
    "rbuf_wf rb'" "rbuf_content rb' = rbuf_content rb @ take n xs" "rb_size rb' = rb_size rb" "rb_mode rb' = rb_mode rb"
    unfolding n_def by (rule rbuf_write_room [OF assms(1), of "length xs" xs]) (use False assms(2,3) in auto)
  then show thesis by (intro that [of rb']) (simp_all add: rbuf_fifo_put_def)
qed

lemma rbuf_fifo_get_ok:
  assumes "rbuf_wf rb"
  obtains rb' where "rbuf_fifo_get rb n = Some (take n (rbuf_content rb), rb')" "rbuf_wf rb'"
    "rbuf_content rb' = drop n (rbuf_content rb)" "rb_size rb' = rb_size rb" "rb_mode rb' = rb_mode rb"
proof -
  obtain rb' where "rbuf_read rb (replicate n 0) (int n) =
       Some (int (min n (nat (rb_used rb))), take n (rbuf_content rb) @ drop (min n (nat (rb_used rb))) (replicate n 0), rb')"
    "rbuf_wf rb'" "rbuf_content rb' = drop n (rbuf_content rb)" "rb_size rb' = rb_size rb" "rb_mode rb' = rb_mode rb"
    by (rule rbuf_read_ok [OF assms, of n "replicate n 0"]) simp
  then show thesis
    by (intro that [of rb']) (simp_all add: rbuf_fifo_get_def length_rbuf_content [OF assms] min_def)
qed

interpretation rbuf_fifo: bounded_fifo "\<lambda>rb. rbuf_wf rb \<and> rb_mode rb = RBUF_MODE_BLOCKING" rbuf_content
  rbuf_fifo_put rbuf_fifo_get 2147483647 "\<lambda>rb. nat (rb_size rb)"
proof (unfold_locales, goal_cases)
  case (1 r xs)
  then show ?case by (metis rbuf_fifo_put_ok)
next
  case (2 r n)
  then show ?case by (metis rbuf_fifo_get_ok)
next
  case (3 r xs n r')
  then have "nat (rb_size r) - length (rbuf_content r) = nat (rb_size r - rb_used r)"
    using length_rbuf_content [of r] rbuf_wfD [of r] by auto
  with 3 rbuf_fifo_put_ok [of r xs] show ?case by (metis Pair_inject option.inject)
next
  case (4 r n ys r')
  then show ?case by (metis rbuf_fifo_get_ok Pair_inject option.inject)
next
  case (5 r)
  then show ?case using length_rbuf_content [of r] rbuf_wfD [of r] by auto
next
  case (6 r)
  then show ?case using rbuf_wfD [of r] by auto
qed

section \<open>Properties\<close>

text \<open>
  \<open>C14\<close>: in blocking mode \<open>rbuf_write\<close> takes as many bytes as there is room for, returns
  their number, and appends exactly these to the stored bytes, without an access outside of the
  buffers and without a signed overflow.
\<close>

theorem rbuf_write_blocking:
  assumes "rbuf_wf rb" and "rb_mode rb = RBUF_MODE_BLOCKING" and "length inp \<le> 2147483647"
  defines "n \<equiv> min (length inp) (nat (rb_size rb - rb_used rb))"
  shows "\<exists>rb'. rbuf_write (Some rb) (Some inp) (int (length inp)) = Some (int n, Some rb') \<and> rbuf_wf rb' \<and>
           rbuf_content rb' = rbuf_content rb @ take n inp \<and> rb_size rb' = rb_size rb \<and> rb_mode rb' = rb_mode rb"
proof (cases "inp = []")
  case True
  then show ?thesis using assms(1) by (simp add: n_def rbuf_write_def)
next
  case False
  then show ?thesis
    using rbuf_write_room [OF assms(1), of "length inp" inp] assms(2,3) unfolding n_def by fastforce
qed

text \<open>
  \<open>C15\<close>: in overwrite mode \<open>rbuf_write\<close> always reports the whole input as written and the
  ring buffer then holds the last \<open>rb_size\<close> bytes of what it held followed by the input, for
  buffers of less than a gibibyte (beyond, \<open>rfx += diff\<close> may overflow).
\<close>

theorem rbuf_write_overwrite:
  assumes "rbuf_wf rb" and "rb_mode rb = RBUF_MODE_OVERWRITE" and "length inp \<le> 2147483647" and "rb_size rb < 2 ^ 30"
  shows "\<exists>rb'. rbuf_write (Some rb) (Some inp) (int (length inp)) = Some (int (length inp), Some rb') \<and> rbuf_wf rb' \<and>
           rbuf_content rb' = (let all = rbuf_content rb @ inp in drop (length all - nat (rb_size rb)) all) \<and>
           rb_size rb' = rb_size rb \<and> rb_mode rb' = rb_mode rb"
proof -
  note wf = rbuf_wfD [OF assms(1)]
  have len: "length (rbuf_content rb) = nat (rb_used rb)" by (rule length_rbuf_content [OF assms(1)])
  consider "inp = []" | "inp \<noteq> []" "length inp \<le> nat (rb_size rb - rb_used rb)"
    | "nat (rb_size rb - rb_used rb) < length inp" "length inp \<le> nat (rb_size rb)"
    | "nat (rb_size rb) < length inp" by linarith
  then show ?thesis
  proof cases
    case 1
    then show ?thesis using assms(1) wf len by (simp add: rbuf_write_def)
  next
    case 2
    then show ?thesis
      using rbuf_write_room [OF assms(1), of "length inp" inp] assms(3) len wf
      by (fastforce simp: min_def)
  next
    case 3
    have eq: "length inp - nat (rb_size rb - rb_used rb) = nat (rb_used rb) + length inp - nat (rb_size rb)"
      "length inp - nat (rb_size rb) = 0"
      using 3 wf by linarith+
    obtain rb' where "rbuf_write (Some rb) (Some inp) (int (length inp)) = Some (int (length inp), Some rb')"
      "rbuf_wf rb'" "rbuf_content rb' = drop (length inp - nat (rb_size rb - rb_used rb)) (rbuf_content rb) @ take (length inp) inp"
      "rb_size rb' = rb_size rb" "rb_mode rb' = rb_mode rb"
      by (rule rbuf_write_replace [OF assms(1,2), of "length inp" inp]) (use 3 assms(4) in auto)
    then show ?thesis by (simp add: len eq)
  next
    case 4
    have eq: "nat (rb_used rb) + length inp - nat (rb_size rb) - nat (rb_used rb) = length inp - nat (rb_size rb)"
      "nat (rb_used rb) \<le> nat (rb_used rb) + length inp - nat (rb_size rb)"
      using 4 wf by linarith+
    obtain rb' where "rbuf_write (Some rb) (Some inp) (int (length inp)) = Some (int (length inp), Some rb')"
      "rbuf_wf rb'" "rbuf_content rb' = drop (length inp - nat (rb_size rb)) (take (length inp) inp)"
      "rb_size rb' = rb_size rb" "rb_mode rb' = rb_mode rb"
      by (rule rbuf_write_big [OF assms(1,2), of "length inp" inp]) (use 4 assms(3) in auto)
    then show ?thesis using eq by (simp add: len)
  qed
qed

text \<open>
  \<open>C16\<close>: a ring buffer in blocking mode is a channel: whatever the order in which reads and
  writes are interleaved, no byte is lost, duplicated or reordered. What the writes accepted, after
  what was stored at the start, is what the reads delivered followed by what is stored at the end.
\<close>

theorem rbuf_interleaving_order:
  assumes "rbuf_wf rb" and "rb_mode rb = RBUF_MODE_BLOCKING"
    and "\<forall>xs. Put xs \<in> set ops \<longrightarrow> length xs \<le> 2147483647" and "\<forall>n. Get n \<in> set ops \<longrightarrow> n \<le> 2147483647"
  shows "\<exists>acc del rb'. fifo_run rbuf_fifo_put rbuf_fifo_get rb ops = Some (acc, del, rb') \<and> rbuf_wf rb' \<and>
           rbuf_content rb @ acc = del @ rbuf_content rb'"
  using rbuf_fifo.fifo_run_order [of rb ops] assms by auto

text \<open>
  \<open>C17\<close>: a client that retries with the remainder, as \<open>rbuf.h\<close> asks, gets all of its data
  through: the loop ends within \<open>2 * length src + length (rbuf_content rb) + 1\<close> rounds.
\<close>

theorem rbuf_retry_delivers:
  assumes "rbuf_wf rb" and "rb_mode rb = RBUF_MODE_BLOCKING" and "length src \<le> 2147483647"
    and "0 < n" and "n \<le> 2147483647" and "2 * length src + length (rbuf_content rb) < fuel"
  shows "\<exists>out rb'. fifo_pump rbuf_fifo_put rbuf_fifo_get n fuel rb src = Some (out, rb') \<and> rbuf_wf rb' \<and>
           out @ rbuf_content rb' = rbuf_content rb @ src"
  using rbuf_fifo.fifo_pump_delivers [of rb src n fuel] assms by auto

text \<open>
  \<open>C18\<close>: when the byte is stored, or when \<open>maxsize\<close> does not exceed the number of stored
  bytes, \<open>rbuf_read_until\<close> delivers and consumes the stored bytes up to and including the first
  occurrence, at most \<open>maxsize\<close> of them. (Otherwise it reads stale bytes, see
  \<open>rbuf_read_until_stale\<close>.)
\<close>

theorem rbuf_read_until_delivers:
  assumes "rbuf_wf rb" and "octet \<in> set (rbuf_content rb) \<or> maxsize \<le> nat (rb_used rb)" and "maxsize \<le> length out"
  defines "ys \<equiv> upto_first octet (take maxsize (rbuf_content rb))"
  shows "\<exists>rb'. rbuf_read_until rb octet out (int maxsize) = Some (int (length ys), ys @ drop (length ys) out, rb') \<and>
           rbuf_wf rb' \<and> rbuf_content rb = ys @ rbuf_content rb'"
proof -
  let ?c = "rbuf_content rb"
  have len: "length ys \<le> length out"
    using length_upto_first [of octet "take maxsize ?c"] assms(3) by (simp add: ys_def)
  obtain rb' where rb': "rbuf_read_until rb octet out (int maxsize) = Some (int (length ys), patch out 0 ys, rb')"
    "rbuf_wf rb'" "rbuf_content rb' = drop (length ys) ?c"
    by (rule rbuf_read_until_ok [OF assms(1,2) ys_def [THEN meta_eq_to_obj_eq] len])
  have "ys = take (length ys) (take maxsize ?c)"
    unfolding ys_def by (rule upto_first_prefix)
  moreover have "length ys \<le> maxsize"
    using length_upto_first [of octet "take maxsize ?c"] by (simp add: ys_def)
  ultimately have "ys = take (length ys) ?c" by (simp add: min_absorb1)
  then have "?c = ys @ rbuf_content rb'" using rb'(3) by (metis append_take_drop_id)
  with rb' show ?thesis by (auto simp: patch_def)
qed

text \<open>
  \<open>rbuf_find\<close> gives the offset of the first occurrence of a byte that is stored.
  (For a byte that is not stored it may give the offset of a stale byte, see \<open>rbuf_find_stale\<close>.)
\<close>

theorem rbuf_find_first:
  assumes "rbuf_wf rb" and "octet \<in> set (rbuf_content rb)"
  shows "\<exists>i. rbuf_find rb octet = Some (int i) \<and> i < length (rbuf_content rb) \<and> rbuf_content rb ! i = octet \<and>
           octet \<notin> set (take i (rbuf_content rb))"
proof -
  have "rbuf_content rb ! first_pos octet (rbuf_content rb) = octet"
    "octet \<notin> set (take (first_pos octet (rbuf_content rb)) (rbuf_content rb))"
    using assms(2) by (auto simp: first_pos_nth first_pos_notin)
  then show ?thesis using rbuf_find_hit [OF assms] first_pos_less [OF assms(2)] by blast
qed

text \<open>
  \<open>C19\<close>: \<open>rbuf_move\<close> into a fresh or cleared ring buffer transfers the oldest bytes, as many
  as were asked for, are stored and fit, and consumes them from the source.
\<close>

theorem rbuf_move_transfers:
  assumes "rbuf_wf src" and "rbuf_wf dst" and "0 < len"
  defines "k \<equiv> min len (min (nat (rb_size dst)) (nat (rb_used src)))"
  shows "\<exists>src' dst'. rbuf_move (Some src) (Some (rbuf_clear dst)) (int len) = Some (int k, Some src', Some dst') \<and>
           rbuf_wf src' \<and> rbuf_wf dst' \<and> length (rbuf_content dst') = k \<and>
           rbuf_content src = rbuf_content dst' @ rbuf_content src'"
proof -
  have size: "rb_size (rbuf_clear dst) = rb_size dst" by (simp add: rbuf_clear_def)
  have "k \<le> length (rbuf_content src)" using length_rbuf_content [OF assms(1)] by (simp add: k_def)
  with rbuf_move_fresh_ok [OF assms(1) rbuf_clear_fresh [OF assms(2)] assms(3), unfolded size] show ?thesis
    unfolding k_def by (metis append_take_drop_id length_take min_absorb2)
qed

section \<open>Witnesses\<close>

definition rb_ex :: rbuf_t where
  "rb_ex = \<lparr>rb_buf = [5, 6, 1, 2], rb_size = 4, rb_used = 3, rb_rfx = 2, rb_wfx = 1, rb_mode = RBUF_MODE_BLOCKING\<rparr>"

lemma rb_ex_wf: "rbuf_wf rb_ex" "rb_mode rb_ex = RBUF_MODE_BLOCKING" "rbuf_content rb_ex = [1, 2, 5]"
  "rb_size rb_ex = 4" "rb_used rb_ex = 3"
  by (simp_all add: rb_ex_def rbuf_wf_def rbuf_content_def)

lemma rb_ex_overwrite_wf: "rbuf_wf (rbuf_set_mode rb_ex RBUF_MODE_OVERWRITE)"
  "rb_mode (rbuf_set_mode rb_ex RBUF_MODE_OVERWRITE) = RBUF_MODE_OVERWRITE"
  "rbuf_content (rbuf_set_mode rb_ex RBUF_MODE_OVERWRITE) = [1, 2, 5]"
  "rb_size (rbuf_set_mode rb_ex RBUF_MODE_OVERWRITE) = 4"
  by (simp_all add: rb_ex_def rbuf_wf_def rbuf_content_def rbuf_set_mode_def)

theorem rbuf_write_blocking_witness:
  "\<exists>rb'. rbuf_write (Some rb_ex) (Some [7, 8]) 2 = Some (1, Some rb') \<and> rbuf_content rb' = [1, 2, 5, 7]"
  using rbuf_write_blocking [of rb_ex "[7, 8]"] by (auto simp: rb_ex_wf)

theorem rbuf_write_overwrite_witness:
  "\<exists>rb'. rbuf_write (Some (rbuf_set_mode rb_ex RBUF_MODE_OVERWRITE)) (Some [7, 8]) 2 = Some (2, Some rb') \<and>
     rbuf_content rb' = [2, 5, 7, 8]"
  using rbuf_write_overwrite [of "rbuf_set_mode rb_ex RBUF_MODE_OVERWRITE" "[7, 8]"] by (auto simp: rb_ex_overwrite_wf)

theorem rbuf_interleaving_order_witness:
  "\<exists>acc del rb'. fifo_run rbuf_fifo_put rbuf_fifo_get rb_ex [Put [7, 8], Get 2, Put [9]] = Some (acc, del, rb') \<and>
     [1, 2, 5] @ acc = del @ rbuf_content rb'"
  using rbuf_interleaving_order [of rb_ex "[Put [7, 8], Get 2, Put [9]]"] by (auto simp: rb_ex_wf)

theorem rbuf_retry_delivers_witness:
  "\<exists>out rb'. fifo_pump rbuf_fifo_put rbuf_fifo_get 1 12 rb_ex [7, 8, 9] = Some (out, rb') \<and>
     out @ rbuf_content rb' = [1, 2, 5, 7, 8, 9]"
  using rbuf_retry_delivers [of rb_ex "[7, 8, 9]" 1 12] by (auto simp: rb_ex_wf)

theorem rbuf_read_until_delivers_witness:
  "\<exists>rb'. rbuf_read_until rb_ex 2 [0, 0, 0, 0] 4 = Some (2, [1, 2, 0, 0], rb') \<and> rbuf_content rb' = [5]"
  using rbuf_read_until_delivers [of rb_ex 2 4 "[0, 0, 0, 0]"] by (auto simp: rb_ex_wf)

theorem rbuf_find_first_witness: "\<exists>i. rbuf_find rb_ex 5 = Some (int i) \<and> [1, 2, 5] ! i = (5 :: byte)"
  using rbuf_find_first [of rb_ex 5] by (auto simp: rb_ex_wf)

theorem rbuf_move_transfers_witness:
  "\<exists>src' dst'. rbuf_move (Some rb_ex) (Some (rbuf_clear rb_ex)) 2 = Some (2, Some src', Some dst') \<and>
     [1, 2, 5] = rbuf_content dst' @ rbuf_content src'"
  using rbuf_move_transfers [of rb_ex rb_ex 2] by (auto simp: rb_ex_wf)

section \<open>What the code does outside of these properties\<close>

text \<open>
  \<open>rbuf_find\<close> scans up to and including the write offset: for a byte that is not stored it
  reports a stale byte there, and when the write offset is at the end it reads past the buffer.
\<close>

theorem rbuf_find_stale:
  "rbuf_find (rb_ex\<lparr>rb_used := 2, rb_rfx := 0, rb_wfx := 2\<rparr>) 1 = Some 2"
  "1 \<notin> set (rbuf_content (rb_ex\<lparr>rb_used := 2, rb_rfx := 0, rb_wfx := 2\<rparr>))"
  "rbuf_find (rb_ex\<lparr>rb_used := 4, rb_rfx := 0, rb_wfx := 4\<rparr>) 9 = None"
  by code_simp+

theorem rbuf_read_until_stale:
  "map_option (\<lambda>(n, out, rb). (n, out))
     (rbuf_read_until (rb_ex\<lparr>rb_used := 1, rb_rfx := 0, rb_wfx := 1\<rparr>) 1 [0, 0, 0, 0] 4) = Some (3, [5, 6, 1, 0])"
  "rbuf_content (rb_ex\<lparr>rb_used := 1, rb_rfx := 0, rb_wfx := 1\<rparr>) = [5]"
  by code_simp+

theorem rbuf_copy_wrapped_source:
  "map_option (\<lambda>(n, _, dst). map_option rbuf_content dst) (rbuf_copy (Some rb_ex) (Some (rbuf_clear rb_ex)) 3) =
     Some (Some [5, 6, 5])"
  by code_simp

theorem rbuf_move_drops_stored:
  "map_option (\<lambda>(n, _, dst). map_option rbuf_content dst)
     (rbuf_move (Some rb_ex) (Some (rb_ex\<lparr>rb_used := 1, rb_rfx := 0, rb_wfx := 1\<rparr>)) 1) = Some (Some [5])"
  by code_simp

end
