(* ===== verification/Fbuf.thy ===== *)
theory Fbuf
  imports Fifo
begin

text \<open>
  Model of \<open>src/src/fbuf.c\<close>: flat byte buffers that grow. The fields of type \<open>unsigned int\<close> are
  numbers below \<open>2 ^ 32\<close>, with the wrap-around written out (\<open>add32\<close>, \<open>sub32\<close>). \<open>fb_data\<close> is NULL or
  a block of bytes of its allocated size, which the field \<open>fb_len\<close> should agree with.

  The environment \<open>fbuf_mem\<close> says which allocation fails and what an allocated block holds at first, and
  counts the blocks that are allocated. The two structures that an operation takes are distinct, and the
  bytes that are passed to it do not lie in the buffer itself. \<open>memcpy\<close> of no bytes accepts NULL.
\<close>

section \<open>State and memory\<close>

record fbuf_t =
  fb_id :: nat
  fb_data :: "byte list option"
  fb_len :: nat
  fb_maxlen :: nat
  fb_minlen :: nat
  fb_fastgrowsize :: nat
  fb_slowgrowsize :: nat
  fb_used :: nat
  fb_skip :: nat

record fbuf_mem =
  fm_count :: nat                         \<comment> \<open>the static counter \<open>fbuf_count\<close>\<close>
  fm_brk :: nat                           \<comment> \<open>number of allocations so far\<close>
  fm_fails :: "nat \<Rightarrow> bool"               \<comment> \<open>which allocations fail\<close>
  fm_junk :: "nat \<Rightarrow> nat \<Rightarrow> byte"         \<comment> \<open>what an allocated block holds at first\<close>
  fm_live :: nat                          \<comment> \<open>number of blocks that are allocated\<close>

definition FBUF_MINLEN :: nat where "FBUF_MINLEN = 128"
definition FBUF_FASTGROWSIZE :: nat where "FBUF_FASTGROWSIZE = 16384"
definition FBUF_SLOWGROWSIZE :: nat where "FBUF_SLOWGROWSIZE = 1024"
definition FBUF_LINE_EST :: nat where "FBUF_LINE_EST = 128"
definition FBUF_READ_EST :: nat where "FBUF_READ_EST = 1024"

definition fb_malloc :: "fbuf_mem \<Rightarrow> nat \<Rightarrow> byte list option \<times> fbuf_mem" where
  "fb_malloc m n =
     (let i = fm_brk m; m = m\<lparr>fm_brk := Suc i\<rparr> in
      if fm_fails m i then (None, m)
      else (Some (map (fm_junk m i) [0..<n]), m\<lparr>fm_live := Suc (fm_live m)\<rparr>))"

definition fb_realloc :: "fbuf_mem \<Rightarrow> byte list option \<Rightarrow> nat \<Rightarrow> byte list option \<times> fbuf_mem" where
  "fb_realloc m b n =
     (case b of
        None \<Rightarrow> fb_malloc m n
      | Some old \<Rightarrow>
          let i = fm_brk m; m = m\<lparr>fm_brk := Suc i\<rparr> in
          if fm_fails m i then (None, m)
          else (Some (take n old @ map (fm_junk m i) [length old..<n]), m))"

definition fb_free :: "fbuf_mem \<Rightarrow> byte list option \<Rightarrow> fbuf_mem" where
  "fb_free m b = (if b = None then m else m\<lparr>fm_live := fm_live m - 1\<rparr>)"

text \<open>Accesses to the block of a buffer; a NULL block has no bytes.\<close>

definition blk :: "fbuf_t \<Rightarrow> byte list" where
  "blk f = (case fb_data f of None \<Rightarrow> [] | Some b \<Rightarrow> b)"

definition set_blk :: "fbuf_t \<Rightarrow> byte list \<Rightarrow> fbuf_t" where
  "set_blk f b = (if fb_data f = None then f else f\<lparr>fb_data := Some b\<rparr>)"

definition fb_poke :: "fbuf_t \<Rightarrow> nat \<Rightarrow> byte \<Rightarrow> fbuf_t option" where
  "fb_poke f i x = do { b \<leftarrow> wr (blk f) (int i) x; Some (set_blk f b) }"

definition fb_peek :: "fbuf_t \<Rightarrow> nat \<Rightarrow> byte option" where
  "fb_peek f i = rd (blk f) (int i)"

definition fb_copy_in :: "fbuf_t \<Rightarrow> nat \<Rightarrow> byte list \<Rightarrow> nat \<Rightarrow> nat \<Rightarrow> fbuf_t option" where
  "fb_copy_in f d src s n = do { b \<leftarrow> memcpy (blk f) (int d) src (int s) (int n); Some (set_blk f b) }"

definition fb_memmove :: "fbuf_t \<Rightarrow> nat \<Rightarrow> nat \<Rightarrow> nat \<Rightarrow> fbuf_t option" where
  "fb_memmove f d s n = fb_copy_in f d (blk f) s n"

section \<open>Creation and parameters\<close>

definition fbuf_create :: "fbuf_mem \<Rightarrow> nat \<Rightarrow> fbuf_t option \<times> fbuf_mem" where
  "fbuf_create m maxlen =
     (let i = fm_brk m; m = m\<lparr>fm_brk := Suc i\<rparr> in
      if fm_fails m i then (None, m)
      else (Some \<lparr>fb_id = fm_count m, fb_data = None, fb_len = 0, fb_maxlen = maxlen, fb_minlen = FBUF_MINLEN,
                  fb_fastgrowsize = FBUF_FASTGROWSIZE, fb_slowgrowsize = FBUF_SLOWGROWSIZE, fb_used = 0, fb_skip = 0\<rparr>,
            m\<lparr>fm_count := add32 (fm_count m) 1, fm_live := Suc (fm_live m)\<rparr>))"

definition fbuf_fastgrowsize :: "fbuf_t \<Rightarrow> nat \<Rightarrow> nat \<times> fbuf_t" where
  "fbuf_fastgrowsize f sz = (fb_fastgrowsize f, if sz \<noteq> 0 then f\<lparr>fb_fastgrowsize := sz\<rparr> else f)"

definition fbuf_slowgrowsize :: "fbuf_t \<Rightarrow> nat \<Rightarrow> nat \<times> fbuf_t" where
  "fbuf_slowgrowsize f sz = (fb_slowgrowsize f, if sz \<noteq> 0 then f\<lparr>fb_slowgrowsize := sz\<rparr> else f)"

text \<open>The two growth parameters with their defaults, as \<open>fbuf_extend\<close> and \<open>fbuf_shrink\<close> read them.\<close>

definition fast_of :: "fbuf_t \<Rightarrow> nat" where
  "fast_of f = (if fb_fastgrowsize f \<noteq> 0 then fb_fastgrowsize f else FBUF_FASTGROWSIZE)"

definition slow_of :: "fbuf_t \<Rightarrow> nat" where
  "slow_of f = (if fb_slowgrowsize f \<noteq> 0 then fb_slowgrowsize f else FBUF_SLOWGROWSIZE)"

text \<open>Moving the content to the start of the block, in \<open>fbuf_extend\<close> and \<open>fbuf_shrink\<close>.\<close>

definition fb_unskip :: "fbuf_t \<Rightarrow> fbuf_t option" where
  "fb_unskip f = do {
     f \<leftarrow> (if fb_used f \<noteq> 0 then fb_memmove f 0 (fb_skip f) (add32 (fb_used f) 1) else fb_poke f 0 0);
     Some (f\<lparr>fb_skip := 0\<rparr>)
   }"

partial_function (option) fb_grow :: "nat \<Rightarrow> nat \<Rightarrow> nat \<Rightarrow> nat \<Rightarrow> nat \<Rightarrow> nat option" where
  "fb_grow newlen minlen fast slow len =
     (if newlen > len then
        fb_grow newlen minlen fast slow
          (if len = 0 then (if minlen \<noteq> 0 then minlen else FBUF_MINLEN)
           else if len < fast then fast
           else add32 len slow)
      else Some len)"

text \<open>
  The last part of \<open>fbuf_extend\<close>: the new block. The field \<open>len\<close> has its new value already.
\<close>

definition fb_extend_alloc :: "fbuf_t \<Rightarrow> fbuf_mem \<Rightarrow> (nat \<times> fbuf_t \<times> fbuf_mem) option" where
  "fb_extend_alloc f m =
     (if fb_skip f \<noteq> 0 then
        (case fb_malloc m (fb_len f) of
           (None, m) \<Rightarrow> Some (0, f, m)
         | (Some p, m) \<Rightarrow> do {
             p \<leftarrow> (if fb_used f \<noteq> 0 then memcpy p 0 (blk f) (int (fb_skip f)) (int (fb_used f)) else Some p);
             p \<leftarrow> (if fb_data f = None then wr p 0 0 else Some p);
             Some (fb_len f, f\<lparr>fb_skip := 0, fb_data := Some p\<rparr>, m)
           })
      else
        (case fb_realloc m (fb_data f) (fb_len f) of
           (None, m) \<Rightarrow> Some (0, f, m)
         | (Some p, m) \<Rightarrow> do {
             p \<leftarrow> (if fb_data f = None then wr p 0 0 else Some p);
             Some (fb_len f, f\<lparr>fb_data := Some p\<rparr>, m)
           }))"

definition fbuf_extend :: "fbuf_t \<Rightarrow> fbuf_mem \<Rightarrow> nat \<Rightarrow> (nat \<times> fbuf_t \<times> fbuf_mem) option" where
  "fbuf_extend f m len = (
     let newlen = add32 len 1; available_space = sub32 (fb_len f) (fb_skip f) in
     if newlen \<le> available_space then Some (fb_len f, f, m)
     else if fb_skip f \<noteq> 0 \<and> newlen \<le> fb_len f then do {
       f \<leftarrow> fb_unskip f;
       Some (fb_len f, f, m)
     }
     else if fb_maxlen f \<noteq> 0 \<and> newlen > add32 (fb_maxlen f) 1 then Some (0, f, m)
     else do {
       l \<leftarrow> fb_grow newlen (fb_minlen f) (fast_of f) (slow_of f) (fb_len f);
       let l = (if fb_maxlen f \<noteq> 0 \<and> l > fb_maxlen f then add32 (fb_maxlen f) 1 else l);
       let f = f\<lparr>fb_len := l\<rparr>;
       if l = 0 then Some (0, f, m) else fb_extend_alloc f m
     })"

text \<open>
  The loop of \<open>fbuf_shrink\<close>: the result is \<open>newlen\<close>, the last size that still fits.
\<close>

partial_function (option) fb_shrink_loop :: "nat \<Rightarrow> nat \<Rightarrow> nat \<Rightarrow> nat \<Rightarrow> nat \<Rightarrow> nat option" where
  "fb_shrink_loop used minlen fast slow len =
     (let newlen = len in
      if len \<le> minlen then Some newlen
      else let len = (if len \<le> fast then len div 2 else sub32 len slow) in
        if len \<ge> add32 used 1 then fb_shrink_loop used minlen fast slow len else Some newlen)"

definition fbuf_shrink :: "fbuf_t \<Rightarrow> fbuf_mem \<Rightarrow> (nat \<times> fbuf_t \<times> fbuf_mem) option" where
  "fbuf_shrink f m = do {
     f \<leftarrow> (if fb_skip f \<noteq> 0 then fb_unskip f else Some f);
     newlen \<leftarrow> fb_shrink_loop (fb_used f) (fb_minlen f) (fast_of f) (slow_of f) (if fb_used f = 0 then 0 else fb_len f);
     if newlen = fb_len f then Some (fb_len f, f, m)
     else if newlen = 0 then
       let m = fb_free m (fb_data f); f = f\<lparr>fb_data := None, fb_len := 0\<rparr> in Some (fb_len f, f, m)
     else
       (case fb_realloc m (fb_data f) newlen of
          (None, m) \<Rightarrow> Some (fb_len f, f, m)
        | (Some p, m) \<Rightarrow> let f = f\<lparr>fb_data := Some p, fb_len := newlen\<rparr> in Some (fb_len f, f, m))
   }"

definition UINT_MAX :: nat where "UINT_MAX = 4294967295"

definition fbuf_maxlen :: "fbuf_t \<Rightarrow> fbuf_mem \<Rightarrow> nat \<Rightarrow> (nat \<times> fbuf_t \<times> fbuf_mem) option" where
  "fbuf_maxlen f m len = (
     let old = fb_maxlen f; f = (if len < UINT_MAX then f\<lparr>fb_maxlen := len\<rparr> else f) in
     if fb_len f > fb_maxlen f then do {
       (_, f, m) \<leftarrow> fbuf_shrink f m;
       (case fb_realloc m (fb_data f) (add32 (fb_maxlen f) 1) of
          (None, m) \<Rightarrow> Some (0, f, m)
        | (Some p, m) \<Rightarrow> do {
            let f = f\<lparr>fb_data := Some p, fb_len := add32 (fb_maxlen f) 1\<rparr>;
            let f = (if fb_used f \<ge> fb_maxlen f then f\<lparr>fb_used := fb_maxlen f\<rparr> else f);
            f \<leftarrow> fb_poke f (fb_maxlen f) 0;
            Some (old, f, m)
          })
     } else Some (old, f, m))"

definition fbuf_minlen :: "fbuf_t \<Rightarrow> fbuf_mem \<Rightarrow> nat \<Rightarrow> (nat \<times> fbuf_t \<times> fbuf_mem)" where
  "fbuf_minlen f m len = (
     let old = fb_minlen f in
     if len \<noteq> 0 then
       let f = f\<lparr>fb_minlen := len\<rparr> in
       if fb_used f < fb_minlen f \<and> fb_len f > fb_minlen f then
         (case fb_realloc m (fb_data f) (fb_minlen f) of
            (None, m) \<Rightarrow> (0, f, m)
          | (Some p, m) \<Rightarrow> (old, f\<lparr>fb_len := fb_minlen f, fb_data := Some p\<rparr>, m))
       else (old, f, m)
     else (old, f, m))"

section \<open>Whole buffers\<close>

definition fbuf_clear :: "fbuf_t \<Rightarrow> fbuf_t option" where
  "fbuf_clear f = (
     let f = f\<lparr>fb_used := 0, fb_skip := 0\<rparr> in
     if fb_len f > 0 then fb_poke f 0 0 else Some f)"

definition fbuf_destroy :: "fbuf_t \<Rightarrow> fbuf_mem \<Rightarrow> fbuf_t \<times> fbuf_mem" where
  "fbuf_destroy f m = (f\<lparr>fb_data := None, fb_used := 0, fb_len := 0, fb_skip := 0\<rparr>, fb_free m (fb_data f))"

definition fbuf_free :: "fbuf_t \<Rightarrow> fbuf_mem \<Rightarrow> fbuf_mem" where
  "fbuf_free f m = (let m = fb_free m (fb_data f) in m\<lparr>fm_live := fm_live m - 1\<rparr>)"

text \<open>The results of the operations on two buffers are the two buffers, in the order of the parameters.\<close>

definition fbuf_move :: "fbuf_t \<Rightarrow> fbuf_t \<Rightarrow> fbuf_mem \<Rightarrow> fbuf_t \<times> fbuf_t \<times> fbuf_mem" where
  "fbuf_move src dst m =
     (let (dst, m) = fbuf_destroy dst m;
          dst = src;
          src = src\<lparr>fb_data := None, fb_used := 0, fb_len := 0, fb_skip := 0, fb_id := fm_count m\<rparr> in
      (src, dst, m\<lparr>fm_count := add32 (fm_count m) 1\<rparr>))"

definition fbuf_swap :: "fbuf_t \<Rightarrow> fbuf_t \<Rightarrow> fbuf_t \<times> fbuf_t" where
  "fbuf_swap fbuf1 fbuf2 = (let fbuf3 = fbuf1; fbuf1 = fbuf2; fbuf2 = fbuf3 in (fbuf1, fbuf2))"

text \<open>
  \<open>fbuf_attach\<close> takes over a block \<open>buf\<close> (not NULL) of the caller; \<open>len\<close> and \<open>used\<close> are of type
  \<open>int\<close> there and are taken to be non-negative.
\<close>

definition fbuf_attach :: "fbuf_t \<Rightarrow> fbuf_mem \<Rightarrow> byte list \<Rightarrow> nat \<Rightarrow> nat \<Rightarrow> (nat \<times> fbuf_t \<times> fbuf_mem) option" where
  "fbuf_attach f m buf len used = (
     let previously_used = fb_used f; m = fb_free m (fb_data f); f = f\<lparr>fb_skip := 0\<rparr> in
     (case (if used < len then (Some buf, m) else fb_realloc m (Some buf) (used + 1)) of
        (None, m) \<Rightarrow> Some (0, f\<lparr>fb_data := None\<rparr>, m)
      | (Some p, m) \<Rightarrow> do {
          let f = f\<lparr>fb_data := Some p, fb_len := len, fb_used := used\<rparr>;
          f \<leftarrow> fb_poke f used 0;
          Some (previously_used, f, m)
        }))"

text \<open>The result of \<open>fbuf_detach\<close>: the number of bytes in use, and the block with its length when it is not 0.\<close>

definition fbuf_detach ::
  "fbuf_t \<Rightarrow> fbuf_mem \<Rightarrow> (nat \<times> (byte list option \<times> nat) option \<times> fbuf_t \<times> fbuf_mem) option" where
  "fbuf_detach f m =
     (if fb_used f = 0 then Some (0, None, f, m)
      else do {
        (f, m) \<leftarrow> (if fb_skip f \<noteq> 0 then do { (_, f, m) \<leftarrow> fbuf_shrink f m; Some (f, m) } else Some (f, m));
        Some (fb_used f, Some (fb_data f, fb_len f), f\<lparr>fb_used := 0, fb_skip := 0, fb_len := 0, fb_data := None\<rparr>, m)
      })"

section \<open>Adding data\<close>

text \<open>
  A string argument is NULL or the bytes before its terminator; its block has the terminator, too.
\<close>

type_synonym c_string = "byte list"

definition fbuf_add_binary :: "fbuf_t \<Rightarrow> fbuf_mem \<Rightarrow> byte list \<Rightarrow> int \<Rightarrow> (int \<times> fbuf_t \<times> fbuf_mem) option" where
  "fbuf_add_binary f m data len =
     (if len \<le> 0 then Some (- 1, f, m)
      else do {
        (r, f, m) \<leftarrow> fbuf_extend f m (add32 (fb_used f) (nat len));
        if r = 0 then Some (- 1, f, m)
        else do {
          f \<leftarrow> fb_copy_in f (fb_skip f + fb_used f) data 0 (nat len);
          let f = f\<lparr>fb_used := add32 (fb_used f) (nat len)\<rparr>;
          f \<leftarrow> fb_poke f (add32 (fb_skip f) (fb_used f)) 0;
          Some (len, f, m)
        }
      })"

definition fbuf_add :: "fbuf_t \<Rightarrow> fbuf_mem \<Rightarrow> c_string option \<Rightarrow> (int \<times> fbuf_t \<times> fbuf_mem) option" where
  "fbuf_add f m data =
     (case data of
        None \<Rightarrow> Some (0, f, m)
      | Some s \<Rightarrow> if s = [] then Some (0, f, m) else fbuf_add_binary f m (s @ [0]) (to_int (length s)))"

definition fbuf_prepend_binary ::
  "fbuf_t \<Rightarrow> fbuf_mem \<Rightarrow> byte list option \<Rightarrow> int \<Rightarrow> (int \<times> fbuf_t \<times> fbuf_mem) option" where
  "fbuf_prepend_binary f m data len =
     (if len \<le> 0 \<or> data = None then Some (0, f, m)
      else if to_int (fb_skip f) \<ge> len then do {
        f \<leftarrow> fb_copy_in f (fb_skip f - nat len) (the data) 0 (nat len);
        let f = f\<lparr>fb_skip := sub32 (fb_skip f) (nat len)\<rparr>;
        Some (len, f\<lparr>fb_used := add32 (fb_used f) (nat len)\<rparr>, m)
      } else do {
        (r, f, m) \<leftarrow> fbuf_extend f m (add32 (fb_used f) (nat len));
        if r = 0 then Some (- 1, f, m)
        else do {
          f \<leftarrow> fb_memmove f (fb_skip f + nat len) (fb_skip f) (add32 (fb_used f) 1);
          f \<leftarrow> fb_copy_in f (fb_skip f) (the data) 0 (nat len);
          Some (len, f\<lparr>fb_used := add32 (fb_used f) (nat len)\<rparr>, m)
        }
      })"

definition fbuf_prepend :: "fbuf_t \<Rightarrow> fbuf_mem \<Rightarrow> c_string option \<Rightarrow> (int \<times> fbuf_t \<times> fbuf_mem) option" where
  "fbuf_prepend f m data =
     (case data of
        None \<Rightarrow> Some (0, f, m)
      | Some s \<Rightarrow> if s = [] then Some (0, f, m) else fbuf_prepend_binary f m (Some (s @ [0])) (to_int (length s)))"

definition fbuf_add_ln :: "fbuf_t \<Rightarrow> fbuf_mem \<Rightarrow> c_string option \<Rightarrow> (int \<times> fbuf_t \<times> fbuf_mem) option" where
  "fbuf_add_ln f m data = do {
     (n1, f, m) \<leftarrow> fbuf_add f m data;
     if n1 = - 1 then Some (- 1, f, m)
     else do {
       (n2, f, m) \<leftarrow> fbuf_add f m (Some [10]);
       if n2 = - 1 then Some (- 1, f, m)
       else do { n \<leftarrow> ck (n1 + n2); Some (n, f, m) }
     }
   }"

definition fbuf_concat :: "fbuf_t \<Rightarrow> fbuf_t \<Rightarrow> fbuf_mem \<Rightarrow> (int \<times> fbuf_t \<times> fbuf_mem) option" where
  "fbuf_concat dst src m =
     (if fb_used src = 0 then Some (0, dst, m)
      else do {
        let datalen = to_int (fb_used src);
        (r, dst, m) \<leftarrow> fbuf_extend dst m (add32 (fb_used dst) (fb_used src));
        if r = 0 then Some (- 1, dst, m)
        else do {
          n \<leftarrow> ck (datalen + 1);
          if n < 0 then None
          else do {
            dst \<leftarrow> fb_copy_in dst (fb_skip dst + fb_used dst) (blk src) (fb_skip src) (nat n);
            Some (datalen, dst\<lparr>fb_used := add32 (fb_used dst) (fb_used src)\<rparr>, m)
          }
        }
      })"

definition fbuf_copy :: "fbuf_t \<Rightarrow> fbuf_t \<Rightarrow> fbuf_mem \<Rightarrow> (int \<times> fbuf_t \<times> fbuf_mem) option" where
  "fbuf_copy src dst m = do {
     (r, dst, m) \<leftarrow> fbuf_extend dst m (fb_used src);
     if r = 0 then Some (- 1, dst, m)
     else do {
       dst \<leftarrow> fbuf_clear dst;
       dst \<leftarrow> fb_copy_in dst (fb_skip dst) (blk src) (fb_skip src) (fb_used src);
       let dst = dst\<lparr>fb_used := fb_used src\<rparr>;
       dst \<leftarrow> fb_poke dst (add32 (fb_skip dst) (fb_used dst)) 0;
       Some (to_int (fb_used dst), dst, m)
     }
   }"

definition fbuf_set :: "fbuf_t \<Rightarrow> fbuf_mem \<Rightarrow> c_string \<Rightarrow> (int \<times> fbuf_t \<times> fbuf_mem) option" where
  "fbuf_set f m data = do {
     let datalen = u32 (length data);
     (r, f, m) \<leftarrow> fbuf_extend f m datalen;
     if r = 0 then Some (- 1, f, m)
     else do {
       n \<leftarrow> ck (to_int datalen + 1);
       if n < 0 then None
       else do {
         f \<leftarrow> fb_copy_in f (fb_skip f) (data @ [0]) 0 (nat n);
         Some (to_int datalen, f\<lparr>fb_used := datalen\<rparr>, m)
       }
     }
   }"

definition fbuf_duplicate :: "fbuf_t \<Rightarrow> fbuf_mem \<Rightarrow> (fbuf_t option \<times> fbuf_mem) option" where
  "fbuf_duplicate src m =
     (case fbuf_create m (fb_maxlen src) of
        (None, m) \<Rightarrow> Some (None, m)
      | (Some dst, m) \<Rightarrow>
          if fb_used src \<noteq> 0 then do {
            (_, dst, m) \<leftarrow> fbuf_add_binary dst m (drop (fb_skip src) (blk src)) (to_int (fb_used src));
            Some (Some dst, m)
          } else Some (Some dst, m))"

text \<open>
  \<open>vsnprintf\<close> with the formatted text \<open>txt\<close>, at most \<open>sz\<close> bytes with the terminator: a text that is
  too long is cut, the result is the length of the whole text. Formatting itself succeeds.
\<close>

definition fb_vsnprintf :: "fbuf_t \<Rightarrow> nat \<Rightarrow> nat \<Rightarrow> byte list \<Rightarrow> (nat \<times> fbuf_t) option" where
  "fb_vsnprintf f pos sz txt = do {
     f \<leftarrow> (if sz = 0 then Some f
           else let out = take (sz - 1) txt @ [0] in fb_copy_in f pos out 0 (length out));
     Some (u32 (length txt), f)
   }"

definition fbuf_nprintf :: "fbuf_t \<Rightarrow> fbuf_mem \<Rightarrow> int \<Rightarrow> byte list \<Rightarrow> (int \<times> fbuf_t \<times> fbuf_mem) option" where
  "fbuf_nprintf f m maxn txt = do {
     (r, f, m) \<leftarrow> fbuf_extend f m (add32 (fb_used f) (nat (maxn mod 4294967296)));
     if r = 0 then Some (- 1, f, m)
     else do {
       (n, f) \<leftarrow> fb_vsnprintf f (fb_skip f + fb_used f) (sub32 (fb_len f) (add32 (fb_skip f) (fb_used f))) txt;
       let f = f\<lparr>fb_used := add32 (fb_used f) n\<rparr>;
       f \<leftarrow> fb_poke f (add32 (fb_skip f) (fb_used f)) 0;
       Some (to_int n, f, m)
     }
   }"

text \<open>The end of \<open>fbuf_printf\<close>, after the text has been written.\<close>

definition fb_printf_end :: "nat \<Rightarrow> fbuf_t \<Rightarrow> fbuf_mem \<Rightarrow> (int \<times> fbuf_t \<times> fbuf_mem) option" where
  "fb_printf_end n f m = do {
     let f = f\<lparr>fb_used := add32 (fb_used f) n\<rparr>;
     f \<leftarrow> fb_poke f (add32 (fb_skip f) (fb_used f)) 0;
     Some (to_int n, f, m)
   }"

definition fbuf_printf :: "fbuf_t \<Rightarrow> fbuf_mem \<Rightarrow> byte list \<Rightarrow> (int \<times> fbuf_t \<times> fbuf_mem) option" where
  "fbuf_printf f m txt = do {
     (r, f, m) \<leftarrow> fbuf_extend f m (add32 (fb_used f) FBUF_LINE_EST);
     if r = 0 then Some (- 1, f, m)
     else do {
       (n, f) \<leftarrow> fb_vsnprintf f (fb_skip f + fb_used f) (sub32 (fb_len f) (add32 (fb_skip f) (fb_used f))) txt;
       if n \<ge> sub32 (fb_len f) (add32 (fb_skip f) (fb_used f)) then do {
         (r, f, m) \<leftarrow> fbuf_extend f m (add32 (fb_used f) n);
         if r = 0 then do {
           f \<leftarrow> fb_poke f (add32 (fb_skip f) (fb_used f)) 0;
           Some (- 1, f, m)
         } else do {
           (n, f) \<leftarrow> fb_vsnprintf f (fb_skip f + fb_used f) (sub32 (fb_len f) (add32 (fb_skip f) (fb_used f))) txt;
           fb_printf_end n f m
         }
       } else fb_printf_end n f m
     }
   }"

section \<open>Removing data\<close>

definition fbuf_remove :: "fbuf_t \<Rightarrow> nat \<Rightarrow> (int \<times> fbuf_t) option" where
  "fbuf_remove f len =
     (if len \<ge> fb_used f then do {
        f \<leftarrow> fb_poke (f\<lparr>fb_used := 0, fb_skip := 0\<rparr>) 0 0;
        Some (to_int (fb_used f), f)
      } else if len \<noteq> 0 then do {
        let f = f\<lparr>fb_skip := add32 (fb_skip f) len, fb_used := sub32 (fb_used f) len\<rparr>;
        f \<leftarrow> (if fb_skip f \<ge> fb_len f div 2 then do {
                f \<leftarrow> fb_memmove f 0 (fb_skip f) (add32 (fb_used f) 1);
                Some (f\<lparr>fb_skip := 0\<rparr>)
              } else Some f);
        Some (to_int (fb_used f), f)
      } else Some (to_int (fb_used f), f))"

text \<open>
  \<open>isspace\<close> of a \<open>char\<close>, which is signed: negative values other than EOF (the byte 255) are undefined.
\<close>

definition isspace :: "byte \<Rightarrow> bool option" where
  "isspace c = (if c < 128 \<or> c = 255 then Some (c = 32 \<or> 9 \<le> c \<and> c \<le> 13) else None)"

partial_function (option) trim_loop :: "fbuf_t \<Rightarrow> nat \<Rightarrow> nat option" where
  "trim_loop f i =
     (if i < fb_used f then do {
        c \<leftarrow> fb_peek f (add32 (fb_skip f) i);
        b \<leftarrow> isspace c;
        if b then trim_loop f (i + 1) else Some i
      } else Some i)"

definition fbuf_trim :: "fbuf_t \<Rightarrow> (int \<times> fbuf_t) option" where
  "fbuf_trim f = do {
     i \<leftarrow> trim_loop f 0;
     (_, f) \<leftarrow> fbuf_remove f i;
     Some (to_int i, f)
   }"

partial_function (option) rtrim_loop :: "fbuf_t \<Rightarrow> nat \<Rightarrow> (nat \<times> fbuf_t) option" where
  "rtrim_loop f i =
     (if fb_used f > 0 then do {
        c \<leftarrow> fb_peek f (sub32 (add32 (fb_skip f) (fb_used f)) 1);
        b \<leftarrow> isspace c;
        if b then rtrim_loop (f\<lparr>fb_used := fb_used f - 1\<rparr>) (i + 1) else Some (i, f)
      } else Some (i, f))"

definition fbuf_rtrim :: "fbuf_t \<Rightarrow> (int \<times> fbuf_t) option" where
  "fbuf_rtrim f = do {
     (i, f) \<leftarrow> rtrim_loop f 0;
     f \<leftarrow> fb_poke f (add32 (fb_skip f) (fb_used f)) 0;
     Some (to_int i, f)
   }"

definition fbuf_set_used :: "fbuf_t \<Rightarrow> nat \<Rightarrow> (int \<times> fbuf_t) option" where
  "fbuf_set_used f newused =
     (if newused < fb_used f then do {
        let f = f\<lparr>fb_used := newused\<rparr>;
        f \<leftarrow> fb_poke f (add32 (fb_skip f) (fb_used f)) 0;
        Some (to_int (fb_used f), f)
      } else Some (to_int (fb_used f), f))"

definition fbuf_used :: "fbuf_t \<Rightarrow> nat" where "fbuf_used f = fb_used f"

definition fbuf_len :: "fbuf_t \<Rightarrow> nat" where "fbuf_len f = fb_len f"

text \<open>Pointers into the block, as offsets; \<open>None\<close> is NULL.\<close>

definition fbuf_data :: "fbuf_t \<Rightarrow> nat option" where
  "fbuf_data f = (if fb_data f = None then None else Some (fb_skip f))"

definition fbuf_end :: "fbuf_t \<Rightarrow> nat option" where
  "fbuf_end f = (if fb_data f \<noteq> None then Some (fb_skip f + fb_used f) else None)"

section \<open>Input and output\<close>

text \<open>
  The source of input is a function \<open>get\<close> on a state \<open>'s\<close>: a request for \<open>n\<close> bytes gives the bytes, or
  \<open>None\<close> for the result -1. For a file that is read by \<open>fread\<close> the state is the rest of its bytes.
\<close>

type_synonym 's reader = "'s \<Rightarrow> nat \<Rightarrow> byte list option \<times> 's"

definition file_read :: "byte list reader" where
  "file_read file n = (Some (take n file), drop n file)"

definition fb_read_with ::
  "'s reader \<Rightarrow> fbuf_t \<Rightarrow> fbuf_mem \<Rightarrow> 's \<Rightarrow> nat \<Rightarrow> (int \<times> fbuf_t \<times> fbuf_mem \<times> 's) option" where
  "fb_read_with get f m s explen = do {
     let explen = (if explen = 0 then FBUF_READ_EST else explen);
     (r, f, m) \<leftarrow> fbuf_extend f m (add32 (fb_used f) explen);
     if r = 0 then Some (- 1, f, m, s)
     else do {
       let (res, s) = get s explen;
       (n, f) \<leftarrow> (case res of
           None \<Rightarrow> Some (- 1, f)
         | Some bs \<Rightarrow> do {
             f \<leftarrow> fb_copy_in f (fb_skip f + fb_used f) bs 0 (length bs);
             Some (to_int (length bs), f)
           });
       let f = (if n > 0 then f\<lparr>fb_used := add32 (fb_used f) (nat n)\<rparr> else f);
       f \<leftarrow> fb_poke f (add32 (fb_skip f) (fb_used f)) 0;
       Some (n, f, m, s)
     }
   }"

definition fbuf_fread :: "fbuf_t \<Rightarrow> fbuf_mem \<Rightarrow> byte list \<Rightarrow> nat \<Rightarrow> (int \<times> fbuf_t \<times> fbuf_mem \<times> byte list) option" where
  "fbuf_fread f m file explen = fb_read_with file_read f m file explen"

definition fbuf_read ::
  "'s reader \<Rightarrow> fbuf_t \<Rightarrow> fbuf_mem \<Rightarrow> 's \<Rightarrow> nat \<Rightarrow> (int \<times> fbuf_t \<times> fbuf_mem \<times> 's) option" where
  "fbuf_read sys_read f m fd explen = fb_read_with sys_read f m fd explen"

text \<open>The loop of \<open>fbuf_fread_ln\<close> and \<open>fbuf_read_ln\<close>; the first component tells whether it met a newline.\<close>

partial_function (option) ln_loop ::
  "'s reader \<Rightarrow> fbuf_t \<Rightarrow> fbuf_mem \<Rightarrow> 's \<Rightarrow> (bool \<times> fbuf_t \<times> fbuf_mem \<times> 's) option" where
  "ln_loop get f m s = do {
     more \<leftarrow> (if fb_used f = 0 then Some True
              else do { c \<leftarrow> fb_peek f (sub32 (add32 (fb_skip f) (fb_used f)) 1); Some (c \<noteq> 10) });
     if \<not> more then Some (True, f, m, s)
     else do {
       (r, f, m) \<leftarrow> fbuf_extend f m (add32 (fb_used f) 1);
       if r = 0 then Some (False, f, m, s)
       else (case get s 1 of
           (None, s) \<Rightarrow> Some (False, f, m, s)
         | (Some bs, s) \<Rightarrow>
             if bs = [] then Some (False, f, m, s)
             else do {
               f \<leftarrow> fb_copy_in f (fb_skip f + fb_used f) bs 0 (length bs);
               ln_loop get (f\<lparr>fb_used := add32 (fb_used f) 1\<rparr>) m s
             })
     }
   }"

definition fb_chop :: "fbuf_t \<Rightarrow> fbuf_t option" where
  "fb_chop f = (let f = f\<lparr>fb_used := sub32 (fb_used f) 1\<rparr> in fb_poke f (add32 (fb_skip f) (fb_used f)) 0)"

definition fb_read_ln_with :: "'s reader \<Rightarrow> fbuf_t \<Rightarrow> fbuf_mem \<Rightarrow> 's \<Rightarrow> (int \<times> fbuf_t \<times> fbuf_mem \<times> 's) option" where
  "fb_read_ln_with get f m s = do {
     let initial = fb_used f;
     (ok, f, m, s) \<leftarrow> ln_loop get f m s;
     if \<not> ok then Some (- 1, f, m, s)
     else do {
       f \<leftarrow> fb_chop f;
       f \<leftarrow> (if fb_used f \<noteq> 0 then do {
               c \<leftarrow> fb_peek f (sub32 (add32 (fb_skip f) (fb_used f)) 1);
               if c = 13 then fb_chop f else Some f
             } else Some f);
       Some (to_int (sub32 (fb_used f) initial), f, m, s)
     }
   }"

definition fbuf_fread_ln :: "fbuf_t \<Rightarrow> fbuf_mem \<Rightarrow> byte list \<Rightarrow> (int \<times> fbuf_t \<times> fbuf_mem \<times> byte list) option" where
  "fbuf_fread_ln f m file = fb_read_ln_with file_read f m file"

definition fbuf_read_ln :: "'s reader \<Rightarrow> fbuf_t \<Rightarrow> fbuf_mem \<Rightarrow> 's \<Rightarrow> (int \<times> fbuf_t \<times> fbuf_mem \<times> 's) option" where
  "fbuf_read_ln sys_read f m fd = fb_read_ln_with sys_read f m fd"

text \<open>\<open>write\<close> takes a prefix of the bytes that it is given and tells how many, or -1.\<close>

type_synonym 's writer = "'s \<Rightarrow> byte list \<Rightarrow> int \<times> 's"

definition fbuf_write :: "'s writer \<Rightarrow> fbuf_t \<Rightarrow> 's \<Rightarrow> nat \<Rightarrow> (int \<times> fbuf_t \<times> 's) option" where
  "fbuf_write sys_write f fd nbytes = (
     let nbytes = (if nbytes = 0 then fb_used f else nbytes);
         nbytes = (if nbytes > fb_used f then fb_used f else nbytes) in
     if nbytes > 0 then
       if fb_skip f + nbytes \<le> length (blk f) then do {
         let (n, fd) = sys_write fd (take nbytes (drop (fb_skip f) (blk f)));
         if n > 0 then do { (_, f) \<leftarrow> fbuf_remove f (nat n); Some (n, f, fd) }
         else Some (n, f, fd)
       } else None
     else Some (0, f, fd))"

end
