(* ===== verification/Fbuf_Spec.thy ===== *)
theory Fbuf_Spec
  imports Fbuf
begin

text \<open>
  What the flat buffers of \<open>fbuf.c\<close> promise: the invariant \<open>fbuf_ok\<close> (the fields agree with the block),
  the content as a list of bytes, and the behaviour of each operation on it. The sizes are bounded by
  \<open>2 ^ 30\<close>, so that nothing wraps around, and the growth parameters are those of the source or any others with
  the slow step at most the fast size (\<open>params_ok\<close>).
\<close>

section \<open>Invariant and content\<close>

definition fbuf_ok :: "fbuf_t \<Rightarrow> bool" where
  "fbuf_ok f \<longleftrightarrow>
     (case fb_data f of
        None \<Rightarrow> fb_len f = 0 \<and> fb_used f = 0 \<and> fb_skip f = 0
      | Some b \<Rightarrow> length b = fb_len f \<and> fb_skip f + fb_used f < fb_len f) \<and> fb_len f \<le> 2147483648"

definition params_ok :: "fbuf_t \<Rightarrow> bool" where
  "params_ok f \<longleftrightarrow> fb_minlen f \<le> 1073741824 \<and> fast_of f \<le> 1073741824 \<and> slow_of f \<le> fast_of f \<and> fb_maxlen f \<le> 1073741824"

definition fb_params :: "fbuf_t \<Rightarrow> nat \<times> nat \<times> nat \<times> nat" where
  "fb_params f = (fb_maxlen f, fb_minlen f, fb_fastgrowsize f, fb_slowgrowsize f)"

text \<open>The buffer is terminated: a NUL follows the bytes in use.\<close>

definition fbuf_term :: "fbuf_t \<Rightarrow> bool" where
  "fbuf_term f \<longleftrightarrow> fb_data f = None \<or> blk f ! (fb_skip f + fb_used f) = 0"

definition fbuf_content :: "fbuf_t \<Rightarrow> byte list" where
  "fbuf_content f = take (fb_used f) (drop (fb_skip f) (blk f))"

definition fm_ok :: "fbuf_mem \<Rightarrow> bool" where
  "fm_ok m \<longleftrightarrow> (\<forall>i. \<not> fm_fails m i)"

lemma params_ok_cong: "fb_params f = fb_params g \<Longrightarrow> params_ok f = params_ok g"
  by (simp add: params_ok_def fb_params_def fast_of_def slow_of_def)

lemma fb_params_simps [simp]:
  "fb_params (f\<lparr>fb_data := d\<rparr>) = fb_params f" "fb_params (f\<lparr>fb_len := n\<rparr>) = fb_params f"
  "fb_params (f\<lparr>fb_used := n\<rparr>) = fb_params f" "fb_params (f\<lparr>fb_skip := n\<rparr>) = fb_params f"
  "fb_params (set_blk f b) = fb_params f"
  by (simp_all add: fb_params_def set_blk_def)

lemma set_blk_fields [simp]:
  "fb_len (set_blk f b) = fb_len f" "fb_used (set_blk f b) = fb_used f" "fb_skip (set_blk f b) = fb_skip f"
  "fb_maxlen (set_blk f b) = fb_maxlen f"
  "fb_data (set_blk f b) = None \<longleftrightarrow> fb_data f = None"
  "(\<exists>y. fb_data (set_blk f b) = Some y) \<longleftrightarrow> (\<exists>y. fb_data f = Some y)"
  by (auto simp: set_blk_def)

lemma blk_simps [simp]:
  "blk (f\<lparr>fb_len := n\<rparr>) = blk f" "blk (f\<lparr>fb_used := n\<rparr>) = blk f" "blk (f\<lparr>fb_skip := n\<rparr>) = blk f"
  "blk (f\<lparr>fb_data := Some b\<rparr>) = b" "blk (f\<lparr>fb_data := None\<rparr>) = []"
  by (simp_all add: blk_def)

lemma blk_set_blk: "fb_data f \<noteq> None \<Longrightarrow> blk (set_blk f b) = b"
  by (auto simp: blk_def set_blk_def)

lemma fbuf_ok_blk:
  "fbuf_ok f \<longleftrightarrow> fb_len f \<le> 2147483648 \<and> length (blk f) = fb_len f \<and>
     (if fb_data f = None then fb_used f = 0 \<and> fb_skip f = 0 else fb_skip f + fb_used f < fb_len f)"
  by (auto simp: fbuf_ok_def blk_def split: option.splits)

lemma fbuf_ok_NULL: "fbuf_ok f \<Longrightarrow> fb_data f = None \<longleftrightarrow> fb_len f = 0"
  by (auto simp: fbuf_ok_def split: option.splits)

lemma length_content: "fbuf_ok f \<Longrightarrow> length (fbuf_content f) = fb_used f"
  by (auto simp: fbuf_ok_blk fbuf_content_def split: if_splits)

section \<open>Accesses\<close>

lemma fb_poke_ok:
  assumes "i < length (blk f)"
  shows "fb_poke f i x = Some (set_blk f ((blk f)[i := x]))"
  using assms by (simp add: fb_poke_def wr_def)

lemma fb_peek_ok: "i < length (blk f) \<Longrightarrow> fb_peek f i = Some (blk f ! i)"
  by (simp add: fb_peek_def rd_def)

lemma fb_copy_in_ok:
  assumes "d + n \<le> length (blk f)" and "s + n \<le> length src"
  shows "fb_copy_in f d src s n = Some (set_blk f (take d (blk f) @ take n (drop s src) @ drop (d + n) (blk f)))"
  using assms by (simp add: fb_copy_in_def memcpy_nat)

lemma fb_memmove_ok:
  assumes "d + n \<le> length (blk f)" and "s + n \<le> length (blk f)"
  shows "fb_memmove f d s n = Some (set_blk f (take d (blk f) @ take n (drop s (blk f)) @ drop (d + n) (blk f)))"
  using assms by (simp add: fb_memmove_def fb_copy_in_ok)

text \<open>
  Moving the content to the start keeps it and its terminator.
\<close>

lemma fb_unskip_ok:
  assumes "fbuf_ok f" and "fb_data f \<noteq> None"
  shows "\<exists>f'. fb_unskip f = Some f' \<and> fbuf_ok f' \<and> fbuf_content f' = fbuf_content f \<and> fb_skip f' = 0 \<and>
           fb_used f' = fb_used f \<and> fb_len f' = fb_len f \<and> fb_params f' = fb_params f \<and> fb_data f' \<noteq> None \<and>
           (fbuf_term f \<longrightarrow> fbuf_term f')"
proof -
  have b: "length (blk f) = fb_len f" "fb_skip f + fb_used f < fb_len f" "fb_len f \<le> 2147483648"
    using assms by (auto simp: fbuf_ok_blk)
  show ?thesis
  proof (cases "fb_used f = 0")
    case True
    then show ?thesis using assms b
      by (simp add: fb_unskip_def fb_poke_ok fbuf_ok_blk fbuf_content_def fbuf_term_def blk_set_blk)
  next
    case False
    have "drop (fb_skip f) (blk f) ! fb_used f = blk f ! (fb_skip f + fb_used f)" using b by simp
    then show ?thesis using False assms b
      by (simp add: fb_unskip_def add32_eq fb_memmove_ok fbuf_ok_blk fbuf_content_def fbuf_term_def blk_set_blk nth_append)
  qed
qed

section \<open>Growing\<close>

text \<open>The loop of \<open>fbuf_extend\<close> ends with a length that suffices and exceeds what is asked by a bounded amount.\<close>

lemma fb_grow_ok:
  assumes "newlen \<le> 1073741825" and "minlen \<le> 1073741824" and "fast \<le> 1073741824" and "0 < slow" and "slow \<le> fast"
  shows "\<exists>l. fb_grow newlen minlen fast slow len = Some l \<and> newlen \<le> l \<and> len \<le> l \<and>
           (l \<le> 2147483648 \<or> l = len) \<and> (newlen \<le> len \<longrightarrow> l = len)"
proof (induction "newlen - len" arbitrary: len rule: less_induct)
  case less
  show ?case
  proof (cases "newlen > len")
    case True
    let ?l = "if len = 0 then (if minlen \<noteq> 0 then minlen else FBUF_MINLEN) else if len < fast then fast else add32 len slow"
    have l: "len < ?l \<and> ?l \<le> 2147483648"
      using True assms by (auto simp: FBUF_MINLEN_def add32_eq)
    then have "newlen - ?l < newlen - len" using True by linarith
    from less [OF this] obtain l' where "fb_grow newlen minlen fast slow ?l = Some l'" "newlen \<le> l'" "?l \<le> l'"
      "l' \<le> 2147483648 \<or> l' = ?l" by blast
    moreover have "fb_grow newlen minlen fast slow len = fb_grow newlen minlen fast slow ?l"
      using True by (subst fb_grow.simps) simp
    ultimately show ?thesis using True l by (intro exI [of _ l']) auto
  qed (subst fb_grow.simps, simp)
qed

text \<open>
  Whether \<open>fbuf_extend\<close> finds room for \<open>n\<close> bytes and a terminator.
\<close>

definition fits :: "fbuf_t \<Rightarrow> nat \<Rightarrow> bool" where
  "fits f n \<longleftrightarrow> n < fb_len f \<or> fb_maxlen f = 0 \<or> n \<le> fb_maxlen f"

lemma slow_of_pos: "0 < slow_of f"
  by (simp add: slow_of_def FBUF_SLOWGROWSIZE_def)

lemma fb_malloc_ok:
  "fm_ok m \<Longrightarrow> \<exists>p m'. fb_malloc m n = (Some p, m') \<and> length p = n \<and> fm_ok m'"
  by (simp add: fb_malloc_def fm_ok_def Let_def)

lemma fb_realloc_ok:
  "fm_ok m \<Longrightarrow> \<exists>p m'. fb_realloc m d n = (Some p, m') \<and> length p = n \<and> fm_ok m' \<and>
     (\<forall>b. d = Some b \<longrightarrow> take (length b) p = take n b)"
  by (cases d) (auto simp: fb_realloc_def fm_ok_def Let_def fb_malloc_def min_def)

lemma fb_extend_alloc_ok:
  assumes "fm_ok m" and "0 < l" and "l \<le> 2147483648" and "fbuf_ok f" and "fb_len f < l"
  shows "\<exists>f' m'. fb_extend_alloc (f\<lparr>fb_len := l\<rparr>) m = Some (l, f', m') \<and> fbuf_ok f' \<and> fbuf_content f' = fbuf_content f \<and>
           fb_used f' = fb_used f \<and> fb_skip f' = 0 \<and> fb_len f' = l \<and> fb_params f' = fb_params f \<and> fm_ok m' \<and>
           (fb_skip f = 0 \<longrightarrow> fbuf_term f \<longrightarrow> fbuf_term f')"
proof (cases "fb_skip f = 0")
  case True
  from fb_realloc_ok [OF assms(1), of "fb_data f" l] obtain p m' where
    p: "fb_realloc m (fb_data f) l = (Some p, m')" "length p = l" "fm_ok m'"
      "\<forall>b. fb_data f = Some b \<longrightarrow> take (length b) p = take l b" by blast
  show ?thesis
  proof (cases "fb_data f")
    case None
    then show ?thesis using True p assms
      by (auto simp: fb_extend_alloc_def wr_def fbuf_ok_blk fbuf_content_def fbuf_term_def blk_def)
  next
    case (Some b)
    have len: "length b = fb_len f" "fb_used f < fb_len f" using assms(4) Some True by (auto simp: fbuf_ok_def)
    then have tb: "take (fb_len f) p = b" using p(4) Some assms(5) by auto
    then have "take (fb_used f) p = take (fb_used f) b"
      by (metis len(2) less_imp_le take_take min.absorb1)
    moreover have "p ! fb_used f = b ! fb_used f" using tb len(2) by (metis nth_take)
    ultimately show ?thesis using True p assms Some len
      by (auto simp: fb_extend_alloc_def fbuf_ok_blk fbuf_content_def fbuf_term_def blk_def)
  qed
next
  case False
  then obtain b where b: "fb_data f = Some b" "length b = fb_len f" "fb_skip f + fb_used f < fb_len f"
    using assms(4) by (auto simp: fbuf_ok_def split: option.splits)
  from fb_malloc_ok [OF assms(1), of l] obtain p m' where p: "fb_malloc m l = (Some p, m')" "length p = l" "fm_ok m'" by blast
  have c: "memcpy p 0 b (int (fb_skip f)) (int (fb_used f)) = Some (take (fb_used f) (drop (fb_skip f) b) @ drop (fb_used f) p)"
    using memcpy_nat [of 0 "fb_used f" p "fb_skip f" b] b p(2) assms(5) by simp
  show ?thesis
  proof (cases "fb_used f = 0")
    case True
    then show ?thesis using False p b assms
      by (auto simp: fb_extend_alloc_def fbuf_ok_blk fbuf_content_def)
  next
    case used: False
    have "blk (f\<lparr>fb_len := l\<rparr>) = b" using b(1) by (simp add: blk_def)
    then show ?thesis using False p b assms c used
      by (auto simp: fb_extend_alloc_def fbuf_ok_blk fbuf_content_def blk_def)
  qed
qed

lemma fbuf_extend_ok:
  assumes "fbuf_ok f" and "params_ok f" and "fm_ok m" and "n \<le> 1073741824" and "fits f n"
  shows "\<exists>r f' m'. fbuf_extend f m n = Some (r, f', m') \<and> r \<noteq> 0 \<and> fbuf_ok f' \<and> fbuf_content f' = fbuf_content f \<and>
           fb_used f' = fb_used f \<and> fb_skip f' + n < fb_len f' \<and> fb_params f' = fb_params f \<and> fm_ok m' \<and>
           fb_data f' \<noteq> None \<and> fb_len f \<le> fb_len f' \<and> fb_skip f' \<le> fb_skip f \<and>
           (fb_maxlen f \<noteq> 0 \<and> fb_len f \<le> Suc (fb_maxlen f) \<longrightarrow> fb_len f' \<le> Suc (fb_maxlen f)) \<and>
           (fb_skip f = 0 \<or> n < fb_len f \<longrightarrow> fbuf_term f \<longrightarrow> fbuf_term f')"
proof -
  have n: "add32 n 1 = Suc n" "add32 n (Suc 0) = Suc n" using assms(4) by (simp_all add: add32_Suc)
  have len: "fb_len f \<le> 2147483648" "fb_skip f \<le> fb_len f" using assms(1) by (auto simp: fbuf_ok_blk split: if_splits)
  then have s: "sub32 (fb_len f) (fb_skip f) = fb_len f - fb_skip f" by (simp add: sub32_eq)
  consider (room) "Suc n \<le> fb_len f - fb_skip f" | (unskip) "\<not> Suc n \<le> fb_len f - fb_skip f" "fb_skip f \<noteq> 0" "Suc n \<le> fb_len f"
    | (grow) "\<not> Suc n \<le> fb_len f" by (cases "fb_skip f = 0") auto
  then show ?thesis
  proof cases
    case room
    then have "fb_data f \<noteq> None" using fbuf_ok_NULL [OF assms(1)] by auto
    then show ?thesis using room assms by (auto simp: fbuf_extend_def n s Let_def)
  next
    case unskip
    then have d: "fb_data f \<noteq> None" using fbuf_ok_NULL [OF assms(1)] by auto
    from fb_unskip_ok [OF assms(1) d] unskip assms(3) show ?thesis by (auto simp: fbuf_extend_def n s Let_def)
  next
    case grow
    from fb_grow_ok [of "Suc n" "fb_minlen f" "fast_of f" "slow_of f" "fb_len f"] assms(2,4) slow_of_pos [of f]
    obtain l where l: "fb_grow (Suc n) (fb_minlen f) (fast_of f) (slow_of f) (fb_len f) = Some l" "Suc n \<le> l"
      "l \<le> 2147483648 \<or> l = fb_len f" by (auto simp: params_ok_def)
    have m: "add32 (fb_maxlen f) 1 = Suc (fb_maxlen f)" "add32 (fb_maxlen f) (Suc 0) = Suc (fb_maxlen f)"
      using assms(2) by (simp_all add: params_ok_def add32_Suc)
    define l' where "l' = (if fb_maxlen f \<noteq> 0 \<and> l > fb_maxlen f then Suc (fb_maxlen f) else l)"
    have l': "Suc n \<le> l'" "l' \<le> 2147483648" "fb_maxlen f \<noteq> 0 \<longrightarrow> l' \<le> Suc (fb_maxlen f)"
      using l assms(2,5) grow by (auto simp: fits_def l'_def params_ok_def)
    from fb_extend_alloc_ok [OF assms(3) _ l'(2) assms(1)] l'(1) grow obtain f' m' where
      e: "fb_extend_alloc (f\<lparr>fb_len := l'\<rparr>) m = Some (l', f', m')" "fbuf_ok f'"
        "fbuf_content f' = fbuf_content f" "fb_used f' = fb_used f" "fb_skip f' = 0" "fb_len f' = l'" "fb_params f' = fb_params f"
        "fm_ok m'" "fb_skip f = 0 \<longrightarrow> fbuf_term f \<longrightarrow> fbuf_term f'" by auto
    have "\<not> (fb_maxlen f \<noteq> 0 \<and> Suc n > Suc (fb_maxlen f))" using assms(5) grow by (auto simp: fits_def)
    moreover have "\<not> Suc n \<le> fb_len f - fb_skip f" using grow by simp
    ultimately have "fbuf_extend f m n = (if l' = 0 then Some (0, f\<lparr>fb_len := l'\<rparr>, m) else fb_extend_alloc (f\<lparr>fb_len := l'\<rparr>) m)"
      using grow l(1) unfolding l'_def by (auto simp: fbuf_extend_def n s m Let_def)
    then have "fbuf_extend f m n = Some (l', f', m')" using l'(1) e(1) by simp
    moreover have "fb_data f' \<noteq> None" using fbuf_ok_NULL [OF e(2)] e(6) l'(1) by simp
    ultimately show ?thesis using e l'(1,3) grow by (intro exI [of _ l'] exI [of _ f'] exI [of _ m']) simp
  qed
qed

lemma fbuf_extend_full:
  assumes "fbuf_ok f" and "params_ok f" and "n \<le> 1073741824" and "\<not> fits f n"
  shows "fbuf_extend f m n = Some (0, f, m)"
proof -
  have n: "add32 n 1 = Suc n" "add32 n (Suc 0) = Suc n" using assms(3) by (simp_all add: add32_Suc)
  have len: "fb_len f \<le> 2147483648" "fb_skip f \<le> fb_len f" using assms(1) by (auto simp: fbuf_ok_blk split: if_splits)
  then have s: "sub32 (fb_len f) (fb_skip f) = fb_len f - fb_skip f" by (simp add: sub32_eq)
  have m: "add32 (fb_maxlen f) 1 = Suc (fb_maxlen f)" "add32 (fb_maxlen f) (Suc 0) = Suc (fb_maxlen f)"
    using assms(2) by (simp_all add: params_ok_def add32_Suc)
  show ?thesis using assms(4) by (auto simp: fbuf_extend_def n s m Let_def fits_def)
qed

section \<open>Adding data\<close>

text \<open>
  The two steps in which the operations append: the bytes behind those in use, then the new number of bytes
  in use and the terminator.
\<close>

lemma fb_append_steps:
  assumes "fbuf_ok f" and "fb_data f \<noteq> None" and "fb_skip f + fb_used f + k < fb_len f" and "k \<le> length xs"
  shows "\<exists>f1 f2. fb_copy_in f (fb_skip f + fb_used f) xs 0 k = Some f1 \<and>
           fb_skip f1 = fb_skip f \<and> fb_used f1 = fb_used f \<and> fb_len f1 = fb_len f \<and> fb_data f1 \<noteq> None \<and>
           fbuf_ok f1 \<and> fbuf_content f1 = fbuf_content f \<and> fb_params f1 = fb_params f \<and>
           fbuf_ok (f1\<lparr>fb_used := fb_used f + k\<rparr>) \<and> fbuf_content (f1\<lparr>fb_used := fb_used f + k\<rparr>) = fbuf_content f @ take k xs \<and>
           fb_poke (f1\<lparr>fb_used := fb_used f + k\<rparr>) (fb_skip f + fb_used f + k) 0 = Some f2 \<and>
           fbuf_ok f2 \<and> fbuf_term f2 \<and> fbuf_content f2 = fbuf_content f @ take k xs \<and> fb_used f2 = fb_used f + k \<and>
           fb_len f2 = fb_len f \<and> fb_skip f2 = fb_skip f \<and> fb_params f2 = fb_params f"
proof -
  let ?b = "blk f" and ?i = "fb_skip f + fb_used f"
  have len: "length ?b = fb_len f" using assms(1) by (simp add: fbuf_ok_blk)
  let ?b1 = "take ?i ?b @ take k xs @ drop (?i + k) ?b"
  have 1: "fb_copy_in f ?i xs 0 k = Some (set_blk f ?b1)" using fb_copy_in_ok [of ?i k f 0 xs] assms len by simp
  have len1: "length ?b1 = fb_len f" using assms len by simp
  have "drop (fb_skip f) ?b1 = fbuf_content f @ take k xs @ drop (?i + k) ?b"
    using assms len by (simp add: fbuf_content_def drop_take)
  then have d: "take (fb_used f) (drop (fb_skip f) ?b1) = fbuf_content f"
    "take (fb_used f + k) (drop (fb_skip f) ?b1) = fbuf_content f @ take k xs"
    using length_content [OF assms(1)] assms(4) by simp_all
  have 2: "fb_poke ((set_blk f ?b1)\<lparr>fb_used := fb_used f + k\<rparr>) (?i + k) 0 =
      Some (set_blk ((set_blk f ?b1)\<lparr>fb_used := fb_used f + k\<rparr>) (?b1[?i + k := 0]))"
    using assms len1 by (subst fb_poke_ok) (simp_all add: blk_set_blk)
  have data: "fb_data ((set_blk f ?b1)\<lparr>fb_used := fb_used f + k\<rparr>) \<noteq> None" using assms(2) by simp
  have "take (fb_used f + k) (drop (fb_skip f) (?b1[?i + k := 0])) = take (fb_used f + k) (drop (fb_skip f) ?b1)"
    by (simp add: drop_update_swap take_update_cancel)
  then have c: "fbuf_content (set_blk ((set_blk f ?b1)\<lparr>fb_used := fb_used f + k\<rparr>) (?b1[?i + k := 0])) = fbuf_content f @ take k xs"
    using d(2) by (simp add: fbuf_content_def blk_set_blk [OF data])
  show ?thesis
    unfolding 1 using 2 c d assms len1 len data
    by (intro exI [of _ "set_blk f ?b1"] exI [of _ "set_blk ((set_blk f ?b1)\<lparr>fb_used := fb_used f + k\<rparr>) (?b1[?i + k := 0])"])
      (auto simp: fbuf_ok_blk blk_set_blk [OF data] blk_set_blk [OF assms(2)] fbuf_content_def fbuf_term_def nth_list_update)
qed

lemma fbuf_add_binary_ok:
  assumes "fbuf_ok f" and "params_ok f" and "fm_ok m" and "xs \<noteq> []" and "fb_used f + length xs \<le> 1073741824"
    and "fits f (fb_used f + length xs)"
  shows "\<exists>f' m'. fbuf_add_binary f m (xs @ ys) (int (length xs)) = Some (int (length xs), f', m') \<and> fbuf_ok f' \<and> fbuf_term f' \<and>
           fbuf_content f' = fbuf_content f @ xs \<and> fb_params f' = fb_params f \<and> fm_ok m' \<and>
           (fb_maxlen f \<noteq> 0 \<and> fb_len f \<le> Suc (fb_maxlen f) \<longrightarrow> fb_len f' \<le> Suc (fb_maxlen f))"
proof -
  have a: "add32 (fb_used f) (length xs) = fb_used f + length xs" using assms(5) by (simp add: add32_eq)
  from fbuf_extend_ok [OF assms(1,2,3,5,6)] obtain r f1 m' where
    e: "fbuf_extend f m (fb_used f + length xs) = Some (r, f1, m')" "r \<noteq> 0" "fbuf_ok f1" "fbuf_content f1 = fbuf_content f"
      "fb_used f1 = fb_used f" "fb_skip f1 + (fb_used f + length xs) < fb_len f1" "fb_params f1 = fb_params f" "fm_ok m'"
      "fb_data f1 \<noteq> None" "fb_maxlen f \<noteq> 0 \<and> fb_len f \<le> Suc (fb_maxlen f) \<longrightarrow> fb_len f1 \<le> Suc (fb_maxlen f)" by blast
  have room: "fb_skip f1 + fb_used f1 + length xs < fb_len f1" using e(5,6) by simp
  from fb_append_steps [OF e(3,9) room, of "xs @ ys"] obtain f2 f3 where
    s: "fb_copy_in f1 (fb_skip f1 + fb_used f1) (xs @ ys) 0 (length xs) = Some f2" "fb_skip f2 = fb_skip f1" "fb_used f2 = fb_used f1"
      "fb_poke (f2\<lparr>fb_used := fb_used f1 + length xs\<rparr>) (fb_skip f1 + fb_used f1 + length xs) 0 = Some f3"
      "fbuf_ok f3" "fbuf_term f3" "fbuf_content f3 = fbuf_content f1 @ xs" "fb_params f3 = fb_params f1"
      "fb_len f3 = fb_len f1" by auto
  have "fb_len f1 \<le> 2147483648" using e(3) by (simp add: fbuf_ok_blk)
  then have a2: "add32 (fb_skip f1) (fb_used f1 + length xs) = fb_skip f1 + fb_used f1 + length xs"
    using room by (simp add: add32_eq)
  show ?thesis using assms(4) e s a a2 by (simp add: fbuf_add_binary_def)
qed

lemma fbuf_add_binary_full:
  assumes "fbuf_ok f" and "params_ok f" and "fb_used f + length xs \<le> 1073741824" and "\<not> fits f (fb_used f + length xs)"
  shows "fbuf_add_binary f m xs (int (length xs)) = Some (- 1, f, m)"
  using fbuf_extend_full [OF assms(1-4)] assms(3) by (simp add: fbuf_add_binary_def add32_eq)

text \<open>Prepending, in the gap before the content or by moving it.\<close>

lemma fb_prepend_steps:
  assumes "fbuf_ok f" and "fb_data f \<noteq> None" and "fb_skip f + fb_used f + length xs < fb_len f"
  shows "\<exists>f1 f2. fb_memmove f (fb_skip f + length xs) (fb_skip f) (fb_used f + 1) = Some f1 \<and>
           fb_skip f1 = fb_skip f \<and> fb_used f1 = fb_used f \<and>
           fb_copy_in f1 (fb_skip f) (xs @ ys) 0 (length xs) = Some f2 \<and> fb_used f2 = fb_used f \<and>
           fbuf_ok (f2\<lparr>fb_used := fb_used f + length xs\<rparr>) \<and>
           (fbuf_term f \<longrightarrow> fbuf_term (f2\<lparr>fb_used := fb_used f + length xs\<rparr>)) \<and>
           fbuf_content (f2\<lparr>fb_used := fb_used f + length xs\<rparr>) = xs @ fbuf_content f \<and> fb_params f2 = fb_params f"
proof -
  let ?b = "blk f" and ?s = "fb_skip f" and ?u = "fb_used f" and ?k = "length xs"
  have len: "length ?b = fb_len f" using assms(1) by (simp add: fbuf_ok_blk)
  define c where "c = take (?u + 1) (drop ?s ?b)"
  define b1 where "b1 = take (?s + ?k) ?b @ c @ drop (?s + ?k + (?u + 1)) ?b"
  have clen: "length c = ?u + 1" using assms(3) len by (simp add: c_def)
  have 1: "fb_memmove f (?s + ?k) ?s (?u + 1) = Some (set_blk f b1)"
    using fb_memmove_ok [of "?s + ?k" "?u + 1" f ?s] assms(3) len by (simp add: b1_def c_def)
  have b1len: "length b1 = fb_len f" using assms(3) len clen by (simp add: b1_def)
  have data: "fb_data (set_blk f b1) \<noteq> None" using assms(2) by simp
  have rest: "drop (?s + ?k) b1 = c @ drop (?s + ?k + (?u + 1)) ?b" using assms(3) len by (simp add: b1_def)
  define b2 where "b2 = take ?s ?b @ xs @ c @ drop (?s + ?k + (?u + 1)) ?b"
  have "take ?s b1 = take ?s ?b" using assms(3) len by (simp add: b1_def)
  then have 2: "fb_copy_in (set_blk f b1) ?s (xs @ ys) 0 ?k = Some (set_blk (set_blk f b1) b2)"
    using fb_copy_in_ok [of ?s ?k "set_blk f b1" 0 "xs @ ys"] assms(3) b1len rest
    by (simp add: blk_set_blk [OF assms(2)] b2_def)
  have b2len: "length b2 = fb_len f" using assms(3) len clen by (simp add: b2_def)
  have dr: "drop ?s b2 = xs @ c @ drop (?s + ?k + (?u + 1)) ?b" using assms(3) len by (simp add: b2_def)
  have "take ?u c = fbuf_content f" by (simp add: c_def fbuf_content_def min_def)
  then have cont: "take (?u + ?k) (drop ?s b2) = xs @ fbuf_content f" using clen by (simp add: dr)
  have "b2 ! (?s + (?u + ?k)) = drop ?s b2 ! (?u + ?k)" using b2len assms(3) by simp
  also have "\<dots> = c ! ?u" using clen by (simp add: dr nth_append)
  also have "\<dots> = ?b ! (?s + ?u)" using assms(3) len by (simp add: c_def)
  finally have nul: "b2 ! (?s + (?u + ?k)) = ?b ! (?s + ?u)" .
  show ?thesis
    using 1 2 cont nul assms b2len blk_set_blk [OF data, of b2]
    by (intro exI [of _ "set_blk f b1"] exI [of _ "set_blk (set_blk f b1) b2"])
      (auto simp: fbuf_ok_blk fbuf_content_def fbuf_term_def)
qed

lemma fb_prepend_gap:
  assumes "fbuf_ok f" and "length xs \<le> fb_skip f" and "fb_data f \<noteq> None"
  shows "\<exists>f1. fb_copy_in f (fb_skip f - length xs) (xs @ ys) 0 (length xs) = Some f1 \<and> fb_used f1 = fb_used f \<and> fb_skip f1 = fb_skip f \<and>
    fbuf_ok (f1\<lparr>fb_skip := fb_skip f - length xs, fb_used := fb_used f + length xs\<rparr>) \<and>
    (fbuf_term f \<longrightarrow> fbuf_term (f1\<lparr>fb_skip := fb_skip f - length xs, fb_used := fb_used f + length xs\<rparr>)) \<and>
    fbuf_content (f1\<lparr>fb_skip := fb_skip f - length xs, fb_used := fb_used f + length xs\<rparr>) = xs @ fbuf_content f \<and>
    fb_params f1 = fb_params f"
proof -
  let ?b = "blk f" and ?s = "fb_skip f" and ?k = "length xs"
  have len: "length ?b = fb_len f" "?s + fb_used f < fb_len f" using assms by (auto simp: fbuf_ok_blk)
  define b1 where "b1 = take (?s - ?k) ?b @ xs @ drop ?s ?b"
  have 1: "fb_copy_in f (?s - ?k) (xs @ ys) 0 ?k = Some (set_blk f b1)"
    using fb_copy_in_ok [of "?s - ?k" ?k f 0 "xs @ ys"] assms(2) len by (simp add: b1_def)
  have "drop (?s - ?k) b1 = xs @ drop ?s ?b" using assms(2) len by (simp add: b1_def)
  then have c: "take (fb_used f + ?k) (drop (?s - ?k) b1) = xs @ fbuf_content f" by (simp add: fbuf_content_def)
  have b1len: "length b1 = fb_len f" using assms(2) len by (simp add: b1_def)
  have nul: "b1 ! (?s + fb_used f) = ?b ! (?s + fb_used f)" using assms(2) len
    by (auto simp: b1_def nth_append)
  show ?thesis using 1 c b1len nul assms len
    by (intro exI [of _ "set_blk f b1"]) (auto simp: fbuf_ok_blk fbuf_content_def fbuf_term_def blk_set_blk)
qed

lemma fbuf_prepend_binary_ok:
  assumes "fbuf_ok f" and "params_ok f" and "fm_ok m" and "xs \<noteq> []" and "fb_used f + length xs \<le> 1073741824"
    and "fits f (fb_used f + length xs)"
  shows "\<exists>f' m'. fbuf_prepend_binary f m (Some (xs @ ys)) (int (length xs)) = Some (int (length xs), f', m') \<and> fbuf_ok f' \<and>
           fbuf_content f' = xs @ fbuf_content f \<and> fb_params f' = fb_params f \<and> fm_ok m' \<and>
           (fb_skip f = 0 \<or> fb_used f + length xs < fb_len f \<longrightarrow> fbuf_term f \<longrightarrow> fbuf_term f')"
proof -
  have a: "add32 (fb_used f) (length xs) = fb_used f + length xs" using assms(5) by (simp add: add32_eq)
  have "fb_skip f < 2147483648 \<or> fb_skip f = 0" using assms(1) by (auto simp: fbuf_ok_blk split: if_splits)
  then have s: "to_int (fb_skip f) = int (fb_skip f)" by (auto simp: to_int_eq)
  show ?thesis
  proof (cases "length xs \<le> fb_skip f")
    case True
    then have d: "fb_data f \<noteq> None" using assms(1,4) by (auto simp: fbuf_ok_def split: option.splits)
    have "sub32 (fb_skip f) (length xs) = fb_skip f - length xs" using True \<open>fb_skip f < 2147483648 \<or> fb_skip f = 0\<close>
      by (auto simp: sub32_eq)
    with fb_prepend_gap [OF assms(1) True d, of ys] True s a assms(3,4) show ?thesis
      by (auto simp: fbuf_prepend_binary_def)
  next
    case False
    from fbuf_extend_ok [OF assms(1,2,3,5,6)] obtain r f1 m' where
      e: "fbuf_extend f m (fb_used f + length xs) = Some (r, f1, m')" "r \<noteq> 0" "fbuf_ok f1" "fbuf_content f1 = fbuf_content f"
        "fb_used f1 = fb_used f" "fb_skip f1 + (fb_used f + length xs) < fb_len f1" "fb_params f1 = fb_params f" "fm_ok m'"
        "fb_data f1 \<noteq> None" "fb_skip f = 0 \<or> fb_used f + length xs < fb_len f \<longrightarrow> fbuf_term f \<longrightarrow> fbuf_term f1" by blast
    have room: "fb_skip f1 + fb_used f1 + length xs < fb_len f1" using e(5,6) by simp
    have one: "add32 (fb_used f) 1 = fb_used f + 1" "add32 (fb_used f) (Suc 0) = fb_used f + 1"
      using assms(5) by (simp_all add: add32_Suc)
    from fb_prepend_steps [OF e(3,9) room, of ys] False s a one e assms(4) show ?thesis
      by (auto simp: fbuf_prepend_binary_def)
  qed
qed

section \<open>Removing data\<close>

lemma fbuf_remove_ok:
  assumes "fbuf_ok f" and "fb_data f \<noteq> None"
  shows "\<exists>f'. fbuf_remove f n = Some (int (fb_used f - n), f') \<and> fbuf_ok f' \<and> fbuf_content f' = drop n (fbuf_content f) \<and>
           fb_used f' = fb_used f - n \<and> fb_params f' = fb_params f \<and> fb_len f' = fb_len f \<and> fb_data f' \<noteq> None \<and>
           (fbuf_term f \<longrightarrow> fbuf_term f')"
proof -
  let ?b = "blk f" and ?s = "fb_skip f" and ?u = "fb_used f"
  have len: "length ?b = fb_len f" "?s + ?u < fb_len f" "fb_len f \<le> 2147483648" using assms by (auto simp: fbuf_ok_blk)
  consider (all) "n \<ge> ?u" | (none) "n = 0" "n < ?u" | (keep) "0 < n" "n < ?u" "\<not> ?s + n \<ge> fb_len f div 2"
    | (move) "0 < n" "n < ?u" "?s + n \<ge> fb_len f div 2" by linarith
  then show ?thesis
  proof cases
    case all
    then show ?thesis using assms len
      by (auto simp: fbuf_remove_def fb_poke_ok fbuf_ok_blk fbuf_content_def fbuf_term_def blk_set_blk to_int_eq)
  next
    case none
    then show ?thesis using assms len by (auto simp: fbuf_remove_def to_int_eq)
  next
    case keep
    then have "add32 ?s n = ?s + n" "sub32 ?u n = ?u - n" using len by (auto simp: add32_eq sub32_eq)
    with keep show ?thesis using assms len
      by (auto simp: fbuf_remove_def to_int_eq fbuf_ok_blk fbuf_content_def fbuf_term_def drop_take add.commute)
  next
    case move
    then have a: "add32 ?s n = ?s + n" "sub32 ?u n = ?u - n" "add32 (?u - n) 1 = ?u - n + 1" "add32 (?u - n) (Suc 0) = ?u - n + 1"
      using len by (auto simp: add32_eq sub32_eq)
    let ?f = "f\<lparr>fb_skip := ?s + n, fb_used := ?u - n\<rparr>"
    have d: "fb_data ?f \<noteq> None" using assms(2) by simp
    define c where "c = take (?u - n + 1) (drop (?s + n) ?b)"
    define b1 where "b1 = c @ drop (?u - n + 1) ?b"
    have c: "length c = ?u - n + 1" "c ! (?u - n) = ?b ! (?s + ?u)" using move len by (simp_all add: c_def)
    have mm: "fb_memmove ?f 0 (?s + n) (?u - n + 1) = Some (set_blk ?f b1)"
      using fb_memmove_ok [of 0 "?u - n + 1" ?f "?s + n"] move len by (simp add: b1_def c_def)
    have b1: "length b1 = fb_len f" "take (?u - n) b1 = take (?u - n) (drop (?s + n) ?b)" "b1 ! (?u - n) = ?b ! (?s + ?u)"
      using move len c by (simp_all add: b1_def nth_append) (simp add: c_def min_def)
    have "take (?u - n) (drop (?s + n) ?b) = drop n (fbuf_content f)" by (simp add: fbuf_content_def drop_take add.commute)
    then show ?thesis using move mm a assms len b1
      by (auto simp: fbuf_remove_def to_int_eq fbuf_ok_blk fbuf_content_def fbuf_term_def blk_set_blk [OF d])
  qed
qed

text \<open>White space of the ASCII characters.\<close>

definition space :: "byte \<Rightarrow> bool" where
  "space c \<longleftrightarrow> c = 32 \<or> 9 \<le> c \<and> c \<le> 13"

lemma fb_peek_content:
  assumes "fbuf_ok f" and "i < fb_used f"
  shows "fb_peek f (add32 (fb_skip f) i) = Some (fbuf_content f ! i)"
proof -
  have "fb_skip f + fb_used f < fb_len f" "length (blk f) = fb_len f" "fb_len f \<le> 2147483648"
    using assms by (auto simp: fbuf_ok_blk split: if_splits)
  then show ?thesis using assms(2) by (simp add: add32_eq fb_peek_ok fbuf_content_def)
qed

lemma trim_loop_ok:
  assumes "fbuf_ok f" and "\<forall>c\<in>set (fbuf_content f). c < 128" and "i \<le> fb_used f"
  shows "trim_loop f i = Some (i + length (takeWhile space (drop i (fbuf_content f))))"
  using assms(3)
proof (induction "fb_used f - i" arbitrary: i rule: less_induct)
  case less
  note l = length_content [OF assms(1)]
  show ?case
  proof (cases "i < fb_used f")
    case True
    let ?c = "fbuf_content f ! i"
    have "isspace ?c = Some (space ?c)" using assms(2) True l by (simp add: isspace_def space_def)
    moreover have "drop i (fbuf_content f) = ?c # drop (Suc i) (fbuf_content f)" using True l by (simp add: Cons_nth_drop_Suc)
    moreover have "trim_loop f (Suc i) = Some (Suc i + length (takeWhile space (drop (Suc i) (fbuf_content f))))"
      by (rule less.hyps) (use True in auto)
    ultimately show ?thesis
      using True by (subst trim_loop.simps) (simp add: fb_peek_content [OF assms(1)])
  next
    case False
    then show ?thesis using less.prems l by (subst trim_loop.simps) simp
  qed
qed

lemma drop_takeWhile: "drop (length (takeWhile P xs)) xs = dropWhile P xs"
  by (induction xs) auto

lemma fbuf_trim_ok:
  assumes "fbuf_ok f" and "fb_data f \<noteq> None" and "\<forall>c\<in>set (fbuf_content f). c < 128"
  shows "\<exists>f'. fbuf_trim f = Some (int (length (takeWhile space (fbuf_content f))), f') \<and> fbuf_ok f' \<and>
           fbuf_content f' = dropWhile space (fbuf_content f) \<and> (fbuf_term f \<longrightarrow> fbuf_term f') \<and> fb_data f' \<noteq> None"
proof -
  let ?i = "length (takeWhile space (fbuf_content f))"
  have "?i \<le> fb_used f" using length_takeWhile_le [of space "fbuf_content f"] length_content [OF assms(1)] by simp
  moreover have "fb_used f < 2147483648" using assms by (auto simp: fbuf_ok_blk)
  ultimately have "to_int ?i = int ?i" by (simp add: to_int_eq)
  with fbuf_remove_ok [OF assms(1,2), of ?i] trim_loop_ok [OF assms(1,3), of 0] show ?thesis
    by (auto simp: fbuf_trim_def drop_takeWhile)
qed

lemma rtrim_loop_ok:
  assumes "fbuf_ok f" and "fb_data f \<noteq> None" and "\<forall>c\<in>set (fbuf_content f). c < 128"
  shows "\<exists>k. rtrim_loop f i = Some (i + (fb_used f - k), f\<lparr>fb_used := k\<rparr>) \<and> k \<le> fb_used f \<and>
           take k (fbuf_content f) = rev (dropWhile space (rev (fbuf_content f)))"
  using assms
proof (induction "fb_used f" arbitrary: f i)
  case 0
  then have "fbuf_content f = []" by (simp add: fbuf_content_def)
  then show ?case using 0 by (subst rtrim_loop.simps) (auto intro!: exI [of _ 0] simp: fbuf_content_def)
next
  case (Suc u)
  note l = length_content [OF Suc.prems(1)] and u = Suc.hyps(2) [symmetric]
  let ?f = "f\<lparr>fb_used := u\<rparr>" and ?c = "fbuf_content f ! u"
  have b: "fb_skip f + Suc u < fb_len f" "fb_len f \<le> 2147483648" using Suc.prems(1,2) Suc.hyps(2) by (auto simp: fbuf_ok_blk)
  then have "sub32 (add32 (fb_skip f) (fb_used f)) 1 = fb_skip f + u" "add32 (fb_skip f) u = fb_skip f + u"
    unfolding u by (simp_all add: add32_eq sub32_eq)
  then have p: "fb_peek f (sub32 (add32 (fb_skip f) (fb_used f)) 1) = Some ?c"
    using fb_peek_content [OF Suc.prems(1), of u] Suc.hyps(2) by simp
  have c: "isspace ?c = Some (space ?c)" using Suc.prems(3) Suc.hyps(2) l by (simp add: isspace_def space_def)
  have f: "fbuf_content f = fbuf_content ?f @ [?c]"
  proof -
    have "u < length (drop (fb_skip f) (blk f))" using b Suc.prems(1) by (simp add: fbuf_ok_blk)
    from take_Suc_conv_app_nth [OF this] this show ?thesis by (simp add: fbuf_content_def u nth_append)
  qed
  have unf: "rtrim_loop f i = (if space ?c then rtrim_loop ?f (i + 1) else Some (i, f))"
    using p c by (subst rtrim_loop.simps) (simp add: u)
  show ?case
  proof (cases "space ?c")
    case True
    have "fbuf_ok ?f" using Suc.prems(1,2) b by (auto simp: fbuf_ok_blk)
    moreover have "\<forall>c\<in>set (fbuf_content ?f). c < 128" using Suc.prems(3) f by (metis Un_iff set_append)
    ultimately obtain k where k: "rtrim_loop ?f (i + 1) = Some (i + 1 + (u - k), ?f\<lparr>fb_used := k\<rparr>)" "k \<le> u"
      "take k (fbuf_content ?f) = rev (dropWhile space (rev (fbuf_content ?f)))"
      using Suc.hyps(1) [of ?f "i + 1"] Suc.prems(2) by auto
    have "length (fbuf_content ?f) = u" using f l Suc.hyps(2) by (metis diff_Suc_1 length_append_singleton)
    then have "take k (fbuf_content f) = rev (dropWhile space (rev (fbuf_content f)))"
      using True k(2,3) by (subst (1 2) f) simp
    then show ?thesis using unf True k(1,2) by (intro exI [of _ k]) (auto simp: u)
  next
    case False
    then have "rev (dropWhile space (rev (fbuf_content f))) = fbuf_content f" by (subst (1 2) f) simp
    then show ?thesis using unf False l by (intro exI [of _ "fb_used f"]) simp
  qed
qed

lemma fb_truncate:
  assumes "fbuf_ok f" and "fb_data f \<noteq> None" and "k \<le> fb_used f"
  shows "\<exists>f'. fb_poke (f\<lparr>fb_used := k\<rparr>) (add32 (fb_skip f) k) 0 = Some f' \<and> fbuf_ok f' \<and> fbuf_term f' \<and> fb_used f' = k \<and>
           fbuf_content f' = take k (fbuf_content f) \<and> fb_params f' = fb_params f \<and> fb_data f' \<noteq> None \<and>
           fb_skip f' = fb_skip f \<and> fb_len f' = fb_len f"
proof -
  have b: "fb_skip f + fb_used f < fb_len f" "length (blk f) = fb_len f" "fb_len f \<le> 2147483648"
    using assms by (auto simp: fbuf_ok_blk)
  then have a: "add32 (fb_skip f) k = fb_skip f + k" using assms(3) by (simp add: add32_eq)
  have d: "fb_data (f\<lparr>fb_used := k\<rparr>) \<noteq> None" using assms(2) by simp
  have "take k (drop (fb_skip f) ((blk f)[fb_skip f + k := 0])) = take k (fbuf_content f)"
    using assms(3) by (simp add: fbuf_content_def drop_update_swap take_update_cancel min_def)
  then show ?thesis using assms b a
    by (auto simp: fb_poke_ok fbuf_ok_blk fbuf_content_def fbuf_term_def blk_set_blk [OF d])
qed

lemma fbuf_rtrim_ok:
  assumes "fbuf_ok f" and "fb_data f \<noteq> None" and "\<forall>c\<in>set (fbuf_content f). c < 128"
  shows "\<exists>n f'. fbuf_rtrim f = Some (int n, f') \<and> fbuf_ok f' \<and> fbuf_term f' \<and> n + fb_used f' = fb_used f \<and>
           fbuf_content f' = rev (dropWhile space (rev (fbuf_content f)))"
proof -
  from rtrim_loop_ok [OF assms, of 0] obtain k where
    k: "rtrim_loop f 0 = Some (fb_used f - k, f\<lparr>fb_used := k\<rparr>)" "k \<le> fb_used f"
      "take k (fbuf_content f) = rev (dropWhile space (rev (fbuf_content f)))" by auto
  have "fb_used f < 2147483648" using assms by (auto simp: fbuf_ok_blk)
  then have "to_int (fb_used f - k) = int (fb_used f - k)" by (simp add: to_int_eq)
  with fb_truncate [OF assms(1,2) k(2)] k show ?thesis
    by (intro exI [of _ "fb_used f - k"]) (auto simp: fbuf_rtrim_def)
qed

section \<open>Shrinking\<close>

text \<open>
  The loop of \<open>fbuf_shrink\<close> ends; its result still has room for the bytes in use and the terminator, and the
  next smaller size of the sequence has not, unless it reached the minimum.
\<close>

lemma fb_shrink_loop_ok:
  assumes "0 < slow" and "slow \<le> fast" and "len \<le> 2147483648" and "used < 2147483648"
  shows "\<exists>n. fb_shrink_loop used minlen fast slow len = Some n \<and> n \<le> len \<and> (used < len \<longrightarrow> used < n) \<and>
           (n \<le> minlen \<or> (if n \<le> fast then n div 2 else n - slow) \<le> used)"
  using assms(3)
proof (induction len rule: less_induct)
  case (less len)
  define l where "l = (if len \<le> fast then len div 2 else len - slow)"
  have u: "add32 used 1 = Suc used" "add32 used (Suc 0) = Suc used" using assms(4) by (simp_all add: add32_Suc)
  have "(if len \<le> fast then len div 2 else sub32 len slow) = l" using assms less.prems by (simp add: sub32_eq l_def)
  then have unf: "fb_shrink_loop used minlen fast slow len =
      (if len \<le> minlen then Some len else if Suc used \<le> l then fb_shrink_loop used minlen fast slow l else Some len)"
    by (subst fb_shrink_loop.simps) (simp add: Let_def u)
  consider (stop) "len \<le> minlen \<or> l \<le> used" | (go) "\<not> len \<le> minlen" "Suc used \<le> l" by linarith
  then show ?case
  proof cases
    case stop
    then have "fb_shrink_loop used minlen fast slow len = Some len" using unf by auto
    then show ?thesis using stop unfolding l_def by blast
  next
    case go
    then have l: "l < len" "l \<le> 2147483648" using assms less.prems unfolding l_def by (auto split: if_splits)
    from less.IH [OF this] obtain n where n: "fb_shrink_loop used minlen fast slow l = Some n" "n \<le> l" "used < l \<longrightarrow> used < n"
      "n \<le> minlen \<or> (if n \<le> fast then n div 2 else n - slow) \<le> used" by blast
    then have "fb_shrink_loop used minlen fast slow len = Some n" "n \<le> len" "used < n" using go l unf by auto
    then show ?thesis using n(4) by blast
  qed
qed

lemma take_keeps:
  "u < n \<Longrightarrow> take u (take n b) = take u b \<and> take n b ! u = b ! u"
  by (simp add: min_def)

lemma fbuf_shrink_ok:
  assumes "fbuf_ok f" and "params_ok f" and "fm_ok m"
  shows "\<exists>f' m'. fbuf_shrink f m = Some (fb_len f', f', m') \<and> fbuf_ok f' \<and> fbuf_content f' = fbuf_content f \<and>
           fb_used f' = fb_used f \<and> fb_skip f' = 0 \<and> fb_len f' \<le> fb_len f \<and> fb_params f' = fb_params f \<and> fm_ok m' \<and>
           (fbuf_term f \<longrightarrow> fbuf_term f') \<and>
           (fb_used f \<noteq> 0 \<longrightarrow> fb_len f' \<le> fb_minlen f \<or>
              (if fb_len f' \<le> fast_of f then fb_len f' div 2 else fb_len f' - slow_of f) \<le> fb_used f)"
proof -
  have "\<exists>f1. (if fb_skip f \<noteq> 0 then fb_unskip f else Some f) = Some f1 \<and> fbuf_ok f1 \<and> fbuf_content f1 = fbuf_content f \<and>
      fb_skip f1 = 0 \<and> fb_used f1 = fb_used f \<and> fb_len f1 = fb_len f \<and> fb_params f1 = fb_params f \<and> (fbuf_term f \<longrightarrow> fbuf_term f1)"
  proof (cases "fb_skip f = 0")
    case False
    then have "fb_data f \<noteq> None" using assms(1) by (auto simp: fbuf_ok_def split: option.splits)
    from fb_unskip_ok [OF assms(1) this] False show ?thesis by auto
  qed (use assms in auto)
  then obtain f1 where f1: "(if fb_skip f \<noteq> 0 then fb_unskip f else Some f) = Some f1" "fbuf_ok f1" "fbuf_content f1 = fbuf_content f"
      "fb_skip f1 = 0" "fb_used f1 = fb_used f" "fb_len f1 = fb_len f" "fb_params f1 = fb_params f" "fbuf_term f \<longrightarrow> fbuf_term f1"
    by auto
  have par: "fast_of f1 = fast_of f" "slow_of f1 = slow_of f" "fb_minlen f1 = fb_minlen f"
    using f1(7) by (simp_all add: fb_params_def fast_of_def slow_of_def)
  have bl: "length (blk f1) = fb_len f1" "fb_len f1 \<le> 2147483648" "fb_used f1 = 0 \<or> fb_used f1 < fb_len f1"
    using f1(2) by (auto simp: fbuf_ok_blk split: if_splits)
  then have le: "(if fb_used f1 = 0 then 0 else fb_len f1) \<le> 2147483648" "fb_used f1 < 2147483648" by auto
  have "slow_of f1 \<le> fast_of f1" using assms(2) par by (simp add: params_ok_def)
  from fb_shrink_loop_ok [OF slow_of_pos [of f1] this le, of "fb_minlen f1"] obtain n where
    n: "fb_shrink_loop (fb_used f1) (fb_minlen f1) (fast_of f1) (slow_of f1) (if fb_used f1 = 0 then 0 else fb_len f1) = Some n"
      "n \<le> (if fb_used f1 = 0 then 0 else fb_len f1)"
      "fb_used f1 < (if fb_used f1 = 0 then 0 else fb_len f1) \<longrightarrow> fb_used f1 < n"
      "n \<le> fb_minlen f1 \<or> (if n \<le> fast_of f1 then n div 2 else n - slow_of f1) \<le> fb_used f1"
    by (elim exE conjE) (rule that)
  have eq: "fbuf_shrink f m =
     (if n = fb_len f1 then Some (fb_len f1, f1, m)
      else if n = 0 then let m = fb_free m (fb_data f1); f = f1\<lparr>fb_data := None, fb_len := 0\<rparr> in Some (fb_len f, f, m)
      else (case fb_realloc m (fb_data f1) n of
          (None, m) \<Rightarrow> Some (fb_len f1, f1, m)
        | (Some p, m) \<Rightarrow> let f = f1\<lparr>fb_data := Some p, fb_len := n\<rparr> in Some (fb_len f, f, m)))"
    using f1(1) n(1) by (simp add: fbuf_shrink_def)
  consider (same) "n = fb_len f1" | (free) "n \<noteq> fb_len f1" "n = 0" | (realloc) "n \<noteq> fb_len f1" "n \<noteq> 0" by blast
  then show ?thesis
  proof cases
    case same
    then show ?thesis using eq f1 n assms(3) par by auto
  next
    case free
    have "fm_ok (fb_free m (fb_data f1))" using assms(3) by (simp add: fb_free_def fm_ok_def)
    moreover have "fb_used f1 = 0" using n(3) bl(3) free by (auto split: if_splits)
    moreover have "fbuf_content f1 = []" using calculation by (simp add: fbuf_content_def)
    ultimately show ?thesis using eq f1(3-5,7) free
      by (simp add: Let_def fbuf_ok_blk fbuf_term_def) (simp add: fbuf_content_def)
  next
    case realloc
    then have u: "fb_used f1 \<noteq> 0" "fb_used f1 < n" "n < fb_len f1" using n(2,3) bl(3) by (auto split: if_splits)
    then obtain b where b: "fb_data f1 = Some b" "length b = fb_len f1" using f1(2) by (auto simp: fbuf_ok_def split: option.splits)
    from fb_realloc_ok [OF assms(3), of "fb_data f1" n] b obtain p m' where
      p: "fb_realloc m (fb_data f1) n = (Some p, m')" "length p = n" "fm_ok m'" "take (length b) p = take n b" by auto
    then have pb: "p = take n b" using u(3) b(2) by simp
    have "fbuf_ok (f1\<lparr>fb_data := Some p, fb_len := n\<rparr>)" using f1(2,4) u p(2) bl(2) by (simp add: fbuf_ok_def)
    moreover have "fbuf_content (f1\<lparr>fb_data := Some p, fb_len := n\<rparr>) = fbuf_content f1"
      using take_keeps [OF u(2), of b] b(1) f1(4) pb by (simp add: fbuf_content_def blk_def)
    moreover have "fbuf_term f1 \<longrightarrow> fbuf_term (f1\<lparr>fb_data := Some p, fb_len := n\<rparr>)"
      using take_keeps [OF u(2), of b] b(1) f1(4) pb by (simp add: fbuf_term_def blk_def)
    ultimately show ?thesis using eq realloc p f1 n(4) u par by (auto simp: Let_def)
  qed
qed

section \<open>Whole buffers\<close>

text \<open>Appending bytes together with their terminator.\<close>

lemma fb_copy_in_drop: "s \<le> length src \<Longrightarrow> fb_copy_in f d src s n = fb_copy_in f d (drop s src) 0 n"
  by (auto simp: fb_copy_in_def memcpy_def nat_add_distrib)

lemma set_blk_used: "set_blk (f\<lparr>fb_used := n\<rparr>) b = (set_blk f b)\<lparr>fb_used := n\<rparr>"
  by (cases f) (simp add: set_blk_def)

lemma fb_copy_in_used:
  "fb_copy_in (f\<lparr>fb_used := n\<rparr>) d src s k = map_option (\<lambda>g. g\<lparr>fb_used := n\<rparr>) (fb_copy_in f d src s k)"
  by (cases "memcpy (blk f) (int d) src (int s) (int k)") (simp_all add: fb_copy_in_def set_blk_used)

lemma fb_append_nul:
  assumes "fbuf_ok f" and "fb_data f \<noteq> None" and "fb_skip f + fb_used f + length xs < fb_len f"
  shows "\<exists>f1. fb_copy_in f (fb_skip f + fb_used f) (xs @ 0 # ys) 0 (Suc (length xs)) = Some f1 \<and>
           fb_skip f1 = fb_skip f \<and> fb_used f1 = fb_used f \<and> fb_len f1 = fb_len f \<and> fb_data f1 \<noteq> None \<and>
           fbuf_ok (f1\<lparr>fb_used := fb_used f + length xs\<rparr>) \<and> fbuf_term (f1\<lparr>fb_used := fb_used f + length xs\<rparr>) \<and>
           fbuf_content (f1\<lparr>fb_used := fb_used f + length xs\<rparr>) = fbuf_content f @ xs \<and> fb_params f1 = fb_params f"
proof -
  let ?b = "blk f" and ?i = "fb_skip f + fb_used f" and ?k = "length xs"
  have len: "length ?b = fb_len f" using assms(1) by (simp add: fbuf_ok_blk)
  define b1 where "b1 = take ?i ?b @ xs @ 0 # drop (Suc (?i + ?k)) ?b"
  have 1: "fb_copy_in f ?i (xs @ 0 # ys) 0 (Suc ?k) = Some (set_blk f b1)"
    using fb_copy_in_ok [of ?i "Suc ?k" f 0 "xs @ 0 # ys"] assms len by (simp add: b1_def)
  have len1: "length b1 = fb_len f" using assms len by (simp add: b1_def)
  have d: "drop (fb_skip f) b1 = fbuf_content f @ xs @ 0 # drop (Suc (?i + ?k)) ?b"
    using assms len by (simp add: b1_def fbuf_content_def drop_take)
  then have c: "take (fb_used f + ?k) (drop (fb_skip f) b1) = fbuf_content f @ xs"
    using length_content [OF assms(1)] by simp
  have "b1 ! (?i + ?k) = 0" using assms len by (simp add: b1_def nth_append)
  with 1 c len1 assms show ?thesis
    by (intro exI [of _ "set_blk f b1"])
      (auto simp: fbuf_ok_blk blk_set_blk [OF assms(2)] fbuf_content_def fbuf_term_def ac_simps)
qed

lemma content_nul:
  assumes "fbuf_ok f" and "fbuf_term f" and "fb_data f \<noteq> None"
  shows "drop (fb_skip f) (blk f) = fbuf_content f @ 0 # drop (Suc (fb_skip f + fb_used f)) (blk f)"
proof -
  have len: "length (blk f) = fb_len f" "fb_skip f + fb_used f < fb_len f" using assms(1,3) by (auto simp: fbuf_ok_blk)
  have "drop (fb_skip f) (blk f) = fbuf_content f @ drop (fb_used f) (drop (fb_skip f) (blk f))"
    unfolding fbuf_content_def by (rule append_take_drop_id [symmetric])
  moreover have "drop (fb_used f) (drop (fb_skip f) (blk f)) = 0 # drop (Suc (fb_skip f + fb_used f)) (blk f)"
    using Cons_nth_drop_Suc [of "fb_skip f + fb_used f" "blk f"] assms(2,3) len by (simp add: fbuf_term_def add.commute)
  ultimately show ?thesis by metis
qed

lemma fbuf_concat_ok:
  assumes "fbuf_ok dst" and "params_ok dst" and "fm_ok m" and "fbuf_ok src" and "fbuf_term src" and "fb_used src \<noteq> 0"
    and "fb_used dst + fb_used src \<le> 1073741824" and "fits dst (fb_used dst + fb_used src)"
  shows "\<exists>f' m'. fbuf_concat dst src m = Some (int (fb_used src), f', m') \<and> fbuf_ok f' \<and> fbuf_term f' \<and>
           fbuf_content f' = fbuf_content dst @ fbuf_content src \<and> fb_params f' = fb_params dst \<and> fm_ok m'"
proof -
  have a: "add32 (fb_used dst) (fb_used src) = fb_used dst + fb_used src" "to_int (fb_used src) = int (fb_used src)"
    using assms(7) by (simp_all add: add32_eq to_int_eq)
  have ds: "fb_data src \<noteq> None" using assms(4,6) by (auto simp: fbuf_ok_def split: option.splits)
  from fbuf_extend_ok [OF assms(1,2,3,7,8)] obtain r f1 m' where
    e: "fbuf_extend dst m (fb_used dst + fb_used src) = Some (r, f1, m')" "r \<noteq> 0" "fbuf_ok f1" "fbuf_content f1 = fbuf_content dst"
      "fb_used f1 = fb_used dst" "fb_skip f1 + (fb_used dst + fb_used src) < fb_len f1" "fb_params f1 = fb_params dst" "fm_ok m'"
      "fb_data f1 \<noteq> None" by blast
  have sl: "fb_skip src \<le> length (blk src)" using assms(4) by (auto simp: fbuf_ok_blk split: if_splits)
  note l = length_content [OF assms(4)]
  have room: "fb_skip f1 + fb_used f1 + length (fbuf_content src) < fb_len f1" using e(5,6) l by simp
  from fb_append_nul [OF e(3,9) room, of "drop (Suc (fb_skip src + fb_used src)) (blk src)"] obtain f2 where
    s: "fb_copy_in f1 (fb_skip f1 + fb_used f1) (blk src) (fb_skip src) (Suc (fb_used src)) = Some f2" "fb_used f2 = fb_used f1"
      "fbuf_ok (f2\<lparr>fb_used := fb_used f1 + fb_used src\<rparr>)" "fbuf_term (f2\<lparr>fb_used := fb_used f1 + fb_used src\<rparr>)"
      "fbuf_content (f2\<lparr>fb_used := fb_used f1 + fb_used src\<rparr>) = fbuf_content f1 @ fbuf_content src" "fb_params f2 = fb_params f1"
    unfolding l content_nul [OF assms(4,5) ds, symmetric] fb_copy_in_drop [OF sl, symmetric] by auto
  have "ck (int (fb_used src) + 1) = Some (int (fb_used src) + 1)" using assms(7) by (simp add: ck_Some)
  moreover have "nat (int (fb_used src) + 1) = Suc (fb_used src)" by simp
  ultimately show ?thesis using e s a assms(6) by (simp add: fbuf_concat_def)
qed

lemma fbuf_clear_ok:
  assumes "fbuf_ok f"
  shows "\<exists>f'. fbuf_clear f = Some f' \<and> fbuf_ok f' \<and> fbuf_term f' \<and> fbuf_content f' = [] \<and> fb_used f' = 0 \<and> fb_skip f' = 0 \<and>
           fb_len f' = fb_len f \<and> (fb_data f' = None \<longleftrightarrow> fb_data f = None) \<and> fb_params f' = fb_params f"
proof (cases "fb_len f = 0")
  case True
  then show ?thesis using assms fbuf_ok_NULL [OF assms] by (auto simp: fbuf_clear_def fbuf_ok_blk fbuf_term_def fbuf_content_def Let_def)
next
  case False
  then show ?thesis using assms fbuf_ok_NULL [OF assms]
    by (auto simp: fbuf_clear_def fb_poke_ok fbuf_ok_blk fbuf_term_def fbuf_content_def blk_set_blk Let_def)
qed

text \<open>\<open>fbuf_copy\<close> gives the destination the bytes of the source, whatever it held.\<close>

lemma fbuf_copy_ok:
  assumes "fbuf_ok dst" and "params_ok dst" and "fm_ok m" and "fbuf_ok src"
    and "fb_used src \<le> 1073741824" and "fits dst (fb_used src)"
  shows "\<exists>f' m'. fbuf_copy src dst m = Some (int (fb_used src), f', m') \<and> fbuf_ok f' \<and> fbuf_term f' \<and>
           fbuf_content f' = fbuf_content src \<and> fb_params f' = fb_params dst \<and> fm_ok m'"
proof -
  from fbuf_extend_ok [OF assms(1,2,3,5,6)] obtain r f1 m' where
    e: "fbuf_extend dst m (fb_used src) = Some (r, f1, m')" "r \<noteq> 0" "fbuf_ok f1"
      "fb_skip f1 + fb_used src < fb_len f1" "fb_params f1 = fb_params dst" "fm_ok m'" "fb_data f1 \<noteq> None" by blast
  from fbuf_clear_ok [OF e(3)] e(7) obtain f2 where
    c: "fbuf_clear f1 = Some f2" "fbuf_ok f2" "fbuf_content f2 = []" "fb_used f2 = 0" "fb_skip f2 = 0" "fb_len f2 = fb_len f1"
      "fb_data f2 \<noteq> None" "fb_params f2 = fb_params f1" by auto
  have sl: "fb_skip src \<le> length (blk src)" "fb_used src \<le> length (drop (fb_skip src) (blk src))"
    using assms(4) by (auto simp: fbuf_ok_blk split: if_splits)
  have "fb_skip f2 + fb_used f2 + fb_used src < fb_len f2" using e(4) c by simp
  from fb_append_steps [OF c(2,7) this sl(2)] c(3-5) obtain f3 f4 where
    s: "fb_copy_in f2 0 (drop (fb_skip src) (blk src)) 0 (fb_used src) = Some f3" "fb_skip f3 = 0" "fb_used f3 = 0"
      "fb_poke (f3\<lparr>fb_used := fb_used src\<rparr>) (fb_used src) 0 = Some f4" "fbuf_ok f4" "fbuf_term f4"
      "fbuf_content f4 = take (fb_used src) (drop (fb_skip src) (blk src))" "fb_used f4 = fb_used src" "fb_params f4 = fb_params f2" by auto
  have "add32 0 (fb_used src) = fb_used src" "to_int (fb_used src) = int (fb_used src)"
    using assms(5) by (simp_all add: add32_eq to_int_eq)
  then show ?thesis using e c s by (auto simp: fbuf_copy_def fb_copy_in_drop [OF sl(1)] fbuf_content_def)
qed

lemma fbuf_set_ok:
  assumes "fbuf_ok f" and "params_ok f" and "fm_ok m" and "length xs \<le> 1073741824" and "fits f (length xs)"
  shows "\<exists>f' m'. fbuf_set f m xs = Some (int (length xs), f', m') \<and> fbuf_ok f' \<and> fbuf_term f' \<and>
           fbuf_content f' = xs \<and> fb_params f' = fb_params f \<and> fm_ok m'"
proof -
  from fbuf_extend_ok [OF assms(1,2,3,4,5)] obtain r f1 m' where
    e: "fbuf_extend f m (length xs) = Some (r, f1, m')" "r \<noteq> 0" "fbuf_ok f1"
      "fb_skip f1 + length xs < fb_len f1" "fb_params f1 = fb_params f" "fm_ok m'" "fb_data f1 \<noteq> None" by blast
  let ?g = "f1\<lparr>fb_used := 0\<rparr>"
  have "fbuf_ok ?g" "fb_data ?g \<noteq> None" "fb_skip ?g + fb_used ?g + length xs < fb_len ?g" using e by (auto simp: fbuf_ok_blk)
  from fb_append_nul [OF this, of "[]"] obtain g1 where
    s: "fb_copy_in ?g (fb_skip f1) (xs @ [0]) 0 (Suc (length xs)) = Some g1" "fbuf_ok (g1\<lparr>fb_used := length xs\<rparr>)"
      "fbuf_term (g1\<lparr>fb_used := length xs\<rparr>)" "fbuf_content (g1\<lparr>fb_used := length xs\<rparr>) = xs" "fb_params g1 = fb_params f1"
    by (auto simp: fbuf_content_def)
  from s(1) obtain g2 where g2: "fb_copy_in f1 (fb_skip f1) (xs @ [0]) 0 (Suc (length xs)) = Some g2" "g1 = g2\<lparr>fb_used := 0\<rparr>"
    by (auto simp: fb_copy_in_used)
  have "ck (int (length xs) + 1) = Some (int (length xs) + 1)" "u32 (length xs) = length xs" "to_int (length xs) = int (length xs)"
    "nat (int (length xs) + 1) = Suc (length xs)"
    using assms(4) by (simp_all add: ck_Some u32_eq to_int_eq)
  then show ?thesis using e s g2 by (simp add: fbuf_set_def Let_def)
qed

end
