(* ===== verification/Fbuf_IO.thy ===== *)
theory Fbuf_IO
  imports Fbuf_Spec
begin

text \<open>
  Formatted output into a flat buffer, input and output of its bytes, and the properties of \<open>fbuf.c\<close>. The
  buffer provides the interface of a byte channel (theory \<open>Fifo\<close>).
\<close>

lemma fb_terminate:
  assumes "fbuf_ok f" and "fb_data f \<noteq> None"
  shows "\<exists>f'. fb_poke f (add32 (fb_skip f) (fb_used f)) 0 = Some f' \<and> fbuf_ok f' \<and> fbuf_term f' \<and> fb_used f' = fb_used f \<and>
           fbuf_content f' = fbuf_content f \<and> fb_params f' = fb_params f \<and> fb_data f' \<noteq> None"
proof -
  have "f\<lparr>fb_used := fb_used f\<rparr> = f" by simp
  with fb_truncate [OF assms order_refl] length_content [OF assms(1)] show ?thesis by auto
qed

section \<open>Formatted text\<close>

lemma fb_vsnprintf_room:
  assumes "fbuf_ok f" and "fb_data f \<noteq> None"
  shows "sub32 (fb_len f) (add32 (fb_skip f) (fb_used f)) = fb_len f - (fb_skip f + fb_used f)"
    and "fb_skip f + fb_used f < fb_len f"
  using assms by (auto simp: fbuf_ok_blk add32_eq sub32_eq)

lemma fb_vsnprintf_fits:
  assumes "fbuf_ok f" and "fb_data f \<noteq> None" and "fb_skip f + fb_used f + length txt < fb_len f"
  shows "\<exists>f1 f2. fb_vsnprintf f (fb_skip f + fb_used f) (fb_len f - (fb_skip f + fb_used f)) txt = Some (length txt, f1) \<and>
           fb_skip f1 = fb_skip f \<and> fb_used f1 = fb_used f \<and> fb_len f1 = fb_len f \<and>
           fb_printf_end (length txt) f1 m = Some (int (length txt), f2, m) \<and> fbuf_ok f2 \<and> fbuf_term f2 \<and>
           fbuf_content f2 = fbuf_content f @ txt \<and> fb_params f2 = fb_params f"
proof -
  have len: "fb_len f \<le> 2147483648" using assms(1) by (simp add: fbuf_ok_blk)
  then have a: "add32 (fb_used f) (length txt) = fb_used f + length txt" "u32 (length txt) = length txt"
    "to_int (length txt) = int (length txt)" using assms(3) by (auto simp: add32_eq u32_eq to_int_eq)
  from fb_append_nul [OF assms, of "[]"] obtain f1 where
    f1: "fb_copy_in f (fb_skip f + fb_used f) (txt @ [0]) 0 (Suc (length txt)) = Some f1" "fb_skip f1 = fb_skip f"
      "fb_used f1 = fb_used f" "fb_len f1 = fb_len f" "fb_data f1 \<noteq> None" "fbuf_ok (f1\<lparr>fb_used := fb_used f + length txt\<rparr>)"
      "fbuf_content (f1\<lparr>fb_used := fb_used f + length txt\<rparr>) = fbuf_content f @ txt" "fb_params f1 = fb_params f" by auto
  have "fb_vsnprintf f (fb_skip f + fb_used f) (fb_len f - (fb_skip f + fb_used f)) txt = Some (length txt, f1)"
    using assms(3) f1(1) a(2) by (simp add: fb_vsnprintf_def Let_def)
  moreover obtain f2 where "fb_poke (f1\<lparr>fb_used := fb_used f + length txt\<rparr>) (add32 (fb_skip f) (fb_used f + length txt)) 0 = Some f2"
    "fbuf_ok f2" "fbuf_term f2" "fbuf_content f2 = fbuf_content f @ txt" "fb_params f2 = fb_params f"
    using fb_truncate [OF f1(6), of "fb_used f + length txt"] f1(2,5,7,8) length_content [OF assms(1)] by auto
  ultimately show ?thesis using f1 a by (auto simp: fb_printf_end_def)
qed

lemma fb_vsnprintf_cut:
  assumes "fbuf_ok f" and "fb_data f \<noteq> None" and "fb_skip f + fb_used f + length txt \<ge> fb_len f" and "length txt \<le> 1073741824"
  shows "\<exists>f1. fb_vsnprintf f (fb_skip f + fb_used f) (fb_len f - (fb_skip f + fb_used f)) txt = Some (length txt, f1) \<and>
           fb_skip f1 = fb_skip f \<and> fb_used f1 = fb_used f \<and> fb_len f1 = fb_len f \<and> fb_data f1 \<noteq> None \<and>
           fbuf_ok f1 \<and> fbuf_content f1 = fbuf_content f \<and> fb_params f1 = fb_params f"
proof -
  let ?i = "fb_skip f + fb_used f"
  note room = fb_vsnprintf_room [OF assms(1,2)]
  have len: "length (blk f) = fb_len f" using assms(1) by (simp add: fbuf_ok_blk)
  define out where "out = take (fb_len f - ?i - 1) txt @ [0]"
  have out: "length out = fb_len f - ?i" using assms(3) room(2) by (simp add: out_def)
  define b1 where "b1 = take ?i (blk f) @ out"
  have "fb_copy_in f ?i out 0 (length out) = Some (set_blk f b1)"
    using fb_copy_in_ok [of ?i "length out" f 0 out] out len room(2) by (simp add: b1_def)
  moreover have "take (fb_used f) (drop (fb_skip f) b1) = fbuf_content f"
    using len room(2) by (simp add: b1_def fbuf_content_def drop_take)
  moreover have "length b1 = fb_len f" using len room(2) out by (simp add: b1_def)
  moreover have "u32 (length txt) = length txt" using assms(4) by (simp add: u32_eq)
  moreover have "\<not> fb_len f \<le> ?i" using room(2) by simp
  ultimately show ?thesis using assms out room(2) unfolding out_def
    by (intro exI [of _ "set_blk f b1"]) (auto simp: fb_vsnprintf_def Let_def fbuf_ok_blk fbuf_content_def blk_set_blk)
qed

lemma fbuf_printf_ok:
  assumes "fbuf_ok f" and "params_ok f" and "fm_ok m" and "fb_used f + length txt \<le> 1073741000"
  shows "\<exists>f' m' r. fbuf_printf f m txt = Some (r, f', m') \<and> fbuf_ok f' \<and> fb_params f' = fb_params f \<and> fm_ok m' \<and>
           (r = int (length txt) \<and> fbuf_content f' = fbuf_content f @ txt \<and> fbuf_term f' \<or>
            r = - 1 \<and> fbuf_content f' = fbuf_content f \<and> (fbuf_term f \<longrightarrow> fbuf_term f') \<and> fb_maxlen f \<noteq> 0)"
proof (cases "fits f (fb_used f + FBUF_LINE_EST)")
  case False
  then have "fbuf_extend f m (fb_used f + FBUF_LINE_EST) = Some (0, f, m)"
    using assms(4) by (intro fbuf_extend_full [OF assms(1,2)]) (simp_all add: FBUF_LINE_EST_def)
  moreover have "add32 (fb_used f) FBUF_LINE_EST = fb_used f + FBUF_LINE_EST"
    using assms(4) by (simp add: add32_eq FBUF_LINE_EST_def)
  moreover have "fb_maxlen f \<noteq> 0" using False by (auto simp: fits_def)
  ultimately show ?thesis using assms by (simp add: fbuf_printf_def)
next
  case True
  have a: "add32 (fb_used f) FBUF_LINE_EST = fb_used f + FBUF_LINE_EST" "add32 (fb_used f) (length txt) = fb_used f + length txt"
    using assms(4) by (simp_all add: add32_eq FBUF_LINE_EST_def)
  have le: "fb_used f + FBUF_LINE_EST \<le> 1073741824" "fb_used f + length txt \<le> 1073741824" "length txt \<le> 1073741824"
    using assms(4) by (simp_all add: FBUF_LINE_EST_def)
  from fbuf_extend_ok [OF assms(1-3) le(1) True] obtain r f1 m1 where
    e: "fbuf_extend f m (fb_used f + FBUF_LINE_EST) = Some (r, f1, m1)" "r \<noteq> 0" "fbuf_ok f1" "fbuf_content f1 = fbuf_content f"
      "fb_used f1 = fb_used f" "fb_params f1 = fb_params f" "fm_ok m1" "fb_data f1 \<noteq> None" by blast
  note room = fb_vsnprintf_room [OF e(3,8)]
  show ?thesis
  proof (cases "fb_skip f1 + fb_used f1 + length txt < fb_len f1")
    case fit: True
    from fb_vsnprintf_fits [OF e(3,8) fit, of m1] fit show ?thesis using e a room by (auto simp: fbuf_printf_def)
  next
    case cut: False
    then have "fb_skip f1 + fb_used f1 + length txt \<ge> fb_len f1" by simp
    from fb_vsnprintf_cut [OF e(3,8) this le(3)] obtain f2 where
      c: "fb_vsnprintf f1 (fb_skip f1 + fb_used f1) (fb_len f1 - (fb_skip f1 + fb_used f1)) txt = Some (length txt, f2)"
        "fb_skip f2 = fb_skip f1" "fb_used f2 = fb_used f1" "fb_len f2 = fb_len f1" "fb_data f2 \<noteq> None"
        "fbuf_ok f2" "fbuf_content f2 = fbuf_content f1" "fb_params f2 = fb_params f1" by auto
    have p2: "params_ok f2" "fb_maxlen f2 = fb_maxlen f" using params_ok_cong [of f2 f] c(8) e(6) assms(2) by (simp_all add: fb_params_def)
    have n: "length txt \<ge> fb_len f1 - (fb_skip f1 + fb_used f1)" using cut by simp
    have go: "fbuf_printf f m txt = do {
         (r, f, m) \<leftarrow> fbuf_extend f2 m1 (fb_used f2 + length txt);
         if r = 0 then do {
           f \<leftarrow> fb_poke f (add32 (fb_skip f) (fb_used f)) 0;
           Some (- 1, f, m)
         } else do {
           (n, f) \<leftarrow> fb_vsnprintf f (fb_skip f + fb_used f) (sub32 (fb_len f) (add32 (fb_skip f) (fb_used f))) txt;
           fb_printf_end n f m
         }}"
      using e c a n room(1) by (simp add: fbuf_printf_def)
    have le2: "fb_used f2 + length txt \<le> 1073741824" using le(2) c(3) e(5) by simp
    show ?thesis
    proof (cases "fits f2 (fb_used f2 + length txt)")
      case ft: True
      from fbuf_extend_ok [OF c(6) p2(1) e(7) le2 ft] obtain r3 f3 m3 where
        x: "fbuf_extend f2 m1 (fb_used f2 + length txt) = Some (r3, f3, m3)" "r3 \<noteq> 0" "fbuf_ok f3" "fbuf_content f3 = fbuf_content f2"
          "fb_used f3 = fb_used f2" "fb_skip f3 + (fb_used f2 + length txt) < fb_len f3" "fb_params f3 = fb_params f2" "fm_ok m3"
          "fb_data f3 \<noteq> None" by blast
      have "fb_skip f3 + fb_used f3 + length txt < fb_len f3" using x(5,6) by simp
      from fb_vsnprintf_fits [OF x(3,9) this, of m3] show ?thesis
        using go x fb_vsnprintf_room(1) [OF x(3,9)] c e by auto
    next
      case False
      then have "fb_maxlen f \<noteq> 0" using p2(2) by (auto simp: fits_def)
      moreover obtain f3 where "fb_poke f2 (add32 (fb_skip f2) (fb_used f2)) 0 = Some f3" "fbuf_ok f3" "fbuf_term f3"
        "fbuf_content f3 = fbuf_content f2" "fb_params f3 = fb_params f2"
        using fb_terminate [OF c(6,5)] by auto
      ultimately show ?thesis
        using fbuf_extend_full [OF c(6) p2(1) le2 False, of m1] go c(7,8) e(4,6,7) by simp
    qed
  qed
qed

section \<open>Input and output\<close>

lemma fb_read_with_ok:
  assumes "fbuf_ok f" and "params_ok f" and "fm_ok m" and "fb_used f + k \<le> 1073741824" and "0 < k"
    and "fits f (fb_used f + k)" and "get s k = (Some bs, s')" and "length bs \<le> k"
  shows "\<exists>f' m'. fb_read_with get f m s k = Some (int (length bs), f', m', s') \<and> fbuf_ok f' \<and> fbuf_term f' \<and>
           fbuf_content f' = fbuf_content f @ bs \<and> fb_params f' = fb_params f \<and> fm_ok m'"
proof -
  from fbuf_extend_ok [OF assms(1,2,3,4,6)] obtain r f1 m' where
    e: "fbuf_extend f m (fb_used f + k) = Some (r, f1, m')" "r \<noteq> 0" "fbuf_ok f1" "fbuf_content f1 = fbuf_content f"
      "fb_used f1 = fb_used f" "fb_skip f1 + (fb_used f + k) < fb_len f1" "fb_params f1 = fb_params f" "fm_ok m'"
      "fb_data f1 \<noteq> None" by blast
  have room: "fb_skip f1 + fb_used f1 + length bs < fb_len f1" using e(5,6) assms(8) by simp
  have l: "fb_len f1 \<le> 2147483648" using e(3) by (simp add: fbuf_ok_blk)
  have a: "add32 (fb_used f) k = fb_used f + k" "add32 (fb_used f) (length bs) = fb_used f + length bs" "to_int (length bs) = int (length bs)"
    "add32 (fb_skip f1) (fb_used f + length bs) = fb_skip f1 + fb_used f + length bs"
    using assms(4,8) room l e(5) by (simp_all add: add32_eq to_int_eq)
  from fb_append_steps [OF e(3,9) room order_refl] obtain f2 f3 where
    s: "fb_copy_in f1 (fb_skip f1 + fb_used f) bs 0 (length bs) = Some f2" "fb_skip f2 = fb_skip f1" "fb_used f2 = fb_used f"
      "fb_poke (f2\<lparr>fb_used := fb_used f + length bs\<rparr>) (fb_skip f1 + fb_used f + length bs) 0 = Some f3"
      "fbuf_ok f3" "fbuf_term f3" "fbuf_content f3 = fbuf_content f @ bs" "fb_params f3 = fb_params f" using e by auto
  show ?thesis
  proof (cases "bs = []")
    case True
    have "f2\<lparr>fb_used := fb_used f\<rparr> = f2" using s(3) by (cases f2) simp
    then have "fb_poke f2 (fb_skip f1 + fb_used f) 0 = Some f3" using s(4) True by simp
    then show ?thesis using True s(1-3,5-8) a e assms(5,7) by (simp add: fb_read_with_def Let_def)
  next
    case False
    then show ?thesis using s a e assms(5,7) by (simp add: fb_read_with_def Let_def)
  qed
qed

text \<open>The condition of the loop that reads a line.\<close>

lemma fb_peek_last:
  assumes "fbuf_ok f" and "fb_used f \<noteq> 0"
  shows "fb_peek f (sub32 (add32 (fb_skip f) (fb_used f)) 1) = Some (last (fbuf_content f))"
proof -
  have b: "fb_skip f + fb_used f < fb_len f" "fb_len f \<le> 2147483648" using assms by (auto simp: fbuf_ok_blk split: if_splits)
  then have "sub32 (add32 (fb_skip f) (fb_used f)) 1 = add32 (fb_skip f) (fb_used f - 1)"
    using assms(2) by (simp add: add32_eq sub32_eq)
  moreover have "last (fbuf_content f) = fbuf_content f ! (fb_used f - 1)"
    using length_content [OF assms(1)] assms(2) by (metis last_conv_nth list.size(3))
  ultimately show ?thesis using fb_peek_content [OF assms(1), of "fb_used f - 1"] assms(2) by simp
qed

lemma ln_loop_ok:
  assumes "fbuf_ok f" and "params_ok f" and "fb_maxlen f = 0" and "fm_ok m" and "fb_used f + length inp < 1073741824"
    and "fbuf_content f = [] \<or> last (fbuf_content f) \<noteq> 10"
  shows "\<exists>f' m'. ln_loop file_read f m inp = Some (10 \<in> set inp, f', m', drop (length (upto_first 10 inp)) inp) \<and> fbuf_ok f' \<and>
           fbuf_content f' = fbuf_content f @ upto_first 10 inp \<and> fm_ok m' \<and> fb_params f' = fb_params f \<and> fb_data f' \<noteq> None"
  using assms
proof (induction inp arbitrary: f m)
  case Nil
  have "fb_used f \<noteq> 0 \<longrightarrow> last (fbuf_content f) \<noteq> 10" using Nil.prems(6) length_content [OF Nil.prems(1)] by auto
  note more = this fb_peek_last [OF Nil.prems(1)]
  have "fits f (fb_used f + 1)" "fb_used f + 1 \<le> 1073741824" using Nil.prems by (auto simp: fits_def)
  from fbuf_extend_ok [OF Nil.prems(1,2,4) this(2,1)] obtain r f1 m1 where
    e: "fbuf_extend f m (Suc (fb_used f)) = Some (r, f1, m1)" "r \<noteq> 0" "fbuf_ok f1" "fbuf_content f1 = fbuf_content f"
      "fb_params f1 = fb_params f" "fm_ok m1" "fb_data f1 \<noteq> None" by auto
  have "ln_loop file_read f m [] = Some (False, f1, m1, [])"
    using Nil.prems(5) e(1,2) more by (subst ln_loop.simps) (cases "fb_used f = 0"; simp add: add32_Suc file_read_def)
  then show ?case using e by simp
next
  case (Cons x xs)
  have "fb_used f \<noteq> 0 \<longrightarrow> last (fbuf_content f) \<noteq> 10" using Cons.prems(6) length_content [OF Cons.prems(1)] by auto
  note more = this fb_peek_last [OF Cons.prems(1)]
  have "fits f (fb_used f + 1)" "fb_used f + 1 \<le> 1073741824" using Cons.prems by (auto simp: fits_def)
  from fbuf_extend_ok [OF Cons.prems(1,2,4) this(2,1)] obtain r f1 m1 where
    e: "fbuf_extend f m (fb_used f + 1) = Some (r, f1, m1)" "r \<noteq> 0" "fbuf_ok f1" "fbuf_content f1 = fbuf_content f"
      "fb_used f1 = fb_used f" "fb_skip f1 + (fb_used f + 1) < fb_len f1" "fb_params f1 = fb_params f" "fm_ok m1"
      "fb_data f1 \<noteq> None" by blast
  have room: "fb_skip f1 + fb_used f1 + 1 < fb_len f1" using e(5,6) by simp
  from fb_append_steps [OF e(3,9) room, of "[x]"] obtain f2 where
    s: "fb_copy_in f1 (fb_skip f1 + fb_used f1) [x] 0 1 = Some f2" "fb_used f2 = fb_used f1" "fb_data f2 \<noteq> None"
      "fbuf_ok (f2\<lparr>fb_used := fb_used f1 + 1\<rparr>)" "fbuf_content (f2\<lparr>fb_used := fb_used f1 + 1\<rparr>) = fbuf_content f1 @ [x]"
      "fb_params f2 = fb_params f1" by auto
  define g where "g = f2\<lparr>fb_used := fb_used f1 + 1\<rparr>"
  have go: "ln_loop file_read f m (x # xs) = ln_loop file_read g m1 xs"
    using e(1,2,5) s(1,2) Cons.prems(5) more by (subst ln_loop.simps) (cases "fb_used f = 0"; simp add: add32_Suc g_def file_read_def)
  have g: "fbuf_ok g" "fbuf_content g = fbuf_content f @ [x]" "fb_used g = fb_used f + 1" "fb_params g = fb_params f" "fb_data g \<noteq> None"
    using s e by (auto simp: g_def)
  show ?case
  proof (cases "x = 10")
    case True
    have "ln_loop file_read g m1 xs = Some (True, g, m1, xs)"
      using fb_peek_last [OF g(1)] g(2,3) True by (subst ln_loop.simps) simp
    then show ?thesis using go g e(8) True by auto
  next
    case False
    have "params_ok g" "fb_maxlen g = 0" using params_ok_cong [OF g(4)] Cons.prems(2,3) g(4) by (auto simp: fb_params_def)
    moreover have "fb_used g + length xs < 1073741824" using g(3) Cons.prems(5) by simp
    moreover have "fbuf_content g = [] \<or> last (fbuf_content g) \<noteq> 10" using g(2) False by simp
    ultimately show ?thesis using Cons.IH [OF g(1) _ _ e(8)] go g(2,4) False by auto
  qed
qed

text \<open>A line without its end: the newline, and a carriage return before it.\<close>

definition strip_cr :: "byte list \<Rightarrow> byte list" where
  "strip_cr xs = (if xs \<noteq> [] \<and> last xs = 13 then butlast xs else xs)"

lemma fb_chop_ok:
  assumes "fbuf_ok f" and "fb_data f \<noteq> None" and "fb_used f \<noteq> 0"
  shows "\<exists>f'. fb_chop f = Some f' \<and> fbuf_ok f' \<and> fbuf_term f' \<and> fbuf_content f' = butlast (fbuf_content f) \<and>
           fb_params f' = fb_params f \<and> fb_data f' \<noteq> None \<and> fb_used f' = fb_used f - 1"
proof -
  have "fb_used f < 2147483648" using assms by (auto simp: fbuf_ok_blk)
  then have "sub32 (fb_used f) 1 = fb_used f - 1" "sub32 (fb_used f) (Suc 0) = fb_used f - 1" using assms(3) by (simp_all add: sub32_eq)
  with fb_truncate [OF assms(1,2), of "fb_used f - 1"] show ?thesis
    using length_content [OF assms(1)] by (auto simp: fb_chop_def Let_def butlast_conv_take)
qed

lemma upto_first_butlast: "x \<in> set xs \<Longrightarrow> upto_first x xs = takeWhile (\<lambda>y. y \<noteq> x) xs @ [x]"
  by (induction xs) auto

lemma fbuf_fread_ln_ok:
  assumes "fbuf_ok f" and "params_ok f" and "fb_maxlen f = 0" and "fm_ok m" and "fb_used f + length inp < 1073741824"
    and "fbuf_content f = [] \<or> last (fbuf_content f) \<noteq> 10" and "10 \<in> set inp"
  shows "\<exists>f' m'. fbuf_fread_ln f m inp =
           Some (int (fb_used f') - int (fb_used f), f', m', drop (Suc (length (takeWhile (\<lambda>y. y \<noteq> 10) inp))) inp) \<and>
           fbuf_ok f' \<and> fbuf_term f' \<and> fbuf_content f' = strip_cr (fbuf_content f @ takeWhile (\<lambda>y. y \<noteq> 10) inp) \<and>
           fm_ok m' \<and> fb_params f' = fb_params f"
proof -
  let ?ln = "takeWhile (\<lambda>y. y \<noteq> 10) inp"
  from ln_loop_ok [OF assms(1-6)] assms(7) obtain f1 m' where
    l: "ln_loop file_read f m inp = Some (True, f1, m', drop (Suc (length ?ln)) inp)" "fbuf_ok f1"
      "fbuf_content f1 = fbuf_content f @ ?ln @ [10]" "fm_ok m'" "fb_params f1 = fb_params f" "fb_data f1 \<noteq> None"
    by (auto simp: upto_first_butlast)
  have "fb_used f1 \<noteq> 0" using l(3) length_content [OF l(2)] by auto
  from fb_chop_ok [OF l(2,6) this] l(3) obtain f2 where
    c: "fb_chop f1 = Some f2" "fbuf_ok f2" "fbuf_term f2" "fbuf_content f2 = fbuf_content f @ ?ln" "fb_params f2 = fb_params f1"
      "fb_data f2 \<noteq> None" by (auto simp: butlast_append)
  obtain f3 where d: "(if fb_used f2 \<noteq> 0 then do {
          c \<leftarrow> fb_peek f2 (sub32 (add32 (fb_skip f2) (fb_used f2)) 1);
          if c = 13 then fb_chop f2 else Some f2 } else Some f2) = Some f3" "fbuf_ok f3" "fbuf_term f3"
      "fbuf_content f3 = strip_cr (fbuf_content f2)" "fb_params f3 = fb_params f2"
  proof (cases "fb_used f2 \<noteq> 0 \<and> last (fbuf_content f2) = 13")
    case True
    then have "fbuf_content f2 \<noteq> []" using length_content [OF c(2)] by auto
    then show ?thesis using that fb_chop_ok [OF c(2,6)] True fb_peek_last [OF c(2)] by (auto simp: strip_cr_def)
  next
    case False
    then have "strip_cr (fbuf_content f2) = fbuf_content f2" using length_content [OF c(2)] by (auto simp: strip_cr_def)
    then show ?thesis using that [of f2] False fb_peek_last [OF c(2)] c by auto
  qed
  have "length ?ln \<le> length inp" by (rule length_takeWhile_le)
  then have "fb_used f3 < 2147483648" "fb_used f < 2147483648"
    using assms(5) length_content [OF d(2)] length_content [OF assms(1)] d(4) c(4) by (auto simp: strip_cr_def split: if_splits)
  then have "to_int (sub32 (fb_used f3) (fb_used f)) = int (fb_used f3) - int (fb_used f)" by (rule to_int_sub32)
  then have "fb_read_ln_with file_read f m inp =
      Some (int (fb_used f3) - int (fb_used f), f3, m', drop (Suc (length ?ln)) inp)"
    using l(1) c(1) d(1) by (simp add: fb_read_ln_with_def Let_def)
  then show ?thesis using d(2-5) l(4,5) c(4,5) by (simp add: fbuf_fread_ln_def)
qed


section \<open>The buffer as a byte channel\<close>




definition fbuf_inv :: "fbuf_t \<times> fbuf_mem \<Rightarrow> bool" where
  "fbuf_inv fm \<longleftrightarrow> fbuf_ok (fst fm) \<and> fbuf_term (fst fm) \<and> params_ok (fst fm) \<and> fm_ok (snd fm) \<and>
     0 < fb_maxlen (fst fm) \<and> fb_maxlen (fst fm) \<le> 536870912 \<and> fb_len (fst fm) \<le> Suc (fb_maxlen (fst fm))"






section \<open>Properties\<close>



text \<open>
  \<open>fbuf_prepend_binary\<close> puts the bytes before the content, whether it uses the gap that removed bytes
  left or moves the content.
\<close>

theorem fbuf_prepend_content:
  assumes "fbuf_ok f" and "params_ok f" and "fm_ok m" and "xs \<noteq> []" and "fb_used f + length xs \<le> 1073741824"
    and "fb_maxlen f = 0 \<or> fb_used f + length xs \<le> fb_maxlen f"
  shows "\<exists>f' m'. fbuf_prepend_binary f m (Some xs) (int (length xs)) = Some (int (length xs), f', m') \<and> fbuf_ok f' \<and>
           fbuf_content f' = xs @ fbuf_content f"
  using fbuf_prepend_binary_ok [OF assms(1-5), of "[]"] assms(6) by (auto simp: fits_def)

text \<open>
  \<open>C31\<close>: \<open>fbuf_printf\<close> appends the whole formatted text, also when it has to extend the buffer and to format a
  second time, or returns -1 and leaves the content as it was, which needs a maximum length.
\<close>

theorem fbuf_printf_atomic:
  assumes "fbuf_ok f" and "params_ok f" and "fm_ok m" and "fb_used f + length txt \<le> 1073741000"
  shows "\<exists>f' m' r. fbuf_printf f m txt = Some (r, f', m') \<and> fbuf_ok f' \<and>
           (r = int (length txt) \<and> fbuf_content f' = fbuf_content f @ txt \<and> fbuf_term f' \<or>
            r = - 1 \<and> fbuf_content f' = fbuf_content f \<and> fb_maxlen f \<noteq> 0)"
  using fbuf_printf_ok [OF assms] by blast

text \<open>
  \<open>C32\<close>: \<open>fbuf_shrink\<close> ends, keeps the content and its terminator, never makes the buffer longer, and stops
  only at the minimum length or when the next step of its sequence would not hold the content.
\<close>

theorem fbuf_shrink_keeps:
  assumes "fbuf_ok f" and "params_ok f" and "fm_ok m"
  shows "\<exists>f' m'. fbuf_shrink f m = Some (fb_len f', f', m') \<and> fbuf_ok f' \<and> fbuf_content f' = fbuf_content f \<and>
           (fbuf_term f \<longrightarrow> fbuf_term f') \<and> fb_len f' \<le> fb_len f \<and>
           (fb_used f \<noteq> 0 \<longrightarrow> fb_len f' \<le> fb_minlen f \<or>
              (if fb_len f' \<le> fast_of f then fb_len f' div 2 else fb_len f' - slow_of f) \<le> fb_used f)"
  using fbuf_shrink_ok [OF assms] by blast

text \<open>
  Trimming a buffer of ASCII characters on both sides removes exactly the white space at the start and at
  the end, and returns how much it removed.
\<close>

theorem fbuf_trim_both:
  assumes "fbuf_ok f" and "fb_data f \<noteq> None" and "\<forall>c\<in>set (fbuf_content f). c < 128"
  shows "\<exists>i n f1 f2. fbuf_trim f = Some (int i, f1) \<and> fbuf_rtrim f1 = Some (int n, f2) \<and> fbuf_ok f2 \<and> fbuf_term f2 \<and>
           fbuf_content f2 = rev (dropWhile space (rev (dropWhile space (fbuf_content f)))) \<and>
           i + n + fb_used f2 = fb_used f"
proof -
  from fbuf_trim_ok [OF assms] obtain f1 where
    t: "fbuf_trim f = Some (int (length (takeWhile space (fbuf_content f))), f1)" "fbuf_ok f1"
      "fbuf_content f1 = dropWhile space (fbuf_content f)" "fb_data f1 \<noteq> None" by auto
  have "\<forall>c\<in>set (fbuf_content f1). c < 128" using assms(3) t(3) by (auto dest: set_dropWhileD)
  from fbuf_rtrim_ok [OF t(2,4) this] obtain n f2 where
    r: "fbuf_rtrim f1 = Some (int n, f2)" "fbuf_ok f2" "fbuf_term f2" "n + fb_used f2 = fb_used f1"
      "fbuf_content f2 = rev (dropWhile space (rev (fbuf_content f1)))" by auto
  have "length (takeWhile space (fbuf_content f)) + fb_used f1 = fb_used f"
    using length_content [OF t(2)] length_content [OF assms(1)] t(3) by (metis length_append takeWhile_dropWhile_id)
  then show ?thesis using t(1,3) r by (intro exI [of _ "length (takeWhile space (fbuf_content f))"] exI [of _ n]) auto
qed

text \<open>
  \<open>C33\<close>: a line survives the round trip through a file: what \<open>fbuf_add_ln\<close> appends to an empty buffer,
  \<open>fbuf_fread_ln\<close> reads back into another one, and leaves the rest of the file.
\<close>

theorem fbuf_line_roundtrip:
  assumes "fbuf_ok f" and "params_ok f" and "fb_maxlen f = 0" and "fm_ok m" and "fbuf_content f = []"
    and "fbuf_ok g" and "params_ok g" and "fb_maxlen g = 0" and "fbuf_content g = []"
    and "10 \<notin> set ln" and "ln = [] \<or> last ln \<noteq> 13" and "length ln + length rest < 1073741000"
  shows "\<exists>f' m1 g' m2. fbuf_add_ln f m (Some ln) = Some (int (length ln) + 1, f', m1) \<and> fbuf_content f' = ln @ [10] \<and>
           fbuf_fread_ln g m1 (fbuf_content f' @ rest) = Some (int (length ln), g', m2, rest) \<and> fbuf_content g' = ln \<and> fbuf_term g'"
proof -
  have u: "fb_used f = 0" "fb_used g = 0" using length_content [OF assms(1)] length_content [OF assms(6)] assms(5,9) by auto
  obtain f1 m1 where f1: "fbuf_add f m (Some ln) = Some (int (length ln), f1, m1)" "fbuf_ok f1" "fbuf_content f1 = ln"
    "fb_params f1 = fb_params f" "fm_ok m1"
  proof (cases "ln = []")
    case True
    then show ?thesis using that [of f m] assms(1,4,5) by (simp add: fbuf_add_def)
  next
    case False
    have "to_int (length ln) = int (length ln)" using assms(12) by (simp add: to_int_eq)
    moreover have "fits f (fb_used f + length ln)" "fb_used f + length ln \<le> 1073741824" using assms(3,12) u by (auto simp: fits_def)
    ultimately show ?thesis
      using that fbuf_add_binary_ok [OF assms(1,2,4) False, of "[0]"] False assms(5) by (auto simp: fbuf_add_def)
  qed
  have p1: "params_ok f1" "fb_maxlen f1 = 0" using params_ok_cong [OF f1(4)] f1(4) assms(2,3) by (auto simp: fb_params_def)
  have u1: "fb_used f1 = length ln" using length_content [OF f1(2)] f1(3) by simp
  have one: "to_int (Suc 0) = 1" "to_int 1 = 1" by (simp_all add: to_int_eq)
  obtain f2 m2 where f2: "fbuf_add f1 m1 (Some [10]) = Some (1, f2, m2)" "fbuf_content f2 = ln @ [10]" "fm_ok m2"
    using fbuf_add_binary_ok [OF f1(2) p1(1) f1(5), of "[10]" "[0]"] assms(12) p1(2) u1 f1(3) one
    by (auto simp: fbuf_add_def fits_def)
  have "ck (int (length ln) + 1) = Some (int (length ln) + 1)" using assms(12) by (simp add: ck_Some)
  then have w: "fbuf_add_ln f m (Some ln) = Some (int (length ln) + 1, f2, m2)" using f1(1) f2(1) by (simp add: fbuf_add_ln_def)
  have ln: "takeWhile (\<lambda>y. y \<noteq> 10) (ln @ 10 # rest) = ln" using assms(10) by (subst takeWhile_append2) auto
  have sc: "strip_cr ln = ln" using assms(11) by (auto simp: strip_cr_def)
  obtain g' m3 where g': "fbuf_fread_ln g m2 (ln @ 10 # rest) = Some (int (fb_used g') - int (fb_used g), g', m3, rest)"
    "fbuf_ok g'" "fbuf_term g'" "fbuf_content g' = ln"
    using fbuf_fread_ln_ok [OF assms(6,7,8) f2(3), of "ln @ 10 # rest"] assms(9,12) u(2) ln sc by auto
  have "fb_used g' = length ln" using length_content [OF g'(2)] g'(4) by simp
  then show ?thesis using w f2(2) g' u(2) by auto
qed

section \<open>Witnesses\<close>

definition fm_ex :: fbuf_mem where
  "fm_ex = \<lparr>fm_count = 0, fm_brk = 0, fm_fails = (\<lambda>_. False), fm_junk = (\<lambda>_ _. 7), fm_live = 1\<rparr>"

text \<open>A buffer that holds the bytes 32, 65, 66, 32 after a gap of one byte, with a maximum length of 10, and an empty one without.\<close>

definition fb_ex :: fbuf_t where
  "fb_ex = \<lparr>fb_id = 0, fb_data = Some [9, 32, 65, 66, 32, 0, 7, 7], fb_len = 8, fb_maxlen = 10, fb_minlen = 4,
     fb_fastgrowsize = 16, fb_slowgrowsize = 8, fb_used = 4, fb_skip = 1\<rparr>"

definition fb_new :: fbuf_t where
  "fb_new = the (fst (fbuf_create fm_ex 0))"

lemma fb_ex_ok: "fbuf_ok fb_ex" "fbuf_term fb_ex" "params_ok fb_ex" "fm_ok fm_ex" "fbuf_inv (fb_ex, fm_ex)"
  "fbuf_content fb_ex = [32, 65, 66, 32]"
  by (simp_all add: fb_ex_def fm_ex_def fbuf_ok_def fbuf_term_def params_ok_def fast_of_def slow_of_def fm_ok_def fbuf_inv_def
      fbuf_content_def blk_def)

lemma fb_new_ok: "fbuf_ok fb_new" "params_ok fb_new" "fbuf_content fb_new = []"
  by (simp_all add: fb_new_def fm_ex_def fbuf_create_def fbuf_ok_def params_ok_def fast_of_def slow_of_def fbuf_content_def blk_def
      FBUF_MINLEN_def FBUF_FASTGROWSIZE_def FBUF_SLOWGROWSIZE_def Let_def)

lemma fb_ex_fields: "fb_used fb_ex = 4" "fb_len fb_ex = 8" "fb_maxlen fb_ex = 10" "fb_data fb_ex \<noteq> None" "fb_maxlen fb_new = 0"
  by (simp_all add: fb_ex_def fb_new_def fbuf_create_def fm_ex_def Let_def)



theorem fbuf_prepend_content_witness:
  "\<exists>f' m'. fbuf_prepend_binary fb_ex fm_ex (Some [1, 2]) 2 = Some (2, f', m') \<and> fbuf_content f' = [1, 2, 32, 65, 66, 32]"
  using fbuf_prepend_content [of fb_ex fm_ex "[1, 2]"] by (auto simp: fb_ex_ok fb_ex_fields)

theorem fbuf_printf_atomic_witness:
  "\<exists>f' m' r. fbuf_printf fb_ex fm_ex [1, 2] = Some (r, f', m') \<and>
     (r = 2 \<and> fbuf_content f' = [32, 65, 66, 32, 1, 2] \<or> r = - 1 \<and> fbuf_content f' = [32, 65, 66, 32])"
  using fbuf_printf_atomic [of fb_ex fm_ex "[1, 2]"] by (auto simp: fb_ex_ok fb_ex_fields)

theorem fbuf_shrink_keeps_witness:
  "\<exists>f' m'. fbuf_shrink fb_ex fm_ex = Some (fb_len f', f', m') \<and> fbuf_content f' = [32, 65, 66, 32] \<and> fb_len f' \<le> 8"
  using fbuf_shrink_keeps [of fb_ex fm_ex] by (auto simp: fb_ex_ok fb_ex_fields)

theorem fbuf_trim_both_witness:
  "\<exists>i n f1 f2. fbuf_trim fb_ex = Some (int i, f1) \<and> fbuf_rtrim f1 = Some (int n, f2) \<and> fbuf_content f2 = [65, 66] \<and> i + n + fb_used f2 = 4"
  using fbuf_trim_both [of fb_ex] by (auto simp: fb_ex_ok fb_ex_fields space_def)

theorem fbuf_line_roundtrip_witness:
  "\<exists>f' m1 g' m2. fbuf_add_ln fb_new fm_ex (Some [65, 66]) = Some (3, f', m1) \<and> fbuf_content f' = [65, 66, 10] \<and>
     fbuf_fread_ln fb_new m1 (fbuf_content f' @ [67]) = Some (2, g', m2, [67]) \<and> fbuf_content g' = [65, 66]"
  using fbuf_line_roundtrip [of fb_new fm_ex fb_new "[65, 66]" "[67]"] by (auto simp: fb_ex_ok fb_new_ok fb_ex_fields)

section \<open>What the code does outside of these properties\<close>

lemmas fb_eval = fbuf_extend_def fb_extend_alloc_def fb_grow.simps fb_malloc_def fb_realloc_def fb_poke_def fb_copy_in_def fb_memmove_def
  fb_unskip_def fb_free_def add32_def sub32_def to_int_def u32_def fast_of_def slow_of_def blk_def set_blk_def memcpy_def wr_def Let_def

text \<open>
  The header promises that a buffer is left untouched when extending it fails. \<open>fbuf_extend\<close> has set \<open>len\<close>
  to the new length by then: the next addition believes that the room is there and writes behind the block.
\<close>

lemma fbuf_extend_failure_overruns:
  "\<exists>f m. fbuf_add_binary (fb_ex\<lparr>fb_maxlen := 0\<rparr>) (fm_ex\<lparr>fm_fails := \<lambda>_. True\<rparr>) [1, 2, 3, 4] 4 = Some (- 1, f, m) \<and>
     fb_len f = 16 \<and> length (blk f) = 8 \<and> fbuf_add_binary f m [1, 2, 3, 4] 4 = None"
  by (simp add: fbuf_add_binary_def fb_eval fb_ex_def fm_ex_def)

text \<open>\<open>fbuf_nprintf\<close> makes room for \<open>max\<close> bytes and does not limit the text: a longer one ends in a write behind the block.\<close>

lemma fbuf_nprintf_overruns: "fbuf_nprintf fb_ex fm_ex 1 [1, 2, 3, 4, 5, 6, 7, 8] = None"
  by (simp add: fbuf_nprintf_def fb_vsnprintf_def fb_eval fb_ex_def fm_ex_def)

text \<open>Extending a buffer with a gap allocates a new block and loses the old one: two blocks are allocated for one buffer.\<close>

lemma fbuf_extend_leaks:
  "\<exists>f m. fbuf_extend fb_ex fm_ex 9 = Some (11, f, m) \<and> fm_live fm_ex = 1 \<and> fm_live m = 2"
  by (simp add: fb_eval fb_ex_def fm_ex_def upt_rec)

text \<open>... and it does not copy the terminator: after \<open>fbuf_prepend_binary\<close> the buffer is not terminated.\<close>

lemma fbuf_prepend_unterminated:
  "\<exists>f m. fbuf_prepend_binary fb_ex fm_ex (Some [1, 2, 3, 4, 5]) 5 = Some (5, f, m) \<and> fbuf_term fb_ex \<and> \<not> fbuf_term f"
  by (simp add: fbuf_prepend_binary_def fb_eval fb_ex_def fm_ex_def upt_rec fbuf_term_def)

text \<open>\<open>fbuf_minlen\<close> compares the bytes in use with the new block and forgets the gap: the content is cut.\<close>

lemma fbuf_minlen_cuts:
  "\<exists>f m. fbuf_minlen (fb_ex\<lparr>fb_data := Some [9, 9, 9, 9, 65, 66, 0, 7], fb_used := 2, fb_skip := 4\<rparr>) fm_ex 5 = (4, f, m) \<and>
     fb_skip f + fb_used f > length (blk f)"
  by (simp add: fbuf_minlen_def fb_realloc_def fb_ex_def fm_ex_def blk_def Let_def)

text \<open>Removing from, or trimming, a buffer that has no block yet dereferences NULL.\<close>

lemma fbuf_trim_null: "fbuf_trim fb_new = None" "fbuf_rtrim fb_new = None" "fbuf_remove fb_new 0 = None"
  by (simp_all add: fbuf_trim_def fbuf_rtrim_def fbuf_remove_def trim_loop.simps rtrim_loop.simps fb_poke_def wr_def blk_def
      fb_new_def fbuf_create_def fm_ex_def Let_def)

text \<open>Setting the maximum length to \<open>FBUF_MAXLEN_NONE\<close>, which means no maximum, drops the content.\<close>

lemma fbuf_maxlen_none_drops:
  "\<exists>f m. fbuf_maxlen fb_ex fm_ex 0 = Some (10, f, m) \<and> fbuf_content f = []"
  by (simp add: fbuf_maxlen_def fbuf_shrink_def fb_shrink_loop.simps fb_eval fb_ex_def fm_ex_def UINT_MAX_def fbuf_content_def)

text \<open>A failed reallocation in \<open>fbuf_attach\<close> leaves the old length with a NULL block.\<close>

lemma fbuf_attach_failure:
  "\<exists>f m. fbuf_attach fb_ex (fm_ex\<lparr>fm_fails := \<lambda>_. True\<rparr>) [1, 2] 2 2 = Some (0, f, m) \<and> fb_data f = None \<and> fb_len f = 8"
  by (simp add: fbuf_attach_def fb_free_def fb_realloc_def fb_ex_def fm_ex_def Let_def)

end
