(* ===== verification/Trie.thy ===== *)
theory Trie
  imports Prelude
begin

text \<open>
  Model of \<open>src/src/trie.c\<close>: tries over strings. The nodes are cells of a heap, with a table of children, a
  pointer to the parent and the index in the table of the parent.

  A key is the list of its bytes before the terminator. The index \<open>(int)*key\<close> of a child is that of a signed
  \<open>char\<close>: a byte from 128 on gives an index before the table, which is undefined.

  A value is a pointer (\<open>None\<close> is NULL) into the memory \<open>tr_mem\<close> of blocks of bytes, those of the client and
  the copies that the trie makes. \<open>free\<close> of a copy takes its block away; a block that is not there can be
  neither freed nor read. A value that the release callback gets belongs to the client again: it is
  recorded in \<open>tr_freed\<close>, and its block is taken away, too, because the callback may free it, so that
  any later access through the pointer is undefined. \<open>calloc\<close> and \<open>malloc\<close> take the next address that
  was never used (also for a size of 0); their results are not checked by the source, so that a failing
  one (\<open>tr_fails\<close>) is undefined. A pointer that an operation hands out is only an address: it may
  dangle, as the previous value of \<open>trie_find_and_insert\<close> does.
\<close>

section \<open>State\<close>

record trie_node_t =
  tn_value :: "nat option"
  tn_vsize :: nat
  tn_is_copy :: bool
  tn_num_children :: int
  tn_child :: "nat \<Rightarrow> nat option"
  tn_parent :: "nat option"
  tn_pidx :: nat

record trie_t =
  tr_count :: int
  tr_node_count :: int
  tr_root :: nat
  tr_free_value_cb :: bool
  tr_nodes :: "nat \<rightharpoonup> trie_node_t"
  tr_brk :: nat
  tr_fails :: "nat \<Rightarrow> bool"
  tr_mem :: "nat \<rightharpoonup> byte list"   \<comment> \<open>the blocks that values point to\<close>
  tr_freed :: "nat list"             \<comment> \<open>values given to the callback\<close>

definition empty_node :: "trie_node_t" where
  "empty_node = \<lparr>tn_value = None, tn_vsize = 0, tn_is_copy = False, tn_num_children = 0, tn_child = Map.empty, tn_parent = None,
     tn_pidx = 0\<rparr>"

definition cidx :: "byte \<Rightarrow> nat option" where
  "cidx c = (if c < 128 then Some (unat c) else None)"

definition set_node :: "nat \<Rightarrow> (trie_node_t \<Rightarrow> trie_node_t) \<Rightarrow> trie_t \<Rightarrow> trie_t option" where
  "set_node a f t = (case tr_nodes t a of None \<Rightarrow> None | Some n \<Rightarrow> Some (t\<lparr>tr_nodes := (tr_nodes t)(a \<mapsto> f n)\<rparr>))"

definition free_node :: "nat \<Rightarrow> trie_t \<Rightarrow> trie_t option" where
  "free_node a t = (if tr_nodes t a = None then None else Some (t\<lparr>tr_nodes := (tr_nodes t)(a := None)\<rparr>))"

definition trie_create :: "(nat \<Rightarrow> bool) \<Rightarrow> bool \<Rightarrow> trie_t option" where
  "trie_create fails cb =
     (if fails 0 \<or> fails 1 then None
      else Some \<lparr>tr_count = 0, tr_node_count = 0, tr_root = 1, tr_free_value_cb = cb, tr_nodes = [1 \<mapsto> empty_node], tr_brk = 2,
        tr_fails = fails, tr_mem = Map.empty, tr_freed = []\<rparr>)"

section \<open>Releasing nodes\<close>

text \<open>
  The loop of \<open>trie_node_destroy\<close> that releases the ancestors that only lead to the node: it gives the
  remaining parent and the index of the child to unlink there.
\<close>

partial_function (option) destroy_up ::
  "trie_t \<Rightarrow> nat option \<Rightarrow> nat \<Rightarrow> (nat option \<times> nat \<times> trie_t) option" where
  "destroy_up t parent pidx =
     (if parent = None \<or> parent = Some (tr_root t) then Some (parent, pidx, t)
      else do {
        p \<leftarrow> parent;
        n \<leftarrow> tr_nodes t p;
        if tn_value n \<noteq> None \<or> tn_num_children n > 1 then Some (parent, pidx, t)
        else do {
          t \<leftarrow> free_node p t;
          destroy_up (t\<lparr>tr_node_count := tr_node_count t - 1\<rparr>) (tn_parent n) (tn_pidx n)
        }
      })"

text \<open>
  The value of a node that is released or replaced: a copy is freed, another one is given to the callback.
\<close>

definition drop_value :: "bool \<Rightarrow> trie_node_t \<Rightarrow> trie_t \<Rightarrow> trie_t option" where
  "drop_value cb n t =
     (case tn_value n of
        None \<Rightarrow> Some t
      | Some v \<Rightarrow>
          if tn_is_copy n then (if tr_mem t v = None then None else Some (t\<lparr>tr_mem := (tr_mem t)(v := None)\<rparr>))
          else if cb then Some (t\<lparr>tr_freed := tr_freed t @ [v], tr_mem := (tr_mem t)(v := None)\<rparr>)
          else Some t)"

text \<open>
  The rest of \<open>trie_node_destroy\<close>, from the child \<open>i\<close> on. A child that is released has lost its parent
  pointer, so that the first part of the function has no effect on it.
\<close>

partial_function (option) destroy_down :: "bool \<Rightarrow> trie_t \<Rightarrow> nat \<Rightarrow> nat \<Rightarrow> trie_t option" where
  "destroy_down cb t node i = do {
     n \<leftarrow> tr_nodes t node;
     if i < 256 then
       (case tn_child n i of
          None \<Rightarrow> destroy_down cb t node (i + 1)
        | Some c \<Rightarrow> do {
            t \<leftarrow> set_node c (\<lambda>n. n\<lparr>tn_parent := None\<rparr>) t;
            t \<leftarrow> destroy_down cb t c 0;
            t \<leftarrow> set_node node (\<lambda>n. n\<lparr>tn_child := (tn_child n)(i := None), tn_num_children := tn_num_children n - 1\<rparr>) t;
            destroy_down cb t node (i + 1)
          })
     else do {
       let t = (if tn_value n \<noteq> None then t\<lparr>tr_count := tr_count t - 1\<rparr> else t);
       t \<leftarrow> drop_value cb n t;
       free_node node (t\<lparr>tr_node_count := tr_node_count t - 1\<rparr>)
     }
   }"

definition trie_node_destroy :: "trie_t \<Rightarrow> nat \<Rightarrow> bool \<Rightarrow> trie_t option" where
  "trie_node_destroy t node cb = do {
     n \<leftarrow> tr_nodes t node;
     (parent, pidx, t) \<leftarrow> destroy_up t (tn_parent n) (tn_pidx n);
     t \<leftarrow> (case parent of
             None \<Rightarrow> Some t
           | Some p \<Rightarrow> set_node p (\<lambda>n. n\<lparr>tn_child := (tn_child n)(pidx := None), tn_num_children := tn_num_children n - 1\<rparr>) t);
     destroy_down cb t node 0
   }"

definition trie_destroy :: "trie_t \<Rightarrow> trie_t option" where
  "trie_destroy t = trie_node_destroy t (tr_root t) (tr_free_value_cb t)"

section \<open>Inserting and finding\<close>

definition trie_node_set_value :: "trie_t \<Rightarrow> nat \<Rightarrow> nat option \<Rightarrow> nat \<Rightarrow> bool \<Rightarrow> trie_t option" where
  "trie_node_set_value t node value vsize copy = do {
     n \<leftarrow> tr_nodes t node;
     t \<leftarrow> drop_value (tr_free_value_cb t) n t;
     if copy then do {
       let a = tr_brk t;
       src \<leftarrow> value;
       bytes \<leftarrow> tr_mem t src;
       if tr_fails t a \<or> length bytes < vsize then None
       else set_node node (\<lambda>n. n\<lparr>tn_value := Some a, tn_vsize := vsize, tn_is_copy := True\<rparr>)
              (t\<lparr>tr_brk := Suc a, tr_mem := (tr_mem t)(a \<mapsto> take vsize bytes)\<rparr>)
     }
     else set_node node (\<lambda>n. n\<lparr>tn_value := value, tn_vsize := vsize, tn_is_copy := False\<rparr>) t
   }"

text \<open>The two loops of \<open>trie_insert\<close>: along the nodes that are there, then new ones for the rest of the key.\<close>

fun insert_walk :: "trie_t \<Rightarrow> nat \<Rightarrow> byte list \<Rightarrow> (nat \<times> byte list) option" where
  "insert_walk t node [] = Some (node, [])"
| "insert_walk t node (c # cs) = do {
     i \<leftarrow> cidx c;
     n \<leftarrow> tr_nodes t node;
     case tn_child n i of None \<Rightarrow> Some (node, c # cs) | Some tmp \<Rightarrow> insert_walk t tmp cs
   }"

fun insert_new :: "trie_t \<Rightarrow> nat \<Rightarrow> byte list \<Rightarrow> (nat \<times> trie_t) option" where
  "insert_new t node [] = Some (node, t)"
| "insert_new t node (c # cs) = do {
     i \<leftarrow> cidx c;
     let tmp = tr_brk t;
     t \<leftarrow> (if tr_fails t tmp then None else Some (t\<lparr>tr_brk := Suc tmp\<rparr>));
     t \<leftarrow> set_node node (\<lambda>n. n\<lparr>tn_num_children := tn_num_children n + 1, tn_child := (tn_child n)(i \<mapsto> tmp)\<rparr>) t;
     insert_new (t\<lparr>tr_nodes := (tr_nodes t)(tmp \<mapsto> empty_node\<lparr>tn_parent := Some node, tn_pidx := i\<rparr>)\<rparr>) tmp cs
   }"

definition trie_insert :: "trie_t \<Rightarrow> byte list \<Rightarrow> nat option \<Rightarrow> nat \<Rightarrow> bool \<Rightarrow> (int \<times> trie_t) option" where
  "trie_insert t key value vsize copy = do {
     (node, rest) \<leftarrow> insert_walk t (tr_root t) key;
     let new_nodes = int (length rest);
     (node, t) \<leftarrow> insert_new t node rest;
     let t = (if new_nodes \<noteq> 0 then t\<lparr>tr_count := tr_count t + 1, tr_node_count := tr_node_count t + new_nodes\<rparr> else t);
     t \<leftarrow> trie_node_set_value t node value vsize copy;
     Some (new_nodes, t)
   }"

text \<open>\<open>trie_find_internal\<close>: the outer option is undefined behaviour, the inner one NULL.\<close>

fun find_loop :: "trie_t \<Rightarrow> nat option \<Rightarrow> byte list \<Rightarrow> nat option option" where
  "find_loop t node [] = Some node"
| "find_loop t None (c # cs) = Some None"
| "find_loop t (Some a) (c # cs) = do { i \<leftarrow> cidx c; n \<leftarrow> tr_nodes t a; find_loop t (tn_child n i) cs }"

definition trie_find_internal :: "trie_t \<Rightarrow> byte list \<Rightarrow> nat option option" where
  "trie_find_internal t key = find_loop t (Some (tr_root t)) key"

definition trie_find :: "trie_t \<Rightarrow> byte list \<Rightarrow> (nat option \<times> nat option) option" where
  "trie_find t key = do {
     node \<leftarrow> trie_find_internal t key;
     case node of
       None \<Rightarrow> Some (None, None)
     | Some a \<Rightarrow> do { n \<leftarrow> tr_nodes t a; Some (tn_value n, Some (tn_vsize n)) }
   }"

text \<open>
  \<open>want\<close> tells whether the caller passes a pointer for the value; the second component of the result is the
  pointer that is stored there, with the size. The node is destroyed after the pointer was stored.
\<close>

definition trie_remove :: "trie_t \<Rightarrow> byte list \<Rightarrow> bool \<Rightarrow> (int \<times> (nat option \<times> nat) option \<times> trie_t) option" where
  "trie_remove t key want = do {
     node \<leftarrow> trie_find_internal t key;
     case node of
       None \<Rightarrow> Some (0, None, t)
     | Some a \<Rightarrow> do {
         n \<leftarrow> tr_nodes t a;
         let num_nodes = tr_node_count t;
         t \<leftarrow> trie_node_destroy t a (if want then False else tr_free_value_cb t);
         Some (num_nodes - tr_node_count t, Some (if want then tn_value n else None, tn_vsize n), t)
       }
   }"

definition trie_find_or_insert ::
  "trie_t \<Rightarrow> byte list \<Rightarrow> nat option \<Rightarrow> nat \<Rightarrow> bool \<Rightarrow> (int \<times> (nat option \<times> nat) option \<times> trie_t) option" where
  "trie_find_or_insert t key value vsize copy = do {
     node \<leftarrow> trie_find_internal t key;
     case node of
       None \<Rightarrow> do { (r, t) \<leftarrow> trie_insert t key value vsize copy; Some (r, None, t) }
     | Some a \<Rightarrow> do { n \<leftarrow> tr_nodes t a; Some (0, Some (tn_value n, tn_vsize n), t) }
   }"

definition trie_find_and_insert ::
  "trie_t \<Rightarrow> byte list \<Rightarrow> nat option \<Rightarrow> nat \<Rightarrow> bool \<Rightarrow> (int \<times> (nat option \<times> nat) option \<times> trie_t) option" where
  "trie_find_and_insert t key value vsize copy = do {
     node \<leftarrow> trie_find_internal t key;
     case node of
       Some a \<Rightarrow> do {
         n \<leftarrow> tr_nodes t a;
         t \<leftarrow> trie_node_set_value t a value vsize copy;
         Some (0, Some (tn_value n, tn_vsize n), t)
       }
     | None \<Rightarrow> do { (r, t) \<leftarrow> trie_insert t key value vsize copy; Some (r, None, t) }
   }"

end
