(* ===== verification/Trie_Spec.thy ===== *)
theory Trie_Spec
  imports Trie "HOL-Library.Sublist"
begin

text \<open>
  What the tries of \<open>trie.c\<close> promise. The invariant \<open>nodes_wf\<close> says that the heap is a tree: every child points
  back to its parent with its index, every node is reached from the root, and \<open>num_children\<close> counts. It gives
  that a node is reached along one path only, from which the effect of each operation on the map of keys to
  values follows. The invariant \<open>mem_ok\<close> says that the block of every copy is there and belongs to one node; with
  it the values are followed into the memory, up to a client that reads and frees what it is given.
\<close>

section \<open>Paths\<close>

type_synonym nodes = "nat \<rightharpoonup> trie_node_t"

fun walk :: "nodes \<Rightarrow> nat \<Rightarrow> nat list \<Rightarrow> nat option" where
  "walk h a [] = Some a"
| "walk h a (i # is) = (case h a of None \<Rightarrow> None | Some n \<Rightarrow>
     (case tn_child n i of None \<Rightarrow> None | Some b \<Rightarrow> walk h b is))"

definition kids :: "nodes \<Rightarrow> nat \<Rightarrow> nat \<Rightarrow> nat option" where
  "kids h a i = (case h a of None \<Rightarrow> None | Some n \<Rightarrow> tn_child n i)"

lemma walk_Cons: "walk h a (i # is) = (case kids h a i of None \<Rightarrow> None | Some b \<Rightarrow> walk h b is)"
  by (simp add: kids_def split: option.split)

lemma walk_append: "walk h a (xs @ ys) = (case walk h a xs of None \<Rightarrow> None | Some b \<Rightarrow> walk h b ys)"
  by (induction xs arbitrary: a) (auto simp: walk_Cons simp del: walk.simps(2) split: option.split)

lemma walk_snoc: "walk h a (xs @ [i]) = (case walk h a xs of None \<Rightarrow> None | Some b \<Rightarrow> kids h b i)"
  by (auto simp: walk_append walk_Cons simp del: walk.simps(2) split: option.split)

lemma walk_kids_cong: "kids h' = kids h \<Longrightarrow> walk h' a ks = walk h a ks"
  by (induction ks arbitrary: a) (auto simp: walk_Cons simp del: walk.simps(2) split: option.split)

definition nodes_wf :: "nodes \<Rightarrow> nat \<Rightarrow> bool" where
  "nodes_wf h r \<longleftrightarrow> finite (dom h) \<and> r \<in> dom h \<and> (\<forall>n. h r = Some n \<longrightarrow> tn_parent n = None) \<and>
     (\<forall>b\<in>dom h. \<exists>ks. walk h r ks = Some b) \<and>
     (\<forall>p i b. kids h p i = Some b \<longrightarrow> i < 128 \<and> (\<exists>m. h b = Some m \<and> tn_parent m = Some p \<and> tn_pidx m = i)) \<and>
     (\<forall>p n. h p = Some n \<longrightarrow> tn_num_children n = int (card {i. tn_child n i \<noteq> None}))"

lemma nodes_wfD:
  assumes "nodes_wf h r"
  shows "finite (dom h)" "r \<in> dom h" "h r = Some n \<Longrightarrow> tn_parent n = None" "b \<in> dom h \<Longrightarrow> \<exists>ks. walk h r ks = Some b"
    "kids h p i = Some b \<Longrightarrow> i < 128 \<and> (\<exists>m. h b = Some m \<and> tn_parent m = Some p \<and> tn_pidx m = i)"
    "h p = Some n \<Longrightarrow> tn_num_children n = int (card {i. tn_child n i \<noteq> None})"
  using assms unfolding nodes_wf_def by blast+

lemma walk_dom: "nodes_wf h r \<Longrightarrow> walk h r ks = Some b \<Longrightarrow> b \<in> dom h"
proof (induction ks arbitrary: b rule: rev_induct)
  case Nil
  then show ?case using nodes_wfD(2) by auto
next
  case (snoc i ks)
  then show ?case using nodes_wfD(5) [OF snoc.prems(1)] by (fastforce simp: walk_snoc split: option.splits)
qed

text \<open>A node is reached along one path.\<close>

lemma walk_inj:
  assumes "nodes_wf h r" and "walk h r ks = Some b" and "walk h r ls = Some b"
  shows "ks = ls"
  using assms(2,3)
proof (induction ks arbitrary: b ls rule: rev_induct)
  case Nil
  show ?case
  proof (cases ls rule: rev_cases)
    case (snoc ys j)
    with Nil obtain p where "kids h p j = Some r" by (auto simp: walk_snoc split: option.splits)
    then show ?thesis using nodes_wfD(3,5) [OF assms(1)] by fastforce
  qed simp
next
  case (snoc i xs)
  from snoc.prems(1) obtain p where p: "walk h r xs = Some p" "kids h p i = Some b" by (auto simp: walk_snoc split: option.splits)
  show ?case
  proof (cases ls rule: rev_cases)
    case Nil
    then have "b = r" using snoc.prems(2) by simp
    then show ?thesis using nodes_wfD(3,5) [OF assms(1)] p(2) by fastforce
  next
    case (snoc ys j)
    with snoc.prems(2) obtain q where q: "walk h r ys = Some q" "kids h q j = Some b" by (auto simp: walk_snoc split: option.splits)
    have "p = q \<and> i = j" using nodes_wfD(5) [OF assms(1) p(2)] nodes_wfD(5) [OF assms(1) q(2)] by auto
    then show ?thesis using snoc.IH [OF p(1)] q(1) snoc by simp
  qed
qed

text \<open>The values by path: pointer, size and whether it is a copy.\<close>

definition node_val :: "trie_node_t option \<Rightarrow> (nat \<times> nat \<times> bool) option" where
  "node_val x = (case x of None \<Rightarrow> None | Some n \<Rightarrow> map_option (\<lambda>v. (v, tn_vsize n, tn_is_copy n)) (tn_value n))"

definition vmap :: "nodes \<Rightarrow> nat \<Rightarrow> nat list \<Rightarrow> (nat \<times> nat \<times> bool) option" where
  "vmap h r ks = (case walk h r ks of None \<Rightarrow> None | Some a \<Rightarrow> node_val (h a))"

section \<open>Inserting\<close>

text \<open>A new node without a value, as a child of \<open>p\<close>.\<close>

definition with_leaf :: "nodes \<Rightarrow> nat \<Rightarrow> nat \<Rightarrow> nat \<Rightarrow> nodes" where
  "with_leaf h p i a = (case h p of None \<Rightarrow> h | Some n \<Rightarrow>
     h(p \<mapsto> n\<lparr>tn_num_children := tn_num_children n + 1, tn_child := (tn_child n)(i \<mapsto> a)\<rparr>,
       a \<mapsto> empty_node\<lparr>tn_parent := Some p, tn_pidx := i\<rparr>))"

lemma kids_with_leaf:
  "h p \<noteq> None \<Longrightarrow> a \<noteq> p \<Longrightarrow> kids (with_leaf h p i a) b j = (if b = a then None else if b = p \<and> j = i then Some a else kids h b j)"
  by (auto simp: kids_def with_leaf_def empty_node_def)

lemma walk_with_leaf:
  assumes "nodes_wf h r" and "walk h r ks = Some p" and "kids h p i = None" and "a \<notin> dom h"
  shows "walk (with_leaf h p i a) r xs = (if xs = ks @ [i] then Some a else walk h r xs)"
proof (induction xs rule: rev_induct)
  case Nil
  then show ?case by simp
next
  case (snoc j xs)
  have p: "h p \<noteq> None" "a \<noteq> p" using walk_dom [OF assms(1,2)] assms(4) by auto
  note k = kids_with_leaf [of h p a i, OF p]
  have none: "walk h r (ks @ [i]) = None" using assms(2,3) by (simp add: walk_snoc)
  show ?case
  proof (cases "xs = ks @ [i]")
    case True
    then show ?thesis using snoc none by (simp add: walk_snoc [of _ _ "ks @ [i]", simplified] walk_snoc k del: append_assoc)
  next
    case False
    then have "walk (with_leaf h p i a) r (xs @ [j]) = (case walk h r xs of None \<Rightarrow> None | Some q \<Rightarrow> kids (with_leaf h p i a) q j)"
      using snoc by (simp add: walk_snoc)
    also have "\<dots> = (if xs @ [j] = ks @ [i] then Some a else walk h r (xs @ [j]))"
    proof (cases "walk h r xs")
      case None
      then show ?thesis using assms(2) by (auto simp: walk_snoc)
    next
      case (Some q)
      then have "q \<noteq> a" using walk_dom [OF assms(1)] assms(4) by auto
      moreover have "q = p \<longleftrightarrow> xs = ks" using walk_inj [OF assms(1)] Some assms(2) by auto
      ultimately show ?thesis using Some by (auto simp: walk_snoc k)
    qed
    finally show ?thesis .
  qed
qed

lemma nodes_wf_with_leaf:
  assumes "nodes_wf h r" and "walk h r ks = Some p" and "kids h p i = None" and "a \<notin> dom h" and "i < 128"
  shows "nodes_wf (with_leaf h p i a) r"
proof -
  from walk_dom [OF assms(1,2)] obtain n where n: "h p = Some n" by auto
  have ap: "a \<noteq> p" "a \<noteq> r" using n assms(4) nodes_wfD(2) [OF assms(1)] by auto
  have k: "kids (with_leaf h p i a) b j = (if b = a then None else if b = p \<and> j = i then Some a else kids h b j)" for b j
    using kids_with_leaf [of h p a i b j] n ap by simp
  note w = walk_with_leaf [OF assms(1-4)]
  have d: "dom (with_leaf h p i a) = insert a (dom h)" using n by (auto simp: with_leaf_def)
  have "\<exists>ks. walk (with_leaf h p i a) r ks = Some b" if b: "b \<in> insert a (dom h)" for b
  proof (cases "b = a")
    case True
    then show ?thesis using w by (intro exI [of _ "ks @ [i]"]) simp
  next
    case False
    then obtain ls where "walk h r ls = Some b" using b nodes_wfD(4) [OF assms(1)] by blast
    moreover have "ls \<noteq> ks @ [i]" using calculation assms(2,3) by (auto simp: walk_snoc)
    ultimately show ?thesis using w by (intro exI [of _ ls]) simp
  qed
  moreover have "j < 128 \<and> (\<exists>m. with_leaf h p i a b = Some m \<and> tn_parent m = Some q \<and> tn_pidx m = j)"
    if "kids (with_leaf h p i a) q j = Some b" for q j b
  proof (cases "q = p \<and> j = i")
    case True
    then show ?thesis using that k assms(5) n ap by (auto simp: with_leaf_def empty_node_def split: if_splits)
  next
    case False
    then have "kids h q j = Some b" using that k by (auto split: if_splits)
    from nodes_wfD(5) [OF assms(1) this] assms(4) n show ?thesis by (auto simp: with_leaf_def)
  qed
  moreover have "tn_num_children m = int (card {j. tn_child m j \<noteq> None})" if "with_leaf h p i a q = Some m" for q m
  proof -
    consider "q = a" | "q \<noteq> a" "q = p" | "q \<noteq> a" "q \<noteq> p" by blast
    then show ?thesis
    proof cases
      case 2
      have ni: "tn_child n i = None" using assms(3) n by (simp add: kids_def)
      have "{j. ((tn_child n)(i \<mapsto> a)) j \<noteq> None} = insert i {j. tn_child n j \<noteq> None}" by auto
      moreover have "{j. tn_child n j \<noteq> None} \<subseteq> {..<128}" using nodes_wfD(5) [OF assms(1), of p] n by (force simp: kids_def)
      then have "finite {j. tn_child n j \<noteq> None}" by (rule finite_subset) simp
      ultimately show ?thesis using 2 that n nodes_wfD(6) [OF assms(1) n] ni by (auto simp: with_leaf_def)
    qed (use that n nodes_wfD(6) [OF assms(1)] in \<open>auto simp: with_leaf_def empty_node_def\<close>)
  qed
  moreover have "tn_parent m = None" if "with_leaf h p i a r = Some m" for m
    using that nodes_wfD(2,3) [OF assms(1)] ap n by (auto simp: with_leaf_def split: if_splits)
  ultimately show ?thesis unfolding nodes_wf_def d using nodes_wfD(1,2) [OF assms(1)] by blast
qed

lemma vmap_with_leaf:
  assumes "nodes_wf h r" and "walk h r ks = Some p" and "kids h p i = None" and "a \<notin> dom h"
  shows "vmap (with_leaf h p i a) r = vmap h r"
proof
  fix xs
  from walk_dom [OF assms(1,2)] obtain n where n: "h p = Some n" by auto
  have "walk h r (ks @ [i]) = None" using assms(2,3) by (simp add: walk_snoc)
  moreover have "node_val (with_leaf h p i a b) = node_val (h b)" if "b \<in> dom h" for b
    using that n assms(4) by (auto simp: with_leaf_def node_val_def)
  moreover have "node_val (with_leaf h p i a a) = None" using n by (simp add: with_leaf_def node_val_def empty_node_def)
  ultimately show "vmap (with_leaf h p i a) r xs = vmap h r xs"
    using walk_dom [OF assms(1)] by (auto simp: vmap_def walk_with_leaf [OF assms] split: option.split)
qed

text \<open>Keys: the bytes are characters of 7 bits.\<close>

definition ascii :: "byte list \<Rightarrow> bool" where
  "ascii key \<longleftrightarrow> (\<forall>c\<in>set key. c < 128)"

abbreviation path :: "byte list \<Rightarrow> nat list" where
  "path key \<equiv> map unat key"

lemma cidx_ascii: "c < 128 \<Longrightarrow> cidx c = Some (unat c) \<and> unat c < 128"
  by (auto simp: cidx_def word_less_nat_alt)

lemma ascii_Cons [simp]: "ascii (c # cs) \<longleftrightarrow> c < 128 \<and> ascii cs" "ascii []"
  by (simp_all add: ascii_def)

lemma path_inj: "path k = path k' \<longleftrightarrow> k = k'"
  by (rule inj_map_eq_map) (auto intro!: injI simp: word_unat_eq_iff)

definition trie_map :: "trie_t \<Rightarrow> byte list \<Rightarrow> (nat \<times> nat \<times> bool) option" where
  "trie_map t key = vmap (tr_nodes t) (tr_root t) (path key)"

text \<open>
  Who owns which pointer: the value of every node, and whether it is a copy. The block of a copy is there
  and belongs to one node only.
\<close>

type_synonym ptr_owners = "nat \<Rightarrow> (nat \<times> bool) option"

definition val_ptr :: "trie_node_t option \<Rightarrow> (nat \<times> bool) option" where
  "val_ptr x = (case x of None \<Rightarrow> None | Some n \<Rightarrow> map_option (\<lambda>v. (v, tn_is_copy n)) (tn_value n))"

definition ptrs :: "nodes \<Rightarrow> ptr_owners" where
  "ptrs h b = val_ptr (h b)"

definition copies_ok :: "ptr_owners \<Rightarrow> (nat \<rightharpoonup> byte list) \<Rightarrow> nat set \<Rightarrow> bool" where
  "copies_ok P mem S \<longleftrightarrow> (\<forall>b\<in>S. \<forall>v. P b = Some (v, True) \<longrightarrow> mem v \<noteq> None \<and> (\<forall>d\<in>S. \<forall>c. P d = Some (v, c) \<longrightarrow> d = b))"

definition mem_ok :: "ptr_owners \<Rightarrow> (nat \<rightharpoonup> byte list) \<Rightarrow> nat \<Rightarrow> bool" where
  "mem_ok P mem brk \<longleftrightarrow> copies_ok P mem UNIV \<and> (\<forall>b v c. P b = Some (v, c) \<longrightarrow> v < brk) \<and> (\<forall>a. mem a \<noteq> None \<longrightarrow> a < brk)"

definition trie_wf :: "trie_t \<Rightarrow> bool" where
  "trie_wf t \<longleftrightarrow> nodes_wf (tr_nodes t) (tr_root t) \<and> tr_node_count t = int (card (dom (tr_nodes t))) - 1 \<and>
     (\<forall>a\<in>dom (tr_nodes t). a < tr_brk t) \<and> mem_ok (ptrs (tr_nodes t)) (tr_mem t) (tr_brk t)"

lemma mem_ok_mono: "mem_ok P mem brk \<Longrightarrow> brk \<le> brk' \<Longrightarrow> mem_ok P mem brk'"
  unfolding mem_ok_def by (meson order.strict_trans2)

lemma ptrs_upd: "ptrs (h(a \<mapsto> n)) = (ptrs h)(a := val_ptr (Some n))"
  by (auto simp: ptrs_def)

lemma val_ptr_upd: "h p = Some n \<Longrightarrow> tn_value m = tn_value n \<Longrightarrow> tn_is_copy m = tn_is_copy n \<Longrightarrow> ptrs (h(p \<mapsto> m)) = ptrs h"
  by (auto simp: ptrs_def val_ptr_def)

lemma ptrs_with_leaf: "h p = Some n \<Longrightarrow> a \<notin> dom h \<Longrightarrow> ptrs (with_leaf h p i a) = ptrs h"
  by (auto simp: ptrs_def with_leaf_def val_ptr_def empty_node_def fun_eq_iff domIff split: option.split)

lemma find_loop_ok:
  assumes "nodes_wf (tr_nodes t) r" and "walk (tr_nodes t) r ks = Some a" and "ascii key"
  shows "find_loop t (Some a) key = Some (walk (tr_nodes t) a (path key))"
  using assms(2,3)
proof (induction key arbitrary: a ks)
  case (Cons c cs)
  from walk_dom [OF assms(1) Cons.prems(1)] obtain n where n: "tr_nodes t a = Some n" by auto
  show ?case
  proof (cases "tn_child n (unat c)")
    case None
    then show ?thesis using n Cons.prems(2) cidx_ascii [of c] by (cases cs) auto
  next
    case (Some b)
    then have "walk (tr_nodes t) r (ks @ [unat c]) = Some b" using n Cons.prems(1) by (simp add: walk_snoc kids_def)
    from Cons.IH [OF this] show ?thesis using n Some Cons.prems(2) cidx_ascii [of c] by auto
  qed
qed simp

lemma trie_find_internal_ok:
  assumes "trie_wf t" and "ascii key"
  shows "trie_find_internal t key = Some (walk (tr_nodes t) (tr_root t) (path key))"
  using find_loop_ok [of t "tr_root t" "[]"] assms by (simp add: trie_find_internal_def trie_wf_def)

lemma insert_walk_ok:
  assumes "nodes_wf (tr_nodes t) r" and "walk (tr_nodes t) r ks = Some a" and "ascii key"
  shows "\<exists>pre rest p. insert_walk t a key = Some (p, rest) \<and> key = pre @ rest \<and> walk (tr_nodes t) r (ks @ path pre) = Some p \<and>
           (rest = [] \<or> kids (tr_nodes t) p (unat (hd rest)) = None) \<and>
           (rest = [] \<longleftrightarrow> walk (tr_nodes t) a (path key) \<noteq> None)"
  using assms(2,3)
proof (induction key arbitrary: a ks)
  case Nil
  then show ?case by simp
next
  case (Cons c cs)
  from walk_dom [OF assms(1) Cons.prems(1)] obtain n where n: "tr_nodes t a = Some n" by auto
  show ?case
  proof (cases "tn_child n (unat c)")
    case None
    then show ?thesis using n Cons.prems cidx_ascii [of c] by (intro exI [of _ "[]"] exI [of _ "c # cs"] exI [of _ a]) (auto simp: kids_def)
  next
    case (Some b)
    then have w: "walk (tr_nodes t) r (ks @ [unat c]) = Some b" using n Cons.prems(1) by (simp add: walk_snoc kids_def)
    have "ascii cs" using Cons.prems(2) by simp
    from Cons.IH [OF w this] obtain pre rest p where
      "insert_walk t b cs = Some (p, rest)" "cs = pre @ rest" "walk (tr_nodes t) r ((ks @ [unat c]) @ path pre) = Some p"
      "rest = [] \<or> kids (tr_nodes t) p (unat (hd rest)) = None" "rest = [] \<longleftrightarrow> walk (tr_nodes t) b (path cs) \<noteq> None"
      by (elim exE conjE) (rule that)
    then show ?thesis using n Some Cons.prems(2) cidx_ascii [of c] by (intro exI [of _ "c # pre"] exI [of _ rest] exI [of _ p]) auto
  qed
qed

lemma insert_new_ok:
  assumes "nodes_wf (tr_nodes t) r" and "walk (tr_nodes t) r ks = Some p" and "ascii rest"
    and "rest = [] \<or> kids (tr_nodes t) p (unat (hd rest)) = None"
    and "\<forall>a\<in>dom (tr_nodes t). a < tr_brk t" and "\<forall>i. \<not> tr_fails t i"
  shows "\<exists>a t'. insert_new t p rest = Some (a, t') \<and> nodes_wf (tr_nodes t') r \<and> walk (tr_nodes t') r (ks @ path rest) = Some a \<and>
           vmap (tr_nodes t') r = vmap (tr_nodes t) r \<and> card (dom (tr_nodes t')) = card (dom (tr_nodes t)) + length rest \<and>
           (\<forall>a\<in>dom (tr_nodes t'). a < tr_brk t') \<and> tr_fails t' = tr_fails t \<and> tr_root t' = tr_root t \<and> tr_count t' = tr_count t \<and>
           tr_node_count t' = tr_node_count t \<and> tr_freed t' = tr_freed t \<and> tr_mem t' = tr_mem t \<and>
           ptrs (tr_nodes t') = ptrs (tr_nodes t) \<and> tr_brk t \<le> tr_brk t' \<and> tr_free_value_cb t' = tr_free_value_cb t"
  using assms
proof (induction rest arbitrary: t ks p)
  case Nil
  then show ?case using Nil.prems(1,2,5) by (intro exI [of _ p] exI [of _ t]) auto
next
  case (Cons c cs)
  let ?i = "unat c" and ?a = "tr_brk t"
  from walk_dom [OF Cons.prems(1,2)] obtain n where n: "tr_nodes t p = Some n" by auto
  have i: "cidx c = Some ?i" "?i < 128" using Cons.prems(3) cidx_ascii by auto
  have a: "?a \<notin> dom (tr_nodes t)" using Cons.prems(5) by blast
  have k: "kids (tr_nodes t) p ?i = None" using Cons.prems(4) by simp
  define h where "h = with_leaf (tr_nodes t) p ?i ?a"
  let ?t = "t\<lparr>tr_brk := Suc ?a, tr_nodes := h\<rparr>"
  have step: "insert_new t p (c # cs) = insert_new ?t ?a cs"
    using i(1) n Cons.prems(6) by (simp add: set_node_def h_def with_leaf_def Let_def)
  have wf: "nodes_wf h r" unfolding h_def by (rule nodes_wf_with_leaf [OF Cons.prems(1,2) k a i(2)])
  have w: "walk h r (ks @ [?i]) = Some ?a" unfolding h_def by (simp add: walk_with_leaf [OF Cons.prems(1,2) k a])
  have ap: "?a \<noteq> p" using a n by auto
  then have k': "kids h ?a j = None" for j using kids_with_leaf [of "tr_nodes t" p ?a ?i ?a j] n by (simp add: h_def)
  have d: "dom h = insert ?a (dom (tr_nodes t))" using n by (auto simp: h_def with_leaf_def)
  have br: "\<forall>b\<in>dom h. b < Suc ?a" unfolding d using Cons.prems(5) by (simp add: less_SucI)
  have "nodes_wf (tr_nodes ?t) r" "walk (tr_nodes ?t) r (ks @ [?i]) = Some ?a" "ascii cs"
    "cs = [] \<or> kids (tr_nodes ?t) ?a (unat (hd cs)) = None" "\<forall>a\<in>dom (tr_nodes ?t). a < tr_brk ?t" "\<forall>i. \<not> tr_fails ?t i"
    using wf w Cons.prems(3,6) k' br by auto
  from Cons.IH [OF this] obtain b t' where
    "insert_new ?t ?a cs = Some (b, t')" "nodes_wf (tr_nodes t') r" "walk (tr_nodes t') r ((ks @ [?i]) @ path cs) = Some b"
    "vmap (tr_nodes t') r = vmap h r" "card (dom (tr_nodes t')) = card (dom h) + length cs" "\<forall>a\<in>dom (tr_nodes t'). a < tr_brk t'"
    "tr_fails t' = tr_fails t" "tr_root t' = tr_root t" "tr_count t' = tr_count t" "tr_node_count t' = tr_node_count t"
    "tr_freed t' = tr_freed t" "tr_mem t' = tr_mem t" "ptrs (tr_nodes t') = ptrs h" "Suc ?a \<le> tr_brk t'"
    "tr_free_value_cb t' = tr_free_value_cb t" by auto
  moreover have "ptrs h = ptrs (tr_nodes t)" unfolding h_def by (rule ptrs_with_leaf [of _ _ n, OF n a])
  moreover have "card (dom h) = Suc (card (dom (tr_nodes t)))" using d a nodes_wfD(1) [OF Cons.prems(1)] by simp
  moreover have "vmap h r = vmap (tr_nodes t) r" unfolding h_def by (rule vmap_with_leaf [OF Cons.prems(1,2) k a])
  ultimately show ?case using step by simp
qed

definition keeps_rest :: "trie_t \<Rightarrow> trie_t \<Rightarrow> bool" where
  "keeps_rest t t' \<longleftrightarrow> tr_root t' = tr_root t \<and> tr_brk t' = tr_brk t \<and> tr_fails t' = tr_fails t \<and> tr_free_value_cb t' = tr_free_value_cb t"

text \<open>The values that the callback gets for a set of nodes, and the blocks that go away with the nodes.\<close>

definition node_free :: "trie_node_t option \<Rightarrow> nat multiset" where
  "node_free x = (case x of None \<Rightarrow> {#} | Some n \<Rightarrow>
     (case tn_value n of None \<Rightarrow> {#} | Some v \<Rightarrow> if tn_is_copy n then {#} else {#v#}))"

definition to_free :: "nodes \<Rightarrow> nat set \<Rightarrow> nat multiset" where
  "to_free h S = (\<Sum>b\<in>S. node_free (h b))"

definition gone :: "bool \<Rightarrow> ptr_owners \<Rightarrow> nat set \<Rightarrow> nat set" where
  "gone cb P S = {v. \<exists>b\<in>S. \<exists>c. P b = Some (v, c) \<and> (c \<or> cb)}"

definition valued :: "ptr_owners \<Rightarrow> nat set \<Rightarrow> nat set" where
  "valued P S = {b\<in>S. P b \<noteq> None}"

lemma drop_value_ok:
  assumes "tr_nodes t a = Some n" and "copies_ok (ptrs (tr_nodes t)) (tr_mem t) S" and "a \<in> S"
  shows "\<exists>t'. drop_value cb n t = Some t' \<and> tr_nodes t' = tr_nodes t \<and> tr_count t' = tr_count t \<and> tr_node_count t' = tr_node_count t \<and>
           keeps_rest t t' \<and> tr_mem t' = tr_mem t |` (- gone cb (ptrs (tr_nodes t)) {a}) \<and>
           mset (tr_freed t') = mset (tr_freed t) + (if cb then node_free (Some n) else {#})"
proof (cases "tn_value n")
  case None
  then show ?thesis using assms(1)
    by (simp add: drop_value_def keeps_rest_def gone_def ptrs_def val_ptr_def node_free_def restrict_map_def)
next
  case (Some v)
  then have p: "ptrs (tr_nodes t) a = Some (v, tn_is_copy n)" using assms(1) by (simp add: ptrs_def val_ptr_def)
  then have "tr_mem t v \<noteq> None" if "tn_is_copy n" using assms(2,3) that unfolding copies_ok_def by fastforce
  moreover have "gone cb (ptrs (tr_nodes t)) {a} = (if tn_is_copy n \<or> cb then {v} else {})" using p by (auto simp: gone_def)
  moreover have "(tr_mem t)(v := None) = tr_mem t |` (- {v})" by (auto simp: restrict_map_def)
  ultimately show ?thesis using Some
    by (cases "tn_is_copy n"; cases cb) (auto simp: drop_value_def keeps_rest_def node_free_def restrict_map_def)
qed

text \<open>Changing the value of a node keeps the tree.\<close>

lemma nodes_wf_set_value:
  assumes "nodes_wf h r" and "h a = Some n" and "tn_child m = tn_child n" and "tn_parent m = tn_parent n" and "tn_pidx m = tn_pidx n"
    and "tn_num_children m = tn_num_children n"
  shows "nodes_wf (h(a \<mapsto> m)) r \<and> walk (h(a \<mapsto> m)) = walk h"
proof -
  have k: "kids (h(a \<mapsto> m)) = kids h" using assms(2,3) by (intro ext) (simp add: kids_def)
  have w: "walk (h(a \<mapsto> m)) = walk h" by (intro ext walk_kids_cong k)
  have d: "dom (h(a \<mapsto> m)) = dom h" using assms(2) by auto
  have "nodes_wf (h(a \<mapsto> m)) r"
    unfolding nodes_wf_def w k d
  proof (intro conjI allI impI)
    show "finite (dom h)" "r \<in> dom h" "\<forall>b\<in>dom h. \<exists>ks. walk h r ks = Some b"
      using nodes_wfD(1,2,4) [OF assms(1)] by blast+
    show "tn_parent x = None" if "(h(a \<mapsto> m)) r = Some x" for x
      using that nodes_wfD(3) [OF assms(1)] assms(2,4) by (auto split: if_splits)
    show "i < 128" if "kids h q i = Some b" for q i b using nodes_wfD(5) [OF assms(1) that] by blast
    show "\<exists>x. (h(a \<mapsto> m)) b = Some x \<and> tn_parent x = Some q \<and> tn_pidx x = i" if "kids h q i = Some b" for q i b
      using nodes_wfD(5) [OF assms(1) that] assms(2,4,5) by auto
    show "tn_num_children x = int (card {i. tn_child x i \<noteq> None})" if "(h(a \<mapsto> m)) q = Some x" for q x
      using that nodes_wfD(6) [OF assms(1)] assms(2,3,6) by (auto split: if_splits)
  qed
  with w show ?thesis by simp
qed

lemma vmap_set_value:
  assumes "nodes_wf h r" and "walk h r ks = Some a" and "walk (h(a \<mapsto> m)) = walk h"
  shows "vmap (h(a \<mapsto> m)) r = (vmap h r)(ks := node_val (Some m))"
proof
  fix xs
  show "vmap (h(a \<mapsto> m)) r xs = ((vmap h r)(ks := node_val (Some m))) xs"
  proof (cases "xs = ks")
    case True
    then show ?thesis using assms(2,3) by (simp add: vmap_def)
  next
    case False
    then have "walk h r xs \<noteq> Some a" using walk_inj [OF assms(1,2)] by blast
    then show ?thesis using False assms(3) by (simp add: vmap_def split: option.split)
  qed
qed

text \<open>
  A value that may be stored: not the pointer of a node, and for a copy at least \<open>vsize\<close> bytes to read.
\<close>

definition value_ok :: "trie_t \<Rightarrow> nat \<Rightarrow> nat \<Rightarrow> bool \<Rightarrow> bool" where
  "value_ok t v vsize copy \<longleftrightarrow> v < tr_brk t \<and> (\<forall>b c. ptrs (tr_nodes t) b \<noteq> Some (v, c)) \<and>
     (copy \<longrightarrow> (\<exists>bs. tr_mem t v = Some bs \<and> vsize \<le> length bs))"

text \<open>The memory after a value was stored at \<open>a\<close>: the old value is gone, the copy is there.\<close>

definition stored_mem :: "trie_t \<Rightarrow> nat \<Rightarrow> nat \<Rightarrow> nat \<Rightarrow> nat \<Rightarrow> bool \<Rightarrow> nat \<rightharpoonup> byte list" where
  "stored_mem t a new v vsize copy =
     (let mem = tr_mem t |` (- gone (tr_free_value_cb t) (ptrs (tr_nodes t)) {a}) in
      if copy then mem(new \<mapsto> take vsize (the (tr_mem t v))) else mem)"

lemma copies_okD:
  assumes "copies_ok P mem S" and "b \<in> S" and "P b = Some (v, True)"
  shows "mem v \<noteq> None" and "d \<in> S \<Longrightarrow> P d = Some (v, c) \<Longrightarrow> d = b"
  using assms unfolding copies_ok_def by blast+

lemma copies_ok_gone:
  assumes "copies_ok P mem S" and "A \<subseteq> S" and "B \<subseteq> S" and "A \<inter> B = {}"
  shows "copies_ok P (mem |` (- gone cb P A)) B"
  unfolding copies_ok_def
proof (intro ballI allI impI conjI)
  fix b v assume b: "b \<in> B" "P b = Some (v, True)"
  have u: "mem v \<noteq> None" "\<forall>d\<in>S. \<forall>c. P d = Some (v, c) \<longrightarrow> d = b" using assms(1,3) b unfolding copies_ok_def by blast+
  have "v \<notin> gone cb P A" using u(2) assms(2,4) b(1) by (auto simp: gone_def)
  then show "(mem |` (- gone cb P A)) v \<noteq> None" using u(1) by simp
  fix d c assume "d \<in> B" "P d = Some (v, c)"
  then show "d = b" using u(2) assms(3) by blast
qed

lemma mem_ok_store:
  assumes "mem_ok P mem brk" and "v < brk" and "\<forall>b c. P b \<noteq> Some (v, c)" and "mem' = mem |` (- gone cb P {a})"
  shows "mem_ok (P(a \<mapsto> (v, False))) mem' brk" and "mem_ok (P(a \<mapsto> (brk, True))) (mem'(brk \<mapsto> bs)) (Suc brk)"
proof -
  have m: "copies_ok P mem UNIV" "\<And>b v c. P b = Some (v, c) \<Longrightarrow> v < brk" "\<And>a. mem a \<noteq> None \<Longrightarrow> a < brk"
    using assms(1) unfolding mem_ok_def by blast+
  have c: "copies_ok P mem' (- {a})" unfolding assms(4) by (rule copies_ok_gone [OF m(1)]) auto
  have sub: "mem' x \<noteq> None \<Longrightarrow> x < brk" for x using m(3) [of x] by (auto simp: assms(4) restrict_map_def split: if_splits)
  have 1: "copies_ok (P(a \<mapsto> (v, False))) mem' UNIV"
    unfolding copies_ok_def
  proof (intro ballI allI impI conjI)
    fix b w assume b: "(P(a \<mapsto> (v, False))) b = Some (w, True)"
    then have b': "b \<noteq> a" "P b = Some (w, True)" by (auto split: if_splits)
    then have ba: "b \<in> - {a}" by simp
    show "mem' w \<noteq> None" by (rule copies_okD(1) [OF c ba b'(2)])
    have "w \<noteq> v" using b'(2) assms(3) by auto
    fix d k assume "(P(a \<mapsto> (v, False))) d = Some (w, k)"
    then have "d \<in> - {a}" "P d = Some (w, k)" using \<open>w \<noteq> v\<close> by (auto split: if_splits)
    then show "d = b" by (rule copies_okD(2) [OF c ba b'(2)])
  qed
  then show "mem_ok (P(a \<mapsto> (v, False))) mem' brk" unfolding mem_ok_def using m(2) assms(2) sub by auto
  have 2: "copies_ok (P(a \<mapsto> (brk, True))) (mem'(brk \<mapsto> bs)) UNIV"
    unfolding copies_ok_def
  proof (intro ballI allI impI conjI)
    fix b w assume b: "(P(a \<mapsto> (brk, True))) b = Some (w, True)"
    show "(mem'(brk \<mapsto> bs)) w \<noteq> None"
      using b copies_okD(1) [OF c, of b w] by (cases "b = a") auto
    fix d k assume d: "(P(a \<mapsto> (brk, True))) d = Some (w, k)"
    show "d = b"
    proof (cases "w = brk")
      case True
      then show ?thesis using b d m(2) by (auto split: if_splits)
    next
      case False
      then have "b \<noteq> a" "P b = Some (w, True)" "d \<noteq> a" "P d = Some (w, k)" using b d by (auto split: if_splits)
      then show ?thesis using copies_okD(2) [OF c, of b w d k] by simp
    qed
  qed
  show "mem_ok (P(a \<mapsto> (brk, True))) (mem'(brk \<mapsto> bs)) (Suc brk)"
    unfolding mem_ok_def
  proof (intro conjI allI impI)
    show "w < Suc brk" if "(P(a \<mapsto> (brk, True))) b = Some (w, c)" for b w c
      using that m(2) [of b w c] by (cases "b = a") simp_all
    show "x < Suc brk" if "(mem'(brk \<mapsto> bs)) x \<noteq> None" for x
      using that sub [of x] by (cases "x = brk") simp_all
  qed (rule 2)
qed

lemma trie_node_set_value_ok:
  assumes "nodes_wf (tr_nodes t) r" and "walk (tr_nodes t) r ks = Some a" and "\<forall>i. \<not> tr_fails t i"
    and "\<forall>a\<in>dom (tr_nodes t). a < tr_brk t" and "mem_ok (ptrs (tr_nodes t)) (tr_mem t) (tr_brk t)" and "value_ok t v vsize copy"
  shows "\<exists>t'. trie_node_set_value t a (Some v) vsize copy = Some t' \<and> nodes_wf (tr_nodes t') r \<and>
           vmap (tr_nodes t') r = (vmap (tr_nodes t) r)(ks \<mapsto> (if copy then tr_brk t else v, vsize, copy)) \<and>
           dom (tr_nodes t') = dom (tr_nodes t) \<and> (\<forall>a\<in>dom (tr_nodes t'). a < tr_brk t') \<and> tr_fails t' = tr_fails t \<and> tr_root t' = tr_root t \<and>
           tr_node_count t' = tr_node_count t \<and> tr_free_value_cb t' = tr_free_value_cb t \<and> tr_count t' = tr_count t \<and>
           mem_ok (ptrs (tr_nodes t')) (tr_mem t') (tr_brk t') \<and> tr_mem t' = stored_mem t a (tr_brk t) v vsize copy \<and>
           tr_brk t \<le> tr_brk t'"
proof -
  from walk_dom [OF assms(1,2)] obtain n where n: "tr_nodes t a = Some n" by auto
  have cp: "copies_ok (ptrs (tr_nodes t)) (tr_mem t) UNIV" using assms(5) by (simp add: mem_ok_def)
  from drop_value_ok [OF n cp, of "tr_free_value_cb t"] obtain u where u: "drop_value (tr_free_value_cb t) n t = Some u"
    "tr_nodes u = tr_nodes t" "tr_count u = tr_count t" "tr_node_count u = tr_node_count t" "keeps_rest t u"
    "tr_mem u = tr_mem t |` (- gone (tr_free_value_cb t) (ptrs (tr_nodes t)) {a})" by auto
  define w where "w = (if copy then tr_brk t else v)"
  define m where "m = n\<lparr>tn_value := Some w, tn_vsize := vsize, tn_is_copy := copy\<rparr>"
  have wf: "nodes_wf ((tr_nodes t)(a \<mapsto> m)) r" "walk ((tr_nodes t)(a \<mapsto> m)) = walk (tr_nodes t)"
    using nodes_wf_set_value [OF assms(1) n, of m] by (auto simp: m_def)
  have v: "vmap ((tr_nodes t)(a \<mapsto> m)) r = (vmap (tr_nodes t) r)(ks \<mapsto> (w, vsize, copy))"
    using vmap_set_value [OF assms(1,2) wf(2)] by (simp add: node_val_def m_def)
  have d: "dom ((tr_nodes t)(a \<mapsto> m)) = dom (tr_nodes t)" using n by auto
  have P: "ptrs ((tr_nodes t)(a \<mapsto> m)) = (ptrs (tr_nodes t))(a \<mapsto> (w, copy))" by (simp add: ptrs_upd val_ptr_def m_def)
  define mem' where "mem' = stored_mem t a (tr_brk t) v vsize copy"
  define t' where "t' = u\<lparr>tr_brk := (if copy then Suc (tr_brk t) else tr_brk t), tr_nodes := (tr_nodes t)(a \<mapsto> m), tr_mem := mem'\<rparr>"
  have vo: "v < tr_brk t" "\<forall>b c. ptrs (tr_nodes t) b \<noteq> Some (v, c)" using assms(6) by (auto simp: value_ok_def)
  have src: "\<exists>bs. tr_mem u v = Some bs \<and> tr_mem t v = Some bs \<and> vsize \<le> length bs" if copy
    using assms(6) that u(6) by (auto simp: value_ok_def gone_def)
  have "trie_node_set_value t a (Some v) vsize copy = Some t'"
  proof (cases copy)
    case True
    with src obtain bs where bs: "tr_mem u v = Some bs" "tr_mem t v = Some bs" "vsize \<le> length bs" by blast
    with True n u assms(3) show ?thesis
      by (simp add: trie_node_set_value_def set_node_def t'_def m_def w_def mem'_def stored_mem_def keeps_rest_def Let_def)
  next
    case False
    then have "u\<lparr>tr_mem := mem'\<rparr> = u" "tr_brk u = tr_brk t" using u(5,6) by (simp_all add: mem'_def stored_mem_def keeps_rest_def)
    then have "t' = u\<lparr>tr_nodes := (tr_nodes t)(a \<mapsto> m)\<rparr>" using False by (cases u) (simp add: t'_def)
    with False n u show ?thesis by (simp add: trie_node_set_value_def set_node_def m_def w_def)
  qed
  moreover have "\<forall>b\<in>dom (tr_nodes t'). b < tr_brk t'" using assms(4) d by (simp add: t'_def less_SucI)
  moreover have "mem_ok ((ptrs (tr_nodes t))(a \<mapsto> (w, copy))) mem' (tr_brk t')"
    using mem_ok_store [OF assms(5) vo refl] by (auto simp: t'_def w_def mem'_def stored_mem_def Let_def)
  ultimately show ?thesis using wf(1) v d P u(3-5) by (intro exI [of _ t']) (simp add: t'_def w_def mem'_def keeps_rest_def)
qed

text \<open>The block that goes away with the value of a key.\<close>

definition old_gone :: "bool \<Rightarrow> (nat \<times> nat \<times> bool) option \<Rightarrow> nat set" where
  "old_gone cb x = (case x of None \<Rightarrow> {} | Some (v, n, c) \<Rightarrow> if c \<or> cb then {v} else {})"

lemma gone_key: "walk h r ks = Some a \<Longrightarrow> gone cb (ptrs h) {a} = old_gone cb (vmap h r ks)"
  by (auto simp: gone_def old_gone_def ptrs_def vmap_def val_ptr_def node_val_def split: option.split)

text \<open>The memory after a value was stored for a key: \<open>new\<close> is the address of the copy.\<close>

definition put_mem :: "trie_t \<Rightarrow> byte list \<Rightarrow> nat \<Rightarrow> nat \<Rightarrow> nat \<Rightarrow> bool \<Rightarrow> nat \<rightharpoonup> byte list" where
  "put_mem t key new v vsize copy =
     (let mem = tr_mem t |` (- old_gone (tr_free_value_cb t) (trie_map t key)) in
      if copy then mem(new \<mapsto> take vsize (the (tr_mem t v))) else mem)"

definition put_done :: "trie_t \<Rightarrow> byte list \<Rightarrow> nat \<Rightarrow> nat \<Rightarrow> bool \<Rightarrow> trie_t \<Rightarrow> bool" where
  "put_done t key v vsize copy t' \<longleftrightarrow> trie_wf t' \<and> tr_fails t' = tr_fails t \<and> tr_root t' = tr_root t \<and> tr_brk t \<le> tr_brk t' \<and>
     tr_free_value_cb t' = tr_free_value_cb t \<and>
     (\<exists>new\<ge>tr_brk t. trie_map t' = (trie_map t)(key \<mapsto> (if copy then new else v, vsize, copy)) \<and>
        tr_mem t' = put_mem t key new v vsize copy)"

lemma trie_insert_ok:
  assumes "trie_wf t" and "ascii key" and "\<forall>i. \<not> tr_fails t i" and "value_ok t v vsize copy"
  shows "\<exists>n t'. trie_insert t key (Some v) vsize copy = Some (int n, t') \<and> put_done t key v vsize copy t' \<and>
           tr_node_count t' = tr_node_count t + int n \<and> (n = 0 \<longleftrightarrow> walk (tr_nodes t) (tr_root t) (path key) \<noteq> None)"
proof -
  let ?r = "tr_root t"
  have wf: "nodes_wf (tr_nodes t) ?r" "tr_node_count t = int (card (dom (tr_nodes t))) - 1" "\<forall>a\<in>dom (tr_nodes t). a < tr_brk t"
    "mem_ok (ptrs (tr_nodes t)) (tr_mem t) (tr_brk t)"
    using assms(1) by (simp_all add: trie_wf_def)
  have "walk (tr_nodes t) ?r [] = Some ?r" by simp
  from insert_walk_ok [OF wf(1) this assms(2)] obtain pre rest p where
    w: "insert_walk t ?r key = Some (p, rest)" "key = pre @ rest" "walk (tr_nodes t) ?r ([] @ path pre) = Some p"
      "rest = [] \<or> kids (tr_nodes t) p (unat (hd rest)) = None" "rest = [] \<longleftrightarrow> walk (tr_nodes t) ?r (path key) \<noteq> None" by blast
  have "ascii rest" using assms(2) w(2) by (simp add: ascii_def)
  from insert_new_ok [OF wf(1) w(3) this w(4) wf(3) assms(3)] obtain a t1 where
    i: "insert_new t p rest = Some (a, t1)" "nodes_wf (tr_nodes t1) ?r" "walk (tr_nodes t1) ?r (path key) = Some a"
      "vmap (tr_nodes t1) ?r = vmap (tr_nodes t) ?r" "card (dom (tr_nodes t1)) = card (dom (tr_nodes t)) + length rest"
      "\<forall>a\<in>dom (tr_nodes t1). a < tr_brk t1" "tr_fails t1 = tr_fails t" "tr_root t1 = ?r" "tr_node_count t1 = tr_node_count t"
      "tr_free_value_cb t1 = tr_free_value_cb t" "tr_mem t1 = tr_mem t" "ptrs (tr_nodes t1) = ptrs (tr_nodes t)" "tr_brk t \<le> tr_brk t1"
    using w(2) by auto
  define t2 where "t2 = (if int (length rest) \<noteq> 0
    then t1\<lparr>tr_count := tr_count t1 + 1, tr_node_count := tr_node_count t1 + int (length rest)\<rparr> else t1)"
  have t2: "tr_nodes t2 = tr_nodes t1" "tr_brk t2 = tr_brk t1" "tr_fails t2 = tr_fails t1" "tr_root t2 = tr_root t1"
    "tr_node_count t2 = tr_node_count t + int (length rest)" "tr_free_value_cb t2 = tr_free_value_cb t" "tr_mem t2 = tr_mem t"
    using i(9-11) by (auto simp: t2_def)
  have "mem_ok (ptrs (tr_nodes t2)) (tr_mem t2) (tr_brk t2)" using mem_ok_mono [OF wf(4) i(13)] t2 i(12) by simp
  moreover have "value_ok t2 v vsize copy" using assms(4) t2 i(12,13) by (auto simp: value_ok_def)
  moreover have "nodes_wf (tr_nodes t2) ?r" "walk (tr_nodes t2) ?r (path key) = Some a" "\<forall>i. \<not> tr_fails t2 i" "\<forall>a\<in>dom (tr_nodes t2). a < tr_brk t2"
    using t2 i assms(3) by auto
  ultimately obtain t' where
    s: "trie_node_set_value t2 a (Some v) vsize copy = Some t'" "nodes_wf (tr_nodes t') ?r"
      "vmap (tr_nodes t') ?r = (vmap (tr_nodes t2) ?r)(path key \<mapsto> (if copy then tr_brk t2 else v, vsize, copy))" "dom (tr_nodes t') = dom (tr_nodes t2)"
      "\<forall>a\<in>dom (tr_nodes t'). a < tr_brk t'" "tr_fails t' = tr_fails t2" "tr_root t' = tr_root t2" "tr_node_count t' = tr_node_count t2"
      "tr_free_value_cb t' = tr_free_value_cb t2" "mem_ok (ptrs (tr_nodes t')) (tr_mem t') (tr_brk t')"
      "tr_mem t' = stored_mem t2 a (tr_brk t2) v vsize copy" "tr_brk t2 \<le> tr_brk t'"
    using trie_node_set_value_ok [of t2 ?r "path key" a v vsize copy] by blast
  have "trie_insert t key (Some v) vsize copy = Some (int (length rest), t')"
    using w(1) i(1) s(1) by (simp add: trie_insert_def t2_def Let_def)
  moreover have "trie_map t' = (trie_map t)(key \<mapsto> (if copy then tr_brk t1 else v, vsize, copy))"
    using s(3,7) t2 i(4,8) by (intro ext) (auto simp: trie_map_def path_inj)
  moreover have "trie_wf t'" using s t2 i(5,8) wf(2) by (simp add: trie_wf_def)
  moreover have "tr_mem t' = put_mem t key (tr_brk t1) v vsize copy"
    using s(11) t2 gone_key [OF i(3), of "tr_free_value_cb t"] i(4) by (simp add: stored_mem_def put_mem_def trie_map_def Let_def)
  ultimately show ?thesis using s t2 i(7,8,13) w(5)
    by (intro exI [of _ "length rest"] exI [of _ t']) (auto simp: put_done_def intro: exI [of _ "tr_brk t1"])
qed

lemma trie_find_ok:
  assumes "trie_wf t" and "ascii key"
  shows "\<exists>sz. trie_find t key = Some (map_option fst (trie_map t key), sz) \<and> (\<forall>v n c. trie_map t key = Some (v, n, c) \<longrightarrow> sz = Some n)"
proof (cases "walk (tr_nodes t) (tr_root t) (path key)")
  case None
  then show ?thesis using trie_find_internal_ok [OF assms] by (simp add: trie_find_def trie_map_def vmap_def)
next
  case (Some a)
  moreover obtain n where "tr_nodes t a = Some n" using walk_dom [of "tr_nodes t", OF _ Some] assms(1) by (auto simp: trie_wf_def)
  ultimately show ?thesis using trie_find_internal_ok [OF assms]
    by (auto simp: trie_find_def trie_map_def vmap_def node_val_def option.map_comp comp_def option.map_ident)
qed

lemma trie_find_and_insert_ok:
  assumes "trie_wf t" and "ascii key" and "\<forall>i. \<not> tr_fails t i" and "value_ok t v vsize copy"
  shows "\<exists>r prev t'. trie_find_and_insert t key (Some v) vsize copy = Some (r, prev, t') \<and> put_done t key v vsize copy t' \<and>
           (case trie_map t key of None \<Rightarrow> prev = None \<or> (\<exists>n. prev = Some (None, n)) | Some (w, n, c) \<Rightarrow> prev = Some (Some w, n))"
proof (cases "walk (tr_nodes t) (tr_root t) (path key)")
  case None
  with trie_insert_ok [OF assms] trie_find_internal_ok [OF assms(1,2)] show ?thesis
    by (auto simp: trie_find_and_insert_def trie_map_def vmap_def)
next
  case (Some a)
  have wf: "nodes_wf (tr_nodes t) (tr_root t)" "\<forall>a\<in>dom (tr_nodes t). a < tr_brk t" "mem_ok (ptrs (tr_nodes t)) (tr_mem t) (tr_brk t)"
    using assms(1) by (simp_all add: trie_wf_def)
  obtain n where n: "tr_nodes t a = Some n" using walk_dom [OF wf(1) Some] by auto
  from trie_node_set_value_ok [OF wf(1) Some assms(3) wf(2,3) assms(4)] obtain t' where
    t': "trie_node_set_value t a (Some v) vsize copy = Some t'" "nodes_wf (tr_nodes t') (tr_root t)"
      "vmap (tr_nodes t') (tr_root t) = (vmap (tr_nodes t) (tr_root t))(path key \<mapsto> (if copy then tr_brk t else v, vsize, copy))"
      "dom (tr_nodes t') = dom (tr_nodes t)"
      "\<forall>a\<in>dom (tr_nodes t'). a < tr_brk t'" "tr_fails t' = tr_fails t" "tr_root t' = tr_root t" "tr_node_count t' = tr_node_count t"
      "tr_free_value_cb t' = tr_free_value_cb t" "mem_ok (ptrs (tr_nodes t')) (tr_mem t') (tr_brk t')"
      "tr_mem t' = stored_mem t a (tr_brk t) v vsize copy" "tr_brk t \<le> tr_brk t'" by blast
  have "trie_map t' = (trie_map t)(key \<mapsto> (if copy then tr_brk t else v, vsize, copy))"
    using t'(3,7) by (intro ext) (auto simp: trie_map_def path_inj)
  moreover have "trie_wf t'" unfolding trie_wf_def t'(4,7,8) using t'(2,5,10) assms(1) unfolding t'(4) by (simp add: trie_wf_def)
  moreover have "tr_mem t' = put_mem t key (tr_brk t) v vsize copy"
    using t'(11) gone_key [OF Some, of "tr_free_value_cb t"] by (simp add: stored_mem_def put_mem_def trie_map_def)
  ultimately have "put_done t key v vsize copy t'" using t' by (auto simp: put_done_def)
  moreover have "trie_map t key = map_option (\<lambda>v. (v, tn_vsize n, tn_is_copy n)) (tn_value n)"
    using Some n by (simp add: trie_map_def vmap_def node_val_def)
  ultimately show ?thesis using trie_find_internal_ok [OF assms(1,2)] Some n t'(1)
    by (cases "tn_value n") (auto simp: trie_find_and_insert_def)
qed

section \<open>Releasing a subtree\<close>

text \<open>The nodes below a node, and that they form a tree: each is reached along one path.\<close>

definition sub :: "nodes \<Rightarrow> nat \<Rightarrow> nat set" where
  "sub h a = {b. \<exists>ks. walk h a ks = Some b}"

definition tree_below :: "nodes \<Rightarrow> nat \<Rightarrow> bool" where
  "tree_below h a \<longleftrightarrow> finite (dom h) \<and> sub h a \<subseteq> dom h \<and> (\<forall>b\<in>sub h a. \<forall>i c. kids h b i = Some c \<longrightarrow> i < 256) \<and>
     (\<forall>ks ls b. walk h a ks = Some b \<longrightarrow> walk h a ls = Some b \<longrightarrow> ks = ls)"

lemma sub_self: "a \<in> sub h a"
  unfolding sub_def by (intro CollectI exI [of _ "[]"]) simp

lemma sub_child: "kids h a i = Some c \<Longrightarrow> sub h c \<subseteq> sub h a"
proof
  fix b assume "kids h a i = Some c" "b \<in> sub h c"
  then obtain ks where "walk h a (i # ks) = Some b" by (auto simp: sub_def walk_Cons simp del: walk.simps(2))
  then show "b \<in> sub h a" unfolding sub_def by blast
qed

lemma sub_cases: "b \<in> sub h a \<Longrightarrow> b = a \<or> (\<exists>i c. kids h a i = Some c \<and> b \<in> sub h c)"
proof -
  assume "b \<in> sub h a"
  then obtain ks where "walk h a ks = Some b" by (auto simp: sub_def)
  then show ?thesis by (cases ks) (auto simp: sub_def walk_Cons simp del: walk.simps(2) split: option.splits)
qed

lemma tree_below_child:
  assumes "tree_below h a" and "kids h a i = Some c"
  shows "tree_below h c" "a \<notin> sub h c"
proof -
  have inj: "walk h a ks = Some b \<Longrightarrow> walk h a ls = Some b \<Longrightarrow> ks = ls" for ks ls b using assms(1) unfolding tree_below_def by blast
  have c: "walk h a (i # ks) = walk h c ks" for ks using assms(2) by (simp add: walk_Cons del: walk.simps(2))
  have "walk h c ks = Some b \<Longrightarrow> walk h c ls = Some b \<Longrightarrow> ks = ls" for ks ls b using inj [of "i # ks" b "i # ls"] c by simp
  then show "tree_below h c" using assms(1) sub_child [OF assms(2)] unfolding tree_below_def by blast
  show "a \<notin> sub h c"
  proof
    assume "a \<in> sub h c"
    then obtain ks where "walk h a (i # ks) = Some a" unfolding sub_def c [symmetric] by blast
    then show False using inj [of "i # ks" a "[]"] by simp
  qed
qed

lemma sub_disjoint:
  assumes "tree_below h a" and "kids h a i = Some c" and "kids h a j = Some d" and "i \<noteq> j"
  shows "sub h c \<inter> sub h d = {}"
proof -
  have False if "walk h c ks = Some b" "walk h d ls = Some b" for b ks ls
  proof -
    have "walk h a (i # ks) = Some b" "walk h a (j # ls) = Some b" using that assms(2,3) by (simp_all add: walk_Cons del: walk.simps(2))
    then have "i # ks = j # ls" using assms(1) unfolding tree_below_def by blast
    then show False using assms(4) by simp
  qed
  then show ?thesis unfolding sub_def by blast
qed

lemma walk_agree:
  "(\<And>b. b \<in> sub h a \<Longrightarrow> kids h' b = kids h b) \<Longrightarrow> walk h' a ks = walk h a ks"
proof (induction ks arbitrary: a)
  case (Cons i ks)
  have "kids h' a i = kids h a i" using Cons.prems [OF sub_self] by simp
  moreover have "walk h' c ks = walk h c ks" if "kids h a i = Some c" for c
    using Cons.IH [of c] Cons.prems sub_child [OF that] by blast
  ultimately show ?case by (simp add: walk_Cons del: walk.simps(2) split: option.split)
qed simp

lemma sub_agree:
  assumes "\<And>b. b \<in> sub h a \<Longrightarrow> kids h' b = kids h b"
  shows "sub h' a = sub h a"
  using walk_agree [of h a h', OF assms] by (simp add: sub_def)

text \<open>
  After the subtree of the child \<open>i\<close> has been released and the child unlinked.
\<close>

lemma prune_child:
  assumes "tree_below h a" and "kids h a i = Some c" and "\<And>b. b \<in> - sub h c - {a} \<Longrightarrow> h' b = h b"
    and "\<And>j. kids h' a j = (if j = i then None else kids h a j)" and "a \<in> dom h'" and "\<And>b. b \<in> sub h c \<Longrightarrow> h' b = None"
  shows "tree_below h' a" "sub h' a = sub h a - sub h c"
proof -
  have w: "walk h' a (j # ks) = (if j = i then None else walk h a (j # ks))" for j ks
  proof (cases "j = i \<or> kids h a j = None")
    case True
    then show ?thesis using assms(4) by (auto simp: walk_Cons simp del: walk.simps(2))
  next
    case False
    then obtain d where d: "kids h a j = Some d" "j \<noteq> i" by blast
    have "kids h' b = kids h b" if "b \<in> sub h d" for b
    proof -
      have "b \<in> - sub h c - {a}"
        using that sub_disjoint [OF assms(1) d(1) assms(2) d(2)] tree_below_child(2) [OF assms(1) d(1)] by blast
      then show ?thesis using assms(3) by (auto simp: kids_def)
    qed
    from walk_agree [of h d h', OF this] show ?thesis using d assms(4) by (simp add: walk_Cons del: walk.simps(2))
  qed
  show s: "sub h' a = sub h a - sub h c"
  proof (intro equalityI subsetI)
    fix b assume "b \<in> sub h' a"
    then obtain ks where ks: "walk h' a ks = Some b" by (auto simp: sub_def)
    show "b \<in> sub h a - sub h c"
    proof (cases ks)
      case Nil
      then show ?thesis using ks tree_below_child(2) [OF assms(1,2)] sub_self by auto
    next
      case (Cons j js)
      then have 1: "j \<noteq> i" "walk h a (j # js) = Some b" using ks w by (auto split: if_splits)
      then obtain d where d: "kids h a j = Some d" "walk h d js = Some b" by (auto simp: walk_Cons simp del: walk.simps(2) split: option.splits)
      then have "b \<notin> sub h c" using sub_disjoint [OF assms(1) d(1) assms(2) 1(1)] by (auto simp: sub_def)
      moreover have "b \<in> sub h a" unfolding sub_def using 1(2) by blast
      ultimately show ?thesis by blast
    qed
  next
    fix b assume "b \<in> sub h a - sub h c"
    then obtain ks where ks: "walk h a ks = Some b" "b \<notin> sub h c" by (auto simp: sub_def)
    show "b \<in> sub h' a"
    proof (cases ks)
      case Nil
      then show ?thesis using ks sub_self by auto
    next
      case (Cons j js)
      have "j \<noteq> i" using ks Cons assms(2) by (auto simp: walk_Cons sub_def simp del: walk.simps(2))
      then show ?thesis using ks(1) w [of j js] Cons unfolding sub_def by (intro CollectI exI [of _ ks]) (simp del: walk.simps(2))
    qed
  qed
  have old: "walk h a ks = Some b" if "walk h' a ks = Some b" for ks b
    using that w by (cases ks) (auto simp del: walk.simps(2) split: if_splits)
  have "b \<in> dom h'" if "b \<in> sub h a - sub h c" for b
    using that assms(1,3,5) unfolding tree_below_def by (cases "b = a") (auto simp: domIff)
  moreover have "j < 256" if "b \<in> sub h a - sub h c" "kids h' b j = Some d" for b j d
    using that assms(1,3,4) unfolding tree_below_def by (cases "b = a") (auto simp: kids_def split: if_splits)
  moreover have "dom h' \<subseteq> insert a (dom h)"
  proof
    fix x assume x: "x \<in> dom h'"
    then have "x \<notin> sub h c" using assms(6) by auto
    then show "x \<in> insert a (dom h)" using x assms(3) [of x] by (cases "x = a") (auto simp: domIff)
  qed
  then have "finite (dom h')" using assms(1) unfolding tree_below_def by (meson finite_insert finite_subset)
  ultimately show "tree_below h' a" using assms(1) old unfolding tree_below_def s by blast
qed

lemma gone_Un: "gone cb P (A \<union> B) = gone cb P A \<union> gone cb P B"
  by (auto simp: gone_def)

lemma valued_card: "A \<subseteq> S \<Longrightarrow> finite S \<Longrightarrow> card (valued P S) = card (valued P A) + card (valued P (S - A))"
proof -
  assume "A \<subseteq> S" "finite S"
  then have "valued P S = valued P A \<union> valued P (S - A)" "valued P A \<inter> valued P (S - A) = {}" "finite (valued P A)" "finite (valued P (S - A))"
    by (auto simp: valued_def intro: finite_subset)
  then show ?thesis by (simp add: card_Un_disjoint)
qed

lemma copies_ok_subset: "copies_ok P mem S \<Longrightarrow> A \<subseteq> S \<Longrightarrow> copies_ok P mem A"
  unfolding copies_ok_def by blast

lemma gone_cong: "(\<And>b. b \<in> S \<Longrightarrow> P b = Q b) \<Longrightarrow> gone cb P S = gone cb Q S"
  by (auto simp: gone_def)

lemma valued_cong: "(\<And>b. b \<in> S \<Longrightarrow> P b = Q b) \<Longrightarrow> valued P S = valued Q S"
  by (auto simp: valued_def)

lemma copies_ok_cong: "(\<And>b. b \<in> S \<Longrightarrow> P b = Q b) \<Longrightarrow> copies_ok P mem S = copies_ok Q mem S"
  by (simp add: copies_ok_def)

text \<open>
  \<open>destroy_down\<close> releases exactly the nodes below and the copies there, counts them, and gives each of the
  other values to the callback once.
\<close>

lemma destroy_down_ok:
  assumes "tree_below (tr_nodes t) a" and "\<forall>j<i. kids (tr_nodes t) a j = None"
    and "copies_ok (ptrs (tr_nodes t)) (tr_mem t) (sub (tr_nodes t) a)"
  shows "\<exists>t'. destroy_down cb t a i = Some t' \<and> tr_nodes t' = tr_nodes t |` (- sub (tr_nodes t) a) \<and>
           tr_node_count t' = tr_node_count t - int (card (sub (tr_nodes t) a)) \<and> keeps_rest t t' \<and>
           mset (tr_freed t') = mset (tr_freed t) + (if cb then to_free (tr_nodes t) (sub (tr_nodes t) a) else {#}) \<and>
           tr_mem t' = tr_mem t |` (- gone cb (ptrs (tr_nodes t)) (sub (tr_nodes t) a)) \<and>
           tr_count t' = tr_count t - int (card (valued (ptrs (tr_nodes t)) (sub (tr_nodes t) a)))"
  using assms
proof (induction "card (sub (tr_nodes t) a) * 257 + (256 - i)" arbitrary: t a i rule: less_induct)
  case less
  let ?h = "tr_nodes t"
  have fin: "finite (sub ?h a)" using less.prems(1) unfolding tree_below_def by (meson finite_subset)
  have "a \<in> dom ?h" using less.prems(1) sub_self unfolding tree_below_def by blast
  then obtain n where n: "?h a = Some n" by blast
  show ?case
  proof (cases "i < 256")
    case False
    have "kids ?h a j = None" for j
    proof (cases "kids ?h a j")
      case (Some c)
      then have "j < 256" using less.prems(1) sub_self unfolding tree_below_def by blast
      then show ?thesis using less.prems(2) False by simp
    qed simp
    then have s: "sub ?h a = {a}" using sub_cases [of _ ?h a] sub_self by fastforce
    define u where "u = (if tn_value n \<noteq> None then t\<lparr>tr_count := tr_count t - 1\<rparr> else t)"
    have u: "tr_nodes u = ?h" "tr_mem u = tr_mem t" "tr_node_count u = tr_node_count t" "tr_freed u = tr_freed t" "keeps_rest t u"
      by (simp_all add: u_def keeps_rest_def)
    have uc: "tr_count u = tr_count t - int (card (valued (ptrs ?h) {a}))"
    proof -
      have "valued (ptrs ?h) {a} = (if tn_value n = None then {} else {a})"
        using n by (auto simp: valued_def ptrs_def val_ptr_def)
      then show ?thesis by (simp add: u_def)
    qed
    from drop_value_ok [of u a n "{a}" cb] n u less.prems(3) s obtain t1 where
      t1: "drop_value cb n u = Some t1" "tr_nodes t1 = ?h" "tr_count t1 = tr_count u" "tr_node_count t1 = tr_node_count t" "keeps_rest u t1"
        "tr_mem t1 = tr_mem t |` (- gone cb (ptrs ?h) {a})" "mset (tr_freed t1) = mset (tr_freed t) + (if cb then node_free (?h a) else {#})"
      by auto
    let ?t = "t1\<lparr>tr_node_count := tr_node_count t1 - 1, tr_nodes := ?h(a := None)\<rparr>"
    have "destroy_down cb t a i = Some ?t"
      using n False t1(1,2) by (subst destroy_down.simps) (simp add: free_node_def Let_def u_def)
    moreover have "?h(a := None) = ?h |` (- {a})" by (auto simp: restrict_map_def)
    ultimately show ?thesis using t1 s u(5) uc by (auto simp: keeps_rest_def to_free_def)
  next
    case True
    show ?thesis
    proof (cases "tn_child n i")
      case None
      have "kids ?h a i = None" using n None by (simp add: kids_def)
      then have "\<forall>j<i + 1. kids ?h a j = None" using less.prems(2) by (auto simp: less_Suc_eq)
      moreover have "destroy_down cb t a i = destroy_down cb t a (i + 1)" using n True None by (subst destroy_down.simps) simp
      ultimately show ?thesis using less.hyps [of t a "i + 1"] less.prems(1,3) True by auto
    next
      case (Some c)
      then have k: "kids ?h a i = Some c" using n by (simp add: kids_def)
      note ch = tree_below_child [OF less.prems(1) k]
      have "c \<in> dom ?h" using ch(1) sub_self unfolding tree_below_def by blast
      then obtain m where m: "?h c = Some m" by blast
      have ca: "c \<noteq> a" using ch(2) sub_self by blast
      let ?h1 = "?h(c \<mapsto> m\<lparr>tn_parent := None\<rparr>)"
      let ?t1 = "t\<lparr>tr_nodes := ?h1\<rparr>"
      have k1: "kids ?h1 = kids ?h" using m by (intro ext) (simp add: kids_def)
      have w1: "walk ?h1 = walk ?h" by (intro ext walk_kids_cong k1)
      have s1: "sub ?h1 = sub ?h" by (intro ext) (simp add: sub_def w1)
      have d1: "dom ?h1 = dom ?h" using m by auto
      have tb1: "tree_below (tr_nodes ?t1) c" using ch(1) by (simp add: tree_below_def s1 w1 k1 d1 del: dom_fun_upd)
      have lt: "card (sub ?h c) < card (sub ?h a)" using sub_child [OF k] ch(2) sub_self fin by (intro psubset_card_mono) blast+
      then have ltc: "card (sub (tr_nodes ?t1) c) * 257 + (256 - 0) < card (sub ?h a) * 257 + (256 - i)" by (simp add: s1)
      have P1: "ptrs ?h1 = ptrs ?h" using val_ptr_upd [of ?h c m] m by simp
      have cp1: "copies_ok (ptrs (tr_nodes ?t1)) (tr_mem ?t1) (sub (tr_nodes ?t1) c)"
        using copies_ok_subset [OF less.prems(3) sub_child [OF k]] by (simp add: P1 s1)
      from less.hyps [OF ltc tb1 _ cp1] obtain t2 where
        t2: "destroy_down cb ?t1 c 0 = Some t2" "tr_nodes t2 = ?h1 |` (- sub ?h c)"
          "tr_node_count t2 = tr_node_count t - int (card (sub ?h c))" "keeps_rest ?t1 t2"
          "mset (tr_freed t2) = mset (tr_freed t) + (if cb then to_free ?h1 (sub ?h c) else {#})"
          "tr_mem t2 = tr_mem t |` (- gone cb (ptrs ?h) (sub ?h c))" "tr_count t2 = tr_count t - int (card (valued (ptrs ?h) (sub ?h c)))"
        by (auto simp: s1 P1)
      have a2: "tr_nodes t2 a = Some n" using t2(2) ca n ch(2) by (simp add: restrict_map_def)
      let ?n3 = "n\<lparr>tn_child := (tn_child n)(i := None), tn_num_children := tn_num_children n - 1\<rparr>"
      define t3 where "t3 = t2\<lparr>tr_nodes := (tr_nodes t2)(a \<mapsto> ?n3)\<rparr>"
      have t3: "tr_nodes t3 = (tr_nodes t2)(a \<mapsto> ?n3)" "tr_node_count t3 = tr_node_count t2" "tr_freed t3 = tr_freed t2" "keeps_rest t2 t3"
          "tr_mem t3 = tr_mem t2" "tr_count t3 = tr_count t2"
        by (simp_all add: t3_def keeps_rest_def)
      have eq: "destroy_down cb t a i = destroy_down cb t3 a (i + 1)"
        using n True Some m t2(1) a2 by (subst destroy_down.simps) (simp add: set_node_def t3_def)
      have h3: "tr_nodes t3 b = ?h b" if "b \<in> - sub ?h c - {a}" for b
        using that t2(2) sub_self [of c ?h] by (auto simp: restrict_map_def t3(1))
      have k3: "kids (tr_nodes t3) a j = (if j = i then None else kids ?h a j)" for j using n by (simp add: kids_def t3(1))
      have n3: "tr_nodes t3 b = None" if "b \<in> sub ?h c" for b using that t2(2) ch(2) by (auto simp: restrict_map_def t3(1))
      have d3: "a \<in> dom (tr_nodes t3)" by (simp add: t3(1))
      have tb3: "tree_below (tr_nodes t3) a" by (rule prune_child(1) [OF less.prems(1) k h3 k3 d3 n3])
      have s3: "sub (tr_nodes t3) a = sub ?h a - sub ?h c" by (rule prune_child(2) [OF less.prems(1) k h3 k3 d3 n3])
      have c3: "card (sub ?h a - sub ?h c) = card (sub ?h a) - card (sub ?h c)"
        using sub_child [OF k] fin by (intro card_Diff_subset) (auto intro: finite_subset)
      have "0 < card (sub ?h c)" using sub_self fin sub_child [OF k] by (metis card_gt_0_iff empty_iff finite_subset)
      then have "card (sub ?h a) - card (sub ?h c) < card (sub ?h a)" using lt by linarith
      then have "card (sub (tr_nodes t3) a) * 257 + (256 - (i + 1)) < card (sub ?h a) * 257 + (256 - i)"
        unfolding s3 c3 by (intro add_less_le_mono) simp_all
      moreover have "\<forall>j<i + 1. kids (tr_nodes t3) a j = None" using less.prems(2) k3 by (auto simp: less_Suc_eq)
      moreover have P3: "ptrs (tr_nodes t3) b = ptrs ?h b" if "b \<in> sub ?h a - sub ?h c" for b
        using that h3 [of b] n t3(1) by (cases "b = a") (auto simp: ptrs_def val_ptr_def)
      moreover have "copies_ok (ptrs (tr_nodes t3)) (tr_mem t3) (sub (tr_nodes t3) a)"
        using copies_ok_gone [OF less.prems(3) sub_child [OF k], of "sub ?h a - sub ?h c" cb]
          copies_ok_cong [of "sub ?h a - sub ?h c" "ptrs (tr_nodes t3)" "ptrs ?h"] P3 by (auto simp: s3 t3(5) t2(6))
      ultimately obtain t' where t': "destroy_down cb t3 a (i + 1) = Some t'"
        "tr_nodes t' = tr_nodes t3 |` (- sub (tr_nodes t3) a)" "tr_node_count t' = tr_node_count t2 - int (card (sub ?h a - sub ?h c))"
        "keeps_rest t3 t'"
        "mset (tr_freed t') = mset (tr_freed t2) + (if cb then to_free (tr_nodes t3) (sub ?h a - sub ?h c) else {#})"
        "tr_mem t' = tr_mem t2 |` (- gone cb (ptrs (tr_nodes t3)) (sub ?h a - sub ?h c))"
        "tr_count t' = tr_count t2 - int (card (valued (ptrs (tr_nodes t3)) (sub ?h a - sub ?h c)))"
        using less.hyps [OF _ tb3, of "i + 1"] unfolding s3 t3(2,3,5,6) by blast
      have "tr_mem t' = tr_mem t |` (- gone cb (ptrs ?h) (sub ?h a))"
      proof -
        have "gone cb (ptrs (tr_nodes t3)) (sub ?h a - sub ?h c) = gone cb (ptrs ?h) (sub ?h a - sub ?h c)" using P3 by (rule gone_cong)
        moreover have "sub ?h a = sub ?h c \<union> (sub ?h a - sub ?h c)" using sub_child [OF k] by blast
        ultimately show ?thesis using t'(6) t2(6) gone_Un [of cb "ptrs ?h" "sub ?h c" "sub ?h a - sub ?h c"] by (simp add: restrict_restrict)
      qed
      moreover have "tr_count t' = tr_count t - int (card (valued (ptrs ?h) (sub ?h a)))"
        using t'(7) t2(7) valued_card [OF sub_child [OF k] fin, of "ptrs ?h"] valued_cong [of "sub ?h a - sub ?h c" "ptrs (tr_nodes t3)" "ptrs ?h"] P3
        by simp
      moreover have "tr_nodes t' = ?h |` (- sub ?h a)"
      proof
        fix b
        show "tr_nodes t' b = (?h |` (- sub ?h a)) b"
          using h3 [of b] sub_child [OF k] sub_self [of a ?h] n3 [of b] unfolding t'(2) s3 by (auto simp: restrict_map_def)
      qed
      moreover have "tr_node_count t' = tr_node_count t - int (card (sub ?h a))" using t'(3) t2(3) c3 lt by simp
      moreover have "keeps_rest t t'" using t2(4) t'(4) t3(4) by (simp add: keeps_rest_def)
      moreover have "to_free ?h (sub ?h a) = to_free ?h1 (sub ?h c) + to_free (tr_nodes t3) (sub ?h a - sub ?h c)"
      proof -
        have "to_free ?h (sub ?h a) = to_free ?h (sub ?h c) + to_free ?h (sub ?h a - sub ?h c)"
          unfolding to_free_def using sub_child [OF k] fin by (metis add.commute sum.subset_diff)
        moreover have "to_free ?h1 (sub ?h c) = to_free ?h (sub ?h c)"
          unfolding to_free_def using m by (intro sum.cong) (auto simp: node_free_def split: option.split)
        moreover have "to_free (tr_nodes t3) (sub ?h a - sub ?h c) = to_free ?h (sub ?h a - sub ?h c)"
          unfolding to_free_def
        proof (intro sum.cong refl)
          fix b assume "b \<in> sub ?h a - sub ?h c"
          then show "node_free (tr_nodes t3 b) = node_free (?h b)" using h3 [of b] n t3(1)
            by (cases "b = a") (auto simp: node_free_def split: option.split)
        qed
        ultimately show ?thesis by simp
      qed
      ultimately show ?thesis using eq t'(1,5) t2(5) by (simp add: ac_simps)
    qed
  qed
qed

section \<open>Removing\<close>

text \<open>The nodes strictly between two nodes of a path.\<close>

definition between :: "nodes \<Rightarrow> nat \<Rightarrow> nat list \<Rightarrow> nat list \<Rightarrow> nat set" where
  "between h r us vs = {b. \<exists>k<length vs. walk h r (us @ take k vs) = Some b}"

lemma between_snoc:
  "between h r us (vs @ [i]) = between h r us vs \<union> {b. walk h r (us @ vs) = Some b}"
proof -
  have "(\<exists>k<length (vs @ [i]). walk h r (us @ take k (vs @ [i])) = Some b) \<longleftrightarrow>
      (\<exists>k<length vs. walk h r (us @ take k vs) = Some b) \<or> walk h r (us @ vs) = Some b" for b
    by (auto simp: less_Suc_eq)
  then show ?thesis unfolding between_def by blast
qed

text \<open>
  The first part of \<open>trie_node_destroy\<close>: from the parent \<open>p\<close> at the path \<open>ks\<close> it climbs to the node \<open>q\<close> at
  \<open>us\<close> and releases the nodes in between, each of which has no value and no other child.
\<close>

lemma destroy_up_ok:
  assumes "nodes_wf h (tr_root t)" and "walk h (tr_root t) ks = Some p" and "kids h p i = Some x"
    and "\<forall>us q. prefix us ks \<longrightarrow> walk h (tr_root t) us = Some q \<longrightarrow> tr_nodes t q = h q"
  shows "\<exists>us j vs q t'. destroy_up t (Some p) i = Some (Some q, j, t') \<and> ks @ [i] = us @ j # vs \<and> walk h (tr_root t) us = Some q \<and>
           tr_nodes t' = tr_nodes t |` (- between h (tr_root t) (us @ [j]) vs) \<and>
           tr_node_count t' = tr_node_count t - int (length vs) \<and> keeps_rest t t' \<and> tr_freed t' = tr_freed t \<and> tr_mem t' = tr_mem t \<and> tr_count t' = tr_count t \<and>
           (\<forall>k<length vs. \<forall>b. walk h (tr_root t) (us @ j # take k vs) = Some b \<longrightarrow>
              node_val (h b) = None \<and> node_free (h b) = {#} \<and> (\<forall>l c. kids h b l = Some c \<longrightarrow> l = vs ! k))"
  using assms
proof (induction ks arbitrary: t p i x rule: rev_induct)
  case Nil
  then have "destroy_up t (Some p) i = Some (Some p, i, t)" by (subst destroy_up.simps) simp
  then show ?case using Nil.prems(2)
    by (intro exI [of _ "[]"] exI [of _ i] exI [of _ p] exI [of _ t]) (simp add: between_def keeps_rest_def restrict_map_def)
next
  case (snoc d ks)
  let ?r = "tr_root t"
  obtain p' where p': "walk h ?r ks = Some p'" "kids h p' d = Some p" using snoc.prems(2) by (auto simp: walk_snoc split: option.splits)
  have pr: "p \<noteq> ?r" using walk_inj [OF snoc.prems(1,2), of "[]"] by auto
  obtain n where n: "h p = Some n" "tn_parent n = Some p'" "tn_pidx n = d" using nodes_wfD(5) [OF snoc.prems(1) p'(2)] by auto
  have tp: "tr_nodes t p = Some n" using snoc.prems(2,4) n(1) by auto
  show ?case
  proof (cases "tn_value n \<noteq> None \<or> tn_num_children n > 1")
    case True
    then have "destroy_up t (Some p) i = Some (Some p, i, t)" using pr tp by (subst destroy_up.simps) auto
    then show ?thesis using snoc.prems(2)
      by (intro exI [of _ "ks @ [d]"] exI [of _ i] exI [of _ "[]"] exI [of _ p] exI [of _ t]) (simp add: between_def keeps_rest_def restrict_map_def)
  next
    case False
    define t1 where "t1 = t\<lparr>tr_nodes := (tr_nodes t)(p := None), tr_node_count := tr_node_count t - 1\<rparr>"
    have t1: "tr_root t1 = ?r" "tr_nodes t1 = (tr_nodes t)(p := None)" "tr_node_count t1 = tr_node_count t - 1" "tr_freed t1 = tr_freed t"
      "tr_mem t1 = tr_mem t" "tr_count t1 = tr_count t"
      by (simp_all add: t1_def)
    have step: "destroy_up t (Some p) i = destroy_up t1 (Some p') d"
      using pr tp False n by (subst destroy_up.simps) (simp add: free_node_def t1_def)
    have "tr_nodes t1 q = h q" if "prefix us ks" "walk h ?r us = Some q" for us q
    proof -
      have "q \<noteq> p" using walk_inj [OF snoc.prems(1,2), of us] that by auto
      moreover have "prefix us (ks @ [d])" using that(1) by simp
      ultimately show ?thesis using snoc.prems(4) that(2) t1(2) by auto
    qed
    then obtain us j vs q t' where ih: "destroy_up t1 (Some p') d = Some (Some q, j, t')" "ks @ [d] = us @ j # vs" "walk h ?r us = Some q"
        "tr_nodes t' = tr_nodes t1 |` (- between h ?r (us @ [j]) vs)" "tr_node_count t' = tr_node_count t1 - int (length vs)"
        "keeps_rest t1 t'" "tr_freed t' = tr_freed t1" "tr_mem t' = tr_mem t1" "tr_count t' = tr_count t1"
        "\<forall>k<length vs. \<forall>b. walk h ?r (us @ j # take k vs) = Some b \<longrightarrow>
           node_val (h b) = None \<and> node_free (h b) = {#} \<and> (\<forall>l c. kids h b l = Some c \<longrightarrow> l = vs ! k)"
      using snoc.IH [of t1 p' d p] snoc.prems(1) p' unfolding t1(1) by blast
    have pv: "walk h ?r (us @ j # vs) = Some p" using snoc.prems(2) unfolding ih(2) .
    then have b: "between h ?r (us @ [j]) (vs @ [i]) = insert p (between h ?r (us @ [j]) vs)" by (auto simp: between_snoc)
    have one: "l = i" if "kids h p l = Some c" for l c
    proof -
      have "{l. tn_child n l \<noteq> None} \<subseteq> {..<128}" using nodes_wfD(5) [OF snoc.prems(1), of p] n(1) by (force simp: kids_def)
      then have fin: "finite {l. tn_child n l \<noteq> None}" by (rule finite_subset) simp
      have "card {l. tn_child n l \<noteq> None} \<le> 1" using nodes_wfD(6) [OF snoc.prems(1) n(1)] False by simp
      moreover have "i \<in> {l. tn_child n l \<noteq> None}" "l \<in> {l. tn_child n l \<noteq> None}"
        using that snoc.prems(3) n(1) by (auto simp: kids_def)
      ultimately show ?thesis using card_le_Suc0_iff_eq [OF fin] by auto
    qed
    have last: "node_val (h p) = None" "node_free (h p) = {#}" using False n(1) by (simp_all add: node_val_def node_free_def)
    have "\<forall>k<length (vs @ [i]). \<forall>b. walk h ?r (us @ j # take k (vs @ [i])) = Some b \<longrightarrow>
        node_val (h b) = None \<and> node_free (h b) = {#} \<and> (\<forall>l c. kids h b l = Some c \<longrightarrow> l = (vs @ [i]) ! k)"
    proof (intro allI impI)
      fix k b assume k: "k < length (vs @ [i])" and w: "walk h ?r (us @ j # take k (vs @ [i])) = Some b"
      show "node_val (h b) = None \<and> node_free (h b) = {#} \<and> (\<forall>l c. kids h b l = Some c \<longrightarrow> l = (vs @ [i]) ! k)"
      proof (cases "k < length vs")
        case True
        then show ?thesis using ih(10) w by (simp add: nth_append)
      next
        case False
        then have "k = length vs" using k by simp
        then have "b = p" using w pv by simp
        then show ?thesis using last one \<open>k = length vs\<close> by auto
      qed
    qed
    moreover have "tr_nodes t' = tr_nodes t |` (- between h ?r (us @ [j]) (vs @ [i]))"
      unfolding ih(4) t1(2) b by (auto simp: restrict_map_def)
    moreover have "keeps_rest t t'" using ih(6) by (simp add: keeps_rest_def t1_def)
    moreover have "(ks @ [d]) @ [i] = us @ j # (vs @ [i])" using ih(2) by simp
    ultimately show ?thesis using step ih(1,3,5,7,8,9) t1(3-6)
      by (intro exI [of _ us] exI [of _ j] exI [of _ "vs @ [i]"] exI [of _ q] exI [of _ t']) simp
  qed
qed

text \<open>
  Unlinking the child \<open>j\<close> of \<open>q\<close> and releasing everything below it.
\<close>

definition pruned :: "nodes \<Rightarrow> nat \<Rightarrow> nat \<Rightarrow> nat \<Rightarrow> nodes" where
  "pruned h q j y = (case h q of None \<Rightarrow> h | Some n \<Rightarrow>
     (h(q \<mapsto> n\<lparr>tn_child := (tn_child n)(j := None), tn_num_children := tn_num_children n - 1\<rparr>)) |` (- sub h y))"

lemma tree_below_wf:
  assumes "nodes_wf h r" and "walk h r ks = Some a"
  shows "tree_below h a"
proof -
  have "walk h r (ks @ ls) = walk h a ls" for ls using assms(2) by (simp add: walk_append)
  then have "walk h a ls = Some b \<Longrightarrow> walk h a ms = Some b \<Longrightarrow> ls = ms" "walk h a ls = Some b \<Longrightarrow> b \<in> dom h" for ls ms b
    using walk_inj [OF assms(1), of "ks @ ls" b "ks @ ms"] walk_dom [OF assms(1), of "ks @ ls" b] by auto
  moreover have "i < 256" if "kids h b i = Some c" for b i c using nodes_wfD(5) [OF assms(1) that] by simp
  ultimately show ?thesis unfolding tree_below_def sub_def using nodes_wfD(1) [OF assms(1)] by blast
qed

lemma sub_iff_prefix:
  assumes "nodes_wf h r" and "walk h r us = Some y" and "walk h r xs = Some b"
  shows "b \<in> sub h y \<longleftrightarrow> prefix us xs"
proof
  assume "b \<in> sub h y"
  then obtain ks where "walk h r (us @ ks) = Some b" using assms(2) by (auto simp: sub_def walk_append)
  then have "xs = us @ ks" using walk_inj [OF assms(1,3)] by simp
  then show "prefix us xs" by simp
next
  assume "prefix us xs"
  then obtain ks where "xs = us @ ks" by (auto simp: prefix_def)
  then show "b \<in> sub h y" using assms(2,3) by (auto simp: sub_def walk_append)
qed

lemma pruned_ok:
  assumes "nodes_wf h r" and "walk h r us = Some q" and "kids h q j = Some y"
  shows "nodes_wf (pruned h q j y) r" and "walk (pruned h q j y) r xs = (if prefix (us @ [j]) xs then None else walk h r xs)"
    and "dom (pruned h q j y) = dom h - sub h y"
proof -
  let ?h = "pruned h q j y"
  obtain n where n: "h q = Some n" using walk_dom [OF assms(1,2)] by auto
  have y: "walk h r (us @ [j]) = Some y" using assms(2,3) by (simp add: walk_snoc)
  have qy: "q \<notin> sub h y" using sub_iff_prefix [OF assms(1) y assms(2)] by (simp add: prefix_def)
  have ry: "r \<notin> sub h y" using sub_iff_prefix [OF assms(1) y, of "[]" r] by (simp add: prefix_def)
  let ?n = "n\<lparr>tn_child := (tn_child n)(j := None), tn_num_children := tn_num_children n - 1\<rparr>"
  have h: "?h b = (if b \<in> sub h y then None else if b = q then Some ?n else h b)" for b
    using n by (auto simp: pruned_def restrict_map_def)
  have k: "kids ?h b i = (if b \<in> sub h y \<or> b = q \<and> i = j then None else kids h b i)" for b i using n by (auto simp: kids_def h)
  show d: "dom ?h = dom h - sub h y" using n qy h by (auto simp: domIff split: if_splits)
  show w: "walk ?h r xs = (if prefix (us @ [j]) xs then None else walk h r xs)" for xs
  proof (induction xs rule: rev_induct)
    case Nil
    then show ?case by simp
  next
    case (snoc i xs)
    consider "prefix (us @ [j]) xs" | "\<not> prefix (us @ [j]) xs" "xs @ [i] = us @ [j]" | "\<not> prefix (us @ [j]) (xs @ [i])" "xs @ [i] \<noteq> us @ [j]"
      by (metis prefix_snoc)
    then show ?case
    proof cases
      case 1
      then show ?thesis using snoc by (simp add: walk_snoc)
    next
      case 2
      then show ?thesis using snoc assms(2) k by (simp add: walk_snoc)
    next
      case 3
      then have np: "\<not> prefix (us @ [j]) xs" by simp
      show ?thesis
      proof (cases "walk h r xs")
        case None
        then show ?thesis using snoc np 3 by (simp add: walk_snoc)
      next
        case (Some b)
        have "b \<notin> sub h y" using sub_iff_prefix [OF assms(1) y Some] np by simp
        moreover have "\<not> (b = q \<and> i = j)" using walk_inj [OF assms(1) Some, of us] assms(2) 3(2) by auto
        ultimately show ?thesis using snoc np 3 Some k by (auto simp: walk_snoc)
      qed
    qed
  qed
  have "\<exists>ks. walk ?h r ks = Some b" if b: "b \<in> dom h - sub h y" for b
  proof -
    obtain ks where ks: "walk h r ks = Some b" using b nodes_wfD(4) [OF assms(1)] by blast
    then show ?thesis using sub_iff_prefix [OF assms(1) y ks] b w by (intro exI [of _ ks]) simp
  qed
  moreover have "i < 128 \<and> (\<exists>m. ?h c = Some m \<and> tn_parent m = Some b \<and> tn_pidx m = i)" if c: "kids ?h b i = Some c" for b i c
  proof -
    have o: "b \<notin> sub h y" "\<not> (b = q \<and> i = j)" "kids h b i = Some c" using c k [of b i] by (auto split: if_splits)
    obtain m where m: "h c = Some m" "tn_parent m = Some b" "tn_pidx m = i" "i < 128" using nodes_wfD(5) [OF assms(1) o(3)] by blast
    obtain ks where ks: "walk h r ks = Some b" using o(3) nodes_wfD(4) [OF assms(1), of b] by (auto simp: kids_def split: option.splits)
    have kc: "walk h r (ks @ [i]) = Some c" using ks o(3) by (simp add: walk_snoc)
    have "\<not> prefix (us @ [j]) (ks @ [i])"
      using sub_iff_prefix [OF assms(1) y ks] o(1,2) walk_inj [OF assms(1) ks, of us] ks assms(2) by auto
    then have "c \<notin> sub h y" using sub_iff_prefix [OF assms(1) y kc] by simp
    then show ?thesis using m n h by auto
  qed
  moreover have "tn_num_children m = int (card {i. tn_child m i \<noteq> None})" if m: "?h b = Some m" for b m
  proof (cases "b = q")
    case True
    have "{i. tn_child n i \<noteq> None} \<subseteq> {..<128}" using nodes_wfD(5) [OF assms(1), of q] n by (force simp: kids_def)
    then have fin: "finite {i. tn_child n i \<noteq> None}" by (rule finite_subset) simp
    have jn: "j \<in> {i. tn_child n i \<noteq> None}" using assms(3) n by (simp add: kids_def)
    have "{i. ((tn_child n)(j := None)) i \<noteq> None} = {i. tn_child n i \<noteq> None} - {j}" by auto
    moreover have "card ({i. tn_child n i \<noteq> None} - {j}) = card {i. tn_child n i \<noteq> None} - 1" using jn by simp
    moreover have "1 \<le> card {i. tn_child n i \<noteq> None}" using jn fin by (metis One_nat_def Suc_leI card_gt_0_iff empty_iff)
    moreover have "m = ?n" using m True h qy by simp
    ultimately show ?thesis using nodes_wfD(6) [OF assms(1) n] by (simp add: of_nat_diff del: card_Diff_insert)
  next
    case False
    then have "h b = Some m" using m h by (auto split: if_splits)
    then show ?thesis by (rule nodes_wfD(6) [OF assms(1)])
  qed
  moreover have "tn_parent m = None" if "?h r = Some m" for m
    using that h nodes_wfD(2,3) [OF assms(1)] n by (auto split: if_splits)
  moreover have "r \<in> dom ?h" using nodes_wfD(2) [OF assms(1)] ry d by blast
  ultimately show "nodes_wf ?h r" unfolding nodes_wf_def using nodes_wfD(1) [OF assms(1)] d by auto
qed

text \<open>
  When the nodes between two nodes of a path have no other child, the nodes below the upper one are those in
  between and those below the lower one.
\<close>

lemma sub_between:
  assumes "walk h r us = Some y" and "walk h r (us @ vs) = Some x"
    and "\<forall>k<length vs. \<forall>b. walk h r (us @ take k vs) = Some b \<longrightarrow> (\<forall>l c. kids h b l = Some c \<longrightarrow> l = vs ! k)"
  shows "sub h y = between h r us vs \<union> sub h x"
  using assms
proof (induction vs arbitrary: us y)
  case Nil
  then show ?case by (simp add: between_def)
next
  case (Cons v vs)
  obtain z where z: "kids h y v = Some z" "walk h r (us @ [v]) = Some z"
    using Cons.prems(1,2) by (auto simp: walk_append walk_Cons simp del: walk.simps(2) split: option.splits)
  have "sub h y = insert y (sub h z)"
  proof -
    have "l = v" if "kids h y l = Some c" for l c using Cons.prems(1,3) that by fastforce
    then show ?thesis using sub_cases [of _ h y] sub_self [of y h] sub_child [OF z(1)] z(1) by fastforce
  qed
  moreover have "sub h z = between h r (us @ [v]) vs \<union> sub h x"
  proof (rule Cons.IH [OF z(2)])
    show "walk h r ((us @ [v]) @ vs) = Some x" using Cons.prems(2) by simp
    show "\<forall>k<length vs. \<forall>b. walk h r ((us @ [v]) @ take k vs) = Some b \<longrightarrow> (\<forall>l c. kids h b l = Some c \<longrightarrow> l = vs ! k)"
      using Cons.prems(3) by (metis Suc_less_eq append.assoc append_Cons append_Nil length_Cons nth_Cons_Suc take_Suc_Cons)
  qed
  moreover have "between h r us (v # vs) = insert y (between h r (us @ [v]) vs)"
  proof -
    have "(\<exists>k<Suc (length vs). walk h r (us @ take k (v # vs)) = Some b) \<longleftrightarrow>
        b = y \<or> (\<exists>k<length vs. walk h r (us @ v # take k vs) = Some b)" for b
      using Cons.prems(1) by (auto simp: less_Suc_eq_0_disj)
    then show ?thesis unfolding between_def by auto
  qed
  ultimately show ?case by simp
qed

lemma card_between:
  assumes "nodes_wf h r" and "walk h r (us @ vs) = Some x"
  shows "card (between h r us vs) = length vs" and "finite (between h r us vs)" and "between h r us vs \<inter> sub h x = {}"
proof -
  have ex: "\<exists>b. walk h r (us @ take k vs) = Some b" if "k < length vs" for k
  proof -
    have "us @ vs = (us @ take k vs) @ drop k vs" by simp
    then show ?thesis using assms(2) by (metis option.exhaust option.simps(4) walk_append option.distinct(1))
  qed
  define f where "f k = the (walk h r (us @ take k vs))" for k
  have f: "walk h r (us @ take k vs) = Some (f k)" if "k < length vs" for k using ex [OF that] by (auto simp: f_def)
  have im: "between h r us vs = f ` {..<length vs}" unfolding between_def using f by force
  have "inj_on f {..<length vs}"
  proof (rule inj_onI)
    fix k l assume kl: "k \<in> {..<length vs}" "l \<in> {..<length vs}" "f k = f l"
    then have "us @ take k vs = us @ take l vs" using walk_inj [OF assms(1)] f by (metis lessThan_iff)
    then have "length (take k vs) = length (take l vs)" by simp
    then show "k = l" using kl by simp
  qed
  then show "card (between h r us vs) = length vs" "finite (between h r us vs)" by (simp_all add: im card_image)
  have False if "k < length vs" "f k \<in> sub h x" for k
  proof -
    have "prefix (us @ vs) (us @ take k vs)" using sub_iff_prefix [OF assms(1,2) f [OF that(1)]] that(2) by simp
    then show False using that(1) by (auto dest: prefix_length_le)
  qed
  then show "between h r us vs \<inter> sub h x = {}" unfolding im by blast
qed

lemma mem_ok_gone:
  assumes "mem_ok P mem brk"
  shows "mem_ok (\<lambda>b. if b \<in> S then None else P b) (mem |` (- gone cb P S)) brk"
proof -
  have m: "copies_ok P mem UNIV" "\<And>b v c. P b = Some (v, c) \<Longrightarrow> v < brk" "\<And>a. mem a \<noteq> None \<Longrightarrow> a < brk"
    using assms unfolding mem_ok_def by blast+
  have c: "copies_ok P (mem |` (- gone cb P S)) (- S)" by (rule copies_ok_gone [OF m(1)]) auto
  show ?thesis
    unfolding mem_ok_def
  proof (intro conjI allI impI)
    show "copies_ok (\<lambda>b. if b \<in> S then None else P b) (mem |` (- gone cb P S)) UNIV"
      unfolding copies_ok_def
    proof (intro ballI allI impI conjI)
      fix b v assume "(if b \<in> S then None else P b) = Some (v, True)"
      then have b: "b \<in> - S" "P b = Some (v, True)" by (auto split: if_splits)
      show "(mem |` (- gone cb P S)) v \<noteq> None" by (rule copies_okD(1) [OF c b])
      fix d k assume "(if d \<in> S then None else P d) = Some (v, k)"
      then have "d \<in> - S" "P d = Some (v, k)" by (auto split: if_splits)
      then show "d = b" by (rule copies_okD(2) [OF c b])
    qed
    show "v < brk" if "(if b \<in> S then None else P b) = Some (v, k)" for b v k using that m(2) [of b v k] by (simp split: if_splits)
    show "a < brk" if "(mem |` (- gone cb P S)) a \<noteq> None" for a using that m(3) [of a] by (simp add: restrict_map_def split: if_splits)
  qed
qed

lemma trie_node_destroy_ok:
  assumes "trie_wf t" and "walk (tr_nodes t) (tr_root t) (ks @ [i]) = Some x"
  shows "\<exists>t'. trie_node_destroy t x cb = Some t' \<and> trie_wf t' \<and> tr_fails t' = tr_fails t \<and> tr_root t' = tr_root t \<and>
           tr_node_count t' < tr_node_count t \<and>
           (\<forall>xs. vmap (tr_nodes t') (tr_root t) xs = (if prefix (ks @ [i]) xs then None else vmap (tr_nodes t) (tr_root t) xs)) \<and>
           mset (tr_freed t') = mset (tr_freed t) + (if cb then to_free (tr_nodes t) (sub (tr_nodes t) x) else {#}) \<and>
           tr_mem t' = tr_mem t |` (- gone cb (ptrs (tr_nodes t)) (sub (tr_nodes t) x)) \<and>
           tr_count t' = tr_count t - int (card (valued (ptrs (tr_nodes t)) (sub (tr_nodes t) x))) \<and>
           tr_brk t' = tr_brk t \<and> tr_free_value_cb t' = tr_free_value_cb t"
proof -
  let ?h = "tr_nodes t" and ?r = "tr_root t"
  have wf: "nodes_wf ?h ?r" "tr_node_count t = int (card (dom ?h)) - 1" "\<forall>a\<in>dom ?h. a < tr_brk t" "mem_ok (ptrs ?h) (tr_mem t) (tr_brk t)"
    using assms(1) by (simp_all add: trie_wf_def)
  obtain p where p: "walk ?h ?r ks = Some p" "kids ?h p i = Some x" using assms(2) by (auto simp: walk_snoc split: option.splits)
  obtain n where n: "?h x = Some n" "tn_parent n = Some p" "tn_pidx n = i" using nodes_wfD(5) [OF wf(1) p(2)] by blast
  obtain us j vs q t1 where up: "destroy_up t (Some p) i = Some (Some q, j, t1)" "ks @ [i] = us @ j # vs" "walk ?h ?r us = Some q"
      "tr_nodes t1 = ?h |` (- between ?h ?r (us @ [j]) vs)" "tr_node_count t1 = tr_node_count t - int (length vs)" "keeps_rest t t1"
      "tr_freed t1 = tr_freed t" "tr_mem t1 = tr_mem t" "tr_count t1 = tr_count t"
      "\<forall>k<length vs. \<forall>b. walk ?h ?r (us @ j # take k vs) = Some b \<longrightarrow>
         node_val (?h b) = None \<and> node_free (?h b) = {#} \<and> (\<forall>l c. kids ?h b l = Some c \<longrightarrow> l = vs ! k)"
    using destroy_up_ok [OF wf(1) p] by blast
  have wx: "walk ?h ?r ((us @ [j]) @ vs) = Some x" using assms(2) up(2) by simp
  obtain y where y: "kids ?h q j = Some y" "walk ?h ?r (us @ [j]) = Some y"
    using wx up(3) by (auto simp: walk_append walk_Cons simp del: walk.simps(2) split: option.splits)
  note bt = card_between [OF wf(1) wx]
  have S: "sub ?h y = between ?h ?r (us @ [j]) vs \<union> sub ?h x" using sub_between [OF y(2) wx] up(10) by simp
  have qx: "q \<notin> sub ?h y" using sub_iff_prefix [OF wf(1) y(2) up(3)] by (simp add: prefix_def)
  obtain m where m: "?h q = Some m" using walk_dom [OF wf(1) up(3)] by auto
  have q1: "tr_nodes t1 q = Some m" using up(4) m qx S by (simp add: restrict_map_def)
  define t2 where "t2 = t1\<lparr>tr_nodes := (tr_nodes t1)(q \<mapsto> m\<lparr>tn_child := (tn_child m)(j := None), tn_num_children := tn_num_children m - 1\<rparr>)\<rparr>"
  have h2: "tr_nodes t2 b = ?h b" if "b \<in> sub ?h x" for b
    using that qx S bt(3) up(4) by (auto simp: t2_def restrict_map_def)
  have k2: "kids (tr_nodes t2) b = kids ?h b" if "b \<in> sub ?h x" for b using h2 [OF that] by (simp add: kids_def fun_eq_iff)
  have s2: "sub (tr_nodes t2) x = sub ?h x" and w2: "walk (tr_nodes t2) x = walk ?h x"
    using sub_agree [OF k2] walk_agree [OF k2] by auto
  have tx: "tree_below ?h x" by (rule tree_below_wf [OF wf(1) wx])
  have "dom (tr_nodes t2) \<subseteq> dom ?h" using m up(4) by (auto simp: t2_def restrict_map_def split: if_splits)
  then have tb2: "tree_below (tr_nodes t2) x"
    using tx h2 k2 nodes_wfD(1) [OF wf(1)] unfolding tree_below_def s2 w2 by (auto simp: domIff intro: finite_subset)
  have P2: "ptrs (tr_nodes t2) b = ptrs ?h b" if "b \<in> sub ?h x" for b using h2 [OF that] by (simp add: ptrs_def)
  have cpx: "copies_ok (ptrs ?h) (tr_mem t) (sub ?h x)" using wf(4) copies_ok_subset [of _ _ UNIV] unfolding mem_ok_def by blast
  have t2m: "tr_mem t2 = tr_mem t" by (simp add: t2_def up(8))
  have "copies_ok (ptrs (tr_nodes t2)) (tr_mem t2) (sub (tr_nodes t2) x)"
    using cpx copies_ok_cong [of "sub ?h x" "ptrs (tr_nodes t2)" "ptrs ?h"] P2 unfolding s2 t2m by simp
  from destroy_down_ok [OF tb2 _ this, of 0 cb] obtain t' where
    dn: "destroy_down cb t2 x 0 = Some t'" "tr_nodes t' = tr_nodes t2 |` (- sub ?h x)"
      "tr_node_count t' = tr_node_count t2 - int (card (sub ?h x))" "keeps_rest t2 t'"
      "mset (tr_freed t') = mset (tr_freed t2) + (if cb then to_free (tr_nodes t2) (sub ?h x) else {#})"
      "tr_mem t' = tr_mem t2 |` (- gone cb (ptrs (tr_nodes t2)) (sub ?h x))"
      "tr_count t' = tr_count t2 - int (card (valued (ptrs (tr_nodes t2)) (sub ?h x)))"
    unfolding s2 by auto
  have des: "trie_node_destroy t x cb = Some t'"
    using n up(1) q1 dn(1) by (simp add: trie_node_destroy_def set_node_def t2_def)
  have nodes: "tr_nodes t' = pruned ?h q j y"
    unfolding dn(2) t2_def using up(4) m S qx by (auto simp: pruned_def restrict_map_def fun_eq_iff)
  note pr = pruned_ok [OF wf(1) up(3) y(1), folded nodes]
  have fS: "finite (sub ?h y)" "sub ?h y \<subseteq> dom ?h" using tree_below_wf [OF wf(1) y(2)] unfolding tree_below_def by (auto intro: finite_subset)
  have "card (sub ?h y) = length vs + card (sub ?h x)"
    unfolding S using bt fS(1) S by (subst card_Un_disjoint) auto
  moreover have "card (dom (tr_nodes t')) = card (dom ?h) - card (sub ?h y)" unfolding pr(3) using fS by (rule card_Diff_subset)
  moreover have "card (sub ?h y) \<le> card (dom ?h)" using fS(2) nodes_wfD(1) [OF wf(1)] by (rule card_mono [rotated])
  ultimately have cnt: "tr_node_count t' = int (card (dom (tr_nodes t'))) - 1"
    using dn(3) up(5) wf(2) by (simp add: t2_def of_nat_diff)
  have kr: "tr_root t' = ?r" "tr_brk t' = tr_brk t" "tr_fails t' = tr_fails t" "tr_free_value_cb t' = tr_free_value_cb t"
    using up(6) dn(4) by (simp_all add: keeps_rest_def t2_def)
  have mm: "tr_mem t' = tr_mem t |` (- gone cb (ptrs ?h) (sub ?h x))"
    using dn(6) up(8) gone_cong [of "sub ?h x" "ptrs (tr_nodes t2)" "ptrs ?h" cb] P2 by (simp add: t2_def)
  have mc: "tr_count t' = tr_count t - int (card (valued (ptrs ?h) (sub ?h x)))"
    using dn(7) up(9) valued_cong [of "sub ?h x" "ptrs (tr_nodes t2)" "ptrs ?h"] P2 by (simp add: t2_def)
  have P': "ptrs (tr_nodes t') = (\<lambda>b. if b \<in> sub ?h x then None else ptrs ?h b)"
  proof
    fix b
    have e: "val_ptr (?h b) = None" if "b \<in> between ?h ?r (us @ [j]) vs"
      using that up(10) by (auto simp: between_def node_val_def val_ptr_def split: option.splits)
    show "ptrs (tr_nodes t') b = (if b \<in> sub ?h x then None else ptrs ?h b)"
      using e m S qx by (auto simp: nodes pruned_def ptrs_def restrict_map_def val_ptr_def split: option.split)
  qed
  have mok: "mem_ok (ptrs (tr_nodes t')) (tr_mem t') (tr_brk t)" unfolding P' mm by (rule mem_ok_gone [OF wf(4)])
  have twf: "trie_wf t'" unfolding trie_wf_def kr using pr(1,3) cnt wf(3) mok by auto
  have vm: "vmap (tr_nodes t') ?r xs = (if prefix (ks @ [i]) xs then None else vmap ?h ?r xs)" for xs
  proof (cases "walk ?h ?r xs")
    case None
    then show ?thesis by (simp add: vmap_def pr(2))
  next
    case (Some b)
    show ?thesis
    proof (cases "prefix (us @ [j]) xs")
      case True
      then have "b \<in> sub ?h y" using sub_iff_prefix [OF wf(1) y(2) Some] by simp
      moreover have "b \<in> sub ?h x \<longleftrightarrow> prefix (ks @ [i]) xs" using sub_iff_prefix [OF wf(1) assms(2) Some] .
      moreover have "node_val (?h b) = None" if "b \<in> between ?h ?r (us @ [j]) vs" using that up(10) by (auto simp: between_def)
      ultimately show ?thesis using True Some S by (auto simp: vmap_def pr(2))
    next
      case False
      then have "\<not> prefix (ks @ [i]) xs" using up(2) by (metis append.assoc append_Cons append_Nil append_prefixD)
      moreover have "b \<notin> sub ?h y" using sub_iff_prefix [OF wf(1) y(2) Some] False by simp
      moreover have "node_val (tr_nodes t' b) = node_val (?h b)"
        using calculation(2) m by (auto simp: nodes pruned_def restrict_map_def node_val_def)
      ultimately show ?thesis using False Some by (simp add: vmap_def pr(2))
    qed
  qed
  have "to_free (tr_nodes t2) (sub ?h x) = to_free ?h (sub ?h x)" unfolding to_free_def using h2 by simp
  then have "mset (tr_freed t') = mset (tr_freed t) + (if cb then to_free ?h (sub ?h x) else {#})"
    using dn(5) up(7) by (simp add: t2_def)
  moreover have "0 < card (sub ?h x)" using sub_self [of x ?h] fS(1) S by (auto simp: card_gt_0_iff)
  then have "tr_node_count t' < tr_node_count t" using dn(3) up(5) by (simp add: t2_def)
  ultimately show ?thesis using des twf kr vm mm mc by blast
qed

text \<open>A path from the root is the path of a key.\<close>

lemma walk_small: "nodes_wf h r \<Longrightarrow> walk h a ks = Some b \<Longrightarrow> \<forall>i\<in>set ks. i < 128"
proof (induction ks arbitrary: a)
  case (Cons i ks)
  then obtain c where c: "kids h a i = Some c" "walk h c ks = Some b"
    by (auto simp: walk_Cons simp del: walk.simps(2) split: option.splits)
  then show ?case using Cons.IH [OF Cons.prems(1) c(2)] nodes_wfD(5) [OF Cons.prems(1) c(1)] by simp
qed simp

lemma path_of_nat: "\<forall>i\<in>set ks. i < 128 \<Longrightarrow> path (map of_nat ks) = ks"
  by (induction ks) (auto simp: unat_of_nat)

text \<open>No longer key is stored.\<close>

definition no_longer :: "(byte list \<Rightarrow> 'x option) \<Rightarrow> byte list \<Rightarrow> bool" where
  "no_longer m key \<longleftrightarrow> (\<forall>l. strict_prefix key l \<longrightarrow> m l = None)"

lemma only_key_below:
  assumes "trie_wf t" and "walk (tr_nodes t) (tr_root t) (path key) = Some x" and "no_longer (trie_map t) key"
  shows "b \<in> sub (tr_nodes t) x \<Longrightarrow> ptrs (tr_nodes t) b \<noteq> None \<Longrightarrow> b = x"
proof -
  let ?h = "tr_nodes t" and ?r = "tr_root t"
  assume b: "b \<in> sub ?h x" "ptrs ?h b \<noteq> None"
  have wf: "nodes_wf ?h ?r" using assms(1) by (simp add: trie_wf_def)
  obtain ks where ks: "walk ?h x ks = Some b" using b(1) by (auto simp: sub_def)
  let ?l = "key @ map of_nat ks"
  have "path ?l = path key @ ks" using path_of_nat [OF walk_small [OF wf ks]] by simp
  then have "walk ?h ?r (path ?l) = Some b" using assms(2) ks by (simp add: walk_append)
  then have "trie_map t ?l = node_val (?h b)" by (simp add: trie_map_def vmap_def)
  moreover have "node_val (?h b) \<noteq> None" using b(2) by (auto simp: ptrs_def val_ptr_def node_val_def split: option.splits)
  ultimately have "\<not> strict_prefix key ?l" using assms(3) unfolding no_longer_def by metis
  then have "ks = []" by (simp add: strict_prefix_def)
  then show "b = x" using ks by simp
qed

lemma prefix_path: "prefix (path key) (path l) \<longleftrightarrow> prefix key l"
proof
  assume "prefix (path key) (path l)"
  then have "take (length key) (path l) = path key" "length key \<le> length l" by (auto simp: prefix_def dest: map_eq_imp_length_eq) (metis length_append length_map le_add1)
  then have "take (length key) l = key" using path_inj by (simp add: take_map)
  then show "prefix key l" by (metis take_is_prefix)
qed (rule map_mono_prefix)

text \<open>
  Removing a key that no longer stored key extends, with or without a pointer for the value.
\<close>

lemma trie_remove_ok:
  assumes "trie_wf t" and "ascii key" and "key \<noteq> []" and "no_longer (trie_map t) key"
    and "cb = (if want then False else tr_free_value_cb t)"
  shows "\<exists>k res t'. trie_remove t key want = Some (int k, res, t') \<and> trie_wf t' \<and> trie_map t' = (trie_map t)(key := None) \<and>
           tr_node_count t' = tr_node_count t - int k \<and> tr_fails t' = tr_fails t \<and> tr_brk t' = tr_brk t \<and>
           tr_free_value_cb t' = tr_free_value_cb t \<and>
           tr_mem t' = tr_mem t |` (- old_gone cb (trie_map t key)) \<and>
           (trie_map t key = None \<longrightarrow> (\<forall>p n. res \<noteq> Some (Some p, n))) \<and>
           (\<forall>v n c. trie_map t key = Some (v, n, c) \<longrightarrow> res = Some (if want then Some v else None, n) \<and>
              tr_count t' = tr_count t - 1 \<and> 0 < k \<and>
              mset (tr_freed t') = mset (tr_freed t) + (if cb \<and> \<not> c then {#v#} else {#}))"
proof (cases "walk (tr_nodes t) (tr_root t) (path key)")
  case None
  then have "trie_map t key = None" by (simp add: trie_map_def vmap_def)
  moreover have "trie_remove t key want = Some (int 0, None, t)" using trie_find_internal_ok [OF assms(1,2)] None by (simp add: trie_remove_def)
  ultimately show ?thesis using assms(1)
    by (intro exI [of _ 0] exI [of _ None] exI [of _ t]) (simp add: fun_upd_idem old_gone_def restrict_map_def)
next
  case (Some x)
  let ?h = "tr_nodes t"
  have wf: "nodes_wf ?h (tr_root t)" "tr_node_count t = int (card (dom ?h)) - 1" using assms(1) by (simp_all add: trie_wf_def)
  obtain n where n: "?h x = Some n" using walk_dom [OF wf(1) Some] by auto
  obtain ks i where ki: "path key = ks @ [i]" using assms(3) by (cases "path key" rule: rev_cases) auto
  from trie_node_destroy_ok [OF assms(1), of ks i x cb] Some ki obtain t' where
    t': "trie_node_destroy t x cb = Some t'" "trie_wf t'" "tr_fails t' = tr_fails t" "tr_root t' = tr_root t" "tr_node_count t' < tr_node_count t"
      "\<forall>xs. vmap (tr_nodes t') (tr_root t) xs = (if prefix (path key) xs then None else vmap ?h (tr_root t) xs)"
      "mset (tr_freed t') = mset (tr_freed t) + (if cb then to_free ?h (sub ?h x) else {#})"
      "tr_mem t' = tr_mem t |` (- gone cb (ptrs ?h) (sub ?h x))" "tr_count t' = tr_count t - int (card (valued (ptrs ?h) (sub ?h x)))"
      "tr_brk t' = tr_brk t" "tr_free_value_cb t' = tr_free_value_cb t" by auto
  have own: "b = x" if "b \<in> sub ?h x" "ptrs ?h b \<noteq> None" for b by (rule only_key_below [OF assms(1) Some assms(4) that])
  have xs: "x \<in> sub ?h x" by (rule sub_self)
  have fin: "finite (sub ?h x)" using tree_below_wf [OF wf(1) Some] unfolding tree_below_def by (meson finite_subset)
  have g: "gone cb (ptrs ?h) (sub ?h x) = old_gone cb (trie_map t key)"
  proof -
    have "gone cb (ptrs ?h) (sub ?h x) = gone cb (ptrs ?h) {x}" using own xs unfolding gone_def by fast
    then show ?thesis using gone_key [OF Some, of cb] by (simp add: trie_map_def)
  qed
  have tm: "trie_map t key = map_option (\<lambda>v. (v, tn_vsize n, tn_is_copy n)) (tn_value n)" using Some n by (simp add: trie_map_def vmap_def node_val_def)
  have free: "to_free ?h (sub ?h x) = node_free (Some n)"
  proof -
    have "node_free (?h b) = {#}" if b: "b \<in> sub ?h x - {x}" for b
    proof -
      have "ptrs ?h b = None" using own [of b] b by blast
      then show ?thesis by (auto simp: node_free_def ptrs_def val_ptr_def split: option.splits)
    qed
    then have "to_free ?h (sub ?h x) = to_free ?h {x}" unfolding to_free_def using xs fin by (intro sum.mono_neutral_right) auto
    then show ?thesis by (simp add: to_free_def n)
  qed
  have hd: "valued (ptrs ?h) (sub ?h x) = {x}" if "tn_value n \<noteq> None"
    using that own xs n by (auto simp: valued_def ptrs_def val_ptr_def)
  have map: "trie_map t' = (trie_map t)(key := None)"
  proof
    fix l
    show "trie_map t' l = ((trie_map t)(key := None)) l"
      using t'(4,6) prefix_path [of key l] assms(4) unfolding no_longer_def
      by (auto simp: trie_map_def strict_prefix_def)
  qed
  define k where "k = nat (tr_node_count t - tr_node_count t')"
  have k: "tr_node_count t - tr_node_count t' = int k" using t'(5) by (simp add: k_def)
  have "trie_remove t key want = Some (int k, Some (if want then tn_value n else None, tn_vsize n), t')"
    using trie_find_internal_ok [OF assms(1,2)] Some n t'(1) assms(5) k by (cases want) (simp_all add: trie_remove_def)
  then show ?thesis using t' map g tm k free hd
    by (intro exI [of _ k] exI [of _ "Some (if want then tn_value n else None, tn_vsize n)"] exI [of _ t'])
      (auto simp: node_free_def)
qed

section \<open>Properties\<close>

text \<open>
  A client of the trie. It allocates a buffer for every value, gives it to the trie, and frees it after the
  call when the trie was asked to copy; it reads a value through the pointer that \<open>trie_find\<close> gives it, and
  a value that was not copied through the pointer that \<open>trie_remove\<close> stored, after which it frees the buffer.
\<close>

definition client_alloc :: "byte list \<Rightarrow> trie_t \<Rightarrow> nat \<times> trie_t" where
  "client_alloc bs t = (tr_brk t, t\<lparr>tr_brk := Suc (tr_brk t), tr_mem := (tr_mem t)(tr_brk t \<mapsto> bs)\<rparr>)"

definition client_free :: "nat \<Rightarrow> trie_t \<Rightarrow> trie_t option" where
  "client_free p t = (if tr_mem t p = None then None else Some (t\<lparr>tr_mem := (tr_mem t)(p := None)\<rparr>))"

definition client_read :: "trie_t \<Rightarrow> nat \<Rightarrow> nat \<Rightarrow> byte list option" where
  "client_read t p n = do { bs \<leftarrow> tr_mem t p; if length bs < n then None else Some (take n bs) }"

datatype trie_op =
    Put "byte list" "byte list" bool   \<comment> \<open>\<open>trie_insert\<close>: key, value, copy\<close>
  | Upd "byte list" "byte list" bool   \<comment> \<open>\<open>trie_find_and_insert\<close>, which tells the size of the previous value\<close>
  | Find "byte list"                   \<comment> \<open>\<open>trie_find\<close>\<close>
  | Remove "byte list"                 \<comment> \<open>\<open>trie_remove\<close> without a pointer for the value\<close>
  | Take "byte list"                   \<comment> \<open>\<open>trie_remove\<close> with a pointer for the value\<close>

datatype trie_res = Done | Size "nat option" | Bytes "byte list option"

fun trie_exec :: "trie_t \<Rightarrow> trie_op \<Rightarrow> (trie_res \<times> trie_t) option" where
  "trie_exec t (Put k bs c) = do {
     let (p, t) = client_alloc bs t;
     (_, t) \<leftarrow> trie_insert t k (Some p) (length bs) c;
     t \<leftarrow> (if c then client_free p t else Some t);
     Some (Done, t) }"
| "trie_exec t (Upd k bs c) = do {
     let (p, t) = client_alloc bs t;
     (_, prev, t) \<leftarrow> trie_find_and_insert t k (Some p) (length bs) c;
     t \<leftarrow> (if c then client_free p t else Some t);
     Some (Size (case prev of Some (Some _, n) \<Rightarrow> Some n | _ \<Rightarrow> None), t) }"
| "trie_exec t (Find k) = do {
     (v, sz) \<leftarrow> trie_find t k;
     case v of None \<Rightarrow> Some (Bytes None, t)
     | Some p \<Rightarrow> do { n \<leftarrow> sz; bs \<leftarrow> client_read t p n; Some (Bytes (Some bs), t) } }"
| "trie_exec t (Remove k) = do { (_, _, t) \<leftarrow> trie_remove t k False; Some (Done, t) }"
| "trie_exec t (Take k) = do {
     (_, res, t) \<leftarrow> trie_remove t k True;
     case res of
       Some (Some p, n) \<Rightarrow> do { bs \<leftarrow> client_read t p n; t \<leftarrow> client_free p t; Some (Bytes (Some bs), t) }
     | _ \<Rightarrow> Some (Bytes None, t) }"

text \<open>
  The same on a map from keys to the bytes of the value and whether they were copied. Keys are strings of
  7-bit characters; a key is removed only when no stored key extends it, and the value of a removed key is
  asked for only when it was not copied.
\<close>

type_synonym store = "byte list \<rightharpoonup> byte list \<times> bool"

fun trie_spec :: "store \<Rightarrow> trie_op \<Rightarrow> trie_res \<times> store" where
  "trie_spec m (Put k bs c) = (Done, m(k \<mapsto> (bs, c)))"
| "trie_spec m (Upd k bs c) = (Size (map_option (length \<circ> fst) (m k)), m(k \<mapsto> (bs, c)))"
| "trie_spec m (Find k) = (Bytes (map_option fst (m k)), m)"
| "trie_spec m (Remove k) = (Done, m(k := None))"
| "trie_spec m (Take k) = (Bytes (map_option fst (m k)), m(k := None))"

fun trie_contract :: "store \<Rightarrow> trie_op \<Rightarrow> bool" where
  "trie_contract m (Put k bs c) = ascii k"
| "trie_contract m (Upd k bs c) = ascii k"
| "trie_contract m (Find k) = ascii k"
| "trie_contract m (Remove k) = (ascii k \<and> k \<noteq> [] \<and> no_longer m k)"
| "trie_contract m (Take k) = (ascii k \<and> k \<noteq> [] \<and> no_longer m k \<and> (\<forall>bs. m k \<noteq> Some (bs, True)))"

fun trie_run :: "trie_t \<Rightarrow> trie_op list \<Rightarrow> (trie_res list \<times> trie_t) option" where
  "trie_run t [] = Some ([], t)"
| "trie_run t (op # ops) = do { (v, t) \<leftarrow> trie_exec t op; (vs, t) \<leftarrow> trie_run t ops; Some (v # vs, t) }"

inductive trie_runs :: "store \<Rightarrow> trie_op list \<Rightarrow> trie_res list \<Rightarrow> store \<Rightarrow> bool" where
  stop: "trie_runs m [] [] m"
| step: "trie_contract m op \<Longrightarrow> trie_spec m op = (v, m1) \<Longrightarrow> trie_runs m1 ops vs m2 \<Longrightarrow> trie_runs m (op # ops) (v # vs) m2"

inductive_simps trie_runs_simps: "trie_runs m [] vs m'" "trie_runs m (op # ops) vs m'"

text \<open>The trie holds the values of a store; every value has a block of its own.\<close>

definition trie_rep :: "trie_t \<Rightarrow> store \<Rightarrow> bool" where
  "trie_rep t m \<longleftrightarrow> trie_wf t \<and> (\<forall>i. \<not> tr_fails t i) \<and> (\<forall>k. trie_map t k = None \<longleftrightarrow> m k = None) \<and>
     (\<forall>k v n c. trie_map t k = Some (v, n, c) \<longrightarrow> (\<exists>bs. m k = Some (bs, c) \<and> n = length bs \<and> tr_mem t v = Some bs)) \<and>
     (\<forall>k l v n c n' c'. trie_map t k = Some (v, n, c) \<longrightarrow> trie_map t l = Some (v, n', c') \<longrightarrow> k = l)"

lemma trie_repD:
  assumes "trie_rep t m"
  shows "trie_wf t" "\<not> tr_fails t i" "trie_map t k = None \<longleftrightarrow> m k = None"
    "trie_map t k = Some (v, n, c) \<Longrightarrow> \<exists>bs. m k = Some (bs, c) \<and> n = length bs \<and> tr_mem t v = Some bs"
    "trie_map t k = Some (v, n, c) \<Longrightarrow> trie_map t l = Some (v, n', c') \<Longrightarrow> k = l"
  using assms unfolding trie_rep_def by blast+

lemma trie_map_brk: "trie_wf t \<Longrightarrow> trie_map t k = Some (v, n, c) \<Longrightarrow> v < tr_brk t"
proof -
  assume t: "trie_wf t" "trie_map t k = Some (v, n, c)"
  then obtain a where "walk (tr_nodes t) (tr_root t) (path k) = Some a" "node_val (tr_nodes t a) = Some (v, n, c)"
    by (auto simp: trie_map_def vmap_def split: option.splits)
  then have "ptrs (tr_nodes t) a = Some (v, c)" by (auto simp: ptrs_def val_ptr_def node_val_def split: option.splits)
  then show ?thesis using t(1) unfolding trie_wf_def mem_ok_def by blast
qed

text \<open>Every operation keeps a part of the map and adds at most one pointer of its own.\<close>

lemma trie_rep_store:
  assumes "trie_rep t m" and "trie_wf t'" and "tr_fails t' = tr_fails t" and "trie_map t' = (trie_map t)(k \<mapsto> (w, length bs, c))"
    and "tr_brk t \<le> w" and "tr_mem t' w = Some bs"
    and "\<And>a. a < tr_brk t \<Longrightarrow> a \<notin> old_gone cb (trie_map t k) \<Longrightarrow> tr_mem t' a = tr_mem t a"
  shows "trie_rep t' (m(k \<mapsto> (bs, c)))"
  unfolding trie_rep_def
proof (intro conjI allI impI)
  have old: "v < tr_brk t" if "trie_map t l = Some (v, n, d)" for l v n d by (rule trie_map_brk [OF trie_repD(1) [OF assms(1)] that])
  show "trie_wf t'" by (rule assms(2))
  show "\<not> tr_fails t' i" for i using trie_repD(2) [OF assms(1)] by (simp add: assms(3))
  show "trie_map t' l = None \<longleftrightarrow> (m(k \<mapsto> (bs, c))) l = None" for l using trie_repD(3) [OF assms(1)] by (simp add: assms(4))
  show "\<exists>ys. (m(k \<mapsto> (bs, c))) l = Some (ys, d) \<and> n = length ys \<and> tr_mem t' v = Some ys" if l: "trie_map t' l = Some (v, n, d)" for l v n d
  proof (cases "l = k")
    case True
    then show ?thesis using l assms(4,6) by simp
  next
    case False
    then have l': "trie_map t l = Some (v, n, d)" using l assms(4) by simp
    have "v \<notin> old_gone cb (trie_map t k)"
      using trie_repD(5) [OF assms(1) l'] False by (auto simp: old_gone_def split: option.splits if_splits)
    then show ?thesis using trie_repD(4) [OF assms(1) l'] assms(7) [OF old [OF l']] False by simp
  qed
  show "l1 = l2" if "trie_map t' l1 = Some (v, n, d)" "trie_map t' l2 = Some (v, n', d')" for l1 l2 v n d n' d'
    using that trie_repD(5) [OF assms(1), of l1 v n d l2 n' d'] old [of l1 v n d] old [of l2 v n' d'] assms(4,5)
    by (auto split: if_splits)
qed

lemma trie_rep_removed:
  assumes "trie_rep t m" and "trie_wf t'" and "tr_fails t' = tr_fails t" and "trie_map t' = (trie_map t)(k := None)"
    and "\<And>a. a < tr_brk t \<Longrightarrow> (\<And>n c. trie_map t k \<noteq> Some (a, n, c)) \<Longrightarrow> tr_mem t' a = tr_mem t a"
  shows "trie_rep t' (m(k := None))"
  unfolding trie_rep_def
proof (intro conjI allI impI)
  show "trie_wf t'" by (rule assms(2))
  show "\<not> tr_fails t' i" for i using trie_repD(2) [OF assms(1)] by (simp add: assms(3))
  show "trie_map t' l = None \<longleftrightarrow> (m(k := None)) l = None" for l using trie_repD(3) [OF assms(1)] by (simp add: assms(4))
  show "\<exists>ys. (m(k := None)) l = Some (ys, d) \<and> n = length ys \<and> tr_mem t' v = Some ys" if l: "trie_map t' l = Some (v, n, d)" for l v n d
  proof -
    have l': "l \<noteq> k" "trie_map t l = Some (v, n, d)" using l assms(4) by (auto split: if_splits)
    have "trie_map t k \<noteq> Some (v, n', d')" for n' d' using trie_repD(5) [OF assms(1) l'(2), of k] l'(1) by auto
    then show ?thesis using trie_repD(4) [OF assms(1) l'(2)] l'(1) assms(5) [OF trie_map_brk [OF trie_repD(1) [OF assms(1)] l'(2)]] by simp
  qed
  show "l1 = l2" if "trie_map t' l1 = Some (v, n, d)" "trie_map t' l2 = Some (v, n', d')" for l1 l2 v n d n' d'
    using that trie_repD(5) [OF assms(1), of l1 v n d l2 n' d'] assms(4) by (auto split: if_splits)
qed

lemma client_alloc_ok:
  assumes "trie_wf t" and "client_alloc bs t = (p, t')"
  shows "trie_wf t'" "trie_map t' = trie_map t" "value_ok t' p (length bs) c" "tr_fails t' = tr_fails t" "p = tr_brk t" "tr_brk t' = Suc p"
    "tr_mem t' = (tr_mem t)(p \<mapsto> bs)" "tr_free_value_cb t' = tr_free_value_cb t"
proof -
  have e: "p = tr_brk t" "tr_nodes t' = tr_nodes t" "tr_root t' = tr_root t" "tr_node_count t' = tr_node_count t" "tr_fails t' = tr_fails t"
    "tr_brk t' = Suc p" "tr_mem t' = (tr_mem t)(p \<mapsto> bs)" "tr_free_value_cb t' = tr_free_value_cb t"
    using assms(2) by (auto simp: client_alloc_def)
  have m: "copies_ok (ptrs (tr_nodes t)) (tr_mem t) UNIV" "\<And>b v c. ptrs (tr_nodes t) b = Some (v, c) \<Longrightarrow> v < p" "\<And>a. tr_mem t a \<noteq> None \<Longrightarrow> a < p"
    using assms(1) unfolding trie_wf_def mem_ok_def e(1) by blast+
  have "copies_ok (ptrs (tr_nodes t)) (tr_mem t') UNIV" using m(1) unfolding copies_ok_def e(7) by auto
  moreover have "a < Suc p" if "tr_mem t' a \<noteq> None" for a using that m(3) [of a] by (cases "a = p") (simp_all add: e(7))
  ultimately have "mem_ok (ptrs (tr_nodes t')) (tr_mem t') (tr_brk t')" unfolding mem_ok_def e(2,6) using less_SucI [OF m(2)] by blast
  moreover have "\<forall>a\<in>dom (tr_nodes t). a < Suc p" using assms(1) e(1) by (simp add: trie_wf_def less_SucI)
  ultimately show "trie_wf t'" using assms(1) e by (simp add: trie_wf_def)
  show "trie_map t' = trie_map t" by (simp add: trie_map_def fun_eq_iff e)
  show "value_ok t' p (length bs) c" using m(2) by (auto simp: value_ok_def e)
qed (use assms(2) in \<open>auto simp: client_alloc_def\<close>)

lemma client_free_ok:
  assumes "trie_wf t" and "tr_mem t p \<noteq> None" and "\<forall>b. ptrs (tr_nodes t) b \<noteq> Some (p, True)"
  shows "\<exists>t'. client_free p t = Some t' \<and> trie_wf t' \<and> trie_map t' = trie_map t \<and> tr_fails t' = tr_fails t \<and> tr_mem t' = (tr_mem t)(p := None) \<and>
           tr_free_value_cb t' = tr_free_value_cb t"
proof -
  let ?t = "t\<lparr>tr_mem := (tr_mem t)(p := None)\<rparr>"
  have m: "copies_ok (ptrs (tr_nodes t)) (tr_mem t) UNIV" "\<forall>b v c. ptrs (tr_nodes t) b = Some (v, c) \<longrightarrow> v < tr_brk t" "\<forall>a. tr_mem t a \<noteq> None \<longrightarrow> a < tr_brk t"
    using assms(1) unfolding trie_wf_def mem_ok_def by blast+
  have "copies_ok (ptrs (tr_nodes t)) ((tr_mem t)(p := None)) UNIV"
    unfolding copies_ok_def
  proof (intro ballI allI impI conjI)
    fix b v assume b: "ptrs (tr_nodes t) b = Some (v, True)"
    then show "((tr_mem t)(p := None)) v \<noteq> None" using copies_okD(1) [OF m(1) UNIV_I b] assms(3) by auto
    fix d c assume "ptrs (tr_nodes t) d = Some (v, c)"
    then show "d = b" by (rule copies_okD(2) [OF m(1) UNIV_I b UNIV_I])
  qed
  then have "mem_ok (ptrs (tr_nodes t)) ((tr_mem t)(p := None)) (tr_brk t)" unfolding mem_ok_def using m(2,3) by simp
  then have "trie_wf ?t" using assms(1) by (simp add: trie_wf_def)
  moreover have "trie_map ?t = trie_map t" by (simp add: trie_map_def fun_eq_iff)
  ultimately show ?thesis using assms(2) by (simp add: client_free_def)
qed

lemma ptrs_key:
  assumes "trie_wf t" and "ptrs (tr_nodes t) b = Some (v, c)"
  shows "\<exists>k n. trie_map t k = Some (v, n, c)"
proof -
  have wf: "nodes_wf (tr_nodes t) (tr_root t)" using assms(1) by (simp add: trie_wf_def)
  have "b \<in> dom (tr_nodes t)" using assms(2) by (auto simp: ptrs_def val_ptr_def split: option.splits)
  then obtain ks where ks: "walk (tr_nodes t) (tr_root t) ks = Some b" using nodes_wfD(4) [OF wf] by blast
  have "trie_map t (map of_nat ks) = node_val (tr_nodes t b)"
    using ks unfolding trie_map_def path_of_nat [OF walk_small [OF wf ks]] by (simp add: vmap_def)
  moreover obtain n where "node_val (tr_nodes t b) = Some (v, n, c)"
    using assms(2) by (auto simp: ptrs_def val_ptr_def node_val_def split: option.splits)
  ultimately show ?thesis by auto
qed

text \<open>Storing a value, for \<open>trie_insert\<close> and \<open>trie_find_and_insert\<close>.\<close>

lemma client_put:
  assumes "trie_rep t m" and "client_alloc bs t = (p, t0)" and "put_done t0 k p (length bs) c t1"
  shows "\<exists>t'. (if c then client_free p t1 else Some t1) = Some t' \<and> trie_rep t' (m(k \<mapsto> (bs, c))) \<and>
           tr_free_value_cb t' = tr_free_value_cb t"
proof -
  note al = client_alloc_ok [OF trie_repD(1) [OF assms(1)] assms(2)]
  have old: "v < p" if "trie_map t l = Some (v, n, d)" for l v n d
    using trie_map_brk [OF trie_repD(1) [OF assms(1)] that] al(5) by simp
  from assms(3) al obtain new where
    n: "Suc p \<le> new" "trie_map t1 = (trie_map t)(k \<mapsto> (if c then new else p, length bs, c))" "tr_mem t1 = put_mem t0 k new p (length bs) c"
      "trie_wf t1" "tr_fails t1 = tr_fails t" "tr_free_value_cb t1 = tr_free_value_cb t" unfolding put_done_def by auto
  let ?cb = "tr_free_value_cb t"
  have og: "p \<notin> old_gone ?cb (trie_map t k)" using old [of k p] by (auto simp: old_gone_def split: option.splits if_splits)
  have mem: "tr_mem t1 = (let mem = ((tr_mem t)(p \<mapsto> bs)) |` (- old_gone ?cb (trie_map t k)) in if c then mem(new \<mapsto> bs) else mem)"
    using n(3) al(2,7,8) by (simp only: put_mem_def fun_upd_same option.sel take_all order_refl)
  have keep: "tr_mem t1 a = tr_mem t a" if "a < tr_brk t" "a \<notin> old_gone ?cb (trie_map t k)" for a
    using that n(1) al(5) unfolding mem by (auto simp: restrict_map_def Let_def)
  show ?thesis
  proof (cases c)
    case False
    have "trie_rep t1 (m(k \<mapsto> (bs, c)))"
      by (rule trie_rep_store [OF assms(1) n(4,5), of k p bs c ?cb]) (use n(2) False al(5) mem og keep in \<open>auto simp: restrict_map_def\<close>)
    then show ?thesis using False n(6) by simp
  next
    case True
    have "tr_mem t1 p \<noteq> None" using mem True og n(1) by (auto simp: restrict_map_def Let_def)
    moreover have "ptrs (tr_nodes t1) b \<noteq> Some (p, True)" for b
    proof
      assume "ptrs (tr_nodes t1) b = Some (p, True)"
      from ptrs_key [OF n(4) this] obtain l z where "trie_map t1 l = Some (p, z, True)" by blast
      then show False using n(1,2) True old [of l p z True] by (auto split: if_splits)
    qed
    ultimately obtain t' where t': "client_free p t1 = Some t'" "trie_wf t'" "trie_map t' = trie_map t1" "tr_fails t' = tr_fails t1"
      "tr_mem t' = (tr_mem t1)(p := None)" "tr_free_value_cb t' = tr_free_value_cb t1" using client_free_ok [OF n(4), of p] by blast
    have "trie_rep t' (m(k \<mapsto> (bs, c)))"
    proof (rule trie_rep_store [OF assms(1) t'(2), of k new bs c ?cb])
      show "tr_fails t' = tr_fails t" "trie_map t' = (trie_map t)(k \<mapsto> (new, length bs, c))" using t'(3,4) n(2,5) True by simp_all
      show "tr_brk t \<le> new" "tr_mem t' new = Some bs" using n(1) al(5) mem True t'(5) by (auto simp: Let_def)
      show "tr_mem t' a = tr_mem t a" if "a < tr_brk t" "a \<notin> old_gone ?cb (trie_map t k)" for a
        using keep [OF that] that(1) al(5) t'(5) by simp
    qed
    then show ?thesis using t'(1,6) n(6) True by simp
  qed
qed

lemma trie_exec_ok:
  assumes "trie_rep t m" and "trie_contract m op" and "trie_spec m op = (v, m')"
  shows "\<exists>t'. trie_exec t op = Some (v, t') \<and> trie_rep t' m' \<and> tr_free_value_cb t' = tr_free_value_cb t"
proof (cases op)
  case (Put k bs c)
  obtain p t0 where al: "client_alloc bs t = (p, t0)" by fastforce
  note ok = client_alloc_ok [OF trie_repD(1) [OF assms(1)] al]
  have "\<forall>i. \<not> tr_fails t0 i" using trie_repD(2) [OF assms(1)] ok(4) by simp
  from trie_insert_ok [OF ok(1) _ this ok(3), of k c] assms(2) Put obtain n t1 where
    i: "trie_insert t0 k (Some p) (length bs) c = Some (int n, t1)" "put_done t0 k p (length bs) c t1" by auto
  from client_put [OF assms(1) al i(2)] show ?thesis using Put al i(1) assms(3) by auto
next
  case (Upd k bs c)
  obtain p t0 where al: "client_alloc bs t = (p, t0)" by fastforce
  note ok = client_alloc_ok [OF trie_repD(1) [OF assms(1)] al]
  have "\<forall>i. \<not> tr_fails t0 i" using trie_repD(2) [OF assms(1)] ok(4) by simp
  from trie_find_and_insert_ok [OF ok(1) _ this ok(3), of k c] assms(2) Upd obtain r prev t1 where
    i: "trie_find_and_insert t0 k (Some p) (length bs) c = Some (r, prev, t1)" "put_done t0 k p (length bs) c t1"
      "case trie_map t k of None \<Rightarrow> prev = None \<or> (\<exists>n. prev = Some (None, n)) | Some (w, n, c) \<Rightarrow> prev = Some (Some w, n)"
    by (auto simp: ok(2))
  have "(case prev of Some (Some _, n) \<Rightarrow> Some n | _ \<Rightarrow> None) = map_option (length \<circ> fst) (m k)"
  proof (cases "trie_map t k")
    case None
    then show ?thesis using i(3) trie_repD(3) [OF assms(1), of k] by auto
  next
    case (Some x)
    obtain w n d where "x = (w, n, d)" by (cases x) auto
    then show ?thesis using i(3) Some trie_repD(4) [OF assms(1), of k w n d] by auto
  qed
  with client_put [OF assms(1) al i(2)] show ?thesis using Upd al i(1) assms(3) by auto
next
  case (Find k)
  then obtain sz where f: "trie_find t k = Some (map_option fst (trie_map t k), sz)" "\<forall>v n c. trie_map t k = Some (v, n, c) \<longrightarrow> sz = Some n"
    using trie_find_ok [OF trie_repD(1) [OF assms(1)], of k] assms(2) by auto
  show ?thesis
  proof (cases "trie_map t k")
    case None
    then show ?thesis using f Find assms(1,3) trie_repD(3) [OF assms(1), of k] by simp
  next
    case (Some x)
    obtain w n d where "x = (w, n, d)" by (cases x) auto
    with Some trie_repD(4) [OF assms(1), of k w n d] f show ?thesis using Find assms(1,3) by (auto simp: client_read_def)
  qed
next
  case (Remove k)
  have nl: "no_longer (trie_map t) k" using assms(2) Remove trie_repD(3) [OF assms(1)] by (auto simp: no_longer_def)
  have k: "ascii k" "k \<noteq> []" using assms(2) Remove by auto
  from trie_remove_ok [OF trie_repD(1) [OF assms(1)] k nl, of "tr_free_value_cb t" False] obtain j res t' where
    r: "trie_remove t k False = Some (int j, res, t')" "trie_wf t'" "trie_map t' = (trie_map t)(k := None)" "tr_fails t' = tr_fails t"
      "tr_mem t' = tr_mem t |` (- old_gone (tr_free_value_cb t) (trie_map t k))" "tr_free_value_cb t' = tr_free_value_cb t" by auto
  have "trie_rep t' (m(k := None))"
  proof (rule trie_rep_removed [OF assms(1) r(2,4,3)])
    fix a assume "\<And>n c. trie_map t k \<noteq> Some (a, n, c)"
    then show "tr_mem t' a = tr_mem t a" unfolding r(5) by (auto simp: old_gone_def restrict_map_def split: option.splits)
  qed
  then show ?thesis using r(1,6) Remove assms(3) by auto
next
  case (Take k)
  have nl: "no_longer (trie_map t) k" using assms(2) Take trie_repD(3) [OF assms(1)] by (auto simp: no_longer_def)
  have k: "ascii k" "k \<noteq> []" "\<forall>bs. m k \<noteq> Some (bs, True)" using assms(2) Take by auto
  from trie_remove_ok [OF trie_repD(1) [OF assms(1)] k(1,2) nl, of False True] obtain j res t1 where
    r: "trie_remove t k True = Some (int j, res, t1)" "trie_wf t1" "trie_map t1 = (trie_map t)(k := None)" "tr_fails t1 = tr_fails t"
      "tr_mem t1 = tr_mem t |` (- old_gone False (trie_map t k))"
      "\<forall>v n c. trie_map t k = Some (v, n, c) \<longrightarrow> res = Some (Some v, n)"
      "trie_map t k = None \<longrightarrow> (\<forall>p n. res \<noteq> Some (Some p, n))" "tr_free_value_cb t1 = tr_free_value_cb t" by auto
  have mem: "tr_mem t1 = tr_mem t"
    unfolding r(5) using trie_repD(4) [OF assms(1), of k] k(3) by (auto simp: old_gone_def restrict_map_def split: option.splits)
  show ?thesis
  proof (cases "trie_map t k")
    case None
    then have "trie_rep t1 (m(k := None))" by (intro trie_rep_removed [OF assms(1) r(2,4,3)]) (simp add: mem)
    then show ?thesis using r(1,7,8) None Take assms(3) trie_repD(3) [OF assms(1), of k] by (auto split: option.split)
  next
    case (Some x)
    obtain p n c where x: "trie_map t k = Some (p, n, c)" using Some by (cases x) auto
    from trie_repD(4) [OF assms(1) x] obtain bs where bs: "m k = Some (bs, c)" "n = length bs" "tr_mem t p = Some bs" by blast
    have "ptrs (tr_nodes t1) b \<noteq> Some (p, True)" for b
    proof
      assume "ptrs (tr_nodes t1) b = Some (p, True)"
      from ptrs_key [OF r(2) this] obtain l z where "trie_map t1 l = Some (p, z, True)" by blast
      then show False using r(3) trie_repD(5) [OF assms(1) x, of l z True] by (auto split: if_splits)
    qed
    with client_free_ok [OF r(2), of p] bs(3) mem obtain t' where
      f: "client_free p t1 = Some t'" "trie_wf t'" "trie_map t' = trie_map t1" "tr_fails t' = tr_fails t1" "tr_mem t' = (tr_mem t)(p := None)"
      "tr_free_value_cb t' = tr_free_value_cb t1" by auto
    have "trie_rep t' (m(k := None))"
    proof (rule trie_rep_removed [OF assms(1) f(2)])
      show "tr_fails t' = tr_fails t" "trie_map t' = (trie_map t)(k := None)" using f(3,4) r(3,4) by simp_all
      fix a assume "\<And>n c. trie_map t k \<noteq> Some (a, n, c)"
      then show "tr_mem t' a = tr_mem t a" using x f(5) by auto
    qed
    then show ?thesis using r(1,6,8) x bs mem f(1,6) Take assms(3) by (auto simp: client_read_def)
  qed
qed

text \<open>
  \<open>C4\<close>: the trie implements a map from strings of 7-bit characters to byte strings. Any sequence of
  insertions (with and without a copy), updates, lookups and removals answers as a plain map does, with the
  bytes read through the pointers that the trie hands out: no read goes to a block that was released, no
  block is freed twice, and a copy outlives the buffer it was made of. A key is removed only when no stored
  key extends it, the value of a removed key is asked for only when it is not a copy, and of the previous value of
  an update only its size is used.
\<close>

theorem trie_refinement:
  assumes "trie_runs m ops vs m'" and "trie_rep t m"
  shows "\<exists>t'. trie_run t ops = Some (vs, t') \<and> trie_rep t' m'"
  using assms
proof (induction arbitrary: t rule: trie_runs.induct)
  case (step m op v m1 ops vs m2)
  from trie_exec_ok [OF step.prems step.hyps(1,2)] obtain t1 where "trie_exec t op = Some (v, t1)" "trie_rep t1 m1" by blast
  with step.IH [of t1] show ?case by auto
qed auto

text \<open>
  \<open>C34\<close>: \<open>trie_remove\<close> of a stored key that no longer stored key extends removes this key and no other. It
  returns the number of nodes that are gone, at least one, and the size of the value; \<open>count\<close> goes down by one.
  A copy is freed. Another value is handed to the caller who passed a pointer for it, untouched, and given to
  the release callback once otherwise. (A copy is not asked for.)
\<close>

theorem trie_remove_key:
  assumes "trie_wf t" and "ascii key" and "key \<noteq> []" and "trie_map t key = Some (v, n, copied)" and "no_longer (trie_map t) key"
    and "want \<longrightarrow> \<not> copied"
  shows "\<exists>k t'. trie_remove t key want = Some (int k, Some (if want then Some v else None, n), t') \<and> 0 < k \<and> trie_wf t' \<and>
           trie_map t' = (trie_map t)(key := None) \<and> tr_node_count t' = tr_node_count t - int k \<and> tr_count t' = tr_count t - 1 \<and>
           tr_mem t' = (if copied \<or> \<not> want \<and> tr_free_value_cb t then (tr_mem t)(v := None) else tr_mem t) \<and>
           mset (tr_freed t') = mset (tr_freed t) + (if \<not> copied \<and> \<not> want \<and> tr_free_value_cb t then {#v#} else {#})"
proof -
  let ?cb = "if want then False else tr_free_value_cb t"
  from trie_remove_ok [OF assms(1-3,5) refl, of want] obtain k res t' where
    r: "trie_remove t key want = Some (int k, res, t')" "trie_wf t'" "trie_map t' = (trie_map t)(key := None)"
      "tr_node_count t' = tr_node_count t - int k" "tr_mem t' = tr_mem t |` (- old_gone ?cb (trie_map t key))"
      "\<forall>v n c. trie_map t key = Some (v, n, c) \<longrightarrow> res = Some (if want then Some v else None, n) \<and> tr_count t' = tr_count t - 1 \<and> 0 < k \<and>
         mset (tr_freed t') = mset (tr_freed t) + (if ?cb \<and> \<not> c then {#v#} else {#})" by blast
  have "tr_mem t' = (if copied \<or> \<not> want \<and> tr_free_value_cb t then (tr_mem t)(v := None) else tr_mem t)"
    unfolding r(5) using assms(4) by (auto simp: old_gone_def restrict_map_def fun_eq_iff)
  then show ?thesis using r(1-4) r(6) assms(4) by (intro exI [of _ k] exI [of _ t']) auto
qed

text \<open>
  \<open>C35\<close>: \<open>trie_destroy\<close> releases every node, gives each value that is not a copy to the callback once, and frees
  every copy: no block that a node owns is left.
\<close>

theorem trie_destroy_releases:
  assumes "trie_wf t" and "tr_free_value_cb t"
  shows "\<exists>t'. trie_destroy t = Some t' \<and> tr_nodes t' = Map.empty \<and> tr_node_count t' = - 1 \<and>
           mset (tr_freed t') = mset (tr_freed t) + to_free (tr_nodes t) (dom (tr_nodes t)) \<and>
           tr_mem t' = tr_mem t |` {a. \<forall>b c. ptrs (tr_nodes t) b \<noteq> Some (a, c)}"
proof -
  let ?h = "tr_nodes t" and ?r = "tr_root t"
  have wf: "nodes_wf ?h ?r" "tr_node_count t = int (card (dom ?h)) - 1" "copies_ok (ptrs ?h) (tr_mem t) UNIV"
    using assms(1) by (simp_all add: trie_wf_def mem_ok_def)
  have "walk ?h ?r [] = Some ?r" by simp
  from destroy_down_ok [OF tree_below_wf [OF wf(1) this] _ copies_ok_subset [OF wf(3)], of 0 True] obtain t' where
    t': "destroy_down True t ?r 0 = Some t'" "tr_nodes t' = ?h |` (- sub ?h ?r)" "tr_node_count t' = tr_node_count t - int (card (sub ?h ?r))"
      "mset (tr_freed t') = mset (tr_freed t) + to_free ?h (sub ?h ?r)" "tr_mem t' = tr_mem t |` (- gone True (ptrs ?h) (sub ?h ?r))" by auto
  have s: "sub ?h ?r = dom ?h" unfolding sub_def using nodes_wfD(4) [OF wf(1)] walk_dom [OF wf(1)] by blast
  have g: "- gone True (ptrs ?h) (dom ?h) = {a. \<forall>b c. ptrs ?h b \<noteq> Some (a, c)}"
    by (auto simp: gone_def ptrs_def val_ptr_def split: option.splits)
  obtain n where n: "?h ?r = Some n" "tn_parent n = None" using nodes_wfD(2,3) [OF wf(1)] by blast
  have "destroy_up t None (tn_pidx n) = Some (None, tn_pidx n, t)" by (subst destroy_up.simps) simp
  then have "trie_destroy t = Some t'" using n t'(1) assms(2) by (simp add: trie_destroy_def trie_node_destroy_def)
  moreover have "?h |` (- dom ?h) = Map.empty" by (auto simp: restrict_map_def fun_eq_iff domIff)
  ultimately show ?thesis using t' s wf(2) g by simp
qed

section \<open>Witnesses\<close>

definition trie_ex0 :: trie_t where
  "trie_ex0 = the (trie_create (\<lambda>_. False) True)"

lemma trie_ex0_ok: "trie_rep trie_ex0 Map.empty" "tr_free_value_cb trie_ex0"
proof -
  have k: "kids [Suc 0 \<mapsto> empty_node] p i = None" for p i by (simp add: kids_def empty_node_def)
  have w: "walk [Suc 0 \<mapsto> empty_node] (Suc 0) ks = (if ks = [] then Some (Suc 0) else None)" for ks
    by (cases ks) (simp_all add: walk_Cons k del: walk.simps(2))
  have e: "tn_parent empty_node = None" "tn_num_children empty_node = 0" "tn_child empty_node = Map.empty" "tn_value empty_node = None"
    by (simp_all add: empty_node_def)
  have n: "tr_nodes trie_ex0 = [Suc 0 \<mapsto> empty_node]" "tr_root trie_ex0 = Suc 0" "tr_node_count trie_ex0 = 0" "tr_brk trie_ex0 = 2"
    "tr_mem trie_ex0 = Map.empty" "tr_fails trie_ex0 = (\<lambda>_. False)"
    by (simp_all add: trie_ex0_def trie_create_def)
  have p: "ptrs [Suc 0 \<mapsto> empty_node] b = None" for b by (simp add: ptrs_def val_ptr_def e)
  have "trie_wf trie_ex0" unfolding trie_wf_def nodes_wf_def mem_ok_def copies_ok_def n by (auto simp: k w e p)
  moreover have "trie_map trie_ex0 l = None" for l by (simp add: trie_map_def vmap_def n w node_val_def e)
  ultimately show "trie_rep trie_ex0 Map.empty" by (simp add: trie_rep_def n)
  show "tr_free_value_cb trie_ex0" by (simp add: trie_ex0_def trie_create_def)
qed

text \<open>A trie with a copy for the key \<open>[97]\<close> and the client's buffer for \<open>[97, 98]\<close>.\<close>

definition trie_ex :: trie_t where
  "trie_ex = snd (the (trie_run trie_ex0 [Put [97] [5] True, Put [97, 98] [6, 7] False]))"

lemma trie_ex_ok: "trie_rep trie_ex [[97] \<mapsto> ([5], True), [97, 98] \<mapsto> ([6, 7], False)]" "tr_free_value_cb trie_ex"
proof -
  from trie_exec_ok [OF trie_ex0_ok(1), of "Put [97] [5] True"] trie_ex0_ok(2) obtain t1 where
    t1: "trie_exec trie_ex0 (Put [97] [5] True) = Some (Done, t1)" "trie_rep t1 [[97] \<mapsto> ([5], True)]" "tr_free_value_cb t1" by auto
  from trie_exec_ok [OF t1(2), of "Put [97, 98] [6, 7] False"] t1(3) obtain t2 where
    t2: "trie_exec t1 (Put [97, 98] [6, 7] False) = Some (Done, t2)" "trie_rep t2 [[97] \<mapsto> ([5], True), [97, 98] \<mapsto> ([6, 7], False)]" "tr_free_value_cb t2"
    by auto
  have "trie_ex = t2" unfolding trie_ex_def trie_run.simps t1(1) using t2(1) by simp
  then show "trie_rep trie_ex [[97] \<mapsto> ([5], True), [97, 98] \<mapsto> ([6, 7], False)]" "tr_free_value_cb trie_ex" using t2 by simp_all
qed

theorem trie_refinement_witness:
  "\<exists>t'. trie_run trie_ex0 [Put [97] [5] True, Upd [97] [7, 8] False, Find [97], Put [97, 98] [6] True, Remove [97, 98], Take [97], Find [97]] =
     Some ([Done, Size (Some 1), Bytes (Some [7, 8]), Done, Done, Bytes (Some [7, 8]), Bytes None], t')"
proof -
  have "\<exists>m'. trie_runs Map.empty [Put [97] [5] True, Upd [97] [7, 8] False, Find [97], Put [97, 98] [6] True, Remove [97, 98], Take [97], Find [97]]
      [Done, Size (Some 1), Bytes (Some [7, 8]), Done, Done, Bytes (Some [7, 8]), Bytes None] m'"
    by (auto simp: trie_runs_simps no_longer_def strict_prefix_def)
  then show ?thesis using trie_refinement [OF _ trie_ex0_ok(1)] by blast
qed

lemma trie_ex_key: "\<exists>v. trie_map trie_ex [97, 98] = Some (v, 2, False)" "no_longer (trie_map trie_ex) [97, 98]" "trie_wf trie_ex"
proof -
  have "trie_map trie_ex [97, 98] \<noteq> None" using trie_repD(3) [OF trie_ex_ok(1), of "[97, 98]"] by simp
  then obtain v n c where v: "trie_map trie_ex [97, 98] = Some (v, n, c)" by auto
  with trie_repD(4) [OF trie_ex_ok(1) v] show "\<exists>v. trie_map trie_ex [97, 98] = Some (v, 2, False)" by auto
  show "no_longer (trie_map trie_ex) [97, 98]" unfolding no_longer_def trie_repD(3) [OF trie_ex_ok(1)]
    by (auto simp: strict_prefix_def)
  show "trie_wf trie_ex" by (rule trie_repD(1) [OF trie_ex_ok(1)])
qed

theorem trie_remove_key_witness:
  "\<exists>v k t'. trie_remove trie_ex [97, 98] True = Some (int k, Some (Some v, 2), t') \<and> trie_map t' [97, 98] = None \<and>
     trie_map t' [97] = trie_map trie_ex [97] \<and> tr_mem t' = tr_mem trie_ex"
proof -
  obtain v where v: "trie_map trie_ex [97, 98] = Some (v, 2, False)" using trie_ex_key(1) by blast
  from trie_remove_key [OF trie_ex_key(3) _ _ v trie_ex_key(2), of True] show ?thesis by - (rule exI [of _ v], auto)
qed

theorem trie_destroy_releases_witness: "\<exists>t'. trie_destroy trie_ex = Some t' \<and> tr_nodes t' = Map.empty"
  using trie_destroy_releases [OF trie_ex_key(3) trie_ex_ok(2)] by auto

section \<open>What the code does outside of these properties\<close>

text \<open>A byte from 128 on is a negative index into the table of children.\<close>

lemma trie_high_byte: "128 \<le> c \<Longrightarrow> trie_find t (c # key) = None"
  by (simp add: trie_find_def trie_find_internal_def cidx_def leD)

text \<open>Removing a key removes every longer key that it is a prefix of, too.\<close>

lemma trie_remove_takes_longer:
  assumes "trie_wf t" and "ascii key" and "key \<noteq> []" and "walk (tr_nodes t) (tr_root t) (path key) = Some x"
  shows "\<exists>k res t'. trie_remove t key want = Some (k, res, t') \<and>
           (\<forall>l. trie_map t' l = (if prefix key l then None else trie_map t l))"
proof -
  let ?cb = "if want then False else tr_free_value_cb t"
  obtain ks i where ki: "path key = ks @ [i]" using assms(3) by (cases "path key" rule: rev_cases) auto
  from trie_node_destroy_ok [OF assms(1), of ks i x ?cb] assms(4) ki obtain t' where
    t': "trie_node_destroy t x ?cb = Some t'" "tr_root t' = tr_root t"
      "\<forall>xs. vmap (tr_nodes t') (tr_root t) xs = (if prefix (path key) xs then None else vmap (tr_nodes t) (tr_root t) xs)" by auto
  have "x \<in> dom (tr_nodes t)" using walk_dom [of "tr_nodes t" "tr_root t"] assms(1,4) by (auto simp: trie_wf_def)
  then obtain n where n: "tr_nodes t x = Some n" by blast
  show ?thesis using trie_find_internal_ok [OF assms(1,2)] assms(4) n t'
    by (cases want) (auto simp: trie_remove_def trie_map_def prefix_path)
qed

text \<open>
  The previous value that \<open>trie_find_and_insert\<close> stores for the caller was freed when it was a copy: the
  pointer dangles.
\<close>

lemma find_and_insert_dangles:
  assumes "trie_wf t" and "ascii key" and "\<forall>i. \<not> tr_fails t i" and "value_ok t v vsize copy" and "trie_map t key = Some (w, n, True)"
  shows "\<exists>r t'. trie_find_and_insert t key (Some v) vsize copy = Some (r, Some (Some w, n), t') \<and> tr_mem t' w = None"
proof -
  from trie_find_and_insert_ok [OF assms(1-4)] assms(5) obtain r t' where
    f: "trie_find_and_insert t key (Some v) vsize copy = Some (r, Some (Some w, n), t')" "put_done t key v vsize copy t'" by auto
  then obtain new where "tr_brk t \<le> new" "tr_mem t' = put_mem t key new v vsize copy" unfolding put_done_def by blast
  moreover have "w < tr_brk t" by (rule trie_map_brk [OF assms(1,5)])
  ultimately show ?thesis using f(1) assms(5) by (auto simp: put_mem_def old_gone_def restrict_map_def Let_def)
qed

text \<open>
  \<open>trie_remove\<close> frees a copy although the caller passed a pointer for the value: the pointer dangles.
\<close>

lemma remove_copy_dangles:
  assumes "trie_wf t" and "ascii key" and "key \<noteq> []" and "no_longer (trie_map t) key" and "trie_map t key = Some (v, n, True)"
  shows "\<exists>k t'. trie_remove t key True = Some (k, Some (Some v, n), t') \<and> tr_mem t' v = None"
  using trie_remove_ok [OF assms(1-4) refl, of True] assms(5) by (auto simp: old_gone_def)

text \<open>A value that is stored at the inner node of a longer key is not counted by \<open>count\<close>.\<close>

lemma trie_insert_inner_not_counted:
  assumes "trie_wf t" and "ascii key" and "\<forall>i. \<not> tr_fails t i" and "value_ok t v vsize copy"
    and "walk (tr_nodes t) (tr_root t) (path key) = Some a"
  shows "\<exists>t'. trie_insert t key (Some v) vsize copy = Some (0, t') \<and> tr_count t' = tr_count t"
proof -
  have wf: "nodes_wf (tr_nodes t) (tr_root t)" "\<forall>a\<in>dom (tr_nodes t). a < tr_brk t" "mem_ok (ptrs (tr_nodes t)) (tr_mem t) (tr_brk t)"
    using assms(1) by (simp_all add: trie_wf_def)
  have "walk (tr_nodes t) (tr_root t) [] = Some (tr_root t)" by simp
  from insert_walk_ok [OF wf(1) this assms(2)] assms(5) have "insert_walk t (tr_root t) key = Some (a, [])" by auto
  with trie_node_set_value_ok [OF wf(1) assms(5,3) wf(2,3) assms(4)] show ?thesis by (auto simp: trie_insert_def)
qed

text \<open>Removing the empty key releases the root, which \<open>trie->root\<close> still points to: the next access is undefined.\<close>

lemma trie_remove_root:
  assumes "trie_wf t"
  shows "\<exists>r o' t'. trie_remove t [] want = Some (r, o', t') \<and> trie_find t' [] = None"
proof -
  let ?h = "tr_nodes t" and ?r = "tr_root t" and ?cb = "if want then False else tr_free_value_cb t"
  have wf: "nodes_wf ?h ?r" "copies_ok (ptrs ?h) (tr_mem t) UNIV" using assms by (simp_all add: trie_wf_def mem_ok_def)
  obtain n where n: "?h ?r = Some n" "tn_parent n = None" using nodes_wfD(2,3) [OF wf(1)] by blast
  have "walk ?h ?r [] = Some ?r" by simp
  from destroy_down_ok [OF tree_below_wf [OF wf(1) this] _ copies_ok_subset [OF wf(2)], of 0 ?cb] obtain t' where
    t': "destroy_down ?cb t ?r 0 = Some t'" "tr_nodes t' = ?h |` (- sub ?h ?r)" "keeps_rest t t'" by auto
  have "destroy_up t None (tn_pidx n) = Some (None, tn_pidx n, t)" by (subst destroy_up.simps) simp
  moreover have "tr_nodes t' ?r = None" unfolding t'(2) using sub_self [of ?r ?h] by (simp add: restrict_map_def)
  ultimately show ?thesis using n t' by (simp add: trie_remove_def trie_find_internal_def trie_node_destroy_def trie_find_def keeps_rest_def)
qed

text \<open>
  \<open>trie_find_or_insert\<close> does not insert when the key ends at a node that a longer key created: it
  returns 0 with no value, and the key stays absent.
\<close>

lemma trie_find_or_insert_inner:
  assumes "trie_wf t" and "ascii key" and "walk (tr_nodes t) (tr_root t) (path key) \<noteq> None" and "trie_map t key = None"
  shows "\<exists>n. trie_find_or_insert t key v vsize copy = Some (0, Some (None, n), t)"
proof -
  obtain a where a: "walk (tr_nodes t) (tr_root t) (path key) = Some a" using assms(3) by blast
  have wf: "nodes_wf (tr_nodes t) (tr_root t)" using assms(1) by (simp add: trie_wf_def)
  obtain n where n: "tr_nodes t a = Some n" using walk_dom [OF wf a] by blast
  have "tn_value n = None" using assms(4) a n by (simp add: trie_map_def vmap_def node_val_def)
  then show ?thesis using trie_find_internal_ok [OF assms(1,2)] a n by (simp add: trie_find_or_insert_def)
qed

end
