(* ===== verification/Linklist.thy ===== *)
theory Linklist
  imports Prelude
begin

text \<open>
  The doubly linked lists of \<open>linklist.c\<close>: entries in a heap, linked through \<open>prev\<close> and
  \<open>next\<close>, and the list structure with its head, its tail and the cursor \<open>cur\<close>,
  \<open>pos\<close> that \<open>pick_entry\<close> leaves behind to speed up the next access.

  The heap holds the entries, the list structures and the slices by address. \<open>calloc\<close> takes the
  next address that was never used; it fails where \<open>lm_fails\<close> says so. A pointer is an
  \<open>option\<close> (\<open>None\<close> is NULL); a step that reads a cell that is not allocated is undefined. A value
  (\<open>void *\<close>) is an optional element of a type that the list never looks into. The calls of the
  release callback are recorded in \<open>lm_freed\<close>. The recursive mutex of a list serialises its
  operations and is not part of the state; the field \<open>refcnt\<close> is never used.

  A position is a 64-bit \<open>size_t\<close> in the source; here it is a \<open>nat\<close>, with \<open>dec64\<close> and
  \<open>inc64\<close> where the source relies on the width and \<open>u32\<close> where it truncates to
  \<open>unsigned int\<close>.
\<close>

section \<open>Data\<close>

record 'v list_entry_t =
  le_list :: "nat option"
  le_prev :: "nat option"
  le_next :: "nat option"
  le_value :: "'v option"
  le_tagged :: bool

record linked_list_t =
  ll_head :: "nat option"
  ll_tail :: "nat option"
  ll_cur :: "nat option"
  ll_pos :: nat
  ll_length :: nat
  ll_free_cb :: bool
  ll_slices :: "nat option"

record slice_t =
  sl_list :: nat
  sl_offset :: nat
  sl_length :: nat

record 'v list_mem =
  lm_entries :: "nat \<rightharpoonup> 'v list_entry_t"
  lm_lists :: "nat \<rightharpoonup> linked_list_t"
  lm_slices :: "nat \<rightharpoonup> slice_t"
  lm_slice_entries :: "nat \<rightharpoonup> nat list_entry_t"
  lm_brk :: nat
  lm_fails :: "nat \<Rightarrow> bool"
  lm_freed :: "'v option list"

text \<open>Reading and changing an entry through a pointer, and writing back a list structure.\<close>

definition entry_at :: "('v, 'z) list_mem_scheme \<Rightarrow> nat option \<Rightarrow> 'v list_entry_t option" where
  "entry_at m p = (case p of None \<Rightarrow> None | Some a \<Rightarrow> lm_entries m a)"

definition set_entry :: "nat option \<Rightarrow> ('v list_entry_t \<Rightarrow> 'v list_entry_t) \<Rightarrow> ('v, 'z) list_mem_scheme \<Rightarrow> ('v, 'z) list_mem_scheme option" where
  "set_entry p f m = (case p of None \<Rightarrow> None | Some a \<Rightarrow>
     (case lm_entries m a of None \<Rightarrow> None | Some e \<Rightarrow> Some (m\<lparr>lm_entries := (lm_entries m)(a \<mapsto> f e)\<rparr>)))"

definition set_entry_opt :: "nat option \<Rightarrow> ('v list_entry_t \<Rightarrow> 'v list_entry_t) \<Rightarrow> ('v, 'z) list_mem_scheme \<Rightarrow> ('v, 'z) list_mem_scheme option" where
  "set_entry_opt p f m = (if p = None then Some m else set_entry p f m)"

definition set_list :: "nat \<Rightarrow> linked_list_t \<Rightarrow> ('v, 'z) list_mem_scheme \<Rightarrow> ('v, 'z) list_mem_scheme" where
  "set_list l L m = m\<lparr>lm_lists := (lm_lists m)(l \<mapsto> L)\<rparr>"

section \<open>Lists and entries\<close>

definition list_create :: "('v, 'z) list_mem_scheme \<Rightarrow> nat option \<times> ('v, 'z) list_mem_scheme" where
  "list_create m =
     (let a = lm_brk m; m = m\<lparr>lm_brk := Suc a\<rparr> in
      if lm_fails m a then (None, m)
      else (Some a, set_list a \<lparr>ll_head = None, ll_tail = None, ll_cur = None, ll_pos = 0, ll_length = 0,
                                ll_free_cb = False, ll_slices = None\<rparr> m))"

definition list_count :: "('v, 'z) list_mem_scheme \<Rightarrow> nat \<Rightarrow> nat option" where
  "list_count m l = map_option ll_length (lm_lists m l)"

definition list_set_free_value_callback :: "('v, 'z) list_mem_scheme \<Rightarrow> nat \<Rightarrow> bool \<Rightarrow> ('v, 'z) list_mem_scheme option" where
  "list_set_free_value_callback m l cb = map_option (\<lambda>L. set_list l (L\<lparr>ll_free_cb := cb\<rparr>) m) (lm_lists m l)"

definition create_entry :: "('v, 'z) list_mem_scheme \<Rightarrow> nat option \<times> ('v, 'z) list_mem_scheme" where
  "create_entry m =
     (let a = lm_brk m; m = m\<lparr>lm_brk := Suc a\<rparr> in
      if lm_fails m a then (None, m)
      else (Some a, m\<lparr>lm_entries := (lm_entries m)
              (a \<mapsto> \<lparr>le_list = None, le_prev = None, le_next = None, le_value = None, le_tagged = False\<rparr>)\<rparr>))"

text \<open>\<open>free(entry)\<close>: releasing a cell that is not allocated is undefined.\<close>

definition free_entry :: "nat \<Rightarrow> ('v, 'z) list_mem_scheme \<Rightarrow> ('v, 'z) list_mem_scheme option" where
  "free_entry a m = (if lm_entries m a = None then None else Some (m\<lparr>lm_entries := (lm_entries m)(a := None)\<rparr>))"

text \<open>Following \<open>next\<close> or \<open>prev\<close> a number of times, as the loops of \<open>pick_entry\<close> do.\<close>

fun walk_next :: "('v, 'z) list_mem_scheme \<Rightarrow> nat option \<Rightarrow> nat \<Rightarrow> nat option option" where
  "walk_next m p 0 = Some p"
| "walk_next m p (Suc n) = do { e \<leftarrow> entry_at m p; walk_next m (le_next e) n }"

fun walk_prev :: "('v, 'z) list_mem_scheme \<Rightarrow> nat option \<Rightarrow> nat \<Rightarrow> nat option option" where
  "walk_prev m p 0 = Some p"
| "walk_prev m p (Suc n) = do { e \<leftarrow> entry_at m p; walk_prev m (le_prev e) n }"

text \<open>
  \<open>for (i = from; i < pos; i++)\<close> with an \<open>unsigned int\<close> counter: from \<open>2 ^ 32\<close> on the
  condition never fails and the walk runs off the list.
\<close>

definition walk_up :: "('v, 'z) list_mem_scheme \<Rightarrow> nat option \<Rightarrow> nat \<Rightarrow> nat \<Rightarrow> nat option option" where
  "walk_up m p from pos = (if pos < 4294967296 then walk_next m p (pos - u32 from) else None)"

definition walk_down :: "('v, 'z) list_mem_scheme \<Rightarrow> nat option \<Rightarrow> nat \<Rightarrow> nat \<Rightarrow> nat option option" where
  "walk_down m p from pos = walk_prev m p (u32 from - pos)"

text \<open>\<open>abs((int)(a - b))\<close> on \<open>size_t\<close> arguments; \<open>abs(INT_MIN)\<close> is undefined.\<close>

definition abs_diff :: "nat \<Rightarrow> nat \<Rightarrow> nat option" where
  "abs_diff a b =
     (let d = signed_take_bit 31 (int a - int b) in if d = INT_MIN then None else Some (nat \<bar>d\<bar>))"

definition pick_entry :: "('v, 'z) list_mem_scheme \<Rightarrow> nat \<Rightarrow> nat \<Rightarrow> (nat option \<times> ('v, 'z) list_mem_scheme) option" where
  "pick_entry m l pos = do {
     L \<leftarrow> lm_lists m l;
     if ll_length L \<le> pos then Some (None, m)
     else do {
       let half_length = ll_length L div 2;
       near \<leftarrow> (if ll_cur L = None then Some False
                 else do { d \<leftarrow> abs_diff (ll_pos L) pos; Some (d < half_length) });
       entry \<leftarrow>
         (if near then
            (if ll_pos L < pos then walk_up m (ll_cur L) (ll_pos L) pos
             else if ll_pos L > pos then walk_down m (ll_cur L) (ll_pos L) pos
             else Some (ll_cur L))
          else if pos > half_length then walk_down m (ll_tail L) (ll_length L - 1) pos
          else walk_up m (ll_head L) 0 pos);
       Some (entry, if entry = None then m else set_list l (L\<lparr>ll_pos := pos, ll_cur := entry\<rparr>) m)
     }
   }"

definition unlinked :: "'v list_entry_t \<Rightarrow> 'v list_entry_t" where
  "unlinked e = e\<lparr>le_list := None, le_prev := None, le_next := None\<rparr>"

definition remove_entry :: "('v, 'z) list_mem_scheme \<Rightarrow> nat \<Rightarrow> nat \<Rightarrow> (nat option \<times> ('v, 'z) list_mem_scheme) option" where
  "remove_entry m l pos = do {
     (entry, m) \<leftarrow> pick_entry m l pos;
     if entry = None then Some (None, m)
     else do {
       L \<leftarrow> lm_lists m l;
       e \<leftarrow> entry_at m entry;
       let prev = le_prev e;
       let nxt = le_next e;
       let L = (if pos = 0 then L\<lparr>ll_head := nxt\<rparr>
                else if pos = dec64 (ll_length L) then L\<lparr>ll_tail := prev\<rparr> else L);
       m \<leftarrow> set_entry_opt prev (\<lambda>e. e\<lparr>le_next := nxt\<rparr>) m;
       m \<leftarrow> set_entry_opt nxt (\<lambda>e. e\<lparr>le_prev := prev\<rparr>) m;
       m \<leftarrow> set_entry entry unlinked m;
       let L = L\<lparr>ll_length := dec64 (ll_length L)\<rparr>;
       let L = (if ll_cur L = entry then L\<lparr>ll_cur := None, ll_pos := 0\<rparr>
                else if ll_pos L > pos then L\<lparr>ll_pos := ll_pos L - 1\<rparr> else L);
       Some (entry, set_list l L m)
     }
   }"

text \<open>The scan of \<open>get_entry_position\<close>; the counter is an \<open>int\<close>.\<close>

partial_function (option) position_loop :: "('v, 'z) list_mem_scheme \<Rightarrow> nat \<Rightarrow> nat option \<Rightarrow> int \<Rightarrow> int option" where
  "position_loop m entry p i =
     (if p = None then Some (- 1)
      else if p = Some entry then Some i
      else do { e \<leftarrow> entry_at m p; j \<leftarrow> ck (i + 1); position_loop m entry (le_next e) j })"

definition get_entry_position :: "('v, 'z) list_mem_scheme \<Rightarrow> nat \<Rightarrow> int option" where
  "get_entry_position m entry = do {
     e \<leftarrow> lm_entries m entry;
     case le_list e of
       None \<Rightarrow> Some (- 1)
     | Some l \<Rightarrow> do { L \<leftarrow> lm_lists m l; position_loop m entry (ll_head L) 0 }
   }"

definition destroy_entry :: "('v, 'z) list_mem_scheme \<Rightarrow> nat \<Rightarrow> ('v, 'z) list_mem_scheme option" where
  "destroy_entry m entry = do {
     e \<leftarrow> lm_entries m entry;
     m \<leftarrow> (case le_list e of
             None \<Rightarrow> Some m
           | Some l \<Rightarrow> do {
               pos \<leftarrow> get_entry_position m entry;
               if pos \<ge> 0 then do { (_, m) \<leftarrow> remove_entry m l (nat pos); Some m } else Some m
             });
     free_entry entry m
   }"

definition pop_entry :: "('v, 'z) list_mem_scheme \<Rightarrow> nat \<Rightarrow> (nat option \<times> ('v, 'z) list_mem_scheme) option" where
  "pop_entry m l = do {
     L \<leftarrow> lm_lists m l;
     let entry = ll_tail L;
     (L, m) \<leftarrow>
       (if entry = None then Some (L, m)
        else do {
          e \<leftarrow> entry_at m entry;
          m \<leftarrow> set_entry_opt (le_prev e) (\<lambda>e. e\<lparr>le_next := None\<rparr>) m;
          m \<leftarrow> set_entry entry unlinked m;
          Some (L\<lparr>ll_tail := le_prev e, ll_length := dec64 (ll_length L),
                  ll_cur := (if ll_cur L = entry then None else ll_cur L)\<rparr>, m)
        });
     let L = (if ll_length L = 0 then L\<lparr>ll_head := None, ll_tail := None\<rparr> else L);
     Some (entry, set_list l L m)
   }"

definition push_entry :: "('v, 'z) list_mem_scheme \<Rightarrow> nat \<Rightarrow> nat option \<Rightarrow> (int \<times> ('v, 'z) list_mem_scheme) option" where
  "push_entry m l entry =
     (if entry = None then Some (- 1, m)
      else do {
        L \<leftarrow> lm_lists m l;
        (L, m) \<leftarrow>
          (if ll_length L = 0 then Some (L\<lparr>ll_head := entry, ll_tail := entry\<rparr>, m)
           else do {
             let p = ll_tail L;
             m \<leftarrow> set_entry p (\<lambda>e. e\<lparr>le_next := entry\<rparr>) m;
             m \<leftarrow> set_entry entry (\<lambda>e. e\<lparr>le_prev := p, le_next := None\<rparr>) m;
             Some (L\<lparr>ll_tail := entry\<rparr>, m)
           });
        m \<leftarrow> set_entry entry (\<lambda>e. e\<lparr>le_list := Some l\<rparr>) m;
        Some (0, set_list l (L\<lparr>ll_length := inc64 (ll_length L)\<rparr>) m)
      })"

definition shift_entry :: "('v, 'z) list_mem_scheme \<Rightarrow> nat \<Rightarrow> (nat option \<times> ('v, 'z) list_mem_scheme) option" where
  "shift_entry m l = do {
     L \<leftarrow> lm_lists m l;
     let entry = ll_head L;
     (L, m) \<leftarrow>
       (if entry = None then Some (L, m)
        else do {
          e \<leftarrow> entry_at m entry;
          m \<leftarrow> set_entry_opt (le_next e) (\<lambda>e. e\<lparr>le_prev := None\<rparr>) m;
          m \<leftarrow> set_entry entry unlinked m;
          let L = L\<lparr>ll_head := le_next e, ll_length := dec64 (ll_length L)\<rparr>;
          Some (if ll_cur L = entry then L\<lparr>ll_cur := None\<rparr>
                else if ll_pos L \<noteq> 0 then L\<lparr>ll_pos := ll_pos L - 1\<rparr> else L, m)
        });
     let L = (if ll_length L = 0 then L\<lparr>ll_head := None, ll_tail := None\<rparr> else L);
     Some (entry, set_list l L m)
   }"

definition unshift_entry :: "('v, 'z) list_mem_scheme \<Rightarrow> nat \<Rightarrow> nat option \<Rightarrow> (int \<times> ('v, 'z) list_mem_scheme) option" where
  "unshift_entry m l entry =
     (if entry = None then Some (- 1, m)
      else do {
        L \<leftarrow> lm_lists m l;
        (L, m) \<leftarrow>
          (if ll_length L = 0 then Some (L\<lparr>ll_head := entry, ll_tail := entry\<rparr>, m)
           else do {
             let p = ll_head L;
             m \<leftarrow> set_entry p (\<lambda>e. e\<lparr>le_prev := entry\<rparr>) m;
             m \<leftarrow> set_entry entry (\<lambda>e. e\<lparr>le_prev := None, le_next := p\<rparr>) m;
             Some (L\<lparr>ll_head := entry\<rparr>, m)
           });
        m \<leftarrow> set_entry entry (\<lambda>e. e\<lparr>le_list := Some l\<rparr>) m;
        Some (0, set_list l (L\<lparr>ll_length := inc64 (ll_length L),
                               ll_pos := (if ll_cur L = None then ll_pos L else inc64 (ll_pos L))\<rparr>) m)
      })"

text \<open>
  The loop of \<open>insert_entry\<close> that fills the list with empty entries up to \<open>pos\<close>; its
  counter is an \<open>unsigned int\<close>. It gives \<open>False\<close> when an entry cannot be allocated.
\<close>

partial_function (option) pad_loop :: "('v, 'z) list_mem_scheme \<Rightarrow> nat \<Rightarrow> nat \<Rightarrow> nat \<Rightarrow> (bool \<times> ('v, 'z) list_mem_scheme) option" where
  "pad_loop m l i pos =
     (if i < pos then
        (case create_entry m of
           (None, m) \<Rightarrow> Some (False, m)
         | (Some a, m) \<Rightarrow> do {
             (ret, m) \<leftarrow> push_entry m l (Some a);
             if ret \<noteq> 0 then do { m \<leftarrow> destroy_entry m a; Some (False, m) }
             else pad_loop m l (u32 (Suc i)) pos
           })
      else Some (True, m))"

definition insert_entry :: "('v, 'z) list_mem_scheme \<Rightarrow> nat \<Rightarrow> nat option \<Rightarrow> nat \<Rightarrow> (int \<times> ('v, 'z) list_mem_scheme) option" where
  "insert_entry m l entry pos = do {
     L \<leftarrow> lm_lists m l;
     (early, ret, m) \<leftarrow>
       (if pos = 0 then do { (ret, m) \<leftarrow> unshift_entry m l entry; Some (False, ret, m) }
        else if pos = ll_length L then do { (ret, m) \<leftarrow> push_entry m l entry; Some (False, ret, m) }
        else if pos > ll_length L then do {
          (ok, m) \<leftarrow> pad_loop m l (u32 (ll_length L)) pos;
          if \<not> ok then Some (True, - 1, m)
          else do { (ret, m) \<leftarrow> push_entry m l entry; Some (False, ret, m) }
        } else Some (False, - 1, m));
     if early \<or> ret = 0 then Some (ret, m)
     else do {
       (prev, m) \<leftarrow> pick_entry m l (dec64 pos);
       if prev = None then Some (ret, m)
       else do {
         p \<leftarrow> entry_at m prev;
         let nxt = le_next p;
         m \<leftarrow> set_entry prev (\<lambda>e. e\<lparr>le_next := entry\<rparr>) m;
         m \<leftarrow> set_entry entry (\<lambda>e. e\<lparr>le_prev := prev, le_next := nxt\<rparr>) m;
         m \<leftarrow> set_entry_opt nxt (\<lambda>e. e\<lparr>le_prev := entry\<rparr>) m;
         L \<leftarrow> lm_lists m l;
         Some (0, set_list l (L\<lparr>ll_length := inc64 (ll_length L)\<rparr>) m)
       }
     }
   }"

definition fetch_entry :: "('v, 'z) list_mem_scheme \<Rightarrow> nat \<Rightarrow> nat \<Rightarrow> (nat option \<times> ('v, 'z) list_mem_scheme) option" where
  "fetch_entry m l pos =
     (if pos = 0 then shift_entry m l
      else do {
        n \<leftarrow> list_count m l;
        if pos = dec64 n then pop_entry m l else remove_entry m l pos
      })"

definition move_entry :: "('v, 'z) list_mem_scheme \<Rightarrow> nat \<Rightarrow> nat \<Rightarrow> nat \<Rightarrow> (int \<times> ('v, 'z) list_mem_scheme) option" where
  "move_entry m l srcPos dstPos = do {
     (e, m) \<leftarrow> fetch_entry m l srcPos;
     if e = None then Some (- 1, m)
     else do {
       (ret, m) \<leftarrow> insert_entry m l e dstPos;
       if ret = 0 then Some (0, m)
       else do { (_, m) \<leftarrow> insert_entry m l e srcPos; Some (- 1, m) }
     }
   }"

definition swap_entries :: "('v, 'z) list_mem_scheme \<Rightarrow> nat \<Rightarrow> nat \<Rightarrow> nat \<Rightarrow> (int \<times> ('v, 'z) list_mem_scheme) option" where
  "swap_entries m l pos1 pos2 =
     (if pos2 > pos1 then do {
        (e2, m) \<leftarrow> fetch_entry m l pos2;
        (_, m) \<leftarrow> insert_entry m l e2 pos1;
        (e1, m) \<leftarrow> fetch_entry m l (pos1 + 1);
        (_, m) \<leftarrow> insert_entry m l e1 pos2;
        Some (0, m)
      } else if pos1 > pos2 then do {
        (e1, m) \<leftarrow> fetch_entry m l pos1;
        (_, m) \<leftarrow> insert_entry m l e1 pos2;
        (e2, m) \<leftarrow> fetch_entry m l (pos2 + 1);
        (_, m) \<leftarrow> insert_entry m l e2 pos1;
        Some (0, m)
      } else Some (- 1, m))"

definition subst_entry :: "('v, 'z) list_mem_scheme \<Rightarrow> nat \<Rightarrow> nat \<Rightarrow> nat option \<Rightarrow> (nat option \<times> ('v, 'z) list_mem_scheme) option" where
  "subst_entry m l pos entry = do {
     (old, m) \<leftarrow> fetch_entry m l pos;
     if old = None then Some (None, m)
     else do { (_, m) \<leftarrow> insert_entry m l entry pos; Some (old, m) }
   }"

section \<open>Values\<close>

text \<open>The value of an entry that was taken out of the list, which is then released.\<close>

definition take_value :: "nat option \<times> ('v, 'z) list_mem_scheme \<Rightarrow> ('v option \<times> ('v, 'z) list_mem_scheme) option" where
  "take_value r = (case r of
     (None, m) \<Rightarrow> Some (None, m)
   | (Some a, m) \<Rightarrow> do { e \<leftarrow> lm_entries m a; m \<leftarrow> destroy_entry m a; Some (le_value e, m) })"

definition list_pop_value :: "('v, 'z) list_mem_scheme \<Rightarrow> nat \<Rightarrow> ('v option \<times> ('v, 'z) list_mem_scheme) option" where
  "list_pop_value m l = do { r \<leftarrow> pop_entry m l; take_value r }"

definition list_shift_value :: "('v, 'z) list_mem_scheme \<Rightarrow> nat \<Rightarrow> ('v option \<times> ('v, 'z) list_mem_scheme) option" where
  "list_shift_value m l = do { r \<leftarrow> shift_entry m l; take_value r }"

definition list_fetch_value :: "('v, 'z) list_mem_scheme \<Rightarrow> nat \<Rightarrow> nat \<Rightarrow> ('v option \<times> ('v, 'z) list_mem_scheme) option" where
  "list_fetch_value m l pos = do { r \<leftarrow> fetch_entry m l pos; take_value r }"

text \<open>
  A new entry for \<open>val\<close> that \<open>link\<close> puts into the list; it is released again when that fails.
\<close>

definition add_value ::
  "('v, 'z) list_mem_scheme \<Rightarrow> 'v option \<Rightarrow> bool \<Rightarrow> int \<Rightarrow> (('v, 'z) list_mem_scheme \<Rightarrow> nat option \<Rightarrow> (int \<times> ('v, 'z) list_mem_scheme) option) \<Rightarrow>
   (int \<times> ('v, 'z) list_mem_scheme) option" where
  "add_value m val tagged none link =
     (case create_entry m of
        (None, m) \<Rightarrow> Some (none, m)
      | (Some a, m) \<Rightarrow> do {
          m \<leftarrow> set_entry (Some a) (\<lambda>e. e\<lparr>le_value := val, le_tagged := tagged\<rparr>) m;
          (res, m) \<leftarrow> link m (Some a);
          if res \<noteq> 0 then do { m \<leftarrow> destroy_entry m a; Some (res, m) } else Some (res, m)
        })"

definition list_push_value :: "('v, 'z) list_mem_scheme \<Rightarrow> nat \<Rightarrow> 'v option \<Rightarrow> (int \<times> ('v, 'z) list_mem_scheme) option" where
  "list_push_value m l val = add_value m val False (- 1) (\<lambda>m e. push_entry m l e)"

definition list_unshift_value :: "('v, 'z) list_mem_scheme \<Rightarrow> nat \<Rightarrow> 'v option \<Rightarrow> (int \<times> ('v, 'z) list_mem_scheme) option" where
  "list_unshift_value m l val = add_value m val False (- 1) (\<lambda>m e. unshift_entry m l e)"

definition list_insert_value :: "('v, 'z) list_mem_scheme \<Rightarrow> nat \<Rightarrow> 'v option \<Rightarrow> nat \<Rightarrow> (int \<times> ('v, 'z) list_mem_scheme) option" where
  "list_insert_value m l val pos = add_value m val False (- 1) (\<lambda>m e. insert_entry m l e pos)"

definition list_pick_value :: "('v, 'z) list_mem_scheme \<Rightarrow> nat \<Rightarrow> nat \<Rightarrow> ('v option \<times> ('v, 'z) list_mem_scheme) option" where
  "list_pick_value m l pos = do {
     (entry, m) \<leftarrow> pick_entry m l pos;
     if entry = None then Some (None, m)
     else do { e \<leftarrow> entry_at m entry; Some (le_value e, m) }
   }"

definition list_move_value :: "('v, 'z) list_mem_scheme \<Rightarrow> nat \<Rightarrow> nat \<Rightarrow> nat \<Rightarrow> (int \<times> ('v, 'z) list_mem_scheme) option" where
  "list_move_value m l srcPos dstPos = move_entry m l srcPos dstPos"

definition list_set_value :: "('v, 'z) list_mem_scheme \<Rightarrow> nat \<Rightarrow> nat \<Rightarrow> 'v option \<Rightarrow> ('v option \<times> ('v, 'z) list_mem_scheme) option" where
  "list_set_value m l pos newval = do {
     (entry, m) \<leftarrow> pick_entry m l pos;
     if entry = None then do { (_, m) \<leftarrow> list_insert_value m l newval pos; Some (None, m) }
     else do {
       e \<leftarrow> entry_at m entry;
       m \<leftarrow> set_entry entry (\<lambda>e. e\<lparr>le_value := newval\<rparr>) m;
       Some (le_value e, m)
     }
   }"

definition list_subst_value :: "('v, 'z) list_mem_scheme \<Rightarrow> nat \<Rightarrow> nat \<Rightarrow> 'v option \<Rightarrow> ('v option \<times> ('v, 'z) list_mem_scheme) option" where
  "list_subst_value m l pos newval = do {
     (entry, m) \<leftarrow> pick_entry m l pos;
     if entry = None then Some (None, m)
     else do {
       e \<leftarrow> entry_at m entry;
       m \<leftarrow> set_entry entry (\<lambda>e. e\<lparr>le_value := newval\<rparr>) m;
       Some (le_value e, m)
     }
   }"

definition list_swap_values :: "('v, 'z) list_mem_scheme \<Rightarrow> nat \<Rightarrow> nat \<Rightarrow> nat \<Rightarrow> (int \<times> ('v, 'z) list_mem_scheme) option" where
  "list_swap_values m l pos1 pos2 = swap_entries m l pos1 pos2"

section \<open>Iteration\<close>

text \<open>
  The unlinking of the entry \<open>d\<close> that the handler asked to remove; \<open>e\<close> is the entry after it.
\<close>

definition foreach_unlink :: "('v, 'z) list_mem_scheme \<Rightarrow> nat \<Rightarrow> nat option \<Rightarrow> nat option \<Rightarrow> ('v, 'z) list_mem_scheme option" where
  "foreach_unlink m l d e = do {
     L \<leftarrow> lm_lists m l;
     D \<leftarrow> entry_at m d;
     (L, m) \<leftarrow>
       (if ll_head L = ll_tail L \<and> ll_tail L = d then Some (L\<lparr>ll_head := None, ll_tail := None\<rparr>, m)
        else if d = ll_head L then do {
          m \<leftarrow> set_entry (le_next D) (\<lambda>e. e\<lparr>le_prev := None\<rparr>) m;
          Some (L\<lparr>ll_head := le_next D\<rparr>, m)
        } else if d = ll_tail L then do {
          m \<leftarrow> set_entry (le_prev D) (\<lambda>e. e\<lparr>le_next := None\<rparr>) m;
          Some (L\<lparr>ll_tail := le_prev D\<rparr>, m)
        } else do {
          m \<leftarrow> set_entry e (\<lambda>x. x\<lparr>le_prev := le_prev D\<rparr>) m;
          m \<leftarrow> set_entry (le_prev D) (\<lambda>x. x\<lparr>le_next := e\<rparr>) m;
          Some (L, m)
        });
     m \<leftarrow> set_entry d (\<lambda>x. x\<lparr>le_list := None\<rparr>) m;
     let L = L\<lparr>ll_cur := (if ll_cur L = d then None else ll_cur L), ll_length := dec64 (ll_length L)\<rparr>;
     Some (set_list l L m)
   }"

text \<open>
  The loop of \<open>slice_foreach_value\<close>. The handler is a function of the value, the index and the
  user data; it gives its return code and the new user data. \<open>len\<close> is \<open>slice->length\<close>, which
  the loop decrements when it removes an entry.
\<close>

partial_function (option) foreach_loop ::
  "('v option \<Rightarrow> nat \<Rightarrow> 'u \<Rightarrow> int \<times> 'u) \<Rightarrow> ('v, 'z) list_mem_scheme \<Rightarrow> nat \<Rightarrow> nat option \<Rightarrow> nat \<Rightarrow> nat \<Rightarrow> 'u \<Rightarrow>
   (nat \<times> nat \<times> 'u \<times> ('v, 'z) list_mem_scheme) option" where
  "foreach_loop item_handler m l e idx len user =
     (if e = None \<or> \<not> idx < len then Some (idx, len, user, m)
      else do {
        E \<leftarrow> entry_at m e;
        let (rc, user) = item_handler (le_value E) idx user;
        let idx = inc64 idx;
        if rc = 0 then Some (idx, len, user, m)
        else if rc = - 1 \<or> rc = - 2 then do {
          m \<leftarrow> foreach_unlink m l e (le_next E);
          d \<leftarrow> e;
          m \<leftarrow> destroy_entry m d;
          if rc = - 2 then Some (idx, dec64 len, user, m)
          else foreach_loop item_handler m l (le_next E) idx (dec64 len) user
        } else foreach_loop item_handler m l (le_next E) idx len user
      })"

definition slice_foreach ::
  "('v option \<Rightarrow> nat \<Rightarrow> 'u \<Rightarrow> int \<times> 'u) \<Rightarrow> ('v, 'z) list_mem_scheme \<Rightarrow> slice_t \<Rightarrow> 'u \<Rightarrow> (int \<times> slice_t \<times> 'u \<times> ('v, 'z) list_mem_scheme) option" where
  "slice_foreach item_handler m slc user = do {
     (e, m) \<leftarrow> pick_entry m (sl_list slc) (sl_offset slc);
     (idx, len, user, m) \<leftarrow> foreach_loop item_handler m (sl_list slc) e 0 (sl_length slc) user;
     Some (to_int idx, slc\<lparr>sl_length := len\<rparr>, user, m)
   }"

definition slice_foreach_value ::
  "('v option \<Rightarrow> nat \<Rightarrow> 'u \<Rightarrow> int \<times> 'u) \<Rightarrow> ('v, 'z) list_mem_scheme \<Rightarrow> nat \<Rightarrow> 'u \<Rightarrow> (int \<times> 'u \<times> ('v, 'z) list_mem_scheme) option" where
  "slice_foreach_value item_handler m s user = do {
     slc \<leftarrow> lm_slices m s;
     (rc, slc, user, m) \<leftarrow> slice_foreach item_handler m slc user;
     Some (rc, user, m\<lparr>lm_slices := (lm_slices m)(s \<mapsto> slc)\<rparr>)
   }"

definition list_foreach_value ::
  "('v option \<Rightarrow> nat \<Rightarrow> 'u \<Rightarrow> int \<times> 'u) \<Rightarrow> ('v, 'z) list_mem_scheme \<Rightarrow> nat \<Rightarrow> 'u \<Rightarrow> (int \<times> 'u \<times> ('v, 'z) list_mem_scheme) option" where
  "list_foreach_value item_handler m l user = do {
     L \<leftarrow> lm_lists m l;
     (rc, slc, user, m) \<leftarrow> slice_foreach item_handler m \<lparr>sl_list = l, sl_offset = 0, sl_length = ll_length L\<rparr> user;
     Some (rc, user, m)
   }"

section \<open>Slices\<close>

partial_function (option) last_slice :: "(nat \<rightharpoonup> nat list_entry_t) \<Rightarrow> nat \<Rightarrow> nat option" where
  "last_slice h cur = do { e \<leftarrow> h cur; case le_next e of None \<Rightarrow> Some cur | Some n \<Rightarrow> last_slice h n }"

text \<open>The two allocations of \<open>slice_create\<close> are not checked: a failing one is dereferenced.\<close>

definition slice_create :: "('v, 'z) list_mem_scheme \<Rightarrow> nat \<Rightarrow> nat \<Rightarrow> nat \<Rightarrow> (nat \<times> ('v, 'z) list_mem_scheme) option" where
  "slice_create m l offset len =
     (let s = lm_brk m; a = Suc s; m = m\<lparr>lm_brk := Suc a\<rparr> in
      if lm_fails m s \<or> lm_fails m a then None
      else do {
        L \<leftarrow> lm_lists m l;
        let m = m\<lparr>lm_slices := (lm_slices m)(s \<mapsto> \<lparr>sl_list = l, sl_offset = offset, sl_length = len\<rparr>)\<rparr>;
        let e = \<lparr>le_list = None, le_prev = None, le_next = None, le_value = Some s, le_tagged = False\<rparr>;
        case ll_slices L of
          None \<Rightarrow> Some (s, set_list l (L\<lparr>ll_slices := Some a\<rparr>)
                          (m\<lparr>lm_slice_entries := (lm_slice_entries m)(a \<mapsto> e)\<rparr>))
        | Some first \<Rightarrow> do {
            cur \<leftarrow> last_slice (lm_slice_entries m) first;
            c \<leftarrow> lm_slice_entries m cur;
            Some (s, m\<lparr>lm_slice_entries := (lm_slice_entries m)
                        (cur \<mapsto> c\<lparr>le_next := Some a\<rparr>, a \<mapsto> e\<lparr>le_prev := Some cur\<rparr>)\<rparr>)
          }
      })"

text \<open>
  The search loop of \<open>slice_destroy\<close>: the entry of the slice and the one before it. The entry is
  not linked in a list, so that \<open>destroy_entry\<close> only releases it.
\<close>

partial_function (option) find_slice ::
  "(nat \<rightharpoonup> nat list_entry_t) \<Rightarrow> nat \<Rightarrow> nat option \<Rightarrow> nat option \<Rightarrow> (nat option \<times> nat option) option" where
  "find_slice h s prev cur =
     (case cur of
        None \<Rightarrow> Some (prev, None)
      | Some c \<Rightarrow> do { e \<leftarrow> h c; if le_value e = Some s then Some (prev, cur) else find_slice h s cur (le_next e) })"

definition slice_destroy :: "('v, 'z) list_mem_scheme \<Rightarrow> nat \<Rightarrow> ('v, 'z) list_mem_scheme option" where
  "slice_destroy m s = do {
     slc \<leftarrow> lm_slices m s;
     let l = sl_list slc;
     L \<leftarrow> lm_lists m l;
     let h = lm_slice_entries m;
     (prev, cur) \<leftarrow> find_slice h s None (ll_slices L);
     m \<leftarrow> (case cur of
             None \<Rightarrow> Some m
           | Some c \<Rightarrow> do {
               e \<leftarrow> h c;
               m \<leftarrow> (case prev of
                       None \<Rightarrow> Some (set_list l (L\<lparr>ll_slices := le_next e\<rparr>) m)
                     | Some p \<Rightarrow> do {
                         pe \<leftarrow> h p;
                         n \<leftarrow> le_next e;
                         ne \<leftarrow> h n;
                         Some (m\<lparr>lm_slice_entries := h(p \<mapsto> pe\<lparr>le_next := Some n\<rparr>, n \<mapsto> ne\<lparr>le_prev := Some p\<rparr>)\<rparr>)
                       });
               Some (m\<lparr>lm_slice_entries := (lm_slice_entries m)(c := None)\<rparr>)
             });
     Some (m\<lparr>lm_slices := (lm_slices m)(s := None)\<rparr>)
   }"

section \<open>Releasing a list\<close>

text \<open>
  \<open>list_clear\<close>: the entries of the tagged interface hold a \<open>tagged_value_t\<close>, which
  \<open>list_destroy_tagged_value_internal\<close> releases with the entry; it is the argument
  \<open>destroy_tagged\<close>, which is told whether the list has a release callback.
\<close>

partial_function (option) list_clear ::
  "(bool \<Rightarrow> 'v option \<Rightarrow> ('v, 'z) list_mem_scheme \<Rightarrow> ('v, 'z) list_mem_scheme option) \<Rightarrow> ('v, 'z) list_mem_scheme \<Rightarrow> nat \<Rightarrow> ('v, 'z) list_mem_scheme option" where
  "list_clear destroy_tagged m l = do {
     (e, m) \<leftarrow> shift_entry m l;
     case e of
       None \<Rightarrow> Some m
     | Some a \<Rightarrow> do {
         L \<leftarrow> lm_lists m l;
         E \<leftarrow> lm_entries m a;
         m \<leftarrow> (if le_tagged E \<and> le_value E \<noteq> None then destroy_tagged (ll_free_cb L) (le_value E) m
               else if ll_free_cb L then Some (m\<lparr>lm_freed := lm_freed m @ [le_value E]\<rparr>)
               else Some m);
         m \<leftarrow> destroy_entry m a;
         list_clear destroy_tagged m l
       }
   }"

partial_function (option) destroy_slices :: "('v, 'z) list_mem_scheme \<Rightarrow> nat \<Rightarrow> ('v, 'z) list_mem_scheme option" where
  "destroy_slices m l = do {
     L \<leftarrow> lm_lists m l;
     case ll_slices L of
       None \<Rightarrow> Some m
     | Some a \<Rightarrow> do {
         e \<leftarrow> lm_slice_entries m a;
         s \<leftarrow> le_value e;
         m \<leftarrow> slice_destroy m s;
         destroy_slices m l
       }
   }"

definition list_destroy ::
  "(bool \<Rightarrow> 'v option \<Rightarrow> ('v, 'z) list_mem_scheme \<Rightarrow> ('v, 'z) list_mem_scheme option) \<Rightarrow> ('v, 'z) list_mem_scheme \<Rightarrow> nat \<Rightarrow> ('v, 'z) list_mem_scheme option" where
  "list_destroy destroy_tagged m l = do {
     m \<leftarrow> destroy_slices m l;
     m \<leftarrow> list_clear destroy_tagged m l;
     Some (m\<lparr>lm_lists := (lm_lists m)(l := None)\<rparr>)
   }"

end
