(* ===== verification/Linklist_Spec.thy ===== *)
theory Linklist_Spec
  imports Linklist
begin

text \<open>
  What the lists of \<open>linklist.c\<close> promise: \<open>list_at m l es\<close> says that the list at address
  \<open>l\<close> is well-formed and links the entries \<open>es\<close>, given with their values; every operation
  is shown to preserve it and to act on \<open>es\<close> as an operation on plain lists.
\<close>

section \<open>Doubly linked segments\<close>

definition addrs :: "(nat \<times> 'v option) list \<Rightarrow> nat set" where
  "addrs es = fst ` set es"

definition first :: "(nat \<times> 'v option) list \<Rightarrow> nat option \<Rightarrow> nat option" where
  "first es n = (case es of [] \<Rightarrow> n | x # _ \<Rightarrow> Some (fst x))"

definition final :: "nat option \<Rightarrow> (nat \<times> 'v option) list \<Rightarrow> nat option" where
  "final p es = (if es = [] then p else Some (fst (last es)))"

fun dll :: "(nat \<rightharpoonup> 'v list_entry_t) \<Rightarrow> nat option \<Rightarrow> (nat \<times> 'v option) list \<Rightarrow> nat option \<Rightarrow> bool" where
  "dll h p [] n = True"
| "dll h p ((a, v) # es) n =
     (case h a of None \<Rightarrow> False
      | Some e \<Rightarrow> le_prev e = p \<and> le_next e = first es n \<and> le_value e = v \<and> dll h (Some a) es n)"

lemma addrs_simps [simp]:
  "addrs [] = {}" "addrs (x # es) = insert (fst x) (addrs es)" "addrs (es @ fs) = addrs es \<union> addrs fs"
  by (auto simp: addrs_def)

lemma first_simps [simp]: "first [] n = n" "first (x # es) n = Some (fst x)"
  "first (es @ fs) n = first es (first fs n)"
  by (auto simp: first_def split: list.split)

lemma final_simps [simp]: "final p [] = p" "final p (es @ [x]) = Some (fst x)"
  "final p (x # es) = final (Some (fst x)) es" "final p (es @ fs) = final (final p es) fs"
  by (auto simp: final_def)

lemma addrs_take: "addrs (take i es) \<subseteq> addrs es"
  using set_take_subset [of i es] by (auto simp: addrs_def)

lemma addrs_drop: "addrs (drop i es) \<subseteq> addrs es"
  using set_drop_subset [of i es] by (auto simp: addrs_def)

lemma dll_Cons [simp]:
  "dll h p ((a, v) # es) n \<longleftrightarrow>
     (\<exists>e. h a = Some e \<and> le_prev e = p \<and> le_next e = first es n \<and> le_value e = v \<and> dll h (Some a) es n)"
  by (simp split: option.split)

declare dll.simps(2) [simp del]

lemma dll_append [simp]:
  "dll h p (es @ fs) n \<longleftrightarrow> dll h p es (first fs n) \<and> dll h (final p es) fs n"
proof (induction es arbitrary: p)
  case (Cons x es)
  then show ?case by (cases x) auto
qed simp

lemma dll_cong: "(\<And>a. a \<in> addrs es \<Longrightarrow> h a = h' a) \<Longrightarrow> dll h p es n = dll h' p es n"
proof (induction es arbitrary: p)
  case (Cons x es)
  then show ?case by (cases x) (auto simp: addrs_def)
qed simp

lemma dll_other [simp]: "a \<notin> addrs es \<Longrightarrow> dll (h(a := x)) p es n = dll h p es n"
  by (rule dll_cong) auto

lemma dll_alloc: "dll h p es n \<Longrightarrow> a \<in> addrs es \<Longrightarrow> h a \<noteq> None"
proof (induction es arbitrary: p)
  case (Cons x es)
  then show ?case by (cases x) auto
qed simp

lemma addrs_nth: "i < length es \<Longrightarrow> fst (es ! i) \<in> addrs es"
  by (simp add: addrs_def)

lemma dll_nth:
  assumes "dll h p es n" and "i < length es"
  shows "\<exists>e. h (fst (es ! i)) = Some e \<and> le_prev e = final p (take i es) \<and>
           le_next e = first (drop (Suc i) es) n \<and> le_value e = snd (es ! i)"
proof -
  obtain a v where x: "es ! i = (a, v)" by fastforce
  have "es = take i es @ (a, v) # drop (Suc i) es" using assms(2) x id_take_nth_drop [of i es] by simp
  then have "dll h p (take i es @ (a, v) # drop (Suc i) es) n" using assms(1) by metis
  then show ?thesis by (auto simp: x)
qed

lemma addr_inj:
  "distinct (map fst es) \<Longrightarrow> i < length es \<Longrightarrow> j < length es \<Longrightarrow> fst (es ! i) = fst (es ! j) \<longleftrightarrow> i = j"
  using nth_eq_iff_index_eq [of "map fst es" i j] by simp

section \<open>Well-formed lists\<close>

definition list_shape :: "linked_list_t \<Rightarrow> (nat \<times> 'v option) list \<Rightarrow> bool" where
  "list_shape L es \<longleftrightarrow> ll_head L = first es None \<and> ll_tail L = final None es \<and> ll_length L = length es \<and>
     (ll_cur L \<noteq> None \<longrightarrow> ll_pos L < length es \<and> ll_cur L = Some (fst (es ! ll_pos L)))"

definition entries_ok :: "('v, 'z) list_mem_scheme \<Rightarrow> (nat \<times> 'v option) list \<Rightarrow> bool" where
  "entries_ok m es \<longleftrightarrow> dll (lm_entries m) None es None \<and> distinct (map fst es) \<and>
     (\<forall>a\<in>addrs es. a < lm_brk m) \<and> length es < 2147483648"

definition list_at :: "('v, 'z) list_mem_scheme \<Rightarrow> nat \<Rightarrow> (nat \<times> 'v option) list \<Rightarrow> bool" where
  "list_at m l es \<longleftrightarrow>
     (\<exists>L. lm_lists m l = Some L \<and> list_shape L es) \<and> entries_ok m es"

text \<open>An allocated entry that belongs to no list.\<close>

definition loose :: "('v, 'z) list_mem_scheme \<Rightarrow> nat \<Rightarrow> 'v option \<Rightarrow> bool" where
  "loose m a v \<longleftrightarrow> a < lm_brk m \<and> (\<exists>e. lm_entries m a = Some e \<and>
     le_list e = None \<and> le_prev e = None \<and> le_next e = None \<and> le_value e = v)"

text \<open>
  The frame of an operation on the list \<open>l\<close> that may change the entries \<open>A\<close>: everything
  else that was allocated stays as it is.
\<close>

definition keeps :: "('v, 'z) list_mem_scheme \<Rightarrow> ('v, 'z) list_mem_scheme \<Rightarrow> nat \<Rightarrow> nat set \<Rightarrow> bool" where
  "keeps m m' l A \<longleftrightarrow>
     (\<forall>a. a \<notin> A \<longrightarrow> a < lm_brk m \<longrightarrow> lm_entries m' a = lm_entries m a) \<and>
     (\<forall>k. k \<noteq> l \<longrightarrow> lm_lists m' k = lm_lists m k) \<and>
     lm_brk m \<le> lm_brk m' \<and> lm_fails m' = lm_fails m \<and> lm_freed m' = lm_freed m \<and>
     lm_slices m' = lm_slices m \<and> lm_slice_entries m' = lm_slice_entries m \<and> list_mem.more m' = list_mem.more m \<and>
     map_option ll_slices (lm_lists m' l) = map_option ll_slices (lm_lists m l) \<and>
     map_option ll_free_cb (lm_lists m' l) = map_option ll_free_cb (lm_lists m l)"

lemma keeps_refl [simp]: "keeps m m l A"
  by (simp add: keeps_def)

lemma keeps_trans:
  "keeps m m' l A \<Longrightarrow> keeps m' m'' l B \<Longrightarrow> (\<And>a. a \<in> B \<Longrightarrow> a \<in> A \<or> lm_brk m \<le> a) \<Longrightarrow> keeps m m'' l A"
  unfolding keeps_def by (metis dual_order.strict_trans2 order_trans linorder_not_less)

lemma keeps_mono: "keeps m m' l A \<Longrightarrow> A \<subseteq> B \<Longrightarrow> keeps m m' l B"
  unfolding keeps_def by blast

lemma keeps_other_list:
  assumes "keeps m m' l A" and "list_at m k fs" and "k \<noteq> l" and "addrs fs \<inter> A = {}"
  shows "list_at m' k fs"
proof -
  have "dll (lm_entries m') None fs None = dll (lm_entries m) None fs None"
    by (rule dll_cong) (use assms in \<open>auto simp: keeps_def list_at_def entries_ok_def\<close>)
  then show ?thesis using assms by (force simp: keeps_def list_at_def entries_ok_def)
qed

lemma list_atE:
  assumes "list_at m l es"
  obtains L where "lm_lists m l = Some L" and "list_shape L es" and "dll (lm_entries m) None es None"
    and "distinct (map fst es)" and "\<forall>a\<in>addrs es. a < lm_brk m" and "length es < 2147483648"
  using assms by (auto simp: list_at_def entries_ok_def split: option.splits)

lemma looseE:
  assumes "loose m a v"
  obtains e where "lm_entries m a = Some e" and "le_list e = None" and "le_prev e = None" and "le_next e = None"
    and "le_value e = v" and "a < lm_brk m"
  using assms by (auto simp: loose_def split: option.splits)

lemmas list_mem_defs = Let_def set_entry_def set_entry_opt_def set_list_def entry_at_def free_entry_def

section \<open>Operations at the two ends\<close>

lemma push_entry_ok:
  assumes "list_at m l es" and "loose m a v" and "a \<notin> addrs es" and "length es < 2147483647"
  shows "\<exists>m'. push_entry m l (Some a) = Some (0, m') \<and> list_at m' l (es @ [(a, v)]) \<and>
           keeps m m' l (insert a (addrs es)) \<and> lm_brk m' = lm_brk m"
proof -
  from assms(1) obtain L where L: "lm_lists m l = Some L" "list_shape L es" "dll (lm_entries m) None es None"
    "distinct (map fst es)" "\<forall>a\<in>addrs es. a < lm_brk m" "length es < 2147483648"
    by (elim list_atE)
  from assms(2) obtain e where e: "lm_entries m a = Some e" "le_prev e = None" "le_next e = None" "le_value e = v"
    "a < lm_brk m" by (elim looseE)
  show ?thesis
  proof (cases es rule: rev_cases)
    case Nil
    then show ?thesis using L e assms(3,4)
      by (auto simp: push_entry_def list_at_def entries_ok_def list_shape_def keeps_def list_mem_defs inc64_eq
          split: option.splits)
  next
    case (snoc fs x)
    then obtain t w where "es = fs @ [(t, w)]" by (cases x) auto
    then show ?thesis using L e assms(3,4)
      by (auto simp: push_entry_def list_at_def entries_ok_def list_shape_def keeps_def list_mem_defs inc64_eq
          nth_append addrs_def split: option.splits)
  qed
qed

lemma unshift_entry_ok:
  assumes "list_at m l es" and "loose m a v" and "a \<notin> addrs es" and "length es < 2147483647"
  shows "\<exists>m'. unshift_entry m l (Some a) = Some (0, m') \<and> list_at m' l ((a, v) # es) \<and>
           keeps m m' l (insert a (addrs es)) \<and> lm_brk m' = lm_brk m"
proof -
  from assms(1) obtain L where L: "lm_lists m l = Some L" "list_shape L es" "dll (lm_entries m) None es None"
    "distinct (map fst es)" "\<forall>a\<in>addrs es. a < lm_brk m" "length es < 2147483648"
    by (elim list_atE)
  from assms(2) obtain e where e: "lm_entries m a = Some e" "le_prev e = None" "le_next e = None" "le_value e = v"
    "a < lm_brk m" by (elim looseE)
  show ?thesis
  proof (cases es)
    case Nil
    then show ?thesis using L e assms(3,4)
      by (auto simp: unshift_entry_def list_at_def entries_ok_def list_shape_def keeps_def list_mem_defs inc64_eq
          split: option.splits)
  next
    case (Cons x fs)
    then obtain t w where "es = (t, w) # fs" by (cases x) auto
    then show ?thesis using L e assms(3,4)
      by (auto simp: unshift_entry_def list_at_def entries_ok_def list_shape_def keeps_def list_mem_defs inc64_eq
          addrs_def split: option.splits)
  qed
qed

lemma shape_pop:
  assumes "list_shape L (es @ [(a, v)])"
  shows "list_shape (L\<lparr>ll_head := first es None, ll_tail := final None es, ll_cur := (if ll_cur L = Some a then None else ll_cur L),
           ll_length := length es\<rparr>) es"
proof -
  have "ll_pos L < length es" "ll_cur L = Some (fst (es ! ll_pos L))" if "ll_cur L \<noteq> None" "ll_cur L \<noteq> Some a"
    using assms that by (auto simp: list_shape_def nth_append less_Suc_eq split: if_splits)
  then show ?thesis by (cases "ll_cur L = None"; cases "ll_cur L = Some a") (simp_all add: list_shape_def)
qed

lemma pop_entry_ok:
  assumes "list_at m l (es @ [(a, v)])"
  shows "\<exists>m'. pop_entry m l = Some (Some a, m') \<and> list_at m' l es \<and> loose m' a v \<and>
           keeps m m' l (insert a (addrs es)) \<and> lm_brk m' = lm_brk m"
proof -
  from assms(1) obtain L where L: "lm_lists m l = Some L" "list_shape L (es @ [(a, v)])"
    "dll (lm_entries m) None (es @ [(a, v)]) None" "distinct (map fst (es @ [(a, v)]))"
    "\<forall>b\<in>addrs (es @ [(a, v)]). b < lm_brk m" "length (es @ [(a, v)]) < 2147483648"
    by (elim list_atE)
  have ends: "ll_head L = first es (Some a)" "ll_tail L = Some a" "ll_length L = Suc (length es)"
    using L(2) by (auto simp: list_shape_def)
  let ?L = "L\<lparr>ll_head := first es None, ll_tail := final None es,
      ll_cur := (if ll_cur L = Some a then None else ll_cur L), ll_length := length es\<rparr>"
  from L(3) obtain e where e: "lm_entries m a = Some e" "le_prev e = final None es" "le_value e = v"
    and es: "dll (lm_entries m) None es (Some a)" by auto
  have nin: "a \<notin> addrs es" using L(4) by (simp add: addrs_def)
  show ?thesis
  proof (cases es rule: rev_cases)
    case Nil
    then have "pop_entry m l = Some (Some a, set_list l ?L (m\<lparr>lm_entries := (lm_entries m)(a \<mapsto> unlinked e)\<rparr>))"
      using L(1) ends e by (cases L) (simp add: pop_entry_def list_mem_defs dec64_eq)
    then show ?thesis using Nil shape_pop [OF L(2)] L(1,5) e
      by (auto simp: list_at_def entries_ok_def loose_def unlinked_def keeps_def set_list_def)
  next
    case (snoc fs x)
    then obtain t w where fs: "es = fs @ [(t, w)]" by (cases x) auto
    then obtain f where f: "lm_entries m t = Some f" "le_prev f = final None fs" "le_value f = w" using es by auto
    have "pop_entry m l = Some (Some a, set_list l ?L (m\<lparr>lm_entries := (lm_entries m)(t \<mapsto> f\<lparr>le_next := None\<rparr>, a \<mapsto> unlinked e)\<rparr>))"
      using L(1) ends e f nin by (cases L) (simp add: pop_entry_def list_mem_defs dec64_eq fs)
    then show ?thesis using shape_pop [OF L(2)] L(1,4,5,6) e f es nin
      by (auto simp: list_at_def entries_ok_def loose_def unlinked_def keeps_def set_list_def fs addrs_def)
  qed
qed

lemma pop_entry_empty:
  assumes "list_at m l []"
  shows "\<exists>m'. pop_entry m l = Some (None, m') \<and> list_at m' l [] \<and> keeps m m' l {} \<and> lm_brk m' = lm_brk m"
  using assms
  by (elim list_atE) (auto simp: pop_entry_def list_at_def entries_ok_def list_shape_def keeps_def list_mem_defs)

lemma shift_entry_ok:
  assumes "list_at m l ((a, v) # es)"
  shows "\<exists>m'. shift_entry m l = Some (Some a, m') \<and> list_at m' l es \<and> loose m' a v \<and>
           keeps m m' l (insert a (addrs es)) \<and> lm_brk m' = lm_brk m"
proof -
  from assms(1) obtain L where L: "lm_lists m l = Some L" "list_shape L ((a, v) # es)"
    "dll (lm_entries m) None ((a, v) # es) None" "distinct (map fst ((a, v) # es))"
    "\<forall>b\<in>addrs ((a, v) # es). b < lm_brk m" "length ((a, v) # es) < 2147483648"
    by (elim list_atE)
  have cur: "0 < ll_pos L" if "ll_cur L \<noteq> None" "ll_cur L \<noteq> Some a"
    using L(2) that by (cases "ll_pos L") (auto simp: list_shape_def split: option.splits)
  show ?thesis
  proof (cases es)
    case Nil
    then show ?thesis using L cur
      by (auto simp: shift_entry_def list_at_def entries_ok_def list_shape_def keeps_def list_mem_defs dec64_eq
          loose_def unlinked_def split: option.splits)
  next
    case (Cons x fs)
    then obtain t w where "es = (t, w) # fs" by (cases x) auto
    then show ?thesis using L cur
      by (auto simp: shift_entry_def list_at_def entries_ok_def list_shape_def keeps_def list_mem_defs dec64_eq
          loose_def unlinked_def nth_Cons' addrs_def split: option.splits if_splits)
  qed
qed

lemma shift_entry_empty:
  assumes "list_at m l []"
  shows "\<exists>m'. shift_entry m l = Some (None, m') \<and> list_at m' l [] \<and> keeps m m' l {} \<and> lm_brk m' = lm_brk m"
  using assms
  by (elim list_atE) (auto simp: shift_entry_def list_at_def entries_ok_def list_shape_def keeps_def list_mem_defs)

section \<open>Positions\<close>

lemma walk_next_ok:
  "dll (lm_entries m) p es n \<Longrightarrow> i + k < length es \<Longrightarrow>
     walk_next m (Some (fst (es ! i))) k = Some (Some (fst (es ! (i + k))))"
proof (induction k arbitrary: i)
  case (Suc k)
  from dll_nth [OF Suc.prems(1), of i] Suc.prems(2) obtain e where
    e: "lm_entries m (fst (es ! i)) = Some e" "le_next e = first (drop (Suc i) es) n" by auto
  have "le_next e = Some (fst (es ! Suc i))"
    using e(2) Suc.prems(2) by (simp add: Cons_nth_drop_Suc [symmetric])
  then show ?case using Suc.IH [of "Suc i"] Suc.prems e(1) by (simp add: entry_at_def)
qed simp

lemma final_take: "0 < i \<Longrightarrow> i \<le> length es \<Longrightarrow> final p (take i es) = Some (fst (es ! (i - 1)))"
  by (cases i) (auto simp: take_Suc_conv_app_nth)

lemma walk_prev_ok:
  "dll (lm_entries m) p es n \<Longrightarrow> k \<le> i \<Longrightarrow> i < length es \<Longrightarrow>
     walk_prev m (Some (fst (es ! i))) k = Some (Some (fst (es ! (i - k))))"
proof (induction k arbitrary: i)
  case (Suc k)
  from dll_nth [OF Suc.prems(1,3)] obtain e where
    e: "lm_entries m (fst (es ! i)) = Some e" "le_prev e = final p (take i es)" by auto
  have "le_prev e = Some (fst (es ! (i - 1)))" using e(2) Suc.prems(2,3) by (simp add: final_take)
  then show ?case using Suc.IH [of "i - 1"] Suc.prems e(1) by (simp add: entry_at_def)
qed simp

lemma abs_diff_small:
  assumes "a < 2147483648" and "b < 2147483648"
  shows "\<exists>d. abs_diff a b = Some d"
proof -
  have "signed_take_bit 31 (int a - int b) = int a - int b"
    using assms by (simp add: signed_take_bit_int_eq_self_iff)
  then show ?thesis using assms by (simp add: abs_diff_def Let_def)
qed

lemma pick_entry_ok:
  assumes "list_at m l es" and "pos < length es"
  shows "\<exists>m'. pick_entry m l pos = Some (Some (fst (es ! pos)), m') \<and> list_at m' l es \<and> keeps m m' l {} \<and>
           lm_entries m' = lm_entries m \<and> lm_brk m' = lm_brk m \<and>
           (\<exists>L. lm_lists m' l = Some L \<and> ll_cur L = Some (fst (es ! pos)) \<and> ll_pos L = pos)"
proof -
  from assms(1) obtain L where L: "lm_lists m l = Some L" "list_shape L es" "dll (lm_entries m) None es None"
    "distinct (map fst es)" "\<forall>a\<in>addrs es. a < lm_brk m" "length es < 2147483648"
    by (elim list_atE)
  let ?a = "Some (fst (es ! pos))"
  have len: "ll_length L = length es" using L(2) by (simp add: list_shape_def)
  have head: "ll_head L = Some (fst (es ! 0))" using L(2) assms(2) by (cases es) (auto simp: list_shape_def)
  have tail: "ll_tail L = Some (fst (es ! (length es - 1)))"
    using L(2) assms(2) by (cases es rule: rev_cases) (auto simp: list_shape_def)
  have up: "walk_up m (ll_head L) 0 pos = Some ?a"
    using walk_next_ok [OF L(3), of 0 pos] assms(2) L(6) by (simp add: walk_up_def head u32_def)
  have down: "walk_down m (ll_tail L) (length es - 1) pos = Some ?a"
    using walk_prev_ok [OF L(3), of "length es - 1 - pos" "length es - 1"] assms(2) L(6)
    by (simp add: walk_down_def tail u32_def)
  have near: "ll_pos L < length es \<and> (ll_pos L < pos \<longrightarrow> walk_up m (ll_cur L) (ll_pos L) pos = Some ?a) \<and>
      (ll_pos L > pos \<longrightarrow> walk_down m (ll_cur L) (ll_pos L) pos = Some ?a) \<and>
      (ll_pos L = pos \<longrightarrow> ll_cur L = ?a)"
    if "ll_cur L \<noteq> None"
  proof -
    from that L(2) have c: "ll_cur L = Some (fst (es ! ll_pos L))" "ll_pos L < length es"
      by (auto simp: list_shape_def)
    then show ?thesis
      using walk_next_ok [OF L(3), of "ll_pos L" "pos - ll_pos L"] walk_prev_ok [OF L(3), of "ll_pos L - pos" "ll_pos L"]
        assms(2) L(6) by (auto simp: walk_up_def walk_down_def u32_def)
  qed
  have "\<exists>near. (if ll_cur L = None then Some False
                 else do { d \<leftarrow> abs_diff (ll_pos L) pos; Some (d < length es div 2) }) = Some near \<and>
          (near \<longrightarrow> ll_cur L \<noteq> None)"
    using near abs_diff_small [of "ll_pos L" pos] assms(2) L(6) by (cases "ll_cur L = None") auto
  then obtain b where b: "(if ll_cur L = None then Some False
      else do { d \<leftarrow> abs_diff (ll_pos L) pos; Some (d < length es div 2) }) = Some b" "b \<Longrightarrow> ll_cur L \<noteq> None"
    by blast
  have "(if b then if ll_pos L < pos then walk_up m (ll_cur L) (ll_pos L) pos
             else if ll_pos L > pos then walk_down m (ll_cur L) (ll_pos L) pos
             else Some (ll_cur L)
          else if pos > length es div 2 then walk_down m (ll_tail L) (length es - 1) pos
          else walk_up m (ll_head L) 0 pos) = Some ?a"
    using near b(2) up down by (cases "ll_pos L" pos rule: linorder_cases) auto
  then have "pick_entry m l pos = Some (?a, set_list l (L\<lparr>ll_pos := pos, ll_cur := ?a\<rparr>) m)"
    using L(1) assms(2) by (simp only: pick_entry_def len Let_def b(1) bind.bind_lunit not_le if_False) simp
  moreover have "list_at (set_list l (L\<lparr>ll_pos := pos, ll_cur := ?a\<rparr>) m) l es"
    using assms L by (auto simp: list_at_def entries_ok_def list_shape_def set_list_def)
  moreover have "keeps m (set_list l (L\<lparr>ll_pos := pos, ll_cur := ?a\<rparr>) m) l {}"
    using L(1) by (simp add: keeps_def set_list_def)
  ultimately show ?thesis by (simp add: set_list_def)
qed

lemma pick_entry_none: "list_at m l es \<Longrightarrow> length es \<le> pos \<Longrightarrow> pick_entry m l pos = Some (None, m)"
  by (auto simp: pick_entry_def list_at_def list_shape_def split: option.splits)

lemma remove_entry_mid:
  assumes "list_at m l (es @ (a, v) # fs)" and "es \<noteq> []" and "fs \<noteq> []"
  shows "\<exists>m'. remove_entry m l (length es) = Some (Some a, m') \<and> list_at m' l (es @ fs) \<and> loose m' a v \<and>
           keeps m m' l (insert a (addrs (es @ fs))) \<and> lm_brk m' = lm_brk m"
proof -
  from pick_entry_ok [OF assms(1), of "length es"] obtain m1 L where
    pick: "pick_entry m l (length es) = Some (Some a, m1)" and at: "list_at m1 l (es @ (a, v) # fs)"
    and k: "keeps m m1 l {}" "lm_brk m1 = lm_brk m"
    and L: "lm_lists m1 l = Some L" "ll_cur L = Some a" "ll_pos L = length es"
    by auto
  from at L(1) have ends: "ll_head L = first es (Some a)" "ll_tail L = final (Some a) fs"
    "ll_length L = Suc (length es + length fs)" by (auto simp: list_at_def list_shape_def)
  from at have w: "dll (lm_entries m1) None (es @ (a, v) # fs) None" "distinct (map fst (es @ (a, v) # fs))"
    "\<forall>b\<in>addrs (es @ (a, v) # fs). b < lm_brk m1" "length (es @ (a, v) # fs) < 2147483648"
    by (auto simp: list_at_def entries_ok_def)
  from assms(2,3) obtain xs x xv y yv ys where es: "es = xs @ [(x, xv)]" and fs: "fs = (y, yv) # ys"
    by (metis list.exhaust rev_exhaust surj_pair)
  from w(1) obtain e ex ey where
    e: "lm_entries m1 a = Some e" "le_prev e = Some x" "le_next e = Some y" "le_value e = v"
    and ex: "lm_entries m1 x = Some ex" and ey: "lm_entries m1 y = Some ey"
    by (auto simp: es fs)
  let ?m = "set_list l (L\<lparr>ll_length := length es + length fs, ll_cur := None, ll_pos := 0\<rparr>)
    (m1\<lparr>lm_entries := (lm_entries m1)(x \<mapsto> ex\<lparr>le_next := Some y\<rparr>, y \<mapsto> ey\<lparr>le_prev := Some x\<rparr>, a \<mapsto> unlinked e)\<rparr>)"
  have d: "x \<noteq> y" "x \<noteq> a" "y \<noteq> a" using w(2) by (auto simp: es fs)
  have "remove_entry m l (length es) = Some (Some a, ?m)"
    using pick L e ex ey ends d by (simp add: remove_entry_def list_mem_defs dec64_eq es fs)
  moreover have "list_at ?m l (es @ fs)"
    using w e ex ey ends by (auto simp: list_at_def entries_ok_def list_shape_def set_list_def es fs addrs_def)
  moreover have "loose ?m a v" using e w(3) by (simp add: loose_def set_list_def unlinked_def)
  moreover have "keeps m1 ?m l (insert a (addrs (es @ fs)))"
    using L(1) by (auto simp: keeps_def set_list_def es fs)
  ultimately show ?thesis using k keeps_trans [of m m1 l "insert a (addrs (es @ fs))" ?m] keeps_mono [OF k(1)]
    by (auto simp: set_list_def)
qed

lemma remove_entry_none: "list_at m l es \<Longrightarrow> length es \<le> pos \<Longrightarrow> remove_entry m l pos = Some (None, m)"
  by (simp add: remove_entry_def pick_entry_none)

text \<open>The last part of \<open>insert_entry\<close>, for a position inside of the list.\<close>

lemma insert_entry_mid:
  assumes "list_at m l (es @ fs)" and "loose m a v" and "a \<notin> addrs (es @ fs)" and "length (es @ fs) < 2147483647"
    and "es \<noteq> []" and "fs \<noteq> []"
  shows "\<exists>m'. insert_entry m l (Some a) (length es) = Some (0, m') \<and> list_at m' l (es @ (a, v) # fs) \<and>
           keeps m m' l (insert a (addrs (es @ fs))) \<and> lm_brk m' = lm_brk m"
proof -
  from assms(5,6) obtain xs x xv y yv ys where es: "es = xs @ [(x, xv)]" and fs: "fs = (y, yv) # ys"
    by (metis list.exhaust rev_exhaust surj_pair)
  from pick_entry_ok [OF assms(1), of "length es - 1"] obtain m1 L where
    pick: "pick_entry m l (length es - 1) = Some (Some x, m1)" and at: "list_at m1 l (es @ fs)"
    and k: "keeps m m1 l {}" "lm_brk m1 = lm_brk m" "lm_entries m1 = lm_entries m"
    and L: "lm_lists m1 l = Some L" "ll_cur L = Some x" "ll_pos L = length es - 1"
    by (auto simp: es nth_append)
  from assms(1) obtain L0 where L0: "lm_lists m l = Some L0" "ll_length L0 = length es + length fs"
    by (auto simp: list_at_def list_shape_def)
  from at L(1) have ends: "ll_head L = first (es @ fs) None" "ll_tail L = final None (es @ fs)"
    "ll_length L = length es + length fs" by (auto simp: list_at_def list_shape_def)
  from at have w: "dll (lm_entries m1) None (es @ fs) None" "distinct (map fst (es @ fs))"
    "\<forall>b\<in>addrs (es @ fs). b < lm_brk m1"
    by (auto simp: list_at_def entries_ok_def)
  from assms(2) obtain e where e: "lm_entries m1 a = Some e" "le_value e = v" "a < lm_brk m1"
    using k by (auto elim: looseE)
  from w(1) obtain ex ey where
    ex: "lm_entries m1 x = Some ex" "le_next ex = Some y" and ey: "lm_entries m1 y = Some ey"
    by (auto simp: es fs)
  have d: "x \<noteq> y" "x \<noteq> a" "y \<noteq> a" using w(2) assms(3) by (auto simp: es fs)
  let ?m = "set_list l (L\<lparr>ll_length := Suc (length es + length fs)\<rparr>)
    (m1\<lparr>lm_entries := (lm_entries m1)(x \<mapsto> ex\<lparr>le_next := Some a\<rparr>, a \<mapsto> e\<lparr>le_prev := Some x, le_next := Some y\<rparr>,
       y \<mapsto> ey\<lparr>le_prev := Some a\<rparr>)\<rparr>)"
  have "insert_entry m l (Some a) (length es) = Some (0, ?m)"
    using L0 pick L e ex ey ends d assms(4)
    by (simp add: insert_entry_def list_mem_defs dec64_eq inc64_eq es fs fun_upd_twist)
  moreover have "list_at ?m l (es @ (a, v) # fs)"
    using w e ex ey ends L(2,3) assms(3,4)
    by (auto simp: list_at_def entries_ok_def list_shape_def set_list_def es fs addrs_def nth_append image_Un)
  moreover have "keeps m1 ?m l (insert a (addrs (es @ fs)))"
    using L(1) by (auto simp: keeps_def set_list_def es fs)
  ultimately show ?thesis using k keeps_trans [of m m1 l "insert a (addrs (es @ fs))" ?m] keeps_mono [OF k(1)]
    by (auto simp: set_list_def)
qed

section \<open>Allocation\<close>

lemma list_at_alloc:
  assumes "list_at m l es"
  shows "list_at (m\<lparr>lm_brk := Suc (lm_brk m)\<rparr>) l es"
    "list_at (m\<lparr>lm_brk := Suc (lm_brk m), lm_entries := (lm_entries m)(lm_brk m \<mapsto> e)\<rparr>) l es"
  using assms by (auto simp: list_at_def entries_ok_def)

lemma create_entry_ok:
  assumes "list_at m l es" and "\<not> lm_fails m (lm_brk m)"
  shows "\<exists>m'. create_entry m = (Some (lm_brk m), m') \<and> list_at m' l es \<and> loose m' (lm_brk m) None \<and>
           keeps m m' l {} \<and> lm_brk m \<notin> addrs es \<and> lm_brk m' = Suc (lm_brk m)"
  using assms list_at_alloc(2) [OF assms(1)]
  by (auto simp: create_entry_def Let_def loose_def keeps_def list_at_def entries_ok_def)

lemma create_entry_fail:
  assumes "list_at m l es" and "lm_fails m (lm_brk m)"
  shows "\<exists>m'. create_entry m = (None, m') \<and> list_at m' l es \<and> keeps m m' l {} \<and> lm_brk m' = Suc (lm_brk m)"
  using assms list_at_alloc(1) [OF assms(1)]
  by (auto simp: create_entry_def Let_def keeps_def)

lemma loose_keeps: "loose m a v \<Longrightarrow> keeps m m' l A \<Longrightarrow> a \<notin> A \<Longrightarrow> loose m' a v"
  by (auto simp: loose_def keeps_def)

text \<open>How many of \<open>n\<close> allocations in a row succeed, from the address \<open>a\<close> on.\<close>

fun made :: "(nat \<Rightarrow> bool) \<Rightarrow> nat \<Rightarrow> nat \<Rightarrow> nat" where
  "made fails a 0 = 0"
| "made fails a (Suc n) = (if fails a then 0 else Suc (made fails (Suc a) n))"

lemma made_le: "made fails a n \<le> n"
  by (induction fails a n rule: made.induct) auto

lemma made_all: "(\<And>i. \<not> fails i) \<Longrightarrow> made fails a n = n"
  by (induction fails a n rule: made.induct) auto

lemma pad_loop_ok:
  assumes "list_at m l es" and "length es \<le> pos" and "pos < 2147483648"
  shows "\<exists>ok m' ps. pad_loop m l (length es) pos = Some (ok, m') \<and> list_at m' l (es @ ps) \<and>
           set (map snd ps) \<subseteq> {None} \<and> length ps = made (lm_fails m) (lm_brk m) (pos - length es) \<and>
           (ok \<longleftrightarrow> length ps = pos - length es) \<and> keeps m m' l (addrs es) \<and> (\<forall>a\<in>addrs ps. lm_brk m \<le> a)"
  using assms
proof (induction "pos - length es" arbitrary: m es)
  case 0
  then show ?case by (intro exI [of _ True] exI [of _ m] exI [of _ "[]"]) (simp add: pad_loop.simps)
next
  case (Suc n)
  show ?case
  proof (cases "lm_fails m (lm_brk m)")
    case True
    with create_entry_fail [OF Suc.prems(1)] obtain m1 where
      "create_entry m = (None, m1)" "list_at m1 l es" "keeps m m1 l {}" by auto
    then show ?thesis
      using Suc.hyps(2) [symmetric] True keeps_mono [of m m1 l "{}" "addrs es"]
      by (intro exI [of _ False] exI [of _ m1] exI [of _ "[]"]) (auto simp: pad_loop.simps)
  next
    case False
    from create_entry_ok [OF Suc.prems(1) False] obtain m1 where
      c: "create_entry m = (Some (lm_brk m), m1)" "list_at m1 l es" "loose m1 (lm_brk m) None" "keeps m m1 l {}"
        "lm_brk m \<notin> addrs es" "lm_brk m1 = Suc (lm_brk m)" by auto
    have "length es < 2147483647" using Suc.hyps(2) Suc.prems(3) by linarith
    from push_entry_ok [OF c(2,3,5) this] obtain m2 where
      p: "push_entry m1 l (Some (lm_brk m)) = Some (0, m2)" "list_at m2 l (es @ [(lm_brk m, None)])"
        "keeps m1 m2 l (insert (lm_brk m) (addrs es))" "lm_brk m2 = lm_brk m1" by auto
    have k2: "keeps m m2 l (addrs es)"
      by (rule keeps_trans [OF keeps_mono [OF c(4)] p(3)]) auto
    obtain ok m' ps where IH: "pad_loop m2 l (length (es @ [(lm_brk m, None)])) pos = Some (ok, m')"
      "list_at m' l ((es @ [(lm_brk m, None)]) @ ps)" "set (map snd ps) \<subseteq> {None}"
      "length ps = made (lm_fails m2) (lm_brk m2) (pos - length (es @ [(lm_brk m, None)]))"
      "ok \<longleftrightarrow> length ps = pos - length (es @ [(lm_brk m, None)])"
      "keeps m2 m' l (addrs (es @ [(lm_brk m, None)]))" "\<forall>a\<in>addrs ps. lm_brk m2 \<le> a"
      using Suc.hyps(1) [of "es @ [(lm_brk m, None)]" m2] Suc.hyps(2) Suc.prems(2,3) p(2) by fastforce
    have "keeps m m' l (addrs es)" by (rule keeps_trans [OF k2 IH(6)]) auto
    moreover have "pad_loop m l (length es) pos = Some (ok, m')"
      using IH(1) c(1) p(1) Suc.hyps(2) Suc.prems(2,3) by (subst pad_loop.simps) (auto simp: u32_eq)
    moreover have "lm_fails m2 = lm_fails m" using k2 by (simp add: keeps_def)
    moreover have "pos - length es = Suc (pos - length (es @ [(lm_brk m, None)]))" using Suc.hyps(2) by simp
    ultimately show ?thesis
      using IH False c(6) p(4)
      by (intro exI [of _ ok] exI [of _ m'] exI [of _ "(lm_brk m, None) # ps"]) auto
  qed
qed

section \<open>Insertion and removal at a position\<close>

definition pads :: "('v, 'z) list_mem_scheme \<Rightarrow> (nat \<times> 'v option) list \<Rightarrow> nat \<Rightarrow> bool" where
  "pads m ps n \<longleftrightarrow> map snd ps = replicate n None \<and> (\<forall>a\<in>addrs ps. lm_brk m \<le> a)"

lemma all_None: "set (map snd ps) \<subseteq> {None} \<Longrightarrow> map snd ps = replicate (length ps) None"
  by (induction ps) auto

lemma insert_entry_ok:
  assumes "list_at m l es" and "loose m a v" and "a \<notin> addrs es" and "max (length es) pos < 2147483647"
    and "made (lm_fails m) (lm_brk m) (pos - length es) = pos - length es"
  shows "\<exists>m' ps. insert_entry m l (Some a) pos = Some (0, m') \<and> pads m ps (pos - length es) \<and>
           list_at m' l (take pos es @ ps @ (a, v) # drop pos es) \<and> keeps m m' l (insert a (addrs es))"
proof -
  from assms(1) obtain L where L: "lm_lists m l = Some L" "ll_length L = length es"
    by (auto simp: list_at_def list_shape_def)
  consider "pos = 0" | "0 < pos" "pos = length es" | "0 < pos" "pos < length es" | "length es < pos" by linarith
  then show ?thesis
  proof cases
    case 1
    then show ?thesis using unshift_entry_ok [OF assms(1-3)] assms(4) L
      by (auto simp: insert_entry_def pads_def)
  next
    case 2
    then show ?thesis using push_entry_ok [OF assms(1-3)] assms(4) L
      by (auto simp: insert_entry_def pads_def)
  next
    case 3
    then have "es \<noteq> []" by auto
    with 3 show ?thesis
      using insert_entry_mid [of m l "take pos es" "drop pos es" a v] assms(1-4)
      by (auto simp: pads_def)
  next
    case 4
    from pad_loop_ok [OF assms(1), of pos] 4 assms(4,5) obtain m1 ps where
      p: "pad_loop m l (length es) pos = Some (True, m1)" "list_at m1 l (es @ ps)" "set (map snd ps) \<subseteq> {None}"
        "length ps = pos - length es" "keeps m m1 l (addrs es)" "\<forall>a\<in>addrs ps. lm_brk m \<le> a"
      by auto
    have a: "loose m1 a v" "a \<notin> addrs (es @ ps)"
      using loose_keeps [OF assms(2) p(5) assms(3)] p(6) assms(2,3) by (auto simp: loose_def)
    from push_entry_ok [OF p(2) a] 4 assms(4) p(4) obtain m2 where
      q: "push_entry m1 l (Some a) = Some (0, m2)" "list_at m2 l ((es @ ps) @ [(a, v)])"
        "keeps m1 m2 l (insert a (addrs (es @ ps)))" by auto
    have "keeps m m2 l (insert a (addrs es))"
      by (rule keeps_trans [OF keeps_mono [OF p(5)] q(3)]) (use p(6) in auto)
    moreover have "insert_entry m l (Some a) pos = Some (0, m2)"
      using L 4 p(1) q(1) assms(4) by (simp add: insert_entry_def u32_eq)
    moreover have "pads m ps (pos - length es)" using p(4,6) all_None [OF p(3)] by (simp add: pads_def)
    ultimately show ?thesis using q(2) 4 by auto
  qed
qed

text \<open>An allocation of the padding fails: the empty entries made before stay in the list.\<close>

lemma insert_entry_padding_fails:
  assumes "list_at m l es" and "pos < 2147483647" and "made (lm_fails m) (lm_brk m) (pos - length es) < pos - length es"
  shows "\<exists>m' ps. insert_entry m l a pos = Some (- 1, m') \<and> pads m ps (made (lm_fails m) (lm_brk m) (pos - length es)) \<and>
           list_at m' l (es @ ps) \<and> keeps m m' l (addrs es)"
proof -
  from assms(1) obtain L where L: "lm_lists m l = Some L" "ll_length L = length es"
    by (auto simp: list_at_def list_shape_def)
  have pos: "length es < pos" using assms(3) by (cases "pos - length es") auto
  from pad_loop_ok [OF assms(1), of pos] pos assms(2,3) obtain m1 ps where
    p: "pad_loop m l (length es) pos = Some (False, m1)" "list_at m1 l (es @ ps)" "set (map snd ps) \<subseteq> {None}"
      "length ps = made (lm_fails m) (lm_brk m) (pos - length es)" "keeps m m1 l (addrs es)" "\<forall>a\<in>addrs ps. lm_brk m \<le> a"
    by auto
  have "insert_entry m l a pos = Some (- 1, m1)"
    using L pos p(1) assms(2) by (simp add: insert_entry_def u32_eq)
  moreover have "pads m ps (made (lm_fails m) (lm_brk m) (pos - length es))"
    using p(4,6) all_None [OF p(3)] by (simp add: pads_def)
  ultimately show ?thesis using p(2,5) by blast
qed

lemma fetch_entry_ok:
  assumes "list_at m l es" and "pos < length es"
  shows "\<exists>m'. fetch_entry m l pos = Some (Some (fst (es ! pos)), m') \<and> list_at m' l (take pos es @ drop (Suc pos) es) \<and>
           loose m' (fst (es ! pos)) (snd (es ! pos)) \<and> keeps m m' l (addrs es) \<and> lm_brk m' = lm_brk m"
proof -
  obtain a v where x: "es ! pos = (a, v)" by fastforce
  have es: "es = take pos es @ (a, v) # drop (Suc pos) es" using assms(2) x id_take_nth_drop [of pos es] by simp
  have n: "list_count m l = Some (length es)" using assms(1) by (auto simp: list_at_def list_shape_def list_count_def)
  have A: "insert a (addrs (take pos es @ drop (Suc pos) es)) = addrs es" by (subst (3) es) auto
  have at: "list_at m l (take pos es @ (a, v) # drop (Suc pos) es)" using assms(1) es by metis
  consider "pos = 0" | "0 < pos" "Suc pos = length es" | "0 < pos" "Suc pos < length es" using assms(2) by linarith
  then show ?thesis
  proof cases
    case 1
    then show ?thesis using shift_entry_ok [of m l a v "drop 1 es"] at A x by (simp add: fetch_entry_def)
  next
    case 2
    then have "pos = dec64 (length es)" by (cases es) (auto simp: dec64_def)
    then show ?thesis using 2 pop_entry_ok [of m l "take pos es" a v] at A x n
      by (simp add: fetch_entry_def)
  next
    case 3
    then have "pos \<noteq> dec64 (length es)" by (auto simp: dec64_def)
    moreover have "take pos es \<noteq> []" "drop (Suc pos) es \<noteq> []" "length (take pos es) = pos" using 3 by auto
    ultimately show ?thesis using 3 remove_entry_mid [OF at] A x n
      by (simp add: fetch_entry_def)
  qed
qed

lemma fetch_entry_none:
  assumes "list_at m l es" and "length es \<le> pos"
  shows "\<exists>m'. fetch_entry m l pos = Some (None, m') \<and> list_at m' l es \<and> keeps m m' l {} \<and> lm_brk m' = lm_brk m"
proof -
  have n: "list_count m l = Some (length es)" using assms(1) by (auto simp: list_at_def list_shape_def list_count_def)
  consider "pos = 0" "es = []" | "0 < pos" "es = []" "pos = dec64 (length es)" | "0 < pos" "pos \<noteq> dec64 (length es)"
    using assms(2) by (cases "es = []"; cases "pos = 0") (auto simp: dec64_def)
  then show ?thesis
  proof cases
    case 1
    then show ?thesis using shift_entry_empty assms(1) by (simp add: fetch_entry_def)
  next
    case 2
    then show ?thesis using pop_entry_empty assms(1) n by (simp add: fetch_entry_def)
  next
    case 3
    then show ?thesis using remove_entry_none [OF assms] assms(1) n by (simp add: fetch_entry_def)
  qed
qed

section \<open>Operations on values\<close>

text \<open>
  A step of the list \<open>l\<close> from \<open>es\<close> to \<open>es'\<close>: well-formed again, nothing else touched,
  no entry that another list may own.
\<close>

definition list_step :: "('v, 'z) list_mem_scheme \<Rightarrow> nat \<Rightarrow> (nat \<times> 'v option) list \<Rightarrow> ('v, 'z) list_mem_scheme \<Rightarrow> (nat \<times> 'v option) list \<Rightarrow> bool" where
  "list_step m l es m' es' \<longleftrightarrow> list_at m' l es' \<and> keeps m m' l (addrs es) \<and> (\<forall>a\<in>addrs es'. a \<in> addrs es \<or> lm_brk m \<le> a)"

lemma list_step_trans:
  assumes "list_step m l es m1 es1" and "list_step m1 l es1 m2 es2"
  shows "list_step m l es m2 es2"
proof -
  have b: "lm_brk m \<le> lm_brk m1" using assms(1) by (simp add: list_step_def keeps_def)
  have "keeps m m2 l (addrs es)"
    using keeps_trans [of m m1 l "addrs es" m2 "addrs es1"] assms by (auto simp: list_step_def)
  then show ?thesis using assms b by (fastforce simp: list_step_def)
qed

lemma list_step_keeps: "keeps m m' l {} \<Longrightarrow> list_at m' l es \<Longrightarrow> list_step m l es m' es"
  by (auto simp: list_step_def intro: keeps_mono)

lemma list_at_outside: "list_at m l es \<Longrightarrow> a \<notin> addrs es \<Longrightarrow> list_at (m\<lparr>lm_entries := (lm_entries m)(a := x)\<rparr>) l es"
  by (auto simp: list_at_def entries_ok_def)

lemma list_at_fresh: "list_at m l es \<Longrightarrow> lm_brk m \<le> a \<Longrightarrow> a \<notin> addrs es"
  by (auto simp: list_at_def entries_ok_def)

lemma destroy_loose:
  assumes "list_at m l es" and "loose m a v" and "a \<notin> addrs es"
  shows "\<exists>m'. destroy_entry m a = Some m' \<and> list_at m' l es \<and> keeps m m' l {a} \<and> lm_entries m' a = None"
  using assms list_at_outside [OF assms(1,3), of None]
  by (elim looseE) (auto simp: destroy_entry_def free_entry_def keeps_def)

lemma take_value_ok:
  assumes "list_at m l es" and "loose m a v" and "a \<notin> addrs es"
  shows "\<exists>m'. take_value (Some a, m) = Some (v, m') \<and> list_at m' l es \<and> keeps m m' l {a}"
  using destroy_loose [OF assms] assms(2) by (auto simp: take_value_def elim!: looseE)

text \<open>
  Adding a value: \<open>link\<close> is \<open>push_entry\<close>, \<open>unshift_entry\<close> or \<open>insert_entry\<close>.
\<close>

lemma add_value_start:
  assumes "list_at m l es" and "\<not> lm_fails m (lm_brk m)"
  shows "\<exists>m1. list_at m1 l es \<and> loose m1 (lm_brk m) v \<and> lm_brk m \<notin> addrs es \<and> lm_fails m1 = lm_fails m \<and>
           lm_brk m1 = Suc (lm_brk m) \<and> keeps m m1 l {} \<and>
           add_value m v t none link = do {
             (res, m') \<leftarrow> link m1 (Some (lm_brk m));
             if res \<noteq> 0 then do { m' \<leftarrow> destroy_entry m' (lm_brk m); Some (res, m') } else Some (res, m') }"
proof -
  from create_entry_ok [OF assms] obtain m1 where c: "create_entry m = (Some (lm_brk m), m1)"
    "list_at m1 l es" "loose m1 (lm_brk m) None" "keeps m m1 l {}" "lm_brk m \<notin> addrs es" "lm_brk m1 = Suc (lm_brk m)"
    by auto
  from c(3) obtain e where e: "lm_entries m1 (lm_brk m) = Some e" "le_list e = None" "le_prev e = None" "le_next e = None"
    by (elim looseE)
  let ?m = "m1\<lparr>lm_entries := (lm_entries m1)(lm_brk m \<mapsto> e\<lparr>le_value := v, le_tagged := t\<rparr>)\<rparr>"
  have "list_at ?m l es" by (rule list_at_outside [OF c(2,5)])
  moreover have "loose ?m (lm_brk m) v" using e c(6) by (simp add: loose_def)
  moreover have "keeps m ?m l {}" using c(4) by (auto simp: keeps_def)
  ultimately show ?thesis using c e(1)
    by (intro exI [of _ ?m]) (auto simp: add_value_def set_entry_def keeps_def)
qed

lemma add_value_ok:
  assumes "list_at m l es" and "\<not> lm_fails m (lm_brk m)"
    and link: "\<And>m1. list_at m1 l es \<Longrightarrow> loose m1 (lm_brk m) v \<Longrightarrow> lm_brk m \<notin> addrs es \<Longrightarrow> lm_fails m1 = lm_fails m \<Longrightarrow>
      lm_brk m1 = Suc (lm_brk m) \<Longrightarrow>
      \<exists>m' es'. link m1 (Some (lm_brk m)) = Some (0, m') \<and> list_at m' l es' \<and> map snd es' = vs \<and>
        keeps m1 m' l (insert (lm_brk m) (addrs es)) \<and> (\<forall>b\<in>addrs es'. b \<in> insert (lm_brk m) (addrs es) \<or> lm_brk m1 \<le> b)"
  shows "\<exists>m' es'. add_value m v t none link = Some (0, m') \<and> list_step m l es m' es' \<and> map snd es' = vs"
proof -
  from add_value_start [OF assms(1,2), of v t none link] obtain m1 where
    m1: "list_at m1 l es" "loose m1 (lm_brk m) v" "lm_brk m \<notin> addrs es" "lm_fails m1 = lm_fails m"
      "lm_brk m1 = Suc (lm_brk m)" "keeps m m1 l {}"
      "add_value m v t none link = do {
         (res, m') \<leftarrow> link m1 (Some (lm_brk m));
         if res \<noteq> 0 then do { m' \<leftarrow> destroy_entry m' (lm_brk m); Some (res, m') } else Some (res, m') }" by blast
  from link [OF m1(1-5)] obtain m' es' where
    l: "link m1 (Some (lm_brk m)) = Some (0, m')" "list_at m' l es'" "map snd es' = vs"
      "keeps m1 m' l (insert (lm_brk m) (addrs es))" "\<forall>b\<in>addrs es'. b \<in> insert (lm_brk m) (addrs es) \<or> lm_brk m1 \<le> b"
    by blast
  have "keeps m m' l (addrs es)" by (rule keeps_trans [OF keeps_mono [OF m1(6)] l(4)]) auto
  then have "list_step m l es m' es'" using l m1(5) by (auto simp: list_step_def)
  then show ?thesis using m1(7) l(1,3) by auto
qed

text \<open>When \<open>link\<close> fails, the new entry is released again.\<close>

lemma add_value_undone:
  assumes "list_at m l es" and "\<not> lm_fails m (lm_brk m)"
    and link: "\<And>m1. list_at m1 l es \<Longrightarrow> lm_fails m1 = lm_fails m \<Longrightarrow> lm_brk m1 = Suc (lm_brk m) \<Longrightarrow>
      \<exists>m' es'. link m1 (Some (lm_brk m)) = Some (- 1, m') \<and> list_at m' l es' \<and> map snd es' = vs \<and>
        keeps m1 m' l (addrs es) \<and> (\<forall>b\<in>addrs es'. b \<in> addrs es \<or> lm_brk m1 \<le> b)"
  shows "\<exists>m' es'. add_value m v t none link = Some (- 1, m') \<and> list_step m l es m' es' \<and> map snd es' = vs \<and>
           lm_entries m' (lm_brk m) = None"
proof -
  from add_value_start [OF assms(1,2), of v t none link] obtain m1 where
    m1: "list_at m1 l es" "loose m1 (lm_brk m) v" "lm_brk m \<notin> addrs es" "lm_fails m1 = lm_fails m"
      "lm_brk m1 = Suc (lm_brk m)" "keeps m m1 l {}"
      "add_value m v t none link = do {
         (res, m') \<leftarrow> link m1 (Some (lm_brk m));
         if res \<noteq> 0 then do { m' \<leftarrow> destroy_entry m' (lm_brk m); Some (res, m') } else Some (res, m') }" by blast
  from link [OF m1(1,4,5)] obtain m2 es' where
    l: "link m1 (Some (lm_brk m)) = Some (- 1, m2)" "list_at m2 l es'" "map snd es' = vs"
      "keeps m1 m2 l (addrs es)" "\<forall>b\<in>addrs es'. b \<in> addrs es \<or> lm_brk m1 \<le> b" by blast
  have a: "lm_brk m \<notin> addrs es'" using l(5) m1(3,5) by auto
  from destroy_loose [OF l(2) loose_keeps [OF m1(2) l(4) m1(3)] a] obtain m' where
    d: "destroy_entry m2 (lm_brk m) = Some m'" "list_at m' l es'" "keeps m2 m' l {lm_brk m}"
      "lm_entries m' (lm_brk m) = None" by blast
  have "keeps m m2 l (addrs es)" by (rule keeps_trans [OF keeps_mono [OF m1(6)] l(4)]) auto
  then have "keeps m m' l (addrs es)" by (rule keeps_trans [OF _ d(3)]) auto
  then have "list_step m l es m' es'" using d(2) l(5) m1(5) by (auto simp: list_step_def)
  then show ?thesis using m1(7) l(1,3) d(1,4) by auto
qed

lemma add_value_fail:
  assumes "list_at m l es" and "lm_fails m (lm_brk m)"
  shows "\<exists>m'. add_value m v t none link = Some (none, m') \<and> list_step m l es m' es \<and> lm_entries m' = lm_entries m"
  using create_entry_fail [OF assms] list_step_keeps assms(2) by (fastforce simp: add_value_def create_entry_def Let_def)

lemma list_push_value_ok:
  assumes "list_at m l es" and "\<not> lm_fails m (lm_brk m)" and "length es < 2147483647"
  shows "\<exists>m' es'. list_push_value m l v = Some (0, m') \<and> list_step m l es m' es' \<and> map snd es' = map snd es @ [v]"
  unfolding list_push_value_def
proof (rule add_value_ok [OF assms(1,2)], goal_cases)
  case (1 m1)
  with push_entry_ok [OF 1(1-3) assms(3)] show ?case by fastforce
qed

lemma list_unshift_value_ok:
  assumes "list_at m l es" and "\<not> lm_fails m (lm_brk m)" and "length es < 2147483647"
  shows "\<exists>m' es'. list_unshift_value m l v = Some (0, m') \<and> list_step m l es m' es' \<and> map snd es' = v # map snd es"
  unfolding list_unshift_value_def
proof (rule add_value_ok [OF assms(1,2)], goal_cases)
  case (1 m1)
  with unshift_entry_ok [OF 1(1-3) assms(3)] show ?case by fastforce
qed

text \<open>Insertion in plain lists: positions beyond the end are filled with \<open>None\<close>.\<close>

definition insert_at :: "nat \<Rightarrow> 'v option \<Rightarrow> 'v option list \<Rightarrow> 'v option list" where
  "insert_at pos v vs = take pos vs @ replicate (pos - length vs) None @ v # drop pos vs"

definition remove_at :: "nat \<Rightarrow> 'a list \<Rightarrow> 'a list" where
  "remove_at pos vs = take pos vs @ drop (Suc pos) vs"

lemma list_insert_value_made:
  assumes "list_at m l es" and "\<not> lm_fails m (lm_brk m)" and "max (length es) pos < 2147483647"
    and "made (lm_fails m) (Suc (lm_brk m)) (pos - length es) = pos - length es"
  shows "\<exists>m' es'. list_insert_value m l v pos = Some (0, m') \<and> list_step m l es m' es' \<and>
           map snd es' = insert_at pos v (map snd es)"
  unfolding list_insert_value_def
proof (rule add_value_ok [OF assms(1,2)], goal_cases)
  case (1 m1)
  let ?a = "lm_brk m"
  from insert_entry_ok [OF 1(1-3) assms(3)] 1(4,5) assms(4) obtain m' ps where
    i: "insert_entry m1 l (Some ?a) pos = Some (0, m')" "pads m1 ps (pos - length es)"
      "list_at m' l (take pos es @ ps @ (?a, v) # drop pos es)" "keeps m1 m' l (insert ?a (addrs es))" by auto
  have "\<forall>b\<in>addrs (take pos es @ ps @ (?a, v) # drop pos es). b \<in> insert ?a (addrs es) \<or> lm_brk m1 \<le> b"
    using i(2) addrs_take [of pos es] addrs_drop [of pos es] by (auto simp: pads_def)
  then show ?case using i
    by (intro exI [of _ m'] exI [of _ "take pos es @ ps @ (?a, v) # drop pos es"])
      (simp add: insert_at_def pads_def take_map drop_map)
qed

lemma list_insert_value_ok:
  assumes "list_at m l es" and "\<And>i. \<not> lm_fails m i" and "max (length es) pos < 2147483647"
  shows "\<exists>m' es'. list_insert_value m l v pos = Some (0, m') \<and> list_step m l es m' es' \<and>
           map snd es' = insert_at pos v (map snd es)"
  by (rule list_insert_value_made) (use assms made_all [of "lm_fails m"] in auto)

lemma list_insert_value_padding_fails:
  assumes "list_at m l es" and "\<not> lm_fails m (lm_brk m)" and "pos < 2147483647"
    and "made (lm_fails m) (Suc (lm_brk m)) (pos - length es) = k" and "k < pos - length es"
  shows "\<exists>m' es'. list_insert_value m l v pos = Some (- 1, m') \<and> list_step m l es m' es' \<and>
           map snd es' = map snd es @ replicate k None \<and> lm_entries m' (lm_brk m) = None"
  unfolding list_insert_value_def
proof (rule add_value_undone [OF assms(1,2)], goal_cases)
  case (1 m1)
  from insert_entry_padding_fails [OF 1(1) assms(3), of "Some (lm_brk m)"] 1(2,3) assms(4,5) obtain m' ps where
    "insert_entry m1 l (Some (lm_brk m)) pos = Some (- 1, m')" "pads m1 ps k" "list_at m' l (es @ ps)"
    "keeps m1 m' l (addrs es)" by auto
  then show ?case by (intro exI [of _ m'] exI [of _ "es @ ps"]) (auto simp: pads_def)
qed

lemma take_value_step:
  assumes "list_at m1 l es1" and "loose m1 a v" and "a \<notin> addrs es1" and "keeps m m1 l (addrs es)"
    and "addrs es = insert a (addrs es1)" and "list_at m l es"
  shows "\<exists>m'. take_value (Some a, m1) = Some (v, m') \<and> list_step m l es m' es1"
proof -
  from take_value_ok [OF assms(1-3)] obtain m' where t: "take_value (Some a, m1) = Some (v, m')" "list_at m' l es1"
    "keeps m1 m' l {a}" by auto
  have "keeps m m' l (addrs es)" by (rule keeps_trans [OF assms(4) t(3)]) (use assms(5) in auto)
  with t assms(5) show ?thesis by (auto simp: list_step_def)
qed

lemma list_at_distinct: "list_at m l es \<Longrightarrow> distinct (map fst es)"
  by (simp add: list_at_def entries_ok_def)

lemma list_fetch_value_ok:
  assumes "list_at m l es" and "pos < length es"
  shows "\<exists>m'. list_fetch_value m l pos = Some (snd (es ! pos), m') \<and> list_step m l es m' (remove_at pos es)"
proof -
  obtain a v where x: "es ! pos = (a, v)" by fastforce
  have es: "es = take pos es @ (a, v) # drop (Suc pos) es" using assms(2) x id_take_nth_drop [of pos es] by simp
  have "distinct (map fst (take pos es @ (a, v) # drop (Suc pos) es))" using list_at_distinct [OF assms(1)] es by metis
  then have a: "a \<notin> addrs (remove_at pos es)" by (auto simp: remove_at_def addrs_def)
  have A: "addrs es = insert a (addrs (remove_at pos es))"
    using arg_cong [OF es, of addrs] by (simp add: remove_at_def)
  from fetch_entry_ok [OF assms] obtain m1 where f: "fetch_entry m l pos = Some (Some a, m1)"
    "list_at m1 l (remove_at pos es)" "loose m1 a v" "keeps m m1 l (addrs es)" by (auto simp: x remove_at_def)
  then show ?thesis using take_value_step [OF f(2,3) a f(4) A assms(1)] by (simp add: list_fetch_value_def x)
qed

lemma list_fetch_value_none:
  assumes "list_at m l es" and "length es \<le> pos"
  shows "\<exists>m'. list_fetch_value m l pos = Some (None, m') \<and> list_step m l es m' es"
  using fetch_entry_none [OF assms] list_step_keeps by (fastforce simp: list_fetch_value_def take_value_def)

lemma list_shift_value_ok:
  assumes "list_at m l (x # es)"
  shows "\<exists>m'. list_shift_value m l = Some (snd x, m') \<and> list_step m l (x # es) m' es"
  using list_fetch_value_ok [OF assms, of 0]
  by (simp add: list_fetch_value_def list_shift_value_def fetch_entry_def remove_at_def)

lemma list_shift_value_empty:
  assumes "list_at m l []"
  shows "\<exists>m'. list_shift_value m l = Some (None, m') \<and> list_step m l [] m' []"
  using list_fetch_value_none [OF assms, of 0]
  by (simp add: list_fetch_value_def list_shift_value_def fetch_entry_def)

lemma list_pop_value_ok:
  assumes "list_at m l (es @ [x])"
  shows "\<exists>m'. list_pop_value m l = Some (snd x, m') \<and> list_step m l (es @ [x]) m' es"
proof -
  obtain a v where x: "x = (a, v)" by fastforce
  have a: "a \<notin> addrs es" using list_at_distinct [OF assms] by (auto simp: x addrs_def)
  from pop_entry_ok [of m l es a v] assms obtain m1 where p: "pop_entry m l = Some (Some a, m1)" "list_at m1 l es"
    "loose m1 a v" "keeps m m1 l (addrs (es @ [x]))" by (auto simp: x)
  then show ?thesis using take_value_step [OF p(2,3) a p(4) _ assms] by (simp add: list_pop_value_def x)
qed

lemma list_pop_value_empty:
  assumes "list_at m l []"
  shows "\<exists>m'. list_pop_value m l = Some (None, m') \<and> list_step m l [] m' []"
  using pop_entry_empty [OF assms] list_step_keeps by (fastforce simp: list_pop_value_def take_value_def)

lemma pick_entry_value:
  assumes "list_at m l es" and "pos < length es"
  shows "\<exists>m' e. pick_entry m l pos = Some (Some (fst (es ! pos)), m') \<and> list_step m l es m' es \<and>
           lm_entries m' (fst (es ! pos)) = Some e \<and> le_value e = snd (es ! pos)"
proof -
  from pick_entry_ok [OF assms] obtain m' where p: "pick_entry m l pos = Some (Some (fst (es ! pos)), m')"
    "list_at m' l es" "keeps m m' l {}" by auto
  from p(2) have "dll (lm_entries m') None es None" by (simp add: list_at_def entries_ok_def)
  from dll_nth [OF this assms(2)] p list_step_keeps show ?thesis by fastforce
qed

lemma list_pick_value_ok:
  assumes "list_at m l es" and "pos < length es"
  shows "\<exists>m'. list_pick_value m l pos = Some (snd (es ! pos), m') \<and> list_step m l es m' es"
  using pick_entry_value [OF assms] by (auto simp: list_pick_value_def entry_at_def)

lemma list_pick_value_none:
  assumes "list_at m l es" and "length es \<le> pos"
  shows "list_pick_value m l pos = Some (None, m)"
  by (simp add: list_pick_value_def pick_entry_none [OF assms])

lemma list_step_refl: "list_at m l es \<Longrightarrow> list_step m l es m es"
  by (simp add: list_step_def)

lemma list_at_update:
  assumes "list_at m l es" and "pos < length es" and "lm_entries m (fst (es ! pos)) = Some e"
  shows "list_step m l es (m\<lparr>lm_entries := (lm_entries m)(fst (es ! pos) \<mapsto> e\<lparr>le_value := v\<rparr>)\<rparr>) (es[pos := (fst (es ! pos), v)])"
proof -
  obtain a w where x: "es ! pos = (a, w)" by fastforce
  have es: "es = take pos es @ (a, w) # drop (Suc pos) es" using assms(2) x id_take_nth_drop [of pos es] by simp
  define xs ys where "xs = take pos es" and "ys = drop (Suc pos) es"
  have es: "es = xs @ (a, w) # ys" "pos = length xs" using es assms(2) by (auto simp: xs_def ys_def)
  from assms(1) obtain L where L: "lm_lists m l = Some L" "list_shape L es" "dll (lm_entries m) None es None"
    "distinct (map fst es)" "\<forall>a\<in>addrs es. a < lm_brk m" "length es < 2147483648"
    by (elim list_atE)
  have upd: "es[pos := (a, v)] = xs @ (a, v) # ys" by (simp add: es)
  have nth: "fst ((xs @ (a, v) # ys) ! i) = fst ((xs @ (a, w) # ys) ! i)" for i
    by (simp add: nth_append nth_Cons')
  have sh: "list_shape L (xs @ (a, v) # ys)" using L(2) nth by (simp add: list_shape_def es)
  have "list_at (m\<lparr>lm_entries := (lm_entries m)(a \<mapsto> e\<lparr>le_value := v\<rparr>)\<rparr>) l (xs @ (a, v) # ys)"
    using L sh assms(3) by (auto simp: list_at_def entries_ok_def es addrs_def)
  then show ?thesis using upd by (auto simp: list_step_def keeps_def es)
qed

lemma list_subst_value_ok:
  assumes "list_at m l es" and "pos < length es"
  shows "\<exists>m'. list_subst_value m l pos v = Some (snd (es ! pos), m') \<and>
           list_step m l es m' (es[pos := (fst (es ! pos), v)])"
proof -
  from pick_entry_value [OF assms] obtain m1 e where p: "pick_entry m l pos = Some (Some (fst (es ! pos)), m1)"
    "list_step m l es m1 es" "lm_entries m1 (fst (es ! pos)) = Some e" "le_value e = snd (es ! pos)" by auto
  from p(2) have "list_at m1 l es" by (simp add: list_step_def)
  from list_step_trans [OF p(2) list_at_update [OF this assms(2) p(3)]] p show ?thesis
    by (simp add: list_subst_value_def entry_at_def set_entry_def)
qed

lemma list_subst_value_none:
  assumes "list_at m l es" and "length es \<le> pos"
  shows "list_subst_value m l pos v = Some (None, m)"
  by (simp add: list_subst_value_def pick_entry_none [OF assms])

lemma list_set_value_ok:
  assumes "list_at m l es" and "pos < length es"
  shows "\<exists>m'. list_set_value m l pos v = Some (snd (es ! pos), m') \<and>
           list_step m l es m' (es[pos := (fst (es ! pos), v)])"
  using list_subst_value_ok [OF assms] pick_entry_ok [OF assms]
  by (auto simp: list_set_value_def list_subst_value_def)

lemma list_set_value_insert:
  assumes "list_at m l es" and "length es \<le> pos" and "\<And>i. \<not> lm_fails m i" and "pos < 2147483647"
  shows "\<exists>m' es'. list_set_value m l pos v = Some (None, m') \<and> list_step m l es m' es' \<and>
           map snd es' = insert_at pos v (map snd es)"
  using list_insert_value_ok [OF assms(1,3), of pos v] assms(2,4) pick_entry_none [OF assms(1,2)]
  by (auto simp: list_set_value_def)

text \<open>Moving an entry, the common part of \<open>move_entry\<close> and \<open>swap_entries\<close>.\<close>

lemma fetch_insert_ok:
  assumes "list_at m l es" and "src < length es" and "max (length es) dst < 2147483647" and "\<And>i. \<not> lm_fails m i"
  shows "\<exists>m1 m' es'. fetch_entry m l src = Some (Some (fst (es ! src)), m1) \<and>
           insert_entry m1 l (Some (fst (es ! src))) dst = Some (0, m') \<and> list_step m l es m' es' \<and>
           map snd es' = insert_at dst (map snd es ! src) (remove_at src (map snd es))"
proof -
  obtain a v where x: "es ! src = (a, v)" by fastforce
  have es: "es = take src es @ (a, v) # drop (Suc src) es" using assms(2) x id_take_nth_drop [of src es] by simp
  let ?r = "remove_at src es"
  have "distinct (map fst (take src es @ (a, v) # drop (Suc src) es))" using list_at_distinct [OF assms(1)] es by metis
  then have a: "a \<notin> addrs ?r" by (auto simp: remove_at_def addrs_def)
  have A: "addrs es = insert a (addrs ?r)"
    using arg_cong [OF es, of addrs] by (simp add: remove_at_def)
  have len: "length ?r = length es - 1" using assms(2) by (simp add: remove_at_def)
  from fetch_entry_ok [OF assms(1,2)] obtain m1 where f: "fetch_entry m l src = Some (Some a, m1)"
    "list_at m1 l ?r" "loose m1 a v" "keeps m m1 l (addrs es)" "lm_brk m1 = lm_brk m" by (auto simp: x remove_at_def)
  have "\<not> lm_fails m1 i" for i using f(4) assms(4) by (simp add: keeps_def)
  moreover have "max (length ?r) dst < 2147483647" using assms(3) len by auto
  ultimately obtain m' ps where
    i: "insert_entry m1 l (Some a) dst = Some (0, m')" "pads m1 ps (dst - length ?r)"
      "list_at m' l (take dst ?r @ ps @ (a, v) # drop dst ?r)" "keeps m1 m' l (insert a (addrs ?r))"
    using insert_entry_ok [OF f(2,3) a] made_all [of "lm_fails m1"] by blast
  have "\<forall>b\<in>addrs (take dst ?r @ ps @ (a, v) # drop dst ?r). b \<in> addrs es \<or> lm_brk m \<le> b"
    using i(2) f(5) A addrs_take [of dst ?r] addrs_drop [of dst ?r] by (auto simp: pads_def)
  moreover have "keeps m m' l (addrs es)" by (rule keeps_trans [OF f(4) i(4)]) (use A in auto)
  ultimately have "list_step m l es m' (take dst ?r @ ps @ (a, v) # drop dst ?r)"
    using i(3) by (simp add: list_step_def)
  moreover have "map snd (take dst ?r @ ps @ (a, v) # drop dst ?r) = insert_at dst (map snd es ! src) (remove_at src (map snd es))"
    using i(2) assms(2) x len by (simp add: insert_at_def pads_def remove_at_def take_map drop_map)
  ultimately show ?thesis using f(1) i(1) by (auto simp: x)
qed

lemma list_move_value_ok:
  assumes "list_at m l es" and "src < length es" and "max (length es) dst < 2147483647" and "\<And>i. \<not> lm_fails m i"
  shows "\<exists>m' es'. list_move_value m l src dst = Some (0, m') \<and> list_step m l es m' es' \<and>
           map snd es' = insert_at dst (map snd es ! src) (remove_at src (map snd es))"
  using fetch_insert_ok [OF assms] by (fastforce simp: list_move_value_def move_entry_def)

lemma list_move_value_none:
  assumes "list_at m l es" and "length es \<le> src"
  shows "\<exists>m'. list_move_value m l src dst = Some (- 1, m') \<and> list_step m l es m' es"
  using fetch_entry_none [OF assms] list_step_keeps by (fastforce simp: list_move_value_def move_entry_def)

lemma swap_lists:
  assumes "p < q" and "q < length vs"
  defines "ws \<equiv> insert_at p (vs ! q) (remove_at q vs)"
  shows "insert_at q (ws ! Suc p) (remove_at (Suc p) ws) = vs[p := vs ! q, q := vs ! p]" and "length ws = length vs"
proof -
  define xs ys zs where "xs = take p vs" and "ys = take (q - Suc p) (drop (Suc p) vs)" and "zs = drop (Suc q) vs"
  have "drop (Suc p) vs = ys @ drop (q - Suc p) (drop (Suc p) vs)"
    unfolding ys_def by (rule append_take_drop_id [symmetric])
  also have "drop (q - Suc p) (drop (Suc p) vs) = vs ! q # zs"
    using assms(1,2) by (simp add: zs_def Cons_nth_drop_Suc)
  finally have vs: "vs = xs @ vs ! p # ys @ vs ! q # zs"
    using assms(1,2) id_take_nth_drop [of p vs] by (simp add: xs_def)
  have len: "p = length xs" "q = length xs + Suc (length ys)" using assms(1,2) by (auto simp: xs_def ys_def)
  obtain x y where "vs = xs @ x # ys @ y # zs" using vs by blast
  then show "insert_at q (ws ! Suc p) (remove_at (Suc p) ws) = vs[p := vs ! q, q := vs ! p]" "length ws = length vs"
    unfolding ws_def len by (simp_all add: insert_at_def remove_at_def nth_append list_update_append)
qed

lemma list_swap_values_ok:
  assumes "list_at m l es" and "p < length es" and "q < length es" and "p \<noteq> q" and "length es < 2147483647"
    and "\<And>i. \<not> lm_fails m i"
  shows "\<exists>m' es'. list_swap_values m l p q = Some (0, m') \<and> list_step m l es m' es' \<and>
           map snd es' = (map snd es)[p := map snd es ! q, q := map snd es ! p]"
proof -
  have *: "\<exists>m' es'. do {
        (e2, m) \<leftarrow> fetch_entry m l q;
        (_, m) \<leftarrow> insert_entry m l e2 p;
        (e1, m) \<leftarrow> fetch_entry m l (p + 1);
        (_, m) \<leftarrow> insert_entry m l e1 q;
        Some (0 :: int, m)
      } = Some (0, m') \<and> list_step m l es m' es' \<and> map snd es' = (map snd es)[p := map snd es ! q, q := map snd es ! p]"
    if "p < q" "q < length es" for p q
  proof -
    from fetch_insert_ok [OF assms(1), of q p] that assms(5,6) obtain m1 m2 es2 where
      1: "fetch_entry m l q = Some (Some (fst (es ! q)), m1)" "insert_entry m1 l (Some (fst (es ! q))) p = Some (0, m2)"
        "list_step m l es m2 es2" "map snd es2 = insert_at p (map snd es ! q) (remove_at q (map snd es))" by auto
    have q: "q < length (map snd es)" using that(2) by simp
    note sw = swap_lists [OF that(1) q, folded 1(4)]
    have len: "length es2 = length es" using sw(2) by simp
    have at: "list_at m2 l es2" "\<not> lm_fails m2 i" for i
      using 1(3) assms(6) by (auto simp: list_step_def keeps_def)
    from fetch_insert_ok [OF at(1), of "Suc p" q] that assms(5) at(2) len obtain m3 m4 es4 where
      2: "fetch_entry m2 l (Suc p) = Some (Some (fst (es2 ! Suc p)), m3)" "insert_entry m3 l (Some (fst (es2 ! Suc p))) q = Some (0, m4)"
        "list_step m2 l es2 m4 es4" "map snd es4 = insert_at q (map snd es2 ! Suc p) (remove_at (Suc p) (map snd es2))" by auto
    show ?thesis using 1(1,2) 2 sw(1) list_step_trans [OF 1(3) 2(3)] by auto
  qed
  show ?thesis
  proof (cases "p < q")
    case True
    then show ?thesis using * [OF True assms(3)] by (simp add: list_swap_values_def swap_entries_def)
  next
    case False
    then have qp: "q < p" using assms(4) by simp
    then show ?thesis using * [OF qp assms(2)] assms(4)
      by (simp add: list_swap_values_def swap_entries_def list_update_swap)
  qed
qed

section \<open>Iteration\<close>

text \<open>What \<open>slice_foreach_value\<close> does with the values from its offset on.\<close>

fun foreach_spec ::
  "('v option \<Rightarrow> nat \<Rightarrow> 'u \<Rightarrow> int \<times> 'u) \<Rightarrow> nat \<Rightarrow> nat \<Rightarrow> 'u \<Rightarrow> 'v option list \<Rightarrow> nat \<times> nat \<times> 'u \<times> 'v option list" where
  "foreach_spec f idx len u [] = (idx, len, u, [])"
| "foreach_spec f idx len u (v # vs) =
     (if \<not> idx < len then (idx, len, u, v # vs)
      else let (rc, u) = f v idx u in
        if rc = 0 then (Suc idx, len, u, v # vs)
        else if rc = - 2 then (Suc idx, len - 1, u, vs)
        else if rc = - 1 then foreach_spec f (Suc idx) (len - 1) u vs
        else let (i, n, u, ws) = foreach_spec f (Suc idx) len u vs in (i, n, u, v # ws))"

text \<open>The cursor is not behind the entry that the loop looks at.\<close>

definition cursor_upto :: "('v, 'z) list_mem_scheme \<Rightarrow> nat \<Rightarrow> nat \<Rightarrow> bool" where
  "cursor_upto m l n \<longleftrightarrow> (\<exists>L. lm_lists m l = Some L \<and> (ll_cur L \<noteq> None \<longrightarrow> ll_pos L \<le> n))"

lemma shape_remove:
  assumes "list_shape L (es @ (d, v) # fs)" and "ll_cur L \<noteq> None \<longrightarrow> ll_pos L \<le> length es"
    and "d \<notin> addrs (es @ fs)"
  shows "list_shape (L\<lparr>ll_head := first (es @ fs) None, ll_tail := final None (es @ fs),
           ll_cur := (if ll_cur L = Some d then None else ll_cur L), ll_length := length (es @ fs)\<rparr>) (es @ fs)"
proof (cases "ll_cur L = None \<or> ll_cur L = Some d")
  case False
  then have c: "ll_cur L = Some (fst ((es @ (d, v) # fs) ! ll_pos L))" "ll_pos L \<le> length es"
    using assms(1,2) by (auto simp: list_shape_def)
  with False have "ll_pos L \<noteq> length es" by auto
  then show ?thesis using False c by (simp add: list_shape_def nth_append)
qed (auto simp: list_shape_def)

lemma foreach_unlink_ok:
  assumes "list_at m l (es @ (d, v) # fs)" and "cursor_upto m l (length es)"
  shows "\<exists>m' D. foreach_unlink m l (Some d) (first fs None) = Some m' \<and> list_at m' l (es @ fs) \<and>
           lm_entries m' d = Some D \<and> le_list D = None \<and> cursor_upto m' l (length es) \<and>
           keeps m m' l (addrs (es @ (d, v) # fs)) \<and> lm_brk m' = lm_brk m"
proof -
  from assms(1) obtain L where L: "lm_lists m l = Some L" "list_shape L (es @ (d, v) # fs)"
    "dll (lm_entries m) None (es @ (d, v) # fs) None" "distinct (map fst (es @ (d, v) # fs))"
    "\<forall>a\<in>addrs (es @ (d, v) # fs). a < lm_brk m" "length (es @ (d, v) # fs) < 2147483648"
    by (elim list_atE)
  have cur: "ll_cur L \<noteq> None \<longrightarrow> ll_pos L \<le> length es" using assms(2) L(1) by (simp add: cursor_upto_def)
  have d: "d \<notin> addrs (es @ fs)" using L(4) by (auto simp: addrs_def)
  have ends: "ll_head L = first es (Some d)" "ll_tail L = final (Some d) fs" "ll_length L = Suc (length es + length fs)"
    using L(2) by (auto simp: list_shape_def)
  let ?L = "L\<lparr>ll_head := first (es @ fs) None, ll_tail := final None (es @ fs),
      ll_cur := (if ll_cur L = Some d then None else ll_cur L), ll_length := length (es @ fs)\<rparr>"
  from L(3) obtain e where e: "lm_entries m d = Some e" "le_prev e = final None es" "le_next e = first fs None"
    and seg: "dll (lm_entries m) None es (Some d)" "dll (lm_entries m) (Some d) fs None" by auto
  have fin: ?thesis
    if "foreach_unlink m l (Some d) (first fs None) = Some (set_list l ?L (m\<lparr>lm_entries := h(d \<mapsto> e\<lparr>le_list := None\<rparr>)\<rparr>))"
      "dll h None (es @ fs) None" "\<And>a. a \<notin> addrs (es @ (d, v) # fs) \<Longrightarrow> h a = lm_entries m a" for h
  proof -
    have "dll (h(d \<mapsto> e\<lparr>le_list := None\<rparr>)) None (es @ fs) None" using that(2) d by simp
    then show ?thesis using that(1,3) shape_remove [OF L(2) cur d] L(1,4,5,6) cur
      by (auto simp: list_at_def entries_ok_def set_list_def cursor_upto_def keeps_def)
  qed
  have dist: "distinct (map fst es)" "distinct (map fst fs)" "fst ` set es \<inter> fst ` set fs = {}" "d \<notin> addrs es" "d \<notin> addrs fs"
    using L(4) d by auto
  show ?thesis
  proof (cases es rule: rev_cases)
    case Nil
    show ?thesis
    proof (cases fs)
      case Nil2: Nil
      show ?thesis
        by (rule fin [of "lm_entries m"])
          (use L(1) ends e Nil Nil2 in \<open>cases L, auto simp: foreach_unlink_def list_mem_defs dec64_eq\<close>)
    next
      case (Cons y ys)
      then obtain b w where fs: "fs = (b, w) # ys" by (cases y) auto
      then obtain f where f: "lm_entries m b = Some f" using seg(2) by auto
      have "b \<noteq> d" using dist(5) by (auto simp: fs)
      moreover have "final (Some b) ys \<noteq> Some d" using dist(5) by (auto simp: fs final_def addrs_def)
      ultimately show ?thesis
        by (intro fin [of "(lm_entries m)(b \<mapsto> f\<lparr>le_prev := None\<rparr>)"])
          (use L(1) ends e Nil f dist seg in \<open>cases L, auto simp: foreach_unlink_def list_mem_defs dec64_eq fs addrs_def\<close>)
    qed
  next
    case (snoc xs x)
    then obtain b w where es: "es = xs @ [(b, w)]" by (cases x) auto
    then obtain f where f: "lm_entries m b = Some f" using seg(1) by auto
    have b: "b \<noteq> d" "first xs (Some b) \<noteq> Some d"
      using dist(4) by (auto simp: es first_def addrs_def split: list.splits)
    show ?thesis
    proof (cases fs)
      case Nil
      with b show ?thesis
        by (intro fin [of "(lm_entries m)(b \<mapsto> f\<lparr>le_next := None\<rparr>)"])
          (use L(1) ends e f dist seg in \<open>cases L, auto simp: foreach_unlink_def list_mem_defs dec64_eq es addrs_def\<close>)
    next
      case (Cons y ys)
      then obtain c z where fs: "fs = (c, z) # ys" by (cases y) auto
      then obtain g where g: "lm_entries m c = Some g" using seg(2) by auto
      have c: "c \<noteq> d" "final (Some c) ys \<noteq> Some d" "b \<noteq> c"
        using dist by (auto simp: es fs final_def addrs_def)
      with b show ?thesis
        by (intro fin [of "(lm_entries m)(c \<mapsto> g\<lparr>le_prev := Some b\<rparr>, b \<mapsto> f\<lparr>le_next := Some c\<rparr>)"])
          (use L(1) ends e f g dist seg in \<open>cases L, auto simp: foreach_unlink_def list_mem_defs dec64_eq es fs addrs_def\<close>)
    qed
  qed
qed

lemma foreach_remove_ok:
  assumes "list_at m l (es @ (d, v) # fs)" and "cursor_upto m l (length es)"
  shows "\<exists>m1 m'. foreach_unlink m l (Some d) (first fs None) = Some m1 \<and> destroy_entry m1 d = Some m' \<and>
           cursor_upto m' l (length es) \<and> list_step m l (es @ (d, v) # fs) m' (es @ fs)"
proof -
  from foreach_unlink_ok [OF assms] obtain m1 D where
    u: "foreach_unlink m l (Some d) (first fs None) = Some m1" "list_at m1 l (es @ fs)" "lm_entries m1 d = Some D"
      "le_list D = None" "cursor_upto m1 l (length es)" "keeps m m1 l (addrs (es @ (d, v) # fs))" by auto
  have d: "d \<notin> addrs (es @ fs)" using list_at_distinct [OF assms(1)] by (auto simp: addrs_def)
  let ?m = "m1\<lparr>lm_entries := (lm_entries m1)(d := None)\<rparr>"
  have k: "keeps m1 ?m l {d}" by (simp add: keeps_def)
  have "keeps m ?m l (addrs (es @ (d, v) # fs))" by (rule keeps_trans [OF u(6) k]) auto
  moreover have "list_at ?m l (es @ fs)" by (rule list_at_outside [OF u(2) d])
  moreover have "destroy_entry m1 d = Some ?m" using u(3,4) by (simp add: destroy_entry_def free_entry_def)
  moreover have "cursor_upto ?m l (length es)" using u(5) by (simp add: cursor_upto_def)
  ultimately show ?thesis using u(1) by (auto simp: list_step_def)
qed

lemma foreach_loop_ok:
  assumes "list_at m l (es @ fs)" and "cursor_upto m l (length es)" and "idx + length fs < 2147483648"
    and "foreach_spec f idx len u (map snd fs) = (i, n, u', ws)"
  shows "\<exists>m' gs. foreach_loop f m l (first fs None) idx len u = Some (i, n, u', m') \<and>
           list_step m l (es @ fs) m' (es @ gs) \<and> map snd gs = ws"
  using assms
proof (induction fs arbitrary: m es idx len u i n u' ws)
  case Nil
  then show ?case by (auto simp: foreach_loop.simps intro: list_step_refl)
next
  case (Cons x fs)
  obtain d v where x: "x = (d, v)" by fastforce
  obtain rc u1 where rc: "f v idx u = (rc, u1)" by fastforce
  note at = Cons.prems(1) [unfolded x]
  from at obtain e where e: "lm_entries m d = Some e" "le_next e = first fs None" "le_value e = v"
    by (auto simp: list_at_def entries_ok_def)
  have inc: "inc64 idx = Suc idx" using Cons.prems(3) by (simp add: inc64_eq)
  note step = foreach_loop.simps [of f m l "Some d"]
  from foreach_remove_ok [OF at Cons.prems(2)] obtain m1 m2 where
    r: "foreach_unlink m l (Some d) (first fs None) = Some m1" "destroy_entry m1 d = Some m2"
      "cursor_upto m2 l (length es)" "list_step m l (es @ (d, v) # fs) m2 (es @ fs)" by auto
  have at2: "list_at m2 l (es @ fs)" using r(4) by (simp add: list_step_def)
  consider "\<not> idx < len" | "idx < len" "rc = 0" | "idx < len" "rc = - 2" | "idx < len" "rc = - 1"
    | "idx < len" "rc \<noteq> 0" "rc \<noteq> - 2" "rc \<noteq> - 1" by blast
  then show ?case
  proof cases
    case 1
    then show ?thesis using Cons.prems(4) list_step_refl [OF at] by (auto simp: x step)
  next
    case 2
    then show ?thesis using Cons.prems(4) list_step_refl [OF at] e inc rc by (auto simp: x step entry_at_def)
  next
    case 3
    then show ?thesis using Cons.prems(4) r e inc rc by (auto simp: x step entry_at_def dec64_eq)
  next
    case 4
    with Cons.prems(4) have sp: "foreach_spec f (Suc idx) (len - 1) u1 (map snd fs) = (i, n, u', ws)"
      by (simp add: x rc)
    from Cons.IH [OF at2 r(3) _ sp] Cons.prems(3) obtain m' gs where
      IH: "foreach_loop f m2 l (first fs None) (Suc idx) (len - 1) u1 = Some (i, n, u', m')"
        "list_step m2 l (es @ fs) m' (es @ gs)" "map snd gs = ws" by auto
    show ?thesis using IH list_step_trans [OF r(4) IH(2)] 4 r(1,2) e inc rc by (auto simp: x step entry_at_def dec64_eq)
  next
    case 5
    obtain ws1 where sp: "foreach_spec f (Suc idx) len u1 (map snd fs) = (i, n, u', ws1)" "ws = v # ws1"
      using 5 Cons.prems(4) by (auto simp: x rc split: prod.splits)
    have at3: "list_at m l ((es @ [(d, v)]) @ fs)" using at by simp
    have "cursor_upto m l (length (es @ [(d, v)]))" using Cons.prems(2) by (auto simp: cursor_upto_def)
    from Cons.IH [OF at3 this _ sp(1)] Cons.prems(3) obtain m' gs where
      IH: "foreach_loop f m l (first fs None) (Suc idx) len u1 = Some (i, n, u', m')"
        "list_step m l ((es @ [(d, v)]) @ fs) m' ((es @ [(d, v)]) @ gs)" "map snd gs = ws1" by auto
    then show ?thesis using 5 e inc rc sp(2)
      by (auto simp: x step entry_at_def intro!: exI [of _ "(d, v) # gs"])
  qed
qed

lemma slice_foreach_ok:
  assumes "list_at m l es" and "off \<le> length es" and "foreach_spec f 0 len u (drop off (map snd es)) = (i, n, u', ws)"
  shows "\<exists>m' es'. slice_foreach f m \<lparr>sl_list = l, sl_offset = off, sl_length = len\<rparr> u =
             Some (to_int i, \<lparr>sl_list = l, sl_offset = off, sl_length = n\<rparr>, u', m') \<and>
           list_step m l es m' es' \<and> map snd es' = take off (map snd es) @ ws"
proof (cases "off < length es")
  case True
  from pick_entry_ok [OF assms(1) True] obtain m1 L where
    p: "pick_entry m l off = Some (Some (fst (es ! off)), m1)" "list_at m1 l es" "keeps m m1 l {}"
      "lm_lists m1 l = Some L" "ll_pos L = off" by auto
  have at: "list_at m1 l (take off es @ drop off es)" using p(2) by simp
  have cur: "cursor_upto m1 l (length (take off es))" using p(4,5) True by (simp add: cursor_upto_def)
  have len: "0 + length (drop off es) < 2147483648" using p(2) by (auto simp: list_at_def entries_ok_def)
  have fst: "first (drop off es) None = Some (fst (es ! off))" using True by (simp add: Cons_nth_drop_Suc [symmetric])
  obtain m' gs where g: "foreach_loop f m1 l (first (drop off es) None) 0 len u = Some (i, n, u', m')"
    "list_step m1 l (take off es @ drop off es) m' (take off es @ gs)" "map snd gs = ws"
    using foreach_loop_ok [OF at cur len, of f len u i n u' ws] assms(3) by (auto simp: drop_map)
  have "list_step m l es m' (take off es @ gs)"
    using list_step_trans [OF list_step_keeps [OF p(3,2)]] g(2) by simp
  then show ?thesis using p(1) g(1,3) fst
    by (auto simp: slice_foreach_def take_map intro!: exI [of _ "take off es @ gs"])
next
  case False
  then show ?thesis using assms pick_entry_none [OF assms(1), of off] list_step_refl [OF assms(1)]
    by (auto simp: slice_foreach_def foreach_loop.simps)
qed

lemma list_foreach_value_ok:
  assumes "list_at m l es" and "foreach_spec f 0 (length es) u (map snd es) = (i, n, u', ws)"
  shows "\<exists>m' es'. list_foreach_value f m l u = Some (to_int i, u', m') \<and> list_step m l es m' es' \<and> map snd es' = ws"
proof -
  from assms(1) obtain L where "lm_lists m l = Some L" "ll_length L = length es"
    by (auto simp: list_at_def list_shape_def)
  then show ?thesis using slice_foreach_ok [OF assms(1), of 0 f "length es" u i n u' ws] assms(2)
    by (auto simp: list_foreach_value_def)
qed

section \<open>Clearing\<close>

definition untagged :: "('v, 'z) list_mem_scheme \<Rightarrow> (nat \<times> 'v option) list \<Rightarrow> bool" where
  "untagged m es \<longleftrightarrow> (\<forall>a\<in>addrs es. map_option le_tagged (lm_entries m a) \<noteq> Some True)"

lemma set_entry_tags:
  assumes "set_entry p f m = Some m'" and "\<And>e. le_tagged (f e) = le_tagged e"
  shows "map_option le_tagged (lm_entries m' a) = map_option le_tagged (lm_entries m a)"
  using assms by (auto simp: set_entry_def split: option.splits)

lemma set_entry_opt_tags:
  assumes "set_entry_opt p f m = Some m'" and "\<And>e. le_tagged (f e) = le_tagged e"
  shows "map_option le_tagged (lm_entries m' a) = map_option le_tagged (lm_entries m a)"
  using assms set_entry_tags [of p f m m' a] by (cases p) (simp_all add: set_entry_opt_def)

lemma shift_entry_tags:
  assumes "shift_entry m l = Some (r, m')"
  shows "map_option le_tagged (lm_entries m' a) = map_option le_tagged (lm_entries m a)"
proof -
  from assms obtain L where L: "lm_lists m l = Some L" by (auto simp: shift_entry_def bind_eq_Some_conv)
  show ?thesis
  proof (cases "ll_head L = None")
    case True
    then show ?thesis using assms L by (auto simp: shift_entry_def set_list_def Let_def)
  next
    case False
    with assms L obtain n m1 m2 where 1: "set_entry_opt n (\<lambda>e. e\<lparr>le_prev := None\<rparr>) m = Some m1"
      and 2: "set_entry (ll_head L) unlinked m1 = Some m2" and 3: "lm_entries m' = lm_entries m2"
      by (auto simp: shift_entry_def set_list_def Let_def bind_eq_Some_conv)
    then show ?thesis using set_entry_opt_tags [OF 1, of a] set_entry_tags [OF 2, of a] by (simp add: unlinked_def)
  qed
qed

lemma list_clear_ok:
  assumes "list_at m l es" and "untagged m es" and "map_option ll_free_cb (lm_lists m l) = Some cb"
  shows "\<exists>m'. list_clear dt m l = Some m' \<and> list_at m' l [] \<and> (\<forall>a\<in>addrs es. lm_entries m' a = None) \<and>
           lm_freed m' = lm_freed m @ (if cb then map snd es else []) \<and> keeps m (m'\<lparr>lm_freed := lm_freed m\<rparr>) l (addrs es)"
  using assms
proof (induction es arbitrary: m)
  case Nil
  with shift_entry_empty [OF Nil.prems(1)] obtain m1 where
    "shift_entry m l = Some (None, m1)" "list_at m1 l []" "keeps m m1 l {}" by auto
  then show ?case by (subst list_clear.simps) (auto simp: keeps_def)
next
  case (Cons x es)
  obtain a v where x: "x = (a, v)" by fastforce
  from shift_entry_ok [of m l a v es] Cons.prems(1) obtain m1 where
    s: "shift_entry m l = Some (Some a, m1)" "list_at m1 l es" "loose m1 a v" "keeps m m1 l (addrs (x # es))"
      "lm_brk m1 = lm_brk m" by (auto simp: x)
  from s(3) obtain e where e: "lm_entries m1 a = Some e" "le_list e = None" "le_value e = v" by (elim looseE)
  have ut: "untagged m1 (x # es)"
    using Cons.prems(2) by (simp add: untagged_def shift_entry_tags [OF s(1)])
  then have ut: "\<not> le_tagged e" "untagged m1 es" using e(1) by (simp_all add: untagged_def x)
  from s(4) Cons.prems(3) obtain L where L: "lm_lists m1 l = Some L" "ll_free_cb L = cb" by (auto simp: keeps_def)
  have a: "a \<notin> addrs es" using list_at_distinct [OF Cons.prems(1)] by (simp add: x addrs_def)
  let ?m = "m1\<lparr>lm_freed := lm_freed m1 @ (if cb then [v] else []), lm_entries := (lm_entries m1)(a := None)\<rparr>"
  have at: "list_at ?m l es" using list_at_outside [OF s(2) a, of None] by (simp add: list_at_def entries_ok_def)
  have "untagged ?m es" using ut(2) a by (auto simp: untagged_def)
  with Cons.IH [OF at] L obtain m' where IH: "list_clear dt ?m l = Some m'" "list_at m' l []"
    "\<forall>a\<in>addrs es. lm_entries m' a = None" "lm_freed m' = lm_freed ?m @ (if cb then map snd es else [])"
    "keeps ?m (m'\<lparr>lm_freed := lm_freed ?m\<rparr>) l (addrs es)" by auto
  have "lm_entries m' a = None"
    using IH(5) a s(3) by (simp add: keeps_def loose_def)
  moreover have "lm_freed m1 = lm_freed m" using s(4) by (simp add: keeps_def)
  moreover have "keeps m (m'\<lparr>lm_freed := lm_freed m\<rparr>) l (addrs (x # es))"
    using s(4) IH(5) by (auto simp: keeps_def x)
  moreover have "list_clear dt m l = list_clear dt ?m l"
    using s(1) e L ut(1)
    by (subst list_clear.simps) (simp add: destroy_entry_def free_entry_def)
  ultimately show ?case using IH by (simp add: x)
qed

text \<open>The slices of a list: the entries of the chain with the slices that they hold.\<close>

fun slices_at :: "('v, 'z) list_mem_scheme \<Rightarrow> nat \<Rightarrow> nat option \<Rightarrow> (nat \<times> nat) list \<Rightarrow> bool" where
  "slices_at m l p [] = (p = None)"
| "slices_at m l p ((a, s) # ss) =
     (p = Some a \<and> (\<exists>e sl. lm_slice_entries m a = Some e \<and> le_value e = Some s \<and> lm_slices m s = Some sl \<and> sl_list sl = l \<and>
        slices_at m l (le_next e) ss))"

lemma slices_at_other:
  "a \<notin> fst ` set ss \<Longrightarrow> s \<notin> snd ` set ss \<Longrightarrow>
   slices_at (m\<lparr>lm_lists := LL, lm_slice_entries := (lm_slice_entries m)(a := x), lm_slices := (lm_slices m)(s := y)\<rparr>) l p ss =
   slices_at m l p ss"
proof (induction ss arbitrary: p)
  case (Cons b ss)
  then show ?case by (cases b) auto
qed simp

lemma destroy_slices_ok:
  assumes "slices_at m l (ll_slices L) ss" and "lm_lists m l = Some L" and "distinct (map fst ss)" and "distinct (map snd ss)"
  shows "\<exists>m'. destroy_slices m l = Some m' \<and> lm_lists m' = (lm_lists m)(l \<mapsto> L\<lparr>ll_slices := None\<rparr>) \<and>
           lm_entries m' = lm_entries m \<and> lm_brk m' = lm_brk m \<and> lm_freed m' = lm_freed m \<and>
           (\<forall>s\<in>set ss. lm_slice_entries m' (fst s) = None \<and> lm_slices m' (snd s) = None) \<and>
           (\<forall>b. lm_slice_entries m b = None \<longrightarrow> lm_slice_entries m' b = None) \<and>
           (\<forall>b. lm_slices m b = None \<longrightarrow> lm_slices m' b = None)"
  using assms
proof (induction ss arbitrary: m L)
  case Nil
  then show ?case by (subst destroy_slices.simps) (auto simp: fun_upd_idem)
next
  case (Cons x ss)
  obtain a s where x: "x = (a, s)" by fastforce
  from Cons.prems(1) obtain e sl where e: "ll_slices L = Some a" "lm_slice_entries m a = Some e" "le_value e = Some s"
    "lm_slices m s = Some sl" "sl_list sl = l" "slices_at m l (le_next e) ss" by (auto simp: x)
  let ?L = "L\<lparr>ll_slices := le_next e\<rparr>"
  let ?m = "m\<lparr>lm_lists := (lm_lists m)(l \<mapsto> ?L), lm_slice_entries := (lm_slice_entries m)(a := None),
    lm_slices := (lm_slices m)(s := None)\<rparr>"
  have d: "slice_destroy m s = Some ?m"
    using e Cons.prems(2) by (simp add: slice_destroy_def find_slice.simps set_list_def)
  have nin: "a \<notin> fst ` set ss" "s \<notin> snd ` set ss" using Cons.prems(3,4) by (auto simp: x)
  have "slices_at ?m l (ll_slices ?L) ss" using slices_at_other [OF nin, of m None None "(lm_lists m)(l \<mapsto> ?L)" l "le_next e"] e(6) by simp
  moreover have "lm_lists ?m l = Some ?L" "distinct (map fst ss)" "distinct (map snd ss)" using Cons.prems(3,4) by simp_all
  ultimately obtain m' where IH: "destroy_slices ?m l = Some m'"
    "lm_lists m' = (lm_lists ?m)(l \<mapsto> ?L\<lparr>ll_slices := None\<rparr>)" "lm_entries m' = lm_entries ?m" "lm_brk m' = lm_brk ?m"
    "lm_freed m' = lm_freed ?m" "\<forall>s\<in>set ss. lm_slice_entries m' (fst s) = None \<and> lm_slices m' (snd s) = None"
    "\<forall>b. lm_slice_entries ?m b = None \<longrightarrow> lm_slice_entries m' b = None" "\<forall>b. lm_slices ?m b = None \<longrightarrow> lm_slices m' b = None"
    using Cons.IH [of ?m ?L] by blast
  have "destroy_slices m l = destroy_slices ?m l"
    using Cons.prems(2) e d by (subst destroy_slices.simps) simp
  then show ?case using IH by (auto simp: x fun_eq_iff)
qed

section \<open>Several lists in one memory\<close>

text \<open>
  \<open>lists_abs m A\<close>: the memory holds the lists of \<open>A\<close>, each with its values, on disjoint
  sets of entries.
\<close>

definition lists_abs :: "('v, 'z) list_mem_scheme \<Rightarrow> (nat \<rightharpoonup> 'v option list) \<Rightarrow> bool" where
  "lists_abs m A \<longleftrightarrow> (\<exists>E. (\<forall>l vs. A l = Some vs \<longrightarrow> l < lm_brk m \<and> list_at m l (E l) \<and> map snd (E l) = vs) \<and>
     (\<forall>k l. k \<noteq> l \<longrightarrow> A k \<noteq> None \<longrightarrow> A l \<noteq> None \<longrightarrow> addrs (E k) \<inter> addrs (E l) = {}))"

lemma lists_abs_step:
  assumes "lists_abs m A" and "A l = Some vs"
    and step: "\<And>es. list_at m l es \<Longrightarrow> map snd es = vs \<Longrightarrow>
      \<exists>m' es'. R m' \<and> list_step m l es m' es' \<and> map snd es' = vs'"
  shows "\<exists>m'. R m' \<and> lists_abs m' (A(l \<mapsto> vs')) \<and> lm_fails m' = lm_fails m"
proof -
  from assms(1) obtain E where E: "\<And>l vs. A l = Some vs \<Longrightarrow> l < lm_brk m \<and> list_at m l (E l) \<and> map snd (E l) = vs"
    "\<And>k l. k \<noteq> l \<Longrightarrow> A k \<noteq> None \<Longrightarrow> A l \<noteq> None \<Longrightarrow> addrs (E k) \<inter> addrs (E l) = {}"
    unfolding lists_abs_def by blast
  from step [of "E l"] E(1) [OF assms(2)] obtain m' es' where
    s: "R m'" "list_step m l (E l) m' es'" "map snd es' = vs'" by auto
  have keeps: "keeps m m' l (addrs (E l))" and at: "list_at m' l es'" using s(2) by (auto simp: list_step_def)
  have other: "k < lm_brk m' \<and> list_at m' k (E k)" if "A k = Some ws" "k \<noteq> l" for k ws
    using that E(1) [OF that(1)] E(2) [of k l] assms(2) keeps_other_list [OF keeps] keeps by (auto simp: keeps_def)
  have disj: "addrs (E k) \<inter> addrs es' = {}" if "A k \<noteq> None" "k \<noteq> l" for k
    using that E(1) [of k] E(2) [of k l] assms(2) s(2) by (fastforce simp: list_step_def list_at_def entries_ok_def)
  have "lists_abs m' (A(l \<mapsto> vs'))"
    unfolding lists_abs_def
  proof (intro exI [of _ "E(l := es')"] conjI allI impI, goal_cases)
    case (1 k ws)
    then show ?case using other [of k] E(1) [OF assms(2)] keeps by (auto simp: keeps_def split: if_splits)
  next
    case (2 k ws)
    then show ?case using other [of k] at by (auto split: if_splits)
  next
    case (3 k ws)
    then show ?case using E(1) [of k ws] s(3) by (auto split: if_splits)
  next
    case (4 k j)
    then show ?case using disj [of k] disj [of j] E(2) [of k j] by (auto split: if_splits)
  qed
  with s(1) keeps show ?thesis by (auto simp: keeps_def)
qed

text \<open>What every operation on a list does, on plain lists.\<close>

datatype 'v list_op =
    Push "'v option" | Unshift "'v option" | Pop | Shift | Insert "'v option" nat | Fetch nat | Pick nat
  | Set_at nat "'v option" | Subst nat "'v option" | Move nat nat | Swap nat nat | Count

datatype 'v list_res = Value "'v option" | Code int | Number nat

definition list_exec :: "('v, 'z) list_mem_scheme \<Rightarrow> nat \<Rightarrow> 'v list_op \<Rightarrow> ('v list_res \<times> ('v, 'z) list_mem_scheme) option" where
  "list_exec m l op = (case op of
     Push v \<Rightarrow> map_option (map_prod Code id) (list_push_value m l v)
   | Unshift v \<Rightarrow> map_option (map_prod Code id) (list_unshift_value m l v)
   | Pop \<Rightarrow> map_option (map_prod Value id) (list_pop_value m l)
   | Shift \<Rightarrow> map_option (map_prod Value id) (list_shift_value m l)
   | Insert v pos \<Rightarrow> map_option (map_prod Code id) (list_insert_value m l v pos)
   | Fetch pos \<Rightarrow> map_option (map_prod Value id) (list_fetch_value m l pos)
   | Pick pos \<Rightarrow> map_option (map_prod Value id) (list_pick_value m l pos)
   | Set_at pos v \<Rightarrow> map_option (map_prod Value id) (list_set_value m l pos v)
   | Subst pos v \<Rightarrow> map_option (map_prod Value id) (list_subst_value m l pos v)
   | Move src dst \<Rightarrow> map_option (map_prod Code id) (list_move_value m l src dst)
   | Swap p q \<Rightarrow> map_option (map_prod Code id) (list_swap_values m l p q)
   | Count \<Rightarrow> map_option (\<lambda>n. (Number n, m)) (list_count m l))"

definition value_at :: "'v option list \<Rightarrow> nat \<Rightarrow> 'v option" where
  "value_at vs pos = (if pos < length vs then vs ! pos else None)"

definition list_spec :: "'v option list \<Rightarrow> 'v list_op \<Rightarrow> 'v list_res \<times> 'v option list" where
  "list_spec vs op = (case op of
     Push v \<Rightarrow> (Code 0, vs @ [v])
   | Unshift v \<Rightarrow> (Code 0, v # vs)
   | Pop \<Rightarrow> (Value (if vs = [] then None else last vs), butlast vs)
   | Shift \<Rightarrow> (Value (if vs = [] then None else hd vs), tl vs)
   | Insert v pos \<Rightarrow> (Code 0, insert_at pos v vs)
   | Fetch pos \<Rightarrow> (Value (value_at vs pos), remove_at pos vs)
   | Pick pos \<Rightarrow> (Value (value_at vs pos), vs)
   | Set_at pos v \<Rightarrow> (Value (value_at vs pos), if pos < length vs then vs[pos := v] else insert_at pos v vs)
   | Subst pos v \<Rightarrow> (Value (value_at vs pos), vs[pos := v])
   | Move src dst \<Rightarrow>
       if src < length vs then (Code 0, insert_at dst (vs ! src) (remove_at src vs)) else (Code (- 1), vs)
   | Swap p q \<Rightarrow> if p = q then (Code (- 1), vs) else (Code 0, vs[p := vs ! q, q := vs ! p])
   | Count \<Rightarrow> (Number (length vs), vs))"

text \<open>
  The contract: the list and the positions stay below \<open>2 ^ 31 - 1\<close>, and \<open>list_swap_values\<close> is
  not called with a position outside of the list.
\<close>

definition list_contract :: "'v option list \<Rightarrow> 'v list_op \<Rightarrow> bool" where
  "list_contract vs op \<longleftrightarrow> length vs < 2147483647 \<and> (case op of
     Insert v pos \<Rightarrow> pos < 2147483647
   | Set_at pos v \<Rightarrow> pos < 2147483647
   | Move src dst \<Rightarrow> dst < 2147483647
   | Swap p q \<Rightarrow> p = q \<or> p < length vs \<and> q < length vs
   | _ \<Rightarrow> True)"

lemma remove_at_id [simp]: "length vs \<le> pos \<Longrightarrow> remove_at pos vs = vs"
  by (simp add: remove_at_def)

lemma map_remove_at: "map f (remove_at pos xs) = remove_at pos (map f xs)"
  by (simp add: remove_at_def take_map drop_map)

lemma list_exec_step:
  assumes "list_at m l es" and "\<And>i. \<not> lm_fails m i" and "list_contract (map snd es) op"
    and "list_spec (map snd es) op = (r, ws)"
  shows "\<exists>m' es'. list_exec m l op = Some (r, m') \<and> list_step m l es m' es' \<and> map snd es' = ws"
proof (cases op)
  case (Push v)
  then show ?thesis using list_push_value_ok [OF assms(1,2), of v] assms(3,4)
    by (auto simp: list_exec_def list_spec_def list_contract_def)
next
  case (Unshift v)
  obtain m' es' where "list_unshift_value m l v = Some (0, m')" "list_step m l es m' es'" "map snd es' = v # map snd es"
    using list_unshift_value_ok [OF assms(1,2), of v] assms(3) by (auto simp: list_contract_def)
  then show ?thesis using Unshift assms(4) by (auto simp: list_exec_def list_spec_def simp del: map_eq_Cons_conv)
next
  case Pop
  then show ?thesis using list_pop_value_ok [of m l "butlast es" "last es"] list_pop_value_empty [of m l] assms(1,4)
    by (cases es rule: rev_cases) (auto simp: list_exec_def list_spec_def map_butlast)
next
  case Shift
  then show ?thesis using list_shift_value_ok [of m l "hd es" "tl es"] list_shift_value_empty [of m l] assms(1,4)
    by (cases es) (auto simp: list_exec_def list_spec_def)
next
  case (Insert v pos)
  then show ?thesis using list_insert_value_ok [OF assms(1,2), of pos v] assms(3,4)
    by (auto simp: list_exec_def list_spec_def list_contract_def)
next
  case (Fetch pos)
  then show ?thesis using list_fetch_value_ok [OF assms(1), of pos] list_fetch_value_none [OF assms(1), of pos] assms(4)
    by (cases "pos < length es") (auto simp: list_exec_def list_spec_def value_at_def map_remove_at [symmetric])
next
  case (Pick pos)
  then show ?thesis
    using list_pick_value_ok [OF assms(1), of pos] list_pick_value_none [OF assms(1), of pos] list_step_refl [OF assms(1)] assms(4)
    by (cases "pos < length es") (auto simp: list_exec_def list_spec_def value_at_def)
next
  case (Set_at pos v)
  show ?thesis
  proof (cases "pos < length es")
    case True
    with list_set_value_ok [OF assms(1) True, of v] Set_at assms(4) show ?thesis
      by (auto simp: list_exec_def list_spec_def value_at_def map_update
          intro!: exI [of _ "es[pos := (fst (es ! pos), v)]"])
  next
    case False
    with list_set_value_insert [OF assms(1) _ assms(2), of pos v] Set_at assms(3,4) show ?thesis
      by (auto simp: list_exec_def list_spec_def list_contract_def value_at_def)
  qed
next
  case (Subst pos v)
  show ?thesis
  proof (cases "pos < length es")
    case True
    with list_subst_value_ok [OF assms(1) True, of v] Subst assms(4) show ?thesis
      by (auto simp: list_exec_def list_spec_def value_at_def map_update
          intro!: exI [of _ "es[pos := (fst (es ! pos), v)]"])
  next
    case False
    with list_subst_value_none [OF assms(1), of pos v] list_step_refl [OF assms(1)] Subst assms(4) show ?thesis
      by (auto simp: list_exec_def list_spec_def value_at_def list_update_beyond)
  qed
next
  case (Move src dst)
  then show ?thesis
    using list_move_value_ok [OF assms(1) _ _ assms(2), of src dst] list_move_value_none [OF assms(1), of src dst] assms(3,4)
    by (cases "src < length es") (auto simp: list_exec_def list_spec_def list_contract_def)
next
  case (Swap p q)
  then show ?thesis
    using list_swap_values_ok [OF assms(1) _ _ _ _ assms(2), of p q] list_step_refl [OF assms(1)] assms(3,4)
    by (cases "p = q") (auto simp: list_exec_def list_spec_def list_contract_def list_swap_values_def swap_entries_def)
next
  case Count
  then show ?thesis using assms(1,4) list_step_refl [OF assms(1)]
    by (auto simp: list_exec_def list_spec_def list_count_def list_at_def list_shape_def)
qed

text \<open>A run of operations on several lists, and the same on plain lists.\<close>

fun list_run :: "('v, 'z) list_mem_scheme \<Rightarrow> (nat \<times> 'v list_op) list \<Rightarrow> ('v list_res list \<times> ('v, 'z) list_mem_scheme) option" where
  "list_run m [] = Some ([], m)"
| "list_run m ((l, op) # ops) = do {
     (r, m) \<leftarrow> list_exec m l op;
     (rs, m) \<leftarrow> list_run m ops;
     Some (r # rs, m)
   }"

fun list_run_spec ::
  "(nat \<rightharpoonup> 'v option list) \<Rightarrow> (nat \<times> 'v list_op) list \<Rightarrow> ('v list_res list \<times> (nat \<rightharpoonup> 'v option list)) option" where
  "list_run_spec A [] = Some ([], A)"
| "list_run_spec A ((l, op) # ops) = do {
     vs \<leftarrow> A l;
     if list_contract vs op then do {
       let (r, vs) = list_spec vs op;
       (rs, A) \<leftarrow> list_run_spec (A(l \<mapsto> vs)) ops;
       Some (r # rs, A)
     } else None
   }"

lemma list_create_ok:
  assumes "lists_abs m A" and "\<not> lm_fails m (lm_brk m)"
  shows "\<exists>m'. list_create m = (Some (lm_brk m), m') \<and> A (lm_brk m) = None \<and> lists_abs m' (A(lm_brk m \<mapsto> [])) \<and>
           lm_fails m' = lm_fails m"
proof -
  from assms(1) obtain E where E: "\<And>l vs. A l = Some vs \<Longrightarrow> l < lm_brk m \<and> list_at m l (E l) \<and> map snd (E l) = vs"
    "\<And>k l. k \<noteq> l \<Longrightarrow> A k \<noteq> None \<Longrightarrow> A l \<noteq> None \<Longrightarrow> addrs (E k) \<inter> addrs (E l) = {}"
    unfolding lists_abs_def by blast
  have none: "A (lm_brk m) = None" using E(1) [of "lm_brk m"] by (cases "A (lm_brk m)") auto
  let ?m = "snd (list_create m)"
  have "list_at ?m k (E k)" if "A k = Some vs" for k vs
    using E(1) [OF that] assms(2) none that
    by (auto simp: list_create_def Let_def set_list_def list_at_def entries_ok_def)
  then have "lists_abs ?m (A(lm_brk m \<mapsto> []))"
    unfolding lists_abs_def using E assms(2)
    by (intro exI [of _ "E(lm_brk m := [])"])
      (auto simp: list_create_def Let_def set_list_def list_at_def entries_ok_def list_shape_def less_SucI)
  then show ?thesis using none assms(2) by (simp add: list_create_def Let_def set_list_def)
qed

section \<open>The interface to the clients\<close>

text \<open>
  The contract of the list operations that other components call: \<open>rep m A\<close> says that the memory
  holds the lists \<open>A\<close>.
\<close>

locale list_store =
  fixes rep :: "'m \<Rightarrow> (nat \<rightharpoonup> 'v option list) \<Rightarrow> bool"
    and push :: "'m \<Rightarrow> nat \<Rightarrow> 'v option \<Rightarrow> (int \<times> 'm) option"
    and unshift :: "'m \<Rightarrow> nat \<Rightarrow> 'v option \<Rightarrow> (int \<times> 'm) option"
    and shift :: "'m \<Rightarrow> nat \<Rightarrow> ('v option \<times> 'm) option"
    and limit :: nat
  assumes push_law: "rep m A \<Longrightarrow> A l = Some vs \<Longrightarrow> length vs < limit \<Longrightarrow>
      \<exists>m'. push m l v = Some (0, m') \<and> rep m' (A(l \<mapsto> vs @ [v]))"
    and unshift_law: "rep m A \<Longrightarrow> A l = Some vs \<Longrightarrow> length vs < limit \<Longrightarrow>
      \<exists>m'. unshift m l v = Some (0, m') \<and> rep m' (A(l \<mapsto> v # vs))"
    and shift_law: "rep m A \<Longrightarrow> A l = Some (v # vs) \<Longrightarrow> \<exists>m'. shift m l = Some (v, m') \<and> rep m' (A(l \<mapsto> vs))"
    and shift_empty: "rep m A \<Longrightarrow> A l = Some [] \<Longrightarrow> \<exists>m'. shift m l = Some (None, m') \<and> rep m' A"
begin

text \<open>Pushing one value after the other, and taking values out until the list gives NULL.\<close>

fun push_all :: "'m \<Rightarrow> nat \<Rightarrow> 'v option list \<Rightarrow> 'm option" where
  "push_all m l [] = Some m"
| "push_all m l (v # vs) = do { (_, m) \<leftarrow> push m l v; push_all m l vs }"

fun unshift_all :: "'m \<Rightarrow> nat \<Rightarrow> 'v option list \<Rightarrow> 'm option" where
  "unshift_all m l [] = Some m"
| "unshift_all m l (v # vs) = do { (_, m) \<leftarrow> unshift m l v; unshift_all m l vs }"

fun drain :: "nat \<Rightarrow> 'm \<Rightarrow> nat \<Rightarrow> ('v option list \<times> 'm) option" where
  "drain 0 m l = None"
| "drain (Suc fuel) m l = do {
     (v, m) \<leftarrow> shift m l;
     if v = None then Some ([], m)
     else do { (vs, m) \<leftarrow> drain fuel m l; Some (v # vs, m) }
   }"

lemma push_all_ok:
  "rep m A \<Longrightarrow> A l = Some ws \<Longrightarrow> length ws + length vs \<le> limit \<Longrightarrow>
     \<exists>m'. push_all m l vs = Some m' \<and> rep m' (A(l \<mapsto> ws @ vs))"
proof (induction vs arbitrary: m A ws)
  case (Cons v vs)
  from push_law [OF Cons.prems(1,2), of v] Cons.prems(3) obtain m1 where
    "push m l v = Some (0, m1)" "rep m1 (A(l \<mapsto> ws @ [v]))" by auto
  with Cons.IH [of m1 "A(l \<mapsto> ws @ [v])" "ws @ [v]"] Cons.prems(3) show ?case by (simp add: fun_upd_def cong: if_cong)
qed (auto simp: fun_upd_idem)

lemma unshift_all_ok:
  "rep m A \<Longrightarrow> A l = Some ws \<Longrightarrow> length ws + length vs \<le> limit \<Longrightarrow>
     \<exists>m'. unshift_all m l vs = Some m' \<and> rep m' (A(l \<mapsto> rev vs @ ws))"
proof (induction vs arbitrary: m A ws)
  case (Cons v vs)
  from unshift_law [OF Cons.prems(1,2), of v] Cons.prems(3) obtain m1 where
    "unshift m l v = Some (0, m1)" "rep m1 (A(l \<mapsto> v # ws))" by auto
  with Cons.IH [of m1 "A(l \<mapsto> v # ws)" "v # ws"] Cons.prems(3) show ?case by (simp add: fun_upd_def cong: if_cong)
qed (auto simp: fun_upd_idem)

lemma drain_ok:
  "rep m A \<Longrightarrow> A l = Some vs \<Longrightarrow> None \<notin> set vs \<Longrightarrow> length vs < fuel \<Longrightarrow>
     \<exists>m'. drain fuel m l = Some (vs, m') \<and> rep m' (A(l \<mapsto> []))"
proof (induction vs arbitrary: m A fuel)
  case Nil
  then show ?case using shift_empty [of m A l] by (cases fuel) (auto simp: fun_upd_idem)
next
  case (Cons v vs)
  from shift_law [OF Cons.prems(1,2)] obtain m1 where "shift m l = Some (v, m1)" "rep m1 (A(l \<mapsto> vs))" by auto
  with Cons.IH [of m1 "A(l \<mapsto> vs)" "fuel - 1"] Cons.prems(3,4) show ?case
    by (cases fuel; cases v) (auto simp: fun_upd_def cong: if_cong)
qed

lemma queue_order:
  assumes "rep m A" and "A l = Some []" and "None \<notin> set vs" and "length vs \<le> limit" and "length vs < fuel"
  shows "\<exists>m1 m2. push_all m l vs = Some m1 \<and> drain fuel m1 l = Some (vs, m2) \<and> rep m2 A"
  using push_all_ok [OF assms(1,2), of vs] drain_ok [of _ "A(l \<mapsto> vs)" l vs fuel] assms by (auto simp: fun_upd_idem)

lemma stack_order:
  assumes "rep m A" and "A l = Some []" and "None \<notin> set vs" and "length vs \<le> limit" and "length vs < fuel"
  shows "\<exists>m1 m2. unshift_all m l vs = Some m1 \<and> drain fuel m1 l = Some (rev vs, m2) \<and> rep m2 A"
  using unshift_all_ok [OF assms(1,2), of vs] drain_ok [of _ "A(l \<mapsto> rev vs)" l "rev vs" fuel] assms by (auto simp: fun_upd_idem)

end

definition lists_rep :: "('v, 'z) list_mem_scheme \<Rightarrow> (nat \<rightharpoonup> 'v option list) \<Rightarrow> bool" where
  "lists_rep m A \<longleftrightarrow> lists_abs m A \<and> (\<forall>i. \<not> lm_fails m i)"

lemma lists_rep_exec:
  assumes "lists_rep m A" and "A l = Some vs" and "list_contract vs op" and "list_spec vs op = (r, ws)"
  shows "\<exists>m'. list_exec m l op = Some (r, m') \<and> lists_rep m' (A(l \<mapsto> ws))"
proof -
  have "\<exists>m1. list_exec m l op = Some (r, m1) \<and> lists_abs m1 (A(l \<mapsto> ws)) \<and> lm_fails m1 = lm_fails m"
    using list_exec_step [of m l _ op r ws] assms
    by (intro lists_abs_step [of m A l vs]) (auto simp: lists_rep_def)
  then show ?thesis using assms(1) by (auto simp: lists_rep_def)
qed

interpretation linklist: list_store lists_rep list_push_value list_unshift_value list_shift_value 2147483647
proof (unfold_locales, goal_cases)
  case (1 m A l vs v)
  then show ?case using lists_rep_exec [of m A l vs "Push v"]
    by (auto simp: list_exec_def list_spec_def list_contract_def)
next
  case (2 m A l vs v)
  then show ?case using lists_rep_exec [of m A l vs "Unshift v"]
    by (auto simp: list_exec_def list_spec_def list_contract_def)
next
  case (3 m A l v vs)
  have "lists_abs m A" "\<forall>i. \<not> lm_fails m i" using 3(1) by (auto simp: lists_rep_def)
  have "\<exists>m1. list_shift_value m l = Some (v, m1) \<and> lists_abs m1 (A(l \<mapsto> vs)) \<and> lm_fails m1 = lm_fails m"
    by (rule lists_abs_step [OF \<open>lists_abs m A\<close> 3(2)]) (use list_shift_value_ok [of m l] in fastforce)
  then show ?case using 3(1) by (auto simp: lists_rep_def)
next
  case (4 m A l)
  have "lists_abs m A" "\<forall>i. \<not> lm_fails m i" using 4(1) by (auto simp: lists_rep_def)
  have "\<exists>m1. list_shift_value m l = Some (None, m1) \<and> lists_abs m1 (A(l \<mapsto> [])) \<and> lm_fails m1 = lm_fails m"
    by (rule lists_abs_step [OF \<open>lists_abs m A\<close> 4(2)]) (use list_shift_value_empty [of m l] in fastforce)
  then show ?case using 4 by (auto simp: lists_rep_def fun_upd_idem)
qed

section \<open>Properties\<close>

text \<open>
  \<open>C2\<close>: the pointer structures implement lists. Any sequence of operations on any number of lists
  in one memory, interleaved in any way, gives the results of the same operations on plain lists and
  leaves the memory representing the resulting lists, without an invalid access; in particular the
  cursor that \<open>pick_entry\<close> keeps never makes an operation reach a wrong entry, and no operation
  disturbs another list.
\<close>

theorem list_refinement:
  assumes "lists_abs m A" and "\<forall>i. \<not> lm_fails m i" and "list_run_spec A ops = Some (rs, A')"
  shows "\<exists>m'. list_run m ops = Some (rs, m') \<and> lists_abs m' A'"
  using assms
proof (induction ops arbitrary: m A rs)
  case (Cons x ops)
  obtain l op where x: "x = (l, op)" by fastforce
  from Cons.prems(3) obtain vs r ws rs1 where 1: "A l = Some vs" "list_contract vs op" "list_spec vs op = (r, ws)"
    "list_run_spec (A(l \<mapsto> ws)) ops = Some (rs1, A')" "rs = r # rs1"
    by (auto simp: x bind_eq_Some_conv split: if_splits prod.splits)
  have "\<exists>m1. list_exec m l op = Some (r, m1) \<and> lists_abs m1 (A(l \<mapsto> ws)) \<and> lm_fails m1 = lm_fails m"
    using list_exec_step [of m l _ op r ws] Cons.prems(2) 1(2,3)
    by (intro lists_abs_step [OF Cons.prems(1) 1(1)]) blast
  with Cons.IH [of _ "A(l \<mapsto> ws)"] Cons.prems(2) 1(4,5) show ?case by (fastforce simp: x)
qed simp

fun visit_all :: "('v option \<Rightarrow> nat \<Rightarrow> 'u \<Rightarrow> int \<times> 'u) \<Rightarrow> nat \<Rightarrow> 'u \<Rightarrow> 'v option list \<Rightarrow> 'u" where
  "visit_all f i u [] = u"
| "visit_all f i u (v # vs) = visit_all f (Suc i) (snd (f v i u)) vs"

lemma foreach_spec_all:
  "(\<And>v i u. fst (f v i u) \<notin> {0, - 1, - 2}) \<Longrightarrow>
     foreach_spec f i (i + length vs) u vs = (i + length vs, i + length vs, visit_all f i u vs, vs)"
proof (induction vs arbitrary: i u)
  case (Cons v vs)
  obtain rc u1 where "f v i u = (rc, u1)" by fastforce
  moreover have "rc \<notin> {0, - 1, - 2}" using Cons.prems [of v i u] calculation by simp
  ultimately show ?case using Cons.IH [of "Suc i" u1] Cons.prems by simp
qed simp

text \<open>
  \<open>C26\<close>: when the handler never asks to stop or to remove, \<open>list_foreach_value\<close> calls it
  once for every value, in order and with its index, threads the user data through, returns the
  number of values and leaves the lists unchanged.
\<close>

theorem list_foreach_visits_all:
  assumes "lists_abs m A" and "A l = Some vs" and "\<forall>v i u. fst (f v i u) \<notin> {0, - 1, - 2}"
  shows "\<exists>m'. list_foreach_value f m l u = Some (int (length vs), visit_all f 0 u vs, m') \<and> lists_abs m' A"
proof -
  have "\<exists>m'. list_foreach_value f m l u = Some (int (length vs), visit_all f 0 u vs, m') \<and>
          lists_abs m' (A(l \<mapsto> vs)) \<and> lm_fails m' = lm_fails m"
  proof (rule lists_abs_step [OF assms(1,2)])
    fix es assume es: "list_at m l es" "map snd es = vs"
    have "length vs < 2147483648" using es by (auto simp: list_at_def entries_ok_def)
    then have n: "to_int (length vs) = int (length vs)"
      by (simp add: to_int_def signed_take_bit_int_eq_self_iff)
    have "foreach_spec f 0 (length es) u (map snd es) = (length vs, length vs, visit_all f 0 u vs, vs)"
      using foreach_spec_all [of f 0 vs u] assms(3) es(2) by auto
    from list_foreach_value_ok [OF es(1) this]
    show "\<exists>m' es'. list_foreach_value f m l u = Some (int (length vs), visit_all f 0 u vs, m') \<and>
        list_step m l es m' es' \<and> map snd es' = vs" by (simp add: n)
  qed
  then show ?thesis using assms(2) by (auto simp: fun_upd_idem)
qed

text \<open>
  \<open>C27\<close>: \<open>list_destroy\<close> releases everything once: every entry, every slice with its entry and
  the list structure are gone, and the release callback, when one is set, got every value exactly once
  and in order. (For entries of the untagged interface.)
\<close>

theorem list_destroy_releases:
  assumes "list_at m l es" and "untagged m es" and "lm_lists m l = Some L"
    and "slices_at m l (ll_slices L) ss" and "distinct (map fst ss)" and "distinct (map snd ss)"
  shows "\<exists>m'. list_destroy dt m l = Some m' \<and> lm_lists m' l = None \<and> (\<forall>a\<in>addrs es. lm_entries m' a = None) \<and>
           (\<forall>s\<in>set ss. lm_slice_entries m' (fst s) = None \<and> lm_slices m' (snd s) = None) \<and>
           lm_freed m' = lm_freed m @ (if ll_free_cb L then map snd es else [])"
proof -
  from destroy_slices_ok [OF assms(4,3,5,6)] obtain m1 where
    d: "destroy_slices m l = Some m1" "lm_lists m1 = (lm_lists m)(l \<mapsto> L\<lparr>ll_slices := None\<rparr>)"
      "lm_entries m1 = lm_entries m" "lm_brk m1 = lm_brk m" "lm_freed m1 = lm_freed m"
      "\<forall>s\<in>set ss. lm_slice_entries m1 (fst s) = None \<and> lm_slices m1 (snd s) = None" by auto
  have "list_at m1 l es" using assms(1,3) d by (auto simp: list_at_def entries_ok_def list_shape_def)
  moreover have "untagged m1 es" using assms(2) d(3) by (simp add: untagged_def)
  ultimately obtain m2 where c: "list_clear dt m1 l = Some m2" "\<forall>a\<in>addrs es. lm_entries m2 a = None"
    "lm_freed m2 = lm_freed m1 @ (if ll_free_cb L then map snd es else [])"
    "keeps m1 (m2\<lparr>lm_freed := lm_freed m1\<rparr>) l (addrs es)"
    using list_clear_ok [of m1 l es "ll_free_cb L" dt] d(2) by auto
  then show ?thesis using d by (auto simp: list_destroy_def keeps_def)
qed

text \<open>
  The operations that allocate, with the outcome of the allocations: \<open>fails\<close> says which addresses
  cannot be allocated and \<open>a\<close> is the next one. The entry of the value is allocated first, then one
  entry for every position between the end of the list and \<open>pos\<close>.
\<close>

definition insert_alloc_spec :: "(nat \<Rightarrow> bool) \<Rightarrow> nat \<Rightarrow> 'v option list \<Rightarrow> 'v option \<Rightarrow> nat \<Rightarrow> int \<times> 'v option list" where
  "insert_alloc_spec fails a vs v pos =
     (let gap = pos - length vs; k = made fails (Suc a) gap in
      if fails a then (- 1, vs)
      else if k < gap then (- 1, vs @ replicate k None)
      else (0, insert_at pos v vs))"



lemma list_insert_value_alloc:
  assumes "list_at m l es" and "max (length es) pos < 2147483647"
    and "insert_alloc_spec (lm_fails m) (lm_brk m) (map snd es) v pos = (r, ws)"
  shows "\<exists>m' es'. list_insert_value m l v pos = Some (r, m') \<and> list_step m l es m' es' \<and> map snd es' = ws \<and>
           (r = - 1 \<longrightarrow> lm_entries m (lm_brk m) = None \<longrightarrow> lm_entries m' (lm_brk m) = None)"
proof -
  let ?k = "made (lm_fails m) (Suc (lm_brk m)) (pos - length es)"
  consider "lm_fails m (lm_brk m)" | "\<not> lm_fails m (lm_brk m)" "?k < pos - length es"
    | "\<not> lm_fails m (lm_brk m)" "?k = pos - length es"
    using made_le [of "lm_fails m" "Suc (lm_brk m)" "pos - length es"] by linarith
  then show ?thesis
  proof cases
    case 1
    then show ?thesis using add_value_fail [OF assms(1) 1] assms(3)
      by (fastforce simp: list_insert_value_def insert_alloc_spec_def Let_def)
  next
    case 2
    then show ?thesis using list_insert_value_padding_fails [OF assms(1) 2(1) _ refl 2(2), of v] assms(2,3)
      by (auto simp: insert_alloc_spec_def Let_def)
  next
    case 3
    then show ?thesis using list_insert_value_made [OF assms(1) 3(1) assms(2) 3(2), of v] assms(3)
      by (auto simp: insert_alloc_spec_def Let_def)
  qed
qed



section \<open>Witnesses\<close>

definition lmem_ex :: "nat list_mem" where
  "lmem_ex = \<lparr>lm_entries = Map.empty, lm_lists = Map.empty, lm_slices = Map.empty, lm_slice_entries = Map.empty,
     lm_brk = 0, lm_fails = (\<lambda>_. False), lm_freed = []\<rparr>"

definition lmem_list :: "nat list_mem" where
  "lmem_list = snd (list_create lmem_ex)"

lemma lmem_list_abs: "lists_abs lmem_list [0 \<mapsto> []]" "\<forall>i. \<not> lm_fails lmem_list i"
proof -
  have "lists_abs lmem_ex Map.empty" by (simp add: lists_abs_def)
  from list_create_ok [OF this] show "lists_abs lmem_list [0 \<mapsto> []]" "\<forall>i. \<not> lm_fails lmem_list i"
    by (auto simp: lmem_list_def lmem_ex_def)
qed

theorem list_refinement_witness:
  "\<exists>m'. list_run lmem_list [(0, Push (Some 4)), (0, Unshift (Some 7)), (0, Insert (Some 1) 3), (0, Swap 0 1), (0, Pick 1)] =
      Some ([Code 0, Code 0, Code 0, Code 0, Value (Some 7)], m') \<and>
    lists_abs m' [0 \<mapsto> [Some 4, Some 7, None, Some 1]]"
  using list_refinement [OF lmem_list_abs, of "[(0, Push (Some 4)), (0, Unshift (Some 7)), (0, Insert (Some 1) 3), (0, Swap 0 1), (0, Pick 1)]"]
  by (simp add: list_contract_def list_spec_def insert_at_def value_at_def)

text \<open>A list with two values, a release callback and one slice.\<close>

definition lmem_two :: "nat list_mem" where
  "lmem_two = lmem_list\<lparr>lm_entries :=
       [1 \<mapsto> \<lparr>le_list = Some 0, le_prev = None, le_next = Some 2, le_value = Some 4, le_tagged = False\<rparr>,
        2 \<mapsto> \<lparr>le_list = Some 0, le_prev = Some 1, le_next = None, le_value = Some 7, le_tagged = False\<rparr>],
     lm_lists := [0 \<mapsto> \<lparr>ll_head = Some 1, ll_tail = Some 2, ll_cur = Some 2, ll_pos = 1, ll_length = 2,
        ll_free_cb = True, ll_slices = Some 4\<rparr>],
     lm_slices := [3 \<mapsto> \<lparr>sl_list = 0, sl_offset = 0, sl_length = 1\<rparr>],
     lm_slice_entries := [4 \<mapsto> \<lparr>le_list = None, le_prev = None, le_next = None, le_value = Some 3, le_tagged = False\<rparr>],
     lm_brk := 5\<rparr>"

lemma lmem_two_at: "list_at lmem_two 0 [(1, Some 4), (2, Some 7)]" "untagged lmem_two [(1, Some 4), (2, Some 7)]"
  by (simp_all add: lmem_two_def list_at_def entries_ok_def list_shape_def untagged_def)

lemma lmem_two_abs: "lists_abs lmem_two [0 \<mapsto> [Some 4, Some 7]]"
  unfolding lists_abs_def
  by (rule exI [of _ "\<lambda>_. [(1, Some 4), (2, Some 7)]"]) (use lmem_two_at(1) in \<open>auto simp: lmem_two_def split: if_splits\<close>)

theorem list_foreach_visits_all_witness:
  "\<exists>m'. list_foreach_value (\<lambda>v i s. (1, s + of_nat i * 10 + (case v of Some n \<Rightarrow> n | None \<Rightarrow> 0))) lmem_two 0 0 = Some (2, 21, m') \<and>
     lists_abs m' [0 \<mapsto> [Some 4, Some 7]]"
  using list_foreach_visits_all [OF lmem_two_abs, of 0 "[Some 4, Some 7]"
      "\<lambda>v i s. (1, s + of_nat i * 10 + (case v of Some n \<Rightarrow> n | None \<Rightarrow> 0))" 0] by simp

theorem list_destroy_releases_witness:
  "\<exists>m'. list_destroy (\<lambda>_ _. Some) lmem_two 0 = Some m' \<and> lm_lists m' 0 = None \<and> lm_entries m' 1 = None \<and>
     lm_freed m' = [Some 4, Some 7]"
  using list_destroy_releases [OF lmem_two_at, of "the (lm_lists lmem_two 0)" "[(4, 3)]" "\<lambda>_ _. Some"]
  by (auto simp: lmem_two_def lmem_list_def lmem_ex_def list_create_def Let_def set_list_def)


section \<open>What the code does outside of these properties\<close>

text \<open>
  \<open>slice_foreach_value\<close> decrements the length of the slice for every entry that it removes
  and also counts the entry: a handler that asks to remove every entry is not called for the second
  half of them.
\<close>

lemma foreach_remove_stops_early:
  "\<exists>m' es'. list_foreach_value (\<lambda>v i u. (- 1, u @ [v])) lmem_two 0 [] = Some (1, [Some 4], m') \<and>
     list_at m' 0 es' \<and> map snd es' = [Some 7]"
proof -
  have "foreach_spec (\<lambda>v i u. (- 1, u @ [v])) 0 (length [(1 :: nat, Some 4), (2, Some 7)]) []
      (map snd [(1 :: nat, Some 4), (2, Some 7)]) = (1, 1, [Some 4], [Some (7 :: nat)])" by simp
  from list_foreach_value_ok [OF lmem_two_at(1) this] obtain m' es' where
    "list_foreach_value (\<lambda>v i u. (- 1, u @ [v])) lmem_two 0 [] = Some (to_int 1, [Some 4], m')"
    "list_step lmem_two 0 [(1, Some 4), (2, Some 7)] m' es'" "map snd es' = [Some 7]"
    by (elim exE conjE)
  then show ?thesis by (intro exI [of _ m'] exI [of _ es']) (simp add: to_int_def list_step_def)
qed

text \<open>
  An insertion behind the end whose padding cannot be allocated answers -1, and the list has grown by
  the padding that was allocated before; a second attempt at the same position finds it there.
\<close>

lemma failed_insertion_pads:
  "\<exists>m' es'. list_insert_value (lmem_two\<lparr>lm_fails := (\<lambda>i. i = 7)\<rparr>) 0 (Some 9) 5 = Some (- 1, m') \<and>
     list_at m' 0 es' \<and> map snd es' = [Some 4, Some 7, None]"
proof -
  have made: "made (\<lambda>i. i = 7) 6 3 = 1" by (simp add: eval_nat_numeral)
  have brk: "lm_brk lmem_two = 5" by (simp add: lmem_two_def)
  have "list_at (lmem_two\<lparr>lm_fails := (\<lambda>i. i = 7)\<rparr>) 0 [(1, Some 4), (2, Some 7)]"
    using lmem_two_at(1) by (simp add: list_at_def entries_ok_def)
  from list_insert_value_alloc [OF this, of 5 "Some 9" "- 1" "[Some 4, Some 7, None]"] show ?thesis
    by (simp add: list_step_def insert_alloc_spec_def brk made) (elim exE conjE, intro exI conjI)
qed

text \<open>
  Destroying the last of several slices dereferences the NULL pointer after it.
\<close>

lemma slice_destroy_last:
  "(do { (s1, m) \<leftarrow> slice_create lmem_list 0 0 1; (s2, m) \<leftarrow> slice_create m 0 0 1; slice_destroy m s2 }) = None"
  by (simp add: slice_create_def slice_destroy_def last_slice.simps find_slice.simps lmem_list_def lmem_ex_def
      list_create_def set_list_def Let_def)

text \<open>A swap with a position behind the end inserts a NULL entry and dereferences it.\<close>

lemma swap_out_of_range: "list_swap_values lmem_two 0 1 2 = None"
  by (simp add: list_swap_values_def swap_entries_def fetch_entry_def list_count_def remove_entry_def pick_entry_def
      insert_entry_def lmem_two_def dec64_def list_mem_defs walk_up_def u32_def abs_diff_def)

end
