(* ===== verification/Map_Store.thy ===== *)
theory Map_Store
  imports Prelude
begin

text \<open>
  The interface of a store of values by key, as its clients see it. \<open>limit\<close> bounds the number
  of keys; \<open>ok\<close> tells which keys are allowed. The hash table of \<open>hashtable.c\<close> and the trie of
  \<open>trie.c\<close> provide it.
\<close>

datatype ('k, 'v) map_op = MSet 'k 'v | MGet 'k | MDel 'k

fun map_run ::
  "('t \<Rightarrow> 'k \<Rightarrow> 'v \<Rightarrow> 't option) \<Rightarrow> ('t \<Rightarrow> 'k \<Rightarrow> ('v option \<times> 't) option) \<Rightarrow> ('t \<Rightarrow> 'k \<Rightarrow> ('v option \<times> 't) option) \<Rightarrow>
   't \<Rightarrow> ('k, 'v) map_op list \<Rightarrow> ('v option list \<times> 't) option" where
  "map_run put get del t [] = Some ([], t)"
| "map_run put get del t (MSet k v # ops) = do { t \<leftarrow> put t k v; map_run put get del t ops }"
| "map_run put get del t (MGet k # ops) = do {
     (v, t) \<leftarrow> get t k; (vs, t) \<leftarrow> map_run put get del t ops; Some (v # vs, t) }"
| "map_run put get del t (MDel k # ops) = do {
     (v, t) \<leftarrow> del t k; (vs, t) \<leftarrow> map_run put get del t ops; Some (v # vs, t) }"

text \<open>The same on a plain map: what the gets and deletes answer, and the final map.\<close>

fun map_spec :: "('k \<rightharpoonup> 'v) \<Rightarrow> ('k, 'v) map_op list \<Rightarrow> 'v option list \<times> ('k \<rightharpoonup> 'v)" where
  "map_spec m [] = ([], m)"
| "map_spec m (MSet k v # ops) = map_spec (m(k \<mapsto> v)) ops"
| "map_spec m (MGet k # ops) = (let (vs, m') = map_spec m ops in (m k # vs, m'))"
| "map_spec m (MDel k # ops) = (let (vs, m') = map_spec (m(k := None)) ops in (m k # vs, m'))"

fun op_key :: "('k, 'v) map_op \<Rightarrow> 'k" where
  "op_key (MSet k v) = k"
| "op_key (MGet k) = k"
| "op_key (MDel k) = k"

locale map_store =
  fixes inv :: "'t \<Rightarrow> bool"
    and rep :: "'t \<Rightarrow> 'k \<rightharpoonup> 'v"
    and count :: "'t \<Rightarrow> nat"
    and ok :: "'k \<Rightarrow> bool"
    and set_op :: "'t \<Rightarrow> 'k \<Rightarrow> 'v \<Rightarrow> 't option"
    and get_op :: "'t \<Rightarrow> 'k \<Rightarrow> ('v option \<times> 't) option"
    and del_op :: "'t \<Rightarrow> 'k \<Rightarrow> ('v option \<times> 't) option"
    and limit :: nat
  assumes set_law: "inv t \<Longrightarrow> ok k \<Longrightarrow> count t < limit \<Longrightarrow>
      \<exists>t'. set_op t k v = Some t' \<and> inv t' \<and> rep t' = (rep t)(k \<mapsto> v) \<and> count t' \<le> Suc (count t)"
    and get_law: "inv t \<Longrightarrow> ok k \<Longrightarrow>
      \<exists>t'. get_op t k = Some (rep t k, t') \<and> inv t' \<and> rep t' = rep t \<and> count t' \<le> count t"
    and del_law: "inv t \<Longrightarrow> ok k \<Longrightarrow>
      \<exists>t'. del_op t k = Some (rep t k, t') \<and> inv t' \<and> rep t' = (rep t)(k := None) \<and> count t' \<le> count t"
begin

lemma map_run_ok:
  assumes "inv t" and "\<forall>op\<in>set ops. ok (op_key op)" and "count t + length ops \<le> limit"
    and "map_spec (rep t) ops = (vs, m')"
  shows "\<exists>t'. map_run set_op get_op del_op t ops = Some (vs, t') \<and> inv t' \<and> rep t' = m'"
  using assms
proof (induction ops arbitrary: t vs)
  case (Cons op ops)
  show ?case
  proof (cases op)
    case (MSet k v)
    from set_law [OF Cons.prems(1), of k v] Cons.prems(2,3) obtain t1 where
      1: "set_op t k v = Some t1" "inv t1" "rep t1 = (rep t)(k \<mapsto> v)" "count t1 \<le> Suc (count t)" by (auto simp: MSet)
    have 2: "map_spec (rep t1) ops = (vs, m')" using Cons.prems(4) 1(3) by (simp add: MSet)
    show ?thesis using Cons.IH [OF 1(2) _ _ 2] Cons.prems(2,3) 1(1,4) by (simp add: MSet)
  next
    case (MGet k)
    from get_law [OF Cons.prems(1), of k] Cons.prems(2) obtain t1 where
      1: "get_op t k = Some (rep t k, t1)" "inv t1" "rep t1 = rep t" "count t1 \<le> count t" by (auto simp: MGet)
    obtain ws where 2: "map_spec (rep t1) ops = (ws, m')" "vs = rep t k # ws"
      using Cons.prems(4) 1(3) by (auto simp: MGet split: prod.splits)
    show ?thesis using Cons.IH [OF 1(2) _ _ 2(1)] Cons.prems(2,3) 1(1,4) 2(2) by (auto simp: MGet)
  next
    case (MDel k)
    from del_law [OF Cons.prems(1), of k] Cons.prems(2) obtain t1 where
      1: "del_op t k = Some (rep t k, t1)" "inv t1" "rep t1 = (rep t)(k := None)" "count t1 \<le> count t" by (auto simp: MDel)
    obtain ws where 2: "map_spec (rep t1) ops = (ws, m')" "vs = rep t k # ws"
      using Cons.prems(4) 1(3) by (auto simp: MDel split: prod.splits)
    show ?thesis using Cons.IH [OF 1(2) _ _ 2(1)] Cons.prems(2,3) 1(1,4) 2(2) by (auto simp: MDel)
  qed
qed simp

end

end
