(* ===== verification/Hashtable.thy ===== *)
theory Hashtable
  imports Linklist_Spec Map_Store
begin

unbundle bit_operations_syntax

text \<open>
  The hash table of \<open>hashtable.c\<close>, run by one thread. (The status word by which threads share
  the table is the subject of the theory \<open>Ht_Status\<close>; between two operations it is idle.)

  The tail queues of \<open>bsd_queue.h\<close> are lists: the items of a bucket, and the buckets in the order of
  the iterator list, given by their index. A key is the list of its bytes, so \<open>klen\<close> is its length
  (where it is stored, in \<open>kbuf\<close> or in a block of its own, shows only when an allocation fails).
  Data is a pointer into \<open>hm_blocks\<close>, or NULL; the table looks into the block only where it
  copies or compares data. The release callback is recorded in \<open>hm_freed\<close>. Allocations are
  numbered and fail where \<open>hm_fails\<close> says so.
\<close>

section \<open>Data\<close>

record ht_item_t =
  it_hash :: "32 word"
  it_key :: "byte list"
  it_data :: "nat option"
  it_dlen :: nat

record ht_mem =
  hm_blocks :: "nat \<rightharpoonup> byte list"
  hm_brk :: nat
  hm_fails :: "nat \<Rightarrow> bool"
  hm_freed :: "nat option list"

datatype ht_status_t = HT_STATUS_CLEAR | HT_STATUS_WRITE | HT_STATUS_GROW | HT_STATUS_IDLE | HT_STATUS_READ

record hashtable_t =
  ht_size :: nat
  ht_max_size :: nat
  ht_cnt :: nat
  ht_status :: ht_status_t
  ht_seed :: "32 word"
  ht_items :: "ht_item_t list option list"
  ht_iter :: "nat list"
  ht_free_cb :: bool
  ht_mem :: ht_mem

definition HT_SIZE_MIN :: nat where
  "HT_SIZE_MIN = 128"

section \<open>Hashing and comparing keys\<close>

fun ht_hash_loop :: "32 word \<Rightarrow> byte list \<Rightarrow> 32 word" where
  "ht_hash_loop hash [] = hash"
| "ht_hash_loop hash (c # str) =
     (let hash = hash + ucast c;
          hash = hash + push_bit 10 hash;
          hash = hash XOR drop_bit 6 hash
      in ht_hash_loop hash str)"

definition ht_hash_one_at_a_time :: "32 word \<Rightarrow> byte list \<Rightarrow> 32 word" where
  "ht_hash_one_at_a_time seed str =
     (let hash = ht_hash_loop (seed + of_nat (length str)) str;
          hash = hash + push_bit 3 hash;
          hash = hash XOR drop_bit 11 hash
      in hash + push_bit 15 hash)"

text \<open>\<open>HT_KEY_EQUALS\<close>: the first bytes are read before the lengths are compared.\<close>

definition ht_key_equals :: "byte list \<Rightarrow> byte list \<Rightarrow> bool option" where
  "ht_key_equals k1 k2 = do {
     c1 \<leftarrow> rd k1 0;
     c2 \<leftarrow> rd k2 0;
     Some (c1 = c2 \<and> length k1 = length k2 \<and> k1 = k2)
   }"

text \<open>The scan of a bucket: the position of the first item with the key.\<close>

fun ht_find :: "ht_item_t list \<Rightarrow> byte list \<Rightarrow> nat option option" where
  "ht_find [] key = Some None"
| "ht_find (it # items) key = do {
     eq \<leftarrow> ht_key_equals (it_key it) key;
     if eq then Some (Some 0)
     else do { r \<leftarrow> ht_find items key; Some (map_option Suc r) }
   }"

section \<open>Creating, growing and clearing a table\<close>

text \<open>An allocation that only matters when it fails.\<close>

definition ht_malloc :: "ht_mem \<Rightarrow> bool \<times> ht_mem" where
  "ht_malloc m = (\<not> hm_fails m (hm_brk m), m\<lparr>hm_brk := Suc (hm_brk m)\<rparr>)"

text \<open>\<open>calloc(n, sizeof(void *))\<close> fails when the product does not fit into a \<open>size_t\<close>.\<close>

definition ht_calloc :: "nat \<Rightarrow> ht_mem \<Rightarrow> bool \<times> ht_mem" where
  "ht_calloc n m = (if SIZE_MAX < 8 * n then (False, m) else ht_malloc m)"

text \<open>An allocated copy of the first \<open>n\<close> bytes of a block.\<close>

definition ht_copy_block :: "ht_mem \<Rightarrow> nat option \<Rightarrow> nat \<Rightarrow> (nat option \<times> ht_mem) option" where
  "ht_copy_block m data n =
     (case ht_malloc m of
        (False, m') \<Rightarrow> Some (None, m')
      | (True, m') \<Rightarrow>
          if n = 0 then Some (Some (hm_brk m), m'\<lparr>hm_blocks := (hm_blocks m')(hm_brk m \<mapsto> [])\<rparr>)
          else do {
            p \<leftarrow> data;
            block \<leftarrow> hm_blocks m p;
            if n \<le> length block
            then Some (Some (hm_brk m), m'\<lparr>hm_blocks := (hm_blocks m')(hm_brk m \<mapsto> take n block)\<rparr>)
            else None
          })"

definition ht_init :: "ht_mem \<Rightarrow> 32 word \<Rightarrow> nat \<Rightarrow> nat \<Rightarrow> bool \<Rightarrow> int \<times> hashtable_t" where
  "ht_init m seed initial_size max_size cb =
     (let sz = (if initial_size > HT_SIZE_MIN then initial_size else HT_SIZE_MIN);
          (items, m) = ht_calloc sz m;
          table = \<lparr>ht_size = sz, ht_max_size = max_size, ht_cnt = 0, ht_status = HT_STATUS_IDLE, ht_seed = seed,
                   ht_items = replicate sz None, ht_iter = [], ht_free_cb = cb, ht_mem = m\<rparr>
      in if \<not> items then (- 1, table)
         else let (iter, m) = ht_malloc m in (if iter then 0 else - 1, table\<lparr>ht_mem := m\<rparr>))"

definition ht_create :: "ht_mem \<Rightarrow> 32 word \<Rightarrow> nat \<Rightarrow> nat \<Rightarrow> bool \<Rightarrow> hashtable_t option" where
  "ht_create m seed initial_size max_size cb =
     (case ht_malloc m of
        (False, m) \<Rightarrow> None
      | (True, m) \<Rightarrow>
          (case ht_init m seed initial_size max_size cb of
             (ret, table) \<Rightarrow> if ret \<noteq> 0 then None else Some table))"

definition ht_set_free_item_callback :: "hashtable_t \<Rightarrow> bool \<Rightarrow> hashtable_t" where
  "ht_set_free_item_callback table cb = table\<lparr>ht_free_cb := cb\<rparr>"

definition ht_count :: "hashtable_t \<Rightarrow> nat" where
  "ht_count table = ht_cnt table"

text \<open>\<open>table->free_item_cb(data)\<close>, when a callback is set.\<close>

definition ht_release :: "hashtable_t \<Rightarrow> nat option \<Rightarrow> hashtable_t" where
  "ht_release table data =
     (if ht_free_cb table
      then table\<lparr>ht_mem := (ht_mem table)\<lparr>hm_freed := hm_freed (ht_mem table) @ [data]\<rparr>\<rparr> else table)"

text \<open>The inner and the outer loop of \<open>ht_clear\<close>.\<close>

fun ht_clear_items :: "hashtable_t \<Rightarrow> ht_item_t list \<Rightarrow> hashtable_t" where
  "ht_clear_items table [] = table"
| "ht_clear_items table (it # items) =
     (let table = ht_release table (it_data it)
      in ht_clear_items (table\<lparr>ht_cnt := dec64 (ht_cnt table)\<rparr>) items)"

fun ht_clear_lists :: "hashtable_t \<Rightarrow> nat list \<Rightarrow> hashtable_t option" where
  "ht_clear_lists table [] = Some table"
| "ht_clear_lists table (i # is) = do {
     slot \<leftarrow> rd (ht_items table) (int i);
     items \<leftarrow> slot;
     let table = ht_clear_items table items;
     arr \<leftarrow> wr (ht_items table) (int i) None;
     ht_clear_lists (table\<lparr>ht_items := arr, ht_iter := remove1 i (ht_iter table)\<rparr>) is
   }"

text \<open>A spin on the status word that never becomes idle does not return.\<close>

definition ht_clear :: "hashtable_t \<Rightarrow> hashtable_t option" where
  "ht_clear table =
     (if ht_status table \<noteq> HT_STATUS_IDLE then None else ht_clear_lists table (ht_iter table))"

text \<open>
  The inner loop of \<open>ht_grow_table\<close>: the items of an old bucket go to the new buckets. The allocation
  of a new bucket is not checked.
\<close>

fun ht_grow_items ::
  "nat \<Rightarrow> ht_item_t list \<Rightarrow> ht_item_t list option list \<times> nat list \<times> ht_mem \<Rightarrow>
   (ht_item_t list option list \<times> nat list \<times> ht_mem) option" where
  "ht_grow_items new_size [] r = Some r"
| "ht_grow_items new_size (it # items) (arr, iter, m) = do {
     let index = unat (it_hash it) mod new_size;
     slot \<leftarrow> rd arr (int index);
     case slot of
       None \<Rightarrow>
         (case ht_malloc m of
            (False, m) \<Rightarrow> None
          | (True, m) \<Rightarrow> do {
              arr \<leftarrow> wr arr (int index) (Some [it]);
              ht_grow_items new_size items (arr, iter @ [index], m)
            })
     | Some new_list \<Rightarrow> do {
         arr \<leftarrow> wr arr (int index) (Some (new_list @ [it]));
         ht_grow_items new_size items (arr, iter, m)
       }
   }"

fun ht_grow_lists ::
  "hashtable_t \<Rightarrow> nat \<Rightarrow> nat list \<Rightarrow> ht_item_t list option list \<times> nat list \<times> ht_mem \<Rightarrow>
   (ht_item_t list option list \<times> nat list \<times> ht_mem) option" where
  "ht_grow_lists table new_size [] r = Some r"
| "ht_grow_lists table new_size (i # is) r = do {
     slot \<leftarrow> rd (ht_items table) (int i);
     items \<leftarrow> slot;
     r \<leftarrow> ht_grow_items new_size items r;
     ht_grow_lists table new_size is r
   }"

definition ht_new_size :: "hashtable_t \<Rightarrow> nat" where
  "ht_new_size table =
     (let new_size = (2 * ht_size table) mod 18446744073709551616
      in if ht_max_size table \<noteq> 0 \<and> new_size > ht_max_size table then ht_max_size table else new_size)"

definition ht_grow_table :: "hashtable_t \<Rightarrow> hashtable_t option" where
  "ht_grow_table table =
     (if ht_status table \<noteq> HT_STATUS_IDLE then Some table
      else if ht_max_size table \<noteq> 0 \<and> ht_size table \<ge> ht_max_size table then Some table
      else (case ht_malloc (ht_mem table) of
        (False, m) \<Rightarrow> Some (table\<lparr>ht_mem := m\<rparr>)
      | (True, m) \<Rightarrow>
          (let new_size = ht_new_size table
           in case ht_calloc new_size m of
                (False, m) \<Rightarrow> Some (table\<lparr>ht_mem := m\<rparr>)
              | (True, m) \<Rightarrow> do {
                  (arr, iter, m) \<leftarrow> ht_grow_lists table new_size (ht_iter table) (replicate new_size None, [], m);
                  Some (table\<lparr>ht_items := arr, ht_size := new_size, ht_iter := iter, ht_mem := m\<rparr>)
                })))"

section \<open>Setting\<close>

text \<open>\<open>ht_get_list\<close>: the bucket of a hash value.\<close>

definition ht_get_list :: "hashtable_t \<Rightarrow> 32 word \<Rightarrow> nat option option" where
  "ht_get_list table hash =
     (if ht_status table \<noteq> HT_STATUS_IDLE then None
      else do {
        let index = unat hash mod ht_size table;
        slot \<leftarrow> rd (ht_items table) (int index);
        Some (if slot = None then None else Some index)
      })"

text \<open>\<open>ht_set_list\<close>: a new bucket, unless there is one.\<close>

definition ht_set_list :: "hashtable_t \<Rightarrow> 32 word \<Rightarrow> (nat option \<times> hashtable_t) option" where
  "ht_set_list table hash =
     (case ht_malloc (ht_mem table) of
        (False, m) \<Rightarrow> Some (None, table\<lparr>ht_mem := m\<rparr>)
      | (True, m) \<Rightarrow>
          if ht_status table \<noteq> HT_STATUS_IDLE then None
          else do {
            let index = unat hash mod ht_size table;
            slot \<leftarrow> rd (ht_items table) (int index);
            if slot \<noteq> None then Some (Some index, table\<lparr>ht_mem := m\<rparr>)
            else do {
              arr \<leftarrow> wr (ht_items table) (int index) (Some []);
              Some (Some index, table\<lparr>ht_mem := m, ht_items := arr, ht_iter := ht_iter table @ [index]\<rparr>)
            }
          })"

text \<open>
  The branch of \<open>ht_set_internal\<close> for a key that has no item (or one without data): a new item at
  the end of the bucket. \<open>None\<close> in the result is the return with -1.
\<close>

definition ht_set_new ::
  "hashtable_t \<Rightarrow> nat \<Rightarrow> ht_item_t list \<Rightarrow> 32 word \<Rightarrow> byte list \<Rightarrow> nat option \<Rightarrow> nat \<Rightarrow> bool \<Rightarrow>
   (bool \<times> hashtable_t) option" where
  "ht_set_new table index items hash key data dlen copy =
     (case ht_malloc (ht_mem table) of
        (False, m) \<Rightarrow> Some (False, table\<lparr>ht_mem := m\<rparr>)
      | (True, m) \<Rightarrow>
          (case (if length key > 32 then ht_malloc m else (True, m)) of
             (False, m) \<Rightarrow> Some (False, table\<lparr>ht_mem := m\<rparr>)
           | (True, m) \<Rightarrow> do {
               (ok, d, m) \<leftarrow>
                 (if copy then
                    (if dlen \<noteq> 0 then do { (d, m) \<leftarrow> ht_copy_block m data dlen; Some (d \<noteq> None, d, m) }
                     else Some (True, None, m))
                  else Some (True, data, m));
               if \<not> ok then Some (False, table\<lparr>ht_mem := m\<rparr>)
               else do {
                 arr \<leftarrow> wr (ht_items table) (int index)
                   (Some (items @ [\<lparr>it_hash = hash, it_key = key, it_data = d, it_dlen = dlen\<rparr>]));
                 Some (True, table\<lparr>ht_mem := m, ht_items := arr, ht_cnt := inc64 (ht_cnt table)\<rparr>)
               }
             }))"

text \<open>
  The branch for an item with data: its length is set first, then its data, to a copy if one was
  asked for.
\<close>

definition ht_set_old ::
  "hashtable_t \<Rightarrow> nat \<Rightarrow> ht_item_t list \<Rightarrow> nat \<Rightarrow> nat option \<Rightarrow> nat \<Rightarrow> bool \<Rightarrow> (bool \<times> hashtable_t) option" where
  "ht_set_old table index items i data dlen copy = do {
     let it = (items ! i)\<lparr>it_dlen := dlen\<rparr>;
     (ok, it, m) \<leftarrow>
       (if copy then do {
          (d, m) \<leftarrow> ht_copy_block (ht_mem table) data dlen;
          Some (d \<noteq> None, if d = None then it else it\<lparr>it_data := d\<rparr>, m)
        } else Some (True, it\<lparr>it_data := data\<rparr>, ht_mem table));
     arr \<leftarrow> wr (ht_items table) (int index) (Some (items[i := it]));
     Some (ok, table\<lparr>ht_mem := m, ht_items := arr\<rparr>)
   }"

text \<open>
  \<open>ht_set_internal\<close> gives the return code and what it stores through \<open>prev_data\<close> and
  \<open>prev_len\<close> (\<open>None\<close> where it stores nothing); \<open>want\<close> says that \<open>prev_data\<close> is not NULL.
\<close>

definition ht_set_internal ::
  "hashtable_t \<Rightarrow> byte list \<Rightarrow> nat option \<Rightarrow> nat \<Rightarrow> bool \<Rightarrow> bool \<Rightarrow> bool \<Rightarrow>
   (int \<times> (nat option \<times> nat) option \<times> hashtable_t) option" where
  "ht_set_internal table key data dlen want copy inx =
     (if key = [] then Some (- 1, None, table)
      else do {
        let hash = ht_hash_one_at_a_time (ht_seed table) key;
        found \<leftarrow> ht_get_list table hash;
        (index, table) \<leftarrow> (if found = None then ht_set_list table hash else Some (found, table));
        case index of
          None \<Rightarrow> Some (- 1, None, table)
        | Some index \<Rightarrow> do {
            slot \<leftarrow> rd (ht_items table) (int index);
            items \<leftarrow> slot;
            pos \<leftarrow> ht_find items key;
            let (prev, plen) = (case pos of None \<Rightarrow> (None, 0) | Some i \<Rightarrow> (it_data (items ! i), it_dlen (items ! i)));
            if prev \<noteq> None \<and> inx then Some (1, Some (prev, plen), table)
            else do {
              (ok, table) \<leftarrow>
                (if prev = None then ht_set_new table index items hash key data dlen copy
                 else ht_set_old table index items (the pos) data dlen copy);
              if \<not> ok then Some (- 1, None, table)
              else do {
                table \<leftarrow>
                  (if ht_count table > ht_size table + ht_size table div 3 \<and>
                      (ht_max_size table = 0 \<or> ht_size table < ht_max_size table)
                   then ht_grow_table table else Some table);
                Some (0, Some (prev, plen), if prev \<noteq> None \<and> \<not> want then ht_release table prev else table)
              }
            }
          }
      })"

definition ht_set :: "hashtable_t \<Rightarrow> byte list \<Rightarrow> nat option \<Rightarrow> nat \<Rightarrow> (int \<times> hashtable_t) option" where
  "ht_set table key data dlen = do {
     (ret, _, table) \<leftarrow> ht_set_internal table key data dlen False False False;
     Some (ret, table)
   }"

definition ht_set_if_not_exists :: "hashtable_t \<Rightarrow> byte list \<Rightarrow> nat option \<Rightarrow> nat \<Rightarrow> (int \<times> hashtable_t) option" where
  "ht_set_if_not_exists table key data dlen = do {
     (ret, _, table) \<leftarrow> ht_set_internal table key data dlen False False True;
     Some (ret, table)
   }"

definition ht_get_or_set ::
  "hashtable_t \<Rightarrow> byte list \<Rightarrow> nat option \<Rightarrow> nat \<Rightarrow> (int \<times> (nat option \<times> nat) option \<times> hashtable_t) option" where
  "ht_get_or_set table key data dlen = ht_set_internal table key data dlen True False True"

definition ht_get_and_set ::
  "hashtable_t \<Rightarrow> byte list \<Rightarrow> nat option \<Rightarrow> nat \<Rightarrow> (int \<times> (nat option \<times> nat) option \<times> hashtable_t) option" where
  "ht_get_and_set table key data dlen = ht_set_internal table key data dlen True False False"

definition ht_set_copy ::
  "hashtable_t \<Rightarrow> byte list \<Rightarrow> nat option \<Rightarrow> nat \<Rightarrow> bool \<Rightarrow> (int \<times> (nat option \<times> nat) option \<times> hashtable_t) option" where
  "ht_set_copy table key data dlen want = ht_set_internal table key data dlen want True False"

section \<open>Access by key\<close>

text \<open>
  The callback of \<open>ht_call\<close> runs while the bucket is locked: it may change the data of the item, its
  length and its own user data, and call the release callback of the table.
\<close>

type_synonym 'u ht_pair_callback_t =
  "hashtable_t \<Rightarrow> byte list \<Rightarrow> nat option \<Rightarrow> nat \<Rightarrow> 'u \<Rightarrow> (int \<times> nat option \<times> nat \<times> 'u \<times> ht_mem) option"

definition ht_call_internal ::
  "hashtable_t \<Rightarrow> byte list \<Rightarrow> 'u ht_pair_callback_t option \<Rightarrow> 'u \<Rightarrow> (int \<times> 'u \<times> hashtable_t) option" where
  "ht_call_internal table key cb user = do {
     let hash = ht_hash_one_at_a_time (ht_seed table) key;
     found \<leftarrow> ht_get_list table hash;
     case found of
       None \<Rightarrow> Some (- 1, user, table)
     | Some index \<Rightarrow> do {
         slot \<leftarrow> rd (ht_items table) (int index);
         items \<leftarrow> slot;
         pos \<leftarrow> ht_find items key;
         case pos of
           None \<Rightarrow> Some (- 1, user, table)
         | Some i \<Rightarrow>
             (case cb of
                None \<Rightarrow> Some (0, user, table)
              | Some f \<Rightarrow> do {
                  (ret, data, dlen, user, m) \<leftarrow> f table key (it_data (items ! i)) (it_dlen (items ! i)) user;
                  let items = items[i := (items ! i)\<lparr>it_data := data, it_dlen := dlen\<rparr>];
                  if ret = 1 then do {
                    arr \<leftarrow> wr (ht_items table) (int index) (Some (take i items @ drop (Suc i) items));
                    Some (0, user, table\<lparr>ht_items := arr, ht_cnt := dec64 (ht_cnt table), ht_mem := m\<rparr>)
                  } else do {
                    arr \<leftarrow> wr (ht_items table) (int index) (Some items);
                    Some (ret, user, table\<lparr>ht_items := arr, ht_mem := m\<rparr>)
                  }
                })
       }
   }"

definition ht_call ::
  "hashtable_t \<Rightarrow> byte list \<Rightarrow> 'u ht_pair_callback_t option \<Rightarrow> 'u \<Rightarrow> (int \<times> 'u \<times> hashtable_t) option" where
  "ht_call table key cb user = ht_call_internal table key cb user"

text \<open>
  \<open>memcmp\<close> of the first \<open>n\<close> bytes of two blocks; both have to be that long.
\<close>

definition ht_memcmp :: "ht_mem \<Rightarrow> nat option \<Rightarrow> nat option \<Rightarrow> nat \<Rightarrow> bool option" where
  "ht_memcmp m p q n =
     (if n = 0 then Some True
      else do {
        a \<leftarrow> p; x \<leftarrow> hm_blocks m a;
        b \<leftarrow> q; y \<leftarrow> hm_blocks m b;
        if n \<le> length x \<and> n \<le> length y then Some (take n x = take n y) else None
      })"

text \<open>The user data of the helper: \<open>matched\<close>, and what is stored through \<open>prev_data\<close> and \<open>prev_len\<close>.\<close>

definition ht_set_if_equals_helper ::
  "nat option \<Rightarrow> nat \<Rightarrow> nat option \<Rightarrow> nat \<Rightarrow> bool \<Rightarrow> (bool \<times> (nat option \<times> nat) option) ht_pair_callback_t" where
  "ht_set_if_equals_helper data dlen match match_size want table key val vlen user = do {
     let prev = Some (val, vlen);
     let m = ht_mem table;
     same \<leftarrow> (if match_size \<noteq> vlen then Some False
               else do {
                 p \<leftarrow> val; x \<leftarrow> hm_blocks m p; c \<leftarrow> rd x 0;
                 q \<leftarrow> match; y \<leftarrow> hm_blocks m q; d \<leftarrow> rd y 0;
                 if c \<noteq> d then Some False else ht_memcmp m val match match_size
               });
     if same then Some (0, data, dlen, (True, prev), ht_mem (if want then table else ht_release table val))
     else Some (0, val, vlen, (False, prev), m)
   }"

definition ht_set_if_equals ::
  "hashtable_t \<Rightarrow> byte list \<Rightarrow> nat option \<Rightarrow> nat \<Rightarrow> nat option \<Rightarrow> nat \<Rightarrow> bool \<Rightarrow>
   (int \<times> (nat option \<times> nat) option \<times> hashtable_t) option" where
  "ht_set_if_equals table key data dlen match match_size want =
     (if match = None \<and> match_size = 0
      then do { (ret, table) \<leftarrow> ht_set_if_not_exists table key data dlen; Some (ret, None, table) }
      else do {
        (ret, (matched, prev), table) \<leftarrow>
          ht_call_internal table key (Some (ht_set_if_equals_helper data dlen match match_size want)) (False, None);
        Some (if ret = 0 then (if matched then 0 else 1) else - 1, prev, table)
      })"

definition ht_delete_helper ::
  "bool \<Rightarrow> nat option \<Rightarrow> nat \<Rightarrow> bool \<Rightarrow> (nat option \<times> nat) option ht_pair_callback_t" where
  "ht_delete_helper unset match match_size want table key val vlen user = do {
     differs \<leftarrow> (if match = None then Some False
                  else if match_size \<noteq> vlen then Some True
                  else do { eq \<leftarrow> ht_memcmp (ht_mem table) match val vlen; Some (\<not> eq) });
     if differs then Some (- 1, val, vlen, user, ht_mem table)
     else do {
       let m = ht_mem (if want then table else ht_release table val);
       let user = Some (val, vlen);
       if unset then Some (0, None, 0, user, m) else Some (1, val, vlen, user, m)
     }
   }"

definition ht_unset ::
  "hashtable_t \<Rightarrow> byte list \<Rightarrow> bool \<Rightarrow> (int \<times> (nat option \<times> nat) option \<times> hashtable_t) option" where
  "ht_unset table key want = ht_call_internal table key (Some (ht_delete_helper True None 0 want)) None"

definition ht_delete_internal ::
  "hashtable_t \<Rightarrow> byte list \<Rightarrow> bool \<Rightarrow> nat option \<Rightarrow> nat \<Rightarrow> (int \<times> (nat option \<times> nat) option \<times> hashtable_t) option" where
  "ht_delete_internal table key want match match_size =
     ht_call_internal table key (Some (ht_delete_helper False match match_size want)) None"

definition ht_delete ::
  "hashtable_t \<Rightarrow> byte list \<Rightarrow> bool \<Rightarrow> (int \<times> (nat option \<times> nat) option \<times> hashtable_t) option" where
  "ht_delete table key want = ht_delete_internal table key want None 0"

definition ht_delete_if_equals :: "hashtable_t \<Rightarrow> byte list \<Rightarrow> nat option \<Rightarrow> nat \<Rightarrow> (int \<times> hashtable_t) option" where
  "ht_delete_if_equals table key match match_size = do {
     (ret, _, table) \<leftarrow> ht_delete_internal table key False match match_size;
     Some (ret, table)
   }"

definition ht_exists :: "hashtable_t \<Rightarrow> byte list \<Rightarrow> bool option" where
  "ht_exists table key = map_option (\<lambda>(ret, _, _). ret = 0) (ht_call_internal table key (None :: unit ht_pair_callback_t option) ())"

text \<open>
  \<open>ht_get_helper\<close>: the user data is the result \<open>arg->data\<close> with the length that is stored
  through \<open>dlen\<close>. \<open>copy_cb\<close> is the deep copy callback, a function of the data and its length.
\<close>

definition ht_get_helper ::
  "bool \<Rightarrow> (nat option \<Rightarrow> nat \<Rightarrow> ht_mem \<Rightarrow> nat option \<times> ht_mem) option \<Rightarrow>
   (nat option \<times> nat option) ht_pair_callback_t" where
  "ht_get_helper copy copy_cb table key val vlen user =
     (if copy then
        (case copy_cb of
           Some f \<Rightarrow> (let (d, m) = f val vlen (ht_mem table) in Some (0, val, vlen, (d, Some vlen), m))
         | None \<Rightarrow> do {
             (d, m) \<leftarrow> ht_copy_block (ht_mem table) val vlen;
             if d = None then Some (- 1, val, vlen, (None, snd user), m)
             else Some (0, val, vlen, (d, Some vlen), m)
           })
      else Some (0, val, vlen, (val, Some vlen), ht_mem table))"

definition ht_get_internal ::
  "hashtable_t \<Rightarrow> byte list \<Rightarrow> bool \<Rightarrow> (nat option \<Rightarrow> nat \<Rightarrow> ht_mem \<Rightarrow> nat option \<times> ht_mem) option \<Rightarrow>
   ((nat option \<times> nat option) \<times> hashtable_t) option" where
  "ht_get_internal table key copy copy_cb = do {
     (_, user, table) \<leftarrow> ht_call_internal table key (Some (ht_get_helper copy copy_cb)) (None, None);
     Some (user, table)
   }"

definition ht_get :: "hashtable_t \<Rightarrow> byte list \<Rightarrow> ((nat option \<times> nat option) \<times> hashtable_t) option" where
  "ht_get table key = ht_get_internal table key False None"

definition ht_get_copy :: "hashtable_t \<Rightarrow> byte list \<Rightarrow> ((nat option \<times> nat option) \<times> hashtable_t) option" where
  "ht_get_copy table key = ht_get_internal table key True None"

definition ht_get_deep_copy ::
  "hashtable_t \<Rightarrow> byte list \<Rightarrow> (nat option \<Rightarrow> nat \<Rightarrow> ht_mem \<Rightarrow> nat option \<times> ht_mem) option \<Rightarrow>
   ((nat option \<times> nat option) \<times> hashtable_t) option" where
  "ht_get_deep_copy table key copy_cb = ht_get_internal table key True copy_cb"

section \<open>Iteration\<close>

text \<open>
  The items of a bucket under \<open>ht_foreach_pair\<close>: what is left of the bucket, whether to stop, and the
  new table and user data. The callback gives its return code, 1 to go on, 0 to stop, -1 to remove
  (any other value, too), -2 to remove and stop.
\<close>

fun ht_foreach_items ::
  "(byte list \<Rightarrow> nat option \<Rightarrow> nat \<Rightarrow> 'u \<Rightarrow> int \<times> 'u) \<Rightarrow> hashtable_t \<Rightarrow> 'u \<Rightarrow> ht_item_t list \<Rightarrow>
   ht_item_t list \<times> bool \<times> hashtable_t \<times> 'u" where
  "ht_foreach_items cb table user [] = ([], False, table, user)"
| "ht_foreach_items cb table user (it # items) =
     (let (rc, user) = cb (it_key it) (it_data it) (it_dlen it) user in
      if rc = 1 then
        (let (rest, stop, table, user) = ht_foreach_items cb table user items in (it # rest, stop, table, user))
      else if rc = 0 then (it # items, True, table, user)
      else
        (let table = ht_release table (it_data it);
             table = table\<lparr>ht_cnt := dec64 (ht_cnt table)\<rparr>
         in if rc = - 2 then (items, True, table, user) else ht_foreach_items cb table user items))"

fun ht_foreach_lists ::
  "(byte list \<Rightarrow> nat option \<Rightarrow> nat \<Rightarrow> 'u \<Rightarrow> int \<times> 'u) \<Rightarrow> hashtable_t \<Rightarrow> 'u \<Rightarrow> nat list \<Rightarrow> (hashtable_t \<times> 'u) option" where
  "ht_foreach_lists cb table user [] = Some (table, user)"
| "ht_foreach_lists cb table user (i # is) = do {
     slot \<leftarrow> rd (ht_items table) (int i);
     items \<leftarrow> slot;
     let (rest, stop, table, user) = ht_foreach_items cb table user items;
     arr \<leftarrow> wr (ht_items table) (int i) (Some rest);
     let table = table\<lparr>ht_items := arr\<rparr>;
     if stop then Some (table, user) else ht_foreach_lists cb table user is
   }"

definition ht_foreach_pair ::
  "hashtable_t \<Rightarrow> (byte list \<Rightarrow> nat option \<Rightarrow> nat \<Rightarrow> 'u \<Rightarrow> int \<times> 'u) \<Rightarrow> 'u \<Rightarrow> (hashtable_t \<times> 'u) option" where
  "ht_foreach_pair table cb user = ht_foreach_lists cb table user (ht_iter table)"

definition ht_foreach_key ::
  "hashtable_t \<Rightarrow> (byte list \<Rightarrow> 'u \<Rightarrow> int \<times> 'u) \<Rightarrow> 'u \<Rightarrow> (hashtable_t \<times> 'u) option" where
  "ht_foreach_key table cb user = ht_foreach_pair table (\<lambda>key _ _. cb key) user"

definition ht_foreach_value ::
  "hashtable_t \<Rightarrow> (nat option \<Rightarrow> nat \<Rightarrow> 'u \<Rightarrow> int \<times> 'u) \<Rightarrow> 'u \<Rightarrow> (hashtable_t \<times> 'u) option" where
  "ht_foreach_value table cb user = ht_foreach_pair table (\<lambda>_ data dlen. cb data dlen) user"

section \<open>Keys and values as linked lists\<close>

record hashtable_key_t =
  hk_data :: "byte list"
  hk_vlen :: nat

record hashtable_value_t =
  hv_data :: "nat option"
  hv_len :: nat
  hv_key :: "byte list"

text \<open>
  The loops of \<open>ht_get_all_keys\<close> and \<open>ht_get_all_values\<close>: \<open>n\<close> allocations per item, then a
  push whose result is ignored. \<open>False\<close> is the exit where an allocation failed.
\<close>

fun ht_mallocs :: "nat \<Rightarrow> ht_mem \<Rightarrow> bool \<times> ht_mem" where
  "ht_mallocs 0 m = (True, m)"
| "ht_mallocs (Suc n) m = (case ht_malloc m of (False, m) \<Rightarrow> (False, m) | (True, m) \<Rightarrow> ht_mallocs n m)"

fun ht_collect ::
  "nat \<Rightarrow> (ht_item_t \<Rightarrow> 'v) \<Rightarrow> nat \<Rightarrow> ht_item_t list \<Rightarrow> ht_mem \<Rightarrow> 'v list_mem \<Rightarrow> (bool \<times> ht_mem \<times> 'v list_mem) option" where
  "ht_collect n f output [] m lm = Some (True, m, lm)"
| "ht_collect n f output (it # items) m lm =
     (case ht_mallocs n m of
        (False, m) \<Rightarrow> Some (False, m, lm)
      | (True, m) \<Rightarrow> do {
          (_, lm) \<leftarrow> list_push_value lm output (Some (f it));
          ht_collect n f output items m lm
        })"

fun ht_collect_lists ::
  "nat \<Rightarrow> (ht_item_t \<Rightarrow> 'v) \<Rightarrow> nat \<Rightarrow> hashtable_t \<Rightarrow> nat list \<Rightarrow> ht_mem \<Rightarrow> 'v list_mem \<Rightarrow> (bool \<times> ht_mem \<times> 'v list_mem) option"
where
  "ht_collect_lists n f output table [] m lm = Some (True, m, lm)"
| "ht_collect_lists n f output table (i # is) m lm = do {
     slot \<leftarrow> rd (ht_items table) (int i);
     items \<leftarrow> slot;
     (ok, m, lm) \<leftarrow> ht_collect n f output items m lm;
     if ok then ht_collect_lists n f output table is m lm else Some (False, m, lm)
   }"

definition ht_collect_all ::
  "nat \<Rightarrow> (ht_item_t \<Rightarrow> 'v) \<Rightarrow> hashtable_t \<Rightarrow> 'v list_mem \<Rightarrow> (nat option \<times> hashtable_t \<times> 'v list_mem) option" where
  "ht_collect_all n f table lm =
     (case list_create lm of
        (None, lm) \<Rightarrow> None
      | (Some output, lm) \<Rightarrow> do {
          lm \<leftarrow> list_set_free_value_callback lm output True;
          (ok, m, lm) \<leftarrow> ht_collect_lists n f output table (ht_iter table) (ht_mem table) lm;
          if ok then Some (Some output, table\<lparr>ht_mem := m\<rparr>, lm)
          else do { lm \<leftarrow> list_destroy (\<lambda>_ _. Some) lm output; Some (None, table\<lparr>ht_mem := m\<rparr>, lm) }
        })"

definition ht_get_all_keys ::
  "hashtable_t \<Rightarrow> hashtable_key_t list_mem \<Rightarrow> (nat option \<times> hashtable_t \<times> hashtable_key_t list_mem) option" where
  "ht_get_all_keys = ht_collect_all 2 (\<lambda>it. \<lparr>hk_data = it_key it, hk_vlen = it_dlen it\<rparr>)"

definition ht_get_all_values ::
  "hashtable_t \<Rightarrow> hashtable_value_t list_mem \<Rightarrow> (nat option \<times> hashtable_t \<times> hashtable_value_t list_mem) option" where
  "ht_get_all_values = ht_collect_all 1 (\<lambda>it. \<lparr>hv_data = it_data it, hv_len = it_dlen it, hv_key = it_key it\<rparr>)"

end
