(* ===== verification/Hashtable_Spec.thy ===== *)
theory Hashtable_Spec
  imports Hashtable
begin

text \<open>
  What the hash table promises: the invariant \<open>ht_wf\<close>, the map \<open>ht_map\<close> that a table
  represents, and the laws of its operations, growing included.
\<close>

section \<open>Well-formed tables and the map they represent\<close>

definition ht_idx :: "hashtable_t \<Rightarrow> byte list \<Rightarrow> nat" where
  "ht_idx t k = unat (ht_hash_one_at_a_time (ht_seed t) k) mod ht_size t"

definition bucket :: "hashtable_t \<Rightarrow> nat \<Rightarrow> ht_item_t list" where
  "bucket t i = (case ht_items t ! i of None \<Rightarrow> [] | Some b \<Rightarrow> b)"

text \<open>All items, in the order of the iterator.\<close>

definition ht_all :: "hashtable_t \<Rightarrow> ht_item_t list" where
  "ht_all t = concat (map (bucket t) (ht_iter t))"

definition item_ok :: "hashtable_t \<Rightarrow> nat \<Rightarrow> ht_item_t \<Rightarrow> bool" where
  "item_ok t i it \<longleftrightarrow> it_key it \<noteq> [] \<and> it_hash it = ht_hash_one_at_a_time (ht_seed t) (it_key it) \<and> ht_idx t (it_key it) = i"

definition ht_wf :: "hashtable_t \<Rightarrow> bool" where
  "ht_wf t \<longleftrightarrow> 0 < ht_size t \<and> 8 * ht_size t \<le> SIZE_MAX \<and> length (ht_items t) = ht_size t \<and>
     ht_status t = HT_STATUS_IDLE \<and> distinct (ht_iter t) \<and>
     (\<forall>i < ht_size t. ht_items t ! i \<noteq> None \<longleftrightarrow> i \<in> set (ht_iter t)) \<and> (\<forall>i\<in>set (ht_iter t). i < ht_size t) \<and>
     (\<forall>i < ht_size t. \<forall>it\<in>set (bucket t i). item_ok t i it) \<and>
     (\<forall>i < ht_size t. distinct (map it_key (bucket t i))) \<and>
     ht_cnt t = length (ht_all t) \<and> ht_cnt t < SIZE_MAX"

definition key_find :: "ht_item_t list \<Rightarrow> byte list \<Rightarrow> (nat option \<times> nat) option" where
  "key_find items k = map_option (\<lambda>it. (it_data it, it_dlen it)) (find (\<lambda>it. it_key it = k) items)"

definition ht_map :: "hashtable_t \<Rightarrow> byte list \<rightharpoonup> nat option \<times> nat" where
  "ht_map t k = key_find (bucket t (ht_idx t k)) k"

lemma ht_wfD:
  assumes "ht_wf t"
  shows "0 < ht_size t" "8 * ht_size t \<le> SIZE_MAX" "length (ht_items t) = ht_size t" "ht_status t = HT_STATUS_IDLE"
    "distinct (ht_iter t)" "i < ht_size t \<Longrightarrow> ht_items t ! i \<noteq> None \<longleftrightarrow> i \<in> set (ht_iter t)"
    "i \<in> set (ht_iter t) \<Longrightarrow> i < ht_size t" "i < ht_size t \<Longrightarrow> it \<in> set (bucket t i) \<Longrightarrow> item_ok t i it"
    "i < ht_size t \<Longrightarrow> distinct (map it_key (bucket t i))" "ht_cnt t = length (ht_all t)" "ht_cnt t < SIZE_MAX"
  using assms by (simp_all add: ht_wf_def)

lemma ht_idx_less: "ht_wf t \<Longrightarrow> ht_idx t k < ht_size t"
  by (simp add: ht_wf_def ht_idx_def)

text \<open>Nothing depends on the memory, the callback and the maximum size.\<close>

lemma bucket_frame [simp]: "bucket (t\<lparr>ht_mem := m\<rparr>) = bucket t" "bucket (t\<lparr>ht_cnt := n\<rparr>) = bucket t"
  by (simp_all add: fun_eq_iff bucket_def)

lemma ht_idx_frame [simp]: "ht_idx (t\<lparr>ht_mem := m\<rparr>) = ht_idx t" "ht_idx (t\<lparr>ht_cnt := n\<rparr>) = ht_idx t"
  by (simp_all add: fun_eq_iff ht_idx_def)

lemma ht_frame [simp]:
  "ht_all (t\<lparr>ht_mem := m\<rparr>) = ht_all t" "ht_wf (t\<lparr>ht_mem := m\<rparr>) = ht_wf t" "ht_map (t\<lparr>ht_mem := m\<rparr>) = ht_map t"
  by (simp_all add: fun_eq_iff ht_all_def ht_wf_def item_ok_def ht_map_def)

lemma ht_release_frame [simp]:
  "bucket (ht_release t d) = bucket t" "ht_idx (ht_release t d) = ht_idx t" "ht_all (ht_release t d) = ht_all t"
  "ht_wf (ht_release t d) = ht_wf t" "ht_map (ht_release t d) = ht_map t" "ht_items (ht_release t d) = ht_items t"
  "ht_iter (ht_release t d) = ht_iter t" "ht_cnt (ht_release t d) = ht_cnt t" "ht_size (ht_release t d) = ht_size t"
  "ht_seed (ht_release t d) = ht_seed t" "ht_free_cb (ht_release t d) = ht_free_cb t"
  "ht_status (ht_release t d) = ht_status t" "ht_max_size (ht_release t d) = ht_max_size t"
  by (simp_all add: ht_release_def)

section \<open>Lookup\<close>

lemma ht_key_equals_ok: "k1 \<noteq> [] \<Longrightarrow> k2 \<noteq> [] \<Longrightarrow> ht_key_equals k1 k2 = Some (k1 = k2)"
  by (cases k1; cases k2) (auto simp: ht_key_equals_def rd_def)

lemma ht_find_ok:
  "\<forall>it\<in>set items. it_key it \<noteq> [] \<Longrightarrow> key \<noteq> [] \<Longrightarrow>
     ht_find items key = Some (if key \<in> it_key ` set items then Some (first_pos key (map it_key items)) else None)"
  by (induction items) (auto simp: ht_key_equals_ok)

lemma find_first_pos:
  "find (\<lambda>it. it_key it = k) items =
     (if k \<in> it_key ` set items then Some (items ! first_pos k (map it_key items)) else None)"
  by (induction items) auto

lemma key_find_None: "key_find items k = None \<longleftrightarrow> k \<notin> it_key ` set items"
  by (simp add: key_find_def find_first_pos)

lemma ht_get_list_ok:
  assumes "ht_wf t"
  shows "ht_get_list t (ht_hash_one_at_a_time (ht_seed t) k) =
           Some (if ht_idx t k \<in> set (ht_iter t) then Some (ht_idx t k) else None)"
  using ht_wfD(1,3,4) [OF assms] ht_wfD(6) [OF assms ht_idx_less [OF assms, of k]] ht_idx_less [OF assms, of k]
  by (auto simp: ht_get_list_def ht_idx_def rd_def Let_def)

lemma bucket_slot:
  assumes "ht_wf t" and "i \<in> set (ht_iter t)"
  shows "rd (ht_items t) (int i) = Some (Some (bucket t i))"
  using ht_wfD(3) [OF assms(1)] ht_wfD(6,7) [OF assms(1), of i] assms(2) by (auto simp: rd_def bucket_def)

lemma bucket_empty:
  assumes "ht_wf t" and "i < ht_size t" and "i \<notin> set (ht_iter t)"
  shows "bucket t i = []"
  using ht_wfD(6) [OF assms(1,2)] assms(3) by (simp add: bucket_def)

lemma bucket_find:
  assumes "ht_wf t" and "k \<noteq> []"
  shows "ht_find (bucket t (ht_idx t k)) k =
     Some (if k \<in> it_key ` set (bucket t (ht_idx t k)) then Some (first_pos k (map it_key (bucket t (ht_idx t k)))) else None)"
  by (rule ht_find_ok) (use ht_wfD(8) [OF assms(1) ht_idx_less [OF assms(1), of k]] assms(2) in \<open>auto simp: item_ok_def\<close>)

lemma find_all_bucket:
  assumes "ht_wf t"
  shows "find (\<lambda>it. it_key it = k) (ht_all t) = find (\<lambda>it. it_key it = k) (bucket t (ht_idx t k))"
proof -
  let ?P = "\<lambda>it. it_key it = k"
  have other: "find ?P (bucket t j) = None" if "j \<in> set (ht_iter t)" "j \<noteq> ht_idx t k" for j
    using ht_wfD(8) [OF assms ht_wfD(7) [OF assms that(1)]] that(2) by (auto simp: find_None_iff item_ok_def)
  have "find ?P (concat (map (bucket t) is)) = (if ht_idx t k \<in> set is then find ?P (bucket t (ht_idx t k)) else None)"
    if "set is \<subseteq> set (ht_iter t)" for "is"
    using that
  proof (induction "is")
    case (Cons j "is")
    have app: "find ?P (xs @ ys) = (case find ?P xs of None \<Rightarrow> find ?P ys | Some x \<Rightarrow> Some x)" for xs ys
      by (induction xs) auto
    show ?case using Cons other [of j] by (cases "j = ht_idx t k") (auto simp: app split: option.split)
  qed simp
  from this [OF subset_refl] show ?thesis
    using bucket_empty [OF assms ht_idx_less [OF assms, of k]] by (auto simp: ht_all_def)
qed

text \<open>The map, by the order of the iterator.\<close>

lemma ht_map_all: "ht_wf t \<Longrightarrow> ht_map t k = key_find (ht_all t) k"
  by (simp add: ht_map_def key_find_def find_all_bucket)

lemma ht_map_empty_key: "ht_wf t \<Longrightarrow> ht_map t [] = None"
  using ht_wfD(8) [of t "ht_idx t []"] ht_idx_less [of t "[]"]
  by (fastforce simp: ht_map_def key_find_None item_ok_def)

section \<open>Replacing the items of a bucket\<close>

definition put_bucket :: "hashtable_t \<Rightarrow> nat \<Rightarrow> ht_item_t list \<Rightarrow> hashtable_t" where
  "put_bucket t i b = t\<lparr>ht_items := (ht_items t)[i := Some b], ht_cnt := ht_cnt t - length (bucket t i) + length b\<rparr>"

lemma bucket_put: "i < length (ht_items t) \<Longrightarrow> bucket (put_bucket t i b) j = (if j = i then b else bucket t j)"
  by (simp add: bucket_def put_bucket_def)

lemma ht_idx_put [simp]: "ht_idx (put_bucket t i b) = ht_idx t"
  by (simp add: fun_eq_iff ht_idx_def put_bucket_def)

lemma length_all_put:
  assumes "ht_wf t" and "i \<in> set (ht_iter t)"
  shows "length (ht_all (put_bucket t i b)) + length (bucket t i) = length (ht_all t) + length b"
proof -
  obtain xs ys where it: "ht_iter t = xs @ i # ys" using assms(2) by (auto simp: in_set_conv_decomp)
  have d: "i \<notin> set xs" "i \<notin> set ys" using ht_wfD(5) [OF assms(1)] by (auto simp: it)
  have i: "i < length (ht_items t)" using ht_wfD(3) [OF assms(1)] ht_wfD(7) [OF assms] by simp
  have "map (bucket (put_bucket t i b)) zs = map (bucket t) zs" if "i \<notin> set zs" for zs
    using that by (auto simp: bucket_put [OF i])
  note m = this [OF d(1)] this [OF d(2)]
  have "ht_iter (put_bucket t i b) = xs @ i # ys" by (simp add: put_bucket_def it)
  then show ?thesis by (simp add: ht_all_def it m) (simp add: bucket_put [OF i])
qed

lemma put_bucket_wf:
  assumes "ht_wf t" and "i \<in> set (ht_iter t)" and "\<forall>it\<in>set b. item_ok t i it" and "distinct (map it_key b)"
    and "ht_cnt (put_bucket t i b) < SIZE_MAX"
  shows "ht_wf (put_bucket t i b)"
proof -
  have i: "i < length (ht_items t)" "i < ht_size t" using ht_wfD(3) [OF assms(1)] ht_wfD(7) [OF assms(1,2)] by simp_all
  have ok: "item_ok (put_bucket t i b) = item_ok t"
    by (simp add: fun_eq_iff item_ok_def ht_idx_def put_bucket_def)
  have le: "length (bucket t i) \<le> length (ht_all t)"
    using split_list [OF assms(2)] by (auto simp: ht_all_def)
  have cnt: "ht_cnt (put_bucket t i b) = length (ht_all (put_bucket t i b))"
    using length_all_put [OF assms(1,2), of b] ht_wfD(10) [OF assms(1)] le by (simp add: put_bucket_def)
  have slots: "ht_items (put_bucket t i b) ! j \<noteq> None \<longleftrightarrow> j \<in> set (ht_iter t)" if "j < ht_size t" for j
    using ht_wfD(6) [OF assms(1) that] assms(2) i by (cases "j = i") (simp_all add: put_bucket_def)
  show ?thesis
    unfolding ht_wf_def ok bucket_put [OF i(1)]
    using cnt assms(3-5) ht_wfD [OF assms(1)] slots by (auto simp: put_bucket_def)
qed

lemma ht_map_put:
  assumes "ht_wf t" and "i \<in> set (ht_iter t)"
  shows "ht_map (put_bucket t i b) k = (if ht_idx t k = i then key_find b k else ht_map t k)"
  using ht_wfD(3) [OF assms(1)] ht_wfD(7) [OF assms] by (simp add: ht_map_def bucket_put)

section \<open>Growing\<close>

definition same_env :: "hashtable_t \<Rightarrow> hashtable_t \<Rightarrow> bool" where
  "same_env t t' \<longleftrightarrow> ht_seed t' = ht_seed t \<and> ht_max_size t' = ht_max_size t \<and> ht_free_cb t' = ht_free_cb t \<and>
     hm_fails (ht_mem t') = hm_fails (ht_mem t) \<and> hm_freed (ht_mem t') = hm_freed (ht_mem t) \<and>
     hm_blocks (ht_mem t') = hm_blocks (ht_mem t)"

definition same_mem :: "ht_mem \<Rightarrow> ht_mem \<Rightarrow> bool" where
  "same_mem m m' \<longleftrightarrow> hm_fails m' = hm_fails m \<and> hm_freed m' = hm_freed m \<and> hm_blocks m' = hm_blocks m"

lemma same_env_refl [simp]: "same_env t t"
  by (simp add: same_env_def)

lemma same_env_trans: "same_env t t' \<Longrightarrow> same_env t' t'' \<Longrightarrow> same_env t t''"
  by (simp add: same_env_def)

abbreviation no_fail :: "ht_mem \<Rightarrow> bool" where
  "no_fail m \<equiv> (\<forall>i. \<not> hm_fails m i)"

lemma all_keys_distinct:
  assumes "ht_wf t"
  shows "distinct (map it_key (ht_all t))"
proof -
  have "distinct (map it_key (concat (map (bucket t) is)))" if "set is \<subseteq> set (ht_iter t)" "distinct is" for "is"
    using that
  proof (induction "is")
    case (Cons i "is")
    have "it_key ` set (bucket t i) \<inter> it_key ` set (bucket t j) = {}" if "j \<in> set is" for j
      using that Cons.prems ht_wfD(7) [OF assms, of i] ht_wfD(7) [OF assms, of j]
        ht_wfD(8) [OF assms, of i] ht_wfD(8) [OF assms, of j] by (fastforce simp: item_ok_def)
    then have "it_key ` set (bucket t i) \<inter> it_key ` set (concat (map (bucket t) is)) = {}" by auto
    then show ?case using Cons ht_wfD(7) [OF assms, of i] ht_wfD(9) [OF assms, of i] by auto
  qed simp
  then show ?thesis using ht_wfD(5) [OF assms] by (simp add: ht_all_def)
qed

text \<open>The new buckets after the items \<open>xs\<close> were moved to a table of size \<open>N\<close>.\<close>

definition spread :: "nat \<Rightarrow> ht_item_t list \<Rightarrow> ht_item_t list option list \<Rightarrow> nat list \<Rightarrow> bool" where
  "spread N xs arr iter \<longleftrightarrow> length arr = N \<and> distinct iter \<and> set iter = (\<lambda>it. unat (it_hash it) mod N) ` set xs \<and>
     (\<forall>i < N. arr ! i = (let ys = filter (\<lambda>it. unat (it_hash it) mod N = i) xs in if ys = [] then None else Some ys))"

lemma spread_step:
  fixes it :: ht_item_t
  assumes "spread N xs arr iter" and "0 < N"
  defines "i \<equiv> unat (it_hash it) mod N"
  shows "arr ! i = None \<Longrightarrow> spread N (xs @ [it]) (arr[i := Some [it]]) (iter @ [i])"
    and "arr ! i = Some ys \<Longrightarrow> spread N (xs @ [it]) (arr[i := Some (ys @ [it])]) iter"
proof -
  have i: "i < N" "i < length arr" using assms by (simp_all add: i_def spread_def)
  have arr: "arr ! j = (let ys = filter (\<lambda>it. unat (it_hash it) mod N = j) xs in if ys = [] then None else Some ys)"
    if "j < N" for j using assms(1) that by (simp add: spread_def)
  have mem: "i \<in> set iter \<longleftrightarrow> arr ! i \<noteq> None"
    using arr [OF i(1)] assms(1) by (auto simp: spread_def Let_def filter_empty_conv)
  have app: "filter (\<lambda>it. unat (it_hash it) mod N = j) (xs @ [it]) =
      filter (\<lambda>it. unat (it_hash it) mod N = j) xs @ (if j = i then [it] else [])" for j
    by (auto simp: i_def)
  show "spread N (xs @ [it]) (arr[i := Some [it]]) (iter @ [i])" if "arr ! i = None"
    unfolding spread_def app using assms(1) i arr mem that
    by (auto simp: spread_def i_def [symmetric] nth_list_update Let_def split: if_splits)
  show "spread N (xs @ [it]) (arr[i := Some (ys @ [it])]) iter" if "arr ! i = Some ys"
    unfolding spread_def app using assms(1) i arr mem that
    by (auto simp: spread_def i_def [symmetric] nth_list_update Let_def split: if_splits)
qed

lemma ht_grow_items_ok:
  assumes "spread N xs arr iter" and "0 < N" and "no_fail m"
  shows "\<exists>arr' iter' m'. ht_grow_items N ys (arr, iter, m) = Some (arr', iter', m') \<and> spread N (xs @ ys) arr' iter' \<and> same_mem m m'"
  using assms
proof (induction ys arbitrary: xs arr iter m)
  case (Cons it ys)
  let ?i = "unat (it_hash it) mod N"
  have i: "?i < length arr" using Cons.prems(1,2) by (simp add: spread_def)
  show ?case
  proof (cases "arr ! ?i")
    case None
    have "no_fail (m\<lparr>hm_brk := Suc (hm_brk m)\<rparr>)" using Cons.prems(3) by simp
    from Cons.IH [OF spread_step(1) [OF Cons.prems(1,2) None] Cons.prems(2) this] show ?thesis
      using None i Cons.prems(3) by (auto simp: rd_def wr_def ht_malloc_def Let_def same_mem_def)
  next
    case (Some b)
    from Cons.IH [OF spread_step(2) [OF Cons.prems(1,2) Some] Cons.prems(2,3)] show ?thesis
      using Some i by (auto simp: rd_def wr_def Let_def)
  qed
qed (auto simp: same_mem_def)

lemma ht_grow_lists_ok:
  assumes "ht_wf t" and "set is \<subseteq> set (ht_iter t)" and "spread N xs arr iter" and "0 < N" and "no_fail m"
  shows "\<exists>arr' iter' m'. ht_grow_lists t N is (arr, iter, m) = Some (arr', iter', m') \<and>
           spread N (xs @ concat (map (bucket t) is)) arr' iter' \<and> same_mem m m'"
  using assms(2-)
proof (induction "is" arbitrary: xs arr iter m)
  case (Cons i "is")
  from ht_grow_items_ok [OF Cons.prems(2-4), of "bucket t i"] obtain arr1 iter1 m1 where
    1: "ht_grow_items N (bucket t i) (arr, iter, m) = Some (arr1, iter1, m1)" "spread N (xs @ bucket t i) arr1 iter1" "same_mem m m1"
    by auto
  have "no_fail m1" using Cons.prems(4) 1(3) by (simp add: same_mem_def)
  from Cons.IH [OF _ 1(2) Cons.prems(3) this] Cons.prems(1) obtain arr2 iter2 m2 where
    2: "ht_grow_lists t N is (arr1, iter1, m1) = Some (arr2, iter2, m2)"
      "spread N ((xs @ bucket t i) @ concat (map (bucket t) is)) arr2 iter2" "same_mem m1 m2" by auto
  then show ?case using 1 bucket_slot [OF assms(1), of i] Cons.prems(1) by (auto simp: same_mem_def)
qed (auto simp: same_mem_def)

lemma length_concat_filter:
  "distinct is \<Longrightarrow> length (concat (map (\<lambda>i. filter (\<lambda>x. f x = i) xs) is)) = length (filter (\<lambda>x. f x \<in> set is) xs)"
proof (induction "is")
  case (Cons i "is")
  have "length (filter (\<lambda>x. f x = i) xs) + length (filter (\<lambda>x. f x \<in> set is) xs) = length (filter (\<lambda>x. f x \<in> set (i # is)) xs)"
    using Cons.prems by (induction xs) auto
  then show ?case using Cons by simp
qed simp

lemma spread_wf:
  fixes m :: ht_mem
  assumes "ht_wf t" and "spread N (ht_all t) arr iter" and "0 < N" and "8 * N \<le> SIZE_MAX"
  defines "t' \<equiv> t\<lparr>ht_items := arr, ht_size := N, ht_iter := iter, ht_mem := m\<rparr>"
  shows "ht_wf t'" and "ht_map t' = ht_map t"
proof -
  have b: "bucket t' i = filter (\<lambda>it. unat (it_hash it) mod N = i) (ht_all t)" if "i < N" for i
    using assms(2) that by (auto simp: t'_def bucket_def spread_def Let_def)
  have it: "it_key it \<noteq> []" "it_hash it = ht_hash_one_at_a_time (ht_seed t) (it_key it)" if "it \<in> set (ht_all t)" for it
    using that ht_wfD(7,8) [OF assms(1)] by (auto simp: ht_all_def item_ok_def)
  have idx: "ht_idx t' k = unat (ht_hash_one_at_a_time (ht_seed t) k) mod N" for k by (simp add: ht_idx_def t'_def)
  have iter: "set iter \<subseteq> {..<N}" "distinct iter" using assms(2,3) by (auto simp: spread_def)
  have "ht_all t' = concat (map (\<lambda>i. filter (\<lambda>it. unat (it_hash it) mod N = i) (ht_all t)) iter)"
  proof -
    have "map (bucket t') iter = map (\<lambda>i. filter (\<lambda>it. unat (it_hash it) mod N = i) (ht_all t)) iter"
      by (rule map_cong) (use iter(1) b in auto)
    moreover have "ht_iter t' = iter" by (simp add: t'_def)
    ultimately show ?thesis unfolding ht_all_def [of t'] by (simp only:)
  qed
  then have "length (ht_all t') = length (filter (\<lambda>x. unat (it_hash x) mod N \<in> set iter) (ht_all t))"
    using length_concat_filter [OF iter(2), of "\<lambda>it. unat (it_hash it) mod N" "ht_all t"] by simp
  also have "filter (\<lambda>x. unat (it_hash x) mod N \<in> set iter) (ht_all t) = ht_all t"
    using assms(2) by (simp add: spread_def filter_id_conv)
  finally have len: "length (ht_all t') = length (ht_all t)" .
  have slots: "(arr ! i \<noteq> None) = (i \<in> set iter)" if "i < N" for i
    using assms(2) that by (auto simp: spread_def Let_def filter_empty_conv)
  show "ht_wf t'"
    unfolding ht_wf_def
  proof (intro conjI allI impI ballI)
    fix i x assume "i < ht_size t'" "x \<in> set (bucket t' i)"
    then show "item_ok t' i x" using b [of i] it idx by (auto simp: item_ok_def t'_def)
  next
    fix i assume "i < ht_size t'"
    then show "distinct (map it_key (bucket t' i))"
      using b [of i] all_keys_distinct [OF assms(1)] by (auto simp: t'_def distinct_map intro: inj_on_subset)
  qed (use assms(2-4) ht_wfD [OF assms(1)] len slots iter in \<open>auto simp: t'_def spread_def\<close>)
  show "ht_map t' = ht_map t"
  proof
    fix k
    let ?h = "unat (ht_hash_one_at_a_time (ht_seed t) k) mod N"
    have "find (\<lambda>it. it_key it = k) (filter (\<lambda>it. unat (it_hash it) mod N = ?h) xs) = find (\<lambda>it. it_key it = k) xs"
      if "set xs \<subseteq> set (ht_all t)" for xs
      using that it by (induction xs) auto
    then show "ht_map t' k = ht_map t k"
      using b [of ?h] assms(3) by (simp add: ht_map_def idx key_find_def find_all_bucket [OF assms(1), symmetric])
  qed
qed

lemma ht_grow_table_ok:
  assumes "ht_wf t" and "no_fail (ht_mem t)"
  shows "\<exists>t'. ht_grow_table t = Some t' \<and> ht_wf t' \<and> ht_map t' = ht_map t \<and> same_env t t' \<and> ht_cnt t' = ht_cnt t"
proof -
  let ?m = "(ht_mem t)\<lparr>hm_brk := Suc (hm_brk (ht_mem t))\<rparr>"
  let ?m2 = "?m\<lparr>hm_brk := Suc (hm_brk ?m)\<rparr>"
  let ?N = "ht_new_size t"
  have N: "0 < ?N" using ht_wfD(1,2) [OF assms(1)] by (simp add: ht_new_size_def SIZE_MAX_def Let_def)
  have "spread ?N [] (replicate ?N None) []" by (simp add: spread_def)
  with ht_grow_lists_ok [OF assms(1) subset_refl _ N, of "[]" "replicate ?N None" "[]" ?m2] assms(2) obtain arr iter m' where
    g: "ht_grow_lists t ?N (ht_iter t) (replicate ?N None, [], ?m2) = Some (arr, iter, m')" "spread ?N (ht_all t) arr iter" "same_mem ?m2 m'"
    by (auto simp: ht_all_def)
  consider "ht_max_size t \<noteq> 0 \<and> ht_size t \<ge> ht_max_size t" | "\<not> (ht_max_size t \<noteq> 0 \<and> ht_size t \<ge> ht_max_size t)" "SIZE_MAX < 8 * ?N"
    | "\<not> (ht_max_size t \<noteq> 0 \<and> ht_size t \<ge> ht_max_size t)" "8 * ?N \<le> SIZE_MAX" by linarith
  then show ?thesis
  proof cases
    case 1
    then show ?thesis using assms(1) ht_wfD(4) [OF assms(1)] by (simp add: ht_grow_table_def)
  next
    case 2
    then have "ht_grow_table t = Some (t\<lparr>ht_mem := ?m\<rparr>)"
      using assms(2) ht_wfD(4) [OF assms(1)]
      by (auto simp: ht_grow_table_def ht_malloc_def ht_calloc_def)
    then show ?thesis using assms(1) by (simp add: same_env_def)
  next
    case 3
    then have "ht_grow_table t = Some (t\<lparr>ht_items := arr, ht_size := ?N, ht_iter := iter, ht_mem := m'\<rparr>)"
      using assms(2) ht_wfD(4) [OF assms(1)] g(1)
      by (auto simp: ht_grow_table_def ht_malloc_def ht_calloc_def)
    then show ?thesis using spread_wf [OF assms(1) g(2) N 3(2), of m'] g(3) by (simp add: same_env_def same_mem_def)
  qed
qed

section \<open>Setting\<close>

lemma key_find_append:
  "k \<notin> it_key ` set items \<Longrightarrow> it_key it = k \<Longrightarrow>
     key_find (items @ [it]) k' = (if k' = k then Some (it_data it, it_dlen it) else key_find items k')"
  by (induction items) (auto simp: key_find_def)

lemma key_find_update:
  "k \<in> it_key ` set items \<Longrightarrow> it_key it = k \<Longrightarrow>
     key_find (items[first_pos k (map it_key items) := it]) k' =
     (if k' = k then Some (it_data it, it_dlen it) else key_find items k')"
proof (induction items)
  case (Cons x items)
  then show ?case by (cases "it_key x = k") (auto simp: key_find_def)
qed simp

lemma key_find_remove:
  "k \<in> it_key ` set items \<Longrightarrow> distinct (map it_key items) \<Longrightarrow>
     key_find (take (first_pos k (map it_key items)) items @ drop (Suc (first_pos k (map it_key items))) items) k' =
     (if k' = k then None else key_find items k')"
proof (induction items)
  case (Cons x items)
  then show ?case by (cases "it_key x = k") (auto simp: key_find_def find_None_iff intro: rev_image_eqI)
qed simp

lemma first_pos_key:
  assumes "k \<in> it_key ` set items"
  shows "first_pos k (map it_key items) < length items" "it_key (items ! first_pos k (map it_key items)) = k"
proof -
  have k: "k \<in> set (map it_key items)" using assms by auto
  show 1: "first_pos k (map it_key items) < length items" using first_pos_less [OF k] by simp
  show "it_key (items ! first_pos k (map it_key items)) = k" using first_pos_nth [OF k] 1 by simp
qed

lemma ht_malloc_ok: "no_fail m \<Longrightarrow> ht_malloc m = (True, m\<lparr>hm_brk := Suc (hm_brk m)\<rparr>)"
  by (simp add: ht_malloc_def)

lemma ht_set_list_ok:
  assumes "ht_wf t" and "ht_idx t k \<notin> set (ht_iter t)" and "no_fail (ht_mem t)"
  shows "\<exists>t'. ht_set_list t (ht_hash_one_at_a_time (ht_seed t) k) = Some (Some (ht_idx t k), t') \<and> ht_wf t' \<and>
           ht_map t' = ht_map t \<and> ht_idx t k \<in> set (ht_iter t') \<and> ht_idx t' = ht_idx t \<and> ht_cnt t' = ht_cnt t \<and>
           same_env t t'"
proof -
  let ?i = "ht_idx t k"
  let ?m = "(ht_mem t)\<lparr>hm_brk := Suc (hm_brk (ht_mem t))\<rparr>"
  let ?t = "t\<lparr>ht_mem := ?m, ht_items := (ht_items t)[?i := Some []], ht_iter := ht_iter t @ [?i]\<rparr>"
  note i = ht_idx_less [OF assms(1), of k]
  have none: "ht_items t ! ?i = None" using ht_wfD(6) [OF assms(1) i] assms(2) by simp
  have b: "bucket ?t = bucket t"
    using none i ht_wfD(3) [OF assms(1)] by (auto simp: fun_eq_iff bucket_def nth_list_update)
  have idx: "ht_idx ?t = ht_idx t" by (simp add: fun_eq_iff ht_idx_def)
  have ok: "item_ok ?t = item_ok t" by (simp add: fun_eq_iff item_ok_def idx)
  have all: "ht_all ?t = ht_all t" unfolding ht_all_def b using none by (simp add: bucket_def)
  have slots: "ht_items ?t ! j \<noteq> None \<longleftrightarrow> j \<in> set (ht_iter ?t)" if "j < ht_size t" for j
    using ht_wfD(6) [OF assms(1) that] that i ht_wfD(3) [OF assms(1)] by (auto simp: nth_list_update)
  have "ht_wf ?t"
    unfolding ht_wf_def ok b all using ht_wfD [OF assms(1)] i assms(2) slots by auto
  moreover have "ht_map ?t = ht_map t" by (simp add: fun_eq_iff ht_map_def b idx)
  moreover have "ht_set_list t (ht_hash_one_at_a_time (ht_seed t) k) = Some (Some ?i, ?t)"
    using none i ht_wfD(3,4) [OF assms(1)] ht_malloc_ok [OF assms(3)]
    by (simp add: ht_set_list_def Let_def rd_def wr_def ht_idx_def)
  ultimately show ?thesis using idx by (auto simp: same_env_def)
qed

text \<open>The bucket that \<open>ht_set_internal\<close> works on.\<close>

lemma ht_locate_ok:
  assumes "ht_wf t" and "no_fail (ht_mem t)"
  shows "\<exists>t'. (do { found \<leftarrow> ht_get_list t (ht_hash_one_at_a_time (ht_seed t) k);
                   if found = None then ht_set_list t (ht_hash_one_at_a_time (ht_seed t) k) else Some (found, t) }) =
             Some (Some (ht_idx t k), t') \<and> ht_wf t' \<and> ht_map t' = ht_map t \<and> ht_idx t k \<in> set (ht_iter t') \<and>
           ht_idx t' = ht_idx t \<and> ht_cnt t' = ht_cnt t \<and> same_env t t'"
proof (cases "ht_idx t k \<in> set (ht_iter t)")
  case True
  then show ?thesis using ht_get_list_ok [OF assms(1), of k] assms(1) by simp
next
  case False
  then show ?thesis using ht_get_list_ok [OF assms(1), of k] ht_set_list_ok [OF assms(1) False assms(2)] by simp
qed

lemma ht_set_new_ok:
  assumes "ht_wf t" and "ht_idx t k \<in> set (ht_iter t)" and "k \<noteq> []" and "ht_map t k = None" and "no_fail (ht_mem t)"
    and "ht_cnt t + 1 < SIZE_MAX"
  shows "\<exists>t'. ht_set_new t (ht_idx t k) (bucket t (ht_idx t k)) (ht_hash_one_at_a_time (ht_seed t) k) k data dlen False = Some (True, t') \<and>
           ht_wf t' \<and> ht_map t' = (ht_map t)(k \<mapsto> (data, dlen)) \<and> ht_cnt t' = ht_cnt t + 1 \<and> same_env t t'"
proof -
  let ?i = "ht_idx t k"
  let ?b = "bucket t ?i"
  let ?it = "\<lparr>it_hash = ht_hash_one_at_a_time (ht_seed t) k, it_key = k, it_data = data, it_dlen = dlen\<rparr>"
  note i = ht_idx_less [OF assms(1), of k]
  have k: "k \<notin> it_key ` set ?b" using assms(4) by (simp add: ht_map_def key_find_None)
  have len: "length ?b \<le> ht_cnt t"
    using split_list [OF assms(2)] by (auto simp: ht_all_def ht_wfD(10) [OF assms(1)])
  have cnt: "ht_cnt (put_bucket t ?i (?b @ [?it])) = ht_cnt t + 1" using len by (simp add: put_bucket_def)
  have wf: "ht_wf (put_bucket t ?i (?b @ [?it]))"
  proof (rule put_bucket_wf [OF assms(1,2)])
    show "\<forall>it\<in>set (?b @ [?it]). item_ok t ?i it" using ht_wfD(8) [OF assms(1) i] assms(3) by (auto simp: item_ok_def)
    show "distinct (map it_key (?b @ [?it]))" using ht_wfD(9) [OF assms(1) i] k by auto
    show "ht_cnt (put_bucket t ?i (?b @ [?it])) < SIZE_MAX" using cnt assms(6) by simp
  qed
  have map: "ht_map (put_bucket t ?i (?b @ [?it])) = (ht_map t)(k \<mapsto> (data, dlen))"
    unfolding fun_eq_iff ht_map_put [OF assms(1,2)] using key_find_append [OF k, of ?it] by (auto simp: ht_map_def)
  obtain m where m: "same_mem (ht_mem t) m"
    "ht_set_new t ?i ?b (ht_hash_one_at_a_time (ht_seed t) k) k data dlen False =
       Some (True, (put_bucket t ?i (?b @ [?it]))\<lparr>ht_mem := m\<rparr>)"
  proof (rule that)
    let ?m = "(ht_mem t)\<lparr>hm_brk := (if length k > 32 then Suc (Suc (hm_brk (ht_mem t))) else Suc (hm_brk (ht_mem t)))\<rparr>"
    show "same_mem (ht_mem t) ?m" by (simp add: same_mem_def)
    show "ht_set_new t ?i ?b (ht_hash_one_at_a_time (ht_seed t) k) k data dlen False =
       Some (True, (put_bucket t ?i (?b @ [?it]))\<lparr>ht_mem := ?m\<rparr>)"
      using i ht_wfD(3) [OF assms(1)] assms(5,6) len
      by (cases t) (simp add: ht_set_new_def ht_malloc_def wr_def put_bucket_def inc64_Suc)
  qed
  then show ?thesis using wf map cnt by (auto simp: same_env_def same_mem_def put_bucket_def)
qed

lemma ht_set_old_ok:
  assumes "ht_wf t" and "ht_idx t k \<in> set (ht_iter t)" and "k \<in> it_key ` set (bucket t (ht_idx t k))"
  shows "\<exists>t'. ht_set_old t (ht_idx t k) (bucket t (ht_idx t k)) (first_pos k (map it_key (bucket t (ht_idx t k)))) data dlen False = Some (True, t') \<and>
           ht_wf t' \<and> ht_map t' = (ht_map t)(k \<mapsto> (data, dlen)) \<and> ht_cnt t' = ht_cnt t \<and> same_env t t'"
proof -
  let ?i = "ht_idx t k"
  let ?b = "bucket t ?i"
  let ?p = "first_pos k (map it_key ?b)"
  let ?it = "(?b ! ?p)\<lparr>it_dlen := dlen, it_data := data\<rparr>"
  note i = ht_idx_less [OF assms(1), of k]
  note p = first_pos_key [OF assms(3)]
  have len: "length ?b \<le> ht_cnt t"
    using split_list [OF assms(2)] by (auto simp: ht_all_def ht_wfD(10) [OF assms(1)])
  have cnt: "ht_cnt (put_bucket t ?i (?b[?p := ?it])) = ht_cnt t" using len by (simp add: put_bucket_def)
  have keys: "map it_key (?b[?p := ?it]) = map it_key ?b"
    using p by (simp add: map_update list_update_same_conv)
  have wf: "ht_wf (put_bucket t ?i (?b[?p := ?it]))"
  proof (rule put_bucket_wf [OF assms(1,2)])
    have "item_ok t ?i ?it" using ht_wfD(8) [OF assms(1) i, of "?b ! ?p"] p(1) by (simp add: item_ok_def)
    then show "\<forall>it\<in>set (?b[?p := ?it]). item_ok t ?i it"
      using ht_wfD(8) [OF assms(1) i] set_update_subset_insert [of ?b ?p ?it] by auto
    show "distinct (map it_key (?b[?p := ?it]))" unfolding keys by (rule ht_wfD(9) [OF assms(1) i])
    show "ht_cnt (put_bucket t ?i (?b[?p := ?it])) < SIZE_MAX" using cnt ht_wfD(11) [OF assms(1)] by simp
  qed
  have map: "ht_map (put_bucket t ?i (?b[?p := ?it])) = (ht_map t)(k \<mapsto> (data, dlen))"
    unfolding fun_eq_iff ht_map_put [OF assms(1,2)] using key_find_update [OF assms(3), of ?it] p(2) by (auto simp: ht_map_def)
  have "ht_set_old t ?i ?b ?p data dlen False = Some (True, put_bucket t ?i (?b[?p := ?it]))"
    using i ht_wfD(3) [OF assms(1)] len by (cases t) (simp add: ht_set_old_def wr_def put_bucket_def Let_def)
  then show ?thesis using wf map cnt by (auto simp: same_env_def put_bucket_def)
qed

text \<open>
  \<open>ht_set_internal\<close> without copying. A key whose item holds no data (\<open>NULL\<close>) is outside of
  the contract: the code then adds a second item for it.
\<close>

definition ht_old :: "hashtable_t \<Rightarrow> byte list \<Rightarrow> nat option \<times> nat" where
  "ht_old t k = (case ht_map t k of None \<Rightarrow> (None, 0) | Some r \<Rightarrow> r)"

lemma ht_key_lookup:
  assumes "ht_wf t" and "k \<noteq> []"
  shows "ht_map t k = None \<Longrightarrow> ht_find (bucket t (ht_idx t k)) k = Some None"
    and "ht_map t k = Some r \<Longrightarrow> k \<in> it_key ` set (bucket t (ht_idx t k)) \<and>
      ht_find (bucket t (ht_idx t k)) k = Some (Some (first_pos k (map it_key (bucket t (ht_idx t k))))) \<and>
      r = (it_data (bucket t (ht_idx t k) ! first_pos k (map it_key (bucket t (ht_idx t k)))),
           it_dlen (bucket t (ht_idx t k) ! first_pos k (map it_key (bucket t (ht_idx t k)))))"
  using bucket_find [OF assms] by (auto simp: ht_map_def key_find_def find_first_pos split: if_splits)

lemma present_idx: "ht_wf t \<Longrightarrow> ht_map t k = Some r \<Longrightarrow> ht_idx t k \<in> set (ht_iter t)"
proof (rule ccontr)
  assume "ht_wf t" and "ht_map t k = Some r" and "ht_idx t k \<notin> set (ht_iter t)"
  then show False using bucket_empty [of t "ht_idx t k"] ht_idx_less [of t k] by (simp add: ht_map_def key_find_def)
qed

lemma ht_set_present_inx:
  assumes "ht_wf t" and "k \<noteq> []" and "ht_map t k = Some (Some d, n)"
  shows "ht_set_internal t k data dlen want copy True = Some (1, Some (Some d, n), t)"
proof -
  note look = ht_key_lookup(2) [OF assms]
  note i = present_idx [OF assms(1,3)]
  have "it_data (bucket t (ht_idx t k) ! first_pos k (map it_key (bucket t (ht_idx t k)))) = Some d"
    "it_dlen (bucket t (ht_idx t k) ! first_pos k (map it_key (bucket t (ht_idx t k)))) = n" using look by auto
  then show ?thesis
    using assms(2) ht_get_list_ok [OF assms(1), of k] i bucket_slot [OF assms(1) i] look
    by (simp add: ht_set_internal_def Let_def)
qed

lemma ht_set_internal_ok:
  assumes "ht_wf t" and "k \<noteq> []" and "no_fail (ht_mem t)" and "ht_cnt t + 1 < SIZE_MAX"
    and "\<forall>n. ht_map t k \<noteq> Some (None, n)" and "inx \<longrightarrow> ht_map t k = None"
  shows "\<exists>t'. ht_set_internal t k data dlen want False inx = Some (0, Some (ht_old t k), t') \<and> ht_wf t' \<and>
           ht_map t' = (ht_map t)(k \<mapsto> (data, dlen)) \<and> no_fail (ht_mem t') \<and>
           ht_cnt t' = (if ht_map t k = None then ht_cnt t + 1 else ht_cnt t) \<and> ht_free_cb t' = ht_free_cb t \<and>
           hm_freed (ht_mem t') = hm_freed (ht_mem t) @ (if ht_map t k \<noteq> None \<and> \<not> want \<and> ht_free_cb t then [fst (ht_old t k)] else [])"
proof -
  let ?h = "ht_hash_one_at_a_time (ht_seed t) k"
  from ht_locate_ok [OF assms(1,3), of k] obtain t1 where
    loc: "(do { found \<leftarrow> ht_get_list t ?h; if found = None then ht_set_list t ?h else Some (found, t) }) = Some (Some (ht_idx t k), t1)"
    and t1: "ht_wf t1" "ht_map t1 = ht_map t" "ht_idx t1 k \<in> set (ht_iter t1)" "ht_idx t1 = ht_idx t" "ht_cnt t1 = ht_cnt t" "same_env t t1"
    by auto
  have nf1: "no_fail (ht_mem t1)" and seed: "ht_seed t1 = ht_seed t" using assms(3) t1(6) by (auto simp: same_env_def)
  let ?b = "bucket t1 (ht_idx t k)"
  obtain t2 pos where t2: "ht_find ?b k = Some pos"
    "(case pos of None \<Rightarrow> (None, 0) | Some i \<Rightarrow> (it_data (?b ! i), it_dlen (?b ! i))) = ht_old t k"
    "(if fst (ht_old t k) = None then ht_set_new t1 (ht_idx t k) ?b ?h k data dlen False
      else ht_set_old t1 (ht_idx t k) ?b (the pos) data dlen False) = Some (True, t2)"
    "ht_wf t2" "ht_map t2 = (ht_map t)(k \<mapsto> (data, dlen))" "ht_cnt t2 = (if ht_map t k = None then ht_cnt t + 1 else ht_cnt t)"
    "same_env t1 t2"
  proof (cases "ht_map t k")
    case None
    then show thesis
      using that [of None] ht_key_lookup(1) [OF t1(1) assms(2)]
        ht_set_new_ok [OF t1(1,3) assms(2) _ nf1, of data dlen] assms(4) t1 seed
      by (auto simp: ht_old_def)
  next
    case (Some r)
    then obtain d n where r: "r = (Some d, n)" using assms(5) by (cases r) auto
    from Some show thesis
      using that [of "Some (first_pos k (map it_key ?b))"] ht_key_lookup(2) [OF t1(1) assms(2), of r]
        ht_set_old_ok [OF t1(1,3), of data dlen] t1
      by (auto simp: ht_old_def r)
  qed
  have nf2: "no_fail (ht_mem t2)" using nf1 t2(7) by (auto simp: same_env_def)
  obtain t3 where t3: "(if ht_count t2 > ht_size t2 + ht_size t2 div 3 \<and> (ht_max_size t2 = 0 \<or> ht_size t2 < ht_max_size t2)
      then ht_grow_table t2 else Some t2) = Some t3" "ht_wf t3" "ht_map t3 = ht_map t2" "same_env t2 t3" "ht_cnt t3 = ht_cnt t2"
    using ht_grow_table_ok [OF t2(4) nf2] t2(4) by (cases "ht_count t2 > ht_size t2 + ht_size t2 div 3 \<and> (ht_max_size t2 = 0 \<or> ht_size t2 < ht_max_size t2)") auto
  have env: "same_env t t3" by (rule same_env_trans [OF t1(6) same_env_trans [OF t2(7) t3(4)]])
  let ?t = "if fst (ht_old t k) \<noteq> None \<and> \<not> want then ht_release t3 (fst (ht_old t k)) else t3"
  have old: "fst (ht_old t k) \<noteq> None \<longleftrightarrow> ht_map t k \<noteq> None"
    using assms(5) by (cases "ht_map t k") (auto simp: ht_old_def)
  have "ht_set_internal t k data dlen want False inx =
      (do { (index, t1) \<leftarrow> do { found \<leftarrow> ht_get_list t ?h; if found = None then ht_set_list t ?h else Some (found, t) };
            (case index of None \<Rightarrow> Some (- 1, None, t1) | Some index \<Rightarrow> do {
            slot \<leftarrow> rd (ht_items t1) (int index);
            items \<leftarrow> slot;
            pos \<leftarrow> ht_find items k;
            let (prev, plen) = (case pos of None \<Rightarrow> (None, 0) | Some i \<Rightarrow> (it_data (items ! i), it_dlen (items ! i)));
            if prev \<noteq> None \<and> inx then Some (1, Some (prev, plen), t1)
            else do {
              (ok, table) \<leftarrow>
                (if prev = None then ht_set_new t1 index items ?h k data dlen False
                 else ht_set_old t1 index items (the pos) data dlen False);
              if \<not> ok then Some (- 1, None, table)
              else do {
                table \<leftarrow>
                  (if ht_count table > ht_size table + ht_size table div 3 \<and>
                      (ht_max_size table = 0 \<or> ht_size table < ht_max_size table)
                   then ht_grow_table table else Some table);
                Some (0, Some (prev, plen), if prev \<noteq> None \<and> \<not> want then ht_release table prev else table)
              }
            } }) })"
    using assms(2) by (simp add: ht_set_internal_def Let_def)
  also have "\<dots> = Some (0, Some (ht_old t k), ?t)"
    unfolding loc using bucket_slot [OF t1(1,3)] t2(1,2,3) t3(1) old assms(6) t1(4)
    by (cases "ht_old t k") (auto simp: Let_def)
  finally have "ht_set_internal t k data dlen want False inx = Some (0, Some (ht_old t k), ?t)" .
  moreover have "no_fail (ht_mem ?t)" using env assms(3) by (auto simp: same_env_def ht_release_def)
  moreover have "hm_freed (ht_mem ?t) = hm_freed (ht_mem t) @ (if ht_map t k \<noteq> None \<and> \<not> want \<and> ht_free_cb t then [fst (ht_old t k)] else [])"
    using env old by (auto simp: same_env_def ht_release_def)
  moreover have "ht_wf ?t" "ht_map ?t = (ht_map t)(k \<mapsto> (data, dlen))" "ht_free_cb ?t = ht_free_cb t"
    "ht_cnt ?t = (if ht_map t k = None then ht_cnt t + 1 else ht_cnt t)"
    using t3 t2 env by (auto simp: same_env_def)
  ultimately show ?thesis by blast
qed

section \<open>Access by key\<close>

lemma ht_call_absent:
  assumes "ht_wf t" and "k \<noteq> []" and "ht_map t k = None"
  shows "ht_call_internal t k cb user = Some (- 1, user, t)"
  using ht_get_list_ok [OF assms(1), of k] bucket_slot [OF assms(1), of "ht_idx t k"] ht_key_lookup(1) [OF assms]
  by (simp add: ht_call_internal_def Let_def)

lemma ht_call_none:
  assumes "ht_wf t" and "k \<noteq> []" and "ht_map t k = Some r"
  shows "ht_call_internal t k None user = Some (0, user, t)"
  using ht_get_list_ok [OF assms(1), of k] present_idx [OF assms(1,3)] bucket_slot [OF assms(1), of "ht_idx t k"]
    ht_key_lookup(2) [OF assms] by (simp add: ht_call_internal_def Let_def)

lemma ht_call_ok:
  assumes "ht_wf t" and "k \<noteq> []" and "ht_map t k = Some (d, n)" and "f t k d n user = Some (ret, d', n', user', m)"
  shows "\<exists>t'. ht_call_internal t k (Some f) user = Some (if ret = 1 then 0 else ret, user', t') \<and> ht_wf t' \<and>
           ht_map t' = (if ret = 1 then (ht_map t)(k := None) else (ht_map t)(k \<mapsto> (d', n'))) \<and>
           ht_cnt t' = (if ret = 1 then ht_cnt t - 1 else ht_cnt t) \<and> ht_mem t' = m \<and> ht_free_cb t' = ht_free_cb t \<and>
           ht_seed t' = ht_seed t"
proof -
  let ?i = "ht_idx t k"
  let ?b = "bucket t ?i"
  let ?p = "first_pos k (map it_key ?b)"
  let ?it = "(?b ! ?p)\<lparr>it_data := d', it_dlen := n'\<rparr>"
  note i = ht_idx_less [OF assms(1), of k]
  note it = present_idx [OF assms(1,3)]
  note look = ht_key_lookup(2) [OF assms(1-3)]
  have k: "k \<in> it_key ` set ?b" using look by simp
  note p = first_pos_key [OF k]
  have len: "length ?b \<le> ht_cnt t"
    using split_list [OF it] by (auto simp: ht_all_def ht_wfD(10) [OF assms(1)])
  have call: "ht_call_internal t k (Some f) user =
      (if ret = 1 then do {
         arr \<leftarrow> wr (ht_items t) (int ?i) (Some (take ?p (?b[?p := ?it]) @ drop (Suc ?p) (?b[?p := ?it])));
         Some (0, user', t\<lparr>ht_items := arr, ht_cnt := dec64 (ht_cnt t), ht_mem := m\<rparr>)
       } else do {
         arr \<leftarrow> wr (ht_items t) (int ?i) (Some (?b[?p := ?it]));
         Some (ret, user', t\<lparr>ht_items := arr, ht_mem := m\<rparr>)
       })"
    using ht_get_list_ok [OF assms(1), of k] it bucket_slot [OF assms(1) it] look assms(4)
    by (simp add: ht_call_internal_def Let_def)
  show ?thesis
  proof (cases "ret = 1")
    case True
    let ?c = "take ?p ?b @ drop (Suc ?p) ?b"
    have c: "set ?c \<subseteq> set ?b" using set_take_subset [of ?p ?b] set_drop_subset [of "Suc ?p" ?b] by auto
    have lc: "length ?c = length ?b - 1" using p(1) by simp
    have cnt: "ht_cnt (put_bucket t ?i ?c) = ht_cnt t - 1" using len lc p(1) by (simp add: put_bucket_def)
    have d: "distinct (map it_key ?b)" by (rule ht_wfD(9) [OF assms(1) i])
    have "set (take ?p (map it_key ?b)) \<inter> set (drop (Suc ?p) (map it_key ?b)) = {}"
      by (rule set_take_disj_set_drop_if_distinct [OF d]) simp
    then have dc: "distinct (map it_key ?c)" using d by (simp add: take_map [symmetric] drop_map [symmetric])
    have wf: "ht_wf (put_bucket t ?i ?c)"
      by (rule put_bucket_wf [OF assms(1) it]) (use c dc cnt ht_wfD(8) [OF assms(1) i] ht_wfD(11) [OF assms(1)] in auto)
    have map: "ht_map (put_bucket t ?i ?c) = (ht_map t)(k := None)"
      unfolding fun_eq_iff ht_map_put [OF assms(1) it]
      using key_find_remove [OF k ht_wfD(9) [OF assms(1) i]] by (auto simp: ht_map_def)
    have "0 < ht_cnt t" using len p(1) by simp
    then have "ht_call_internal t k (Some f) user = Some (0, user', (put_bucket t ?i ?c)\<lparr>ht_mem := m\<rparr>)"
      unfolding call using True i ht_wfD(3) [OF assms(1)] cnt lc len
      by (cases t) (simp add: wr_def put_bucket_def dec64_eq)
    then show ?thesis using True wf map cnt by (auto simp: put_bucket_def)
  next
    case False
    have cnt: "ht_cnt (put_bucket t ?i (?b[?p := ?it])) = ht_cnt t" using len by (simp add: put_bucket_def)
    have keys: "map it_key (?b[?p := ?it]) = map it_key ?b"
      using p by (simp add: map_update list_update_same_conv)
    have ok: "item_ok t ?i ?it" using ht_wfD(8) [OF assms(1) i, of "?b ! ?p"] p(1) by (simp add: item_ok_def)
    have wf: "ht_wf (put_bucket t ?i (?b[?p := ?it]))"
    proof (rule put_bucket_wf [OF assms(1) it])
      show "\<forall>x\<in>set (?b[?p := ?it]). item_ok t ?i x"
        using ht_wfD(8) [OF assms(1) i] ok set_update_subset_insert [of ?b ?p ?it] by auto
      show "distinct (map it_key (?b[?p := ?it]))" unfolding keys by (rule ht_wfD(9) [OF assms(1) i])
      show "ht_cnt (put_bucket t ?i (?b[?p := ?it])) < SIZE_MAX" using cnt ht_wfD(11) [OF assms(1)] by simp
    qed
    have map: "ht_map (put_bucket t ?i (?b[?p := ?it])) = (ht_map t)(k \<mapsto> (d', n'))"
      unfolding fun_eq_iff ht_map_put [OF assms(1) it] using key_find_update [OF k, of ?it] p(2) by (auto simp: ht_map_def)
    have "ht_call_internal t k (Some f) user = Some (ret, user', (put_bucket t ?i (?b[?p := ?it]))\<lparr>ht_mem := m\<rparr>)"
      unfolding call using False i ht_wfD(3) [OF assms(1)] len
      by (cases t) (simp add: wr_def put_bucket_def)
    then show ?thesis using False wf map cnt by (auto simp: put_bucket_def)
  qed
qed

lemma ht_get_ok:
  assumes "ht_wf t" and "k \<noteq> []"
  shows "\<exists>t'. ht_get t k = Some ((Option.bind (ht_map t k) fst, map_option snd (ht_map t k)), t') \<and> ht_wf t' \<and>
           ht_map t' = ht_map t \<and> ht_cnt t' = ht_cnt t \<and> ht_mem t' = ht_mem t"
proof (cases "ht_map t k")
  case None
  then show ?thesis
    using ht_call_absent [OF assms None, of "Some (ht_get_helper False None)" "(None, None)"] assms(1)
    by (simp add: ht_get_def ht_get_internal_def)
next
  case (Some r)
  obtain d n where r: "r = (d, n)" by fastforce
  have h: "ht_get_helper False None t k d n (None, None) = Some (0, d, n, (d, Some n), ht_mem t)"
    by (simp add: ht_get_helper_def)
  from ht_call_ok [OF assms Some [unfolded r], of "ht_get_helper False None" "(None, None)", OF h] show ?thesis
    using Some by (auto simp: ht_get_def ht_get_internal_def r fun_upd_idem)
qed

lemma ht_delete_ok:
  assumes "ht_wf t" and "k \<noteq> []" and "ht_map t k = Some (d, n)"
  shows "\<exists>t'. ht_delete t k want = Some (0, Some (d, n), t') \<and> ht_wf t' \<and> ht_map t' = (ht_map t)(k := None) \<and>
           ht_cnt t' = ht_cnt t - 1 \<and> ht_mem t' = ht_mem (if want then t else ht_release t d) \<and> ht_free_cb t' = ht_free_cb t"
proof -
  have h: "ht_delete_helper False None 0 want t k d n None =
      Some (1, d, n, Some (d, n), ht_mem (if want then t else ht_release t d))"
    by (simp add: ht_delete_helper_def)
  show ?thesis
    using ht_call_ok [OF assms, of "ht_delete_helper False None 0 want" None, OF h]
    by (auto simp: ht_delete_def ht_delete_internal_def)
qed

lemma ht_delete_absent:
  assumes "ht_wf t" and "k \<noteq> []" and "ht_map t k = None"
  shows "ht_delete t k want = Some (- 1, None, t)"
  by (simp add: ht_delete_def ht_delete_internal_def ht_call_absent [OF assms])

section \<open>The hash table as a map store\<close>

definition ht_inv :: "hashtable_t \<Rightarrow> bool" where
  "ht_inv t \<longleftrightarrow> ht_wf t \<and> no_fail (ht_mem t) \<and> (\<forall>k n. ht_map t k \<noteq> Some (None, n))"

definition ht_rep :: "hashtable_t \<Rightarrow> byte list \<rightharpoonup> nat \<times> nat" where
  "ht_rep t k = map_option (\<lambda>(d, n). (the d, n)) (ht_map t k)"

definition ht_put :: "hashtable_t \<Rightarrow> byte list \<Rightarrow> nat \<times> nat \<Rightarrow> hashtable_t option" where
  "ht_put t k v = map_option snd (ht_set t k (Some (fst v)) (snd v))"

definition ht_lookup :: "hashtable_t \<Rightarrow> byte list \<Rightarrow> ((nat \<times> nat) option \<times> hashtable_t) option" where
  "ht_lookup t k = do {
     ((d, n), t) \<leftarrow> ht_get t k;
     Some (case d of None \<Rightarrow> None | Some a \<Rightarrow> Some (a, the n), t)
   }"

definition ht_take :: "hashtable_t \<Rightarrow> byte list \<Rightarrow> ((nat \<times> nat) option \<times> hashtable_t) option" where
  "ht_take t k = do {
     (ret, prev, t) \<leftarrow> ht_delete t k True;
     Some (case prev of Some (Some a, n) \<Rightarrow> Some (a, n) | _ \<Rightarrow> None, t)
   }"

lemma ht_put_ok:
  assumes "ht_inv t" and "k \<noteq> []" and "ht_cnt t < SIZE_MAX - 1"
  shows "\<exists>t'. ht_put t k v = Some t' \<and> ht_inv t' \<and> ht_rep t' = (ht_rep t)(k \<mapsto> v) \<and> ht_cnt t' \<le> Suc (ht_cnt t)"
proof -
  have wf: "ht_wf t" and nf: "no_fail (ht_mem t)" and c: "ht_cnt t + 1 < SIZE_MAX" and nn: "\<forall>n. ht_map t k \<noteq> Some (None, n)"
    using assms by (auto simp: ht_inv_def)
  obtain t' where t': "ht_set_internal t k (Some (fst v)) (snd v) False False False = Some (0, Some (ht_old t k), t')"
    "ht_wf t'" "ht_map t' = (ht_map t)(k \<mapsto> (Some (fst v), snd v))" "no_fail (ht_mem t')"
    "ht_cnt t' = (if ht_map t k = None then ht_cnt t + 1 else ht_cnt t)"
    using ht_set_internal_ok [OF wf assms(2) nf c nn, of False "Some (fst v)" "snd v" False] by blast
  then show ?thesis using assms(1) by (auto simp: ht_put_def ht_set_def ht_inv_def ht_rep_def fun_eq_iff)
qed

lemma ht_lookup_ok:
  assumes "ht_inv t" and "k \<noteq> []"
  shows "\<exists>t'. ht_lookup t k = Some (ht_rep t k, t') \<and> ht_inv t' \<and> ht_rep t' = ht_rep t \<and> ht_cnt t' \<le> ht_cnt t"
proof -
  have wf: "ht_wf t" using assms(1) by (simp add: ht_inv_def)
  obtain t' where t': "ht_get t k = Some ((Option.bind (ht_map t k) fst, map_option snd (ht_map t k)), t')" "ht_wf t'"
    "ht_map t' = ht_map t" "ht_cnt t' = ht_cnt t" "ht_mem t' = ht_mem t" using ht_get_ok [OF wf assms(2)] by auto
  have "(case Option.bind (ht_map t k) fst of None \<Rightarrow> None | Some a \<Rightarrow> Some (a, the (map_option snd (ht_map t k)))) = ht_rep t k"
    using assms(1) by (cases "ht_map t k"; cases "fst (the (ht_map t k))") (auto simp: ht_rep_def ht_inv_def)
  then show ?thesis using t' assms(1) by (auto simp: ht_lookup_def ht_inv_def ht_rep_def fun_eq_iff)
qed

lemma ht_take_ok:
  assumes "ht_inv t" and "k \<noteq> []"
  shows "\<exists>t'. ht_take t k = Some (ht_rep t k, t') \<and> ht_inv t' \<and> ht_rep t' = (ht_rep t)(k := None) \<and> ht_cnt t' \<le> ht_cnt t"
proof (cases "ht_map t k")
  case None
  then show ?thesis using ht_delete_absent [of t k True] assms
    by (auto simp: ht_take_def ht_inv_def ht_rep_def fun_eq_iff)
next
  case (Some r)
  then obtain d n where r: "ht_map t k = Some (Some d, n)" using assms(1) by (cases r; cases "fst r") (auto simp: ht_inv_def)
  with ht_delete_ok [of t k "Some d" n True] assms show ?thesis
    by (auto simp: ht_take_def ht_inv_def ht_rep_def fun_eq_iff)
qed

interpretation hashtable: map_store ht_inv ht_rep ht_cnt "\<lambda>k. k \<noteq> []" ht_put ht_lookup ht_take "SIZE_MAX - 1"
  by unfold_locales (simp_all add: ht_put_ok ht_lookup_ok ht_take_ok)

section \<open>Clearing and iterating\<close>

lemma ht_clear_items_ok:
  "length items \<le> ht_cnt t \<Longrightarrow>
   ht_clear_items t items = t\<lparr>ht_cnt := ht_cnt t - length items,
     ht_mem := (ht_mem t)\<lparr>hm_freed := hm_freed (ht_mem t) @ (if ht_free_cb t then map it_data items else [])\<rparr>\<rparr>"
proof (induction items arbitrary: t)
  case (Cons it items)
  have "length items \<le> ht_cnt ((ht_release t (it_data it))\<lparr>ht_cnt := dec64 (ht_cnt (ht_release t (it_data it)))\<rparr>)"
    using Cons.prems by (simp add: dec64_eq)
  from Cons.IH [OF this] show ?case using Cons.prems by (simp add: Let_def dec64_eq ht_release_def)
qed simp

lemma ht_clear_lists_ok:
  assumes "distinct is" and "set is \<subseteq> {..<length (ht_items t)}" and "\<forall>i\<in>set is. ht_items t ! i \<noteq> None"
    and "length (concat (map (bucket t) is)) \<le> ht_cnt t" and "ht_iter t = is"
  shows "ht_clear_lists t is = Some (t\<lparr>ht_items := map (\<lambda>i. if i \<in> set is then None else ht_items t ! i) [0..<length (ht_items t)],
     ht_iter := [], ht_cnt := ht_cnt t - length (concat (map (bucket t) is)),
     ht_mem := (ht_mem t)\<lparr>hm_freed := hm_freed (ht_mem t) @ (if ht_free_cb t then map it_data (concat (map (bucket t) is)) else [])\<rparr>\<rparr>)"
  using assms
proof (induction "is" arbitrary: t)
  case Nil
  have "map ((!) (ht_items t)) [0..<length (ht_items t)] = ht_items t" by (rule map_nth)
  then show ?case using Nil by (cases t) simp
next
  case (Cons i "is")
  let ?t = "ht_clear_items t (bucket t i)"
  let ?u = "?t\<lparr>ht_items := (ht_items t)[i := None], ht_iter := is\<rparr>"
  have i: "i < length (ht_items t)" "i \<notin> set is" "ht_items t ! i = Some (bucket t i)"
    using Cons.prems by (auto simp: bucket_def)
  have clr: "?t = t\<lparr>ht_cnt := ht_cnt t - length (bucket t i),
     ht_mem := (ht_mem t)\<lparr>hm_freed := hm_freed (ht_mem t) @ (if ht_free_cb t then map it_data (bucket t i) else [])\<rparr>\<rparr>"
    by (rule ht_clear_items_ok) (use Cons.prems(4) in simp)
  have b: "bucket ?u j = bucket t j" if "j \<in> set is" for j using that i(2) by (cases "j = i") (simp_all add: bucket_def clr)
  then have bs: "map (bucket ?u) is = map (bucket t) is" by simp
  have step: "ht_clear_lists t (i # is) = ht_clear_lists ?u is"
    using i Cons.prems(5) by (simp add: rd_def wr_def clr)
  have arr: "map (\<lambda>j. if j \<in> set is then None else (ht_items t)[i := None] ! j) [0..<length (ht_items t)] =
      map (\<lambda>j. if j = i \<or> j \<in> set is then None else ht_items t ! j) [0..<length (ht_items t)]"
    by (auto simp: nth_list_update i(1))
  have "ht_clear_lists ?u is = Some (?u\<lparr>ht_items := map (\<lambda>i. if i \<in> set is then None else ht_items ?u ! i) [0..<length (ht_items ?u)],
     ht_iter := [], ht_cnt := ht_cnt ?u - length (concat (map (bucket ?u) is)),
     ht_mem := (ht_mem ?u)\<lparr>hm_freed := hm_freed (ht_mem ?u) @ (if ht_free_cb ?u then map it_data (concat (map (bucket ?u) is)) else [])\<rparr>\<rparr>)"
  proof (rule Cons.IH)
    show "length (concat (map (bucket ?u) is)) \<le> ht_cnt ?u" unfolding bs using Cons.prems(4) by (simp add: clr)
    show "\<forall>j\<in>set is. ht_items ?u ! j \<noteq> None" 
    proof
      fix j assume "j \<in> set is"
      then show "ht_items ?u ! j \<noteq> None" using Cons.prems(3) i(2) by (cases "j = i") (auto simp: clr)
    qed
  qed (use Cons.prems in \<open>auto simp: clr\<close>)
  then show ?case unfolding step bs by (simp add: clr arr)
qed

lemma ht_clear_ok:
  assumes "ht_wf t"
  shows "\<exists>t'. ht_clear t = Some t' \<and> ht_wf t' \<and> ht_map t' = Map.empty \<and> ht_cnt t' = 0 \<and>
           hm_freed (ht_mem t') = hm_freed (ht_mem t) @ (if ht_free_cb t then map it_data (ht_all t) else [])"
proof -
  let ?t = "t\<lparr>ht_items := map (\<lambda>i. if i \<in> set (ht_iter t) then None else ht_items t ! i) [0..<length (ht_items t)],
     ht_iter := [], ht_cnt := ht_cnt t - length (ht_all t),
     ht_mem := (ht_mem t)\<lparr>hm_freed := hm_freed (ht_mem t) @ (if ht_free_cb t then map it_data (ht_all t) else [])\<rparr>\<rparr>"
  have sub: "set (ht_iter t) \<subseteq> {..<length (ht_items t)}" using ht_wfD(3,7) [OF assms] by auto
  have "\<forall>i\<in>set (ht_iter t). ht_items t ! i \<noteq> None" using ht_wfD(6,7) [OF assms] by auto
  from ht_clear_lists_ok [OF ht_wfD(5) [OF assms] sub this] have c: "ht_clear t = Some ?t"
    using ht_wfD(4,10) [OF assms] by (simp add: ht_clear_def ht_all_def)
  have none: "ht_items ?t ! i = None" if "i < ht_size t" for i
    using that ht_wfD(3) [OF assms] ht_wfD(6) [OF assms that] by auto
  then have b: "bucket ?t i = []" if "i < ht_size t" for i using that by (simp add: bucket_def)
  have "ht_wf ?t"
    unfolding ht_wf_def using ht_wfD [OF assms] none b by (simp add: ht_all_def SIZE_MAX_def)
  moreover have "ht_map ?t = Map.empty"
  proof
    fix k
    have "ht_idx ?t k < ht_size t" using ht_wfD(1) [OF assms] by (simp add: ht_idx_def)
    then show "ht_map ?t k = None" using b by (simp add: ht_map_def key_find_def)
  qed
  ultimately show ?thesis using c ht_wfD(10) [OF assms] by simp
qed

text \<open>
  An iteration whose callback removes the items that \<open>P\<close> selects and goes on.
\<close>

definition removing :: "(byte list \<Rightarrow> nat option \<Rightarrow> nat \<Rightarrow> bool) \<Rightarrow> byte list \<Rightarrow> nat option \<Rightarrow> nat \<Rightarrow> 'u \<Rightarrow> int \<times> 'u" where
  "removing P key data dlen user = (if P key data dlen then - 1 else 1, user)"

abbreviation selected :: "(byte list \<Rightarrow> nat option \<Rightarrow> nat \<Rightarrow> bool) \<Rightarrow> ht_item_t \<Rightarrow> bool" where
  "selected P it \<equiv> P (it_key it) (it_data it) (it_dlen it)"

lemma key_find_Cons: "key_find (it # items) k = (if it_key it = k then Some (it_data it, it_dlen it) else key_find items k)"
  by (simp add: key_find_def)

lemma key_find_filter:
  "distinct (map it_key items) \<Longrightarrow>
   key_find (filter (\<lambda>it. \<not> selected P it) items) k =
     (case key_find items k of None \<Rightarrow> None | Some (d, n) \<Rightarrow> if P k d n then None else Some (d, n))"
proof (induction items)
  case (Cons it items)
  show ?case
  proof (cases "it_key it = k")
    case True
    then have "k \<notin> it_key ` set (filter (\<lambda>it. \<not> selected P it) items)" using Cons.prems by auto
    then show ?thesis using True key_find_None [of "filter (\<lambda>it. \<not> selected P it) items" k] by (simp add: key_find_Cons)
  next
    case False
    then show ?thesis using Cons by (simp add: key_find_Cons)
  qed
qed (simp add: key_find_def)

lemma ht_foreach_items_ok:
  "length items \<le> ht_cnt t \<Longrightarrow>
   ht_foreach_items (removing P) t user items = (filter (\<lambda>it. \<not> selected P it) items, False,
     t\<lparr>ht_cnt := ht_cnt t - length (filter (selected P) items),
       ht_mem := (ht_mem t)\<lparr>hm_freed := hm_freed (ht_mem t) @ (if ht_free_cb t then map it_data (filter (selected P) items) else [])\<rparr>\<rparr>, user)"
proof (induction items arbitrary: t)
  case (Cons it items)
  show ?case
  proof (cases "selected P it")
    case True
    have "length items \<le> ht_cnt ((ht_release t (it_data it))\<lparr>ht_cnt := dec64 (ht_cnt (ht_release t (it_data it)))\<rparr>)"
      using Cons.prems by (simp add: dec64_eq)
    from Cons.IH [OF this] show ?thesis using Cons.prems True by (simp add: removing_def dec64_eq ht_release_def)
  next
    case False
    then show ?thesis using Cons.IH [of t] Cons.prems by (simp add: removing_def)
  qed
qed simp

lemma ht_foreach_lists_ok:
  assumes "ht_wf t" and "set is \<subseteq> set (ht_iter t)" and "distinct is"
  shows "\<exists>t'. ht_foreach_lists (removing P) t user is = Some (t', user) \<and> ht_wf t' \<and> ht_iter t' = ht_iter t \<and>
           ht_idx t' = ht_idx t \<and> ht_free_cb t' = ht_free_cb t \<and>
           (\<forall>i < ht_size t. bucket t' i = (if i \<in> set is then filter (\<lambda>it. \<not> selected P it) (bucket t i) else bucket t i)) \<and>
           ht_size t' = ht_size t \<and>
           hm_freed (ht_mem t') = hm_freed (ht_mem t) @ (if ht_free_cb t then map it_data (filter (selected P) (concat (map (bucket t) is))) else [])"
  using assms
proof (induction "is" arbitrary: t)
  case (Cons i "is")
  let ?b = "bucket t i"
  let ?r = "filter (\<lambda>it. \<not> selected P it) ?b"
  have it: "i \<in> set (ht_iter t)" using Cons.prems(2) by simp
  have i: "i < ht_size t" "i < length (ht_items t)"
    using ht_wfD(7) [OF Cons.prems(1) it] ht_wfD(3) [OF Cons.prems(1)] by simp_all
  have len: "length ?b \<le> ht_cnt t" using split_list [OF it] by (auto simp: ht_all_def ht_wfD(10) [OF Cons.prems(1)])
  have split: "length (filter (selected P) ?b) + length ?r = length ?b"
    using sum_length_filter_compl [of "selected P" ?b] .
  let ?m = "(ht_mem t)\<lparr>hm_freed := hm_freed (ht_mem t) @ (if ht_free_cb t then map it_data (filter (selected P) ?b) else [])\<rparr>"
  let ?t = "(put_bucket t i ?r)\<lparr>ht_mem := ?m\<rparr>"
  have cnt: "ht_cnt (put_bucket t i ?r) = ht_cnt t - length (filter (selected P) ?b)"
    using split len by (simp add: put_bucket_def)
  have wf: "ht_wf ?t"
    unfolding ht_frame
  proof (rule put_bucket_wf [OF Cons.prems(1) it])
    show "\<forall>x\<in>set ?r. item_ok t i x" using ht_wfD(8) [OF Cons.prems(1) i(1)] by auto
    show "distinct (map it_key ?r)"
      using ht_wfD(9) [OF Cons.prems(1) i(1)] by (auto simp: distinct_map intro: inj_on_subset)
    show "ht_cnt (put_bucket t i ?r) < SIZE_MAX" using cnt ht_wfD(11) [OF Cons.prems(1)] by simp
  qed
  have step: "ht_foreach_lists (removing P) t user (i # is) = ht_foreach_lists (removing P) ?t user is"
    using bucket_slot [OF Cons.prems(1) it] ht_foreach_items_ok [OF len, of P user] i(2) cnt
    by (cases t) (simp add: wr_def put_bucket_def Let_def)
  have b: "bucket ?t j = (if j = i then ?r else bucket t j)" for j
    by (simp add: bucket_put [OF i(2)])
  have bs: "map (bucket ?t) is = map (bucket t) is"
    using Cons.prems(3) b by auto
  have iter: "ht_iter ?t = ht_iter t" "ht_size ?t = ht_size t" "ht_free_cb ?t = ht_free_cb t" by (simp_all add: put_bucket_def)
  from Cons.IH [OF wf] Cons.prems(2,3) iter(1) obtain t' where IH: "ht_foreach_lists (removing P) ?t user is = Some (t', user)"
    "ht_wf t'" "ht_iter t' = ht_iter ?t" "ht_idx t' = ht_idx ?t" "ht_free_cb t' = ht_free_cb ?t"
    "\<forall>j < ht_size ?t. bucket t' j = (if j \<in> set is then filter (\<lambda>it. \<not> selected P it) (bucket ?t j) else bucket ?t j)"
    "ht_size t' = ht_size ?t"
    "hm_freed (ht_mem t') = hm_freed (ht_mem ?t) @ (if ht_free_cb ?t then map it_data (filter (selected P) (concat (map (bucket ?t) is))) else [])"
    by auto
  show ?case
    using IH(2,3,4,5,7) IH(6) [unfolded b iter] IH(8) [unfolded bs iter] Cons.prems(3) unfolding step IH(1) iter
    by auto
qed simp

section \<open>Keys as a list\<close>

lemma ht_mallocs_ok: "no_fail m \<Longrightarrow> \<exists>m'. ht_mallocs n m = (True, m') \<and> same_mem m m'"
proof (induction n arbitrary: m)
  case (Suc n)
  from Suc.IH [of "m\<lparr>hm_brk := Suc (hm_brk m)\<rparr>"] Suc.prems show ?case
    by (auto simp: ht_malloc_ok same_mem_def)
qed (simp add: same_mem_def)

lemma ht_collect_ok:
  assumes "no_fail m" and "lists_rep lm A" and "A l = Some vs" and "length vs + length items \<le> 2147483647"
  shows "\<exists>m' lm'. ht_collect n f l items m lm = Some (True, m', lm') \<and> same_mem m m' \<and>
           lists_rep lm' (A(l \<mapsto> vs @ map (Some \<circ> f) items))"
  using assms
proof (induction items arbitrary: m lm A vs)
  case Nil
  then show ?case by (auto simp: same_mem_def fun_upd_idem)
next
  case (Cons it items)
  from ht_mallocs_ok [OF Cons.prems(1), of n] obtain m1 where m1: "ht_mallocs n m = (True, m1)" "same_mem m m1" by auto
  from linklist.push_law [OF Cons.prems(2,3), of "Some (f it)"] Cons.prems(4) obtain lm1 where
    l1: "list_push_value lm l (Some (f it)) = Some (0, lm1)" "lists_rep lm1 (A(l \<mapsto> vs @ [Some (f it)]))" by auto
  have "no_fail m1" using Cons.prems(1) m1(2) by (simp add: same_mem_def)
  from Cons.IH [OF this l1(2), of "vs @ [Some (f it)]"] Cons.prems(4) obtain m' lm' where
    "ht_collect n f l items m1 lm1 = Some (True, m', lm')" "same_mem m1 m'"
    "lists_rep lm' ((A(l \<mapsto> vs @ [Some (f it)]))(l \<mapsto> (vs @ [Some (f it)]) @ map (Some \<circ> f) items))" by fastforce
  then show ?case using m1 l1(1) by (auto simp: same_mem_def fun_upd_def comp_def cong: if_cong)
qed

lemma ht_collect_lists_ok:
  assumes "ht_wf t" and "set is \<subseteq> set (ht_iter t)" and "no_fail m" and "lists_rep lm A" and "A l = Some vs"
    and "length vs + length (concat (map (bucket t) is)) \<le> 2147483647"
  shows "\<exists>m' lm'. ht_collect_lists n f l t is m lm = Some (True, m', lm') \<and> same_mem m m' \<and>
           lists_rep lm' (A(l \<mapsto> vs @ map (Some \<circ> f) (concat (map (bucket t) is))))"
  using assms(2-)
proof (induction "is" arbitrary: m lm A vs)
  case Nil
  then show ?case by (auto simp: same_mem_def fun_upd_idem)
next
  case (Cons i "is")
  from ht_collect_ok [OF Cons.prems(2-4), of "bucket t i" n f] Cons.prems(5) obtain m1 lm1 where
    1: "ht_collect n f l (bucket t i) m lm = Some (True, m1, lm1)" "same_mem m m1"
      "lists_rep lm1 (A(l \<mapsto> vs @ map (Some \<circ> f) (bucket t i)))" by auto
  have "no_fail m1" using Cons.prems(2) 1(2) by (simp add: same_mem_def)
  from Cons.IH [OF _ this 1(3), of "vs @ map (Some \<circ> f) (bucket t i)"] Cons.prems(1,5) obtain m' lm' where
    "ht_collect_lists n f l t is m1 lm1 = Some (True, m', lm')" "same_mem m1 m'"
    "lists_rep lm' ((A(l \<mapsto> vs @ map (Some \<circ> f) (bucket t i)))(l \<mapsto> (vs @ map (Some \<circ> f) (bucket t i)) @ map (Some \<circ> f) (concat (map (bucket t) is))))"
    by fastforce
  then show ?case using 1(1,2) bucket_slot [OF assms(1), of i] Cons.prems(1)
    by (auto simp: same_mem_def fun_upd_def comp_def cong: if_cong)
qed

lemma set_callback_ok:
  assumes "lists_rep lm A" and "A l = Some vs"
  shows "\<exists>lm'. list_set_free_value_callback lm l cb = Some lm' \<and> lists_rep lm' A"
proof -
  from assms obtain L where L: "lm_lists lm l = Some L"
    unfolding lists_rep_def lists_abs_def list_at_def by blast
  have at: "list_at (set_list l (L\<lparr>ll_free_cb := cb\<rparr>) lm) k es = list_at lm k es" for k es
    using L by (auto simp: list_at_def set_list_def entries_ok_def list_shape_def)
  have "lists_rep (set_list l (L\<lparr>ll_free_cb := cb\<rparr>) lm) A"
    using assms(1) unfolding lists_rep_def lists_abs_def at by (simp add: set_list_def)
  then show ?thesis using L by (simp add: list_set_free_value_callback_def)
qed

lemma ht_collect_all_ok:
  assumes "ht_wf t" and "no_fail (ht_mem t)" and "lists_rep lm A" and "ht_cnt t \<le> 2147483647"
  shows "\<exists>l m lm'. ht_collect_all n f t lm = Some (Some l, t\<lparr>ht_mem := m\<rparr>, lm') \<and> A l = None \<and>
           lists_rep lm' (A(l \<mapsto> map (Some \<circ> f) (ht_all t)))"
proof -
  from assms(3) list_create_ok [of lm A] obtain lm1 where
    c: "list_create lm = (Some (lm_brk lm), lm1)" "A (lm_brk lm) = None" "lists_rep lm1 (A(lm_brk lm \<mapsto> []))"
    by (auto simp: lists_rep_def)
  from set_callback_ok [OF c(3), of "lm_brk lm" "[]" True] obtain lm2 where
    s: "list_set_free_value_callback lm1 (lm_brk lm) True = Some lm2" "lists_rep lm2 (A(lm_brk lm \<mapsto> []))" by auto
  from ht_collect_lists_ok [OF assms(1) subset_refl assms(2) s(2), of "lm_brk lm" "[]" n f] assms(4) ht_wfD(10) [OF assms(1)]
  obtain m' lm' where "ht_collect_lists n f (lm_brk lm) t (ht_iter t) (ht_mem t) lm2 = Some (True, m', lm')"
    "lists_rep lm' (A(lm_brk lm \<mapsto> map (Some \<circ> f) (ht_all t)))" by (auto simp: ht_all_def)
  then show ?thesis using c(1,2) s(1) by (auto simp: ht_collect_all_def)
qed

section \<open>Properties\<close>

text \<open>
  \<open>C1\<close>: the hash table implements a map. Any sequence of \<open>ht_set\<close> with data that is not NULL,
  \<open>ht_get\<close> and \<open>ht_delete\<close>, over any keys of at least one byte, answers as a plain map does, whatever the
  hash values are and however often the table grows in between.
\<close>

theorem ht_refinement:
  assumes "ht_wf t" and "\<forall>i. \<not> hm_fails (ht_mem t) i" and "\<forall>k n. ht_map t k \<noteq> Some (None, n)"
    and "\<forall>op\<in>set ops. op_key op \<noteq> []" and "ht_cnt t + length ops < SIZE_MAX"
    and "map_spec (ht_rep t) ops = (vs, m')"
  shows "\<exists>t'. map_run ht_put ht_lookup ht_take t ops = Some (vs, t') \<and> ht_wf t' \<and> ht_rep t' = m'"
proof -
  have "ht_inv t" using assms(1-3) by (simp add: ht_inv_def)
  moreover have "ht_cnt t + length ops \<le> SIZE_MAX - 1" using assms(5) by simp
  ultimately show ?thesis using hashtable.map_run_ok [of t ops vs m'] assms(4,6) by (auto simp: ht_inv_def)
qed

text \<open>
  \<open>C21\<close>: growing the table keeps the map, the number of items and the invariant (in particular every
  item is in the bucket of its hash value in the new size), up to the maximum size.
\<close>

theorem ht_grow_preserves:
  assumes "ht_wf t" and "\<forall>i. \<not> hm_fails (ht_mem t) i"
  shows "\<exists>t'. ht_grow_table t = Some t' \<and> ht_wf t' \<and> ht_map t' = ht_map t \<and> ht_cnt t' = ht_cnt t \<and>
           (ht_max_size t = 0 \<and> 16 * ht_size t \<le> SIZE_MAX \<longrightarrow> ht_size t' = 2 * ht_size t)"
proof -
  from ht_grow_table_ok [OF assms] obtain t' where t': "ht_grow_table t = Some t'" "ht_wf t'" "ht_map t' = ht_map t"
    "ht_cnt t' = ht_cnt t" by auto
  have "ht_size t' = 2 * ht_size t" if "ht_max_size t = 0" "16 * ht_size t \<le> SIZE_MAX"
  proof -
    have new: "ht_new_size t = 2 * ht_size t" using that by (simp add: ht_new_size_def SIZE_MAX_def Let_def)
    have "\<not> SIZE_MAX < 8 * (2 * ht_size t)" using that(2) by simp
    then have "ht_grow_table t = do {
        (arr, iter, m) \<leftarrow> ht_grow_lists t (2 * ht_size t) (ht_iter t) (replicate (2 * ht_size t) None, [],
          (ht_mem t)\<lparr>hm_brk := Suc (Suc (hm_brk (ht_mem t)))\<rparr>);
        Some (t\<lparr>ht_items := arr, ht_size := 2 * ht_size t, ht_iter := iter, ht_mem := m\<rparr>) }"
      using that(1) assms(2) ht_wfD(4) [OF assms(1)] by (simp add: ht_grow_table_def ht_malloc_def ht_calloc_def new Let_def)
    from this [unfolded t'(1), symmetric] show ?thesis by (auto simp: bind_eq_Some_conv)
  qed
  then show ?thesis using t' by (intro exI [of _ t']) simp
qed

text \<open>
  \<open>C22\<close>: \<open>ht_set\<close> of a key that is in the table with data replaces its value, keeps every other key,
  and hands the old data to the release callback exactly once; \<open>ht_get_and_set\<close> gives the old data to the
  caller instead.
\<close>

theorem ht_set_replaces:
  assumes "ht_wf t" and "\<forall>i. \<not> hm_fails (ht_mem t) i" and "k \<noteq> []" and "ht_map t k = Some (Some d, n)"
    and "ht_cnt t + 1 < SIZE_MAX" and "ht_free_cb t"
  shows "(\<exists>t'. ht_set t k data dlen = Some (0, t') \<and> ht_wf t' \<and> ht_map t' = (ht_map t)(k \<mapsto> (data, dlen)) \<and>
           ht_cnt t' = ht_cnt t \<and> hm_freed (ht_mem t') = hm_freed (ht_mem t) @ [Some d]) \<and>
         (\<exists>t'. ht_get_and_set t k data dlen = Some (0, Some (Some d, n), t') \<and> ht_wf t' \<and>
           ht_map t' = (ht_map t)(k \<mapsto> (data, dlen)) \<and> hm_freed (ht_mem t') = hm_freed (ht_mem t))"
proof (intro conjI)
  have nn: "\<forall>n. ht_map t k \<noteq> Some (None, n)" and old: "ht_old t k = (Some d, n)" using assms(4) by (simp_all add: ht_old_def)
  note ok = ht_set_internal_ok [OF assms(1,3,2,5) nn, of False data dlen]
  show "\<exists>t'. ht_set t k data dlen = Some (0, t') \<and> ht_wf t' \<and> ht_map t' = (ht_map t)(k \<mapsto> (data, dlen)) \<and>
      ht_cnt t' = ht_cnt t \<and> hm_freed (ht_mem t') = hm_freed (ht_mem t) @ [Some d]"
    using ok [of False] assms(4,6) old by (auto simp: ht_set_def)
  show "\<exists>t'. ht_get_and_set t k data dlen = Some (0, Some (Some d, n), t') \<and> ht_wf t' \<and>
      ht_map t' = (ht_map t)(k \<mapsto> (data, dlen)) \<and> hm_freed (ht_mem t') = hm_freed (ht_mem t)"
    using ok [of True] assms(4) old by (auto simp: ht_get_and_set_def)
qed

text \<open>
  \<open>C24\<close>: \<open>ht_clear\<close> empties the table and hands the data of every item to the release callback
  exactly once.
\<close>

theorem ht_clear_releases:
  assumes "ht_wf t" and "ht_free_cb t"
  shows "\<exists>t' ds. ht_clear t = Some t' \<and> ht_wf t' \<and> ht_map t' = Map.empty \<and> ht_cnt t' = 0 \<and>
           hm_freed (ht_mem t') = hm_freed (ht_mem t) @ ds \<and> length ds = ht_cnt t \<and>
           (\<forall>k d n. ht_map t k = Some (d, n) \<longrightarrow> d \<in> set ds)"
proof -
  from ht_clear_ok [OF assms(1)] assms(2) obtain t' where t': "ht_clear t = Some t'" "ht_wf t'" "ht_map t' = Map.empty" "ht_cnt t' = 0"
    "hm_freed (ht_mem t') = hm_freed (ht_mem t) @ map it_data (ht_all t)" by auto
  have "d \<in> set (map it_data (ht_all t))" if "ht_map t k = Some (d, n)" for k d n
    using that by (auto simp: ht_map_all [OF assms(1)] key_find_def find_Some_iff)
  with t' ht_wfD(10) [OF assms(1)] show ?thesis by auto
qed

text \<open>
  \<open>C23\<close>: an iteration whose callback asks to remove the items that \<open>P\<close> selects removes exactly these:
  the map is restricted to the others and the data of the removed ones goes to the release callback.
\<close>

theorem ht_foreach_removes:
  assumes "ht_wf t"
  shows "\<exists>t'. ht_foreach_pair t (removing P) user = Some (t', user) \<and> ht_wf t' \<and>
           (\<forall>k. ht_map t' k = (case ht_map t k of None \<Rightarrow> None | Some (d, n) \<Rightarrow> if P k d n then None else Some (d, n))) \<and>
           hm_freed (ht_mem t') = hm_freed (ht_mem t) @ (if ht_free_cb t then map it_data (filter (selected P) (ht_all t)) else [])"
proof -
  from ht_foreach_lists_ok [OF assms subset_refl ht_wfD(5) [OF assms], of P user] obtain t' where
    t': "ht_foreach_lists (removing P) t user (ht_iter t) = Some (t', user)" "ht_wf t'" "ht_idx t' = ht_idx t"
      "\<forall>i < ht_size t. bucket t' i = (if i \<in> set (ht_iter t) then filter (\<lambda>it. \<not> selected P it) (bucket t i) else bucket t i)"
      "hm_freed (ht_mem t') = hm_freed (ht_mem t) @ (if ht_free_cb t then map it_data (filter (selected P) (ht_all t)) else [])"
    by (auto simp: ht_all_def)
  have "ht_map t' k = (case ht_map t k of None \<Rightarrow> None | Some (d, n) \<Rightarrow> if P k d n then None else Some (d, n))" for k
  proof -
    note i = ht_idx_less [OF assms, of k]
    have b: "bucket t' (ht_idx t k) = filter (\<lambda>it. \<not> selected P it) (bucket t (ht_idx t k))"
      using t'(4) i bucket_empty [OF assms i] by auto
    show ?thesis using key_find_filter [OF ht_wfD(9) [OF assms i], of P k] by (simp add: ht_map_def t'(3) b)
  qed
  with t' show ?thesis by (auto simp: ht_foreach_pair_def)
qed

text \<open>
  \<open>C25\<close>: \<open>ht_get_all_keys\<close> gives a new linked list that holds every key of the table exactly
  once, and leaves the table and every other list as they are.
\<close>

theorem ht_all_keys_complete:
  assumes "ht_wf t" and "\<forall>i. \<not> hm_fails (ht_mem t) i" and "lists_rep lm A" and "ht_cnt t \<le> 2147483647"
  shows "\<exists>l t' lm' ks. ht_get_all_keys t lm = Some (Some l, t', lm') \<and> A l = None \<and> lists_rep lm' (A(l \<mapsto> map Some ks)) \<and>
           distinct (map hk_data ks) \<and> set (map hk_data ks) = dom (ht_map t) \<and> ht_wf t' \<and> ht_map t' = ht_map t"
proof -
  let ?f = "\<lambda>it. \<lparr>hk_data = it_key it, hk_vlen = it_dlen it\<rparr>"
  from ht_collect_all_ok [OF assms, of 2 ?f] obtain l m lm' where
    1: "ht_get_all_keys t lm = Some (Some l, t\<lparr>ht_mem := m\<rparr>, lm')" "A l = None" "lists_rep lm' (A(l \<mapsto> map (Some \<circ> ?f) (ht_all t)))"
    by (auto simp: ht_get_all_keys_def)
  have "dom (ht_map t) = it_key ` set (ht_all t)"
    using key_find_None [of "ht_all t"] by (auto simp: dom_def ht_map_all [OF assms(1)])
  moreover have "map hk_data (map ?f (ht_all t)) = map it_key (ht_all t)" by simp
  ultimately show ?thesis
    using 1 all_keys_distinct [OF assms(1)] assms(1)
    by (intro exI [of _ l] exI [of _ "t\<lparr>ht_mem := m\<rparr>"] exI [of _ lm'] exI [of _ "map ?f (ht_all t)"]) (simp add: comp_def)
qed

section \<open>Witnesses\<close>

definition ht_ex_mem :: ht_mem where
  "ht_ex_mem = \<lparr>hm_blocks = Map.empty, hm_brk = 0, hm_fails = (\<lambda>_. False), hm_freed = []\<rparr>"

text \<open>The table that \<open>ht_create\<close> gives, and the same with the key \<open>[1]\<close>.\<close>

definition ht_ex0 :: hashtable_t where
  "ht_ex0 = the (ht_create ht_ex_mem 0 0 0 True)"

definition ht_ex :: hashtable_t where
  "ht_ex = snd (the (ht_set ht_ex0 [1] (Some 7) 3))"

lemma ht_create_ok:
  assumes "no_fail m" and "8 * max sz HT_SIZE_MIN \<le> SIZE_MAX"
  shows "\<exists>t. ht_create m seed sz max_size cb = Some t \<and> ht_wf t \<and> ht_map t = Map.empty \<and> ht_cnt t = 0 \<and> ht_free_cb t = cb \<and>
           ht_seed t = seed \<and> same_mem m (ht_mem t)"
proof -
  have [simp]: "\<not> SIZE_MAX < 8 * (if HT_SIZE_MIN < sz then sz else HT_SIZE_MIN)" using assms(2) by (simp add: max_def split: if_splits)
  obtain t where t: "ht_create m seed sz max_size cb = Some t"
    "t = \<lparr>ht_size = max sz HT_SIZE_MIN, ht_max_size = max_size, ht_cnt = 0, ht_status = HT_STATUS_IDLE, ht_seed = seed,
       ht_items = replicate (max sz HT_SIZE_MIN) None, ht_iter = [], ht_free_cb = cb, ht_mem = m\<lparr>hm_brk := Suc (Suc (Suc (hm_brk m)))\<rparr>\<rparr>"
    using assms by (simp add: ht_create_def ht_init_def ht_malloc_def ht_calloc_def Let_def max_def split: if_splits)
  have b: "bucket t i = []" if "i < ht_size t" for i using that by (simp add: bucket_def t(2))
  have pos: "0 < max sz HT_SIZE_MIN" by (simp add: HT_SIZE_MIN_def)
  have "ht_wf t" unfolding ht_wf_def using b assms(2) pos by (simp add: t(2) ht_all_def SIZE_MAX_def)
  moreover have "ht_map t = Map.empty"
  proof
    fix k
    have "ht_idx t k < ht_size t" using pos by (simp add: ht_idx_def t(2))
    then show "ht_map t k = None" using b by (simp add: ht_map_def key_find_def)
  qed
  ultimately show ?thesis using t by (auto simp: same_mem_def)
qed

lemma ht_ex0_wf: "ht_wf ht_ex0" "no_fail (ht_mem ht_ex0)" "ht_map ht_ex0 = Map.empty" "ht_cnt ht_ex0 = 0" "ht_free_cb ht_ex0"
  "hm_freed (ht_mem ht_ex0) = []" "ht_rep ht_ex0 = Map.empty"
proof -
  have nf: "no_fail ht_ex_mem" by (simp add: ht_ex_mem_def)
  have "8 * max 0 HT_SIZE_MIN \<le> SIZE_MAX" by (simp add: HT_SIZE_MIN_def SIZE_MAX_def)
  from ht_create_ok [OF nf this, of 0 0 True] obtain t where
    "ht_create ht_ex_mem 0 0 0 True = Some t" "ht_wf t" "ht_map t = Map.empty" "ht_cnt t = 0" "ht_free_cb t"
    "same_mem ht_ex_mem (ht_mem t)" by auto
  then show "ht_wf ht_ex0" "no_fail (ht_mem ht_ex0)" "ht_map ht_ex0 = Map.empty" "ht_cnt ht_ex0 = 0" "ht_free_cb ht_ex0"
    "hm_freed (ht_mem ht_ex0) = []" "ht_rep ht_ex0 = Map.empty"
    by (auto simp: ht_ex0_def same_mem_def ht_ex_mem_def ht_rep_def fun_eq_iff)
qed

lemma ht_ex_wf: "ht_wf ht_ex" "no_fail (ht_mem ht_ex)" "ht_map ht_ex = [[1] \<mapsto> (Some 7, 3)]" "ht_cnt ht_ex = 1" "ht_free_cb ht_ex"
  "hm_freed (ht_mem ht_ex) = []"
proof -
  have "ht_cnt ht_ex0 + 1 < SIZE_MAX" by (simp add: ht_ex0_wf SIZE_MAX_def)
  from ht_set_internal_ok [OF ht_ex0_wf(1) _ ht_ex0_wf(2) this, of "[1]" False "Some 7" 3 False] obtain t where
    "ht_set ht_ex0 [1] (Some 7) 3 = Some (0, t)" "ht_wf t" "ht_map t = [[1] \<mapsto> (Some 7, 3)]" "no_fail (ht_mem t)" "ht_cnt t = 1"
    "ht_free_cb t" "hm_freed (ht_mem t) = []"
    by (auto simp: ht_set_def ht_ex0_wf)
  then show "ht_wf ht_ex" "no_fail (ht_mem ht_ex)" "ht_map ht_ex = [[1] \<mapsto> (Some 7, 3)]" "ht_cnt ht_ex = 1" "ht_free_cb ht_ex"
    "hm_freed (ht_mem ht_ex) = []"
    by (auto simp: ht_ex_def)
qed

theorem ht_refinement_witness:
  "\<exists>t'. map_run ht_put ht_lookup ht_take ht_ex0
      [MSet [1] (7, 3), MSet [2, 0] (9, 1), MGet [1], MDel [1], MGet [1], MGet [2, 0]] =
      Some ([Some (7, 3), Some (7, 3), None, Some (9, 1)], t') \<and> ht_rep t' = [[2, 0] \<mapsto> (9, 1)]"
  using ht_refinement [OF ht_ex0_wf(1,2), of "[MSet [1] (7, 3), MSet [2, 0] (9, 1), MGet [1], MDel [1], MGet [1], MGet [2, 0]]"
      "[Some (7, 3), Some (7, 3), None, Some (9, 1)]" "[[2, 0] \<mapsto> (9, 1)]"]
  by (simp add: ht_ex0_wf SIZE_MAX_def fun_upd_twist) (auto simp: fun_eq_iff)

theorem ht_grow_preserves_witness:
  "\<exists>t'. ht_grow_table ht_ex = Some t' \<and> ht_map t' = [[1] \<mapsto> (Some 7, 3)] \<and> ht_cnt t' = 1"
  using ht_grow_preserves [OF ht_ex_wf(1,2)] by (auto simp: ht_ex_wf)

theorem ht_set_replaces_witness:
  "\<exists>t'. ht_set ht_ex [1] (Some 8) 2 = Some (0, t') \<and> ht_map t' = [[1] \<mapsto> (Some 8, 2)] \<and> hm_freed (ht_mem t') = [Some 7]"
  using ht_set_replaces [OF ht_ex_wf(1,2), of "[1]" 7 3 "Some 8" 2] by (auto simp: ht_ex_wf SIZE_MAX_def)

theorem ht_clear_releases_witness:
  "\<exists>t' ds. ht_clear ht_ex = Some t' \<and> ht_map t' = Map.empty \<and> hm_freed (ht_mem t') = ds \<and> length ds = 1 \<and> Some 7 \<in> set ds"
proof -
  from ht_clear_releases [OF ht_ex_wf(1,5)] obtain t' ds where "ht_clear ht_ex = Some t'" "ht_map t' = Map.empty"
    "hm_freed (ht_mem t') = ds" "length ds = 1" "\<forall>k d n. ht_map ht_ex k = Some (d, n) \<longrightarrow> d \<in> set ds"
    by (auto simp: ht_ex_wf)
  moreover have "ht_map ht_ex [1] = Some (Some 7, 3)" by (simp add: ht_ex_wf)
  ultimately show ?thesis by blast
qed

theorem ht_foreach_removes_witness:
  "\<exists>t'. ht_foreach_pair ht_ex (removing (\<lambda>k d n. n = 3)) () = Some (t', ()) \<and> ht_map t' [1] = None"
  using ht_foreach_removes [OF ht_ex_wf(1), of "\<lambda>k d n. n = 3" "()"] by (auto simp: ht_ex_wf)

definition ht_list_ex :: "hashtable_key_t list_mem" where
  "ht_list_ex = \<lparr>lm_entries = Map.empty, lm_lists = Map.empty, lm_slices = Map.empty, lm_slice_entries = Map.empty,
     lm_brk = 0, lm_fails = (\<lambda>_. False), lm_freed = []\<rparr>"

theorem ht_all_keys_complete_witness:
  "\<exists>l t' lm' ks. ht_get_all_keys ht_ex ht_list_ex = Some (Some l, t', lm') \<and> lists_rep lm' [l \<mapsto> map Some ks] \<and>
     set (map hk_data ks) = {[1]}"
proof -
  have "lists_rep ht_list_ex Map.empty" by (simp add: lists_rep_def lists_abs_def ht_list_ex_def)
  from ht_all_keys_complete [OF ht_ex_wf(1,2) this] obtain l t' lm' ks where
    "ht_get_all_keys ht_ex ht_list_ex = Some (Some l, t', lm')" "lists_rep lm' [l \<mapsto> map Some ks]"
    "set (map hk_data ks) = dom (ht_map ht_ex)" by (auto simp: ht_ex_wf)
  then show ?thesis by (intro exI [of _ l] exI [of _ t'] exI [of _ lm'] exI [of _ ks]) (simp add: ht_ex_wf)
qed

section \<open>What the code does outside of these properties\<close>

text \<open>
  An item whose data is NULL (\<open>ht_unset\<close> leaves one behind) is taken for a missing one by
  \<open>ht_set_internal\<close>, which then adds a second item for the key; a later \<open>ht_get\<close> finds the first one
  and still gives NULL.
\<close>

lemma ht_set_after_null:
  assumes "ht_wf t" and "no_fail (ht_mem t)" and "k \<noteq> []" and "ht_map t k = Some (None, n)"
    and "ht_cnt t + 1 \<le> ht_size t" and "ht_cnt t + 1 < SIZE_MAX"
  shows "\<exists>t' t''. ht_set t k data dlen = Some (0, t') \<and> ht_cnt t' = ht_cnt t + 1 \<and> ht_get t' k = Some ((None, Some n), t'')"
proof -
  let ?i = "ht_idx t k"
  let ?b = "bucket t ?i"
  let ?p = "first_pos k (map it_key ?b)"
  let ?h = "ht_hash_one_at_a_time (ht_seed t) k"
  let ?it = "\<lparr>it_hash = ?h, it_key = k, it_data = data, it_dlen = dlen\<rparr>"
  note i = ht_idx_less [OF assms(1), of k]
  note it = present_idx [OF assms(1,4)]
  note look = ht_key_lookup(2) [OF assms(1,3,4)]
  note p = first_pos_key [OF conjunct1 [OF look]]
  have pd: "it_data (?b ! ?p) = None" "it_dlen (?b ! ?p) = n" using look by auto
  let ?m = "(ht_mem t)\<lparr>hm_brk := (if length k > 32 then Suc (Suc (hm_brk (ht_mem t))) else Suc (hm_brk (ht_mem t)))\<rparr>"
  let ?t = "t\<lparr>ht_mem := ?m, ht_items := (ht_items t)[?i := Some (?b @ [?it])], ht_cnt := ht_cnt t + 1\<rparr>"
  have new: "ht_set_new t ?i ?b ?h k data dlen False = Some (True, ?t)"
    using i ht_wfD(3) [OF assms(1)] assms(2,6) by (simp add: ht_set_new_def ht_malloc_def wr_def inc64_Suc)
  have set: "ht_set t k data dlen = Some (0, ?t)"
    using assms(3,5) ht_get_list_ok [OF assms(1), of k] it bucket_slot [OF assms(1) it] look pd new
    by (simp add: ht_set_def ht_set_internal_def Let_def ht_count_def)
  have keys: "\<forall>x\<in>set (?b @ [?it]). it_key x \<noteq> []"
    using ht_wfD(8) [OF assms(1) i] assms(3) by (auto simp: item_ok_def)
  have k: "k \<in> set (map it_key ?b)" using look by auto
  have find: "ht_find (?b @ [?it]) k = Some (Some ?p)"
    using ht_find_ok [OF keys assms(3)] k by (simp add: first_pos_append)
  define T where "T = ?t"
  have list: "ht_get_list T ?h = Some (Some ?i)"
    using i ht_wfD(3,4) [OF assms(1)] by (simp add: T_def ht_get_list_def rd_def ht_idx_def)
  have slot: "rd (ht_items T) (int ?i) = Some (Some (?b @ [?it]))"
    using i ht_wfD(3) [OF assms(1)] by (simp add: T_def rd_def)
  have item: "(?b @ [?it]) ! ?p = ?b ! ?p" using p(1) by (simp add: nth_append)
  have seed: "ht_seed T = ht_seed t" "?i < length (ht_items T)"
    using i ht_wfD(3) [OF assms(1)] by (simp_all add: T_def)
  have "\<exists>t''. ht_get T k = Some ((None, Some n), t'')"
    using seed(2) by (simp add: ht_get_def ht_get_internal_def ht_call_internal_def seed(1) Let_def list
      slot find item pd ht_get_helper_def wr_def)
  with set show ?thesis by (auto simp: T_def)
qed

end
