(* ===== verification/Ht_Status.thy ===== *)
theory Ht_Status
  imports Hashtable
begin

text \<open>
  How threads share the slot array \<open>table->items\<close> of a hash table. Readers (\<open>ht_get_list\<close>) count themselves in
  and out of the status word, a writer (\<open>ht_set_list\<close>, \<open>ht_clear\<close>, \<open>ht_grow_table\<close>) claims the idle word, and
  \<open>ht_grow_table\<close> replaces the array, puts the word back and frees the old array afterwards. A step of the
  machine is one access of one thread to the word, to the pointer \<open>table->items\<close>, to the size, to a slot of
  an array, or to the iterator list with its mutex; the threads interleave freely. An access to a slot of an
  array that is freed or too short, and a second \<open>free\<close> of an array, lead to \<open>Crash\<close>.

  The arrays hold the addresses of bucket lists; the iterator list holds the buckets with their
  \<open>index\<close>. The contents of a bucket (which its spin lock protects, not the status word) are left open: how
  many items \<open>ht_grow_table\<close> moves, and their hash values, are arbitrary. \<open>HT_STATUS_READ\<close> plus a number of
  further readers is the value of the word while there are readers; the word is a \<open>nat\<close> here, which it can
  be with fewer than \<open>2 ^ 32 - 4\<close> threads. A bucket list is locked before a reader leaves; who waits for
  which bucket, and \<open>ht_destroy\<close>, which no other thread may run along, are not part of the machine.
\<close>

section \<open>The machine\<close>

definition status_val :: "ht_status_t \<Rightarrow> nat" where
  "status_val s = (case s of HT_STATUS_CLEAR \<Rightarrow> 0 | HT_STATUS_WRITE \<Rightarrow> 1 | HT_STATUS_GROW \<Rightarrow> 2 | HT_STATUS_IDLE \<Rightarrow> 3 | HT_STATUS_READ \<Rightarrow> 4)"

abbreviation IDLE :: nat where "IDLE \<equiv> status_val HT_STATUS_IDLE"
abbreviation READ :: nat where "READ \<equiv> status_val HT_STATUS_READ"

type_synonym buckets = "(nat \<times> nat) list"   \<comment> \<open>bucket lists with their index\<close>

datatype ht_pc =
    Out
  | Crash
  \<comment> \<open>\<open>ht_get_list\<close>, with the index and the local copy of the word\<close>
  | Read_first nat        \<comment> \<open>before the CAS of the first loop\<close>
  | Read_retry nat nat    \<comment> \<open>before the condition of the second loop\<close>
  | Read_second nat       \<comment> \<open>before the CAS in the second loop\<close>
  | Read_items nat nat    \<comment> \<open>before loading \<open>table->items\<close>\<close>
  | Read_slot nat nat nat \<comment> \<open>before loading the slot of the array just found\<close>
  | Leave_first nat nat   \<comment> \<open>before the first CAS of the last loop\<close>
  | Leave_second nat      \<comment> \<open>before the second CAS of the last loop\<close>
  \<comment> \<open>\<open>ht_set_list\<close>, with the hash value, then the index and the new list\<close>
  | Set_try "32 word"     \<comment> \<open>before the CAS to \<open>HT_STATUS_WRITE\<close>\<close>
  | Set_look "32 word"    \<comment> \<open>before looking at the slot\<close>
  | Set_store nat nat     \<comment> \<open>before storing the list\<close>
  | Set_reset "(nat \<times> nat) option" \<comment> \<open>before the CAS to \<open>HT_STATUS_IDLE\<close>\<close>
  | Set_lock nat nat      \<comment> \<open>before locking the mutex of the iterator list\<close>
  | Set_insert nat nat    \<comment> \<open>before the insertion into the iterator list\<close>
  | Set_unlock
  \<comment> \<open>\<open>ht_clear\<close>\<close>
  | Clear_try
  | Clear_lock
  | Clear_loop            \<comment> \<open>before the next list of the iterator list\<close>
  | Clear_reset
  \<comment> \<open>\<open>ht_grow_table\<close>, with the old array, the new array, its size and the new iterator list\<close>
  | Grow_try
  | Grow_check            \<comment> \<open>before the second check and the allocations\<close>
  | Grow_lock nat nat
  | Grow_swap nat nat     \<comment> \<open>before \<open>table->items = items_list\<close>\<close>
  | Grow_resize nat nat nat
  | Grow_loop nat nat nat buckets \<comment> \<open>before the next list of the old iterator list\<close>
  | Grow_move nat nat nat buckets \<comment> \<open>moving the items of a list\<close>
  | Grow_unlock nat
  | Grow_reset "nat option" \<comment> \<open>before the CAS to \<open>HT_STATUS_IDLE\<close>\<close>
  | Grow_free nat         \<comment> \<open>before \<open>free(old_items)\<close>\<close>

record ht_sys =
  sys_status :: nat
  sys_size :: nat
  sys_max :: nat
  sys_items :: nat
  sys_arrays :: "nat \<rightharpoonup> nat option list"
  sys_iter :: buckets
  sys_lock :: "nat option"
  sys_fresh :: nat
  sys_pc :: "nat \<Rightarrow> ht_pc"

definition goto :: "nat \<Rightarrow> ht_pc \<Rightarrow> ht_sys \<Rightarrow> ht_sys" where
  "goto t p s = s\<lparr>sys_pc := (sys_pc s)(t := p)\<rparr>"

definition slot_ok :: "ht_sys \<Rightarrow> nat \<Rightarrow> nat \<Rightarrow> bool" where
  "slot_ok s a i = (case sys_arrays s a of None \<Rightarrow> False | Some arr \<Rightarrow> i < length arr)"

definition slot :: "ht_sys \<Rightarrow> nat \<Rightarrow> nat \<Rightarrow> nat option" where
  "slot s a i = the (sys_arrays s a) ! i"

definition put_slot :: "nat \<Rightarrow> nat \<Rightarrow> nat option \<Rightarrow> ht_sys \<Rightarrow> ht_sys" where
  "put_slot a i x s = s\<lparr>sys_arrays := (sys_arrays s)(a \<mapsto> (the (sys_arrays s a))[i := x])\<rparr>"

text \<open>\<open>new_size\<close> of \<open>ht_grow_table\<close>.\<close>

definition grown :: "ht_sys \<Rightarrow> nat" where
  "grown s = (let n = (2 * sys_size s) mod 18446744073709551616 in if sys_max s \<noteq> 0 \<and> n > sys_max s then sys_max s else n)"

text \<open>\<open>ht_get_list\<close>.\<close>

inductive read_step :: "nat \<Rightarrow> ht_sys \<Rightarrow> ht_sys \<Rightarrow> bool" for t s where
  read_begin: "sys_pc s t = Out \<Longrightarrow> read_step t s (goto t (Read_first (unat (h :: 32 word) mod sys_size s)) s)"
| first_ok: "sys_pc s t = Read_first i \<Longrightarrow> sys_status s = IDLE \<Longrightarrow> read_step t s (goto t (Read_items i READ) (s\<lparr>sys_status := READ\<rparr>))"
| first_wait: "sys_pc s t = Read_first i \<Longrightarrow> sys_status s < IDLE \<Longrightarrow> read_step t s s"
| first_other: "sys_pc s t = Read_first i \<Longrightarrow> sys_status s \<noteq> IDLE \<Longrightarrow> read_step t s (goto t (Read_retry i (sys_status s)) s)"
| retry_ok: "sys_pc s t = Read_retry i v \<Longrightarrow> READ \<le> v \<Longrightarrow> sys_status s = v \<Longrightarrow>
    read_step t s (goto t (Read_items i (v + 1)) (s\<lparr>sys_status := v + 1\<rparr>))"
| retry_fail: "sys_pc s t = Read_retry i v \<Longrightarrow> \<not> (READ \<le> v \<and> sys_status s = v) \<Longrightarrow> read_step t s (goto t (Read_second i) s)"
| second_ok: "sys_pc s t = Read_second i \<Longrightarrow> sys_status s = IDLE \<Longrightarrow> read_step t s (goto t (Read_items i READ) (s\<lparr>sys_status := READ\<rparr>))"
| second_other: "sys_pc s t = Read_second i \<Longrightarrow> sys_status s \<noteq> IDLE \<Longrightarrow> read_step t s (goto t (Read_retry i (sys_status s)) s)"
| load_items: "sys_pc s t = Read_items i v \<Longrightarrow> read_step t s (goto t (Read_slot i v (sys_items s)) s)"
| load_slot: "sys_pc s t = Read_slot i v a \<Longrightarrow> read_step t s (goto t (if slot_ok s a i then Leave_first i v else Crash) s)"
| leave_ok: "sys_pc s t = Leave_first i v \<Longrightarrow> sys_status s = v \<Longrightarrow> read_step t s (goto t Out (s\<lparr>sys_status := v - 1\<rparr>))"
| leave_fail: "sys_pc s t = Leave_first i v \<Longrightarrow> sys_status s \<noteq> v \<Longrightarrow> read_step t s (goto t (Leave_second i) s)"
| leave_last: "sys_pc s t = Leave_second i \<Longrightarrow> sys_status s = READ \<Longrightarrow> read_step t s (goto t Out (s\<lparr>sys_status := IDLE\<rparr>))"
| leave_more: "sys_pc s t = Leave_second i \<Longrightarrow> sys_status s > READ \<Longrightarrow> read_step t s (goto t (Leave_first i (sys_status s)) s)"
| leave_low: "sys_pc s t = Leave_second i \<Longrightarrow> sys_status s < READ \<Longrightarrow> read_step t s (goto t Out s)"

text \<open>The CAS by which a writer gives the word back; its result is not looked at.\<close>

definition give_back :: "ht_status_t \<Rightarrow> ht_sys \<Rightarrow> ht_sys" where
  "give_back k s = (if sys_status s = status_val k then s\<lparr>sys_status := IDLE\<rparr> else s)"

text \<open>\<open>ht_set_list\<close>.\<close>

inductive set_step :: "nat \<Rightarrow> ht_sys \<Rightarrow> ht_sys \<Rightarrow> bool" for t s where
  set_begin: "sys_pc s t = Out \<Longrightarrow> set_step t s (goto t (Set_try h) s)"
| set_claim: "sys_pc s t = Set_try h \<Longrightarrow> sys_status s = IDLE \<Longrightarrow>
    set_step t s (goto t (Set_look h) (s\<lparr>sys_status := status_val HT_STATUS_WRITE\<rparr>))"
| set_wait: "sys_pc s t = Set_try h \<Longrightarrow> sys_status s \<noteq> IDLE \<Longrightarrow> set_step t s s"
| set_look: "sys_pc s t = Set_look h \<Longrightarrow> i = unat h mod sys_size s \<Longrightarrow>
    set_step t s (if \<not> slot_ok s (sys_items s) i then goto t Crash s
      else if slot s (sys_items s) i \<noteq> None then goto t (Set_reset None) s
      else goto t (Set_store i (sys_fresh s)) (s\<lparr>sys_fresh := Suc (sys_fresh s)\<rparr>))"
| set_store: "sys_pc s t = Set_store i l \<Longrightarrow>
    set_step t s (if slot_ok s (sys_items s) i then goto t (Set_reset (Some (l, i))) (put_slot (sys_items s) i (Some l) s) else goto t Crash s)"
| set_reset: "sys_pc s t = Set_reset x \<Longrightarrow>
    set_step t s (goto t (case x of None \<Rightarrow> Out | Some (l, i) \<Rightarrow> Set_lock l i) (give_back HT_STATUS_WRITE s))"
| set_lock: "sys_pc s t = Set_lock l i \<Longrightarrow> sys_lock s = None \<Longrightarrow> set_step t s (goto t (Set_insert l i) (s\<lparr>sys_lock := Some t\<rparr>))"
| set_insert: "sys_pc s t = Set_insert l i \<Longrightarrow> set_step t s (goto t Set_unlock (s\<lparr>sys_iter := sys_iter s @ [(l, i)]\<rparr>))"
| set_unlock: "sys_pc s t = Set_unlock \<Longrightarrow> set_step t s (goto t Out (s\<lparr>sys_lock := None\<rparr>))"

text \<open>\<open>ht_clear\<close>.\<close>

inductive clear_step :: "nat \<Rightarrow> ht_sys \<Rightarrow> ht_sys \<Rightarrow> bool" for t s where
  clear_begin: "sys_pc s t = Out \<Longrightarrow> clear_step t s (goto t Clear_try s)"
| clear_claim: "sys_pc s t = Clear_try \<Longrightarrow> sys_status s = IDLE \<Longrightarrow>
    clear_step t s (goto t Clear_lock (s\<lparr>sys_status := status_val HT_STATUS_CLEAR\<rparr>))"
| clear_wait: "sys_pc s t = Clear_try \<Longrightarrow> sys_status s \<noteq> IDLE \<Longrightarrow> clear_step t s s"
| clear_lock: "sys_pc s t = Clear_lock \<Longrightarrow> sys_lock s = None \<Longrightarrow> clear_step t s (goto t Clear_loop (s\<lparr>sys_lock := Some t\<rparr>))"
| clear_next: "sys_pc s t = Clear_loop \<Longrightarrow> sys_iter s = (l, i) # rest \<Longrightarrow>
    clear_step t s (if slot_ok s (sys_items s) i then put_slot (sys_items s) i None (s\<lparr>sys_iter := rest\<rparr>) else goto t Crash s)"
| clear_unlock: "sys_pc s t = Clear_loop \<Longrightarrow> sys_iter s = [] \<Longrightarrow> clear_step t s (goto t Clear_reset (s\<lparr>sys_lock := None\<rparr>))"
| clear_reset: "sys_pc s t = Clear_reset \<Longrightarrow> clear_step t s (goto t Out (give_back HT_STATUS_CLEAR s))"

text \<open>
  \<open>ht_grow_table\<close>. It stops when the table has its maximal size or an allocation fails (\<open>grow_stop\<close>);
  \<open>calloc\<close> succeeds only when the size of the array in bytes fits into a \<open>size_t\<close>.
\<close>

inductive grow_step :: "nat \<Rightarrow> ht_sys \<Rightarrow> ht_sys \<Rightarrow> bool" for t s where
  grow_begin: "sys_pc s t = Out \<Longrightarrow> grow_step t s (goto t Grow_try s)"
| grow_claim: "sys_pc s t = Grow_try \<Longrightarrow> sys_status s = IDLE \<Longrightarrow>
    grow_step t s (goto t Grow_check (s\<lparr>sys_status := status_val HT_STATUS_GROW\<rparr>))"
| grow_gives_up: "sys_pc s t = Grow_try \<Longrightarrow> sys_status s \<noteq> IDLE \<Longrightarrow> grow_step t s (goto t Out s)"
| grow_stop: "sys_pc s t = Grow_check \<Longrightarrow> grow_step t s (goto t (Grow_reset None) s)"
| grow_alloc: "sys_pc s t = Grow_check \<Longrightarrow> \<not> (sys_max s \<noteq> 0 \<and> sys_size s \<ge> sys_max s) \<Longrightarrow> 8 * grown s < 18446744073709551616 \<Longrightarrow>
    grow_step t s (goto t (Grow_lock (sys_fresh s) (grown s))
      (s\<lparr>sys_arrays := (sys_arrays s)(sys_fresh s \<mapsto> replicate (grown s) None), sys_fresh := Suc (sys_fresh s)\<rparr>))"
| grow_lock: "sys_pc s t = Grow_lock a n \<Longrightarrow> sys_lock s = None \<Longrightarrow> grow_step t s (goto t (Grow_swap a n) (s\<lparr>sys_lock := Some t\<rparr>))"
| grow_swap: "sys_pc s t = Grow_swap a n \<Longrightarrow> grow_step t s (goto t (Grow_resize (sys_items s) a n) (s\<lparr>sys_items := a\<rparr>))"
| grow_resize: "sys_pc s t = Grow_resize old a n \<Longrightarrow> grow_step t s (goto t (Grow_loop old a n []) (s\<lparr>sys_size := n\<rparr>))"
| grow_next: "sys_pc s t = Grow_loop old a n new \<Longrightarrow> sys_iter s = (l, i) # rest \<Longrightarrow>
    grow_step t s (if slot_ok s old i then goto t (Grow_move old a n new) (put_slot old i None s) else goto t Crash s)"
| grow_item: "sys_pc s t = Grow_move old a n new \<Longrightarrow> i = unat (h :: 32 word) mod n \<Longrightarrow>
    grow_step t s (if \<not> slot_ok s a i then goto t Crash s
      else if slot s a i \<noteq> None then s
      else goto t (Grow_move old a n (new @ [(sys_fresh s, i)])) (put_slot a i (Some (sys_fresh s)) (s\<lparr>sys_fresh := Suc (sys_fresh s)\<rparr>)))"
| grow_moved: "sys_pc s t = Grow_move old a n new \<Longrightarrow> grow_step t s (goto t (Grow_loop old a n new) (s\<lparr>sys_iter := tl (sys_iter s)\<rparr>))"
| grow_iter: "sys_pc s t = Grow_loop old a n new \<Longrightarrow> sys_iter s = [] \<Longrightarrow> grow_step t s (goto t (Grow_unlock old) (s\<lparr>sys_iter := new\<rparr>))"
| grow_unlock: "sys_pc s t = Grow_unlock old \<Longrightarrow> grow_step t s (goto t (Grow_reset (Some old)) (s\<lparr>sys_lock := None\<rparr>))"
| grow_reset: "sys_pc s t = Grow_reset x \<Longrightarrow>
    grow_step t s (goto t (case x of None \<Rightarrow> Out | Some old \<Rightarrow> Grow_free old) (give_back HT_STATUS_GROW s))"
| grow_free: "sys_pc s t = Grow_free old \<Longrightarrow>
    grow_step t s (if sys_arrays s old = None then goto t Crash s else goto t Out (s\<lparr>sys_arrays := (sys_arrays s)(old := None)\<rparr>))"

inductive ht_step :: "ht_sys \<Rightarrow> ht_sys \<Rightarrow> bool" where
  "read_step t s s' \<Longrightarrow> ht_step s s'"
| "set_step t s s' \<Longrightarrow> ht_step s s'"
| "clear_step t s s' \<Longrightarrow> ht_step s s'"
| "grow_step t s s' \<Longrightarrow> ht_step s s'"

definition ht_start :: "nat \<Rightarrow> nat \<Rightarrow> ht_sys" where
  "ht_start size0 max_size = \<lparr>sys_status = IDLE, sys_size = size0, sys_max = max_size, sys_items = 0,
     sys_arrays = [0 \<mapsto> replicate size0 None], sys_iter = [], sys_lock = None, sys_fresh = 1, sys_pc = (\<lambda>_. Out)\<rparr>"

inductive ht_reach :: "nat \<Rightarrow> nat \<Rightarrow> ht_sys \<Rightarrow> bool" for size0 max_size where
  start: "ht_reach size0 max_size (ht_start size0 max_size)"
| step: "ht_reach size0 max_size s \<Longrightarrow> ht_step s s' \<Longrightarrow> ht_reach size0 max_size s'"

section \<open>Readers and writers exclude each other\<close>

fun in_read :: "ht_pc \<Rightarrow> bool" where
  "in_read (Read_items i v) = True"
| "in_read (Read_slot i v a) = True"
| "in_read (Leave_first i v) = True"
| "in_read (Leave_second i) = True"
| "in_read p = False"

text \<open>The value of the word that a writer has claimed at a program point.\<close>

fun claim :: "ht_pc \<Rightarrow> ht_status_t option" where
  "claim (Set_look h) = Some HT_STATUS_WRITE"
| "claim (Set_store i l) = Some HT_STATUS_WRITE"
| "claim (Set_reset x) = Some HT_STATUS_WRITE"
| "claim Clear_lock = Some HT_STATUS_CLEAR"
| "claim Clear_loop = Some HT_STATUS_CLEAR"
| "claim Clear_reset = Some HT_STATUS_CLEAR"
| "claim Grow_check = Some HT_STATUS_GROW"
| "claim (Grow_lock a n) = Some HT_STATUS_GROW"
| "claim (Grow_swap a n) = Some HT_STATUS_GROW"
| "claim (Grow_resize old a n) = Some HT_STATUS_GROW"
| "claim (Grow_loop old a n new) = Some HT_STATUS_GROW"
| "claim (Grow_move old a n new) = Some HT_STATUS_GROW"
| "claim (Grow_unlock old) = Some HT_STATUS_GROW"
| "claim (Grow_reset x) = Some HT_STATUS_GROW"
| "claim p = None"

definition readers :: "ht_sys \<Rightarrow> nat set" where
  "readers s = {t. in_read (sys_pc s t)}"

definition writers :: "ht_sys \<Rightarrow> nat set" where
  "writers s = {t. claim (sys_pc s t) \<noteq> None}"

definition ht_inv_status :: "ht_sys \<Rightarrow> bool" where
  "ht_inv_status s \<longleftrightarrow> finite (readers s) \<and>
     (writers s = {} \<and> sys_status s = IDLE + card (readers s) \<or>
      readers s = {} \<and> (\<exists>t k. writers s = {t} \<and> claim (sys_pc s t) = Some k \<and> sys_status s = status_val k))"

lemma status_val_simps [simp]:
  "status_val HT_STATUS_CLEAR = 0" "status_val HT_STATUS_WRITE = 1" "status_val HT_STATUS_GROW = 2" "status_val HT_STATUS_IDLE = 3"
  "status_val HT_STATUS_READ = 4"
  by (simp_all add: status_val_def)

lemma claim_not_read: "claim p \<noteq> None \<Longrightarrow> \<not> in_read p"
  by (cases p) auto

lemma claim_low: "claim p = Some k \<Longrightarrow> status_val k < 3"
  by (cases p) auto

lemma readers_upd: "sys_pc s' = (sys_pc s)(t := p) \<Longrightarrow> readers s' = (if in_read p then insert t (readers s) else readers s - {t})"
  by (auto simp: readers_def)

lemma writers_upd: "sys_pc s' = (sys_pc s)(t := p) \<Longrightarrow> writers s' = (if claim p \<noteq> None then insert t (writers s) else writers s - {t})"
  by (auto simp: writers_def)

lemma in_readers: "t \<in> readers s \<longleftrightarrow> in_read (sys_pc s t)" and in_writers: "t \<in> writers s \<longleftrightarrow> claim (sys_pc s t) \<noteq> None"
  by (simp_all add: readers_def writers_def)

lemma ht_inv_cases:
  assumes "ht_inv_status s"
  obtains (shared) "writers s = {}" and "sys_status s = 3 + card (readers s)" and "finite (readers s)"
  | (exclusive) t k where "readers s = {}" and "writers s = {t}" and "claim (sys_pc s t) = Some k" and "sys_status s = status_val k"
      and "status_val k < 3"
  using assms claim_low unfolding ht_inv_status_def by (auto; blast)

text \<open>A thread that stays where it is with respect to the word.\<close>

lemma ht_inv_same:
  assumes "ht_inv_status s" and "sys_pc s' = (sys_pc s)(t := p)" and "sys_status s' = sys_status s"
    and "in_read p = in_read (sys_pc s t)" and "claim p = claim (sys_pc s t)"
  shows "ht_inv_status s'"
proof -
  have r: "readers s' = readers s" and w: "writers s' = writers s"
    using assms(2,4,5) by (auto simp: readers_def writers_def)
  have c: "claim (sys_pc s' u) = claim (sys_pc s u)" for u using assms(2,5) by simp
  show ?thesis using assms(1,3) by (simp add: ht_inv_status_def r w c)
qed

lemma ht_inv_enter:
  assumes "ht_inv_status s" and "sys_pc s' = (sys_pc s)(t := p)" and "sys_status s' = sys_status s + 1" and "3 \<le> sys_status s"
    and "\<not> in_read (sys_pc s t)" and "in_read p"
  shows "ht_inv_status s'"
  using assms(1)
proof (cases rule: ht_inv_cases)
  case shared
  have t: "t \<notin> readers s" using assms(5) by (simp add: in_readers)
  have p: "claim p = None" using assms(6) claim_not_read by (cases "claim p") auto
  show ?thesis using shared t p assms(2,3,6) by (simp add: ht_inv_status_def readers_upd writers_upd)
next
  case (exclusive t' k)
  then show ?thesis using assms(4) by simp
qed

lemma ht_inv_reader:
  assumes "ht_inv_status s" and "in_read (sys_pc s t)"
  shows "writers s = {}" and "4 \<le> sys_status s" and "sys_status s = 3 + card (readers s)" and "finite (readers s)"
proof -
  have t: "t \<in> readers s" using assms(2) by (simp add: in_readers)
  from assms(1) have 1: "writers s = {} \<and> sys_status s = 3 + card (readers s) \<and> finite (readers s)"
    by (cases rule: ht_inv_cases) (use t in auto)
  moreover from 1 t have "0 < card (readers s)" by (auto simp: card_gt_0_iff)
  ultimately show "writers s = {}" "4 \<le> sys_status s" "sys_status s = 3 + card (readers s)" "finite (readers s)" by simp_all
qed

lemma ht_inv_leave:
  assumes "ht_inv_status s" and "sys_pc s' = (sys_pc s)(t := p)" and "sys_status s' = sys_status s - 1"
    and "in_read (sys_pc s t)" and "\<not> in_read p" and "claim p = None"
  shows "ht_inv_status s'"
proof -
  note r = ht_inv_reader [OF assms(1,4)]
  have "t \<in> readers s" using assms(4) by (simp add: in_readers)
  then have "card (readers s - {t}) = card (readers s) - 1" "0 < card (readers s)" using r(4) by (auto simp: card_gt_0_iff)
  then show ?thesis using r assms(2,3,5,6) by (simp add: ht_inv_status_def readers_upd writers_upd)
qed

lemma ht_inv_writer:
  assumes "ht_inv_status s" and "claim (sys_pc s t) = Some k"
  shows "writers s = {t}" and "readers s = {}" and "sys_status s = status_val k"
proof -
  have t: "t \<in> writers s" using assms(2) by (simp add: in_writers)
  from assms(1) have "writers s = {t} \<and> readers s = {} \<and> sys_status s = status_val k"
  proof (cases rule: ht_inv_cases)
    case shared
    then show ?thesis using t by simp
  next
    case (exclusive t' k')
    then have "t' = t" using t by simp
    then show ?thesis using exclusive assms(2) by simp
  qed
  then show "writers s = {t}" "readers s = {}" "sys_status s = status_val k" by simp_all
qed

lemma ht_inv_claim:
  assumes "ht_inv_status s" and "sys_pc s' = (sys_pc s)(t := p)" and "sys_status s = 3" and "claim p = Some k" and "sys_status s' = status_val k"
  shows "ht_inv_status s'"
  using assms(1)
proof (cases rule: ht_inv_cases)
  case shared
  then have "readers s = {}" using assms(3) by simp
  moreover have "\<not> in_read p" using claim_not_read [of p] assms(4) by simp
  ultimately show ?thesis using shared assms(2,4,5) by (auto simp: ht_inv_status_def readers_upd writers_upd)
next
  case (exclusive t' k')
  then show ?thesis using assms(3) by simp
qed

lemma ht_inv_release:
  assumes "ht_inv_status s" and "sys_pc s' = (sys_pc s)(t := p)" and "claim (sys_pc s t) = Some k" and "\<not> in_read p" and "claim p = None"
    and "sys_status s' = 3"
  shows "ht_inv_status s'"
  using ht_inv_writer [OF assms(1,3)] assms(2,4-6) by (simp add: ht_inv_status_def readers_upd writers_upd)

lemmas ht_sys_defs = goto_def put_slot_def give_back_def Let_def

text \<open>A thread that is inside or has claimed the word runs only into \<open>Crash\<close> by a fault of its own; that this never happens is shown with the other parts of the invariant.\<close>

lemma read_step_status:
  assumes "read_step t s s'" and "ht_inv_status s" and "sys_pc s' t \<noteq> Crash"
  shows "ht_inv_status s'"
  using assms(1)
proof cases
  case (first_ok i)
  then show ?thesis by (intro ht_inv_enter [OF assms(2), of _ t "sys_pc s' t"]) (simp_all add: ht_sys_defs)
next
  case (retry_ok i v)
  then show ?thesis by (intro ht_inv_enter [OF assms(2), of _ t "sys_pc s' t"]) (simp_all add: ht_sys_defs)
next
  case (second_ok i)
  then show ?thesis by (intro ht_inv_enter [OF assms(2), of _ t "sys_pc s' t"]) (simp_all add: ht_sys_defs)
next
  case (leave_ok i v)
  then show ?thesis by (intro ht_inv_leave [OF assms(2), of _ t "sys_pc s' t"]) (simp_all add: ht_sys_defs)
next
  case (leave_last i)
  then show ?thesis by (intro ht_inv_leave [OF assms(2), of _ t "sys_pc s' t"]) (simp_all add: ht_sys_defs)
next
  case (leave_low i)
  then show ?thesis using ht_inv_reader(2) [OF assms(2), of t] by simp
next
  case (load_slot i v a)
  then show ?thesis using assms(3) by (intro ht_inv_same [OF assms(2), of _ t "sys_pc s' t"]) (auto simp: ht_sys_defs split: if_splits)
qed (simp_all add: assms(2), (rule ht_inv_same [OF assms(2), of _ t "sys_pc s' t"]; simp add: ht_sys_defs)+)

lemma set_step_status:
  assumes "set_step t s s'" and "ht_inv_status s" and "sys_pc s' t \<noteq> Crash"
  shows "ht_inv_status s'"
  using assms(1)
proof cases
  case (set_claim h)
  then show ?thesis by (intro ht_inv_claim [OF assms(2), of _ t "sys_pc s' t" HT_STATUS_WRITE]) (simp_all add: ht_sys_defs)
next
  case (set_look h i)
  then show ?thesis using assms(3)
    by (intro ht_inv_same [OF assms(2), of _ t "sys_pc s' t"]) (auto simp: ht_sys_defs split: if_splits)
next
  case (set_store i l)
  then show ?thesis using assms(3)
    by (intro ht_inv_same [OF assms(2), of _ t "sys_pc s' t"]) (auto simp: ht_sys_defs split: if_splits)
next
  case (set_reset x)
  then have "sys_status s = 1" using ht_inv_writer(3) [OF assms(2), of t HT_STATUS_WRITE] by simp
  with set_reset show ?thesis
    by (intro ht_inv_release [OF assms(2), of _ t "sys_pc s' t" HT_STATUS_WRITE]) (auto simp: ht_sys_defs split: option.split)
qed (simp_all add: assms(2), (rule ht_inv_same [OF assms(2), of _ t "sys_pc s' t"]; simp add: ht_sys_defs)+)

lemma clear_step_status:
  assumes "clear_step t s s'" and "ht_inv_status s" and "sys_pc s' t \<noteq> Crash"
  shows "ht_inv_status s'"
  using assms(1)
proof cases
  case clear_claim
  then show ?thesis by (intro ht_inv_claim [OF assms(2), of _ t "sys_pc s' t" HT_STATUS_CLEAR]) (simp_all add: ht_sys_defs)
next
  case (clear_next l i rest)
  then show ?thesis using assms(3)
    by (intro ht_inv_same [OF assms(2), of _ t "sys_pc s' t"]) (auto simp: ht_sys_defs split: if_splits)
next
  case clear_reset
  then have "sys_status s = 0" using ht_inv_writer(3) [OF assms(2), of t HT_STATUS_CLEAR] by simp
  with clear_reset show ?thesis
    by (intro ht_inv_release [OF assms(2), of _ t "sys_pc s' t" HT_STATUS_CLEAR]) (auto simp: ht_sys_defs)
qed (simp_all add: assms(2), (rule ht_inv_same [OF assms(2), of _ t "sys_pc s' t"]; simp add: ht_sys_defs)+)

lemma grow_step_status:
  assumes "grow_step t s s'" and "ht_inv_status s" and "sys_pc s' t \<noteq> Crash"
  shows "ht_inv_status s'"
  using assms(1)
proof cases
  case grow_claim
  then show ?thesis by (intro ht_inv_claim [OF assms(2), of _ t "sys_pc s' t" HT_STATUS_GROW]) (simp_all add: ht_sys_defs)
next
  case (grow_next old a n new l i rest)
  then show ?thesis using assms(3)
    by (intro ht_inv_same [OF assms(2), of _ t "sys_pc s' t"]) (auto simp: ht_sys_defs split: if_splits)
next
  case (grow_item old a n new i h)
  then show ?thesis using assms(3)
    by (intro ht_inv_same [OF assms(2), of _ t "sys_pc s' t"]) (auto simp: ht_sys_defs split: if_splits)
next
  case (grow_free old)
  then show ?thesis using assms(3)
    by (intro ht_inv_same [OF assms(2), of _ t "sys_pc s' t"]) (auto simp: ht_sys_defs split: if_splits)
next
  case (grow_reset x)
  then have "sys_status s = 2" using ht_inv_writer(3) [OF assms(2), of t HT_STATUS_GROW] by simp
  with grow_reset show ?thesis
    by (intro ht_inv_release [OF assms(2), of _ t "sys_pc s' t" HT_STATUS_GROW]) (auto simp: ht_sys_defs split: option.split)
qed (simp_all add: assms(2), (rule ht_inv_same [OF assms(2), of _ t "sys_pc s' t"]; simp add: ht_sys_defs)+)

section \<open>The arrays\<close>

text \<open>The indices, the array and the mutex that a thread holds at a program point.\<close>

fun idx :: "ht_pc \<Rightarrow> nat set" where
  "idx (Read_first i) = {i}"
| "idx (Read_retry i v) = {i}"
| "idx (Read_second i) = {i}"
| "idx (Read_items i v) = {i}"
| "idx (Read_slot i v a) = {i}"
| "idx (Set_store i l) = {i}"
| "idx (Set_reset (Some (l, i))) = {i}"
| "idx (Set_lock l i) = {i}"
| "idx (Set_insert l i) = {i}"
| "idx p = {}"

fun own_array :: "ht_pc \<Rightarrow> nat option" where
  "own_array (Grow_lock a n) = Some a"
| "own_array (Grow_swap a n) = Some a"
| "own_array (Grow_resize old a n) = Some old"
| "own_array (Grow_loop old a n new) = Some old"
| "own_array (Grow_move old a n new) = Some old"
| "own_array (Grow_unlock old) = Some old"
| "own_array (Grow_reset x) = x"
| "own_array (Grow_free old) = Some old"
| "own_array p = None"

fun holds :: "ht_pc \<Rightarrow> bool" where
  "holds (Set_insert l i) = True"
| "holds Set_unlock = True"
| "holds Clear_loop = True"
| "holds (Grow_swap a n) = True"
| "holds (Grow_resize old a n) = True"
| "holds (Grow_loop old a n new) = True"
| "holds (Grow_move old a n new) = True"
| "holds (Grow_unlock old) = True"
| "holds p = False"

definition len :: "ht_sys \<Rightarrow> nat \<Rightarrow> nat" where
  "len s a = length (the (sys_arrays s a))"

text \<open>What a program point relies on beyond that.\<close>

fun pc_ok :: "ht_sys \<Rightarrow> ht_pc \<Rightarrow> bool" where
  "pc_ok s Crash = False"
| "pc_ok s (Read_slot i v a) = (a = sys_items s)"
| "pc_ok s (Set_store i l) = (slot s (sys_items s) i = None)"
| "pc_ok s (Grow_lock a n) = (len s a = n \<and> sys_size s \<le> n \<and> 8 * n < 18446744073709551616)"
| "pc_ok s (Grow_swap a n) = (len s a = n \<and> sys_size s \<le> n \<and> 8 * n < 18446744073709551616)"
| "pc_ok s (Grow_resize old a n) = (a = sys_items s \<and> len s a = n \<and> sys_size s \<le> n \<and> 8 * n < 18446744073709551616 \<and> sys_size s \<le> len s old)"
| "pc_ok s (Grow_loop old a n new) =
     (a = sys_items s \<and> sys_size s = n \<and> (\<forall>x\<in>set (sys_iter s). snd x < len s old) \<and> (\<forall>x\<in>set new. snd x < n))"
| "pc_ok s (Grow_move old a n new) =
     (a = sys_items s \<and> sys_size s = n \<and> (\<forall>x\<in>set (sys_iter s). snd x < len s old) \<and> (\<forall>x\<in>set new. snd x < n))"
| "pc_ok s p = True"

definition mem_inv :: "ht_sys \<Rightarrow> bool" where
  "mem_inv s \<longleftrightarrow> sys_arrays s (sys_items s) \<noteq> None \<and> 0 < sys_size s \<and> sys_size s \<le> len s (sys_items s) \<and>
     8 * sys_size s < 18446744073709551616 \<and> (\<forall>a. sys_arrays s a \<noteq> None \<longrightarrow> a < sys_fresh s) \<and>
     (\<forall>x\<in>set (sys_iter s). snd x < sys_size s)"

definition own_inv :: "ht_sys \<Rightarrow> bool" where
  "own_inv s \<longleftrightarrow> (\<forall>t a. own_array (sys_pc s t) = Some a \<longrightarrow> sys_arrays s a \<noteq> None \<and> a \<noteq> sys_items s \<and>
     (\<forall>u. own_array (sys_pc s u) = Some a \<longrightarrow> u = t))"

definition lock_inv :: "ht_sys \<Rightarrow> bool" where
  "lock_inv s \<longleftrightarrow> (\<forall>t. sys_lock s = Some t \<longleftrightarrow> holds (sys_pc s t))"

definition idx_inv :: "ht_sys \<Rightarrow> bool" where
  "idx_inv s \<longleftrightarrow> (\<forall>t. \<forall>i\<in>idx (sys_pc s t). i < sys_size s)"

definition pc_inv :: "ht_sys \<Rightarrow> bool" where
  "pc_inv s \<longleftrightarrow> (\<forall>t. pc_ok s (sys_pc s t))"

definition ht_sys_inv :: "ht_sys \<Rightarrow> bool" where
  "ht_sys_inv s \<longleftrightarrow> ht_inv_status s \<and> mem_inv s \<and> own_inv s \<and> lock_inv s \<and> idx_inv s \<and> pc_inv s"

definition thread_step :: "nat \<Rightarrow> ht_sys \<Rightarrow> ht_sys \<Rightarrow> bool" where
  "thread_step t s s' \<longleftrightarrow> read_step t s s' \<or> set_step t s s' \<or> clear_step t s s' \<or> grow_step t s s'"

lemma thread_stepE:
  assumes "thread_step t s s'"
  obtains (reading) "read_step t s s'" | (setting) "set_step t s s'" | (clearing) "clear_step t s s'" | (growing) "grow_step t s s'"
  using assms unfolding thread_step_def by blast

text \<open>A step changes the program point of its own thread only.\<close>

lemma thread_step_other: "thread_step t s s' \<Longrightarrow> u \<noteq> t \<Longrightarrow> sys_pc s' u = sys_pc s u"
  by (erule thread_stepE; erule read_step.cases set_step.cases clear_step.cases grow_step.cases; simp add: ht_sys_defs)

text \<open>A thread that has not claimed the word changes at most an array of its own and, under the mutex, the iterator list.\<close>

lemma thread_step_shared:
  assumes "thread_step t s s'" and "claim (sys_pc s t) = None"
  shows "sys_items s' = sys_items s" and "sys_size s' = sys_size s" and "\<not> holds (sys_pc s t) \<longrightarrow> sys_iter s' = sys_iter s"
    and "\<forall>a. own_array (sys_pc s t) \<noteq> Some a \<longrightarrow> sys_arrays s' a = sys_arrays s a"
  using assms
  by (erule_tac [!] thread_stepE; erule_tac [!] read_step.cases set_step.cases clear_step.cases grow_step.cases; simp add: ht_sys_defs)+

text \<open>What a program point relies on holds as long as nothing that it looks at changes.\<close>

lemma pc_ok_frame:
  assumes "pc_ok s p" and "in_read p \<longrightarrow> sys_items s' = sys_items s"
    and "claim p \<noteq> None \<longrightarrow> sys_items s' = sys_items s \<and> sys_size s' = sys_size s \<and> sys_arrays s' (sys_items s) = sys_arrays s (sys_items s) \<and>
           (\<forall>a. own_array p = Some a \<longrightarrow> sys_arrays s' a = sys_arrays s a) \<and> (holds p \<longrightarrow> sys_iter s' = sys_iter s)"
  shows "pc_ok s' p"
  using assms by (cases p) (auto simp: len_def slot_def)

lemma claim_holds: "own_array p \<noteq> None \<Longrightarrow> claim p = None \<Longrightarrow> \<exists>old. p = Grow_free old"
  by (cases p) auto

lemma pc_ok_other:
  assumes "thread_step t s s'" and "ht_sys_inv s" and "u \<noteq> t"
  shows "pc_ok s' (sys_pc s u)"
proof (cases "claim (sys_pc s t)")
  case None
  note sh = thread_step_shared [OF assms(1) None]
  have own: "own_array (sys_pc s t) = Some a \<longrightarrow> a \<noteq> sys_items s \<and> own_array (sys_pc s u) \<noteq> Some a" for a
    using assms(2,3) unfolding ht_sys_inv_def own_inv_def by blast
  have lk: "\<not> (holds (sys_pc s t) \<and> holds (sys_pc s u))" using assms(2,3) unfolding ht_sys_inv_def lock_inv_def by (metis option.inject)
  have "pc_ok s (sys_pc s u)" using assms(2) by (simp add: ht_sys_inv_def pc_inv_def)
  then show ?thesis by (rule pc_ok_frame) (use sh own lk in auto)
next
  case (Some k)
  have "ht_inv_status s" using assms(2) by (simp add: ht_sys_inv_def)
  note w = ht_inv_writer [OF this Some]
  have "\<not> in_read (sys_pc s u)" "claim (sys_pc s u) = None"
    using w(1,2) assms(3) in_readers [of u s] in_writers [of u s] by auto
  moreover have "pc_ok s (sys_pc s u)" using assms(2) by (simp add: ht_sys_inv_def pc_inv_def)
  ultimately show ?thesis using pc_ok_frame [of s "sys_pc s u" s'] by simp
qed

lemma slot_ok_idx: "mem_inv s \<Longrightarrow> i < sys_size s \<Longrightarrow> slot_ok s (sys_items s) i"
  by (auto simp: mem_inv_def slot_ok_def len_def)

lemma slot_ok_len: "sys_arrays s a \<noteq> None \<Longrightarrow> i < len s a \<Longrightarrow> slot_ok s a i"
  by (auto simp: slot_ok_def len_def)

lemma grown_bound:
  assumes "mem_inv s" and "\<not> (sys_max s \<noteq> 0 \<and> sys_size s \<ge> sys_max s)"
  shows "sys_size s \<le> grown s"
proof -
  have "2 * sys_size s < 18446744073709551616" using assms(1) by (simp add: mem_inv_def)
  then show ?thesis using assms(2) by (auto simp: grown_def Let_def)
qed

text \<open>The thread that makes the step finds what its next program point relies on; it does not crash.\<close>

lemma ht_invD:
  assumes "ht_sys_inv s"
  shows "ht_inv_status s" "mem_inv s" "pc_ok s (sys_pc s t)" "i \<in> idx (sys_pc s t) \<Longrightarrow> i < sys_size s"
    "own_array (sys_pc s t) = Some a \<Longrightarrow> sys_arrays s a \<noteq> None \<and> a \<noteq> sys_items s"
    "sys_lock s = Some t \<longleftrightarrow> holds (sys_pc s t)"
  using assms unfolding ht_sys_inv_def pc_inv_def idx_inv_def own_inv_def lock_inv_def by blast+

lemma read_step_self: "read_step t s s' \<Longrightarrow> ht_sys_inv s \<Longrightarrow> pc_ok s' (sys_pc s' t)"
proof (erule read_step.cases, goal_cases)
  case (10 i v a)
  have "a = sys_items s" "i < sys_size s" using ht_invD(3) [OF 10(1), of t] ht_invD(4) [OF 10(1), of i t] 10(3) by simp_all
  then have "slot_ok s a i" using slot_ok_idx [OF ht_invD(2) [OF 10(1)]] by simp
  then show ?case using 10 by (simp add: ht_sys_defs)
next
  case (3 i)
  then show ?case using ht_invD(3) by simp
qed (simp_all add: ht_sys_defs)

lemma set_step_self: "set_step t s s' \<Longrightarrow> ht_sys_inv s \<Longrightarrow> pc_ok s' (sys_pc s' t)"
proof (erule set_step.cases, goal_cases)
  case (4 h i)
  have "i < sys_size s" using 4(4) ht_invD(2) [OF 4(1)] by (simp add: mem_inv_def)
  then have "slot_ok s (sys_items s) i" by (rule slot_ok_idx [OF ht_invD(2) [OF 4(1)]])
  then show ?case using 4 by (auto simp: ht_sys_defs slot_def)
next
  case (5 i l)
  have "i < sys_size s" using ht_invD(4) [OF 5(1), of i t] 5(3) by simp
  then have "slot_ok s (sys_items s) i" by (rule slot_ok_idx [OF ht_invD(2) [OF 5(1)]])
  then show ?case using 5 by (simp add: ht_sys_defs)
next
  case (3 h)
  then show ?case using ht_invD(3) by simp
next
  case (6 x)
  then show ?case by (cases x) (auto simp: ht_sys_defs)
qed (simp_all add: ht_sys_defs)

lemma clear_step_self: "clear_step t s s' \<Longrightarrow> ht_sys_inv s \<Longrightarrow> pc_ok s' (sys_pc s' t)"
proof (erule clear_step.cases, goal_cases)
  case (5 l i rest)
  have "i < sys_size s" using ht_invD(2) [OF 5(1)] 5(4) by (simp add: mem_inv_def)
  then have "slot_ok s (sys_items s) i" by (rule slot_ok_idx [OF ht_invD(2) [OF 5(1)]])
  then show ?case using 5 by (simp add: ht_sys_defs)
qed (simp_all add: ht_sys_defs)

lemma len_put: "len (put_slot a i x s) b = len s b"
  by (auto simp: len_def put_slot_def)

lemma grow_step_self: "grow_step t s s' \<Longrightarrow> ht_sys_inv s \<Longrightarrow> pc_ok s' (sys_pc s' t)"
proof (erule grow_step.cases, goal_cases)
  case 5
  then show ?case using grown_bound [OF ht_invD(2) [OF 5(1)] 5(4)] by (simp add: ht_sys_defs len_def)
next
  case (6 a n)
  then show ?case using ht_invD(3) [OF 6(1), of t] by (simp add: ht_sys_defs len_def)
next
  case (7 a n)
  then show ?case using ht_invD(2,3) [OF 7(1)] ht_invD(3) [OF 7(1), of t] by (simp add: ht_sys_defs len_def mem_inv_def)
next
  case (8 old a n)
  have "\<forall>x\<in>set (sys_iter s). snd x < len s old" using ht_invD(2,3) [OF 8(1)] ht_invD(3) [OF 8(1), of t] 8(3) unfolding mem_inv_def by fastforce
  then show ?case using 8 ht_invD(3) [OF 8(1), of t] by (simp add: ht_sys_defs len_def)
next
  case (9 old a n new l i rest)
  have "i < len s old" using ht_invD(3) [OF 9(1), of t] 9(3,4) by simp
  then have ok: "slot_ok s old i" using slot_ok_len ht_invD(5) [OF 9(1), of t old] 9(3) by simp
  then show ?case using 9 ht_invD(3) [OF 9(1), of t] len_put [of old i None s old] by (simp add: goto_def len_def put_slot_def)
next
  case (10 old a n new i h)
  have n: "a = sys_items s" "sys_size s = n" using ht_invD(3) [OF 10(1), of t] 10(3) by simp_all
  have i: "i < n" using 10(4) ht_invD(2) [OF 10(1)] n(2) by (simp add: mem_inv_def)
  then have ok: "slot_ok s a i" using slot_ok_idx [OF ht_invD(2) [OF 10(1)], of i] n by simp
  have oa: "old \<noteq> a" using ht_invD(5) [OF 10(1), of t old] 10(3) n(1) by simp
  then show ?case using 10 ok i ht_invD(3) [OF 10(1), of t] by (auto simp: ht_sys_defs len_def)
next
  case (11 old a n new)
  then show ?case using ht_invD(3) [OF 11(1), of t] by (cases "sys_iter s") (auto simp: ht_sys_defs len_def)
next
  case (14 x)
  then show ?case by (cases x) (auto simp: ht_sys_defs)
next
  case (15 old)
  then show ?case using ht_invD(5) [OF 15(1), of t old] by (simp add: ht_sys_defs)
qed (simp_all add: ht_sys_defs)

lemma thread_step_self: "thread_step t s s' \<Longrightarrow> ht_sys_inv s \<Longrightarrow> pc_ok s' (sys_pc s' t)"
  by (erule thread_stepE; rule read_step_self set_step_self clear_step_self grow_step_self)

lemma pc_inv_step: "thread_step t s s' \<Longrightarrow> ht_sys_inv s \<Longrightarrow> pc_inv s'"
  unfolding pc_inv_def using thread_step_self pc_ok_other thread_step_other by metis

lemma status_step:
  assumes "thread_step t s s'" and "ht_sys_inv s"
  shows "ht_inv_status s'"
proof -
  have "sys_pc s' t \<noteq> Crash" using thread_step_self [OF assms] by auto
  then show ?thesis using assms ht_invD(1) [OF assms(2)]
    by (elim thread_stepE) (rule read_step_status set_step_status clear_step_status grow_step_status; assumption)+
qed

lemma own_inv_same:
  assumes "own_inv s" and "\<And>u. u \<noteq> t \<Longrightarrow> sys_pc s' u = sys_pc s u" and "sys_items s' = sys_items s"
    and "\<And>a. sys_arrays s a \<noteq> None \<Longrightarrow> sys_arrays s' a \<noteq> None" and "own_array (sys_pc s' t) = None \<or> own_array (sys_pc s' t) = own_array (sys_pc s t)"
  shows "own_inv s'"
  unfolding own_inv_def
proof (intro allI impI)
  fix u a assume u: "own_array (sys_pc s' u) = Some a"
  have old: "own_array (sys_pc s v) = Some b" if "own_array (sys_pc s' v) = Some b" for v b
    using that assms(2,5) by (cases "v = t") auto
  show "sys_arrays s' a \<noteq> None \<and> a \<noteq> sys_items s' \<and> (\<forall>v. own_array (sys_pc s' v) = Some a \<longrightarrow> v = u)"
    using assms(1) old [OF u] old assms(3,4) unfolding own_inv_def by metis
qed

lemma own_inv_step:
  assumes "thread_step t s s'" and "ht_sys_inv s"
  shows "own_inv s'"
proof -
  note oth = thread_step_other [OF assms(1)]
  have own: "own_inv s" using assms(2) by (simp add: ht_sys_inv_def)
  from assms(1) show ?thesis
  proof (cases rule: thread_stepE)
    case reading
    then show ?thesis
      by (intro own_inv_same [OF own, of t s', OF oth]; erule_tac [!] read_step.cases; simp add: ht_sys_defs)
  next
    case setting
    then show ?thesis
      by (intro own_inv_same [OF own, of t s', OF oth]; erule_tac [!] set_step.cases; auto simp: ht_sys_defs split: option.splits if_splits)
  next
    case clearing
    then show ?thesis
      by (intro own_inv_same [OF own, of t s', OF oth]; erule_tac [!] clear_step.cases; auto simp: ht_sys_defs split: if_splits)
  next
    case growing
    then show ?thesis
    proof cases
      case grow_alloc
      have "sys_arrays s a \<noteq> None \<Longrightarrow> a < sys_fresh s" for a using ht_invD(2) [OF assms(2)] by (simp add: mem_inv_def)
      moreover have "sys_items s < sys_fresh s" using ht_invD(2) [OF assms(2)] by (auto simp: mem_inv_def)
      moreover have "own_array (sys_pc s u) = Some a \<Longrightarrow> a \<noteq> sys_fresh s" for u a using ht_invD(5) [OF assms(2), of u a] calculation(1) [of a] by auto
      ultimately show ?thesis using own grow_alloc by (auto simp: own_inv_def ht_sys_defs)
    next
      case (grow_swap a n)
      have "sys_arrays s (sys_items s) \<noteq> None" using ht_invD(2) [OF assms(2)] by (simp add: mem_inv_def)
      moreover have "own_array (sys_pc s u) \<noteq> Some (sys_items s)" for u using ht_invD(5) [OF assms(2), of u] by blast
      moreover have "own_array (sys_pc s t) = Some a" using grow_swap by simp
      ultimately show ?thesis using own grow_swap(1) unfolding own_inv_def by (simp add: ht_sys_defs) metis
    next
      case (grow_free old)
      have "own_array (sys_pc s t) = Some old" using grow_free by simp
      then show ?thesis using own grow_free unfolding own_inv_def by (auto simp: ht_sys_defs)
    next
      case (grow_reset x)
      then show ?thesis by (intro own_inv_same [OF own, of t s', OF oth]) (auto simp: ht_sys_defs split: option.splits)
    qed (rule own_inv_same [OF own, of t s', OF oth]; simp add: ht_sys_defs split: if_splits)+
  qed
qed

lemma lock_inv_step:
  assumes "thread_step t s s'" and "ht_sys_inv s"
  shows "lock_inv s'"
proof -
  have l: "\<forall>u. sys_lock s = Some u \<longleftrightarrow> holds (sys_pc s u)" using assms(2) by (simp add: ht_sys_inv_def lock_inv_def)
  have "sys_pc s' t \<noteq> Crash" using thread_step_self [OF assms] by auto
  moreover have "sys_lock s' = sys_lock s \<and> holds (sys_pc s' t) = holds (sys_pc s t) \<or> sys_lock s = None \<and> sys_lock s' = Some t \<and> holds (sys_pc s' t) \<or>
      holds (sys_pc s t) \<and> sys_lock s' = None \<and> \<not> holds (sys_pc s' t)" if "sys_pc s' t \<noteq> Crash"
    using assms(1) that
    by (elim thread_stepE; elim read_step.cases set_step.cases clear_step.cases grow_step.cases; simp add: ht_sys_defs split: option.splits if_splits)
  ultimately show ?thesis unfolding lock_inv_def using l thread_step_other [OF assms(1)] by (metis option.distinct(1) option.inject)
qed

lemma mem_inv_same:
  assumes "mem_inv s" and "sys_items s' = sys_items s" and "sys_size s' = sys_size s" and "\<And>a. (sys_arrays s' a = None) = (sys_arrays s a = None)"
    and "\<And>a. len s' a = len s a" and "set (sys_iter s') \<subseteq> set (sys_iter s)" and "sys_fresh s \<le> sys_fresh s'"
  shows "mem_inv s'"
proof -
  have "a < sys_fresh s'" if "sys_arrays s' a \<noteq> None" for a
    using that assms(1,4,7) unfolding mem_inv_def by (metis order.strict_trans2)
  then show ?thesis using assms(1-6) unfolding mem_inv_def by auto
qed

lemma put_slot_dom: "sys_arrays s a \<noteq> None \<Longrightarrow> (sys_arrays (put_slot a i x s) b = None) = (sys_arrays s b = None)"
  by (simp add: put_slot_def)

lemma slot_ok_alloc: "slot_ok s a i \<Longrightarrow> sys_arrays s a \<noteq> None"
  by (auto simp: slot_ok_def split: option.splits)

lemma set_step_mem:
  assumes "set_step t s s'" and "ht_sys_inv s"
  shows "mem_inv s'"
proof -
  have m: "mem_inv s" by (rule ht_invD(2) [OF assms(2)])
  from assms(1) show ?thesis
  proof cases
    case (set_insert l i)
    have "i < sys_size s" using ht_invD(4) [OF assms(2), of i t] set_insert by simp
    then show ?thesis using m set_insert by (auto simp: mem_inv_def ht_sys_defs len_def)
  next
    case (set_store i l)
    then show ?thesis
      by (intro mem_inv_same [OF m]) (auto simp: ht_sys_defs len_def slot_ok_def split: option.splits if_splits)
  next
    case (set_look h i)
    then show ?thesis by (intro mem_inv_same [OF m]) (auto simp: ht_sys_defs len_def)
  qed (intro mem_inv_same [OF m]; simp add: ht_sys_defs len_def)+
qed

lemma clear_step_mem:
  assumes "clear_step t s s'" and "ht_sys_inv s"
  shows "mem_inv s'"
proof -
  have m: "mem_inv s" by (rule ht_invD(2) [OF assms(2)])
  from assms(1) show ?thesis
  proof cases
    case (clear_next l i rest)
    then show ?thesis
      by (intro mem_inv_same [OF m]) (auto simp: ht_sys_defs len_def slot_ok_def split: option.splits if_splits)
  qed (intro mem_inv_same [OF m]; simp add: ht_sys_defs len_def)+
qed

lemma grow_step_mem:
  assumes "grow_step t s s'" and "ht_sys_inv s"
  shows "mem_inv s'"
proof -
  have m: "mem_inv s" by (rule ht_invD(2) [OF assms(2)])
  from assms(1) show ?thesis
  proof cases
    case grow_alloc
    then show ?thesis using m by (auto simp: mem_inv_def ht_sys_defs len_def less_SucI)
  next
    case (grow_swap a n)
    then show ?thesis using m ht_invD(3) [OF assms(2), of t] ht_invD(5) [OF assms(2), of t a] by (auto simp: mem_inv_def ht_sys_defs len_def)
  next
    case (grow_resize old a n)
    then show ?thesis using m ht_invD(3) [OF assms(2), of t] by (fastforce simp: mem_inv_def ht_sys_defs len_def)
  next
    case (grow_next old a n new l i rest)
    then show ?thesis
      by (intro mem_inv_same [OF m]) (auto simp: ht_sys_defs len_def slot_ok_def split: option.splits if_splits)
  next
    case (grow_item old a n new i h)
    then show ?thesis
      by (intro mem_inv_same [OF m]) (auto simp: ht_sys_defs len_def slot_ok_def split: option.splits if_splits)
  next
    case (grow_moved old a n new)
    then show ?thesis by (intro mem_inv_same [OF m]) (cases "sys_iter s"; auto simp: ht_sys_defs len_def)+
  next
    case (grow_iter old a n new)
    then show ?thesis using m ht_invD(3) [OF assms(2), of t] by (auto simp: mem_inv_def ht_sys_defs len_def)
  next
    case (grow_free old)
    then show ?thesis using m ht_invD(5) [OF assms(2), of t old] by (auto simp: mem_inv_def ht_sys_defs len_def)
  qed (intro mem_inv_same [OF m]; simp add: ht_sys_defs len_def)+
qed

lemma mem_inv_step: "thread_step t s s' \<Longrightarrow> ht_sys_inv s \<Longrightarrow> mem_inv s'"
proof (erule thread_stepE)
  assume "ht_sys_inv s" "read_step t s s'"
  then show "mem_inv s'"
    by (intro mem_inv_same [OF ht_invD(2)]) (erule read_step.cases; simp add: ht_sys_defs len_def)+
qed (rule set_step_mem clear_step_mem grow_step_mem; assumption)+

lemma idx_inv_step:
  assumes "thread_step t s s'" and "ht_sys_inv s"
  shows "idx_inv s'"
proof -
  have o: "pc_ok s (sys_pc s t)" "\<forall>i\<in>idx (sys_pc s t). i < sys_size s" using ht_invD(3,4) [OF assms(2)] by blast+
  have "0 < sys_size s" using ht_invD(2) [OF assms(2)] by (simp add: mem_inv_def)
  then have "sys_size s \<le> sys_size s' \<and> (\<forall>i\<in>idx (sys_pc s' t). i < sys_size s')"
    using assms(1) o
    by (elim thread_stepE; elim read_step.cases set_step.cases clear_step.cases grow_step.cases; simp add: ht_sys_defs split: option.splits if_splits prod.splits)
  then show ?thesis
    unfolding idx_inv_def using thread_step_other [OF assms(1)] ht_invD(4) [OF assms(2)] by (metis order.strict_trans2)
qed

lemma thread_step_inv: "thread_step t s s' \<Longrightarrow> ht_sys_inv s \<Longrightarrow> ht_sys_inv s'"
  using status_step mem_inv_step own_inv_step lock_inv_step idx_inv_step pc_inv_step unfolding ht_sys_inv_def [of s'] by blast

lemma ht_step_thread: "ht_step s s' \<longleftrightarrow> (\<exists>t. thread_step t s s')"
  by (auto simp: thread_step_def intro: ht_step.intros elim: ht_step.cases)

lemma ht_reach_inv:
  assumes "ht_reach size0 max_size s" and "0 < size0" and "8 * size0 < 18446744073709551616"
  shows "ht_sys_inv s"
  using assms(1)
proof (induction rule: ht_reach.induct)
  case start
  show ?case using assms(2,3)
    by (simp add: ht_sys_inv_def ht_inv_status_def mem_inv_def own_inv_def lock_inv_def idx_inv_def pc_inv_def readers_def writers_def ht_start_def len_def)
next
  case (step s s')
  then show ?case using thread_step_inv by (auto simp: ht_step_thread)
qed

text \<open>
  The program points at which a thread is about to load \<open>table->items\<close> or a slot of one of the arrays, and those
  at which it is about to change them or \<open>table->size\<close>. \<open>Set_look\<close> also loads the size, for the index.
\<close>

fun reads_array :: "ht_pc \<Rightarrow> bool" where
  "reads_array (Read_items i v) = True"
| "reads_array (Read_slot i v a) = True"
| "reads_array (Set_look h) = True"
| "reads_array p = False"

fun writes_array :: "ht_pc \<Rightarrow> bool" where
  "writes_array (Set_store i l) = True"
| "writes_array Clear_loop = True"
| "writes_array (Grow_swap a n) = True"
| "writes_array (Grow_resize old a n) = True"
| "writes_array (Grow_loop old a n new) = True"
| "writes_array (Grow_move old a n new) = True"
| "writes_array p = False"

lemma array_access: "writes_array p \<Longrightarrow> claim p \<noteq> None" "reads_array p \<Longrightarrow> in_read p \<or> claim p \<noteq> None"
  by (cases p; simp)+

text \<open>
  \<open>C20\<close>: the status word protects the slot array. In every interleaving of any number of threads that look up,
  set, clear and grow, no thread touches a slot of an array that has been freed or is too short, and no
  array is freed twice; while a thread is about to change \<open>table->items\<close>, the size or a slot, no other thread is
  about to load \<open>table->items\<close> or a slot or to change any of them; a thread that is about to store a new list finds
  its slot still empty, so that no list is overwritten; and while no writer has claimed the word, it counts the
  readers. (The size that \<open>ht_get_list\<close> reads before it enters is not protected, nor is the iterator list:
  see \<open>ht_stale_index\<close> and \<open>ht_list_lost\<close>.)
\<close>

theorem ht_status_exclusion:
  assumes "ht_reach size0 max_size s" and "0 < size0" and "8 * size0 < 18446744073709551616"
  shows "(\<forall>t. sys_pc s t \<noteq> Crash) \<and>
    (\<forall>t u. writes_array (sys_pc s t) \<longrightarrow> reads_array (sys_pc s u) \<or> writes_array (sys_pc s u) \<longrightarrow> u = t) \<and>
    (\<forall>t i l. sys_pc s t = Set_store i l \<longrightarrow> slot_ok s (sys_items s) i \<and> slot s (sys_items s) i = None) \<and>
    ((\<forall>t. claim (sys_pc s t) = None) \<longrightarrow> sys_status s = IDLE + card {t. in_read (sys_pc s t)})"
proof -
  note inv = ht_reach_inv [OF assms]
  have "sys_pc s t \<noteq> Crash" for t using ht_invD(3) [OF inv, of t] by auto
  moreover have "u = t" if a: "writes_array (sys_pc s t)" "reads_array (sys_pc s u) \<or> writes_array (sys_pc s u)" for t u
  proof -
    obtain k where "claim (sys_pc s t) = Some k" using array_access(1) [OF a(1)] by blast
    note w = ht_inv_writer [OF ht_invD(1) [OF inv] this]
    have "in_read (sys_pc s u) \<or> claim (sys_pc s u) \<noteq> None" using array_access a(2) by blast
    then show ?thesis using w(1,2) in_readers [of u s] in_writers [of u s] by auto
  qed
  moreover have "slot_ok s (sys_items s) i \<and> slot s (sys_items s) i = None" if "sys_pc s t = Set_store i l" for t i l
    using ht_invD(3) [OF inv, of t] ht_invD(4) [OF inv, of i t] slot_ok_idx [OF ht_invD(2) [OF inv], of i] that by simp
  moreover have "sys_status s = IDLE + card {t. in_read (sys_pc s t)}" if "\<forall>t. claim (sys_pc s t) = None"
    using ht_invD(1) [OF inv]
  proof (cases rule: ht_inv_cases)
    case shared
    then show ?thesis by (simp add: readers_def)
  next
    case (exclusive t k)
    then show ?thesis using that by simp
  qed
  ultimately show ?thesis by blast
qed

text \<open>
  A reader that is about to leave and is not disturbed by other threads does leave, in at most three
  steps of its own: the loop at the end of \<open>ht_get_list\<close> ends.
\<close>

lemma ht_reader_leaves:
  assumes "ht_sys_inv s" and "sys_pc s t = Leave_first i v"
  shows "\<exists>s' n. n \<le> 3 \<and> (read_step t ^^ n) s s' \<and> sys_pc s' t = Out \<and> sys_status s' = sys_status s - 1"
proof -
  have r: "4 \<le> sys_status s" using ht_inv_reader(2) [OF ht_invD(1) [OF assms(1)], of t] assms(2) by simp
  consider "sys_status s = v" | "sys_status s \<noteq> v" "sys_status s = READ" | "sys_status s \<noteq> v" "sys_status s > READ"
    using r by fastforce
  then show ?thesis
  proof cases
    case 1
    let ?b = "goto t Out (s\<lparr>sys_status := v - 1\<rparr>)"
    have "read_step t s ?b" by (rule leave_ok) (use assms(2) 1 in auto)
    then show ?thesis using 1 by (intro exI [of _ ?b] exI [of _ 1]) (simp add: eq_OO goto_def)
  next
    case 2
    let ?a = "goto t (Leave_second i) s" and ?b = "goto t Out ((goto t (Leave_second i) s)\<lparr>sys_status := IDLE\<rparr>)"
    have 1: "read_step t s ?a" by (rule leave_fail) (use assms(2) 2 in auto)
    have 3: "read_step t ?a ?b" by (rule leave_last) (use 2 in \<open>auto simp: goto_def\<close>)
    have "(read_step t ^^ 2) s ?b" using 1 3 by (auto simp: numeral_2_eq_2)
    then show ?thesis using 2 by (intro exI [of _ ?b] exI [of _ 2]) (simp add: goto_def)
  next
    case 3
    let ?a = "goto t (Leave_second i) s"
    let ?b = "goto t (Leave_first i (sys_status ?a)) ?a"
    let ?c = "goto t Out (?b\<lparr>sys_status := sys_status s - 1\<rparr>)"
    have 1: "read_step t s ?a" by (rule leave_fail) (use assms(2) 3 in auto)
    have 2: "read_step t ?a ?b" by (rule leave_more) (use 3 in \<open>auto simp: goto_def\<close>)
    have 4: "read_step t ?b ?c" by (rule leave_ok) (auto simp: goto_def)
    have "(read_step t ^^ 3) s ?c" using 1 2 4 by (auto simp: numeral_3_eq_3)
    then show ?thesis by (intro exI [of _ ?c] exI [of _ 3]) (simp add: goto_def)
  qed
qed

section \<open>Witnesses, and two races\<close>

lemmas reach_read = ht_reach.step [OF _ ht_step.intros(1)]
lemmas reach_set = ht_reach.step [OF _ ht_step.intros(2)]
lemmas reach_grow = ht_reach.step [OF _ ht_step.intros(4)]

text \<open>One thread waits to read, another is about to store a list.\<close>

definition set_and_read :: ht_sys where
  "set_and_read = (ht_start 128 0)\<lparr>sys_status := 1, sys_fresh := 2, sys_pc := (\<lambda>_. Out)(0 := Set_store 7 1, 1 := Read_first 7)\<rparr>"

lemma set_and_read_reach: "ht_reach 128 0 set_and_read"
proof -
  let ?s = "ht_start 128 0"
  have h: "unat (7 :: 32 word) mod 128 = 7" by simp
  have 0: "ht_reach 128 0 (?s\<lparr>sys_pc := (\<lambda>_. Out)(1 := Read_first 7)\<rparr>)"
    using reach_read [OF start read_begin [of ?s 1 7]] h by (simp add: ht_start_def goto_def)
  have 1: "ht_reach 128 0 (?s\<lparr>sys_pc := (\<lambda>_. Out)(1 := Read_first 7, 0 := Set_try 7)\<rparr>)"
    using reach_set [OF 0 set_begin [of _ 0 7]] by (simp add: ht_start_def goto_def)
  have 2: "ht_reach 128 0 (?s\<lparr>sys_status := 1, sys_pc := (\<lambda>_. Out)(1 := Read_first 7, 0 := Set_look 7)\<rparr>)"
    using reach_set [OF 1 set_claim [of _ 0 7]] by (simp add: ht_start_def goto_def)
  have "ht_reach 128 0 (?s\<lparr>sys_status := 1, sys_fresh := 2, sys_pc := (\<lambda>_. Out)(1 := Read_first 7, 0 := Set_store 7 1)\<rparr>)"
    using reach_set [OF 2 set_look [of _ 0 7]] h by (simp add: ht_start_def goto_def slot_ok_def slot_def numeral_2_eq_2)
  then show ?thesis by (simp add: set_and_read_def fun_upd_twist)
qed

theorem ht_status_exclusion_witness:
  "sys_pc set_and_read 1 \<noteq> Crash \<and> \<not> reads_array (sys_pc set_and_read 1) \<and> slot set_and_read (sys_items set_and_read) 7 = None"
proof -
  have p: "sys_pc set_and_read 0 = Set_store 7 1" "writes_array (sys_pc set_and_read 0)" by (simp_all add: set_and_read_def)
  have c: "0 < (128 :: nat)" "8 * (128 :: nat) < 18446744073709551616" by simp_all
  from ht_status_exclusion [OF set_and_read_reach c] p show ?thesis by (metis zero_neq_one)
qed

text \<open>A thread that finds no reader and no bucket in the iterator list grows the table.\<close>

lemma grow_alone:
  assumes "ht_reach n0 0 s" and "sys_max s = 0" and "sys_pc s t = Out" and "sys_status s = 3" and "sys_lock s = None" and "sys_iter s = []"
    and "16 * sys_size s < 18446744073709551616" and "sys_arrays s (sys_items s) \<noteq> None" and "sys_items s < sys_fresh s"
  shows "ht_reach n0 0 (s\<lparr>sys_size := 2 * sys_size s, sys_items := sys_fresh s, sys_fresh := Suc (sys_fresh s),
    sys_arrays := (sys_arrays s)(sys_fresh s \<mapsto> replicate (2 * sys_size s) None, sys_items s := None)\<rparr>)"
proof -
  let ?a = "sys_fresh s" and ?n = "2 * sys_size s" and ?o = "sys_items s"
  have gr: "grown x = 2 * sys_size x" if "sys_size x = sys_size s" "sys_max x = 0" for x using that assms(7) by (simp add: grown_def)
  define s1 where "s1 = s\<lparr>sys_status := 2, sys_pc := (sys_pc s)(t := Grow_check)\<rparr>"
  define s2 where "s2 = s1\<lparr>sys_arrays := (sys_arrays s)(?a \<mapsto> replicate ?n None), sys_fresh := Suc ?a, sys_pc := (sys_pc s)(t := Grow_lock ?a ?n)\<rparr>"
  define s3 where "s3 = s2\<lparr>sys_lock := Some t, sys_pc := (sys_pc s)(t := Grow_swap ?a ?n)\<rparr>"
  define s4 where "s4 = s3\<lparr>sys_items := ?a, sys_pc := (sys_pc s)(t := Grow_resize ?o ?a ?n)\<rparr>"
  define s5 where "s5 = s4\<lparr>sys_size := ?n, sys_pc := (sys_pc s)(t := Grow_loop ?o ?a ?n [])\<rparr>"
  define s6 where "s6 = s5\<lparr>sys_iter := [], sys_pc := (sys_pc s)(t := Grow_unlock ?o)\<rparr>"
  define s7 where "s7 = s6\<lparr>sys_lock := None, sys_pc := (sys_pc s)(t := Grow_reset (Some ?o))\<rparr>"
  define s8 where "s8 = s7\<lparr>sys_status := 3, sys_pc := (sys_pc s)(t := Grow_free ?o)\<rparr>"
  note d = s1_def s2_def s3_def s4_def s5_def s6_def s7_def s8_def goto_def
  have 0: "ht_reach n0 0 (goto t Grow_try s)" by (rule reach_grow [OF assms(1) grow_begin]) (simp add: assms)
  have 1: "ht_reach n0 0 s1" using reach_grow [OF 0 grow_claim [of _ t]] assms(4) by (simp add: d)
  have 2: "ht_reach n0 0 s2" using reach_grow [OF 1 grow_alloc [of _ t]] gr [of s1] assms(2,7) by (simp add: d)
  have 3: "ht_reach n0 0 s3" using reach_grow [OF 2 grow_lock [of _ t ?a ?n]] assms(5) by (simp add: d)
  have 4: "ht_reach n0 0 s4" using reach_grow [OF 3 grow_swap [of _ t ?a ?n]] by (simp add: d)
  have 5: "ht_reach n0 0 s5" using reach_grow [OF 4 grow_resize [of _ t ?o ?a ?n]] by (simp add: d)
  have 6: "ht_reach n0 0 s6" using reach_grow [OF 5 grow_iter [of _ t ?o ?a ?n "[]"]] assms(6) by (simp add: d)
  have 7: "ht_reach n0 0 s7" using reach_grow [OF 6 grow_unlock [of _ t ?o]] by (simp add: d)
  have 8: "ht_reach n0 0 s8" using reach_grow [OF 7 grow_reset [of _ t "Some ?o"]] by (simp add: d give_back_def)
  have e: "s8\<lparr>sys_arrays := (sys_arrays s8)(?o := None), sys_pc := (sys_pc s8)(t := Out)\<rparr> = s\<lparr>sys_size := ?n, sys_items := ?a, sys_fresh := Suc ?a,
    sys_arrays := (sys_arrays s)(?a \<mapsto> replicate ?n None, ?o := None)\<rparr>"
    using assms(3-6) fun_upd_idem [of "sys_pc s" t Out] by (cases s) (simp add: d)
  show ?thesis using reach_grow [OF 8 grow_free [of _ t ?o]] assms(8,9) e by (simp add: d)
qed

text \<open>
  \<open>ht_get_list\<close> computes the index of the bucket before it counts itself in, and does not compute it again:
  when the table grows in between, the thread reads a bucket that is not the one of its hash value.
\<close>

lemma ht_stale_index:
  "\<exists>s. ht_reach 128 0 s \<and> sys_pc s 0 = Read_items (unat (128 :: 32 word) mod 128) 4 \<and> sys_size s = 256 \<and>
     unat (128 :: 32 word) mod 128 \<noteq> unat (128 :: 32 word) mod sys_size s"
proof -
  let ?s = "ht_start 128 0"
  let ?t = "?s\<lparr>sys_pc := (\<lambda>_. Out)(0 := Read_first 0)\<rparr>"
  have h: "unat (128 :: 32 word) mod 128 = 0" "unat (128 :: 32 word) mod 256 = 128" by simp_all
  have 0: "ht_reach 128 0 ?t"
    using reach_read [OF start read_begin [of ?s 0 128]] h by (simp add: ht_start_def goto_def)
  from grow_alone [OF 0, of 1] have 1: "ht_reach 128 0 (?t\<lparr>sys_size := 256, sys_items := 1, sys_fresh := 2,
      sys_arrays := [0 \<mapsto> replicate 128 None, 1 \<mapsto> replicate 256 None](0 := None)\<rparr>)"
    by (simp add: ht_start_def numeral_2_eq_2)
  have 2: "ht_reach 128 0 (?s\<lparr>sys_status := 4, sys_size := 256, sys_items := 1, sys_fresh := 2,
      sys_arrays := [0 \<mapsto> replicate 128 None, 1 \<mapsto> replicate 256 None](0 := None), sys_pc := (\<lambda>_. Out)(0 := Read_items 0 4)\<rparr>)"
    using reach_read [OF 1 first_ok [of _ 0 0]] by (simp add: ht_start_def goto_def)
  show ?thesis by (intro exI conjI, rule 2) (simp_all add: h)
qed

text \<open>
  \<open>ht_set_list\<close> puts the word back before it registers the new list in the iterator list: when the table grows
  in between, the new array has no slot for the list, and the item that the thread adds to it cannot be found.
\<close>

lemma ht_list_lost:
  "\<exists>s l. ht_reach 128 0 s \<and> sys_pc s 0 = Set_lock l 7 \<and> sys_arrays s (sys_items s) = Some (replicate 256 None)"
proof -
  let ?s = "ht_start 128 0"
  have h: "unat (7 :: 32 word) mod 128 = 7" by simp
  let ?u = "?s\<lparr>sys_fresh := 2, sys_arrays := [0 \<mapsto> (replicate 128 None)[7 := Some 1]]\<rparr>"
  have 0: "ht_reach 128 0 (?s\<lparr>sys_pc := (\<lambda>_. Out)(0 := Set_try 7)\<rparr>)"
    using reach_set [OF start set_begin [of _ 0 7]] by (simp add: ht_start_def goto_def)
  have 1: "ht_reach 128 0 (?s\<lparr>sys_status := 1, sys_pc := (\<lambda>_. Out)(0 := Set_look 7)\<rparr>)"
    using reach_set [OF 0 set_claim [of _ 0 7]] by (simp add: ht_start_def goto_def)
  have 2: "ht_reach 128 0 (?s\<lparr>sys_status := 1, sys_fresh := 2, sys_pc := (\<lambda>_. Out)(0 := Set_store 7 1)\<rparr>)"
    using reach_set [OF 1 set_look [of _ 0 7]] h by (simp add: ht_start_def goto_def slot_ok_def slot_def numeral_2_eq_2)
  have 3: "ht_reach 128 0 (?u\<lparr>sys_status := 1, sys_pc := (\<lambda>_. Out)(0 := Set_reset (Some (1, 7)))\<rparr>)"
    using reach_set [OF 2 set_store [of _ 0 7 1]] by (simp add: ht_start_def goto_def put_slot_def slot_ok_def)
  have 4: "ht_reach 128 0 (?u\<lparr>sys_pc := (\<lambda>_. Out)(0 := Set_lock 1 7)\<rparr>)"
    using reach_set [OF 3 set_reset [of _ 0 "Some (1, 7)"]] by (simp add: ht_start_def goto_def give_back_def)
  from grow_alone [OF 4, of 1] show ?thesis
    by (intro exI conjI) (auto simp: ht_start_def)
qed

end
