(* ===== verification/Comparators.thy ===== *)
theory Comparators
  imports Prelude
begin

text \<open>
  The key comparators of \<open>comparators.h\<close>, which the trees, the heaps and the skip list are
  created with. All of them are instances of one macro: keys of different sizes, or too small for the type, are
  compared by their sizes, the others by the difference of the values, converted to \<open>int\<close>.
  Keys are the bytes a pointer designates, in little-endian order; to read past them is undefined,
  as is an overflow of a signed subtraction. The comparators for \<open>float\<close> and \<open>double\<close> are
  not modelled.

  The locale \<open>key_order\<close> is what a sort or a search needs of a comparator on a set of keys. The
  16-bit comparators are instances of it; the wider ones are not, since the conversion to \<open>int\<close>
  loses the sign of the difference.
\<close>

section \<open>The comparators\<close>

text \<open>The type \<open>libhl_cmp_callback_t\<close>.\<close>

type_synonym cmp_callback = "byte list \<Rightarrow> nat \<Rightarrow> byte list \<Rightarrow> nat \<Rightarrow> int option"

text \<open>\<open>memcmp\<close> of the first \<open>n\<close> bytes of two blocks.\<close>

definition memcmp_n :: "byte list \<Rightarrow> byte list \<Rightarrow> nat \<Rightarrow> int option" where
  "memcmp_n k1 k2 n = (if n \<le> length k1 \<and> n \<le> length k2 then Some (memcmp (take n k1) (take n k2)) else None)"

datatype key_type = Int16 | Int32 | Int64 | Uint16 | Uint32 | Uint64

definition type_size :: "key_type \<Rightarrow> nat" where
  "type_size t = (case t of Int16 \<Rightarrow> 2 | Uint16 \<Rightarrow> 2 | Int32 \<Rightarrow> 4 | Uint32 \<Rightarrow> 4 | Int64 \<Rightarrow> 8 | Uint64 \<Rightarrow> 8)"

fun le_bytes :: "byte list \<Rightarrow> int" where
  "le_bytes [] = 0"
| "le_bytes (b # bs) = uint b + 256 * le_bytes bs"

definition key_value :: "key_type \<Rightarrow> byte list \<Rightarrow> int" where
  "key_value t k = (let v = le_bytes (take (type_size t) k) in
     case t of Int16 \<Rightarrow> signed_take_bit 15 v | Int32 \<Rightarrow> signed_take_bit 31 v | Int64 \<Rightarrow> signed_take_bit 63 v | _ \<Rightarrow> v)"

text \<open>
  \<open>return _k1i - _k2i\<close>: the 16-bit types are promoted to \<open>int\<close>, the unsigned subtractions wrap
  around, and the result is converted to \<open>int\<close>.
\<close>

definition key_difference :: "key_type \<Rightarrow> int \<Rightarrow> int \<Rightarrow> int option" where
  "key_difference t a b = (case t of
     Int16 \<Rightarrow> Some (a - b) | Uint16 \<Rightarrow> Some (a - b)
   | Int32 \<Rightarrow> ck (a - b)
   | Uint32 \<Rightarrow> Some (signed_take_bit 31 (a - b))
   | Int64 \<Rightarrow> (if - 9223372036854775808 \<le> a - b \<and> a - b \<le> 9223372036854775807
              then Some (signed_take_bit 31 (a - b)) else None)
   | Uint64 \<Rightarrow> Some (signed_take_bit 31 (a - b)))"

definition cmp_keys_type :: "key_type \<Rightarrow> byte list \<Rightarrow> nat \<Rightarrow> byte list \<Rightarrow> nat \<Rightarrow> int option" where
  "cmp_keys_type t k1 k1s k2 k2s =
     (if k1s < type_size t \<or> k2s < type_size t \<or> k1s \<noteq> k2s then Some (signed_take_bit 31 (int k1s - int k2s))
      else if length k1 < type_size t \<or> length k2 < type_size t then None
      else key_difference t (key_value t k1) (key_value t k2))"

definition libhl_cmp_keys_int16 :: "byte list \<Rightarrow> nat \<Rightarrow> byte list \<Rightarrow> nat \<Rightarrow> int option" where
  "libhl_cmp_keys_int16 = cmp_keys_type Int16"

definition libhl_cmp_keys_int32 :: "byte list \<Rightarrow> nat \<Rightarrow> byte list \<Rightarrow> nat \<Rightarrow> int option" where
  "libhl_cmp_keys_int32 = cmp_keys_type Int32"

definition libhl_cmp_keys_int64 :: "byte list \<Rightarrow> nat \<Rightarrow> byte list \<Rightarrow> nat \<Rightarrow> int option" where
  "libhl_cmp_keys_int64 = cmp_keys_type Int64"

definition libhl_cmp_keys_uint16 :: "byte list \<Rightarrow> nat \<Rightarrow> byte list \<Rightarrow> nat \<Rightarrow> int option" where
  "libhl_cmp_keys_uint16 = cmp_keys_type Uint16"

definition libhl_cmp_keys_uint32 :: "byte list \<Rightarrow> nat \<Rightarrow> byte list \<Rightarrow> nat \<Rightarrow> int option" where
  "libhl_cmp_keys_uint32 = cmp_keys_type Uint32"

definition libhl_cmp_keys_uint64 :: "byte list \<Rightarrow> nat \<Rightarrow> byte list \<Rightarrow> nat \<Rightarrow> int option" where
  "libhl_cmp_keys_uint64 = cmp_keys_type Uint64"

section \<open>Orders\<close>

text \<open>
  What a comparator has to be on the keys \<open>K\<close>: the sign of the result changes with the order of
  the arguments, and not to be smaller is transitive.
\<close>

locale key_order =
  fixes cmp :: "'a \<Rightarrow> 'a \<Rightarrow> int" and K :: "'a set"
  assumes cmp_sign: "x \<in> K \<Longrightarrow> y \<in> K \<Longrightarrow> cmp x y < 0 \<longleftrightarrow> 0 < cmp y x"
    and cmp_trans: "x \<in> K \<Longrightarrow> y \<in> K \<Longrightarrow> z \<in> K \<Longrightarrow> 0 \<le> cmp x y \<Longrightarrow> 0 \<le> cmp y z \<Longrightarrow> 0 \<le> cmp x z"
begin

definition descending :: "'a list \<Rightarrow> bool" where
  "descending vs \<longleftrightarrow> sorted_wrt (\<lambda>x y. 0 \<le> cmp x y) vs"

lemma cmp_flip: "x \<in> K \<Longrightarrow> y \<in> K \<Longrightarrow> cmp x y \<le> 0 \<longleftrightarrow> 0 \<le> cmp y x"
  using cmp_sign [of y x] by linarith

lemma cmp_refl: "x \<in> K \<Longrightarrow> cmp x x = 0"
  using cmp_sign [of x x] by linarith

text \<open>Keys that compare equal cannot be told apart by the comparator.\<close>

lemma cmp_equal:
  assumes "x \<in> K" and "y \<in> K" and "z \<in> K" and "cmp x y = 0"
  shows "0 \<le> cmp x z \<longleftrightarrow> 0 \<le> cmp y z"
  using assms cmp_trans [of x y z] cmp_trans [of y x z] cmp_flip [of x y] by auto

lemma descending_simps: "descending []" "descending [v]"
  by (simp_all add: descending_def)

lemma descending_two:
  "v \<in> K \<Longrightarrow> w \<in> K \<Longrightarrow> \<not> cmp v w < 0 \<Longrightarrow> descending [v, w]"
  "v \<in> K \<Longrightarrow> w \<in> K \<Longrightarrow> cmp v w < 0 \<Longrightarrow> descending [w, v]"
  using cmp_sign [of v w] by (simp_all add: descending_def)

lemma descending_join:
  assumes "descending vs" and "descending ws" and "\<forall>v\<in>set vs. 0 \<le> cmp v pv" and "\<forall>w\<in>set ws. cmp w pv \<le> 0"
    and "set vs \<subseteq> K" and "set ws \<subseteq> K" and "pv \<in> K"
  shows "descending (vs @ pv # ws)"
proof -
  have "0 \<le> cmp pv w" if "w \<in> set ws" for w using assms(4,6,7) cmp_flip [of w pv] that by auto
  moreover have "0 \<le> cmp v w" if "v \<in> set vs" "w \<in> set ws" for v w
    using assms(3,5-7) calculation that cmp_trans [of v pv w] by blast
  ultimately show ?thesis using assms(1-3) by (auto simp: descending_def sorted_wrt_append)
qed

lemma descending_nth: "descending vs \<Longrightarrow> i < j \<Longrightarrow> j < length vs \<Longrightarrow> 0 \<le> cmp (vs ! i) (vs ! j)"
  by (simp add: descending_def sorted_wrt_iff_nth_less)

end

text \<open>The comparison of two whole keys, whose sizes are passed along with them.\<close>

definition cmp_keys :: "(byte list \<Rightarrow> nat \<Rightarrow> byte list \<Rightarrow> nat \<Rightarrow> int option) \<Rightarrow> byte list \<Rightarrow> byte list \<Rightarrow> int" where
  "cmp_keys cmp k1 k2 = the (cmp k1 (length k1) k2 (length k2))"

definition small_keys :: "byte list set" where
  "small_keys = {k. length k < 2147483648}"

lemma size_difference:
  "length k1 < 2147483648 \<Longrightarrow> length k2 < 2147483648 \<Longrightarrow>
     signed_take_bit 31 (int (length k1) - int (length k2)) = int (length k1) - int (length k2)"
  by (simp add: signed_take_bit_int_eq_self_iff)

lemma cmp_keys_16:
  assumes "k1 \<in> small_keys" and "k2 \<in> small_keys" and "t = Int16 \<or> t = Uint16"
  shows "cmp_keys_type t k1 (length k1) k2 (length k2) =
    Some (if length k1 \<noteq> length k2 \<or> length k1 < 2 then int (length k1) - int (length k2)
          else key_value t k1 - key_value t k2)"
  using assms size_difference [of k1 k2]
  by (auto simp: cmp_keys_type_def key_difference_def type_size_def small_keys_def)

lemma key_order_16:
  assumes "t = Int16 \<or> t = Uint16"
  shows "key_order (cmp_keys (cmp_keys_type t)) small_keys"
  by unfold_locales (use assms in \<open>auto simp: cmp_keys_def cmp_keys_16 split: if_splits\<close>)

interpretation int16: key_order "cmp_keys libhl_cmp_keys_int16" small_keys
  unfolding libhl_cmp_keys_int16_def by (rule key_order_16) simp

interpretation uint16: key_order "cmp_keys libhl_cmp_keys_uint16" small_keys
  unfolding libhl_cmp_keys_uint16_def by (rule key_order_16) simp

lemma le_bytes_bounds: "0 \<le> le_bytes bs \<and> le_bytes bs < 256 ^ length bs"
proof (induction bs)
  case (Cons b bs)
  have "0 \<le> uint b" "uint b < 256" using uint_bounded [of b] by simp_all
  then show ?case using Cons.IH by simp
qed simp

lemma digit_unique:
  fixes a c x y :: int
  assumes "0 \<le> a" and "a < 256" and "0 \<le> c" and "c < 256"
  shows "a + 256 * x = c + 256 * y \<longleftrightarrow> a = c \<and> x = y"
proof -
  have m: "(a + 256 * x) mod 256 = a" "(c + 256 * y) mod 256 = c" using assms by (simp_all add: mod_pos_pos_trivial)
  have "a = c" if "a + 256 * x = c + 256 * y" using m unfolding that by simp
  then show ?thesis by auto
qed

lemma le_bytes_inj: "length bs = length cs \<Longrightarrow> le_bytes bs = le_bytes cs \<longleftrightarrow> bs = cs"
proof (induction bs cs rule: list_induct2)
  case (Cons b bs c cs)
  have "0 \<le> uint b" "uint b < 256" "0 \<le> uint c" "uint c < 256" using uint_bounded [of b] uint_bounded [of c] by simp_all
  then have "uint b + 256 * le_bytes bs = uint c + 256 * le_bytes cs \<longleftrightarrow> uint b = uint c \<and> le_bytes bs = le_bytes cs"
    by (rule digit_unique)
  then show ?case using Cons.IH by (simp add: word_uint_eq_iff)
qed simp

lemma key_value_16_inj:
  assumes "2 \<le> length k1" and "2 \<le> length k2" and "t = Int16 \<or> t = Uint16"
  shows "key_value t k1 = key_value t k2 \<longleftrightarrow> take 2 k1 = take 2 k2"
proof -
  have b: "0 \<le> le_bytes (take 2 k)" "le_bytes (take 2 k) < 65536" if "2 \<le> length k" for k
    using le_bytes_bounds [of "take 2 k"] that by (simp_all add: min_absorb2)
  have "signed_take_bit 15 (le_bytes (take 2 k1)) = signed_take_bit 15 (le_bytes (take 2 k2)) \<longleftrightarrow>
      le_bytes (take 2 k1) = le_bytes (take 2 k2)"
    using b [OF assms(1)] b [OF assms(2)] by (simp add: signed_take_bit_eq_iff_take_bit_eq take_bit_eq_mod)
  then show ?thesis using assms le_bytes_inj [of "take 2 k1" "take 2 k2"]
    by (auto simp: key_value_def type_size_def Let_def min_def)
qed

section \<open>Properties\<close>

text \<open>
  Two keys of the same size that hold a value of the type are compared by the exact
  difference of their values, for every integer type, as long as the difference fits an \<open>int\<close>.
\<close>

theorem cmp_keys_exact:
  assumes "type_size t \<le> length k1" and "length k2 = length k1" and "int_ok (key_value t k1 - key_value t k2)"
  shows "cmp_keys_type t k1 (length k1) k2 (length k2) = Some (key_value t k1 - key_value t k2)"
proof -
  have "signed_take_bit 31 (key_value t k1 - key_value t k2) = key_value t k1 - key_value t k2"
    using assms(3) by (simp add: int_ok_def signed_take_bit_int_eq_self_iff)
  then show ?thesis using assms
    by (cases t) (simp_all add: cmp_keys_type_def key_difference_def ck_def int_ok_def)
qed

lemma four_Suc: "(4::nat) = Suc (Suc (Suc (Suc 0)))" "(2::nat) = Suc (Suc 0)"
  by simp_all

text \<open>The hypotheses of \<open>cmp_keys_exact\<close> hold for two keys of a 32-bit type.\<close>

theorem cmp_keys_exact_witness:
  "cmp_keys_type Int32 [255, 255, 255, 255] 4 [2, 0, 0, 0] 4 = Some (- 3)"
  unfolding four_Suc(1)
  using cmp_keys_exact [of Int32 "[255, 255, 255, 255]" "[2, 0, 0, 0]"]
  by (simp add: type_size_def key_value_def int_ok_def Let_def)

text \<open>
  \<open>C37\<close>: the 16-bit comparators keep what \<open>comparators.h\<close> says of a comparator, for keys of the size of the type. Two such keys
  are compared by the exact difference of their values, without an overflow, and the result is 0 exactly if the keys
  are the same; keys of different sizes below \<open>2 ^ 31\<close> are compared by the difference of their sizes, whatever they hold.
\<close>

theorem cmp_keys_16_order:
  assumes "cmp = libhl_cmp_keys_int16 \<and> t = Int16 \<or> cmp = libhl_cmp_keys_uint16 \<and> t = Uint16"
    and "length x = 2" and "length y = 2" and "length a < 2147483648" and "length b < 2147483648" and "length a \<noteq> length b"
  shows "cmp x 2 y 2 = Some (key_value t x - key_value t y) \<and> (cmp x 2 y 2 = Some 0 \<longleftrightarrow> x = y) \<and>
    cmp a (length a) b (length b) = Some (int (length a) - int (length b))"
proof -
  have t: "t = Int16 \<or> t = Uint16" "cmp = cmp_keys_type t"
    using assms(1) by (auto simp: libhl_cmp_keys_int16_def libhl_cmp_keys_uint16_def)
  have s: "x \<in> small_keys" "y \<in> small_keys" "a \<in> small_keys" "b \<in> small_keys" using assms by (simp_all add: small_keys_def)
  have v: "cmp x 2 y 2 = Some (key_value t x - key_value t y)" using cmp_keys_16 [OF s(1,2) t(1)] assms(2,3) by (simp add: t(2))
  moreover have "key_value t x = key_value t y \<longleftrightarrow> x = y" using key_value_16_inj [OF _ _ t(1), of x y] assms(2,3) by simp
  moreover have "cmp a (length a) b (length b) = Some (int (length a) - int (length b))" using cmp_keys_16 [OF s(3,4) t(1)] assms(6) by (simp add: t(2))
  ultimately show ?thesis by simp
qed

text \<open>The hypotheses of \<open>cmp_keys_16_order\<close> hold for two keys with the values \<open>- 32768\<close> and 1 and for two sizes.\<close>

theorem cmp_keys_16_order_witness:
  "libhl_cmp_keys_int16 [0, 128] 2 [1, 0] 2 = Some (- 32769) \<and> libhl_cmp_keys_int16 [9] 1 [1, 0] 2 = Some (- 1)"
proof -
  have "key_value Int16 [0, 128] = - 32768" "key_value Int16 [1, 0] = 1" by code_simp+
  moreover have "length [0 :: byte, 128] = 2" "length [1 :: byte, 0] = 2" "length [9 :: byte] = 1" by simp_all
  ultimately show ?thesis using cmp_keys_16_order [of libhl_cmp_keys_int16 Int16 "[0, 128]" "[1, 0]" "[9]" "[1, 0]"] by (simp del: list.size)
qed

section \<open>Keys of other sizes\<close>

text \<open>
  Keys that are shorter than the type are not read at all, and of longer keys only the first bytes: different keys of the same
  size compare equal, which \<open>comparators.h\<close> excludes.
\<close>

lemma cmp_16_short_and_long:
  "libhl_cmp_keys_int16 [1] 1 [2] 1 = Some 0" "libhl_cmp_keys_int16 [1, 0, 5] 3 [1, 0, 6] 3 = Some 0"
  by (simp_all add: libhl_cmp_keys_int16_def cmp_keys_type_def type_size_def key_difference_def key_value_def Let_def)

section \<open>What the wider comparators do\<close>

text \<open>
  The wider comparators are no orders: the difference of two \<open>uint32_t\<close> keys can have the wrong sign,
  two different \<open>uint64_t\<close> or \<open>int64_t\<close> keys can compare equal, and the difference of two
  \<open>int32_t\<close> keys can overflow.
\<close>

lemmas cmp_eval = cmp_keys_type_def type_size_def key_value_def key_difference_def Let_def

lemma cmp_uint32_sign: "libhl_cmp_keys_uint32 [0, 0, 0, 0] 4 [1, 0, 0, 128] 4 = Some 2147483647"
  by (simp add: libhl_cmp_keys_uint32_def cmp_eval)

lemma cmp_64_equal:
  "libhl_cmp_keys_uint64 [0, 0, 0, 0, 1, 0, 0, 0] 8 [0, 0, 0, 0, 0, 0, 0, 0] 8 = Some 0"
  "libhl_cmp_keys_int64 [0, 0, 0, 0, 1, 0, 0, 0] 8 [0, 0, 0, 0, 0, 0, 0, 0] 8 = Some 0"
  by (simp_all add: libhl_cmp_keys_uint64_def libhl_cmp_keys_int64_def cmp_eval)

lemma cmp_int32_overflow: "libhl_cmp_keys_int32 [255, 255, 255, 127] 4 [255, 255, 255, 255] 4 = None"
  by (simp add: libhl_cmp_keys_int32_def cmp_eval ck_def int_ok_def)

end
