(* ===== verification/List_Sort.thy ===== *)
theory List_Sort
  imports Linklist_Spec Comparators "HOL-Library.Multiset"
begin

text \<open>
  \<open>list_sort\<close> of \<open>linklist.c\<close>: a quick sort in place on the doubly linked entries. Two
  pointers walk towards the pivot; where both stop at an entry the values are swapped, and when one
  of them has reached the pivot the entry of the other one is moved to the other side of it. The
  comparator is a callback of the caller, with the order it has to implement as the locale
  \<open>key_order\<close>; the sort is shown to end with the values in descending order and nothing lost.
\<close>

section \<open>The sort\<close>

definition swap_entry_node_val :: "nat option \<Rightarrow> nat option \<Rightarrow> ('v, 'z) list_mem_scheme \<Rightarrow> ('v, 'z) list_mem_scheme option" where
  "swap_entry_node_val p1 p2 m =
     (if p1 = None \<or> p2 = None then Some m
      else do {
        e1 \<leftarrow> entry_at m p1;
        e2 \<leftarrow> entry_at m p2;
        m \<leftarrow> set_entry p1 (\<lambda>e. e\<lparr>le_value := le_value e2\<rparr>) m;
        set_entry p2 (\<lambda>e. e\<lparr>le_value := le_value e1\<rparr>) m
      })"

text \<open>The two loops that skip what is already on its side of the pivot.\<close>

partial_function (option) scan_right ::
  "('v option \<Rightarrow> 'v option \<Rightarrow> int) \<Rightarrow> ('v, 'z) list_mem_scheme \<Rightarrow> nat option \<Rightarrow> 'v option \<Rightarrow> nat option \<Rightarrow> nat option option" where
  "scan_right comparator m pivot pvalue p1 =
     (if p1 = None \<or> p1 = pivot then Some p1
      else do {
        e \<leftarrow> entry_at m p1;
        if comparator (le_value e) pvalue > 0 then scan_right comparator m pivot pvalue (le_next e) else Some p1
      })"

partial_function (option) scan_left ::
  "('v option \<Rightarrow> 'v option \<Rightarrow> int) \<Rightarrow> ('v, 'z) list_mem_scheme \<Rightarrow> nat option \<Rightarrow> 'v option \<Rightarrow> nat option \<Rightarrow> nat option option" where
  "scan_left comparator m pivot pvalue p2 =
     (if p2 = None \<or> p2 = pivot then Some p2
      else do {
        e \<leftarrow> entry_at m p2;
        if comparator (le_value e) pvalue < 0 then scan_left comparator m pivot pvalue (le_prev e) else Some p2
      })"

text \<open>
  The branch \<open>p1 == pivot\<close>: \<open>p2\<close> is taken out and linked in before the pivot. The result is the
  memory with the new \<open>head\<close>, \<open>tail\<close> and \<open>p2\<close>.
\<close>

definition move_before_pivot ::
  "('v, 'z) list_mem_scheme \<Rightarrow> nat option \<Rightarrow> nat option \<Rightarrow> nat option \<Rightarrow> nat option \<Rightarrow>
   (('v, 'z) list_mem_scheme \<times> nat option \<times> nat option \<times> nat option) option" where
  "move_before_pivot m pivot head tail p2 = do {
     P2 \<leftarrow> entry_at m p2;
     m \<leftarrow> set_entry_opt (le_prev P2) (\<lambda>e. e\<lparr>le_next := le_next P2\<rparr>) m;
     P2 \<leftarrow> entry_at m p2;
     m \<leftarrow> set_entry_opt (le_next P2) (\<lambda>e. e\<lparr>le_prev := le_prev P2\<rparr>) m;
     PV \<leftarrow> entry_at m pivot;
     m \<leftarrow> (if le_prev PV \<noteq> None then set_entry (le_prev PV) (\<lambda>e. e\<lparr>le_next := p2\<rparr>) m
           else do {
             l \<leftarrow> le_list PV;
             L \<leftarrow> lm_lists m l;
             Some (if pivot = ll_head L then set_list l (L\<lparr>ll_head := p2\<rparr>) m else m)
           });
     PV \<leftarrow> entry_at m pivot;
     P2 \<leftarrow> entry_at m p2;
     l \<leftarrow> le_list PV;
     L \<leftarrow> lm_lists m l;
     let m = (if p2 = ll_tail L then set_list l (L\<lparr>ll_tail := le_prev P2\<rparr>) m else m);
     let tmp = le_prev P2;
     m \<leftarrow> set_entry p2 (\<lambda>e. e\<lparr>le_prev := le_prev PV\<rparr>) m;
     m \<leftarrow> set_entry pivot (\<lambda>e. e\<lparr>le_prev := p2\<rparr>) m;
     P2 \<leftarrow> entry_at m p2;
     m \<leftarrow> set_entry_opt (le_prev P2) (\<lambda>e. e\<lparr>le_next := p2\<rparr>) m;
     m \<leftarrow> set_entry p2 (\<lambda>e. e\<lparr>le_next := pivot\<rparr>) m;
     let head = (if pivot = head then p2 else head);
     let tail = (if p2 = tail then tmp else tail);
     Some (m, head, tail, tmp)
   }"

text \<open>The branch \<open>p2 == pivot\<close>, with \<open>p1\<close> moved behind the pivot.\<close>

definition move_behind_pivot ::
  "('v, 'z) list_mem_scheme \<Rightarrow> nat option \<Rightarrow> nat option \<Rightarrow> nat option \<Rightarrow> nat option \<Rightarrow>
   (('v, 'z) list_mem_scheme \<times> nat option \<times> nat option \<times> nat option) option" where
  "move_behind_pivot m pivot head tail p1 = do {
     P1 \<leftarrow> entry_at m p1;
     m \<leftarrow> set_entry_opt (le_prev P1) (\<lambda>e. e\<lparr>le_next := le_next P1\<rparr>) m;
     P1 \<leftarrow> entry_at m p1;
     m \<leftarrow> set_entry_opt (le_next P1) (\<lambda>e. e\<lparr>le_prev := le_prev P1\<rparr>) m;
     PV \<leftarrow> entry_at m pivot;
     m \<leftarrow> (if le_next PV \<noteq> None then set_entry (le_next PV) (\<lambda>e. e\<lparr>le_prev := p1\<rparr>) m
           else do {
             l \<leftarrow> le_list PV;
             L \<leftarrow> lm_lists m l;
             Some (if pivot = ll_tail L then set_list l (L\<lparr>ll_tail := p1\<rparr>) m else m)
           });
     PV \<leftarrow> entry_at m pivot;
     P1 \<leftarrow> entry_at m p1;
     l \<leftarrow> le_list PV;
     L \<leftarrow> lm_lists m l;
     let m = (if p1 = ll_head L then set_list l (L\<lparr>ll_head := le_next P1\<rparr>) m else m);
     let tmp = le_next P1;
     m \<leftarrow> set_entry p1 (\<lambda>e. e\<lparr>le_next := le_next PV\<rparr>) m;
     m \<leftarrow> set_entry pivot (\<lambda>e. e\<lparr>le_next := p1\<rparr>) m;
     P1 \<leftarrow> entry_at m p1;
     m \<leftarrow> set_entry_opt (le_next P1) (\<lambda>e. e\<lparr>le_prev := p1\<rparr>) m;
     m \<leftarrow> set_entry p1 (\<lambda>e. e\<lparr>le_prev := pivot\<rparr>) m;
     let tail = (if pivot = tail then p1 else tail);
     let head = (if p1 = head then tmp else head);
     Some (m, head, tail, tmp)
   }"

text \<open>The \<open>for (;;)\<close> loop; it gives the memory and the ends of the range, which the moves may change.\<close>

partial_function (option) partition_loop ::
  "('v option \<Rightarrow> 'v option \<Rightarrow> int) \<Rightarrow> ('v, 'z) list_mem_scheme \<Rightarrow> nat option \<Rightarrow> 'v option \<Rightarrow>
   nat option \<Rightarrow> nat option \<Rightarrow> nat option \<Rightarrow> nat option \<Rightarrow>
   (('v, 'z) list_mem_scheme \<times> nat option \<times> nat option) option" where
  "partition_loop comparator m pivot pvalue head tail p1 p2 = do {
     p1 \<leftarrow> scan_right comparator m pivot pvalue p1;
     p2 \<leftarrow> scan_left comparator m pivot pvalue p2;
     if p1 = p2 \<or> p1 = None \<or> p2 = None then Some (m, head, tail)
     else if p1 = pivot then do {
       (m, head, tail, p2) \<leftarrow> move_before_pivot m pivot head tail p2;
       partition_loop comparator m pivot pvalue head tail p1 p2
     } else if p2 = pivot then do {
       (m, head, tail, p1) \<leftarrow> move_behind_pivot m pivot head tail p1;
       partition_loop comparator m pivot pvalue head tail p1 p2
     } else do {
       m \<leftarrow> swap_entry_node_val p1 p2 m;
       e1 \<leftarrow> entry_at m p1;
       e2 \<leftarrow> entry_at m p2;
       partition_loop comparator m pivot pvalue head tail (le_next e1) (le_prev e2)
     }
   }"

text \<open>The length of the part before the pivot, and the walks to the pivots of the two parts.\<close>

partial_function (option) count_to :: "('v, 'z) list_mem_scheme \<Rightarrow> nat option \<Rightarrow> nat option \<Rightarrow> int \<Rightarrow> int option" where
  "count_to m pivot p1 l1 =
     (if p1 = pivot then Some l1
      else do { e \<leftarrow> entry_at m p1; l1 \<leftarrow> ck (l1 + 1); count_to m pivot (le_next e) l1 })"

fun pivot_from_head :: "('v, 'z) list_mem_scheme \<Rightarrow> nat option \<Rightarrow> nat \<Rightarrow> nat option option" where
  "pivot_from_head m pv1 0 = Some pv1"
| "pivot_from_head m pv1 (Suc n) =
     (if pv1 = None then Some pv1
      else do {
        e \<leftarrow> entry_at m pv1;
        if le_next e = None then Some pv1 else pivot_from_head m (le_next e) n
      })"

fun pivot_from_tail :: "('v, 'z) list_mem_scheme \<Rightarrow> nat option \<Rightarrow> nat \<Rightarrow> nat option option" where
  "pivot_from_tail m pv2 0 = Some pv2"
| "pivot_from_tail m pv2 (Suc n) =
     (if pv2 = None then Some pv2
      else do {
        e \<leftarrow> entry_at m pv2;
        if le_prev e = None then Some pv2 else pivot_from_tail m (le_prev e) n
      })"

text \<open>
  The quick sort of the range from \<open>head\<close> to \<open>tail\<close>. The lengths are \<open>int\<close>s; half of a
  negative length is no step of a walk.
\<close>

partial_function (option) list_quick_sort ::
  "('v option \<Rightarrow> 'v option \<Rightarrow> int) \<Rightarrow> ('v, 'z) list_mem_scheme \<Rightarrow> nat option \<Rightarrow> nat option \<Rightarrow> nat option \<Rightarrow> int \<Rightarrow>
   ('v, 'z) list_mem_scheme option" where
  "list_quick_sort comparator m head tail pivot len =
     (if head = None \<or> tail = None \<or> pivot = None \<or> len < 2 then Some m
      else if len = 2 then do {
        h \<leftarrow> entry_at m head;
        t \<leftarrow> entry_at m tail;
        if comparator (le_value h) (le_value t) < 0 then swap_entry_node_val head tail m else Some m
      } else do {
        P \<leftarrow> entry_at m pivot;
        (m, head, tail) \<leftarrow> partition_loop comparator m pivot (le_value P) head tail head tail;
        l1 \<leftarrow> count_to m pivot head 0;
        l2 \<leftarrow> ck (len - (l1 + 1));
        pv1 \<leftarrow> pivot_from_head m head (nat (l1 div 2));
        pv2 \<leftarrow> pivot_from_tail m tail (nat (l2 div 2));
        P \<leftarrow> entry_at m pivot;
        m \<leftarrow> (if l1 > 1 \<and> le_prev P \<noteq> None \<and> head \<noteq> le_prev P
              then list_quick_sort comparator m head (le_prev P) pv1 l1 else Some m);
        P \<leftarrow> entry_at m pivot;
        if l2 > 1 \<and> le_next P \<noteq> None \<and> tail \<noteq> le_next P
        then list_quick_sort comparator m (le_next P) tail pv2 l2 else Some m
      })"

text \<open>
  \<open>list_sort\<close>: the position of the first pivot wraps around for a list of less than two values,
  and the length is truncated to an \<open>int\<close>.
\<close>

definition list_sort :: "('v option \<Rightarrow> 'v option \<Rightarrow> int) \<Rightarrow> ('v, 'z) list_mem_scheme \<Rightarrow> nat \<Rightarrow> ('v, 'z) list_mem_scheme option" where
  "list_sort comparator m l = do {
     L \<leftarrow> lm_lists m l;
     (pivot, m) \<leftarrow> pick_entry m l (dec64 (ll_length L div 2));
     L \<leftarrow> lm_lists m l;
     m \<leftarrow> list_quick_sort comparator m (ll_head L) (ll_tail L) pivot (to_int (ll_length L));
     L \<leftarrow> lm_lists m l;
     Some (set_list l (L\<lparr>ll_cur := None, ll_pos := 0\<rparr>) m)
   }"

section \<open>Moving entries\<close>

text \<open>
  The state during the sort: as \<open>list_at\<close>, without the cursor, which the moves leave behind, and
  with every entry knowing its list.
\<close>

definition owned :: "('v, 'z) list_mem_scheme \<Rightarrow> nat \<Rightarrow> (nat \<times> 'v option) list \<Rightarrow> bool" where
  "owned m l es \<longleftrightarrow> (\<forall>a\<in>addrs es. map_option le_list (lm_entries m a) = Some (Some l))"

definition sort_at :: "('v, 'z) list_mem_scheme \<Rightarrow> nat \<Rightarrow> (nat \<times> 'v option) list \<Rightarrow> bool" where
  "sort_at m l es \<longleftrightarrow>
     (\<exists>L. lm_lists m l = Some L \<and> ll_head L = first es None \<and> ll_tail L = final None es \<and> ll_length L = length es) \<and>
     entries_ok m es \<and> owned m l es"

definition sort_step :: "('v, 'z) list_mem_scheme \<Rightarrow> nat \<Rightarrow> (nat \<times> 'v option) list \<Rightarrow> ('v, 'z) list_mem_scheme \<Rightarrow> (nat \<times> 'v option) list \<Rightarrow> bool" where
  "sort_step m l es m' es' \<longleftrightarrow> sort_at m' l es' \<and> keeps m m' l (addrs es) \<and> lm_brk m' = lm_brk m \<and> addrs es' = addrs es"

lemma sort_step_refl: "sort_at m l es \<Longrightarrow> sort_step m l es m es"
  by (simp add: sort_step_def)

lemma sort_step_trans: "sort_step m l es m1 es1 \<Longrightarrow> sort_step m1 l es1 m2 es2 \<Longrightarrow> sort_step m l es m2 es2"
  by (auto simp: sort_step_def elim: keeps_trans)

text \<open>Changing one link of the entry a pointer names, if it is not NULL.\<close>

definition link_next :: "(nat \<rightharpoonup> 'v list_entry_t) \<Rightarrow> nat option \<Rightarrow> nat option \<Rightarrow> (nat \<rightharpoonup> 'v list_entry_t)" where
  "link_next h q n = (\<lambda>a. if q = Some a then map_option (\<lambda>e. e\<lparr>le_next := n\<rparr>) (h a) else h a)"

definition link_prev :: "(nat \<rightharpoonup> 'v list_entry_t) \<Rightarrow> nat option \<Rightarrow> nat option \<Rightarrow> (nat \<rightharpoonup> 'v list_entry_t)" where
  "link_prev h q n = (\<lambda>a. if q = Some a then map_option (\<lambda>e. e\<lparr>le_prev := n\<rparr>) (h a) else h a)"

lemma link_None [simp]: "link_next h None n = h" "link_prev h None n = h"
  by (auto simp: link_next_def link_prev_def)

lemma set_entry_link:
  "lm_entries m a \<noteq> None \<Longrightarrow> set_entry (Some a) (\<lambda>e. e\<lparr>le_next := n\<rparr>) m = Some (m\<lparr>lm_entries := link_next (lm_entries m) (Some a) n\<rparr>)"
  "lm_entries m a \<noteq> None \<Longrightarrow> set_entry (Some a) (\<lambda>e. e\<lparr>le_prev := n\<rparr>) m = Some (m\<lparr>lm_entries := link_prev (lm_entries m) (Some a) n\<rparr>)"
  by (auto simp: set_entry_def link_next_def link_prev_def fun_eq_iff intro!: arg_cong [of _ _ "\<lambda>h. m\<lparr>lm_entries := h\<rparr>"])

lemma set_entry_opt_link:
  "(\<And>a. q = Some a \<Longrightarrow> lm_entries m a \<noteq> None) \<Longrightarrow> set_entry_opt q (\<lambda>e. e\<lparr>le_next := n\<rparr>) m = Some (m\<lparr>lm_entries := link_next (lm_entries m) q n\<rparr>)"
  "(\<And>a. q = Some a \<Longrightarrow> lm_entries m a \<noteq> None) \<Longrightarrow> set_entry_opt q (\<lambda>e. e\<lparr>le_prev := n\<rparr>) m = Some (m\<lparr>lm_entries := link_prev (lm_entries m) q n\<rparr>)"
  by (cases q; simp add: set_entry_opt_def set_entry_link)+

lemma link_dom [simp]: "link_next h q n a = None \<longleftrightarrow> h a = None" "link_prev h q n a = None \<longleftrightarrow> h a = None"
  by (simp_all add: link_next_def link_prev_def)

lemma link_list [simp]: "map_option le_list (link_next h q n a) = map_option le_list (h a)"
  "map_option le_list (link_prev h q n a) = map_option le_list (h a)"
  by (auto simp: link_next_def link_prev_def option.map_comp o_def)

lemma link_outside: "q \<noteq> Some a \<Longrightarrow> link_next h q n a = h a" "q \<noteq> Some a \<Longrightarrow> link_prev h q n a = h a"
  by (auto simp: link_next_def link_prev_def)

lemma link_at: "link_next h (Some a) n a = map_option (\<lambda>e. e\<lparr>le_next := n\<rparr>) (h a)"
  "link_prev h (Some a) n a = map_option (\<lambda>e. e\<lparr>le_prev := n\<rparr>) (h a)"
  by (simp_all add: link_next_def link_prev_def)

text \<open>The link at an end of a segment, and the segments that do not have the entry.\<close>

lemma final_addr: "final None es = Some a \<Longrightarrow> a \<in> addrs es"
  by (cases es rule: rev_cases) auto

lemma first_addr: "first es None = Some a \<Longrightarrow> a \<in> addrs es"
  by (cases es) auto

lemma Some_image [simp]: "Some a \<in> Some ` S \<longleftrightarrow> a \<in> S"
  by auto

lemma dll_link_frame [simp]:
  "q \<notin> Some ` addrs es \<Longrightarrow> dll (link_next h q x) p es n = dll h p es n"
  "q \<notin> Some ` addrs es \<Longrightarrow> dll (link_prev h q x) p es n = dll h p es n"
  by (rule dll_cong, rule link_outside, blast)+

lemma dll_link_final:
  assumes "dll h p es n" and "distinct (map fst es)"
  shows "dll (link_next h (final None es) n') p es n'"
proof (cases es rule: rev_cases)
  case (snoc fs x)
  with assms show ?thesis by (cases x) (auto simp: link_at addrs_def)
qed simp

lemma dll_link_first:
  assumes "dll h p es n" and "distinct (map fst es)"
  shows "dll (link_prev h (first es None) p') p' es n"
proof (cases es)
  case (Cons x fs)
  with assms show ?thesis by (cases x) (auto simp: link_at addrs_def)
qed simp

lemma dll_end_alloc:
  "dll h p es n \<Longrightarrow> final None es = Some a \<Longrightarrow> h a \<noteq> None"
  "dll h p es n \<Longrightarrow> first es None = Some a \<Longrightarrow> h a \<noteq> None"
  by (auto dest: dll_alloc final_addr first_addr)


text \<open>
  The heap in the middle of a move of the entry \<open>x\<close>, which is between the segments \<open>U\<close> and \<open>C\<close>:
  every segment is linked in itself, \<open>u\<close> and \<open>c\<close> are the links at the inner ends of the two, and
  \<open>h0\<close> is the heap before the move.
\<close>

definition segs ::
  "(nat \<rightharpoonup> 'v list_entry_t) \<Rightarrow> nat \<Rightarrow> 'v option \<Rightarrow> (nat \<rightharpoonup> 'v list_entry_t) \<Rightarrow> (nat \<times> 'v option) list \<Rightarrow> nat option \<Rightarrow>
   nat option \<Rightarrow> nat option \<Rightarrow> (nat \<times> 'v option) list \<Rightarrow> nat option \<Rightarrow> bool" where
  "segs h0 x v h U u xp xn C c \<longleftrightarrow> dll h None U u \<and> dll h xp [(x, v)] xn \<and> dll h c C None \<and>
     distinct (map fst (U @ (x, v) # C)) \<and>
     (\<forall>a. a \<notin> addrs (U @ (x, v) # C) \<longrightarrow> h a = h0 a) \<and> (\<forall>a. map_option le_list (h a) = map_option le_list (h0 a))"

lemma segs_disjoint:
  assumes "distinct (map fst (U @ (x, v) # C))"
  shows "final None U \<notin> Some ` addrs [(x, v)]" "final None U \<notin> Some ` addrs C"
    "first C None \<notin> Some ` addrs U" "first C None \<notin> Some ` addrs [(x, v)]"
    "Some x \<notin> Some ` addrs U" "Some x \<notin> Some ` addrs C"
    "distinct (map fst U)" "distinct (map fst C)" "distinct (map fst [(x, v)])"
proof -
  have "addrs U \<inter> addrs C = {}" "x \<notin> addrs U" "x \<notin> addrs C" using assms by (auto simp: addrs_def)
  then show "final None U \<notin> Some ` addrs [(x, v)]" "final None U \<notin> Some ` addrs C"
    "first C None \<notin> Some ` addrs U" "first C None \<notin> Some ` addrs [(x, v)]"
    "Some x \<notin> Some ` addrs U" "Some x \<notin> Some ` addrs C"
    by (auto dest!: final_addr first_addr)
  show "distinct (map fst U)" "distinct (map fst C)" "distinct (map fst [(x, v)])" using assms by simp_all
qed

lemma segs_U:
  assumes "segs h0 x v h U u xp xn C c" and "q = final None U"
  shows "segs h0 x v (link_next h q u') U u' xp xn C c"
proof -
  have d: "distinct (map fst (U @ (x, v) # C))" using assms(1) by (simp add: segs_def)
  have "link_next h q u' a = h a" if "a \<notin> addrs (U @ (x, v) # C)" for a
    by (rule link_outside) (use that assms(2) final_addr [of U a] in auto)
  then show ?thesis
    using assms(1) dll_link_final [of h None U u u'] segs_disjoint [OF d] unfolding segs_def assms(2)
    by (simp only: dll_link_frame not_False_eq_True link_list) blast
qed

lemma segs_C:
  assumes "segs h0 x v h U u xp xn C c" and "q = first C None"
  shows "segs h0 x v (link_prev h q c') U u xp xn C c'"
proof -
  have d: "distinct (map fst (U @ (x, v) # C))" using assms(1) by (simp add: segs_def)
  have "link_prev h q c' a = h a" if "a \<notin> addrs (U @ (x, v) # C)" for a
    by (rule link_outside) (use that assms(2) first_addr [of C a] in auto)
  then show ?thesis
    using assms(1) dll_link_first [of h c C None c'] segs_disjoint [OF d] unfolding segs_def assms(2)
    by (simp only: dll_link_frame not_False_eq_True link_list) blast
qed

lemma segs_x:
  assumes "segs h0 x v h U u xp xn C c"
  shows "segs h0 x v (link_prev h (Some x) p') U u p' xn C c" "segs h0 x v (link_next h (Some x) n') U u xp n' C c"
proof -
  have d: "distinct (map fst (U @ (x, v) # C))" using assms(1) by (simp add: segs_def)
  have ends: "first [(x, v)] None = Some x" "final None [(x, v)] = Some x" by simp_all
  have "link_prev h (Some x) p' a = h a" "link_next h (Some x) n' a = h a" if "a \<notin> addrs (U @ (x, v) # C)" for a
    by (rule link_outside; use that in auto)+
  then show "segs h0 x v (link_prev h (Some x) p') U u p' xn C c" "segs h0 x v (link_next h (Some x) n') U u xp n' C c"
    using assms(1) dll_link_first [of h xp "[(x, v)]" xn p'] dll_link_final [of h xp "[(x, v)]" xn n'] segs_disjoint [OF d]
    unfolding segs_def ends by (simp_all only: dll_link_frame not_False_eq_True link_list) blast+
qed

text \<open>The pivot, at the inner end of a segment, changes sides when the move goes on with the other segment.\<close>

lemma segs_shift:
  assumes "segs h0 x v h (U @ S) (first C None) xp xn C (final None (U @ S))"
  shows "segs h0 x v h U (first (S @ C) None) xp xn (S @ C) (final None U)"
  using assms by (auto simp: segs_def addrs_def)

lemma segs_unshift:
  assumes "segs h0 x v h U (first (S @ C) None) xp xn (S @ C) (final None U)"
  shows "segs h0 x v h (U @ S) (first C None) xp xn C (final None (U @ S))"
  using assms by (auto simp: segs_def addrs_def)

lemma segs_read:
  assumes "segs h0 x v h U u xp xn C c"
  shows "\<exists>e. h x = Some e \<and> le_prev e = xp \<and> le_next e = xn"
    "C = (y, w) # C' \<Longrightarrow> \<exists>e. h y = Some e \<and> le_prev e = c \<and> le_list e = Option.bind (h0 y) le_list"
    "U = U' @ [(y, w)] \<Longrightarrow> \<exists>e. h y = Some e \<and> le_next e = u \<and> le_list e = Option.bind (h0 y) le_list"
proof -
  have ls: "le_list e = Option.bind (h0 y) le_list" if "h y = Some e" for e
    using assms that by (cases "h0 y") (auto simp: segs_def dest: spec [of _ y])
  show "\<exists>e. h x = Some e \<and> le_prev e = xp \<and> le_next e = xn" using assms by (auto simp: segs_def)
  show "\<exists>e. h y = Some e \<and> le_prev e = c \<and> le_list e = Option.bind (h0 y) le_list" if "C = (y, w) # C'"
    using assms that ls by (fastforce simp: segs_def)
  show "\<exists>e. h y = Some e \<and> le_next e = u \<and> le_list e = Option.bind (h0 y) le_list" if "U = U' @ [(y, w)]"
    using assms that ls by (fastforce simp: segs_def)
qed

lemma segs_alloc:
  assumes "segs h0 x v h U u xp xn C c"
  shows "final None U = Some y \<Longrightarrow> h y \<noteq> None" "first C None = Some y \<Longrightarrow> h y \<noteq> None" "h x \<noteq> None"
  using assms dll_end_alloc unfolding segs_def by (blast, blast, force)

lemma segs_write:
  assumes "segs h0 x v h U u xp xn C c" and "lm_entries m = h"
  shows "final None U = q \<Longrightarrow> set_entry_opt q (\<lambda>e. e\<lparr>le_next := n\<rparr>) m = Some (m\<lparr>lm_entries := link_next h q n\<rparr>)"
    "first C None = q \<Longrightarrow> set_entry_opt q (\<lambda>e. e\<lparr>le_prev := n\<rparr>) m = Some (m\<lparr>lm_entries := link_prev h q n\<rparr>)"
    "final None U = Some y \<Longrightarrow> set_entry (Some y) (\<lambda>e. e\<lparr>le_next := n\<rparr>) m = Some (m\<lparr>lm_entries := link_next h (Some y) n\<rparr>)"
    "first C None = Some y \<Longrightarrow> set_entry (Some y) (\<lambda>e. e\<lparr>le_prev := n\<rparr>) m = Some (m\<lparr>lm_entries := link_prev h (Some y) n\<rparr>)"
    "set_entry (Some x) (\<lambda>e. e\<lparr>le_next := n\<rparr>) m = Some (m\<lparr>lm_entries := link_next h (Some x) n\<rparr>)"
    "set_entry (Some x) (\<lambda>e. e\<lparr>le_prev := n\<rparr>) m = Some (m\<lparr>lm_entries := link_prev h (Some x) n\<rparr>)"
  using segs_alloc [OF assms(1)] assms(2) by (simp_all add: set_entry_opt_link set_entry_link)

lemma sort_at_segs:
  assumes "sort_at m l (U @ (x, v) # C)"
  shows "segs (lm_entries m) x v (lm_entries m) U (Some x) (final None U) (first C None) C (Some x)"
  using assms by (auto simp: sort_at_def entries_ok_def segs_def)

lemma segs_sort_step:
  assumes "segs (lm_entries m) x v h U (Some x) (final None U) (first C None) C (Some x)"
    and "sort_at m l es" and "addrs es = addrs (U @ (x, v) # C)" and "length es = length (U @ (x, v) # C)"
    and "lm_lists m l = Some L"
  shows "sort_step m l es
    (m\<lparr>lm_lists := (lm_lists m)(l \<mapsto> L\<lparr>ll_head := first U (Some x), ll_tail := final (Some x) C\<rparr>), lm_entries := h\<rparr>) (U @ (x, v) # C)"
proof -
  have ls: "map_option le_list (h a) = map_option le_list (lm_entries m a)" for a using assms(1) by (simp add: segs_def)
  have "owned (m\<lparr>lm_entries := h\<rparr>) l (U @ (x, v) # C)"
    using assms(2,3) unfolding sort_at_def owned_def by (simp add: ls)
  moreover have "entries_ok (m\<lparr>lm_entries := h\<rparr>) (U @ (x, v) # C)"
    using assms(1-4) unfolding sort_at_def entries_ok_def by (auto simp: segs_def)
  moreover have "keeps m (m\<lparr>lm_lists := (lm_lists m)(l \<mapsto> L\<lparr>ll_head := first U (Some x), ll_tail := final (Some x) C\<rparr>), lm_entries := h\<rparr>) l (addrs es)"
    using assms(1,3,5) by (auto simp: keeps_def segs_def)
  ultimately show ?thesis
    using assms(2-5) by (auto simp: sort_step_def sort_at_def owned_def entries_ok_def)
qed

text \<open>The heaps after each of the writes of the two branches.\<close>

lemma before_chain:
  assumes "segs h0 x v h0 (A @ (p, pv) # B) (Some x) b c C (Some x)"
    and "a = final None A" and "b = final None (A @ (p, pv) # B)" and "c = first C None"
  obtains h1 h2 h3 h4 h5 h6 h7 where
    "h1 = link_next h0 b c" "segs h0 x v h1 (A @ (p, pv) # B) c b c C (Some x)"
    "h2 = link_prev h1 c b" "segs h0 x v h2 A (Some p) b c (((p, pv) # B) @ C) a"
    "h3 = link_next h2 a (Some x)" "segs h0 x v h3 A (Some x) b c (((p, pv) # B) @ C) a"
    "h4 = link_prev h3 (Some x) a" "segs h0 x v h4 A (Some x) a c (((p, pv) # B) @ C) a"
    "h5 = link_prev h4 (Some p) (Some x)" "segs h0 x v h5 A (Some x) a c (((p, pv) # B) @ C) (Some x)"
    "h6 = link_next h5 a (Some x)" "segs h0 x v h6 A (Some x) a c (((p, pv) # B) @ C) (Some x)"
    "h7 = link_next h6 (Some x) (Some p)" "segs h0 x v h7 A (Some x) a (Some p) (((p, pv) # B) @ C) (Some x)"
proof -
  let ?P = "(p, pv) # B"
  define h1 where "h1 = link_next h0 b c"
  define h2 where "h2 = link_prev h1 c b"
  define h3 where "h3 = link_next h2 a (Some x)"
  define h4 where "h4 = link_prev h3 (Some x) a"
  define h5 where "h5 = link_prev h4 (Some p) (Some x)"
  define h6 where "h6 = link_next h5 a (Some x)"
  define h7 where "h7 = link_next h6 (Some x) (Some p)"
  have s1: "segs h0 x v h1 (A @ ?P) c b c C (Some x)" unfolding h1_def by (rule segs_U [OF assms(1,3)])
  have s2': "segs h0 x v h2 (A @ ?P) c b c C b" unfolding h2_def by (rule segs_C [OF s1 assms(4)])
  have s2: "segs h0 x v h2 A (Some p) b c (?P @ C) a"
    using segs_shift [OF s2' [unfolded assms(3,4)]] by (simp add: assms(2-4))
  have s3: "segs h0 x v h3 A (Some x) b c (?P @ C) a" unfolding h3_def by (rule segs_U [OF s2 assms(2)])
  have s4: "segs h0 x v h4 A (Some x) a c (?P @ C) a" unfolding h4_def by (rule segs_x [OF s3])
  have s5: "segs h0 x v h5 A (Some x) a c (?P @ C) (Some x)" unfolding h5_def by (rule segs_C [OF s4]) simp
  have s6: "segs h0 x v h6 A (Some x) a c (?P @ C) (Some x)" unfolding h6_def by (rule segs_U [OF s5 assms(2)])
  have s7: "segs h0 x v h7 A (Some x) a (Some p) (?P @ C) (Some x)" unfolding h7_def by (rule segs_x [OF s6])
  show thesis by (rule that [OF h1_def s1 h2_def s2 h3_def s3 h4_def s4 h5_def s5 h6_def s6 h7_def s7])
qed

lemma behind_chain:
  assumes "segs h0 x v h0 A (Some x) a b ((B @ [(p, pv)]) @ C) (Some x)"
    and "a = final None A" and "b = first B (Some p)" and "c = first C None"
  obtains h1 h2 h3 h4 h5 h6 h7 where
    "h1 = link_next h0 a b" "segs h0 x v h1 A b a b ((B @ [(p, pv)]) @ C) (Some x)"
    "h2 = link_prev h1 b a" "segs h0 x v h2 (A @ B @ [(p, pv)]) c a b C (Some p)"
    "h3 = link_prev h2 c (Some x)" "segs h0 x v h3 (A @ B @ [(p, pv)]) c a b C (Some x)"
    "h4 = link_next h3 (Some x) c" "segs h0 x v h4 (A @ B @ [(p, pv)]) c a c C (Some x)"
    "h5 = link_next h4 (Some p) (Some x)" "segs h0 x v h5 (A @ B @ [(p, pv)]) (Some x) a c C (Some x)"
    "h6 = link_prev h5 c (Some x)" "segs h0 x v h6 (A @ B @ [(p, pv)]) (Some x) a c C (Some x)"
    "h7 = link_prev h6 (Some x) (Some p)" "segs h0 x v h7 (A @ B @ [(p, pv)]) (Some x) (Some p) c C (Some x)"
proof -
  let ?P = "B @ [(p, pv)]"
  define h1 where "h1 = link_next h0 a b"
  define h2 where "h2 = link_prev h1 b a"
  define h3 where "h3 = link_prev h2 c (Some x)"
  define h4 where "h4 = link_next h3 (Some x) c"
  define h5 where "h5 = link_next h4 (Some p) (Some x)"
  define h6 where "h6 = link_prev h5 c (Some x)"
  define h7 where "h7 = link_prev h6 (Some x) (Some p)"
  have b: "b = first (?P @ C) None" by (simp add: assms(3))
  have s1: "segs h0 x v h1 A b a b (?P @ C) (Some x)" unfolding h1_def by (rule segs_U [OF assms(1,2)])
  have s2': "segs h0 x v h2 A b a b (?P @ C) a" unfolding h2_def by (rule segs_C [OF s1 b])
  have s2: "segs h0 x v h2 (A @ ?P) c a b C (Some p)"
    using segs_unshift [OF s2' [unfolded assms(2) b]] by (simp add: assms(2-4))
  have s3: "segs h0 x v h3 (A @ ?P) c a b C (Some x)" unfolding h3_def by (rule segs_C [OF s2 assms(4)])
  have s4: "segs h0 x v h4 (A @ ?P) c a c C (Some x)" unfolding h4_def by (rule segs_x [OF s3])
  have s5: "segs h0 x v h5 (A @ ?P) (Some x) a c C (Some x)" unfolding h5_def by (rule segs_U [OF s4]) simp
  have s6: "segs h0 x v h6 (A @ ?P) (Some x) a c C (Some x)" unfolding h6_def by (rule segs_C [OF s5 assms(4)])
  have s7: "segs h0 x v h7 (A @ ?P) (Some x) (Some p) c C (Some x)" unfolding h7_def by (rule segs_x [OF s6])
  show thesis by (rule that [OF h1_def s1 h2_def s2 h3_def s3 h4_def s4 h5_def s5 h6_def s6 h7_def s7])
qed

lemma move_before_pivot_ok:
  assumes "sort_at m l (A @ (p, pv) # B @ (x, v) # C)"
  shows "\<exists>m'. move_before_pivot m (Some p) head tail (Some x) =
           Some (m', if Some p = head then Some x else head,
                 if Some x = tail then final (Some p) B else tail, final (Some p) B) \<and>
         sort_step m l (A @ (p, pv) # B @ (x, v) # C) m' (A @ (x, v) # (p, pv) # B @ C)"
proof -
  let ?P = "(p, pv) # B"
  define a where "a = final None A"
  define b where "b = final None (A @ ?P)"
  define c where "c = first C None"
  define h0 where "h0 = lm_entries m"
  obtain L where L: "lm_lists m l = Some L" "ll_head L = first A (Some p)" "ll_tail L = final (Some x) C"
    using assms by (auto simp: sort_at_def)
  have pl: "Option.bind (h0 p) le_list = Some l" "x \<notin> addrs C"
    using assms by (auto simp: sort_at_def owned_def entries_ok_def addrs_def h0_def)
  have s0: "segs h0 x v h0 (A @ ?P) (Some x) b c C (Some x)"
    using sort_at_segs [of m l "A @ ?P"] assms by (simp add: h0_def b_def c_def)
  from before_chain [OF s0 a_def b_def c_def] obtain h1 h2 h3 h4 h5 h6 h7 where
    h: "h1 = link_next h0 b c" "h2 = link_prev h1 c b" "h3 = link_next h2 a (Some x)" "h4 = link_prev h3 (Some x) a"
      "h5 = link_prev h4 (Some p) (Some x)" "h6 = link_next h5 a (Some x)" "h7 = link_next h6 (Some x) (Some p)"
    and s1: "segs h0 x v h1 (A @ ?P) c b c C (Some x)" and s2: "segs h0 x v h2 A (Some p) b c (?P @ C) a"
    and s3: "segs h0 x v h3 A (Some x) b c (?P @ C) a" and s4: "segs h0 x v h4 A (Some x) a c (?P @ C) a"
    and s5: "segs h0 x v h5 A (Some x) a c (?P @ C) (Some x)" and s6: "segs h0 x v h6 A (Some x) a c (?P @ C) (Some x)"
    and s7: "segs h0 x v h7 A (Some x) a (Some p) (?P @ C) (Some x)" .
  from segs_read(1) [OF s0] segs_read(1) [OF s1] segs_read(1) [OF s3] segs_read(1) [OF s5]
    segs_read(2) [OF s2] segs_read(2) [OF s3] pl(1)
  obtain e0 e1 e3 e5 q2 q3 where e: "h0 x = Some e0" "le_prev e0 = b" "le_next e0 = c"
      "h1 x = Some e1" "le_prev e1 = b" "le_next e1 = c" "h3 x = Some e3" "le_prev e3 = b" "h5 x = Some e5" "le_prev e5 = a"
    and q: "h2 p = Some q2" "le_prev q2 = a" "le_list q2 = Some l" "h3 p = Some q3" "le_prev q3 = a" "le_list q3 = Some l"
    by fastforce
  define K where "K = (lm_lists m)(l \<mapsto> L\<lparr>ll_head := first A (Some x)\<rparr>)"
  define K' where "K' = (lm_lists m)(l \<mapsto> L\<lparr>ll_head := first A (Some x), ll_tail := final b C\<rparr>)"
  have r3: "(if \<exists>y. a = Some y then set_entry (le_prev q2) (\<lambda>e. e\<lparr>le_next := Some x\<rparr>) (m\<lparr>lm_entries := h2\<rparr>)
           else do { l \<leftarrow> le_list q2; L \<leftarrow> lm_lists (m\<lparr>lm_entries := h2\<rparr>) l;
                     Some (if Some p = ll_head L then set_list l (L\<lparr>ll_head := Some x\<rparr>) (m\<lparr>lm_entries := h2\<rparr>)
                   else m\<lparr>lm_entries := h2\<rparr>)}) = Some (m\<lparr>lm_entries := h3, lm_lists := K\<rparr>)"
  proof (cases "A = []")
    case True
    then show ?thesis using L q by (simp add: h(3) K_def set_list_def a_def)
  next
    case False
    then have "K = lm_lists m" using L by (cases A) (auto simp: K_def)
    moreover obtain y where "a = Some y" using False by (simp add: a_def final_def)
    ultimately show ?thesis using segs_write(3) [OF s2, of "m\<lparr>lm_entries := h2\<rparr>" y] a_def q
      by (simp add: h(3))
  qed
  have r5: "(if Some x = ll_tail L then set_list l (L\<lparr>ll_head := first A (Some x), ll_tail := le_prev e3\<rparr>) (m\<lparr>lm_entries := h3, lm_lists := K\<rparr>)
      else m\<lparr>lm_entries := h3, lm_lists := K\<rparr>) = m\<lparr>lm_lists := K', lm_entries := h3\<rparr>"
    using pl(2) L(3) e(8) by (cases C rule: rev_cases; cases L) (auto simp: K_def K'_def set_list_def)
  have w: "set_entry_opt b (\<lambda>e. e\<lparr>le_next := c\<rparr>) m = Some (m\<lparr>lm_entries := h1\<rparr>)"
    "set_entry_opt c (\<lambda>e. e\<lparr>le_prev := b\<rparr>) (m\<lparr>lm_entries := h1\<rparr>) = Some (m\<lparr>lm_entries := h2\<rparr>)"
    "set_entry (Some x) (\<lambda>e. e\<lparr>le_prev := a\<rparr>) (m\<lparr>lm_lists := K', lm_entries := h3\<rparr>) = Some (m\<lparr>lm_lists := K', lm_entries := h4\<rparr>)"
    "set_entry (Some p) (\<lambda>e. e\<lparr>le_prev := Some x\<rparr>) (m\<lparr>lm_lists := K', lm_entries := h4\<rparr>) = Some (m\<lparr>lm_lists := K', lm_entries := h5\<rparr>)"
    "set_entry_opt a (\<lambda>e. e\<lparr>le_next := Some x\<rparr>) (m\<lparr>lm_lists := K', lm_entries := h5\<rparr>) = Some (m\<lparr>lm_lists := K', lm_entries := h6\<rparr>)"
    "set_entry (Some x) (\<lambda>e. e\<lparr>le_next := Some p\<rparr>) (m\<lparr>lm_lists := K', lm_entries := h6\<rparr>) = Some (m\<lparr>lm_lists := K', lm_entries := h7\<rparr>)"
    using segs_write(1) [OF s0, of m b c] segs_write(2) [OF s1, of "m\<lparr>lm_entries := h1\<rparr>" c b]
      segs_write(6) [OF s3, of "m\<lparr>lm_lists := K', lm_entries := h3\<rparr>" a] segs_write(4) [OF s4, of "m\<lparr>lm_lists := K', lm_entries := h4\<rparr>" p "Some x"]
      segs_write(1) [OF s5, of "m\<lparr>lm_lists := K', lm_entries := h5\<rparr>" a "Some x"] segs_write(5) [OF s6, of "m\<lparr>lm_lists := K', lm_entries := h6\<rparr>" "Some p"]
    unfolding h [symmetric] by (simp_all add: h0_def a_def b_def c_def)
  define hd' where "hd' = (if Some p = head then Some x else head)"
  define tl' where "tl' = (if Some x = tail then le_prev e3 else tail)"
  have Kl: "K l = Some (L\<lparr>ll_head := first A (Some x)\<rparr>)" by (simp add: K_def)
  have "move_before_pivot m (Some p) head tail (Some x) = Some (m\<lparr>lm_lists := K', lm_entries := h7\<rparr>, hd', tl', b)"
    by (simp add: move_before_pivot_def entry_at_def Let_def e [unfolded h0_def] q w r3 r5 L(1) Kl hd'_def [symmetric] tl'_def [symmetric] split del: if_split)
  moreover have "sort_step m l (A @ ?P @ (x, v) # C) (m\<lparr>lm_lists := K', lm_entries := h7\<rparr>) (A @ (x, v) # ?P @ C)"
    using segs_sort_step [of m x v h7 A "?P @ C" l "A @ ?P @ (x, v) # C" L] s7 assms L(1) by (auto simp: a_def b_def h0_def K'_def)
  ultimately show ?thesis by (simp add: hd'_def tl'_def e(8)) (simp add: b_def)
qed

lemma move_behind_pivot_ok:
  assumes "sort_at m l (A @ (x, v) # B @ (p, pv) # C)"
  shows "\<exists>m'. move_behind_pivot m (Some p) head tail (Some x) =
           Some (m', if Some x = head then first B (Some p) else head,
                 if Some p = tail then Some x else tail, first B (Some p)) \<and>
         sort_step m l (A @ (x, v) # B @ (p, pv) # C) m' (A @ B @ (p, pv) # (x, v) # C)"
proof -
  let ?P = "B @ [(p, pv)]"
  define a where "a = final None A"
  define b where "b = first B (Some p)"
  define c where "c = first C None"
  define h0 where "h0 = lm_entries m"
  obtain L where L: "lm_lists m l = Some L" "ll_head L = first A (Some x)" "ll_tail L = final (Some p) C"
    using assms by (auto simp: sort_at_def)
  have pl: "Option.bind (h0 p) le_list = Some l" "x \<notin> addrs A"
    using assms by (auto simp: sort_at_def owned_def entries_ok_def addrs_def h0_def)
  have s0: "segs h0 x v h0 A (Some x) a b (?P @ C) (Some x)"
    using sort_at_segs [of m l A x v "?P @ C"] assms by (simp add: h0_def b_def a_def)
  from behind_chain [OF s0 a_def b_def c_def] obtain h1 h2 h3 h4 h5 h6 h7 where
    h: "h1 = link_next h0 a b" "h2 = link_prev h1 b a" "h3 = link_prev h2 c (Some x)" "h4 = link_next h3 (Some x) c"
      "h5 = link_next h4 (Some p) (Some x)" "h6 = link_prev h5 c (Some x)" "h7 = link_prev h6 (Some x) (Some p)"
    and s1: "segs h0 x v h1 A b a b (?P @ C) (Some x)" and s2: "segs h0 x v h2 (A @ ?P) c a b C (Some p)"
    and s3: "segs h0 x v h3 (A @ ?P) c a b C (Some x)" and s4: "segs h0 x v h4 (A @ ?P) c a c C (Some x)"
    and s5: "segs h0 x v h5 (A @ ?P) (Some x) a c C (Some x)" and s6: "segs h0 x v h6 (A @ ?P) (Some x) a c C (Some x)"
    and s7: "segs h0 x v h7 (A @ ?P) (Some x) (Some p) c C (Some x)" .
  from segs_read(1) [OF s0] segs_read(1) [OF s1] segs_read(1) [OF s3] segs_read(1) [OF s5]
    segs_read(3) [OF s2, of "A @ B" p pv] segs_read(3) [OF s3, of "A @ B" p pv] pl(1)
  obtain e0 e1 e3 e5 q2 q3 where e: "h0 x = Some e0" "le_prev e0 = a" "le_next e0 = b"
      "h1 x = Some e1" "le_prev e1 = a" "le_next e1 = b" "h3 x = Some e3" "le_next e3 = b" "h5 x = Some e5" "le_next e5 = c"
    and q: "h2 p = Some q2" "le_next q2 = c" "le_list q2 = Some l" "h3 p = Some q3" "le_next q3 = c" "le_list q3 = Some l"
    by fastforce
  define K where "K = (lm_lists m)(l \<mapsto> L\<lparr>ll_tail := final (Some x) C\<rparr>)"
  define K' where "K' = (lm_lists m)(l \<mapsto> L\<lparr>ll_head := first A b, ll_tail := final (Some x) C\<rparr>)"
  have r3: "(if \<exists>y. c = Some y then set_entry (le_next q2) (\<lambda>e. e\<lparr>le_prev := Some x\<rparr>) (m\<lparr>lm_entries := h2\<rparr>)
           else do { l \<leftarrow> le_list q2; L \<leftarrow> lm_lists (m\<lparr>lm_entries := h2\<rparr>) l;
                     Some (if Some p = ll_tail L then set_list l (L\<lparr>ll_tail := Some x\<rparr>) (m\<lparr>lm_entries := h2\<rparr>)
                   else m\<lparr>lm_entries := h2\<rparr>)}) = Some (m\<lparr>lm_entries := h3, lm_lists := K\<rparr>)"
  proof (cases "C = []")
    case True
    then show ?thesis using L q by (simp add: h(3) K_def set_list_def c_def)
  next
    case False
    then have "K = lm_lists m" using L by (cases C) (auto simp: K_def)
    moreover obtain y where "c = Some y" using False by (cases C) (simp_all add: c_def)
    ultimately show ?thesis using segs_write(4) [OF s2, of "m\<lparr>lm_entries := h2\<rparr>" y] c_def q
      by (simp add: h(3))
  qed
  have r5: "(if Some x = ll_head L then set_list l (L\<lparr>ll_tail := final (Some x) C, ll_head := le_next e3\<rparr>) (m\<lparr>lm_entries := h3, lm_lists := K\<rparr>)
      else m\<lparr>lm_entries := h3, lm_lists := K\<rparr>) = m\<lparr>lm_lists := K', lm_entries := h3\<rparr>"
    using pl(2) L(2) e(8) by (cases A; cases L) (auto simp: K_def K'_def set_list_def)
  have w: "set_entry_opt a (\<lambda>e. e\<lparr>le_next := b\<rparr>) m = Some (m\<lparr>lm_entries := h1\<rparr>)"
    "set_entry_opt b (\<lambda>e. e\<lparr>le_prev := a\<rparr>) (m\<lparr>lm_entries := h1\<rparr>) = Some (m\<lparr>lm_entries := h2\<rparr>)"
    "set_entry (Some x) (\<lambda>e. e\<lparr>le_next := c\<rparr>) (m\<lparr>lm_lists := K', lm_entries := h3\<rparr>) = Some (m\<lparr>lm_lists := K', lm_entries := h4\<rparr>)"
    "set_entry (Some p) (\<lambda>e. e\<lparr>le_next := Some x\<rparr>) (m\<lparr>lm_lists := K', lm_entries := h4\<rparr>) = Some (m\<lparr>lm_lists := K', lm_entries := h5\<rparr>)"
    "set_entry_opt c (\<lambda>e. e\<lparr>le_prev := Some x\<rparr>) (m\<lparr>lm_lists := K', lm_entries := h5\<rparr>) = Some (m\<lparr>lm_lists := K', lm_entries := h6\<rparr>)"
    "set_entry (Some x) (\<lambda>e. e\<lparr>le_prev := Some p\<rparr>) (m\<lparr>lm_lists := K', lm_entries := h6\<rparr>) = Some (m\<lparr>lm_lists := K', lm_entries := h7\<rparr>)"
    using segs_write(1) [OF s0, of m a b] segs_write(2) [OF s1, of "m\<lparr>lm_entries := h1\<rparr>" b a]
      segs_write(5) [OF s3, of "m\<lparr>lm_lists := K', lm_entries := h3\<rparr>" c] segs_write(3) [OF s4, of "m\<lparr>lm_lists := K', lm_entries := h4\<rparr>" p "Some x"]
      segs_write(2) [OF s5, of "m\<lparr>lm_lists := K', lm_entries := h5\<rparr>" c "Some x"] segs_write(6) [OF s6, of "m\<lparr>lm_lists := K', lm_entries := h6\<rparr>" "Some p"]
    unfolding h [symmetric] by (simp_all add: h0_def a_def b_def c_def)
  define hd' where "hd' = (if Some x = head then le_next e3 else head)"
  define tl' where "tl' = (if Some p = tail then Some x else tail)"
  have Kl: "K l = Some (L\<lparr>ll_tail := final (Some x) C\<rparr>)" by (simp add: K_def)
  have "move_behind_pivot m (Some p) head tail (Some x) = Some (m\<lparr>lm_lists := K', lm_entries := h7\<rparr>, hd', tl', b)"
    by (simp add: move_behind_pivot_def entry_at_def Let_def e [unfolded h0_def] q w r3 r5 L(1) Kl hd'_def [symmetric] tl'_def [symmetric] split del: if_split)
  moreover have "sort_step m l (A @ (x, v) # ?P @ C) (m\<lparr>lm_lists := K', lm_entries := h7\<rparr>) ((A @ ?P) @ (x, v) # C)"
    using segs_sort_step [of m x v h7 "A @ ?P" C l "A @ (x, v) # ?P @ C" L] s7 assms L(1) by (auto simp: c_def b_def h0_def K'_def)
  ultimately show ?thesis by (simp add: hd'_def tl'_def e(8)) (simp add: b_def)
qed

section \<open>The partition\<close>

lemma first_self: "p \<notin> addrs es \<Longrightarrow> first es (Some p) = Some p \<longleftrightarrow> es = []"
  by (cases es) auto

lemma final_self: "p \<notin> addrs es \<Longrightarrow> final (Some p) es = Some p \<longleftrightarrow> es = []"
  by (cases es rule: rev_cases) auto

lemma scan_right_ok:
  assumes "dll (lm_entries m) q M (Some p)" and "p \<notin> addrs M"
  shows "\<exists>S M'. M = S @ M' \<and> scan_right cmp m (Some p) pv (first M (Some p)) = Some (first M' (Some p)) \<and>
           (\<forall>v\<in>set (map snd S). 0 < cmp v pv) \<and> (M' = [] \<or> cmp (snd (hd M')) pv \<le> 0)"
  using assms
proof (induction M arbitrary: q)
  case Nil
  then show ?case by (simp add: scan_right.simps)
next
  case (Cons x M)
  obtain a v where x: "x = (a, v)" by fastforce
  then obtain e where e: "lm_entries m a = Some e" "le_next e = first M (Some p)" "le_value e = v"
    and d: "dll (lm_entries m) (Some a) M (Some p)" using Cons.prems by auto
  have ap: "a \<noteq> p" "p \<notin> addrs M" using Cons.prems(2) x by auto
  show ?case
  proof (cases "0 < cmp v pv")
    case True
    then have step: "scan_right cmp m (Some p) pv (Some a) = scan_right cmp m (Some p) pv (first M (Some p))"
      using e ap by (subst scan_right.simps) (simp add: entry_at_def)
    from Cons.IH [OF d ap(2)] obtain S M' where IH: "M = S @ M'"
      "scan_right cmp m (Some p) pv (first M (Some p)) = Some (first M' (Some p))"
      "\<forall>v\<in>set (map snd S). 0 < cmp v pv" "M' = [] \<or> cmp (snd (hd M')) pv \<le> 0" by blast
    show ?thesis by (rule exI [of _ "x # S"], rule exI [of _ M']) (use IH step True x in auto)
  next
    case False
    then have "scan_right cmp m (Some p) pv (Some a) = Some (Some a)"
      using e ap by (subst scan_right.simps) (simp add: entry_at_def)
    then show ?thesis using x False by (intro exI [of _ "[]"] exI [of _ "x # M"]) auto
  qed
qed

lemma scan_left_ok:
  assumes "dll (lm_entries m) (Some p) M q" and "p \<notin> addrs M"
  shows "\<exists>S M'. M = M' @ S \<and> scan_left cmp m (Some p) pv (final (Some p) M) = Some (final (Some p) M') \<and>
           (\<forall>v\<in>set (map snd S). cmp v pv < 0) \<and> (M' = [] \<or> 0 \<le> cmp (snd (last M')) pv)"
  using assms
proof (induction M arbitrary: q rule: rev_induct)
  case Nil
  then show ?case by (simp add: scan_left.simps)
next
  case (snoc x M)
  obtain a v where x: "x = (a, v)" by fastforce
  then obtain e where e: "lm_entries m a = Some e" "le_prev e = final (Some p) M" "le_value e = v"
    and d: "dll (lm_entries m) (Some p) M (Some a)" using snoc.prems by auto
  have ap: "a \<noteq> p" "p \<notin> addrs M" using snoc.prems(2) x by auto
  show ?case
  proof (cases "cmp v pv < 0")
    case True
    then have step: "scan_left cmp m (Some p) pv (Some a) = scan_left cmp m (Some p) pv (final (Some p) M)"
      using e ap by (subst scan_left.simps) (simp add: entry_at_def)
    from snoc.IH [OF d ap(2)] obtain S M' where IH: "M = M' @ S"
      "scan_left cmp m (Some p) pv (final (Some p) M) = Some (final (Some p) M')"
      "\<forall>v\<in>set (map snd S). cmp v pv < 0" "M' = [] \<or> 0 \<le> cmp (snd (last M')) pv" by blast
    show ?thesis by (rule exI [of _ "S @ [x]"], rule exI [of _ M']) (use IH step True x in auto)
  next
    case False
    then have "scan_left cmp m (Some p) pv (Some a) = Some (Some a)"
      using e ap by (subst scan_left.simps) (simp add: entry_at_def)
    then show ?thesis using x False by (intro exI [of _ "[]"] exI [of _ "M @ [x]"]) auto
  qed
qed

lemma swap_entry_node_val_ok:
  assumes "sort_at m l (A @ (x, v) # B @ (y, w) # C)"
  shows "\<exists>m'. swap_entry_node_val (Some x) (Some y) m = Some m' \<and>
           sort_step m l (A @ (x, v) # B @ (y, w) # C) m' (A @ (x, w) # B @ (y, v) # C)"
proof -
  from assms have w: "dll (lm_entries m) None (A @ (x, v) # B @ (y, w) # C) None" "distinct (map fst (A @ (x, v) # B @ (y, w) # C))"
    by (auto simp: sort_at_def entries_ok_def)
  then obtain ex ey where e: "lm_entries m x = Some ex" "lm_entries m y = Some ey" "le_value ex = v" "le_value ey = w" "x \<noteq> y"
    "le_prev ex = final None A" "le_next ex = first B (Some y)" "le_prev ey = final (Some x) B" "le_next ey = first C None"
    by auto
  let ?m = "m\<lparr>lm_entries := (lm_entries m)(x \<mapsto> ex\<lparr>le_value := w\<rparr>, y \<mapsto> ey\<lparr>le_value := v\<rparr>)\<rparr>"
  have "swap_entry_node_val (Some x) (Some y) m = Some ?m"
    using e by (simp add: swap_entry_node_val_def list_mem_defs)
  moreover have "sort_at ?m l (A @ (x, w) # B @ (y, v) # C)"
    using assms e w by (auto simp: sort_at_def entries_ok_def owned_def addrs_def)
  moreover have "keeps m ?m l (addrs (A @ (x, v) # B @ (y, w) # C))" by (auto simp: keeps_def)
  ultimately show ?thesis by (auto simp: sort_step_def)
qed


text \<open>
  The state of the loop: \<open>F\<close> and \<open>R\<close> are done, \<open>M\<close> and \<open>N\<close> are still to be looked at.
\<close>

definition part_at ::
  "('v option \<Rightarrow> 'v option \<Rightarrow> int) \<Rightarrow> ('v, 'z) list_mem_scheme \<Rightarrow> nat \<Rightarrow> (nat \<times> 'v option) list \<Rightarrow> (nat \<times> 'v option) list \<Rightarrow> nat \<Rightarrow> 'v option \<Rightarrow>
   (nat \<times> 'v option) list \<Rightarrow> (nat \<times> 'v option) list \<Rightarrow> (nat \<times> 'v option) list \<Rightarrow> (nat \<times> 'v option) list \<Rightarrow> bool" where
  "part_at cmp m l pre post p pv F M N R \<longleftrightarrow> sort_at m l (pre @ F @ M @ (p, pv) # N @ R @ post) \<and>
     (\<forall>v\<in>set (map snd F). 0 \<le> cmp v pv) \<and> (\<forall>v\<in>set (map snd R). cmp v pv \<le> 0)"

lemma part_at_distinct:
  assumes "part_at cmp m l pre post p pv F M N R"
  shows "p \<notin> addrs F" "p \<notin> addrs M" "p \<notin> addrs N" "p \<notin> addrs R" "addrs M \<inter> addrs N = {}"
    "addrs F \<inter> addrs M = {}" "addrs N \<inter> addrs R = {}"
  using assms by (auto simp: part_at_def sort_at_def entries_ok_def addrs_def)

text \<open>The two scans move what they skip to the finished parts.\<close>

lemma part_scan:
  assumes "part_at cmp m l pre post p pv F M N R"
  obtains F' M' N' R' where "F @ M = F' @ M'" and "N @ R = N' @ R'" and "part_at cmp m l pre post p pv F' M' N' R'"
    and "length M' \<le> length M" and "length N' \<le> length N"
    and "scan_right cmp m (Some p) pv (first M (Some p)) = Some (first M' (Some p))"
    and "scan_left cmp m (Some p) pv (final (Some p) N) = Some (final (Some p) N')"
    and "M' = [] \<or> cmp (snd (hd M')) pv \<le> 0" and "N' = [] \<or> 0 \<le> cmp (snd (last N')) pv"
proof -
  have d: "dll (lm_entries m) (final None (pre @ F)) M (Some p)" "dll (lm_entries m) (Some p) N (first (R @ post) None)"
    using assms by (auto simp: part_at_def sort_at_def entries_ok_def)
  obtain S M' where S: "M = S @ M'" "scan_right cmp m (Some p) pv (first M (Some p)) = Some (first M' (Some p))"
      "\<forall>v\<in>set (map snd S). 0 < cmp v pv" "M' = [] \<or> cmp (snd (hd M')) pv \<le> 0"
    using scan_right_ok [OF d(1) part_at_distinct(2) [OF assms]] by blast
  obtain T N' where T: "N = N' @ T" "scan_left cmp m (Some p) pv (final (Some p) N) = Some (final (Some p) N')"
      "\<forall>v\<in>set (map snd T). cmp v pv < 0" "N' = [] \<or> 0 \<le> cmp (snd (last N')) pv"
    using scan_left_ok [OF d(2) part_at_distinct(3) [OF assms]] by blast
  have "part_at cmp m l pre post p pv (F @ S) M' N' (T @ R)"
    using assms S(1,3) T(1,3) by (fastforce simp: part_at_def)
  then show thesis using S T by (intro that [of "F @ S" M' N' "T @ R"]) auto
qed

lemma partition_loop_step:
  assumes "scan_right cmp m (Some p) pv p1 = Some p1'" and "scan_left cmp m (Some p) pv p2 = Some p2'"
    and "p1' \<noteq> None" and "p2' \<noteq> None"
  shows "partition_loop cmp m (Some p) pv head tail p1 p2 =
    (if p1' = p2' then Some (m, head, tail)
     else if p1' = Some p then do {
       (m, head, tail, p2) \<leftarrow> move_before_pivot m (Some p) head tail p2';
       partition_loop cmp m (Some p) pv head tail p1' p2
     } else if p2' = Some p then do {
       (m, head, tail, p1) \<leftarrow> move_behind_pivot m (Some p) head tail p1';
       partition_loop cmp m (Some p) pv head tail p1 p2'
     } else do {
       m \<leftarrow> swap_entry_node_val p1' p2' m;
       e1 \<leftarrow> entry_at m p1';
       e2 \<leftarrow> entry_at m p2';
       partition_loop cmp m (Some p) pv head tail (le_next e1) (le_prev e2)
     })"
  by (subst partition_loop.simps) (simp add: assms)

text \<open>One round of the loop, after the scans: what is left to be looked at gets less.\<close>

definition part_progress ::
  "('v option \<Rightarrow> 'v option \<Rightarrow> int) \<Rightarrow> ('v, 'z) list_mem_scheme \<Rightarrow> nat \<Rightarrow> (nat \<times> 'v option) list \<Rightarrow> (nat \<times> 'v option) list \<Rightarrow> nat \<Rightarrow> 'v option \<Rightarrow>
   (nat \<times> 'v option) list \<Rightarrow> (nat \<times> 'v option) list \<Rightarrow> (nat \<times> 'v option) list \<Rightarrow> (nat \<times> 'v option) list \<Rightarrow>
   nat option \<Rightarrow> nat option \<Rightarrow> bool" where
  "part_progress cmp m l pre post p pv F M N R p1 p2 \<longleftrightarrow>
    (\<exists>m' F' M' N' R'. part_at cmp m' l pre post p pv F' M' N' R' \<and> length M' + length N' < length M + length N \<and>
      sort_step m l (pre @ F @ M @ (p, pv) # N @ R @ post) m' (pre @ F' @ M' @ (p, pv) # N' @ R' @ post) \<and>
      mset (map snd (F' @ M' @ N' @ R')) = mset (map snd (F @ M @ N @ R)) \<and>
      partition_loop cmp m (Some p) pv (first (F @ M) (Some p)) (final (Some p) (N @ R)) p1 p2 =
        partition_loop cmp m' (Some p) pv (first (F' @ M') (Some p)) (final (Some p) (N' @ R')) (first M' (Some p)) (final (Some p) N'))"

lemma partition_before:
  assumes "part_at cmp m l pre post p pv F [] (N @ [(y, w)]) R" and "0 \<le> cmp w pv"
    and "scan_right cmp m (Some p) pv p1 = Some (Some p)" and "scan_left cmp m (Some p) pv p2 = Some (Some y)"
  shows "part_progress cmp m l pre post p pv F [] (N @ [(y, w)]) R p1 p2"
proof -
  note d = part_at_distinct [OF assms(1)]
  let ?h = "first F (Some p)" and ?t = "final (Some y) R"
  from move_before_pivot_ok [of m l "pre @ F" p pv N y w "R @ post" ?h ?t] assms(1)
  obtain m' where m': "move_before_pivot m (Some p) ?h ?t (Some y) =
      Some (m', if Some p = ?h then Some y else ?h, if Some y = ?t then final (Some p) N else ?t, final (Some p) N)"
    "sort_step m l (pre @ F @ (p, pv) # N @ (y, w) # R @ post) m' (pre @ F @ (y, w) # (p, pv) # N @ R @ post)"
    by (auto simp: part_at_def)
  have ne: "y \<noteq> p" "y \<notin> addrs R" using d by auto
  have hd: "(if Some p = ?h then Some y else ?h) = first (F @ [(y, w)]) (Some p)" using d(1) by (cases F) auto
  have tl: "(if Some y = ?t then final (Some p) N else ?t) = final (Some p) (N @ R)"
    using ne(2) by (cases R rule: rev_cases) auto
  have "part_at cmp m' l pre post p pv (F @ [(y, w)]) [] N R"
    using assms(1,2) m'(2) by (auto simp: part_at_def sort_step_def)
  moreover have "partition_loop cmp m (Some p) pv ?h ?t p1 p2 =
      partition_loop cmp m' (Some p) pv (first (F @ [(y, w)]) (Some p)) (final (Some p) (N @ R)) (Some p) (final (Some p) N)"
    using m'(1) ne(1) unfolding hd tl by (simp add: partition_loop_step [OF assms(3,4)])
  ultimately show ?thesis using m'(2)
    unfolding part_progress_def by - (rule exI [of _ m'], rule exI [of _ "F @ [(y, w)]"], rule exI [of _ "[]"], rule exI [of _ N], rule exI [of _ R], simp)
qed

lemma partition_behind:
  assumes "part_at cmp m l pre post p pv F ((x, v) # M) [] R" and "cmp v pv \<le> 0"
    and "scan_right cmp m (Some p) pv p1 = Some (Some x)" and "scan_left cmp m (Some p) pv p2 = Some (Some p)"
  shows "part_progress cmp m l pre post p pv F ((x, v) # M) [] R p1 p2"
proof -
  note d = part_at_distinct [OF assms(1)]
  let ?h = "first F (Some x)" and ?t = "final (Some p) R"
  from move_behind_pivot_ok [of m l "pre @ F" x v M p pv "R @ post" ?h ?t] assms(1)
  obtain m' where m': "move_behind_pivot m (Some p) ?h ?t (Some x) =
      Some (m', if Some x = ?h then first M (Some p) else ?h, if Some p = ?t then Some x else ?t, first M (Some p))"
    "sort_step m l (pre @ F @ (x, v) # M @ (p, pv) # R @ post) m' (pre @ F @ M @ (p, pv) # (x, v) # R @ post)"
    by (auto simp: part_at_def)
  have ne: "x \<noteq> p" "x \<notin> addrs F" using d by auto
  have hd: "(if Some x = ?h then first M (Some p) else ?h) = first (F @ M) (Some p)" using ne(2) by (cases F) auto
  have tl: "(if Some p = ?t then Some x else ?t) = final (Some p) ((x, v) # R)"
    using d(4) by (cases R rule: rev_cases) auto
  have "part_at cmp m' l pre post p pv F M [] ((x, v) # R)"
    using assms(1,2) m'(2) by (auto simp: part_at_def sort_step_def)
  moreover have "partition_loop cmp m (Some p) pv ?h ?t p1 p2 =
      partition_loop cmp m' (Some p) pv (first (F @ M) (Some p)) (final (Some p) ((x, v) # R)) (first M (Some p)) (Some p)"
    using m'(1) ne(1) unfolding hd tl by (simp add: partition_loop_step [OF assms(3,4)])
  ultimately show ?thesis using m'(2)
    unfolding part_progress_def by - (rule exI [of _ m'], rule exI [of _ F], rule exI [of _ M], rule exI [of _ "[]"], rule exI [of _ "(x, v) # R"], simp)
qed

lemma partition_swap:
  assumes "part_at cmp m l pre post p pv F ((x, v) # M) (N @ [(y, w)]) R" and "cmp v pv \<le> 0" and "0 \<le> cmp w pv"
    and "scan_right cmp m (Some p) pv p1 = Some (Some x)" and "scan_left cmp m (Some p) pv p2 = Some (Some y)"
  shows "part_progress cmp m l pre post p pv F ((x, v) # M) (N @ [(y, w)]) R p1 p2"
proof -
  note d = part_at_distinct [OF assms(1)]
  from swap_entry_node_val_ok [of m l "pre @ F" x v "M @ (p, pv) # N" y w "R @ post"] assms(1)
  obtain m' where m': "swap_entry_node_val (Some x) (Some y) m = Some m'"
    "sort_step m l (pre @ F @ (x, v) # M @ (p, pv) # N @ (y, w) # R @ post) m' (pre @ F @ (x, w) # M @ (p, pv) # N @ (y, v) # R @ post)"
    by (auto simp: part_at_def)
  have ne: "x \<noteq> p" "y \<noteq> p" "x \<noteq> y" using d by auto
  have "part_at cmp m' l pre post p pv (F @ [(x, w)]) M N ((y, v) # R)"
    using assms(1-3) m'(2) by (auto simp: part_at_def sort_step_def)
  moreover obtain e1 e2 where "lm_entries m' x = Some e1" "le_next e1 = first M (Some p)"
      "lm_entries m' y = Some e2" "le_prev e2 = final (Some p) N"
    using m'(2) by (auto simp: sort_step_def sort_at_def entries_ok_def)
  then have "partition_loop cmp m (Some p) pv (first F (Some x)) (final (Some y) R) p1 p2 =
      partition_loop cmp m' (Some p) pv (first F (Some x)) (final (Some y) R) (first M (Some p)) (final (Some p) N)"
    using m'(1) ne by (simp add: partition_loop_step [OF assms(4,5)] entry_at_def)
  ultimately show ?thesis using m'(2)
    unfolding part_progress_def by - (rule exI [of _ m'], rule exI [of _ "F @ [(x, w)]"], rule exI [of _ M], rule exI [of _ N], rule exI [of _ "(y, v) # R"], simp)
qed

lemma partition_loop_ok:
  assumes "part_at cmp m l pre post p pv F M N R"
  shows "\<exists>m' F' R'. partition_loop cmp m (Some p) pv (first (F @ M) (Some p)) (final (Some p) (N @ R)) (first M (Some p)) (final (Some p) N) =
      Some (m', first F' (Some p), final (Some p) R') \<and> part_at cmp m' l pre post p pv F' [] [] R' \<and>
      sort_step m l (pre @ F @ M @ (p, pv) # N @ R @ post) m' (pre @ F' @ (p, pv) # R' @ post) \<and>
      mset (map snd (F' @ R')) = mset (map snd (F @ M @ N @ R))"
  using assms
proof (induction "length M + length N" arbitrary: m F M N R rule: less_induct)
  case less
  from part_scan [OF less.prems] obtain F1 M1 N1 R1 where
    eq: "F @ M = F1 @ M1" "N @ R = N1 @ R1" and p1: "part_at cmp m l pre post p pv F1 M1 N1 R1"
    and len: "length M1 \<le> length M" "length N1 \<le> length N"
    and scan: "scan_right cmp m (Some p) pv (first M (Some p)) = Some (first M1 (Some p))"
      "scan_left cmp m (Some p) pv (final (Some p) N) = Some (final (Some p) N1)"
    and cm: "M1 = [] \<or> cmp (snd (hd M1)) pv \<le> 0" "N1 = [] \<or> 0 \<le> cmp (snd (last N1)) pv" .
  have whole: "pre @ F @ M @ (p, pv) # N @ R @ post = pre @ F1 @ M1 @ (p, pv) # N1 @ R1 @ post"
    using eq by (metis append.assoc append_Cons)
  have ms: "mset (map snd (F @ M @ N @ R)) = mset (map snd (F1 @ M1 @ N1 @ R1))"
    using eq by (metis append.assoc)
  show ?case
  proof (cases "M1 = [] \<and> N1 = []")
    case True
    then have "partition_loop cmp m (Some p) pv (first (F @ M) (Some p)) (final (Some p) (N @ R)) (first M (Some p)) (final (Some p) N) =
        Some (m, first (F @ M) (Some p), final (Some p) (N @ R))"
      using partition_loop_step [OF scan] by simp
    then show ?thesis using True p1 whole ms sort_step_refl [of m l] unfolding eq whole ms
      by - (rule exI [of _ m], rule exI [of _ F1], rule exI [of _ R1], simp add: part_at_def)
  next
    case False
    have "part_progress cmp m l pre post p pv F1 M1 N1 R1 (first M (Some p)) (final (Some p) N)"
    proof (cases M1)
      case Nil
      with False obtain N' y w where "N1 = N' @ [(y, w)]" by (metis rev_exhaust surj_pair)
      then show ?thesis using partition_before [of cmp m l pre post p pv F1 N' y w R1] p1 scan cm(2) Nil by simp
    next
      case (Cons z M')
      then obtain x v where M1: "M1 = (x, v) # M'" by (cases z) simp
      show ?thesis
      proof (cases N1 rule: rev_cases)
        case Nil
        then show ?thesis using partition_behind [of cmp m l pre post p pv F1 x v M' R1] p1 scan cm(1) M1 by simp
      next
        case (snoc N' u)
        then obtain y w where "N1 = N' @ [(y, w)]" by (cases u) simp
        then show ?thesis using partition_swap [of cmp m l pre post p pv F1 x v M' N' y w R1] p1 scan cm M1 by simp
      qed
    qed
    then obtain m' F' M' N' R' where pr: "part_at cmp m' l pre post p pv F' M' N' R'" "length M' + length N' < length M1 + length N1"
      "sort_step m l (pre @ F1 @ M1 @ (p, pv) # N1 @ R1 @ post) m' (pre @ F' @ M' @ (p, pv) # N' @ R' @ post)"
      "mset (map snd (F' @ M' @ N' @ R')) = mset (map snd (F1 @ M1 @ N1 @ R1))"
      "partition_loop cmp m (Some p) pv (first (F1 @ M1) (Some p)) (final (Some p) (N1 @ R1)) (first M (Some p)) (final (Some p) N) =
        partition_loop cmp m' (Some p) pv (first (F' @ M') (Some p)) (final (Some p) (N' @ R')) (first M' (Some p)) (final (Some p) N')"
      unfolding part_progress_def by blast
    have "length M' + length N' < length M + length N" using pr(2) len by linarith
    from less.hyps [OF this pr(1)] obtain m2 F2 R2 where IH:
      "partition_loop cmp m' (Some p) pv (first (F' @ M') (Some p)) (final (Some p) (N' @ R')) (first M' (Some p)) (final (Some p) N') =
        Some (m2, first F2 (Some p), final (Some p) R2)" "part_at cmp m2 l pre post p pv F2 [] [] R2"
      "sort_step m' l (pre @ F' @ M' @ (p, pv) # N' @ R' @ post) m2 (pre @ F2 @ (p, pv) # R2 @ post)"
      "mset (map snd (F2 @ R2)) = mset (map snd (F' @ M' @ N' @ R'))" by blast
    have "mset (map snd (F2 @ R2)) = mset (map snd (F @ M @ N @ R))" by (simp only: IH(4) pr(4) ms)
    moreover have "partition_loop cmp m (Some p) pv (first (F @ M) (Some p)) (final (Some p) (N @ R)) (first M (Some p)) (final (Some p) N) =
        Some (m2, first F2 (Some p), final (Some p) R2)" using IH(1) pr(5) by (simp only: eq)
    moreover have "sort_step m l (pre @ F @ M @ (p, pv) # N @ R @ post) m2 (pre @ F2 @ (p, pv) # R2 @ post)"
      unfolding whole by (rule sort_step_trans [OF pr(3) IH(3)])
    ultimately show ?thesis using IH(2) by blast
  qed
qed

section \<open>The sort is correct\<close>

lemma count_to_ok:
  "dll (lm_entries m) q M (Some p) \<Longrightarrow> p \<notin> addrs M \<Longrightarrow> 0 \<le> i \<Longrightarrow> i + int (length M) < 2147483648 \<Longrightarrow>
     count_to m (Some p) (first M (Some p)) i = Some (i + int (length M))"
proof (induction M arbitrary: q i)
  case Nil
  then show ?case by (simp add: count_to.simps)
next
  case (Cons x M)
  obtain a v where x: "x = (a, v)" by fastforce
  then obtain e where e: "lm_entries m a = Some e" "le_next e = first M (Some p)"
    and d: "dll (lm_entries m) (Some a) M (Some p)" using Cons.prems(1) by auto
  have "ck (i + 1) = Some (i + 1)" using Cons.prems(3,4) by (simp add: ck_def int_ok_def)
  then have "count_to m (Some p) (Some a) i = count_to m (Some p) (first M (Some p)) (i + 1)"
    using e x Cons.prems(2) by (subst count_to.simps) (simp add: entry_at_def)
  then show ?case using Cons.IH [OF d, of "i + 1"] Cons.prems x by simp
qed

lemma pivot_from_head_ok:
  "dll (lm_entries m) q es n \<Longrightarrow> i + k < length es \<Longrightarrow>
     pivot_from_head m (Some (fst (es ! i))) k = Some (Some (fst (es ! (i + k))))"
proof (induction k arbitrary: i)
  case (Suc k)
  from dll_nth [OF Suc.prems(1), of i] Suc.prems(2) obtain e where
    e: "lm_entries m (fst (es ! i)) = Some e" "le_next e = first (drop (Suc i) es) n" by auto
  then have "le_next e = Some (fst (es ! Suc i))" using Suc.prems(2) by (simp add: Cons_nth_drop_Suc [symmetric])
  then show ?case using Suc.IH [of "Suc i"] Suc.prems e(1) by (simp add: entry_at_def)
qed simp

lemma pivot_from_tail_ok:
  "dll (lm_entries m) q es n \<Longrightarrow> k \<le> i \<Longrightarrow> i < length es \<Longrightarrow>
     pivot_from_tail m (Some (fst (es ! i))) k = Some (Some (fst (es ! (i - k))))"
proof (induction k arbitrary: i)
  case (Suc k)
  from dll_nth [OF Suc.prems(1,3)] obtain e where
    e: "lm_entries m (fst (es ! i)) = Some e" "le_prev e = final q (take i es)" by auto
  then have "le_prev e = Some (fst (es ! (i - 1)))" using Suc.prems(2,3) by (simp add: final_take)
  then show ?case using Suc.IH [of "i - 1"] Suc.prems e(1) by (simp add: entry_at_def)
qed simp

text \<open>The pivots of the two parts; a part of at most one entry needs none.\<close>

lemma left_pivot:
  assumes "dll (lm_entries m) q F (Some p)"
  shows "pivot_from_head m (first F (Some p)) (length F div 2) =
    Some (if length F \<le> 1 then first F (Some p) else Some (fst (F ! (length F div 2))))"
proof (cases "length F \<le> 1")
  case True
  then have "length F div 2 = 0" by simp
  then show ?thesis using True by simp
next
  case False
  then have "first F (Some p) = Some (fst (F ! 0))" by (cases F) auto
  moreover have "0 + length F div 2 < length F" using False by simp
  ultimately show ?thesis using pivot_from_head_ok [OF assms, of 0 "length F div 2"] False by simp
qed

lemma right_pivot:
  assumes "dll (lm_entries m) (Some p) R n"
  shows "pivot_from_tail m (final (Some p) R) (length R div 2) =
    Some (if length R \<le> 1 then final (Some p) R else Some (fst (R ! (length R - 1 - length R div 2))))"
proof (cases "length R \<le> 1")
  case True
  then have "length R div 2 = 0" by simp
  then show ?thesis using True by simp
next
  case False
  then have "final (Some p) R = Some (fst (R ! (length R - 1)))" by (cases "R = []") (simp_all add: final_def last_conv_nth)
  moreover have "length R div 2 \<le> length R - 1" "length R - 1 < length R" using False by (auto simp: less_eq_Suc_le)
  ultimately show ?thesis using pivot_from_tail_ok [OF assms] False by simp
qed


text \<open>A comparator of list values, which may be NULL.\<close>

locale value_comparator = key_order cmp K for cmp :: "'v option \<Rightarrow> 'v option \<Rightarrow> int" and K
begin

definition range_sorted ::
  "('v, 'z) list_mem_scheme \<Rightarrow> nat \<Rightarrow> (nat \<times> 'v option) list \<Rightarrow> (nat \<times> 'v option) list \<Rightarrow> (nat \<times> 'v option) list \<Rightarrow>
   ('v, 'z) list_mem_scheme \<Rightarrow> (nat \<times> 'v option) list \<Rightarrow> bool" where
  "range_sorted m l pre seg post m' seg' \<longleftrightarrow> sort_step m l (pre @ seg @ post) m' (pre @ seg' @ post) \<and>
     mset (map snd seg') = mset (map snd seg) \<and> descending (map snd seg')"

lemma range_sorted_short: "sort_at m l (pre @ seg @ post) \<Longrightarrow> length seg \<le> 1 \<Longrightarrow> range_sorted m l pre seg post m seg"
  by (cases seg) (auto simp: range_sorted_def sort_step_refl descending_simps)

lemma quick_sort_two:
  assumes "sort_at m l (pre @ [(a, v), (b, w)] @ post)" and "v \<in> K" and "w \<in> K"
  shows "\<exists>m' seg'. list_quick_sort cmp m (Some a) (Some b) (Some p) 2 = Some m' \<and>
    range_sorted m l pre [(a, v), (b, w)] post m' seg'"
proof -
  obtain ea eb where e: "lm_entries m a = Some ea" "lm_entries m b = Some eb" "le_value ea = v" "le_value eb = w"
    using assms by (auto simp: sort_at_def entries_ok_def)
  show ?thesis
  proof (cases "cmp v w < 0")
    case True
    from swap_entry_node_val_ok [of m l pre a v "[]" b w post] assms obtain m' where
      "swap_entry_node_val (Some a) (Some b) m = Some m'"
      "sort_step m l (pre @ (a, v) # (b, w) # post) m' (pre @ (a, w) # (b, v) # post)" by auto
    then show ?thesis using True e assms(2,3)
      by (intro exI [of _ m'] exI [of _ "[(a, w), (b, v)]"])
        (simp add: list_quick_sort.simps entry_at_def range_sorted_def descending_two)
  next
    case False
    then show ?thesis using assms e
      by (intro exI [of _ m] exI [of _ "[(a, v), (b, w)]"])
        (simp add: list_quick_sort.simps entry_at_def range_sorted_def descending_two sort_step_refl)
  qed
qed

text \<open>
  The two recursive calls, with the sort of a shorter range as an assumption: the conditions on the
  ends of a part only leave out the parts of at most one entry.
\<close>

lemma sort_left:
  fixes m :: "('v, 'z) list_mem_scheme"
  assumes IH: "\<And>(m :: ('v, 'z) list_mem_scheme) seg pre post k. length seg = length F \<Longrightarrow> sort_at m l (pre @ seg @ post) \<Longrightarrow> k < length seg \<Longrightarrow>
      snd ` set seg \<subseteq> K \<Longrightarrow>
      \<exists>m' seg'. list_quick_sort cmp m (first seg None) (final None seg) (Some (fst (seg ! k))) (int (length seg)) = Some m' \<and>
        range_sorted m l pre seg post m' seg'"
    and "sort_at m l (pre @ F @ (p, pv) # post)" and "lm_entries m p = Some P" and "le_prev P = final None (pre @ F)"
    and "snd ` set F \<subseteq> K"
  shows "\<exists>m' F'. (if int (length F) > 1 \<and> le_prev P \<noteq> None \<and> first F (Some p) \<noteq> le_prev P
      then list_quick_sort cmp m (first F (Some p)) (le_prev P)
        (if length F \<le> 1 then first F (Some p) else Some (fst (F ! (length F div 2)))) (int (length F)) else Some m) = Some m' \<and>
    range_sorted m l pre F ((p, pv) # post) m' F'"
proof (cases "length F \<le> 1")
  case True
  then show ?thesis using range_sorted_short [OF assms(2) True] by (intro exI [of _ m] exI [of _ F]) simp
next
  case False
  then have F: "first F n = Some (fst (hd F))" "final q F = Some (fst (last F))" for n q by (cases F; auto simp: final_def)+
  moreover have "fst (hd F) \<noteq> fst (last F)"
    using assms(2) False by (cases F) (auto simp: sort_at_def entries_ok_def)
  moreover have "length F div 2 < length F" using False by simp
  ultimately show ?thesis using IH [of F m pre "(p, pv) # post" "length F div 2"] assms(2,4,5) False by simp
qed

lemma sort_right:
  fixes m :: "('v, 'z) list_mem_scheme"
  assumes IH: "\<And>(m :: ('v, 'z) list_mem_scheme) seg pre post k. length seg = length R \<Longrightarrow> sort_at m l (pre @ seg @ post) \<Longrightarrow> k < length seg \<Longrightarrow>
      snd ` set seg \<subseteq> K \<Longrightarrow>
      \<exists>m' seg'. list_quick_sort cmp m (first seg None) (final None seg) (Some (fst (seg ! k))) (int (length seg)) = Some m' \<and>
        range_sorted m l pre seg post m' seg'"
    and "sort_at m l ((pre @ [(p, pv)]) @ R @ post)" and "lm_entries m p = Some P" and "le_next P = first (R @ post) None"
    and "snd ` set R \<subseteq> K"
  shows "\<exists>m' R'. (if int (length R) > 1 \<and> le_next P \<noteq> None \<and> final (Some p) R \<noteq> le_next P
      then list_quick_sort cmp m (le_next P) (final (Some p) R)
        (if length R \<le> 1 then final (Some p) R else Some (fst (R ! (length R - 1 - length R div 2)))) (int (length R)) else Some m) = Some m' \<and>
    range_sorted m l (pre @ [(p, pv)]) R post m' R'"
proof (cases "length R \<le> 1")
  case True
  then show ?thesis using range_sorted_short [OF assms(2) True] by (intro exI [of _ m] exI [of _ R]) simp
next
  case False
  then have R: "first R n = Some (fst (hd R))" "final q R = Some (fst (last R))" for n q by (cases R; auto simp: final_def)+
  moreover have "fst (hd R) \<noteq> fst (last R)"
    using assms(2) False by (cases R) (auto simp: sort_at_def entries_ok_def)
  moreover have "length R - 1 - length R div 2 < length R" using False by simp
  ultimately show ?thesis
    using IH [of R m "pre @ [(p, pv)]" post "length R - 1 - length R div 2"] assms(2,4,5) False by simp
qed

lemma range_sorted_join:
  assumes "part_at cmp m l pre post p pv F [] [] R" and "range_sorted m l pre F ((p, pv) # R @ post) m1 F'"
    and "range_sorted m1 l ((pre @ F') @ [(p, pv)]) R post m2 R'"
    and "snd ` set (F @ (p, pv) # R) \<subseteq> K"
  shows "range_sorted m l pre (F @ (p, pv) # R) post m2 (F' @ (p, pv) # R')"
proof -
  have "set (map snd F') = set (map snd F)" "set (map snd R') = set (map snd R)"
    using assms(2,3) unfolding range_sorted_def by (metis set_mset_mset)+
  then have "descending (map snd F' @ pv # map snd R')"
    using assms unfolding range_sorted_def part_at_def by (intro descending_join) auto
  then show ?thesis using assms(2,3) sort_step_trans [of m l "pre @ F @ (p, pv) # R @ post" m1 "pre @ F' @ (p, pv) # R @ post"]
    by (simp add: range_sorted_def)
qed

lemma quick_sort_parts:
  fixes m m1 :: "('v, 'z) list_mem_scheme"
  assumes IH: "\<And>(m :: ('v, 'z) list_mem_scheme) seg pre post k. length seg < len \<Longrightarrow> sort_at m l (pre @ seg @ post) \<Longrightarrow> k < length seg \<Longrightarrow>
      snd ` set seg \<subseteq> K \<Longrightarrow>
      \<exists>m' seg'. list_quick_sort cmp m (first seg None) (final None seg) (Some (fst (seg ! k))) (int (length seg)) = Some m' \<and>
        range_sorted m l pre seg post m' seg'"
    and p1: "part_at cmp m1 l pre post p pv F [] [] R" and len: "length F + length R + 1 = len"
    and "partition_loop cmp m (Some p) pv head tail head tail = Some (m1, first F (Some p), final (Some p) R)"
    and "lm_entries m p = Some P" and "le_value P = pv" and "2 < len" and "head \<noteq> None" and "tail \<noteq> None"
    and K: "snd ` set (F @ (p, pv) # R) \<subseteq> K"
  shows "\<exists>m' seg'. list_quick_sort cmp m head tail (Some p) (int len) = Some m' \<and> range_sorted m1 l pre (F @ (p, pv) # R) post m' seg'"
proof -
  have s1: "sort_at m1 l (pre @ F @ (p, pv) # R @ post)" using p1 by (simp add: part_at_def)
  then obtain P1 where P1: "lm_entries m1 p = Some P1" "le_prev P1 = final None (pre @ F)" by (auto simp: sort_at_def entries_ok_def)
  have d: "dll (lm_entries m1) (final None pre) F (Some p)" "dll (lm_entries m1) (Some p) R (first post None)" "p \<notin> addrs F"
    "length F + length R + 1 < 2147483648"
    using s1 by (auto simp: sort_at_def entries_ok_def addrs_def)
  have cnt: "count_to m1 (Some p) (first F (Some p)) 0 = Some (int (length F))"
    using count_to_ok [OF d(1,3), of 0] d(4) by simp
  have l2: "ck (int len - (int (length F) + 1)) = Some (int (length R))"
    using d(4) by (simp add: ck_def int_ok_def len [symmetric])
  have lt: "length F < len" "length R < len" using len by auto
  from sort_left [OF IH s1 P1] lt(1) K obtain m2 F' where
    left: "(if int (length F) > 1 \<and> le_prev P1 \<noteq> None \<and> first F (Some p) \<noteq> le_prev P1
      then list_quick_sort cmp m1 (first F (Some p)) (le_prev P1)
        (if length F \<le> 1 then first F (Some p) else Some (fst (F ! (length F div 2)))) (int (length F)) else Some m1) = Some m2"
    "range_sorted m1 l pre F ((p, pv) # R @ post) m2 F'" by auto
  have s2: "sort_at m2 l (((pre @ F') @ [(p, pv)]) @ R @ post)" using left(2) by (simp add: range_sorted_def sort_step_def)
  then obtain P2 where P2: "lm_entries m2 p = Some P2" "le_next P2 = first (R @ post) None" by (auto simp: sort_at_def entries_ok_def)
  from sort_right [OF IH s2 P2] lt(2) K obtain m3 R' where
    right: "(if int (length R) > 1 \<and> le_next P2 \<noteq> None \<and> final (Some p) R \<noteq> le_next P2
      then list_quick_sort cmp m2 (le_next P2) (final (Some p) R)
        (if length R \<le> 1 then final (Some p) R else Some (fst (R ! (length R - 1 - length R div 2)))) (int (length R)) else Some m2) = Some m3"
    "range_sorted m2 l ((pre @ F') @ [(p, pv)]) R post m3 R'" by auto
  have halves: "nat (int (length F) div 2) = length F div 2" "nat (int (length R) div 2) = length R div 2" by (simp_all add: nat_div_distrib)
  have len2: "\<not> int len < 2" "int len \<noteq> 2" using assms(7) by auto
  have "list_quick_sort cmp m head tail (Some p) (int len) = Some m3"
    by (subst list_quick_sort.simps)
      (simp only: assms(4,5,6,8,9) len2 entry_at_def cnt l2 halves left_pivot [OF d(1)] right_pivot [OF d(2)] P1(1) P2(1) left(1) right(1)
        option.case option.distinct bind.bind_lunit prod.case simp_thms if_False)
  then show ?thesis using range_sorted_join [OF p1 left(2) right(2) K] by blast
qed

lemma quick_sort_ok:
  assumes "sort_at m l (pre @ seg @ post)" and "k < length seg" and "snd ` set seg \<subseteq> K"
  shows "\<exists>m' seg'. list_quick_sort cmp m (first seg None) (final None seg) (Some (fst (seg ! k))) (int (length seg)) = Some m' \<and>
    range_sorted m l pre seg post m' seg'"
  using assms
proof (induction "length seg" arbitrary: m seg pre post k rule: less_induct)
  case less
  consider "length seg = 1" | "length seg = 2" | "length seg > 2" using less.prems(2) by linarith
  then show ?case
  proof cases
    case 1
    then show ?thesis using range_sorted_short [OF less.prems(1)]
      by (intro exI [of _ m] exI [of _ seg]) (simp add: list_quick_sort.simps)
  next
    case 2
    then obtain a v b w where "seg = [(a, v), (b, w)]" by (auto simp: numeral_2_eq_2 length_Suc_conv)
    then show ?thesis using quick_sort_two [of m l pre a v b w post] less.prems(1,3) by simp
  next
    case 3
    obtain p pv where pk: "seg ! k = (p, pv)" by fastforce
    define M where "M = take k seg"
    define N where "N = drop (Suc k) seg"
    have seg: "seg = M @ (p, pv) # N" using id_take_nth_drop [OF less.prems(2)] pk by (simp add: M_def N_def)
    have s: "sort_at m l (pre @ M @ (p, pv) # N @ post)" using less.prems(1) by (simp add: seg)
    then obtain P where P: "lm_entries m p = Some P" "le_value P = pv" by (auto simp: sort_at_def entries_ok_def)
    have "part_at cmp m l pre post p pv [] M N []" using s by (simp add: part_at_def)
    from partition_loop_ok [OF this] obtain m1 F R where
      part: "partition_loop cmp m (Some p) pv (first M (Some p)) (final (Some p) N) (first M (Some p)) (final (Some p) N) =
        Some (m1, first F (Some p), final (Some p) R)" and p1: "part_at cmp m1 l pre post p pv F [] [] R"
      and st: "sort_step m l (pre @ M @ (p, pv) # N @ post) m1 (pre @ F @ (p, pv) # R @ post)"
      and ms: "mset (map snd (F @ R)) = mset (map snd (M @ N))" by auto
    have len: "length F + length R + 1 = length seg" using mset_eq_length [OF ms] by (simp add: seg)
    have K: "snd ` set (F @ (p, pv) # R) \<subseteq> K"
      using less.prems(3) arg_cong [OF ms, of set_mset] by (auto simp: seg image_Un)
    have ends: "first seg None = first M (Some p)" "final None seg = final (Some p) N" by (simp_all add: seg)
    have ne: "first M (Some p) \<noteq> None" "final (Some p) N \<noteq> None" by (cases M; simp) (simp add: final_def)
    from quick_sort_parts [OF less.hyps p1 len part P 3 ne K] obtain m' seg' where
      "list_quick_sort cmp m (first seg None) (final None seg) (Some p) (int (length seg)) = Some m'"
      "range_sorted m1 l pre (F @ (p, pv) # R) post m' seg'" unfolding ends by blast
    moreover from this(2) have "range_sorted m l pre seg post m' seg'"
      using ms sort_step_trans [OF st] by (simp add: range_sorted_def seg)
    ultimately show ?thesis using pk by auto
  qed
qed

end


lemma sort_atI: "list_at m l es \<Longrightarrow> owned m l es \<Longrightarrow> sort_at m l es"
  by (auto simp: list_at_def list_shape_def sort_at_def)

lemma owned_cong: "lm_entries m' = lm_entries m \<Longrightarrow> owned m l es \<Longrightarrow> owned m' l es"
  by (simp add: owned_def)

lemma list_sort_finish:
  assumes "sort_at m l es" and "lm_lists m l = Some L"
  shows "list_at (set_list l (L\<lparr>ll_cur := None, ll_pos := 0\<rparr>) m) l es" "owned (set_list l (L\<lparr>ll_cur := None, ll_pos := 0\<rparr>) m) l es"
    "keeps m (set_list l (L\<lparr>ll_cur := None, ll_pos := 0\<rparr>) m) l {}"
  using assms by (auto simp: sort_at_def list_at_def list_shape_def entries_ok_def owned_def set_list_def keeps_def)

context value_comparator
begin

lemma first_pivot:
  assumes "list_at m l es" and "owned m l es" and "snd ` set es \<subseteq> K"
  shows "\<exists>pv m1 m2 es'. pick_entry m l (dec64 (length es div 2)) = Some (pv, m1) \<and> list_at m1 l es \<and> keeps m m1 l {} \<and>
    list_quick_sort cmp m1 (first es None) (final None es) pv (int (length es)) = Some m2 \<and> range_sorted m1 l [] es [] m2 es'"
proof (cases "length es \<le> 1")
  case True
  then have "length es \<le> dec64 (length es div 2)" by (cases es) (simp_all add: dec64_def SIZE_MAX_def)
  then show ?thesis using pick_entry_none [OF assms(1)] assms(1) range_sorted_short [of m l "[]" es "[]"] sort_atI [OF assms(1,2)] True
    by (intro exI [of _ None] exI [of _ m] exI [of _ m] exI [of _ es]) (auto simp: list_quick_sort.simps)
next
  case False
  then have k: "dec64 (length es div 2) = length es div 2 - 1" "length es div 2 - 1 < length es"
    using assms(1) by (auto simp: dec64_def)
  from pick_entry_ok [OF assms(1) k(2)] obtain m1 where
    m1: "pick_entry m l (dec64 (length es div 2)) = Some (Some (fst (es ! (length es div 2 - 1))), m1)" "list_at m1 l es"
      "keeps m m1 l {}" "lm_entries m1 = lm_entries m" unfolding k(1) by auto
  have "sort_at m1 l ([] @ es @ [])" using sort_atI [OF m1(2) owned_cong [OF m1(4) assms(2)]] by simp
  from quick_sort_ok [OF this k(2) assms(3)] show ?thesis using m1 by auto
qed

lemma list_sort_ok:
  assumes "list_at m l es" and "owned m l es" and "snd ` set es \<subseteq> K"
  shows "\<exists>m' es'. list_sort cmp m l = Some m' \<and> list_at m' l es' \<and> owned m' l es' \<and> keeps m m' l (addrs es) \<and> addrs es' = addrs es \<and>
    mset (map snd es') = mset (map snd es) \<and> descending (map snd es')"
proof -
  obtain L where L: "lm_lists m l = Some L" "ll_length L = length es"
    using assms(1) by (auto simp: list_at_def list_shape_def)
  have small: "to_int (length es) = int (length es)" using assms(1) by (simp add: list_at_def entries_ok_def to_int_eq)
  from first_pivot [OF assms] obtain pv m1 m2 es' where
    run: "pick_entry m l (dec64 (length es div 2)) = Some (pv, m1)" "list_at m1 l es" "keeps m m1 l {}"
      "list_quick_sort cmp m1 (first es None) (final None es) pv (int (length es)) = Some m2"
    and rs: "range_sorted m1 l [] es [] m2 es'" by blast
  obtain L1 where L1: "lm_lists m1 l = Some L1" "ll_head L1 = first es None" "ll_tail L1 = final None es" "ll_length L1 = length es"
    using run(2) by (auto simp: list_at_def list_shape_def)
  have st: "sort_step m1 l es m2 es'" using rs by (simp add: range_sorted_def)
  then obtain L2 where L2: "lm_lists m2 l = Some L2" by (auto simp: sort_step_def sort_at_def)
  let ?m = "set_list l (L2\<lparr>ll_cur := None, ll_pos := 0\<rparr>) m2"
  have "sort_at m2 l es'" using st by (simp add: sort_step_def)
  note fin = list_sort_finish [OF this L2]
  have "list_sort cmp m l = Some ?m" using L run L1 L2 small by (simp add: list_sort_def)
  moreover have "keeps m m2 l (addrs es)" by (rule keeps_trans [OF keeps_mono [OF run(3)]]) (use st in \<open>auto simp: sort_step_def\<close>)
  then have "keeps m ?m l (addrs es)" by (rule keeps_trans [OF _ fin(3)]) simp
  ultimately show ?thesis using fin(1,2) st rs by (auto simp: sort_step_def range_sorted_def)
qed

end

text \<open>Keys as values, which a comparator of \<open>comparators.h\<close> sorts; there is no NULL among them.\<close>

definition cmp_values :: "(byte list \<Rightarrow> nat \<Rightarrow> byte list \<Rightarrow> nat \<Rightarrow> int option) \<Rightarrow> byte list option \<Rightarrow> byte list option \<Rightarrow> int" where
  "cmp_values cmp v w = cmp_keys cmp (the v) (the w)"

interpretation int16_values: value_comparator "cmp_values libhl_cmp_keys_int16" "Some ` small_keys"
  by unfold_locales (auto simp: cmp_values_def int16.cmp_sign intro: int16.cmp_trans)

interpretation uint16_values: value_comparator "cmp_values libhl_cmp_keys_uint16" "Some ` small_keys"
  by unfold_locales (auto simp: cmp_values_def uint16.cmp_sign intro: uint16.cmp_trans)

section \<open>Properties\<close>

text \<open>
  \<open>C3\<close>: \<open>list_sort\<close> ends, and the list holds the same values afterwards, each as often as before,
  in descending order of the comparator; the list is well-formed with the same entries, and nothing
  else in the memory has changed. The comparator has to order the values, and every entry has to
  know its list.
\<close>

theorem list_sort_sorts:
  assumes "key_order comparator V" and "list_at m l es" and "owned m l es" and "snd ` set es \<subseteq> V"
  shows "\<exists>m' es'. list_sort comparator m l = Some m' \<and> list_at m' l es' \<and> mset (map snd es') = mset (map snd es) \<and>
    sorted_wrt (\<lambda>v w. 0 \<le> comparator v w) (map snd es') \<and> addrs es' = addrs es \<and> keeps m m' l (addrs es)"
proof -
  have v: "value_comparator comparator V" using assms(1) by (simp add: value_comparator_def)
  show ?thesis
    using value_comparator.list_sort_ok [OF v assms(2-4)] key_order.descending_def [OF assms(1)] by auto
qed

text \<open>Three 16-bit keys, pushed to a list that is then sorted.\<close>

definition keys_mem :: "byte list list_mem" where
  "keys_mem = \<lparr>lm_entries =
       [1 \<mapsto> \<lparr>le_list = Some 0, le_prev = None, le_next = Some 2, le_value = Some [1, 0], le_tagged = False\<rparr>,
        2 \<mapsto> \<lparr>le_list = Some 0, le_prev = Some 1, le_next = Some 3, le_value = Some [0, 1], le_tagged = False\<rparr>,
        3 \<mapsto> \<lparr>le_list = Some 0, le_prev = Some 2, le_next = None, le_value = Some [7, 0], le_tagged = False\<rparr>],
     lm_lists = [0 \<mapsto> \<lparr>ll_head = Some 1, ll_tail = Some 3, ll_cur = None, ll_pos = 0, ll_length = 3,
        ll_free_cb = False, ll_slices = None\<rparr>],
     lm_slices = Map.empty, lm_slice_entries = Map.empty, lm_brk = 4, lm_fails = (\<lambda>_. False), lm_freed = []\<rparr>"

lemma keys_mem_ok: "list_at keys_mem 0 [(1, Some [1, 0]), (2, Some [0, 1]), (3, Some [7, 0])]"
  "owned keys_mem 0 [(1, Some [1, 0]), (2, Some [0, 1]), (3, Some [7, 0])]"
  by (simp_all add: keys_mem_def list_at_def entries_ok_def list_shape_def owned_def)

theorem list_sort_sorts_witness:
  "\<exists>m' es'. list_sort (cmp_values libhl_cmp_keys_int16) keys_mem 0 = Some m' \<and> list_at m' 0 es' \<and>
     mset (map snd es') = {#Some [1, 0], Some [0, 1], Some [7, 0]#} \<and>
     sorted_wrt (\<lambda>v w. 0 \<le> cmp_values libhl_cmp_keys_int16 v w) (map snd es')"
  using list_sort_sorts [OF int16_values.key_order_axioms keys_mem_ok]
  by (fastforce simp: small_keys_def add_mset_commute)

section \<open>What the sort does not do\<close>

text \<open>
  An entry that \<open>list_insert_value\<close> put into the middle of a list does not know its list, and
  \<open>list_sort\<close> dereferences that pointer when the entry is the pivot.
\<close>

definition cmp_nat :: "nat option \<Rightarrow> nat option \<Rightarrow> int" where
  "cmp_nat v w = int (the v) - int (the w)"

definition lmem_four :: "nat list_mem" where
  "lmem_four = lmem_list\<lparr>lm_entries :=
       [1 \<mapsto> \<lparr>le_list = Some 0, le_prev = None, le_next = Some 4, le_value = Some 4, le_tagged = False\<rparr>,
        2 \<mapsto> \<lparr>le_list = Some 0, le_prev = Some 4, le_next = Some 3, le_value = Some 5, le_tagged = False\<rparr>,
        3 \<mapsto> \<lparr>le_list = Some 0, le_prev = Some 2, le_next = None, le_value = Some 1, le_tagged = False\<rparr>,
        4 \<mapsto> \<lparr>le_list = None, le_prev = Some 1, le_next = Some 2, le_value = Some 3, le_tagged = False\<rparr>],
     lm_lists := [0 \<mapsto> \<lparr>ll_head = Some 1, ll_tail = Some 3, ll_cur = Some 1, ll_pos = 0, ll_length = 4,
        ll_free_cb = False, ll_slices = None\<rparr>],
     lm_brk := 5\<rparr>"

lemma insert_value_unowned:
  "do { (_, m) \<leftarrow> list_push_value lmem_list 0 (Some 4);
        (_, m) \<leftarrow> list_push_value m 0 (Some 5);
        (_, m) \<leftarrow> list_push_value m 0 (Some 1);
        list_insert_value m 0 (Some 3) 1 } = Some (0, lmem_four)"
  by (simp add: lmem_four_def lmem_list_def lmem_ex_def list_create_def list_push_value_def list_insert_value_def add_value_def
      create_entry_def push_entry_def insert_entry_def pick_entry_def walk_up_def list_mem_defs dec64_def inc64_def SIZE_MAX_def u32_def
      fun_upd_twist) (simp add: eval_nat_numeral)

lemma insert_then_sort: "list_sort cmp_nat lmem_four 0 = None"
proof -
  let ?m = "lmem_four\<lparr>lm_lists := [0 \<mapsto> \<lparr>ll_head = Some 1, ll_tail = Some 3, ll_cur = Some 4, ll_pos = 1, ll_length = 4,
        ll_free_cb = False, ll_slices = None\<rparr>]\<rparr>"
  have r: "scan_right cmp_nat ?m (Some 4) (Some 3) (Some 1) = Some (Some 4)"
    by (subst scan_right.simps, subst scan_right.simps) (simp add: entry_at_def lmem_four_def cmp_nat_def)
  have l: "scan_left cmp_nat ?m (Some 4) (Some 3) (Some 3) = Some (Some 2)"
    by (subst scan_left.simps, subst scan_left.simps) (simp add: entry_at_def lmem_four_def cmp_nat_def)
  have p: "pick_entry lmem_four 0 1 = Some (Some 4, ?m)"
    by (simp add: pick_entry_def lmem_four_def abs_diff_def list_mem_defs walk_up_def u32_def)
  have "move_before_pivot ?m (Some 4) (Some 1) (Some 3) (Some 2) = None"
    by (simp add: move_before_pivot_def lmem_four_def list_mem_defs)
  then have "partition_loop cmp_nat ?m (Some 4) (Some 3) (Some 1) (Some 3) (Some 1) (Some 3) = None"
    using partition_loop_step [OF r l] by simp
  then have "list_quick_sort cmp_nat ?m (Some 1) (Some 3) (Some 4) 4 = None"
    by (subst list_quick_sort.simps) (simp add: entry_at_def lmem_four_def)
  then show ?thesis using p by (simp add: list_sort_def lmem_four_def dec64_def to_int_eq)
qed

text \<open>
  A swap exchanges the values but not the mark of the tagged interface: after the sort of a tagged value and a
  plain one, each has the mark of the other.
\<close>

lemma sort_swaps_marks:
  "swap_entry_node_val (Some 1) (Some 2) (lmem_two\<lparr>lm_entries :=
       [1 \<mapsto> \<lparr>le_list = Some 0, le_prev = None, le_next = Some 2, le_value = Some 4, le_tagged = True\<rparr>,
        2 \<mapsto> \<lparr>le_list = Some 0, le_prev = Some 1, le_next = None, le_value = Some 7, le_tagged = False\<rparr>]\<rparr>) =
     Some (lmem_two\<lparr>lm_entries :=
       [1 \<mapsto> \<lparr>le_list = Some 0, le_prev = None, le_next = Some 2, le_value = Some 7, le_tagged = True\<rparr>,
        2 \<mapsto> \<lparr>le_list = Some 0, le_prev = Some 1, le_next = None, le_value = Some 4, le_tagged = False\<rparr>]\<rparr>)"
  by (simp add: swap_entry_node_val_def list_mem_defs fun_upd_twist)

end
