(* ===== verification/Tagged.thy ===== *)
theory Tagged
  imports Linklist_Spec
begin

text \<open>
  The tagged interface of \<open>linklist.c\<close>: values that carry a tag and a buffer, a pointer of the caller or
  a whole list. The memory of the lists is extended by the tagged values and by the buffers; a value
  of a list is an address, and all addresses come from the same counter. A tag is the text of the
  string that \<open>strdup\<close> made of it, without an address of its own.
\<close>

section \<open>Data\<close>

datatype tv_type = TV_TYPE_STRING | TV_TYPE_BINARY | TV_TYPE_LIST

record tagged_value_t =
  tv_tag :: "byte list option"
  tv_value :: "nat option"
  tv_vlen :: nat
  tv_type :: tv_type

record tag_mem = "nat list_mem" +
  tg_values :: "nat \<rightharpoonup> tagged_value_t"
  tg_bufs :: "nat \<rightharpoonup> byte list"

text \<open>\<open>calloc\<close>, \<open>malloc\<close> and \<open>strdup\<close> take the next address, or fail.\<close>

definition alloc :: "tag_mem \<Rightarrow> nat option \<times> tag_mem" where
  "alloc m = (let a = lm_brk m; m = m\<lparr>lm_brk := Suc a\<rparr> in if lm_fails m a then (None, m) else (Some a, m))"

definition alloc_value :: "tag_mem \<Rightarrow> nat option \<times> tag_mem" where
  "alloc_value m = (case alloc m of
     (None, m) \<Rightarrow> (None, m)
   | (Some a, m) \<Rightarrow> (Some a, m\<lparr>tg_values := (tg_values m)
        (a \<mapsto> \<lparr>tv_tag = None, tv_value = None, tv_vlen = 0, tv_type = TV_TYPE_STRING\<rparr>)\<rparr>))"

definition set_tagged :: "nat \<Rightarrow> (tagged_value_t \<Rightarrow> tagged_value_t) \<Rightarrow> tag_mem \<Rightarrow> tag_mem option" where
  "set_tagged a f m = (case tg_values m a of None \<Rightarrow> None | Some v \<Rightarrow> Some (m\<lparr>tg_values := (tg_values m)(a \<mapsto> f v)\<rparr>))"

definition free_tagged :: "nat \<Rightarrow> tag_mem \<Rightarrow> tag_mem option" where
  "free_tagged a m = (if tg_values m a = None then None else Some (m\<lparr>tg_values := (tg_values m)(a := None)\<rparr>))"

definition free_buf :: "nat \<Rightarrow> tag_mem \<Rightarrow> tag_mem option" where
  "free_buf b m = (if tg_bufs m b = None then None else Some (m\<lparr>tg_bufs := (tg_bufs m)(b := None)\<rparr>))"

text \<open>\<open>if(tag) newval->tag = strdup(tag)\<close>.\<close>

definition copy_tag :: "byte list option \<Rightarrow> nat \<Rightarrow> tag_mem \<Rightarrow> tag_mem option" where
  "copy_tag tag a m = (case tag of
     None \<Rightarrow> Some m
   | Some t \<Rightarrow> (case alloc m of (p, m) \<Rightarrow> set_tagged a (\<lambda>v. v\<lparr>tv_tag := if p = None then None else Some t\<rparr>) m))"

section \<open>Creation\<close>

definition list_create_tagged_value_nocopy :: "tag_mem \<Rightarrow> byte list option \<Rightarrow> nat option \<Rightarrow> (nat option \<times> tag_mem) option" where
  "list_create_tagged_value_nocopy m tag val = (case alloc_value m of
     (None, m) \<Rightarrow> Some (None, m)
   | (Some a, m) \<Rightarrow> do {
       m \<leftarrow> copy_tag tag a m;
       m \<leftarrow> set_tagged a (\<lambda>v. v\<lparr>tv_value := val\<rparr>) m;
       Some (Some a, m)
     })"

text \<open>
  The copy of the value: \<open>vlen\<close> bytes with a final zero, or the string at \<open>val\<close>. Reading past the end of a buffer
  is undefined, and so is a string without its end.
\<close>

definition list_create_tagged_value :: "tag_mem \<Rightarrow> byte list option \<Rightarrow> nat option \<Rightarrow> nat \<Rightarrow> (nat option \<times> tag_mem) option" where
  "list_create_tagged_value m tag val vlen = (case alloc_value m of
     (None, m) \<Rightarrow> Some (None, m)
   | (Some a, m) \<Rightarrow> do {
       m \<leftarrow> copy_tag tag a m;
       case val of
         None \<Rightarrow> Some (Some a, m)
       | Some v \<Rightarrow>
           if vlen \<noteq> 0 then
             (case alloc m of
                (None, m) \<Rightarrow> do { m \<leftarrow> free_tagged a m; Some (None, m) }
              | (Some b, m) \<Rightarrow> do {
                  src \<leftarrow> tg_bufs m v;
                  if length src < vlen then None
                  else do {
                    let m = m\<lparr>tg_bufs := (tg_bufs m)(b \<mapsto> take vlen src @ [0])\<rparr>;
                    m \<leftarrow> set_tagged a (\<lambda>v. v\<lparr>tv_value := Some b, tv_vlen := vlen, tv_type := TV_TYPE_BINARY\<rparr>) m;
                    Some (Some a, m)
                  }
                })
           else do {
             src \<leftarrow> tg_bufs m v;
             if 0 \<notin> set src then None
             else do {
               let s = takeWhile (\<lambda>c. c \<noteq> 0) src;
               let (p, m) = alloc m;
               let m = (case p of None \<Rightarrow> m | Some b \<Rightarrow> m\<lparr>tg_bufs := (tg_bufs m)(b \<mapsto> s @ [0])\<rparr>);
               m \<leftarrow> set_tagged a (\<lambda>v. v\<lparr>tv_value := p, tv_vlen := length s, tv_type := TV_TYPE_STRING\<rparr>) m;
               Some (Some a, m)
             }
           }
     })"

definition list_create_tagged_sublist :: "tag_mem \<Rightarrow> byte list option \<Rightarrow> nat option \<Rightarrow> (nat option \<times> tag_mem) option" where
  "list_create_tagged_sublist m tag sublist = (case alloc_value m of
     (None, m) \<Rightarrow> Some (None, m)
   | (Some a, m) \<Rightarrow> do {
       m \<leftarrow> copy_tag tag a m;
       m \<leftarrow> set_tagged a (\<lambda>v. v\<lparr>tv_type := TV_TYPE_LIST, tv_value := sublist\<rparr>) m;
       Some (Some a, m)
     })"

section \<open>Release\<close>

text \<open>
  \<open>list_destroy_tagged_value_internal\<close> and \<open>list_destroy\<close> call each other for lists inside of lists;
  the first argument bounds how deep the lists are nested, and one that is deeper has no result.
\<close>

definition destroy_tagged ::
  "(nat \<Rightarrow> tag_mem \<Rightarrow> tag_mem option) \<Rightarrow> bool \<Rightarrow> nat option \<Rightarrow> tag_mem \<Rightarrow> tag_mem option" where
  "destroy_tagged destroy_list free_cb tval m = (case tval of
     None \<Rightarrow> Some m
   | Some a \<Rightarrow> do {
       tv \<leftarrow> tg_values m a;
       m \<leftarrow> (case tv_value tv of
               None \<Rightarrow> Some m
             | Some v \<Rightarrow>
                 if tv_type tv = TV_TYPE_LIST then destroy_list v m
                 else if free_cb then Some (m\<lparr>lm_freed := lm_freed m @ [Some v]\<rparr>)
                 else if tv_vlen tv \<noteq> 0 then free_buf v m
                 else Some m);
       free_tagged a m
     })"

primrec list_destroy_tagged_value_internal :: "nat \<Rightarrow> bool \<Rightarrow> nat option \<Rightarrow> tag_mem \<Rightarrow> tag_mem option" where
  "list_destroy_tagged_value_internal 0 free_cb tval m = destroy_tagged (\<lambda>_ _. None) free_cb tval m"
| "list_destroy_tagged_value_internal (Suc n) free_cb tval m =
     destroy_tagged (\<lambda>l m. list_destroy (list_destroy_tagged_value_internal n) m l) free_cb tval m"

definition list_destroy_tagged_value :: "nat \<Rightarrow> nat option \<Rightarrow> tag_mem \<Rightarrow> tag_mem option" where
  "list_destroy_tagged_value n tval m = list_destroy_tagged_value_internal n False tval m"

section \<open>Access\<close>

definition list_pop_tagged_value :: "tag_mem \<Rightarrow> nat \<Rightarrow> (nat option \<times> tag_mem) option" where
  "list_pop_tagged_value m l = list_pop_value m l"

definition list_push_tagged_value :: "tag_mem \<Rightarrow> nat \<Rightarrow> nat option \<Rightarrow> (int \<times> tag_mem) option" where
  "list_push_tagged_value m l tval =
     (if tval = None then Some (0, m) else add_value m tval True 0 (\<lambda>m e. push_entry m l e))"

definition list_unshift_tagged_value :: "tag_mem \<Rightarrow> nat \<Rightarrow> nat option \<Rightarrow> (int \<times> tag_mem) option" where
  "list_unshift_tagged_value m l tval =
     (if tval = None then Some (0, m) else add_value m tval True 0 (\<lambda>m e. unshift_entry m l e))"

definition shift_tagged_value :: "tag_mem \<Rightarrow> nat \<Rightarrow> (nat option \<times> tag_mem) option" where
  "shift_tagged_value m l = list_shift_value m l"

definition list_insert_tagged_value :: "tag_mem \<Rightarrow> nat \<Rightarrow> nat option \<Rightarrow> nat \<Rightarrow> (int \<times> tag_mem) option" where
  "list_insert_tagged_value m l tval pos =
     (if tval = None then Some (0, m) else add_value m tval True 0 (\<lambda>m e. insert_entry m l e pos))"

definition list_pick_tagged_value :: "tag_mem \<Rightarrow> nat \<Rightarrow> nat \<Rightarrow> (nat option \<times> tag_mem) option" where
  "list_pick_tagged_value m l pos = list_pick_value m l pos"

definition list_fetch_tagged_value :: "tag_mem \<Rightarrow> nat \<Rightarrow> nat \<Rightarrow> (nat option \<times> tag_mem) option" where
  "list_fetch_tagged_value m l pos = list_fetch_value m l pos"

text \<open>The loop of \<open>list_get_tagged_value\<close>; \<open>strcmp\<close> of a NULL tag is undefined.\<close>

partial_function (option) get_tagged_loop :: "tag_mem \<Rightarrow> nat \<Rightarrow> byte list \<Rightarrow> int \<Rightarrow> (nat option \<times> tag_mem) option" where
  "get_tagged_loop m l tag i = do {
     n \<leftarrow> list_count m l;
     if i < to_int n then do {
       (tval, m) \<leftarrow> list_pick_tagged_value m l (nat i);
       case tval of
         None \<Rightarrow> get_tagged_loop m l tag (i + 1)
       | Some a \<Rightarrow> do {
           tv \<leftarrow> tg_values m a;
           t \<leftarrow> tv_tag tv;
           if t = tag then Some (tval, m) else get_tagged_loop m l tag (i + 1)
         }
     } else Some (None, m)
   }"

definition list_get_tagged_value :: "tag_mem \<Rightarrow> nat \<Rightarrow> byte list \<Rightarrow> (nat option \<times> tag_mem) option" where
  "list_get_tagged_value m l tag = get_tagged_loop m l tag 0"

partial_function (option) get_tagged_values_loop ::
  "tag_mem \<Rightarrow> nat \<Rightarrow> byte list \<Rightarrow> nat \<Rightarrow> int \<Rightarrow> int \<Rightarrow> (int \<times> tag_mem) option" where
  "get_tagged_values_loop m l tag vals i ret = do {
     n \<leftarrow> list_count m l;
     if i < to_int n then do {
       (tval, m) \<leftarrow> list_pick_tagged_value m l (nat i);
       case tval of
         None \<Rightarrow> get_tagged_values_loop m l tag vals (i + 1) ret
       | Some a \<Rightarrow> do {
           tv \<leftarrow> tg_values m a;
           t \<leftarrow> tv_tag tv;
           if t = tag then do {
             (_, m) \<leftarrow> list_push_value m vals (tv_value tv);
             get_tagged_values_loop m l tag vals (i + 1) (ret + 1)
           } else get_tagged_values_loop m l tag vals (i + 1) ret
         }
     } else Some (ret, m)
   }"

definition list_get_tagged_values :: "tag_mem \<Rightarrow> nat \<Rightarrow> byte list \<Rightarrow> nat \<Rightarrow> (int \<times> tag_mem) option" where
  "list_get_tagged_values m l tag vals = get_tagged_values_loop m l tag vals 0 0"

text \<open>
  The search of \<open>list_set_tagged_value\<close>: the position and the value of the first entry with the
  tag. The first characters are compared before the strings; a string that is at its end has the character 0.
\<close>

definition first_char :: "byte list \<Rightarrow> byte" where
  "first_char t = (case t of [] \<Rightarrow> 0 | c # _ \<Rightarrow> c)"

partial_function (option) set_tagged_loop ::
  "tag_mem \<Rightarrow> nat \<Rightarrow> byte list option \<Rightarrow> int \<Rightarrow> ((nat \<times> nat) option \<times> tag_mem) option" where
  "set_tagged_loop m l tag i = do {
     n \<leftarrow> list_count m l;
     if i < to_int n then do {
       (tval, m) \<leftarrow> list_pick_tagged_value m l (nat i);
       found \<leftarrow> (case tval of
                   None \<Rightarrow> Some None
                 | Some a \<Rightarrow> do {
                     tv \<leftarrow> tg_values m a;
                     case tv_tag tv of
                       None \<Rightarrow> Some None
                     | Some t \<Rightarrow> do {
                         tag \<leftarrow> tag;
                         Some (if first_char t = first_char tag \<and> t = tag then Some (nat i, a) else None)
                       }
                   });
       if found \<noteq> None then Some (found, m) else set_tagged_loop m l tag (i + 1)
     } else Some (None, m)
   }"

definition list_set_tagged_value ::
  "tag_mem \<Rightarrow> nat \<Rightarrow> byte list option \<Rightarrow> nat option \<Rightarrow> nat \<Rightarrow> bool \<Rightarrow> (nat option \<times> tag_mem) option" where
  "list_set_tagged_value m l tag val len copy = do {
     (tval, m) \<leftarrow> (if copy then list_create_tagged_value m tag val len
                   else list_create_tagged_value_nocopy m tag val);
     (found, m) \<leftarrow> set_tagged_loop m l tag 0;
     case found of
       Some (i, tv) \<Rightarrow> do {
         (old, m) \<leftarrow> list_set_value m l i tval;
         if old = None then do { m \<leftarrow> list_destroy_tagged_value 0 tval m; Some (None, m) }
         else Some (Some tv, m)
       }
     | None \<Rightarrow> do {
         (res, m) \<leftarrow> list_push_tagged_value m l tval;
         m \<leftarrow> (if res = 0 then list_destroy_tagged_value 0 tval m else Some m);
         Some (None, m)
       }
   }"

end
