(* ===== verification/Tagged_Spec.thy ===== *)
theory Tagged_Spec
  imports Tagged
begin

text \<open>
  What the tagged interface promises: a search by tag finds the first value with the tag, and a value
  set for a tag is the one found afterwards.
\<close>

definition tag_of :: "tag_mem \<Rightarrow> nat option \<Rightarrow> byte list option" where
  "tag_of m v = do { a \<leftarrow> v; tv \<leftarrow> tg_values m a; tv_tag tv }"

definition tagged_ok :: "tag_mem \<Rightarrow> (nat \<times> nat option) list \<Rightarrow> bool" where
  "tagged_ok m es \<longleftrightarrow> (\<forall>v\<in>set (map snd es). v = None \<or> tag_of m v \<noteq> None)"

text \<open>The position of the first entry with a tag.\<close>

fun tag_pos :: "tag_mem \<Rightarrow> byte list \<Rightarrow> (nat \<times> nat option) list \<Rightarrow> nat option" where
  "tag_pos m tag [] = None"
| "tag_pos m tag (e # es) = (if tag_of m (snd e) = Some tag then Some 0 else map_option Suc (tag_pos m tag es))"

lemma tag_pos_Some:
  "tag_pos m tag es = Some k \<longleftrightarrow> k < length es \<and> tag_of m (snd (es ! k)) = Some tag \<and> (\<forall>j<k. tag_of m (snd (es ! j)) \<noteq> Some tag)"
proof (induction es arbitrary: k)
  case (Cons e es)
  then show ?case by (cases k) (auto simp: less_Suc_eq_0_disj)
qed simp

lemma tag_pos_None: "tag_pos m tag es = None \<longleftrightarrow> (\<forall>v\<in>set (map snd es). tag_of m v \<noteq> Some tag)"
  by (induction es) auto

lemma tag_pos_cong: "tg_values m' = tg_values m \<Longrightarrow> tag_pos m' tag es = tag_pos m tag es"
  by (induction es) (simp_all add: tag_of_def)

lemma tag_pos_drop:
  "i < length es \<Longrightarrow> tag_pos m tag (drop i es) =
     (if tag_of m (snd (es ! i)) = Some tag then Some 0 else map_option Suc (tag_pos m tag (drop (Suc i) es)))"
  by (simp add: Cons_nth_drop_Suc [symmetric])

lemma keeps_tagged: "keeps m m' l A \<Longrightarrow> tg_values m' = tg_values m \<and> tg_bufs m' = tg_bufs m" for m m' :: tag_mem
  by (cases m; cases m') (simp add: keeps_def)

lemma step_tagged: "list_step m l es m' es' \<Longrightarrow> tg_values m' = tg_values m \<and> tg_bufs m' = tg_bufs m" for m m' :: tag_mem
  unfolding list_step_def using keeps_tagged by blast

lemma tag_of_cong: "tg_values m' = tg_values m \<Longrightarrow> tag_of m' = tag_of m"
  by (simp add: tag_of_def fun_eq_iff)

lemma tagged_ok_cong: "tg_values m' = tg_values m \<Longrightarrow> tagged_ok m' es = tagged_ok m es"
  by (simp add: tagged_ok_def tag_of_def)

lemma list_count_at: "list_at m l es \<Longrightarrow> list_count m l = Some (length es) \<and> to_int (length es) = int (length es)"
  by (auto simp: list_at_def list_shape_def list_count_def entries_ok_def to_int_eq)

lemma get_tagged_loop_step:
  assumes "list_count m l = Some n" and "int i < to_int n" and "list_pick_value m l i = Some (v, m1)"
    and "v = None \<or> tag_of m1 v \<noteq> None"
  shows "get_tagged_loop m l tag (int i) = (if tag_of m1 v = Some tag then Some (v, m1) else get_tagged_loop m1 l tag (int (Suc i)))"
proof (cases v)
  case None
  then show ?thesis using assms
    by (subst get_tagged_loop.simps) (simp add: list_pick_tagged_value_def tag_of_def add.commute)
next
  case (Some a)
  with assms(4) obtain tv t where "tg_values m1 a = Some tv" "tv_tag tv = Some t" by (auto simp: tag_of_def bind_eq_Some_conv)
  then show ?thesis using assms Some
    by (subst get_tagged_loop.simps) (simp add: list_pick_tagged_value_def tag_of_def add.commute)
qed

lemma get_tagged_loop_ok:
  assumes "list_at m l es" and "tagged_ok m es" and "i \<le> length es"
  shows "\<exists>m'. get_tagged_loop m l tag (int i) =
      Some (case tag_pos m tag (drop i es) of None \<Rightarrow> None | Some k \<Rightarrow> snd (es ! (i + k)), m') \<and> list_step m l es m' es"
  using assms
proof (induction "length es - i" arbitrary: m i)
  case 0
  then show ?case using list_count_at [OF 0(2)] list_step_refl [OF 0(2)] by (subst get_tagged_loop.simps) simp
next
  case (Suc n)
  then have i: "i < length es" by simp
  from list_pick_value_ok [OF Suc.prems(1) i] obtain m1 where
    p: "list_pick_value m l i = Some (snd (es ! i), m1)" and st: "list_step m l es m1 es" by auto
  note tg = step_tagged [OF st]
  have tag: "tag_of m1 = tag_of m" using tag_of_cong tg by blast
  have "snd (es ! i) = None \<or> tag_of m1 (snd (es ! i)) \<noteq> None"
    using Suc.prems(2) i by (auto simp: tagged_ok_def tag)
  then have run: "get_tagged_loop m l tag (int i) =
      (if tag_of m (snd (es ! i)) = Some tag then Some (snd (es ! i), m1) else get_tagged_loop m1 l tag (int (Suc i)))" for tag
    using get_tagged_loop_step [OF _ _ p] list_count_at [OF Suc.prems(1)] i by (simp add: tag)
  show ?case
  proof (cases "tag_of m (snd (es ! i)) = Some tag")
    case True
    then show ?thesis using st i by (simp add: tag_pos_drop run)
  next
    case False
    have "list_at m1 l es" using st by (simp add: list_step_def)
    moreover have "n = length es - Suc i" using Suc.hyps(2) by simp
    ultimately obtain m' where
      "get_tagged_loop m1 l tag (int (Suc i)) =
        Some (case tag_pos m tag (drop (Suc i) es) of None \<Rightarrow> None | Some k \<Rightarrow> snd (es ! (Suc i + k)), m')" "list_step m1 l es m' es"
      using Suc.hyps(1) [of "Suc i" m1] Suc.prems(2) i tg tagged_ok_cong [of m1 m] tag_pos_cong [of m1 m] by auto
    then show ?thesis using False i list_step_trans [OF st]
      by (intro exI [of _ m'], cases "tag_pos m tag (drop (Suc i) es)") (simp_all add: tag_pos_drop run)
  qed
qed

lemma set_tagged_loop_step:
  assumes "list_count m l = Some n" and "int i < to_int n" and "list_pick_value m l i = Some (v, m1)"
    and "v = None \<or> tag_of m1 v \<noteq> None"
  shows "set_tagged_loop m l (Some tag) (int i) =
    (if tag_of m1 v = Some tag then Some (Some (i, the v), m1) else set_tagged_loop m1 l (Some tag) (int (Suc i)))"
proof (cases v)
  case None
  then show ?thesis using assms
    by (subst set_tagged_loop.simps) (simp add: list_pick_tagged_value_def tag_of_def add.commute)
next
  case (Some a)
  with assms(4) obtain tv t where "tg_values m1 a = Some tv" "tv_tag tv = Some t" by (auto simp: tag_of_def bind_eq_Some_conv)
  then show ?thesis using assms Some
    by (subst set_tagged_loop.simps) (auto simp: list_pick_tagged_value_def tag_of_def add.commute)
qed

lemma set_tagged_loop_ok:
  assumes "list_at m l es" and "tagged_ok m es" and "i \<le> length es"
  shows "\<exists>m'. set_tagged_loop m l (Some tag) (int i) =
      Some (map_option (\<lambda>k. (i + k, the (snd (es ! (i + k))))) (tag_pos m tag (drop i es)), m') \<and> list_step m l es m' es"
  using assms
proof (induction "length es - i" arbitrary: m i)
  case 0
  then show ?case using list_count_at [OF 0(2)] list_step_refl [OF 0(2)] by (subst set_tagged_loop.simps) simp
next
  case (Suc n)
  then have i: "i < length es" by simp
  from list_pick_value_ok [OF Suc.prems(1) i] obtain m1 where
    p: "list_pick_value m l i = Some (snd (es ! i), m1)" and st: "list_step m l es m1 es" by auto
  note tg = step_tagged [OF st]
  have tag: "tag_of m1 = tag_of m" using tag_of_cong tg by blast
  have "snd (es ! i) = None \<or> tag_of m1 (snd (es ! i)) \<noteq> None"
    using Suc.prems(2) i by (auto simp: tagged_ok_def tag)
  then have run: "set_tagged_loop m l (Some tag) (int i) =
      (if tag_of m (snd (es ! i)) = Some tag then Some (Some (i, the (snd (es ! i))), m1)
       else set_tagged_loop m1 l (Some tag) (int (Suc i)))" for tag
    using set_tagged_loop_step [OF _ _ p] list_count_at [OF Suc.prems(1)] i by (simp add: tag)
  show ?case
  proof (cases "tag_of m (snd (es ! i)) = Some tag")
    case True
    then show ?thesis using st i by (simp add: tag_pos_drop run)
  next
    case False
    have "list_at m1 l es" using st by (simp add: list_step_def)
    moreover have "n = length es - Suc i" using Suc.hyps(2) by simp
    ultimately obtain m' where
      "set_tagged_loop m1 l (Some tag) (int (Suc i)) =
        Some (map_option (\<lambda>k. (Suc i + k, the (snd (es ! (Suc i + k))))) (tag_pos m tag (drop (Suc i) es)), m')" "list_step m1 l es m' es"
      using Suc.hyps(1) [of "Suc i" m1] Suc.prems(2) i tg tagged_ok_cong [of m1 m] tag_pos_cong [of m1 m] by auto
    then show ?thesis using False i list_step_trans [OF st]
      by (intro exI [of _ m']) (simp add: tag_pos_drop run option.map_comp o_def)
  qed
qed

text \<open>The creation of a value, when nothing fails: the tag is the one given and the old memory is kept.\<close>

definition created :: "tag_mem \<Rightarrow> tag_mem \<Rightarrow> nat \<Rightarrow> tagged_value_t \<Rightarrow> bool" where
  "created m m' a tv \<longleftrightarrow> a = lm_brk m \<and> tg_values m' = (tg_values m)(a \<mapsto> tv) \<and> lm_brk m < lm_brk m' \<and>
     lm_entries m' = lm_entries m \<and> lm_lists m' = lm_lists m \<and> lm_fails m' = lm_fails m \<and>
     (\<forall>b. b < lm_brk m \<longrightarrow> tg_bufs m' b = tg_bufs m b)"

lemma create_nocopy_ok:
  assumes "\<And>i. \<not> lm_fails m i"
  shows "\<exists>m'. list_create_tagged_value_nocopy m (Some tag) val = Some (Some (lm_brk m), m') \<and>
    created m m' (lm_brk m) \<lparr>tv_tag = Some tag, tv_value = val, tv_vlen = 0, tv_type = TV_TYPE_STRING\<rparr>"
  using assms by (simp add: list_create_tagged_value_nocopy_def alloc_value_def alloc_def copy_tag_def set_tagged_def created_def Let_def)

lemma create_copy_ok:
  assumes "\<And>i. \<not> lm_fails m i" and "tg_bufs m v = Some src" and "0 < len" and "len \<le> length src"
  shows "\<exists>m' b. list_create_tagged_value m (Some tag) (Some v) len = Some (Some (lm_brk m), m') \<and>
    created m m' (lm_brk m) \<lparr>tv_tag = Some tag, tv_value = Some b, tv_vlen = len, tv_type = TV_TYPE_BINARY\<rparr> \<and>
    tg_bufs m' b = Some (take len src @ [0])"
  using assms by (auto simp: list_create_tagged_value_def alloc_value_def alloc_def copy_tag_def set_tagged_def created_def Let_def)

lemma created_list_at: "created m m' a tv \<Longrightarrow> list_at m l es \<Longrightarrow> list_at m' l es"
  by (auto simp: created_def list_at_def entries_ok_def)

lemma created_tagged_ok:
  assumes "created m m' a tv" and "tagged_ok m es" and "\<forall>v\<in>set (map snd es). v \<noteq> Some (lm_brk m)"
  shows "tagged_ok m' es" "tag_pos m' tag es = tag_pos m tag es"
proof -
  have *: "tag_of m' v = tag_of m v" if "v \<noteq> Some (lm_brk m)" for v
    using assms(1) that by (cases v) (auto simp: created_def tag_of_def)
  show "tagged_ok m' es" using assms(2,3) * by (auto simp: tagged_ok_def)
  show "tag_pos m' tag es = tag_pos m tag es" using assms(3) by (induction es) (auto simp: *)
qed

lemma create_any_ok:
  assumes "\<And>i. \<not> lm_fails m i" and "copy \<Longrightarrow> tg_bufs m (the val) = Some src \<and> 0 < len \<and> len \<le> length src \<and> val \<noteq> None"
  shows "\<exists>m' tv. (if copy then list_create_tagged_value m (Some tag) val len
      else list_create_tagged_value_nocopy m (Some tag) val) = Some (Some (lm_brk m), m') \<and> created m m' (lm_brk m) tv \<and> tv_tag tv = Some tag \<and>
    (if copy then tv_vlen tv = len \<and> Option.bind (tv_value tv) (tg_bufs m') = Some (take len src @ [0])
     else tv_vlen tv = 0 \<and> tv_value tv = val)"
proof (cases copy)
  case True
  with assms(2) obtain v where v: "val = Some v" "tg_bufs m v = Some src" "0 < len" "len \<le> length src" by auto
  from create_copy_ok [OF assms(1) v(2-4)] obtain m' b where "list_create_tagged_value m (Some tag) (Some v) len = Some (Some (lm_brk m), m')"
    "created m m' (lm_brk m) \<lparr>tv_tag = Some tag, tv_value = Some b, tv_vlen = len, tv_type = TV_TYPE_BINARY\<rparr>"
    "tg_bufs m' b = Some (take len src @ [0])" by blast
  then show ?thesis using True v(1) by fastforce
next
  case False
  then show ?thesis using create_nocopy_ok [OF assms(1), of tag val] by fastforce
qed

section \<open>Properties\<close>

text \<open>
  \<open>list_get_tagged_value\<close> returns the first value of the list that has the tag, or NULL exactly if none
  has it, and changes neither the list nor the values.
\<close>

theorem tagged_get_first:
  assumes "list_at m l es" and "tagged_ok m es"
  shows "\<exists>r m'. list_get_tagged_value m l tag = Some (r, m') \<and> list_at m' l es \<and> tg_values m' = tg_values m \<and>
    (r = None \<longleftrightarrow> (\<forall>v\<in>set (map snd es). tag_of m v \<noteq> Some tag)) \<and>
    (r \<noteq> None \<longrightarrow> (\<exists>k<length es. r = snd (es ! k) \<and> tag_of m r = Some tag \<and> (\<forall>j<k. tag_of m (snd (es ! j)) \<noteq> Some tag)))"
proof -
  from get_tagged_loop_ok [OF assms, of 0 tag] obtain m' where
    run: "list_get_tagged_value m l tag = Some (case tag_pos m tag es of None \<Rightarrow> None | Some k \<Rightarrow> snd (es ! k), m')"
    and st: "list_step m l es m' es" by (auto simp: list_get_tagged_value_def option.case_eq_if)
  have "list_at m' l es" "tg_values m' = tg_values m" using st step_tagged [OF st] by (simp_all add: list_step_def)
  then show ?thesis
  proof (cases "tag_pos m tag es")
    case None
    then show ?thesis using run \<open>list_at m' l es\<close> \<open>tg_values m' = tg_values m\<close> tag_pos_None [of m tag es] by simp
  next
    case (Some k)
    then have k: "k < length es" "tag_of m (snd (es ! k)) = Some tag" "\<forall>j<k. tag_of m (snd (es ! j)) \<noteq> Some tag"
      by (simp_all add: tag_pos_Some)
    then have "snd (es ! k) \<noteq> None" by (auto simp: tag_of_def bind_eq_Some_conv)
    moreover have "\<not> (\<forall>v\<in>set (map snd es). tag_of m v \<noteq> Some tag)" using Some tag_pos_None [of m tag es] by auto
    ultimately show ?thesis using run Some k \<open>list_at m' l es\<close> \<open>tg_values m' = tg_values m\<close>
      by (intro exI [of _ "snd (es ! k)"] exI [of _ m']) auto
  qed
qed

text \<open>
  \<open>C36\<close>: \<open>list_set_tagged_value\<close> for a tag that is in the list replaces the first value that has it
  by a new one and returns the old one, which stays allocated; \<open>list_get_tagged_value\<close> then finds the new value,
  which holds the tag and a copy of the bytes with a zero behind them, or the caller's pointer when no copy was asked for.
\<close>

theorem tagged_set_get:
  assumes "list_at m l es" and "tagged_ok m es" and "\<And>i. \<not> lm_fails m i" and "\<forall>a. Some a \<in> set (map snd es) \<longrightarrow> a < lm_brk m"
    and "k < length es" and "tag_of m (snd (es ! k)) = Some tag" and "\<forall>j<k. tag_of m (snd (es ! j)) \<noteq> Some tag"
    and "copy \<Longrightarrow> tg_bufs m (the val) = Some src \<and> 0 < len \<and> len \<le> length src \<and> val \<noteq> None"
  shows "\<exists>m1 m2 a tv. list_set_tagged_value m l (Some tag) val len copy = Some (snd (es ! k), m1) \<and>
    list_at m1 l (es[k := (fst (es ! k), Some a)]) \<and> tg_values m1 (the (snd (es ! k))) = tg_values m (the (snd (es ! k))) \<and>
    list_get_tagged_value m1 l tag = Some (Some a, m2) \<and> tg_values m1 a = Some tv \<and> tv_tag tv = Some tag \<and>
    (if copy then tv_vlen tv = len \<and> Option.bind (tv_value tv) (tg_bufs m1) = Some (take len src @ [0])
     else tv_vlen tv = 0 \<and> tv_value tv = val)"
proof -
  let ?a = "lm_brk m" and ?es = "es[k := (fst (es ! k), Some (lm_brk m))]"
  from create_any_ok [OF assms(3,8), of copy tag] obtain m1 tv where
    c: "(if copy then list_create_tagged_value m (Some tag) val len
      else list_create_tagged_value_nocopy m (Some tag) val) = Some (Some ?a, m1)" and cr: "created m m1 ?a tv" and tv: "tv_tag tv = Some tag"
      "if copy then tv_vlen tv = len \<and> Option.bind (tv_value tv) (tg_bufs m1) = Some (take len src @ [0])
       else tv_vlen tv = 0 \<and> tv_value tv = val" by blast
  have fresh: "\<forall>v\<in>set (map snd es). v \<noteq> Some ?a" using assms(4) by (metis less_irrefl)
  have at1: "list_at m1 l es" by (rule created_list_at [OF cr assms(1)])
  note ok1 = created_tagged_ok [OF cr assms(2) fresh]
  have tp: "tag_pos m tag es = Some k" using assms(5-7) by (simp add: tag_pos_Some)
  from set_tagged_loop_ok [OF at1 ok1(1), of 0 tag] obtain m2 where
    s: "set_tagged_loop m1 l (Some tag) 0 = Some (Some (k, the (snd (es ! k))), m2)" "list_step m1 l es m2 es"
    by (auto simp: ok1(2) tp)
  have at2: "list_at m2 l es" using s(2) by (simp add: list_step_def)
  from list_set_value_ok [OF at2 assms(5), of "Some ?a"] obtain m3 where
    v: "list_set_value m2 l k (Some ?a) = Some (snd (es ! k), m3)" "list_step m2 l es m3 ?es" by auto
  have old: "snd (es ! k) \<noteq> None" using assms(6) by (auto simp: tag_of_def bind_eq_Some_conv)
  have at3: "list_at m3 l ?es" using v(2) by (simp add: list_step_def)
  have tg: "tg_values m3 = (tg_values m)(?a \<mapsto> tv)" "tg_bufs m3 = tg_bufs m1"
    using step_tagged [OF s(2)] step_tagged [OF v(2)] cr by (simp_all add: created_def)
  have tag3: "tag_of m3 w = (if w = Some ?a then Some tag else tag_of m w)" for w
    by (cases w) (simp_all add: tag_of_def tg tv(1))
  have "tag_pos m3 tag ?es = Some k"
    using assms(5,7) fresh by (auto simp: tag_pos_Some tag3)
  moreover have "tagged_ok m3 ?es" using assms(2) set_update_subset_insert [of "map snd es" k "Some ?a"]
    by (auto simp: tagged_ok_def tag3 map_update)
  ultimately obtain m4 where g: "list_get_tagged_value m3 l tag = Some (Some ?a, m4)"
    using get_tagged_loop_ok [OF at3, of 0 tag] assms(5) by (auto simp: list_get_tagged_value_def)
  have "list_set_tagged_value m l (Some tag) val len copy = Some (snd (es ! k), m3)"
    using c s(1) v(1) old by (auto simp: list_set_tagged_value_def)
  moreover have "tg_values m3 (the (snd (es ! k))) = tg_values m (the (snd (es ! k)))"
    using tg(1) old fresh assms(5) by auto
  ultimately show ?thesis using at3 g tv tg by (intro exI [of _ m3] exI [of _ m4] exI [of _ ?a] exI [of _ tv]) simp
qed

section \<open>Witnesses\<close>

text \<open>A list of two tagged values, one with a buffer and one with a pointer of the caller.\<close>

definition tags_ex :: tag_mem where
  "tags_ex = \<lparr>lm_entries =
       [1 \<mapsto> \<lparr>le_list = Some 0, le_prev = None, le_next = Some 2, le_value = Some 3, le_tagged = True\<rparr>,
        2 \<mapsto> \<lparr>le_list = Some 0, le_prev = Some 1, le_next = None, le_value = Some 4, le_tagged = True\<rparr>],
     lm_lists = [0 \<mapsto> \<lparr>ll_head = Some 1, ll_tail = Some 2, ll_cur = None, ll_pos = 0, ll_length = 2,
        ll_free_cb = False, ll_slices = None\<rparr>],
     lm_slices = Map.empty, lm_slice_entries = Map.empty, lm_brk = 7, lm_fails = (\<lambda>_. False), lm_freed = [],
     tg_values = [3 \<mapsto> \<lparr>tv_tag = Some [97], tv_value = Some 5, tv_vlen = 2, tv_type = TV_TYPE_BINARY\<rparr>,
                  4 \<mapsto> \<lparr>tv_tag = Some [98], tv_value = Some 6, tv_vlen = 0, tv_type = TV_TYPE_STRING\<rparr>],
     tg_bufs = [5 \<mapsto> [1, 2, 0], 6 \<mapsto> [7, 8, 9]]\<rparr>"

lemma tags_ex_ok: "list_at tags_ex 0 [(1, Some 3), (2, Some 4)]" "tagged_ok tags_ex [(1, Some 3), (2, Some 4)]"
  by (simp_all add: tags_ex_def list_at_def entries_ok_def list_shape_def tagged_ok_def tag_of_def)

theorem tagged_get_first_witness:
  "\<exists>m'. list_get_tagged_value tags_ex 0 [98] = Some (Some 4, m') \<and> list_at m' 0 [(1, Some 3), (2, Some 4)]"
  using tagged_get_first [OF tags_ex_ok, of "[98]"]
  by (auto simp: tags_ex_def tag_of_def less_Suc_eq numeral_2_eq_2 nth_Cons')

theorem tagged_set_get_witness:
  "\<exists>m1 m2 tv. list_set_tagged_value tags_ex 0 (Some [98]) (Some 6) 3 True = Some (Some 4, m1) \<and>
     (\<exists>a. list_get_tagged_value m1 0 [98] = Some (Some a, m2) \<and> tg_values m1 a = Some tv \<and>
       Option.bind (tv_value tv) (tg_bufs m1) = Some [7, 8, 9, 0])"
proof -
  have "\<not> lm_fails tags_ex i" for i by (simp add: tags_ex_def)
  from tagged_set_get [OF tags_ex_ok this, of 1 "[98]" True "Some 6" "[7, 8, 9]" 3] show ?thesis
    by (auto simp: tags_ex_def tag_of_def)
qed

section \<open>What goes wrong\<close>

lemma push_tagged_ok:
  assumes "list_at m l es" and "\<not> lm_fails m (lm_brk m)" and "length es < 2147483647" and "tval \<noteq> None"
  shows "\<exists>m' es'. list_push_tagged_value m l tval = Some (0, m') \<and> list_step m l es m' es' \<and> map snd es' = map snd es @ [tval]"
proof -
  have "\<exists>m' es'. add_value m tval True 0 (\<lambda>m e. push_entry m l e) = Some (0, m') \<and> list_step m l es m' es' \<and> map snd es' = map snd es @ [tval]"
  proof (rule add_value_ok [OF assms(1,2)], goal_cases)
    case (1 m1)
    with push_entry_ok [OF 1(1-3) assms(3)] show ?case by fastforce
  qed
  then show ?thesis using assms(4) by (auto simp: list_push_tagged_value_def)
qed

text \<open>
  \<open>list_set_tagged_value\<close> for a tag that is not in the list pushes the new value and then releases it, because it
  takes the 0 that \<open>list_push_tagged_value\<close> returns for a failure: the list ends with a pointer to released
  memory.
\<close>

lemma set_unknown_tag_dangles:
  assumes "list_at m l es" and "tagged_ok m es" and "\<And>i. \<not> lm_fails m i" and "\<forall>a. Some a \<in> set (map snd es) \<longrightarrow> a < lm_brk m"
    and "\<forall>v\<in>set (map snd es). tag_of m v \<noteq> Some tag" and "length es < 2147483647"
  shows "\<exists>m' es' a. list_set_tagged_value m l (Some tag) val len False = Some (None, m') \<and> list_at m' l es' \<and>
    map snd es' = map snd es @ [Some a] \<and> tg_values m' a = None"
proof -
  let ?a = "lm_brk m"
  from create_nocopy_ok [OF assms(3), of tag val] obtain m1 where
    c: "list_create_tagged_value_nocopy m (Some tag) val = Some (Some ?a, m1)" and
    cr: "created m m1 ?a \<lparr>tv_tag = Some tag, tv_value = val, tv_vlen = 0, tv_type = TV_TYPE_STRING\<rparr>" by blast
  have fresh: "\<forall>v\<in>set (map snd es). v \<noteq> Some ?a" using assms(4) by (metis less_irrefl)
  have at1: "list_at m1 l es" by (rule created_list_at [OF cr assms(1)])
  note ok1 = created_tagged_ok [OF cr assms(2) fresh]
  have "tag_pos m tag es = None" using assms(5) tag_pos_None [of m tag es] by simp
  with set_tagged_loop_ok [OF at1 ok1(1), of 0 tag] obtain m2 where
    s: "set_tagged_loop m1 l (Some tag) 0 = Some (None, m2)" "list_step m1 l es m2 es"
    by (auto simp: ok1(2))
  have at2: "list_at m2 l es" "lm_fails m2 = lm_fails m" using s(2) cr by (simp_all add: list_step_def keeps_def created_def)
  from push_tagged_ok [OF at2(1) _ assms(6), of "Some ?a"] at2(2) assms(3) obtain m3 es' where
    p: "list_push_tagged_value m2 l (Some ?a) = Some (0, m3)" "list_step m2 l es m3 es'" "map snd es' = map snd es @ [Some ?a]" by auto
  have "tg_values m3 ?a = Some \<lparr>tv_tag = Some tag, tv_value = val, tv_vlen = 0, tv_type = TV_TYPE_STRING\<rparr>"
    using step_tagged [OF s(2)] step_tagged [OF p(2)] cr by (simp add: created_def)
  then have "list_destroy_tagged_value 0 (Some ?a) m3 = Some (m3\<lparr>tg_values := (tg_values m3)(?a := None)\<rparr>)"
    by (simp add: list_destroy_tagged_value_def destroy_tagged_def free_tagged_def split: option.split)
  then have "list_set_tagged_value m l (Some tag) val len False = Some (None, m3\<lparr>tg_values := (tg_values m3)(?a := None)\<rparr>)"
    using c s(1) p(1) by (simp add: list_set_tagged_value_def)
  moreover have "list_at (m3\<lparr>tg_values := (tg_values m3)(?a := None)\<rparr>) l es'"
    using p(2) by (simp add: list_step_def list_at_def entries_ok_def)
  ultimately show ?thesis using p(3) by (intro exI conjI) auto
qed

text \<open>A search through a list with a value whose tag is NULL dereferences it.\<close>

lemma get_null_tag:
  "list_get_tagged_value (tags_ex\<lparr>tg_values := [3 \<mapsto> \<lparr>tv_tag = None, tv_value = None, tv_vlen = 0, tv_type = TV_TYPE_STRING\<rparr>]\<rparr>) 0 [98] = None"
  unfolding list_get_tagged_value_def
  by (subst get_tagged_loop.simps)
    (simp add: tags_ex_def list_count_def list_pick_tagged_value_def list_pick_value_def pick_entry_def walk_up_def u32_def
      list_mem_defs to_int_eq)

end
