(* ===== verification/Rqueue.thy ===== *)
theory Rqueue
  imports Prelude
begin

text \<open>
  Model of \<open>src/src/rqueue.c\<close>: a queue of pointers in a ring of pages that are allocated once. The page that the
  reader got last is outside of the ring: a read exchanges it with the head page. The pointer to the head
  page that is stored in the page before it carries a flag in its lowest bit.

  The operations are given as a single thread runs them, with every atomic access as a step on the state. The
  checks that an access by another thread would make fail are kept. The counters for statistics and the delays
  between the attempts do not influence the result and are left out; a lock that is never released makes the
  waiting loop of a writer run forever, which is \<open>None\<close>.

  A value is an element of a type that the queue never looks into, or NULL. The calls of the release callback are recorded
  in \<open>rq_freed\<close>.
\<close>

section \<open>Data\<close>

datatype rqueue_mode_t = RQUEUE_MODE_INVALID | RQUEUE_MODE_BLOCKING | RQUEUE_MODE_OVERWRITE

text \<open>A pointer in the field \<open>next\<close>: the address and the flag \<open>RQUEUE_FLAG_HEAD\<close>.\<close>

type_synonym page_ptr = "(nat \<times> bool) option"

record 'v rqueue_page_t =
  pg_value :: "'v option"
  pg_next :: page_ptr
  pg_prev :: "nat option"

record 'v rqueue_t =
  rq_pages :: "nat \<rightharpoonup> 'v rqueue_page_t"
  rq_head :: nat
  rq_tail :: nat
  rq_commit :: nat
  rq_reader :: nat
  rq_free_cb :: bool
  rq_size :: nat
  rq_mode :: rqueue_mode_t
  rq_writes :: nat
  rq_reads :: nat
  rq_read_sync :: bool
  rq_write_sync :: bool
  rq_num_writers :: int
  rq_is_empty :: bool
  rq_freed :: "'v list"

definition RQUEUE_MIN_SIZE :: nat where
  "RQUEUE_MIN_SIZE = 2"

definition RQUEUE_READER_MAX_RETRIES :: nat where
  "RQUEUE_READER_MAX_RETRIES = 1500"

definition RQUEUE_WRITER_CAS_MAX_RETRIES :: nat where
  "RQUEUE_WRITER_CAS_MAX_RETRIES = 100"

definition RQUEUE_BLOCKING_MAX_RETRIES :: nat where
  "RQUEUE_BLOCKING_MAX_RETRIES = 2000"

definition RQUEUE_FLAG_ON :: "page_ptr \<Rightarrow> page_ptr" where
  "RQUEUE_FLAG_ON p = map_option (\<lambda>(a, _). (a, True)) p"

definition RQUEUE_FLAG_OFF :: "page_ptr \<Rightarrow> nat option" where
  "RQUEUE_FLAG_OFF p = map_option fst p"

definition RQUEUE_CHECK_FLAG :: "page_ptr \<Rightarrow> bool" where
  "RQUEUE_CHECK_FLAG p = (case p of None \<Rightarrow> False | Some (_, f) \<Rightarrow> f)"

definition set_page :: "nat \<Rightarrow> ('v rqueue_page_t \<Rightarrow> 'v rqueue_page_t) \<Rightarrow> 'v rqueue_t \<Rightarrow> 'v rqueue_t option" where
  "set_page a f q = (case rq_pages q a of None \<Rightarrow> None | Some p \<Rightarrow> Some (q\<lparr>rq_pages := (rq_pages q)(a \<mapsto> f p)\<rparr>))"

section \<open>Creation and release\<close>

definition empty_page :: "'v rqueue_page_t" where
  "empty_page = \<lparr>pg_value = None, pg_next = None, pg_prev = None\<rparr>"

text \<open>
  The allocation loop. \<open>n\<close> counts the pages that are still to come, \<open>a\<close> is the next address; the result is
  \<open>False\<close> with the pages so far when an allocation fails.
\<close>

fun create_pages ::
  "(nat \<Rightarrow> bool) \<Rightarrow> nat \<Rightarrow> nat \<Rightarrow> nat option \<Rightarrow> nat option \<Rightarrow> (nat \<rightharpoonup> 'v rqueue_page_t) \<Rightarrow>
   (bool \<times> nat option \<times> nat option \<times> (nat \<rightharpoonup> 'v rqueue_page_t)) option" where
  "create_pages fails 0 a head tail h = Some (True, head, tail, h)"
| "create_pages fails (Suc n) a head tail h =
     (if fails a then Some (False, head, tail, h)
      else do {
        let h = h(a \<mapsto> empty_page);
        (head, tail, h) \<leftarrow>
          (if head = None then Some (Some a, Some a, h)
           else case tail of
             None \<Rightarrow> Some (head, tail, h)
           | Some t \<Rightarrow> do { p \<leftarrow> h t; Some (head, tail, h(t \<mapsto> p\<lparr>pg_next := Some (a, False)\<rparr>)) });
        p \<leftarrow> h a;
        create_pages fails n (Suc a) head (Some a) (h(a \<mapsto> p\<lparr>pg_prev := tail\<rparr>))
      })"

text \<open>The cleanup of a chain that is not closed yet, and of the closed ring.\<close>

partial_function (option) free_chain :: "nat option \<Rightarrow> (nat \<rightharpoonup> 'v rqueue_page_t) \<Rightarrow> (nat \<rightharpoonup> 'v rqueue_page_t) option" where
  "free_chain current h = (case current of
     None \<Rightarrow> Some h
   | Some a \<Rightarrow> do { p \<leftarrow> h a; free_chain (RQUEUE_FLAG_OFF (pg_next p)) (h(a := None)) })"

partial_function (option) free_ring :: "nat \<Rightarrow> nat \<Rightarrow> (nat \<rightharpoonup> 'v rqueue_page_t) \<Rightarrow> (nat \<rightharpoonup> 'v rqueue_page_t) option" where
  "free_ring head page h = do {
     p \<leftarrow> h page;
     nxt \<leftarrow> RQUEUE_FLAG_OFF (pg_next p);
     let h = h(page := None);
     if nxt \<noteq> head then free_ring head nxt h else Some h
   }"

text \<open>
  \<open>rqueue_create\<close>; \<open>a\<close> is the next address. The result is the queue, or the pages that are left when an
  allocation failed.
\<close>

definition rqueue_create ::
  "(nat \<Rightarrow> bool) \<Rightarrow> nat \<Rightarrow> nat \<Rightarrow> rqueue_mode_t \<Rightarrow> ('v rqueue_t option \<times> (nat \<rightharpoonup> 'v rqueue_page_t)) option" where
  "rqueue_create fails a siz mode =
     (if fails a then Some (None, Map.empty)
      else do {
        let n = (if siz > RQUEUE_MIN_SIZE then siz else RQUEUE_MIN_SIZE);
        (ok, head, tail, h) \<leftarrow> create_pages fails (Suc n) (Suc a) None None Map.empty;
        if \<not> ok then do { h \<leftarrow> free_chain head h; Some (None, h) }
        else case (head, tail) of
          (Some h0, Some t0) \<Rightarrow> do {
            p \<leftarrow> h h0;
            let h = h(h0 \<mapsto> p\<lparr>pg_prev := Some t0\<rparr>);
            p \<leftarrow> h t0;
            let h = h(t0 \<mapsto> p\<lparr>pg_next := Some (h0, True)\<rparr>);
            let r = a + n + 2;
            if fails r then do { h \<leftarrow> free_ring h0 h0 h; Some (None, h) }
            else do {
              p \<leftarrow> h h0;
              let h = h(r \<mapsto> \<lparr>pg_value = None, pg_next = Some (h0, False), pg_prev = pg_prev p\<rparr>);
              Some (Some \<lparr>rq_pages = h, rq_head = h0, rq_tail = h0, rq_commit = h0, rq_reader = r, rq_free_cb = False,
                          rq_size = n, rq_mode = mode, rq_writes = 0, rq_reads = 0, rq_read_sync = False,
                          rq_write_sync = False, rq_num_writers = 0, rq_is_empty = True, rq_freed = []\<rparr>, h)
            }
          }
        | _ \<Rightarrow> Some (None, h)
      })"

definition rqueue_set_free_value_callback :: "'v rqueue_t \<Rightarrow> bool \<Rightarrow> 'v rqueue_t" where
  "rqueue_set_free_value_callback q cb = q\<lparr>rq_free_cb := cb\<rparr>"

definition rqueue_destroy_page :: "nat \<Rightarrow> 'v rqueue_t \<Rightarrow> 'v rqueue_t option" where
  "rqueue_destroy_page a q = do {
     p \<leftarrow> rq_pages q a;
     Some (q\<lparr>rq_pages := (rq_pages q)(a := None),
             rq_freed := rq_freed q @ (case pg_value p of Some v \<Rightarrow> if rq_free_cb q then [v] else [] | None \<Rightarrow> [])\<rparr>)
   }"

partial_function (option) destroy_loop :: "nat \<Rightarrow> 'v rqueue_t \<Rightarrow> 'v rqueue_t option" where
  "destroy_loop page q = do {
     p \<leftarrow> rq_pages q page;
     nxt \<leftarrow> RQUEUE_FLAG_OFF (pg_next p);
     q \<leftarrow> rqueue_destroy_page page q;
     if nxt \<noteq> rq_head q then destroy_loop nxt q else Some q
   }"

definition rqueue_destroy :: "'v rqueue_t \<Rightarrow> 'v rqueue_t option" where
  "rqueue_destroy q = do { q \<leftarrow> destroy_loop (rq_head q) q; rqueue_destroy_page (rq_reader q) q }"

section \<open>Reading\<close>

definition rqueue_validate_reader_snapshot :: "'v rqueue_t \<Rightarrow> nat \<Rightarrow> nat \<Rightarrow> page_ptr \<Rightarrow> bool option" where
  "rqueue_validate_reader_snapshot q head commit nxt =
     (if rq_head q = head \<and> rq_commit q = commit then do { p \<leftarrow> rq_pages q head; Some (pg_next p = nxt) } else Some False)"

text \<open>
  The exchange of the reader page and the head page, from the first \<open>CAS\<close>, which compares with the
  value just read, to the release of \<open>read_sync\<close>: \<open>None\<close> as a value means that the loop goes on.
\<close>

definition exchange_head :: "nat \<Rightarrow> page_ptr \<Rightarrow> page_ptr \<Rightarrow> 'v rqueue_t \<Rightarrow> ('v option \<times> 'v rqueue_t) option" where
  "exchange_head head nxt old_next q = do {
     H \<leftarrow> rq_pages q head;
     q \<leftarrow> set_page (rq_reader q) (\<lambda>p. p\<lparr>pg_next := RQUEUE_FLAG_ON nxt, pg_prev := pg_prev H\<rparr>) q;
     if rq_head q \<noteq> head then do { q \<leftarrow> set_page (rq_reader q) (\<lambda>p. p\<lparr>pg_next := old_next\<rparr>) q; Some (None, q) }
     else do {
       H \<leftarrow> rq_pages q head;
       prev \<leftarrow> pg_prev H;
       P \<leftarrow> rq_pages q prev;
       if pg_next P = Some (head, True) then do {
         q \<leftarrow> set_page prev (\<lambda>p. p\<lparr>pg_next := Some (rq_reader q, False)\<rparr>) q;
         n \<leftarrow> (case nxt of Some (n, False) \<Rightarrow> Some n | _ \<Rightarrow> None);
         let q = q\<lparr>rq_head := n\<rparr>;
         q \<leftarrow> set_page n (\<lambda>p. p\<lparr>pg_prev := Some (rq_reader q)\<rparr>) q;
         let q = q\<lparr>rq_reader := head\<rparr>;
         R \<leftarrow> rq_pages q head;
         case pg_value R of
           None \<Rightarrow> Some (None, q)
         | Some v \<Rightarrow> do {
             q \<leftarrow> set_page head (\<lambda>p. p\<lparr>pg_value := None\<rparr>) q;
             let q = q\<lparr>rq_reads := inc64 (rq_reads q)\<rparr>;
             Some (Some v, if rq_head q = rq_tail q then q\<lparr>rq_is_empty := True\<rparr> else q)
           }
       } else do { q \<leftarrow> set_page (rq_reader q) (\<lambda>p. p\<lparr>pg_next := old_next\<rparr>) q; Some (None, q) }
     }
   }"

definition read_round :: "'v rqueue_t \<Rightarrow> ('v option \<times> 'v rqueue_t) option" where
  "read_round q =
     (if rq_read_sync q then Some (None, q)
      else do {
        let q = q\<lparr>rq_read_sync := True\<rparr>;
        let head = rq_head q;
        let commit = rq_commit q;
        H \<leftarrow> rq_pages q head;
        let nxt = pg_next H;
        R \<leftarrow> rq_pages q (rq_reader q);
        let old_next = pg_next R;
        if rq_reader q = commit \<or> rq_is_empty q then Some (None, q\<lparr>rq_read_sync := False\<rparr>)
        else do {
          valid \<leftarrow> rqueue_validate_reader_snapshot q head commit nxt;
          if \<not> valid then Some (None, q\<lparr>rq_read_sync := False\<rparr>)
          else do { (v, q) \<leftarrow> exchange_head head nxt old_next q; Some (v, q\<lparr>rq_read_sync := False\<rparr>) }
        }
      })"

fun read_loop :: "nat \<Rightarrow> 'v rqueue_t \<Rightarrow> ('v option \<times> 'v rqueue_t) option" where
  "read_loop 0 q = Some (None, q)"
| "read_loop (Suc n) q = do { (v, q) \<leftarrow> read_round q; if v = None then read_loop n q else Some (v, q) }"

definition rqueue_read :: "'v rqueue_t \<Rightarrow> ('v option \<times> 'v rqueue_t) option" where
  "rqueue_read q = read_loop RQUEUE_READER_MAX_RETRIES q"

section \<open>Writing\<close>

definition rqueue_update_value :: "nat \<Rightarrow> 'v option \<Rightarrow> 'v rqueue_t \<Rightarrow> 'v rqueue_t option" where
  "rqueue_update_value page value q = do {
     p \<leftarrow> rq_pages q page;
     q \<leftarrow> set_page page (\<lambda>p. p\<lparr>pg_value := value\<rparr>) q;
     Some (case pg_value p of Some old \<Rightarrow> if rq_free_cb q then q\<lparr>rq_freed := rq_freed q @ [old]\<rparr> else q | None \<Rightarrow> q)
   }"

text \<open>
  One round of the loop of \<open>rqueue_write\<close>. A round ends the call with a code, or ends with \<open>continue\<close> or at the
  end of the body; the loop then has its \<open>temp_page\<close>, the new \<open>tail\<close> if the round set it, and the number of retries.
\<close>

datatype 'v round = Return int "'v rqueue_t" | Next nat "nat option" nat "'v rqueue_t"

definition leave :: "'v rqueue_t \<Rightarrow> 'v rqueue_t" where
  "leave q = q\<lparr>rq_num_writers := rq_num_writers q - 1, rq_write_sync := False\<rparr>"

text \<open>
  A failed attempt: up to the limit the writer lets go of the lock and takes it again, and the next round follows;
  then it gives up.
\<close>

definition retry :: "nat \<Rightarrow> nat option \<Rightarrow> nat \<Rightarrow> nat \<Rightarrow> 'v rqueue_t \<Rightarrow> 'v round" where
  "retry temp_page tail limit retries q =
     (if retries < limit then Next temp_page tail (Suc retries) q else Return (- 2) (leave q))"

text \<open>The head is moved on in overwrite mode.\<close>

definition advance_head :: "nat \<Rightarrow> nat \<Rightarrow> nat \<Rightarrow> 'v rqueue_t \<Rightarrow> 'v rqueue_t option" where
  "advance_head temp_page head commit q = do {
     let q = q\<lparr>rq_read_sync := True\<rparr>;
     let current_head = rq_head q;
     if current_head \<noteq> head \<or> rq_commit q \<noteq> commit then Some (q\<lparr>rq_read_sync := False\<rparr>)
     else do {
       H \<leftarrow> rq_pages q current_head;
       H' \<leftarrow> rq_pages q head;
       nextpp \<leftarrow> RQUEUE_FLAG_OFF (pg_next H);
       if Some nextpp \<noteq> RQUEUE_FLAG_OFF (pg_next H') then Some (q\<lparr>rq_read_sync := False\<rparr>)
       else if pg_next H = Some (nextpp, False) then do {
         q \<leftarrow> set_page current_head (\<lambda>p. p\<lparr>pg_next := Some (nextpp, True)\<rparr>) q;
         q \<leftarrow> set_page temp_page (\<lambda>p. if pg_next p = Some (current_head, True) then p\<lparr>pg_next := Some (current_head, False)\<rparr> else p) q;
         Some (q\<lparr>rq_head := nextpp, rq_read_sync := False\<rparr>)
       } else Some (q\<lparr>rq_read_sync := False\<rparr>)
     }
   }"

definition write_round :: "nat option \<Rightarrow> nat \<Rightarrow> 'v rqueue_t \<Rightarrow> 'v round option" where
  "write_round tail retries q = do {
     let temp_page = rq_tail q;
     let commit = rq_commit q;
     T \<leftarrow> rq_pages q temp_page;
     case RQUEUE_FLAG_OFF (pg_next T) of
       None \<Rightarrow> Some (Return (- 1) (leave q))
     | Some next_page \<Rightarrow> do {
         let head = rq_head q;
         if rq_commit q \<noteq> commit \<or> rq_tail q \<noteq> temp_page then Some (Next temp_page tail retries q)
         else if rq_mode q = RQUEUE_MODE_BLOCKING \<and> commit = temp_page \<and> temp_page \<noteq> head \<and> next_page \<noteq> head then
           Some (retry temp_page tail RQUEUE_BLOCKING_MAX_RETRIES retries
                  (if retries < RQUEUE_BLOCKING_MAX_RETRIES then q\<lparr>rq_tail := next_page\<rparr> else q))
         else if RQUEUE_CHECK_FLAG (pg_next T) \<or> (next_page = head \<and> \<not> rq_is_empty q) then do {
           over \<leftarrow> (if rq_mode q = RQUEUE_MODE_OVERWRITE
                    then do { C \<leftarrow> rq_pages q commit; Some (pg_next C = Some (temp_page, False)) } else Some False);
           if over \<and> \<not> rq_read_sync q then do {
             q \<leftarrow> advance_head temp_page head commit q;
             Some (Next temp_page tail retries q)
           } else Some (retry temp_page tail RQUEUE_WRITER_CAS_MAX_RETRIES retries q)
         } else if \<not> RQUEUE_CHECK_FLAG (pg_next T) then
           Some (Next temp_page (Some (rq_tail q)) retries (if rq_tail q = temp_page then q\<lparr>rq_tail := next_page\<rparr> else q))
         else Some (Next temp_page tail retries q)
       }
   }"

partial_function (option) write_loop :: "nat option \<Rightarrow> nat \<Rightarrow> 'v rqueue_t \<Rightarrow> 'v round option" where
  "write_loop tail retries q = do {
     r \<leftarrow> write_round tail retries q;
     case r of
       Return c q \<Rightarrow> Some (Return c q)
     | Next temp_page tail retries q \<Rightarrow>
         if tail \<noteq> Some temp_page \<and> retries < RQUEUE_WRITER_CAS_MAX_RETRIES then write_loop tail (Suc retries) q
         else Some (Next temp_page tail retries q)
   }"

definition rqueue_write :: "'v rqueue_t \<Rightarrow> 'v option \<Rightarrow> (int \<times> 'v rqueue_t) option" where
  "rqueue_write q value =
     (if rq_write_sync q then None
      else do {
        r \<leftarrow> write_loop None 0 (q\<lparr>rq_write_sync := True, rq_num_writers := rq_num_writers q + 1\<rparr>);
        case r of
          Return c q \<Rightarrow> Some (c, q)
        | Next temp_page tail retries q \<Rightarrow>
            if tail \<noteq> Some temp_page then Some (- 1, leave q)
            else do {
              q \<leftarrow> rqueue_update_value temp_page value q;
              let q = q\<lparr>rq_writes := inc64 (rq_writes q), rq_is_empty := False\<rparr>;
              let q = (if rq_num_writers q = 1 then q\<lparr>rq_commit := temp_page\<rparr> else q);
              Some (0, leave q)
            }
      })"

section \<open>Accessors\<close>

definition rqueue_write_count :: "'v rqueue_t option \<Rightarrow> nat" where
  "rqueue_write_count q = (case q of None \<Rightarrow> 0 | Some q \<Rightarrow> rq_writes q)"

definition rqueue_read_count :: "'v rqueue_t option \<Rightarrow> nat" where
  "rqueue_read_count q = (case q of None \<Rightarrow> 0 | Some q \<Rightarrow> rq_reads q)"

definition rqueue_set_mode :: "'v rqueue_t \<Rightarrow> rqueue_mode_t \<Rightarrow> 'v rqueue_t" where
  "rqueue_set_mode q mode = q\<lparr>rq_mode := mode\<rparr>"

definition rqueue_mode :: "'v rqueue_t option \<Rightarrow> rqueue_mode_t" where
  "rqueue_mode q = (case q of None \<Rightarrow> RQUEUE_MODE_INVALID | Some q \<Rightarrow> rq_mode q)"

definition rqueue_size :: "'v rqueue_t option \<Rightarrow> nat" where
  "rqueue_size q = (case q of None \<Rightarrow> 0 | Some q \<Rightarrow> rq_size q)"

definition rqueue_isempty :: "'v rqueue_t option \<Rightarrow> int" where
  "rqueue_isempty q = (case q of None \<Rightarrow> - 1 | Some q \<Rightarrow> if rq_is_empty q then 1 else 0)"

end
