(* ===== verification/Rqueue_Spec.thy ===== *)
theory Rqueue_Spec
  imports Rqueue
begin

text \<open>
  What the queue of \<open>rqueue.c\<close> promises to a single thread. The invariant \<open>rq_at q ps vs\<close> says that the pages \<open>ps\<close>
  form the ring, from the head page on, and that the first of them hold the values \<open>vs\<close>; every operation acts on
  \<open>vs\<close> as on a bounded queue.
\<close>

section \<open>Rings\<close>

type_synonym 'v pages = "nat \<rightharpoonup> 'v rqueue_page_t"

fun chain :: "'v pages \<Rightarrow> nat \<Rightarrow> nat list \<Rightarrow> nat \<times> bool \<Rightarrow> bool" where
  "chain h p [] n = True"
| "chain h p (a # as) n = (\<exists>pg. h a = Some pg \<and> pg_prev pg = Some p \<and>
     pg_next pg = Some (if as = [] then n else (hd as, False)) \<and> chain h a as n)"

definition page_val :: "'v pages \<Rightarrow> nat \<Rightarrow> 'v option" where
  "page_val h a = Option.bind (h a) pg_value"

lemma chain_append:
  "chain h p (as @ bs) n \<longleftrightarrow> chain h p as (if bs = [] then n else (hd bs, False)) \<and> chain h (if as = [] then p else last as) bs n"
proof (induction as arbitrary: p)
  case (Cons a as)
  then show ?case by (cases as) auto
qed simp

definition links :: "'v rqueue_page_t \<Rightarrow> nat option \<times> page_ptr" where
  "links p = (pg_prev p, pg_next p)"

lemma chain_cong:
  assumes "\<And>a. a \<in> set as \<Longrightarrow> map_option links (h' a) = map_option links (h a)"
  shows "chain h' p as n = chain h p as n"
  using assms
proof (induction as arbitrary: p)
  case (Cons a as)
  have "chain h' a as n = chain h a as n" by (rule Cons.IH) (rule Cons.prems, simp)
  moreover have "map_option links (h' a) = map_option links (h a)" by (rule Cons.prems) simp
  ultimately show ?case by (cases "h a"; cases "h' a") (simp_all add: links_def)
qed simp

lemma chain_other: "a \<notin> set as \<Longrightarrow> chain (h(a := x)) p as n = chain h p as n"
  by (rule chain_cong) auto

lemma chain_value: "h a = Some pg \<Longrightarrow> chain (h(a \<mapsto> pg\<lparr>pg_value := v\<rparr>)) p as n = chain h p as n"
  by (rule chain_cong) (auto simp: links_def)

lemma chain_alloc: "chain h p as n \<Longrightarrow> a \<in> set as \<Longrightarrow> h a \<noteq> None"
  by (induction as arbitrary: p) auto

definition ring_ok :: "'v pages \<Rightarrow> nat list \<Rightarrow> bool" where
  "ring_ok h ps \<longleftrightarrow> chain h (last ps) ps (hd ps, True) \<and> distinct ps \<and> 3 \<le> length ps"

lemma ring_nth:
  assumes "ring_ok h ps" and "i < length ps"
  shows "\<exists>pg. h (ps ! i) = Some pg \<and> pg_next pg = Some (if Suc i < length ps then (ps ! Suc i, False) else (hd ps, True))"
proof -
  have split: "ps = take i ps @ ps ! i # drop (Suc i) ps" using assms(2) id_take_nth_drop by blast
  have "chain h (last ps) (take i ps @ ps ! i # drop (Suc i) ps) (hd ps, True)" using assms split by (metis ring_ok_def)
  then show ?thesis using assms(2) by (auto simp: chain_append hd_drop_conv_nth)
qed

text \<open>The state of a queue, with everything at rest.\<close>

definition rq_at :: "'v rqueue_t \<Rightarrow> nat list \<Rightarrow> 'v list \<Rightarrow> bool" where
  "rq_at q ps vs \<longleftrightarrow> ring_ok (rq_pages q) ps \<and> length ps = Suc (rq_size q) \<and>
     rq_reader q \<notin> set ps \<and> dom (rq_pages q) = insert (rq_reader q) (set ps) \<and> page_val (rq_pages q) (rq_reader q) = None \<and>
     rq_head q = hd ps \<and> length vs \<le> rq_size q \<and> rq_tail q = ps ! length vs \<and>
     (vs \<noteq> [] \<longrightarrow> rq_commit q = ps ! (length vs - 1)) \<and>
     map (page_val (rq_pages q)) (take (length vs) ps) = map Some vs \<and> rq_is_empty q = (vs = []) \<and>
     \<not> rq_read_sync q \<and> \<not> rq_write_sync q \<and> rq_num_writers q = 0"

text \<open>The values that the pages of the ring hold, those that were given up included.\<close>

definition held :: "'v pages \<Rightarrow> nat list \<Rightarrow> 'v multiset" where
  "held h ps = mset (concat (map (\<lambda>a. case page_val h a of None \<Rightarrow> [] | Some v \<Rightarrow> [v]) ps))"

lemma ring_rotate:
  assumes "ring_ok h (a # b # cs)" and "r \<notin> set (a # b # cs)" and "h r = Some R" and "h (last cs) = Some Z" and "h b = Some B"
    and "cs \<noteq> []" and "h' = h(r \<mapsto> R\<lparr>pg_next := Some (b, True), pg_prev := Some (last cs)\<rparr>,
      last cs \<mapsto> Z\<lparr>pg_next := Some (r, False)\<rparr>, b \<mapsto> B\<lparr>pg_prev := Some r\<rparr>)"
  shows "ring_ok h' (b # cs @ [r])"
proof -
  obtain ds z where cs: "cs = ds @ [z]" using assms(6) rev_exhaust by blast
  have d: "distinct (a # b # ds @ [z])" "r \<notin> set (a # b # ds @ [z])" using assms(1,2) by (simp_all add: ring_ok_def cs)
  have c: "chain h z (a # b # ds @ [z]) (a, True)" using assms(1) by (simp add: ring_ok_def cs)
  have "chain h' b ds (z, False)" using c d assms(7) by (auto simp: chain_append chain_other cs)
  then show ?thesis using c d assms(3-5,7) by (auto simp: ring_ok_def chain_append cs hd_append)
qed

section \<open>Reading\<close>

lemma rq_at_reader:
  assumes "rq_at q ps vs"
  obtains R where "rq_pages q (rq_reader q) = Some R" and "pg_value R = None"
proof -
  have "rq_reader q \<in> dom (rq_pages q)" "page_val (rq_pages q) (rq_reader q) = None" using assms by (simp_all add: rq_at_def)
  then obtain R where "rq_pages q (rq_reader q) = Some R" "pg_value R = None" by (auto simp: page_val_def)
  then show thesis by (rule that)
qed

lemma rq_at_split:
  assumes "rq_at q ps vs"
  obtains a b cs where "ps = a # b # cs" and "cs \<noteq> []"
proof -
  have "3 \<le> length ps" using assms by (simp add: rq_at_def ring_ok_def)
  then show thesis using that by (metis (no_types, lifting) Suc_le_length_iff numeral_3_eq_3 list.discI)
qed

lemma page_val_same:
  assumes "\<And>a. a \<in> set as \<Longrightarrow> map_option pg_value (h' a) = map_option pg_value (h a)"
  shows "map (page_val h') as = map (page_val h) as" "held h' as = held h as"
proof -
  have *: "page_val h' a = page_val h a" if "a \<in> set as" for a
    using assms [OF that] by (cases "h a"; cases "h' a") (simp_all add: page_val_def)
  then show "map (page_val h') as = map (page_val h) as" by simp
  show "held h' as = held h as" unfolding held_def using * by (simp cong: map_cong)
qed

text \<open>What an operation leaves of the queue besides the values.\<close>

definition rq_keeps :: "'v rqueue_t \<Rightarrow> 'v rqueue_t \<Rightarrow> bool" where
  "rq_keeps q q' \<longleftrightarrow> rq_size q' = rq_size q \<and> rq_mode q' = rq_mode q \<and> rq_free_cb q' = rq_free_cb q"

lemma exchange_head_ok:
  assumes "rq_at q (a # b # cs) (v # vs)" and "cs \<noteq> []"
  shows "\<exists>q'. exchange_head a (Some (b, False)) old (q\<lparr>rq_read_sync := True\<rparr>) = Some (Some v, q') \<and>
    rq_at (q'\<lparr>rq_read_sync := False\<rparr>) (b # cs @ [rq_reader q]) vs \<and> rq_keeps q q' \<and> rq_writes q' = rq_writes q \<and>
    rq_reads q' = inc64 (rq_reads q) \<and> rq_freed q' = rq_freed q \<and>
    held (rq_pages q) (a # b # cs) = add_mset v (held (rq_pages q') (b # cs @ [rq_reader q]))"
proof -
  let ?h = "rq_pages q" and ?r = "rq_reader q" and ?z = "last cs"
  have at: "ring_ok ?h (a # b # cs)" "?r \<notin> set (a # b # cs)" "page_val ?h a = Some v" "page_val ?h ?r = None" "rq_head q = a"
    "rq_tail q = (b # cs) ! length vs" "length vs < length (b # cs)" "rq_size q = length (b # cs)"
    using assms(1) by (auto simp: rq_at_def)
  have d: "distinct (a # b # cs)" "?z \<in> set cs" "chain ?h ?z (a # b # cs) (a, True)"
    using at(1) assms(2) by (simp_all add: ring_ok_def)
  then have ne: "?z \<noteq> a" "?z \<noteq> b" "?z \<noteq> ?r" "?r \<noteq> a" "?r \<noteq> b" "a \<noteq> b" using at(2) by auto
  obtain R where R: "?h ?r = Some R" "pg_value R = None" using rq_at_reader [OF assms(1)] .
  from d(3) assms(2) obtain A B where A: "?h a = Some A" "pg_prev A = Some ?z" "pg_next A = Some (b, False)" and B: "?h b = Some B" by auto
  have Av: "pg_value A = Some v" using at(3) A(1) by (simp add: page_val_def)
  obtain ds z where cs: "cs = ds @ [z]" using assms(2) rev_exhaust by blast
  from d(3) obtain Z where Z: "?h ?z = Some Z" "pg_next Z = Some (a, True)" by (auto simp: cs chain_append)
  define h1 where "h1 = ?h(?r \<mapsto> R\<lparr>pg_next := Some (b, True), pg_prev := Some ?z\<rparr>, ?z \<mapsto> Z\<lparr>pg_next := Some (?r, False)\<rparr>, b \<mapsto> B\<lparr>pg_prev := Some ?r\<rparr>)"
  define h2 where "h2 = h1(a \<mapsto> A\<lparr>pg_value := None\<rparr>)"
  let ?q = "q\<lparr>rq_read_sync := True, rq_pages := h2, rq_head := b, rq_reader := a, rq_reads := inc64 (rq_reads q)\<rparr>"
  have emp: "b = rq_tail q \<longleftrightarrow> vs = []" using d(1) at(6,7) nth_eq_iff_index_eq [of "b # cs" 0 "length vs"] by auto
  have run: "exchange_head a (Some (b, False)) old (q\<lparr>rq_read_sync := True\<rparr>) = Some (Some v, if vs = [] then ?q\<lparr>rq_is_empty := True\<rparr> else ?q)"
    using ne at(5) R A B Z Av emp
    by (simp add: exchange_head_def set_page_def RQUEUE_FLAG_ON_def h1_def h2_def Let_def)
  have ring: "ring_ok h2 (b # cs @ [?r])"
    using ring_rotate [OF at(1,2) R(1) Z(1) B assms(2) h1_def] d(1) ne by (simp add: ring_ok_def h2_def chain_other)
  have same: "map_option pg_value (h2 c) = map_option pg_value (?h c)" if "c \<in> set (b # cs @ [?r])" for c
    using that d(1) ne R B Z by (auto simp: h1_def h2_def)
  note vals = page_val_same [of "b # cs @ [?r]" h2 ?h, OF same]
  have "held ?h (a # b # cs) = add_mset v (held ?h (b # cs @ [?r]))" using at(3,4) by (simp add: held_def)
  moreover have "map (page_val h2) (take (length vs) (b # cs @ [?r])) = map Some vs"
  proof -
    have t: "take (length vs) (b # cs @ [?r]) = take (length vs) (b # cs)" using at(7) by (simp add: take_Cons')
    have "map (page_val h2) (take (length vs) (b # cs)) = map (page_val ?h) (take (length vs) (b # cs))"
      using vals(1) set_take_subset [of "length vs" "b # cs"] by auto
    moreover have "map (page_val ?h) (take (length vs) (b # cs)) = map Some vs" using assms(1) by (simp add: rq_at_def)
    ultimately show ?thesis by (simp only: t)
  qed
  moreover have "rq_tail q = (b # cs @ [?r]) ! length vs" using at(6,7) nth_append [of "b # cs" "[?r]" "length vs"] by simp
  moreover have "vs \<noteq> [] \<longrightarrow> rq_commit q = (b # cs @ [?r]) ! (length vs - 1)"
    using assms(1) at(7) nth_append [of "b # cs" "[?r]" "length vs - 1"] by (cases vs) (auto simp: rq_at_def)
  moreover have "dom ?h = insert ?r (set (a # b # cs))" using assms(1) by (simp add: rq_at_def)
  then have "dom h2 = insert a (set (b # cs @ [?r]))" using d(2) by (auto simp: h1_def h2_def dom_def)
  moreover have "page_val h2 a = None" by (simp add: h2_def page_val_def)
  ultimately have "rq_at (?q\<lparr>rq_read_sync := False, rq_is_empty := (vs = [])\<rparr>) (b # cs @ [?r]) vs"
    using assms(1) ring at(7,8) d(1) ne by (simp add: rq_at_def)
  then show ?thesis using run vals(2) \<open>held ?h (a # b # cs) = add_mset v (held ?h (b # cs @ [?r]))\<close> assms(1)
    by (cases "vs = []") (simp_all add: rq_keeps_def rq_at_def)
qed

lemma rqueue_read_ok:
  assumes "rq_at q ps (v # vs)"
  shows "\<exists>q' ps'. rqueue_read q = Some (Some v, q') \<and> rq_at q' ps' vs \<and> rq_keeps q q' \<and> rq_writes q' = rq_writes q \<and>
    rq_reads q' = inc64 (rq_reads q) \<and> rq_freed q' = rq_freed q \<and> held (rq_pages q) ps = add_mset v (held (rq_pages q') ps')"
proof -
  obtain a b cs where ps: "ps = a # b # cs" "cs \<noteq> []" using rq_at_split [OF assms] .
  have "rq_commit q = ps ! length vs" "length vs < length ps" "rq_reader q \<notin> set ps" using assms by (auto simp: rq_at_def)
  then have "rq_reader q \<noteq> rq_commit q" by (metis nth_mem)
  moreover obtain A where "rq_pages q a = Some A" "pg_next A = Some (b, False)" using assms by (auto simp: rq_at_def ring_ok_def ps)
  moreover obtain R where "rq_pages q (rq_reader q) = Some R" using rq_at_reader [OF assms] by blast
  moreover have "rq_head q = a" "\<not> rq_read_sync q" "\<not> rq_is_empty q" using assms by (auto simp: rq_at_def ps)
  ultimately have at: "rq_head q = a" "rq_pages q a = Some A" "pg_next A = Some (b, False)" "rq_pages q (rq_reader q) = Some R"
    "\<not> rq_read_sync q" "\<not> rq_is_empty q" "rq_reader q \<noteq> rq_commit q" by simp_all
  from exchange_head_ok [of q a b cs v vs "pg_next R"] assms ps obtain q' where
    e: "exchange_head a (Some (b, False)) (pg_next R) (q\<lparr>rq_read_sync := True\<rparr>) = Some (Some v, q')"
      "rq_at (q'\<lparr>rq_read_sync := False\<rparr>) (b # cs @ [rq_reader q]) vs" "rq_keeps q q'" "rq_writes q' = rq_writes q"
      "rq_reads q' = inc64 (rq_reads q)" "rq_freed q' = rq_freed q"
      "held (rq_pages q) (a # b # cs) = add_mset v (held (rq_pages q') (b # cs @ [rq_reader q]))" by auto
  have "read_round q = Some (Some v, q'\<lparr>rq_read_sync := False\<rparr>)"
    using at e(1) by (simp add: read_round_def rqueue_validate_reader_snapshot_def Let_def)
  then have "rqueue_read q = Some (Some v, q'\<lparr>rq_read_sync := False\<rparr>)"
    by (simp add: rqueue_read_def RQUEUE_READER_MAX_RETRIES_def numeral_eq_Suc)
  then show ?thesis using e(2-7) ps by (intro exI [of _ "q'\<lparr>rq_read_sync := False\<rparr>"] exI [of _ "b # cs @ [rq_reader q]"]) (simp add: rq_keeps_def)
qed

lemma rqueue_read_empty:
  assumes "rq_at q ps []"
  shows "rqueue_read q = Some (None, q)"
proof -
  obtain R where "rq_pages q (rq_reader q) = Some R" using rq_at_reader [OF assms] by blast
  moreover obtain A where "rq_pages q (rq_head q) = Some A" "\<not> rq_read_sync q" "rq_is_empty q"
    using assms by (cases ps) (auto simp: rq_at_def ring_ok_def)
  ultimately have "read_round q = Some (None, q)" by (cases q) (simp add: read_round_def Let_def)
  then have "read_loop n q = Some (None, q)" for n by (induction n) simp_all
  then show ?thesis by (simp add: rqueue_read_def)
qed

section \<open>Writing\<close>

definition stale :: "'v pages \<Rightarrow> nat \<Rightarrow> 'v list" where
  "stale h a = (case page_val h a of None \<Rightarrow> [] | Some v \<Rightarrow> [v])"

lemma held_stale: "held h ps = mset (concat (map (stale h) ps))"
  by (simp add: held_def stale_def [abs_def])

lemma held_update:
  assumes "distinct ps" and "i < length ps" and "h (ps ! i) = Some pg"
  shows "held (h(ps ! i \<mapsto> pg\<lparr>pg_value := Some v\<rparr>)) ps + mset (stale h (ps ! i)) = add_mset v (held h ps)"
proof -
  define xs where "xs = take i ps"
  define ys where "ys = drop (Suc i) ps"
  define a where "a = ps ! i"
  have ps: "ps = xs @ a # ys" using id_take_nth_drop [OF assms(2)] by (simp add: xs_def ys_def a_def)
  have a: "a \<notin> set xs" "a \<notin> set ys" using assms(1) by (simp_all add: ps)
  let ?h = "h(a \<mapsto> pg\<lparr>pg_value := Some v\<rparr>)"
  have "map (stale ?h) xs = map (stale h) xs" "map (stale ?h) ys = map (stale h) ys"
    using a by (auto simp: stale_def page_val_def)
  then have "concat (map (stale ?h) xs) = concat (map (stale h) xs)" "concat (map (stale ?h) ys) = concat (map (stale h) ys)"
    by (simp_all only:)
  moreover have "stale ?h a = [v]" by (simp add: stale_def page_val_def)
  ultimately have "held ?h (xs @ a # ys) + mset (stale h a) = add_mset v (held h (xs @ a # ys))" by (simp add: held_stale)
  then have "held ?h ps + mset (stale h a) = add_mset v (held h ps)" unfolding ps .
  then show ?thesis by (simp only: a_def)
qed

lemma rq_at_value:
  assumes "rq_at q ps vs" and "length vs < rq_size q" and "rq_pages q (ps ! length vs) = Some pg"
  shows "rq_at (q\<lparr>rq_pages := (rq_pages q)(ps ! length vs \<mapsto> pg\<lparr>pg_value := Some v\<rparr>), rq_tail := ps ! Suc (length vs),
    rq_commit := ps ! length vs, rq_is_empty := False\<rparr>) ps (vs @ [v])"
proof -
  let ?n = "length vs" and ?h = "(rq_pages q)(ps ! length vs \<mapsto> pg\<lparr>pg_value := Some v\<rparr>)"
  have n: "?n < length ps" "distinct ps" using assms(1,2) by (auto simp: rq_at_def ring_ok_def)
  have "ps ! ?n \<notin> set (take ?n ps)" using n by (auto simp: in_set_conv_nth nth_eq_iff_index_eq)
  then have "map (page_val ?h) (take ?n ps) = map (page_val (rq_pages q)) (take ?n ps)" by (auto simp: page_val_def)
  also have "\<dots> = map Some vs" using assms(1) by (simp add: rq_at_def)
  finally have "map (page_val ?h) (take (Suc ?n) ps) = map Some (vs @ [v])"
    using n(1) by (simp add: take_Suc_conv_app_nth page_val_def)
  moreover have "ring_ok ?h ps" using assms(1,3) by (simp add: ring_ok_def rq_at_def chain_value)
  moreover have "ps ! ?n \<noteq> rq_reader q" using assms(1) nth_mem [OF n(1)] unfolding rq_at_def by metis
  ultimately show ?thesis using assms(1,2) n by (auto simp: rq_at_def page_val_def nth_append)
qed

lemma write_round_room:
  assumes "rq_at q ps vs" and "length vs < rq_size q" and "q1 = q\<lparr>rq_write_sync := True, rq_num_writers := 1\<rparr>"
  shows "write_round t r q1 = Some (Next (ps ! length vs) (Some (ps ! length vs)) r (q1\<lparr>rq_tail := ps ! Suc (length vs)\<rparr>))"
proof -
  let ?n = "length vs"
  have n: "Suc ?n < length ps" "distinct ps" "ring_ok (rq_pages q) ps" "rq_head q = hd ps" "rq_tail q = ps ! ?n"
    using assms(1,2) by (auto simp: rq_at_def ring_ok_def)
  have hd: "hd ps = ps ! 0" using n(1) by (cases ps) auto
  from ring_nth [OF n(3), of ?n] n(1) obtain T where T: "rq_pages q (ps ! ?n) = Some T" "pg_next T = Some (ps ! Suc ?n, False)" by auto
  have "ps ! Suc ?n \<noteq> ps ! 0" using nth_eq_iff_index_eq [OF n(2,1), of 0] n(1) by (cases ps) auto
  moreover have "rq_commit q \<noteq> ps ! ?n \<or> ps ! ?n = ps ! 0"
  proof (cases "vs = []")
    case False
    then have "rq_commit q = ps ! (?n - 1)" using assms(1) by (simp add: rq_at_def)
    moreover have "?n - 1 \<noteq> ?n" using False by (cases vs) auto
    ultimately show ?thesis using n(1,2) nth_eq_iff_index_eq [of ps "?n - 1" ?n] by auto
  qed simp
  ultimately show ?thesis using n T hd
    by (auto simp: write_round_def assms(3) RQUEUE_FLAG_OFF_def RQUEUE_CHECK_FLAG_def Let_def)
qed

definition busy :: "'v rqueue_t \<Rightarrow> 'v rqueue_t" where
  "busy q = q\<lparr>rq_write_sync := True, rq_num_writers := 1\<rparr>"

text \<open>The end of a call that found a page.\<close>

lemma rqueue_write_done:
  assumes "\<not> rq_write_sync q" and "rq_num_writers q = 0" and "rq_at q0 ps vs" and "length vs < rq_size q0"
    and "write_loop None 0 (busy q) = Some (Next (ps ! length vs) (Some (ps ! length vs)) r ((busy q0)\<lparr>rq_tail := ps ! Suc (length vs)\<rparr>))"
  shows "\<exists>q'. rqueue_write q (Some v) = Some (0, q') \<and> rq_at q' ps (vs @ [v]) \<and> rq_keeps q0 q' \<and> rq_writes q' = inc64 (rq_writes q0) \<and>
    rq_reads q' = rq_reads q0 \<and> rq_freed q' = rq_freed q0 @ (if rq_free_cb q0 then stale (rq_pages q0) (ps ! length vs) else []) \<and>
    held (rq_pages q') ps + mset (stale (rq_pages q0) (ps ! length vs)) = add_mset v (held (rq_pages q0) ps)"
proof -
  let ?n = "length vs"
  have n: "?n < length ps" "distinct ps" "ring_ok (rq_pages q0) ps" using assms(3,4) by (auto simp: rq_at_def ring_ok_def)
  from ring_nth [OF n(3,1)] obtain pg where pg: "rq_pages q0 (ps ! ?n) = Some pg" by auto
  let ?h = "(rq_pages q0)(ps ! ?n \<mapsto> pg\<lparr>pg_value := Some v\<rparr>)"
  let ?freed = "rq_freed q0 @ (if rq_free_cb q0 then stale (rq_pages q0) (ps ! ?n) else [])"
  let ?q = "q0\<lparr>rq_pages := ?h, rq_tail := ps ! Suc ?n, rq_commit := ps ! ?n, rq_is_empty := False\<rparr>"
  have w: "\<not> rq_write_sync q0" "rq_num_writers q0 = 0" using assms(3) by (simp_all add: rq_at_def)
  have "rqueue_write q (Some v) = Some (0, ?q\<lparr>rq_freed := ?freed, rq_writes := inc64 (rq_writes q0)\<rparr>)"
    using assms(1,2,5) pg w
    by (cases q0) (simp add: rqueue_write_def busy_def leave_def rqueue_update_value_def set_page_def stale_def page_val_def Let_def
        split: option.split)
  moreover have "rq_at (?q\<lparr>rq_freed := ?freed, rq_writes := inc64 (rq_writes q0)\<rparr>) ps (vs @ [v])"
    using rq_at_value [OF assms(3,4) pg, of v] by (simp add: rq_at_def)
  moreover have "held ?h ps + mset (stale (rq_pages q0) (ps ! ?n)) = add_mset v (held (rq_pages q0) ps)"
    by (rule held_update [of ps ?n "rq_pages q0", OF n(2,1) pg])
  ultimately show ?thesis by (simp add: rq_keeps_def)
qed

lemma rqueue_write_room:
  assumes "rq_at q ps vs" and "length vs < rq_size q"
  shows "\<exists>q'. rqueue_write q (Some v) = Some (0, q') \<and> rq_at q' ps (vs @ [v]) \<and> rq_keeps q q' \<and> rq_writes q' = inc64 (rq_writes q) \<and>
    rq_reads q' = rq_reads q \<and> rq_freed q' = rq_freed q @ (if rq_free_cb q then stale (rq_pages q) (ps ! length vs) else []) \<and>
    held (rq_pages q') ps + mset (stale (rq_pages q) (ps ! length vs)) = add_mset v (held (rq_pages q) ps)"
proof (rule rqueue_write_done [OF _ _ assms, of q 0])
  show "\<not> rq_write_sync q" "rq_num_writers q = 0" using assms(1) by (simp_all add: rq_at_def)
  show "write_loop None 0 (busy q) = Some (Next (ps ! length vs) (Some (ps ! length vs)) 0 ((busy q)\<lparr>rq_tail := ps ! Suc (length vs)\<rparr>))"
    by (subst write_loop.simps) (simp add: write_round_room [OF assms busy_def])
qed

text \<open>A full queue: the page after the tail is the head.\<close>

lemma full_round:
  assumes "rq_at q ps vs" and "length vs = rq_size q" and "rq_mode q \<noteq> RQUEUE_MODE_OVERWRITE"
  shows "write_round t r (busy q) = Some (retry (last ps) t RQUEUE_WRITER_CAS_MAX_RETRIES r (busy q))"
proof -
  let ?n = "length vs"
  have n: "Suc ?n = length ps" "distinct ps" "ring_ok (rq_pages q) ps" "rq_head q = hd ps" "rq_tail q = ps ! ?n" "vs \<noteq> []"
    using assms(1,2) by (auto simp: rq_at_def ring_ok_def)
  have last: "last ps = ps ! ?n" using n(1) by (cases ps rule: rev_cases) auto
  from ring_nth [OF n(3), of ?n] n(1) obtain T where T: "rq_pages q (ps ! ?n) = Some T" "pg_next T = Some (hd ps, True)" by auto
  have "rq_commit q = ps ! (?n - 1)" "?n - 1 \<noteq> ?n" using assms(1) n(6) by (simp_all add: rq_at_def) (cases vs; simp)
  then have "rq_commit q \<noteq> ps ! ?n" using n(1,2) nth_eq_iff_index_eq [of ps "?n - 1" ?n] by auto
  then show ?thesis using n T assms(3)
    by (simp add: write_round_def busy_def last RQUEUE_FLAG_OFF_def RQUEUE_CHECK_FLAG_def Let_def)
qed

lemma full_loop:
  assumes "\<And>r. write_round None r q = Some (retry a None RQUEUE_WRITER_CAS_MAX_RETRIES r q)" and "even r" and "r \<le> 100"
  shows "write_loop None r q = Some (Return (- 2) (leave q))"
  using assms(2,3)
proof (induction "100 - r" arbitrary: r rule: less_induct)
  case less
  show ?case
  proof (cases "r = 100")
    case True
    then show ?thesis by (subst write_loop.simps) (simp add: assms(1) retry_def RQUEUE_WRITER_CAS_MAX_RETRIES_def)
  next
    case False
    then have r: "r + 2 \<le> 100" using less.prems by presburger
    then have "write_loop None r q = write_loop None (Suc (Suc r)) q"
      by (subst write_loop.simps) (simp add: assms(1) retry_def RQUEUE_WRITER_CAS_MAX_RETRIES_def)
    then show ?thesis using less.hyps [of "Suc (Suc r)"] less.prems r by simp
  qed
qed

lemma rqueue_write_full:
  assumes "rq_at q ps vs" and "length vs = rq_size q" and "rq_mode q \<noteq> RQUEUE_MODE_OVERWRITE"
  shows "rqueue_write q v = Some (- 2, q)"
proof -
  have w: "\<not> rq_write_sync q" "rq_num_writers q = 0" using assms(1) by (simp_all add: rq_at_def)
  have "write_loop None 0 (busy q) = Some (Return (- 2) (leave (busy q)))"
    by (rule full_loop) (simp_all add: full_round [OF assms])
  moreover have "leave (busy q) = q" using w by (cases q) (simp add: leave_def busy_def)
  ultimately show ?thesis using w by (simp add: rqueue_write_def busy_def)
qed

text \<open>A full queue that overwrites: the head page becomes the last page, with its old value in it.\<close>

lemma ring_advance:
  assumes "ring_ok h (a # b # cs)" and "h a = Some A" and "h (last cs) = Some Z" and "cs \<noteq> []"
    and "h' = h(a \<mapsto> A\<lparr>pg_next := Some (b, True)\<rparr>, last cs \<mapsto> Z\<lparr>pg_next := Some (a, False)\<rparr>)"
  shows "ring_ok h' (b # cs @ [a])"
proof -
  obtain ds z where cs: "cs = ds @ [z]" using assms(4) rev_exhaust by blast
  have d: "distinct (a # b # ds @ [z])" using assms(1) by (simp add: ring_ok_def cs)
  have c: "chain h z (a # b # ds @ [z]) (a, True)" using assms(1) by (simp add: ring_ok_def cs)
  have "chain h' b ds (z, False)" using c d assms(5) by (auto simp: chain_append chain_other cs)
  then show ?thesis using c d assms(2,3,5) by (auto simp: ring_ok_def chain_append cs hd_append)
qed

lemma advance_head_ok:
  assumes "rq_at q (a # b # cs) vs" and "cs \<noteq> []" and "length vs = rq_size q"
  shows "\<exists>q'. advance_head (last cs) a (rq_commit q) (busy q) = Some (busy q') \<and> rq_at q' (b # cs @ [a]) (tl vs) \<and> rq_keeps q q' \<and>
    rq_writes q' = rq_writes q \<and> rq_reads q' = rq_reads q \<and> rq_freed q' = rq_freed q \<and>
    held (rq_pages q') (b # cs @ [a]) = held (rq_pages q) (a # b # cs)"
proof -
  let ?h = "rq_pages q" and ?z = "last cs" and ?r = "rq_reader q"
  have at: "ring_ok ?h (a # b # cs)" "?r \<notin> set (a # b # cs)" "rq_head q = a" "length vs = length (b # cs)"
    "rq_size q = length (b # cs)" "dom ?h = insert ?r (set (a # b # cs))" "page_val ?h ?r = None" "\<not> rq_read_sync q"
    using assms(1,3) by (auto simp: rq_at_def)
  have d: "distinct (a # b # cs)" "?z \<in> set cs" "chain ?h ?z (a # b # cs) (a, True)"
    using at(1) assms(2) by (simp_all add: ring_ok_def)
  then have ne: "?z \<noteq> a" "?r \<noteq> a" "?r \<noteq> ?z" using at(2) by auto
  from d(3) obtain A where A: "?h a = Some A" "pg_next A = Some (b, False)" by auto
  obtain ds z where cs: "cs = ds @ [z]" using assms(2) rev_exhaust by blast
  from d(3) obtain Z where Z: "?h ?z = Some Z" "pg_next Z = Some (a, True)" by (auto simp: cs chain_append)
  define h' where "h' = ?h(a \<mapsto> A\<lparr>pg_next := Some (b, True)\<rparr>, ?z \<mapsto> Z\<lparr>pg_next := Some (a, False)\<rparr>)"
  let ?q = "q\<lparr>rq_pages := h', rq_head := b\<rparr>"
  have run: "advance_head ?z a (rq_commit q) (busy q) = Some (busy ?q)"
    using at(3,8) ne A Z by (cases q) (simp add: advance_head_def busy_def set_page_def RQUEUE_FLAG_OFF_def h'_def Let_def)
  have same: "map_option pg_value (h' c) = map_option pg_value (?h c)" for c using A Z ne by (simp add: h'_def)
  have pv: "page_val h' = page_val ?h"
  proof
    fix c show "page_val h' c = page_val ?h c" using same [of c] by (cases "?h c"; cases "h' c") (simp_all add: page_val_def)
  qed
  obtain v w ws where vs: "vs = v # w # ws" using at(4) assms(2) by (cases vs; cases cs; cases "tl vs") auto
  have l: "length ws = length ds" using at(4) by (simp add: vs cs)
  have "map (page_val ?h) (take (length vs) (a # b # cs)) = map Some vs" using assms(1) by (simp add: rq_at_def)
  then have "map (page_val h') (take (length (tl vs)) (b # cs @ [a])) = map Some (tl vs)" using l by (simp add: vs cs pv)
  moreover have "rq_tail q = (b # cs @ [a]) ! length (tl vs)" "rq_commit q = (b # cs @ [a]) ! (length (tl vs) - 1)"
    using assms(1) l nth_append [of "b # ds" "[z, a]" "length ws"] nth_append [of "b # ds" "[z]" "length ws"] by (auto simp: rq_at_def vs cs nth_append)
  moreover have "ring_ok h' (b # cs @ [a])" by (rule ring_advance [OF at(1) A(1) Z(1) assms(2) h'_def])
  moreover have "dom h' = insert ?r (set (b # cs @ [a]))" using at(6) d(2) by (auto simp: h'_def dom_def)
  ultimately have "rq_at ?q (b # cs @ [a]) (tl vs)" using assms(1) l by (auto simp: rq_at_def pv vs cs)
  moreover have "held h' (b # cs @ [a]) = held ?h (a # b # cs)" by (simp add: held_def pv)
  ultimately show ?thesis using run by (auto simp: rq_keeps_def)
qed

lemma rqueue_write_over:
  assumes "rq_at q (a # b # cs) vs" and "cs \<noteq> []" and "length vs = rq_size q" and "rq_mode q = RQUEUE_MODE_OVERWRITE"
  shows "\<exists>q' old. rqueue_write q (Some v) = Some (0, q') \<and> rq_at q' (b # cs @ [a]) (tl vs @ [v]) \<and> rq_keeps q q' \<and>
    rq_writes q' = inc64 (rq_writes q) \<and> rq_reads q' = rq_reads q \<and>
    rq_freed q' = rq_freed q @ (if rq_free_cb q then old else []) \<and>
    held (rq_pages q') (b # cs @ [a]) + mset old = add_mset v (held (rq_pages q) (a # b # cs))"
proof -
  let ?z = "last cs" and ?ps = "b # cs @ [a]"
  obtain q0 where q0: "advance_head ?z a (rq_commit q) (busy q) = Some (busy q0)" "rq_at q0 ?ps (tl vs)" "rq_keeps q q0"
    "rq_writes q0 = rq_writes q" "rq_reads q0 = rq_reads q" "rq_freed q0 = rq_freed q"
    "held (rq_pages q0) ?ps = held (rq_pages q) (a # b # cs)"
    using advance_head_ok [OF assms(1-3)] by auto
  have w: "\<not> rq_write_sync q" "rq_num_writers q = 0" "rq_head q = a" "\<not> rq_read_sync q" "ring_ok (rq_pages q) (a # b # cs)" 
    "rq_tail q = (a # b # cs) ! length vs" "length vs = Suc (length cs)"
    using assms(1,3) by (simp_all add: rq_at_def)
  have vs: "vs \<noteq> []" using w(7) by auto
  then have c: "rq_commit q = (a # b # cs) ! (length vs - 1)" using assms(1) unfolding rq_at_def by blast
  have z: "(a # b # cs) ! length vs = ?z" using w(7) assms(2) by (simp add: last_conv_nth)
  from ring_nth [OF w(5), of "length vs"] w(7) obtain T where T: "rq_pages q ?z = Some T" "pg_next T = Some (a, True)" unfolding z by auto
  from ring_nth [OF w(5), of "length vs - 1"] w(7) obtain C where C: "rq_pages q (rq_commit q) = Some C" "pg_next C = Some (?z, False)"
    unfolding z [symmetric] c by auto
  have "write_round None 0 (busy q) = Some (Next ?z None 0 (busy q0))"
    using q0(1) w(3,4,6) T C assms(4) unfolding z
    by (simp add: write_round_def busy_def RQUEUE_FLAG_OFF_def RQUEUE_CHECK_FLAG_def Let_def)
  then have "write_loop None 0 (busy q) = write_loop None (Suc 0) (busy q0)"
    by (subst write_loop.simps) (simp add: RQUEUE_WRITER_CAS_MAX_RETRIES_def)
  moreover have room: "length (tl vs) < rq_size q0" using q0(3) w(7) assms(3) by (simp add: rq_keeps_def)
  ultimately have loop: "write_loop None 0 (busy q) = Some (Next (?ps ! length (tl vs)) (Some (?ps ! length (tl vs))) (Suc 0)
      ((busy q0)\<lparr>rq_tail := ?ps ! Suc (length (tl vs))\<rparr>))"
    by (subst (asm) write_loop.simps) (simp add: write_round_room [OF q0(2) room busy_def])
  from rqueue_write_done [OF w(1,2) q0(2) room loop, of v] show ?thesis
    using q0(3-7) by (auto simp: rq_keeps_def)
qed

end
