(* ===== verification/Rqueue_Life.thy ===== *)
theory Rqueue_Life
  imports Rqueue_Spec
begin

text \<open>
  The life of a queue of \<open>rqueue.c\<close>: creation with every way in which an allocation can fail, release of all pages,
  and the contract of a bounded queue that owns its values, with its interpretation on the operations.
\<close>

section \<open>Creation\<close>

text \<open>The pages at the addresses from \<open>s\<close> up to \<open>e\<close>, as the allocation loop links them.\<close>

definition line :: "nat \<Rightarrow> nat \<Rightarrow> 'v pages" where
  "line s e x = (if s \<le> x \<and> x < e
     then Some \<lparr>pg_value = None, pg_next = (if Suc x < e then Some (Suc x, False) else None), pg_prev = Some (if x = s then s else x - 1)\<rparr>
     else None)"

lemma line_grow:
  assumes "s \<le> x"
  shows "(line s (Suc x))(Suc x \<mapsto> empty_page\<lparr>pg_prev := Some x\<rparr>,
    x \<mapsto> (\<lparr>pg_value = None, pg_next = Some (Suc x, False), pg_prev = Some (if x = s then s else x - 1)\<rparr> :: 'v rqueue_page_t)) = line s (Suc (Suc x))"
  using assms by (auto simp: line_def empty_page_def fun_eq_iff)

lemma create_pages_line:
  assumes "s \<le> x"
  shows "\<exists>e. create_pages fails n (Suc x) (Some s) (Some x) (line s (Suc x) :: 'v pages) =
      Some (\<forall>y. x < y \<and> y \<le> x + n \<longrightarrow> \<not> fails y, Some s, Some e, line s (Suc e)) \<and> s \<le> e \<and>
    ((\<forall>y. x < y \<and> y \<le> x + n \<longrightarrow> \<not> fails y) \<longrightarrow> e = x + n)"
  using assms
proof (induction n arbitrary: x)
  case 0
  then show ?case by (intro exI [of _ x]) auto
next
  case (Suc n)
  show ?case
  proof (cases "fails (Suc x)")
    case True
    then have "\<not> (\<forall>y. x < y \<and> y \<le> x + Suc n \<longrightarrow> \<not> fails y)" by (auto intro!: exI [of _ "Suc x"])
    then show ?thesis using True Suc.prems by (intro exI [of _ x]) simp
  next
    case False
    have "create_pages fails (Suc n) (Suc x) (Some s) (Some x) (line s (Suc x) :: 'v pages)
      = create_pages fails n (Suc (Suc x)) (Some s) (Some (Suc x)) (line s (Suc (Suc x)))"
      using False Suc.prems line_grow [OF Suc.prems, where 'v = 'v] by (simp add: line_def [of s "Suc x" x] fun_upd_twist empty_page_def)
    moreover have "(\<forall>y. Suc x < y \<and> y \<le> Suc x + n \<longrightarrow> \<not> fails y) = (\<forall>y. x < y \<and> y \<le> x + Suc n \<longrightarrow> \<not> fails y)"
      using False by (metis Suc_lessI add_Suc add_Suc_right less_SucI not_less_eq)
    ultimately show ?thesis using Suc.IH [of "Suc x"] Suc.prems by simp
  qed
qed

lemma free_chain_line:
  "s \<le> x \<Longrightarrow> x \<le> e \<Longrightarrow> free_chain (if x < e then Some x else None) ((line s e :: 'v pages) |` {x..}) = Some Map.empty"
proof (induction "e - x" arbitrary: x)
  case 0
  then have "(line s e :: 'v pages) |` {x..} = Map.empty" by (auto simp: line_def restrict_map_def fun_eq_iff)
  then show ?case using 0 by (subst free_chain.simps) simp
next
  case (Suc d)
  then have x: "x < e" by simp
  have "((line s e :: 'v pages) |` {x..})(x := None) = line s e |` {Suc x..}" by (auto simp: restrict_map_def fun_eq_iff)
  then have "free_chain (Some x) ((line s e :: 'v pages) |` {x..}) = free_chain (if Suc x < e then Some (Suc x) else None) (line s e |` {Suc x..})"
    using x Suc.prems by (subst free_chain.simps) (simp add: line_def [of s e x] RQUEUE_FLAG_OFF_def)
  then show ?case using Suc.hyps(1) [of "Suc x"] Suc.hyps(2) Suc.prems x by simp
qed

lemma free_ring_chain:
  "chain h p (a # as) (s, f) \<Longrightarrow> s \<notin> set as \<Longrightarrow> distinct (a # as) \<Longrightarrow> free_ring s a h = Some (h |` (- set (a # as)))"
proof (induction as arbitrary: a p h)
  case Nil
  then show ?case by (subst free_ring.simps) (auto simp: RQUEUE_FLAG_OFF_def restrict_map_def fun_eq_iff)
next
  case (Cons b as)
  then obtain A where A: "h a = Some A" "pg_next A = Some (b, False)" "chain h a (b # as) (s, f)" by auto
  have "chain (h(a := None)) a (b # as) (s, f)" using A(3) Cons.prems(3) by (simp only: chain_other distinct.simps list.set simp_thms)
  then have "free_ring s b (h(a := None)) = Some (h(a := None) |` (- set (b # as)))" using Cons.IH Cons.prems by auto
  moreover have "h(a := None) |` (- set (b # as)) = h |` (- set (a # b # as))" by (auto simp: restrict_map_def fun_eq_iff)
  ultimately show ?case using A Cons.prems by (subst free_ring.simps) (auto simp: RQUEUE_FLAG_OFF_def)
qed

lemma chain_upt:
  assumes "\<And>x. i \<le> x \<Longrightarrow> x < e \<Longrightarrow> \<exists>pg. h x = Some pg \<and> pg_prev pg = Some (if x = i then p else x - 1) \<and>
    pg_next pg = Some (if Suc x < e then (Suc x, False) else n)"
  shows "chain h p [i..<e] n"
  using assms
proof (induction "e - i" arbitrary: i p)
  case (Suc d)
  have "chain h i [Suc i..<e] n"
  proof (rule Suc.hyps(1))
    fix x assume "Suc i \<le> x" "x < e"
    then show "\<exists>pg. h x = Some pg \<and> pg_prev pg = Some (if x = Suc i then i else x - 1) \<and>
      pg_next pg = Some (if Suc x < e then (Suc x, False) else n)" using Suc.prems [of x] by auto
  qed (use Suc.hyps(2) in simp)
  moreover have "[i..<e] = i # [Suc i..<e]" using Suc.hyps(2) by (simp add: upt_conv_Cons)
  ultimately show ?case using Suc.prems [of i] Suc.hyps(2) by (cases "Suc i < e") (auto simp: upt_conv_Cons)
qed simp

definition closed :: "nat \<Rightarrow> nat \<Rightarrow> 'v pages" where
  "closed s e = (line s (Suc e))
     (s \<mapsto> \<lparr>pg_value = None, pg_next = Some (Suc s, False), pg_prev = Some e\<rparr>,
      e \<mapsto> \<lparr>pg_value = None, pg_next = Some (s, True), pg_prev = Some (e - 1)\<rparr>)"

lemma closed_ring:
  assumes "s + 2 \<le> e"
  shows "ring_ok (closed s e :: 'v pages) [s..<Suc e]"
proof -
  have "chain (closed s e :: 'v pages) e [s..<Suc e] (s, True)"
  proof (rule chain_upt)
    fix x assume x: "s \<le> x" "x < Suc e"
    show "\<exists>pg. (closed s e :: 'v pages) x = Some pg \<and> pg_prev pg = Some (if x = s then e else x - 1) \<and>
      pg_next pg = Some (if Suc x < Suc e then (Suc x, False) else (s, True))"
      using x assms by (cases "x = s"; cases "x = e") (simp_all add: closed_def line_def)
  qed
  moreover have "last [s..<Suc e] = e" "hd [s..<Suc e] = s" "[s..<Suc e] \<noteq> []" using assms by (simp_all add: upt_rec [of s])
  ultimately show ?thesis using assms unfolding ring_ok_def by (simp del: upt_Suc)
qed

lemma closed_val: "page_val (closed s e :: 'v pages) x = None"
  by (simp add: page_val_def closed_def line_def)

lemma closed_dom:
  assumes "s + 2 \<le> e"
  shows "dom (closed s e :: 'v pages) = set [s..<Suc e]"
  using assms by (auto simp: closed_def line_def dom_def split: if_splits)

text \<open>
  \<open>rqueue_create\<close> gives an empty queue when no allocation fails, and nothing stays allocated otherwise.
\<close>

abbreviation ring_size :: "nat \<Rightarrow> nat" where
  "ring_size siz \<equiv> if siz > RQUEUE_MIN_SIZE then siz else RQUEUE_MIN_SIZE"

lemma line_single: "line s (Suc s) = [s \<mapsto> \<lparr>pg_value = None, pg_next = None, pg_prev = Some s\<rparr>]"
  by (auto simp: line_def fun_eq_iff)

lemma create_ok:
  assumes "\<And>x. a \<le> x \<Longrightarrow> x \<le> a + ring_size siz + 2 \<Longrightarrow> \<not> fails x"
  shows "\<exists>q ps. rqueue_create fails a siz mode = Some (Some (q :: 'v rqueue_t), rq_pages q) \<and> rq_at q ps [] \<and> rq_size q = ring_size siz \<and>
    rq_mode q = mode \<and> \<not> rq_free_cb q \<and> rq_writes q = 0 \<and> rq_reads q = 0 \<and> rq_freed q = [] \<and> held (rq_pages q) ps = {#}"
proof -
  define n where "n = ring_size siz"
  let ?s = "Suc a" and ?e = "Suc a + n" and ?r = "a + n + 2"
  have n: "2 \<le> n" by (simp add: n_def RQUEUE_MIN_SIZE_def)
  have ok: "\<not> fails x" if "a \<le> x" "x \<le> ?r" for x using assms that by (simp add: n_def)
  have "create_pages fails (Suc n) ?s None None (Map.empty :: 'v pages) = create_pages fails n (Suc ?s) (Some ?s) (Some ?s) (line ?s (Suc ?s))"
    using ok [of ?s] by (simp add: empty_page_def line_single)
  also have "\<dots> = Some (True, Some ?s, Some ?e, line ?s (Suc ?e))"
    using create_pages_line [of ?s ?s fails n, where 'v = 'v] ok by auto
  finally have c: "create_pages fails (Suc n) ?s None None (Map.empty :: 'v pages) = Some (True, Some ?s, Some ?e, line ?s (Suc ?e))" .
  let ?h = "(closed ?s ?e :: 'v pages)(?r \<mapsto> \<lparr>pg_value = None, pg_next = Some (?s, False), pg_prev = Some ?e\<rparr>)"
  let ?q = "\<lparr>rq_pages = ?h, rq_head = ?s, rq_tail = ?s, rq_commit = ?s, rq_reader = ?r, rq_free_cb = False,
                          rq_size = n, rq_mode = mode, rq_writes = 0, rq_reads = 0, rq_read_sync = False,
                          rq_write_sync = False, rq_num_writers = 0, rq_is_empty = True, rq_freed = []\<rparr>"
  let ?ps = "[?s..<Suc ?e]"
  have "rqueue_create fails a siz mode = Some (Some ?q, rq_pages ?q)"
    using ok [of a] ok [of ?r] c n by (simp add: rqueue_create_def n_def [symmetric] closed_def line_def [of ?s _ ?s] line_def [of ?s _ "Suc (a + n)"] Let_def)
  moreover have "rq_at ?q ?ps []"
  proof -
    have r: "?r \<notin> set ?ps" by simp
    have "ring_ok ?h ?ps" using closed_ring [of ?s ?e, where 'v = 'v] n r unfolding ring_ok_def by (simp add: chain_other del: upt_Suc)
    moreover have "dom ?h = insert ?r (set ?ps)" using closed_dom [of ?s ?e, where 'v = 'v] n by (simp add: insert_commute del: upt_Suc)
    moreover have "hd ?ps = ?s" "?ps ! 0 = ?s" "length ?ps = Suc n" using nth_upt [of ?s 0 "Suc ?e"] by (simp_all del: upt_Suc)
    ultimately show ?thesis using r by (simp add: rq_at_def page_val_def del: upt_Suc)
  qed
  moreover have "held ?h ?ps = {#}"
  proof -
    have "page_val ?h x = None" for x using closed_val [of ?s ?e x, where 'v = 'v] by (simp add: page_val_def)
    then show ?thesis by (simp add: held_def del: upt_Suc)
  qed
  ultimately show ?thesis unfolding n_def [symmetric] by - (rule exI [of _ ?q], rule exI [of _ ?ps], simp del: upt_Suc)
qed

lemma create_pages_first:
  "create_pages fails (Suc n) s None None (Map.empty :: 'v pages) =
    (if fails s then Some (False, None, None, Map.empty) else create_pages fails n (Suc s) (Some s) (Some s) (line s (Suc s)))"
  by (simp add: empty_page_def line_single)

lemma create_fails:
  assumes "a \<le> x" and "x \<le> a + ring_size siz + 2" and "fails x"
  shows "rqueue_create fails a siz mode = Some (None, Map.empty :: 'v pages)"
proof -
  define n where "n = ring_size siz"
  let ?s = "Suc a" and ?e = "Suc a + n" and ?r = "a + n + 2"
  have n: "2 \<le> n" by (simp add: n_def RQUEUE_MIN_SIZE_def)
  consider "fails a" | "\<not> fails a" "fails ?s" | "\<not> fails a" "\<not> fails ?s" "\<exists>y. ?s < y \<and> y \<le> ?s + n \<and> fails y" 
    | "\<not> fails a" "\<not> fails ?s" "\<forall>y. ?s < y \<and> y \<le> ?s + n \<longrightarrow> \<not> fails y" "fails ?r"
    using assms unfolding n_def [symmetric] by (metis Suc_leI add_2_eq_Suc' add_Suc le_Suc_eq le_neq_implies_less)
  then show ?thesis
  proof cases
    case 1
    then show ?thesis by (simp add: rqueue_create_def)
  next
    case 2
    then show ?thesis
      by (simp add: rqueue_create_def n_def [symmetric] create_pages_first free_chain.simps del: create_pages.simps)
  next
    case 3
    then have f: "(\<forall>y. ?s < y \<and> y \<le> ?s + n \<longrightarrow> \<not> fails y) = False" by blast
    obtain e where e: "create_pages fails n (Suc ?s) (Some ?s) (Some ?s) (line ?s (Suc ?s) :: 'v pages) =
      Some (False, Some ?s, Some e, line ?s (Suc e))" "?s \<le> e" using create_pages_line [of ?s ?s fails n, where 'v = 'v] unfolding f by auto
    have "(line ?s (Suc e) :: 'v pages) |` {?s..} = line ?s (Suc e)" by (auto simp: line_def restrict_map_def fun_eq_iff)
    then have "free_chain (Some ?s) (line ?s (Suc e) :: 'v pages) = Some Map.empty"
      using free_chain_line [of ?s ?s "Suc e", where 'v = 'v] e(2) by simp
    then show ?thesis using 3 e(1) by (simp add: rqueue_create_def n_def [symmetric] create_pages_first del: create_pages.simps)
  next
    case 4
    then have c: "create_pages fails n (Suc ?s) (Some ?s) (Some ?s) (line ?s (Suc ?s)) = Some (True, Some ?s, Some ?e, line ?s (Suc ?e) :: 'v pages)"
      using create_pages_line [of ?s ?s fails n, where 'v = 'v] by auto
    have ps: "[?s..<Suc ?e] = ?s # [Suc ?s..<Suc ?e]" by (simp add: upt_conv_Cons del: upt_Suc)
    have "chain (closed ?s ?e :: 'v pages) (last [?s..<Suc ?e]) (?s # [Suc ?s..<Suc ?e]) (?s, True)"
      using closed_ring [of ?s ?e, where 'v = 'v] n unfolding ring_ok_def ps by (simp del: upt_Suc chain.simps)
    from free_ring_chain [OF this] have "free_ring ?s ?s (closed ?s ?e :: 'v pages) = Some (closed ?s ?e |` (- set [?s..<Suc ?e]))"
      unfolding ps by (simp del: upt_Suc)
    moreover have "(closed ?s ?e :: 'v pages) |` (- set [?s..<Suc ?e]) = Map.empty"
      using closed_dom [of ?s ?e, where 'v = 'v] n by (auto simp: restrict_map_def fun_eq_iff dom_def simp del: upt_Suc)
    ultimately have "free_ring ?s ?s (closed ?s ?e :: 'v pages) = Some Map.empty" by simp
    then show ?thesis using 4 c n
      by (simp add: rqueue_create_def n_def [symmetric] create_pages_first closed_def line_def [of ?s _ ?s] line_def [of ?s _ "Suc (a + n)"] Let_def
          del: create_pages.simps)
  qed
qed

section \<open>Release\<close>

lemma destroy_loop_chain:
  "chain (rq_pages q) p (a # as) (rq_head q, f) \<Longrightarrow> rq_head q \<notin> set as \<Longrightarrow> distinct (a # as) \<Longrightarrow>
   destroy_loop a q = Some (q\<lparr>rq_pages := rq_pages q |` (- set (a # as)),
     rq_freed := rq_freed q @ (if rq_free_cb q then concat (map (stale (rq_pages q)) (a # as)) else [])\<rparr>)"
proof (induction as arbitrary: a p q)
  case Nil
  then show ?case
    by (subst destroy_loop.simps) (auto simp: RQUEUE_FLAG_OFF_def rqueue_destroy_page_def restrict_map_def fun_eq_iff stale_def page_val_def split: option.split)
next
  case (Cons b as)
  then obtain A where A: "rq_pages q a = Some A" "pg_next A = Some (b, False)" "chain (rq_pages q) a (b # as) (rq_head q, f)" by auto
  define q1 where "q1 = q\<lparr>rq_pages := (rq_pages q)(a := None), rq_freed := rq_freed q @ (if rq_free_cb q then stale (rq_pages q) a else [])\<rparr>"
  have q1: "rqueue_destroy_page a q = Some q1"
    using A(1) by (simp add: rqueue_destroy_page_def q1_def stale_def page_val_def split: option.split)
  have "chain (rq_pages q1) a (b # as) (rq_head q1, f)"
    using A(3) Cons.prems(3) chain_other [of a "b # as" "rq_pages q" None a "(rq_head q, f)"] by (simp add: q1_def del: chain.simps)
  moreover have "rq_head q1 \<notin> set as" "distinct (b # as)" using Cons.prems by (simp_all add: q1_def)
  ultimately have "destroy_loop b q1 = Some (q1\<lparr>rq_pages := rq_pages q1 |` (- set (b # as)),
     rq_freed := rq_freed q1 @ (if rq_free_cb q1 then concat (map (stale (rq_pages q1)) (b # as)) else [])\<rparr>)" by (rule Cons.IH)
  moreover have "(rq_pages q)(a := None) |` (- set (b # as)) = rq_pages q |` (- set (a # b # as))" by (auto simp: restrict_map_def fun_eq_iff)
  moreover have "map (stale (rq_pages q1)) (b # as) = map (stale (rq_pages q)) (b # as)"
    using Cons.prems(3) by (auto simp: q1_def stale_def page_val_def)
  then have "concat (map (stale (rq_pages q1)) (b # as)) = concat (map (stale (rq_pages q)) (b # as))" by (simp only:)
  ultimately have "destroy_loop b q1 = Some (q\<lparr>rq_pages := rq_pages q |` (- set (a # b # as)),
     rq_freed := rq_freed q @ (if rq_free_cb q then concat (map (stale (rq_pages q)) (a # b # as)) else [])\<rparr>)"
    by (cases "rq_free_cb q") (simp_all add: q1_def)
  moreover have "destroy_loop a q = destroy_loop b q1"
    using A Cons.prems q1 by (subst destroy_loop.simps) (auto simp: RQUEUE_FLAG_OFF_def q1_def)
  ultimately show ?case by simp
qed

lemma rqueue_destroy_ok:
  assumes "rq_at q ps vs"
  shows "\<exists>q'. rqueue_destroy q = Some q' \<and> rq_pages q' = Map.empty \<and>
    mset (rq_freed q') = mset (rq_freed q) + (if rq_free_cb q then held (rq_pages q) ps else {#})"
proof -
  obtain a b cs where ps: "ps = a # b # cs" using rq_at_split [OF assms] .
  let ?h = "rq_pages q" and ?r = "rq_reader q"
  have at: "chain ?h (last ps) (a # b # cs) (rq_head q, True)" "distinct (a # b # cs)" "rq_head q = a" "?r \<notin> set ps"
    "dom ?h = insert ?r (set ps)" using assms by (simp_all add: rq_at_def ring_ok_def ps del: chain.simps)
  obtain R where R: "?h ?r = Some R" "pg_value R = None" using rq_at_reader [OF assms] .
  have loop: "destroy_loop (rq_head q) q = Some (q\<lparr>rq_pages := ?h |` (- set ps),
     rq_freed := rq_freed q @ (if rq_free_cb q then concat (map (stale ?h) ps) else [])\<rparr>)"
    using destroy_loop_chain [OF at(1)] at(2,3) by (simp add: ps)
  have "(?h |` (- set ps))(?r := None) = Map.empty" using at(5) by (auto simp: restrict_map_def fun_eq_iff dom_def)
  then show ?thesis using loop R at(4) by (simp add: rqueue_destroy_def rqueue_destroy_page_def held_stale)
qed

section \<open>A bounded queue that owns its values\<close>

datatype 'v queue_call = Read | Write 'v
datatype 'v queue_answer = Got "'v option" | Code int

fun queue_run ::
  "('q \<Rightarrow> ('v option \<times> 'q) option) \<Rightarrow> ('q \<Rightarrow> 'v \<Rightarrow> (int \<times> 'q) option) \<Rightarrow> 'v queue_call list \<Rightarrow> 'q \<Rightarrow> ('v queue_answer list \<times> 'q) option" where
  "queue_run rdq wrq [] q = Some ([], q)"
| "queue_run rdq wrq (Read # cs) q = do { (v, q) \<leftarrow> rdq q; (as, q) \<leftarrow> queue_run rdq wrq cs q; Some (Got v # as, q) }"
| "queue_run rdq wrq (Write v # cs) q = do { (c, q) \<leftarrow> wrq q v; (as, q) \<leftarrow> queue_run rdq wrq cs q; Some (Code c # as, q) }"

text \<open>The specification: a list of at most \<open>n\<close> values. A full queue refuses a value, or drops its oldest one for it.\<close>

definition spec_write :: "nat \<Rightarrow> bool \<Rightarrow> 'v list \<Rightarrow> 'v \<Rightarrow> int \<times> 'v list" where
  "spec_write n over vs v = (if length vs < n then (0, vs @ [v]) else if over then (0, tl vs @ [v]) else (- 2, vs))"

fun spec_run :: "nat \<Rightarrow> bool \<Rightarrow> 'v queue_call list \<Rightarrow> 'v list \<Rightarrow> 'v queue_answer list \<times> 'v list" where
  "spec_run n over [] vs = ([], vs)"
| "spec_run n over (Read # cs) [] = (case spec_run n over cs [] of (as, vs) \<Rightarrow> (Got None # as, vs))"
| "spec_run n over (Read # cs) (v # vs) = (case spec_run n over cs vs of (as, vs) \<Rightarrow> (Got (Some v) # as, vs))"
| "spec_run n over (Write v # cs) vs =
     (case spec_write n over vs v of (c, vs) \<Rightarrow> case spec_run n over cs vs of (as, vs) \<Rightarrow> (Code c # as, vs))"

text \<open>The values that a run accepted and those that it delivered.\<close>

fun accepted :: "'v queue_call list \<Rightarrow> 'v queue_answer list \<Rightarrow> 'v list" where
  "accepted (Write v # cs) (Code c # as) = (if c = 0 then v # accepted cs as else accepted cs as)"
| "accepted (_ # cs) (_ # as) = accepted cs as"
| "accepted _ _ = []"

fun delivered :: "'v queue_answer list \<Rightarrow> 'v list" where
  "delivered (Got (Some v) # as) = v # delivered as"
| "delivered (_ # as) = delivered as"
| "delivered [] = []"

text \<open>
  The contract: \<open>holds q vs K\<close> relates a state to the values \<open>vs\<close> that are to be read and to the values \<open>K\<close> that the queue is
  still responsible for or has released.
\<close>

locale owning_queue =
  fixes rdq :: "'q \<Rightarrow> ('v option \<times> 'q) option"
    and wrq :: "'q \<Rightarrow> 'v \<Rightarrow> (int \<times> 'q) option"
    and holds :: "'q \<Rightarrow> 'v list \<Rightarrow> 'v multiset \<Rightarrow> bool"
    and cap :: nat
    and over :: bool
  assumes rd_empty: "holds q [] K \<Longrightarrow> rdq q = Some (None, q)"
    and rd_next: "holds q (v # vs) K \<Longrightarrow> \<exists>q' K'. rdq q = Some (Some v, q') \<and> holds q' vs K' \<and> K = add_mset v K'"
    and wr_room: "holds q vs K \<Longrightarrow> length vs < cap \<Longrightarrow> \<exists>q'. wrq q v = Some (0, q') \<and> holds q' (vs @ [v]) (add_mset v K)"
    and wr_full: "holds q vs K \<Longrightarrow> length vs \<ge> cap \<Longrightarrow> \<not> over \<Longrightarrow> wrq q v = Some (- 2, q)"
    and wr_over: "holds q vs K \<Longrightarrow> length vs \<ge> cap \<Longrightarrow> over \<Longrightarrow> \<exists>q'. wrq q v = Some (0, q') \<and> holds q' (tl vs @ [v]) (add_mset v K)"
begin

lemma wr_spec:
  assumes "holds q vs K" and "spec_write cap over vs v = (c, vs')"
  shows "\<exists>q'. wrq q v = Some (c, q') \<and> holds q' vs' (if c = 0 then add_mset v K else K)"
  using assms(2) wr_room [OF assms(1)] wr_full [OF assms(1)] wr_over [OF assms(1)] assms(1)
  by (cases "length vs < cap"; cases over) (auto simp: spec_write_def not_less)

lemma run_spec:
  assumes "holds q vs K" and "spec_run cap over cs vs = (as, vs')"
  shows "\<exists>q' K'. queue_run rdq wrq cs q = Some (as, q') \<and> holds q' vs' K' \<and> K + mset (accepted cs as) = mset (delivered as) + K'"
  using assms
proof (induction cs arbitrary: q vs K as)
  case (Cons c cs)
  show ?case
  proof (cases c)
    case Read
    show ?thesis
    proof (cases vs)
      case Nil
      then show ?thesis using Cons Read rd_empty [of q K] by (fastforce split: prod.splits)
    next
      case (Cons v ws)
      with Cons.prems(1) obtain q1 K1 where 1: "rdq q = Some (Some v, q1)" "holds q1 ws K1" "K = add_mset v K1" using rd_next by blast
      obtain bs where 2: "spec_run cap over cs ws = (bs, vs')" "as = Got (Some v) # bs"
        using Cons.prems(2) Cons Read by (auto split: prod.splits)
      from Cons.IH [OF 1(2) 2(1)] show ?thesis using 1 2 Read by auto
    qed
  next
    case (Write v)
    obtain k ws where w: "spec_write cap over vs v = (k, ws)" by force
    obtain bs where 2: "spec_run cap over cs ws = (bs, vs')" "as = Code k # bs"
      using Cons.prems(2) Write w by (auto split: prod.splits)
    obtain q1 where 1: "wrq q v = Some (k, q1)" "holds q1 ws (if k = 0 then add_mset v K else K)" using wr_spec [OF Cons.prems(1) w] by blast
    from Cons.IH [OF 1(2) 2(1)] show ?thesis using 1 2 Write by (cases "k = 0") auto
  qed
qed (use assms in auto)

end

text \<open>Without a callback the value that a write replaces is lost: \<open>G\<close> collects those values.\<close>

definition rq_holds :: "nat \<Rightarrow> rqueue_mode_t \<Rightarrow> bool \<Rightarrow> 'v rqueue_t \<Rightarrow> 'v list \<Rightarrow> 'v multiset \<Rightarrow> bool" where
  "rq_holds n m cb q vs K \<longleftrightarrow> (\<exists>ps G. rq_at q ps vs \<and> rq_size q = n \<and> rq_mode q = m \<and> rq_free_cb q = cb \<and>
     K = held (rq_pages q) ps + mset (rq_freed q) + G \<and> (cb \<longrightarrow> G = {#}))"

lemma rq_holds_write:
  assumes "rq_at q' ps' vs'" and "rq_keeps q q'" and "rq_freed q' = rq_freed q @ (if rq_free_cb q then old else [])"
    and "held (rq_pages q') ps' + mset old = add_mset v (held (rq_pages q) ps)"
    and "rq_size q = n" "rq_mode q = m" "rq_free_cb q = cb" "K = held (rq_pages q) ps + mset (rq_freed q) + G" "cb \<longrightarrow> G = {#}"
  shows "rq_holds n m cb q' vs' (add_mset v K)"
proof -
  have "add_mset v K = held (rq_pages q') ps' + mset old + mset (rq_freed q) + G" unfolding assms(4) assms(8) by simp
  also have "\<dots> = held (rq_pages q') ps' + mset (rq_freed q') + (if cb then G else G + mset old)"
    using assms(3,7) by (simp add: ac_simps)
  finally show ?thesis using assms(1,2,5-7,9) unfolding rq_holds_def rq_keeps_def
    by (intro exI [of _ ps'] exI [of _ "if cb then G else G + mset old"]) simp
qed

interpretation rq: owning_queue rqueue_read "\<lambda>q v. rqueue_write q (Some v)" "rq_holds n m cb" n "m = RQUEUE_MODE_OVERWRITE"
proof
  fix q :: "'a rqueue_t" and K v vs
  { assume "rq_holds n m cb q [] K"
    then show "rqueue_read q = Some (None, q)" by (auto simp: rq_holds_def rqueue_read_empty) }
  { assume "rq_holds n m cb q (v # vs) K"
    then obtain ps G where 1: "rq_at q ps (v # vs)" "rq_size q = n" "rq_mode q = m" "rq_free_cb q = cb"
      "K = held (rq_pages q) ps + mset (rq_freed q) + G" "cb \<longrightarrow> G = {#}" by (auto simp: rq_holds_def)
    obtain q' ps' where 2: "rqueue_read q = Some (Some v, q')" "rq_at q' ps' vs" "rq_keeps q q'" "rq_freed q' = rq_freed q"
      "held (rq_pages q) ps = add_mset v (held (rq_pages q') ps')" using rqueue_read_ok [OF 1(1)] by auto
    then have "rq_holds n m cb q' vs (held (rq_pages q') ps' + mset (rq_freed q) + G)"
      using 1(2-4,6) unfolding rq_holds_def rq_keeps_def by (intro exI [of _ ps'] exI [of _ G]) simp
    then show "\<exists>q' K'. rqueue_read q = Some (Some v, q') \<and> rq_holds n m cb q' vs K' \<and> K = add_mset v K'"
      using 2(1,5) 1(5) by auto }
  assume "rq_holds n m cb q vs K"
  then obtain ps G where 1: "rq_at q ps vs" and 2: "rq_size q = n" "rq_mode q = m" "rq_free_cb q = cb"
    "K = held (rq_pages q) ps + mset (rq_freed q) + G" "cb \<longrightarrow> G = {#}" by (auto simp: rq_holds_def)
  have len: "length vs \<le> n" using 1 2(1) by (simp add: rq_at_def)
  obtain a b cs where ps: "ps = a # b # cs" "cs \<noteq> []" using rq_at_split [OF 1] .
  { assume "length vs < n"
    then show "\<exists>q'. rqueue_write q (Some v) = Some (0, q') \<and> rq_holds n m cb q' (vs @ [v]) (add_mset v K)"
      using rqueue_write_room [OF 1, of v] rq_holds_write [OF _ _ _ _ 2] 2(1) by blast }
  { assume "n \<le> length vs" "m \<noteq> RQUEUE_MODE_OVERWRITE"
    then show "rqueue_write q (Some v) = Some (- 2, q)" using rqueue_write_full [OF 1] 2(1,2) len by simp }
  { assume "n \<le> length vs" "m = RQUEUE_MODE_OVERWRITE"
    then have "length vs = rq_size q" "rq_mode q = RQUEUE_MODE_OVERWRITE" using len 2(1,2) by simp_all
    then show "\<exists>q'. rqueue_write q (Some v) = Some (0, q') \<and> rq_holds n m cb q' (tl vs @ [v]) (add_mset v K)"
      using rqueue_write_over [OF 1 [unfolded ps(1)] ps(2), of v] rq_holds_write [OF _ _ _ _ 2] unfolding ps(1) [symmetric] by blast }
qed

lemma create_holds:
  "\<exists>q. rqueue_create (\<lambda>_. False) a siz m = Some (Some (q :: 'v rqueue_t), rq_pages q) \<and>
     rq_holds (max siz 2) m cb (rqueue_set_free_value_callback q cb) [] {#}"
proof -
  obtain q ps where q: "rqueue_create (\<lambda>_. False) a siz m = Some (Some (q :: 'v rqueue_t), rq_pages q)" "rq_at q ps []" "rq_size q = max siz 2"
    "rq_mode q = m" "rq_freed q = []" "held (rq_pages q) ps = {#}"
    using create_ok [of a siz "\<lambda>_. False" m, where 'v = 'v] by (auto simp: RQUEUE_MIN_SIZE_def max_def)
  then have "rq_holds (max siz 2) m cb (rqueue_set_free_value_callback q cb) [] {#}"
    unfolding rq_holds_def rqueue_set_free_value_callback_def by (intro exI [of _ ps] exI [of _ "{#}"]) (simp add: rq_at_def)
  with q(1) show ?thesis by blast
qed

section \<open>Properties\<close>

text \<open>
  \<open>C39\<close> \<open>rqueue_create\<close> is all or nothing: when any of its allocations fails (the descriptor, a page of
  the ring or the reader page) the result is NULL and no page stays allocated; otherwise it is an empty queue of the
  requested size, at least 2, with all of its pages in the ring.
\<close>

theorem rqueue_create_all_or_nothing:
  "if \<exists>x. a \<le> x \<and> x \<le> a + max siz 2 + 2 \<and> fails x
   then rqueue_create fails a siz m = Some (None, Map.empty :: 'v pages)
   else \<exists>q ps. rqueue_create fails a siz m = Some (Some (q :: 'v rqueue_t), rq_pages q) \<and> rq_at q ps [] \<and> rq_mode q = m \<and>
     rqueue_size (Some q) = max siz 2 \<and> card (dom (rq_pages q)) = max siz 2 + 2"
proof -
  have n: "ring_size siz = max siz 2" by (simp add: RQUEUE_MIN_SIZE_def max_def)
  have "card (dom (rq_pages q)) = Suc (Suc (rq_size q))" if "rq_at q ps []" for q :: "'v rqueue_t" and ps
    using that by (simp add: rq_at_def ring_ok_def distinct_card)
  then have "\<exists>q ps. rqueue_create fails a siz m = Some (Some (q :: 'v rqueue_t), rq_pages q) \<and> rq_at q ps [] \<and> rq_mode q = m \<and>
      rqueue_size (Some q) = max siz 2 \<and> card (dom (rq_pages q)) = max siz 2 + 2" if "\<not> (\<exists>x. a \<le> x \<and> x \<le> a + max siz 2 + 2 \<and> fails x)"
    using create_ok [of a siz fails m, where 'v = 'v, unfolded n] that by (auto simp: rqueue_size_def)
  moreover have "rqueue_create fails a siz m = Some (None, Map.empty :: 'v pages)" if "\<exists>x. a \<le> x \<and> x \<le> a + max siz 2 + 2 \<and> fails x"
    using create_fails [of a _ siz fails m, where 'v = 'v, unfolded n] that by blast
  ultimately show ?thesis by (simp only: if_bool_eq_conj) blast
qed

text \<open>
  \<open>C5\<close> A queue from \<open>rqueue_create\<close> answers every sequence of reads and writes as a bounded first-in
  first-out list does. A read gives the oldest value, or NULL from an empty queue. A write to a full queue is refused with
  \<open>-2\<close> in blocking mode and replaces the oldest value in overwrite mode. \<open>rqueue_isempty\<close> tells whether the list is empty.
\<close>

theorem rqueue_refines_bounded_fifo:
  "\<exists>q q'. rqueue_create (\<lambda>_. False) a siz m = Some (Some q, rq_pages q) \<and>
     (case spec_run (max siz 2) (m = RQUEUE_MODE_OVERWRITE) calls [] of (as, vs) \<Rightarrow>
        queue_run rqueue_read (\<lambda>q v. rqueue_write q (Some v)) calls (rqueue_set_free_value_callback q cb) = Some (as, q') \<and>
        rqueue_isempty (Some q') = (if vs = [] then 1 else 0))"
proof -
  obtain q where q: "rqueue_create (\<lambda>_. False) a siz m = Some (Some (q :: 'a rqueue_t), rq_pages q)"
    "rq_holds (max siz 2) m cb (rqueue_set_free_value_callback q cb) [] {#}" using create_holds by blast
  obtain as vs where s: "spec_run (max siz 2) (m = RQUEUE_MODE_OVERWRITE) calls [] = (as, vs)" by force
  from rq.run_spec [OF q(2) s] q(1) show ?thesis
    by (auto simp: s rq_holds_def rq_at_def rqueue_isempty_def)
qed

text \<open>
  \<open>C38\<close> Ownership: when a release callback is set, a queue that is used in any way and then destroyed has
  delivered or released every value that it accepted, each exactly once, and none of its pages stays allocated.
\<close>

theorem rqueue_owns_values:
  "\<exists>q q' q'' as. rqueue_create (\<lambda>_. False) a siz m = Some (Some q, rq_pages q) \<and>
     queue_run rqueue_read (\<lambda>q v. rqueue_write q (Some v)) calls (rqueue_set_free_value_callback q True) = Some (as, q') \<and>
     rqueue_destroy q' = Some q'' \<and> rq_pages q'' = Map.empty \<and>
     mset (accepted calls as) = mset (delivered as) + mset (rq_freed q'')"
proof -
  obtain q where q: "rqueue_create (\<lambda>_. False) a siz m = Some (Some (q :: 'a rqueue_t), rq_pages q)"
    "rq_holds (max siz 2) m True (rqueue_set_free_value_callback q True) [] {#}" using create_holds by blast
  obtain as vs where s: "spec_run (max siz 2) (m = RQUEUE_MODE_OVERWRITE) calls [] = (as, vs)" by force
  from rq.run_spec [OF q(2) s] obtain q' K' where r: "queue_run rqueue_read (\<lambda>q v. rqueue_write q (Some v)) calls
      (rqueue_set_free_value_callback q True) = Some (as, q')" "rq_holds (max siz 2) m True q' vs K'"
      "mset (accepted calls as) = mset (delivered as) + K'" by auto
  then obtain ps where p: "rq_at q' ps vs" "rq_free_cb q'" "K' = held (rq_pages q') ps + mset (rq_freed q')" by (auto simp: rq_holds_def)
  from rqueue_destroy_ok [OF p(1)] p(2,3) obtain q'' where "rqueue_destroy q' = Some q''" "rq_pages q'' = Map.empty" "mset (rq_freed q'') = K'"
    by (auto simp: ac_simps)
  with q(1) r(1,3) show ?thesis by blast
qed

end
