(* ===== verification/Binheap.thy ===== *)
theory Binheap
  imports Linklist_Spec Comparators
begin

text \<open>
  Model of \<open>src/src/binheap.c\<close>: heaps of keys with values in a forest of nodes. The nodes live in a store, with their
  pointers to the parent, to the children and to the heap as the code keeps them, so that a pointer to a heap
  that is not the one the node hangs in is visible.

  The list of trees is a list of \<open>linklist.c\<close>. It is represented by the list of its values, on which the operations act
  as \<open>Linklist_Spec\<close> proves: \<open>list_shift_value\<close> and \<open>list_unshift_value\<close> at the front,
  \<open>list_insert_value\<close> as \<open>insert_at\<close>, \<open>list_fetch_value\<close> as \<open>remove_at\<close> and \<open>list_foreach_value\<close> as
  \<open>foreach_spec\<close>. The allocations of \<open>realloc\<close> for the children and of the entries of the list succeed; those of
  nodes and keys can fail.

  A key with its length is one value of type \<open>'k\<close>; the callbacks that compare and change keys are functions
  on them.
\<close>

section \<open>Data\<close>

datatype binheap_mode_t = BINHEAP_MODE_MAX | BINHEAP_MODE_MIN

record 'k binheap_callbacks_t =
  cb_cmp :: "'k \<Rightarrow> 'k \<Rightarrow> int"
  cb_incr :: "'k \<Rightarrow> int \<Rightarrow> 'k option"
  cb_decr :: "'k \<Rightarrow> int \<Rightarrow> 'k option"

record ('k, 'v) binomial_tree_node_t =
  bn_key :: 'k
  bn_value :: 'v
  bn_parent :: "nat option"
  bn_children :: "nat list"
  bn_bh :: nat

record 'k binheap_t =
  bh_trees :: "nat option list"
  bh_head :: "nat option"
  bh_cbs :: "'k binheap_callbacks_t"
  bh_count :: int
  bh_mode :: binheap_mode_t

record ('k, 'v) bh_mem =
  bm_nodes :: "nat \<rightharpoonup> ('k, 'v) binomial_tree_node_t"
  bm_heaps :: "nat \<rightharpoonup> 'k binheap_t"
  bm_brk :: nat

type_synonym ('k, 'v) bnodes = "nat \<rightharpoonup> ('k, 'v) binomial_tree_node_t"

definition bh_cmp :: "'k binheap_t \<Rightarrow> 'k \<Rightarrow> 'k \<Rightarrow> int" where
  "bh_cmp H = cb_cmp (bh_cbs H)"

definition HAS_PRECEDENCE :: "'k binheap_t \<Rightarrow> 'k \<Rightarrow> 'k \<Rightarrow> bool" where
  "HAS_PRECEDENCE H k1 k2 \<longleftrightarrow>
     (bh_mode H = BINHEAP_MODE_MAX \<and> bh_cmp H k1 k2 \<ge> 0) \<or> (bh_mode H = BINHEAP_MODE_MIN \<and> bh_cmp H k1 k2 \<le> 0)"

definition upd_node ::
  "nat \<Rightarrow> (('k, 'v) binomial_tree_node_t \<Rightarrow> ('k, 'v) binomial_tree_node_t) \<Rightarrow> ('k, 'v) bnodes \<Rightarrow> ('k, 'v) bnodes option" where
  "upd_node a f h = (case h a of None \<Rightarrow> None | Some n \<Rightarrow> Some (h(a \<mapsto> f n)))"

section \<open>The callbacks for plain bytes\<close>

definition cmp_keys_default :: "byte list \<Rightarrow> byte list \<Rightarrow> int" where
  "cmp_keys_default k1 k2 =
     (if length k1 \<noteq> length k2 then signed_take_bit 31 (int (length k1) - int (length k2)) else memcmp k1 k2)"

text \<open>
  The loop of \<open>incr_key_default\<close> from the offset \<open>off\<close> on, with the byte \<open>b\<close> to be stored: the new key so far, the
  offset where it stopped and the byte.
\<close>

fun incr_loop :: "byte list \<Rightarrow> nat \<Rightarrow> byte \<Rightarrow> byte list \<Rightarrow> byte list \<times> nat \<times> byte" where
  "incr_loop key 0 b nk = (nk, 0, b)"
| "incr_loop key (Suc off) b nk =
     (if b < key ! Suc off then incr_loop key off (key ! off + 1) (nk[Suc off := b]) else (nk, Suc off, b))"

definition incr_key_default :: "byte list \<Rightarrow> int \<Rightarrow> byte list option" where
  "incr_key_default k incr =
     (if k = [] then None
      else case incr_loop k (length k - 1) (last k + word_of_int incr) k of
        (nk, off, b) \<Rightarrow> Some (if off = 0 \<and> b < nk ! 0 then 1 # nk else nk))"

fun decr_loop :: "byte list \<Rightarrow> nat \<Rightarrow> byte \<Rightarrow> byte list \<Rightarrow> byte list \<times> nat \<times> byte" where
  "decr_loop key 0 b nk = (nk, 0, b)"
| "decr_loop key (Suc off) b nk =
     (if b > key ! Suc off then decr_loop key off (key ! off - 1) (nk[Suc off := b]) else (nk, Suc off, b))"

definition decr_key_default :: "byte list \<Rightarrow> int \<Rightarrow> byte list option" where
  "decr_key_default k decr =
     (if k = [] then None
      else case decr_loop k (length k - 1) (last k - word_of_int decr) k of
        (nk, off, b) \<Rightarrow> Some (if off = 0 \<and> b > nk ! 0 then 255 # nk else nk))"

definition keys_callbacks_default :: "byte list binheap_callbacks_t" where
  "keys_callbacks_default = \<lparr>cb_cmp = cmp_keys_default, cb_incr = incr_key_default, cb_decr = decr_key_default\<rparr>"

text \<open>
  The callbacks for the integer types: the value of the key is changed with the wrap-around of the type and stored
  as a new key. The keys have the size of the type; of a longer key the code leaves the other bytes indeterminate.
\<close>

fun le_encode :: "nat \<Rightarrow> int \<Rightarrow> byte list" where
  "le_encode 0 x = []"
| "le_encode (Suc n) x = word_of_int x # le_encode n (x div 256)"

definition binheap_incr_key :: "key_type \<Rightarrow> byte list \<Rightarrow> int \<Rightarrow> byte list" where
  "binheap_incr_key t k incr = le_encode (type_size t) (key_value t k + incr)"

definition binheap_decr_key :: "key_type \<Rightarrow> byte list \<Rightarrow> int \<Rightarrow> byte list" where
  "binheap_decr_key t k decr = le_encode (type_size t) (key_value t k - decr)"

definition binheap_keys_callbacks :: "key_type \<Rightarrow> byte list binheap_callbacks_t" where
  "binheap_keys_callbacks t = \<lparr>cb_cmp = cmp_keys (cmp_keys_type t), 
     cb_incr = (\<lambda>k incr. Some (binheap_incr_key t k incr)), cb_decr = (\<lambda>k decr. Some (binheap_decr_key t k decr))\<rparr>"

section \<open>Nodes\<close>

definition binomial_tree_node_add :: "nat \<Rightarrow> nat \<Rightarrow> ('k, 'v) bnodes \<Rightarrow> ('k, 'v) bnodes option" where
  "binomial_tree_node_add node child h = do {
     h \<leftarrow> upd_node node (\<lambda>n. n\<lparr>bn_children := bn_children n @ [child]\<rparr>) h;
     upd_node child (\<lambda>n. n\<lparr>bn_parent := Some node\<rparr>) h
   }"

text \<open>
  The loop over the children \<open>cs\<close> of a node: \<open>best\<close> is the index of the best child so far, \<open>i\<close> the index of the
  first of the remaining children.
\<close>

fun child_loop :: "('k \<Rightarrow> 'k \<Rightarrow> bool) \<Rightarrow> ('k, 'v) bnodes \<Rightarrow> nat list \<Rightarrow> nat \<Rightarrow> nat \<Rightarrow> nat list \<Rightarrow> nat option" where
  "child_loop better h cs best i [] = Some best"
| "child_loop better h cs best i (c # rest) = do {
     cur \<leftarrow> h c;
     bst \<leftarrow> h (cs ! best);
     child_loop better h cs (if better (bn_key cur) (bn_key bst) then i else best) (Suc i) rest
   }"

text \<open>The value \<open>None\<close> of the result stands for \<open>-1\<close>.\<close>

definition binomial_tree_node_find_min_child :: "('k, 'v) bh_mem \<Rightarrow> nat \<Rightarrow> nat option option" where
  "binomial_tree_node_find_min_child m node = do {
     N \<leftarrow> bm_nodes m node;
     if bn_children N = [] then Some None
     else do {
       H \<leftarrow> bm_heaps m (bn_bh N);
       i \<leftarrow> child_loop (\<lambda>k1 k2. bh_cmp H k1 k2 \<le> 0) (bm_nodes m) (bn_children N) 0 0 (bn_children N);
       Some (Some i)
     }
   }"

definition binomial_tree_node_find_max_child :: "('k, 'v) bh_mem \<Rightarrow> nat \<Rightarrow> nat option option" where
  "binomial_tree_node_find_max_child m node = do {
     N \<leftarrow> bm_nodes m node;
     if bn_children N = [] then Some None
     else do {
       H \<leftarrow> bm_heaps m (bn_bh N);
       i \<leftarrow> child_loop (\<lambda>k1 k2. bh_cmp H k1 k2 \<ge> 0) (bm_nodes m) (bn_children N) 0 0 (bn_children N);
       Some (Some i)
     }
   }"

text \<open>
  The loop of \<open>binomial_tree_node_increase_key\<close> that moves the new key up; the result is the store, the node
  reached and whether anything was exchanged.
\<close>

partial_function (option) sift_up ::
  "'k binheap_t \<Rightarrow> 'k \<Rightarrow> nat \<Rightarrow> nat option \<Rightarrow> bool \<Rightarrow> ('k, 'v) bnodes \<Rightarrow> (nat \<times> bool \<times> ('k, 'v) bnodes) option" where
  "sift_up H nkey node parent swapped h = (case parent of
     None \<Rightarrow> Some (node, swapped, h)
   | Some p \<Rightarrow> do {
       P \<leftarrow> h p;
       if HAS_PRECEDENCE H nkey (bn_key P) then do {
         N \<leftarrow> h node;
         h \<leftarrow> upd_node p (\<lambda>n. n\<lparr>bn_key := nkey, bn_value := bn_value N\<rparr>) h;
         h \<leftarrow> upd_node node (\<lambda>n. n\<lparr>bn_key := bn_key P, bn_value := bn_value P\<rparr>) h;
         sift_up H nkey p (bn_parent P) True h
       } else Some (node, swapped, h)
     })"

definition binomial_tree_node_increase_key :: "('k, 'v) bh_mem \<Rightarrow> nat \<Rightarrow> int \<Rightarrow> ('k, 'v) bh_mem option" where
  "binomial_tree_node_increase_key m node incr =
     (if incr = 0 then Some m
      else do {
        N \<leftarrow> bm_nodes m node;
        H \<leftarrow> bm_heaps m (bn_bh N);
        nkey \<leftarrow> (if incr > 0 then cb_incr (bh_cbs H) (bn_key N) incr
                 else do { d \<leftarrow> ck (- incr); cb_decr (bh_cbs H) (bn_key N) d });
        (node, swapped, h) \<leftarrow> sift_up H nkey node (bn_parent N) False (bm_nodes m);
        h \<leftarrow> (if \<not> swapped then upd_node node (\<lambda>n. n\<lparr>bn_key := nkey\<rparr>) h else Some h);
        Some (m\<lparr>bm_nodes := h\<rparr>)
      })"

section \<open>Smallest and largest\<close>

fun maxmin_loop ::
  "('k \<Rightarrow> 'k \<Rightarrow> int) \<Rightarrow> ('k, 'v) bnodes \<Rightarrow> int \<Rightarrow> nat option \<Rightarrow> nat \<Rightarrow> nat \<Rightarrow> nat option list \<Rightarrow> (nat option \<times> nat) option" where
  "maxmin_loop cmp h maxmin node index i [] = Some (node, index)"
| "maxmin_loop cmp h maxmin node index i (curtree # ts) = (case node of
     None \<Rightarrow> maxmin_loop cmp h maxmin curtree i (Suc i) ts
   | Some a \<Rightarrow> do {
       c \<leftarrow> curtree;
       C \<leftarrow> h c;
       A \<leftarrow> h a;
       let is_bigger = cmp (bn_key C) (bn_key A) \<ge> 0;
       if (maxmin = 0 \<and> is_bigger) \<or> (maxmin \<noteq> 0 \<and> \<not> is_bigger)
       then maxmin_loop cmp h maxmin (Some c) i (Suc i) ts
       else maxmin_loop cmp h maxmin node index (Suc i) ts
     })"

definition binheap_maxmin :: "('k, 'v) bh_mem \<Rightarrow> nat \<Rightarrow> int \<Rightarrow> (nat option \<times> nat) option" where
  "binheap_maxmin m b maxmin = do { H \<leftarrow> bm_heaps m b; maxmin_loop (bh_cmp H) (bm_nodes m) maxmin None 0 0 (bh_trees H) }"

partial_function (option) descend ::
  "(('k, 'v) bh_mem \<Rightarrow> nat \<Rightarrow> nat option option) \<Rightarrow> ('k, 'v) bh_mem \<Rightarrow> nat \<Rightarrow> nat option" where
  "descend find_child m root = do {
     R \<leftarrow> bm_nodes m root;
     if bn_children R = [] then Some root
     else do { i \<leftarrow> find_child m root; i \<leftarrow> i; descend find_child m (bn_children R ! i) }
   }"

text \<open>The result is the node, or NULL, and the index; a caller that passes no index ignores it.\<close>

definition binheap_get_minimum :: "('k, 'v) bh_mem \<Rightarrow> nat \<Rightarrow> (nat option \<times> nat) option" where
  "binheap_get_minimum m b = do {
     H \<leftarrow> bm_heaps m b;
     if bh_mode H = BINHEAP_MODE_MIN \<and> bh_head H \<noteq> None then Some (bh_head H, 0)
     else do {
       (minroot, idx) \<leftarrow> binheap_maxmin m b 1;
       case minroot of
         None \<Rightarrow> Some (None, idx)
       | Some r \<Rightarrow>
           if bh_mode H \<noteq> BINHEAP_MODE_MIN
           then do { r \<leftarrow> descend binomial_tree_node_find_min_child m r; Some (Some r, idx) }
           else Some (Some r, idx)
     }
   }"

definition binheap_get_maximum :: "('k, 'v) bh_mem \<Rightarrow> nat \<Rightarrow> (nat option \<times> nat) option" where
  "binheap_get_maximum m b = do {
     H \<leftarrow> bm_heaps m b;
     if bh_mode H = BINHEAP_MODE_MAX \<and> bh_head H \<noteq> None then Some (bh_head H, 0)
     else do {
       (maxroot, idx) \<leftarrow> binheap_maxmin m b 0;
       case maxroot of
         None \<Rightarrow> Some (None, idx)
       | Some r \<Rightarrow>
           if bh_mode H \<noteq> BINHEAP_MODE_MAX
           then do { r \<leftarrow> descend binomial_tree_node_find_max_child m r; Some (Some r, idx) }
           else Some (Some r, idx)
     }
   }"

definition UPDATE_HEAD :: "nat \<Rightarrow> ('k, 'v) bh_mem \<Rightarrow> ('k, 'v) bh_mem option" where
  "UPDATE_HEAD b m = do {
     H \<leftarrow> bm_heaps m b;
     let m = m\<lparr>bm_heaps := (bm_heaps m)(b \<mapsto> H\<lparr>bh_head := None\<rparr>)\<rparr>;
     (r, _) \<leftarrow> (if bh_mode H = BINHEAP_MODE_MAX then binheap_get_maximum m b else binheap_get_minimum m b);
     Some (m\<lparr>bm_heaps := (bm_heaps m)(b \<mapsto> H\<lparr>bh_head := r\<rparr>)\<rparr>)
   }"

section \<open>Removal of a node\<close>

definition binheap_remove_root_node :: "nat \<Rightarrow> nat option \<Rightarrow> nat \<Rightarrow> unit \<Rightarrow> int \<times> unit" where
  "binheap_remove_root_node node item idx user = (if item = Some node then - 2 else 1, ())"

text \<open>The first part: the node leaves its parent, or the list of trees, where one of its children takes its place.\<close>

definition unlink_inner :: "nat \<Rightarrow> nat \<Rightarrow> ('k, 'v) bh_mem \<Rightarrow> ('k, 'v) bh_mem option" where
  "unlink_inner node new_parent m = do {
     P \<leftarrow> bm_nodes m new_parent;
     let P = (if node \<in> set (bn_children P) then P\<lparr>bn_children := remove_at (first_pos node (bn_children P)) (bn_children P)\<rparr> else P);
     Some (m\<lparr>bm_nodes := (bm_nodes m)(new_parent \<mapsto> P)\<rparr>)
   }"

definition remove_tree :: "nat \<Rightarrow> nat \<Rightarrow> nat option list \<Rightarrow> nat \<times> nat option list" where
  "remove_tree node rindex trees =
     (if rindex \<noteq> 0 then (rindex + 1, remove_at rindex trees)
      else case foreach_spec (binheap_remove_root_node node) 0 (length trees) () trees of (idx, _, _, trees) \<Rightarrow> (idx, trees))"

definition unlink_root :: "nat \<Rightarrow> nat \<Rightarrow> ('k, 'v) bh_mem \<Rightarrow> (nat option \<times> ('k, 'v) bh_mem) option" where
  "unlink_root node rindex m = do {
     N \<leftarrow> bm_nodes m node;
     H \<leftarrow> bm_heaps m (bn_bh N);
     let (item_num, trees) = remove_tree node rindex (bh_trees H);
     let H = H\<lparr>bh_trees := trees\<rparr>;
     let m = m\<lparr>bm_heaps := (bm_heaps m)(bn_bh N \<mapsto> H)\<rparr>;
     if bn_children N = [] then Some (None, m)
     else do {
       child_index \<leftarrow> (if bh_mode H = BINHEAP_MODE_MAX then binomial_tree_node_find_max_child m node
                       else binomial_tree_node_find_min_child m node);
       case child_index of
         None \<Rightarrow> Some (None, m)
       | Some ci \<Rightarrow> do {
           let c = bn_children N ! ci;
           h \<leftarrow> upd_node node (\<lambda>n. n\<lparr>bn_children := remove_at ci (bn_children n)\<rparr>) (bm_nodes m);
           h \<leftarrow> upd_node c (\<lambda>n. n\<lparr>bn_parent := None\<rparr>) h;
           let H = (if item_num > 0 then H\<lparr>bh_trees := insert_at (item_num - 1) (Some c) (bh_trees H)\<rparr> else H);
           Some (Some c, m\<lparr>bm_nodes := h, bm_heaps := (bm_heaps m)(bn_bh N \<mapsto> H)\<rparr>)
         }
     }
   }"

fun move_children :: "nat option \<Rightarrow> nat list \<Rightarrow> ('k, 'v) bnodes \<Rightarrow> ('k, 'v) bnodes option" where
  "move_children new_parent [] h = Some h"
| "move_children new_parent (c # cs) h = do {
     h \<leftarrow> (case new_parent of Some p \<Rightarrow> binomial_tree_node_add p c h | None \<Rightarrow> upd_node c (\<lambda>n. n\<lparr>bn_parent := None\<rparr>) h);
     move_children new_parent cs h
   }"

text \<open>The last part: the head, the counter and the memory of the node.\<close>

definition release_node :: "nat \<Rightarrow> nat \<Rightarrow> ('k, 'v) bh_mem \<Rightarrow> ('k, 'v) bh_mem option" where
  "release_node node b m = do {
     H \<leftarrow> bm_heaps m b;
     m \<leftarrow> (if bh_head H = Some node then UPDATE_HEAD b m else Some m);
     H \<leftarrow> bm_heaps m b;
     count \<leftarrow> ck (bh_count H - 1);
     Some (m\<lparr>bm_heaps := (bm_heaps m)(b \<mapsto> H\<lparr>bh_count := count\<rparr>), bm_nodes := (bm_nodes m)(node := None)\<rparr>)
   }"

definition binomial_tree_node_destroy :: "nat \<Rightarrow> nat \<Rightarrow> ('k, 'v) bh_mem \<Rightarrow> ('k, 'v) bh_mem option" where
  "binomial_tree_node_destroy node rindex m = do {
     N \<leftarrow> bm_nodes m node;
     (new_parent, m) \<leftarrow> (case bn_parent N of
        Some p \<Rightarrow> do { m \<leftarrow> unlink_inner node p m; Some (Some p, m) }
      | None \<Rightarrow> unlink_root node rindex m);
     N \<leftarrow> bm_nodes m node;
     h \<leftarrow> move_children new_parent (bn_children N) (bm_nodes m);
     release_node node (bn_bh N) (m\<lparr>bm_nodes := h\<rparr>)
   }"

section \<open>Heaps\<close>

text \<open>
  \<open>fail\<close> says that the allocation of the descriptor fails. A caller that passes NULL for the callbacks
  gets \<open>keys_callbacks_default\<close>.
\<close>

definition binheap_create :: "bool \<Rightarrow> 'k binheap_callbacks_t \<Rightarrow> binheap_mode_t \<Rightarrow> ('k, 'v) bh_mem \<Rightarrow> nat option \<times> ('k, 'v) bh_mem" where
  "binheap_create fail cbs mode m =
     (if fail then (None, m)
      else (Some (bm_brk m), m\<lparr>bm_heaps := (bm_heaps m)(bm_brk m \<mapsto>
              \<lparr>bh_trees = [], bh_head = None, bh_cbs = cbs, bh_count = 0, bh_mode = mode\<rparr>), bm_brk := Suc (bm_brk m)\<rparr>))"

definition binheap_top :: "('k, 'v) bh_mem \<Rightarrow> nat \<Rightarrow> nat option option" where
  "binheap_top m b = do {
     H \<leftarrow> bm_heaps m b;
     (r, _) \<leftarrow> (if bh_mode H = BINHEAP_MODE_MIN then binheap_get_minimum m b else binheap_get_maximum m b);
     Some r
   }"

partial_function (option) destroy_nodes :: "nat \<Rightarrow> ('k, 'v) bh_mem \<Rightarrow> ('k, 'v) bh_mem option" where
  "destroy_nodes b m = do {
     node \<leftarrow> binheap_top m b;
     case node of None \<Rightarrow> Some m | Some a \<Rightarrow> do { m \<leftarrow> binomial_tree_node_destroy a 0 m; destroy_nodes b m }
   }"

definition binheap_destroy :: "nat \<Rightarrow> ('k, 'v) bh_mem \<Rightarrow> ('k, 'v) bh_mem option" where
  "binheap_destroy b m = do { m \<leftarrow> destroy_nodes b m; Some (m\<lparr>bm_heaps := (bm_heaps m)(b := None)\<rparr>) }"

definition binomial_tree_merge :: "nat \<Rightarrow> nat \<Rightarrow> ('k, 'v) bnodes \<Rightarrow> ('k, 'v) bnodes option" where
  "binomial_tree_merge node1 node2 h = do {
     h \<leftarrow> upd_node node1 (\<lambda>n. n\<lparr>bn_children := bn_children n @ [node2]\<rparr>) h;
     upd_node node2 (\<lambda>n. n\<lparr>bn_parent := Some node1\<rparr>) h
   }"

text \<open>The loop of \<open>binheap_insert\<close>: the root of the merged tree, the trees that are left, and the store.\<close>

fun insert_loop :: "'k binheap_t \<Rightarrow> nat \<Rightarrow> nat \<Rightarrow> nat option list \<Rightarrow> ('k, 'v) bnodes \<Rightarrow> (nat \<times> nat option list \<times> ('k, 'v) bnodes) option" where
  "insert_loop H node order [] h = Some (node, [], h)"
| "insert_loop H node order (None # ts) h = Some (node, ts, h)"
| "insert_loop H node order (Some t # ts) h = do {
     T \<leftarrow> h t;
     if length (bn_children T) = order then do {
       N \<leftarrow> h node;
       if HAS_PRECEDENCE H (bn_key N) (bn_key T)
       then do { h \<leftarrow> binomial_tree_merge node t h; insert_loop H node (Suc order) ts h }
       else do { h \<leftarrow> binomial_tree_merge t node h; insert_loop H t (Suc order) ts h }
     } else Some (node, Some t # ts, h)
   }"

definition binheap_insert :: "bool \<Rightarrow> nat \<Rightarrow> 'k \<Rightarrow> 'v \<Rightarrow> ('k, 'v) bh_mem \<Rightarrow> (int \<times> ('k, 'v) bh_mem) option" where
  "binheap_insert fail b key value m =
     (if fail then Some (- 1, m)
      else do {
        let node = bm_brk m;
        let h = (bm_nodes m)(node \<mapsto> \<lparr>bn_key = key, bn_value = value, bn_parent = None, bn_children = [], bn_bh = b\<rparr>);
        H \<leftarrow> bm_heaps m b;
        (node, ts, h) \<leftarrow> insert_loop H node 0 (bh_trees H) h;
        count \<leftarrow> ck (bh_count H + 1);
        let H = H\<lparr>bh_trees := Some node # ts, bh_count := count\<rparr>;
        let m = m\<lparr>bm_nodes := h, bm_brk := Suc (bm_brk m)\<rparr>;
        m \<leftarrow> (if bh_head H = None then Some (m\<lparr>bm_heaps := (bm_heaps m)(b \<mapsto> H\<lparr>bh_head := Some node\<rparr>)\<rparr>)
              else UPDATE_HEAD b (m\<lparr>bm_heaps := (bm_heaps m)(b \<mapsto> H)\<rparr>));
        Some (0, m)
      })"

text \<open>
  The search of \<open>binheap_delete\<close>: among the given nodes, the last one that has the lowest precedence of those that have
  precedence over the key.
\<close>

fun pick_loop :: "'k binheap_t \<Rightarrow> 'k \<Rightarrow> ('k, 'v) bnodes \<Rightarrow> nat option \<Rightarrow> nat option list \<Rightarrow> nat option option" where
  "pick_loop H key h tree [] = Some tree"
| "pick_loop H key h tree (c # cs) = do {
     a \<leftarrow> c;
     C \<leftarrow> h a;
     if HAS_PRECEDENCE H (bn_key C) key then (case tree of
         None \<Rightarrow> pick_loop H key h (Some a) cs
       | Some t \<Rightarrow> do {
           T \<leftarrow> h t;
           pick_loop H key h (if HAS_PRECEDENCE H (bn_key T) (bn_key C) then Some a else tree) cs
         })
     else pick_loop H key h tree cs
   }"

partial_function (option) search_loop :: "'k binheap_t \<Rightarrow> 'k \<Rightarrow> ('k, 'v) bnodes \<Rightarrow> nat option \<Rightarrow> nat option option" where
  "search_loop H key h to_delete = (case to_delete of
     None \<Rightarrow> Some None
   | Some a \<Rightarrow> do {
       A \<leftarrow> h a;
       if bh_cmp H (bn_key A) key = 0 then Some (Some a)
       else do { n \<leftarrow> pick_loop H key h None (map Some (bn_children A)); search_loop H key h n }
     })"

definition binheap_delete :: "nat \<Rightarrow> 'k \<Rightarrow> ('k, 'v) bh_mem \<Rightarrow> (int \<times> 'v option \<times> ('k, 'v) bh_mem) option" where
  "binheap_delete b key m = do {
     H \<leftarrow> bm_heaps m b;
     tree \<leftarrow> pick_loop H key (bm_nodes m) None (bh_trees H);
     to_delete \<leftarrow> search_loop H key (bm_nodes m) tree;
     case to_delete of
       None \<Rightarrow> Some (- 1, None, m)
     | Some a \<Rightarrow> do { A \<leftarrow> bm_nodes m a; m \<leftarrow> binomial_tree_node_destroy a 0 m; Some (0, Some (bn_value A), m) }
   }"

definition item_of :: "('k, 'v) bh_mem \<Rightarrow> nat option \<Rightarrow> (int \<times> ('k \<times> 'v) option) option" where
  "item_of m r = (case r of None \<Rightarrow> Some (- 1, None) | Some a \<Rightarrow> do { A \<leftarrow> bm_nodes m a; Some (0, Some (bn_key A, bn_value A)) })"

definition binheap_maximum :: "nat \<Rightarrow> ('k, 'v) bh_mem \<Rightarrow> (int \<times> ('k \<times> 'v) option) option" where
  "binheap_maximum b m = do { (r, _) \<leftarrow> binheap_get_maximum m b; item_of m r }"

definition binheap_minimum :: "nat \<Rightarrow> ('k, 'v) bh_mem \<Rightarrow> (int \<times> ('k \<times> 'v) option) option" where
  "binheap_minimum b m = do { (r, _) \<leftarrow> binheap_get_minimum m b; item_of m r }"

definition binheap_delete_minimum :: "nat \<Rightarrow> ('k, 'v) bh_mem \<Rightarrow> (int \<times> 'v option \<times> ('k, 'v) bh_mem) option" where
  "binheap_delete_minimum b m = do {
     (r, idx) \<leftarrow> binheap_get_minimum m b;
     case r of None \<Rightarrow> Some (- 1, None, m)
     | Some a \<Rightarrow> do { A \<leftarrow> bm_nodes m a; m \<leftarrow> binomial_tree_node_destroy a idx m; Some (0, Some (bn_value A), m) }
   }"

definition binheap_delete_maximum :: "nat \<Rightarrow> ('k, 'v) bh_mem \<Rightarrow> (int \<times> 'v option \<times> ('k, 'v) bh_mem) option" where
  "binheap_delete_maximum b m = do {
     (r, idx) \<leftarrow> binheap_get_maximum m b;
     case r of None \<Rightarrow> Some (- 1, None, m)
     | Some a \<Rightarrow> do { A \<leftarrow> bm_nodes m a; m \<leftarrow> binomial_tree_node_destroy a idx m; Some (0, Some (bn_value A), m) }
   }"

definition binheap_count :: "nat \<Rightarrow> ('k, 'v) bh_mem \<Rightarrow> nat option" where
  "binheap_count b m = map_option (\<lambda>H. nat (bh_count H mod 2 ^ 64)) (bm_heaps m b)"

section \<open>Changing the key at an end\<close>

definition binheap_increase_maximum :: "nat \<Rightarrow> int \<Rightarrow> ('k, 'v) bh_mem \<Rightarrow> ('k, 'v) bh_mem option" where
  "binheap_increase_maximum b incr m = do {
     (r, _) \<leftarrow> binheap_get_maximum m b;
     case r of None \<Rightarrow> Some m | Some a \<Rightarrow> binomial_tree_node_increase_key m a incr
   }"

definition binheap_decrease_maximum :: "nat \<Rightarrow> int \<Rightarrow> ('k, 'v) bh_mem \<Rightarrow> ('k, 'v) bh_mem option" where
  "binheap_decrease_maximum b decr m = do {
     (r, _) \<leftarrow> binheap_get_maximum m b;
     case r of None \<Rightarrow> Some m | Some a \<Rightarrow> do { d \<leftarrow> ck (- decr); binomial_tree_node_increase_key m a d }
   }"

definition binheap_increase_minimum :: "nat \<Rightarrow> int \<Rightarrow> ('k, 'v) bh_mem \<Rightarrow> ('k, 'v) bh_mem option" where
  "binheap_increase_minimum b incr m = do {
     (r, _) \<leftarrow> binheap_get_minimum m b;
     case r of None \<Rightarrow> Some m | Some a \<Rightarrow> binomial_tree_node_increase_key m a incr
   }"

definition binheap_decrease_minimum :: "nat \<Rightarrow> int \<Rightarrow> ('k, 'v) bh_mem \<Rightarrow> ('k, 'v) bh_mem option" where
  "binheap_decrease_minimum b decr m = do {
     (r, _) \<leftarrow> binheap_get_minimum m b;
     case r of None \<Rightarrow> Some m | Some a \<Rightarrow> do { d \<leftarrow> ck (- decr); binomial_tree_node_increase_key m a d }
   }"

section \<open>Merging two heaps\<close>

definition list_shift :: "nat option list \<Rightarrow> nat option \<times> nat option list" where
  "list_shift ts = (case ts of [] \<Rightarrow> (None, []) | t # ts \<Rightarrow> (t, ts))"

definition order_of :: "('k, 'v) bnodes \<Rightarrow> nat option \<Rightarrow> nat option option" where
  "order_of h a = (case a of None \<Rightarrow> Some None | Some a \<Rightarrow> do { A \<leftarrow> h a; Some (Some (length (bn_children A))) })"

text \<open>
  The part of a round that deals with the carry \<open>c\<close>. \<open>None\<close> as a value means that the carry goes to the list;
  otherwise the result has the new values of \<open>node1\<close>, \<open>node2\<close> and \<open>carry\<close>.
\<close>

definition merge_carry ::
  "'k binheap_t \<Rightarrow> nat option \<Rightarrow> nat option \<Rightarrow> nat \<Rightarrow> ('k, 'v) bnodes \<Rightarrow>
   (nat option \<times> nat option \<times> nat option \<times> ('k, 'v) bnodes) option option" where
  "merge_carry H node1 node2 c h = do {
     C \<leftarrow> h c;
     o1 \<leftarrow> order_of h node1;
     o2 \<leftarrow> order_of h node2;
     let oc = length (bn_children C);
     if o1 = Some oc then do {
       a \<leftarrow> node1;
       A \<leftarrow> h a;
       if HAS_PRECEDENCE H (bn_key A) (bn_key C)
       then do { h \<leftarrow> binomial_tree_merge a c h; Some (Some (node1, node2, None, h)) }
       else do { h \<leftarrow> binomial_tree_merge c a h; Some (Some (Some c, node2, None, h)) }
     } else if o2 = Some oc then do {
       a \<leftarrow> node2;
       A \<leftarrow> h a;
       if HAS_PRECEDENCE H (bn_key A) (bn_key C)
       then do { h \<leftarrow> binomial_tree_merge a c h; Some (Some (node1, node2, None, h)) }
       else do { h \<leftarrow> binomial_tree_merge c a h; Some (Some (node1, Some c, None, h)) }
     } else if node1 = None \<and> node2 = None then Some None
     else if (case o1 of Some n \<Rightarrow> n > oc | None \<Rightarrow> False) then Some (Some (Some c, node2, node1, h))
     else if (case o2 of Some n \<Rightarrow> n > oc | None \<Rightarrow> False) then Some (Some (node1, Some c, node2, h))
     else Some (Some (node1, node2, Some c, h))
   }"

text \<open>Two trees of the same order become one, together with a carry that is left over.\<close>

definition merge_equal :: "'k binheap_t \<Rightarrow> nat \<Rightarrow> nat \<Rightarrow> nat option \<Rightarrow> ('k, 'v) bnodes \<Rightarrow> (nat option \<times> ('k, 'v) bnodes) option" where
  "merge_equal H node1 node2 carry h = do {
     A \<leftarrow> h node1;
     B \<leftarrow> h node2;
     if HAS_PRECEDENCE H (bn_key A) (bn_key B) then do {
       h \<leftarrow> binomial_tree_merge node1 node2 h;
       case carry of
         None \<Rightarrow> Some (Some node1, h)
       | Some c \<Rightarrow> do {
           C \<leftarrow> h c;
           if bh_cmp H (bn_key A) (bn_key C) \<ge> 0 then do { h \<leftarrow> binomial_tree_merge node1 c h; Some (Some node1, h) }
           else do { h \<leftarrow> binomial_tree_merge c node1 h; Some (Some c, h) }
         }
     } else do {
       h \<leftarrow> binomial_tree_merge node2 node1 h;
       case carry of
         None \<Rightarrow> Some (Some node2, h)
       | Some c \<Rightarrow> do {
           C \<leftarrow> h c;
           if HAS_PRECEDENCE H (bn_key B) (bn_key C) then do { h \<leftarrow> binomial_tree_merge node2 c h; Some (Some node2, h) }
           else do { h \<leftarrow> binomial_tree_merge c node2 h; Some (Some c, h) }
         }
     }
   }"

text \<open>A round of the loop: the new values of \<open>node1\<close>, \<open>node2\<close>, \<open>carry\<close>, the two lists of trees, the new list and the store.\<close>

type_synonym ('k, 'v) merge_state =
  "nat option \<times> nat option \<times> nat option \<times> nat option list \<times> nat option list \<times> nat option list \<times> ('k, 'v) bnodes"

definition take_tree1 :: "('k, 'v) merge_state \<Rightarrow> ('k, 'v) merge_state" where
  "take_tree1 st = (case st of (node1, node2, carry, trees1, trees2, new_list, h) \<Rightarrow>
     (fst (list_shift trees1), node2, carry, snd (list_shift trees1), trees2, new_list @ [node1], h))"

definition take_tree2 :: "('k, 'v) merge_state \<Rightarrow> ('k, 'v) merge_state" where
  "take_tree2 st = (case st of (node1, node2, carry, trees1, trees2, new_list, h) \<Rightarrow>
     (node1, fst (list_shift trees2), carry, trees1, snd (list_shift trees2), new_list @ [node2], h))"

definition merge_round :: "'k binheap_t \<Rightarrow> ('k, 'v) merge_state \<Rightarrow> ('k, 'v) merge_state option" where
  "merge_round H st = (case st of (node1, node2, carry, trees1, trees2, new_list, h) \<Rightarrow> do {
     r \<leftarrow> (case carry of None \<Rightarrow> Some (Some (node1, node2, None, h)) | Some c \<Rightarrow> merge_carry H node1 node2 c h);
     case r of
       None \<Rightarrow> Some (node1, node2, None, trees1, trees2, new_list @ [carry], h)
     | Some (node1, node2, carry, h) \<Rightarrow> do {
         let st = (node1, node2, carry, trees1, trees2, new_list, h);
         if node1 \<noteq> None \<and> node2 = None then Some (take_tree1 st)
         else if node2 \<noteq> None \<and> node1 = None then Some (take_tree2 st)
         else do {
           a \<leftarrow> node1;
           b \<leftarrow> node2;
           A \<leftarrow> h a;
           B \<leftarrow> h b;
           if length (bn_children A) < length (bn_children B) then Some (take_tree1 st)
           else if length (bn_children A) > length (bn_children B) then Some (take_tree2 st)
           else do {
             (carry, h) \<leftarrow> merge_equal H a b carry h;
             Some (fst (list_shift trees1), fst (list_shift trees2), carry, snd (list_shift trees1), snd (list_shift trees2), new_list, h)
           }
         }
       }
   })"

partial_function (option) merge_loop :: "'k binheap_t \<Rightarrow> ('k, 'v) merge_state \<Rightarrow> (nat option list \<times> ('k, 'v) bnodes) option" where
  "merge_loop H st = (case st of (node1, node2, carry, trees1, trees2, new_list, h) \<Rightarrow>
     if node1 = None \<and> node2 = None \<and> carry = None then Some (new_list, h)
     else do { st \<leftarrow> merge_round H st; merge_loop H st })"

text \<open>\<open>fail\<close> says that the allocation of the new descriptor fails; the trees are lost then.\<close>

definition binheap_merge :: "bool \<Rightarrow> nat \<Rightarrow> nat \<Rightarrow> ('k, 'v) bh_mem \<Rightarrow> (nat option \<times> ('k, 'v) bh_mem) option" where
  "binheap_merge fail b1 b2 m = do {
     H1 \<leftarrow> bm_heaps m b1;
     H2 \<leftarrow> bm_heaps m b2;
     if bh_mode H1 \<noteq> bh_mode H2 then Some (None, m)
     else do {
       let (node1, trees1) = list_shift (bh_trees H1);
       let (node2, trees2) = list_shift (if b1 = b2 then trees1 else bh_trees H2);
       (new_list, h) \<leftarrow> merge_loop H1 (node1, node2, None, trees1, trees2, [], bm_nodes m);
       let m = m\<lparr>bm_nodes := h, bm_heaps := (bm_heaps m)(b1 \<mapsto> H1\<lparr>bh_trees := []\<rparr>, b2 \<mapsto> H2\<lparr>bh_trees := []\<rparr>)\<rparr>;
       if fail then Some (None, m)
       else do {
         count \<leftarrow> ck (bh_count H1 + bh_count H2);
         let b = bm_brk m;
         Some (Some b, m\<lparr>bm_heaps := (bm_heaps m)(b \<mapsto>
             \<lparr>bh_trees = new_list, bh_head = None, bh_cbs = bh_cbs H1, bh_count = count, bh_mode = bh_mode H1\<rparr>), bm_brk := Suc b\<rparr>)
       }
     }
   }"

section \<open>Walking\<close>

text \<open>
  \<open>binomial_tree_walk\<close>: with \<open>i = None\<close> the visit of a node, with \<open>i = Some j\<close> the loop over its children from \<open>j\<close> on, which reads
  the children anew in every round. The callback gives its return code and the new user data.
\<close>

partial_function (option) binomial_tree_walk ::
  "('k \<Rightarrow> 'v \<Rightarrow> 'u \<Rightarrow> int \<times> 'u) \<Rightarrow> nat \<Rightarrow> nat option \<Rightarrow> int \<Rightarrow> 'u \<Rightarrow> ('k, 'v) bh_mem \<Rightarrow> (bool \<times> int \<times> 'u \<times> ('k, 'v) bh_mem) option" where
  "binomial_tree_walk cb node i cnt user m = (case i of
     None \<Rightarrow> do {
       N \<leftarrow> bm_nodes m node;
       cnt \<leftarrow> ck (cnt + 1);
       let (rc, user) = cb (bn_key N) (bn_value N) user;
       (proceed, cnt, user, m) \<leftarrow>
         (if rc = - 1 \<or> rc = 1 then binomial_tree_walk cb node (Some 0) cnt user m else Some (False, cnt, user, m));
       m \<leftarrow> (if rc = - 2 \<or> rc = - 1 then binomial_tree_node_destroy node 0 m else Some m);
       Some (proceed, cnt, user, m)
     }
   | Some j \<Rightarrow> do {
       N \<leftarrow> bm_nodes m node;
       if j < length (bn_children N) then do {
         (proceed, cnt, user, m) \<leftarrow> binomial_tree_walk cb (bn_children N ! j) None cnt user m;
         if proceed then binomial_tree_walk cb node (Some (Suc j)) cnt user m else Some (False, cnt, user, m)
       } else Some (True, cnt, user, m)
     })"

partial_function (option) walk_trees ::
  "('k \<Rightarrow> 'v \<Rightarrow> 'u \<Rightarrow> int \<times> 'u) \<Rightarrow> nat \<Rightarrow> nat \<Rightarrow> int \<Rightarrow> 'u \<Rightarrow> ('k, 'v) bh_mem \<Rightarrow> (int \<times> 'u \<times> ('k, 'v) bh_mem) option" where
  "walk_trees cb b i cnt user m = do {
     H \<leftarrow> bm_heaps m b;
     if i < length (bh_trees H) then do {
       curtree \<leftarrow> bh_trees H ! i;
       (proceed, cnt, user, m) \<leftarrow> binomial_tree_walk cb curtree None cnt user m;
       if proceed then walk_trees cb b (Suc i) cnt user m else Some (cnt, user, m)
     } else Some (cnt, user, m)
   }"

definition binheap_walk :: "nat \<Rightarrow> ('k \<Rightarrow> 'v \<Rightarrow> 'u \<Rightarrow> int \<times> 'u) \<Rightarrow> 'u \<Rightarrow> ('k, 'v) bh_mem \<Rightarrow> (int \<times> 'u \<times> ('k, 'v) bh_mem) option" where
  "binheap_walk b cb user m = walk_trees cb b 0 0 user m"

declare sift_up.simps [code] descend.simps [code] destroy_nodes.simps [code] search_loop.simps [code] merge_loop.simps [code]
  binomial_tree_walk.simps [code] walk_trees.simps [code]

end
