(* ===== verification/Binheap_Spec.thy ===== *)
theory Binheap_Spec
  imports Binheap Comparators
begin

text \<open>
  What the heaps of \<open>binheap.c\<close> promise. \<open>btree_at\<close> relates a tree of the store to a tree as a value, with the
  parent pointers; \<open>bh_at\<close> is the invariant of a heap: its trees have the heap order, do not share nodes, and the
  head is a root that has precedence over all the others. The trees need not be binomial.
\<close>

section \<open>Trees\<close>

datatype ('k, 'v) btree = BT (bt_root: nat) (bt_key: 'k) (bt_val: 'v) (bt_kids: "('k, 'v) btree list")

fun btree_at :: "('k, 'v) bnodes \<Rightarrow> nat \<Rightarrow> nat option \<Rightarrow> ('k, 'v) btree \<Rightarrow> bool" where
  "btree_at h b p (BT a k v ts) \<longleftrightarrow>
     h a = Some \<lparr>bn_key = k, bn_value = v, bn_parent = p, bn_children = map bt_root ts, bn_bh = b\<rparr> \<and>
     (\<forall>t \<in> set ts. btree_at h b (Some a) t)"

fun bt_addrs :: "('k, 'v) btree \<Rightarrow> nat list" where
  "bt_addrs (BT a k v ts) = a # concat (map bt_addrs ts)"

fun bt_items :: "('k, 'v) btree \<Rightarrow> ('k \<times> 'v) multiset" where
  "bt_items (BT a k v ts) = add_mset (k, v) (sum_list (map bt_items ts))"

fun bt_ordered :: "('k \<Rightarrow> 'k \<Rightarrow> bool) \<Rightarrow> ('k, 'v) btree \<Rightarrow> bool" where
  "bt_ordered prec (BT a k v ts) \<longleftrightarrow> (\<forall>t \<in> set ts. prec k (bt_key t) \<and> bt_ordered prec t)"

definition node_of :: "nat option \<Rightarrow> nat \<Rightarrow> ('k, 'v) btree \<Rightarrow> ('k, 'v) binomial_tree_node_t" where
  "node_of p b t = \<lparr>bn_key = bt_key t, bn_value = bt_val t, bn_parent = p, bn_children = map bt_root (bt_kids t), bn_bh = b\<rparr>"

definition forest_at :: "('k, 'v) bnodes \<Rightarrow> nat \<Rightarrow> nat option \<Rightarrow> ('k, 'v) btree list \<Rightarrow> bool" where
  "forest_at h b p ts \<longleftrightarrow> (\<forall>t \<in> set ts. btree_at h b p t)"

definition fr_addrs :: "('k, 'v) btree list \<Rightarrow> nat list" where
  "fr_addrs ts = concat (map bt_addrs ts)"

definition fr_items :: "('k, 'v) btree list \<Rightarrow> ('k \<times> 'v) multiset" where
  "fr_items ts = sum_list (map bt_items ts)"

lemma fr_simps [simp]:
  "fr_addrs [] = []" "fr_addrs (t # ts) = bt_addrs t @ fr_addrs ts" "fr_addrs (ts @ us) = fr_addrs ts @ fr_addrs us"
  "fr_items [] = {#}" "fr_items (t # ts) = bt_items t + fr_items ts" "fr_items (ts @ us) = fr_items ts + fr_items us"
  "forest_at h b p []" "forest_at h b p (t # ts) \<longleftrightarrow> btree_at h b p t \<and> forest_at h b p ts"
  "forest_at h b p (ts @ us) \<longleftrightarrow> forest_at h b p ts \<and> forest_at h b p us"
  by (auto simp: fr_addrs_def fr_items_def forest_at_def)

lemma bt_unfold:
  "btree_at h b p t \<longleftrightarrow> h (bt_root t) = Some (node_of p b t) \<and> forest_at h b (Some (bt_root t)) (bt_kids t)"
  "bt_addrs t = bt_root t # fr_addrs (bt_kids t)"
  "bt_items t = add_mset (bt_key t, bt_val t) (fr_items (bt_kids t))"
  by (cases t; simp add: node_of_def forest_at_def fr_addrs_def fr_items_def)+

lemma forest_at_tree: "forest_at h b p ts \<Longrightarrow> t \<in> set ts \<Longrightarrow> btree_at h b p t"
  by (simp add: forest_at_def)

lemma forest_at_root: "forest_at h b p ts \<Longrightarrow> t \<in> set ts \<Longrightarrow> h (bt_root t) = Some (node_of p b t)"
  using forest_at_tree bt_unfold(1) by blast

lemma node_of_sel [simp]:
  "bn_key (node_of p b t) = bt_key t" "bn_value (node_of p b t) = bt_val t" "bn_parent (node_of p b t) = p"
  "bn_children (node_of p b t) = map bt_root (bt_kids t)" "bn_bh (node_of p b t) = b"
  by (simp_all add: node_of_def)

lemma fr_addrs_set: "set (fr_addrs ts) = (\<Union>t \<in> set ts. set (bt_addrs t))"
  by (simp add: fr_addrs_def)

lemma bt_root_in [simp]: "bt_root t \<in> set (bt_addrs t)"
  by (cases t) simp

lemma fr_root_in: "t \<in> set ts \<Longrightarrow> bt_root t \<in> set (fr_addrs ts)"
  using bt_root_in [of t] by (auto simp: fr_addrs_set simp del: bt_root_in)

lemma btree_at_cong:
  "(\<And>a. a \<in> set (bt_addrs t) \<Longrightarrow> h' a = h a) \<Longrightarrow> btree_at h' b p t = btree_at h b p t"
proof (induction t arbitrary: p)
  case (BT a k v ts)
  have "btree_at h' b (Some a) t = btree_at h b (Some a) t" if "t \<in> set ts" for t
    using that BT.prems by (intro BT.IH) auto
  then show ?case using BT.prems [of a] by simp
qed

lemma forest_at_cong:
  "(\<And>a. a \<in> set (fr_addrs ts) \<Longrightarrow> h' a = h a) \<Longrightarrow> forest_at h' b p ts = forest_at h b p ts"
  unfolding forest_at_def by (intro ball_cong refl btree_at_cong) (auto simp: fr_addrs_set)

lemma forest_at_upd: "a \<notin> set (fr_addrs ts) \<Longrightarrow> forest_at (h(a := x)) b p ts = forest_at h b p ts"
  by (rule forest_at_cong) auto

lemma btree_at_upd: "a \<notin> set (bt_addrs t) \<Longrightarrow> btree_at (h(a := x)) b p t = btree_at h b p t"
  by (rule btree_at_cong) auto

text \<open>A tree gets another parent.\<close>

lemma btree_reparent:
  assumes "btree_at h b p t" and "distinct (bt_addrs t)"
  shows "upd_node (bt_root t) (\<lambda>n. n\<lparr>bn_parent := q\<rparr>) h = Some (h(bt_root t \<mapsto> node_of q b t))"
    and "btree_at (h(bt_root t \<mapsto> node_of q b t)) b q t"
  using assms by (auto simp: bt_unfold(1,2) upd_node_def node_of_def forest_at_upd)

text \<open>A tree gets another child.\<close>

definition graft :: "('k, 'v) btree \<Rightarrow> ('k, 'v) btree list \<Rightarrow> ('k, 'v) btree" where
  "graft t us = BT (bt_root t) (bt_key t) (bt_val t) (bt_kids t @ us)"

lemma graft_simps [simp]:
  "bt_root (graft t us) = bt_root t" "bt_key (graft t us) = bt_key t" "bt_val (graft t us) = bt_val t"
  "bt_kids (graft t us) = bt_kids t @ us" "graft t [] = t"
  "bt_addrs (graft t us) = bt_addrs t @ fr_addrs us"
  "bt_items (graft t us) = bt_items t + fr_items us"
  by (simp_all add: graft_def bt_unfold(2,3) [of t] fr_addrs_def fr_items_def)

lemma graft_graft: "graft (graft t us) ws = graft t (us @ ws)"
  by (simp add: graft_def)

lemma merge_trees:
  assumes "btree_at h b p t" and "btree_at h b q u" and "distinct (bt_addrs t @ bt_addrs u)"
  shows "\<exists>h'. binomial_tree_merge (bt_root t) (bt_root u) h = Some h' \<and> btree_at h' b p (graft t [u]) \<and>
    (\<forall>a. a \<noteq> bt_root t \<longrightarrow> a \<noteq> bt_root u \<longrightarrow> h' a = h a)"
proof -
  let ?r = "bt_root t" and ?s = "bt_root u"
  have ne: "?r \<noteq> ?s" "?r \<notin> set (bt_addrs u)" "?s \<notin> set (bt_addrs t)" "?r \<notin> set (fr_addrs (bt_kids t))" "?s \<notin> set (fr_addrs (bt_kids u))"
    using assms(3) bt_root_in [of t] bt_root_in [of u] by (auto simp: bt_unfold(2) simp del: bt_root_in)
  define h1 where "h1 = h(?r \<mapsto> node_of p b (graft t [u]))"
  have 1: "upd_node ?r (\<lambda>n. n\<lparr>bn_children := bn_children n @ [?s]\<rparr>) h = Some h1"
    using assms(1) by (simp add: bt_unfold(1) upd_node_def h1_def node_of_def)
  have u: "btree_at h1 b q u" using assms(2) ne(2) by (simp add: h1_def btree_at_upd)
  have d: "distinct (bt_addrs u)" using assms(3) by simp
  let ?h = "h1(?s \<mapsto> node_of (Some ?r) b u)"
  have "binomial_tree_merge ?r ?s h = Some ?h" using 1 btree_reparent(1) [OF u d] by (simp add: binomial_tree_merge_def)
  moreover have "btree_at ?h b p (graft t [u])"
  proof -
    have "btree_at ?h b (Some ?r) u" by (rule btree_reparent(2) [OF u d])
    moreover have "forest_at ?h b (Some ?r) (bt_kids t)"
      using assms(1) ne unfolding bt_unfold(1) h1_def by (simp add: forest_at_upd bt_unfold(2) [of t])
    moreover have "?h ?r = Some (node_of p b (graft t [u]))" using ne by (simp add: h1_def)
    ultimately show ?thesis unfolding bt_unfold(1) [of _ _ _ "graft t [u]"] by simp
  qed
  ultimately show ?thesis by (auto simp: h1_def)
qed

section \<open>Order\<close>

text \<open>What the heap needs of its comparator: precedence is total and transitive on the keys in use.\<close>

locale heap_order =
  fixes prec :: "'k \<Rightarrow> 'k \<Rightarrow> bool" and K :: "'k set"
  assumes prec_total: "x \<in> K \<Longrightarrow> y \<in> K \<Longrightarrow> prec x y \<or> prec y x"
    and prec_trans: "x \<in> K \<Longrightarrow> y \<in> K \<Longrightarrow> z \<in> K \<Longrightarrow> prec x y \<Longrightarrow> prec y z \<Longrightarrow> prec x z"
begin

lemma prec_refl: "x \<in> K \<Longrightarrow> prec x x"
  using prec_total by blast

end

definition keys_in :: "'k set \<Rightarrow> ('k \<times> 'v) multiset \<Rightarrow> bool" where
  "keys_in K M \<longleftrightarrow> (\<forall>x \<in># M. fst x \<in> K)"

lemma keys_in_simps [simp]:
  "keys_in K {#}" "keys_in K (add_mset x M) \<longleftrightarrow> fst x \<in> K \<and> keys_in K M" "keys_in K (M + N) \<longleftrightarrow> keys_in K M \<and> keys_in K N"
  by (auto simp: keys_in_def)

lemma bt_ordered_unfold: "bt_ordered prec t \<longleftrightarrow> (\<forall>u \<in> set (bt_kids t). prec (bt_key t) (bt_key u) \<and> bt_ordered prec u)"
  by (cases t) simp

lemma bt_ordered_graft:
  "bt_ordered prec (graft t us) \<longleftrightarrow> bt_ordered prec t \<and> (\<forall>u \<in> set us. prec (bt_key t) (bt_key u) \<and> bt_ordered prec u)"
  by (auto simp: bt_ordered_unfold [of _ "graft t us"] bt_ordered_unfold [of _ t])

lemma bt_item_in: "(bt_key t, bt_val t) \<in># bt_items t"
  by (simp add: bt_unfold(3))

lemma fr_item_iff: "x \<in># fr_items ts \<longleftrightarrow> (\<exists>t \<in> set ts. x \<in># bt_items t)"
  by (induction ts) auto

lemma keys_in_tree: "keys_in K (fr_items ts) \<Longrightarrow> t \<in> set ts \<Longrightarrow> keys_in K (bt_items t)"
  by (auto simp: keys_in_def fr_item_iff)

lemma keys_in_key: "keys_in K (bt_items t) \<Longrightarrow> bt_key t \<in> K"
  by (simp add: bt_unfold(3))

context heap_order
begin

lemma root_first: "bt_ordered prec t \<Longrightarrow> keys_in K (bt_items t) \<Longrightarrow> x \<in># bt_items t \<Longrightarrow> prec (bt_key t) (fst x)"
proof (induction t)
  case (BT a k v ts)
  show ?case
  proof (cases "x = (k, v)")
    case True
    then show ?thesis using BT.prems(2) prec_refl by simp
  next
    case False
    then have "x \<in># fr_items ts" using BT.prems(3) by (simp add: fr_items_def)
    then obtain u where u: "u \<in> set ts" "x \<in># bt_items u" by (auto simp: fr_item_iff)
    have K: "keys_in K (fr_items ts)" "k \<in> K" using BT.prems(2) by (simp_all add: fr_items_def)
    then have "keys_in K (bt_items u)" using u(1) keys_in_tree by blast
    moreover from this have "fst x \<in> K" "bt_key u \<in> K" using u(2) keys_in_key by (auto simp: keys_in_def)
    ultimately show ?thesis using BT.IH [OF u(1) _ _ u(2)] BT.prems(1) u(1) K(2) prec_trans [of k "bt_key u" "fst x"] by auto
  qed
qed

end

definition fr_ok :: "('k \<Rightarrow> 'k \<Rightarrow> bool) \<Rightarrow> 'k set \<Rightarrow> ('k, 'v) btree list \<Rightarrow> bool" where
  "fr_ok prec K ts \<longleftrightarrow> distinct (fr_addrs ts) \<and> (\<forall>t \<in> set ts. bt_ordered prec t) \<and> keys_in K (fr_items ts)"

abbreviation roots :: "('k, 'v) btree list \<Rightarrow> nat option list" where
  "roots ts \<equiv> map (\<lambda>t. Some (bt_root t)) ts"

section \<open>Insertion\<close>

lemma insert_loop_ok:
  assumes "heap_order (HAS_PRECEDENCE H) K" and "forest_at h b None (n # ts)" and "fr_ok (HAS_PRECEDENCE H) K (n # ts)"
  shows "\<exists>n' ts' h'. insert_loop H (bt_root n) ord (roots ts) h = Some (bt_root n', roots ts', h') \<and> forest_at h' b None (n' # ts') \<and>
    fr_ok (HAS_PRECEDENCE H) K (n' # ts') \<and> set (fr_addrs (n' # ts')) = set (fr_addrs (n # ts)) \<and>
    fr_items (n' # ts') = fr_items (n # ts) \<and> (\<forall>a. a \<notin> set (fr_addrs (n # ts)) \<longrightarrow> h' a = h a)"
  using assms(2,3)
proof (induction ts arbitrary: n ord h)
  case Nil
  then show ?case by (intro exI [of _ n] exI [of _ "[]"] exI [of _ h]) simp
next
  case (Cons t ts)
  let ?P = "HAS_PRECEDENCE H"
  have T: "h (bt_root t) = Some (node_of None b t)" "h (bt_root n) = Some (node_of None b n)" using Cons.prems(1) by (simp_all add: bt_unfold(1))
  have d: "distinct (bt_addrs n @ bt_addrs t)" "distinct (bt_addrs t @ bt_addrs n)" using Cons.prems(2) by (auto simp: fr_ok_def)
  have K: "bt_key n \<in> K" "bt_key t \<in> K" using Cons.prems(2) keys_in_key by (auto simp: fr_ok_def)
  have step: "\<exists>n' ts' h'. insert_loop H (bt_root x) (Suc ord) (roots ts) h1 = Some (bt_root n', roots ts', h') \<and> forest_at h' b None (n' # ts') \<and>
      fr_ok ?P K (n' # ts') \<and> set (fr_addrs (n' # ts')) = set (fr_addrs (n # t # ts)) \<and>
      fr_items (n' # ts') = fr_items (n # t # ts) \<and> (\<forall>a. a \<notin> set (fr_addrs (n # t # ts)) \<longrightarrow> h' a = h a)"
    if x: "(x, y) = (n, t) \<or> (x, y) = (t, n)" "?P (bt_key x) (bt_key y)" and h1: "btree_at h1 b None (graft x [y])"
      "\<forall>a. a \<noteq> bt_root x \<longrightarrow> a \<noteq> bt_root y \<longrightarrow> h1 a = h a" for x y h1
  proof -
    have "forest_at h1 b None ts = forest_at h b None ts"
    proof (rule forest_at_cong)
      fix a assume "a \<in> set (fr_addrs ts)"
      moreover have "bt_root n \<notin> set (fr_addrs ts)" "bt_root t \<notin> set (fr_addrs ts)"
        using Cons.prems(2) bt_root_in [of n] bt_root_in [of t] by (auto simp: fr_ok_def simp del: bt_root_in)
      ultimately have "a \<noteq> bt_root x" "a \<noteq> bt_root y" using x(1) by auto
      then show "h1 a = h a" using h1(2) by simp
    qed
    then have "forest_at h1 b None (graft x [y] # ts)" using h1(1) Cons.prems(1) by simp
    moreover have "fr_ok ?P K (graft x [y] # ts)" using Cons.prems(2) x by (auto simp: fr_ok_def bt_ordered_graft)
    ultimately obtain n' ts' h' where r: "insert_loop H (bt_root x) (Suc ord) (roots ts) h1 = Some (bt_root n', roots ts', h')" "forest_at h' b None (n' # ts')"
      "fr_ok ?P K (n' # ts')" "set (fr_addrs (n' # ts')) = set (fr_addrs (graft x [y] # ts))" "fr_items (n' # ts') = fr_items (graft x [y] # ts)"
      "\<forall>a. a \<notin> set (fr_addrs (graft x [y] # ts)) \<longrightarrow> h' a = h1 a" using Cons.IH [of h1 "graft x [y]" "Suc ord"] by auto
    have "\<forall>a. a \<notin> set (fr_addrs (n # t # ts)) \<longrightarrow> h' a = h a"
    proof (intro allI impI)
      fix a assume a: "a \<notin> set (fr_addrs (n # t # ts))"
      then have "h' a = h1 a" using r(6) x(1) by auto
      moreover have "a \<noteq> bt_root x" "a \<noteq> bt_root y" using a x(1) by auto
      ultimately show "h' a = h a" using h1(2) by simp
    qed
    moreover have "set (fr_addrs (graft x [y] # ts)) = set (fr_addrs (n # t # ts))" "fr_items (graft x [y] # ts) = fr_items (n # t # ts)"
      using x(1) by auto
    ultimately show ?thesis using r(1-5) by (intro exI [of _ n'] exI [of _ ts'] exI [of _ h']) (simp only: simp_thms)
  qed
  show ?case
  proof (cases "length (bt_kids t) = ord")
    case False
    then show ?thesis using T Cons.prems by (intro exI [of _ n] exI [of _ "t # ts"] exI [of _ h]) simp
  next
    case True
    show ?thesis
    proof (cases "?P (bt_key n) (bt_key t)")
      case P: True
      obtain h1 where h1: "binomial_tree_merge (bt_root n) (bt_root t) h = Some h1" "btree_at h1 b None (graft n [t])"
        "\<forall>a. a \<noteq> bt_root n \<longrightarrow> a \<noteq> bt_root t \<longrightarrow> h1 a = h a" using merge_trees [of h b None n None t] Cons.prems(1) d(1) by auto
      then show ?thesis using step [of n t h1] P T True by simp
    next
      case P: False
      then have Q: "?P (bt_key t) (bt_key n)" using heap_order.prec_total [OF assms(1) K] by blast
      obtain h1 where h1: "binomial_tree_merge (bt_root t) (bt_root n) h = Some h1" "btree_at h1 b None (graft t [n])"
        "\<forall>a. a \<noteq> bt_root t \<longrightarrow> a \<noteq> bt_root n \<longrightarrow> h1 a = h a" using merge_trees [of h b None t None n] Cons.prems(1) d(2) by auto
      then show ?thesis using step [of t n h1] P Q T True by simp
    qed
  qed
qed

section \<open>Selection\<close>

lemma heap_order_prec:
  assumes "key_order (bh_cmp H) K"
  shows "heap_order (HAS_PRECEDENCE H) K"
proof
  fix x y z assume K: "x \<in> K" "y \<in> K"
  show "HAS_PRECEDENCE H x y \<or> HAS_PRECEDENCE H y x"
    using key_order.cmp_flip [OF assms K] by (cases "bh_mode H") (auto simp: HAS_PRECEDENCE_def)
  assume z: "z \<in> K" and *: "HAS_PRECEDENCE H x y" "HAS_PRECEDENCE H y z"
  show "HAS_PRECEDENCE H x z"
    using * key_order.cmp_trans [OF assms K z] key_order.cmp_trans [OF assms z K(2,1)] key_order.cmp_flip [OF assms K]
      key_order.cmp_flip [OF assms K(2) z] key_order.cmp_flip [OF assms K(1) z]
    by (cases "bh_mode H") (auto simp: HAS_PRECEDENCE_def)
qed

text \<open>The better of two roots, by the flag of \<open>binheap_maxmin\<close>.\<close>

definition maxmin_best :: "('k \<Rightarrow> 'k \<Rightarrow> int) \<Rightarrow> int \<Rightarrow> 'k \<Rightarrow> 'k \<Rightarrow> bool" where
  "maxmin_best cmp maxmin x y \<longleftrightarrow> (if maxmin = 0 then 0 \<le> cmp x y else cmp x y \<le> 0)"

lemma maxmin_best_trans:
  assumes "key_order cmp K" and "x \<in> K" "y \<in> K" "z \<in> K" and "maxmin_best cmp mm x y" and "maxmin_best cmp mm y z"
  shows "maxmin_best cmp mm x z"
  using assms(5,6) key_order.cmp_trans [OF assms(1-4)] key_order.cmp_trans [OF assms(1,4,3,2)] key_order.cmp_flip [OF assms(1-3)]
    key_order.cmp_flip [OF assms(1,3,4)] key_order.cmp_flip [OF assms(1,2,4)]
  by (auto simp: maxmin_best_def split: if_splits)

lemma maxmin_loop_ok:
  assumes "key_order cmp K" and "forest_at h b None (n # ts)" and "keys_in K (fr_items (n # ts))"
  shows "\<exists>r j. maxmin_loop cmp h mm (Some (bt_root n)) idx i (roots ts) = Some (Some (bt_root r), j) \<and>
    (r = n \<and> j = idx \<or> (\<exists>k < length ts. r = ts ! k \<and> j = i + k)) \<and> (\<forall>u \<in> set (n # ts). maxmin_best cmp mm (bt_key r) (bt_key u))"
  using assms(2,3)
proof (induction ts arbitrary: n idx i)
  case Nil
  then show ?case using key_order.cmp_refl [OF assms(1), of "bt_key n"] keys_in_key [of K n] by (simp add: maxmin_best_def)
next
  case (Cons t ts)
  have T: "h (bt_root t) = Some (node_of None b t)" "h (bt_root n) = Some (node_of None b n)" using Cons.prems(1) by (simp_all add: bt_unfold(1))
  have K: "bt_key n \<in> K" "bt_key t \<in> K" using Cons.prems(2) keys_in_key by auto
  define x where "x = (if (mm = 0) = (0 \<le> cmp (bt_key t) (bt_key n)) then t else n)"
  define jx where "jx = (if (mm = 0) = (0 \<le> cmp (bt_key t) (bt_key n)) then i else idx)"
  have run: "maxmin_loop cmp h mm (Some (bt_root n)) idx i (roots (t # ts)) = maxmin_loop cmp h mm (Some (bt_root x)) jx (Suc i) (roots ts)"
    using T by (auto simp: x_def jx_def Let_def)
  have x: "maxmin_best cmp mm (bt_key x) (bt_key n)" "maxmin_best cmp mm (bt_key x) (bt_key t)" "bt_key x \<in> K"
    using key_order.cmp_flip [OF assms(1) K] key_order.cmp_flip [OF assms(1) K(2,1)] key_order.cmp_refl [OF assms(1) K(1)] key_order.cmp_refl [OF assms(1) K(2)] K
    by (auto simp: x_def maxmin_best_def)
  have prems: "forest_at h b None (x # ts)" "keys_in K (fr_items (x # ts))" using Cons.prems by (auto simp: x_def)
  from Cons.IH [OF prems, of jx "Suc i"] obtain r j where r: "maxmin_loop cmp h mm (Some (bt_root x)) jx (Suc i) (roots ts) = Some (Some (bt_root r), j)"
    "r = x \<and> j = jx \<or> (\<exists>k < length ts. r = ts ! k \<and> j = Suc i + k)" "\<forall>u \<in> set (x # ts). maxmin_best cmp mm (bt_key r) (bt_key u)" by blast
  have "bt_key r \<in> K" using r(2) x(3) Cons.prems(2) keys_in_tree [of K ts] keys_in_key nth_mem by fastforce
  then have "maxmin_best cmp mm (bt_key r) (bt_key n)" "maxmin_best cmp mm (bt_key r) (bt_key t)"
    using r(3) x maxmin_best_trans [OF assms(1) _ x(3)] K by auto
  moreover have "r = n \<and> j = idx \<or> (\<exists>k < length (t # ts). r = (t # ts) ! k \<and> j = i + k)"
    using r(2)
  proof
    assume "r = x \<and> j = jx"
    then show ?thesis by (auto simp: x_def jx_def split: if_splits)
  next
    assume "\<exists>k < length ts. r = ts ! k \<and> j = Suc i + k"
    then obtain k where "k < length ts" "r = ts ! k" "j = Suc i + k" by blast
    then show ?thesis by (intro disjI2 exI [of _ "Suc k"]) simp
  qed
  ultimately show ?case using run r(1,3) by auto
qed

lemma binheap_maxmin_ok:
  assumes "bm_heaps m b = Some H" and "bh_trees H = roots ts" and "key_order (bh_cmp H) K" and "forest_at (bm_nodes m) b None ts"
    and "keys_in K (fr_items ts)" and "ts \<noteq> []"
  shows "\<exists>k < length ts. binheap_maxmin m b mm = Some (Some (bt_root (ts ! k)), k) \<and>
    (\<forall>u \<in> set ts. maxmin_best (bh_cmp H) mm (bt_key (ts ! k)) (bt_key u))"
proof -
  obtain n us where ts: "ts = n # us" using assms(6) by (cases ts) auto
  from maxmin_loop_ok [OF assms(3) assms(4,5) [unfolded ts], of mm 0 "Suc 0"] obtain r j where
    r: "maxmin_loop (bh_cmp H) (bm_nodes m) mm (Some (bt_root n)) 0 (Suc 0) (roots us) = Some (Some (bt_root r), j)"
      "r = n \<and> j = 0 \<or> (\<exists>k < length us. r = us ! k \<and> j = Suc 0 + k)"
      "\<forall>u \<in> set (n # us). maxmin_best (bh_cmp H) mm (bt_key r) (bt_key u)" by blast
  have "j < length ts \<and> r = ts ! j" using r(2) by (auto simp: ts)
  then show ?thesis using r(1,3) assms(1,2) by (auto simp: ts binheap_maxmin_def)
qed

lemma child_loop_ok:
  assumes "heap_order better K" and "forest_at h b p ts" and "keys_in K (fr_items ts)" and "i \<le> length ts" and "best < length ts"
    and "\<forall>u \<in> set (take i ts). better (bt_key (ts ! best)) (bt_key u)"
  shows "\<exists>k < length ts. child_loop better h (map bt_root ts) best i (map bt_root (drop i ts)) = Some k \<and>
    (\<forall>u \<in> set ts. better (bt_key (ts ! k)) (bt_key u))"
  using assms(4-6)
proof (induction "length ts - i" arbitrary: i best)
  case 0
  then show ?case by (intro exI [of _ best]) simp
next
  case (Suc d)
  have i: "i < length ts" and d: "d = length ts - Suc i" using Suc.hyps(2) by simp_all
  have T: "h (bt_root (ts ! i)) = Some (node_of p b (ts ! i))" "h (bt_root (ts ! best)) = Some (node_of p b (ts ! best))"
    using forest_at_root [OF assms(2)] i Suc.prems(2) by simp_all
  have K: "bt_key (ts ! j) \<in> K" if "j < length ts" for j using that assms(3) keys_in_tree keys_in_key nth_mem by blast
  define x where "x = (if better (bt_key (ts ! i)) (bt_key (ts ! best)) then i else best)"
  have x: "x < length ts" using i Suc.prems(2) by (simp add: x_def)
  have "\<forall>u \<in> set (take (Suc i) ts). better (bt_key (ts ! x)) (bt_key u)"
  proof
    fix u assume "u \<in> set (take (Suc i) ts)"
    then consider "u = ts ! i" | "u \<in> set (take i ts)" using i by (auto simp: take_Suc_conv_app_nth)
    then show "better (bt_key (ts ! x)) (bt_key u)"
    proof cases
      case 1
      then show ?thesis using heap_order.prec_total [OF assms(1) K [OF i] K [OF Suc.prems(2)]] heap_order.prec_refl [OF assms(1) K [OF i]]
        by (auto simp: x_def)
    next
      case 2
      then have "better (bt_key (ts ! best)) (bt_key u)" using Suc.prems(3) by blast
      moreover have "u \<in> set ts" using 2 by (rule in_set_takeD)
      then have "bt_key u \<in> K" using assms(3) keys_in_tree keys_in_key by blast
      ultimately have "better (bt_key (ts ! best)) (bt_key u)" "bt_key u \<in> K" by blast+
      then show ?thesis using heap_order.prec_trans [OF assms(1) K [OF i] K [OF Suc.prems(2)]] by (simp add: x_def)
    qed
  qed
  then obtain k where "k < length ts" "child_loop better h (map bt_root ts) x (Suc i) (map bt_root (drop (Suc i) ts)) = Some k"
    "\<forall>u \<in> set ts. better (bt_key (ts ! k)) (bt_key u)" using Suc.hyps(1) [of "Suc i" x] d i x by auto
  moreover have "drop i ts = ts ! i # drop (Suc i) ts" using i by (simp add: Cons_nth_drop_Suc)
  ultimately show ?case using T Suc.prems(2) by (intro exI [of _ k]) (simp add: x_def)
qed

section \<open>The invariant of a heap\<close>

definition head_ok :: "'k binheap_t \<Rightarrow> nat option \<Rightarrow> ('k, 'v) btree list \<Rightarrow> bool" where
  "head_ok H r ts \<longleftrightarrow> (case r of None \<Rightarrow> ts = []
     | Some a \<Rightarrow> \<exists>t \<in> set ts. a = bt_root t \<and> (\<forall>u \<in> set ts. HAS_PRECEDENCE H (bt_key t) (bt_key u)))"

definition bh_forest :: "'k binheap_t \<Rightarrow> 'k set \<Rightarrow> ('k, 'v) bh_mem \<Rightarrow> nat \<Rightarrow> ('k, 'v) btree list \<Rightarrow> bool" where
  "bh_forest H K m b ts \<longleftrightarrow> bm_heaps m b = Some H \<and> bh_trees H = roots ts \<and> forest_at (bm_nodes m) b None ts \<and>
     fr_ok (HAS_PRECEDENCE H) K ts \<and> (\<forall>a \<in> set (fr_addrs ts). a < bm_brk m)"

definition bh_at :: "'k binheap_callbacks_t \<Rightarrow> binheap_mode_t \<Rightarrow> 'k set \<Rightarrow> ('k, 'v) bh_mem \<Rightarrow> nat \<Rightarrow> ('k, 'v) btree list \<Rightarrow> bool" where
  "bh_at cb md K m b ts \<longleftrightarrow> (\<exists>H. bh_forest H K m b ts \<and> bh_cbs H = cb \<and> bh_mode H = md \<and> bh_count H = int (size (fr_items ts)) \<and>
     bh_count H \<le> INT_MAX \<and> head_ok H (bh_head H) ts)"

text \<open>An operation on the heap \<open>b\<close> touches its own nodes only.\<close>

definition bh_frame :: "nat \<Rightarrow> nat set \<Rightarrow> ('k, 'v) bh_mem \<Rightarrow> ('k, 'v) bh_mem \<Rightarrow> bool" where
  "bh_frame b A m m' \<longleftrightarrow> (\<forall>a. a \<notin> A \<longrightarrow> bm_nodes m' a = bm_nodes m a) \<and> (\<forall>c. c \<noteq> b \<longrightarrow> bm_heaps m' c = bm_heaps m c) \<and> bm_brk m \<le> bm_brk m'"

lemma HAS_PRECEDENCE_same [simp]:
  "HAS_PRECEDENCE (H\<lparr>bh_head := x\<rparr>) = HAS_PRECEDENCE H" "HAS_PRECEDENCE (H\<lparr>bh_trees := ts\<rparr>) = HAS_PRECEDENCE H"
  "HAS_PRECEDENCE (H\<lparr>bh_count := c\<rparr>) = HAS_PRECEDENCE H" "bh_cmp (H\<lparr>bh_head := x\<rparr>) = bh_cmp H"
  "bh_cmp (H\<lparr>bh_trees := ts\<rparr>) = bh_cmp H" "bh_cmp (H\<lparr>bh_count := c\<rparr>) = bh_cmp H"
  by (simp_all add: HAS_PRECEDENCE_def bh_cmp_def fun_eq_iff)

lemma head_ok_same [simp]:
  "head_ok (H\<lparr>bh_head := x\<rparr>) = head_ok H" "head_ok (H\<lparr>bh_trees := ts\<rparr>) = head_ok H" "head_ok (H\<lparr>bh_count := c\<rparr>) = head_ok H"
  by (simp_all add: head_ok_def fun_eq_iff split: option.split)

lemma HAS_PRECEDENCE_modes:
  "bh_mode H = BINHEAP_MODE_MAX \<Longrightarrow> HAS_PRECEDENCE H = (\<lambda>x y. 0 \<le> bh_cmp H x y)"
  "bh_mode H = BINHEAP_MODE_MIN \<Longrightarrow> HAS_PRECEDENCE H = (\<lambda>x y. bh_cmp H x y \<le> 0)"
  by (simp_all add: HAS_PRECEDENCE_def fun_eq_iff)

lemma get_top_ok:
  assumes "bh_forest H K m b ts" and "key_order (bh_cmp H) K" and "bh_head H = None"
  shows "\<exists>r i. (if bh_mode H = BINHEAP_MODE_MAX then binheap_get_maximum m b else binheap_get_minimum m b) = Some (r, i) \<and> head_ok H r ts"
proof -
  have f: "bm_heaps m b = Some H" "bh_trees H = roots ts" "forest_at (bm_nodes m) b None ts" "keys_in K (fr_items ts)"
    using assms(1) by (simp_all add: bh_forest_def fr_ok_def)
  show ?thesis
  proof (cases "ts = []")
    case True
    then show ?thesis using f(1,2) assms(3)
      by (simp add: binheap_get_maximum_def binheap_get_minimum_def binheap_maxmin_def head_ok_def)
  next
    case False
    let ?mm = "if bh_mode H = BINHEAP_MODE_MAX then 0 else 1 :: int"
    obtain k where k: "k < length ts" "binheap_maxmin m b ?mm = Some (Some (bt_root (ts ! k)), k)"
      "\<forall>u \<in> set ts. maxmin_best (bh_cmp H) ?mm (bt_key (ts ! k)) (bt_key u)" using binheap_maxmin_ok [OF f(1,2) assms(2) f(3,4) False] by blast
    have "maxmin_best (bh_cmp H) ?mm = HAS_PRECEDENCE H"
      by (cases "bh_mode H") (simp_all add: HAS_PRECEDENCE_modes maxmin_best_def fun_eq_iff)
    then have "head_ok H (Some (bt_root (ts ! k))) ts" using k(1,3) by (auto simp: head_ok_def intro!: bexI [of _ "ts ! k"])
    then show ?thesis using k(2) f(1) assms(3)
      by (cases "bh_mode H") (auto simp: binheap_get_maximum_def binheap_get_minimum_def)
  qed
qed

lemma UPDATE_HEAD_ok:
  assumes "bh_forest H K m b ts" and "key_order (bh_cmp H) K"
  shows "\<exists>r. UPDATE_HEAD b m = Some (m\<lparr>bm_heaps := (bm_heaps m)(b \<mapsto> H\<lparr>bh_head := r\<rparr>)\<rparr>) \<and> head_ok H r ts"
proof -
  let ?m = "m\<lparr>bm_heaps := (bm_heaps m)(b \<mapsto> H\<lparr>bh_head := None\<rparr>)\<rparr>"
  have "bh_forest (H\<lparr>bh_head := None\<rparr>) K ?m b ts" "key_order (bh_cmp (H\<lparr>bh_head := None\<rparr>)) K" using assms by (simp_all add: bh_forest_def)
  from get_top_ok [OF this] obtain r i where "(if bh_mode H = BINHEAP_MODE_MAX then binheap_get_maximum ?m b else binheap_get_minimum ?m b) = Some (r, i)"
    "head_ok H r ts" by auto
  then show ?thesis using assms(1) by (intro exI [of _ r]) (simp add: UPDATE_HEAD_def bh_forest_def Let_def)
qed

lemma bt_items_pos: "size (bt_items t) > 0"
  by (simp add: bt_unfold(3))

lemma binheap_insert_ok:
  assumes "bh_at cb md K m b ts" and "key_order (cb_cmp cb) K" and "k \<in> K" and "int (size (fr_items ts)) < 2147483647"
  shows "\<exists>m' ts'. binheap_insert False b k v m = Some (0, m') \<and> bh_at cb md K m' b ts' \<and> fr_items ts' = add_mset (k, v) (fr_items ts) \<and>
    bh_frame b (set (fr_addrs ts) \<union> {bm_brk m}) m m' \<and> set (fr_addrs ts') = insert (bm_brk m) (set (fr_addrs ts))"
proof -
  obtain H where H: "bh_forest H K m b ts" "bh_cbs H = cb" "bh_mode H = md" "bh_count H = int (size (fr_items ts))" "head_ok H (bh_head H) ts"
    using assms(1) by (auto simp: bh_at_def)
  have f: "bm_heaps m b = Some H" "bh_trees H = roots ts" "forest_at (bm_nodes m) b None ts" "fr_ok (HAS_PRECEDENCE H) K ts"
    "\<forall>a \<in> set (fr_addrs ts). a < bm_brk m" using H(1) by (simp_all add: bh_forest_def)
  have ord: "key_order (bh_cmp H) K" using assms(2) H(2) by (simp add: bh_cmp_def)
  let ?a = "bm_brk m"
  let ?n = "BT ?a k v []"
  let ?h = "(bm_nodes m)(?a \<mapsto> \<lparr>bn_key = k, bn_value = v, bn_parent = None, bn_children = [], bn_bh = b\<rparr>)"
  have a: "?a \<notin> set (fr_addrs ts)" using f(5) by blast
  have "forest_at ?h b None (?n # ts)" using f(3) a by (simp add: forest_at_upd)
  moreover have "fr_ok (HAS_PRECEDENCE H) K (?n # ts)" using f(4) a assms(3) by (simp add: fr_ok_def)
  ultimately obtain n' ts' h' where r: "insert_loop H ?a 0 (roots ts) ?h = Some (bt_root n', roots ts', h')" "forest_at h' b None (n' # ts')"
    "fr_ok (HAS_PRECEDENCE H) K (n' # ts')" "set (fr_addrs (n' # ts')) = insert ?a (set (fr_addrs ts))"
    "fr_items (n' # ts') = add_mset (k, v) (fr_items ts)" "\<forall>x. x \<notin> insert ?a (set (fr_addrs ts)) \<longrightarrow> h' x = ?h x"
    using insert_loop_ok [OF heap_order_prec [OF ord], of ?h b ?n ts 0] by auto
  let ?c = "bh_count H + 1"
  let ?H = "H\<lparr>bh_trees := roots (n' # ts'), bh_count := ?c\<rparr>"
  let ?m = "m\<lparr>bm_nodes := h', bm_brk := Suc ?a, bm_heaps := (bm_heaps m)(b \<mapsto> ?H)\<rparr>"
  have c: "ck ?c = Some ?c" using H(4) assms(4) by (simp add: ck_Some)
  have fo: "bh_forest ?H K ?m b (n' # ts')" using r(2-4) f(5) by (auto simp: bh_forest_def less_Suc_eq)
  have sz: "?c = int (size (fr_items (n' # ts')))" using r(5) H(4) by simp
  have "\<exists>x. (if bh_head ?H = None then Some (?m\<lparr>bm_heaps := (bm_heaps m)(b \<mapsto> ?H\<lparr>bh_head := Some (bt_root n')\<rparr>)\<rparr>) else UPDATE_HEAD b ?m)
      = Some (m\<lparr>bm_nodes := h', bm_brk := Suc ?a, bm_heaps := (bm_heaps m)(b \<mapsto> ?H\<lparr>bh_head := x\<rparr>)\<rparr>) \<and> head_ok H x (n' # ts')"
  proof (cases "bh_head H")
    case None
    then have "ts = []" using H(5) by (simp add: head_ok_def)
    then have "ts' = []" using r(5) bt_items_pos [of "hd ts'"] bt_items_pos [of n'] by (cases ts') (auto simp: size_eq_0_iff_empty [symmetric] dest: arg_cong [of _ _ size])
    moreover have "bt_key n' \<in> K" using r(3) keys_in_key by (auto simp: fr_ok_def)
    ultimately have "head_ok H (Some (bt_root n')) (n' # ts')" using heap_order.prec_refl [OF heap_order_prec [OF ord]] by (simp add: head_ok_def)
    then show ?thesis using None by (intro exI [of _ "Some (bt_root n')"]) simp
  next
    case (Some x)
    from UPDATE_HEAD_ok [OF fo] ord obtain r where "UPDATE_HEAD b ?m = Some (?m\<lparr>bm_heaps := (bm_heaps ?m)(b \<mapsto> ?H\<lparr>bh_head := r\<rparr>)\<rparr>)" "head_ok H r (n' # ts')"
      by auto
    then show ?thesis using Some by (intro exI [of _ r]) simp
  qed
  then obtain x where x: "(if bh_head ?H = None then Some (?m\<lparr>bm_heaps := (bm_heaps m)(b \<mapsto> ?H\<lparr>bh_head := Some (bt_root n')\<rparr>)\<rparr>) else UPDATE_HEAD b ?m)
      = Some (m\<lparr>bm_nodes := h', bm_brk := Suc ?a, bm_heaps := (bm_heaps m)(b \<mapsto> ?H\<lparr>bh_head := x\<rparr>)\<rparr>)" "head_ok H x (n' # ts')" by blast
  let ?m' = "m\<lparr>bm_nodes := h', bm_brk := Suc ?a, bm_heaps := (bm_heaps m)(b \<mapsto> ?H\<lparr>bh_head := x\<rparr>)\<rparr>"
  have "binheap_insert False b k v m = Some (0, ?m')"
    using x(1) r(1) f(1,2) c by (cases "bh_head H") (simp_all add: binheap_insert_def Let_def)
  moreover have "bh_at cb md K ?m' b (n' # ts')" using fo H(2-4) sz x(2) assms(4) unfolding bh_at_def
    by (intro exI [of _ "?H\<lparr>bh_head := x\<rparr>"]) (simp add: bh_forest_def)
  moreover have "bh_frame b (set (fr_addrs ts) \<union> {?a}) m ?m'" using r(6) by (auto simp: bh_frame_def)
  ultimately show ?thesis using r(4,5) by (intro exI [of _ ?m'] exI [of _ "n' # ts'"]) simp
qed

section \<open>Removal\<close>

lemma add_is_merge: "binomial_tree_node_add = binomial_tree_merge"
  by (simp add: binomial_tree_node_add_def binomial_tree_merge_def fun_eq_iff)

lemma move_children_ok:
  assumes "btree_at h b p t" and "forest_at h b q us" and "distinct (bt_addrs t @ fr_addrs us)"
  shows "\<exists>h'. move_children (Some (bt_root t)) (map bt_root us) h = Some h' \<and> btree_at h' b p (graft t us) \<and>
    (\<forall>a. a \<notin> set (bt_addrs t) \<union> set (fr_addrs us) \<longrightarrow> h' a = h a)"
  using assms
proof (induction us arbitrary: t h)
  case (Cons u us)
  have "distinct (bt_addrs t @ bt_addrs u)" using Cons.prems(3) by auto
  then obtain h1 where h1: "binomial_tree_merge (bt_root t) (bt_root u) h = Some h1" "btree_at h1 b p (graft t [u])"
    "\<forall>a. a \<noteq> bt_root t \<longrightarrow> a \<noteq> bt_root u \<longrightarrow> h1 a = h a" using merge_trees [of h b p t q u] Cons.prems by auto
  have "forest_at h1 b q us = forest_at h b q us"
  proof (rule forest_at_cong)
    fix a assume "a \<in> set (fr_addrs us)"
    then have "a \<noteq> bt_root t" "a \<noteq> bt_root u" using Cons.prems(3) bt_root_in [of t] bt_root_in [of u] by (auto simp del: bt_root_in)
    then show "h1 a = h a" using h1(3) by simp
  qed
  then have "forest_at h1 b q us" "distinct (bt_addrs (graft t [u]) @ fr_addrs us)" using Cons.prems by simp_all
  from Cons.IH [OF h1(2) this] obtain h' where h': "move_children (Some (bt_root t)) (map bt_root us) h1 = Some h'"
    "btree_at h' b p (graft t (u # us))" "\<forall>a. a \<notin> set (bt_addrs t) \<union> set (fr_addrs (u # us)) \<longrightarrow> h' a = h1 a" by (auto simp: graft_graft)
  have "h' a = h a" if "a \<notin> set (bt_addrs t) \<union> set (fr_addrs (u # us))" for a
  proof -
    have "a \<noteq> bt_root t" "a \<noteq> bt_root u" using that by auto
    then show ?thesis using that h'(3) h1(3) by auto
  qed
  then show ?case using h1(1) h'(1,2) by (intro exI [of _ h']) (simp add: add_is_merge)
qed simp

lemma find_min_child_ok:
  assumes "btree_at (bm_nodes m) b p t" and "bm_heaps m b = Some H" and "key_order (bh_cmp H) K" and "keys_in K (bt_items t)" and "bt_kids t \<noteq> []"
  shows "\<exists>i < length (bt_kids t). binomial_tree_node_find_min_child m (bt_root t) = Some (Some i) \<and>
    (\<forall>u \<in> set (bt_kids t). bh_cmp H (bt_key (bt_kids t ! i)) (bt_key u) \<le> 0)"
proof -
  have "heap_order (\<lambda>x y. bh_cmp H x y \<le> 0) K" using heap_order_prec [of "H\<lparr>bh_mode := BINHEAP_MODE_MIN\<rparr>" K] assms(3)
    by (simp add: HAS_PRECEDENCE_modes bh_cmp_def)
  moreover have "keys_in K (fr_items (bt_kids t))" using assms(4) by (simp add: bt_unfold(3))
  moreover have N: "bm_nodes m (bt_root t) = Some (node_of p b t)" "forest_at (bm_nodes m) b (Some (bt_root t)) (bt_kids t)"
    using assms(1) by (simp_all add: bt_unfold(1))
  ultimately obtain i where "i < length (bt_kids t)" "\<forall>u \<in> set (bt_kids t). bh_cmp H (bt_key (bt_kids t ! i)) (bt_key u) \<le> 0"
    "child_loop (\<lambda>x y. bh_cmp H x y \<le> 0) (bm_nodes m) (map bt_root (bt_kids t)) 0 0 (map bt_root (bt_kids t)) = Some i"
    using child_loop_ok [of _ K "bm_nodes m" b "Some (bt_root t)" "bt_kids t" 0 0] assms(5) by auto
  then show ?thesis using N assms(2,5) by (auto simp: binomial_tree_node_find_min_child_def)
qed

lemma find_max_child_ok:
  assumes "btree_at (bm_nodes m) b p t" and "bm_heaps m b = Some H" and "key_order (bh_cmp H) K" and "keys_in K (bt_items t)" and "bt_kids t \<noteq> []"
  shows "\<exists>i < length (bt_kids t). binomial_tree_node_find_max_child m (bt_root t) = Some (Some i) \<and>
    (\<forall>u \<in> set (bt_kids t). 0 \<le> bh_cmp H (bt_key (bt_kids t ! i)) (bt_key u))"
proof -
  have "heap_order (\<lambda>x y. 0 \<le> bh_cmp H x y) K" using heap_order_prec [of "H\<lparr>bh_mode := BINHEAP_MODE_MAX\<rparr>" K] assms(3)
    by (simp add: HAS_PRECEDENCE_modes bh_cmp_def)
  moreover have "keys_in K (fr_items (bt_kids t))" using assms(4) by (simp add: bt_unfold(3))
  moreover have N: "bm_nodes m (bt_root t) = Some (node_of p b t)" "forest_at (bm_nodes m) b (Some (bt_root t)) (bt_kids t)"
    using assms(1) by (simp_all add: bt_unfold(1))
  ultimately obtain i where "i < length (bt_kids t)" "\<forall>u \<in> set (bt_kids t). 0 \<le> bh_cmp H (bt_key (bt_kids t ! i)) (bt_key u)"
    "child_loop (\<lambda>x y. 0 \<le> bh_cmp H x y) (bm_nodes m) (map bt_root (bt_kids t)) 0 0 (map bt_root (bt_kids t)) = Some i"
    using child_loop_ok [of _ K "bm_nodes m" b "Some (bt_root t)" "bt_kids t" 0 0] assms(5) by auto
  then show ?thesis using N assms(2,5) by (auto simp: binomial_tree_node_find_max_child_def)
qed

text \<open>The removal of a node below another one.\<close>

definition cut_node :: "nat \<Rightarrow> ('k, 'v) bnodes \<Rightarrow> ('k, 'v) bnodes option" where
  "cut_node a h = do {
     N \<leftarrow> h a;
     q \<leftarrow> bn_parent N;
     Q \<leftarrow> h q;
     let h = h(q \<mapsto> Q\<lparr>bn_children := remove_at (first_pos a (bn_children Q)) (bn_children Q)\<rparr>);
     N \<leftarrow> h a;
     move_children (Some q) (bn_children N) h
   }"

lemma remove_at_middle: "a \<notin> set xs \<Longrightarrow> remove_at (first_pos a (xs @ a # ys)) (xs @ a # ys) = xs @ ys"
  by (simp add: first_pos_append remove_at_def)

lemma cut_child:
  assumes "btree_at h b p (BT r k v (xs @ u # ys))" and "distinct (bt_addrs (BT r k v (xs @ u # ys)))"
  shows "\<exists>h'. cut_node (bt_root u) h = Some h' \<and> btree_at h' b p (BT r k v (xs @ ys @ bt_kids u)) \<and>
    (\<forall>a. a \<notin> set (bt_addrs (BT r k v (xs @ u # ys))) \<longrightarrow> h' a = h a)"
proof -
  let ?t = "BT r k v (xs @ u # ys)" and ?t1 = "BT r k v (xs @ ys)" and ?a = "bt_root u"
  have f: "h r = Some (node_of p b ?t)" "forest_at h b (Some r) (xs @ u # ys)" using assms(1) by (simp_all add: bt_unfold(1))
  have d: "distinct (r # fr_addrs (xs @ u # ys))" using assms(2) by (simp add: bt_unfold(2))
  have a: "?a \<noteq> r" "?a \<notin> bt_root ` set xs" "?a \<notin> bt_root ` set ys" "r \<notin> set (fr_addrs (xs @ u # ys))"
    using d bt_root_in [of u] fr_root_in [of _ xs] fr_root_in [of _ ys] by (fastforce simp del: bt_root_in)+
  have U: "h ?a = Some (node_of (Some r) b u)" using forest_at_root [OF f(2), of u] by simp
  define h1 where "h1 = h(r \<mapsto> node_of p b ?t1)"
  have "remove_at (first_pos ?a (map bt_root xs @ ?a # map bt_root ys)) (map bt_root xs @ ?a # map bt_root ys) = map bt_root (xs @ ys)"
    using remove_at_middle [of ?a "map bt_root xs" "map bt_root ys"] a(2) by (simp add: image_iff)
  then have h1: "h(r \<mapsto> (node_of p b ?t)\<lparr>bn_children := remove_at (first_pos ?a (map bt_root xs @ ?a # map bt_root ys)) (map bt_root xs @ ?a # map bt_root ys)\<rparr>) = h1"
    by (simp add: h1_def node_of_def)
  have "forest_at h1 b (Some r) (xs @ u # ys)" unfolding h1_def by (subst forest_at_upd [OF a(4)]) (rule f(2))
  then have t1: "btree_at h1 b p ?t1" and kids: "forest_at h1 b (Some ?a) (bt_kids u)"
    by (simp_all add: bt_unfold(1) [of _ _ _ ?t1] bt_unfold(1) [of _ _ _ u] h1_def del: btree_at.simps)
  have "distinct (bt_addrs ?t1 @ fr_addrs (bt_kids u))" using d by (auto simp: bt_unfold(2))
  from move_children_ok [OF t1 kids this] obtain h' where h': "move_children (Some r) (map bt_root (bt_kids u)) h1 = Some h'"
    "btree_at h' b p (graft ?t1 (bt_kids u))" "\<forall>x. x \<notin> set (bt_addrs ?t1) \<union> set (fr_addrs (bt_kids u)) \<longrightarrow> h' x = h1 x" by auto
  have "h1 ?a = Some (node_of (Some r) b u)" using U a(1) by (simp add: h1_def)
  then have "cut_node ?a h = Some h'" using U f(1) h' by (simp add: cut_node_def h1 Let_def del: fun_upd_apply)
  moreover have "h' x = h x" if "x \<notin> set (bt_addrs ?t)" for x
    using h'(3) that by (auto simp: bt_unfold(2) h1_def)
  ultimately show ?thesis using h'(2) by (auto simp: graft_def)
qed

text \<open>What is left of a tree without the node \<open>a\<close>.\<close>

definition cut_of :: "('k \<Rightarrow> 'k \<Rightarrow> bool) \<Rightarrow> 'k set \<Rightarrow> nat \<Rightarrow> 'k \<times> 'v \<Rightarrow> ('k, 'v) btree \<Rightarrow> ('k, 'v) btree \<Rightarrow> bool" where
  "cut_of prec K a x t t' \<longleftrightarrow> bt_root t' = bt_root t \<and> bt_key t' = bt_key t \<and> bt_val t' = bt_val t \<and> bt_items t = add_mset x (bt_items t') \<and>
     distinct (bt_addrs t') \<and> set (bt_addrs t') = set (bt_addrs t) - {a} \<and>
     (keys_in K (bt_items t) \<longrightarrow> bt_ordered prec t \<longrightarrow> bt_ordered prec t')"

lemma cut_of_child:
  assumes "heap_order prec K" and "distinct (bt_addrs (BT r k v (xs @ u # ys)))"
  shows "cut_of prec K (bt_root u) (bt_key u, bt_val u) (BT r k v (xs @ u # ys)) (BT r k v (xs @ ys @ bt_kids u))"
proof -
  have "bt_ordered prec (BT r k v (xs @ ys @ bt_kids u))" if K: "keys_in K (bt_items (BT r k v (xs @ u # ys)))" and o: "bt_ordered prec (BT r k v (xs @ u # ys))"
  proof -
    have u: "prec k (bt_key u)" "bt_ordered prec u" using o by auto
    have "prec k (bt_key w)" "bt_ordered prec w" if w: "w \<in> set (bt_kids u)" for w
    proof -
      have *: "prec (bt_key u) (bt_key w)" "bt_ordered prec w" using u(2) w by (auto simp: bt_ordered_unfold [of _ u])
      have "k \<in> K" "keys_in K (bt_items u)" using K by (simp_all add: bt_unfold(3) [of "BT r k v (xs @ u # ys)"] del: bt_items.simps)
      moreover from this have "bt_key u \<in> K" "bt_key w \<in> K"
        using keys_in_tree [of K "bt_kids u" w] keys_in_key w by (auto simp: bt_unfold(3) [of u])
      ultimately show "prec k (bt_key w)" "bt_ordered prec w" using * u(1) heap_order.prec_trans [OF assms(1)] by blast+
    qed
    then show ?thesis using o by auto
  qed
  moreover have "distinct (r # fr_addrs (xs @ u # ys))" using assms(2) by (simp add: bt_unfold(2))
  then have "distinct (bt_addrs (BT r k v (xs @ ys @ bt_kids u)))"
    "set (bt_addrs (BT r k v (xs @ ys @ bt_kids u))) = set (bt_addrs (BT r k v (xs @ u # ys))) - {bt_root u}"
    unfolding bt_unfold(2) [of "BT _ _ _ _"] by (auto simp: bt_unfold(2) [of u])
  moreover have "bt_items (BT r k v (xs @ u # ys)) = add_mset (bt_key u, bt_val u) (bt_items (BT r k v (xs @ ys @ bt_kids u)))"
    unfolding bt_unfold(3) [of "BT _ _ _ _"] by (simp add: bt_unfold(3) [of u] ac_simps)
  ultimately show ?thesis by (simp add: cut_of_def del: bt_items.simps bt_addrs.simps bt_ordered.simps)
qed

lemma cut_of_below:
  assumes "cut_of prec K a x u u'" and "a \<noteq> r" and "distinct (bt_addrs (BT r k v (xs @ u # ys)))" and "a \<in> set (bt_addrs u)"
  shows "cut_of prec K a x (BT r k v (xs @ u # ys)) (BT r k v (xs @ u' # ys))"
proof -
  note u = assms(1) [unfolded cut_of_def]
  have d: "distinct (r # fr_addrs (xs @ u # ys))" using assms(3) by (simp add: bt_unfold(2))
  have "distinct (bt_addrs (BT r k v (xs @ u' # ys)))" "set (bt_addrs (BT r k v (xs @ u' # ys))) = set (bt_addrs (BT r k v (xs @ u # ys))) - {a}"
    using u d assms(2,4) unfolding bt_unfold(2) [of "BT _ _ _ _"] by auto
  moreover have "bt_items (BT r k v (xs @ u # ys)) = add_mset x (bt_items (BT r k v (xs @ u' # ys)))"
    using u unfolding bt_unfold(3) [of "BT _ _ _ _"] by simp
  moreover have "bt_ordered prec (BT r k v (xs @ u' # ys))" if "keys_in K (bt_items (BT r k v (xs @ u # ys)))" "bt_ordered prec (BT r k v (xs @ u # ys))"
  proof -
    have "keys_in K (bt_items u)" using that(1) by (simp add: bt_unfold(3) [of "BT r k v (xs @ u # ys)"] del: bt_items.simps)
    then show ?thesis using u that(2) by auto
  qed
  ultimately show ?thesis by (simp add: cut_of_def del: bt_items.simps bt_addrs.simps bt_ordered.simps)
qed

lemma cut_tree:
  assumes "heap_order prec K" and "btree_at h b p t" and "distinct (bt_addrs t)" and "a \<in> set (bt_addrs t)" and "a \<noteq> bt_root t"
  shows "\<exists>h' t' N q Q. cut_node a h = Some h' \<and> h a = Some N \<and> bn_parent N = Some q \<and> h q = Some Q \<and> a \<in> set (bn_children Q) \<and> q \<noteq> a \<and>
    bn_bh N = b \<and> btree_at h' b p t' \<and> cut_of prec K a (bn_key N, bn_value N) t t' \<and> (\<forall>x. x \<notin> set (bt_addrs t) \<longrightarrow> h' x = h x)"
  using assms(2-5)
proof (induction t arbitrary: p)
  case (BT r k v ts)
  have "a \<in> set (fr_addrs ts)" using BT.prems(3,4) by (simp add: fr_addrs_def)
  then obtain u where "u \<in> set ts" "a \<in> set (bt_addrs u)" by (auto simp: fr_addrs_set)
  then obtain xs ys where ts: "ts = xs @ u # ys" and a: "a \<in> set (bt_addrs u)" by (auto dest: split_list)
  have d: "distinct (r # fr_addrs (xs @ u # ys))" using BT.prems(2) by (simp add: bt_unfold(2) ts)
  have at: "h r = Some (node_of p b (BT r k v ts))" "forest_at h b (Some r) (xs @ u # ys)"
    using BT.prems(1) unfolding bt_unfold(1) [of _ _ _ "BT r k v ts"] by (simp_all add: ts)
  have r: "r \<notin> set (bt_addrs u)" using d by auto
  show ?case
  proof (cases "a = bt_root u")
    case True
    obtain h' where h': "cut_node (bt_root u) h = Some h'" "btree_at h' b p (BT r k v (xs @ ys @ bt_kids u))"
      "\<forall>x. x \<notin> set (bt_addrs (BT r k v ts)) \<longrightarrow> h' x = h x" using cut_child [OF BT.prems(1,2) [unfolded ts]] unfolding ts by blast
    moreover have "h a = Some (node_of (Some r) b u)" using forest_at_root [OF at(2), of u] True by simp
    moreover have "r \<noteq> a" using r a by blast
    moreover have "cut_of prec K a (bt_key u, bt_val u) (BT r k v ts) (BT r k v (xs @ ys @ bt_kids u))"
      using cut_of_child [OF assms(1) BT.prems(2) [unfolded ts]] unfolding ts True .
    moreover have "a \<in> set (bn_children (node_of p b (BT r k v ts)))" using True by (simp add: ts)
    ultimately show ?thesis using at(1) True
      by - (rule exI [of _ h'], rule exI [of _ "BT r k v (xs @ ys @ bt_kids u)"], rule exI [of _ "node_of (Some r) b u"], rule exI [of _ r],
          rule exI [of _ "node_of p b (BT r k v ts)"], simp del: btree_at.simps bt_addrs.simps)
  next
    case False
    have "u \<in> set ts" "btree_at h b (Some r) u" "distinct (bt_addrs u)" using at(2) d by (simp_all add: ts)
    from BT.IH [OF this a False] obtain h' u' N q Q where
      h': "cut_node a h = Some h'" "h a = Some N" "bn_parent N = Some q" "h q = Some Q" "a \<in> set (bn_children Q)" "q \<noteq> a" "bn_bh N = b"
        "btree_at h' b (Some r) u'" "cut_of prec K a (bn_key N, bn_value N) u u'" "\<forall>x. x \<notin> set (bt_addrs u) \<longrightarrow> h' x = h x" by blast
    have "h' r = h r" using h'(10) r by blast
    moreover have "forest_at h' b (Some r) xs = forest_at h b (Some r) xs" "forest_at h' b (Some r) ys = forest_at h b (Some r) ys"
      using h'(10) d by (auto intro!: forest_at_cong)
    moreover have "bt_root u' = bt_root u" using h'(9) by (simp add: cut_of_def)
    ultimately have "btree_at h' b p (BT r k v (xs @ u' # ys))" using at h'(8)
      by (simp add: bt_unfold(1) [of _ _ _ "BT r k v (xs @ u' # ys)"] ts node_of_def del: btree_at.simps)
    moreover have "a \<noteq> r" using BT.prems(4) by simp
    then have "cut_of prec K a (bn_key N, bn_value N) (BT r k v ts) (BT r k v (xs @ u' # ys))"
      using cut_of_below [OF h'(9) _ BT.prems(2) [unfolded ts] a] unfolding ts by blast
    moreover have "\<forall>x. x \<notin> set (bt_addrs (BT r k v ts)) \<longrightarrow> h' x = h x" using h'(10) by (simp add: ts)
    ultimately show ?thesis using h'(1-7) by blast
  qed
qed

lemma foreach_remove:
  assumes "a \<notin> set as" and "idx + length as < len"
  shows "foreach_spec (binheap_remove_root_node a) idx len () (map Some as @ Some a # vs) = (Suc (idx + length as), len - 1, (), map Some as @ vs)"
  using assms by (induction as arbitrary: idx) (simp_all add: binheap_remove_root_node_def)

lemma roots_Some: "roots ts = map Some (map bt_root ts)"
  by simp

text \<open>The removal of a root: the child with the highest precedence takes its place and gets the other children.\<close>

definition without_root :: "('k, 'v) btree \<Rightarrow> nat \<Rightarrow> ('k, 'v) btree list" where
  "without_root t i = (if bt_kids t = [] then [] else [graft (bt_kids t ! i) (remove_at i (bt_kids t))])"

lemma remove_at_perm: "i < length ts \<Longrightarrow> mset (ts ! i # remove_at i ts) = mset ts"
  by (metis add_mset_add_single id_take_nth_drop mset.simps(2) mset_append remove_at_def union_mset_add_mset_right)

lemma fr_perm: "mset ts = mset us \<Longrightarrow> fr_items ts = fr_items us \<and> mset (fr_addrs ts) = mset (fr_addrs us)"
  unfolding fr_items_def fr_addrs_def by (metis mset_concat mset_map sum_mset_sum_list)

lemma without_root_ok:
  assumes "heap_order prec K" and "keys_in K (bt_items t)" and "bt_ordered prec t" and "distinct (bt_addrs t)" and "bt_kids t = [] \<or> i < length (bt_kids t)"
    and "\<forall>u \<in> set (bt_kids t). prec (bt_key (bt_kids t ! i)) (bt_key u)"
  shows "fr_ok prec K (without_root t i) \<and> bt_items t = add_mset (bt_key t, bt_val t) (fr_items (without_root t i)) \<and>
    set (fr_addrs (without_root t i)) = set (bt_addrs t) - {bt_root t} \<and> (\<forall>u \<in> set (without_root t i). prec (bt_key t) (bt_key u))"
proof (cases "bt_kids t = []")
  case True
  then show ?thesis by (simp add: without_root_def fr_ok_def bt_unfold(2,3))
next
  case False
  let ?c = "bt_kids t ! i" and ?us = "remove_at i (bt_kids t)"
  have i: "i < length (bt_kids t)" using assms(5) False by blast
  have set: "set (?c # ?us) = set (bt_kids t)" using remove_at_perm [OF i] by (metis set_mset_mset)
  have fr: "fr_items (?c # ?us) = fr_items (bt_kids t)" "mset (fr_addrs (?c # ?us)) = mset (fr_addrs (bt_kids t))"
    using fr_perm [OF remove_at_perm [OF i]] by blast+
  have w: "without_root t i = [graft ?c ?us]" using False by (simp add: without_root_def)
  have "bt_ordered prec (graft ?c ?us)" using assms(3,6) set by (auto simp: bt_ordered_graft bt_ordered_unfold [of _ t])
  moreover have "distinct (fr_addrs (?c # ?us))" using fr(2) assms(4) mset_eq_imp_distinct_iff by (fastforce simp: bt_unfold(2) [of t])
  moreover have "set (fr_addrs (?c # ?us)) = set (fr_addrs (bt_kids t))" using fr(2) by (metis set_mset_mset)
  moreover have "prec (bt_key t) (bt_key ?c)" using assms(3) i by (auto simp: bt_ordered_unfold [of _ t])
  moreover have "keys_in K (fr_items (?c # ?us))" using fr(1) assms(2) by (simp add: bt_unfold(3) [of t])
  moreover have "keys_in K (fr_items (bt_kids t))" using assms(2) by (simp add: bt_unfold(3) [of t])
  ultimately show ?thesis using fr(1) assms(4) by (auto simp: w fr_ok_def bt_unfold(2,3) [of t])
qed

lemma unlink_root_ok:
  assumes "bh_forest H K m b (xs @ t # ys)" and "key_order (bh_cmp H) K" and "rindex = 0 \<or> rindex = length xs"
  shows "\<exists>i np m1 N h. (bt_kids t = [] \<or> i < length (bt_kids t)) \<and>
    (\<forall>u \<in> set (bt_kids t). HAS_PRECEDENCE H (bt_key (bt_kids t ! i)) (bt_key u)) \<and>
    unlink_root (bt_root t) rindex m = Some (np, m1) \<and> bm_nodes m1 (bt_root t) = Some N \<and> bn_bh N = b \<and>
    move_children np (bn_children N) (bm_nodes m1) = Some h \<and> bm_brk m1 = bm_brk m \<and>
    bm_heaps m1 = (bm_heaps m)(b \<mapsto> H\<lparr>bh_trees := roots (xs @ without_root t i @ ys)\<rparr>) \<and>
    forest_at h b None (xs @ without_root t i @ ys) \<and> (\<forall>x. x \<notin> set (bt_addrs t) \<longrightarrow> h x = bm_nodes m x)"
proof -
  let ?a = "bt_root t" and ?nodes = "bm_nodes m"
  have f: "bm_heaps m b = Some H" "bh_trees H = roots (xs @ t # ys)" "forest_at ?nodes b None (xs @ t # ys)"
    "distinct (fr_addrs (xs @ t # ys))" "keys_in K (bt_items t)" using assms(1) by (simp_all add: bh_forest_def fr_ok_def)
  have T: "?nodes ?a = Some (node_of None b t)" "btree_at ?nodes b None t" using forest_at_root [OF f(3)] f(3) by simp_all
  have ax: "?a \<notin> set (map bt_root xs)"
  proof
    assume "?a \<in> set (map bt_root xs)"
    then have "?a \<in> set (fr_addrs xs)" using fr_root_in [of _ xs] by (auto simp: image_iff)
    then show False using f(4) bt_root_in [of t] by (auto simp del: bt_root_in)
  qed
  have trees: "remove_tree ?a rindex (roots (xs @ t # ys)) = (Suc (length xs), roots (xs @ ys))"
    using foreach_remove [OF ax, of 0 "length (xs @ t # ys)" "roots ys"] assms(3) by (auto simp: remove_tree_def remove_at_def comp_def)
  define m1 where "m1 = m\<lparr>bm_heaps := (bm_heaps m)(b \<mapsto> H\<lparr>bh_trees := roots (xs @ ys)\<rparr>)\<rparr>"
  show ?thesis
  proof (cases "bt_kids t = []")
    case True
    have "unlink_root ?a rindex m = Some (None, m1)" using T(1) f(1) trees True by (simp add: unlink_root_def m1_def Let_def f(2) del: map_append list.map)
    then show ?thesis using True T(1) f(3)
      by - (rule exI [of _ 0], rule exI [of _ None], rule exI [of _ m1], rule exI [of _ "node_of None b t"], rule exI [of _ ?nodes],
          simp add: m1_def without_root_def)
  next
    case False
    have at: "btree_at (bm_nodes m1) b None t" "bm_heaps m1 b = Some (H\<lparr>bh_trees := roots (xs @ ys)\<rparr>)"
      "key_order (bh_cmp (H\<lparr>bh_trees := roots (xs @ ys)\<rparr>)) K" using T(2) assms(2) by (simp_all add: m1_def)
    obtain i where i: "i < length (bt_kids t)" "\<forall>u \<in> set (bt_kids t). HAS_PRECEDENCE H (bt_key (bt_kids t ! i)) (bt_key u)"
      "(if bh_mode H = BINHEAP_MODE_MAX then binomial_tree_node_find_max_child m1 ?a else binomial_tree_node_find_min_child m1 ?a) = Some (Some i)"
      using find_min_child_ok [OF at f(5) False] find_max_child_ok [OF at f(5) False]
      by (cases "bh_mode H") (auto simp: HAS_PRECEDENCE_modes)
    let ?c = "bt_kids t ! i" and ?us = "remove_at i (bt_kids t)"
    have d: "distinct (?a # fr_addrs (bt_kids t))" using f(4) by (simp add: bt_unfold(2))
    have perm: "mset (fr_addrs (?c # ?us)) = mset (fr_addrs (bt_kids t))" using fr_perm [OF remove_at_perm [OF i(1)]] by blast
    have dc: "distinct (fr_addrs (?c # ?us))" using perm d mset_eq_imp_distinct_iff by fastforce
    have ac: "?a \<notin> set (bt_addrs ?c)" "?a \<notin> set (fr_addrs ?us)" "set (fr_addrs (?c # ?us)) = set (fr_addrs (bt_kids t))"
      using perm d by (metis Un_iff distinct.simps(2) fr_simps(2) set_append set_mset_mset)+
    have kids: "forest_at ?nodes b (Some ?a) (bt_kids t)" using T(2) by (simp add: bt_unfold(1))
    define h1 where "h1 = ?nodes(?a \<mapsto> (node_of None b t)\<lparr>bn_children := map bt_root ?us\<rparr>)"
    define h2 where "h2 = h1(bt_root ?c \<mapsto> node_of None b ?c)"
    have c: "?c \<in> set (bt_kids t)" using i(1) by simp
    have kid: "btree_at h1 b (Some ?a) u" if "u \<in> set (bt_kids t)" for u
      using forest_at_tree [OF kids that] d that unfolding h1_def by (subst btree_at_upd) (auto simp: fr_addrs_set)
    have dcc: "distinct (bt_addrs ?c)" using dc by simp
    note rep = btree_reparent [OF kid [OF c] dcc, of None, folded h2_def]
    have us: "forest_at h2 b (Some ?a) ?us"
    proof -
      have "forest_at h1 b (Some ?a) ?us" unfolding forest_at_def
        using kid set_take_subset [of i "bt_kids t"] set_drop_subset [of "Suc i" "bt_kids t"] by (auto simp: remove_at_def)
      moreover have "bt_root ?c \<notin> set (fr_addrs ?us)" using dc bt_root_in [of ?c] by (auto simp del: bt_root_in)
      ultimately show ?thesis by (simp add: h2_def forest_at_upd)
    qed
    obtain h where h: "move_children (Some (bt_root ?c)) (map bt_root ?us) h2 = Some h" "btree_at h b None (graft ?c ?us)"
      "\<forall>x. x \<notin> set (bt_addrs ?c) \<union> set (fr_addrs ?us) \<longrightarrow> h x = h2 x" using move_children_ok [OF rep(2) us] dc by auto
    have other: "h x = ?nodes x" if "x \<notin> set (bt_addrs t)" for x
    proof -
      have "x \<noteq> ?a" "x \<notin> set (fr_addrs (?c # ?us))" using that ac(3) by (auto simp: bt_unfold(2) [of t])
      moreover from this have "x \<noteq> bt_root ?c" by auto
      ultimately show ?thesis using h(3) by (simp add: h2_def h1_def)
    qed
    have "forest_at h b None xs = forest_at ?nodes b None xs" "forest_at h b None ys = forest_at ?nodes b None ys"
      using other f(4) by (auto intro!: forest_at_cong)
    then have fo: "forest_at h b None (xs @ without_root t i @ ys)" using f(3) h(2) False by (simp add: without_root_def)
    let ?H = "H\<lparr>bh_trees := roots (xs @ without_root t i @ ys)\<rparr>"
    let ?m = "m1\<lparr>bm_nodes := h2, bm_heaps := (bm_heaps m)(b \<mapsto> ?H)\<rparr>"
    have ins: "insert_at (length xs) (Some (bt_root ?c)) (roots (xs @ ys)) = roots (xs @ without_root t i @ ys)"
      using False by (simp add: insert_at_def without_root_def)
    have "upd_node ?a (\<lambda>n. n\<lparr>bn_children := remove_at i (bn_children n)\<rparr>) ?nodes = Some h1"
      using T(1) by (simp add: upd_node_def h1_def node_of_def map_remove_at)
    then have "unlink_root ?a rindex m = Some (Some (bt_root ?c), ?m)"
      using T(1) f(1) trees False i ins rep(1)
      by (cases "bh_mode H = BINHEAP_MODE_MAX") (simp_all add: unlink_root_def m1_def Let_def f(2) del: map_append list.map)
    moreover have "h2 ?a = Some ((node_of None b t)\<lparr>bn_children := map bt_root ?us\<rparr>)"
      using ac(1) bt_root_in [of ?c] by (auto simp: h2_def h1_def simp del: bt_root_in)
    ultimately show ?thesis using i(1,2) h(1) fo other
      by - (rule exI [of _ i], rule exI [of _ "Some (bt_root ?c)"], rule exI [of _ ?m], rule exI [of _ "(node_of None b t)\<lparr>bn_children := map bt_root ?us\<rparr>"],
          rule exI [of _ h], simp add: m1_def)
  qed
qed

lemma release_node_ok:
  assumes "bh_forest H K m b ts" and "key_order (bh_cmp H) K" and "bh_count H = int (size (fr_items ts)) + 1" and "bh_count H \<le> INT_MAX"
    and "bh_head H = Some a \<or> head_ok H (bh_head H) ts" and "a \<notin> set (fr_addrs ts)"
  shows "\<exists>m'. release_node a b m = Some m' \<and> bh_at (bh_cbs H) (bh_mode H) K m' b ts \<and> bm_nodes m' = (bm_nodes m)(a := None) \<and>
    (\<forall>c. c \<noteq> b \<longrightarrow> bm_heaps m' c = bm_heaps m c) \<and> bm_brk m' = bm_brk m"
proof -
  let ?c = "int (size (fr_items ts))"
  have "\<exists>r. (if bh_head H = Some a then UPDATE_HEAD b m else Some m) = Some (m\<lparr>bm_heaps := (bm_heaps m)(b \<mapsto> H\<lparr>bh_head := r\<rparr>)\<rparr>) \<and> head_ok H r ts"
  proof (cases "bh_head H = Some a")
    case True
    then show ?thesis using UPDATE_HEAD_ok [OF assms(1,2)] by simp
  next
    case False
    have "m\<lparr>bm_heaps := (bm_heaps m)(b \<mapsto> H\<lparr>bh_head := bh_head H\<rparr>)\<rparr> = m"
      using assms(1) by (cases m) (simp add: bh_forest_def fun_upd_idem)
    then show ?thesis using False assms(5) by (intro exI [of _ "bh_head H"]) simp
  qed
  then obtain r where r: "(if bh_head H = Some a then UPDATE_HEAD b m else Some m) = Some (m\<lparr>bm_heaps := (bm_heaps m)(b \<mapsto> H\<lparr>bh_head := r\<rparr>)\<rparr>)" "head_ok H r ts"
    by blast
  let ?m = "m\<lparr>bm_heaps := (bm_heaps m)(b \<mapsto> H\<lparr>bh_head := r, bh_count := ?c\<rparr>), bm_nodes := (bm_nodes m)(a := None)\<rparr>"
  have "ck ?c = Some ?c" using assms(3,4) by (simp add: ck_Some)
  then have "release_node a b m = Some ?m"
    using assms(1,3) by (simp add: release_node_def bh_forest_def r(1) split del: if_split)
  moreover have "bh_at (bh_cbs H) (bh_mode H) K ?m b ts" using assms(1,3,4,6) r(2) unfolding bh_at_def
    by (intro exI [of _ "H\<lparr>bh_head := r, bh_count := ?c\<rparr>"]) (simp add: bh_forest_def forest_at_upd)
  ultimately show ?thesis by (intro exI [of _ ?m]) simp
qed

text \<open>
  The result of \<open>binomial_tree_node_destroy\<close> for the node \<open>a\<close> of the heap: the heap has lost the item of that node,
  and the node is gone.
\<close>

definition removed :: "'k binheap_callbacks_t \<Rightarrow> binheap_mode_t \<Rightarrow> 'k set \<Rightarrow> nat \<Rightarrow> nat \<Rightarrow> ('k, 'v) btree list \<Rightarrow> ('k, 'v) bh_mem \<Rightarrow> 'k \<times> 'v \<Rightarrow> ('k, 'v) bh_mem \<Rightarrow> bool" where
  "removed cb md K b a ts m x m' \<longleftrightarrow> (\<exists>ts'. bh_at cb md K m' b ts' \<and> fr_items ts = add_mset x (fr_items ts') \<and>
     set (fr_addrs ts') = set (fr_addrs ts) - {a} \<and> bm_nodes m' a = None \<and> bh_frame b (set (fr_addrs ts)) m m' \<and> bm_brk m' = bm_brk m)"

lemma destroy_root_ok:
  assumes "bh_at cb md K m b (xs @ t # ys)" and "key_order (cb_cmp cb) K" and "rindex = 0 \<or> rindex = length xs"
  shows "\<exists>m'. binomial_tree_node_destroy (bt_root t) rindex m = Some m' \<and> removed cb md K b (bt_root t) (xs @ t # ys) m (bt_key t, bt_val t) m'"
proof -
  let ?ts = "xs @ t # ys" and ?a = "bt_root t"
  obtain H where H: "bh_forest H K m b ?ts" "bh_cbs H = cb" "bh_mode H = md" "bh_count H = int (size (fr_items ?ts))" "bh_count H \<le> INT_MAX"
    "head_ok H (bh_head H) ?ts" using assms(1) by (auto simp: bh_at_def)
  have ord: "key_order (bh_cmp H) K" using assms(2) H(2) by (simp add: bh_cmp_def)
  note ho = heap_order_prec [OF ord]
  have f: "forest_at (bm_nodes m) b None ?ts" "fr_ok (HAS_PRECEDENCE H) K ?ts" "\<forall>a \<in> set (fr_addrs ?ts). a < bm_brk m"
    using H(1) by (simp_all add: bh_forest_def)
  obtain i np m1 N h where u: "bt_kids t = [] \<or> i < length (bt_kids t)" "\<forall>u \<in> set (bt_kids t). HAS_PRECEDENCE H (bt_key (bt_kids t ! i)) (bt_key u)"
    "unlink_root ?a rindex m = Some (np, m1)" "bm_nodes m1 ?a = Some N" "bn_bh N = b" "move_children np (bn_children N) (bm_nodes m1) = Some h"
    "bm_brk m1 = bm_brk m" "bm_heaps m1 = (bm_heaps m)(b \<mapsto> H\<lparr>bh_trees := roots (xs @ without_root t i @ ys)\<rparr>)"
    "forest_at h b None (xs @ without_root t i @ ys)" "\<forall>x. x \<notin> set (bt_addrs t) \<longrightarrow> h x = bm_nodes m x"
    using unlink_root_ok [OF H(1) ord assms(3)] by blast
  let ?us = "without_root t i"
  let ?ts' = "xs @ ?us @ ys"
  have t: "keys_in K (bt_items t)" "bt_ordered (HAS_PRECEDENCE H) t" "distinct (bt_addrs t)" using f(2) by (simp_all add: fr_ok_def)
  note w = without_root_ok [OF ho t u(1,2)]
  have ok: "fr_ok (HAS_PRECEDENCE H) K ?ts'" using w f(2) by (auto simp: fr_ok_def)
  have ads: "set (fr_addrs ?ts') = set (fr_addrs ?ts) - {?a}" using w f(2) bt_root_in [of t] by (auto simp: fr_ok_def simp del: bt_root_in)
  have items: "fr_items ?ts = add_mset (bt_key t, bt_val t) (fr_items ?ts')" using w by simp
  define m2 where "m2 = m1\<lparr>bm_nodes := h\<rparr>"
  let ?H = "H\<lparr>bh_trees := roots ?ts'\<rparr>"
  have fo: "bh_forest ?H K m2 b ?ts'" using u(7-9) ok ads f(3) by (auto simp: bh_forest_def m2_def)
  have "bh_head H = Some ?a \<or> head_ok H (bh_head H) ?ts'"
  proof (rule disjCI)
    assume n: "\<not> head_ok H (bh_head H) ?ts'"
    show "bh_head H = Some ?a"
    proof (cases "bh_head H")
      case None
      then show ?thesis using H(6) by (simp add: head_ok_def)
    next
      case (Some x)
      then obtain s where s: "s \<in> set ?ts" "x = bt_root s" "\<forall>u \<in> set ?ts. HAS_PRECEDENCE H (bt_key s) (bt_key u)" using H(6) by (auto simp: head_ok_def)
      have "HAS_PRECEDENCE H (bt_key s) (bt_key u)" if "u \<in> set ?us" for u
      proof -
        have "HAS_PRECEDENCE H (bt_key s) (bt_key t)" "HAS_PRECEDENCE H (bt_key t) (bt_key u)" using s(3) w that by auto
        moreover have "bt_key s \<in> K" "bt_key t \<in> K" "bt_key u \<in> K"
          using s(1) that f(2) ok keys_in_tree [of K ?ts] keys_in_tree [of K ?ts'] keys_in_key by (auto simp: fr_ok_def)
        ultimately show ?thesis using heap_order.prec_trans [OF ho] by blast
      qed
      then have "s \<notin> set xs \<union> set ys" using n s Some by (auto simp: head_ok_def)
      then show ?thesis using s(1,2) Some by auto
    qed
  qed
  then have hd: "bh_head ?H = Some ?a \<or> head_ok ?H (bh_head ?H) ?ts'" by simp
  have ord': "key_order (bh_cmp ?H) K" and cnt: "bh_count ?H = int (size (fr_items ?ts')) + 1" "bh_count ?H \<le> INT_MAX"
    using ord H(4,5) items by simp_all
  have "?a \<notin> set (fr_addrs ?ts')" using ads by blast
  note rel = release_node_ok [OF fo ord' cnt hd this]
  then obtain m' where m': "release_node ?a b m2 = Some m'" "bh_at cb md K m' b ?ts'" "bm_nodes m' = h(?a := None)"
    "\<forall>c. c \<noteq> b \<longrightarrow> bm_heaps m' c = bm_heaps m c" "bm_brk m' = bm_brk m" using rel H(2,3) u(7,8) by (auto simp: m2_def)
  have "bm_nodes m ?a = Some (node_of None b t)" using forest_at_root [OF f(1), of t] by simp
  then have "binomial_tree_node_destroy ?a rindex m = Some m'" using u(3-6) m'(1) by (simp add: binomial_tree_node_destroy_def m2_def)
  moreover have "bh_frame b (set (fr_addrs ?ts)) m m'" using m'(3-5) u(10) by (auto simp: bh_frame_def)
  ultimately show ?thesis using m' items ads unfolding removed_def by auto
qed

lemma destroy_inner_ok:
  assumes "bh_at cb md K m b (xs @ t # ys)" and "key_order (cb_cmp cb) K" and "a \<in> set (bt_addrs t)" and "a \<noteq> bt_root t"
  shows "\<exists>m' N. binomial_tree_node_destroy a rindex m = Some m' \<and> bm_nodes m a = Some N \<and> removed cb md K b a (xs @ t # ys) m (bn_key N, bn_value N) m'"
proof -
  let ?ts = "xs @ t # ys"
  obtain H where H: "bh_forest H K m b ?ts" "bh_cbs H = cb" "bh_mode H = md" "bh_count H = int (size (fr_items ?ts))" "bh_count H \<le> INT_MAX"
    "head_ok H (bh_head H) ?ts" using assms(1) by (auto simp: bh_at_def)
  have ord: "key_order (bh_cmp H) K" using assms(2) H(2) by (simp add: bh_cmp_def)
  note ho = heap_order_prec [OF ord]
  have f: "bm_heaps m b = Some H" "bh_trees H = roots ?ts" "forest_at (bm_nodes m) b None ?ts" "fr_ok (HAS_PRECEDENCE H) K ?ts" "\<forall>a \<in> set (fr_addrs ?ts). a < bm_brk m"
    using H(1) by (simp_all add: bh_forest_def)
  have t: "keys_in K (bt_items t)" "bt_ordered (HAS_PRECEDENCE H) t" "distinct (bt_addrs t)" "btree_at (bm_nodes m) b None t"
    using f(3,4) by (simp_all add: fr_ok_def)
  obtain h t' N q Q where c: "cut_node a (bm_nodes m) = Some h" "bm_nodes m a = Some N" "bn_parent N = Some q" "bm_nodes m q = Some Q"
    "a \<in> set (bn_children Q)" "q \<noteq> a" "bn_bh N = b" "btree_at h b None t'" "cut_of (HAS_PRECEDENCE H) K a (bn_key N, bn_value N) t t'"
    "\<forall>x. x \<notin> set (bt_addrs t) \<longrightarrow> h x = bm_nodes m x" using cut_tree [OF ho t(4,3) assms(3,4)] by blast
  note w = c(9) [unfolded cut_of_def]
  let ?ts' = "xs @ t' # ys"
  have "forest_at h b None xs = forest_at (bm_nodes m) b None xs" "forest_at h b None ys = forest_at (bm_nodes m) b None ys"
    using c(10) f(4) by (auto intro!: forest_at_cong simp: fr_ok_def)
  then have fh: "forest_at h b None ?ts'" using f(3) c(8) by simp
  have ok: "fr_ok (HAS_PRECEDENCE H) K ?ts'" using w t f(4) by (auto simp: fr_ok_def)
  have ads: "set (fr_addrs ?ts') = set (fr_addrs ?ts) - {a}" using w f(4) assms(3) by (auto simp: fr_ok_def)
  have items: "fr_items ?ts = add_mset (bn_key N, bn_value N) (fr_items ?ts')" using w by simp
  have roots: "roots ?ts' = roots ?ts" using w by simp
  define m2 where "m2 = m\<lparr>bm_nodes := h\<rparr>"
  have fo: "bh_forest H K m2 b ?ts'" using f fh ok ads roots by (auto simp: bh_forest_def m2_def)
  have hd: "bh_head H = Some a \<or> head_ok H (bh_head H) ?ts'" using H(6) w by (auto simp: head_ok_def split: option.splits)
  have cnt: "bh_count H = int (size (fr_items ?ts')) + 1" using H(4) items by simp
  have "a \<notin> set (fr_addrs ?ts')" using ads by blast
  from release_node_ok [OF fo ord cnt H(5) hd this] obtain m' where m': "release_node a b m2 = Some m'" "bh_at cb md K m' b ?ts'" "bm_nodes m' = h(a := None)"
    "\<forall>c. c \<noteq> b \<longrightarrow> bm_heaps m' c = bm_heaps m c" "bm_brk m' = bm_brk m" using H(2,3) by (auto simp: m2_def)
  let ?Q = "Q\<lparr>bn_children := remove_at (first_pos a (bn_children Q)) (bn_children Q)\<rparr>"
  have "((bm_nodes m)(q \<mapsto> ?Q)) a = Some N" using c(2,6) by simp
  then have mv: "move_children (Some q) (bn_children N) ((bm_nodes m)(q \<mapsto> ?Q)) = Some h" using c(1-4) by (simp add: cut_node_def Let_def)
  have "unlink_inner a q m = Some (m\<lparr>bm_nodes := (bm_nodes m)(q \<mapsto> ?Q)\<rparr>)" using c(4,5) by (simp add: unlink_inner_def Let_def)
  then have "binomial_tree_node_destroy a rindex m = Some m'"
    using c(2,3,6,7) mv m'(1) by (simp add: binomial_tree_node_destroy_def m2_def)
  moreover have "bh_frame b (set (fr_addrs ?ts)) m m'" using m'(3-5) c(10) assms(3) by (auto simp: bh_frame_def)
  ultimately show ?thesis using c(2) m' items ads unfolding removed_def by auto
qed

lemma destroy_ok:
  assumes "bh_at cb md K m b ts" and "key_order (cb_cmp cb) K" and "j < length ts" and "a \<in> set (bt_addrs (ts ! j))" and "rindex = 0 \<or> rindex = j"
  shows "\<exists>m' N. binomial_tree_node_destroy a rindex m = Some m' \<and> bm_nodes m a = Some N \<and> removed cb md K b a ts m (bn_key N, bn_value N) m'"
proof -
  define xs t ys where d: "xs = take j ts" "t = ts ! j" "ys = drop (Suc j) ts"
  have ts: "ts = xs @ t # ys" and l: "length xs = j" using id_take_nth_drop [OF assms(3)] assms(3) by (simp_all add: d)
  have at: "bh_at cb md K m b (xs @ t # ys)" using assms(1) unfolding ts .
  show ?thesis
  proof (cases "a = bt_root t")
    case True
    have "forest_at (bm_nodes m) b None (xs @ t # ys)" using at by (auto simp: bh_at_def bh_forest_def)
    then have "bm_nodes m a = Some (node_of None b t)" using forest_at_root [of _ b None "xs @ t # ys" t] True by auto
    moreover obtain m' where "binomial_tree_node_destroy a rindex m = Some m'" "removed cb md K b a ts m (bt_key t, bt_val t) m'"
      using destroy_root_ok [OF at assms(2), of rindex] assms(5) True l unfolding ts by blast
    ultimately show ?thesis by simp
  next
    case False
    have "a \<in> set (bt_addrs t)" using assms(4) by (simp add: d)
    from destroy_inner_ok [OF at assms(2) this False, of rindex] show ?thesis unfolding ts by blast
  qed
qed

section \<open>The operations\<close>

lemma descend_ok:
  assumes "\<And>t p. btree_at (bm_nodes m) b p t \<Longrightarrow> keys_in K (bt_items t) \<Longrightarrow> bt_kids t \<noteq> [] \<Longrightarrow> \<exists>i < length (bt_kids t). fc m (bt_root t) = Some (Some i)"
    and "btree_at (bm_nodes m) b p t" and "keys_in K (bt_items t)"
  shows "\<exists>a. descend fc m (bt_root t) = Some a \<and> a \<in> set (bt_addrs t)"
  using assms(2,3)
proof (induction t arbitrary: p)
  case (BT r k v ts)
  let ?t = "BT r k v ts"
  have R: "bm_nodes m r = Some (node_of p b ?t)" "forest_at (bm_nodes m) b (Some r) ts"
    using BT.prems(1) unfolding bt_unfold(1) [of _ _ _ ?t] by simp_all
  show ?case
  proof (cases "ts = []")
    case True
    then show ?thesis using R(1) by (subst descend.simps) simp
  next
    case False
    then obtain i where i: "i < length ts" "fc m r = Some (Some i)" using assms(1) [OF BT.prems] by auto
    have "keys_in K (fr_items ts)" using BT.prems(2) by (simp add: fr_items_def)
    then obtain a where a: "descend fc m (bt_root (ts ! i)) = Some a" "a \<in> set (bt_addrs (ts ! i))"
      using BT.IH [of "ts ! i" "Some r"] R(2) i(1) forest_at_tree keys_in_tree by (metis nth_mem)
    then have "descend fc m r = Some a" using R(1) False i by (subst descend.simps) simp
    then show ?thesis using a(2) i(1) by (auto intro!: bexI [of _ "ts ! i"])
  qed
qed

end
