(* ===== verification/Binheap_Pq.thy ===== *)
theory Binheap_Pq
  imports Binheap_Spec
begin

text \<open>
  The heaps of \<open>binheap.c\<close> as priority queues: the contract of a heap as a multiset of keys with values, its interpretation on
  the operations, and what a client of the contract can rely on.
\<close>

section \<open>Operations on a heap\<close>

lemma bh_at_items:
  assumes "bh_at cb md K m b ts"
  shows "keys_in K (fr_items ts)" "distinct (fr_addrs ts)"
  using assms by (auto simp: bh_at_def bh_forest_def fr_ok_def)

lemma fr_items_empty: "fr_items ts = {#} \<longleftrightarrow> ts = []"
  by (cases ts) (simp_all add: bt_unfold(3))

abbreviation opposite :: "binheap_mode_t \<Rightarrow> binheap_mode_t" where
  "opposite md \<equiv> if md = BINHEAP_MODE_MAX then BINHEAP_MODE_MIN else BINHEAP_MODE_MAX"

definition get_end :: "binheap_mode_t \<Rightarrow> ('k, 'v) bh_mem \<Rightarrow> nat \<Rightarrow> (nat option \<times> nat) option" where
  "get_end e = (if e = BINHEAP_MODE_MAX then binheap_get_maximum else binheap_get_minimum)"

definition hprec :: "binheap_mode_t \<Rightarrow> 'k binheap_callbacks_t \<Rightarrow> 'k \<Rightarrow> 'k \<Rightarrow> bool" where
  "hprec md cb x y \<longleftrightarrow> (if md = BINHEAP_MODE_MAX then 0 \<le> cb_cmp cb x y else cb_cmp cb x y \<le> 0)"

lemma hprec_eq: "bh_mode H = md \<Longrightarrow> bh_cbs H = cb \<Longrightarrow> HAS_PRECEDENCE H = hprec md cb"
  by (cases md) (auto simp: HAS_PRECEDENCE_def hprec_def bh_cmp_def fun_eq_iff)

lemma heap_order_hprec: "key_order (cb_cmp cb) K \<Longrightarrow> heap_order (hprec md cb) K"
  using heap_order_prec [of "\<lparr>bh_trees = [], bh_head = None, bh_cbs = cb, bh_count = 0, bh_mode = md\<rparr>" K]
  by (simp add: hprec_eq bh_cmp_def)

text \<open>
  The node that \<open>binheap_get_minimum\<close> or \<open>binheap_get_maximum\<close> finds is a node of the heap, and the index is good for its
  removal. It is a first one for the precedence when the mode of the heap is the one asked for.
\<close>

lemma get_end_ok:
  assumes "bh_at cb md K m b ts" and "key_order (cb_cmp cb) K" and "ts \<noteq> []"
  shows "\<exists>a i j. get_end e m b = Some (Some a, i) \<and> j < length ts \<and> a \<in> set (bt_addrs (ts ! j)) \<and> (i = 0 \<or> i = j) \<and>
    (e = md \<longrightarrow> a = bt_root (ts ! j) \<and> (\<forall>u \<in> set ts. hprec md cb (bt_key (ts ! j)) (bt_key u)))"
proof -
  obtain H where H: "bh_forest H K m b ts" "bh_cbs H = cb" "bh_mode H = md" "head_ok H (bh_head H) ts" using assms(1) by (auto simp: bh_at_def)
  have ord: "key_order (bh_cmp H) K" using assms(2) H(2) by (simp add: bh_cmp_def)
  have f: "bm_heaps m b = Some H" "bh_trees H = roots ts" "forest_at (bm_nodes m) b None ts" "keys_in K (fr_items ts)"
    using H(1) by (simp_all add: bh_forest_def fr_ok_def)
  show ?thesis
  proof (cases "e = md")
    case True
    obtain t where t: "t \<in> set ts" "bh_head H = Some (bt_root t)" "\<forall>u \<in> set ts. HAS_PRECEDENCE H (bt_key t) (bt_key u)"
      using H(4) assms(3) by (auto simp: head_ok_def split: option.splits)
    then obtain j where j: "j < length ts" "t = ts ! j" by (auto simp: in_set_conv_nth)
    have "get_end e m b = Some (Some (bt_root t), 0)"
      using True f(1) H(3) t(2) by (cases md) (simp_all add: get_end_def binheap_get_maximum_def binheap_get_minimum_def)
    then show ?thesis using j t(3) unfolding hprec_eq [OF H(3,2)] by auto
  next
    case False
    let ?mm = "if e = BINHEAP_MODE_MAX then 0 else 1 :: int"
    obtain k where k: "k < length ts" "binheap_maxmin m b ?mm = Some (Some (bt_root (ts ! k)), k)"
      using binheap_maxmin_ok [OF f(1,2) ord f(3,4) assms(3)] by blast
    let ?fc = "if e = BINHEAP_MODE_MAX then binomial_tree_node_find_max_child else binomial_tree_node_find_min_child"
    have "\<exists>i < length (bt_kids t). ?fc m (bt_root t) = Some (Some i)" if "btree_at (bm_nodes m) b p t" "keys_in K (bt_items t)" "bt_kids t \<noteq> []" for t p
      using find_min_child_ok [OF that(1) f(1) ord that(2,3)] find_max_child_ok [OF that(1) f(1) ord that(2,3)] by auto
    moreover have "btree_at (bm_nodes m) b None (ts ! k)" "keys_in K (bt_items (ts ! k))"
      using f(3,4) k(1) forest_at_tree keys_in_tree nth_mem by blast+
    ultimately obtain a where "descend ?fc m (bt_root (ts ! k)) = Some a" "a \<in> set (bt_addrs (ts ! k))" using descend_ok [of m b K ?fc None "ts ! k"] by blast
    then show ?thesis using k f(1) H(3) False
      by (cases e; cases md) (auto simp: get_end_def binheap_get_maximum_def binheap_get_minimum_def)
  qed
qed

lemma get_end_empty: "bh_at cb md K m b [] \<Longrightarrow> \<exists>i. get_end e m b = Some (None, i)"
  by (cases e; cases md) (auto simp: bh_at_def bh_forest_def head_ok_def get_end_def binheap_get_maximum_def binheap_get_minimum_def binheap_maxmin_def
      split: option.splits)

lemma top_first:
  assumes "bh_at cb md K m b ts" and "key_order (cb_cmp cb) K" and "j < length ts" and "\<forall>u \<in> set ts. hprec md cb (bt_key (ts ! j)) (bt_key u)"
    and "x \<in># fr_items ts"
  shows "hprec md cb (bt_key (ts ! j)) (fst x)"
proof -
  note ho = heap_order_hprec [OF assms(2), of md]
  obtain u where u: "u \<in> set ts" "x \<in># bt_items u" using assms(5) by (auto simp: fr_item_iff)
  have o: "bt_ordered (hprec md cb) u" "keys_in K (fr_items ts)"
    using assms(1) u(1) by (auto simp: bh_at_def bh_forest_def fr_ok_def hprec_eq [OF refl refl, symmetric])
  then have K: "keys_in K (bt_items u)" "bt_key (ts ! j) \<in> K" using keys_in_tree keys_in_key u(1) assms(3) nth_mem by blast+
  then have "hprec md cb (bt_key u) (fst x)" "fst x \<in> K" "bt_key u \<in> K"
    using heap_order.root_first [OF ho o(1)] u(2) keys_in_key by (auto simp: keys_in_def)
  then show ?thesis using heap_order.prec_trans [OF ho K(2)] assms(4) u(1) by blast
qed

text \<open>A heap with the items \<open>M\<close>; the memory beyond the break is unused.\<close>

definition bh_holds :: "'k binheap_callbacks_t \<Rightarrow> binheap_mode_t \<Rightarrow> 'k set \<Rightarrow> nat \<Rightarrow> ('k, 'v) bh_mem \<Rightarrow> ('k \<times> 'v) multiset \<Rightarrow> bool" where
  "bh_holds cb md K b m M \<longleftrightarrow> (\<exists>ts. bh_at cb md K m b ts \<and> fr_items ts = M \<and> dom (bm_nodes m) = set (fr_addrs ts))"

definition delete_end :: "binheap_mode_t \<Rightarrow> nat \<Rightarrow> ('k, 'v) bh_mem \<Rightarrow> (int \<times> 'v option \<times> ('k, 'v) bh_mem) option" where
  "delete_end e = (if e = BINHEAP_MODE_MAX then binheap_delete_maximum else binheap_delete_minimum)"

lemma delete_end_unfold:
  "delete_end e b m = do {
     (r, idx) \<leftarrow> get_end e m b;
     case r of None \<Rightarrow> Some (- 1, None, m)
     | Some a \<Rightarrow> do { A \<leftarrow> bm_nodes m a; m \<leftarrow> binomial_tree_node_destroy a idx m; Some (0, Some (bn_value A), m) }
   }"
  by (simp add: delete_end_def get_end_def binheap_delete_maximum_def binheap_delete_minimum_def)

lemma node_alloc: "btree_at h b p t \<Longrightarrow> y \<in> set (bt_addrs t) \<Longrightarrow> h y \<noteq> None"
proof (induction t arbitrary: p)
  case (BT r k v us)
  then show ?case by (cases "y = r") auto
qed

lemma heap_alloc:
  assumes "bh_at cb md K m b ts" and "y \<in> set (fr_addrs ts)"
  shows "bm_nodes m y \<noteq> None"
proof -
  obtain t where "t \<in> set ts" "y \<in> set (bt_addrs t)" using assms(2) by (auto simp: fr_addrs_set)
  moreover from this have "btree_at (bm_nodes m) b None t" using assms(1) forest_at_tree by (auto simp: bh_at_def bh_forest_def)
  ultimately show ?thesis using node_alloc by blast
qed

lemma removed_holds:
  assumes "removed cb md K b a ts m x m'" and "dom (bm_nodes m) = set (fr_addrs ts)" and "a \<in> set (fr_addrs ts)"
  shows "\<exists>M'. bh_holds cb md K b m' M' \<and> fr_items ts = add_mset x M'"
proof -
  obtain ts' where r: "bh_at cb md K m' b ts'" "fr_items ts = add_mset x (fr_items ts')" "set (fr_addrs ts') = set (fr_addrs ts) - {a}"
    "bm_nodes m' a = None" "bh_frame b (set (fr_addrs ts)) m m'" using assms(1) by (auto simp: removed_def)
  have "bm_nodes m' y \<noteq> None \<longleftrightarrow> y \<in> set (fr_addrs ts')" for y
  proof (cases "y \<in> set (fr_addrs ts')")
    case True
    then show ?thesis using heap_alloc [OF r(1)] by blast
  next
    case False
    then have "y = a \<or> y \<notin> set (fr_addrs ts)" using r(3) by blast
    moreover have "bm_nodes m' y = None" if "y \<notin> set (fr_addrs ts)"
      using that r(5) assms(2) unfolding bh_frame_def by (metis domIff)
    ultimately have "bm_nodes m' y = None" using r(4) by auto
    then show ?thesis using False by simp
  qed
  then have "dom (bm_nodes m') = set (fr_addrs ts')" by blast
  then show ?thesis using r(1,2) by (auto simp: bh_holds_def)
qed

lemma delete_end_ok:
  assumes "bh_holds cb md K b m M" and "key_order (cb_cmp cb) K" and "M \<noteq> {#}"
  shows "\<exists>k v m' M'. delete_end e b m = Some (0, Some v, m') \<and> M = add_mset (k, v) M' \<and> bh_holds cb md K b m' M' \<and>
    (e = md \<longrightarrow> (\<forall>x \<in># M. hprec md cb k (fst x)))"
proof -
  obtain ts where ts: "bh_at cb md K m b ts" "fr_items ts = M" "dom (bm_nodes m) = set (fr_addrs ts)" using assms(1) by (auto simp: bh_holds_def)
  have ne: "ts \<noteq> []" using ts(2) assms(3) by auto
  obtain a i j where g: "get_end e m b = Some (Some a, i)" "j < length ts" "a \<in> set (bt_addrs (ts ! j))" "i = 0 \<or> i = j"
    "e = md \<longrightarrow> a = bt_root (ts ! j) \<and> (\<forall>u \<in> set ts. hprec md cb (bt_key (ts ! j)) (bt_key u))" using get_end_ok [OF ts(1) assms(2) ne, of e] by (elim exE conjE) (rule that)
  obtain m' N where d: "binomial_tree_node_destroy a i m = Some m'" "bm_nodes m a = Some N" "removed cb md K b a ts m (bn_key N, bn_value N) m'"
    using destroy_ok [OF ts(1) assms(2) g(2,3,4)] by blast
  have "a \<in> set (fr_addrs ts)" using g(2,3) by (auto simp: fr_addrs_set)
  from removed_holds [OF d(3) ts(3) this] obtain M' where M': "bh_holds cb md K b m' M'" "M = add_mset (bn_key N, bn_value N) M'" using ts(2) by auto
  have "hprec md cb (bn_key N) (fst x)" if "e = md" "x \<in># M" for x
  proof -
    have "a = bt_root (ts ! j)" "\<forall>u \<in> set ts. hprec md cb (bt_key (ts ! j)) (bt_key u)" using g(5) that(1) by auto
    moreover have "forest_at (bm_nodes m) b None ts" using ts(1) by (auto simp: bh_at_def bh_forest_def)
    then have "bm_nodes m (bt_root (ts ! j)) = Some (node_of None b (ts ! j))" using forest_at_root g(2) nth_mem by blast
    ultimately show ?thesis using top_first [OF ts(1) assms(2) g(2), of x] d(2) that(2) ts(2) by auto
  qed
  then show ?thesis using g(1) d(1,2) M'
    by - (rule exI [of _ "bn_key N"], rule exI [of _ "bn_value N"], rule exI [of _ m'], rule exI [of _ M'], simp add: delete_end_unfold)
qed

lemma delete_end_empty: "bh_holds cb md K b m {#} \<Longrightarrow> delete_end e b m = Some (- 1, None, m)"
  using get_end_empty [of cb md K m b e] by (auto simp: bh_holds_def fr_items_empty delete_end_unfold)

lemma insert_holds:
  assumes "bh_holds cb md K b m M" and "key_order (cb_cmp cb) K" and "k \<in> K" and "size M < 2147483647"
  shows "\<exists>m'. binheap_insert False b k v m = Some (0, m') \<and> bh_holds cb md K b m' (add_mset (k, v) M)"
proof -
  obtain ts where ts: "bh_at cb md K m b ts" "fr_items ts = M" "dom (bm_nodes m) = set (fr_addrs ts)" using assms(1) by (auto simp: bh_holds_def)
  have "int (size (fr_items ts)) < 2147483647" using assms(4) ts(2) by simp
  from binheap_insert_ok [OF ts(1) assms(2,3) this, of v] obtain m' ts' where i: "binheap_insert False b k v m = Some (0, m')"
    "bh_at cb md K m' b ts'" "fr_items ts' = add_mset (k, v) M" "bh_frame b (set (fr_addrs ts) \<union> {bm_brk m}) m m'"
    "set (fr_addrs ts') = insert (bm_brk m) (set (fr_addrs ts))" using ts(2) by auto
  have "y \<in> dom (bm_nodes m') \<longleftrightarrow> y \<in> set (fr_addrs ts')" for y
  proof (cases "y \<in> set (fr_addrs ts')")
    case True
    then show ?thesis using heap_alloc [OF i(2)] by blast
  next
    case False
    then have "y \<notin> set (fr_addrs ts) \<union> {bm_brk m}" using i(5) by blast
    then have "bm_nodes m' y = None" using i(4) ts(3) unfolding bh_frame_def by (metis UnI1 domIff)
    then show ?thesis using False by blast
  qed
  then have "dom (bm_nodes m') = set (fr_addrs ts')" by blast
  then show ?thesis using i(1-3) by (auto simp: bh_holds_def)
qed

lemma pick_loop_ok:
  assumes "forest_at h b p us" and "\<And>x. tr = Some x \<Longrightarrow> btree_at h b p x"
  shows "\<exists>r. pick_loop H key h (map_option bt_root tr) (roots us) = Some (map_option bt_root r) \<and> (r = tr \<or> (\<exists>u \<in> set us. r = Some u))"
  using assms
proof (induction us arbitrary: tr)
  case (Cons u us)
  have U: "h (bt_root u) = Some (node_of p b u)" "btree_at h b p u" using Cons.prems(1) by (simp_all add: bt_unfold(1))
  have *: "\<exists>r. pick_loop H key h (map_option bt_root x) (roots us) = Some (map_option bt_root r) \<and> (r = tr \<or> (\<exists>w \<in> set (u # us). r = Some w))"
    if "x = tr \<or> x = Some u" for x
    using Cons.IH [of x] Cons.prems U(2) that by auto
  show ?case
  proof (cases tr)
    case None
    then show ?thesis using * [of None] * [of "Some u"] U(1) by simp
  next
    case (Some t)
    then have "h (bt_root t) = Some (node_of p b t)" using Cons.prems(2) by (simp add: bt_unfold(1))
    then show ?thesis using * [of tr] * [of "Some u"] U(1) Some by simp
  qed
qed auto

lemma search_loop_ok:
  assumes "btree_at h b p t"
  shows "\<exists>r. search_loop H key h (Some (bt_root t)) = Some r \<and>
    (\<forall>a. r = Some a \<longrightarrow> a \<in> set (bt_addrs t) \<and> (\<exists>N. h a = Some N \<and> bh_cmp H (bn_key N) key = 0))"
  using assms
proof (induction t arbitrary: p)
  case (BT r k v ts)
  let ?t = "BT r k v ts"
  have R: "h r = Some (node_of p b ?t)" "forest_at h b (Some r) ts" using BT.prems unfolding bt_unfold(1) [of _ _ _ ?t] by simp_all
  show ?case
  proof (cases "bh_cmp H k key = 0")
    case True
    then show ?thesis using R(1) by (subst search_loop.simps) simp
  next
    case False
    obtain x where x: "pick_loop H key h None (roots ts) = Some (map_option bt_root x)" "x = None \<or> (\<exists>u \<in> set ts. x = Some u)"
      using pick_loop_ok [OF R(2), of None H key] by auto
    have step: "search_loop H key h (Some r) = search_loop H key h (map_option bt_root x)"
      using R(1) False x(1) by (subst search_loop.simps) (simp add: comp_def)
    show ?thesis
    proof (cases x)
      case None
      then show ?thesis using step by (simp add: search_loop.simps [of _ _ _ None])
    next
      case (Some u)
      then have u: "u \<in> set ts" "btree_at h b (Some r) u" using x(2) R(2) forest_at_tree by auto
      from BT.IH [OF u] show ?thesis using step Some u(1) by auto
    qed
  qed
qed

lemma delete_holds:
  assumes "bh_holds cb md K b m M" and "key_order (cb_cmp cb) K"
  shows "binheap_delete b key m = Some (- 1, None, m) \<or>
    (\<exists>k v m' M'. binheap_delete b key m = Some (0, Some v, m') \<and> M = add_mset (k, v) M' \<and> bh_holds cb md K b m' M' \<and> cb_cmp cb k key = 0)"
proof -
  obtain ts H where ts: "bh_at cb md K m b ts" "fr_items ts = M" "dom (bm_nodes m) = set (fr_addrs ts)" and H: "bh_forest H K m b ts" "bh_cbs H = cb"
    using assms(1) by (auto simp: bh_holds_def bh_at_def)
  have f: "bm_heaps m b = Some H" "bh_trees H = roots ts" "forest_at (bm_nodes m) b None ts" using H(1) by (simp_all add: bh_forest_def)
  obtain x where x: "pick_loop H key (bm_nodes m) None (roots ts) = Some (map_option bt_root x)" "x = None \<or> (\<exists>u \<in> set ts. x = Some u)"
    using pick_loop_ok [OF f(3), of None H key] by auto
  show ?thesis
  proof (cases x)
    case None
    then show ?thesis using f(1,2) x(1) by (simp add: binheap_delete_def search_loop.simps [of _ _ _ None])
  next
    case (Some u)
    then have u: "u \<in> set ts" "btree_at (bm_nodes m) b None u" using x(2) f(3) forest_at_tree by auto
    obtain r where r: "search_loop H key (bm_nodes m) (Some (bt_root u)) = Some r"
      "\<forall>a. r = Some a \<longrightarrow> a \<in> set (bt_addrs u) \<and> (\<exists>N. bm_nodes m a = Some N \<and> bh_cmp H (bn_key N) key = 0)" using search_loop_ok [OF u(2)] by blast
    show ?thesis
    proof (cases r)
      case None
      then show ?thesis using f(1,2) x(1) Some r(1) by (simp add: binheap_delete_def)
    next
      case (Some a)
      then have a: "a \<in> set (bt_addrs u)" and N: "\<exists>N. bm_nodes m a = Some N \<and> bh_cmp H (bn_key N) key = 0" using r(2) by blast+
      obtain j where j: "j < length ts" "u = ts ! j" using u(1) by (auto simp: in_set_conv_nth)
      obtain m' N where d: "binomial_tree_node_destroy a 0 m = Some m'" "bm_nodes m a = Some N" "removed cb md K b a ts m (bn_key N, bn_value N) m'"
        using destroy_ok [OF ts(1) assms(2) j(1) a [unfolded j(2)], of 0] by auto
      have "a \<in> set (fr_addrs ts)" using a u(1) by (auto simp: fr_addrs_set)
      from removed_holds [OF d(3) ts(3) this] obtain M' where M': "bh_holds cb md K b m' M'" "M = add_mset (bn_key N, bn_value N) M'" using ts(2) by auto
      have "binheap_delete b key m = Some (0, Some (bn_value N), m')"
        using f(1,2) x(1) \<open>x = Some u\<close> r(1) Some d(1,2) by (simp add: binheap_delete_def)
      then show ?thesis using M' N d(2) H(2) by (auto simp: bh_cmp_def)
    qed
  qed
qed

text \<open>\<open>binheap_minimum\<close> and \<open>binheap_maximum\<close>.\<close>

definition peek_end :: "binheap_mode_t \<Rightarrow> nat \<Rightarrow> ('k, 'v) bh_mem \<Rightarrow> (int \<times> ('k \<times> 'v) option) option" where
  "peek_end e = (if e = BINHEAP_MODE_MAX then binheap_maximum else binheap_minimum)"

lemma peek_end_unfold: "peek_end e b m = do { (r, _) \<leftarrow> get_end e m b; item_of m r }"
  by (simp add: peek_end_def get_end_def binheap_maximum_def binheap_minimum_def)

lemma bt_items_at: "btree_at h b p t \<Longrightarrow> a \<in> set (bt_addrs t) \<Longrightarrow> \<exists>N. h a = Some N \<and> (bn_key N, bn_value N) \<in># bt_items t"
proof (induction t arbitrary: p)
  case (BT r k v ts)
  show ?case
  proof (cases "a = r")
    case True
    then show ?thesis using BT.prems(1) by simp
  next
    case False
    then obtain u where u: "u \<in> set ts" "a \<in> set (bt_addrs u)" using BT.prems(2) by auto
    then obtain N where "h a = Some N" "(bn_key N, bn_value N) \<in># bt_items u" using BT.IH [OF u(1) _ u(2)] BT.prems(1) by auto
    then show ?thesis using u(1) fr_item_iff [of _ ts] by (auto simp: fr_items_def)
  qed
qed

lemma peek_end_ok:
  assumes "bh_holds cb md K b m M" and "key_order (cb_cmp cb) K" and "M \<noteq> {#}"
  shows "\<exists>x \<in># M. peek_end e b m = Some (0, Some x) \<and> (e = md \<longrightarrow> (\<forall>y \<in># M. hprec md cb (fst x) (fst y)))"
proof -
  obtain ts where ts: "bh_at cb md K m b ts" "fr_items ts = M" using assms(1) by (auto simp: bh_holds_def)
  have ne: "ts \<noteq> []" using ts(2) assms(3) by auto
  have f: "forest_at (bm_nodes m) b None ts" using ts(1) by (auto simp: bh_at_def bh_forest_def)
  obtain a i j where g: "get_end e m b = Some (Some a, i)" "j < length ts" "a \<in> set (bt_addrs (ts ! j))"
    "e = md \<longrightarrow> a = bt_root (ts ! j) \<and> (\<forall>u \<in> set ts. hprec md cb (bt_key (ts ! j)) (bt_key u))"
    using get_end_ok [OF ts(1) assms(2) ne, of e] by (elim exE conjE) (rule that)
  have t: "ts ! j \<in> set ts" "btree_at (bm_nodes m) b None (ts ! j)" using g(2) f forest_at_tree nth_mem by blast+
  obtain N where N: "bm_nodes m a = Some N" "(bn_key N, bn_value N) \<in># bt_items (ts ! j)" using bt_items_at [OF t(2) g(3)] by blast
  have "hprec md cb (bn_key N) (fst y)" if "e = md" "y \<in># M" for y
    using top_first [OF ts(1) assms(2) g(2), of y] g(4) that ts(2) forest_at_root [OF f t(1)] N(1) by auto
  moreover have "(bn_key N, bn_value N) \<in># M" using N(2) t(1) ts(2) fr_item_iff by blast
  ultimately show ?thesis using g(1) N(1) by (intro bexI [of _ "(bn_key N, bn_value N)"]) (simp_all add: peek_end_unfold item_of_def)
qed

lemma peek_end_empty: "bh_holds cb md K b m {#} \<Longrightarrow> peek_end e b m = Some (- 1, None)"
  using get_end_empty [of cb md K m b e] by (auto simp: bh_holds_def fr_items_empty peek_end_unfold item_of_def)

lemma count_holds:
  assumes "bh_holds cb md K b m M"
  shows "binheap_count b m = Some (size M)"
proof -
  obtain H where "bm_heaps m b = Some H" "bh_count H = int (size M)" "bh_count H \<le> INT_MAX"
    using assms by (auto simp: bh_holds_def bh_at_def bh_forest_def)
  then show ?thesis by (simp add: binheap_count_def)
qed

lemma bh_create_holds:
  assumes "bm_nodes m = Map.empty"
  shows "\<exists>b m'. binheap_create False cb md m = (Some b, m') \<and> bh_holds cb md K b m' {#}"
  using assms by (auto simp: binheap_create_def bh_holds_def bh_at_def bh_forest_def fr_ok_def head_ok_def intro!: exI [of _ "[]"])

lemma destroy_nodes_ok:
  assumes "bh_holds cb md K b m M" and "key_order (cb_cmp cb) K"
  shows "\<exists>m'. destroy_nodes b m = Some m' \<and> bh_holds cb md K b m' {#}"
  using assms(1)
proof (induction "size M" arbitrary: M m)
  case 0
  then have "M = {#}" by simp
  then have at: "bh_at cb md K m b []" using 0 by (auto simp: bh_holds_def fr_items_empty)
  then obtain H i where "bm_heaps m b = Some H" "bh_mode H = md" "get_end md m b = Some (None, i)" using get_end_empty [OF at, of md]
    by (auto simp: bh_at_def bh_forest_def)
  then have "binheap_top m b = Some None" by (cases md) (simp_all add: binheap_top_def get_end_def)
  then show ?case using 0 \<open>M = {#}\<close> by (subst destroy_nodes.simps) simp
next
  case (Suc n)
  obtain ts where ts: "bh_at cb md K m b ts" "fr_items ts = M" "dom (bm_nodes m) = set (fr_addrs ts)" using Suc.prems by (auto simp: bh_holds_def)
  have ne: "ts \<noteq> []" using ts(2) Suc.hyps(2) by auto
  obtain H where H: "bm_heaps m b = Some H" "bh_mode H = md" using ts(1) by (auto simp: bh_at_def bh_forest_def)
  obtain a i j where g: "get_end md m b = Some (Some a, i)" "j < length ts" "a \<in> set (bt_addrs (ts ! j))"
    using get_end_ok [OF ts(1) assms(2) ne, of md] by (elim exE conjE) (rule that)
  obtain m1 N where d: "binomial_tree_node_destroy a 0 m = Some m1" "removed cb md K b a ts m (bn_key N, bn_value N) m1" "bm_nodes m a = Some N"
    using destroy_ok [OF ts(1) assms(2) g(2,3), of 0] by auto
  have "a \<in> set (fr_addrs ts)" using g(2,3) by (auto simp: fr_addrs_set)
  from removed_holds [OF d(2) ts(3) this] obtain M' where M': "bh_holds cb md K b m1 M'" "M = add_mset (bn_key N, bn_value N) M'" using ts(2) by auto
  then obtain m' where "destroy_nodes b m1 = Some m'" "bh_holds cb md K b m' {#}" using Suc.hyps(1) [of M' m1] Suc.hyps(2) by auto
  moreover have "binheap_top m b = Some (Some a)" using g(1) H by (cases md) (simp_all add: binheap_top_def get_end_def)
  ultimately show ?case using d(1) by (subst destroy_nodes.simps) simp
qed

section \<open>The contract\<close>

datatype ('k, 'v) heap_call = H_insert 'k 'v | H_first | H_delete_first | H_delete_last | H_delete_key 'k | H_count
datatype ('k, 'v) heap_answer = A_code int | A_item int "('k \<times> 'v) option" | A_value int "'v option" | A_count nat

text \<open>
  What a heap with the items \<open>M\<close> may answer, and the items it has afterwards. Among items with keys of the same precedence
  the choice is free; \<open>H_delete_last\<close> may remove any item, and \<open>H_delete_key\<close> may fail to find a key.
\<close>

fun heap_ok :: "('k \<Rightarrow> 'k \<Rightarrow> bool) \<Rightarrow> ('k \<Rightarrow> 'k \<Rightarrow> bool) \<Rightarrow> ('k, 'v) heap_call \<Rightarrow> ('k, 'v) heap_answer \<Rightarrow> ('k \<times> 'v) multiset \<Rightarrow> ('k \<times> 'v) multiset \<Rightarrow> bool" where
  "heap_ok before same (H_insert k v) (A_code c) M M' \<longleftrightarrow> c = 0 \<and> M' = add_mset (k, v) M"
| "heap_ok before same H_first (A_item c r) M M' \<longleftrightarrow> M' = M \<and> (case r of None \<Rightarrow> c = - 1 \<and> M = {#}
     | Some x \<Rightarrow> c = 0 \<and> x \<in># M \<and> (\<forall>y \<in># M. before (fst x) (fst y)))"
| "heap_ok before same H_delete_first (A_value c r) M M' \<longleftrightarrow> (case r of None \<Rightarrow> c = - 1 \<and> M = {#} \<and> M' = {#}
     | Some v \<Rightarrow> c = 0 \<and> (\<exists>k. M = add_mset (k, v) M' \<and> (\<forall>y \<in># M. before k (fst y))))"
| "heap_ok before same H_delete_last (A_value c r) M M' \<longleftrightarrow> (case r of None \<Rightarrow> c = - 1 \<and> M = {#} \<and> M' = {#}
     | Some v \<Rightarrow> c = 0 \<and> (\<exists>k. M = add_mset (k, v) M'))"
| "heap_ok before same (H_delete_key k) (A_value c r) M M' \<longleftrightarrow> (case r of None \<Rightarrow> c = - 1 \<and> M' = M
     | Some v \<Rightarrow> c = 0 \<and> (\<exists>k'. same k' k \<and> M = add_mset (k', v) M'))"
| "heap_ok before same H_count (A_count n) M M' \<longleftrightarrow> n = size M \<and> M' = M"
| "heap_ok before same _ _ M M' \<longleftrightarrow> False"

fun heap_oks :: "('k \<Rightarrow> 'k \<Rightarrow> bool) \<Rightarrow> ('k \<Rightarrow> 'k \<Rightarrow> bool) \<Rightarrow> ('k, 'v) heap_call list \<Rightarrow> ('k, 'v) heap_answer list \<Rightarrow>
  ('k \<times> 'v) multiset \<Rightarrow> ('k \<times> 'v) multiset \<Rightarrow> bool" where
  "heap_oks before same [] [] M M' \<longleftrightarrow> M' = M"
| "heap_oks before same (c # cs) (a # as) M M' \<longleftrightarrow> (\<exists>N. heap_ok before same c a M N \<and> heap_oks before same cs as N M')"
| "heap_oks before same _ _ M M' \<longleftrightarrow> False"

definition call_keys :: "'k set \<Rightarrow> ('k, 'v) heap_call \<Rightarrow> bool" where
  "call_keys K c \<longleftrightarrow> (case c of H_insert k v \<Rightarrow> k \<in> K | _ \<Rightarrow> True)"

lemma heap_ok_size: "heap_ok before same c a M M' \<Longrightarrow> size M' \<le> Suc (size M)"
  by (cases "(before, same, c, a, M, M')" rule: heap_ok.cases) (auto split: option.splits)

locale item_heap =
  fixes exec :: "('k, 'v) heap_call \<Rightarrow> 's \<Rightarrow> (('k, 'v) heap_answer \<times> 's) option"
    and holds :: "'s \<Rightarrow> ('k \<times> 'v) multiset \<Rightarrow> bool"
    and before :: "'k \<Rightarrow> 'k \<Rightarrow> bool"
    and same :: "'k \<Rightarrow> 'k \<Rightarrow> bool"
    and K :: "'k set"
    and limit :: nat
  assumes exec_law: "holds s M \<Longrightarrow> call_keys K c \<Longrightarrow> size M < limit \<Longrightarrow>
    \<exists>a s' M'. exec c s = Some (a, s') \<and> holds s' M' \<and> heap_ok before same c a M M'"
begin

lemma run_law:
  assumes "holds s M" and "\<forall>c \<in> set cs. call_keys K c" and "size M + length cs \<le> limit"
  shows "\<exists>as s' M'. calls_run exec cs s = Some (as, s') \<and> holds s' M' \<and> heap_oks before same cs as M M'"
  using assms
proof (induction cs arbitrary: s M)
  case (Cons c cs)
  then obtain a s1 M1 where 1: "exec c s = Some (a, s1)" "holds s1 M1" "heap_ok before same c a M M1" using exec_law [of s M c] by auto
  then have "size M1 + length cs \<le> limit" using heap_ok_size [OF 1(3)] Cons.prems(3) by simp
  then obtain as s' M' where "calls_run exec cs s1 = Some (as, s')" "holds s' M'" "heap_oks before same cs as M1 M'"
    using Cons.IH [OF 1(2)] Cons.prems(2) by auto
  then show ?case using 1 by auto
qed simp

text \<open>A client that takes all items out gets them in the order of their precedence.\<close>

lemma drain_sorted:
  assumes "holds s M" and "n = size M" and "n < limit"
  shows "\<exists>ks vs s'. calls_run exec (replicate n H_delete_first) s = Some (map (\<lambda>v. A_value 0 (Some v)) vs, s') \<and> holds s' {#} \<and>
    length ks = length vs \<and> mset (zip ks vs) = M \<and> sorted_wrt before ks"
  using assms
proof (induction n arbitrary: s M)
  case 0
  then show ?case by (intro exI [of _ "[]"] exI [of _ s]) simp
next
  case (Suc n)
  then obtain a s1 M1 where 1: "exec H_delete_first s = Some (a, s1)" "holds s1 M1" "heap_ok before same H_delete_first a M M1"
    using exec_law [of s M H_delete_first] by (auto simp: call_keys_def)
  then obtain k v where 2: "a = A_value 0 (Some v)" "M = add_mset (k, v) M1" "\<forall>y \<in># M. before k (fst y)"
    using Suc.prems(2) by (cases a) (auto split: option.splits)
  then obtain ks vs s' where 3: "calls_run exec (replicate n H_delete_first) s1 = Some (map (\<lambda>v. A_value 0 (Some v)) vs, s')" "holds s' {#}"
    "length ks = length vs" "mset (zip ks vs) = M1" "sorted_wrt before ks" using Suc.IH [of s1 M1] 1(2) Suc.prems by auto
  have "before k k'" if k': "k' \<in> set ks" for k'
  proof -
    from k' obtain i where "i < length ks" "k' = ks ! i" by (auto simp: in_set_conv_nth)
    then have "(k', vs ! i) \<in> set (zip ks vs)" using 3(3) by (auto simp: set_zip)
    then have "(k', vs ! i) \<in># M" using 3(4) 2(2) by (metis insert_iff set_mset_add_mset_insert set_mset_mset)
    then show ?thesis using 2(3) by fastforce
  qed
  then show ?case using 1(1) 2 3 by (intro exI [of _ "k # ks"] exI [of _ "v # vs"] exI [of _ s']) simp
qed

end

text \<open>The operations of \<open>binheap.c\<close> behind the contract; the first item is the one that the mode of the heap asks for.\<close>

definition bh_exec :: "binheap_mode_t \<Rightarrow> nat \<Rightarrow> ('k, 'v) heap_call \<Rightarrow> ('k, 'v) bh_mem \<Rightarrow> (('k, 'v) heap_answer \<times> ('k, 'v) bh_mem) option" where
  "bh_exec md b c m = (case c of
     H_insert k v \<Rightarrow> map_option (\<lambda>(c, m). (A_code c, m)) (binheap_insert False b k v m)
   | H_first \<Rightarrow> map_option (\<lambda>(c, r). (A_item c r, m)) (if md = BINHEAP_MODE_MAX then binheap_maximum b m else binheap_minimum b m)
   | H_delete_first \<Rightarrow> map_option (\<lambda>(c, r, m). (A_value c r, m))
       (if md = BINHEAP_MODE_MAX then binheap_delete_maximum b m else binheap_delete_minimum b m)
   | H_delete_last \<Rightarrow> map_option (\<lambda>(c, r, m). (A_value c r, m))
       (if md = BINHEAP_MODE_MAX then binheap_delete_minimum b m else binheap_delete_maximum b m)
   | H_delete_key k \<Rightarrow> map_option (\<lambda>(c, r, m). (A_value c r, m)) (binheap_delete b k m)
   | H_count \<Rightarrow> map_option (\<lambda>n. (A_count n, m)) (binheap_count b m))"

lemma bh_exec_ends:
  "bh_exec md b H_first m = map_option (\<lambda>(c, r). (A_item c r, m)) (peek_end md b m)"
  "bh_exec md b H_delete_first m = map_option (\<lambda>(c, r, m). (A_value c r, m)) (delete_end md b m)"
  "bh_exec md b H_delete_last m = map_option (\<lambda>(c, r, m). (A_value c r, m)) (delete_end (opposite md) b m)"
  by (simp_all add: bh_exec_def peek_end_def delete_end_def)

lemma bh_item_heap:
  assumes "key_order (cb_cmp cb) K"
  shows "item_heap (bh_exec md b :: ('k, 'v) heap_call \<Rightarrow> _) (bh_holds cb md K b) (hprec md cb) (\<lambda>k k'. cb_cmp cb k k' = 0) K 2147483647"
proof
  fix m :: "('k, 'v) bh_mem" and M and c :: "('k, 'v) heap_call"
  assume m: "bh_holds cb md K b m M" and c: "call_keys K c" and s: "size M < 2147483647"
  note ends = peek_end_ok [OF m assms] delete_end_ok [OF m assms]
  show "\<exists>a m' M'. bh_exec md b c m = Some (a, m') \<and> bh_holds cb md K b m' M' \<and> heap_ok (hprec md cb) (\<lambda>k k'. cb_cmp cb k k' = 0) c a M M'"
  proof (cases c)
    case (H_insert k v)
    then show ?thesis using insert_holds [OF m assms _ s, of k v] c by (auto simp: bh_exec_def call_keys_def)
  next
    case H_first
    show ?thesis
    proof (cases "M = {#}")
      case True
      then show ?thesis using peek_end_empty m H_first by (fastforce simp: bh_exec_ends)
    next
      case False
      then obtain x where "x \<in># M" "peek_end md b m = Some (0, Some x)" "\<forall>y \<in># M. hprec md cb (fst x) (fst y)" using ends(1) [of md] by auto
      then show ?thesis using m H_first by (intro exI [of _ "A_item 0 (Some x)"] exI [of _ m] exI [of _ M]) (simp add: bh_exec_ends)
    qed
  next
    case H_delete_first
    show ?thesis
    proof (cases "M = {#}")
      case True
      then show ?thesis using delete_end_empty m H_delete_first by (fastforce simp: bh_exec_ends)
    next
      case False
      then obtain k v m' M' where "delete_end md b m = Some (0, Some v, m')" "M = add_mset (k, v) M'" "bh_holds cb md K b m' M'"
        "\<forall>x \<in># M. hprec md cb k (fst x)" using ends(2) [of md] by auto
      then show ?thesis using H_delete_first by (intro exI [of _ "A_value 0 (Some v)"] exI [of _ m'] exI [of _ M']) (auto simp: bh_exec_ends)
    qed
  next
    case H_delete_last
    show ?thesis
    proof (cases "M = {#}")
      case True
      then show ?thesis using delete_end_empty m H_delete_last by (fastforce simp: bh_exec_ends)
    next
      case False
      then obtain k v m' M' where "delete_end (opposite md) b m = Some (0, Some v, m')" "M = add_mset (k, v) M'" "bh_holds cb md K b m' M'"
        using ends(2) [of "opposite md"] by blast
      then show ?thesis using H_delete_last by (intro exI [of _ "A_value 0 (Some v)"] exI [of _ m'] exI [of _ M']) (auto simp: bh_exec_ends)
    qed
  next
    case (H_delete_key k)
    from delete_holds [OF m assms, of k] show ?thesis
    proof
      assume "binheap_delete b k m = Some (- 1, None, m)"
      then show ?thesis using m H_delete_key by (intro exI [of _ "A_value (- 1) None"] exI [of _ m] exI [of _ M]) (simp add: bh_exec_def)
    next
      assume "\<exists>k' v m' M'. binheap_delete b k m = Some (0, Some v, m') \<and> M = add_mset (k', v) M' \<and> bh_holds cb md K b m' M' \<and> cb_cmp cb k' k = 0"
      then obtain k' v m' M' where "binheap_delete b k m = Some (0, Some v, m')" "M = add_mset (k', v) M'" "bh_holds cb md K b m' M'" "cb_cmp cb k' k = 0" by blast
      then show ?thesis using H_delete_key by (intro exI [of _ "A_value 0 (Some v)"] exI [of _ m'] exI [of _ M']) (auto simp: bh_exec_def)
    qed
  next
    case H_count
    then show ?thesis using m count_holds [OF m] by (intro exI [of _ "A_count (size M)"] exI [of _ m] exI [of _ M]) (simp add: bh_exec_def)
  qed
qed

section \<open>Keys with an order\<close>

text \<open>The heaps with the callbacks for 16-bit keys.\<close>

lemma callbacks_order_16:
  "key_order (cb_cmp (binheap_keys_callbacks Int16)) small_keys" "key_order (cb_cmp (binheap_keys_callbacks Uint16)) small_keys"
  by (simp_all add: binheap_keys_callbacks_def key_order_16)

interpretation prec_int16: heap_order "hprec md (binheap_keys_callbacks Int16)" small_keys
  by (rule heap_order_hprec) (rule callbacks_order_16)

interpretation heap_int16: item_heap "bh_exec md b" "bh_holds (binheap_keys_callbacks Int16) md small_keys b" "hprec md (binheap_keys_callbacks Int16)"
  "\<lambda>k k'. cb_cmp (binheap_keys_callbacks Int16) k k' = 0" small_keys 2147483647
  by (rule bh_item_heap) (rule callbacks_order_16)

text \<open>The default callbacks order the keys by their length and then byte by byte.\<close>

lemma callbacks_order_default: "key_order (cb_cmp keys_callbacks_default) small_keys"
proof (unfold_locales, goal_cases)
  case (1 x y)
  then show ?case using memcmp_flip [of x y] size_difference [of x y] size_difference [of y x]
    by (auto simp: keys_callbacks_default_def cmp_keys_default_def small_keys_def)
next
  case (2 x y z)
  then show ?case using memcmp_trans [of x y z] size_difference [of x y] size_difference [of y z] size_difference [of x z]
    by (auto simp: keys_callbacks_default_def cmp_keys_default_def small_keys_def split: if_splits)
qed

interpretation heap_default: item_heap "bh_exec md b" "bh_holds keys_callbacks_default md small_keys b" "hprec md keys_callbacks_default"
  "\<lambda>k k'. cb_cmp keys_callbacks_default k k' = 0" small_keys 2147483647
  by (rule bh_item_heap) (rule callbacks_order_default)

text \<open>
  The callbacks for \<open>uint64_t\<close> order the keys whose values fit an \<open>int\<close>.
\<close>

definition prio_keys :: "byte list set" where
  "prio_keys = {k. length k = 8 \<and> key_value Uint64 k < 2147483648}"

lemma cmp_prio:
  assumes "x \<in> prio_keys" and "y \<in> prio_keys"
  shows "cb_cmp (binheap_keys_callbacks Uint64) x y = key_value Uint64 x - key_value Uint64 y"
proof -
  have pos: "0 \<le> key_value Uint64 k" for k using le_bytes_bounds by (simp add: key_value_def)
  have "- 2147483648 \<le> key_value Uint64 x - key_value Uint64 y" "key_value Uint64 x - key_value Uint64 y < 2147483648"
    using assms pos [of x] pos [of y] unfolding prio_keys_def mem_Collect_eq by linarith+
  then have "signed_take_bit 31 (key_value Uint64 x - key_value Uint64 y) = key_value Uint64 x - key_value Uint64 y"
    by (simp add: signed_take_bit_int_eq_self_iff)
  then show ?thesis using assms
    by (simp add: prio_keys_def binheap_keys_callbacks_def cmp_keys_def cmp_keys_type_def type_size_def key_difference_def)
qed

lemma callbacks_order_prio: "key_order (cb_cmp (binheap_keys_callbacks Uint64)) prio_keys"
  by unfold_locales (simp_all add: cmp_prio)

interpretation heap_prio: item_heap "bh_exec md b" "bh_holds (binheap_keys_callbacks Uint64) md prio_keys b" "hprec md (binheap_keys_callbacks Uint64)"
  "\<lambda>k k'. cb_cmp (binheap_keys_callbacks Uint64) k k' = 0" prio_keys 2147483647
  by (rule bh_item_heap) (rule callbacks_order_prio)

section \<open>Properties\<close>

definition bh_empty :: "('k, 'v) bh_mem" where
  "bh_empty = \<lparr>bm_nodes = Map.empty, bm_heaps = Map.empty, bm_brk = 0\<rparr>"

text \<open>
  \<open>C8\<close> A heap is a priority queue. For a comparator that orders the keys in use, every sequence of insertions, queries and
  removals on a new heap runs without an invalid access and gives answers that the contract \<open>heap_ok\<close> allows: the
  minimum of a heap in mode MIN and the maximum of a heap in mode MAX are first among all the items, a removal takes out exactly the item it
  returns, and the count is the number of items. \<open>binheap_destroy\<close> then releases every node.
\<close>

theorem binheap_refines_priority_queue:
  fixes calls :: "('k, 'v) heap_call list"
  assumes "key_order (cb_cmp cb) K" and "\<forall>c \<in> set calls. call_keys K c" and "length calls < 2147483647"
  shows "\<exists>b m as m' M m''. binheap_create False cb md bh_empty = (Some b, m) \<and> calls_run (bh_exec md b) calls m = Some (as, m') \<and>
    heap_oks (hprec md cb) (\<lambda>k k'. cb_cmp cb k k' = 0) calls as {#} M \<and>
    binheap_destroy b m' = Some m'' \<and> bm_nodes m'' = Map.empty \<and> bm_heaps m'' b = None"
proof -
  obtain b and m :: "('k, 'v) bh_mem" where m: "binheap_create False cb md bh_empty = (Some b, m)" "bh_holds cb md K b m {#}"
    using bh_create_holds [of bh_empty cb md K] by (auto simp: bh_empty_def)
  from item_heap.run_law [OF bh_item_heap [OF assms(1)] m(2) assms(2)] assms(3) obtain as m' M where
    r: "calls_run (bh_exec md b) calls m = Some (as, m')" "bh_holds cb md K b m' M" "heap_oks (hprec md cb) (\<lambda>k k'. cb_cmp cb k k' = 0) calls as {#} M"
    by fastforce
  obtain m1 where d: "destroy_nodes b m' = Some m1" "bh_holds cb md K b m1 {#}" using destroy_nodes_ok [OF r(2) assms(1)] by blast
  then have "bm_nodes m1 = Map.empty" by (auto simp: bh_holds_def fr_items_empty)
  then show ?thesis using m(1) r(1,3) d(1)
    by - (rule exI [of _ b], rule exI [of _ m], rule exI [of _ as], rule exI [of _ m'], rule exI [of _ M],
        rule exI [of _ "m1\<lparr>bm_heaps := (bm_heaps m1)(b := None)\<rparr>"], simp add: binheap_destroy_def)
qed

lemma inserts_items: "heap_oks before same (map (\<lambda>(k, v). H_insert k v) xs) as M M' \<Longrightarrow> M' = M + mset xs"
proof (induction xs arbitrary: as M)
  case Nil
  then show ?case by (cases as) auto
next
  case (Cons x xs)
  then obtain a bs where "as = a # bs" by (cases as) (auto split: prod.splits)
  then show ?case using Cons.prems by (cases x; cases a) (auto dest!: Cons.IH)
qed

text \<open>
  \<open>C40\<close> Sorting with a heap: to insert any items into a new heap and to take the first one out again as often gives back
  all the values, each with its key, in the order of the keys: ascending from a heap in mode MIN and descending from one in mode MAX.
\<close>

theorem binheap_sorts:
  fixes xs :: "('k \<times> 'v) list"
  assumes "key_order (cb_cmp cb) K" and "\<forall>x \<in> set xs. fst x \<in> K" and "length xs < 1073741823"
  shows "\<exists>b m as ks vs m'. binheap_create False cb md bh_empty = (Some b, m) \<and>
    calls_run (bh_exec md b) (map (\<lambda>(k, v). H_insert k v) xs @ replicate (length xs) H_delete_first) m = Some (as @ map (\<lambda>v. A_value 0 (Some v)) vs, m') \<and>
    length as = length xs \<and> length vs = length xs \<and> mset (zip ks vs) = mset xs \<and> sorted_wrt (hprec md cb) ks \<and> bm_nodes m' = Map.empty"
proof -
  note heap = bh_item_heap [OF assms(1)]
  obtain b and m :: "('k, 'v) bh_mem" where m: "binheap_create False cb md bh_empty = (Some b, m)" "bh_holds cb md K b m {#}"
    using bh_create_holds [of bh_empty cb md K] by (auto simp: bh_empty_def)
  let ?cs = "map (\<lambda>(k, v). H_insert k v) xs"
  have "\<forall>c \<in> set ?cs. call_keys K c" using assms(2) by (auto simp: call_keys_def)
  from item_heap.run_law [OF heap m(2) this] assms(3) obtain as m1 M where
    r: "calls_run (bh_exec md b) ?cs m = Some (as, m1)" "bh_holds cb md K b m1 M" "heap_oks (hprec md cb) (\<lambda>k k'. cb_cmp cb k k' = 0) ?cs as {#} M"
    by fastforce
  have M: "M = mset xs" using inserts_items [OF r(3)] by simp
  have "length xs = size M" "length xs < 2147483647" using M assms(3) by simp_all
  from item_heap.drain_sorted [OF heap r(2) this] obtain ks vs m' where
    d: "calls_run (bh_exec md b) (replicate (length xs) H_delete_first) m1 = Some (map (\<lambda>v. A_value 0 (Some v)) vs, m')" "bh_holds cb md K b m' {#}"
      "length ks = length vs" "mset (zip ks vs) = M" "sorted_wrt (hprec md cb) ks" by blast
  have "length vs = length xs" using arg_cong [OF d(4), of size] d(3) M by simp
  moreover have "length as = length xs" using calls_run_length [OF r(1)] by simp
  moreover have "bm_nodes m' = Map.empty" using d(2) by (auto simp: bh_holds_def fr_items_empty)
  ultimately show ?thesis using m(1) r(1) d M
    by - (rule exI [of _ b], rule exI [of _ m], rule exI [of _ as], rule exI [of _ ks], rule exI [of _ vs], rule exI [of _ m'], simp add: calls_run_append)
qed

text \<open>The hypotheses of the two theorems hold for heaps with 16-bit keys.\<close>

theorem binheap_refines_priority_queue_witness:
  "\<exists>b m a1 a2 a3 m' M. binheap_create False (binheap_keys_callbacks Int16) BINHEAP_MODE_MIN bh_empty = (Some b, m) \<and>
    calls_run (bh_exec BINHEAP_MODE_MIN b) [H_insert [3, 0] (7 :: nat), H_delete_first, H_count] m = Some ([a1, a2, a3], m') \<and>
    a1 = A_code 0 \<and> a2 = A_value 0 (Some 7) \<and> a3 = A_count 0"
proof -
  have "\<forall>c \<in> set [H_insert [3, 0] (7 :: nat), H_delete_first, H_count]. call_keys small_keys c" "length [H_insert [3, 0] (7 :: nat), H_delete_first, H_count] < 2147483647"
    by (simp_all add: call_keys_def small_keys_def)
  from binheap_refines_priority_queue [OF callbacks_order_16(1) this, of BINHEAP_MODE_MIN] obtain b m as m' M where
    r: "binheap_create False (binheap_keys_callbacks Int16) BINHEAP_MODE_MIN bh_empty = (Some b, m)"
      "calls_run (bh_exec BINHEAP_MODE_MIN b) [H_insert [3, 0] (7 :: nat), H_delete_first, H_count] m = Some (as, m')"
      "heap_oks (hprec BINHEAP_MODE_MIN (binheap_keys_callbacks Int16)) (\<lambda>k k'. cb_cmp (binheap_keys_callbacks Int16) k k' = 0)
         [H_insert [3, 0] (7 :: nat), H_delete_first, H_count] as {#} M" by blast
  from calls_run_length [OF r(2)] obtain a1 a2 a3 where as: "as = [a1, a2, a3]" by (auto simp: length_Suc_conv numeral_3_eq_3)
  have "a1 = A_code 0 \<and> a2 = A_value 0 (Some 7) \<and> a3 = A_count 0"
    using r(3) unfolding as by (cases a1; cases a2; cases a3) (auto split: option.splits)
  then show ?thesis using r(1,2) unfolding as by blast
qed

definition sort_input :: "(byte list \<times> nat) list" where
  "sort_input = [([3, 0], 1), ([9, 0], 2)]"

theorem binheap_sorts_witness:
  "\<exists>b m as ks vs m'. binheap_create False (binheap_keys_callbacks Int16) BINHEAP_MODE_MAX bh_empty = (Some b, m) \<and>
    calls_run (bh_exec BINHEAP_MODE_MAX b) (map (\<lambda>(k, v). H_insert k v) sort_input @ replicate (length sort_input) H_delete_first) m
      = Some (as @ map (\<lambda>v. A_value 0 (Some v)) vs, m') \<and>
    mset (zip ks vs) = {#([3, 0], 1), ([9, 0], 2)#} \<and> sorted_wrt (hprec BINHEAP_MODE_MAX (binheap_keys_callbacks Int16)) ks"
proof -
  have h: "\<forall>x \<in> set sort_input. fst x \<in> small_keys" "length sort_input < 1073741823" by (simp_all add: sort_input_def small_keys_def)
  have i: "mset sort_input = {#([3, 0], 1), ([9, 0], 2)#}" by (simp add: sort_input_def)
  from binheap_sorts [OF callbacks_order_16(1) h, of BINHEAP_MODE_MAX] show ?thesis unfolding i by blast
qed

section \<open>Where the operations fall short\<close>

text \<open>Evaluations on heaps with whole numbers as keys, each with the number as its value.\<close>

definition int_cbs :: "int binheap_callbacks_t" where
  "int_cbs = \<lparr>cb_cmp = (-), cb_incr = (\<lambda>k i. Some (k + i)), cb_decr = (\<lambda>k i. Some (k - i))\<rparr>"

definition filled :: "binheap_mode_t \<Rightarrow> int list \<Rightarrow> (int, int) bh_mem option" where
  "filled md ks = map_option snd (calls_run (bh_exec md 0) (map (\<lambda>k. H_insert k k) ks) (snd (binheap_create False int_cbs md bh_empty)))"

text \<open>The minimum of a heap in mode MAX is searched below the smallest root only.\<close>

lemma minimum_in_max_mode: "Option.bind (filled BINHEAP_MODE_MAX [1, 10, 5]) (binheap_minimum 0) = Some (0, Some (5, 5))"
  by code_simp

text \<open>\<open>binheap_delete\<close> follows one path and does not find the key 4.\<close>

lemma delete_misses_key: "Option.bind (filled BINHEAP_MODE_MIN [1, 4, 3]) (\<lambda>m. map_option fst (binheap_delete 0 4 m)) = Some (- 1)"
  by code_simp

text \<open>An increased minimum stays at the top.\<close>

lemma increased_minimum_stays:
  "Option.bind (filled BINHEAP_MODE_MIN [1, 2]) (\<lambda>m. Option.bind (binheap_increase_minimum 0 5 m) (binheap_minimum 0)) = Some (0, Some (6, 1))"
  by code_simp

text \<open>The default callback changes the key only where a byte overflows, and does not store the carry.\<close>

lemma incr_default_loses: "incr_key_default [5] 1 = Some [5]" "incr_key_default [5, 255] 1 = Some [5, 0]"
  by code_simp+

text \<open>
  The nodes of a merged heap still point to the heaps they come from: a removal changes the list and the count of the old
  heap, and the next access to the new one reads a released node.
\<close>

definition merged :: "(nat option \<times> (int, int) bh_mem) option" where
  "merged = do {
     m \<leftarrow> filled BINHEAP_MODE_MIN [1];
     let (b, m) = binheap_create False int_cbs BINHEAP_MODE_MIN m;
     b \<leftarrow> b;
     (_, m) \<leftarrow> binheap_insert False b 2 2 m;
     binheap_merge False 0 b m
   }"

lemma merged_heap_breaks:
  "Option.bind merged (\<lambda>(b, m). Option.bind b (\<lambda>b. map_option (\<lambda>(c, v, m). (c, v, binheap_count b m, binheap_minimum b m)) (binheap_delete_minimum b m)))
     = Some (0, Some 1, Some 2, None)"
  by code_simp

end
