(* ===== verification/Pqueue.thy ===== *)
theory Pqueue
  imports Binheap_Pq
begin

text \<open>
  Model of \<open>src/src/pqueue.c\<close>: bounded priority queues on the heaps of \<open>binheap.c\<close>, and what they promise.
  An item of a queue is a cell of its own, with the value and the priority; the heap holds the address of the cell under
  the eight bytes of the priority. Values are addresses as well, which the queue never follows. The mutex serialises the
  operations and is not part of the state; the calls of the release callback are recorded in \<open>pq_freed\<close>.
\<close>

section \<open>Data\<close>

datatype pqueue_mode_t = PQUEUE_MODE_HIGHEST | PQUEUE_MODE_LOWEST

record pqueue_item_t =
  pi_value :: nat
  pi_prio :: "64 word"

record pqueue_t =
  pq_mem :: "(byte list, nat) bh_mem"
  pq_heap :: nat
  pq_items :: "nat \<rightharpoonup> pqueue_item_t"
  pq_brk :: nat
  pq_max_size :: nat
  pq_free_cb :: bool
  pq_mode :: pqueue_mode_t
  pq_freed :: "nat list"

definition prio_key :: "64 word \<Rightarrow> byte list" where
  "prio_key p = le_encode 8 (uint p)"

section \<open>Operations\<close>

text \<open>\<open>brk\<close> is the first address for items; \<open>fail\<close> says that the allocation of the descriptor fails.\<close>

definition pqueue_create :: "bool \<Rightarrow> nat \<Rightarrow> pqueue_mode_t \<Rightarrow> nat \<Rightarrow> bool \<Rightarrow> pqueue_t option" where
  "pqueue_create fail brk mode siz cb =
     (if fail then None
      else case binheap_create False (binheap_keys_callbacks Uint64)
                  (if mode = PQUEUE_MODE_HIGHEST then BINHEAP_MODE_MAX else BINHEAP_MODE_MIN)
                  \<lparr>bm_nodes = Map.empty, bm_heaps = Map.empty, bm_brk = 0\<rparr> of
        (b, m) \<Rightarrow> (case b of None \<Rightarrow> None
          | Some b \<Rightarrow> Some \<lparr>pq_mem = m, pq_heap = b, pq_items = Map.empty, pq_brk = brk, pq_max_size = siz, pq_free_cb = cb,
                          pq_mode = mode, pq_freed = []\<rparr>))"

text \<open>The release of an item that nobody gets: its value goes to the callback.\<close>

definition drop_item :: "nat option \<Rightarrow> pqueue_t \<Rightarrow> pqueue_t option" where
  "drop_item deleted_item pq = (case deleted_item of
     None \<Rightarrow> Some pq
   | Some a \<Rightarrow> do {
       it \<leftarrow> pq_items pq a;
       Some (pq\<lparr>pq_items := (pq_items pq)(a := None), pq_freed := pq_freed pq @ (if pq_free_cb pq then [pi_value it] else [])\<rparr>)
     })"

fun pqueue_drop_items :: "nat \<Rightarrow> pqueue_t \<Rightarrow> pqueue_t option" where
  "pqueue_drop_items 0 pq = Some pq"
| "pqueue_drop_items (Suc n) pq = do {
     c \<leftarrow> binheap_count (pq_heap pq) (pq_mem pq);
     if c = 0 then Some pq
     else do {
       (_, deleted_item, m) \<leftarrow> (if pq_mode pq = PQUEUE_MODE_HIGHEST then binheap_delete_minimum (pq_heap pq) (pq_mem pq)
                               else binheap_delete_maximum (pq_heap pq) (pq_mem pq));
       pq \<leftarrow> drop_item deleted_item (pq\<lparr>pq_mem := m\<rparr>);
       pqueue_drop_items n pq
     }
   }"

definition pqueue_destroy :: "pqueue_t \<Rightarrow> pqueue_t option" where
  "pqueue_destroy pq = do {
     c \<leftarrow> binheap_count (pq_heap pq) (pq_mem pq);
     pq \<leftarrow> pqueue_drop_items c pq;
     m \<leftarrow> binheap_destroy (pq_heap pq) (pq_mem pq);
     Some (pq\<lparr>pq_mem := m\<rparr>)
   }"

text \<open>\<open>fail\<close> says that the allocation of the item fails, \<open>hfail\<close> that one of the heap does; the item is lost then.\<close>

definition pqueue_insert :: "bool \<Rightarrow> bool \<Rightarrow> 64 word \<Rightarrow> nat \<Rightarrow> pqueue_t \<Rightarrow> (int \<times> pqueue_t) option" where
  "pqueue_insert fail hfail prio value pq =
     (if fail then Some (- 1, pq)
      else do {
        let item = pq_brk pq;
        let pq = pq\<lparr>pq_items := (pq_items pq)(item \<mapsto> \<lparr>pi_value = value, pi_prio = prio\<rparr>), pq_brk := Suc item\<rparr>;
        (rc, m) \<leftarrow> binheap_insert hfail (pq_heap pq) (prio_key prio) item (pq_mem pq);
        let pq = pq\<lparr>pq_mem := m\<rparr>;
        c \<leftarrow> binheap_count (pq_heap pq) (pq_mem pq);
        pq \<leftarrow> (if c > pq_max_size pq then pqueue_drop_items (c - pq_max_size pq) pq else Some pq);
        Some (rc, pq)
      })"

text \<open>
  The end of the two operations that take an item out; \<open>want\<close> says that the caller passes a place for the value, without
  which the value is released.
\<close>

definition pull_item :: "bool \<Rightarrow> int \<times> nat option \<times> (byte list, nat) bh_mem \<Rightarrow> pqueue_t \<Rightarrow> (int \<times> (nat \<times> 64 word) option \<times> pqueue_t) option" where
  "pull_item want r pq = (case r of (rc, item, m) \<Rightarrow>
     if rc = 0 then do {
       a \<leftarrow> item;
       it \<leftarrow> pq_items pq a;
       Some (rc, Some (pi_value it, pi_prio it),
         pq\<lparr>pq_mem := m, pq_items := (pq_items pq)(a := None),
            pq_freed := pq_freed pq @ (if \<not> want \<and> pq_free_cb pq then [pi_value it] else [])\<rparr>)
     } else Some (rc, None, pq\<lparr>pq_mem := m\<rparr>))"

definition pqueue_pull_highest :: "bool \<Rightarrow> pqueue_t \<Rightarrow> (int \<times> (nat \<times> 64 word) option \<times> pqueue_t) option" where
  "pqueue_pull_highest want pq = do {
     r \<leftarrow> (if pq_mode pq = PQUEUE_MODE_HIGHEST then binheap_delete_maximum (pq_heap pq) (pq_mem pq)
           else binheap_delete_minimum (pq_heap pq) (pq_mem pq));
     pull_item want r pq
   }"

definition pqueue_pull_lowest :: "bool \<Rightarrow> pqueue_t \<Rightarrow> (int \<times> (nat \<times> 64 word) option \<times> pqueue_t) option" where
  "pqueue_pull_lowest want pq = do {
     r \<leftarrow> (if pq_mode pq = PQUEUE_MODE_HIGHEST then binheap_delete_minimum (pq_heap pq) (pq_mem pq)
           else binheap_delete_maximum (pq_heap pq) (pq_mem pq));
     pull_item want r pq
   }"

text \<open>
  The callback gets the priority that the key holds and what the heap holds as value: the address of the item.
\<close>

definition pqueue_walk_helper :: "(64 word \<Rightarrow> nat \<Rightarrow> 'u \<Rightarrow> int \<times> 'u) \<Rightarrow> byte list \<Rightarrow> nat \<Rightarrow> 'u \<Rightarrow> int \<times> 'u" where
  "pqueue_walk_helper cb key value priv = cb (word_of_int (key_value Uint64 key)) value priv"

definition pqueue_walk :: "(64 word \<Rightarrow> nat \<Rightarrow> 'u \<Rightarrow> int \<times> 'u) \<Rightarrow> 'u \<Rightarrow> pqueue_t \<Rightarrow> (int \<times> 'u \<times> pqueue_t) option" where
  "pqueue_walk cb priv pq = do {
     (c, priv, m) \<leftarrow> binheap_walk (pq_heap pq) (pqueue_walk_helper cb) priv (pq_mem pq);
     Some (c, priv, pq\<lparr>pq_mem := m\<rparr>)
   }"

text \<open>The user data of \<open>pqueue_remove\<close> is the value and the flag \<open>found\<close>, which nothing sets.\<close>

definition pqueue_remove_helper :: "64 word \<Rightarrow> nat \<Rightarrow> nat \<times> bool \<Rightarrow> int \<times> nat \<times> bool" where
  "pqueue_remove_helper prio value arg = (if value = fst arg then - 2 else 1, arg)"

definition pqueue_remove :: "nat \<Rightarrow> pqueue_t \<Rightarrow> (int \<times> pqueue_t) option" where
  "pqueue_remove value pq = do {
     (_, arg, pq) \<leftarrow> pqueue_walk pqueue_remove_helper (value, False) pq;
     Some (if snd arg then 0 else - 1, pq)
   }"

definition pqueue_count :: "pqueue_t \<Rightarrow> nat option" where
  "pqueue_count pq = binheap_count (pq_heap pq) (pq_mem pq)"

end
