(* ===== verification/Pqueue_Spec.thy ===== *)
theory Pqueue_Spec
  imports Pqueue
begin

text \<open>
  What the priority queues of \<open>pqueue.c\<close> promise: the queue as a multiset of priorities with values, a relation
  that says which answers are right, and the refinement.
\<close>

section \<open>Priorities as keys\<close>

lemma length_le_encode [simp]: "length (le_encode n x) = n"
  by (induction n arbitrary: x) simp_all

lemma le_bytes_encode: "le_bytes (le_encode n x) = x mod 256 ^ n"
proof (induction n arbitrary: x)
  case (Suc n)
  have "uint (word_of_int x :: byte) = x mod 256" by (simp add: uint_word_of_int)
  then have "le_bytes (le_encode (Suc n) x) = x mod 256 + 256 * (x div 256 mod 256 ^ n)" using Suc by simp
  also have "\<dots> = x mod (256 * 256 ^ n)" using zmod_zmult2_eq [of "256 ^ n" x 256] by simp
  finally show ?case by simp
qed simp

lemma prio_key_value: "key_value Uint64 (prio_key p) = uint p"
proof -
  have "uint p < 256 ^ 8" using uint_bounded [of p] by simp
  then show ?thesis by (simp add: prio_key_def key_value_def type_size_def le_bytes_encode mod_pos_pos_trivial)
qed

definition small_prio :: "64 word \<Rightarrow> bool" where
  "small_prio p \<longleftrightarrow> uint p < 2147483648"

lemma prio_key_in: "prio_key p \<in> prio_keys \<longleftrightarrow> small_prio p"
  by (simp add: prio_keys_def prio_key_value small_prio_def) (simp add: prio_key_def)

text \<open>The priority that \<open>pqueue_pull_highest\<close> prefers: the larger or the smaller number.\<close>

definition preferred :: "pqueue_mode_t \<Rightarrow> 64 word \<Rightarrow> 64 word \<Rightarrow> bool" where
  "preferred md p q \<longleftrightarrow> (if md = PQUEUE_MODE_HIGHEST then q \<le> p else p \<le> q)"

abbreviation bmode :: "pqueue_mode_t \<Rightarrow> binheap_mode_t" where
  "bmode md \<equiv> if md = PQUEUE_MODE_HIGHEST then BINHEAP_MODE_MAX else BINHEAP_MODE_MIN"

abbreviation prio_cbs :: "byte list binheap_callbacks_t" where
  "prio_cbs \<equiv> binheap_keys_callbacks Uint64"

lemma preferred_prec:
  assumes "small_prio p" and "small_prio q"
  shows "hprec (bmode md) prio_cbs (prio_key p) (prio_key q) \<longleftrightarrow> preferred md p q"
  using assms by (simp add: hprec_def cmp_prio prio_key_in prio_key_value preferred_def word_le_def)

section \<open>The invariant\<close>

definition heap_item :: "(nat \<rightharpoonup> pqueue_item_t) \<Rightarrow> nat \<Rightarrow> byte list \<times> nat" where
  "heap_item items a = (prio_key (pi_prio (the (items a))), a)"

definition user_item :: "(nat \<rightharpoonup> pqueue_item_t) \<Rightarrow> nat \<Rightarrow> 64 word \<times> nat" where
  "user_item items a = (pi_prio (the (items a)), pi_value (the (items a)))"

definition items_of :: "((nat \<rightharpoonup> pqueue_item_t) \<Rightarrow> nat \<Rightarrow> 'x) \<Rightarrow> (nat \<rightharpoonup> pqueue_item_t) \<Rightarrow> 'x multiset" where
  "items_of f items = image_mset (f items) (mset_set (dom items))"

definition pq_at :: "nat \<Rightarrow> pqueue_mode_t \<Rightarrow> bool \<Rightarrow> pqueue_t \<Rightarrow> (64 word \<times> nat) multiset \<Rightarrow> bool" where
  "pq_at n md cb pq P \<longleftrightarrow> pq_max_size pq = n \<and> pq_mode pq = md \<and> pq_free_cb pq = cb \<and> finite (dom (pq_items pq)) \<and>
     (\<forall>a \<in> dom (pq_items pq). a < pq_brk pq) \<and> (\<forall>x \<in># P. small_prio (fst x)) \<and>
     bh_holds prio_cbs (bmode md) prio_keys (pq_heap pq) (pq_mem pq) (items_of heap_item (pq_items pq)) \<and> P = items_of user_item (pq_items pq)"

lemma items_of_insert:
  assumes "finite (dom items)" and "a \<notin> dom items" and "\<And>x i j. i x = j x \<Longrightarrow> f i x = f j x"
  shows "items_of f (items(a \<mapsto> it)) = add_mset (f (items(a \<mapsto> it)) a) (items_of f items)"
proof -
  have "image_mset (f (items(a \<mapsto> it))) (mset_set (dom items)) = image_mset (f items) (mset_set (dom items))"
    using assms(1,2) by (intro image_mset_cong assms(3)) auto
  then show ?thesis using assms(1,2) by (simp add: items_of_def)
qed

lemma items_of_remove:
  assumes "finite (dom items)" and "a \<in> dom items" and "\<And>x i j. i x = j x \<Longrightarrow> f i x = f j x"
  shows "items_of f items = add_mset (f items a) (items_of f (items(a := None)))"
proof -
  have "image_mset (f (items(a := None))) (mset_set (dom items - {a})) = image_mset (f items) (mset_set (dom items - {a}))"
    using assms(1) by (intro image_mset_cong assms(3)) auto
  moreover have "mset_set (dom items) = add_mset a (mset_set (dom items - {a}))"
    using assms(1,2) by (simp add: mset_set.remove)
  ultimately show ?thesis by (simp add: items_of_def)
qed

lemma item_cong: "i x = j x \<Longrightarrow> heap_item i x = heap_item j x" "i x = j x \<Longrightarrow> user_item i x = user_item j x"
  by (simp_all add: heap_item_def user_item_def)

lemma heap_item_in:
  assumes "finite (dom items)" and "(k, a) \<in># items_of heap_item items"
  shows "\<exists>it. items a = Some it \<and> k = prio_key (pi_prio it)"
  using assms by (auto simp: items_of_def heap_item_def)

lemma size_items: "size (items_of f items) = size (items_of g items)"
  by (simp add: items_of_def)

lemma pq_count: "pq_at n md cb pq P \<Longrightarrow> binheap_count (pq_heap pq) (pq_mem pq) = Some (size P)"
  using count_holds [of prio_cbs "bmode md" prio_keys "pq_heap pq" "pq_mem pq" "items_of heap_item (pq_items pq)"]
    size_items [of heap_item "pq_items pq" user_item] by (simp add: pq_at_def)

text \<open>An item that leaves the heap leaves the queue.\<close>

lemma pq_take:
  assumes "pq_at n md cb pq P" and "items_of heap_item (pq_items pq) = add_mset (k, a) M'" and "bh_holds prio_cbs (bmode md) prio_keys (pq_heap pq) m M'"
  shows "\<exists>it P'. pq_items pq a = Some it \<and> k = prio_key (pi_prio it) \<and> P = add_mset (pi_prio it, pi_value it) P' \<and> small_prio (pi_prio it) \<and>
    pq_at n md cb (pq\<lparr>pq_mem := m, pq_items := (pq_items pq)(a := None), pq_freed := fr\<rparr>) P'"
proof -
  let ?items = "pq_items pq"
  have at: "finite (dom ?items)" "P = items_of user_item ?items" "\<forall>x \<in># P. small_prio (fst x)" using assms(1) by (simp_all add: pq_at_def)
  have "(k, a) \<in># items_of heap_item ?items" using assms(2) by simp
  then obtain it where it: "?items a = Some it" "k = prio_key (pi_prio it)" using heap_item_in [OF at(1)] by blast
  then have a: "a \<in> dom ?items" by blast
  have "M' = items_of heap_item (?items(a := None))"
    using items_of_remove [OF at(1) a, of heap_item] item_cong(1) assms(2) it by (simp add: heap_item_def)
  moreover have P: "P = add_mset (pi_prio it, pi_value it) (items_of user_item (?items(a := None)))"
    using items_of_remove [OF at(1) a, of user_item] item_cong(2) at(2) it by (simp add: user_item_def)
  moreover have "small_prio (pi_prio it)" "\<forall>x \<in># items_of user_item (?items(a := None)). small_prio (fst x)"
    using at(3) unfolding P by simp_all
  moreover have "pq_at n md cb (pq\<lparr>pq_mem := m, pq_items := ?items(a := None), pq_freed := fr\<rparr>) (items_of user_item (?items(a := None)))"
    using assms(1,3) calculation by (simp add: pq_at_def)
  ultimately show ?thesis using it by blast
qed

section \<open>What the queue needs of the heap\<close>

abbreviation prio_holds :: "pqueue_mode_t \<Rightarrow> nat \<Rightarrow> (byte list, nat) bh_mem \<Rightarrow> (byte list \<times> nat) multiset \<Rightarrow> bool" where
  "prio_holds md b \<equiv> bh_holds prio_cbs (bmode md) prio_keys b"

definition heap_delete :: "bool \<Rightarrow> pqueue_mode_t \<Rightarrow> nat \<Rightarrow> (byte list, nat) bh_mem \<Rightarrow> (int \<times> nat option \<times> (byte list, nat) bh_mem) option" where
  "heap_delete best md = (if (md = PQUEUE_MODE_HIGHEST) = best then binheap_delete_maximum else binheap_delete_minimum)"

lemma heap_delete_exec:
  "map_option (\<lambda>(c, r, m). (A_value c r, m)) (heap_delete best md b m) = bh_exec (bmode md) b (if best then H_delete_first else H_delete_last) m"
  by (simp add: heap_delete_def bh_exec_def)

lemma heap_delete_ok:
  assumes "prio_holds md b m M" and "M \<noteq> {#}" and "size M < 2147483647"
  shows "\<exists>k a m' M'. heap_delete best md b m = Some (0, Some a, m') \<and> M = add_mset (k, a) M' \<and> prio_holds md b m' M' \<and>
    (best \<longrightarrow> (\<forall>x \<in># M. hprec (bmode md) prio_cbs k (fst x)))"
proof -
  let ?c = "if best then H_delete_first else H_delete_last"
  have "call_keys prio_keys ?c" by (simp add: call_keys_def)
  from heap_prio.exec_law [OF assms(1) this assms(3)] obtain ans m' M' where e: "bh_exec (bmode md) b ?c m = Some (ans, m')" "prio_holds md b m' M'"
    "heap_ok (hprec (bmode md) prio_cbs) (\<lambda>k k'. cb_cmp prio_cbs k k' = 0) ?c ans M M'" by blast
  from e(1) obtain c r where d: "heap_delete best md b m = Some (c, r, m')" "ans = A_value c r" unfolding heap_delete_exec [symmetric] by auto
  have "\<exists>k a. r = Some a \<and> c = 0 \<and> M = add_mset (k, a) M' \<and> (best \<longrightarrow> (\<forall>x \<in># M. hprec (bmode md) prio_cbs k (fst x)))"
    using e(3) d(2) assms(2) by (cases best; cases r) auto
  then obtain k a where k: "r = Some a" "c = 0" "M = add_mset (k, a) M'" "best \<longrightarrow> (\<forall>x \<in># M. hprec (bmode md) prio_cbs k (fst x))" by blast
  show ?thesis using d(1) e(2) k by - (rule exI [of _ k], rule exI [of _ a], rule exI [of _ m'], rule exI [of _ M'], blast)
qed

lemma heap_delete_empty:
  assumes "prio_holds md b m {#}"
  shows "heap_delete best md b m = Some (- 1, None, m)"
  using delete_end_empty [OF assms, of "if (md = PQUEUE_MODE_HIGHEST) = best then BINHEAP_MODE_MAX else BINHEAP_MODE_MIN"]
  by (auto simp: heap_delete_def delete_end_def split: if_splits)

section \<open>The operations\<close>

lemma drop_items_ok:
  assumes "pq_at n md cb pq P" and "k \<le> size P" and "size P < 2147483647"
  shows "\<exists>pq' P' D ds. pqueue_drop_items k pq = Some pq' \<and> pq_at n md cb pq' P' \<and> P = P' + D \<and> size D = k \<and>
    mset ds = image_mset snd D \<and> pq_freed pq' = pq_freed pq @ (if cb then ds else [])"
  using assms
proof (induction k arbitrary: pq P)
  case 0
  then show ?case by (intro exI [of _ pq] exI [of _ P] exI [of _ "{#}"] exI [of _ "[]"]) simp
next
  case (Suc k)
  let ?M = "items_of heap_item (pq_items pq)"
  have at: "prio_holds md (pq_heap pq) (pq_mem pq) ?M" "pq_mode pq = md" "pq_free_cb pq = cb" "size ?M = size P"
    using Suc.prems(1) size_items by (auto simp: pq_at_def)
  have ne: "?M \<noteq> {#}" using at(4) Suc.prems(2) by (metis Suc_le_D nat.distinct(1) size_empty)
  have "size ?M < 2147483647" using at(4) Suc.prems(3) by simp
  from heap_delete_ok [OF at(1) ne this, of False] obtain k0 a m' M' where d: "heap_delete False md (pq_heap pq) (pq_mem pq) = Some (0, Some a, m')"
    "?M = add_mset (k0, a) M'" "prio_holds md (pq_heap pq) m' M'" by blast
  let ?fr = "\<lambda>it. pq_freed pq @ (if cb then [pi_value it] else [])"
  obtain it where it: "pq_items pq a = Some it" using pq_take [OF Suc.prems(1) d(2,3)] by blast
  let ?pq = "pq\<lparr>pq_mem := m', pq_items := (pq_items pq)(a := None), pq_freed := ?fr it\<rparr>"
  obtain P1 where P1: "P = add_mset (pi_prio it, pi_value it) P1" "pq_at n md cb ?pq P1" using pq_take [OF Suc.prems(1) d(2,3), of "?fr it"] it by auto
  have "k \<le> size P1" "size P1 < 2147483647" using P1(1) Suc.prems(2,3) by simp_all
  from Suc.IH [OF P1(2) this] obtain pq' P' D ds where r: "pqueue_drop_items k ?pq = Some pq'" "pq_at n md cb pq' P'" "P1 = P' + D" "size D = k"
    "mset ds = image_mset snd D" "pq_freed pq' = pq_freed ?pq @ (if cb then ds else [])" by blast
  have "binheap_count (pq_heap pq) (pq_mem pq) = Some (size P)" using count_holds [OF at(1)] at(4) by simp
  then have "pqueue_drop_items (Suc k) pq = Some pq'"
    using d(1) r(1) at(2,3) it Suc.prems(2) by (auto simp: heap_delete_def drop_item_def)
  then show ?case using r P1(1)
    by (intro exI [of _ pq'] exI [of _ P'] exI [of _ "add_mset (pi_prio it, pi_value it) D"] exI [of _ "pi_value it # ds"]) simp
qed

lemma pqueue_insert_ok:
  assumes "pq_at n md cb pq P" and "small_prio p" and "size P < 2147483646"
  shows "\<exists>pq' P' D ds. pqueue_insert False False p v pq = Some (0, pq') \<and> pq_at n md cb pq' P' \<and> add_mset (p, v) P = P' + D \<and>
    size P' = min n (Suc (size P)) \<and> mset ds = image_mset snd D \<and> pq_freed pq' = pq_freed pq @ (if cb then ds else [])"
proof -
  let ?a = "pq_brk pq" and ?items = "pq_items pq" and ?it = "\<lparr>pi_value = v, pi_prio = p\<rparr>"
  have at: "prio_holds md (pq_heap pq) (pq_mem pq) (items_of heap_item ?items)" "finite (dom ?items)" "?a \<notin> dom ?items" "P = items_of user_item ?items"
    "pq_max_size pq = n" using assms(1) by (auto simp: pq_at_def)
  have s: "size (items_of heap_item ?items) = size P" using at(4) size_items by metis
  have "call_keys prio_keys (H_insert (prio_key p) ?a)" using assms(2) by (simp add: call_keys_def prio_key_in)
  from heap_prio.exec_law [OF at(1) this] s assms(3) obtain ans m' M' where e: "bh_exec (bmode md) (pq_heap pq) (H_insert (prio_key p) ?a) (pq_mem pq) = Some (ans, m')"
    "prio_holds md (pq_heap pq) m' M'" "heap_ok (hprec (bmode md) prio_cbs) (\<lambda>k k'. cb_cmp prio_cbs k k' = 0) (H_insert (prio_key p) ?a) ans (items_of heap_item ?items) M'"
    by auto
  then have ins: "binheap_insert False (pq_heap pq) (prio_key p) ?a (pq_mem pq) = Some (0, m')" and M': "M' = add_mset (prio_key p, ?a) (items_of heap_item ?items)"
    by (cases ans; auto simp: bh_exec_def)+
  let ?pq = "pq\<lparr>pq_items := ?items(?a \<mapsto> ?it), pq_brk := Suc ?a, pq_mem := m'\<rparr>"
  have "M' = items_of heap_item (?items(?a \<mapsto> ?it))" using items_of_insert [OF at(2,3), of heap_item ?it] item_cong(1) M' by (simp add: heap_item_def)
  moreover have P: "items_of user_item (?items(?a \<mapsto> ?it)) = add_mset (p, v) P"
    using items_of_insert [OF at(2,3), of user_item ?it] item_cong(2) at(4) by (simp add: user_item_def)
  ultimately have at': "pq_at n md cb ?pq (add_mset (p, v) P)" using assms(1,2) e(2) by (auto simp: pq_at_def less_Suc_eq)
  have cnt: "binheap_count (pq_heap pq) m' = Some (Suc (size P))" using count_holds [OF e(2)] M' s by simp
  show ?thesis
  proof (cases "Suc (size P) > n")
    case True
    obtain pq' P' D ds where d: "pqueue_drop_items (Suc (size P) - n) ?pq = Some pq'" "pq_at n md cb pq' P'" "add_mset (p, v) P = P' + D"
      "size D = Suc (size P) - n" "mset ds = image_mset snd D" "pq_freed pq' = pq_freed ?pq @ (if cb then ds else [])"
      using drop_items_ok [OF at', of "Suc (size P) - n"] assms(3) by auto
    have "size P' = n" using arg_cong [OF d(3), of size] d(4) True by simp
    moreover have "pqueue_insert False False p v pq = Some (0, pq')" using ins cnt d(1) at(5) True by (simp add: pqueue_insert_def)
    ultimately show ?thesis using d True by (intro exI [of _ pq'] exI [of _ P'] exI [of _ D] exI [of _ ds]) simp
  next
    case False
    then have "pqueue_insert False False p v pq = Some (0, ?pq)" using ins cnt at(5) by (simp add: pqueue_insert_def Let_def)
    then show ?thesis using at' False
      by (intro exI [of _ ?pq] exI [of _ "add_mset (p, v) P"] exI [of _ "{#}"] exI [of _ "[]"]) simp
  qed
qed

lemma pull_ok:
  assumes "pq_at n md cb pq P" and "P \<noteq> {#}" and "size P < 2147483647"
  shows "\<exists>r p v pq' P'. heap_delete best md (pq_heap pq) (pq_mem pq) = Some r \<and> pull_item want r pq = Some (0, Some (v, p), pq') \<and>
    pq_at n md cb pq' P' \<and> P = add_mset (p, v) P' \<and> (best \<longrightarrow> (\<forall>x \<in># P. preferred md p (fst x))) \<and>
    pq_freed pq' = pq_freed pq @ (if \<not> want \<and> cb then [v] else [])"
proof -
  let ?M = "items_of heap_item (pq_items pq)"
  have at: "prio_holds md (pq_heap pq) (pq_mem pq) ?M" "finite (dom (pq_items pq))" "P = items_of user_item (pq_items pq)" "size ?M = size P"
    "\<forall>x \<in># P. small_prio (fst x)" "pq_free_cb pq = cb" using assms(1) size_items by (auto simp: pq_at_def)
  have ne: "?M \<noteq> {#}" using at(4) assms(2) by (metis size_eq_0_iff_empty)
  have "size ?M < 2147483647" using at(4) assms(3) by simp
  from heap_delete_ok [OF at(1) ne this, of best] obtain k a m' M' where d: "heap_delete best md (pq_heap pq) (pq_mem pq) = Some (0, Some a, m')"
    "?M = add_mset (k, a) M'" "prio_holds md (pq_heap pq) m' M'" "best \<longrightarrow> (\<forall>x \<in># ?M. hprec (bmode md) prio_cbs k (fst x))" by blast
  let ?fr = "\<lambda>it. pq_freed pq @ (if \<not> want \<and> cb then [pi_value it] else [])"
  obtain it where it: "pq_items pq a = Some it" using pq_take [OF assms(1) d(2,3)] by blast
  then obtain P' where t: "pq_items pq a = Some it" "k = prio_key (pi_prio it)" "P = add_mset (pi_prio it, pi_value it) P'" "small_prio (pi_prio it)"
    "pq_at n md cb (pq\<lparr>pq_mem := m', pq_items := (pq_items pq)(a := None), pq_freed := ?fr it\<rparr>) P'" using pq_take [OF assms(1) d(2,3), of "?fr it"] by auto
  have "preferred md (pi_prio it) (fst x)" if "best" "x \<in># P" for x
  proof -
    from that(2) at(2,3) obtain y where y: "y \<in> dom (pq_items pq)" "x = user_item (pq_items pq) y" by (auto simp: items_of_def)
    then have "heap_item (pq_items pq) y \<in># ?M" using at(2) by (simp add: items_of_def)
    then have "hprec (bmode md) prio_cbs (prio_key (pi_prio it)) (prio_key (fst x))" using d(4) that(1) t(2) y(2) by (auto simp: heap_item_def user_item_def)
    then show ?thesis using preferred_prec t(4) at(5) that(2) by blast
  qed
  then show ?thesis using d(1) t at(6)
    by - (rule exI [of _ "(0, Some a, m')"], rule exI [of _ "pi_prio it"], rule exI [of _ "pi_value it"],
        rule exI [of _ "pq\<lparr>pq_mem := m', pq_items := (pq_items pq)(a := None), pq_freed := ?fr it\<rparr>"], rule exI [of _ P'], simp add: pull_item_def)
qed

lemma pull_empty:
  assumes "pq_at n md cb pq {#}"
  shows "heap_delete best md (pq_heap pq) (pq_mem pq) = Some (- 1, None, pq_mem pq)"
  using assms size_items [of heap_item "pq_items pq" user_item] by (intro heap_delete_empty) (auto simp: pq_at_def)

section \<open>Calls and right answers\<close>

text \<open>\<open>Pq_pull best want\<close> is \<open>pqueue_pull_highest\<close> or \<open>pqueue_pull_lowest\<close>, with or without a place for the value.\<close>

datatype pq_call = Pq_insert "64 word" nat | Pq_pull bool bool | Pq_count

datatype pq_answer = Pq_code int | Pq_item int "(nat \<times> 64 word) option" | Pq_size nat

definition pq_exec :: "pq_call \<Rightarrow> pqueue_t \<Rightarrow> (pq_answer \<times> pqueue_t) option" where
  "pq_exec c pq = (case c of
     Pq_insert p v \<Rightarrow> map_option (\<lambda>(rc, pq). (Pq_code rc, pq)) (pqueue_insert False False p v pq)
   | Pq_pull best want \<Rightarrow> map_option (\<lambda>(rc, r, pq). (Pq_item rc r, pq))
       (if best then pqueue_pull_highest want pq else pqueue_pull_lowest want pq)
   | Pq_count \<Rightarrow> map_option (\<lambda>n. (Pq_size n, pq)) (pqueue_count pq))"

text \<open>
  What a call answers and what it makes of the items \<open>P\<close> and of the list \<open>F\<close> of the released values. An insertion keeps
  all items as long as they fit; when they do not, some item goes to the release callback.
\<close>

fun pq_ok :: "nat \<Rightarrow> pqueue_mode_t \<Rightarrow> bool \<Rightarrow> pq_call \<Rightarrow> pq_answer \<Rightarrow>
    (64 word \<times> nat) multiset \<times> nat list \<Rightarrow> (64 word \<times> nat) multiset \<times> nat list \<Rightarrow> bool" where
  "pq_ok n md cb (Pq_insert p v) a (P, F) (P', F') \<longleftrightarrow> a = Pq_code 0 \<and>
     (\<exists>D ds. add_mset (p, v) P = P' + D \<and> size P' = min n (Suc (size P)) \<and> mset ds = image_mset snd D \<and> F' = F @ (if cb then ds else []))"
| "pq_ok n md cb (Pq_pull best want) a (P, F) (P', F') \<longleftrightarrow>
     (if P = {#} then a = Pq_item (- 1) None \<and> P' = P \<and> F' = F
      else \<exists>p v. a = Pq_item 0 (Some (v, p)) \<and> P = add_mset (p, v) P' \<and> F' = F @ (if \<not> want \<and> cb then [v] else []) \<and>
        (best \<longrightarrow> (\<forall>x \<in># P. preferred md p (fst x))))"
| "pq_ok n md cb Pq_count a (P, F) (P', F') \<longleftrightarrow> a = Pq_size (size P) \<and> P' = P \<and> F' = F"

fun pq_oks :: "nat \<Rightarrow> pqueue_mode_t \<Rightarrow> bool \<Rightarrow> pq_call list \<Rightarrow> pq_answer list \<Rightarrow>
    (64 word \<times> nat) multiset \<times> nat list \<Rightarrow> (64 word \<times> nat) multiset \<times> nat list \<Rightarrow> bool" where
  "pq_oks n md cb [] [] x y \<longleftrightarrow> y = x"
| "pq_oks n md cb (c # cs) (a # as) x y \<longleftrightarrow> (\<exists>z. pq_ok n md cb c a x z \<and> pq_oks n md cb cs as z y)"
| "pq_oks n md cb _ _ x y \<longleftrightarrow> False"

definition call_prio :: "pq_call \<Rightarrow> bool" where
  "call_prio c \<longleftrightarrow> (case c of Pq_insert p v \<Rightarrow> small_prio p | _ \<Rightarrow> True)"

lemma pq_exec_ok:
  assumes "pq_at n md cb pq P" and "call_prio c" and "size P < 2147483646"
  shows "\<exists>a pq' P'. pq_exec c pq = Some (a, pq') \<and> pq_at n md cb pq' P' \<and> pq_ok n md cb c a (P, pq_freed pq) (P', pq_freed pq')"
proof (cases c)
  case (Pq_insert p v)
  then obtain pq' P' D ds where "pqueue_insert False False p v pq = Some (0, pq')" "pq_at n md cb pq' P'" "add_mset (p, v) P = P' + D"
    "size P' = min n (Suc (size P))" "mset ds = image_mset snd D" "pq_freed pq' = pq_freed pq @ (if cb then ds else [])"
    using pqueue_insert_ok [OF assms(1) _ assms(3), of p v] assms(2) by (auto simp: call_prio_def)
  then show ?thesis using Pq_insert
    by (intro exI [of _ "Pq_code 0"] exI [of _ pq'] exI [of _ P'] conjI) (auto simp: pq_exec_def)
next
  case (Pq_pull best want)
  have md: "pq_mode pq = md" using assms(1) by (simp add: pq_at_def)
  have ex: "pq_exec c pq = map_option (\<lambda>(rc, r, pq). (Pq_item rc r, pq)) (do { r \<leftarrow> heap_delete best md (pq_heap pq) (pq_mem pq); pull_item want r pq })"
    using Pq_pull md by (auto simp: pq_exec_def heap_delete_def pqueue_pull_highest_def pqueue_pull_lowest_def)
  show ?thesis
  proof (cases "P = {#}")
    case True
    then have "pq_exec c pq = Some (Pq_item (- 1) None, pq)" using ex pull_empty assms(1) by (simp add: pull_item_def)
    then show ?thesis using True assms(1) Pq_pull by auto
  next
    case False
    have "size P < 2147483647" using assms(3) by simp
    from pull_ok [OF assms(1) False this, of best want] obtain r p v pq' P' where r: "heap_delete best md (pq_heap pq) (pq_mem pq) = Some r"
      "pull_item want r pq = Some (0, Some (v, p), pq')" "pq_at n md cb pq' P'" "P = add_mset (p, v) P'"
      "best \<longrightarrow> (\<forall>x \<in># P. preferred md p (fst x))" "pq_freed pq' = pq_freed pq @ (if \<not> want \<and> cb then [v] else [])" by blast
    then have "pq_exec c pq = Some (Pq_item 0 (Some (v, p)), pq')" using ex by simp
    moreover have "pq_ok n md cb c (Pq_item 0 (Some (v, p))) (P, pq_freed pq) (P', pq_freed pq')" using Pq_pull r(4-6) False by simp
    ultimately show ?thesis using r(3) by blast
  qed
next
  case Pq_count
  have "pqueue_count pq = Some (size P)" using pq_count [OF assms(1)] by (simp add: pqueue_count_def)
  then show ?thesis using Pq_count assms(1) by (auto simp: pq_exec_def)
qed

lemma pq_ok_size: "pq_ok n md cb c a (P, F) (P', F') \<Longrightarrow> size P' \<le> Suc (size P) \<and> (size P \<le> n \<longrightarrow> size P' \<le> n)"
  by (cases c) (auto split: if_splits)

lemma pq_run_ok:
  assumes "pq_at n md cb pq P" and "\<forall>c \<in> set cs. call_prio c" and "size P + length cs < 2147483647" and "size P \<le> n"
  shows "\<exists>as pq' P'. calls_run pq_exec cs pq = Some (as, pq') \<and> pq_at n md cb pq' P' \<and> size P' \<le> n \<and> size P' \<le> size P + length cs \<and>
    pq_oks n md cb cs as (P, pq_freed pq) (P', pq_freed pq')"
  using assms
proof (induction cs arbitrary: pq P)
  case (Cons c cs)
  then obtain a pq1 P1 where 1: "pq_exec c pq = Some (a, pq1)" "pq_at n md cb pq1 P1" "pq_ok n md cb c a (P, pq_freed pq) (P1, pq_freed pq1)"
    using pq_exec_ok [of n md cb pq P c] by auto
  have s: "size P1 \<le> Suc (size P)" "size P1 \<le> n" using pq_ok_size [OF 1(3)] Cons.prems(4) by auto
  then obtain as pq' P' where "calls_run pq_exec cs pq1 = Some (as, pq')" "pq_at n md cb pq' P'" "size P' \<le> n" "size P' \<le> size P1 + length cs"
    "pq_oks n md cb cs as (P1, pq_freed pq1) (P', pq_freed pq')" using Cons.IH [OF 1(2)] Cons.prems(2,3) by auto
  then show ?case using 1 s(1) by (intro exI [of _ "a # as"] exI [of _ pq'] exI [of _ P']) auto
qed simp

section \<open>The queue and its clients\<close>

definition values_in :: "pq_call \<Rightarrow> nat list" where
  "values_in c = (case c of Pq_insert p v \<Rightarrow> [v] | _ \<Rightarrow> [])"

definition values_out :: "pq_call \<times> pq_answer \<Rightarrow> nat list" where
  "values_out x = (case x of (Pq_pull best True, Pq_item rc (Some (v, p))) \<Rightarrow> [v] | _ \<Rightarrow> [])"

lemma pq_ok_values:
  assumes "pq_ok n md True c a (P, F) (P', F')"
  shows "mset F' + mset (values_out (c, a)) + image_mset snd P' = mset F + mset (values_in c) + image_mset snd P"
proof (cases c)
  case (Pq_insert p v)
  then obtain D where D: "add_mset (p, v) P = P' + D" "mset F' = mset F + image_mset snd D" using assms by auto
  have "image_mset snd (add_mset (p, v) P) = image_mset snd P' + image_mset snd D" unfolding D(1) by simp
  then show ?thesis using D(2) Pq_insert by (simp add: values_in_def values_out_def)
next
  case (Pq_pull best want)
  then show ?thesis using assms by (cases want) (auto simp: values_in_def values_out_def split: if_splits)
qed (use assms in \<open>simp add: values_in_def values_out_def\<close>)

lemma pq_oks_values:
  "pq_oks n md True cs as (P, F) (P', F') \<Longrightarrow>
    mset F' + mset (concat (map values_out (zip cs as))) + image_mset snd P' = mset F + mset (concat (map values_in cs)) + image_mset snd P"
proof (induction cs arbitrary: as P F)
  case Nil
  then show ?case by (cases as) auto
next
  case (Cons c cs)
  then obtain a bs P1 F1 where 1: "as = a # bs" "pq_ok n md True c a (P, F) (P1, F1)" "pq_oks n md True cs bs (P1, F1) (P', F')"
    by (cases as) auto
  show ?case using Cons.IH [OF 1(3)] pq_ok_values [OF 1(2)] 1(1) by (simp add: ac_simps) (metis (no_types, lifting) union_assoc union_commute)
qed

lemma pqueue_create_at:
  "\<exists>pq. pqueue_create False brk md n cb = Some pq \<and> pq_at n md cb pq {#} \<and> pq_freed pq = []"
proof -
  obtain b m where "binheap_create False prio_cbs (bmode md) (\<lparr>bm_nodes = Map.empty, bm_heaps = Map.empty, bm_brk = 0\<rparr> :: (byte list, nat) bh_mem) = (Some b, m)"
    "prio_holds md b m {#}" using bh_create_holds [of "\<lparr>bm_nodes = Map.empty, bm_heaps = Map.empty, bm_brk = 0\<rparr> :: (byte list, nat) bh_mem" prio_cbs "bmode md" prio_keys] by auto
  then show ?thesis by (simp add: pqueue_create_def pq_at_def items_of_def)
qed

lemma drop_items_heap: "pqueue_drop_items k pq = Some pq' \<Longrightarrow> pq_heap pq' = pq_heap pq"
proof (induction k arbitrary: pq)
  case (Suc k)
  have "pq_heap q = pq_heap p" if "drop_item d p = Some q" for d p q
    using that by (auto simp: drop_item_def bind_eq_Some_conv split: option.splits)
  then show ?case using Suc by (force simp: bind_eq_Some_conv split: if_splits prod.splits)
qed simp

lemma pqueue_destroy_ok:
  assumes "pq_at n md cb pq P" and "size P < 2147483647"
  shows "\<exists>pq' ds. pqueue_destroy pq = Some pq' \<and> pq_items pq' = Map.empty \<and> bm_nodes (pq_mem pq') = Map.empty \<and>
    bm_heaps (pq_mem pq') (pq_heap pq) = None \<and> mset ds = image_mset snd P \<and> pq_freed pq' = pq_freed pq @ (if cb then ds else [])"
proof -
  from drop_items_ok [OF assms(1) order_refl assms(2)] obtain pq1 P1 D ds where d: "pqueue_drop_items (size P) pq = Some pq1" "pq_at n md cb pq1 P1"
    "P = P1 + D" "size D = size P" "mset ds = image_mset snd D" "pq_freed pq1 = pq_freed pq @ (if cb then ds else [])" by blast
  have "size P1 = 0" using arg_cong [OF d(3), of size] d(4) by simp
  then have P1: "P1 = {#}" "D = P" using d(3) by simp_all
  have at: "prio_holds md (pq_heap pq1) (pq_mem pq1) {#}" "pq_items pq1 = Map.empty"
    using d(2) P1(1) by (auto simp: pq_at_def items_of_def mset_set_empty_iff)
  from destroy_nodes_ok [OF at(1) callbacks_order_prio] obtain m1 where m1: "destroy_nodes (pq_heap pq1) (pq_mem pq1) = Some m1" "prio_holds md (pq_heap pq1) m1 {#}" by blast
  have "bm_nodes m1 = Map.empty" using m1(2) by (auto simp: bh_holds_def fr_items_empty)
  moreover have "pq_heap pq1 = pq_heap pq" using drop_items_heap [OF d(1)] by simp
  ultimately show ?thesis using d(1,5,6) m1(1) P1(2) at(2) pq_count [OF assms(1)]
    by (intro exI [of _ "pq1\<lparr>pq_mem := m1\<lparr>bm_heaps := (bm_heaps m1)(pq_heap pq := None)\<rparr>\<rparr>"] exI [of _ ds]) (simp add: pqueue_destroy_def binheap_destroy_def)
qed

text \<open>
  \<open>C9\<close>: a priority queue refines a bounded multiset of values with priorities. For every sequence of calls with priorities
  below \<open>2\<^sup>3\<^sup>1\<close>: an insertion succeeds and the queue never holds more than its maximal size, what does not fit is
  released; \<open>pqueue_pull_highest\<close> hands out an item that no other is preferred to in the mode of the queue,
  \<open>pqueue_pull_lowest\<close> one of the items, both fail exactly when the queue is empty; the count is the number of items.
  After \<open>pqueue_destroy\<close> no item, node or heap is left, and with a release callback every value that came in has been handed
  out or released, exactly once.
\<close>

theorem pqueue_refines_bounded_multiset:
  assumes "\<forall>c \<in> set calls. call_prio c" and "length calls < 2147483647"
  shows "\<exists>pq as pq1 P pq2. pqueue_create False brk md n cb = Some pq \<and> calls_run pq_exec calls pq = Some (as, pq1) \<and>
    pq_oks n md cb calls as ({#}, []) (P, pq_freed pq1) \<and> size P \<le> n \<and>
    pqueue_destroy pq1 = Some pq2 \<and> pq_items pq2 = Map.empty \<and> bm_nodes (pq_mem pq2) = Map.empty \<and> bm_heaps (pq_mem pq2) (pq_heap pq1) = None \<and>
    (cb \<longrightarrow> mset (pq_freed pq2) + mset (concat (map values_out (zip calls as))) = mset (concat (map values_in calls)))"
proof -
  obtain pq where pq: "pqueue_create False brk md n cb = Some pq" "pq_at n md cb pq {#}" "pq_freed pq = []" using pqueue_create_at by blast
  from pq_run_ok [OF pq(2) assms(1)] assms(2) pq(3) obtain as pq1 P where r: "calls_run pq_exec calls pq = Some (as, pq1)" "pq_at n md cb pq1 P"
    "size P \<le> n" "size P \<le> length calls" "pq_oks n md cb calls as ({#}, []) (P, pq_freed pq1)" by auto
  from pqueue_destroy_ok [OF r(2)] r(4) assms(2) obtain pq2 ds where d: "pqueue_destroy pq1 = Some pq2" "pq_items pq2 = Map.empty"
    "bm_nodes (pq_mem pq2) = Map.empty" "bm_heaps (pq_mem pq2) (pq_heap pq1) = None" "mset ds = image_mset snd P"
    "pq_freed pq2 = pq_freed pq1 @ (if cb then ds else [])" by auto
  have "mset (pq_freed pq2) + mset (concat (map values_out (zip calls as))) = mset (concat (map values_in calls))" if cb
    using pq_oks_values [of n md calls as "{#}" "[]" P "pq_freed pq1"] r(5) that d(5,6) by (simp add: ac_simps)
  then show ?thesis using pq(1) r(1,3,5) d(1-4) by blast
qed

theorem pqueue_refines_bounded_multiset_witness:
  "\<exists>pq as pq1 P. pqueue_create False 0 PQUEUE_MODE_HIGHEST 2 True = Some pq \<and>
    calls_run pq_exec [Pq_insert 5 50, Pq_insert 9 90, Pq_pull True True] pq = Some (as, pq1) \<and>
    pq_oks 2 PQUEUE_MODE_HIGHEST True [Pq_insert 5 50, Pq_insert 9 90, Pq_pull True True] as ({#}, []) (P, pq_freed pq1) \<and> size P \<le> 2"
proof -
  have "\<forall>c \<in> set [Pq_insert 5 50, Pq_insert 9 90, Pq_pull True True]. call_prio c" "length [Pq_insert 5 50, Pq_insert 9 90, Pq_pull True True] < 2147483647"
    by (simp_all add: call_prio_def small_prio_def)
  from pqueue_refines_bounded_multiset [OF this, of 0 PQUEUE_MODE_HIGHEST 2 True] show ?thesis by blast
qed

section \<open>Where the operations fall short\<close>

text \<open>What the calls of a client of a queue with the values 0, 1, 2, ... answer, and the values that are released on the way.\<close>

definition pq_session :: "nat \<Rightarrow> pqueue_mode_t \<Rightarrow> pq_call list \<Rightarrow> (pq_answer list \<times> nat list) option" where
  "pq_session n md calls = do {
     pq \<leftarrow> pqueue_create False 100 md n True;
     (as, pq) \<leftarrow> calls_run pq_exec calls pq;
     Some (as, pq_freed pq)
   }"

text \<open>
  The queue for two items drops the one with priority 5 for the one with priority 1, because the heap looks for its
  minimum below the smallest root only.
\<close>

lemma wrong_item_dropped:
  "map_option snd (pq_session 2 PQUEUE_MODE_HIGHEST [Pq_insert 1 0, Pq_insert 10 1, Pq_insert 5 2]) = Some [2]"
  by code_simp

text \<open>Priorities that are \<open>2\<^sup>3\<^sup>1\<close> apart come out in the wrong order.\<close>

lemma large_priorities_misordered:
  "map_option (\<lambda>x. last (fst x)) (pq_session 2 PQUEUE_MODE_HIGHEST [Pq_insert 1 0, Pq_insert 2147483649 1, Pq_pull True True])
     = Some (Pq_item 0 (Some (0, 1)))"
  by code_simp

text \<open>\<open>pqueue_remove\<close> says that the value is not there, and removes nothing.\<close>

lemma remove_never_finds:
  "do {
     pq \<leftarrow> pqueue_create False 100 PQUEUE_MODE_HIGHEST 2 True;
     (_, pq) \<leftarrow> pqueue_insert False False 1 7 pq;
     (rc, pq) \<leftarrow> pqueue_remove 7 pq;
     c \<leftarrow> pqueue_count pq;
     Some (rc, c)
   } = Some (- 1, 1)"
  by code_simp

text \<open>When the heap cannot allocate its node, the item is lost: it stays allocated, and nothing points to it.\<close>

lemma failed_insert_leaks:
  "do {
     pq \<leftarrow> pqueue_create False 100 PQUEUE_MODE_HIGHEST 2 True;
     (rc, pq) \<leftarrow> pqueue_insert False True 1 7 pq;
     pq \<leftarrow> pqueue_destroy pq;
     Some (rc, pq_items pq 100, pq_freed pq)
   } = Some (- 1, Some \<lparr>pi_value = 7, pi_prio = 1\<rparr>, [])"
  by code_simp

end
