(* ===== verification/Tailq.thy ===== *)
theory Tailq
  imports Prelude
begin

text \<open>
  Model of the tail queues of \<open>src/src/bsd_queue.h\<close>, the macros \<open>TAILQ_*\<close>. A queue is a head and the link fields of its
  elements; as in the code, the head knows where the pointer to the end is stored, and an element where the pointer to
  itself is stored. Every macro acts on the pointers; \<open>tq_at q xs\<close> says that the pointers of \<open>q\<close> link the elements
  \<open>xs\<close> in this order, and the lemmas say what the macros do to \<open>xs\<close>. A use of an element that is not allocated is \<open>None\<close>.
\<close>

section \<open>Data\<close>

text \<open>
  A value of type \<open>struct type **\<close>: NULL, the address of \<open>tqh_first\<close> of the head, or that of \<open>tqe_next\<close> of an element.
\<close>

datatype 'a tq_link = Null_link | Head_link | Next_link 'a

record 'a tq_entry =
  tqe_next :: "'a option"
  tqe_prev :: "'a tq_link"

record 'a tq_head =
  tqh_first :: "'a option"
  tqh_last :: "'a tq_link"
  tq_elems :: "'a \<rightharpoonup> 'a tq_entry"

text \<open>Reading and writing the pointer that a link is the address of.\<close>

definition rd_link :: "'a tq_head \<Rightarrow> 'a tq_link \<Rightarrow> 'a option option" where
  "rd_link q l = (case l of Null_link \<Rightarrow> None | Head_link \<Rightarrow> Some (tqh_first q) | Next_link a \<Rightarrow> map_option tqe_next (tq_elems q a))"

definition upd_elem :: "'a \<Rightarrow> ('a tq_entry \<Rightarrow> 'a tq_entry) \<Rightarrow> 'a tq_head \<Rightarrow> 'a tq_head option" where
  "upd_elem a f q = map_option (\<lambda>e. q\<lparr>tq_elems := (tq_elems q)(a \<mapsto> f e)\<rparr>) (tq_elems q a)"

definition wr_link :: "'a tq_link \<Rightarrow> 'a option \<Rightarrow> 'a tq_head \<Rightarrow> 'a tq_head option" where
  "wr_link l v q = (case l of Null_link \<Rightarrow> None | Head_link \<Rightarrow> Some (q\<lparr>tqh_first := v\<rparr>) | Next_link a \<Rightarrow> upd_elem a (tqe_next_update (\<lambda>_. v)) q)"

section \<open>The macros\<close>

definition TAILQ_FIRST :: "'a tq_head \<Rightarrow> 'a option" where
  "TAILQ_FIRST q = tqh_first q"

definition TAILQ_EMPTY :: "'a tq_head \<Rightarrow> bool" where
  "TAILQ_EMPTY q \<longleftrightarrow> tqh_first q = None"

definition TAILQ_NEXT :: "'a \<Rightarrow> 'a tq_head \<Rightarrow> 'a option option" where
  "TAILQ_NEXT elm q = map_option tqe_next (tq_elems q elm)"

definition TAILQ_INIT :: "'a tq_head \<Rightarrow> 'a tq_head" where
  "TAILQ_INIT q = q\<lparr>tqh_first := None, tqh_last := Head_link\<rparr>"

definition TAILQ_INSERT_AFTER :: "'a \<Rightarrow> 'a \<Rightarrow> 'a tq_head \<Rightarrow> 'a tq_head option" where
  "TAILQ_INSERT_AFTER listelm elm q = do {
     nxt \<leftarrow> TAILQ_NEXT listelm q;
     q \<leftarrow> upd_elem elm (tqe_next_update (\<lambda>_. nxt)) q;
     q \<leftarrow> (case nxt of
        Some n \<Rightarrow> upd_elem n (tqe_prev_update (\<lambda>_. Next_link elm)) q
      | None \<Rightarrow> Some (q\<lparr>tqh_last := Next_link elm\<rparr>));
     q \<leftarrow> upd_elem listelm (tqe_next_update (\<lambda>_. Some elm)) q;
     upd_elem elm (tqe_prev_update (\<lambda>_. Next_link listelm)) q
   }"

definition TAILQ_INSERT_BEFORE :: "'a \<Rightarrow> 'a \<Rightarrow> 'a tq_head \<Rightarrow> 'a tq_head option" where
  "TAILQ_INSERT_BEFORE listelm elm q = do {
     e \<leftarrow> tq_elems q listelm;
     q \<leftarrow> upd_elem elm (tqe_prev_update (\<lambda>_. tqe_prev e)) q;
     q \<leftarrow> upd_elem elm (tqe_next_update (\<lambda>_. Some listelm)) q;
     e \<leftarrow> tq_elems q listelm;
     q \<leftarrow> wr_link (tqe_prev e) (Some elm) q;
     upd_elem listelm (tqe_prev_update (\<lambda>_. Next_link elm)) q
   }"

definition TAILQ_INSERT_HEAD :: "'a \<Rightarrow> 'a tq_head \<Rightarrow> 'a tq_head option" where
  "TAILQ_INSERT_HEAD elm q = do {
     let nxt = TAILQ_FIRST q;
     q \<leftarrow> upd_elem elm (tqe_next_update (\<lambda>_. nxt)) q;
     q \<leftarrow> (case nxt of
        Some n \<Rightarrow> upd_elem n (tqe_prev_update (\<lambda>_. Next_link elm)) q
      | None \<Rightarrow> Some (q\<lparr>tqh_last := Next_link elm\<rparr>));
     upd_elem elm (tqe_prev_update (\<lambda>_. Head_link)) (q\<lparr>tqh_first := Some elm\<rparr>)
   }"

definition TAILQ_INSERT_TAIL :: "'a \<Rightarrow> 'a tq_head \<Rightarrow> 'a tq_head option" where
  "TAILQ_INSERT_TAIL elm q = do {
     q \<leftarrow> upd_elem elm (tqe_next_update (\<lambda>_. None)) q;
     q \<leftarrow> upd_elem elm (tqe_prev_update (\<lambda>_. tqh_last q)) q;
     q \<leftarrow> wr_link (tqh_last q) (Some elm) q;
     Some (q\<lparr>tqh_last := Next_link elm\<rparr>)
   }"

definition TAILQ_REMOVE :: "'a \<Rightarrow> 'a tq_head \<Rightarrow> 'a tq_head option" where
  "TAILQ_REMOVE elm q = do {
     e \<leftarrow> tq_elems q elm;
     q \<leftarrow> (case tqe_next e of
        Some n \<Rightarrow> upd_elem n (tqe_prev_update (\<lambda>_. tqe_prev e)) q
      | None \<Rightarrow> Some (q\<lparr>tqh_last := tqe_prev e\<rparr>));
     e \<leftarrow> tq_elems q elm;
     wr_link (tqe_prev e) (tqe_next e) q
   }"

text \<open>
  The last element and the one before an element: the address of \<open>tqe_next\<close> is read as the address of a head, whose second
  field is then \<open>tqe_prev\<close>.
\<close>

definition back_link :: "'a tq_link \<Rightarrow> 'a tq_head \<Rightarrow> 'a tq_link option" where
  "back_link l q = (case l of Null_link \<Rightarrow> None | Head_link \<Rightarrow> Some (tqh_last q) | Next_link a \<Rightarrow> map_option tqe_prev (tq_elems q a))"

definition TAILQ_LAST :: "'a tq_head \<Rightarrow> 'a option option" where
  "TAILQ_LAST q = do { l \<leftarrow> back_link (tqh_last q) q; rd_link q l }"

definition TAILQ_PREV :: "'a \<Rightarrow> 'a tq_head \<Rightarrow> 'a option option" where
  "TAILQ_PREV elm q = do { e \<leftarrow> tq_elems q elm; l \<leftarrow> back_link (tqe_prev e) q; rd_link q l }"

text \<open>The loop \<open>TAILQ_FOREACH\<close> with a body that does not change the queue: the elements it visits.\<close>

partial_function (option) tq_visit :: "'a option \<Rightarrow> 'a tq_head \<Rightarrow> 'a list option" where
  "tq_visit var q = (case var of None \<Rightarrow> Some [] | Some a \<Rightarrow> do { nxt \<leftarrow> TAILQ_NEXT a q; as \<leftarrow> tq_visit nxt q; Some (a # as) })"

definition TAILQ_FOREACH :: "'a tq_head \<Rightarrow> 'a list option" where
  "TAILQ_FOREACH q = tq_visit (TAILQ_FIRST q) q"

declare tq_visit.simps [code]

text \<open>
  A client that goes from element to element until one of them says stop; the result is the last element before, \<open>prev\<close> if
  there is none.
\<close>

partial_function (option) seq_walk :: "('a \<Rightarrow> 'a option option) \<Rightarrow> ('a \<Rightarrow> bool option) \<Rightarrow> 'a option \<Rightarrow> 'a option \<Rightarrow> 'a option option" where
  "seq_walk nxt stop prev item = (case item of
     None \<Rightarrow> Some prev
   | Some a \<Rightarrow> do { s \<leftarrow> stop a; if s then Some prev else do { i \<leftarrow> nxt a; seq_walk nxt stop (Some a) i } })"

declare seq_walk.simps [code]

section \<open>The elements of a queue\<close>

text \<open>
  What the queue stores: \<open>rl\<close> the pointer at a link, \<open>pv\<close> the field \<open>tqe_prev\<close> of an element. The pointers from \<open>l\<close> on
  lead through \<open>xs\<close> to the link \<open>l'\<close>.
\<close>

definition prev_of :: "'a tq_head \<Rightarrow> 'a \<Rightarrow> 'a tq_link option" where
  "prev_of q a = map_option tqe_prev (tq_elems q a)"

fun tq_seg :: "('a tq_link \<Rightarrow> 'a option option) \<Rightarrow> ('a \<Rightarrow> 'a tq_link option) \<Rightarrow> 'a tq_link \<Rightarrow> 'a list \<Rightarrow> 'a tq_link \<Rightarrow> bool" where
  "tq_seg rl pv l [] l' \<longleftrightarrow> l' = l"
| "tq_seg rl pv l (x # xs) l' \<longleftrightarrow> rl l = Some (Some x) \<and> pv x = Some l \<and> tq_seg rl pv (Next_link x) xs l'"

definition tq_at :: "'a tq_head \<Rightarrow> 'a list \<Rightarrow> bool" where
  "tq_at q xs \<longleftrightarrow> distinct xs \<and> tq_seg (rd_link q) (prev_of q) Head_link xs (tqh_last q) \<and> rd_link q (tqh_last q) = Some None"

definition end_link :: "'a tq_link \<Rightarrow> 'a list \<Rightarrow> 'a tq_link" where
  "end_link l xs = (if xs = [] then l else Next_link (last xs))"

lemma end_link_simps [simp]: "end_link l [] = l" "end_link l (x # xs) = end_link (Next_link x) xs" "end_link l (xs @ x # ys) = end_link (Next_link x) ys"
  by (simp_all add: end_link_def)

lemma link_image [simp]: "Head_link \<in> Next_link ` A \<longleftrightarrow> False" "Next_link a \<in> Next_link ` A \<longleftrightarrow> a \<in> A"
  by auto

lemma tq_seg_end: "tq_seg rl pv l xs l' \<Longrightarrow> l' = end_link l xs"
  by (induction xs arbitrary: l) simp_all

lemma tq_seg_append: "tq_seg rl pv l (xs @ ys) l' \<longleftrightarrow> tq_seg rl pv l xs (end_link l xs) \<and> tq_seg rl pv (end_link l xs) ys l'"
  by (induction xs arbitrary: l) auto

lemma tq_seg_prev: "tq_seg rl pv l xs l' \<Longrightarrow> x \<in> set xs \<Longrightarrow> pv x \<noteq> None"
  by (induction xs arbitrary: l) auto

text \<open>The segment depends only on the pointers in it.\<close>

lemma tq_seg_wr [simp]: "l0 \<noteq> l \<Longrightarrow> l0 \<notin> Next_link ` set xs \<Longrightarrow> tq_seg (rl(l0 := v)) pv l xs l' = tq_seg rl pv l xs l'"
  by (induction xs arbitrary: l) auto

lemma tq_seg_prev_wr [simp]: "a \<notin> set xs \<Longrightarrow> tq_seg rl (pv(a := v)) l xs l' = tq_seg rl pv l xs l'"
  by (induction xs arbitrary: l) auto

lemma tq_seg_wr_end [simp]:
  "distinct xs \<Longrightarrow> l \<notin> Next_link ` set xs \<Longrightarrow> tq_seg (rl(end_link l xs := v)) pv l xs l' = tq_seg rl pv l xs l'"
proof (induction xs arbitrary: l)
  case (Cons x xs)
  have "l \<noteq> end_link (Next_link x) xs" using Cons.prems(2) by (auto simp: end_link_def)
  then show ?case using Cons by auto
qed simp

lemma end_link_in: "end_link l xs = l \<or> end_link l xs \<in> Next_link ` set xs"
  by (simp add: end_link_def)

section \<open>What the writes change\<close>

lemma wr_link_ok:
  assumes "rd_link q l \<noteq> None"
  shows "\<exists>q'. wr_link l v q = Some q' \<and> rd_link q' = (rd_link q)(l := Some v) \<and> prev_of q' = prev_of q \<and> tqh_last q' = tqh_last q \<and>
    dom (tq_elems q') = dom (tq_elems q)"
  using assms by (cases l) (auto simp: wr_link_def upd_elem_def rd_link_def prev_of_def fun_eq_iff split: tq_link.splits)

lemma next_ok:
  assumes "tq_elems q a \<noteq> None"
  shows "\<exists>q'. upd_elem a (tqe_next_update (\<lambda>_. v)) q = Some q' \<and> rd_link q' = (rd_link q)(Next_link a := Some v) \<and> prev_of q' = prev_of q \<and>
    tqh_last q' = tqh_last q \<and> dom (tq_elems q') = dom (tq_elems q)"
  using wr_link_ok [of q "Next_link a" v] assms by (simp add: wr_link_def) (simp add: rd_link_def)

lemma prev_ok:
  assumes "tq_elems q a \<noteq> None"
  shows "\<exists>q'. upd_elem a (tqe_prev_update (\<lambda>_. l)) q = Some q' \<and> rd_link q' = rd_link q \<and> prev_of q' = (prev_of q)(a := Some l) \<and>
    tqh_last q' = tqh_last q \<and> dom (tq_elems q') = dom (tq_elems q)"
  using assms by (auto simp: upd_elem_def rd_link_def prev_of_def fun_eq_iff split: tq_link.splits)

lemma last_wr [simp]: "rd_link (q\<lparr>tqh_last := l\<rparr>) = rd_link q" "prev_of (q\<lparr>tqh_last := l\<rparr>) = prev_of q"
  by (auto simp: rd_link_def prev_of_def fun_eq_iff split: tq_link.splits)

section \<open>What the macros do to the elements\<close>

definition first_of :: "'a list \<Rightarrow> 'a option" where
  "first_of xs = (case xs of [] \<Rightarrow> None | x # xs \<Rightarrow> Some x)"

lemma first_of_simps [simp]: "first_of [] = None" "first_of (x # xs) = Some x"
  by (simp_all add: first_of_def)

lemma tq_seg_first: "tq_seg rl pv l xs l' \<Longrightarrow> rl l' = Some None \<Longrightarrow> rl l = Some (first_of xs)"
  by (cases xs) auto

text \<open>The pointers around an element.\<close>

lemma tq_at_split:
  assumes "tq_at q (as @ x # bs)"
  shows "\<exists>e. tq_elems q x = Some e \<and> tqe_prev e = end_link Head_link as \<and> tqe_next e = first_of bs \<and>
    tq_seg (rd_link q) (prev_of q) Head_link as (end_link Head_link as) \<and> rd_link q (end_link Head_link as) = Some (Some x) \<and>
    tq_seg (rd_link q) (prev_of q) (Next_link x) bs (tqh_last q) \<and> rd_link q (tqh_last q) = Some None \<and> distinct (as @ x # bs)"
proof -
  have at: "tq_seg (rd_link q) (prev_of q) Head_link (as @ x # bs) (tqh_last q)" "rd_link q (tqh_last q) = Some None" "distinct (as @ x # bs)"
    using assms by (simp_all add: tq_at_def)
  then have s: "tq_seg (rd_link q) (prev_of q) Head_link as (end_link Head_link as)" "rd_link q (end_link Head_link as) = Some (Some x)"
    "prev_of q x = Some (end_link Head_link as)" "tq_seg (rd_link q) (prev_of q) (Next_link x) bs (tqh_last q)" by (simp_all add: tq_seg_append)
  from tq_seg_first [OF s(4) at(2)] s(3) show ?thesis using s at(2,3) by (auto simp: prev_of_def rd_link_def)
qed

lemma tq_at_alloc: "tq_at q xs \<Longrightarrow> x \<in> set xs \<Longrightarrow> tq_elems q x \<noteq> None"
  using tq_seg_prev [of "rd_link q" "prev_of q" Head_link xs "tqh_last q" x] by (auto simp: tq_at_def prev_of_def)

lemma FIRST_law: "tq_at q xs \<Longrightarrow> TAILQ_FIRST q = first_of xs"
  using tq_seg_first [of "rd_link q" "prev_of q" Head_link xs "tqh_last q"] by (simp add: tq_at_def TAILQ_FIRST_def rd_link_def)

lemma NEXT_law: "tq_at q (as @ x # bs) \<Longrightarrow> TAILQ_NEXT x q = Some (first_of bs)"
  using tq_at_split [of q as x bs] by (auto simp: TAILQ_NEXT_def)

lemma INIT_law: "tq_at (TAILQ_INIT q) []"
  by (simp add: tq_at_def TAILQ_INIT_def rd_link_def)

lemma REMOVE_law:
  assumes "tq_at q (as @ x # bs)"
  shows "\<exists>q'. TAILQ_REMOVE x q = Some q' \<and> tq_at q' (as @ bs) \<and> dom (tq_elems q') = dom (tq_elems q)"
proof -
  let ?l = "end_link Head_link as"
  obtain e where e: "tq_elems q x = Some e" "tqe_prev e = ?l" "tqe_next e = first_of bs" "tq_seg (rd_link q) (prev_of q) Head_link as ?l"
    "rd_link q ?l = Some (Some x)" "tq_seg (rd_link q) (prev_of q) (Next_link x) bs (tqh_last q)" "rd_link q (tqh_last q) = Some None" "distinct (as @ x # bs)"
    using tq_at_split [OF assms] by blast
  have nl: "?l \<noteq> Next_link x" "?l \<notin> Next_link ` set bs" using e(8) last_in_set [of as] by (auto simp: end_link_def disjoint_iff)
  show ?thesis
  proof (cases bs)
    case Nil
    let ?q = "q\<lparr>tqh_last := ?l\<rparr>"
    from wr_link_ok [of ?q ?l None] e(5) obtain q' where q': "wr_link ?l None ?q = Some q'" "rd_link q' = (rd_link q)(?l := Some None)"
      "prev_of q' = prev_of q" "tqh_last q' = ?l" "dom (tq_elems q') = dom (tq_elems q)" by auto
    then have "TAILQ_REMOVE x q = Some q'" using e(1-3) Nil by (simp add: TAILQ_REMOVE_def)
    moreover have "tq_at q' (as @ bs)" using e(4,8) q' Nil by (simp add: tq_at_def)
    ultimately show ?thesis using q'(5) by blast
  next
    case (Cons y ys)
    then have y: "prev_of q y = Some (Next_link x)" "tq_seg (rd_link q) (prev_of q) (Next_link y) ys (tqh_last q)" using e(6) by simp_all
    then have ya: "tq_elems q y \<noteq> None" by (auto simp: prev_of_def)
    from prev_ok [OF ya, of ?l] obtain q1 where q1: "upd_elem y (tqe_prev_update (\<lambda>_. ?l)) q = Some q1" "rd_link q1 = rd_link q"
      "prev_of q1 = (prev_of q)(y := Some ?l)" "tqh_last q1 = tqh_last q" "dom (tq_elems q1) = dom (tq_elems q)" by blast
    from wr_link_ok [of q1 ?l "Some y"] e(5) q1(2) obtain q' where q': "wr_link ?l (Some y) q1 = Some q'" "rd_link q' = (rd_link q)(?l := Some (Some y))"
      "prev_of q' = (prev_of q)(y := Some ?l)" "tqh_last q' = tqh_last q" "dom (tq_elems q') = dom (tq_elems q)" using q1 by auto
    have "tq_elems q1 x = Some e" using q1(1) e(1,8) Cons by (auto simp: upd_elem_def)
    then have "TAILQ_REMOVE x q = Some q'" using e(1-3) Cons q1(1) q'(1) by (simp add: TAILQ_REMOVE_def)
    moreover have "tqh_last q \<noteq> ?l" using tq_seg_end [OF y(2)] nl Cons by (metis end_link_in image_insert insert_iff list.simps(15))
    then have "tq_at q' (as @ bs)" using e(4,7,8) q' y(2) nl Cons by (auto simp: tq_at_def tq_seg_append)
    ultimately show ?thesis using q'(5) by blast
  qed
qed

lemma INSERT_TAIL_law:
  assumes "tq_at q xs" and "tq_elems q a \<noteq> None" and "a \<notin> set xs"
  shows "\<exists>q'. TAILQ_INSERT_TAIL a q = Some q' \<and> tq_at q' (xs @ [a]) \<and> dom (tq_elems q') = dom (tq_elems q)"
proof -
  let ?l = "end_link Head_link xs"
  have at: "distinct xs" "tq_seg (rd_link q) (prev_of q) Head_link xs ?l" "rd_link q ?l = Some None" "tqh_last q = ?l"
    using assms(1) tq_seg_end by (force simp: tq_at_def)+
  have nl: "?l \<noteq> Next_link a" using assms(3) last_in_set [of xs] by (auto simp: end_link_def)
  from next_ok [OF assms(2), of None] obtain q1 where q1: "upd_elem a (tqe_next_update (\<lambda>_. None)) q = Some q1" "rd_link q1 = (rd_link q)(Next_link a := Some None)"
    "prev_of q1 = prev_of q" "tqh_last q1 = ?l" "dom (tq_elems q1) = dom (tq_elems q)" using at(4) by auto
  then have "tq_elems q1 a \<noteq> None" using assms(2) by blast
  from prev_ok [OF this, of ?l] q1 obtain q2 where q2: "upd_elem a (tqe_prev_update (\<lambda>_. ?l)) q1 = Some q2" "rd_link q2 = (rd_link q)(Next_link a := Some None)"
    "prev_of q2 = (prev_of q)(a := Some ?l)" "tqh_last q2 = ?l" "dom (tq_elems q2) = dom (tq_elems q)" by auto
  then have "rd_link q2 ?l \<noteq> None" using at(3) nl by simp
  from wr_link_ok [OF this, of "Some a"] q2 obtain q3 where q3: "wr_link ?l (Some a) q2 = Some q3" "rd_link q3 = (rd_link q)(Next_link a := Some None, ?l := Some (Some a))"
    "prev_of q3 = (prev_of q)(a := Some ?l)" "dom (tq_elems q3) = dom (tq_elems q)" by auto
  have "TAILQ_INSERT_TAIL a q = Some (q3\<lparr>tqh_last := Next_link a\<rparr>)" using q1(1,4) q2(1,4) q3(1) by (simp add: TAILQ_INSERT_TAIL_def)
  moreover have "tq_at (q3\<lparr>tqh_last := Next_link a\<rparr>) (xs @ [a])"
    using at(1,2) q3(2,3) nl assms(3) by (auto simp: tq_at_def tq_seg_append)
  ultimately show ?thesis using q3(4) by auto
qed

lemma INSERT_AFTER_law:
  assumes "tq_at q (as @ x # bs)" and "tq_elems q a \<noteq> None" and "a \<notin> set (as @ x # bs)"
  shows "\<exists>q'. TAILQ_INSERT_AFTER x a q = Some q' \<and> tq_at q' (as @ x # a # bs) \<and> dom (tq_elems q') = dom (tq_elems q)"
proof -
  let ?l = "end_link Head_link as" and ?n = "first_of bs"
  obtain e where e: "tq_elems q x = Some e" "tq_seg (rd_link q) (prev_of q) Head_link as ?l" "rd_link q ?l = Some (Some x)" "tqe_prev e = ?l"
    "tq_seg (rd_link q) (prev_of q) (Next_link x) bs (tqh_last q)" "rd_link q (tqh_last q) = Some None" "distinct (as @ x # bs)"
    using tq_at_split [OF assms(1)] by blast
  have nl: "?l \<noteq> Next_link x" "?l \<noteq> Next_link a" using e(7) assms(3) last_in_set [of as] by (auto simp: end_link_def)
  have p: "prev_of q x = Some ?l" using e(1,4) by (simp add: prev_of_def)
  from next_ok [OF assms(2), of ?n] obtain q1 where q1: "upd_elem a (tqe_next_update (\<lambda>_. ?n)) q = Some q1" "rd_link q1 = (rd_link q)(Next_link a := Some ?n)"
    "prev_of q1 = prev_of q" "tqh_last q1 = tqh_last q" "dom (tq_elems q1) = dom (tq_elems q)" by blast
  let ?lst = "if bs = [] then Next_link a else tqh_last q" and ?pv = "case bs of [] \<Rightarrow> prev_of q | y # ys \<Rightarrow> (prev_of q)(y := Some (Next_link a))"
  have "\<exists>q2. (case ?n of Some n \<Rightarrow> upd_elem n (tqe_prev_update (\<lambda>_. Next_link a)) q1 | None \<Rightarrow> Some (q1\<lparr>tqh_last := Next_link a\<rparr>)) = Some q2 \<and>
    rd_link q2 = rd_link q1 \<and> prev_of q2 = ?pv \<and> tqh_last q2 = ?lst \<and> dom (tq_elems q2) = dom (tq_elems q)"
  proof (cases bs)
    case (Cons y ys)
    then have "prev_of q y \<noteq> None" using e(5) by simp
    then have "tq_elems q1 y \<noteq> None" using q1(5) by (auto simp: prev_of_def)
    then show ?thesis using prev_ok [of q1 y "Next_link a"] q1 Cons by auto
  qed (use q1 in auto)
  then obtain q2 where q2: "(case ?n of Some n \<Rightarrow> upd_elem n (tqe_prev_update (\<lambda>_. Next_link a)) q1 | None \<Rightarrow> Some (q1\<lparr>tqh_last := Next_link a\<rparr>)) = Some q2"
    "rd_link q2 = rd_link q1" "prev_of q2 = ?pv" "tqh_last q2 = ?lst" "dom (tq_elems q2) = dom (tq_elems q)" by blast
  then have "tq_elems q2 x \<noteq> None" using e(1) by blast
  from next_ok [OF this, of "Some a"] q1(2) q2 obtain q3 where q3: "upd_elem x (tqe_next_update (\<lambda>_. Some a)) q2 = Some q3"
    "rd_link q3 = (rd_link q)(Next_link a := Some ?n, Next_link x := Some (Some a))" "prev_of q3 = ?pv" "tqh_last q3 = ?lst" "dom (tq_elems q3) = dom (tq_elems q)" by auto
  then have "tq_elems q3 a \<noteq> None" using assms(2) by blast
  from prev_ok [OF this, of "Next_link x"] q3 obtain q4 where q4: "upd_elem a (tqe_prev_update (\<lambda>_. Next_link x)) q3 = Some q4"
    "rd_link q4 = (rd_link q)(Next_link a := Some ?n, Next_link x := Some (Some a))" "prev_of q4 = ?pv(a := Some (Next_link x))" "tqh_last q4 = ?lst"
    "dom (tq_elems q4) = dom (tq_elems q)" by auto
  have "TAILQ_INSERT_AFTER x a q = Some q4" using NEXT_law [OF assms(1)] q1(1) q2(1) q3(1) q4(1) by (simp add: TAILQ_INSERT_AFTER_def)
  moreover have "tq_at q4 (as @ x # a # bs)"
  proof (cases bs)
    case Nil
    then show ?thesis using e q4 p nl assms(3) by (auto simp: tq_at_def tq_seg_append)
  next
    case (Cons y ys)
    then have y: "tq_seg (rd_link q) (prev_of q) (Next_link y) ys (tqh_last q)" using e(5) by simp
    then have "tqh_last q = end_link (Next_link y) ys" by (rule tq_seg_end)
    then have "tqh_last q \<in> Next_link ` set bs" using end_link_in [of "Next_link y" ys] Cons by auto
    then have "tqh_last q \<noteq> Next_link x" "tqh_last q \<noteq> Next_link a" using e(7) assms(3) by auto
    with y show ?thesis using e(2,3,6,7) q4(2-4) p nl assms(3) Cons by (simp add: tq_at_def tq_seg_append) blast
  qed
  ultimately show ?thesis using q4(5) by blast
qed

lemma INSERT_BEFORE_law:
  assumes "tq_at q (as @ x # bs)" and "tq_elems q a \<noteq> None" and "a \<notin> set (as @ x # bs)"
  shows "\<exists>q'. TAILQ_INSERT_BEFORE x a q = Some q' \<and> tq_at q' (as @ a # x # bs) \<and> dom (tq_elems q') = dom (tq_elems q)"
proof -
  let ?l = "end_link Head_link as"
  obtain e where e: "tq_elems q x = Some e" "tqe_prev e = ?l" "tq_seg (rd_link q) (prev_of q) Head_link as ?l" "rd_link q ?l = Some (Some x)"
    "tq_seg (rd_link q) (prev_of q) (Next_link x) bs (tqh_last q)" "rd_link q (tqh_last q) = Some None" "distinct (as @ x # bs)"
    using tq_at_split [OF assms(1)] by blast
  have nl: "?l \<noteq> Next_link x" "?l \<noteq> Next_link a" "?l \<notin> Next_link ` set bs"
    using e(7) assms(3) last_in_set [of as] by (auto simp: end_link_def disjoint_iff)
  from prev_ok [OF assms(2), of ?l] obtain q1 where q1: "upd_elem a (tqe_prev_update (\<lambda>_. ?l)) q = Some q1" "rd_link q1 = rd_link q"
    "prev_of q1 = (prev_of q)(a := Some ?l)" "tqh_last q1 = tqh_last q" "dom (tq_elems q1) = dom (tq_elems q)" by blast
  then have "tq_elems q1 a \<noteq> None" using assms(2) by blast
  from next_ok [OF this, of "Some x"] q1 obtain q2 where q2: "upd_elem a (tqe_next_update (\<lambda>_. Some x)) q1 = Some q2"
    "rd_link q2 = (rd_link q)(Next_link a := Some (Some x))" "prev_of q2 = (prev_of q)(a := Some ?l)" "tqh_last q2 = tqh_last q"
    "dom (tq_elems q2) = dom (tq_elems q)" by auto
  have x2: "tq_elems q2 x = Some e" using q1(1) q2(1) e(1) assms(3) by (auto simp: upd_elem_def)
  have "rd_link q2 ?l \<noteq> None" using q2(2) e(4) nl by simp
  from wr_link_ok [OF this, of "Some a"] q2 obtain q3 where q3: "wr_link ?l (Some a) q2 = Some q3"
    "rd_link q3 = (rd_link q)(Next_link a := Some (Some x), ?l := Some (Some a))" "prev_of q3 = (prev_of q)(a := Some ?l)" "tqh_last q3 = tqh_last q"
    "dom (tq_elems q3) = dom (tq_elems q)" by auto
  then have "tq_elems q3 x \<noteq> None" using e(1) by blast
  from prev_ok [OF this, of "Next_link a"] q3 obtain q4 where q4: "upd_elem x (tqe_prev_update (\<lambda>_. Next_link a)) q3 = Some q4"
    "rd_link q4 = (rd_link q)(Next_link a := Some (Some x), ?l := Some (Some a))" "prev_of q4 = (prev_of q)(a := Some ?l, x := Some (Next_link a))"
    "tqh_last q4 = tqh_last q" "dom (tq_elems q4) = dom (tq_elems q)" by auto
  have ins: "TAILQ_INSERT_BEFORE x a q = Some q4" using e(1,2) q1(1) q2(1) x2 q3(1) q4(1) by (simp add: TAILQ_INSERT_BEFORE_def)
  have last: "tqh_last q = end_link (Next_link x) bs" using tq_seg_end [OF e(5)] .
  have "tqh_last q \<in> Next_link ` set (x # bs)" using end_link_in [of "Next_link x" bs] last by auto
  moreover have "Next_link a \<notin> Next_link ` set (x # bs)" "?l \<notin> Next_link ` set (x # bs)" using assms(3) nl by simp_all
  ultimately have "tqh_last q \<noteq> Next_link a" "tqh_last q \<noteq> ?l" by metis+
  then have "tq_at q4 (as @ a # x # bs)" using e(3,5-7) q4(2-4) nl assms(3) by (simp add: tq_at_def tq_seg_append)
  then show ?thesis using ins q4(5) by blast
qed

lemma INSERT_HEAD_law:
  assumes "tq_at q xs" and "tq_elems q a \<noteq> None" and "a \<notin> set xs"
  shows "\<exists>q'. TAILQ_INSERT_HEAD a q = Some q' \<and> tq_at q' (a # xs) \<and> dom (tq_elems q') = dom (tq_elems q)"
proof (cases xs)
  case Nil
  then have "tqh_last q = Head_link" "tqh_first q = None" using assms(1) by (auto simp: tq_at_def rd_link_def)
  then show ?thesis using assms(2) Nil
    by (auto simp: TAILQ_INSERT_HEAD_def TAILQ_FIRST_def upd_elem_def tq_at_def rd_link_def prev_of_def)
next
  case (Cons x bs)
  have f: "tqh_first q = Some x" using FIRST_law [OF assms(1)] Cons by (simp add: TAILQ_FIRST_def)
  obtain e where e: "tq_elems q x = Some e" "tqe_prev e = Head_link" using tq_at_split [of q "[]" x bs] assms(1) Cons by auto
  obtain e' where e': "tq_elems q a = Some e'" using assms(2) by blast
  have "TAILQ_INSERT_BEFORE x a q = TAILQ_INSERT_HEAD a q"
    using f e e' assms(3) Cons by (cases e') (auto simp: TAILQ_INSERT_HEAD_def TAILQ_INSERT_BEFORE_def TAILQ_FIRST_def upd_elem_def wr_link_def fun_upd_twist)
  then show ?thesis using INSERT_BEFORE_law [of q "[]" x bs a] assms Cons by simp
qed

text \<open>The way back: the last element, and the one before an element, NULL for the first.\<close>

lemma PREV_law: "tq_at q (as @ y # x # bs) \<Longrightarrow> TAILQ_PREV x q = Some (Some y)"
  using tq_at_split [of q "as @ [y]" x bs] tq_at_split [of q as y "x # bs"] by (auto simp: TAILQ_PREV_def back_link_def)

lemma PREV_first: "tq_at q (x # bs) \<Longrightarrow> TAILQ_PREV x q = Some None"
  using tq_at_split [of q "[]" x bs] by (auto simp: TAILQ_PREV_def back_link_def)

lemma LAST_law: "tq_at q xs \<Longrightarrow> TAILQ_LAST q = Some (if xs = [] then None else Some (last xs))"
proof (cases xs rule: rev_cases)
  case (snoc as x)
  assume at: "tq_at q xs"
  then have "tqh_last q = Next_link x" using tq_seg_end snoc by (force simp: tq_at_def)
  then show ?thesis using tq_at_split [of q as x "[]"] at snoc by (auto simp: TAILQ_LAST_def back_link_def)
qed (auto simp: TAILQ_LAST_def back_link_def tq_at_def)

text \<open>Elements outside of the queue may come and go.\<close>

lemma tq_at_elems:
  assumes "tq_at q xs" and "\<forall>x \<in> set xs. elems x = tq_elems q x"
  shows "tq_at (q\<lparr>tq_elems := elems\<rparr>) xs"
proof -
  have "tq_seg (rd_link (q\<lparr>tq_elems := elems\<rparr>)) (prev_of (q\<lparr>tq_elems := elems\<rparr>)) l xs l' = tq_seg (rd_link q) (prev_of q) l xs l'"
    if "rd_link (q\<lparr>tq_elems := elems\<rparr>) l = rd_link q l" for l l'
    using that assms(2) by (induction xs arbitrary: l) (auto simp: rd_link_def prev_of_def)
  moreover have "tqh_last q = end_link Head_link xs" using assms(1) tq_seg_end by (force simp: tq_at_def)
  then have "rd_link (q\<lparr>tq_elems := elems\<rparr>) (tqh_last q) = rd_link q (tqh_last q)"
    using assms(2) end_link_in [of Head_link xs] by (auto simp: rd_link_def)
  ultimately show ?thesis using assms(1) by (simp add: tq_at_def rd_link_def)
qed

lemma tq_at_free: "tq_at q xs \<Longrightarrow> a \<notin> set xs \<Longrightarrow> tq_at (q\<lparr>tq_elems := (tq_elems q)(a := v)\<rparr>) xs"
  by (rule tq_at_elems) auto

section \<open>The interface for clients that go through a queue\<close>

definition last_opt :: "'a option \<Rightarrow> 'a list \<Rightarrow> 'a option" where
  "last_opt prev xs = (if xs = [] then prev else Some (last xs))"

lemma last_opt_simps [simp]: "last_opt prev [] = prev" "last_opt prev (x # xs) = last_opt (Some x) xs"
  by (simp_all add: last_opt_def)

locale linked_seq =
  fixes holds :: "'q \<Rightarrow> 'a list \<Rightarrow> bool"
    and first :: "'q \<Rightarrow> 'a option"
    and nxt :: "'a \<Rightarrow> 'q \<Rightarrow> 'a option option"
  assumes first_law: "holds q xs \<Longrightarrow> first q = first_of xs"
    and next_law: "holds q (as @ x # bs) \<Longrightarrow> nxt x q = Some (first_of bs)"
begin

lemma walk_from:
  assumes "holds q (as @ bs)" and "\<forall>b \<in> set bs. stop b = Some (s b)"
  shows "seq_walk (\<lambda>a. nxt a q) stop prev (first_of bs) = Some (last_opt prev (takeWhile (\<lambda>b. \<not> s b) bs))"
  using assms
proof (induction bs arbitrary: as prev)
  case Nil
  then show ?case by (simp add: seq_walk.simps)
next
  case (Cons b bs)
  have "holds q ((as @ [b]) @ bs)" using Cons.prems(1) by simp
  from Cons.IH [OF this] Cons.prems(2) next_law [of q as b bs] Cons.prems(1) show ?case by (subst seq_walk.simps) simp
qed

lemma walk_all: "holds q xs \<Longrightarrow> \<forall>x \<in> set xs. stop x = Some (s x) \<Longrightarrow>
    seq_walk (\<lambda>a. nxt a q) stop None (first q) = Some (last_opt None (takeWhile (\<lambda>b. \<not> s b) xs))"
  using walk_from [of q "[]" xs stop s None] first_law [of q xs] by simp

end

interpretation tq: linked_seq tq_at TAILQ_FIRST TAILQ_NEXT
  by unfold_locales (rule FIRST_law NEXT_law, assumption)+

lemma FOREACH_law: "tq_at q xs \<Longrightarrow> TAILQ_FOREACH q = Some xs"
proof -
  have "tq_visit (first_of bs) q = Some bs" if "tq_at q (as @ bs)" for as bs
    using that
  proof (induction bs arbitrary: as)
    case (Cons b bs)
    have "tq_visit (first_of bs) q = Some bs" using Cons.IH [of "as @ [b]"] Cons.prems by simp
    then show ?case using tq.next_law [OF Cons.prems] by (simp add: tq_visit.simps)
  qed (simp add: tq_visit.simps)
  from this [of "[]" xs] show "tq_at q xs \<Longrightarrow> TAILQ_FOREACH q = Some xs" using tq.first_law [of q xs] by (simp add: TAILQ_FOREACH_def)
qed

section \<open>Tail queues and lists\<close>

datatype 'a tq_op = Q_head 'a | Q_tail 'a | Q_after 'a 'a | Q_before 'a 'a | Q_remove 'a

fun tq_exec :: "'a tq_op \<Rightarrow> 'a tq_head \<Rightarrow> 'a tq_head option" where
  "tq_exec (Q_head a) q = TAILQ_INSERT_HEAD a q"
| "tq_exec (Q_tail a) q = TAILQ_INSERT_TAIL a q"
| "tq_exec (Q_after x a) q = TAILQ_INSERT_AFTER x a q"
| "tq_exec (Q_before x a) q = TAILQ_INSERT_BEFORE x a q"
| "tq_exec (Q_remove x) q = TAILQ_REMOVE x q"

fun tq_run :: "'a tq_op list \<Rightarrow> 'a tq_head \<Rightarrow> 'a tq_head option" where
  "tq_run [] q = Some q"
| "tq_run (c # cs) q = do { q \<leftarrow> tq_exec c q; tq_run cs q }"

text \<open>The same on a list. A call is allowed if it inserts no element twice and refers to elements of the list.\<close>

fun seq_ok :: "'a tq_op \<Rightarrow> 'a list \<Rightarrow> bool" where
  "seq_ok (Q_head a) xs \<longleftrightarrow> a \<notin> set xs"
| "seq_ok (Q_tail a) xs \<longleftrightarrow> a \<notin> set xs"
| "seq_ok (Q_after x a) xs \<longleftrightarrow> x \<in> set xs \<and> a \<notin> set xs"
| "seq_ok (Q_before x a) xs \<longleftrightarrow> x \<in> set xs \<and> a \<notin> set xs"
| "seq_ok (Q_remove x) xs \<longleftrightarrow> x \<in> set xs"

fun seq_exec :: "'a tq_op \<Rightarrow> 'a list \<Rightarrow> 'a list" where
  "seq_exec (Q_head a) xs = a # xs"
| "seq_exec (Q_tail a) xs = xs @ [a]"
| "seq_exec (Q_after x a) xs = concat (map (\<lambda>y. if y = x then [y, a] else [y]) xs)"
| "seq_exec (Q_before x a) xs = concat (map (\<lambda>y. if y = x then [a, y] else [y]) xs)"
| "seq_exec (Q_remove x) xs = remove1 x xs"

fun seq_oks :: "'a tq_op list \<Rightarrow> 'a list \<Rightarrow> bool" where
  "seq_oks [] xs \<longleftrightarrow> True"
| "seq_oks (c # cs) xs \<longleftrightarrow> seq_ok c xs \<and> seq_oks cs (seq_exec c xs)"

definition seq_run :: "'a tq_op list \<Rightarrow> 'a list \<Rightarrow> 'a list" where
  "seq_run cs xs = fold seq_exec cs xs"

lemma concat_map_split:
  assumes "x \<notin> set as" and "x \<notin> set bs"
  shows "concat (map (\<lambda>y. if y = x then f y else [y]) (as @ x # bs)) = as @ f x @ bs"
proof -
  have "concat (map (\<lambda>y. if y = x then f y else [y]) cs) = cs" if "x \<notin> set cs" for cs
    using that by (induction cs) auto
  then show ?thesis using assms by simp
qed

lemma seq_exec_split:
  assumes "distinct (as @ x # bs)"
  shows "seq_exec (Q_after x a) (as @ x # bs) = as @ x # a # bs" "seq_exec (Q_before x a) (as @ x # bs) = as @ a # x # bs"
    "seq_exec (Q_remove x) (as @ x # bs) = as @ bs"
  using assms concat_map_split [of x as bs "\<lambda>y. [y, a]"] concat_map_split [of x as bs "\<lambda>y. [a, y]"] by (simp_all add: remove1_append)

lemma tq_exec_ok:
  assumes "tq_at q xs" and "seq_ok c xs" and "\<forall>a \<in> set_tq_op c. tq_elems q a \<noteq> None"
  shows "\<exists>q'. tq_exec c q = Some q' \<and> tq_at q' (seq_exec c xs) \<and> dom (tq_elems q') = dom (tq_elems q)"
proof (cases c)
  case (Q_after x a)
  then obtain as bs where xs: "xs = as @ x # bs" using assms(2) by (auto dest: split_list)
  have "distinct xs" using assms(1) by (simp add: tq_at_def)
  then show ?thesis using INSERT_AFTER_law [of q as x bs a] assms Q_after seq_exec_split(1) [of as x bs a] xs by simp
next
  case (Q_before x a)
  then obtain as bs where xs: "xs = as @ x # bs" using assms(2) by (auto dest: split_list)
  have "distinct xs" using assms(1) by (simp add: tq_at_def)
  then show ?thesis using INSERT_BEFORE_law [of q as x bs a] assms Q_before seq_exec_split(2) [of as x bs a] xs by simp
next
  case (Q_remove x)
  then obtain as bs where xs: "xs = as @ x # bs" using assms(2) by (auto dest: split_list)
  have "distinct xs" using assms(1) by (simp add: tq_at_def)
  then show ?thesis using REMOVE_law [of q as x bs] assms(1) Q_remove seq_exec_split(3) [of as x bs] xs by simp
qed (use assms INSERT_HEAD_law [of q xs] INSERT_TAIL_law [of q xs] in auto)

lemma tq_run_ok:
  assumes "tq_at q xs" and "seq_oks cs xs" and "\<forall>c \<in> set cs. \<forall>a \<in> set_tq_op c. tq_elems q a \<noteq> None"
  shows "\<exists>q'. tq_run cs q = Some q' \<and> tq_at q' (seq_run cs xs)"
  using assms
proof (induction cs arbitrary: q xs)
  case (Cons c cs)
  then obtain q1 where 1: "tq_exec c q = Some q1" "tq_at q1 (seq_exec c xs)" "dom (tq_elems q1) = dom (tq_elems q)" using tq_exec_ok by force
  then have "\<forall>c \<in> set cs. \<forall>a \<in> set_tq_op c. tq_elems q1 a \<noteq> None" using Cons.prems(3) by (auto simp: dom_def set_eq_iff)
  then show ?case using Cons.IH [OF 1(2)] Cons.prems(2) 1(1) by (auto simp: seq_run_def)
qed (simp add: seq_run_def)

text \<open>
  \<open>C13\<close>: the pointers of a tail queue behave as a list: after \<open>TAILQ_INIT\<close> and any sequence of insertions at the head, at the
  tail, after and before an element and of removals that inserts no element twice and refers to elements of the queue,
  \<open>TAILQ_FOREACH\<close> visits the elements of the list that the same operations give, and \<open>TAILQ_LAST\<close> is its last one.
\<close>

theorem tailq_is_list:
  assumes "seq_oks cs []" and "\<forall>c \<in> set cs. \<forall>a \<in> set_tq_op c. tq_elems q a \<noteq> None"
  shows "\<exists>q'. tq_run cs (TAILQ_INIT q) = Some q' \<and> TAILQ_FOREACH q' = Some (seq_run cs []) \<and>
    TAILQ_LAST q' = Some (last_opt None (seq_run cs [])) \<and> TAILQ_EMPTY q' = (seq_run cs [] = [])"
proof -
  have "\<forall>c \<in> set cs. \<forall>a \<in> set_tq_op c. tq_elems (TAILQ_INIT q) a \<noteq> None" using assms(2) by (simp add: TAILQ_INIT_def)
  from tq_run_ok [OF INIT_law assms(1) this] obtain q' where q': "tq_run cs (TAILQ_INIT q) = Some q'" "tq_at q' (seq_run cs [])" by blast
  have "TAILQ_EMPTY q' = (seq_run cs [] = [])" using FIRST_law [OF q'(2)] by (cases "seq_run cs []") (auto simp: TAILQ_EMPTY_def TAILQ_FIRST_def)
  then show ?thesis using q' FOREACH_law LAST_law by (fastforce simp: last_opt_def)
qed

theorem tailq_is_list_witness:
  "\<exists>q'. tq_run [Q_tail 1, Q_head 2, Q_after 2 3, Q_remove 1] (TAILQ_INIT \<lparr>tqh_first = None, tqh_last = Null_link, tq_elems = (\<lambda>a :: nat. Some \<lparr>tqe_next = None, tqe_prev = Null_link\<rparr>)\<rparr>) = Some q' \<and>
    TAILQ_FOREACH q' = Some [2, 3]"
proof -
  have "seq_oks [Q_tail 1, Q_head 2, Q_after 2 3, Q_remove (1 :: nat)] []" "seq_run [Q_tail 1, Q_head 2, Q_after 2 3, Q_remove (1 :: nat)] [] = [2, 3]"
    by (simp_all add: seq_run_def)
  then show ?thesis
    using tailq_is_list [of "[Q_tail 1, Q_head 2, Q_after 2 3, Q_remove 1]" "\<lparr>tqh_first = None, tqh_last = Null_link, tq_elems = (\<lambda>a :: nat. Some \<lparr>tqe_next = None, tqe_prev = Null_link\<rparr>)\<rparr>"]
    by auto
qed

end
