(* ===== verification/Skiplist.thy ===== *)
theory Skiplist
  imports Tailq Comparators
begin

text \<open>
  Model of \<open>src/src/skiplist.c\<close>: items with keys in a list of layers, each of them a tail queue. An item has one
  wrapper per layer; the wrapper of the item \<open>a\<close> for the layer \<open>i\<close> is the element \<open>a\<close> of the queue \<open>i\<close>. A key with its
  length is one value of type \<open>'k\<close>. The results of \<open>random()\<close> are an argument of the insertion; the calls of the
  release callback are recorded in \<open>sk_freed\<close>.
\<close>

section \<open>Data\<close>

record ('k, 'v) skl_item_t =
  si_key :: 'k
  si_value :: 'v
  si_layer_check :: "bool list"

record ('k, 'v) skiplist_t =
  sk_num_layers :: int
  sk_probability :: int
  sk_cmp_keys_cb :: "'k \<Rightarrow> 'k \<Rightarrow> int"
  sk_free_value_cb :: bool
  sk_layers :: "nat tq_head list"
  sk_count :: nat
  sk_items :: "nat \<rightharpoonup> ('k, 'v) skl_item_t"
  sk_brk :: nat
  sk_freed :: "'v list"

section \<open>Creation and search\<close>

text \<open>
  \<open>fail\<close> says that one of the two allocations fails; that for a negative number of layers always does.
\<close>

definition skiplist_create :: "bool \<Rightarrow> int \<Rightarrow> int \<Rightarrow> ('k \<Rightarrow> 'k \<Rightarrow> int) \<Rightarrow> bool \<Rightarrow> ('k, 'v) skiplist_t option" where
  "skiplist_create fail num_layers probability cmp cb =
     (if fail \<or> num_layers < 0 then None
      else Some \<lparr>sk_num_layers = num_layers, sk_probability = probability, sk_cmp_keys_cb = cmp, sk_free_value_cb = cb,
             sk_layers = replicate (nat num_layers) (TAILQ_INIT \<lparr>tqh_first = None, tqh_last = Null_link, tq_elems = Map.empty\<rparr>),
             sk_count = 0, sk_items = Map.empty, sk_brk = 0, sk_freed = []\<rparr>)"

definition cmp_item :: "('k, 'v) skiplist_t \<Rightarrow> 'k \<Rightarrow> nat \<Rightarrow> int option" where
  "cmp_item skl key a = map_option (\<lambda>it. sk_cmp_keys_cb skl (si_key it) key) (sk_items skl a)"

text \<open>The loop over the layers, from the layer below \<open>i\<close> down to the first one.\<close>

fun search_layers :: "('k, 'v) skiplist_t \<Rightarrow> 'k \<Rightarrow> nat \<Rightarrow> nat option \<Rightarrow> nat option list \<Rightarrow> (nat option \<times> nat option list) option" where
  "search_layers skl key 0 prev_item path = Some (prev_item, path)"
| "search_layers skl key (Suc i) prev_item path = do {
     q \<leftarrow> rd (sk_layers skl) (int i);
     item \<leftarrow> (case prev_item of Some p \<Rightarrow> TAILQ_NEXT p q | None \<Rightarrow> Some (TAILQ_FIRST q));
     prev_item \<leftarrow> seq_walk (\<lambda>a. TAILQ_NEXT a q) (\<lambda>a. map_option (\<lambda>c. c > 0) (cmp_item skl key a)) prev_item item;
     search_layers skl key i prev_item (path[i := prev_item])
   }"

definition skiplist_search_internal :: "('k, 'v) skiplist_t \<Rightarrow> 'k \<Rightarrow> (nat option \<times> nat option list) option" where
  "skiplist_search_internal skl key = search_layers skl key (nat (sk_num_layers skl)) None (replicate (nat (sk_num_layers skl)) None)"

text \<open>The item that the search found, if its key is the one looked for.\<close>

definition found_item :: "('k, 'v) skiplist_t \<Rightarrow> 'k \<Rightarrow> nat option \<Rightarrow> nat option option" where
  "found_item skl key prev_item = (case prev_item of
     None \<Rightarrow> Some None
   | Some a \<Rightarrow> do { c \<leftarrow> cmp_item skl key a; Some (if c = 0 then Some a else None) })"

definition skiplist_search :: "('k, 'v) skiplist_t \<Rightarrow> 'k \<Rightarrow> 'v option option" where
  "skiplist_search skl key = do {
     (prev_item, _) \<leftarrow> skiplist_search_internal skl key;
     found \<leftarrow> found_item skl key prev_item;
     case found of None \<Rightarrow> Some None | Some a \<Rightarrow> map_option (\<lambda>it. Some (si_value it)) (sk_items skl a)
   }"

section \<open>Insertion\<close>

definition insert_wrapper :: "nat option \<Rightarrow> nat \<Rightarrow> nat tq_head \<Rightarrow> nat tq_head option" where
  "insert_wrapper prev a q = (case prev of Some p \<Rightarrow> TAILQ_INSERT_AFTER p a q | None \<Rightarrow> TAILQ_INSERT_TAIL a q)"

text \<open>
  The upper layers \<open>is\<close>: \<open>coin\<close> says that all throws so far were in favour, \<open>rnd i\<close> is the result of \<open>random()\<close> for the
  layer \<open>i\<close>.
\<close>

fun raise_layers :: "(nat \<Rightarrow> nat) \<Rightarrow> int \<Rightarrow> nat option list \<Rightarrow> nat \<Rightarrow> nat list \<Rightarrow> bool \<Rightarrow> nat tq_head list \<Rightarrow> bool list \<Rightarrow>
    (nat tq_head list \<times> bool list) option" where
  "raise_layers rnd probability path a [] coin layers check = Some (layers, check)"
| "raise_layers rnd probability path a (i # is) coin layers check = do {
     let coin = (coin \<and> int (rnd i mod 100) > probability);
     if coin then do {
       prev \<leftarrow> rd path (int i);
       q \<leftarrow> rd layers (int i);
       q \<leftarrow> insert_wrapper prev a q;
       raise_layers rnd probability path a is coin (layers[i := q]) (check[i := True])
     } else raise_layers rnd probability path a is coin layers check
   }"

definition alloc_wrappers :: "nat \<Rightarrow> nat tq_head list \<Rightarrow> nat tq_head list" where
  "alloc_wrappers a layers = map (\<lambda>q. q\<lparr>tq_elems := (tq_elems q)(a \<mapsto> \<lparr>tqe_next = None, tqe_prev = Null_link\<rparr>)\<rparr>) layers"

text \<open>
  \<open>fail_path\<close> says that the allocation of the path fails, \<open>fail_item\<close> that one of those for the new item does.
\<close>

definition skiplist_insert :: "bool \<Rightarrow> bool \<Rightarrow> (nat \<Rightarrow> nat) \<Rightarrow> 'k \<Rightarrow> 'v \<Rightarrow> ('k, 'v) skiplist_t \<Rightarrow> (int \<times> ('k, 'v) skiplist_t) option" where
  "skiplist_insert fail_path fail_item rnd key value skl =
     (if fail_path then Some (- 1, skl)
      else do {
        (prev_item, path) \<leftarrow> skiplist_search_internal skl key;
        found \<leftarrow> found_item skl key prev_item;
        case found of
          Some a \<Rightarrow> do {
            it \<leftarrow> sk_items skl a;
            Some (1, skl\<lparr>sk_items := (sk_items skl)(a \<mapsto> it\<lparr>si_value := value\<rparr>),
                         sk_freed := sk_freed skl @ (if sk_free_value_cb skl then [si_value it] else [])\<rparr>)
          }
        | None \<Rightarrow>
            if fail_item then Some (- 1, skl)
            else do {
              let a = sk_brk skl;
              let n = nat (sk_num_layers skl);
              let layers = alloc_wrappers a (sk_layers skl);
              q \<leftarrow> rd layers 0;
              q \<leftarrow> insert_wrapper prev_item a q;
              (layers, check) \<leftarrow> raise_layers rnd (sk_probability skl) path a [1..<n] True (layers[0 := q]) ((replicate n False)[0 := True]);
              Some (0, skl\<lparr>sk_layers := layers, sk_items := (sk_items skl)(a \<mapsto> \<lparr>si_key = key, si_value = value, si_layer_check = check\<rparr>),
                           sk_brk := Suc a, sk_count := inc64 (sk_count skl)\<rparr>)
            }
      })"

section \<open>Removal\<close>

fun unlink_layers :: "nat \<Rightarrow> bool list \<Rightarrow> nat tq_head list \<Rightarrow> nat tq_head list option" where
  "unlink_layers a [] [] = Some []"
| "unlink_layers a (c # cs) (q # qs) = do {
     q \<leftarrow> (if c then TAILQ_REMOVE a q else Some q);
     qs \<leftarrow> unlink_layers a cs qs;
     Some (q # qs)
   }"
| "unlink_layers a _ _ = None"

definition free_wrappers :: "nat \<Rightarrow> nat tq_head list \<Rightarrow> nat tq_head list" where
  "free_wrappers a layers = map (\<lambda>q. q\<lparr>tq_elems := (tq_elems q)(a := None)\<rparr>) layers"

text \<open>\<open>want\<close> says that the caller passes a place for the value; without it the value is released.\<close>

definition skiplist_remove_internal :: "bool \<Rightarrow> nat \<Rightarrow> ('k, 'v) skiplist_t \<Rightarrow> ('v \<times> ('k, 'v) skiplist_t) option" where
  "skiplist_remove_internal want a skl = do {
     it \<leftarrow> sk_items skl a;
     layers \<leftarrow> unlink_layers a (si_layer_check it) (sk_layers skl);
     Some (si_value it, skl\<lparr>sk_layers := free_wrappers a layers, sk_items := (sk_items skl)(a := None),
       sk_freed := sk_freed skl @ (if \<not> want \<and> sk_free_value_cb skl then [si_value it] else [])\<rparr>)
   }"

definition skiplist_remove :: "bool \<Rightarrow> 'k \<Rightarrow> ('k, 'v) skiplist_t \<Rightarrow> (int \<times> 'v option \<times> ('k, 'v) skiplist_t) option" where
  "skiplist_remove want key skl = do {
     (prev_item, _) \<leftarrow> skiplist_search_internal skl key;
     found \<leftarrow> found_item skl key prev_item;
     case found of
       None \<Rightarrow> Some (- 1, None, skl)
     | Some a \<Rightarrow> do {
         (v, skl) \<leftarrow> skiplist_remove_internal want a skl;
         Some (0, Some v, skl\<lparr>sk_count := dec64 (sk_count skl)\<rparr>)
       }
   }"

partial_function (option) destroy_items :: "nat option \<Rightarrow> ('k, 'v) skiplist_t \<Rightarrow> ('k, 'v) skiplist_t option" where
  "destroy_items item skl = (case item of
     None \<Rightarrow> Some skl
   | Some a \<Rightarrow> do {
       q \<leftarrow> rd (sk_layers skl) 0;
       nxt \<leftarrow> TAILQ_NEXT a q;
       r \<leftarrow> skiplist_remove_internal False a skl;
       destroy_items nxt (snd r)
     })"

text \<open>After the loop the array of layers and the descriptor are released.\<close>

definition skiplist_destroy :: "('k, 'v) skiplist_t \<Rightarrow> ('k, 'v) skiplist_t option" where
  "skiplist_destroy skl = do {
     q \<leftarrow> rd (sk_layers skl) 0;
     skl \<leftarrow> destroy_items (TAILQ_FIRST q) skl;
     Some (skl\<lparr>sk_layers := []\<rparr>)
   }"

definition skiplist_count :: "('k, 'v) skiplist_t \<Rightarrow> nat" where
  "skiplist_count skl = sk_count skl"

declare destroy_items.simps [code]

end
