(* ===== verification/Sorted_Map.thy ===== *)
theory Sorted_Map
  imports Comparators
begin

text \<open>
  A list of keys with values in ascending order of the keys: what the ordered containers (\<open>skiplist.c\<close>, \<open>rbtree.c\<close>)
  represent, as a specification. Keys are equal where the comparator says 0.
\<close>

section \<open>Transitivity of a comparator\<close>

context key_order
begin

lemma cmp_le_trans: "x \<in> K \<Longrightarrow> y \<in> K \<Longrightarrow> z \<in> K \<Longrightarrow> cmp x y \<le> 0 \<Longrightarrow> cmp y z \<le> 0 \<Longrightarrow> cmp x z \<le> 0"
  using cmp_trans [of z y x] cmp_flip [of x y] cmp_flip [of y z] cmp_flip [of x z] by blast

lemma cmp_less_le_trans: "x \<in> K \<Longrightarrow> y \<in> K \<Longrightarrow> z \<in> K \<Longrightarrow> cmp x y < 0 \<Longrightarrow> cmp y z \<le> 0 \<Longrightarrow> cmp x z < 0"
  using cmp_trans [of x z y] cmp_flip [of y z] by fastforce

lemma cmp_le_less_trans: "x \<in> K \<Longrightarrow> y \<in> K \<Longrightarrow> z \<in> K \<Longrightarrow> 0 \<le> cmp y x \<Longrightarrow> cmp y z < 0 \<Longrightarrow> cmp x z < 0"
  using cmp_trans [of y x z] by fastforce

end

section \<open>Sorted lists\<close>

fun al_lookup :: "('k \<Rightarrow> 'k \<Rightarrow> int) \<Rightarrow> 'k \<Rightarrow> ('k \<times> 'v) list \<Rightarrow> 'v option" where
  "al_lookup cmp k [] = None"
| "al_lookup cmp k ((k', v) # es) = (if cmp k' k = 0 then Some v else al_lookup cmp k es)"

fun al_insert :: "('k \<Rightarrow> 'k \<Rightarrow> int) \<Rightarrow> 'k \<Rightarrow> 'v \<Rightarrow> ('k \<times> 'v) list \<Rightarrow> ('k \<times> 'v) list" where
  "al_insert cmp k v [] = [(k, v)]"
| "al_insert cmp k v ((k', v') # es) =
     (if cmp k' k < 0 then (k', v') # al_insert cmp k v es else if cmp k' k = 0 then (k', v) # es else (k, v) # (k', v') # es)"

text \<open>The same where the key of the entry is replaced as well.\<close>

fun al_put :: "('k \<Rightarrow> 'k \<Rightarrow> int) \<Rightarrow> 'k \<Rightarrow> 'v \<Rightarrow> ('k \<times> 'v) list \<Rightarrow> ('k \<times> 'v) list" where
  "al_put cmp k v [] = [(k, v)]"
| "al_put cmp k v ((k', v') # es) =
     (if cmp k' k < 0 then (k', v') # al_put cmp k v es else if cmp k' k = 0 then (k, v) # es else (k, v) # (k', v') # es)"

definition al_remove :: "('k \<Rightarrow> 'k \<Rightarrow> int) \<Rightarrow> 'k \<Rightarrow> ('k \<times> 'v) list \<Rightarrow> ('k \<times> 'v) list" where
  "al_remove cmp k es = filter (\<lambda>e. cmp (fst e) k \<noteq> 0) es"

lemma al_split:
  assumes "\<forall>e \<in> set as. cmp (fst e) k < 0" and "\<forall>e \<in> set bs. 0 < cmp (fst e) k"
  shows "al_lookup cmp k (as @ bs) = None" "al_insert cmp k v (as @ bs) = as @ (k, v) # bs" "al_remove cmp k (as @ bs) = as @ bs"
    "al_put cmp k v (as @ bs) = as @ (k, v) # bs"
proof -
  show "al_lookup cmp k (as @ bs) = None"
  proof (use assms in \<open>induction as\<close>)
    case Nil
    then show ?case by (induction bs) (auto simp: order_less_le)
  qed auto
  show "al_insert cmp k v (as @ bs) = as @ (k, v) # bs"
  proof (use assms in \<open>induction as\<close>)
    case Nil
    then show ?case by (cases bs) (auto split: prod.splits)
  qed auto
  show "al_put cmp k v (as @ bs) = as @ (k, v) # bs"
  proof (use assms in \<open>induction as\<close>)
    case Nil
    then show ?case by (cases bs) (auto split: prod.splits)
  qed auto
  show "al_remove cmp k (as @ bs) = as @ bs" using assms by (auto simp: al_remove_def filter_id_conv order_less_le)
qed

lemma al_split_found:
  assumes "\<forall>e \<in> set as. cmp (fst e) k < 0" and "cmp k' k = 0" and "\<forall>e \<in> set bs. 0 < cmp (fst e) k"
  shows "al_lookup cmp k (as @ (k', v') # bs) = Some v'" "al_insert cmp k v (as @ (k', v') # bs) = as @ (k', v) # bs"
    "al_remove cmp k (as @ (k', v') # bs) = as @ bs" "al_put cmp k v (as @ (k', v') # bs) = as @ (k, v) # bs"
proof -
  show "al_lookup cmp k (as @ (k', v') # bs) = Some v'" using assms(1,2) by (induction as) auto
  show "al_insert cmp k v (as @ (k', v') # bs) = as @ (k', v) # bs" using assms(1,2) by (induction as) auto
  show "al_put cmp k v (as @ (k', v') # bs) = as @ (k, v) # bs" using assms(1,2) by (induction as) auto
  have "filter (\<lambda>e. cmp (fst e) k \<noteq> 0) as = as" "filter (\<lambda>e. cmp (fst e) k \<noteq> 0) bs = bs" using assms(1,3) by (auto simp: filter_id_conv)
  then show "al_remove cmp k (as @ (k', v') # bs) = as @ bs" using assms(2) by (simp add: al_remove_def)
qed

lemma al_insert_length: "length (al_insert cmp k v E) \<le> Suc (length E)"
  by (induction cmp k v E rule: al_insert.induct) auto

end
