(* ===== verification/Skiplist_Spec.thy ===== *)
theory Skiplist_Spec
  imports Skiplist Sorted_Map
begin

text \<open>
  What the skip lists of \<open>skiplist.c\<close> promise: the items of the first layer are a sorted list of keys with values; the
  upper layers only have to be part of the layers below them. Search, insertion and removal are those of the sorted
  list, whatever the random numbers are.
\<close>

section \<open>The invariant\<close>

definition item_key :: "('k, 'v) skiplist_t \<Rightarrow> nat \<Rightarrow> 'k" where
  "item_key skl a = si_key (the (sk_items skl a))"

definition nested :: "nat list list \<Rightarrow> bool" where
  "nested lss \<longleftrightarrow> (\<forall>i j. i \<le> j \<longrightarrow> j < length lss \<longrightarrow> set (lss ! j) \<subseteq> set (lss ! i))"

text \<open>\<open>lss\<close> has the items of every layer, in their order.\<close>

definition skl_at :: "('k \<Rightarrow> 'k \<Rightarrow> int) \<Rightarrow> 'k set \<Rightarrow> ('k, 'v) skiplist_t \<Rightarrow> nat list list \<Rightarrow> bool" where
  "skl_at cmp K skl lss \<longleftrightarrow> sk_cmp_keys_cb skl = cmp \<and> lss \<noteq> [] \<and> sk_num_layers skl = int (length lss) \<and>
     list_all2 tq_at (sk_layers skl) lss \<and> (\<forall>q \<in> set (sk_layers skl). dom (tq_elems q) = dom (sk_items skl)) \<and> nested lss \<and>
     dom (sk_items skl) = set (lss ! 0) \<and> (\<forall>a \<in> dom (sk_items skl). a < sk_brk skl) \<and> (\<forall>a \<in> dom (sk_items skl). item_key skl a \<in> K) \<and>
     (\<forall>a \<in> dom (sk_items skl). si_layer_check (the (sk_items skl a)) = map (\<lambda>ls. a \<in> set ls) lss) \<and>
     sorted_wrt (\<lambda>a b. cmp (item_key skl a) (item_key skl b) < 0) (lss ! 0)"

text \<open>A search starts in a layer at an item of it with a key that is not above the one looked for, or at its beginning.\<close>

definition good_prev :: "('k, 'v) skiplist_t \<Rightarrow> nat list \<Rightarrow> 'k \<Rightarrow> nat option \<Rightarrow> bool" where
  "good_prev skl ls key prev \<longleftrightarrow> (case prev of None \<Rightarrow> True | Some p \<Rightarrow> p \<in> set ls \<and> sk_cmp_keys_cb skl (item_key skl p) key \<le> 0)"

lemma good_prev_last:
  assumes "good_prev skl ls key prev" and "set bs \<subseteq> set ls" and "\<forall>b \<in> set bs. sk_cmp_keys_cb skl (item_key skl b) key \<le> 0"
  shows "good_prev skl ls key (last_opt prev bs)"
proof (cases "bs = []")
  case False
  then have "last bs \<in> set bs" by simp
  then show ?thesis using assms(2,3) False by (auto simp: last_opt_def good_prev_def)
qed (use assms(1) in \<open>simp add: last_opt_def\<close>)

lemma cmp_item_Some: "a \<in> dom (sk_items skl) \<Longrightarrow> cmp_item skl key a = Some (sk_cmp_keys_cb skl (item_key skl a) key)"
  by (auto simp: cmp_item_def item_key_def)

lemma skl_layer:
  assumes "skl_at cmp K skl lss" and "i < length lss"
  shows "rd (sk_layers skl) (int i) = Some (sk_layers skl ! i)" "tq_at (sk_layers skl ! i) (lss ! i)" "set (lss ! i) \<subseteq> dom (sk_items skl)"
    "set (lss ! i) \<subseteq> set (lss ! 0)"
proof -
  have at: "list_all2 tq_at (sk_layers skl) lss" "nested lss" "dom (sk_items skl) = set (lss ! 0)" using assms(1) by (auto simp: skl_at_def)
  show "rd (sk_layers skl) (int i) = Some (sk_layers skl ! i)" "tq_at (sk_layers skl ! i) (lss ! i)"
    using at(1) assms(2) by (auto simp: rd_def list_all2_conv_all_nth)
  show "set (lss ! i) \<subseteq> set (lss ! 0)" using at(2) assms(2) unfolding nested_def by blast
  then show "set (lss ! i) \<subseteq> dom (sk_items skl)" using at(3) by simp
qed

text \<open>The walk through one layer.\<close>

lemma layer_walk:
  assumes "skl_at cmp K skl lss" and "i < length lss" and "good_prev skl (lss ! i) key prev"
  shows "\<exists>as bs item. lss ! i = as @ bs \<and> (prev = None \<longrightarrow> as = []) \<and> (\<forall>p. prev = Some p \<longrightarrow> as \<noteq> [] \<and> last as = p) \<and>
    (case prev of Some p \<Rightarrow> TAILQ_NEXT p (sk_layers skl ! i) | None \<Rightarrow> Some (TAILQ_FIRST (sk_layers skl ! i))) = Some item \<and>
    seq_walk (\<lambda>a. TAILQ_NEXT a (sk_layers skl ! i)) (\<lambda>a. map_option (\<lambda>c. c > 0) (cmp_item skl key a)) prev item
      = Some (last_opt prev (takeWhile (\<lambda>b. cmp (item_key skl b) key \<le> 0) bs))"
proof -
  let ?q = "sk_layers skl ! i" and ?stop = "\<lambda>a. map_option (\<lambda>c. c > 0) (cmp_item skl key a)"
  have c: "sk_cmp_keys_cb skl = cmp" using assms(1) by (simp add: skl_at_def)
  note l = skl_layer [OF assms(1,2)]
  have walk: "seq_walk (\<lambda>a. TAILQ_NEXT a ?q) ?stop prev (first_of bs) = Some (last_opt prev (takeWhile (\<lambda>b. cmp (item_key skl b) key \<le> 0) bs))"
    if "lss ! i = as @ bs" for as bs
  proof -
    have "\<forall>b \<in> set bs. ?stop b = Some (\<not> cmp (item_key skl b) key \<le> 0)"
      using l(3) that cmp_item_Some [of _ skl key] c by (auto simp: subset_iff)
    then show ?thesis using tq.walk_from [of ?q as bs ?stop "\<lambda>b. \<not> cmp (item_key skl b) key \<le> 0" prev] l(2) that by simp
  qed
  show ?thesis
  proof (cases prev)
    case None
    then show ?thesis using walk [of "[]" "lss ! i"] tq.first_law [OF l(2)] by (intro exI [of _ "[]"] exI [of _ "lss ! i"]) simp
  next
    case (Some p)
    then obtain as bs where s: "lss ! i = as @ p # bs" using assms(3) by (auto simp: good_prev_def dest: split_list)
    have "TAILQ_NEXT p ?q = Some (first_of bs)" using tq.next_law l(2) s by metis
    then show ?thesis using walk [of "as @ [p]" bs] Some s
      by (intro exI [of _ "as @ [p]"] exI [of _ bs] exI [of _ "first_of bs"]) simp
  qed
qed

section \<open>Search\<close>

lemma last_opt_append: "last_opt prev (xs @ ys) = last_opt (last_opt prev xs) ys"
  by (simp add: last_opt_def)

context key_order
begin

text \<open>In the first layer the walk ends at the last item with a key that is not above the one looked for, wherever it starts.\<close>

lemma first_layer_prefix:
  assumes "skl_at cmp K skl lss" and "key \<in> K" and "good_prev skl (lss ! 0) key prev" and "lss ! 0 = as @ bs"
    and "prev = None \<Longrightarrow> as = []" and "\<And>p. prev = Some p \<Longrightarrow> as \<noteq> [] \<and> last as = p"
  shows "last_opt prev (takeWhile (\<lambda>b. cmp (item_key skl b) key \<le> 0) bs) = last_opt None (takeWhile (\<lambda>b. cmp (item_key skl b) key \<le> 0) (lss ! 0))"
proof -
  let ?P = "\<lambda>b. cmp (item_key skl b) key \<le> 0"
  have at: "sorted_wrt (\<lambda>a b. cmp (item_key skl a) (item_key skl b) < 0) (lss ! 0)" "sk_cmp_keys_cb skl = cmp"
    "\<forall>a \<in> set (lss ! 0). item_key skl a \<in> K" using assms(1) by (auto simp: skl_at_def)
  have "?P b" if b: "b \<in> set as" for b
  proof -
    obtain p where p: "prev = Some p" "as \<noteq> []" "last as = p" using b assms(5,6) by (cases prev) auto
    then obtain as' where as': "as = as' @ [p]" by (metis append_butlast_last_id)
    have k: "item_key skl b \<in> K" "item_key skl p \<in> K" "?P p" using b at(3) assms(3,4) at(2) p(1) as' by (auto simp: good_prev_def)
    have "cmp (item_key skl b) (item_key skl p) \<le> 0" using b at(1) cmp_refl [OF k(2)] unfolding assms(4) as' by (auto simp: sorted_wrt_append)
    then show ?thesis using cmp_le_trans [OF k(1,2) assms(2)] k(3) by blast
  qed
  then have "takeWhile ?P (lss ! 0) = as @ takeWhile ?P bs" unfolding assms(4) by (simp add: takeWhile_append)
  moreover have "last_opt None as = prev" using assms(5,6) by (cases prev) (auto simp: last_opt_def)
  ultimately show ?thesis by (simp add: last_opt_append)
qed

lemma search_layers_ok:
  assumes "skl_at cmp K skl lss" and "key \<in> K" and "i < length lss" and "good_prev skl (lss ! i) key prev" and "length path = length lss"
  shows "\<exists>path'. search_layers skl key (Suc i) prev path = Some (last_opt None (takeWhile (\<lambda>b. cmp (item_key skl b) key \<le> 0) (lss ! 0)), path') \<and>
    length path' = length lss \<and> (\<forall>j \<le> i. good_prev skl (lss ! j) key (path' ! j)) \<and> (\<forall>j > i. path' ! j = path ! j)"
  using assms(3-5)
proof (induction i arbitrary: prev path)
  case 0
  from layer_walk [OF assms(1) 0(1,2)] obtain as bs item where w: "lss ! 0 = as @ bs" "prev = None \<longrightarrow> as = []" "\<forall>p. prev = Some p \<longrightarrow> as \<noteq> [] \<and> last as = p"
    "(case prev of Some p \<Rightarrow> TAILQ_NEXT p (sk_layers skl ! 0) | None \<Rightarrow> Some (TAILQ_FIRST (sk_layers skl ! 0))) = Some item"
    "seq_walk (\<lambda>a. TAILQ_NEXT a (sk_layers skl ! 0)) (\<lambda>a. map_option (\<lambda>c. c > 0) (cmp_item skl key a)) prev item
      = Some (last_opt prev (takeWhile (\<lambda>b. cmp (item_key skl b) key \<le> 0) bs))" by blast
  have eq: "last_opt prev (takeWhile (\<lambda>b. cmp (item_key skl b) key \<le> 0) bs) = last_opt None (takeWhile (\<lambda>b. cmp (item_key skl b) key \<le> 0) (lss ! 0))"
    using first_layer_prefix [OF assms(1,2) 0(2) w(1)] w(2,3) by blast
  have "good_prev skl (lss ! 0) key (last_opt None (takeWhile (\<lambda>b. cmp (item_key skl b) key \<le> 0) (lss ! 0)))"
    using assms(1) by (intro good_prev_last) (auto simp: good_prev_def skl_at_def dest: set_takeWhileD)
  then show ?case using w(4,5) skl_layer(1) [OF assms(1) 0(1)] 0(1,3) eq by simp
next
  case (Suc i)
  from layer_walk [OF assms(1) Suc.prems(1,2)] obtain as bs item where w: "lss ! Suc i = as @ bs"
    "(case prev of Some p \<Rightarrow> TAILQ_NEXT p (sk_layers skl ! Suc i) | None \<Rightarrow> Some (TAILQ_FIRST (sk_layers skl ! Suc i))) = Some item"
    "seq_walk (\<lambda>a. TAILQ_NEXT a (sk_layers skl ! Suc i)) (\<lambda>a. map_option (\<lambda>c. c > 0) (cmp_item skl key a)) prev item
      = Some (last_opt prev (takeWhile (\<lambda>b. cmp (item_key skl b) key \<le> 0) bs))" by blast
  let ?prev = "last_opt prev (takeWhile (\<lambda>b. cmp (item_key skl b) key \<le> 0) bs)"
  have g: "good_prev skl (lss ! Suc i) key ?prev"
    using assms(1) w(1) by (intro good_prev_last [OF Suc.prems(2)]) (auto simp: skl_at_def dest: set_takeWhileD)
  have "set (lss ! Suc i) \<subseteq> set (lss ! i)" using assms(1) Suc.prems(1) unfolding skl_at_def nested_def by (meson le_SucI order_refl)
  then have "good_prev skl (lss ! i) key ?prev" using g by (auto simp: good_prev_def split: option.splits)
  from Suc.IH [OF _ this, of "path[Suc i := ?prev]"] Suc.prems(1,3) obtain path' where
    r: "search_layers skl key (Suc i) ?prev (path[Suc i := ?prev]) = Some (last_opt None (takeWhile (\<lambda>b. cmp (item_key skl b) key \<le> 0) (lss ! 0)), path')"
    "length path' = length lss" "\<forall>j \<le> i. good_prev skl (lss ! j) key (path' ! j)" "\<forall>j > i. path' ! j = path[Suc i := ?prev] ! j" by auto
  have "\<forall>j \<le> Suc i. good_prev skl (lss ! j) key (path' ! j)" using r(3,4) g Suc.prems(1,3) by (auto simp: le_Suc_eq)
  moreover have "\<forall>j > Suc i. path' ! j = path ! j" using r(4) by auto
  moreover have "search_layers skl key (Suc (Suc i)) prev path = search_layers skl key (Suc i) ?prev (path[Suc i := ?prev])"
    unfolding search_layers.simps(2) [of skl key "Suc i" prev path] using w(2,3) skl_layer(1) [OF assms(1) Suc.prems(1)] by simp
  ultimately show ?case using r(1,2) by auto
qed

lemma search_internal_ok:
  assumes "skl_at cmp K skl lss" and "key \<in> K"
  shows "\<exists>path. skiplist_search_internal skl key = Some (last_opt None (takeWhile (\<lambda>b. cmp (item_key skl b) key \<le> 0) (lss ! 0)), path) \<and>
    length path = length lss \<and> (\<forall>j < length lss. good_prev skl (lss ! j) key (path ! j))"
proof -
  have n: "nat (sk_num_layers skl) = length lss" "lss \<noteq> []" using assms(1) by (auto simp: skl_at_def)
  then obtain i where i: "length lss = Suc i" by (cases lss) auto
  have "good_prev skl (lss ! i) key None" by (simp add: good_prev_def)
  from search_layers_ok [OF assms _ this, of "replicate (length lss) None"] i show ?thesis
    unfolding skiplist_search_internal_def n(1) by (simp add: less_Suc_eq_le) blast
qed

text \<open>The search splits the items at the key.\<close>

lemma search_split:
  assumes "skl_at cmp K skl lss" and "key \<in> K"
  shows "\<exists>as bs. (\<forall>a \<in> set as. cmp (item_key skl a) key < 0) \<and> (\<forall>b \<in> set bs. 0 < cmp (item_key skl b) key) \<and>
    (let prev = last_opt None (takeWhile (\<lambda>b. cmp (item_key skl b) key \<le> 0) (lss ! 0)) in
      (lss ! 0 = as @ bs \<and> prev = last_opt None as \<and> found_item skl key prev = Some None) \<or>
      (\<exists>a. lss ! 0 = as @ a # bs \<and> cmp (item_key skl a) key = 0 \<and> prev = Some a \<and> found_item skl key prev = Some (Some a)))"
proof -
  let ?P = "\<lambda>b. cmp (item_key skl b) key \<le> 0" and ?xs = "lss ! 0"
  let ?ts = "takeWhile ?P ?xs" and ?ds = "dropWhile ?P ?xs"
  have at: "sorted_wrt (\<lambda>a b. cmp (item_key skl a) (item_key skl b) < 0) ?xs" "sk_cmp_keys_cb skl = cmp" "dom (sk_items skl) = set ?xs"
    using assms(1) by (simp_all add: skl_at_def)
  have K: "item_key skl a \<in> K" if "a \<in> set ?xs" for a using assms(1) that by (auto simp: skl_at_def)
  have xs: "?xs = ?ts @ ?ds" by simp
  have srt: "sorted_wrt (\<lambda>a b. cmp (item_key skl a) (item_key skl b) < 0) (?ts @ ?ds)" using at(1) by simp
  have ds: "0 < cmp (item_key skl b) key" if b: "b \<in> set ?ds" for b
  proof -
    obtain d ds' where d: "?ds = d # ds'" using b by (cases ?ds) auto
    then have nd: "\<not> ?P d" using hd_dropWhile [of ?P ?xs] by (metis list.distinct(1) list.sel(1))
    have mem: "b \<in> set ?xs" "d \<in> set ?xs" using b d by (metis set_dropWhileD, metis list.set_intros(1) set_dropWhileD)
    have "b = d \<or> cmp (item_key skl d) (item_key skl b) < 0" using srt b unfolding d by (auto simp: sorted_wrt_append)
    then show ?thesis
    proof
      assume "cmp (item_key skl d) (item_key skl b) < 0"
      moreover have "cmp key (item_key skl d) < 0" using nd cmp_sign [OF assms(2) K [OF mem(2)]] by linarith
      ultimately have "cmp key (item_key skl b) < 0" using cmp_less_le_trans [OF assms(2) K [OF mem(2)] K [OF mem(1)]] by simp
      then show ?thesis using cmp_sign [OF assms(2) K [OF mem(1)]] by simp
    qed (use nd in simp)
  qed
  show ?thesis
  proof (cases ?ts rule: rev_cases)
    case Nil
    then have "?xs = ?ds" using xs by simp
    then show ?thesis using ds Nil by (intro exI [of _ "[]"] exI [of _ ?ds]) (simp add: found_item_def)
  next
    case (snoc ts' t)
    then have t: "t \<in> set ?xs" "?P t" by (metis in_set_conv_decomp set_takeWhileD)+
    have less: "cmp (item_key skl a) key < 0" if a: "a \<in> set ts'" for a
    proof -
      have "cmp (item_key skl a) (item_key skl t) < 0" using srt a unfolding snoc by (auto simp: sorted_wrt_append)
      moreover have "a \<in> set ?xs" using a xs snoc by (metis Un_iff set_append)
      ultimately show ?thesis using cmp_less_le_trans [OF K K [OF t(1)] assms(2)] t(2) by blast
    qed
    have f: "found_item skl key (Some t) = Some (if cmp (item_key skl t) key = 0 then Some t else None)"
      using cmp_item_Some [of t skl key] t(1) at(2,3) by (simp add: found_item_def)
    show ?thesis
    proof (cases "cmp (item_key skl t) key = 0")
      case True
      then show ?thesis using less ds f snoc xs by (intro exI [of _ ts'] exI [of _ ?ds]) (simp add: last_opt_append)
    next
      case False
      then show ?thesis using less ds f snoc xs t(2) by (intro exI [of _ ?ts] exI [of _ ?ds]) (auto simp: last_opt_append)
    qed
  qed
qed

end

section \<open>The entries\<close>

definition entries :: "('k, 'v) skiplist_t \<Rightarrow> nat list \<Rightarrow> ('k \<times> 'v) list" where
  "entries skl xs = map (\<lambda>a. (item_key skl a, si_value (the (sk_items skl a)))) xs"

lemma entries_simps [simp]: "entries skl [] = []" "entries skl (a # xs) = (item_key skl a, si_value (the (sk_items skl a))) # entries skl xs"
  "entries skl (xs @ ys) = entries skl xs @ entries skl ys" "length (entries skl xs) = length xs"
  by (simp_all add: entries_def)

lemma entries_keys: "(\<forall>e \<in> set (entries skl xs). P (fst e)) \<longleftrightarrow> (\<forall>a \<in> set xs. P (item_key skl a))"
  by (auto simp: entries_def)

lemma entries_cong: "(\<And>a. a \<in> set xs \<Longrightarrow> sk_items skl' a = sk_items skl a) \<Longrightarrow> entries skl' xs = entries skl xs"
  by (simp add: entries_def item_key_def)

section \<open>Removal\<close>

lemma unlink_ok:
  assumes "list_all2 tq_at layers lss"
  shows "\<exists>layers'. unlink_layers a (map (\<lambda>ls. a \<in> set ls) lss) layers = Some layers' \<and> list_all2 tq_at layers' (map (remove1 a) lss) \<and>
    map (\<lambda>q. dom (tq_elems q)) layers' = map (\<lambda>q. dom (tq_elems q)) layers"
  using assms
proof (induction rule: list_all2_induct)
  case (Cons q qs ls lss)
  then obtain qs' where qs': "unlink_layers a (map (\<lambda>ls. a \<in> set ls) lss) qs = Some qs'" "list_all2 tq_at qs' (map (remove1 a) lss)"
    "map (\<lambda>q. dom (tq_elems q)) qs' = map (\<lambda>q. dom (tq_elems q)) qs" by blast
  have "\<exists>q'. (if a \<in> set ls then TAILQ_REMOVE a q else Some q) = Some q' \<and> tq_at q' (remove1 a ls) \<and> dom (tq_elems q') = dom (tq_elems q)"
  proof (cases "a \<in> set ls")
    case True
    then obtain as bs where ls: "ls = as @ a # bs" "a \<notin> set as" by (metis split_list_first)
    then show ?thesis using REMOVE_law [of q as a bs] Cons.hyps(1) True by (auto simp: remove1_append)
  qed (use Cons.hyps(1) in \<open>simp add: remove1_idem\<close>)
  then show ?case using qs' by auto
qed simp

lemma free_wrappers_ok:
  assumes "list_all2 tq_at layers lss" and "\<forall>ls \<in> set lss. a \<notin> set ls"
  shows "list_all2 tq_at (free_wrappers a layers) lss"
  using assms by (induction rule: list_all2_induct) (auto simp: free_wrappers_def tq_at_free)

lemma tq_at_distinct: "list_all2 tq_at layers lss \<Longrightarrow> ls \<in> set lss \<Longrightarrow> distinct ls"
  by (auto simp: list_all2_conv_all_nth in_set_conv_nth tq_at_def)

lemma nested_remove:
  assumes "nested lss" and "\<forall>ls \<in> set lss. distinct ls"
  shows "nested (map (remove1 a) lss)"
  using assms by (fastforce simp: nested_def)

lemma remove_internal_ok:
  assumes "skl_at cmp K skl lss" and "lss ! 0 = as @ a # bs"
  shows "\<exists>it skl' lss'. sk_items skl a = Some it \<and> skiplist_remove_internal want a skl = Some (si_value it, skl') \<and> skl_at cmp K skl' lss' \<and> lss' ! 0 = as @ bs \<and>
    entries skl' (as @ bs) = entries skl (as @ bs) \<and> sk_count skl' = sk_count skl \<and> sk_free_value_cb skl' = sk_free_value_cb skl \<and>
    sk_freed skl' = sk_freed skl @ (if \<not> want \<and> sk_free_value_cb skl then [si_value it] else [])"
proof -
  let ?lss = "map (remove1 a) lss"
  have at: "list_all2 tq_at (sk_layers skl) lss" "dom (sk_items skl) = set (lss ! 0)" "lss \<noteq> []" "nested lss"
    "\<forall>q \<in> set (sk_layers skl). dom (tq_elems q) = dom (sk_items skl)"
    "\<forall>a \<in> dom (sk_items skl). si_layer_check (the (sk_items skl a)) = map (\<lambda>ls. a \<in> set ls) lss"
    "sorted_wrt (\<lambda>a b. cmp (item_key skl a) (item_key skl b) < 0) (lss ! 0)" using assms(1) by (simp_all add: skl_at_def)
  have d: "\<forall>ls \<in> set lss. distinct ls" using tq_at_distinct [OF at(1)] by blast
  obtain it where it: "sk_items skl a = Some it" using at(2) assms(2) by (metis domD in_set_conv_decomp)
  obtain layers where l: "unlink_layers a (map (\<lambda>ls. a \<in> set ls) lss) (sk_layers skl) = Some layers" "list_all2 tq_at layers ?lss"
    "map (\<lambda>q. dom (tq_elems q)) layers = map (\<lambda>q. dom (tq_elems q)) (sk_layers skl)" using unlink_ok [OF at(1)] by blast
  let ?skl = "skl\<lparr>sk_layers := free_wrappers a layers, sk_items := (sk_items skl)(a := None),
       sk_freed := sk_freed skl @ (if \<not> want \<and> sk_free_value_cb skl then [si_value it] else [])\<rparr>"
  have ck: "si_layer_check it = map (\<lambda>ls. a \<in> set ls) lss" using bspec [OF at(6), of a] it by auto
  have r: "skiplist_remove_internal want a skl = Some (si_value it, ?skl)" using it ck l(1) by (simp add: skiplist_remove_internal_def)
  have l0: "?lss ! 0 = as @ bs" "a \<notin> set (as @ bs)" using assms(2) d at(3) by (cases lss; auto simp: remove1_append)+
  have key: "item_key ?skl b = item_key skl b" if "b \<noteq> a" for b using that by (simp add: item_key_def)
  have doms: "dom (tq_elems q) = dom (sk_items ?skl)" if fq: "q \<in> set (free_wrappers a layers)" for q
  proof -
    obtain q1 where q1: "q1 \<in> set layers" "q = q1\<lparr>tq_elems := (tq_elems q1)(a := None)\<rparr>" using fq by (auto simp: free_wrappers_def)
    have "dom (tq_elems q1) \<in> (\<lambda>q. dom (tq_elems q)) ` set (sk_layers skl)" using q1(1) l(3) by (metis image_eqI image_set)
    then show ?thesis using at(5) q1(2) by auto
  qed
  have "\<forall>ls \<in> set ?lss. a \<notin> set ls" using d by auto
  then have "list_all2 tq_at (free_wrappers a layers) ?lss" using free_wrappers_ok l(2) by blast
  moreover have "\<forall>b \<in> set (as @ bs). si_layer_check (the (sk_items ?skl b)) = map (\<lambda>ls. b \<in> set ls) ?lss"
    using l0(2) at(2,6) d assms(2) by auto
  moreover have "sorted_wrt (\<lambda>x y. cmp (item_key skl x) (item_key skl y) < 0) (as @ bs)" using at(7) unfolding assms(2) by (simp add: sorted_wrt_append)
  then have "sorted_wrt (\<lambda>x y. cmp (item_key ?skl x) (item_key ?skl y) < 0) (as @ bs)"
    using l0(2) key by (elim sorted_wrt_mono_rel [rotated]) (metis (no_types, lifting))
  moreover have "dom (sk_items ?skl) = set (as @ bs)" using at(2) assms(2) l0(2) by auto
  moreover have "b < sk_brk skl" "item_key ?skl b \<in> K" if "b \<in> dom (sk_items ?skl)" for b
    using that assms(1) key [of b] by (auto simp: skl_at_def split: if_splits)
  moreover have "sk_cmp_keys_cb skl = cmp" "sk_num_layers skl = int (length lss)" using assms(1) by (simp_all add: skl_at_def)
  ultimately have "skl_at cmp K ?skl ?lss" unfolding skl_at_def l0(1) using doms nested_remove [OF at(4) d] at(3) by (intro conjI) simp_all
  moreover have "entries ?skl (as @ bs) = entries skl (as @ bs)" using l0(2) by (intro entries_cong) auto
  ultimately show ?thesis using it r l0(1) by (intro exI [of _ it] exI [of _ ?skl] exI [of _ ?lss]) simp
qed

section \<open>Insertion\<close>

lemma insert_wrapper_ok:
  assumes "tq_at q ls" and "a \<notin> set ls" and "tq_elems q a \<noteq> None" and "\<And>p. prev = Some p \<Longrightarrow> p \<in> set ls"
  shows "\<exists>q' ls'. insert_wrapper prev a q = Some q' \<and> tq_at q' ls' \<and> set ls' = insert a (set ls) \<and> dom (tq_elems q') = dom (tq_elems q)"
proof (cases prev)
  case None
  then show ?thesis using INSERT_TAIL_law [OF assms(1,3,2)] by (fastforce simp: insert_wrapper_def)
next
  case (Some p)
  then obtain as bs where ls: "ls = as @ p # bs" using assms(4) by (auto dest: split_list)
  then show ?thesis using INSERT_AFTER_law [of q as p bs a] assms(1-3) Some
    by (auto simp: insert_wrapper_def intro!: exI [of _ "as @ p # a # bs"])
qed

lemma insert_first_layer:
  assumes "tq_at q (as @ bs)" and "a \<notin> set (as @ bs)" and "tq_elems q a \<noteq> None" and "as = [] \<Longrightarrow> bs = []"
  shows "\<exists>q'. insert_wrapper (last_opt None as) a q = Some q' \<and> tq_at q' (as @ a # bs) \<and> dom (tq_elems q') = dom (tq_elems q)"
proof (cases as rule: rev_cases)
  case Nil
  then show ?thesis using INSERT_TAIL_law [OF assms(1,3,2)] assms(4) by (simp add: insert_wrapper_def)
next
  case (snoc as' p)
  then show ?thesis using INSERT_AFTER_law [of q as' p bs a] assms(1-3) by (simp add: insert_wrapper_def last_opt_append)
qed

lemma raise_no_coin: "raise_layers rnd probability path a is False layers check = Some (layers, check)"
  by (induction "is") simp_all

text \<open>The new item goes into the layers below some height.\<close>

lemma raise_ok:
  assumes "list_all2 tq_at layers lss" and "i \<le> length lss" and "length check = length lss" and "length path = length lss"
    and "\<forall>j < length lss. i \<le> j \<longrightarrow> a \<notin> set (lss ! j) \<and> (\<forall>p. path ! j = Some p \<longrightarrow> p \<in> set (lss ! j))" and "\<forall>q \<in> set layers. tq_elems q a \<noteq> None"
  shows "\<exists>layers' check' lss' h. raise_layers rnd probability path a [i..<length lss] coin layers check = Some (layers', check') \<and>
    list_all2 tq_at layers' lss' \<and> length lss' = length lss \<and> length check' = length lss \<and> i \<le> h \<and> h \<le> length lss \<and>
    map (\<lambda>q. dom (tq_elems q)) layers' = map (\<lambda>q. dom (tq_elems q)) layers \<and>
    (\<forall>j < length lss. if i \<le> j \<and> j < h then set (lss' ! j) = insert a (set (lss ! j)) \<and> check' ! j else lss' ! j = lss ! j \<and> check' ! j = check ! j)"
  using assms
proof (induction "length lss - i" arbitrary: i coin layers lss check)
  case 0
  then show ?case
    by (intro exI [of _ layers] exI [of _ check] exI [of _ lss] exI [of _ i]) auto
next
  case (Suc k)
  then have i: "i < length lss" "[i..<length lss] = i # [Suc i..<length lss]" by (auto simp: upt_conv_Cons)
  let ?coin = "coin \<and> int (rnd i mod 100) > probability"
  show ?case
  proof (cases ?coin)
    case False
    then have "raise_layers rnd probability path a [i..<length lss] coin layers check = Some (layers, check)" using i(2) raise_no_coin by auto
    then show ?thesis using Suc.prems(1-3) i(1)
      by (intro exI [of _ layers] exI [of _ check] exI [of _ lss] exI [of _ i]) auto
  next
    case True
    have len: "length layers = length lss" using Suc.prems(1) by (rule list_all2_lengthD)
    have q: "tq_at (layers ! i) (lss ! i)" "tq_elems (layers ! i) a \<noteq> None" using Suc.prems(1,6) i(1) len by (auto simp: list_all2_nthD2)
    from insert_wrapper_ok [OF q(1) _ q(2), of "path ! i"] Suc.prems(5) i(1) obtain q' ls' where
      q': "insert_wrapper (path ! i) a (layers ! i) = Some q'" "tq_at q' ls'" "set ls' = insert a (set (lss ! i))" "dom (tq_elems q') = dom (tq_elems (layers ! i))" by auto
    let ?layers = "layers[i := q']" and ?lss = "lss[i := ls']" and ?check = "check[i := True]"
    have A: "list_all2 tq_at ?layers ?lss" using Suc.prems(1) q'(2) by (rule list_all2_update_cong)
    have B: "\<forall>q \<in> set ?layers. tq_elems q a \<noteq> None" using Suc.prems(6) q'(4) q(2) by (auto dest!: set_update_subset_insert [THEN subsetD])
    have C: "\<forall>j < length ?lss. Suc i \<le> j \<longrightarrow> a \<notin> set (?lss ! j) \<and> (\<forall>p. path ! j = Some p \<longrightarrow> p \<in> set (?lss ! j))" using Suc.prems(5) by auto
    have k: "k = length ?lss - Suc i" "Suc i \<le> length ?lss" "length ?check = length ?lss" "length path = length ?lss" using Suc.hyps(2) Suc.prems(3,4) i(1) by simp_all
    obtain layers' check' lss' h where r: "raise_layers rnd probability path a [Suc i..<length lss] ?coin ?layers ?check = Some (layers', check')"
      "list_all2 tq_at layers' lss'" "length lss' = length lss" "length check' = length lss" "Suc i \<le> h" "h \<le> length lss"
      "map (\<lambda>q. dom (tq_elems q)) layers' = map (\<lambda>q. dom (tq_elems q)) ?layers"
      "\<forall>j < length lss. if Suc i \<le> j \<and> j < h then set (lss' ! j) = insert a (set (?lss ! j)) \<and> check' ! j else lss' ! j = ?lss ! j \<and> check' ! j = ?check ! j"
      using Suc.hyps(1) [OF k(1) A k(2-4) C B, of ?coin] unfolding length_list_update by blast
    have "raise_layers rnd probability path a [i..<length lss] coin layers check = Some (layers', check')"
      using True i q'(1) r(1) len Suc.prems(4) by (simp add: rd_def)
    moreover have "map (\<lambda>q. dom (tq_elems q)) layers' = map (\<lambda>q. dom (tq_elems q)) layers" using r(7) q'(4) len i(1) by (simp add: map_update list_update_same_conv)
    moreover have "if i \<le> j \<and> j < h then set (lss' ! j) = insert a (set (lss ! j)) \<and> check' ! j else lss' ! j = lss ! j \<and> check' ! j = check ! j" if "j < length lss" for j
      using r(8) [rule_format, OF that] q'(3) r(5) i(1) Suc.prems(3) that by (cases "j = i") (auto split: if_splits)
    ultimately show ?thesis using r(2-6) by (intro exI [of _ layers'] exI [of _ check'] exI [of _ lss'] exI [of _ h]) auto
  qed
qed

text \<open>The layers of a skip list with a new item \<open>a\<close>, which is in the layers below \<open>h\<close>.\<close>

lemma layers_with_item:
  assumes "nested lss" and "length lss' = length lss" and "\<forall>j < length lss. set (lss' ! j) = (if j < h then insert a (set (lss ! j)) else set (lss ! j))"
    and "length check = length lss" and "\<forall>j < length lss. check ! j = (j < h)" and "\<forall>ls \<in> set lss. a \<notin> set ls"
  shows "nested lss'" "check = map (\<lambda>ls. a \<in> set ls) lss'" "b \<noteq> a \<Longrightarrow> map (\<lambda>ls. b \<in> set ls) lss' = map (\<lambda>ls. b \<in> set ls) lss"
proof -
  show "nested lss'"
    unfolding nested_def
  proof (intro allI impI)
    fix i j assume ij: "i \<le> j" "j < length lss'"
    then have "set (lss ! j) \<subseteq> set (lss ! i)" using assms(1,2) by (simp add: nested_def)
    then show "set (lss' ! j) \<subseteq> set (lss' ! i)" using assms(2,3) ij by auto
  qed
  show "check = map (\<lambda>ls. a \<in> set ls) lss'" using assms(2-6) by (intro nth_equalityI) (auto split: if_splits)
  show "b \<noteq> a \<Longrightarrow> map (\<lambda>ls. b \<in> set ls) lss' = map (\<lambda>ls. b \<in> set ls) lss" using assms(2,3) by (intro nth_equalityI) auto
qed

lemma alloc_wrappers_ok:
  assumes "list_all2 tq_at layers lss" and "\<forall>ls \<in> set lss. a \<notin> set ls"
  shows "list_all2 tq_at (alloc_wrappers a layers) lss"
  using assms by (induction rule: list_all2_induct) (auto simp: alloc_wrappers_def tq_at_free)

lemma new_layers:
  assumes "list_all2 tq_at layers lss" and "lss \<noteq> []" and "lss ! 0 = as @ bs" and "\<forall>ls \<in> set lss. a \<notin> set ls" and "as = [] \<Longrightarrow> bs = []"
    and "length path = length lss" and "\<forall>j < length lss. \<forall>p. path ! j = Some p \<longrightarrow> p \<in> set (lss ! j)"
  shows "\<exists>q layers' check lss' h. insert_wrapper (last_opt None as) a (alloc_wrappers a layers ! 0) = Some q \<and>
    raise_layers rnd probability path a [1..<length lss] True ((alloc_wrappers a layers)[0 := q]) ((replicate (length lss) False)[0 := True]) = Some (layers', check) \<and>
    list_all2 tq_at layers' lss' \<and> length lss' = length lss \<and> length check = length lss \<and> lss' ! 0 = as @ a # bs \<and>
    (\<forall>j < length lss. set (lss' ! j) = (if j < h then insert a (set (lss ! j)) else set (lss ! j))) \<and> (\<forall>j < length lss. check ! j = (j < h)) \<and>
    map (\<lambda>q. dom (tq_elems q)) layers' = map (\<lambda>q. insert a (dom (tq_elems q))) layers"
proof -
  let ?layers = "alloc_wrappers a layers" and ?n = "length lss"
  have len: "length layers = ?n" "length ?layers = ?n" "0 < ?n" using assms(1,2) list_all2_lengthD by (auto simp: alloc_wrappers_def)
  have al: "list_all2 tq_at ?layers lss" using alloc_wrappers_ok assms(1,4) by blast
  have dm: "map (\<lambda>q. dom (tq_elems q)) ?layers = map (\<lambda>q. insert a (dom (tq_elems q))) layers" by (simp add: alloc_wrappers_def)
  have el: "tq_elems q a \<noteq> None" if "q \<in> set ?layers" for q using that by (auto simp: alloc_wrappers_def)
  have "lss ! 0 \<in> set lss" using len(3) by simp
  then have q0: "tq_at (?layers ! 0) (as @ bs)" "tq_elems (?layers ! 0) a \<noteq> None" "a \<notin> set (as @ bs)"
    using al len el assms(2-4) by (auto simp: list_all2_conv_all_nth)
  from insert_first_layer [OF q0(1,3,2) assms(5)] obtain q where q: "insert_wrapper (last_opt None as) a (?layers ! 0) = Some q" "tq_at q (as @ a # bs)"
    "dom (tq_elems q) = dom (tq_elems (?layers ! 0))" by blast
  let ?lss = "lss[0 := as @ a # bs]"
  have A: "list_all2 tq_at (?layers[0 := q]) ?lss" using al q(2) by (rule list_all2_update_cong)
  have B: "\<forall>j < length ?lss. 1 \<le> j \<longrightarrow> a \<notin> set (?lss ! j) \<and> (\<forall>p. path ! j = Some p \<longrightarrow> p \<in> set (?lss ! j))" using assms(4,7) by auto
  have C: "\<forall>q \<in> set (?layers[0 := q]). tq_elems q a \<noteq> None" using el q(3) q0(2) by (auto dest!: set_update_subset_insert [THEN subsetD])
  have D: "1 \<le> length ?lss" "length ((replicate ?n False)[0 := True]) = length ?lss" "length path = length ?lss" using len(3) assms(6) by (simp_all add: Suc_le_eq)
  obtain layers' check lss' h where r: "raise_layers rnd probability path a [1..<?n] True (?layers[0 := q]) ((replicate ?n False)[0 := True]) = Some (layers', check)"
    "list_all2 tq_at layers' lss'" "length lss' = ?n" "length check = ?n" "1 \<le> h" "map (\<lambda>q. dom (tq_elems q)) layers' = map (\<lambda>q. dom (tq_elems q)) (?layers[0 := q])"
    "\<forall>j < ?n. if 1 \<le> j \<and> j < h then set (lss' ! j) = insert a (set (?lss ! j)) \<and> check ! j else lss' ! j = ?lss ! j \<and> check ! j = (replicate ?n False)[0 := True] ! j"
    using raise_ok [OF A D B C, of rnd probability True] unfolding length_list_update by blast
  have "map (\<lambda>q. dom (tq_elems q)) (?layers[0 := q]) = map (\<lambda>q. insert a (dom (tq_elems q))) layers"
    unfolding map_update q(3) using len(2,3) dm by (metis length_map list_update_id map_update nth_map)
  moreover have l0: "lss' ! 0 = as @ a # bs" "check ! 0" using r(7) len(3) by (metis length_list_update list_update_nonempty not_one_le_zero nth_list_update_eq, metis (mono_tags) length_replicate not_one_le_zero nth_list_update_eq)
  moreover have "set (lss' ! j) = (if j < h then insert a (set (lss ! j)) else set (lss ! j)) \<and> check ! j = (j < h)" if j: "j < ?n" for j
    using r(7) [rule_format, OF j] l0 r(5) assms(3) j by (cases j) (auto split: if_splits)
  ultimately show ?thesis using q(1) r(1-4,6) by (intro exI [of _ q] exI [of _ layers'] exI [of _ check] exI [of _ lss'] exI [of _ h]) auto
qed

lemma sorted_keys_cong:
  assumes "sorted_wrt (\<lambda>x y. cmp (f x) (f y) < (0 :: int)) xs" and "\<And>x. x \<in> set xs \<Longrightarrow> g x = f x"
  shows "sorted_wrt (\<lambda>x y. cmp (g x) (g y) < 0) xs"
  using assms by (elim sorted_wrt_mono_rel [rotated]) simp

lemma update_item:
  assumes "skl_at cmp K skl lss" and "sk_items skl a = Some it"
  shows "skl_at cmp K (skl\<lparr>sk_items := (sk_items skl)(a \<mapsto> it\<lparr>si_value := v\<rparr>), sk_freed := fr\<rparr>) lss"
proof -
  let ?skl = "skl\<lparr>sk_items := (sk_items skl)(a \<mapsto> it\<lparr>si_value := v\<rparr>), sk_freed := fr\<rparr>"
  have key: "item_key ?skl b = item_key skl b" for b using assms(2) by (simp add: item_key_def)
  have "dom (sk_items ?skl) = dom (sk_items skl)" using assms(2) by auto
  moreover have "si_layer_check (the (sk_items ?skl b)) = si_layer_check (the (sk_items skl b))" for b using assms(2) by simp
  ultimately show ?thesis using assms(1) unfolding skl_at_def key by simp
qed

context key_order
begin

lemma skl_insert_new:
  assumes "skl_at cmp K skl lss" and "key \<in> K" and "lss ! 0 = as @ bs" and "\<forall>a \<in> set as. cmp (item_key skl a) key < 0" and "\<forall>b \<in> set bs. 0 < cmp (item_key skl b) key"
    and "skiplist_search_internal skl key = Some (last_opt None as, path)" and "found_item skl key (last_opt None as) = Some None"
    and "length path = length lss" and "\<forall>j < length lss. good_prev skl (lss ! j) key (path ! j)" and "as = [] \<Longrightarrow> bs = []"
  shows "\<exists>skl' lss'. skiplist_insert False False rnd key v skl = Some (0, skl') \<and> skl_at cmp K skl' lss' \<and>
    entries skl' (lss' ! 0) = entries skl as @ (key, v) # entries skl bs \<and> sk_count skl' = inc64 (sk_count skl) \<and> sk_freed skl' = sk_freed skl \<and>
    sk_free_value_cb skl' = sk_free_value_cb skl"
proof -
  let ?a = "sk_brk skl"
  have at: "list_all2 tq_at (sk_layers skl) lss" "lss \<noteq> []" "nested lss" "sk_num_layers skl = int (length lss)" "sk_cmp_keys_cb skl = cmp" "dom (sk_items skl) = set (lss ! 0)"
    "\<forall>a \<in> dom (sk_items skl). a < ?a" "\<forall>q \<in> set (sk_layers skl). dom (tq_elems q) = dom (sk_items skl)" "\<forall>a \<in> dom (sk_items skl). item_key skl a \<in> K"
    "\<forall>a \<in> dom (sk_items skl). si_layer_check (the (sk_items skl a)) = map (\<lambda>ls. a \<in> set ls) lss"
    "sorted_wrt (\<lambda>a b. cmp (item_key skl a) (item_key skl b) < 0) (as @ bs)" using assms(1,3) by (simp_all add: skl_at_def)
  have fresh: "?a \<notin> dom (sk_items skl)" using at(7) by blast
  have nin: "\<forall>ls \<in> set lss. ?a \<notin> set ls" using skl_layer(3) [OF assms(1)] fresh by (metis in_set_conv_nth subsetD)
  have pth: "\<forall>j < length lss. \<forall>p. path ! j = Some p \<longrightarrow> p \<in> set (lss ! j)" using assms(9) by (auto simp: good_prev_def)
  from new_layers [OF at(1,2) assms(3) nin assms(10,8) pth, of rnd "sk_probability skl"] obtain q layers check lss' h where
    l: "insert_wrapper (last_opt None as) ?a (alloc_wrappers ?a (sk_layers skl) ! 0) = Some q"
    "raise_layers rnd (sk_probability skl) path ?a [1..<length lss] True ((alloc_wrappers ?a (sk_layers skl))[0 := q]) ((replicate (length lss) False)[0 := True]) = Some (layers, check)"
    "list_all2 tq_at layers lss'" "length lss' = length lss" "length check = length lss" "lss' ! 0 = as @ ?a # bs"
    "\<forall>j < length lss. set (lss' ! j) = (if j < h then insert ?a (set (lss ! j)) else set (lss ! j))" "\<forall>j < length lss. check ! j = (j < h)"
    "map (\<lambda>q. dom (tq_elems q)) layers = map (\<lambda>q. insert ?a (dom (tq_elems q))) (sk_layers skl)" by blast
  let ?skl = "skl\<lparr>sk_layers := layers, sk_items := (sk_items skl)(?a \<mapsto> \<lparr>si_key = key, si_value = v, si_layer_check = check\<rparr>), sk_brk := Suc ?a, sk_count := inc64 (sk_count skl)\<rparr>"
  have "rd (alloc_wrappers ?a (sk_layers skl)) 0 = Some (alloc_wrappers ?a (sk_layers skl) ! 0)"
    using at(1,2) list_all2_lengthD by (fastforce simp: rd_def alloc_wrappers_def)
  then have ins: "skiplist_insert False False rnd key v skl = Some (0, ?skl)" using assms(6,7) at(4) l(1,2) by (simp add: skiplist_insert_def Let_def)
  note lw = layers_with_item [OF at(3) l(4,7,5,8) nin]
  have key: "item_key ?skl b = (if b = ?a then key else item_key skl b)" for b by (simp add: item_key_def)
  have nxs: "?a \<notin> set as" "?a \<notin> set bs" using fresh at(6) assms(3) by auto
  have "dom (tq_elems q) = dom (sk_items ?skl)" if "q \<in> set layers" for q
  proof -
    have "dom (tq_elems q) \<in> (\<lambda>q. insert ?a (dom (tq_elems q))) ` set (sk_layers skl)" using that l(9) by (metis image_eqI image_set)
    then show ?thesis using at(8) by auto
  qed
  moreover have "\<forall>b \<in> insert ?a (dom (sk_items skl)). b < Suc ?a" using at(7) by (metis insert_iff less_Suc_eq)
  moreover have "\<forall>b \<in> insert ?a (dom (sk_items skl)). item_key ?skl b \<in> K"
    using at(7,9) assms(2) key by auto
  moreover have "\<forall>b \<in> dom (sk_items skl). si_layer_check (the (sk_items skl b)) = map (\<lambda>ls. b \<in> set ls) lss'" using lw(3) at(10) fresh by metis
  moreover have "sorted_wrt (\<lambda>x y. cmp (item_key ?skl x) (item_key ?skl y) < 0) (as @ ?a # bs)"
  proof -
    have "item_key ?skl x = item_key skl x" if "x \<in> set (as @ bs)" for x using nxs key that by auto
    then have "sorted_wrt (\<lambda>x y. cmp (item_key ?skl x) (item_key ?skl y) < 0) (as @ bs)"
      by (rule sorted_keys_cong [where f = "item_key skl" and g = "item_key ?skl" and cmp = cmp, OF at(11)])
    moreover have "cmp key (item_key skl b) < 0" if "b \<in> set bs" for b
      using assms(2,3,5) that at(6,9) cmp_sign [of key "item_key skl b"] by auto
    ultimately show ?thesis using assms(4) key nxs by (auto simp: sorted_wrt_append)
  qed
  moreover have "dom (sk_items ?skl) = insert ?a (dom (sk_items skl))" "set (lss' ! 0) = insert ?a (dom (sk_items skl))" using at(6) assms(3) l(6) by auto
  moreover have "lss' \<noteq> []" using l(4) at(2) by auto
  ultimately have "skl_at cmp K ?skl lss'" unfolding skl_at_def using at(4,5) l(3,4,6) lw(1,2) by (intro conjI) simp_all
  moreover have "entries ?skl as = entries skl as" "entries ?skl bs = entries skl bs" using nxs by (auto intro!: entries_cong)
  then have "entries ?skl (lss' ! 0) = entries skl as @ (key, v) # entries skl bs" using key l(6) by simp
  ultimately show ?thesis using ins by (intro exI [of _ ?skl] exI [of _ lss']) simp
qed

section \<open>The operations on the sorted list\<close>

lemma search_cases:
  assumes "skl_at cmp K skl lss" and "key \<in> K"
  shows "\<exists>prev path as bs. skiplist_search_internal skl key = Some (prev, path) \<and> length path = length lss \<and> (\<forall>j < length lss. good_prev skl (lss ! j) key (path ! j)) \<and>
    (\<forall>a \<in> set as. cmp (item_key skl a) key < 0) \<and> (\<forall>b \<in> set bs. 0 < cmp (item_key skl b) key) \<and>
    (\<forall>e \<in> set (entries skl as). cmp (fst e) key < 0) \<and> (\<forall>e \<in> set (entries skl bs). 0 < cmp (fst e) key) \<and>
    ((lss ! 0 = as @ bs \<and> prev = last_opt None as \<and> found_item skl key prev = Some None) \<or>
     (\<exists>a. lss ! 0 = as @ a # bs \<and> cmp (item_key skl a) key = 0 \<and> found_item skl key prev = Some (Some a)))"
proof -
  let ?prev = "last_opt None (takeWhile (\<lambda>b. cmp (item_key skl b) key \<le> 0) (lss ! 0))"
  obtain path where p: "skiplist_search_internal skl key = Some (?prev, path)" "length path = length lss" "\<forall>j < length lss. good_prev skl (lss ! j) key (path ! j)"
    using search_internal_ok [OF assms] by blast
  from search_split [OF assms] obtain as bs where s: "\<forall>a \<in> set as. cmp (item_key skl a) key < 0" "\<forall>b \<in> set bs. 0 < cmp (item_key skl b) key"
    "(lss ! 0 = as @ bs \<and> ?prev = last_opt None as \<and> found_item skl key ?prev = Some None) \<or>
     (\<exists>a. lss ! 0 = as @ a # bs \<and> cmp (item_key skl a) key = 0 \<and> found_item skl key ?prev = Some (Some a))" by (auto simp: Let_def)
  show ?thesis using p s entries_keys [of skl as "\<lambda>k. cmp k key < 0"] entries_keys [of skl bs "\<lambda>k. 0 < cmp k key"]
    by (intro exI [of _ ?prev] exI [of _ path] exI [of _ as] exI [of _ bs]) blast
qed

text \<open>
  The item that a key is inserted behind exists unless the list is empty: the code puts an item that has none at the end
  of the layer.
\<close>

lemma insert_ok:
  assumes "skl_at cmp K skl lss" and "key \<in> K" and "E = entries skl (lss ! 0)" and "E = [] \<or> cmp (fst (hd E)) key \<le> 0"
  shows "\<exists>skl' lss'. skiplist_insert False False rnd key v skl = Some (if al_lookup cmp key E = None then 0 else 1, skl') \<and> skl_at cmp K skl' lss' \<and>
    entries skl' (lss' ! 0) = al_insert cmp key v E \<and> sk_count skl' = (if al_lookup cmp key E = None then inc64 (sk_count skl) else sk_count skl) \<and>
    sk_freed skl' = sk_freed skl @ (if sk_free_value_cb skl then (case al_lookup cmp key E of None \<Rightarrow> [] | Some w \<Rightarrow> [w]) else []) \<and>
    sk_free_value_cb skl' = sk_free_value_cb skl"
proof -
  from search_cases [OF assms(1,2)] obtain prev path as bs where p: "skiplist_search_internal skl key = Some (prev, path)" "length path = length lss" "\<forall>j < length lss. good_prev skl (lss ! j) key (path ! j)"
    and s: "\<forall>a \<in> set as. cmp (item_key skl a) key < 0" "\<forall>b \<in> set bs. 0 < cmp (item_key skl b) key"
    "(lss ! 0 = as @ bs \<and> prev = last_opt None as \<and> found_item skl key prev = Some None) \<or>
     (\<exists>a. lss ! 0 = as @ a # bs \<and> cmp (item_key skl a) key = 0 \<and> found_item skl key prev = Some (Some a))"
    and e: "\<forall>e \<in> set (entries skl as). cmp (fst e) key < 0" "\<forall>e \<in> set (entries skl bs). 0 < cmp (fst e) key" by blast
  from s(3) show ?thesis
  proof (elim disjE exE conjE)
    assume n: "lss ! 0 = as @ bs" "prev = last_opt None as" "found_item skl key prev = Some None"
    have "bs = []" if "as = []" using assms(3,4) n(1) that s(2) by (cases bs) auto
    from skl_insert_new [OF assms(1,2) n(1) s(1,2) p(1) [unfolded n(2)] n(3) [unfolded n(2)] p(2,3) this, of rnd v] obtain skl' lss' where
      "skiplist_insert False False rnd key v skl = Some (0, skl')" "skl_at cmp K skl' lss'" "entries skl' (lss' ! 0) = entries skl as @ (key, v) # entries skl bs"
      "sk_count skl' = inc64 (sk_count skl)" "sk_freed skl' = sk_freed skl" "sk_free_value_cb skl' = sk_free_value_cb skl" by blast
    then show ?thesis using al_split [where cmp = cmp and k = key, OF e] assms(3) n(1) by (intro exI [of _ skl'] exI [of _ lss']) simp
  next
    fix a assume f: "lss ! 0 = as @ a # bs" "cmp (item_key skl a) key = 0" "found_item skl key prev = Some (Some a)"
    obtain it where it: "sk_items skl a = Some it" using assms(1) f(1) unfolding skl_at_def by (metis domD in_set_conv_decomp)
    let ?fr = "sk_freed skl @ (if sk_free_value_cb skl then [si_value it] else [])"
    let ?skl = "skl\<lparr>sk_items := (sk_items skl)(a \<mapsto> it\<lparr>si_value := v\<rparr>), sk_freed := ?fr\<rparr>"
    have "distinct (lss ! 0)" using skl_layer(2) [OF assms(1), of 0] assms(1) by (simp add: skl_at_def tq_at_def)
    then have "entries ?skl as = entries skl as" "entries ?skl bs = entries skl bs" using f(1) by (auto intro!: entries_cong)
    moreover have "item_key ?skl a = item_key skl a" using it by (simp add: item_key_def)
    ultimately have "entries ?skl (lss ! 0) = al_insert cmp key v E" "al_lookup cmp key E = Some (si_value it)"
      using al_split_found [where cmp = cmp and k = key, OF e(1) f(2) e(2)] assms(3) f(1) it by simp_all
    then show ?thesis using p(1) f(3) it update_item [OF assms(1) it, where v = v and fr = ?fr]
      by (intro exI [of _ ?skl] exI [of _ lss]) (simp add: skiplist_insert_def)
  qed
qed

lemma search_ok:
  assumes "skl_at cmp K skl lss" and "key \<in> K"
  shows "skiplist_search skl key = Some (al_lookup cmp key (entries skl (lss ! 0)))"
proof -
  from search_cases [OF assms(1,2)] obtain prev path as bs where p: "skiplist_search_internal skl key = Some (prev, path)" "length path = length lss" "\<forall>j < length lss. good_prev skl (lss ! j) key (path ! j)"
    and s: "\<forall>a \<in> set as. cmp (item_key skl a) key < 0" "\<forall>b \<in> set bs. 0 < cmp (item_key skl b) key"
    "(lss ! 0 = as @ bs \<and> prev = last_opt None as \<and> found_item skl key prev = Some None) \<or>
     (\<exists>a. lss ! 0 = as @ a # bs \<and> cmp (item_key skl a) key = 0 \<and> found_item skl key prev = Some (Some a))"
    and e: "\<forall>e \<in> set (entries skl as). cmp (fst e) key < 0" "\<forall>e \<in> set (entries skl bs). 0 < cmp (fst e) key" by blast
  from s(3) show ?thesis
  proof (elim disjE exE conjE)
    assume "lss ! 0 = as @ bs" "found_item skl key prev = Some None"
    then show ?thesis using al_split [where cmp = cmp and k = key, OF e] p by (simp add: skiplist_search_def)
  next
    fix a assume f: "lss ! 0 = as @ a # bs" "cmp (item_key skl a) key = 0" "found_item skl key prev = Some (Some a)"
    obtain it where "sk_items skl a = Some it" using assms(1) f(1) unfolding skl_at_def by (metis domD in_set_conv_decomp)
    then show ?thesis using al_split_found [where cmp = cmp and k = key, OF e(1) f(2) e(2)] p f(1,3) by (simp add: skiplist_search_def)
  qed
qed

lemma remove_ok:
  assumes "skl_at cmp K skl lss" and "key \<in> K" and "E = entries skl (lss ! 0)"
  shows "\<exists>skl' lss'. skiplist_remove want key skl = Some (if al_lookup cmp key E = None then - 1 else 0, al_lookup cmp key E, skl') \<and> skl_at cmp K skl' lss' \<and>
    entries skl' (lss' ! 0) = al_remove cmp key E \<and> sk_count skl' = (if al_lookup cmp key E = None then sk_count skl else dec64 (sk_count skl)) \<and>
    sk_freed skl' = sk_freed skl @ (if \<not> want \<and> sk_free_value_cb skl then (case al_lookup cmp key E of None \<Rightarrow> [] | Some w \<Rightarrow> [w]) else []) \<and>
    sk_free_value_cb skl' = sk_free_value_cb skl"
proof -
  from search_cases [OF assms(1,2)] obtain prev path as bs where p: "skiplist_search_internal skl key = Some (prev, path)" "length path = length lss" "\<forall>j < length lss. good_prev skl (lss ! j) key (path ! j)"
    and s: "\<forall>a \<in> set as. cmp (item_key skl a) key < 0" "\<forall>b \<in> set bs. 0 < cmp (item_key skl b) key"
    "(lss ! 0 = as @ bs \<and> prev = last_opt None as \<and> found_item skl key prev = Some None) \<or>
     (\<exists>a. lss ! 0 = as @ a # bs \<and> cmp (item_key skl a) key = 0 \<and> found_item skl key prev = Some (Some a))"
    and e: "\<forall>e \<in> set (entries skl as). cmp (fst e) key < 0" "\<forall>e \<in> set (entries skl bs). 0 < cmp (fst e) key" by blast
  from s(3) show ?thesis
  proof (elim disjE exE conjE)
    assume "lss ! 0 = as @ bs" "found_item skl key prev = Some None"
    then show ?thesis using al_split [where cmp = cmp and k = key, OF e] p assms(1,3) by (intro exI [of _ skl] exI [of _ lss]) (simp add: skiplist_remove_def)
  next
    fix a assume f: "lss ! 0 = as @ a # bs" "cmp (item_key skl a) key = 0" "found_item skl key prev = Some (Some a)"
    from remove_internal_ok [OF assms(1) f(1), of want] obtain it skl' lss' where r: "sk_items skl a = Some it"
      "skiplist_remove_internal want a skl = Some (si_value it, skl')" "skl_at cmp K skl' lss'" "lss' ! 0 = as @ bs" "entries skl' (as @ bs) = entries skl (as @ bs)"
      "sk_count skl' = sk_count skl" "sk_free_value_cb skl' = sk_free_value_cb skl"
      "sk_freed skl' = sk_freed skl @ (if \<not> want \<and> sk_free_value_cb skl then [si_value it] else [])" by blast
    let ?skl = "skl'\<lparr>sk_count := dec64 (sk_count skl)\<rparr>"
    have "item_key ?skl = item_key skl'" by (rule ext) (simp add: item_key_def)
    then have "skl_at cmp K ?skl lss'" "entries ?skl (lss' ! 0) = entries skl (as @ bs)" using r(3-5) by (simp_all add: skl_at_def entries_def)
    then show ?thesis using al_split_found [where cmp = cmp and k = key, OF e(1) f(2) e(2)] p f(1,3) r assms(3)
      by (intro exI [of _ ?skl] exI [of _ lss']) (simp add: skiplist_remove_def)
  qed
qed

end

section \<open>Calls and their answers\<close>

datatype ('k, 'v) skl_call = S_insert "nat \<Rightarrow> nat" 'k 'v | S_search 'k | S_remove bool 'k | S_count

datatype 'v skl_answer = S_code int | S_value "'v option" | S_removed int "'v option" | S_size nat

definition skl_exec :: "('k, 'v) skl_call \<Rightarrow> ('k, 'v) skiplist_t \<Rightarrow> ('v skl_answer \<times> ('k, 'v) skiplist_t) option" where
  "skl_exec c skl = (case c of
     S_insert rnd k v \<Rightarrow> map_option (\<lambda>(rc, skl). (S_code rc, skl)) (skiplist_insert False False rnd k v skl)
   | S_search k \<Rightarrow> map_option (\<lambda>v. (S_value v, skl)) (skiplist_search skl k)
   | S_remove want k \<Rightarrow> map_option (\<lambda>(rc, v, skl). (S_removed rc v, skl)) (skiplist_remove want k skl)
   | S_count \<Rightarrow> Some (S_size (skiplist_count skl), skl))"

text \<open>The same on a sorted list \<open>E\<close> and the list \<open>F\<close> of the released values.\<close>

fun skl_spec :: "('k \<Rightarrow> 'k \<Rightarrow> int) \<Rightarrow> bool \<Rightarrow> ('k, 'v) skl_call \<Rightarrow> ('k \<times> 'v) list \<times> 'v list \<Rightarrow> 'v skl_answer \<times> ('k \<times> 'v) list \<times> 'v list" where
  "skl_spec cmp cb (S_insert rnd k v) (E, F) = (case al_lookup cmp k E of
     None \<Rightarrow> (S_code 0, al_insert cmp k v E, F)
   | Some w \<Rightarrow> (S_code 1, al_insert cmp k v E, F @ (if cb then [w] else [])))"
| "skl_spec cmp cb (S_search k) (E, F) = (S_value (al_lookup cmp k E), E, F)"
| "skl_spec cmp cb (S_remove want k) (E, F) = (case al_lookup cmp k E of
     None \<Rightarrow> (S_removed (- 1) None, E, F)
   | Some w \<Rightarrow> (S_removed 0 (Some w), al_remove cmp k E, F @ (if \<not> want \<and> cb then [w] else [])))"
| "skl_spec cmp cb S_count (E, F) = (S_size (length E), E, F)"

fun skl_spec_run :: "('k \<Rightarrow> 'k \<Rightarrow> int) \<Rightarrow> bool \<Rightarrow> ('k, 'v) skl_call list \<Rightarrow> ('k \<times> 'v) list \<times> 'v list \<Rightarrow> 'v skl_answer list \<times> ('k \<times> 'v) list \<times> 'v list" where
  "skl_spec_run cmp cb [] x = ([], x)"
| "skl_spec_run cmp cb (c # cs) x = (case skl_spec cmp cb c x of (a, y) \<Rightarrow> case skl_spec_run cmp cb cs y of (as, z) \<Rightarrow> (a # as, z))"

text \<open>The keys are ordered by the comparator, and no key is inserted below all those that are in the list.\<close>

definition skl_allowed :: "('k \<Rightarrow> 'k \<Rightarrow> int) \<Rightarrow> 'k set \<Rightarrow> ('k, 'v) skl_call \<Rightarrow> ('k \<times> 'v) list \<Rightarrow> bool" where
  "skl_allowed cmp K c E \<longleftrightarrow> (case c of
     S_insert rnd k v \<Rightarrow> k \<in> K \<and> (E = [] \<or> cmp (fst (hd E)) k \<le> 0)
   | S_search k \<Rightarrow> k \<in> K
   | S_remove want k \<Rightarrow> k \<in> K
   | S_count \<Rightarrow> True)"

fun skl_all_allowed :: "('k \<Rightarrow> 'k \<Rightarrow> int) \<Rightarrow> 'k set \<Rightarrow> bool \<Rightarrow> ('k, 'v) skl_call list \<Rightarrow> ('k \<times> 'v) list \<times> 'v list \<Rightarrow> bool" where
  "skl_all_allowed cmp K cb [] x \<longleftrightarrow> True"
| "skl_all_allowed cmp K cb (c # cs) x \<longleftrightarrow> skl_allowed cmp K c (fst x) \<and> skl_all_allowed cmp K cb cs (snd (skl_spec cmp cb c x))"

definition skl_rel :: "('k \<Rightarrow> 'k \<Rightarrow> int) \<Rightarrow> 'k set \<Rightarrow> bool \<Rightarrow> ('k, 'v) skiplist_t \<Rightarrow> ('k \<times> 'v) list \<times> 'v list \<Rightarrow> bool" where
  "skl_rel cmp K cb skl x \<longleftrightarrow> (\<exists>lss. skl_at cmp K skl lss \<and> fst x = entries skl (lss ! 0)) \<and> sk_count skl = length (fst x) \<and>
     sk_freed skl = snd x \<and> sk_free_value_cb skl = cb"

lemma skl_relI:
  "skl_at cmp K skl lss \<Longrightarrow> entries skl (lss ! 0) = E \<Longrightarrow> sk_count skl = length E \<Longrightarrow> sk_freed skl = F \<Longrightarrow> sk_free_value_cb skl = cb \<Longrightarrow> skl_rel cmp K cb skl (E, F)"
  by (auto simp: skl_rel_def)

lemma skl_spec_length: "length (fst (snd (skl_spec cmp cb c (E, F)))) \<le> Suc (length E)"
  by (cases c) (auto simp: al_insert_length al_remove_def le_SucI split: option.splits)

context key_order
begin

lemma entries_split:
  assumes "skl_at cmp K skl lss" and "key \<in> K" and "E = entries skl (lss ! 0)"
  shows "length (al_insert cmp key v E) = (if al_lookup cmp key E = None then Suc (length E) else length E)"
    "length (al_remove cmp key E) = (if al_lookup cmp key E = None then length E else length E - 1)" "al_lookup cmp key E = None \<Longrightarrow> al_remove cmp key E = E"
proof -
  from search_cases [OF assms(1,2)] obtain as bs where e: "\<forall>e \<in> set (entries skl as). cmp (fst e) key < 0" "\<forall>e \<in> set (entries skl bs). 0 < cmp (fst e) key"
    and s: "lss ! 0 = as @ bs \<or> (\<exists>a. lss ! 0 = as @ a # bs \<and> cmp (item_key skl a) key = 0)" by blast
  note n = al_split [where cmp = cmp and k = key, OF e] and f = al_split_found [where cmp = cmp and k = key, OF e(1) _ e(2)]
  show "length (al_insert cmp key v E) = (if al_lookup cmp key E = None then Suc (length E) else length E)"
    "length (al_remove cmp key E) = (if al_lookup cmp key E = None then length E else length E - 1)" "al_lookup cmp key E = None \<Longrightarrow> al_remove cmp key E = E"
    using s by (elim disjE exE conjE; simp add: assms(3) n f)+
qed

lemma skl_exec_ok:
  assumes "skl_rel cmp K cb skl x" and "skl_allowed cmp K c (fst x)" and "length (fst x) < SIZE_MAX"
  shows "\<exists>a skl'. skl_exec c skl = Some (a, skl') \<and> a = fst (skl_spec cmp cb c x) \<and> skl_rel cmp K cb skl' (snd (skl_spec cmp cb c x))"
proof -
  obtain E F where x: "x = (E, F)" by (cases x)
  obtain lss where at: "skl_at cmp K skl lss" "E = entries skl (lss ! 0)" "sk_count skl = length E" "sk_freed skl = F" "sk_free_value_cb skl = cb"
    using assms(1) by (auto simp: skl_rel_def x)
  show ?thesis
  proof (cases c)
    case (S_insert rnd k v)
    then have k: "k \<in> K" "E = [] \<or> cmp (fst (hd E)) k \<le> 0" using assms(2) by (auto simp: skl_allowed_def x)
    note len = entries_split(1) [OF at(1) k(1) at(2), of v]
    from insert_ok [OF at(1) k(1) at(2) k(2), of rnd v] obtain skl' lss' where
      r: "skiplist_insert False False rnd k v skl = Some (if al_lookup cmp k E = None then 0 else 1, skl')" "skl_at cmp K skl' lss'" "entries skl' (lss' ! 0) = al_insert cmp k v E"
      "sk_count skl' = (if al_lookup cmp k E = None then inc64 (sk_count skl) else sk_count skl)"
      "sk_freed skl' = sk_freed skl @ (if sk_free_value_cb skl then (case al_lookup cmp k E of None \<Rightarrow> [] | Some w \<Rightarrow> [w]) else [])"
      "sk_free_value_cb skl' = sk_free_value_cb skl" by blast
    have "skl_rel cmp K cb skl' (al_insert cmp k v E, sk_freed skl')" using r at(3,5) len assms(3) by (intro skl_relI [OF r(2,3)]) (auto simp: inc64_def x)
    then show ?thesis using r(1,5) at(4,5) S_insert by (auto simp: skl_exec_def x split: option.splits)
  next
    case (S_search k)
    then show ?thesis using search_ok [OF at(1), of k] assms(1,2) at(2) by (simp add: skl_exec_def skl_allowed_def x)
  next
    case (S_remove want k)
    then have k: "k \<in> K" using assms(2) by (simp add: skl_allowed_def)
    note len = entries_split(2,3) [OF at(1) k at(2)]
    from remove_ok [OF at(1) k at(2), of want] obtain skl' lss' where
      r: "skiplist_remove want k skl = Some (if al_lookup cmp k E = None then - 1 else 0, al_lookup cmp k E, skl')" "skl_at cmp K skl' lss'" "entries skl' (lss' ! 0) = al_remove cmp k E"
      "sk_count skl' = (if al_lookup cmp k E = None then sk_count skl else dec64 (sk_count skl))"
      "sk_freed skl' = sk_freed skl @ (if \<not> want \<and> sk_free_value_cb skl then (case al_lookup cmp k E of None \<Rightarrow> [] | Some w \<Rightarrow> [w]) else [])"
      "sk_free_value_cb skl' = sk_free_value_cb skl" by blast
    have "E = [] \<Longrightarrow> al_lookup cmp k E = None" by simp
    then have "skl_rel cmp K cb skl' (al_remove cmp k E, sk_freed skl')" using r(4,6) at(3,5) len by (intro skl_relI [OF r(2,3)]) (auto simp: dec64_def)
    then show ?thesis using r(1,5) at(4,5) len(2) S_remove by (auto simp: skl_exec_def x split: option.splits)
  next
    case S_count
    then show ?thesis using assms(1) by (simp add: skl_exec_def skiplist_count_def skl_rel_def x)
  qed
qed

lemma skl_run_ok:
  assumes "skl_rel cmp K cb skl x" and "skl_all_allowed cmp K cb cs x" and "length (fst x) + length cs \<le> SIZE_MAX"
  shows "\<exists>skl'. calls_run skl_exec cs skl = Some (fst (skl_spec_run cmp cb cs x), skl') \<and> skl_rel cmp K cb skl' (snd (skl_spec_run cmp cb cs x))"
  using assms
proof (induction cs arbitrary: skl x)
  case (Cons c cs)
  then obtain skl1 where 1: "skl_exec c skl = Some (fst (skl_spec cmp cb c x), skl1)" "skl_rel cmp K cb skl1 (snd (skl_spec cmp cb c x))"
    using skl_exec_ok [OF Cons.prems(1), of c] by auto
  have "length (fst (snd (skl_spec cmp cb c x))) \<le> Suc (length (fst x))" using skl_spec_length [of cmp cb c "fst x" "snd x"] by simp
  then have "length (fst (snd (skl_spec cmp cb c x))) + length cs \<le> SIZE_MAX" using Cons.prems(3) by simp
  then show ?case using Cons.IH [OF 1(2)] Cons.prems(2) 1(1) by (auto split: prod.splits)
qed simp

end

section \<open>The life of a skip list\<close>

lemma skiplist_create_rel:
  assumes "0 < num_layers"
  shows "\<exists>skl. skiplist_create False num_layers probability cmp cb = Some skl \<and> skl_rel cmp K cb skl ([], [])"
proof -
  let ?q = "TAILQ_INIT \<lparr>tqh_first = None, tqh_last = Null_link, tq_elems = Map.empty\<rparr> :: nat tq_head"
  have "list_all2 tq_at (replicate (nat num_layers) ?q) (replicate (nat num_layers) [])" by (simp add: list_all2_conv_all_nth INIT_law)
  moreover have "dom (tq_elems ?q) = {}" by (simp add: TAILQ_INIT_def)
  ultimately show ?thesis using assms
    by (auto simp: skiplist_create_def skl_at_def nested_def intro!: skl_relI [of _ _ _ "replicate (nat num_layers) []"])
qed

lemma destroy_items_ok:
  assumes "skl_at cmp K skl lss" and "lss ! 0 = xs"
  shows "\<exists>skl'. destroy_items (first_of xs) skl = Some skl' \<and> sk_items skl' = Map.empty \<and>
    sk_freed skl' = sk_freed skl @ (if sk_free_value_cb skl then map snd (entries skl xs) else [])"
  using assms
proof (induction xs arbitrary: skl lss)
  case Nil
  then have "sk_items skl = Map.empty" by (simp add: skl_at_def)
  then show ?case by (simp add: destroy_items.simps)
next
  case (Cons a xs)
  from remove_internal_ok [OF Cons.prems(1), of "[]" a xs False] Cons.prems(2) obtain it skl1 lss1 where
    r: "sk_items skl a = Some it" "skiplist_remove_internal False a skl = Some (si_value it, skl1)" "skl_at cmp K skl1 lss1" "lss1 ! 0 = xs" "entries skl1 xs = entries skl xs"
    "sk_free_value_cb skl1 = sk_free_value_cb skl" "sk_freed skl1 = sk_freed skl @ (if sk_free_value_cb skl then [si_value it] else [])" by auto
  obtain skl2 where s: "destroy_items (first_of xs) skl1 = Some skl2" "sk_items skl2 = Map.empty"
    "sk_freed skl2 = sk_freed skl1 @ (if sk_free_value_cb skl1 then map snd (entries skl1 xs) else [])" using Cons.IH [OF r(3,4)] by blast
  have "0 < length lss" using Cons.prems(1) by (simp add: skl_at_def)
  from skl_layer(1,2) [OF Cons.prems(1) this] have "rd (sk_layers skl) 0 = Some (sk_layers skl ! 0)" "TAILQ_NEXT a (sk_layers skl ! 0) = Some (first_of xs)"
    using tq.next_law [of _ "[]" a xs] Cons.prems(2) by simp_all
  then show ?case using r s by (simp add: destroy_items.simps [of "Some a"])
qed

text \<open>
  \<open>C10\<close>: a skip list refines a sorted list of keys with values, whatever the random numbers are. For every sequence of calls
  in which no key is inserted below all the keys of the list: \<open>skiplist_insert\<close> replaces the value of a key that is
  there, releases the old one and returns 1, otherwise it adds the key at its place and returns 0; \<open>skiplist_search\<close> gives the value of
  a key and NULL exactly if it is not there; \<open>skiplist_remove\<close> removes it, and the value goes to the caller or to the release
  callback; the count is the number of keys. \<open>skiplist_destroy\<close> then releases every item and every value that is left.
\<close>

theorem skiplist_refines_sorted_list:
  fixes calls :: "('k, 'v) skl_call list"
  assumes "key_order cmp K" and "0 < num_layers" and "skl_all_allowed cmp K cb calls ([], [])" and "length calls \<le> SIZE_MAX"
  shows "\<exists>skl as skl1 E skl2. skiplist_create False num_layers probability cmp cb = Some skl \<and> calls_run skl_exec calls skl = Some (as, skl1) \<and>
    skl_spec_run cmp cb calls ([], []) = (as, E, sk_freed skl1) \<and>
    skiplist_destroy skl1 = Some skl2 \<and> sk_items skl2 = Map.empty \<and> sk_freed skl2 = sk_freed skl1 @ (if cb then map snd E else [])"
proof -
  obtain skl :: "('k, 'v) skiplist_t" where skl: "skiplist_create False num_layers probability cmp cb = Some skl" "skl_rel cmp K cb skl ([], [])" using skiplist_create_rel [OF assms(2)] by blast
  obtain as E F where sp: "skl_spec_run cmp cb calls ([], []) = (as, E, F)" by (metis prod.exhaust)
  from key_order.skl_run_ok [OF assms(1) skl(2) assms(3)] assms(4) sp obtain skl1 where r: "calls_run skl_exec calls skl = Some (as, skl1)" "skl_rel cmp K cb skl1 (E, F)" by auto
  then obtain lss where at: "skl_at cmp K skl1 lss" "E = entries skl1 (lss ! 0)" "sk_freed skl1 = F" "sk_free_value_cb skl1 = cb" by (auto simp: skl_rel_def)
  obtain skl2 where d: "destroy_items (first_of (lss ! 0)) skl1 = Some skl2" "sk_items skl2 = Map.empty" "sk_freed skl2 = F @ (if cb then map snd E else [])"
    using destroy_items_ok [OF at(1) refl] at(2-4) by auto
  have "0 < length lss" using at(1) by (simp add: skl_at_def)
  from skl_layer(1,2) [OF at(1) this] have "rd (sk_layers skl1) 0 = Some (sk_layers skl1 ! 0)" "TAILQ_FIRST (sk_layers skl1 ! 0) = first_of (lss ! 0)"
    using tq.first_law by simp_all
  then have "skiplist_destroy skl1 = Some (skl2\<lparr>sk_layers := []\<rparr>)" using d(1) by (simp add: skiplist_destroy_def)
  then show ?thesis using skl(1) r(1) sp at(3) d(2,3)
    by - (rule exI [of _ skl], rule exI [of _ as], rule exI [of _ skl1], rule exI [of _ E], rule exI [of _ "skl2\<lparr>sk_layers := []\<rparr>"], simp)
qed

theorem skiplist_refines_sorted_list_witness:
  "\<exists>skl skl1. skiplist_create False 3 50 (cmp_keys libhl_cmp_keys_int16) True = Some skl \<and>
    calls_run skl_exec [S_insert (\<lambda>i. 99) [1, 0] (7 :: nat), S_insert (\<lambda>i. 0) [3, 0] 8, S_search [3, 0], S_remove True [1, 0], S_count] skl
      = Some ([S_code 0, S_code 0, S_value (Some 8), S_removed 0 (Some 7), S_size 1], skl1)"
proof -
  let ?cmp = "cmp_keys libhl_cmp_keys_int16" and ?calls = "[S_insert (\<lambda>i. 99) [1, 0] (7 :: nat), S_insert (\<lambda>i. 0) [3, 0] 8, S_search [3, 0], S_remove True [1, 0], S_count]"
  have c: "?cmp [1, 0] [1, 0] = 0" "?cmp [3, 0] [3, 0] = 0" "?cmp [1, 0] [3, 0] = - 2" "?cmp [3, 0] [1, 0] = 2" by code_simp+
  have "skl_all_allowed ?cmp small_keys True ?calls ([], [])" "length ?calls \<le> SIZE_MAX"
    using c by (simp_all add: skl_allowed_def small_keys_def SIZE_MAX_def)
  from skiplist_refines_sorted_list [OF int16.key_order_axioms _ this, of 3 50] obtain skl as skl1 E where
    r: "skiplist_create False 3 50 ?cmp True = Some skl" "calls_run skl_exec ?calls skl = Some (as, skl1)" "skl_spec_run ?cmp True ?calls ([], []) = (as, E, sk_freed skl1)" by auto
  have "as = [S_code 0, S_code 0, S_value (Some 8), S_removed 0 (Some 7), S_size 1]" using r(3) c by (simp add: al_remove_def)
  then show ?thesis using r(1,2) by blast
qed

section \<open>Where the operations fall short\<close>

lemma size_code [code]: "inc64 n = (if int n = 18446744073709551615 then 0 else Suc n)"
  by (auto simp: inc64_def SIZE_MAX_def)

text \<open>An item below all others goes to the end of the first layer, and no search finds it.\<close>

lemma low_key_lost:
  "Option.bind (skiplist_create False 1 50 (\<lambda>x y :: int. x - y) True) (\<lambda>skl.
     map_option fst (calls_run skl_exec [S_insert (\<lambda>i. 0) 5 (50 :: nat), S_insert (\<lambda>i. 0) 3 30, S_search 3, S_count] skl))
   = Some [S_code 0, S_code 0, S_value None, S_size 2]"
  by code_simp

text \<open>With probability 100 no item leaves the first layer.\<close>

lemma probability_reversed: "raise_layers rnd 100 path a is True layers check = Some (layers, check)"
proof -
  have "\<not> 100 < int (n mod 100)" for n :: nat using mod_less_divisor [of 100 n] by linarith
  then show ?thesis by (cases "is") (simp_all only: raise_layers.simps Let_def raise_no_coin simp_thms if_False)
qed

end
