(* ===== verification/Rbtree.thy ===== *)
theory Rbtree
  imports Comparators
begin

text \<open>
  Model of \<open>src/src/rbtree.c\<close>: red-black trees of nodes with pointers to the children and to the parent. The nodes live in a
  store; a key is a block of bytes with its length beside it, as the code keeps them. Values are addresses, 0 is NULL. The
  calls of the release callback are recorded in \<open>rb_freed\<close>. Allocations are counted by \<open>rb_brk\<close>, the next address, and
  fail where \<open>rb_fail\<close> says so. \<open>rb_prevnext\<close> is the static variable of \<open>rbt_remove\<close>.
\<close>

section \<open>Data\<close>

datatype rbt_color_t = RBTREE_COLOR_RED | RBTREE_COLOR_BLACK

record rbt_node_t =
  rn_color :: rbt_color_t
  rn_key :: "byte list"
  rn_klen :: nat
  rn_value :: nat
  rn_left :: "nat option"
  rn_right :: "nat option"
  rn_parent :: "nat option"

record rbt_t =
  rb_root :: "nat option"
  rb_cmp_keys_cb :: "cmp_callback option"
  rb_free_value_cb :: bool
  rb_nodes :: "nat \<rightharpoonup> rbt_node_t"
  rb_brk :: nat
  rb_fail :: "nat \<Rightarrow> bool"
  rb_prevnext :: int
  rb_freed :: "nat list"

definition upd_rbn :: "nat \<Rightarrow> (rbt_node_t \<Rightarrow> rbt_node_t) \<Rightarrow> rbt_t \<Rightarrow> rbt_t option" where
  "upd_rbn a f rbt = (case rb_nodes rbt a of None \<Rightarrow> None | Some n \<Rightarrow> Some (rbt\<lparr>rb_nodes := (rb_nodes rbt)(a \<mapsto> f n)\<rparr>))"

definition free_rbn :: "nat \<Rightarrow> rbt_t \<Rightarrow> rbt_t option" where
  "free_rbn a rbt = (case rb_nodes rbt a of None \<Rightarrow> None | Some n \<Rightarrow> Some (rbt\<lparr>rb_nodes := (rb_nodes rbt)(a := None)\<rparr>))"

definition free_value :: "bool \<Rightarrow> nat \<Rightarrow> rbt_t \<Rightarrow> rbt_t" where
  "free_value cond v rbt = rbt\<lparr>rb_freed := rb_freed rbt @ (if cond \<and> rb_free_value_cb rbt then [v] else [])\<rparr>"

definition IS_BLACK :: "rbt_t \<Rightarrow> nat option \<Rightarrow> bool option" where
  "IS_BLACK rbt n = (case n of None \<Rightarrow> Some True | Some a \<Rightarrow> map_option (\<lambda>N. rn_color N = RBTREE_COLOR_BLACK) (rb_nodes rbt a))"

definition IS_RED :: "rbt_t \<Rightarrow> nat option \<Rightarrow> bool option" where
  "IS_RED rbt n = (case n of None \<Rightarrow> Some False | Some a \<Rightarrow> map_option (\<lambda>N. rn_color N = RBTREE_COLOR_RED) (rb_nodes rbt a))"

definition PAINT :: "rbt_color_t \<Rightarrow> nat option \<Rightarrow> rbt_t \<Rightarrow> rbt_t option" where
  "PAINT c n rbt = (case n of None \<Rightarrow> Some rbt | Some a \<Rightarrow> upd_rbn a (rn_color_update (\<lambda>_. c)) rbt)"

definition set_parent :: "nat option \<Rightarrow> nat option \<Rightarrow> rbt_t \<Rightarrow> rbt_t option" where
  "set_parent n p rbt = (case n of None \<Rightarrow> Some rbt | Some a \<Rightarrow> upd_rbn a (rn_parent_update (\<lambda>_. p)) rbt)"

text \<open>The parent \<open>p\<close> gets \<open>new\<close> in the place of its child \<open>old\<close>.\<close>

definition relink :: "nat \<Rightarrow> nat \<Rightarrow> nat option \<Rightarrow> rbt_t \<Rightarrow> rbt_t option" where
  "relink p old new rbt = do {
     P \<leftarrow> rb_nodes rbt p;
     if rn_left P = Some old then upd_rbn p (rn_left_update (\<lambda>_. new)) rbt else upd_rbn p (rn_right_update (\<lambda>_. new)) rbt
   }"

section \<open>Creation and destruction\<close>

definition rbt_create :: "bool \<Rightarrow> cmp_callback option \<Rightarrow> bool \<Rightarrow> (nat \<Rightarrow> bool) \<Rightarrow> rbt_t option" where
  "rbt_create oom cmp cb fail =
     (if oom then None
      else Some \<lparr>rb_root = None, rb_cmp_keys_cb = cmp, rb_free_value_cb = cb, rb_nodes = Map.empty, rb_brk = 0, rb_fail = fail,
             rb_prevnext = 0, rb_freed = []\<rparr>)"

partial_function (option) rbt_destroy_internal :: "nat option \<Rightarrow> rbt_t \<Rightarrow> rbt_t option" where
  "rbt_destroy_internal node rbt = (case node of
     None \<Rightarrow> Some rbt
   | Some a \<Rightarrow> do {
       N \<leftarrow> rb_nodes rbt a;
       rbt \<leftarrow> rbt_destroy_internal (rn_left N) rbt;
       N \<leftarrow> rb_nodes rbt a;
       rbt \<leftarrow> rbt_destroy_internal (rn_right N) rbt;
       N \<leftarrow> rb_nodes rbt a;
       free_rbn a (free_value True (rn_value N) rbt)
     })"

definition rbt_destroy :: "rbt_t \<Rightarrow> rbt_t option" where
  "rbt_destroy rbt = rbt_destroy_internal (rb_root rbt) rbt"

section \<open>Neighbours and keys\<close>

definition rbt_grandparent :: "rbt_t \<Rightarrow> nat option \<Rightarrow> nat option option" where
  "rbt_grandparent rbt node = (case node of
     None \<Rightarrow> Some None
   | Some a \<Rightarrow> do {
       N \<leftarrow> rb_nodes rbt a;
       case rn_parent N of None \<Rightarrow> Some None | Some p \<Rightarrow> map_option rn_parent (rb_nodes rbt p)
     })"

definition rbt_uncle :: "rbt_t \<Rightarrow> nat \<Rightarrow> nat option option" where
  "rbt_uncle rbt node = do {
     gp \<leftarrow> rbt_grandparent rbt (Some node);
     case gp of
       None \<Rightarrow> Some None
     | Some g \<Rightarrow> do {
         N \<leftarrow> rb_nodes rbt node;
         G \<leftarrow> rb_nodes rbt g;
         Some (if rn_parent N = rn_left G then rn_right G else rn_left G)
       }
   }"

definition rbt_compare_keys :: "rbt_t \<Rightarrow> cmp_callback" where
  "rbt_compare_keys rbt k1 k1size k2 k2size = (case rb_cmp_keys_cb rbt of
     Some cmp \<Rightarrow> cmp k1 k1size k2 k2size
   | None \<Rightarrow>
       if k1size \<noteq> k2size then
         if k2size > k1size then map_option (\<lambda>c. signed_take_bit 31 (c - (int k2size - int k1size))) (memcmp_n k1 k2 k1size)
         else map_option (\<lambda>c. signed_take_bit 31 (c + (int k1size - int k2size))) (memcmp_n k1 k2 k2size)
       else memcmp_n k1 k2 k1size)"

section \<open>Insertion\<close>

partial_function (option) rbt_add_internal :: "nat \<Rightarrow> nat \<Rightarrow> rbt_t \<Rightarrow> (int \<times> rbt_t) option" where
  "rbt_add_internal cur_node new_node rbt = do {
     C \<leftarrow> rb_nodes rbt cur_node;
     N \<leftarrow> rb_nodes rbt new_node;
     rc \<leftarrow> rbt_compare_keys rbt (rn_key C) (rn_klen C) (rn_key N) (rn_klen N);
     if rc = 0 then do {
       rbt \<leftarrow> upd_rbn new_node (\<lambda>n. n\<lparr>rn_parent := rn_parent C, rn_color := rn_color C\<rparr>) rbt;
       rbt \<leftarrow> (case rn_parent C of None \<Rightarrow> Some rbt | Some p \<Rightarrow> relink p cur_node (Some new_node) rbt);
       C \<leftarrow> rb_nodes rbt cur_node;
       rbt \<leftarrow> upd_rbn new_node (\<lambda>n. n\<lparr>rn_left := rn_left C, rn_right := rn_right C\<rparr>) rbt;
       rbt \<leftarrow> set_parent (rn_left C) (Some new_node) rbt;
       rbt \<leftarrow> set_parent (rn_right C) (Some new_node) rbt;
       rbt \<leftarrow> free_rbn cur_node (free_value (rn_value N \<noteq> rn_value C) (rn_value C) rbt);
       Some (1, rbt)
     } else if rc > 0 then (case rn_left C of
         Some l \<Rightarrow> rbt_add_internal l new_node rbt
       | None \<Rightarrow> do {
           rbt \<leftarrow> upd_rbn cur_node (rn_left_update (\<lambda>_. Some new_node)) rbt;
           rbt \<leftarrow> upd_rbn new_node (rn_parent_update (\<lambda>_. Some cur_node)) rbt;
           Some (0, rbt)
         })
     else (case rn_right C of
         Some r \<Rightarrow> rbt_add_internal r new_node rbt
       | None \<Rightarrow> do {
           rbt \<leftarrow> upd_rbn cur_node (rn_right_update (\<lambda>_. Some new_node)) rbt;
           rbt \<leftarrow> upd_rbn new_node (rn_parent_update (\<lambda>_. Some cur_node)) rbt;
           Some (0, rbt)
         })
   }"

text \<open>The last part of both rotations: \<open>p\<close>, the former child, takes the place of \<open>node\<close>.\<close>

definition rotate_end :: "nat \<Rightarrow> nat option \<Rightarrow> rbt_t \<Rightarrow> rbt_t option" where
  "rotate_end node p rbt = do {
     N \<leftarrow> rb_nodes rbt node;
     let parent = rn_parent N;
     rbt \<leftarrow> upd_rbn node (rn_parent_update (\<lambda>_. p)) rbt;
     case p of
       None \<Rightarrow> Some (rbt\<lparr>rb_root := Some node\<rparr>)
     | Some a \<Rightarrow> do {
         rbt \<leftarrow> upd_rbn a (rn_parent_update (\<lambda>_. parent)) rbt;
         case parent of None \<Rightarrow> Some (rbt\<lparr>rb_root := Some a\<rparr>) | Some q \<Rightarrow> relink q node (Some a) rbt
       }
   }"

definition rbt_rotate_right :: "nat \<Rightarrow> rbt_t \<Rightarrow> rbt_t option" where
  "rbt_rotate_right node rbt = do {
     N \<leftarrow> rb_nodes rbt node;
     let p = rn_left N;
     l \<leftarrow> (case p of None \<Rightarrow> Some None | Some a \<Rightarrow> map_option rn_right (rb_nodes rbt a));
     rbt \<leftarrow> upd_rbn node (rn_left_update (\<lambda>_. l)) rbt;
     rbt \<leftarrow> (case p of None \<Rightarrow> Some rbt | Some a \<Rightarrow> upd_rbn a (rn_right_update (\<lambda>_. Some node)) rbt);
     N \<leftarrow> rb_nodes rbt node;
     rbt \<leftarrow> set_parent (rn_left N) (Some node) rbt;
     rotate_end node p rbt
   }"

definition rbt_rotate_left :: "nat \<Rightarrow> rbt_t \<Rightarrow> rbt_t option" where
  "rbt_rotate_left node rbt = do {
     N \<leftarrow> rb_nodes rbt node;
     let p = rn_right N;
     r \<leftarrow> (case p of None \<Rightarrow> Some None | Some a \<Rightarrow> map_option rn_left (rb_nodes rbt a));
     rbt \<leftarrow> upd_rbn node (rn_right_update (\<lambda>_. r)) rbt;
     rbt \<leftarrow> (case p of None \<Rightarrow> Some rbt | Some a \<Rightarrow> upd_rbn a (rn_left_update (\<lambda>_. Some node)) rbt);
     N \<leftarrow> rb_nodes rbt node;
     rbt \<leftarrow> set_parent (rn_right N) (Some node) rbt;
     rotate_end node p rbt
   }"

text \<open>
  The cases 4 and 5 of \<open>rbt_add\<close>: a red node with a red parent and a black uncle. Case 4 turns an inner node outwards and
  gives the node that is then the lower one.
\<close>

definition add_case4 :: "nat \<Rightarrow> nat \<Rightarrow> rbt_t \<Rightarrow> (nat \<times> rbt_t) option" where
  "add_case4 node grandparent rbt = do {
     N \<leftarrow> rb_nodes rbt node;
     p \<leftarrow> rn_parent N;
     P \<leftarrow> rb_nodes rbt p;
     G \<leftarrow> rb_nodes rbt grandparent;
     if rn_right P = Some node \<and> rn_left G = Some p
     then do { rbt \<leftarrow> rbt_rotate_left p rbt; N \<leftarrow> rb_nodes rbt node; n \<leftarrow> rn_left N; Some (n, rbt) }
     else if rn_left P = Some node \<and> rn_right G = Some p
     then do { rbt \<leftarrow> rbt_rotate_right p rbt; N \<leftarrow> rb_nodes rbt node; n \<leftarrow> rn_right N; Some (n, rbt) }
     else Some (node, rbt)
   }"

definition add_case5 :: "int \<Rightarrow> nat \<Rightarrow> rbt_t \<Rightarrow> (int \<times> rbt_t) option" where
  "add_case5 rc node rbt = do {
     gp \<leftarrow> rbt_grandparent rbt (Some node);
     N \<leftarrow> rb_nodes rbt node;
     case rn_parent N of
       None \<Rightarrow> Some (- 1, rbt)
     | Some p \<Rightarrow> do {
         rbt \<leftarrow> PAINT RBTREE_COLOR_BLACK (Some p) rbt;
         rbt \<leftarrow> PAINT RBTREE_COLOR_RED gp rbt;
         P \<leftarrow> rb_nodes rbt p;
         g \<leftarrow> gp;
         rbt \<leftarrow> (if rn_left P = Some node then rbt_rotate_right g rbt else rbt_rotate_left g rbt);
         Some (rc, rbt)
       }
   }"

text \<open>
  In the case 3 the painted grandparent is added again: it is replaced by a new node with the same key and value, from
  which the repair goes on.
\<close>

partial_function (option) rbt_add :: "byte list \<Rightarrow> nat \<Rightarrow> nat \<Rightarrow> rbt_t \<Rightarrow> (int \<times> rbt_t) option" where
  "rbt_add k klen v rbt =
     (if rb_fail rbt (rb_brk rbt) then Some (- 1, rbt\<lparr>rb_brk := Suc (rb_brk rbt)\<rparr>)
      else if length k < klen then None
      else do {
        let node = rb_brk rbt;
        let rbt = rbt\<lparr>rb_nodes := (rb_nodes rbt)(node \<mapsto> \<lparr>rn_color = RBTREE_COLOR_RED, rn_key = take klen k, rn_klen = klen, rn_value = v,
                        rn_left = None, rn_right = None, rn_parent = None\<rparr>), rb_brk := Suc node\<rparr>;
        case rb_root rbt of
          None \<Rightarrow> do { rbt \<leftarrow> PAINT RBTREE_COLOR_BLACK (Some node) rbt; Some (0, rbt\<lparr>rb_root := Some node\<rparr>) }
        | Some r \<Rightarrow> do {
            (rc, rbt) \<leftarrow> rbt_add_internal r node rbt;
            N \<leftarrow> rb_nodes rbt node;
            if rn_color N = RBTREE_COLOR_BLACK then Some (1, if rn_parent N = None then rbt\<lparr>rb_root := Some node\<rparr> else rbt)
            else (case rn_parent N of
                None \<Rightarrow> do { rbt \<leftarrow> PAINT RBTREE_COLOR_BLACK (Some node) rbt; Some (rc, rbt\<lparr>rb_root := Some node\<rparr>) }
              | Some p \<Rightarrow> do {
                  black \<leftarrow> IS_BLACK rbt (Some p);
                  if black then Some (rc, rbt)
                  else do {
                    uncle \<leftarrow> rbt_uncle rbt node;
                    gp \<leftarrow> rbt_grandparent rbt (Some node);
                    red \<leftarrow> IS_RED rbt uncle;
                    if red then do {
                      rbt \<leftarrow> PAINT RBTREE_COLOR_BLACK (Some p) rbt;
                      rbt \<leftarrow> PAINT RBTREE_COLOR_BLACK uncle rbt;
                      case gp of
                        None \<Rightarrow> Some (rc, rbt)
                      | Some g \<Rightarrow> do {
                          rbt \<leftarrow> PAINT RBTREE_COLOR_RED gp rbt;
                          G \<leftarrow> rb_nodes rbt g;
                          r \<leftarrow> rbt_add (rn_key G) (rn_klen G) (rn_value G) rbt;
                          Some (rc, snd r)
                        }
                    } else (case gp of None \<Rightarrow> Some (rc, rbt)
                      | Some g \<Rightarrow> do { (node, rbt) \<leftarrow> add_case4 node g rbt; add_case5 rc node rbt })
                  }
                })
          }
      })"

section \<open>Search\<close>

partial_function (option) rbt_find_internal :: "rbt_t \<Rightarrow> nat option \<Rightarrow> byte list \<Rightarrow> nat \<Rightarrow> nat option option" where
  "rbt_find_internal rbt node key klen = (case node of
     None \<Rightarrow> Some None
   | Some a \<Rightarrow> do {
       N \<leftarrow> rb_nodes rbt a;
       rc \<leftarrow> rbt_compare_keys rbt (rn_key N) (rn_klen N) key klen;
       if rc = 0 then Some (Some a)
       else if rc > 0 then rbt_find_internal rbt (rn_left N) key klen
       else rbt_find_internal rbt (rn_right N) key klen
     })"

definition rbt_find :: "rbt_t \<Rightarrow> byte list \<Rightarrow> nat \<Rightarrow> (int \<times> nat option) option" where
  "rbt_find rbt k klen = do {
     node \<leftarrow> rbt_find_internal rbt (rb_root rbt) k klen;
     case node of None \<Rightarrow> Some (- 1, None) | Some a \<Rightarrow> map_option (\<lambda>N. (0, Some (rn_value N))) (rb_nodes rbt a)
   }"

section \<open>Removal\<close>

definition rbt_sibling :: "rbt_t \<Rightarrow> nat \<Rightarrow> nat option option" where
  "rbt_sibling rbt node = do {
     N \<leftarrow> rb_nodes rbt node;
     p \<leftarrow> rn_parent N;
     P \<leftarrow> rb_nodes rbt p;
     Some (if rn_left P = Some node then rn_right P else rn_left P)
   }"

partial_function (option) leftmost :: "rbt_t \<Rightarrow> nat \<Rightarrow> nat option" where
  "leftmost rbt next = do { N \<leftarrow> rb_nodes rbt next; case rn_left N of None \<Rightarrow> Some next | Some l \<Rightarrow> leftmost rbt l }"

partial_function (option) rightmost :: "rbt_t \<Rightarrow> nat \<Rightarrow> nat option" where
  "rightmost rbt prev = do { N \<leftarrow> rb_nodes rbt prev; case rn_right N of None \<Rightarrow> Some prev | Some r \<Rightarrow> rightmost rbt r }"

definition rbt_find_next :: "rbt_t \<Rightarrow> nat \<Rightarrow> nat option option" where
  "rbt_find_next rbt node = do { N \<leftarrow> rb_nodes rbt node; case rn_right N of None \<Rightarrow> Some None | Some r \<Rightarrow> map_option Some (leftmost rbt r) }"

definition rbt_find_prev :: "rbt_t \<Rightarrow> nat \<Rightarrow> nat option option" where
  "rbt_find_prev rbt node = do { N \<leftarrow> rb_nodes rbt node; case rn_left N of None \<Rightarrow> Some None | Some l \<Rightarrow> map_option Some (rightmost rbt l) }"

text \<open>The sibling is black and has no red child; a sibling that is NULL does not count.\<close>

definition all_black :: "rbt_t \<Rightarrow> nat option \<Rightarrow> bool option" where
  "all_black rbt sibling = (case sibling of
     None \<Rightarrow> Some False
   | Some s \<Rightarrow> do {
       S \<leftarrow> rb_nodes rbt s;
       l \<leftarrow> IS_BLACK rbt (rn_left S);
       r \<leftarrow> IS_BLACK rbt (rn_right S);
       Some (rn_color S = RBTREE_COLOR_BLACK \<and> l \<and> r)
     })"

definition parent_of :: "rbt_t \<Rightarrow> nat \<Rightarrow> nat option" where
  "parent_of rbt node = do { N \<leftarrow> rb_nodes rbt node; rn_parent N }"

definition is_left :: "rbt_t \<Rightarrow> nat \<Rightarrow> bool option" where
  "is_left rbt node = do { p \<leftarrow> parent_of rbt node; P \<leftarrow> rb_nodes rbt p; Some (rn_left P = Some node) }"

definition is_right :: "rbt_t \<Rightarrow> nat \<Rightarrow> bool option" where
  "is_right rbt node = do { p \<leftarrow> parent_of rbt node; P \<leftarrow> rb_nodes rbt p; Some (rn_right P = Some node) }"

text \<open>The cases 5 and 6 of the repair after a removal.\<close>

definition remove_case5 :: "nat \<Rightarrow> nat option \<Rightarrow> rbt_t \<Rightarrow> rbt_t option" where
  "remove_case5 node sibling rbt = (case sibling of
     None \<Rightarrow> Some rbt
   | Some s \<Rightarrow> do {
       S \<leftarrow> rb_nodes rbt s;
       if rn_color S \<noteq> RBTREE_COLOR_BLACK then Some rbt
       else do {
       lb \<leftarrow> IS_BLACK rbt (rn_left S);
       rb \<leftarrow> IS_BLACK rbt (rn_right S);
       nl \<leftarrow> is_left rbt node;
       nr \<leftarrow> is_right rbt node;
       if nl \<and> rb \<and> \<not> lb then do {
         rbt \<leftarrow> PAINT RBTREE_COLOR_RED sibling rbt;
         rbt \<leftarrow> PAINT RBTREE_COLOR_BLACK (rn_left S) rbt;
         rbt_rotate_right s rbt
       } else if nr \<and> lb \<and> \<not> rb then do {
         rbt \<leftarrow> PAINT RBTREE_COLOR_RED sibling rbt;
         rbt \<leftarrow> PAINT RBTREE_COLOR_BLACK (rn_right S) rbt;
         rbt_rotate_left s rbt
       } else Some rbt
       }
     })"

definition remove_case6 :: "nat \<Rightarrow> nat option \<Rightarrow> rbt_t \<Rightarrow> rbt_t option" where
  "remove_case6 node sibling rbt = do {
     p \<leftarrow> parent_of rbt node;
     P \<leftarrow> rb_nodes rbt p;
     rbt \<leftarrow> (case sibling of None \<Rightarrow> Some rbt | Some s \<Rightarrow> upd_rbn s (rn_color_update (\<lambda>_. rn_color P)) rbt);
     rbt \<leftarrow> PAINT RBTREE_COLOR_BLACK (Some p) rbt;
     nl \<leftarrow> is_left rbt node;
     rbt \<leftarrow> (case sibling of None \<Rightarrow> Some rbt
       | Some s \<Rightarrow> do { S \<leftarrow> rb_nodes rbt s; PAINT RBTREE_COLOR_BLACK (if nl then rn_right S else rn_left S) rbt });
     if nl then rbt_rotate_left p rbt else rbt_rotate_right p rbt
   }"

text \<open>The sibling that the cases 3 to 6 use is the one from before the rotation in case 2.\<close>

partial_function (option) rbt_paint_onremove :: "nat \<Rightarrow> rbt_t \<Rightarrow> rbt_t option" where
  "rbt_paint_onremove node rbt = do {
     N \<leftarrow> rb_nodes rbt node;
     case rn_parent N of
       None \<Rightarrow> Some rbt
     | Some p \<Rightarrow> do {
         sibling \<leftarrow> rbt_sibling rbt node;
         red \<leftarrow> IS_RED rbt sibling;
         rbt \<leftarrow> (if red then do {
             rbt \<leftarrow> PAINT RBTREE_COLOR_RED (Some p) rbt;
             rbt \<leftarrow> PAINT RBTREE_COLOR_BLACK sibling rbt;
             nl \<leftarrow> is_left rbt node;
             if nl then rbt_rotate_left p rbt else rbt_rotate_right p rbt
           } else Some rbt);
         p \<leftarrow> parent_of rbt node;
         pb \<leftarrow> IS_BLACK rbt (Some p);
         ab \<leftarrow> all_black rbt sibling;
         if pb \<and> ab then do {
           rbt \<leftarrow> PAINT RBTREE_COLOR_RED sibling rbt;
           p \<leftarrow> parent_of rbt node;
           rbt_paint_onremove p rbt
         } else if \<not> pb \<and> ab then do {
           rbt \<leftarrow> PAINT RBTREE_COLOR_RED sibling rbt;
           PAINT RBTREE_COLOR_BLACK (Some p) rbt
         } else do {
           rbt \<leftarrow> remove_case5 node sibling rbt;
           remove_case6 node sibling rbt
         }
       }
   }"

text \<open>\<open>want\<close> says that the caller passes a place for the value; without it the value is released.\<close>

definition remove_two :: "bool \<Rightarrow> nat \<Rightarrow> rbt_t \<Rightarrow> (int \<times> nat option \<times> rbt_t) option" where
  "remove_two want node rbt = do {
     let isprev = (rb_prevnext rbt mod 2 = 0);
     prevnext \<leftarrow> ck (rb_prevnext rbt + 1);
     let rbt = rbt\<lparr>rb_prevnext := prevnext\<rparr>;
     n \<leftarrow> (if isprev then rbt_find_prev rbt node else rbt_find_next rbt node);
     n \<leftarrow> n;
     S \<leftarrow> rb_nodes rbt n;
     if rb_fail rbt (rb_brk rbt) then Some (- 1, None, rbt\<lparr>rb_brk := Suc (rb_brk rbt)\<rparr>)
     else do {
       N \<leftarrow> rb_nodes rbt node;
       let prev_value = rn_value N;
       rbt \<leftarrow> (if length (rn_key S) < rn_klen S then None else upd_rbn node (\<lambda>m. m\<lparr>rn_key := take (rn_klen S) (rn_key S), rn_value := rn_value S\<rparr>) rbt);
       rbt \<leftarrow> (if isprev then
           if rn_left N = Some n then upd_rbn node (rn_left_update (\<lambda>_. rn_left S)) rbt
           else do { q \<leftarrow> rn_parent S; upd_rbn q (rn_right_update (\<lambda>_. rn_left S)) rbt }
         else if rn_right N = Some n then upd_rbn node (rn_right_update (\<lambda>_. rn_right S)) rbt
           else do { q \<leftarrow> rn_parent S; upd_rbn q (rn_left_update (\<lambda>_. rn_right S)) rbt });
       rbt \<leftarrow> set_parent (if isprev then rn_left S else rn_right S) (Some node) rbt;
       rbt \<leftarrow> free_rbn n (free_value (\<not> want) prev_value rbt);
       Some (0, Some prev_value, rbt)
     }
   }"

definition remove_one :: "bool \<Rightarrow> nat \<Rightarrow> nat \<Rightarrow> rbt_t \<Rightarrow> (int \<times> nat option \<times> rbt_t) option" where
  "remove_one want node child rbt = do {
     N \<leftarrow> rb_nodes rbt node;
     rbt \<leftarrow> set_parent (Some child) (rn_parent N) rbt;
     rbt \<leftarrow> (case rn_parent N of None \<Rightarrow> Some rbt | Some p \<Rightarrow> relink p node (Some child) rbt);
     red \<leftarrow> IS_RED rbt (Some child);
     rbt \<leftarrow> (if rn_color N = RBTREE_COLOR_BLACK then
         if red then PAINT RBTREE_COLOR_BLACK (Some child) rbt else rbt_paint_onremove child rbt
       else Some rbt);
     rbt \<leftarrow> free_rbn node (free_value (\<not> want) (rn_value N) rbt);
     Some (0, Some (rn_value N), rbt)
   }"

definition remove_leaf :: "bool \<Rightarrow> nat \<Rightarrow> rbt_t \<Rightarrow> (int \<times> nat option \<times> rbt_t) option" where
  "remove_leaf want node rbt = do {
     N \<leftarrow> rb_nodes rbt node;
     rbt \<leftarrow> (case rn_parent N of None \<Rightarrow> Some rbt | Some p \<Rightarrow> relink p node None rbt);
     rbt \<leftarrow> free_rbn node (free_value (\<not> want \<and> rn_value N \<noteq> 0) (rn_value N) rbt);
     Some (0, Some (rn_value N), rbt)
   }"

definition rbt_remove :: "bool \<Rightarrow> byte list \<Rightarrow> nat \<Rightarrow> rbt_t \<Rightarrow> (int \<times> nat option \<times> rbt_t) option" where
  "rbt_remove want k klen rbt = do {
     found \<leftarrow> rbt_find_internal rbt (rb_root rbt) k klen;
     case found of
       None \<Rightarrow> Some (- 1, None, rbt)
     | Some node \<Rightarrow> do {
         N \<leftarrow> rb_nodes rbt node;
         case rn_right N of
           Some r \<Rightarrow> if rn_left N \<noteq> None then remove_two want node rbt else remove_one want node r rbt
         | None \<Rightarrow> (case rn_left N of Some l \<Rightarrow> remove_one want node l rbt | None \<Rightarrow> remove_leaf want node rbt)
       }
   }"

section \<open>Walking\<close>

definition RBT_WALK_STOP :: int where
  "RBT_WALK_STOP = 0"

definition RBT_WALK_DELETE_AND_CONTINUE :: int where
  "RBT_WALK_DELETE_AND_CONTINUE = - 1"

definition RBT_WALK_DELETE_AND_STOP :: int where
  "RBT_WALK_DELETE_AND_STOP = - 2"

text \<open>
  The callback gets the key and the value and gives its return code and the new user data. A visit of a child that returns
  0 ends the walk: the result of the parent is then one more than what it has counted so far.
\<close>

partial_function (option) rbt_walk_internal ::
  "(byte list \<Rightarrow> nat \<Rightarrow> 'u \<Rightarrow> int \<times> 'u) \<Rightarrow> bool \<Rightarrow> nat option \<Rightarrow> 'u \<Rightarrow> rbt_t \<Rightarrow> (int \<times> 'u \<times> rbt_t) option" where
  "rbt_walk_internal cb in_order node user rbt = (case node of
     None \<Rightarrow> Some (0, user, rbt)
   | Some a \<Rightarrow> do {
       N \<leftarrow> rb_nodes rbt a;
       (rrc, user, rbt) \<leftarrow> (if in_order \<and> rn_left N \<noteq> None then rbt_walk_internal cb in_order (rn_left N) user rbt else Some (- 1, user, rbt));
       if rrc = 0 then Some (2, user, rbt)
       else do {
         rc \<leftarrow> ck (if in_order \<and> rn_left N \<noteq> None then 1 + rrc else 1);
         N \<leftarrow> rb_nodes rbt a;
         let (cbrc, user) = cb (take (rn_klen N) (rn_key N)) (rn_value N) user;
         if cbrc = RBT_WALK_DELETE_AND_STOP then do {
           (_, _, rbt) \<leftarrow> rbt_remove False (rn_key N) (rn_klen N) rbt;
           Some (0, user, rbt)
         } else if cbrc = RBT_WALK_DELETE_AND_CONTINUE then
           if rn_left N \<noteq> None \<and> rn_right N \<noteq> None then do {
             (_, _, rbt) \<leftarrow> rbt_remove False (rn_key N) (rn_klen N) rbt;
             rbt_walk_internal cb in_order node user rbt
           } else if rn_left N \<noteq> None then rbt_walk_internal cb in_order (rn_left N) user rbt
           else if rn_right N \<noteq> None then rbt_walk_internal cb in_order (rn_right N) user rbt
           else Some (1, user, rbt)
         else if cbrc = RBT_WALK_STOP then Some (0, user, rbt)
         else do {
           (rrc, user, rbt) \<leftarrow> (if \<not> in_order \<and> rn_left N \<noteq> None then rbt_walk_internal cb in_order (rn_left N) user rbt else Some (- 1, user, rbt));
           if rrc = 0 then do { rc \<leftarrow> ck (rc + 1); Some (rc, user, rbt) }
           else do {
             rc \<leftarrow> ck (if \<not> in_order \<and> rn_left N \<noteq> None then rc + rrc else rc);
             N \<leftarrow> rb_nodes rbt a;
             if rn_right N = None then Some (rc, user, rbt)
             else do {
               (rrc, user, rbt) \<leftarrow> rbt_walk_internal cb in_order (rn_right N) user rbt;
               rc \<leftarrow> ck (if rrc = 0 then rc + 1 else rc + rrc);
               Some (rc, user, rbt)
             }
           }
         }
       }
     })"

definition rbt_walk :: "(byte list \<Rightarrow> nat \<Rightarrow> 'u \<Rightarrow> int \<times> 'u) \<Rightarrow> 'u \<Rightarrow> rbt_t \<Rightarrow> (int \<times> 'u \<times> rbt_t) option" where
  "rbt_walk cb user rbt = (case rb_root rbt of None \<Rightarrow> Some (0, user, rbt) | Some r \<Rightarrow> rbt_walk_internal cb False (Some r) user rbt)"

definition rbt_walk_sorted :: "(byte list \<Rightarrow> nat \<Rightarrow> 'u \<Rightarrow> int \<times> 'u) \<Rightarrow> 'u \<Rightarrow> rbt_t \<Rightarrow> (int \<times> 'u \<times> rbt_t) option" where
  "rbt_walk_sorted cb user rbt = (case rb_root rbt of None \<Rightarrow> Some (0, user, rbt) | Some r \<Rightarrow> rbt_walk_internal cb True (Some r) user rbt)"

declare rbt_destroy_internal.simps [code] rbt_add_internal.simps [code] rbt_add.simps [code] rbt_find_internal.simps [code]
  leftmost.simps [code] rightmost.simps [code] rbt_paint_onremove.simps [code] rbt_walk_internal.simps [code]

end
