(* ===== verification/Ptr_Tree.thy ===== *)
theory Ptr_Tree
  imports Sorted_Map
begin

text \<open>
  Binary search trees of nodes with pointers to the children and to the parent, as \<open>rbtree.c\<close> and \<open>avltree.c\<close> have
  them: functional trees with the addresses of the nodes and with data of type \<open>'d\<close> (a colour, the heights), the context of
  the node that an operation is at, what it means that a store holds them, and the way to a key in a sorted tree.
\<close>

section \<open>Trees and contexts\<close>

datatype 'd ptree = Tip | Nd "'d ptree" nat 'd "byte list" nat "'d ptree"

text \<open>A 'd frame is a node with its hole on the left or on the right; a context lists the frames from the hole upwards.\<close>

datatype 'd frame = FL nat 'd "byte list" nat "'d ptree" | FR "'d ptree" nat 'd "byte list" nat

fun plug1 :: "'d frame \<Rightarrow> 'd ptree \<Rightarrow> 'd ptree" where
  "plug1 (FL a c k v r) t = Nd t a c k v r"
| "plug1 (FR l a c k v) t = Nd l a c k v t"

fun plug :: "'d frame list \<Rightarrow> 'd ptree \<Rightarrow> 'd ptree" where
  "plug [] t = t"
| "plug (f # fs) t = plug fs (plug1 f t)"

fun rptr :: "'d ptree \<Rightarrow> nat option" where
  "rptr Tip = None"
| "rptr (Nd l a c k v r) = Some a"

fun fa :: "'d frame \<Rightarrow> nat" where
  "fa (FL a c k v r) = a"
| "fa (FR l a c k v) = a"

fun fdat :: "'d frame \<Rightarrow> 'd" where
  "fdat (FL a c k v r) = c"
| "fdat (FR l a c k v) = c"

fun fsib :: "'d frame \<Rightarrow> 'd ptree" where
  "fsib (FL a c k v r) = r"
| "fsib (FR l a c k v) = l"

fun set_dat :: "'d \<Rightarrow> 'd frame \<Rightarrow> 'd frame" where
  "set_dat c' (FL a c k v r) = FL a c' k v r"
| "set_dat c' (FR l a c k v) = FR l a c' k v"

fun set_sib :: "'d ptree \<Rightarrow> 'd frame \<Rightarrow> 'd frame" where
  "set_sib t (FL a c k v r) = FL a c k v t"
| "set_sib t (FR l a c k v) = FR t a c k v"

definition top_ptr :: "'d frame list \<Rightarrow> nat option" where
  "top_ptr fs = (case fs of [] \<Rightarrow> None | f # fs \<Rightarrow> Some (fa f))"

lemma top_ptr_simps [simp]: "top_ptr [] = None" "top_ptr (f # fs) = Some (fa f)"
  by (simp_all add: top_ptr_def)

fun taddrs :: "'d ptree \<Rightarrow> nat list" where
  "taddrs Tip = []"
| "taddrs (Nd l a c k v r) = taddrs l @ a # taddrs r"

fun caddrs :: "'d frame list \<Rightarrow> nat list" where
  "caddrs [] = []"
| "caddrs (f # fs) = fa f # taddrs (fsib f) @ caddrs fs"

lemma plug1_simps [simp]: "rptr (plug1 f t) = Some (fa f)" "plug1 f t \<noteq> Tip" "mset (taddrs (plug1 f t)) = add_mset (fa f) (mset (taddrs (fsib f)) + mset (taddrs t))"
  by (cases f; simp)+

lemma plug_addrs: "mset (taddrs (plug fs t)) = mset (taddrs t) + mset (caddrs fs)"
  by (induction fs arbitrary: t) (simp_all add: ac_simps)

lemma rptr_plug: "fs \<noteq> [] \<Longrightarrow> rptr (plug fs t) = rptr (plug fs t')"
  by (induction fs arbitrary: t t') (auto, metis plug.simps(1) plug1_simps(1))

section \<open>Trees in the store\<close>

text \<open>\<open>mk\<close> builds the node from its data, key, value and pointers.\<close>

fun tree_at :: "('d \<Rightarrow> byte list \<Rightarrow> nat \<Rightarrow> nat option \<Rightarrow> nat option \<Rightarrow> nat option \<Rightarrow> 'n) \<Rightarrow> (nat \<rightharpoonup> 'n) \<Rightarrow> nat option \<Rightarrow> 'd ptree \<Rightarrow> bool" where
  "tree_at mk h p Tip \<longleftrightarrow> True"
| "tree_at mk h p (Nd l a c k v r) \<longleftrightarrow> h a = Some (mk c k v (rptr l) (rptr r) p) \<and> tree_at mk h (Some a) l \<and> tree_at mk h (Some a) r"

fun frame_at :: "('d \<Rightarrow> byte list \<Rightarrow> nat \<Rightarrow> nat option \<Rightarrow> nat option \<Rightarrow> nat option \<Rightarrow> 'n) \<Rightarrow> (nat \<rightharpoonup> 'n) \<Rightarrow> 'd frame \<Rightarrow> nat option \<Rightarrow> nat option \<Rightarrow> bool" where
  "frame_at mk h (FL a c k v r) hole p \<longleftrightarrow> h a = Some (mk c k v hole (rptr r) p) \<and> tree_at mk h (Some a) r"
| "frame_at mk h (FR l a c k v) hole p \<longleftrightarrow> h a = Some (mk c k v (rptr l) hole p) \<and> tree_at mk h (Some a) l"

fun ctx_at :: "('d \<Rightarrow> byte list \<Rightarrow> nat \<Rightarrow> nat option \<Rightarrow> nat option \<Rightarrow> nat option \<Rightarrow> 'n) \<Rightarrow> (nat \<rightharpoonup> 'n) \<Rightarrow> 'd frame list \<Rightarrow> nat option \<Rightarrow> bool" where
  "ctx_at mk h [] hole \<longleftrightarrow> True"
| "ctx_at mk h (f # fs) hole \<longleftrightarrow> frame_at mk h f hole (top_ptr fs) \<and> ctx_at mk h fs (Some (fa f))"

definition store_at :: "('d \<Rightarrow> byte list \<Rightarrow> nat \<Rightarrow> nat option \<Rightarrow> nat option \<Rightarrow> nat option \<Rightarrow> 'n) \<Rightarrow> (nat \<rightharpoonup> 'n) \<Rightarrow> 'd frame list \<Rightarrow> 'd ptree \<Rightarrow> bool" where
  "store_at mk h fs t \<longleftrightarrow> tree_at mk h (top_ptr fs) t \<and> ctx_at mk h fs (rptr t) \<and> distinct (taddrs t @ caddrs fs)"

lemma t_at_upd [simp]: "a \<notin> set (taddrs t) \<Longrightarrow> tree_at mk (h(a := x)) p t = tree_at mk h p t"
  by (induction t arbitrary: p) auto

lemma f_at_upd [simp]: "a \<noteq> fa f \<Longrightarrow> a \<notin> set (taddrs (fsib f)) \<Longrightarrow> frame_at mk (h(a := x)) f hole p = frame_at mk h f hole p"
  by (cases f) auto

lemma c_at_upd [simp]: "a \<notin> set (caddrs fs) \<Longrightarrow> ctx_at mk (h(a := x)) fs hole = ctx_at mk h fs hole"
  by (induction fs arbitrary: hole) auto

lemma heap_at_upd: "store_at mk h fs t \<Longrightarrow> a \<notin> set (taddrs t) \<Longrightarrow> a \<notin> set (caddrs fs) \<Longrightarrow> store_at mk (h(a := x)) fs t"
  by (simp add: store_at_def)

text \<open>The focus moves up and down.\<close>

lemma heap_move: "store_at mk h (f # fs) t \<longleftrightarrow> store_at mk h fs (plug1 f t)"
  by (cases f) (auto simp: store_at_def)

lemma heap_plug: "store_at mk h [] (plug fs t) \<longleftrightarrow> store_at mk h fs t"
  by (induction fs arbitrary: t) (simp_all add: heap_move)

lemma heap_at_node: "store_at mk h fs (Nd l a c k v r) \<Longrightarrow> h a = Some (mk c k v (rptr l) (rptr r) (top_ptr fs))"
  by (simp add: store_at_def)

lemma t_at_cong: "\<forall>x \<in> set (taddrs t). h' x = h x \<Longrightarrow> tree_at mk h' p t = tree_at mk h p t"
  by (induction t arbitrary: p) auto

lemma f_at_cong: "h' (fa f) = h (fa f) \<Longrightarrow> \<forall>x \<in> set (taddrs (fsib f)). h' x = h x \<Longrightarrow> frame_at mk h' f hole p = frame_at mk h f hole p"
  using t_at_cong [of "fsib f" h' h] by (cases f) auto

lemma c_at_cong: "\<forall>x \<in> set (caddrs fs). h' x = h x \<Longrightarrow> ctx_at mk h' fs hole = ctx_at mk h fs hole"
proof (induction fs arbitrary: hole)
  case (Cons f fs)
  then show ?case using f_at_cong [of h' f h mk hole "top_ptr fs"] by simp
qed simp

lemma rptr_notin [simp]: "a \<notin> set (taddrs t) \<Longrightarrow> rptr t \<noteq> Some a"
  by (cases t) auto

lemma sib_focus:
  "store_at mk h (FL a c k v s # fs) t \<longleftrightarrow> store_at mk h (FR t a c k v # fs) s" "store_at mk h (FR s a c k v # fs) t \<longleftrightarrow> store_at mk h (FL a c k v t # fs) s"
  by (simp_all add: heap_move)

lemma frame_simps [simp]: "fa (set_dat c f) = fa f" "fsib (set_dat c f) = fsib f" "fdat (set_dat c f) = c"
  "fa (set_sib t f) = fa f" "fsib (set_sib t f) = t" "fdat (set_sib t f) = fdat f"
  by (cases f; simp)+

lemma plug_root: "t \<noteq> Tip \<Longrightarrow> \<exists>q. rptr (plug fs t) = Some q"
proof (induction fs arbitrary: t)
  case Nil
  then show ?case by (cases t) simp_all
qed simp

lemma set_addrs_plug: "set (taddrs (plug fs t)) = set (taddrs t) \<union> set (caddrs fs)"
  using plug_addrs [of fs t] by (metis mset_append mset_eq_setD set_append)

lemma plug_append: "plug (gs @ fs) t = plug fs (plug gs t)"
  by (induction gs arbitrary: t) simp_all

lemma heap_append: "store_at mk h (gs @ fs) t \<longleftrightarrow> store_at mk h fs (plug gs t)"
  by (induction gs arbitrary: t) (simp_all add: heap_move)

lemma focus_upd: "store_at mk h fs (Nd l a d k v r) \<Longrightarrow> store_at mk (h(a \<mapsto> mk d' k' v' (rptr l) (rptr r) (top_ptr fs))) fs (Nd l a d' k' v' r)"
  by (auto simp: store_at_def)

lemma caddrs_append [simp]: "caddrs (gs @ fs) = caddrs gs @ caddrs fs"
  by (induction gs) simp_all

section \<open>Depth\<close>

fun depth :: "'d ptree \<Rightarrow> nat" where
  "depth Tip = 0"
| "depth (Nd l a c k v r) = Suc (max (depth l) (depth r))"

lemma depth_plug1: "depth (plug1 f t) = Suc (max (depth t) (depth (fsib f)))"
  by (cases f) auto

section \<open>The entries in order\<close>

fun inord :: "'d ptree \<Rightarrow> (byte list \<times> nat) list" where
  "inord Tip = []"
| "inord (Nd l a c k v r) = inord l @ (k, v) # inord r"

fun c_left :: "'d frame list \<Rightarrow> (byte list \<times> nat) list" where
  "c_left [] = []"
| "c_left (FL a c k v r # fs) = c_left fs"
| "c_left (FR l a c k v # fs) = c_left fs @ inord l @ [(k, v)]"

fun c_right :: "'d frame list \<Rightarrow> (byte list \<times> nat) list" where
  "c_right [] = []"
| "c_right (FL a c k v r # fs) = (k, v) # inord r @ c_right fs"
| "c_right (FR l a c k v # fs) = c_right fs"

lemma c_append: "c_left (gs @ fs) = c_left fs @ c_left gs" "c_right (gs @ fs) = c_right gs @ c_right fs"
proof -
  show "c_left (gs @ fs) = c_left fs @ c_left gs"
  proof (induction gs)
    case (Cons f gs)
    then show ?case by (cases f) simp_all
  qed simp
  show "c_right (gs @ fs) = c_right gs @ c_right fs"
  proof (induction gs)
    case (Cons f gs)
    then show ?case by (cases f) simp_all
  qed simp
qed

lemma inord_plug: "inord (plug fs t) = c_left fs @ inord t @ c_right fs"
proof (induction fs arbitrary: t)
  case (Cons f fs)
  then show ?case by (cases f) simp_all
qed simp

text \<open>A callback sees the entries one after the other.\<close>

definition visit :: "(byte list \<Rightarrow> nat \<Rightarrow> 'u \<Rightarrow> int \<times> 'u) \<Rightarrow> (byte list \<times> nat) list \<Rightarrow> 'u \<Rightarrow> 'u" where
  "visit cb E u = fold (\<lambda>(k, v) u. snd (cb k v u)) E u"

lemma visit_simps [simp]: "visit cb [] u = u" "visit cb ((k, v) # E) u = visit cb E (snd (cb k v u))" "visit cb (E @ F) u = visit cb F (visit cb E u)"
  by (simp_all add: visit_def)

definition ascending :: "('k \<Rightarrow> 'k \<Rightarrow> int) \<Rightarrow> ('k \<times> 'v) list \<Rightarrow> bool" where
  "ascending cmp E \<longleftrightarrow> sorted_wrt (\<lambda>x y. cmp (fst x) (fst y) < 0) E"

section \<open>The way to a key\<close>

fun way_to :: "(byte list \<Rightarrow> byte list \<Rightarrow> int) \<Rightarrow> byte list \<Rightarrow> 'd ptree \<Rightarrow> 'd frame list \<Rightarrow> 'd frame list \<times> 'd ptree" where
  "way_to cmp key Tip fs = (fs, Tip)"
| "way_to cmp key (Nd l a c k v r) fs =
     (if cmp k key = 0 then (fs, Nd l a c k v r) else if cmp k key > 0 then way_to cmp key l (FL a c k v r # fs) else way_to cmp key r (FR l a c k v # fs))"

lemma way_plug: "way_to cmp key t fs = (gs, u) \<Longrightarrow> plug gs u = plug fs t"
  by (induction cmp key t fs rule: way_to.induct) (auto split: if_splits)

lemma way_found: "way_to cmp key t fs = (gs, Nd l a c k v r) \<Longrightarrow> cmp k key = 0"
  by (induction cmp key t fs rule: way_to.induct) (auto split: if_splits)

fun turns :: "(byte list \<Rightarrow> byte list \<Rightarrow> int) \<Rightarrow> byte list \<Rightarrow> 'd frame list \<Rightarrow> bool" where
  "turns cmp key [] \<longleftrightarrow> True"
| "turns cmp key (FL a c k v r # fs) \<longleftrightarrow> 0 < cmp k key \<and> turns cmp key fs"
| "turns cmp key (FR l a c k v # fs) \<longleftrightarrow> cmp k key < 0 \<and> turns cmp key fs"

lemma way_turns: "turns cmp key fs \<Longrightarrow> way_to cmp key (plug fs t) gs = way_to cmp key t (fs @ gs)"
proof (induction fs arbitrary: t)
  case (Cons f fs)
  then show ?case by (cases f) auto
qed simp

lemma turns_descend: "turns cmp key fs \<Longrightarrow> way_to cmp key t fs = (gs, u) \<Longrightarrow> turns cmp key gs"
  by (induction cmp key t fs rule: way_to.induct) (auto split: if_splits)

lemma turns_bounds: "\<forall>e \<in> set (c_left fs). cmp (fst e) key < 0 \<Longrightarrow> \<forall>e \<in> set (c_right fs). 0 < cmp (fst e) key \<Longrightarrow> turns cmp key fs"
proof (induction fs)
  case (Cons f fs)
  then show ?case by (cases f) auto
qed simp

text \<open>An order on keys that are blocks of bytes.\<close>

locale byte_key_order = key_order cmp K for cmp :: "byte list \<Rightarrow> byte list \<Rightarrow> int" and K
begin

text \<open>In a sorted tree the turns say where all the other keys are.\<close>

lemma bounds_turns:
  assumes "turns cmp key fs" and "ascending cmp (c_left fs @ E @ c_right fs)" and "fst ` set (c_left fs @ c_right fs) \<subseteq> K" and "key \<in> K"
  shows "(\<forall>e \<in> set (c_left fs). cmp (fst e) key < 0) \<and> (\<forall>e \<in> set (c_right fs). 0 < cmp (fst e) key)"
  using assms
proof (induction fs arbitrary: E)
  case (Cons f fs)
  show ?case
  proof (cases f)
    case (FL a c k v r)
    have s: "ascending cmp (c_left fs @ (E @ (k, v) # inord r) @ c_right fs)" "turns cmp key fs" "0 < cmp k key" "k \<in> K" using Cons.prems FL by auto
    have "0 < cmp (fst e) key" if e: "e \<in> set (inord r)" for e
    proof -
      have "cmp k (fst e) < 0" using s(1) e by (auto simp: ascending_def sorted_wrt_append)
      moreover have "fst e \<in> K" using Cons.prems(3) FL e by auto
      ultimately show ?thesis using s(3,4) Cons.prems(4) cmp_less_le_trans [of key k "fst e"] cmp_sign by (metis less_imp_le)
    qed
    then show ?thesis using Cons.IH [OF s(2,1)] Cons.prems(3,4) FL s(3) by auto
  next
    case (FR l a c k v)
    have s: "ascending cmp (c_left fs @ (inord l @ (k, v) # E) @ c_right fs)" "turns cmp key fs" "cmp k key < 0" "k \<in> K" using Cons.prems FR by auto
    have "cmp (fst e) key < 0" if e: "e \<in> set (inord l)" for e
    proof -
      have "cmp (fst e) k < 0" using s(1) e by (auto simp: ascending_def sorted_wrt_append)
      moreover have "fst e \<in> K" using Cons.prems(3) FR e by auto
      ultimately show ?thesis using s(3,4) Cons.prems(4) cmp_less_le_trans [of "fst e" k key] by (metis less_imp_le)
    qed
    then show ?thesis using Cons.IH [OF s(2,1)] Cons.prems(3,4) FR s(3) by auto
  qed
qed simp

text \<open>A key of a sorted tree leads to its node.\<close>

lemma way_own:
  assumes "ascending cmp (inord (plug fs (Nd l a c k v r)))" and "fst ` set (inord (plug fs (Nd l a c k v r))) \<subseteq> K"
  shows "way_to cmp k (plug fs (Nd l a c k v r)) [] = (fs, Nd l a c k v r)"
proof -
  have k: "k \<in> K" "fst ` set (c_left fs @ c_right fs) \<subseteq> K" using assms(2) by (auto simp: inord_plug)
  have "turns cmp k fs"
  proof (rule turns_bounds)
    show "\<forall>e \<in> set (c_left fs). cmp (fst e) k < 0" using assms(1) by (auto simp: inord_plug ascending_def sorted_wrt_append)
    have "\<forall>e \<in> set (c_right fs). cmp k (fst e) < 0" using assms(1) by (auto simp: inord_plug ascending_def sorted_wrt_append)
    then show "\<forall>e \<in> set (c_right fs). 0 < cmp (fst e) k" using cmp_sign k by (simp add: image_subset_iff)
  qed
  then show ?thesis using way_turns [of cmp k fs _ "[]"] cmp_refl [OF k(1)] by simp
qed

text \<open>Where the way ends, the sorted list is cut.\<close>

lemma way_cut:
  assumes "way_to cmp key T [] = (fs, t)" and "ascending cmp (inord T)" and "fst ` set (inord T) \<subseteq> K" and "key \<in> K"
  shows "(t = Tip \<longrightarrow> al_lookup cmp key (inord T) = None \<and> al_put cmp key v (inord T) = c_left fs @ (key, v) # c_right fs \<and> al_remove cmp key (inord T) = inord T) \<and>
    (\<forall>l a c k v' r. t = Nd l a c k v' r \<longrightarrow> al_lookup cmp key (inord T) = Some v' \<and>
      al_put cmp key v (inord T) = c_left fs @ inord l @ (key, v) # inord r @ c_right fs \<and>
      al_remove cmp key (inord T) = c_left fs @ inord l @ inord r @ c_right fs)"
proof -
  have T: "T = plug fs t" using way_plug [OF assms(1)] by simp
  then have i: "inord T = c_left fs @ inord t @ c_right fs" by (simp add: inord_plug)
  have K: "fst ` set (c_left fs @ c_right fs) \<subseteq> K" "fst ` set (inord t) \<subseteq> K" using assms(3) i by auto
  have b: "\<forall>e \<in> set (c_left fs). cmp (fst e) key < 0" "\<forall>e \<in> set (c_right fs). 0 < cmp (fst e) key"
    using bounds_turns [OF turns_descend [OF _ assms(1)] _ K(1) assms(4), of "inord t"] assms(2) i by auto
  show ?thesis
  proof (cases t)
    case Tip
    then show ?thesis using al_split [where cmp = cmp and k = key, OF b] i by simp
  next
    case (Nd l a c k v' r)
    have k: "cmp k key = 0" "k \<in> K" using way_found assms(1) Nd K(2) by auto
    have l: "cmp (fst e) key < 0" if e: "e \<in> set (inord l)" for e
    proof -
      have "cmp (fst e) k < 0" "fst e \<in> K" using assms(2) i Nd e K(2) by (auto simp: ascending_def sorted_wrt_append)
      then show ?thesis using k assms(4) cmp_less_le_trans [of "fst e" k key] by simp
    qed
    have r: "0 < cmp (fst e) key" if e: "e \<in> set (inord r)" for e
    proof -
      have e': "cmp k (fst e) < 0" "fst e \<in> K" using assms(2) i Nd e K(2) by (auto simp: ascending_def sorted_wrt_append)
      then have "cmp key (fst e) < 0" using k assms(4) cmp_le_less_trans [of key k "fst e"] by simp
      then show ?thesis using cmp_sign e'(2) assms(4) by blast
    qed
    have "\<forall>e \<in> set (c_left fs @ inord l). cmp (fst e) key < 0" "\<forall>e \<in> set (inord r @ c_right fs). 0 < cmp (fst e) key" using b l r by auto
    from al_split_found [where cmp = cmp and k = key, OF this(1) k(1) this(2)] show ?thesis using Nd i by simp
  qed
qed

end

context key_order
begin

lemma al_put_keys: "fst ` set (al_put cmp k v E) \<subseteq> insert k (fst ` set E)"
  by (induction cmp k v E rule: al_put.induct) auto

lemma ascending_put:
  assumes "ascending cmp E" and "fst ` set E \<subseteq> K" and "k \<in> K"
  shows "ascending cmp (al_put cmp k v E)"
  using assms
proof (induction E)
  case (Cons e E)
  obtain k' v' where e: "e = (k', v')" by fastforce
  have K: "k' \<in> K" "fst ` set E \<subseteq> K" and a: "ascending cmp E" "\<forall>x \<in> set E. cmp k' (fst x) < 0" using Cons.prems(1,2) e by (auto simp: ascending_def)
  have up: "\<forall>x \<in> set E. cmp k (fst x) < 0" if "0 \<le> cmp k' k"
  proof
    fix x assume x: "x \<in> set E"
    then show "cmp k (fst x) < 0" using cmp_le_less_trans [of k k' "fst x"] that a(2) K Cons.prems(3) by auto
  qed
  consider "cmp k' k < 0" | "cmp k' k = 0" | "0 < cmp k' k" by linarith
  then show ?case
  proof cases
    case 1
    have "cmp k' (fst x) < 0" if x: "x \<in> set (al_put cmp k v E)" for x
    proof -
      have "fst x \<in> insert k (fst ` set E)" using al_put_keys [of k v E] x by blast
      then show ?thesis using a(2) 1 by auto
    qed
    then show ?thesis using Cons.IH [OF a(1) K(2) Cons.prems(3)] 1 e by (simp add: ascending_def)
  next
    case 2
    then show ?thesis using up a(1) e by (simp add: ascending_def)
  next
    case 3
    then have "cmp k k' < 0" using cmp_sign K(1) Cons.prems(3) by blast
    then show ?thesis using up a 3 e by (simp add: ascending_def)
  qed
qed (simp add: ascending_def)

end


section \<open>The 16-bit comparator\<close>

interpretation b16: byte_key_order "cmp_keys libhl_cmp_keys_int16" small_keys
  by (rule byte_key_order.intro, rule int16.key_order_axioms)

lemma al_put_length: "length (al_put cmp k v E) \<le> Suc (length E)"
  by (induction cmp k v E rule: al_put.induct) auto

lemma int16_defined: "x \<in> small_keys \<Longrightarrow> y \<in> small_keys \<Longrightarrow> libhl_cmp_keys_int16 x (length x) y (length y) = Some (cmp_keys libhl_cmp_keys_int16 x y)"
  by (auto simp: cmp_keys_def libhl_cmp_keys_int16_def cmp_keys_type_def key_difference_def type_size_def)

end
