(* ===== verification/Rbtree_Spec.thy ===== *)
theory Rbtree_Spec
  imports Rbtree Ptr_Tree
begin

text \<open>
  The trees of \<open>rbtree.c\<close> as functional trees, with a context for the node that an operation is at, and what the single
  steps (painting, rotating, linking a node) do to them.
\<close>

section \<open>Trees in the store\<close>

definition mk_node :: "rbt_color_t \<Rightarrow> byte list \<Rightarrow> nat \<Rightarrow> nat option \<Rightarrow> nat option \<Rightarrow> nat option \<Rightarrow> rbt_node_t" where
  "mk_node c k v l r p = \<lparr>rn_color = c, rn_key = k, rn_klen = length k, rn_value = v, rn_left = l, rn_right = r, rn_parent = p\<rparr>"

lemma mk_node_sel [simp]:
  "rn_color (mk_node c k v l r p) = c" "rn_key (mk_node c k v l r p) = k" "rn_klen (mk_node c k v l r p) = length k" "rn_value (mk_node c k v l r p) = v"
  "rn_left (mk_node c k v l r p) = l" "rn_right (mk_node c k v l r p) = r" "rn_parent (mk_node c k v l r p) = p"
  by (simp_all add: mk_node_def)

lemma mk_node_upd [simp]:
  "rn_color_update (\<lambda>_. x) (mk_node c k v l r p) = mk_node x k v l r p" "rn_left_update (\<lambda>_. y) (mk_node c k v l r p) = mk_node c k v y r p"
  "rn_right_update (\<lambda>_. y) (mk_node c k v l r p) = mk_node c k v l y p" "rn_parent_update (\<lambda>_. y) (mk_node c k v l r p) = mk_node c k v l r y"
  by (simp_all add: mk_node_def)

type_synonym rtree = "rbt_color_t ptree"

type_synonym rframe = "rbt_color_t frame"

type_synonym rb_heap = "nat \<rightharpoonup> rbt_node_t"

abbreviation "t_at \<equiv> tree_at mk_node"

abbreviation "c_at \<equiv> ctx_at mk_node"

abbreviation "heap_at \<equiv> store_at mk_node"

lemmas heap_at_def = store_at_def [of mk_node]

section \<open>Painting\<close>

text \<open>What the steps below leave as it is.\<close>

definition rb_rest :: "rbt_t \<Rightarrow> cmp_callback option \<times> bool \<times> nat \<times> (nat \<Rightarrow> bool) \<times> int \<times> nat list \<times> nat set" where
  "rb_rest rbt = (rb_cmp_keys_cb rbt, rb_free_value_cb rbt, rb_brk rbt, rb_fail rbt, rb_prevnext rbt, rb_freed rbt, dom (rb_nodes rbt))"

lemma paint_focus: "heap_at h fs (Nd l a c k v r) \<Longrightarrow> heap_at (h(a \<mapsto> mk_node c' k v (rptr l) (rptr r) (top_ptr fs))) fs (Nd l a c' k v r)"
  by (auto simp: heap_at_def)

lemma PAINT_focus:
  assumes "heap_at (rb_nodes rbt) fs (Nd l a c k v r)"
  shows "\<exists>rbt'. PAINT c' (Some a) rbt = Some rbt' \<and> heap_at (rb_nodes rbt') fs (Nd l a c' k v r) \<and> rb_root rbt' = rb_root rbt \<and> rb_rest rbt' = rb_rest rbt"
  using heap_at_node [OF assms] paint_focus [OF assms, of c'] by (auto simp: PAINT_def upd_rbn_def rb_rest_def)

lemma PAINT_frame:
  assumes "heap_at (rb_nodes rbt) (f # fs) t"
  shows "\<exists>rbt'. PAINT c' (Some (fa f)) rbt = Some rbt' \<and> heap_at (rb_nodes rbt') (set_dat c' f # fs) t \<and> rb_root rbt' = rb_root rbt \<and> rb_rest rbt' = rb_rest rbt"
  using assms PAINT_focus [of rbt fs _ "fa f" _ _ _ _ c'] by (cases f) (auto simp: heap_move)

lemma PAINT_sib:
  assumes "heap_at (rb_nodes rbt) (f # fs) t" and "fsib f = Nd l a c k v r"
  shows "\<exists>rbt'. PAINT c' (Some a) rbt = Some rbt' \<and> heap_at (rb_nodes rbt') (set_sib (Nd l a c' k v r) f # fs) t \<and> rb_root rbt' = rb_root rbt \<and> rb_rest rbt' = rb_rest rbt"
proof (cases f)
  case (FL b cb kb vb s)
  then show ?thesis using assms PAINT_focus [of rbt "FR t b cb kb vb # fs" l a c k v r c'] by (simp add: sib_focus(1))
next
  case (FR s b cb kb vb)
  then show ?thesis using assms PAINT_focus [of rbt "FL b cb kb vb t # fs" l a c k v r c'] by (simp add: sib_focus(2))
qed

section \<open>Rotations\<close>

text \<open>The root of a tree below which the context \<open>fs\<close> changes: only without a context it is the focus.\<close>

definition new_root :: "rframe list \<Rightarrow> nat \<Rightarrow> rbt_t \<Rightarrow> nat option" where
  "new_root fs a rbt = (if fs = [] then Some a else rb_root rbt)"

lemma new_root_cong: "rb_root r = rb_root r' \<Longrightarrow> new_root gs a r = new_root gs a r'"
  by (simp add: new_root_def)

lemma set_parent_tree:
  assumes "t_at (rb_nodes rbt) q t" and "distinct (taddrs t)"
  shows "\<exists>rbt'. set_parent (rptr t) q' rbt = Some rbt' \<and> t_at (rb_nodes rbt') q' t \<and> (\<forall>x. x \<notin> set (taddrs t) \<longrightarrow> rb_nodes rbt' x = rb_nodes rbt x) \<and>
    rb_root rbt' = rb_root rbt \<and> rb_rest rbt' = rb_rest rbt"
  using assms by (cases t) (auto simp: set_parent_def upd_rbn_def rb_rest_def)

text \<open>The last step of a rotation: the subtree at \<open>p\<close>, with \<open>node\<close> below it, gets the place of \<open>node\<close> in the context.\<close>

lemma rotate_end_ok:
  assumes "c_at (rb_nodes rbt) fs (Some a)" and "rb_nodes rbt a = Some (mk_node c k v l r (top_ptr fs))" and "rb_nodes rbt p = Some (mk_node cp kp vp lp rp q)"
    and "a \<noteq> p" and "a \<notin> set (caddrs fs)" and "p \<notin> set (caddrs fs)" and "distinct (caddrs fs)"
  shows "\<exists>rbt'. rotate_end a (Some p) rbt = Some rbt' \<and> c_at (rb_nodes rbt') fs (Some p) \<and> rb_nodes rbt' a = Some (mk_node c k v l r (Some p)) \<and>
    rb_nodes rbt' p = Some (mk_node cp kp vp lp rp (top_ptr fs)) \<and> (\<forall>x. x \<noteq> a \<longrightarrow> x \<noteq> p \<longrightarrow> x \<notin> set (caddrs fs) \<longrightarrow> rb_nodes rbt' x = rb_nodes rbt x) \<and>
    rb_root rbt' = new_root fs p rbt \<and> rb_rest rbt' = rb_rest rbt"
proof (cases fs)
  case Nil
  then show ?thesis using assms(2-4) by (auto simp: rotate_end_def upd_rbn_def new_root_def rb_rest_def)
next
  case (Cons f gs)
  then show ?thesis using assms by (cases f) (auto simp: rotate_end_def upd_rbn_def new_root_def rb_rest_def relink_def Let_def)
qed

lemma rotate_right_ok:
  assumes "heap_at (rb_nodes rbt) fs (Nd (Nd A p cp kp vp B) a c k v C)"
  shows "\<exists>rbt'. rbt_rotate_right a rbt = Some rbt' \<and> heap_at (rb_nodes rbt') fs (Nd A p cp kp vp (Nd B a c k v C)) \<and>
    rb_root rbt' = new_root fs p rbt \<and> rb_rest rbt' = rb_rest rbt"
proof -
  let ?h = "rb_nodes rbt"
  have h: "?h a = Some (mk_node c k v (Some p) (rptr C) (top_ptr fs))" "?h p = Some (mk_node cp kp vp (rptr A) (rptr B) (Some a))"
    and t: "t_at ?h (Some p) A" "t_at ?h (Some p) B" "t_at ?h (Some a) C" "c_at ?h fs (Some a)"
    and d: "distinct (taddrs A @ p # taddrs B @ a # taddrs C @ caddrs fs)" using assms by (auto simp: heap_at_def)
  let ?r1 = "rbt\<lparr>rb_nodes := ?h(a \<mapsto> mk_node c k v (rptr B) (rptr C) (top_ptr fs), p \<mapsto> mk_node cp kp vp (rptr A) (Some a) (Some a))\<rparr>"
  have "t_at (rb_nodes ?r1) (Some p) B" "distinct (taddrs B)" using t(2) d by simp_all
  from set_parent_tree [OF this, of "Some a"] obtain r2 where r2: "set_parent (rptr B) (Some a) ?r1 = Some r2" "t_at (rb_nodes r2) (Some a) B"
    "\<forall>x. x \<notin> set (taddrs B) \<longrightarrow> rb_nodes r2 x = rb_nodes ?r1 x" "rb_root r2 = rb_root ?r1" "rb_rest r2 = rb_rest ?r1" by blast
  have n2: "rb_nodes r2 a = Some (mk_node c k v (rptr B) (rptr C) (top_ptr fs))" "rb_nodes r2 p = Some (mk_node cp kp vp (rptr A) (Some a) (Some a))" using r2(3) d by auto
  have "c_at (rb_nodes r2) fs (Some a) = c_at ?h fs (Some a)" using r2(3) d by (intro c_at_cong) auto
  then have "c_at (rb_nodes r2) fs (Some a)" using t(4) by blast
  from rotate_end_ok [OF this n2] d obtain r3 where r3: "rotate_end a (Some p) r2 = Some r3" "c_at (rb_nodes r3) fs (Some p)"
    "rb_nodes r3 a = Some (mk_node c k v (rptr B) (rptr C) (Some p))" "rb_nodes r3 p = Some (mk_node cp kp vp (rptr A) (Some a) (top_ptr fs))"
    "\<forall>x. x \<noteq> a \<longrightarrow> x \<noteq> p \<longrightarrow> x \<notin> set (caddrs fs) \<longrightarrow> rb_nodes r3 x = rb_nodes r2 x" "rb_root r3 = new_root fs p r2" "rb_rest r3 = rb_rest r2" by auto
  have "a \<noteq> p" using d by auto
  then have run: "rbt_rotate_right a rbt = Some r3" using h n2 r2(1) r3(1) by (simp add: rbt_rotate_right_def upd_rbn_def Let_def)
  have keep: "rb_nodes r3 x = ?h x" if "x \<in> set (taddrs A) \<union> set (taddrs C)" for x
  proof -
    have "x \<noteq> a" "x \<noteq> p" "x \<notin> set (caddrs fs)" "x \<notin> set (taddrs B)" using d that by auto
    then show ?thesis using r3(5) r2(3) by simp
  qed
  have "t_at (rb_nodes r3) (Some p) A = t_at ?h (Some p) A" by (rule t_at_cong) (simp add: keep)
  moreover have "t_at (rb_nodes r3) (Some a) C = t_at ?h (Some a) C" by (rule t_at_cong) (simp add: keep)
  moreover have "t_at (rb_nodes r3) (Some a) B = t_at (rb_nodes r2) (Some a) B" using r3(5) d by (intro t_at_cong) auto
  ultimately have "heap_at (rb_nodes r3) fs (Nd A p cp kp vp (Nd B a c k v C))" using r3(2-4) t r2(2) d by (simp add: heap_at_def)
  moreover have "rb_rest r3 = rb_rest rbt" using r3(7) r2(5) h by (auto simp: rb_rest_def)
  moreover have "rb_root r3 = new_root fs p rbt" using r3(6) r2(4) by (simp add: new_root_def)
  ultimately show ?thesis using run by blast
qed

lemma rotate_left_ok:
  assumes "heap_at (rb_nodes rbt) fs (Nd A a c k v (Nd B p cp kp vp C))"
  shows "\<exists>rbt'. rbt_rotate_left a rbt = Some rbt' \<and> heap_at (rb_nodes rbt') fs (Nd (Nd A a c k v B) p cp kp vp C) \<and>
    rb_root rbt' = new_root fs p rbt \<and> rb_rest rbt' = rb_rest rbt"
proof -
  let ?h = "rb_nodes rbt"
  have h: "?h a = Some (mk_node c k v (rptr A) (Some p) (top_ptr fs))" "?h p = Some (mk_node cp kp vp (rptr B) (rptr C) (Some a))"
    and t: "t_at ?h (Some a) A" "t_at ?h (Some p) B" "t_at ?h (Some p) C" "c_at ?h fs (Some a)"
    and d: "distinct (taddrs A @ a # taddrs B @ p # taddrs C @ caddrs fs)" using assms by (auto simp: heap_at_def)
  let ?r1 = "rbt\<lparr>rb_nodes := ?h(a \<mapsto> mk_node c k v (rptr A) (rptr B) (top_ptr fs), p \<mapsto> mk_node cp kp vp (Some a) (rptr C) (Some a))\<rparr>"
  have "t_at (rb_nodes ?r1) (Some p) B" "distinct (taddrs B)" using t(2) d by simp_all
  from set_parent_tree [OF this, of "Some a"] obtain r2 where r2: "set_parent (rptr B) (Some a) ?r1 = Some r2" "t_at (rb_nodes r2) (Some a) B"
    "\<forall>x. x \<notin> set (taddrs B) \<longrightarrow> rb_nodes r2 x = rb_nodes ?r1 x" "rb_root r2 = rb_root ?r1" "rb_rest r2 = rb_rest ?r1" by blast
  have n2: "rb_nodes r2 a = Some (mk_node c k v (rptr A) (rptr B) (top_ptr fs))" "rb_nodes r2 p = Some (mk_node cp kp vp (Some a) (rptr C) (Some a))" using r2(3) d by auto
  have "c_at (rb_nodes r2) fs (Some a) = c_at ?h fs (Some a)" using r2(3) d by (intro c_at_cong) auto
  then have "c_at (rb_nodes r2) fs (Some a)" using t(4) by blast
  from rotate_end_ok [OF this n2] d obtain r3 where r3: "rotate_end a (Some p) r2 = Some r3" "c_at (rb_nodes r3) fs (Some p)"
    "rb_nodes r3 a = Some (mk_node c k v (rptr A) (rptr B) (Some p))" "rb_nodes r3 p = Some (mk_node cp kp vp (Some a) (rptr C) (top_ptr fs))"
    "\<forall>x. x \<noteq> a \<longrightarrow> x \<noteq> p \<longrightarrow> x \<notin> set (caddrs fs) \<longrightarrow> rb_nodes r3 x = rb_nodes r2 x" "rb_root r3 = new_root fs p r2" "rb_rest r3 = rb_rest r2" by auto
  have "a \<noteq> p" using d by auto
  then have run: "rbt_rotate_left a rbt = Some r3" using h n2 r2(1) r3(1) by (simp add: rbt_rotate_left_def upd_rbn_def Let_def)
  have keep: "rb_nodes r3 x = ?h x" if "x \<in> set (taddrs A) \<union> set (taddrs C)" for x
  proof -
    have "x \<noteq> a" "x \<noteq> p" "x \<notin> set (caddrs fs)" "x \<notin> set (taddrs B)" using d that by auto
    then show ?thesis using r3(5) r2(3) by simp
  qed
  have "t_at (rb_nodes r3) (Some a) A = t_at ?h (Some a) A" by (rule t_at_cong) (simp add: keep)
  moreover have "t_at (rb_nodes r3) (Some p) C = t_at ?h (Some p) C" by (rule t_at_cong) (simp add: keep)
  moreover have "t_at (rb_nodes r3) (Some a) B = t_at (rb_nodes r2) (Some a) B" using r3(5) d by (intro t_at_cong) auto
  ultimately have "heap_at (rb_nodes r3) fs (Nd (Nd A a c k v B) p cp kp vp C)" using r3(2-4) t r2(2) d by (simp add: heap_at_def)
  moreover have "rb_rest r3 = rb_rest rbt" using r3(7) r2(5) h by (auto simp: rb_rest_def)
  moreover have "rb_root r3 = new_root fs p rbt" using r3(6) r2(4) by (simp add: new_root_def)
  ultimately show ?thesis using run by blast
qed

section \<open>The repair after an insertion\<close>

text \<open>Case 5 on the left side: the parent gets the place of the grandparent.\<close>

lemma case5_left:
  assumes "heap_at (rb_nodes rbt) (FL p cp kp vp rp # FL g cg kg vg sg # gs) (Nd l n c k v r)"
  shows "\<exists>rbt'. add_case5 rc n rbt = Some (rc, rbt') \<and>
    heap_at (rb_nodes rbt') gs (Nd (Nd l n c k v r) p RBTREE_COLOR_BLACK kp vp (Nd rp g RBTREE_COLOR_RED kg vg sg)) \<and>
    rb_root rbt' = new_root gs p rbt \<and> rb_rest rbt' = rb_rest rbt"
proof -
  have h: "rb_nodes rbt n = Some (mk_node c k v (rptr l) (rptr r) (Some p))" "rb_nodes rbt p = Some (mk_node cp kp vp (Some n) (rptr rp) (Some g))" using assms by (simp_all add: heap_at_def)
  from PAINT_frame [OF assms, of RBTREE_COLOR_BLACK] obtain r1 where r1: "PAINT RBTREE_COLOR_BLACK (Some p) rbt = Some r1"
    "heap_at (rb_nodes r1) (FL p RBTREE_COLOR_BLACK kp vp rp # FL g cg kg vg sg # gs) (Nd l n c k v r)" "rb_root r1 = rb_root rbt" "rb_rest r1 = rb_rest rbt" by auto
  from PAINT_frame [OF r1(2) [unfolded heap_move [of _ _ _ "_ # _"]], of RBTREE_COLOR_RED] obtain r2 where r2: "PAINT RBTREE_COLOR_RED (Some g) r1 = Some r2"
    "heap_at (rb_nodes r2) (FL g RBTREE_COLOR_RED kg vg sg # gs) (Nd (Nd l n c k v r) p RBTREE_COLOR_BLACK kp vp rp)" "rb_root r2 = rb_root r1" "rb_rest r2 = rb_rest r1" by auto
  have "heap_at (rb_nodes r2) gs (Nd (Nd (Nd l n c k v r) p RBTREE_COLOR_BLACK kp vp rp) g RBTREE_COLOR_RED kg vg sg)" using r2(2) by (simp add: heap_move)
  from rotate_right_ok [OF this] obtain r3 where r3: "rbt_rotate_right g r2 = Some r3"
    "heap_at (rb_nodes r3) gs (Nd (Nd l n c k v r) p RBTREE_COLOR_BLACK kp vp (Nd rp g RBTREE_COLOR_RED kg vg sg))" "rb_root r3 = new_root gs p r2" "rb_rest r3 = rb_rest r2" by blast
  have "rb_nodes r2 p = Some (mk_node RBTREE_COLOR_BLACK kp vp (Some n) (rptr rp) (Some g))" using heap_at_node [OF r2(2)] by simp
  then have "add_case5 rc n rbt = Some (rc, r3)" using h r1(1) r2(1) r3(1) by (simp add: add_case5_def rbt_grandparent_def)
  then show ?thesis using r1 r2 r3 by (simp add: new_root_def)
qed

lemma case5_right:
  assumes "heap_at (rb_nodes rbt) (FR lp p cp kp vp # FR sg g cg kg vg # gs) (Nd l n c k v r)"
  shows "\<exists>rbt'. add_case5 rc n rbt = Some (rc, rbt') \<and>
    heap_at (rb_nodes rbt') gs (Nd (Nd sg g RBTREE_COLOR_RED kg vg lp) p RBTREE_COLOR_BLACK kp vp (Nd l n c k v r)) \<and>
    rb_root rbt' = new_root gs p rbt \<and> rb_rest rbt' = rb_rest rbt"
proof -
  have h: "rb_nodes rbt n = Some (mk_node c k v (rptr l) (rptr r) (Some p))" "rb_nodes rbt p = Some (mk_node cp kp vp (rptr lp) (Some n) (Some g))" using assms by (simp_all add: heap_at_def)
  have nl: "rptr lp \<noteq> Some n" using assms by (intro rptr_notin) (auto simp: heap_at_def)
  from PAINT_frame [OF assms, of RBTREE_COLOR_BLACK] obtain r1 where r1: "PAINT RBTREE_COLOR_BLACK (Some p) rbt = Some r1"
    "heap_at (rb_nodes r1) (FR lp p RBTREE_COLOR_BLACK kp vp # FR sg g cg kg vg # gs) (Nd l n c k v r)" "rb_root r1 = rb_root rbt" "rb_rest r1 = rb_rest rbt" by auto
  from PAINT_frame [OF r1(2) [unfolded heap_move [of _ _ _ "_ # _"]], of RBTREE_COLOR_RED] obtain r2 where r2: "PAINT RBTREE_COLOR_RED (Some g) r1 = Some r2"
    "heap_at (rb_nodes r2) (FR sg g RBTREE_COLOR_RED kg vg # gs) (Nd lp p RBTREE_COLOR_BLACK kp vp (Nd l n c k v r))" "rb_root r2 = rb_root r1" "rb_rest r2 = rb_rest r1" by auto
  have "heap_at (rb_nodes r2) gs (Nd sg g RBTREE_COLOR_RED kg vg (Nd lp p RBTREE_COLOR_BLACK kp vp (Nd l n c k v r)))" using r2(2) by (simp add: heap_move)
  from rotate_left_ok [OF this] obtain r3 where r3: "rbt_rotate_left g r2 = Some r3"
    "heap_at (rb_nodes r3) gs (Nd (Nd sg g RBTREE_COLOR_RED kg vg lp) p RBTREE_COLOR_BLACK kp vp (Nd l n c k v r))" "rb_root r3 = new_root gs p r2" "rb_rest r3 = rb_rest r2" by blast
  have "rb_nodes r2 p = Some (mk_node RBTREE_COLOR_BLACK kp vp (rptr lp) (Some n) (Some g))" using heap_at_node [OF r2(2)] by simp
  then have "add_case5 rc n rbt = Some (rc, r3)" using h nl r1(1) r2(1) r3(1) by (simp add: add_case5_def rbt_grandparent_def)
  then show ?thesis using r1 r2 r3 by (simp add: new_root_def)
qed

text \<open>The subtree at the grandparent after the cases 4 and 5, by the sides on which the node and its parent hang.\<close>

fun turned :: "rframe \<Rightarrow> rframe \<Rightarrow> rtree \<Rightarrow> rtree" where
  "turned (FL p cp kp vp rp) (FL g cg kg vg sg) t = Nd t p RBTREE_COLOR_BLACK kp vp (Nd rp g RBTREE_COLOR_RED kg vg sg)"
| "turned (FR lp p cp kp vp) (FR sg g cg kg vg) t = Nd (Nd sg g RBTREE_COLOR_RED kg vg lp) p RBTREE_COLOR_BLACK kp vp t"
| "turned (FR lp p cp kp vp) (FL g cg kg vg sg) (Nd l n c k v r) = Nd (Nd lp p cp kp vp l) n RBTREE_COLOR_BLACK k v (Nd r g RBTREE_COLOR_RED kg vg sg)"
| "turned (FL p cp kp vp rp) (FR sg g cg kg vg) (Nd l n c k v r) = Nd (Nd sg g RBTREE_COLOR_RED kg vg l) n RBTREE_COLOR_BLACK k v (Nd r p cp kp vp rp)"
| "turned f g Tip = Tip"

lemma case45_ok:
  assumes "heap_at (rb_nodes rbt) (fp # fg # gs) (Nd l n c k v r)"
  shows "\<exists>rbt' a. do { (node, rbt) \<leftarrow> add_case4 n (fa fg) rbt; add_case5 rc node rbt } = Some (rc, rbt') \<and>
    heap_at (rb_nodes rbt') gs (turned fp fg (Nd l n c k v r)) \<and> rptr (turned fp fg (Nd l n c k v r)) = Some a \<and>
    rb_root rbt' = new_root gs a rbt \<and> rb_rest rbt' = rb_rest rbt"
proof -
  have d: "distinct (taddrs l @ n # taddrs r @ fa fp # taddrs (fsib fp) @ fa fg # taddrs (fsib fg) @ caddrs gs)" using assms by (auto simp: heap_at_def)
  have n: "rptr (fsib fp) \<noteq> Some n" "rptr (fsib fg) \<noteq> Some (fa fp)" using d by (intro rptr_notin; auto)+
  show ?thesis
  proof (cases fp; cases fg)
    fix p cp kp vp rp g cg kg vg sg
    assume e: "fp = FL p cp kp vp rp" "fg = FL g cg kg vg sg"
    have "add_case4 n g rbt = Some (n, rbt)" using assms n e by (auto simp: add_case4_def heap_at_def)
    then show ?thesis using case5_left [of rbt p cp kp vp rp g cg kg vg sg gs l n c k v r rc] assms e by simp
  next
    fix p cp kp vp lp g cg kg vg sg
    assume e: "fp = FR lp p cp kp vp" "fg = FR sg g cg kg vg"
    have "add_case4 n g rbt = Some (n, rbt)" using assms n e by (auto simp: add_case4_def heap_at_def)
    then show ?thesis using case5_right [of rbt lp p cp kp vp sg g cg kg vg gs l n c k v r rc] assms e by simp
  next
    fix p cp kp vp lp g cg kg vg sg
    assume e: "fp = FR lp p cp kp vp" "fg = FL g cg kg vg sg"
    have "heap_at (rb_nodes rbt) (fg # gs) (Nd lp p cp kp vp (Nd l n c k v r))" using assms e by (simp add: heap_move)
    from rotate_left_ok [OF this] e obtain r1 where r1: "rbt_rotate_left p rbt = Some r1" "heap_at (rb_nodes r1) (FL g cg kg vg sg # gs) (Nd (Nd lp p cp kp vp l) n c k v r)"
      "rb_root r1 = rb_root rbt" "rb_rest r1 = rb_rest rbt" by (auto simp: new_root_def)
    have "add_case4 n g rbt = Some (p, r1)" using assms e r1(1) heap_at_node [OF r1(2)] by (auto simp: add_case4_def heap_at_def)
    moreover have "heap_at (rb_nodes r1) (FL n c k v r # FL g cg kg vg sg # gs) (Nd lp p cp kp vp l)" using r1(2) by (simp add: heap_move)
    ultimately show ?thesis using case5_left [of r1 n c k v r g cg kg vg sg gs lp p cp kp vp l rc] e r1 new_root_cong [OF r1(3)] by simp
  next
    fix p cp kp vp rp g cg kg vg sg
    assume e: "fp = FL p cp kp vp rp" "fg = FR sg g cg kg vg"
    have "heap_at (rb_nodes rbt) (fg # gs) (Nd (Nd l n c k v r) p cp kp vp rp)" using assms e by (simp add: heap_move)
    from rotate_right_ok [OF this] e obtain r1 where r1: "rbt_rotate_right p rbt = Some r1" "heap_at (rb_nodes r1) (FR sg g cg kg vg # gs) (Nd l n c k v (Nd r p cp kp vp rp))"
      "rb_root r1 = rb_root rbt" "rb_rest r1 = rb_rest rbt" by (auto simp: new_root_def)
    have "add_case4 n g rbt = Some (p, r1)" using assms e n r1(1) heap_at_node [OF r1(2)] by (auto simp: add_case4_def heap_at_def)
    moreover have "heap_at (rb_nodes r1) (FR l n c k v # FR sg g cg kg vg # gs) (Nd r p cp kp vp rp)" using r1(2) by (simp add: heap_move)
    ultimately show ?thesis using case5_right [of r1 l n c k v sg g cg kg vg gs r p cp kp vp rp rc] e r1 new_root_cong [OF r1(3)] by simp
  qed
qed

end
