(* ===== verification/Rbtree_Map.thy ===== *)
theory Rbtree_Map
  imports Rbtree_Spec
begin

text \<open>
  The red-black invariants, what \<open>rbt_add\<close> and \<open>rbt_find\<close> do to the tree that is in the store, and the refinement of a
  sorted map.
\<close>

section \<open>Red-black trees\<close>

fun col :: "rtree \<Rightarrow> rbt_color_t" where
  "col Tip = RBTREE_COLOR_BLACK"
| "col (Nd l a c k v r) = c"

fun bh :: "rtree \<Rightarrow> nat" where
  "bh Tip = 0"
| "bh (Nd l a c k v r) = bh l + (if c = RBTREE_COLOR_BLACK then 1 else 0)"

fun invc :: "rtree \<Rightarrow> bool" where
  "invc Tip \<longleftrightarrow> True"
| "invc (Nd l a c k v r) \<longleftrightarrow> invc l \<and> invc r \<and> (c = RBTREE_COLOR_RED \<longrightarrow> col l = RBTREE_COLOR_BLACK \<and> col r = RBTREE_COLOR_BLACK)"

fun invh :: "rtree \<Rightarrow> bool" where
  "invh Tip \<longleftrightarrow> True"
| "invh (Nd l a c k v r) \<longleftrightarrow> invh l \<and> invh r \<and> bh l = bh r"

definition red_black :: "rtree \<Rightarrow> bool" where
  "red_black t \<longleftrightarrow> invc t \<and> invh t \<and> col t = RBTREE_COLOR_BLACK"

text \<open>The same for a context: \<open>ctop\<close> is the colour above the hole, a red frame is never the topmost.\<close>

definition ctop :: "rframe list \<Rightarrow> rbt_color_t" where
  "ctop fs = (case fs of [] \<Rightarrow> RBTREE_COLOR_BLACK | f # fs \<Rightarrow> fdat f)"

fun cinvc :: "rframe list \<Rightarrow> bool" where
  "cinvc [] \<longleftrightarrow> True"
| "cinvc (f # fs) \<longleftrightarrow> invc (fsib f) \<and> (fdat f = RBTREE_COLOR_RED \<longrightarrow> col (fsib f) = RBTREE_COLOR_BLACK \<and> ctop fs = RBTREE_COLOR_BLACK \<and> fs \<noteq> []) \<and> cinvc fs"

fun cinvh :: "rframe list \<Rightarrow> nat \<Rightarrow> bool" where
  "cinvh [] n \<longleftrightarrow> True"
| "cinvh (f # fs) n \<longleftrightarrow> invh (fsib f) \<and> bh (fsib f) = n \<and> cinvh fs (n + (if fdat f = RBTREE_COLOR_BLACK then 1 else 0))"

lemma not_black [simp]: "c \<noteq> RBTREE_COLOR_BLACK \<longleftrightarrow> c = RBTREE_COLOR_RED" "c \<noteq> RBTREE_COLOR_RED \<longleftrightarrow> c = RBTREE_COLOR_BLACK"
  by (cases c; simp)+

lemma ctop_simps [simp]: "ctop [] = RBTREE_COLOR_BLACK" "ctop (f # fs) = fdat f"
  by (simp_all add: ctop_def)

lemma plug1_inv:
  "invc (plug1 f t) \<longleftrightarrow> invc t \<and> invc (fsib f) \<and> (fdat f = RBTREE_COLOR_RED \<longrightarrow> col t = RBTREE_COLOR_BLACK \<and> col (fsib f) = RBTREE_COLOR_BLACK)"
  "invh (plug1 f t) \<longleftrightarrow> invh t \<and> invh (fsib f) \<and> bh (fsib f) = bh t" "col (plug1 f t) = fdat f"
  by (cases f; fastforce)+

lemma plug1_bh: "bh (fsib f) = bh t \<Longrightarrow> bh (plug1 f t) = bh t + (if fdat f = RBTREE_COLOR_BLACK then 1 else 0)"
  by (cases f) simp_all

lemma plug_invh: "invh (plug fs t) \<longleftrightarrow> invh t \<and> cinvh fs (bh t)"
proof (induction fs arbitrary: t)
  case (Cons f fs)
  show ?case using Cons [of "plug1 f t"] plug1_bh [of f t] by (auto simp: plug1_inv)
qed simp

lemma plug_invc: "cinvc fs \<Longrightarrow> invc t \<Longrightarrow> (ctop fs = RBTREE_COLOR_RED \<longrightarrow> col t = RBTREE_COLOR_BLACK) \<Longrightarrow> fs \<noteq> [] \<or> col t = RBTREE_COLOR_BLACK \<Longrightarrow>
  invc (plug fs t) \<and> col (plug fs t) = RBTREE_COLOR_BLACK"
proof (induction fs arbitrary: t)
  case (Cons f fs)
  then have "invc (plug1 f t)" by (simp add: plug1_inv)
  then show ?case using Cons.IH [of "plug1 f t"] Cons.prems by (auto simp: plug1_inv)
qed simp

lemma red_black_plug:
  assumes "red_black (plug fs t)"
  shows "invc t \<and> cinvc fs \<and> (ctop fs = RBTREE_COLOR_RED \<longrightarrow> col t = RBTREE_COLOR_BLACK) \<and> invh t \<and> cinvh fs (bh t) \<and> (fs = [] \<longrightarrow> col t = RBTREE_COLOR_BLACK)"
proof -
  have "invc (plug fs t) \<Longrightarrow> col (plug fs t) = RBTREE_COLOR_BLACK \<Longrightarrow>
    invc t \<and> cinvc fs \<and> (ctop fs = RBTREE_COLOR_RED \<longrightarrow> col t = RBTREE_COLOR_BLACK) \<and> (fs = [] \<longrightarrow> col t = RBTREE_COLOR_BLACK)"
  proof (induction fs arbitrary: t)
    case (Cons f fs)
    then show ?case using Cons.IH [of "plug1 f t"] by (auto simp: plug1_inv)
  qed simp
  then show ?thesis using assms by (simp add: red_black_def plug_invh)
qed

section \<open>The new node gets its place\<close>

fun put_at :: "nat \<Rightarrow> byte list \<Rightarrow> nat \<Rightarrow> rtree \<Rightarrow> rtree" where
  "put_at n key nv Tip = Nd Tip n RBTREE_COLOR_RED key nv Tip"
| "put_at n key nv (Nd l a c k v r) = Nd l n c key nv r"

definition rb_conf :: "rbt_t \<Rightarrow> cmp_callback option \<times> bool \<times> nat \<times> (nat \<Rightarrow> bool) \<times> int" where
  "rb_conf rbt = (rb_cmp_keys_cb rbt, rb_free_value_cb rbt, rb_brk rbt, rb_fail rbt, rb_prevnext rbt)"

lemma rb_rest_conf: "rb_rest rbt = rb_rest rbt' \<longleftrightarrow> rb_conf rbt = rb_conf rbt' \<and> rb_freed rbt = rb_freed rbt' \<and> dom (rb_nodes rbt) = dom (rb_nodes rbt')"
  by (auto simp: rb_rest_def rb_conf_def)

definition replaced :: "rbt_t \<Rightarrow> nat \<Rightarrow> rtree \<Rightarrow> nat list" where
  "replaced rbt nv t = (case t of Tip \<Rightarrow> [] | Nd l a c k v r \<Rightarrow> if nv \<noteq> v \<and> rb_free_value_cb rbt then [v] else [])"

text \<open>The new node \<open>n\<close> is below the context, but the subtrees still belong to \<open>a\<close>.\<close>

lemma replace_subtrees:
  assumes "t_at (rb_nodes rbt) (Some a) l" and "t_at (rb_nodes rbt) (Some a) r" and "distinct (taddrs l @ taddrs r)"
  shows "\<exists>r1 r2. set_parent (rptr l) (Some n) rbt = Some r1 \<and> set_parent (rptr r) (Some n) r1 = Some r2 \<and>
    t_at (rb_nodes r2) (Some n) l \<and> t_at (rb_nodes r2) (Some n) r \<and> (\<forall>x. x \<notin> set (taddrs l @ taddrs r) \<longrightarrow> rb_nodes r2 x = rb_nodes rbt x) \<and>
    rb_root r2 = rb_root rbt \<and> rb_rest r2 = rb_rest rbt"
proof -
  from set_parent_tree [OF assms(1), of "Some n"] assms(3) obtain r1 where r1: "set_parent (rptr l) (Some n) rbt = Some r1" "t_at (rb_nodes r1) (Some n) l"
    "\<forall>x. x \<notin> set (taddrs l) \<longrightarrow> rb_nodes r1 x = rb_nodes rbt x" "rb_root r1 = rb_root rbt" "rb_rest r1 = rb_rest rbt" by auto
  have "t_at (rb_nodes r1) (Some a) r = t_at (rb_nodes rbt) (Some a) r" using assms(3) r1(3) by (intro t_at_cong) auto
  from set_parent_tree [of r1 "Some a" r "Some n"] this assms(2,3) obtain r2 where r2: "set_parent (rptr r) (Some n) r1 = Some r2" "t_at (rb_nodes r2) (Some n) r"
    "\<forall>x. x \<notin> set (taddrs r) \<longrightarrow> rb_nodes r2 x = rb_nodes r1 x" "rb_root r2 = rb_root r1" "rb_rest r2 = rb_rest r1" by auto
  have "t_at (rb_nodes r2) (Some n) l = t_at (rb_nodes r1) (Some n) l" using assms(3) r2(3) by (intro t_at_cong) auto
  then show ?thesis using r1 r2 by auto
qed

lemma relink_top:
  assumes "c_at (rb_nodes rbt) fs (Some a)" and "distinct (caddrs fs)" and "a \<notin> set (caddrs fs)"
  shows "\<exists>rbt'. (case top_ptr fs of None \<Rightarrow> Some rbt | Some p \<Rightarrow> relink p a (Some n) rbt) = Some rbt' \<and> c_at (rb_nodes rbt') fs (Some n) \<and>
    (\<forall>x. x \<notin> set (caddrs fs) \<longrightarrow> rb_nodes rbt' x = rb_nodes rbt x) \<and> rb_root rbt' = rb_root rbt \<and> rb_rest rbt' = rb_rest rbt"
proof (cases fs)
  case (Cons f gs)
  then show ?thesis using assms by (cases f) (auto simp: relink_def upd_rbn_def rb_rest_def)
qed simp

context byte_key_order
begin

definition compares :: "rbt_t \<Rightarrow> bool" where
  "compares rbt \<longleftrightarrow> (\<forall>x \<in> K. \<forall>y \<in> K. rbt_compare_keys rbt x (length x) y (length y) = Some (cmp x y))"

lemma compares_conf: "rb_conf rbt = rb_conf rbt' \<Longrightarrow> compares rbt \<longleftrightarrow> compares rbt'"
  by (simp add: compares_def rbt_compare_keys_def rb_conf_def)

lemma add_internal_found:
  assumes "heap_at (rb_nodes rbt) fs (Nd l a c k v r)" and "n \<notin> set (taddrs (Nd l a c k v r) @ caddrs fs)" and "compares rbt"
    and "rb_nodes rbt n = Some (mk_node RBTREE_COLOR_RED key nv None None None)" and "k \<in> K" and "key \<in> K" and "cmp k key = 0"
  shows "\<exists>rbt'. rbt_add_internal a n rbt = Some (1, rbt') \<and> heap_at (rb_nodes rbt') fs (Nd l n c key nv r) \<and> rb_root rbt' = rb_root rbt \<and>
    rb_conf rbt' = rb_conf rbt \<and> dom (rb_nodes rbt') = dom (rb_nodes rbt) - {a} \<and> rb_freed rbt' = rb_freed rbt @ replaced rbt nv (Nd l a c k v r)"
proof -
  let ?h = "rb_nodes rbt"
  have h: "?h a = Some (mk_node c k v (rptr l) (rptr r) (top_ptr fs))" and t: "t_at ?h (Some a) l" "t_at ?h (Some a) r" "c_at ?h fs (Some a)"
    and d: "distinct (taddrs l @ a # taddrs r @ caddrs fs)" using assms(1) by (auto simp: heap_at_def)
  let ?r1 = "rbt\<lparr>rb_nodes := ?h(n \<mapsto> mk_node c key nv None None (top_ptr fs))\<rparr>"
  have "c_at (rb_nodes ?r1) fs (Some a)" using t(3) assms(2) by simp
  from relink_top [OF this, of n] d obtain r2 where r2: "(case top_ptr fs of None \<Rightarrow> Some ?r1 | Some p \<Rightarrow> relink p a (Some n) ?r1) = Some r2" "c_at (rb_nodes r2) fs (Some n)"
    "\<forall>x. x \<notin> set (caddrs fs) \<longrightarrow> rb_nodes r2 x = rb_nodes ?r1 x" "rb_root r2 = rb_root ?r1" "rb_rest r2 = rb_rest ?r1" by auto
  have n2: "rb_nodes r2 a = Some (mk_node c k v (rptr l) (rptr r) (top_ptr fs))" "rb_nodes r2 n = Some (mk_node c key nv None None (top_ptr fs))" using r2(3) h assms(2) d by auto
  let ?r3 = "r2\<lparr>rb_nodes := (rb_nodes r2)(n \<mapsto> mk_node c key nv (rptr l) (rptr r) (top_ptr fs))\<rparr>"
  have keep: "rb_nodes ?r3 x = ?h x" if x: "x \<in> set (taddrs l) \<union> set (taddrs r)" for x
  proof -
    have "x \<noteq> n" "x \<notin> set (caddrs fs)" using d assms(2) x by auto
    then show ?thesis using r2(3) by simp
  qed
  have "t_at (rb_nodes ?r3) (Some a) l = t_at ?h (Some a) l" by (rule t_at_cong) (use keep in blast)
  moreover have "t_at (rb_nodes ?r3) (Some a) r = t_at ?h (Some a) r" by (rule t_at_cong) (use keep in blast)
  ultimately have "t_at (rb_nodes ?r3) (Some a) l" "t_at (rb_nodes ?r3) (Some a) r" using t(1,2) by blast+
  from replace_subtrees [OF this, of n] d obtain r4 r5 where r5: "set_parent (rptr l) (Some n) ?r3 = Some r4" "set_parent (rptr r) (Some n) r4 = Some r5"
    "t_at (rb_nodes r5) (Some n) l" "t_at (rb_nodes r5) (Some n) r" "\<forall>x. x \<notin> set (taddrs l @ taddrs r) \<longrightarrow> rb_nodes r5 x = rb_nodes ?r3 x" "rb_root r5 = rb_root ?r3" "rb_rest r5 = rb_rest ?r3" by auto
  have n5: "rb_nodes r5 a = Some (mk_node c k v (rptr l) (rptr r) (top_ptr fs))" "rb_nodes r5 n = Some (mk_node c key nv (rptr l) (rptr r) (top_ptr fs))" using r5(5) n2 assms(2) d by auto
  have "c_at (rb_nodes r5) fs (Some n) = c_at (rb_nodes r2) fs (Some n)"
  proof (rule c_at_cong, rule ballI)
    fix x assume x: "x \<in> set (caddrs fs)"
    then have "x \<noteq> n" "x \<notin> set (taddrs l @ taddrs r)" using d assms(2) by auto
    then show "rb_nodes r5 x = rb_nodes r2 x" using r5(5) by simp
  qed
  then have c5: "c_at (rb_nodes r5) fs (Some n)" using r2(2) by blast
  let ?r6 = "(free_value (nv \<noteq> v) v r5)\<lparr>rb_nodes := (rb_nodes r5)(a := None)\<rparr>"
  have cf: "rb_cmp_keys_cb r5 = rb_cmp_keys_cb rbt" "rb_free_value_cb r5 = rb_free_value_cb rbt" "rb_brk r5 = rb_brk rbt" "rb_fail r5 = rb_fail rbt" "rb_prevnext r5 = rb_prevnext rbt"
    "rb_freed r5 = rb_freed rbt" "dom (rb_nodes r5) = dom ?h" using r5(7) r2(5) n2 h assms(4) by (auto simp: rb_rest_def)
  have "rbt_add_internal a n rbt = Some (1, ?r6)"
    using h assms(3-7) r2(1) n2 n5 r5(1,2) by (simp add: rbt_add_internal.simps [of a] compares_def upd_rbn_def free_rbn_def free_value_def)
  moreover have "heap_at (rb_nodes ?r6) fs (Nd l n c key nv r)" using n5(2) r5(3,4) c5 d assms(2) by (simp add: heap_at_def)
  ultimately show ?thesis using cf r5(6) r2(4) by (intro exI [of _ ?r6]) (auto simp: replaced_def rb_conf_def free_value_def)
qed

lemma add_internal_ok:
  assumes "way_to cmp key t fs = (gs, u)" and "rptr t = Some a" and "heap_at (rb_nodes rbt) fs t" and "n \<notin> set (taddrs t @ caddrs fs)" and "compares rbt"
    and "rb_nodes rbt n = Some (mk_node RBTREE_COLOR_RED key nv None None None)" and "fst ` set (inord t) \<subseteq> K" and "key \<in> K"
  shows "\<exists>rbt'. rbt_add_internal a n rbt = Some (if u = Tip then 0 else 1, rbt') \<and> heap_at (rb_nodes rbt') gs (put_at n key nv u) \<and> rb_root rbt' = rb_root rbt \<and>
    rb_conf rbt' = rb_conf rbt \<and> dom (rb_nodes rbt') = dom (rb_nodes rbt) - set_option (rptr u) \<and> rb_freed rbt' = rb_freed rbt @ replaced rbt nv u"
  using assms
proof (induction t arbitrary: fs a)
  case (Nd l b c k v r)
  have h: "rb_nodes rbt b = Some (mk_node c k v (rptr l) (rptr r) (top_ptr fs))" using Nd.prems(3) by (rule heap_at_node)
  have k: "k \<in> K" "rbt_compare_keys rbt k (length k) key (length key) = Some (cmp k key)" and b: "b = a" using Nd.prems(2,5,7,8) by (auto simp: compares_def)
  have L: "heap_at (rb_nodes rbt) (FL a c k v r # fs) l" and R: "heap_at (rb_nodes rbt) (FR l a c k v # fs) r" using Nd.prems(3) b by (simp_all add: heap_move)
  have na: "n \<noteq> a" "n \<notin> set (taddrs l @ caddrs (FL a c k v r # fs))" "n \<notin> set (taddrs r @ caddrs (FR l a c k v # fs))" using Nd.prems(4) b by auto
  have K: "fst ` set (inord l) \<subseteq> K" "fst ` set (inord r) \<subseteq> K" using Nd.prems(7) by auto
  consider "cmp k key = 0" | "0 < cmp k key" | "cmp k key < 0" by linarith
  then show ?case
  proof cases
    case 1
    then show ?thesis using add_internal_found [OF Nd.prems(3,4,5,6) k(1) Nd.prems(8)] Nd.prems(1) b by auto
  next
    case 2
    show ?thesis
    proof (cases l)
      case Tip
      let ?r = "rbt\<lparr>rb_nodes := (rb_nodes rbt)(a \<mapsto> mk_node c k v (Some n) (rptr r) (top_ptr fs), n \<mapsto> mk_node RBTREE_COLOR_RED key nv None None (Some a))\<rparr>"
      have "rbt_add_internal a n rbt = Some (0, ?r)" using 2 h b k(2) Nd.prems(6) Tip na by (simp add: rbt_add_internal.simps [of a] upd_rbn_def)
      moreover have "heap_at (rb_nodes ?r) (FL a c k v r # fs) (Nd Tip n RBTREE_COLOR_RED key nv Tip)" using L Nd.prems(4) b Tip by (auto simp: heap_at_def)
      ultimately show ?thesis using 2 Nd.prems(1,6) Tip h b by (auto simp: replaced_def rb_conf_def)
    next
      case n: (Nd l' a' c' k' v' r')
      have "rbt_add_internal a n rbt = rbt_add_internal a' n rbt" using 2 h b k(2) Nd.prems(6) n by (simp add: rbt_add_internal.simps [of a])
      moreover have "way_to cmp key l (FL a c k v r # fs) = (gs, u)" using 2 Nd.prems(1) b by simp
      ultimately show ?thesis using Nd.IH(1) [OF _ _ L na(2) Nd.prems(5,6) K(1) Nd.prems(8)] n by simp
    qed
  next
    case 3
    show ?thesis
    proof (cases r)
      case Tip
      let ?r = "rbt\<lparr>rb_nodes := (rb_nodes rbt)(a \<mapsto> mk_node c k v (rptr l) (Some n) (top_ptr fs), n \<mapsto> mk_node RBTREE_COLOR_RED key nv None None (Some a))\<rparr>"
      have "rbt_add_internal a n rbt = Some (0, ?r)" using 3 h b k(2) Nd.prems(6) Tip na by (simp add: rbt_add_internal.simps [of a] upd_rbn_def)
      moreover have "heap_at (rb_nodes ?r) (FR l a c k v # fs) (Nd Tip n RBTREE_COLOR_RED key nv Tip)" using R Nd.prems(4) b Tip by (auto simp: heap_at_def)
      ultimately show ?thesis using 3 Nd.prems(1,6) Tip h b by (auto simp: replaced_def rb_conf_def)
    next
      case n: (Nd l' a' c' k' v' r')
      have "rbt_add_internal a n rbt = rbt_add_internal a' n rbt" using 3 h b k(2) Nd.prems(6) n by (simp add: rbt_add_internal.simps [of a])
      moreover have "way_to cmp key r (FR l a c k v # fs) = (gs, u)" using 3 Nd.prems(1) b by simp
      ultimately show ?thesis using Nd.IH(2) [OF _ _ R na(3) Nd.prems(5,6) K(2) Nd.prems(8)] n by simp
    qed
  qed
qed simp

end

section \<open>The repair\<close>

text \<open>What \<open>rbt_add\<close> does once the new node has its place.\<close>

definition add_fix :: "int \<Rightarrow> nat \<Rightarrow> rbt_t \<Rightarrow> (int \<times> rbt_t) option" where
  "add_fix rc node rbt = do {
     N \<leftarrow> rb_nodes rbt node;
     if rn_color N = RBTREE_COLOR_BLACK then Some (1, if rn_parent N = None then rbt\<lparr>rb_root := Some node\<rparr> else rbt)
     else (case rn_parent N of
         None \<Rightarrow> do { rbt \<leftarrow> PAINT RBTREE_COLOR_BLACK (Some node) rbt; Some (rc, rbt\<lparr>rb_root := Some node\<rparr>) }
       | Some p \<Rightarrow> do {
           black \<leftarrow> IS_BLACK rbt (Some p);
           if black then Some (rc, rbt)
           else do {
             uncle \<leftarrow> rbt_uncle rbt node;
             gp \<leftarrow> rbt_grandparent rbt (Some node);
             red \<leftarrow> IS_RED rbt uncle;
             if red then do {
               rbt \<leftarrow> PAINT RBTREE_COLOR_BLACK (Some p) rbt;
               rbt \<leftarrow> PAINT RBTREE_COLOR_BLACK uncle rbt;
               case gp of
                 None \<Rightarrow> Some (rc, rbt)
               | Some g \<Rightarrow> do {
                   rbt \<leftarrow> PAINT RBTREE_COLOR_RED gp rbt;
                   G \<leftarrow> rb_nodes rbt g;
                   r \<leftarrow> rbt_add (rn_key G) (rn_klen G) (rn_value G) rbt;
                   Some (rc, snd r)
                 }
             } else (case gp of None \<Rightarrow> Some (rc, rbt) | Some g \<Rightarrow> do { (node, rbt) \<leftarrow> add_case4 node g rbt; add_case5 rc node rbt })
           }
         })
   }"

definition new_red :: "byte list \<Rightarrow> nat \<Rightarrow> rbt_t \<Rightarrow> rbt_t" where
  "new_red k v rbt = rbt\<lparr>rb_nodes := (rb_nodes rbt)(rb_brk rbt \<mapsto> mk_node RBTREE_COLOR_RED k v None None None), rb_brk := Suc (rb_brk rbt)\<rparr>"

lemma rbt_add_unfold:
  "\<not> rb_fail rbt (rb_brk rbt) \<Longrightarrow> rb_root rbt = Some r \<Longrightarrow>
   rbt_add k (length k) v rbt = do { (rc, rbt') \<leftarrow> rbt_add_internal r (rb_brk rbt) (new_red k v rbt); add_fix rc (rb_brk rbt) rbt' }"
  by (simp add: rbt_add.simps [of k] add_fix_def new_red_def mk_node_def Let_def)

lemma family:
  assumes "heap_at (rb_nodes rbt) (fp # fg # gs) (Nd l n c k v r)"
  shows "rbt_uncle rbt n = Some (rptr (fsib fg))" "rbt_grandparent rbt (Some n) = Some (Some (fa fg))"
proof -
  have d: "fa fp \<notin> set (taddrs (fsib fg))" using assms by (auto simp: heap_at_def)
  have h: "rb_nodes rbt n = Some (mk_node c k v (rptr l) (rptr r) (Some (fa fp)))" using heap_at_node [OF assms] by simp
  have p: "\<exists>P. rb_nodes rbt (fa fp) = Some P \<and> rn_parent P = Some (fa fg)" using assms by (cases fp) (auto simp: heap_at_def)
  show gp: "rbt_grandparent rbt (Some n) = Some (Some (fa fg))" using h p by (auto simp: rbt_grandparent_def)
  show "rbt_uncle rbt n = Some (rptr (fsib fg))" using gp h assms rptr_notin [OF d] by (cases fg) (auto simp: rbt_uncle_def heap_at_def)
qed

lemma IS_RED_tree: "t_at (rb_nodes rbt) p t \<Longrightarrow> IS_RED rbt (rptr t) = Some (col t = RBTREE_COLOR_RED)"
  by (cases t) (simp_all add: IS_RED_def)

lemma sib_at: "heap_at h (f # fs) t \<Longrightarrow> t_at h (Some (fa f)) (fsib f)"
  by (cases f) (simp_all add: heap_at_def)

lemma IS_BLACK_frame: "heap_at (rb_nodes rbt) (f # fs) t \<Longrightarrow> IS_BLACK rbt (Some (fa f)) = Some (fdat f = RBTREE_COLOR_BLACK)"
  by (cases f) (simp_all add: heap_at_def IS_BLACK_def)

lemma turned_contents:
  "inord (turned f g (Nd l n c k v r)) = inord (plug1 g (plug1 f (Nd l n c k v r)))"
  "mset (taddrs (turned f g (Nd l n c k v r))) = mset (taddrs (plug1 g (plug1 f (Nd l n c k v r))))"
  "col (turned f g (Nd l n c k v r)) = RBTREE_COLOR_BLACK"
  by (cases f; cases g; simp)+

lemma turned_invc:
  assumes "fdat f = RBTREE_COLOR_RED" and "invc (Nd l n RBTREE_COLOR_RED k v r)" and "invc (fsib f)" and "invc (fsib g)" and "col (fsib f) = RBTREE_COLOR_BLACK" and "col (fsib g) = RBTREE_COLOR_BLACK"
  shows "invc (turned f g (Nd l n RBTREE_COLOR_RED k v r))"
  using assms by (cases f; cases g) simp_all

lemma turned_invh:
  assumes "fdat f = RBTREE_COLOR_RED" and "invh (Nd l n RBTREE_COLOR_RED k v r)" and "invh (fsib f)" and "invh (fsib g)" and "bh (fsib f) = bh l" and "bh (fsib g) = bh l"
  shows "invh (turned f g (Nd l n RBTREE_COLOR_RED k v r)) \<and> bh (turned f g (Nd l n RBTREE_COLOR_RED k v r)) = Suc (bh l)"
  using assms by (cases f; cases g) simp_all

context byte_key_order
begin

definition rb_ok :: "rbt_t \<Rightarrow> rtree \<Rightarrow> bool" where
  "rb_ok rbt T \<longleftrightarrow> heap_at (rb_nodes rbt) [] T \<and> dom (rb_nodes rbt) = set (taddrs T) \<and> (\<forall>a \<in> set (taddrs T). a < rb_brk rbt) \<and> compares rbt \<and>
     (\<forall>i. \<not> rb_fail rbt i) \<and> ascending cmp (inord T) \<and> fst ` set (inord T) \<subseteq> K"

lemma rb_ok_root [simp]: "rb_ok (rbt\<lparr>rb_root := x\<rparr>) T \<longleftrightarrow> rb_ok rbt T"
  by (simp add: rb_ok_def compares_def rbt_compare_keys_def)

lemma rb_ok_step:
  assumes "rb_ok rbt T" and "heap_at (rb_nodes rbt') [] T'" and "rb_rest rbt' = rb_rest rbt" and "inord T' = inord T" and "mset (taddrs T') = mset (taddrs T)"
  shows "rb_ok rbt' T'"
proof -
  have a: "set (taddrs T') = set (taddrs T)" using assms(5) by (rule mset_eq_setD)
  have c: "rb_conf rbt' = rb_conf rbt" "dom (rb_nodes rbt') = dom (rb_nodes rbt)" using assms(3) unfolding rb_rest_conf by blast+
  have "compares rbt'" using assms(1) compares_conf [OF c(1)] unfolding rb_ok_def by blast
  then show ?thesis using assms(1) c unfolding rb_ok_def rb_conf_def a assms(4) by (simp add: assms(2))
qed

text \<open>A node that is given anew with its own key and value is replaced by the new one.\<close>

lemma readd:
  assumes "rb_ok rbt (plug gs (Nd l a c k v r))" and "rb_root rbt = rptr (plug gs (Nd l a c k v r))"
  shows "\<exists>rbt'. rbt_add k (length k) v rbt = add_fix 1 (rb_brk rbt) rbt' \<and> rb_ok rbt' (plug gs (Nd l (rb_brk rbt) c k v r)) \<and>
    heap_at (rb_nodes rbt') gs (Nd l (rb_brk rbt) c k v r) \<and> rb_root rbt' = rb_root rbt \<and>
    rb_freed rbt' = rb_freed rbt \<and> rb_free_value_cb rbt' = rb_free_value_cb rbt \<and> rb_prevnext rbt' = rb_prevnext rbt"
proof -
  let ?T = "plug gs (Nd l a c k v r)" and ?n = "rb_brk rbt" and ?r = "new_red k v rbt"
  obtain q where q: "rptr ?T = Some q"
    using plug_root [of "Nd l a c k v r" gs] by auto
  have T: "heap_at (rb_nodes rbt) [] ?T" "dom (rb_nodes rbt) = set (taddrs ?T)" "\<forall>a \<in> set (taddrs ?T). a < ?n" "compares rbt" "\<forall>i. \<not> rb_fail rbt i"
    "ascending cmp (inord ?T)" "fst ` set (inord ?T) \<subseteq> K" using assms(1) by (auto simp: rb_ok_def)
  have n: "?n \<notin> set (taddrs ?T)" using T(3) by blast
  have A: "set (taddrs ?T) = set (taddrs (Nd l a c k v r)) \<union> set (caddrs gs)" "set (taddrs (plug gs (Nd l ?n c k v r))) = set (taddrs (Nd l ?n c k v r)) \<union> set (caddrs gs)"
    using plug_addrs [of gs "Nd l a c k v r"] plug_addrs [of gs "Nd l ?n c k v r"] by (metis mset_append mset_eq_setD set_append)+
  have d: "a \<notin> set (taddrs l) \<union> set (taddrs r) \<union> set (caddrs gs)" using T(1) [unfolded heap_plug] by (auto simp: heap_at_def)
  have c: "compares ?r" using T(4) by (simp add: compares_def rbt_compare_keys_def new_red_def)
  have h: "heap_at (rb_nodes ?r) [] ?T" using heap_at_upd [OF T(1) n] by (simp add: new_red_def)
  have k: "k \<in> K" using T(7) by (auto simp: inord_plug)
  have g: "way_to cmp k ?T [] = (gs, Nd l a c k v r)" by (rule way_own [OF T(6,7)])
  from add_internal_ok [OF g q h _ c _ T(7) k, of ?n v] n obtain r1 where r1: "rbt_add_internal q ?n ?r = Some (1, r1)" "heap_at (rb_nodes r1) gs (Nd l ?n c k v r)"
    "rb_root r1 = rb_root ?r" "rb_conf r1 = rb_conf ?r" "dom (rb_nodes r1) = dom (rb_nodes ?r) - {a}" "rb_freed r1 = rb_freed ?r @ replaced ?r v (Nd l a c k v r)" by (auto simp: new_red_def)
  have "rbt_add k (length k) v rbt = add_fix 1 ?n r1" using rbt_add_unfold [of rbt q k v] T(5) assms(2) q r1(1) by simp
  moreover have "dom (rb_nodes r1) = set (taddrs (plug gs (Nd l ?n c k v r)))" using r1(5) T(2) A d n by (auto simp: new_red_def)
  moreover have "inord (plug gs (Nd l ?n c k v r)) = inord ?T" by (simp add: inord_plug)
  moreover have "compares r1" using c compares_conf [OF r1(4)] by simp
  moreover have "\<forall>x \<in> set (taddrs (plug gs (Nd l ?n c k v r))). x < Suc ?n"
  proof
    fix x assume "x \<in> set (taddrs (plug gs (Nd l ?n c k v r)))"
    then have "x = ?n \<or> x \<in> set (taddrs ?T)" unfolding A by auto
    then show "x < Suc ?n" using T(3) less_SucI by blast
  qed
  ultimately show ?thesis using r1 T by (intro exI [of _ r1]) (auto simp: rb_ok_def heap_plug rb_conf_def new_red_def replaced_def)
qed

lemma grand_node: "\<exists>L k v R. plug1 (set_dat c (set_sib S g)) X = Nd L (fa g) c k v R \<and> (L = S \<and> R = X \<or> L = X \<and> R = S)"
  by (cases g) auto

lemma grand_inord: "inord S = inord (fsib g) \<Longrightarrow> inord X = inord Y \<Longrightarrow> inord (plug1 (set_dat c (set_sib S g)) X) = inord (plug1 g Y)"
  by (cases g) auto

lemma parent_inord: "inord (plug1 (set_dat c f) t) = inord (plug1 f t)"
  by (cases f) auto

text \<open>The case 3: parent and uncle get black, the grandparent red.\<close>

lemma case3_paint:
  assumes "heap_at (rb_nodes rbt) (fp # fg # gs) t" and "fsib fg = Nd sl s RBTREE_COLOR_RED ks vs sr"
  defines "G \<equiv> plug1 (set_dat RBTREE_COLOR_RED (set_sib (Nd sl s RBTREE_COLOR_BLACK ks vs sr) fg)) (plug1 (set_dat RBTREE_COLOR_BLACK fp) t)"
  shows "\<exists>r1 r2 r3. PAINT RBTREE_COLOR_BLACK (Some (fa fp)) rbt = Some r1 \<and> PAINT RBTREE_COLOR_BLACK (Some s) r1 = Some r2 \<and>
    PAINT RBTREE_COLOR_RED (Some (fa fg)) r2 = Some r3 \<and> heap_at (rb_nodes r3) gs G \<and> rb_root r3 = rb_root rbt \<and> rb_rest r3 = rb_rest rbt"
proof -
  from PAINT_frame [OF assms(1), of RBTREE_COLOR_BLACK] obtain r1 where r1: "PAINT RBTREE_COLOR_BLACK (Some (fa fp)) rbt = Some r1"
    "heap_at (rb_nodes r1) (fg # gs) (plug1 (set_dat RBTREE_COLOR_BLACK fp) t)" "rb_root r1 = rb_root rbt" "rb_rest r1 = rb_rest rbt" by (auto simp: heap_move [of _ _ "set_dat _ _"])
  from PAINT_sib [OF r1(2) assms(2), of RBTREE_COLOR_BLACK] obtain r2 where r2: "PAINT RBTREE_COLOR_BLACK (Some s) r1 = Some r2"
    "heap_at (rb_nodes r2) (set_sib (Nd sl s RBTREE_COLOR_BLACK ks vs sr) fg # gs) (plug1 (set_dat RBTREE_COLOR_BLACK fp) t)" "rb_root r2 = rb_root r1" "rb_rest r2 = rb_rest r1" by auto
  from PAINT_frame [OF r2(2), of RBTREE_COLOR_RED] obtain r3 where "PAINT RBTREE_COLOR_RED (Some (fa fg)) r2 = Some r3" "heap_at (rb_nodes r3) gs G" "rb_root r3 = rb_root r2" "rb_rest r3 = rb_rest r2"
    by (auto simp: G_def heap_move)
  then show ?thesis using r1 r2 by auto
qed

definition same_values :: "rbt_t \<Rightarrow> rbt_t \<Rightarrow> bool" where
  "same_values rbt rbt' \<longleftrightarrow> rb_freed rbt' = rb_freed rbt \<and> rb_free_value_cb rbt' = rb_free_value_cb rbt \<and> rb_prevnext rbt' = rb_prevnext rbt"

lemma red_frame:
  assumes "rb_ok rbt (plug (f # g # gs) (Nd l n c k v r))" and "fdat f = RBTREE_COLOR_RED"
  shows "heap_at (rb_nodes rbt) (f # g # gs) (Nd l n c k v r)" "IS_RED rbt (rptr (fsib g)) = Some (col (fsib g) = RBTREE_COLOR_RED)" "IS_BLACK rbt (Some (fa f)) = Some False"
    "rb_nodes rbt n = Some (mk_node c k v (rptr l) (rptr r) (Some (fa f)))"
proof -
  show F: "heap_at (rb_nodes rbt) (f # g # gs) (Nd l n c k v r)" using assms(1) unfolding rb_ok_def heap_plug by blast
  show "IS_RED rbt (rptr (fsib g)) = Some (col (fsib g) = RBTREE_COLOR_RED)" using IS_RED_tree [OF sib_at [of "rb_nodes rbt" g gs "plug1 f (Nd l n c k v r)"]] F by (simp add: heap_move)
  show "IS_BLACK rbt (Some (fa f)) = Some False" using IS_BLACK_frame [OF F] assms(2) by simp
  show "rb_nodes rbt n = Some (mk_node c k v (rptr l) (rptr r) (Some (fa f)))" using heap_at_node [OF F] by simp
qed

text \<open>The repair with a black uncle ends in one step.\<close>

lemma fix_black_uncle:
  fixes l n k v r
  defines "t \<equiv> Nd l n RBTREE_COLOR_RED k v r"
  assumes "rb_ok rbt (plug (f # g # gs) t)" and "rb_root rbt = rptr (plug (f # g # gs) t)" and "invc t" and "invh t" and "cinvc (f # g # gs)" and "cinvh (f # g # gs) (bh l)"
    and "fdat f = RBTREE_COLOR_RED" and "fdat g = RBTREE_COLOR_BLACK" and "col (fsib g) = RBTREE_COLOR_BLACK"
  shows "\<exists>rbt' T. add_fix rc n rbt = Some (rc, rbt') \<and> rb_ok rbt' T \<and> rb_root rbt' = rptr T \<and> red_black T \<and> inord T = inord (plug (f # g # gs) t) \<and> same_values rbt rbt'"
proof -
  note red = red_frame [OF assms(2) [unfolded t_def] assms(8), folded t_def]
  have inv: "invc (fsib f)" "col (fsib f) = RBTREE_COLOR_BLACK" "invc (fsib g)" "cinvc gs" "invh (fsib f)" "invh (fsib g)" "bh (fsib f) = bh l" "bh (fsib g) = bh l" "cinvh gs (Suc (bh l))"
    using assms(6-9) by simp_all
  from case45_ok [OF red(1) [unfolded t_def], of rc, folded t_def] obtain r1 a where r1: "do { (node, rbt) \<leftarrow> add_case4 n (fa g) rbt; add_case5 rc node rbt } = Some (rc, r1)"
    "heap_at (rb_nodes r1) gs (turned f g t)" "rptr (turned f g t) = Some a" "rb_root r1 = new_root gs a rbt" "rb_rest r1 = rb_rest rbt" by blast
  note con = turned_contents [of f g l n RBTREE_COLOR_RED k v r, folded t_def]
  have "add_fix rc n rbt = Some (rc, r1)" using red(2-4) assms(10) family [OF red(1) [unfolded t_def]] r1(1) by (simp add: add_fix_def)
  moreover have "rb_ok r1 (plug gs (turned f g t))" using r1(2,5) con by (intro rb_ok_step [OF assms(2)]) (simp_all add: heap_plug inord_plug [of gs] plug_addrs)
  moreover have "red_black (plug gs (turned f g t))"
    using plug_invc [OF inv(4) turned_invc [OF assms(8) _ inv(1,3,2) assms(10)]] turned_invh [OF assms(8) _ inv(5,6,7,8)] inv(9) assms(4,5) con(3) by (simp add: red_black_def plug_invh t_def)
  moreover have "rb_root r1 = rptr (plug gs (turned f g t))" using r1(3,4) assms(3) rptr_plug [of gs "turned f g t" "plug1 g (plug1 f t)"] by (auto simp: new_root_def)
  moreover have "inord (plug gs (turned f g t)) = inord (plug (f # g # gs) t)" using con(1) by (simp add: inord_plug [of gs])
  ultimately show ?thesis using r1(5) by (intro exI [of _ r1] exI [of _ "plug gs (turned f g t)"]) (simp add: same_values_def rb_rest_conf rb_conf_def)
qed

text \<open>With a red uncle it goes on with a red node in the place of the grandparent.\<close>

lemma fix_red_uncle:
  fixes l n k v r
  defines "t \<equiv> Nd l n RBTREE_COLOR_RED k v r"
  assumes "rb_ok rbt (plug (f # g # gs) t)" and "rb_root rbt = rptr (plug (f # g # gs) t)" and "invc t" and "invh t" and "cinvc (f # g # gs)" and "cinvh (f # g # gs) (bh l)"
    and "fdat f = RBTREE_COLOR_RED" and "fdat g = RBTREE_COLOR_BLACK" and "fsib g = Nd sl s RBTREE_COLOR_RED ks vs sr"
  shows "\<exists>r4 L m kg vg R. add_fix rc n rbt = map_option (\<lambda>x. (rc, snd x)) (add_fix 1 m r4) \<and> rb_ok r4 (plug gs (Nd L m RBTREE_COLOR_RED kg vg R)) \<and>
    (gs \<noteq> [] \<longrightarrow> rb_root r4 = rptr (plug gs (Nd L m RBTREE_COLOR_RED kg vg R))) \<and> invc (Nd L m RBTREE_COLOR_RED kg vg R) \<and> invh (Nd L m RBTREE_COLOR_RED kg vg R) \<and>
    cinvc gs \<and> cinvh gs (bh L) \<and> inord (plug gs (Nd L m RBTREE_COLOR_RED kg vg R)) = inord (plug (f # g # gs) t) \<and> same_values rbt r4"
proof -
  note red = red_frame [OF assms(2) [unfolded t_def] assms(8), folded t_def]
  let ?S = "Nd sl s RBTREE_COLOR_BLACK ks vs sr" and ?X = "plug1 (set_dat RBTREE_COLOR_BLACK f) t"
  let ?G = "plug1 (set_dat RBTREE_COLOR_RED (set_sib ?S g)) ?X"
  from case3_paint [OF red(1) assms(10)] obtain r1 r2 r3 where r3: "PAINT RBTREE_COLOR_BLACK (Some (fa f)) rbt = Some r1" "PAINT RBTREE_COLOR_BLACK (Some s) r1 = Some r2"
    "PAINT RBTREE_COLOR_RED (Some (fa g)) r2 = Some r3" "heap_at (rb_nodes r3) gs ?G" "rb_root r3 = rb_root rbt" "rb_rest r3 = rb_rest rbt" by blast
  obtain L kg vg R where G: "?G = Nd L (fa g) RBTREE_COLOR_RED kg vg R" "L = ?S \<and> R = ?X \<or> L = ?X \<and> R = ?S" using grand_node [of RBTREE_COLOR_RED ?S g ?X] by blast
  have i: "inord ?G = inord (plug1 g (plug1 f t))" by (rule grand_inord) (simp_all add: assms(10) parent_inord)
  have a: "mset (taddrs ?G) = mset (taddrs (plug1 g (plug1 f t)))" by (simp add: assms(10))
  have X: "invc ?X" "invh ?X" "bh ?X = Suc (bh l)" "col ?X = RBTREE_COLOR_BLACK"
    using assms(4-8) plug1_bh [of "set_dat RBTREE_COLOR_BLACK f" t] by (simp_all add: plug1_inv t_def)
  have S: "invc ?S" "invh ?S" "bh ?S = Suc (bh l)" "cinvc gs" "cinvh gs (Suc (bh l))" using assms(6-10) by simp_all
  have ok: "rb_ok r3 (plug gs (Nd L (fa g) RBTREE_COLOR_RED kg vg R))"
    using r3(4,6) i a by (intro rb_ok_step [OF assms(2)]) (simp_all add: G(1) heap_plug inord_plug [of gs] plug_addrs)
  have root: "rb_root r3 = rptr (plug gs (Nd L (fa g) RBTREE_COLOR_RED kg vg R))"
    using r3(5) assms(3) rptr_plug [of gs "Nd L (fa g) RBTREE_COLOR_RED kg vg R" "plug1 g (plug1 f t)"] by (cases gs) (simp_all del: plug.simps(2), simp_all)
  from readd [OF ok root] obtain r4 where r4: "rbt_add kg (length kg) vg r3 = add_fix 1 (rb_brk r3) r4" "rb_ok r4 (plug gs (Nd L (rb_brk r3) RBTREE_COLOR_RED kg vg R))" "rb_root r4 = rb_root r3"
    "rb_freed r4 = rb_freed r3" "rb_free_value_cb r4 = rb_free_value_cb r3" "rb_prevnext r4 = rb_prevnext r3" by blast
  have "gs \<noteq> [] \<longrightarrow> rb_root r4 = rptr (plug gs (Nd L (rb_brk r3) RBTREE_COLOR_RED kg vg R))" using r4(3) root rptr_plug by metis
  moreover have "invc (Nd L (rb_brk r3) RBTREE_COLOR_RED kg vg R)" "invh (Nd L (rb_brk r3) RBTREE_COLOR_RED kg vg R)" "cinvh gs (bh L)" using G(2) X S by auto
  moreover have "rb_nodes r3 (fa g) = Some (mk_node RBTREE_COLOR_RED kg vg (rptr L) (rptr R) (top_ptr gs))" using heap_at_node [OF r3(4) [unfolded G(1)]] by simp
  then have "add_fix rc n rbt = map_option (\<lambda>x. (rc, snd x)) (add_fix 1 (rb_brk r3) r4)"
    using red(2-4) assms(10) family [OF red(1) [unfolded t_def]] r3(1,2,3) r4(1) by (cases "add_fix 1 (rb_brk r3) r4") (simp_all add: add_fix_def [of rc])
  moreover have "inord (plug gs (Nd L (rb_brk r3) RBTREE_COLOR_RED kg vg R)) = inord (plug (f # g # gs) t)" using i unfolding G(1) by (simp add: inord_plug [of gs])
  moreover have "same_values rbt r4" using r4(4-6) r3(6) by (simp add: same_values_def rb_rest_conf rb_conf_def)
  ultimately show ?thesis using r4(2) S(4) by blast
qed

text \<open>
  The repair ends with a red-black tree that has the same entries: by induction on the number of nodes above the red one,
  since a red uncle moves it two levels higher.
\<close>

lemma add_fix_ok:
  assumes "rb_ok rbt (plug fs (Nd l n RBTREE_COLOR_RED k v r))" and "fs \<noteq> [] \<longrightarrow> rb_root rbt = rptr (plug fs (Nd l n RBTREE_COLOR_RED k v r))"
    and "invc (Nd l n RBTREE_COLOR_RED k v r)" and "invh (Nd l n RBTREE_COLOR_RED k v r)" and "cinvc fs" and "cinvh fs (bh l)"
  shows "\<exists>rbt' T. add_fix rc n rbt = Some (rc, rbt') \<and> rb_ok rbt' T \<and> rb_root rbt' = rptr T \<and> red_black T \<and> inord T = inord (plug fs (Nd l n RBTREE_COLOR_RED k v r)) \<and>
    same_values rbt rbt'"
  using assms
proof (induction fs arbitrary: l n k v r rbt rc rule: length_induct)
  case (1 fs)
  let ?t = "Nd l n RBTREE_COLOR_RED k v r"
  have H: "heap_at (rb_nodes rbt) fs ?t" using 1(2) by (simp add: rb_ok_def heap_plug)
  note N = heap_at_node [OF H]
  consider (top) "fs = []" | (black) f gs where "fs = f # gs" "fdat f = RBTREE_COLOR_BLACK" | (red) f g gs where "fs = f # g # gs" "fdat f = RBTREE_COLOR_RED" "fdat g = RBTREE_COLOR_BLACK"
  proof (cases fs)
    case (Cons f gs)
    then show ?thesis using 1(6) that(2,3) by (cases gs; cases "fdat f") auto
  qed (rule that(1))
  then show ?case
  proof cases
    case top
    then have "heap_at (rb_nodes rbt) [] ?t" using H by simp
    from PAINT_focus [OF this, of RBTREE_COLOR_BLACK] obtain r1 where r1: "PAINT RBTREE_COLOR_BLACK (Some n) rbt = Some r1" "heap_at (rb_nodes r1) [] (Nd l n RBTREE_COLOR_BLACK k v r)" "rb_rest r1 = rb_rest rbt" by auto
    have "rb_ok r1 (Nd l n RBTREE_COLOR_BLACK k v r)" by (rule rb_ok_step [OF 1(2) r1(2,3)]) (simp_all add: top)
    moreover have "add_fix rc n rbt = Some (rc, r1\<lparr>rb_root := Some n\<rparr>)" using N top r1(1) by (simp add: add_fix_def)
    ultimately show ?thesis using 1(4,5) r1(3) top by (intro exI [of _ "r1\<lparr>rb_root := Some n\<rparr>"] exI [of _ "Nd l n RBTREE_COLOR_BLACK k v r"]) (auto simp: red_black_def same_values_def rb_rest_conf rb_conf_def)
  next
    case black
    have "add_fix rc n rbt = Some (rc, rbt)" using N H black IS_BLACK_frame by (simp add: add_fix_def)
    moreover have "invh (plug fs ?t)" using plug_invh [of fs ?t] 1(5,7) by simp
    then have "red_black (plug fs ?t)" using plug_invc [of fs ?t] 1(4,6) black by (simp add: red_black_def)
    ultimately show ?thesis using 1(2,3) black by (intro exI [of _ rbt] exI [of _ "plug fs ?t"]) (simp add: same_values_def)
  next
    case red
    note pre = 1(2,3) [unfolded red(1)] 1(4,5) 1(6,7) [unfolded red(1)] red(2,3)
    show ?thesis
    proof (cases "col (fsib g)")
      case RBTREE_COLOR_BLACK
      then show ?thesis using fix_black_uncle [OF pre(1) _ pre(3-8), of rc] pre(2) red(1) by blast
    next
      case RBTREE_COLOR_RED
      then obtain sl s ks vs sr where s: "fsib g = Nd sl s RBTREE_COLOR_RED ks vs sr" by (cases "fsib g") auto
      obtain r4 L m kg vg R where r4: "add_fix rc n rbt = map_option (\<lambda>x. (rc, snd x)) (add_fix 1 m r4)" "rb_ok r4 (plug gs (Nd L m RBTREE_COLOR_RED kg vg R))"
        "gs \<noteq> [] \<longrightarrow> rb_root r4 = rptr (plug gs (Nd L m RBTREE_COLOR_RED kg vg R))" "invc (Nd L m RBTREE_COLOR_RED kg vg R)" "invh (Nd L m RBTREE_COLOR_RED kg vg R)"
        "cinvc gs" "cinvh gs (bh L)" "inord (plug gs (Nd L m RBTREE_COLOR_RED kg vg R)) = inord (plug fs ?t)" "same_values rbt r4"
        using fix_red_uncle [OF pre(1) _ pre(3-8) s, of rc] pre(2) red(1) by blast
      from 1(1) [rule_format, OF _ r4(2) r4(3) [rule_format] r4(4-7), of 1] red(1) obtain r5 T where "add_fix 1 m r4 = Some (1, r5)" "rb_ok r5 T" "rb_root r5 = rptr T" "red_black T"
        "inord T = inord (plug gs (Nd L m RBTREE_COLOR_RED kg vg R))" "same_values r4 r5" by auto
      then show ?thesis using r4(1,8,9) by (intro exI [of _ r5] exI [of _ T]) (simp add: same_values_def)
    qed
  qed
qed

end

section \<open>The operations\<close>

lemma put_at_node: "\<exists>l c r. put_at n key nv u = Nd l n c key nv r"
  by (cases u) auto

lemma inord_put_at: "inord (put_at n key nv u) = (case u of Tip \<Rightarrow> [(key, nv)] | Nd l a c k v r \<Rightarrow> inord l @ (key, nv) # inord r)"
  by (cases u) auto

context byte_key_order
begin

lemma rbt_add_empty:
  assumes "rb_ok rbt Tip" and "rb_root rbt = None" and "key \<in> K"
  shows "\<exists>rbt'. rbt_add key (length key) v rbt = Some (0, rbt') \<and> rb_ok rbt' (Nd Tip (rb_brk rbt) RBTREE_COLOR_BLACK key v Tip) \<and> rb_root rbt' = Some (rb_brk rbt) \<and> same_values rbt rbt'"
proof -
  let ?r = "rbt\<lparr>rb_nodes := (rb_nodes rbt)(rb_brk rbt \<mapsto> mk_node RBTREE_COLOR_BLACK key v None None None), rb_brk := Suc (rb_brk rbt), rb_root := Some (rb_brk rbt)\<rparr>"
  have "rbt_add key (length key) v rbt = Some (0, ?r)" using assms by (simp add: rbt_add.simps rb_ok_def Let_def PAINT_def upd_rbn_def mk_node_def)
  moreover have "rb_ok ?r (Nd Tip (rb_brk rbt) RBTREE_COLOR_BLACK key v Tip)" using assms by (simp add: rb_ok_def heap_at_def compares_def rbt_compare_keys_def ascending_def)
  ultimately show ?thesis by (auto simp: same_values_def)
qed

lemma rbt_add_ok:
  assumes "rb_ok rbt T" and "rb_root rbt = rptr T" and "red_black T" and "key \<in> K"
  shows "\<exists>rbt' T'. rbt_add key (length key) v rbt = Some (if al_lookup cmp key (inord T) = None then 0 else 1, rbt') \<and> rb_ok rbt' T' \<and> rb_root rbt' = rptr T' \<and> red_black T' \<and>
    inord T' = al_put cmp key v (inord T) \<and> rb_free_value_cb rbt' = rb_free_value_cb rbt \<and>
    rb_freed rbt' = rb_freed rbt @ (case al_lookup cmp key (inord T) of None \<Rightarrow> [] | Some v' \<Rightarrow> if v \<noteq> v' \<and> rb_free_value_cb rbt then [v'] else [])"
proof (cases "rptr T")
  case None
  then have "T = Tip" by (cases T) auto
  then show ?thesis using rbt_add_empty [of rbt key v] assms by (fastforce simp: red_black_def same_values_def)
next
  case (Some q)
  let ?n = "rb_brk rbt" and ?r = "new_red key v rbt"
  obtain fs u where g: "way_to cmp key T [] = (fs, u)" by fastforce
  let ?t = "put_at ?n key v u" and ?rc = "if al_lookup cmp key (inord T) = None then 0 else 1 :: int"
  have T: "heap_at (rb_nodes rbt) [] T" "dom (rb_nodes rbt) = set (taddrs T)" "\<forall>a \<in> set (taddrs T). a < ?n" "compares rbt" "\<forall>i. \<not> rb_fail rbt i"
    "ascending cmp (inord T)" "fst ` set (inord T) \<subseteq> K" using assms(1) by (auto simp: rb_ok_def)
  have p: "T = plug fs u" using way_plug [OF g] by simp
  have n: "?n \<notin> set (taddrs T)" using T(3) by blast
  have c: "compares ?r" using T(4) by (simp add: compares_def rbt_compare_keys_def new_red_def)
  have h: "heap_at (rb_nodes ?r) [] T" using heap_at_upd [OF T(1) n] by (simp add: new_red_def)
  from add_internal_ok [OF g Some h _ c _ T(7) assms(4), of ?n v] n obtain r1 where r1: "rbt_add_internal q ?n ?r = Some (if u = Tip then 0 else 1, r1)" "heap_at (rb_nodes r1) fs ?t"
    "rb_root r1 = rb_root ?r" "rb_conf r1 = rb_conf ?r" "dom (rb_nodes r1) = dom (rb_nodes ?r) - set_option (rptr u)" "rb_freed r1 = rb_freed ?r @ replaced ?r v u" by (auto simp: new_red_def)
  have cut: "inord (plug fs ?t) = al_put cmp key v (inord T)" "u = Tip \<longleftrightarrow> al_lookup cmp key (inord T) = None"
    "replaced ?r v u = (case al_lookup cmp key (inord T) of None \<Rightarrow> [] | Some v' \<Rightarrow> if v \<noteq> v' \<and> rb_free_value_cb rbt then [v'] else [])"
    using way_cut [OF g T(6,7) assms(4), of v] by (cases u; simp add: inord_plug replaced_def new_red_def)+
  have run: "rbt_add key (length key) v rbt = add_fix ?rc ?n r1" using rbt_add_unfold [of rbt q key v] T(5) assms(2) Some r1(1) cut(2) by simp
  have A: "set (taddrs T) = set (taddrs u) \<union> set (caddrs fs)" "set (taddrs (plug fs ?t)) = set (taddrs ?t) \<union> set (caddrs fs)" by (simp_all add: p set_addrs_plug)
  have "dom (rb_nodes r1) = set (taddrs (plug fs ?t))"
    using r1(5) T(2) n h A [unfolded p] unfolding p heap_plug by (cases u) (auto simp: new_red_def heap_at_def)
  moreover have "\<forall>x \<in> set (taddrs (plug fs ?t)). x < Suc ?n"
  proof
    fix x assume "x \<in> set (taddrs (plug fs ?t))"
    then have "x = ?n \<or> x \<in> set (taddrs T)" unfolding A by (cases u) auto
    then show "x < Suc ?n" using T(3) less_SucI by blast
  qed
  moreover have "fst ` set (al_put cmp key v (inord T)) \<subseteq> K" using al_put_keys [of key v "inord T"] T(7) assms(4) by blast
  moreover have "compares r1" using c compares_conf [OF r1(4)] by simp
  ultimately have ok: "rb_ok r1 (plug fs ?t)" using r1(2,4) T(5) ascending_put [OF T(6,7) assms(4), of v] by (simp add: rb_ok_def heap_plug cut(1)) (simp add: rb_conf_def new_red_def)
  have rb: "invc u" "cinvc fs" "ctop fs = RBTREE_COLOR_RED \<longrightarrow> col u = RBTREE_COLOR_BLACK" "invh u" "cinvh fs (bh u)" "fs = [] \<longrightarrow> col u = RBTREE_COLOR_BLACK"
    using red_black_plug [of fs u] assms(3) p by auto
  have root: "fs \<noteq> [] \<longrightarrow> rb_root r1 = rptr (plug fs ?t)" using r1(3) assms(2) p rptr_plug [of fs u ?t] by (simp add: new_red_def)
  obtain l cl r where t: "?t = Nd l ?n cl key v r" using put_at_node by blast
  show ?thesis
  proof (cases cl)
    case RBTREE_COLOR_RED
    have "invc ?t" "invh ?t" "bh l = bh u" using rb t RBTREE_COLOR_RED by (cases u; auto)+
    then obtain rbt' T' where "add_fix ?rc ?n r1 = Some (?rc, rbt')" "rb_ok rbt' T'" "rb_root rbt' = rptr T'" "red_black T'" "inord T' = inord (plug fs ?t)" "same_values r1 rbt'"
      using add_fix_ok [of r1 fs l ?n key v r ?rc] ok root rb(2,5) t RBTREE_COLOR_RED by auto
    then show ?thesis using run cut(1,3) r1(4,6) by (intro exI [of _ rbt'] exI [of _ T']) (simp add: same_values_def rb_conf_def new_red_def)
  next
    case RBTREE_COLOR_BLACK
    then have u: "u \<noteq> Tip" "col u = RBTREE_COLOR_BLACK" "bh ?t = bh u" using t by (cases u; auto)+
    let ?r2 = "if fs = [] then r1\<lparr>rb_root := Some ?n\<rparr> else r1"
    have i: "invc ?t" "invh ?t" using rb(1,4) u(1) by (cases u; simp)+
    have "rb_nodes r1 ?n = Some (mk_node RBTREE_COLOR_BLACK key v (rptr l) (rptr r) (top_ptr fs))" using heap_at_node [OF r1(2) [unfolded t RBTREE_COLOR_BLACK]] by simp
    then have "add_fix ?rc ?n r1 = Some (?rc, ?r2)" using cut(2) u(1) by (cases fs) (simp_all add: add_fix_def)
    moreover have "red_black (plug fs ?t)" using plug_invc [OF rb(2) i(1)] plug_invh [of fs ?t] i(2) rb(5) u(3) t RBTREE_COLOR_BLACK by (simp add: red_black_def)
    moreover have "rb_ok ?r2 (plug fs ?t)" using ok by (auto simp: if_split [of "\<lambda>r. rb_ok r _"])
    moreover have "rb_root ?r2 = rptr (plug fs ?t)" using root t by auto
    ultimately show ?thesis using run cut(1,3) r1(4,6) by (intro exI [of _ ?r2] exI [of _ "plug fs ?t"]) (simp add: rb_conf_def new_red_def)
  qed
qed

lemma find_internal_ok:
  assumes "t_at (rb_nodes rbt) p t" and "compares rbt" and "fst ` set (inord t) \<subseteq> K" and "key \<in> K"
  shows "rbt_find_internal rbt (rptr t) key (length key) = Some (rptr (snd (way_to cmp key t fs)))"
  using assms
proof (induction t arbitrary: p fs)
  case (Nd l a c k v r)
  have K: "k \<in> K" "fst ` set (inord l) \<subseteq> K" "fst ` set (inord r) \<subseteq> K" using Nd.prems(3) by auto
  then have "rbt_compare_keys rbt k (length k) key (length key) = Some (cmp k key)" using Nd.prems(2,4) by (simp add: compares_def)
  then show ?case using Nd.IH(1) [of "Some a" "FL a c k v r # fs", OF _ Nd.prems(2) K(2) Nd.prems(4)] Nd.IH(2) [of "Some a" "FR l a c k v # fs", OF _ Nd.prems(2) K(3) Nd.prems(4)] Nd.prems(1)
    by (simp add: rbt_find_internal.simps [of _ "Some a"])
qed (simp add: rbt_find_internal.simps)

lemma rbt_find_ok:
  assumes "rb_ok rbt T" and "rb_root rbt = rptr T" and "key \<in> K"
  shows "rbt_find rbt key (length key) = Some (case al_lookup cmp key (inord T) of None \<Rightarrow> (- 1, None) | Some v \<Rightarrow> (0, Some v))"
proof -
  obtain fs u where g: "way_to cmp key T [] = (fs, u)" by fastforce
  have T: "heap_at (rb_nodes rbt) [] T" "compares rbt" "ascending cmp (inord T)" "fst ` set (inord T) \<subseteq> K" using assms(1) by (auto simp: rb_ok_def)
  have f: "rbt_find_internal rbt (rb_root rbt) key (length key) = Some (rptr u)" using find_internal_ok [OF _ T(2,4) assms(3), of None "[]"] T(1) assms(2) g by (simp add: heap_at_def)
  have "heap_at (rb_nodes rbt) fs u" using T(1) way_plug [OF g] heap_plug [of mk_node "rb_nodes rbt" fs u] by simp
  then show ?thesis using f way_cut [OF g T(3,4) assms(3)] by (cases u) (auto simp: rbt_find_def heap_at_def)
qed

end

section \<open>Walking and destroying\<close>

text \<open>A callback that always asks to go on sees the entries in ascending order, and the walk counts them.\<close>

definition goes_on :: "(byte list \<Rightarrow> nat \<Rightarrow> 'u \<Rightarrow> int \<times> 'u) \<Rightarrow> bool" where
  "goes_on cb \<longleftrightarrow> (\<forall>k v u. fst (cb k v u) \<notin> {RBT_WALK_STOP, RBT_WALK_DELETE_AND_CONTINUE, RBT_WALK_DELETE_AND_STOP})"

lemma walk_internal_ok:
  assumes "t_at (rb_nodes rbt) p t" and "t \<noteq> Tip" and "goes_on cb" and "int (length (inord t)) \<le> INT_MAX"
  shows "rbt_walk_internal cb True (rptr t) u rbt = Some (int (length (inord t)), visit cb (inord t) u, rbt)"
  using assms
proof (induction t arbitrary: p u)
  case (Nd l a c k v r)
  let ?u = "visit cb (inord l) u"
  obtain rc u' where cb: "cb k v ?u = (rc, u')" "rc \<notin> {RBT_WALK_STOP, RBT_WALK_DELETE_AND_CONTINUE, RBT_WALK_DELETE_AND_STOP}"
    using Nd.prems(3) by (metis goes_on_def prod.collapse)
  have ck: "ck (int n) = Some (int n)" if "n \<le> length (inord l) + length (inord r) + 1" for n using Nd.prems(4) that by (intro ck_Some) simp_all
  have len: "l \<noteq> Tip \<Longrightarrow> length (inord l) \<noteq> 0" "r \<noteq> Tip \<Longrightarrow> length (inord r) \<noteq> 0" by (cases l; cases r; simp)+
  have L: "rbt_walk_internal cb True (rptr l) u rbt = Some (int (length (inord l)), ?u, rbt)" if "l \<noteq> Tip" using Nd.IH(1) [of "Some a" u] Nd.prems that by simp
  have R: "rbt_walk_internal cb True (rptr r) u' rbt = Some (int (length (inord r)), visit cb (inord r) u', rbt)" if "r \<noteq> Tip" using Nd.IH(2) [of "Some a" u'] Nd.prems that by simp
  have v: "visit cb (inord (Nd l a c k v r)) u = visit cb (inord r) u'" using cb(1) by simp
  have e: "rptr t = None \<longleftrightarrow> t = Tip" for t :: rtree by (cases t) auto
  show ?case
    using Nd.prems(1) cb L R len ck [of "length (inord l) + 1"] ck [of "length (inord l) + length (inord r) + 1"] ck [of 1] e v
    by (cases "l = Tip"; cases "r = Tip") (simp_all add: rbt_walk_internal.simps [of _ _ "Some a"] add.commute add.left_commute)
qed simp

lemma destroy_internal_ok:
  assumes "t_at (rb_nodes rbt) p t" and "distinct (taddrs t)"
  shows "\<exists>rbt'. rbt_destroy_internal (rptr t) rbt = Some rbt' \<and> rb_nodes rbt' = rb_nodes rbt |` (- set (taddrs t)) \<and>
    rb_free_value_cb rbt' = rb_free_value_cb rbt \<and> mset (rb_freed rbt') = mset (rb_freed rbt) + (if rb_free_value_cb rbt then mset (map snd (inord t)) else {#})"
  using assms
proof (induction t arbitrary: p rbt)
  case (Nd l a c k v r)
  have d: "distinct (taddrs l)" "distinct (taddrs r)" "a \<notin> set (taddrs l)" "a \<notin> set (taddrs r)" "set (taddrs l) \<inter> set (taddrs r) = {}" using Nd.prems(2) by auto
  have h: "rb_nodes rbt a = Some (mk_node c k v (rptr l) (rptr r) p)" using Nd.prems(1) by simp
  from Nd.IH(1) [of rbt "Some a"] Nd.prems(1) d(1) obtain r1 where r1: "rbt_destroy_internal (rptr l) rbt = Some r1" "rb_nodes r1 = rb_nodes rbt |` (- set (taddrs l))"
    "rb_free_value_cb r1 = rb_free_value_cb rbt" "mset (rb_freed r1) = mset (rb_freed rbt) + (if rb_free_value_cb rbt then mset (map snd (inord l)) else {#})" by auto
  have "t_at (rb_nodes r1) (Some a) r = t_at (rb_nodes rbt) (Some a) r" using r1(2) d(5) by (intro t_at_cong) (auto simp: restrict_map_def)
  from Nd.IH(2) [of r1 "Some a"] this Nd.prems(1) d(2) obtain r2 where r2: "rbt_destroy_internal (rptr r) r1 = Some r2" "rb_nodes r2 = rb_nodes r1 |` (- set (taddrs r))"
    "rb_free_value_cb r2 = rb_free_value_cb r1" "mset (rb_freed r2) = mset (rb_freed r1) + (if rb_free_value_cb r1 then mset (map snd (inord r)) else {#})" by auto
  have n: "rb_nodes r1 a = Some (mk_node c k v (rptr l) (rptr r) p)" "rb_nodes r2 a = Some (mk_node c k v (rptr l) (rptr r) p)" using h r1(2) r2(2) d(3,4) by simp_all
  let ?r = "(free_value True v r2)\<lparr>rb_nodes := (rb_nodes r2)(a := None)\<rparr>"
  have "rbt_destroy_internal (Some a) rbt = Some ?r" using h n r1(1) r2(1) by (simp add: rbt_destroy_internal.simps [of "Some a"] free_rbn_def free_value_def)
  moreover have "(rb_nodes r2)(a := None) = rb_nodes rbt |` (- set (taddrs (Nd l a c k v r)))" using r1(2) r2(2) by (auto simp: fun_eq_iff restrict_map_def)
  ultimately show ?case using r1(3,4) r2(3,4) by (intro exI [of _ ?r]) (auto simp: free_value_def)
qed (simp add: rbt_destroy_internal.simps restrict_map_def)

end
