(* ===== verification/Rbtree_Life.thy ===== *)
theory Rbtree_Life
  imports Rbtree_Map
begin

text \<open>
  A red-black tree from its creation to its destruction, under any sequence of calls, and the calls of \<open>rbt_remove\<close> that
  break the tree.
\<close>

section \<open>The depth\<close>

lemma depth_bh: "invc t \<Longrightarrow> invh t \<Longrightarrow> depth t \<le> 2 * bh t + (if col t = RBTREE_COLOR_RED then 1 else 0)"
proof (induction t)
  case (Nd l a c k v r)
  then have "depth l \<le> 2 * bh l + (if col l = RBTREE_COLOR_RED then 1 else 0)" "depth r \<le> 2 * bh l + (if col r = RBTREE_COLOR_RED then 1 else 0)" by auto
  then show ?case using Nd.prems by (cases c; cases "col l"; cases "col r") auto
qed simp

lemma bh_entries: "invh t \<Longrightarrow> 2 ^ bh t \<le> Suc (length (inord t))"
  by (induction t) auto

lemma depth_log: "red_black t \<Longrightarrow> 2 ^ (depth t div 2) \<le> Suc (length (inord t))"
proof -
  assume t: "red_black t"
  then have "depth t div 2 \<le> bh t" using depth_bh [of t] by (auto simp: red_black_def)
  then have "(2 :: nat) ^ (depth t div 2) \<le> 2 ^ bh t" by (simp add: power_increasing)
  also have "\<dots> \<le> Suc (length (inord t))" using t bh_entries by (simp add: red_black_def)
  finally show ?thesis .
qed

section \<open>Calls and their answers\<close>

datatype rb_call = R_add "byte list" nat | R_find "byte list" | R_remove bool "byte list"

datatype rb_answer = R_code int | R_found int "nat option"

fun rb_exec :: "rb_call \<Rightarrow> rbt_t \<Rightarrow> (rb_answer \<times> rbt_t) option" where
  "rb_exec (R_add k v) rbt = map_option (\<lambda>(rc, rbt). (R_code rc, rbt)) (rbt_add k (length k) v rbt)"
| "rb_exec (R_find k) rbt = map_option (\<lambda>(rc, v). (R_found rc v, rbt)) (rbt_find rbt k (length k))"
| "rb_exec (R_remove want k) rbt = map_option (\<lambda>(rc, v, rbt). (R_found rc v, rbt)) (rbt_remove want k (length k) rbt)"

text \<open>The specification on the sorted list and the released values; a removal is specified where the key is absent.\<close>

fun rb_spec :: "(byte list \<Rightarrow> byte list \<Rightarrow> int) \<Rightarrow> bool \<Rightarrow> rb_call \<Rightarrow> (byte list \<times> nat) list \<times> nat list \<Rightarrow> (rb_answer \<times> (byte list \<times> nat) list \<times> nat list) option" where
  "rb_spec cmp cb (R_add k v) (E, F) = Some (case al_lookup cmp k E of
     None \<Rightarrow> (R_code 0, al_put cmp k v E, F)
   | Some v' \<Rightarrow> (R_code 1, al_put cmp k v E, F @ (if v \<noteq> v' \<and> cb then [v'] else [])))"
| "rb_spec cmp cb (R_find k) (E, F) = Some (case al_lookup cmp k E of None \<Rightarrow> (R_found (- 1) None, E, F) | Some v \<Rightarrow> (R_found 0 (Some v), E, F))"
| "rb_spec cmp cb (R_remove want k) (E, F) = (case al_lookup cmp k E of None \<Rightarrow> Some (R_found (- 1) None, E, F) | Some v \<Rightarrow> None)"

fun call_key :: "rb_call \<Rightarrow> byte list" where
  "call_key (R_add k v) = k"
| "call_key (R_find k) = k"
| "call_key (R_remove want k) = k"

context byte_key_order
begin

definition rb_rel :: "bool \<Rightarrow> rbt_t \<Rightarrow> (byte list \<times> nat) list \<times> nat list \<Rightarrow> bool" where
  "rb_rel cb rbt = (\<lambda>(E, F). \<exists>T. rb_ok rbt T \<and> rb_root rbt = rptr T \<and> red_black T \<and> inord T = E \<and> rb_free_value_cb rbt = cb \<and> rb_freed rbt = F)"

lemma remove_absent:
  assumes "rb_ok rbt T" and "rb_root rbt = rptr T" and "key \<in> K" and "al_lookup cmp key (inord T) = None"
  shows "rbt_remove want key (length key) rbt = Some (- 1, None, rbt)"
proof -
  obtain fs u where g: "way_to cmp key T [] = (fs, u)" by fastforce
  have T: "heap_at (rb_nodes rbt) [] T" "compares rbt" "ascending cmp (inord T)" "fst ` set (inord T) \<subseteq> K" using assms(1) by (auto simp: rb_ok_def)
  have "u = Tip" using way_cut [OF g T(3,4) assms(3)] assms(4) by (cases u) auto
  then have "rbt_find_internal rbt (rb_root rbt) key (length key) = Some None"
    using find_internal_ok [OF _ T(2,4) assms(3), of None "[]"] T(1) assms(2) g by (simp add: heap_at_def)
  then show ?thesis by (simp add: rbt_remove_def)
qed

lemma rb_exec_ok:
  assumes "rb_rel cb rbt (E, F)" and "call_key c \<in> K" and "rb_spec cmp cb c (E, F) = Some (a, s)"
  shows "\<exists>rbt'. rb_exec c rbt = Some (a, rbt') \<and> rb_rel cb rbt' s"
proof -
  obtain T where T: "rb_ok rbt T" "rb_root rbt = rptr T" "red_black T" "inord T = E" "rb_free_value_cb rbt = cb" "rb_freed rbt = F" using assms(1) by (auto simp: rb_rel_def)
  show ?thesis
  proof (cases c)
    case (R_add k v)
    from rbt_add_ok [OF T(1-3), of k v] R_add assms(2) obtain rbt' T' where "rbt_add k (length k) v rbt = Some (if al_lookup cmp k E = None then 0 else 1, rbt')" "rb_ok rbt' T'" "rb_root rbt' = rptr T'"
      "red_black T'" "inord T' = al_put cmp k v E" "rb_free_value_cb rbt' = cb" "rb_freed rbt' = F @ (case al_lookup cmp k E of None \<Rightarrow> [] | Some v' \<Rightarrow> if v \<noteq> v' \<and> cb then [v'] else [])"
      using T(4-6) by auto
    then show ?thesis using R_add assms(3) by (cases "al_lookup cmp k E") (auto simp: rb_rel_def)
  next
    case (R_find k)
    then show ?thesis using rbt_find_ok [OF T(1,2), of k] assms T(4) by (auto split: option.splits)
  next
    case (R_remove want k)
    then show ?thesis using remove_absent [OF T(1,2), of k] assms T(4) by (auto split: option.splits)
  qed
qed

lemma rb_run_ok:
  assumes "rb_rel cb rbt s" and "\<forall>c \<in> set calls. call_key c \<in> K" and "calls_run (rb_spec cmp cb) calls s = Some (as, t)"
  shows "\<exists>rbt'. calls_run rb_exec calls rbt = Some (as, rbt') \<and> rb_rel cb rbt' t"
  using assms
proof (induction calls arbitrary: rbt s as)
  case (Cons c calls)
  obtain E F where s: "s = (E, F)" by fastforce
  from Cons.prems(3) obtain a s' bs where a: "rb_spec cmp cb c s = Some (a, s')" "calls_run (rb_spec cmp cb) calls s' = Some (bs, t)" "as = a # bs" by (auto simp: bind_eq_Some_conv)
  from rb_exec_ok [of cb rbt E F c a s'] Cons.prems(1,2) a(1) s obtain r1 where r1: "rb_exec c rbt = Some (a, r1)" "rb_rel cb r1 s'" by auto
  from Cons.IH [OF r1(2) _ a(2)] Cons.prems(2) show ?case using r1(1) a(3) by auto
qed simp

end

lemma rb_spec_length: "calls_run (rb_spec cmp cb) calls (E, F) = Some (as, E', F') \<Longrightarrow> length E' \<le> length E + length calls"
proof (induction calls arbitrary: E F as)
  case (Cons c calls)
  then obtain a E1 F1 bs where a: "rb_spec cmp cb c (E, F) = Some (a, E1, F1)" "calls_run (rb_spec cmp cb) calls (E1, F1) = Some (bs, E', F')" by (auto simp: bind_eq_Some_conv)
  have "length E1 \<le> Suc (length E)" using a(1) al_put_length by (cases c) (auto split: option.splits)
  then show ?case using Cons.IH [OF a(2)] by simp
qed simp

text \<open>
  \<open>C6\<close>: a red-black tree refines a sorted map. For every sequence of calls of \<open>rbt_add\<close>, \<open>rbt_find\<close> and of \<open>rbt_remove\<close>
  for absent keys: \<open>rbt_add\<close> returns 0 and adds a new key, or returns 1, replaces the entry and releases the old value;
  \<open>rbt_find\<close> gives the value, and -1 exactly if the key is not there. After them the store holds a red-black tree whose entries are
  those of the map, so that its depth is logarithmic in their number; \<open>rbt_walk_sorted\<close> visits them in ascending order and
  counts them; \<open>rbt_destroy\<close> releases every node and every value.
\<close>

theorem rbt_refines_sorted_map:
  assumes "key_order cmp K" and "rbt_create False cmp_cb cb (\<lambda>_. False) = Some rbt"
    and "\<forall>x \<in> K. \<forall>y \<in> K. rbt_compare_keys rbt x (length x) y (length y) = Some (cmp x y)"
    and "\<forall>c \<in> set calls. call_key c \<in> K" and "calls_run (rb_spec cmp cb) calls ([], []) = Some (as, E, F)"
    and "int (length calls) \<le> INT_MAX" and "goes_on w"
  shows "\<exists>rbt1 T rbt2. calls_run rb_exec calls rbt = Some (as, rbt1) \<and> rb_freed rbt1 = F \<and>
    heap_at (rb_nodes rbt1) [] T \<and> rb_root rbt1 = rptr T \<and> red_black T \<and> inord T = E \<and> 2 ^ (depth T div 2) \<le> Suc (length E) \<and>
    rbt_walk_sorted w u rbt1 = Some (int (length E), visit w E u, rbt1) \<and>
    rbt_destroy rbt1 = Some rbt2 \<and> rb_nodes rbt2 = Map.empty \<and> mset (rb_freed rbt2) = mset F + (if cb then mset (map snd E) else {#})"
proof -
  note ord = byte_key_order.intro [OF assms(1)]
  have c: "byte_key_order.compares cmp K rbt" using assms(3) ord by (simp add: byte_key_order.compares_def)
  have "byte_key_order.rb_rel cmp K cb rbt ([], [])" using assms(2) c ord
    by (auto simp: byte_key_order.rb_rel_def byte_key_order.rb_ok_def rbt_create_def heap_at_def ascending_def red_black_def intro!: exI [of _ Tip])
  from byte_key_order.rb_run_ok [OF ord this assms(4,5)] obtain rbt1 T where r: "calls_run rb_exec calls rbt = Some (as, rbt1)" "byte_key_order.rb_ok cmp K rbt1 T"
    "rb_root rbt1 = rptr T" "red_black T" "inord T = E" "rb_free_value_cb rbt1 = cb" "rb_freed rbt1 = F" using ord by (auto simp: byte_key_order.rb_rel_def)
  have T: "heap_at (rb_nodes rbt1) [] T" "dom (rb_nodes rbt1) = set (taddrs T)" using r(2) ord by (auto simp: byte_key_order.rb_ok_def)
  then have t: "t_at (rb_nodes rbt1) None T" "distinct (taddrs T)" by (auto simp: heap_at_def)
  have "length E \<le> length calls" using rb_spec_length [OF assms(5)] by simp
  then have w: "rbt_walk_sorted w u rbt1 = Some (int (length E), visit w E u, rbt1)"
    using walk_internal_ok [OF t(1) _ assms(7), of u] assms(6) r(3,5) by (cases T) (auto simp: rbt_walk_sorted_def)
  from destroy_internal_ok [OF t] obtain rbt2 where d: "rbt_destroy rbt1 = Some rbt2" "rb_nodes rbt2 = rb_nodes rbt1 |` (- set (taddrs T))"
    "mset (rb_freed rbt2) = mset F + (if cb then mset (map snd E) else {#})" using r(3,5-7) by (auto simp: rbt_destroy_def)
  have "rb_nodes rbt2 = Map.empty" using d(2) T(2) by (auto simp: fun_eq_iff restrict_map_def)
  then show ?thesis using r T(1) w d(1,3) depth_log [OF r(4)] by blast
qed

theorem rbt_refines_sorted_map_witness:
  "\<exists>rbt rbt1. rbt_create False (Some libhl_cmp_keys_int16) True (\<lambda>_. False) = Some rbt \<and>
    calls_run rb_exec [R_add [3, 0] 7, R_add [1, 0] 8, R_add [3, 0] 9, R_find [3, 0], R_find [2, 0]] rbt
      = Some ([R_code 0, R_code 0, R_code 1, R_found 0 (Some 9), R_found (- 1) None], rbt1) \<and>
    rbt_walk_sorted (\<lambda>k v u. (1, u @ [v])) [] rbt1 = Some (2, [8, 9], rbt1)"
proof -
  let ?cmp = "cmp_keys libhl_cmp_keys_int16" and ?calls = "[R_add [3, 0] 7, R_add [1, 0] 8, R_add [3, 0] 9, R_find [3, 0], R_find [2, 0]]"
  let ?w = "\<lambda>(k :: byte list) (v :: nat) u. (1 :: int, u @ [v])"
  obtain rbt where rbt: "rbt_create False (Some libhl_cmp_keys_int16) True (\<lambda>_. False) = Some rbt" by (simp add: rbt_create_def)
  have cb: "rb_cmp_keys_cb rbt = Some libhl_cmp_keys_int16" using rbt by (auto simp: rbt_create_def)
  have d: "\<forall>x \<in> small_keys. \<forall>y \<in> small_keys. rbt_compare_keys rbt x (length x) y (length y) = Some (?cmp x y)"
    by (intro ballI) (simp only: rbt_compare_keys_def cb option.case int16_defined)
  have c: "?cmp [1, 0] [1, 0] = 0" "?cmp [3, 0] [3, 0] = 0" "?cmp [1, 0] [3, 0] = - 2" "?cmp [3, 0] [1, 0] = 2" "?cmp [1, 0] [2, 0] = - 1" "?cmp [3, 0] [2, 0] = 1" by code_simp+
  have k: "\<forall>c \<in> set ?calls. call_key c \<in> small_keys" "int (length ?calls) \<le> INT_MAX" "goes_on ?w"
    by (simp_all add: small_keys_def goes_on_def RBT_WALK_STOP_def RBT_WALK_DELETE_AND_CONTINUE_def RBT_WALK_DELETE_AND_STOP_def)
  have r: "calls_run (rb_spec ?cmp True) ?calls ([], []) = Some ([R_code 0, R_code 0, R_code 1, R_found 0 (Some 9), R_found (- 1) None], [([1, 0], 8), ([3, 0], 9)], [7])"
    using c by simp
  from rbt_refines_sorted_map [OF int16.key_order_axioms rbt d k(1) r k(2,3), of "[]"] rbt show ?thesis by auto
qed

section \<open>Where the operations fall short\<close>

text \<open>The trees below have the default comparator.\<close>

definition rb_try :: "(nat \<Rightarrow> bool) \<Rightarrow> rb_call list \<Rightarrow> (rb_answer list \<times> rbt_t) option" where
  "rb_try fail calls = Option.bind (rbt_create False None True fail) (calls_run rb_exec calls)"

text \<open>The node is released, but the tree still has it as its root: the next search reads a node that is gone.\<close>

lemma last_key_dangles:
  "map_option fst (rb_try (\<lambda>_. False) [R_add [1] 7, R_remove True [1]]) = Some [R_code 0, R_found 0 (Some 7)]"
  "rb_try (\<lambda>_. False) [R_add [1] 7, R_remove True [1], R_find [1]] = None"
  by code_simp+

text \<open>The same where the root has one child.\<close>

lemma root_with_child_dangles:
  "map_option fst (rb_try (\<lambda>_. False) [R_add [1] 7, R_add [2] 8, R_remove True [1]]) = Some [R_code 0, R_code 0, R_found 0 (Some 7)]"
  "rb_try (\<lambda>_. False) [R_add [1] 7, R_add [2] 8, R_remove True [1], R_find [2]] = None"
  by code_simp+

text \<open>With two children the node takes the key of its neighbour but keeps the length of its own one: the key that was moved is lost.\<close>

lemma length_not_moved:
  "map_option fst (rb_try (\<lambda>_. False) [R_add [5] 7, R_add [1, 1] 8, R_add [9, 9, 9] 9, R_remove True [5], R_find [1, 1]])
   = Some [R_code 0, R_code 0, R_code 0, R_found 0 (Some 7), R_found (- 1) None]"
  by code_simp

text \<open>The default comparator takes keys of different lengths for equal ones: the second insertion replaces the first entry.\<close>

lemma default_keys_collide:
  "map_option fst (rb_try (\<lambda>_. False) [R_add [3] 7, R_add [2, 2] 8, R_find [3]]) = Some [R_code 0, R_code 1, R_found 0 (Some 8)]"
  by code_simp

text \<open>The removal of a black leaf is not repaired: the paths through 1 and through 3 have different numbers of black nodes.\<close>

definition rb_shape :: "rbt_t \<Rightarrow> nat \<Rightarrow> (rbt_color_t \<times> byte list \<times> nat option \<times> nat option) option" where
  "rb_shape rbt a = map_option (\<lambda>N. (rn_color N, rn_key N, rn_left N, rn_right N)) (rb_nodes rbt a)"

lemma black_leaf_not_repaired:
  "map_option (\<lambda>(as, rbt). (rb_root rbt, rb_shape rbt 4, rb_shape rbt 0))
     (rb_try (\<lambda>_. False) [R_add [1] 1, R_add [2] 2, R_add [3] 3, R_add [4] 4, R_remove True [4], R_remove True [3]])
   = Some (Some 4, Some (RBTREE_COLOR_BLACK, [2], Some 0, None), Some (RBTREE_COLOR_BLACK, [1], None, None))"
  by code_simp

text \<open>Where the repaired grandparent cannot be allocated again, it stays red, here at the root, and the call returns 0.\<close>

lemma failed_repair_is_silent:
  "map_option (\<lambda>(as, rbt). (as, rb_root rbt, rb_shape rbt 1)) (rb_try (\<lambda>n. n = 4) [R_add [1] 1, R_add [2] 2, R_add [3] 3, R_add [4] 4])
   = Some ([R_code 0, R_code 0, R_code 0, R_code 0], Some 1, Some (RBTREE_COLOR_RED, [2], Some 0, Some 2))"
  by code_simp

text \<open>A walk that is asked to delete a node without two children and to go on leaves it in the tree.\<close>

lemma walk_does_not_delete:
  "Option.bind (rb_try (\<lambda>_. False) [R_add [1] 7]) (\<lambda>(as, rbt). Option.bind (rbt_walk_sorted (\<lambda>k v u. (RBT_WALK_DELETE_AND_CONTINUE, u @ [v])) [] rbt)
     (\<lambda>(rc, u, rbt). map_option (\<lambda>r. (rc, u, r)) (rbt_find rbt [1] 1)))
   = Some (1, [7], 0, Some 7)"
  by code_simp

end
