(* ===== verification/Avltree.thy ===== *)
theory Avltree
  imports Comparators
begin

text \<open>
  Model of \<open>src/src/avltree.c\<close>: AVL trees of nodes with pointers to the children and to the parent and with the heights of
  the two subtrees. The nodes live in a store; a key is a block of bytes with its length beside it. Values are addresses, 0 is
  NULL; the calls of the release callback are recorded in \<open>av_freed\<close>. The code does not look at the results of its
  allocations: where \<open>av_fail\<close> lets one fail, it writes through NULL and the result is \<open>None\<close>. The heights are
  kept as integers without a bound, since a height that overflows an \<open>int\<close> takes more than 2^31 nodes.
\<close>

section \<open>Data\<close>

record avlt_node_t =
  an_key :: "byte list"
  an_klen :: nat
  an_value :: nat
  an_left :: "nat option"
  an_right :: "nat option"
  an_parent :: "nat option"
  an_hl :: int
  an_hr :: int

record avlt_t =
  av_num_nodes :: int
  av_root :: "nat option"
  av_cmp_keys_cb :: "cmp_callback option"
  av_free_value_cb :: bool
  av_nodes :: "nat \<rightharpoonup> avlt_node_t"
  av_brk :: nat
  av_fail :: "nat \<Rightarrow> bool"
  av_freed :: "nat list"

definition upd_avn :: "nat \<Rightarrow> (avlt_node_t \<Rightarrow> avlt_node_t) \<Rightarrow> avlt_t \<Rightarrow> avlt_t option" where
  "upd_avn a f tree = (case av_nodes tree a of None \<Rightarrow> None | Some n \<Rightarrow> Some (tree\<lparr>av_nodes := (av_nodes tree)(a \<mapsto> f n)\<rparr>))"

definition set_avparent :: "nat option \<Rightarrow> nat option \<Rightarrow> avlt_t \<Rightarrow> avlt_t option" where
  "set_avparent n p tree = (case n of None \<Rightarrow> Some tree | Some a \<Rightarrow> upd_avn a (an_parent_update (\<lambda>_. p)) tree)"

text \<open>A call of the comparator of the tree; a tree without one calls NULL.\<close>

definition av_cmp :: "avlt_t \<Rightarrow> cmp_callback" where
  "av_cmp tree k1 l1 k2 l2 = do { cmp \<leftarrow> av_cmp_keys_cb tree; cmp k1 l1 k2 l2 }"

definition cmp_keys_default_cb :: cmp_callback where
  "cmp_keys_default_cb k1 k1l k2 k2l =
     (if k1l \<noteq> k2l then
        if k2l > k1l then map_option (\<lambda>c. signed_take_bit 31 (c - (int k2l - int k1l))) (memcmp_n k1 k2 k1l)
        else map_option (\<lambda>c. signed_take_bit 31 (c + (int k1l - int k2l))) (memcmp_n k1 k2 k2l)
      else memcmp_n k1 k2 k1l)"

definition avlt_create :: "bool \<Rightarrow> cmp_callback option \<Rightarrow> bool \<Rightarrow> (nat \<Rightarrow> bool) \<Rightarrow> avlt_t option" where
  "avlt_create oom cmp cb fail =
     (if oom then None
      else Some \<lparr>av_num_nodes = 0, av_root = None, av_cmp_keys_cb = cmp, av_free_value_cb = cb, av_nodes = Map.empty, av_brk = 0,
             av_fail = fail, av_freed = []\<rparr>)"

section \<open>Rotations\<close>

definition node_height :: "avlt_node_t \<Rightarrow> int" where
  "node_height N = max (an_hl N) (an_hr N) + 1"

definition height_of :: "avlt_t \<Rightarrow> nat option \<Rightarrow> int option" where
  "height_of tree n = (case n of None \<Rightarrow> Some 0 | Some a \<Rightarrow> map_option node_height (av_nodes tree a))"

definition avlt_rotate_left :: "nat \<Rightarrow> avlt_t \<Rightarrow> avlt_t option" where
  "avlt_rotate_left node tree = do {
     N \<leftarrow> av_nodes tree node;
     case an_right N of
       None \<Rightarrow> Some tree
     | Some right \<Rightarrow> do {
         R \<leftarrow> av_nodes tree right;
         let rl = an_left R;
         let parent = an_parent N;
         tree \<leftarrow> upd_avn right (an_left_update (\<lambda>_. Some node)) tree;
         tree \<leftarrow> upd_avn node (an_parent_update (\<lambda>_. Some right)) tree;
         tree \<leftarrow> upd_avn right (an_parent_update (\<lambda>_. parent)) tree;
         tree \<leftarrow> upd_avn node (\<lambda>n. n\<lparr>an_right := rl, an_hr := 0\<rparr>) tree;
         tree \<leftarrow> (case rl of None \<Rightarrow> Some tree
           | Some a \<Rightarrow> do {
               tree \<leftarrow> set_avparent rl (Some node) tree;
               h \<leftarrow> height_of tree rl;
               upd_avn node (an_hr_update (\<lambda>_. h)) tree
             });
         h \<leftarrow> height_of tree (Some node);
         tree \<leftarrow> upd_avn right (an_hl_update (\<lambda>_. h)) tree;
         case parent of
           None \<Rightarrow> Some tree
         | Some p \<Rightarrow> do {
             P \<leftarrow> av_nodes tree p;
             h \<leftarrow> height_of tree (Some right);
             if an_left P = Some node then upd_avn p (\<lambda>n. n\<lparr>an_left := Some right, an_hl := h\<rparr>) tree
             else upd_avn p (\<lambda>n. n\<lparr>an_right := Some right, an_hr := h\<rparr>) tree
           }
       }
   }"

definition avlt_rotate_right :: "nat \<Rightarrow> avlt_t \<Rightarrow> avlt_t option" where
  "avlt_rotate_right node tree = do {
     N \<leftarrow> av_nodes tree node;
     case an_left N of
       None \<Rightarrow> Some tree
     | Some left \<Rightarrow> do {
         L \<leftarrow> av_nodes tree left;
         let lr = an_right L;
         let parent = an_parent N;
         tree \<leftarrow> upd_avn left (an_right_update (\<lambda>_. Some node)) tree;
         tree \<leftarrow> upd_avn node (an_parent_update (\<lambda>_. Some left)) tree;
         tree \<leftarrow> upd_avn left (an_parent_update (\<lambda>_. parent)) tree;
         tree \<leftarrow> upd_avn node (\<lambda>n. n\<lparr>an_left := lr, an_hl := 0\<rparr>) tree;
         tree \<leftarrow> (case lr of None \<Rightarrow> Some tree
           | Some a \<Rightarrow> do {
               tree \<leftarrow> set_avparent lr (Some node) tree;
               h \<leftarrow> height_of tree lr;
               upd_avn node (an_hl_update (\<lambda>_. h)) tree
             });
         h \<leftarrow> height_of tree (Some node);
         tree \<leftarrow> upd_avn left (an_hr_update (\<lambda>_. h)) tree;
         case parent of
           None \<Rightarrow> Some tree
         | Some p \<Rightarrow> do {
             P \<leftarrow> av_nodes tree p;
             h \<leftarrow> height_of tree (Some left);
             if an_right P = Some node then upd_avn p (\<lambda>n. n\<lparr>an_right := Some left, an_hr := h\<rparr>) tree
             else upd_avn p (\<lambda>n. n\<lparr>an_left := Some left, an_hl := h\<rparr>) tree
           }
       }
   }"

section \<open>Nodes and balance\<close>

definition avlt_node_destroy :: "nat \<Rightarrow> bool \<Rightarrow> avlt_t \<Rightarrow> avlt_t option" where
  "avlt_node_destroy node cb tree = do {
     N \<leftarrow> av_nodes tree node;
     Some (tree\<lparr>av_freed := av_freed tree @ (if an_value N \<noteq> 0 \<and> cb then [an_value N] else []), av_nodes := (av_nodes tree)(node := None)\<rparr>)
   }"

definition avlt_node_create :: "byte list \<Rightarrow> nat \<Rightarrow> nat \<Rightarrow> avlt_t \<Rightarrow> (nat \<times> avlt_t) option" where
  "avlt_node_create key klen value tree =
     (if av_fail tree (av_brk tree) \<or> length key < klen then None
      else Some (av_brk tree, tree\<lparr>av_nodes := (av_nodes tree)(av_brk tree \<mapsto> \<lparr>an_key = take klen key, an_klen = klen, an_value = value,
             an_left = None, an_right = None, an_parent = None, an_hl = 0, an_hr = 0\<rparr>), av_brk := Suc (av_brk tree)\<rparr>))"

definition balance_factor :: "avlt_t \<Rightarrow> nat \<Rightarrow> int option" where
  "balance_factor tree node = map_option (\<lambda>N. an_hl N - an_hr N) (av_nodes tree node)"

text \<open>The child on the heavy side is turned first where it is heavy on the other side.\<close>

definition turn_child :: "int \<Rightarrow> (nat \<Rightarrow> avlt_t \<Rightarrow> avlt_t option) \<Rightarrow> nat option \<Rightarrow> avlt_t \<Rightarrow> avlt_t option" where
  "turn_child bf rot child tree = (case child of
     None \<Rightarrow> Some tree
   | Some c \<Rightarrow> do { b \<leftarrow> balance_factor tree c; if b = bf then rot c tree else Some tree })"

definition fix_root :: "nat \<Rightarrow> avlt_t \<Rightarrow> avlt_t option" where
  "fix_root node tree = do {
     N \<leftarrow> av_nodes tree node;
     Some (if av_root tree = Some node then tree\<lparr>av_root := an_parent N\<rparr> else tree)
   }"

partial_function (option) avlt_balance :: "nat option \<Rightarrow> avlt_t \<Rightarrow> avlt_t option" where
  "avlt_balance n tree = (case n of
     None \<Rightarrow> Some tree
   | Some node \<Rightarrow> do {
       N \<leftarrow> av_nodes tree node;
       hl \<leftarrow> height_of tree (an_left N);
       hr \<leftarrow> height_of tree (an_right N);
       tree \<leftarrow> upd_avn node (\<lambda>n. n\<lparr>an_hl := hl, an_hr := hr\<rparr>) tree;
       if hl - hr \<le> - 2 \<or> 2 \<le> hl - hr then do {
         tree \<leftarrow> (if hl - hr \<le> - 2 then do { tree \<leftarrow> turn_child 1 avlt_rotate_right (an_right N) tree; avlt_rotate_left node tree }
                 else do { tree \<leftarrow> turn_child (- 1) avlt_rotate_left (an_left N) tree; avlt_rotate_right node tree });
         tree \<leftarrow> fix_root node tree;
         bf \<leftarrow> balance_factor tree node;
         N \<leftarrow> av_nodes tree node;
         if - 1 \<le> bf \<and> bf \<le> 1 then avlt_balance (an_parent N) tree else avlt_balance (Some node) tree
       } else avlt_balance (an_parent N) tree
     })"

section \<open>Insertion\<close>

text \<open>The compare of the key of the node \<open>a\<close> with the new key.\<close>

definition cmp_at :: "avlt_t \<Rightarrow> nat \<Rightarrow> byte list \<Rightarrow> nat \<Rightarrow> int option" where
  "cmp_at tree a key klen = do { A \<leftarrow> av_nodes tree a; av_cmp tree (an_key A) (an_klen A) key klen }"

text \<open>
  The key belongs between \<open>cur\<close> and its left child: the new node gets the place of the child, with the child below it on the
  left, and takes over the right subtree of the child if the root of that is above the key.
\<close>

definition swap_left :: "nat \<Rightarrow> nat \<Rightarrow> byte list \<Rightarrow> nat \<Rightarrow> nat \<Rightarrow> avlt_t \<Rightarrow> (nat \<times> avlt_t) option" where
  "swap_left cur left key klen value tree = do {
     (new, tree) \<leftarrow> avlt_node_create key klen value tree;
     L \<leftarrow> av_nodes tree left;
     tree \<leftarrow> upd_avn cur (an_left_update (\<lambda>_. Some new)) tree;
     tree \<leftarrow> upd_avn new (\<lambda>n. n\<lparr>an_parent := an_parent L, an_left := Some left, an_hl := node_height L\<rparr>) tree;
     tree \<leftarrow> upd_avn left (an_parent_update (\<lambda>_. Some new)) tree;
     tree \<leftarrow> (case an_right L of None \<Rightarrow> Some tree
       | Some lr \<Rightarrow> do {
           c \<leftarrow> cmp_at tree lr (take klen key) klen;
           if c > 0 then do {
             tree \<leftarrow> upd_avn new (an_right_update (\<lambda>_. Some lr)) tree;
             tree \<leftarrow> upd_avn lr (an_parent_update (\<lambda>_. Some new)) tree;
             tree \<leftarrow> upd_avn left (\<lambda>n. n\<lparr>an_right := None, an_hr := 0\<rparr>) tree;
             h \<leftarrow> height_of tree (Some lr);
             upd_avn new (an_hr_update (\<lambda>_. h)) tree
           } else Some tree
         });
     Some (left, tree)
   }"

definition swap_right :: "nat \<Rightarrow> nat \<Rightarrow> byte list \<Rightarrow> nat \<Rightarrow> nat \<Rightarrow> avlt_t \<Rightarrow> (nat \<times> avlt_t) option" where
  "swap_right cur right key klen value tree = do {
     (new, tree) \<leftarrow> avlt_node_create key klen value tree;
     R \<leftarrow> av_nodes tree right;
     tree \<leftarrow> upd_avn cur (an_right_update (\<lambda>_. Some new)) tree;
     tree \<leftarrow> upd_avn new (\<lambda>n. n\<lparr>an_parent := an_parent R, an_right := Some right, an_hr := node_height R\<rparr>) tree;
     tree \<leftarrow> upd_avn right (an_parent_update (\<lambda>_. Some new)) tree;
     tree \<leftarrow> (case an_left R of None \<Rightarrow> Some tree
       | Some rl \<Rightarrow> do {
           c \<leftarrow> cmp_at tree rl (take klen key) klen;
           if c < 0 then do {
             tree \<leftarrow> upd_avn new (an_left_update (\<lambda>_. Some rl)) tree;
             tree \<leftarrow> upd_avn rl (an_parent_update (\<lambda>_. Some new)) tree;
             tree \<leftarrow> upd_avn right (\<lambda>n. n\<lparr>an_left := None, an_hl := 0\<rparr>) tree;
             h \<leftarrow> height_of tree (Some rl);
             upd_avn new (an_hl_update (\<lambda>_. h)) tree
           } else Some tree
         });
     Some (right, tree)
   }"

text \<open>The loop gives the node from which the balance is restored, or nothing for a key that is there.\<close>

partial_function (option) add_loop :: "nat \<Rightarrow> byte list \<Rightarrow> nat \<Rightarrow> nat \<Rightarrow> avlt_t \<Rightarrow> (nat option \<times> avlt_t) option" where
  "add_loop cur key klen value tree = do {
     C \<leftarrow> av_nodes tree cur;
     c \<leftarrow> av_cmp tree key klen (an_key C) (an_klen C);
     if c < 0 then (case an_left C of
         Some left \<Rightarrow> do {
           d \<leftarrow> cmp_at tree left key klen;
           if d > 0 then add_loop left key klen value tree
           else if d < 0 then do {
             L \<leftarrow> av_nodes tree left;
             e \<leftarrow> (case an_right L of None \<Rightarrow> Some 1 | Some lr \<Rightarrow> cmp_at tree lr key klen);
             if e \<noteq> 0 then do { (cur, tree) \<leftarrow> swap_left cur left key klen value tree; Some (Some cur, tree) }
             else Some (None, tree)
           } else Some (None, tree)
         }
       | None \<Rightarrow> do {
           (new, tree) \<leftarrow> avlt_node_create key klen value tree;
           tree \<leftarrow> upd_avn cur (an_left_update (\<lambda>_. Some new)) tree;
           tree \<leftarrow> upd_avn new (an_parent_update (\<lambda>_. Some cur)) tree;
           tree \<leftarrow> upd_avn cur (\<lambda>n. n\<lparr>an_hl := an_hl n + 1\<rparr>) tree;
           Some (Some cur, tree)
         })
     else do {
       c \<leftarrow> av_cmp tree key klen (an_key C) (an_klen C);
       if c > 0 then (case an_right C of
           Some right \<Rightarrow> do {
             d \<leftarrow> cmp_at tree right key klen;
             if d < 0 then add_loop right key klen value tree
             else if d > 0 then do {
               R \<leftarrow> av_nodes tree right;
               e \<leftarrow> (case an_left R of None \<Rightarrow> Some 1 | Some rl \<Rightarrow> cmp_at tree rl key klen);
               if e \<noteq> 0 then do { (cur, tree) \<leftarrow> swap_right cur right key klen value tree; Some (Some cur, tree) }
               else Some (None, tree)
             } else Some (None, tree)
           }
         | None \<Rightarrow> do {
             (new, tree) \<leftarrow> avlt_node_create key klen value tree;
             tree \<leftarrow> upd_avn cur (an_right_update (\<lambda>_. Some new)) tree;
             tree \<leftarrow> upd_avn new (an_parent_update (\<lambda>_. Some cur)) tree;
             tree \<leftarrow> upd_avn cur (\<lambda>n. n\<lparr>an_hr := an_hr n + 1\<rparr>) tree;
             Some (Some cur, tree)
           })
       else Some (None, tree)
     }
   }"

definition avlt_add :: "byte list \<Rightarrow> nat \<Rightarrow> nat \<Rightarrow> avlt_t \<Rightarrow> (int \<times> avlt_t) option" where
  "avlt_add key klen value tree = (case av_root tree of
     None \<Rightarrow> do { (new, tree) \<leftarrow> avlt_node_create key klen value tree; Some (0, tree\<lparr>av_root := Some new\<rparr>) }
   | Some root \<Rightarrow> do {
       (cur, tree) \<leftarrow> add_loop root key klen value tree;
       case cur of None \<Rightarrow> Some (- 1, tree) | Some c \<Rightarrow> do { tree \<leftarrow> avlt_balance (Some c) tree; Some (0, tree) }
     })"

section \<open>Removal\<close>

partial_function (option) av_leftmost :: "avlt_t \<Rightarrow> nat \<Rightarrow> nat option" where
  "av_leftmost tree next = do { N \<leftarrow> av_nodes tree next; case an_left N of None \<Rightarrow> Some next | Some l \<Rightarrow> av_leftmost tree l }"

partial_function (option) av_rightmost :: "avlt_t \<Rightarrow> nat \<Rightarrow> nat option" where
  "av_rightmost tree prev = do { N \<leftarrow> av_nodes tree prev; case an_right N of None \<Rightarrow> Some prev | Some r \<Rightarrow> av_rightmost tree r }"

definition avlt_find_next :: "avlt_t \<Rightarrow> nat \<Rightarrow> nat option option" where
  "avlt_find_next tree node = do { N \<leftarrow> av_nodes tree node; case an_right N of None \<Rightarrow> Some None | Some r \<Rightarrow> map_option Some (av_leftmost tree r) }"

definition avlt_find_prev :: "avlt_t \<Rightarrow> nat \<Rightarrow> nat option option" where
  "avlt_find_prev tree node = do { N \<leftarrow> av_nodes tree node; case an_left N of None \<Rightarrow> Some None | Some l \<Rightarrow> map_option Some (av_rightmost tree l) }"

partial_function (option) av_key_loop :: "avlt_t \<Rightarrow> nat option \<Rightarrow> byte list \<Rightarrow> nat \<Rightarrow> nat option option" where
  "av_key_loop tree cur key klen = (case cur of
     None \<Rightarrow> Some None
   | Some a \<Rightarrow> do {
       A \<leftarrow> av_nodes tree a;
       c \<leftarrow> av_cmp tree (an_key A) (an_klen A) key klen;
       if c < 0 then av_key_loop tree (an_right A) key klen
       else if c > 0 then av_key_loop tree (an_left A) key klen
       else Some (Some a)
     })"

text \<open>Key and value go to \<open>p\<close>, and those of \<open>p\<close> to the node.\<close>

definition swap_contents :: "nat \<Rightarrow> nat \<Rightarrow> avlt_t \<Rightarrow> avlt_t option" where
  "swap_contents cur p tree = do {
     C \<leftarrow> av_nodes tree cur;
     P \<leftarrow> av_nodes tree p;
     tree \<leftarrow> upd_avn cur (\<lambda>n. n\<lparr>an_key := an_key P, an_klen := an_klen P, an_value := an_value P\<rparr>) tree;
     upd_avn p (\<lambda>n. n\<lparr>an_key := an_key C, an_klen := an_klen C, an_value := an_value C\<rparr>) tree
   }"

text \<open>A node with at most one child is taken out of the tree: its child gets its place below the parent or at the root.\<close>

definition hang_child :: "nat \<Rightarrow> nat \<Rightarrow> avlt_t \<Rightarrow> avlt_t option" where
  "hang_child cur p tree = do {
     C \<leftarrow> av_nodes tree cur;
     P \<leftarrow> av_nodes tree p;
     tree \<leftarrow> (if an_left P = Some cur then upd_avn p (an_left_update (\<lambda>_. if an_left C \<noteq> None then an_left C else an_right C)) tree
             else upd_avn p (an_right_update (\<lambda>_. if an_right C \<noteq> None then an_right C else an_left C)) tree);
     set_avparent (if an_left C \<noteq> None then an_left C else an_right C) (Some p) tree
   }"

definition unlink_node :: "nat \<Rightarrow> avlt_t \<Rightarrow> avlt_t option" where
  "unlink_node cur tree = do {
     C \<leftarrow> av_nodes tree cur;
     case an_parent C of
       Some p \<Rightarrow> do { tree \<leftarrow> hang_child cur p tree; avlt_balance (Some p) tree }
     | None \<Rightarrow> do {
         let child = (if an_left C \<noteq> None then an_left C else an_right C);
         tree \<leftarrow> set_avparent child None tree;
         Some (tree\<lparr>av_root := child\<rparr>)
       }
   }"

text \<open>\<open>want\<close> says that the caller passes a place for the value. The result is 0 also for a key that is not there.\<close>

definition avlt_remove :: "bool \<Rightarrow> byte list \<Rightarrow> nat \<Rightarrow> avlt_t \<Rightarrow> (int \<times> nat option \<times> avlt_t) option" where
  "avlt_remove want key klen tree = do {
     found \<leftarrow> av_key_loop tree (av_root tree) key klen;
     case found of
       None \<Rightarrow> Some (0, None, tree)
     | Some cur \<Rightarrow> do {
         C \<leftarrow> av_nodes tree cur;
         p \<leftarrow> (if an_left C \<noteq> None \<and> an_right C \<noteq> None
               then if an_hl C > an_hr C then avlt_find_prev tree cur else avlt_find_next tree cur
               else Some (Some cur));
         case p of
           None \<Rightarrow> Some (- 1, None, tree)
         | Some p \<Rightarrow> do {
             tree \<leftarrow> (if p \<noteq> cur then swap_contents cur p tree else Some tree);
             P \<leftarrow> av_nodes tree p;
             tree \<leftarrow> (if an_left P = None \<or> an_right P = None then unlink_node p tree else Some tree);
             P \<leftarrow> av_nodes tree p;
             let v = an_value P;
             tree \<leftarrow> avlt_node_destroy p (\<not> want \<and> v \<noteq> 0 \<and> av_free_value_cb tree) tree;
             Some (0, if want then Some v else None, tree)
           }
       }
   }"

section \<open>Walking\<close>

text \<open>
  The queue of the walker is a tail queue of the nodes: an element goes to its end and the first one is taken. The callback gets the
  key and the value and gives its result and the new user data; 0 ends the walk, -1 removes the node, -2 does both.
\<close>

partial_function (option) walk_loop ::
  "(byte list \<Rightarrow> nat \<Rightarrow> 'u \<Rightarrow> int \<times> 'u) \<Rightarrow> nat list \<Rightarrow> int \<Rightarrow> 'u \<Rightarrow> avlt_t \<Rightarrow> (int \<times> 'u \<times> avlt_t) option" where
  "walk_loop cb queue cnt user tree = (case queue of
     [] \<Rightarrow> Some (cnt, user, tree)
   | cur # queue \<Rightarrow> do {
       C \<leftarrow> av_nodes tree cur;
       let (ret, user) = cb (take (an_klen C) (an_key C)) (an_value C) user;
       if ret = 0 then Some (cnt, user, tree)
       else if ret = - 2 then do { (_, _, tree) \<leftarrow> avlt_remove True (an_key C) (an_klen C) tree; Some (cnt, user, tree) }
       else do {
         tree \<leftarrow> (if ret = - 1 then do { (_, _, tree) \<leftarrow> avlt_remove True (an_key C) (an_klen C) tree; Some tree } else Some tree);
         cnt \<leftarrow> ck (cnt + 1);
         C \<leftarrow> av_nodes tree cur;
         let queue = queue @ (case an_left C of None \<Rightarrow> [] | Some l \<Rightarrow> [l]) @ (case an_right C of None \<Rightarrow> [] | Some r \<Rightarrow> [r]);
         walk_loop cb queue cnt user tree
       }
     })"

definition avlt_walk :: "(byte list \<Rightarrow> nat \<Rightarrow> 'u \<Rightarrow> int \<times> 'u) \<Rightarrow> 'u \<Rightarrow> avlt_t \<Rightarrow> (int \<times> 'u \<times> avlt_t) option" where
  "avlt_walk cb user tree = (case av_root tree of None \<Rightarrow> Some (0, user, tree) | Some r \<Rightarrow> walk_loop cb [r] 0 user tree)"

partial_function (option) avt_walk_sorted_internal ::
  "(byte list \<Rightarrow> nat \<Rightarrow> 'u \<Rightarrow> int \<times> 'u) \<Rightarrow> nat \<Rightarrow> 'u \<Rightarrow> avlt_t \<Rightarrow> (int \<times> 'u \<times> avlt_t) option" where
  "avt_walk_sorted_internal cb node user tree = do {
     N \<leftarrow> av_nodes tree node;
     (ret, user, tree) \<leftarrow> (case an_left N of None \<Rightarrow> Some (0, user, tree) | Some l \<Rightarrow> avt_walk_sorted_internal cb l user tree);
     if ret = - 1 then Some (2, user, tree)
     else do {
       cnt \<leftarrow> ck (1 + ret);
       N \<leftarrow> av_nodes tree node;
       let (ret, user) = cb (take (an_klen N) (an_key N)) (an_value N) user;
       if ret = 0 then Some (- 1, user, tree)
       else do {
         tree \<leftarrow> (if ret = - 1 \<or> ret = - 2 then do { (_, _, tree) \<leftarrow> avlt_remove True (an_key N) (an_klen N) tree; Some tree } else Some tree);
         if ret = - 2 then Some (- 1, user, tree)
         else do {
           N \<leftarrow> av_nodes tree node;
           (ret, user, tree) \<leftarrow> (case an_right N of None \<Rightarrow> Some (0, user, tree) | Some r \<Rightarrow> avt_walk_sorted_internal cb r user tree);
           cnt \<leftarrow> ck (if ret = - 1 then cnt + 1 else cnt + ret);
           Some (cnt, user, tree)
         }
       }
     }
   }"

definition avlt_walk_sorted :: "(byte list \<Rightarrow> nat \<Rightarrow> 'u \<Rightarrow> int \<times> 'u) \<Rightarrow> 'u \<Rightarrow> avlt_t \<Rightarrow> (int \<times> 'u \<times> avlt_t) option" where
  "avlt_walk_sorted cb user tree = (case av_root tree of None \<Rightarrow> Some (0, user, tree) | Some r \<Rightarrow> avt_walk_sorted_internal cb r user tree)"

section \<open>Destruction\<close>

partial_function (option) avlt_destroy :: "avlt_t \<Rightarrow> avlt_t option" where
  "avlt_destroy tree = (case av_root tree of
     None \<Rightarrow> Some tree
   | Some r \<Rightarrow> do {
       R \<leftarrow> av_nodes tree r;
       (_, _, tree) \<leftarrow> avlt_remove False (an_key R) (an_klen R) tree;
       avlt_destroy tree
     })"

declare avlt_balance.simps [code] add_loop.simps [code] av_leftmost.simps [code] av_rightmost.simps [code] av_key_loop.simps [code]
  walk_loop.simps [code] avt_walk_sorted_internal.simps [code] avlt_destroy.simps [code]

end
