(* ===== verification/Avltree_Spec.thy ===== *)
theory Avltree_Spec
  imports Avltree Ptr_Tree
begin

text \<open>
  The trees of \<open>avltree.c\<close> as functional trees with the stored heights of the subtrees as data, and what the rotations do
  to them.
\<close>

section \<open>Trees in the store\<close>

definition mk_av :: "int \<times> int \<Rightarrow> byte list \<Rightarrow> nat \<Rightarrow> nat option \<Rightarrow> nat option \<Rightarrow> nat option \<Rightarrow> avlt_node_t" where
  "mk_av d k v l r p = \<lparr>an_key = k, an_klen = length k, an_value = v, an_left = l, an_right = r, an_parent = p, an_hl = fst d, an_hr = snd d\<rparr>"

lemma mk_av_sel [simp]:
  "an_key (mk_av d k v l r p) = k" "an_klen (mk_av d k v l r p) = length k" "an_value (mk_av d k v l r p) = v"
  "an_left (mk_av d k v l r p) = l" "an_right (mk_av d k v l r p) = r" "an_parent (mk_av d k v l r p) = p"
  "an_hl (mk_av d k v l r p) = fst d" "an_hr (mk_av d k v l r p) = snd d"
  by (simp_all add: mk_av_def)

lemma mk_av_upd [simp]:
  "an_left_update (\<lambda>_. y) (mk_av d k v l r p) = mk_av d k v y r p" "an_right_update (\<lambda>_. y) (mk_av d k v l r p) = mk_av d k v l y p"
  "an_parent_update (\<lambda>_. y) (mk_av d k v l r p) = mk_av d k v l r y" "an_hl_update (\<lambda>_. h) (mk_av d k v l r p) = mk_av (h, snd d) k v l r p"
  "an_hr_update (\<lambda>_. h) (mk_av d k v l r p) = mk_av (fst d, h) k v l r p"
  by (simp_all add: mk_av_def)

type_synonym atree = "(int \<times> int) ptree"

type_synonym aframe = "(int \<times> int) frame"

abbreviation "a_at \<equiv> tree_at mk_av"

abbreviation "ac_at \<equiv> ctx_at mk_av"

abbreviation "av_at \<equiv> store_at mk_av"

lemmas av_at_def = store_at_def [of mk_av]

text \<open>The height that the stored heights give.\<close>

fun sh :: "atree \<Rightarrow> int" where
  "sh Tip = 0"
| "sh (Nd l a d k v r) = max (fst d) (snd d) + 1"

lemma height_of_tree: "a_at (av_nodes tree) p t \<Longrightarrow> height_of tree (rptr t) = Some (sh t)"
  by (cases t) (simp_all add: height_of_def node_height_def)

text \<open>The first frame learns the height of the tree below it.\<close>

fun set_h :: "int \<Rightarrow> aframe \<Rightarrow> aframe" where
  "set_h h (FL a d k v r) = FL a (h, snd d) k v r"
| "set_h h (FR l a d k v) = FR l a (fst d, h) k v"

definition learn :: "int \<Rightarrow> aframe list \<Rightarrow> aframe list" where
  "learn h fs = (case fs of [] \<Rightarrow> [] | f # fs \<Rightarrow> set_h h f # fs)"

lemma learn_simps [simp]: "learn h [] = []" "learn h (f # fs) = set_h h f # fs"
  by (simp_all add: learn_def)

lemma set_h_simps [simp]: "fa (set_h h f) = fa f" "fsib (set_h h f) = fsib f"
  by (cases f; simp)+

lemma learn_props [simp]: "top_ptr (learn h fs) = top_ptr fs" "caddrs (learn h fs) = caddrs fs" "length (learn h fs) = length fs"
  by (cases fs; simp)+

text \<open>What the steps below leave as it is, with the node at an address \<open>z\<close> outside of the tree.\<close>

definition av_same :: "avlt_t \<Rightarrow> nat option \<times> cmp_callback option \<times> bool \<times> nat \<times> (nat \<Rightarrow> bool) \<times> nat list \<times> nat set" where
  "av_same tree = (av_root tree, av_cmp_keys_cb tree, av_free_value_cb tree, av_brk tree, av_fail tree, av_freed tree, dom (av_nodes tree))"

definition av_rest :: "nat \<Rightarrow> avlt_t \<Rightarrow> (nat option \<times> cmp_callback option \<times> bool \<times> nat \<times> (nat \<Rightarrow> bool) \<times> nat list \<times> nat set) \<times> avlt_node_t option" where
  "av_rest z tree = (av_same tree, av_nodes tree z)"

section \<open>Rotations\<close>

lemmas av_steps = upd_avn_def set_avparent_def height_of_def node_height_def Let_def

lemma av_rotate_left_run:
  assumes "av_at (av_nodes tree) fs (Nd A a d k v (Nd B p dp kp vp C))"
  defines "h \<equiv> max (fst d) (sh B) + 1"
  shows "\<exists>tree'. avlt_rotate_left a tree = Some tree' \<and>
    av_at (av_nodes tree') (learn (max h (snd dp) + 1) fs) (Nd (Nd A a (fst d, sh B) k v B) p (h, snd dp) kp vp C) \<and> av_same tree' = av_same tree"
proof -
  let ?h = "av_nodes tree"
  have n: "?h a = Some (mk_av d k v (rptr A) (Some p) (top_ptr fs))" "?h p = Some (mk_av dp kp vp (rptr B) (rptr C) (Some a))"
    and t: "a_at ?h (Some a) A" "a_at ?h (Some p) B" "a_at ?h (Some p) C" "ac_at ?h fs (Some a)"
    and d: "distinct (taddrs A @ a # taddrs B @ p # taddrs C @ caddrs fs)" using assms by (auto simp: av_at_def)
  have e: "a \<noteq> p" using d by auto
  show ?thesis
  proof (cases B)
    case Tip
    show ?thesis
    proof (cases fs)
      case Nil
      then show ?thesis using n t d e Tip by (auto simp: avlt_rotate_left_def av_steps av_at_def av_same_def h_def)
    next
      case (Cons f gs)
      then show ?thesis using n t d e Tip by (cases f) (auto simp: avlt_rotate_left_def av_steps av_at_def av_same_def h_def)
    qed
  next
    case (Nd l b db kb vb r)
    show ?thesis
    proof (cases fs)
      case Nil
      then show ?thesis using n t d e Nd by (auto simp: avlt_rotate_left_def av_steps av_at_def av_same_def h_def)
    next
      case (Cons f gs)
      then show ?thesis using n t d e Nd by (cases f) (auto simp: avlt_rotate_left_def av_steps av_at_def av_same_def h_def)
    qed
  qed
qed

lemma av_rotate_left_frame:
  assumes "av_at (av_nodes tree) fs (Nd A a d k v (Nd B p dp kp vp C))" and "z \<notin> set (taddrs (Nd A a d k v (Nd B p dp kp vp C)) @ caddrs fs)"
  shows "\<exists>tree'. avlt_rotate_left a tree = Some tree' \<and> av_nodes tree' z = av_nodes tree z"
proof -
  let ?h = "av_nodes tree"
  have n: "?h a = Some (mk_av d k v (rptr A) (Some p) (top_ptr fs))" "?h p = Some (mk_av dp kp vp (rptr B) (rptr C) (Some a))"
    and t: "a_at ?h (Some a) A" "a_at ?h (Some p) B" "a_at ?h (Some p) C" "ac_at ?h fs (Some a)"
    and d: "distinct (taddrs A @ a # taddrs B @ p # taddrs C @ caddrs fs)" using assms by (auto simp: av_at_def)
  have e: "a \<noteq> p" using d by auto
  have z: "z \<noteq> a" "z \<noteq> p" "z \<notin> set (taddrs B)" "z \<notin> set (caddrs fs)" using assms(2) by auto
  show ?thesis
  proof (cases B)
    case Tip
    show ?thesis
    proof (cases fs)
      case Nil
      then show ?thesis using n t d e z Tip by (auto simp: avlt_rotate_left_def av_steps av_at_def)
    next
      case (Cons f gs)
      then show ?thesis using n t d e z Tip by (cases f) (auto simp: avlt_rotate_left_def av_steps av_at_def)
    qed
  next
    case (Nd l b db kb vb r)
    show ?thesis
    proof (cases fs)
      case Nil
      then show ?thesis using n t d e z Nd by (auto simp: avlt_rotate_left_def av_steps av_at_def)
    next
      case (Cons f gs)
      then show ?thesis using n t d e z Nd by (cases f) (auto simp: avlt_rotate_left_def av_steps av_at_def)
    qed
  qed
qed

lemma av_rotate_left_ok:
  assumes "av_at (av_nodes tree) fs (Nd A a d k v (Nd B p dp kp vp C))" and "z \<notin> set (taddrs (Nd A a d k v (Nd B p dp kp vp C)) @ caddrs fs)"
  defines "h \<equiv> max (fst d) (sh B) + 1"
  shows "\<exists>tree'. avlt_rotate_left a tree = Some tree' \<and> av_at (av_nodes tree') (learn (max h (snd dp) + 1) fs) (Nd (Nd A a (fst d, sh B) k v B) p (h, snd dp) kp vp C) \<and> av_rest z tree' = av_rest z tree"
  using av_rotate_left_run [OF assms(1)] av_rotate_left_frame [OF assms(1,2)] unfolding h_def by (auto simp: av_rest_def)

lemma av_rotate_right_run:
  assumes "av_at (av_nodes tree) fs (Nd (Nd A p dp kp vp B) a d k v C)"
  defines "h \<equiv> max (sh B) (snd d) + 1"
  shows "\<exists>tree'. avlt_rotate_right a tree = Some tree' \<and>
    av_at (av_nodes tree') (learn (max (fst dp) h + 1) fs) (Nd A p (fst dp, h) kp vp (Nd B a (sh B, snd d) k v C)) \<and> av_same tree' = av_same tree"
proof -
  let ?h = "av_nodes tree"
  have n: "?h a = Some (mk_av d k v (Some p) (rptr C) (top_ptr fs))" "?h p = Some (mk_av dp kp vp (rptr A) (rptr B) (Some a))"
    and t: "a_at ?h (Some p) A" "a_at ?h (Some p) B" "a_at ?h (Some a) C" "ac_at ?h fs (Some a)"
    and d: "distinct (taddrs A @ p # taddrs B @ a # taddrs C @ caddrs fs)" using assms by (auto simp: av_at_def)
  have e: "a \<noteq> p" using d by auto
  show ?thesis
  proof (cases B)
    case Tip
    show ?thesis
    proof (cases fs)
      case Nil
      then show ?thesis using n t d e Tip by (auto simp: avlt_rotate_right_def av_steps av_at_def av_same_def h_def)
    next
      case (Cons f gs)
      then show ?thesis using n t d e Tip by (cases f) (auto simp: avlt_rotate_right_def av_steps av_at_def av_same_def h_def)
    qed
  next
    case (Nd l b db kb vb r)
    show ?thesis
    proof (cases fs)
      case Nil
      then show ?thesis using n t d e Nd by (auto simp: avlt_rotate_right_def av_steps av_at_def av_same_def h_def)
    next
      case (Cons f gs)
      then show ?thesis using n t d e Nd by (cases f) (auto simp: avlt_rotate_right_def av_steps av_at_def av_same_def h_def)
    qed
  qed
qed

lemma av_rotate_right_frame:
  assumes "av_at (av_nodes tree) fs (Nd (Nd A p dp kp vp B) a d k v C)" and "z \<notin> set (taddrs (Nd (Nd A p dp kp vp B) a d k v C) @ caddrs fs)"
  shows "\<exists>tree'. avlt_rotate_right a tree = Some tree' \<and> av_nodes tree' z = av_nodes tree z"
proof -
  let ?h = "av_nodes tree"
  have n: "?h a = Some (mk_av d k v (Some p) (rptr C) (top_ptr fs))" "?h p = Some (mk_av dp kp vp (rptr A) (rptr B) (Some a))"
    and t: "a_at ?h (Some p) A" "a_at ?h (Some p) B" "a_at ?h (Some a) C" "ac_at ?h fs (Some a)"
    and d: "distinct (taddrs A @ p # taddrs B @ a # taddrs C @ caddrs fs)" using assms by (auto simp: av_at_def)
  have e: "a \<noteq> p" using d by auto
  have z: "z \<noteq> a" "z \<noteq> p" "z \<notin> set (taddrs B)" "z \<notin> set (caddrs fs)" using assms(2) by auto
  show ?thesis
  proof (cases B)
    case Tip
    show ?thesis
    proof (cases fs)
      case Nil
      then show ?thesis using n t d e z Tip by (auto simp: avlt_rotate_right_def av_steps av_at_def)
    next
      case (Cons f gs)
      then show ?thesis using n t d e z Tip by (cases f) (auto simp: avlt_rotate_right_def av_steps av_at_def)
    qed
  next
    case (Nd l b db kb vb r)
    show ?thesis
    proof (cases fs)
      case Nil
      then show ?thesis using n t d e z Nd by (auto simp: avlt_rotate_right_def av_steps av_at_def)
    next
      case (Cons f gs)
      then show ?thesis using n t d e z Nd by (cases f) (auto simp: avlt_rotate_right_def av_steps av_at_def)
    qed
  qed
qed

lemma av_rotate_right_ok:
  assumes "av_at (av_nodes tree) fs (Nd (Nd A p dp kp vp B) a d k v C)" and "z \<notin> set (taddrs (Nd (Nd A p dp kp vp B) a d k v C) @ caddrs fs)"
  defines "h \<equiv> max (sh B) (snd d) + 1"
  shows "\<exists>tree'. avlt_rotate_right a tree = Some tree' \<and> av_at (av_nodes tree') (learn (max (fst dp) h + 1) fs) (Nd A p (fst dp, h) kp vp (Nd B a (sh B, snd d) k v C)) \<and> av_rest z tree' = av_rest z tree"
  using av_rotate_right_run [OF assms(1)] av_rotate_right_frame [OF assms(1,2)] unfolding h_def by (auto simp: av_rest_def)

section \<open>The balance\<close>

abbreviation ht :: "atree \<Rightarrow> int" where
  "ht t \<equiv> int (depth t)"

text \<open>The stored heights are right, and the subtrees of every node differ by at most one.\<close>

fun av_tree :: "atree \<Rightarrow> bool" where
  "av_tree Tip \<longleftrightarrow> True"
| "av_tree (Nd l a d k v r) \<longleftrightarrow> d = (ht l, ht r) \<and> \<bar>ht l - ht r\<bar> \<le> 1 \<and> av_tree l \<and> av_tree r"

lemma sh_ht: "av_tree t \<Longrightarrow> sh t = ht t"
  by (cases t) auto

text \<open>One round at a node whose subtrees are AVL trees and differ by at most two, with whatever heights the node has stored.\<close>

lemma balance_in_place:
  assumes "av_at (av_nodes tree) fs (Nd l a d k v r)" and "av_tree l" and "av_tree r" and "\<bar>ht l - ht r\<bar> \<le> 1" and "z \<notin> set (taddrs (Nd l a d k v r) @ caddrs fs)"
  shows "\<exists>tree'. avlt_balance (Some a) tree = avlt_balance (top_ptr fs) tree' \<and> av_at (av_nodes tree') fs (Nd l a (ht l, ht r) k v r) \<and> av_rest z tree' = av_rest z tree"
proof -
  let ?h = "av_nodes tree"
  have n: "?h a = Some (mk_av d k v (rptr l) (rptr r) (top_ptr fs))" and t: "a_at ?h (Some a) l" "a_at ?h (Some a) r" using assms(1) by (auto simp: av_at_def)
  have h: "height_of tree (rptr l) = Some (ht l)" "height_of tree (rptr r) = Some (ht r)" using height_of_tree t assms(2,3) sh_ht by auto
  let ?t = "tree\<lparr>av_nodes := ?h(a \<mapsto> mk_av (ht l, ht r) k v (rptr l) (rptr r) (top_ptr fs))\<rparr>"
  have "\<not> ht l - ht r \<le> - 2" "\<not> 2 \<le> ht l - ht r" using assms(4) by auto
  then have "avlt_balance (Some a) tree = avlt_balance (top_ptr fs) ?t" using n h by (simp add: avlt_balance.simps [of "Some a"] upd_avn_def)
  moreover have "av_at (av_nodes ?t) fs (Nd l a (ht l, ht r) k v r)" using assms(1) by (auto simp: av_at_def)
  ultimately show ?thesis using n assms(5) by (intro exI [of _ ?t]) (auto simp: av_rest_def av_same_def)
qed

text \<open>What the loop does after a rotation: the root is updated, and the next round finds the new subtree balanced.\<close>

definition after_turn :: "nat \<Rightarrow> avlt_t \<Rightarrow> avlt_t option" where
  "after_turn a tree = do {
     tree \<leftarrow> fix_root a tree;
     bf \<leftarrow> balance_factor tree a;
     N \<leftarrow> av_nodes tree a;
     if - 1 \<le> bf \<and> bf \<le> 1 then avlt_balance (an_parent N) tree else avlt_balance (Some a) tree
   }"

definition av_conf :: "nat \<Rightarrow> avlt_t \<Rightarrow> cmp_callback option \<times> bool \<times> nat \<times> (nat \<Rightarrow> bool) \<times> nat list \<times> nat set \<times> avlt_node_t option" where
  "av_conf z tree = (av_cmp_keys_cb tree, av_free_value_cb tree, av_brk tree, av_fail tree, av_freed tree, dom (av_nodes tree), av_nodes tree z)"

lemma av_rest_conf: "av_rest z t = av_rest z t' \<longleftrightarrow> av_root t = av_root t' \<and> av_conf z t = av_conf z t'"
  by (auto simp: av_rest_def av_same_def av_conf_def)

lemma after_turn_ok:
  assumes "av_at (av_nodes tree) fs (Nd L b D kb vb R)" and "av_tree (Nd L b D kb vb R)" and "av_nodes tree a = Some (mk_av da ka va la ra (Some b))"
    and "\<bar>fst da - snd da\<bar> \<le> 1" and "av_root tree = Some a \<longleftrightarrow> fs = []" and "z \<notin> set (taddrs (Nd L b D kb vb R) @ caddrs fs)"
  shows "\<exists>tree'. after_turn a tree = avlt_balance (top_ptr fs) tree' \<and> av_at (av_nodes tree') fs (Nd L b D kb vb R) \<and>
    av_root tree' = (if fs = [] then Some b else av_root tree) \<and> av_conf z tree' = av_conf z tree"
proof -
  let ?t = "if av_root tree = Some a then tree\<lparr>av_root := Some b\<rparr> else tree"
  have bf: "- 1 \<le> fst da - snd da" "fst da - snd da \<le> 1" using assms(4) by auto
  have nt: "av_nodes ?t = av_nodes tree" by simp
  have "after_turn a tree = avlt_balance (Some b) ?t" using assms(3) bf by (simp add: after_turn_def fix_root_def balance_factor_def)
  moreover from balance_in_place [of ?t fs L b D kb vb R z] assms(1,2,6) obtain t' where "avlt_balance (Some b) ?t = avlt_balance (top_ptr fs) t'"
    "av_at (av_nodes t') fs (Nd L b (ht L, ht R) kb vb R)" "av_rest z t' = av_rest z ?t" unfolding nt by auto
  moreover have "D = (ht L, ht R)" using assms(2) by simp
  ultimately show ?thesis using assms(5) by (intro exI [of _ t']) (auto simp: av_rest_conf av_conf_def)
qed

text \<open>What a node and its subtrees become.\<close>

definition rebalanced :: "atree \<Rightarrow> atree \<Rightarrow> bool" where
  "rebalanced t t' \<longleftrightarrow> av_tree t' \<and> inord t' = inord t \<and> mset (taddrs t') = mset (taddrs t)"

text \<open>After the rotations at the node \<open>a\<close>, it is a balanced child of the new root of the subtree.\<close>

definition turned_at :: "nat \<Rightarrow> nat \<Rightarrow> aframe list \<Rightarrow> atree \<Rightarrow> avlt_t \<Rightarrow> avlt_t \<Rightarrow> bool" where
  "turned_at z a fs t tree tree' \<longleftrightarrow> (\<exists>t' h b da ka va la ra. av_at (av_nodes tree') (learn h fs) t' \<and> rebalanced t t' \<and> rptr t' = Some b \<and>
     av_nodes tree' a = Some (mk_av da ka va la ra (Some b)) \<and> \<bar>fst da - snd da\<bar> \<le> 1 \<and> av_rest z tree' = av_rest z tree \<and> ht t - 1 \<le> ht t' \<and> ht t' \<le> ht t)"

lemma turned_atI:
  assumes "av_at (av_nodes tree') (learn h fs) t'" and "rebalanced t t'" and "rptr t' = Some b" and "av_nodes tree' a = Some (mk_av (i, j) ka va la ra (Some b))" and "\<bar>i - j\<bar> \<le> 1"
    and "av_rest z tree' = av_rest z tree" and "ht t - 1 \<le> ht t'" and "ht t' \<le> ht t"
  shows "turned_at z a fs t tree tree'"
  unfolding turned_at_def using assms fst_conv snd_conv by metis

lemma turn_right_child:
  assumes "av_at (av_nodes tree) fs (Nd l a d k v r)" and "av_tree l" and "av_tree r" and "ht r = ht l + 2" and "fst d = ht l" and "z \<notin> set (taddrs (Nd l a d k v r) @ caddrs fs)"
  shows "\<exists>tree'. do { tree \<leftarrow> turn_child 1 avlt_rotate_right (rptr r) tree; avlt_rotate_left a tree } = Some tree' \<and> turned_at z a fs (Nd l a d k v r) tree tree'"
proof -
  obtain rl b db kb vb rr where r: "r = Nd rl b db kb vb rr" using assms(4) by (cases r) auto
  have rr: "db = (ht rl, ht rr)" "av_tree rl" "av_tree rr" "\<bar>ht rl - ht rr\<bar> \<le> 1" "max (ht rl) (ht rr) = ht l + 1" using assms(3,4) r by simp_all
  have nb: "balance_factor tree b = Some (ht rl - ht rr)" using assms(1) r rr(1) by (auto simp: av_at_def balance_factor_def)
  show ?thesis
  proof (cases "ht rl - ht rr = 1")
    case True
    then obtain x c dc kc vc y where rl: "rl = Nd x c dc kc vc y" by (cases rl) auto
    have xy: "dc = (ht x, ht y)" "av_tree x" "av_tree y" "\<bar>ht x - ht y\<bar> \<le> 1" "ht rl = max (ht x) (ht y) + 1" using rr(2) rl by simp_all
    have e: "ht rr = ht l" "max (ht l) (ht x) = ht l" "max (ht y) (ht l) = ht l" "\<bar>ht l - ht x\<bar> \<le> 1" "\<bar>ht y - ht l\<bar> \<le> 1" using True rr(5) xy(4,5) by auto
    have "av_at (av_nodes tree) (FR l a d k v # fs) (Nd (Nd x c dc kc vc y) b db kb vb rr)" using assms(1) r rl by (simp add: heap_move)
    from av_rotate_right_ok [where z = z, OF this] obtain t1 where t1: "avlt_rotate_right b tree = Some t1" "av_rest z t1 = av_rest z tree"
      "av_at (av_nodes t1) (FR l a (fst d, max (ht x) (ht l + 1) + 1) k v # fs) (Nd x c (ht x, ht l + 1) kc vc (Nd y b (ht y, ht rr) kb vb rr))"
      using xy(1) rr(1) sh_ht [OF xy(3)] e assms(6) r rl by auto
    let ?t = "Nd (Nd l a (ht l, ht x) k v x) c (ht l + 1, ht l + 1) kc vc (Nd y b (ht y, ht rr) kb vb rr)"
    from av_rotate_left_ok [where z = z, OF t1(3) [unfolded heap_move plug1.simps]] obtain t2 h where t2: "avlt_rotate_left a t1 = Some t2" "av_rest z t2 = av_rest z t1" "av_at (av_nodes t2) (learn h fs) ?t"
      using sh_ht [OF xy(2)] assms(5,6) e(2) r rl by auto
    have "rebalanced (Nd l a d k v r) ?t" "ht ?t = ht l + 2" using r rl assms(2) xy(2,3) rr(3) e by (simp_all add: rebalanced_def)
    moreover have "av_nodes t2 a = Some (mk_av (ht l, ht x) k v (rptr l) (rptr x) (Some c))" using t2(3) by (simp add: av_at_def)
    ultimately have "turned_at z a fs (Nd l a d k v r) tree t2" using t1(2) t2(2) e(4) assms(4) by (intro turned_atI [OF t2(3)]) auto
    then show ?thesis using r nb True t1(1) t2(1) by (simp add: turn_child_def)
  next
    case False
    have e: "ht rr = ht l + 1" "max (ht l) (ht rl) = ht rl" "\<bar>ht l - ht rl\<bar> \<le> 1" "\<bar>ht rl - ht l\<bar> \<le> 1" using False rr(4,5) by auto
    let ?t = "Nd (Nd l a (ht l, ht rl) k v rl) b (ht rl + 1, ht rr) kb vb rr"
    from av_rotate_left_ok [where z = z, OF assms(1) [unfolded r]] obtain t2 h where t2: "avlt_rotate_left a tree = Some t2" "av_rest z t2 = av_rest z tree" "av_at (av_nodes t2) (learn h fs) ?t"
      using rr(1) sh_ht [OF rr(2)] assms(5,6) e(2) r by auto
    have "rebalanced (Nd l a d k v r) ?t" "ht ?t = max (ht rl + 1) (ht l + 1) + 1" using r assms(2) rr(2,3) e by (simp_all add: rebalanced_def)
    moreover have "av_nodes t2 a = Some (mk_av (ht l, ht rl) k v (rptr l) (rptr rl) (Some b))" using t2(3) by (simp add: av_at_def)
    ultimately have "turned_at z a fs (Nd l a d k v r) tree t2" using t2(2) e assms(4) by (intro turned_atI [OF t2(3)]) auto
    then show ?thesis using r nb False t2(1) by (simp add: turn_child_def)
  qed
qed

lemma turn_left_child:
  assumes "av_at (av_nodes tree) fs (Nd l a d k v r)" and "av_tree l" and "av_tree r" and "ht l = ht r + 2" and "snd d = ht r" and "z \<notin> set (taddrs (Nd l a d k v r) @ caddrs fs)"
  shows "\<exists>tree'. do { tree \<leftarrow> turn_child (- 1) avlt_rotate_left (rptr l) tree; avlt_rotate_right a tree } = Some tree' \<and> turned_at z a fs (Nd l a d k v r) tree tree'"
proof -
  obtain ll b db kb vb lr where l: "l = Nd ll b db kb vb lr" using assms(4) by (cases l) auto
  have ll: "db = (ht ll, ht lr)" "av_tree ll" "av_tree lr" "\<bar>ht ll - ht lr\<bar> \<le> 1" "max (ht ll) (ht lr) = ht r + 1" using assms(2,4) l by simp_all
  have nb: "balance_factor tree b = Some (ht ll - ht lr)" using assms(1) l ll(1) by (auto simp: av_at_def balance_factor_def)
  show ?thesis
  proof (cases "ht ll - ht lr = - 1")
    case True
    then obtain x c dc kc vc y where lr: "lr = Nd x c dc kc vc y" by (cases lr) auto
    have xy: "dc = (ht x, ht y)" "av_tree x" "av_tree y" "\<bar>ht x - ht y\<bar> \<le> 1" "ht lr = max (ht x) (ht y) + 1" using ll(3) lr by simp_all
    have e: "ht ll = ht r" "max (ht y) (ht r) = ht r" "max (ht r) (ht x) = ht r" "\<bar>ht y - ht r\<bar> \<le> 1" "\<bar>ht r - ht x\<bar> \<le> 1" using True ll(5) xy(4,5) by auto
    have "av_at (av_nodes tree) (FL a d k v r # fs) (Nd ll b db kb vb (Nd x c dc kc vc y))" using assms(1) l lr by (simp add: heap_move)
    from av_rotate_left_ok [where z = z, OF this] obtain t1 where t1: "avlt_rotate_left b tree = Some t1" "av_rest z t1 = av_rest z tree"
      "av_at (av_nodes t1) (FL a (max (ht r + 1) (ht y) + 1, snd d) k v r # fs) (Nd (Nd ll b (ht ll, ht x) kb vb x) c (ht r + 1, ht y) kc vc y)"
      using xy(1) ll(1) sh_ht [OF xy(2)] e assms(6) l lr by auto
    let ?t = "Nd (Nd ll b (ht ll, ht x) kb vb x) c (ht r + 1, ht r + 1) kc vc (Nd y a (ht y, ht r) k v r)"
    from av_rotate_right_ok [where z = z, OF t1(3) [unfolded heap_move plug1.simps]] obtain t2 h where t2: "avlt_rotate_right a t1 = Some t2" "av_rest z t2 = av_rest z t1" "av_at (av_nodes t2) (learn h fs) ?t"
      using sh_ht [OF xy(3)] assms(5,6) e(2) l lr by auto
    have "rebalanced (Nd l a d k v r) ?t" "ht ?t = ht r + 2" using l lr assms(3) xy(2,3) ll(2) e by (simp_all add: rebalanced_def)
    moreover have "av_nodes t2 a = Some (mk_av (ht y, ht r) k v (rptr y) (rptr r) (Some c))" using t2(3) by (simp add: av_at_def)
    ultimately have "turned_at z a fs (Nd l a d k v r) tree t2" using t1(2) t2(2) e(4) assms(4) by (intro turned_atI [OF t2(3)]) auto
    then show ?thesis using l nb True t1(1) t2(1) by (simp add: turn_child_def)
  next
    case False
    have e: "ht ll = ht r + 1" "max (ht lr) (ht r) = ht lr" "\<bar>ht lr - ht r\<bar> \<le> 1" "\<bar>ht r - ht lr\<bar> \<le> 1" using False ll(4,5) by auto
    let ?t = "Nd ll b (ht ll, ht lr + 1) kb vb (Nd lr a (ht lr, ht r) k v r)"
    from av_rotate_right_ok [where z = z, OF assms(1) [unfolded l]] obtain t2 h where t2: "avlt_rotate_right a tree = Some t2" "av_rest z t2 = av_rest z tree" "av_at (av_nodes t2) (learn h fs) ?t"
      using ll(1) sh_ht [OF ll(3)] assms(5,6) e(2) l by auto
    have "rebalanced (Nd l a d k v r) ?t" "ht ?t = max (ht lr + 1) (ht r + 1) + 1" using l assms(3) ll(2,3) e by (simp_all add: rebalanced_def)
    moreover have "av_nodes t2 a = Some (mk_av (ht lr, ht r) k v (rptr lr) (rptr r) (Some b))" using t2(3) by (simp add: av_at_def)
    ultimately have "turned_at z a fs (Nd l a d k v r) tree t2" using t2(2) e assms(4) by (intro turned_atI [OF t2(3)]) auto
    then show ?thesis using l nb False t2(1) by (simp add: turn_child_def)
  qed
qed

end
