(* ===== verification/Avltree_Map.thy ===== *)
theory Avltree_Map
  imports Avltree_Spec
begin

text \<open>
  What the operations of \<open>avltree.c\<close> do to an AVL tree in the store: restoring the balance from a node upwards, insertion at
  the ends, removal, the walk in ascending order and the destruction.
\<close>

section \<open>The balance from a node upwards\<close>

text \<open>A context that had a tree of height \<open>h\<close> in its hole. What its nodes have stored for that side does not matter.\<close>

fun cav :: "aframe list \<Rightarrow> int \<Rightarrow> bool" where
  "cav [] h \<longleftrightarrow> True"
| "cav (f # fs) h \<longleftrightarrow> av_tree (fsib f) \<and> \<bar>h - ht (fsib f)\<bar> \<le> 1 \<and> cav fs (max h (ht (fsib f)) + 1)"

lemma av_tree_plug: "av_tree (plug fs t) \<Longrightarrow> av_tree t \<and> cav fs (ht t)"
proof (induction fs arbitrary: t)
  case (Cons f fs)
  then have "av_tree (plug1 f t)" "cav fs (ht (plug1 f t))" by auto
  then show ?case by (cases f) (auto simp: abs_minus_commute max.commute add.commute of_nat_max)
qed simp

lemma learn_ctx [simp]: "c_left (learn h fs) = c_left fs" "c_right (learn h fs) = c_right fs" "cav (learn h fs) = cav fs"
proof -
  show "c_left (learn h fs) = c_left fs" "c_right (learn h fs) = c_right fs" by (cases fs; cases "hd fs"; simp)+
  show "cav (learn h fs) = cav fs" by (cases fs) (simp_all add: fun_eq_iff)
qed

lemma rptr_learn: "rptr (plug (learn h fs) t) = rptr (plug fs t)"
proof (cases fs)
  case (Cons f gs)
  then show ?thesis using rptr_plug [of gs "plug1 (set_h h f) t" "plug1 f t"] by (cases gs) simp_all
qed simp

lemma root_in_ctx: "fs \<noteq> [] \<Longrightarrow> \<exists>x \<in> set (caddrs fs). rptr (plug fs t) = Some x"
proof (induction fs arbitrary: t)
  case (Cons f fs)
  then show ?case by (cases fs) auto
qed simp

lemma root_iff:
  assumes "av_at h fs (Nd l a d k v r)"
  shows "rptr (plug fs (Nd l a d k v r)) = Some a \<longleftrightarrow> fs = []"
  using assms root_in_ctx [of fs "Nd l a d k v r"] by (auto simp: av_at_def)

lemma rebalanced_set: "rebalanced t t' \<Longrightarrow> set (taddrs t') = set (taddrs t)"
  unfolding rebalanced_def using mset_eq_setD by blast

lemma balance_node:
  assumes "av_at (av_nodes tree) fs (Nd l a d k v r)" and "av_tree l" and "av_tree r" and "\<bar>ht l - ht r\<bar> \<le> 2" and "av_root tree = Some a \<longleftrightarrow> fs = []"
    and "z \<notin> set (taddrs (Nd l a d k v r) @ caddrs fs)"
  shows "\<exists>tree' t fs'. avlt_balance (Some a) tree = avlt_balance (top_ptr fs) tree' \<and> av_at (av_nodes tree') fs' t \<and> (fs' = fs \<or> (\<exists>h. fs' = learn h fs)) \<and>
    rebalanced (Nd l a d k v r) t \<and> ht (Nd l a d k v r) - 1 \<le> ht t \<and> ht t \<le> ht (Nd l a d k v r) \<and> (ht t = ht (Nd l a d k v r) \<or> \<bar>ht l - ht r\<bar> = 2) \<and>
    av_root tree' = (if fs = [] then rptr t else av_root tree) \<and> av_conf z tree' = av_conf z tree"
proof (cases "\<bar>ht l - ht r\<bar> \<le> 1")
  case True
  from balance_in_place [OF assms(1-3) True assms(6)] obtain t' where "avlt_balance (Some a) tree = avlt_balance (top_ptr fs) t'" "av_at (av_nodes t') fs (Nd l a (ht l, ht r) k v r)" "av_rest z t' = av_rest z tree" by blast
  then show ?thesis using assms(2,3,5) True
    by (intro exI [of _ t'] exI [of _ "Nd l a (ht l, ht r) k v r"] exI [of _ fs]) (auto simp: rebalanced_def av_rest_conf)
next
  case False
  let ?h = "av_nodes tree" and ?t = "Nd l a (ht l, ht r) k v r"
  have n: "?h a = Some (mk_av d k v (rptr l) (rptr r) (top_ptr fs))" and t: "a_at ?h (Some a) l" "a_at ?h (Some a) r" using assms(1) by (auto simp: av_at_def)
  have h: "height_of tree (rptr l) = Some (ht l)" "height_of tree (rptr r) = Some (ht r)" using height_of_tree t assms(2,3) sh_ht by auto
  let ?t1 = "tree\<lparr>av_nodes := ?h(a \<mapsto> mk_av (ht l, ht r) k v (rptr l) (rptr r) (top_ptr fs))\<rparr>"
  have a1: "av_at (av_nodes ?t1) fs ?t" using assms(1) by (auto simp: av_at_def)
  have "\<exists>t2. avlt_balance (Some a) tree = after_turn a t2 \<and> turned_at z a fs ?t ?t1 t2"
  proof (cases "ht l - ht r \<le> - 2")
    case True
    then have "ht r = ht l + 2" using assms(4) by simp
    from turn_right_child [where z = z, OF a1 assms(2,3) this] assms(6) obtain t2 where
      "do { tree \<leftarrow> turn_child 1 avlt_rotate_right (rptr r) ?t1; avlt_rotate_left a tree } = Some t2" "turned_at z a fs ?t ?t1 t2" by auto
    then show ?thesis using n h True by (auto simp: avlt_balance.simps [of "Some a"] upd_avn_def after_turn_def)
  next
    case neg: False
    then have e: "ht l = ht r + 2" "2 \<le> ht l - ht r" using assms(4) False by auto
    from turn_left_child [where z = z, OF a1 assms(2,3) e(1)] assms(6) obtain t2 where
      "do { tree \<leftarrow> turn_child (- 1) avlt_rotate_left (rptr l) ?t1; avlt_rotate_right a tree } = Some t2" "turned_at z a fs ?t ?t1 t2" by auto
    then show ?thesis using n h neg e(2) by (auto simp: avlt_balance.simps [of "Some a"] upd_avn_def after_turn_def)
  qed
  then obtain t2 where t2: "avlt_balance (Some a) tree = after_turn a t2" "turned_at z a fs ?t ?t1 t2" by blast
  from t2(2) obtain t' hh b da ka va la ra where u: "av_at (av_nodes t2) (learn hh fs) t'" "rebalanced ?t t'" "rptr t' = Some b" "av_nodes t2 a = Some (mk_av da ka va la ra (Some b))"
    "\<bar>fst da - snd da\<bar> \<le> 1" "av_rest z t2 = av_rest z ?t1" "ht ?t - 1 \<le> ht t'" "ht t' \<le> ht ?t" unfolding turned_at_def by blast
  obtain L D kb vb R where t': "t' = Nd L b D kb vb R" using u(3) by (cases t') auto
  have "av_root t2 = Some a \<longleftrightarrow> learn hh fs = []" using u(6) assms(5) by (cases fs) (auto simp: av_rest_conf)
  moreover have "z \<notin> set (taddrs t' @ caddrs (learn hh fs))" using assms(6) rebalanced_set [OF u(2)] by simp
  ultimately obtain t3 where t3: "after_turn a t2 = avlt_balance (top_ptr fs) t3" "av_at (av_nodes t3) (learn hh fs) t'"
    "av_root t3 = (if learn hh fs = [] then Some b else av_root t2)" "av_conf z t3 = av_conf z t2" using after_turn_ok [where z = z, OF u(1) [unfolded t'] _ u(4,5)] u(2) t' by (auto simp: rebalanced_def)
  have "av_conf z ?t1 = av_conf z tree" using n assms(6) by (auto simp: av_conf_def)
  moreover have "learn hh fs = [] \<longleftrightarrow> fs = []" by (cases fs) auto
  moreover have "\<bar>ht l - ht r\<bar> = 2" using False assms(4) by simp
  ultimately show ?thesis using t2(1) t3 u by (intro exI [of _ t3] exI [of _ t'] exI [of _ "learn hh fs"]) (auto simp: rebalanced_def av_rest_conf)
qed

lemma rebalanced_plug: "rebalanced (plug1 f t) t' \<Longrightarrow> fs' = fs \<or> fs' = learn h fs \<Longrightarrow> rebalanced (plug fs' t') T \<Longrightarrow> rebalanced (plug (f # fs) t) T"
  by (auto simp: rebalanced_def inord_plug [of "learn h fs"] inord_plug [of fs] plug_addrs)

lemma balance_up:
  assumes "av_at (av_nodes tree) fs t" and "av_tree t" and "cav fs h" and "\<bar>ht t - h\<bar> \<le> 1" and "av_root tree = rptr (plug fs t)" and "z \<notin> set (taddrs t @ caddrs fs)"
  shows "\<exists>tree' T. avlt_balance (top_ptr fs) tree = Some tree' \<and> av_at (av_nodes tree') [] T \<and> rebalanced (plug fs t) T \<and> av_root tree' = rptr T \<and> av_conf z tree' = av_conf z tree"
  using assms
proof (induction fs arbitrary: t h tree rule: length_induct)
  case (1 fs)
  show ?case
  proof (cases fs)
    case Nil
    then show ?thesis using 1(2,3,6) by (intro exI [of _ tree] exI [of _ t]) (simp add: avlt_balance.simps rebalanced_def)
  next
    case (Cons f gs)
    let ?s = "fsib f"
    have s: "av_tree ?s" "\<bar>h - ht ?s\<bar> \<le> 1" "cav gs (max h (ht ?s) + 1)" using 1(4) Cons by auto
    obtain l d k v r where p: "plug1 f t = Nd l (fa f) d k v r" "l = t \<and> r = ?s \<or> l = ?s \<and> r = t" by (cases f) auto
    have "\<bar>ht t - ht ?s\<bar> \<le> 2" using s(2) 1(5) by linarith
    then have lr: "av_tree l" "av_tree r" "\<bar>ht l - ht r\<bar> \<le> 2" "\<bar>ht l - ht r\<bar> = \<bar>ht t - ht ?s\<bar>" "ht (plug1 f t) = max (ht t) (ht ?s) + 1" using p(2) s(1) 1(3) by (auto simp: depth_plug1)
    have at: "av_at (av_nodes tree) gs (Nd l (fa f) d k v r)" using 1(2) Cons p(1) by (simp add: heap_move)
    have rt: "av_root tree = rptr (plug gs (Nd l (fa f) d k v r))" using 1(6) Cons p(1) by simp
    have z: "z \<notin> set (taddrs (Nd l (fa f) d k v r) @ caddrs gs)" using 1(7) Cons p(2) by auto
    from balance_node [OF at lr(1-3) _ z] rt root_iff [OF at] obtain t1 t' fs' where b: "avlt_balance (Some (fa f)) tree = avlt_balance (top_ptr gs) t1" "av_at (av_nodes t1) fs' t'"
      "fs' = gs \<or> (\<exists>h. fs' = learn h gs)" "rebalanced (plug1 f t) t'" "ht (plug1 f t) - 1 \<le> ht t'" "ht t' \<le> ht (plug1 f t)" "ht t' = ht (plug1 f t) \<or> \<bar>ht l - ht r\<bar> = 2"
      "av_root t1 = (if gs = [] then rptr t' else av_root tree)" "av_conf z t1 = av_conf z tree" using p(1) by auto
    have h': "\<bar>ht t' - (max h (ht ?s) + 1)\<bar> \<le> 1" using b(5-7) lr(4,5) s(2) 1(5) by linarith
    have "av_root t1 = rptr (plug fs' t')"
    proof (cases "gs = []")
      case True
      then show ?thesis using b(3,8) by auto
    next
      case False
      then show ?thesis using b(3,8) rt rptr_plug [OF False, of t' "Nd l (fa f) d k v r"] rptr_learn by auto
    qed
    moreover have "length fs' < length fs" "cav fs' = cav gs" "top_ptr fs' = top_ptr gs" using b(3) Cons by auto
    moreover have "caddrs fs' = caddrs gs" "set (taddrs t') = set (taddrs (Nd l (fa f) d k v r))" using b(3) rebalanced_set [OF b(4)] unfolding p(1) by auto
    then have "z \<notin> set (taddrs t' @ caddrs fs')" using z by simp
    ultimately obtain t2 T where "avlt_balance (top_ptr gs) t1 = Some t2" "av_at (av_nodes t2) [] T" "rebalanced (plug fs' t') T" "av_root t2 = rptr T" "av_conf z t2 = av_conf z t1"
      using 1(1) [rule_format, of fs' t1 t' "max h (ht ?s) + 1"] b(2,4) s(3) h' by (auto simp: rebalanced_def)
    then show ?thesis using b(1,3,4,9) rebalanced_plug [of f t t' fs' gs] Cons by auto
  qed
qed

section \<open>Taking a node out\<close>

lemma av_unlink_root:
  assumes "av_at (av_nodes tree) [] (Nd l p d k v r)" and "l = Tip \<or> r = Tip"
  shows "\<exists>tree'. unlink_node p tree = Some tree' \<and> av_at (av_nodes tree') [] (if l \<noteq> Tip then l else r) \<and> av_root tree' = rptr (if l \<noteq> Tip then l else r) \<and> av_conf p tree' = av_conf p tree"
  using assms by (cases l; cases r) (auto simp: unlink_node_def av_steps av_at_def av_conf_def)

lemma hang_child_ok:
  assumes "av_at (av_nodes tree) (f # fs) (Nd l p d k v r)" and "l = Tip \<or> r = Tip"
  shows "\<exists>tree'. hang_child p (fa f) tree = Some tree' \<and> av_at (av_nodes tree') (f # fs) (if l \<noteq> Tip then l else r) \<and> av_root tree' = av_root tree \<and> av_conf p tree' = av_conf p tree"
proof (cases f)
  case (FL q dq kq vq s)
  then show ?thesis using assms by (cases l; cases r) (auto simp: hang_child_def av_steps av_at_def av_conf_def)
next
  case (FR s q dq kq vq)
  have "rptr s \<noteq> Some p" using assms(1) FR by (intro rptr_notin) (auto simp: av_at_def)
  then show ?thesis using assms FR by (cases l; cases r) (auto simp: hang_child_def av_steps av_at_def av_conf_def)
qed

lemma av_unlink_ok:
  assumes "av_at (av_nodes tree) fs (Nd l p d k v r)" and "l = Tip \<or> r = Tip" and "av_tree (plug fs (Nd l p d k v r))" and "av_root tree = rptr (plug fs (Nd l p d k v r))"
  shows "\<exists>tree' T. unlink_node p tree = Some tree' \<and> av_at (av_nodes tree') [] T \<and> rebalanced (plug fs (if l \<noteq> Tip then l else r)) T \<and> av_root tree' = rptr T \<and> av_conf p tree' = av_conf p tree"
proof (cases fs)
  case Nil
  then obtain t1 where "unlink_node p tree = Some t1" "av_at (av_nodes t1) [] (if l \<noteq> Tip then l else r)" "av_root t1 = rptr (if l \<noteq> Tip then l else r)" "av_conf p t1 = av_conf p tree"
    using av_unlink_root [of tree l p d k v r] assms(1,2) by blast
  then show ?thesis using assms(3) Nil by (intro exI [of _ t1] exI [of _ "if l \<noteq> Tip then l else r"]) (auto simp: rebalanced_def)
next
  case (Cons f gs)
  let ?c = "if l \<noteq> Tip then l else r"
  obtain t1 where t1: "hang_child p (fa f) tree = Some t1" "av_at (av_nodes t1) (f # gs) ?c" "av_root t1 = av_root tree" "av_conf p t1 = av_conf p tree"
    using hang_child_ok [of tree f gs l p d k v r] assms(1,2) Cons by blast
  have "unlink_node p tree = avlt_balance (Some (fa f)) t1" using heap_at_node [OF assms(1)] t1(1) Cons by (simp add: unlink_node_def)
  note t1 = this t1(2-)
  have a: "av_tree ?c" "cav (f # gs) (ht (Nd l p d k v r))" "\<bar>ht ?c - ht (Nd l p d k v r)\<bar> \<le> 1" using av_tree_plug [OF assms(3)] assms(2) Cons by auto
  have r: "av_root t1 = rptr (plug (f # gs) ?c)" using t1(3) assms(4) Cons rptr_plug [of "f # gs" ?c "Nd l p d k v r"] by simp
  have z: "p \<notin> set (taddrs ?c @ caddrs (f # gs))" using assms(1) Cons by (auto simp: av_at_def)
  from balance_up [OF t1(2) a r z] show ?thesis using t1(1,4) Cons by auto
qed

section \<open>The neighbour of a node\<close>

lemma rightmost_ok:
  assumes "a_at (av_nodes tree) q t" and "rptr t = Some a"
  shows "\<exists>gs pl p dp kp vp. t = plug gs (Nd pl p dp kp vp Tip) \<and> c_right gs = [] \<and> av_rightmost tree a = Some p"
  using assms
proof (induction t arbitrary: q a)
  case (Nd l b d k v r)
  have n: "av_nodes tree a = Some (mk_av d k v (rptr l) (rptr r) q)" "b = a" using Nd.prems by auto
  show ?case
  proof (cases r)
    case Tip
    then show ?thesis using n by (intro exI [of _ "[]"]) (simp add: av_rightmost.simps)
  next
    case m: (Nd rl c dc kc vc rr)
    from Nd.IH(2) [of "Some b" c] Nd.prems(1) m obtain gs pl p dp kp vp where g: "r = plug gs (Nd pl p dp kp vp Tip)" "c_right gs = []" "av_rightmost tree c = Some p" by auto
    have "av_rightmost tree a = Some p" using n m g(3) by (simp add: av_rightmost.simps [of _ a])
    then show ?thesis using g(1,2) by (intro exI [of _ "gs @ [FR l b d k v]"] exI [of _ pl] exI [of _ p] exI [of _ dp] exI [of _ kp] exI [of _ vp]) (simp add: plug_append c_append)
  qed
qed simp

lemma leftmost_ok:
  assumes "a_at (av_nodes tree) q t" and "rptr t = Some a"
  shows "\<exists>gs pr p dp kp vp. t = plug gs (Nd Tip p dp kp vp pr) \<and> c_left gs = [] \<and> av_leftmost tree a = Some p"
  using assms
proof (induction t arbitrary: q a)
  case (Nd l b d k v r)
  have n: "av_nodes tree a = Some (mk_av d k v (rptr l) (rptr r) q)" "b = a" using Nd.prems by auto
  show ?case
  proof (cases l)
    case Tip
    then show ?thesis using n by (intro exI [of _ "[]"]) (simp add: av_leftmost.simps)
  next
    case m: (Nd ll c dc kc vc lr)
    from Nd.IH(1) [of "Some b" c] Nd.prems(1) m obtain gs pr p dp kp vp where g: "l = plug gs (Nd Tip p dp kp vp pr)" "c_left gs = []" "av_leftmost tree c = Some p" by auto
    have "av_leftmost tree a = Some p" using n m g(3) by (simp add: av_leftmost.simps [of _ a])
    then show ?thesis using g(1,2) by (intro exI [of _ "gs @ [FL b d k v r]"] exI [of _ pr] exI [of _ p] exI [of _ dp] exI [of _ kp] exI [of _ vp]) (simp add: plug_append c_append)
  qed
qed simp

lemma rptr_same: "rptr t = rptr t' \<Longrightarrow> rptr (plug fs t) = rptr (plug fs t')"
  using rptr_plug by (cases "fs = []") auto

lemma av_tree_cong: "av_tree t = av_tree t' \<Longrightarrow> depth t = depth t' \<Longrightarrow> av_tree (plug fs t) = av_tree (plug fs t') \<and> depth (plug fs t) = depth (plug fs t')"
proof (induction fs arbitrary: t t')
  case (Cons f fs)
  have "av_tree (plug1 f t) = av_tree (plug1 f t')" using Cons.prems by (cases f) simp_all
  then show ?case using Cons.IH [of "plug1 f t" "plug1 f t'"] Cons.prems(2) by (simp add: depth_plug1)
qed simp

text \<open>The contents of the node \<open>a\<close> and of a node \<open>p\<close> below it are exchanged.\<close>

lemma swap_contents_ok:
  assumes "av_at (av_nodes tree) (gs @ f # fs) (Nd pl p dp kp vp pr)" and "f = FL a d k v s \<or> f = FR s a d k v"
  defines "f' \<equiv> (case f of FL a d k v s \<Rightarrow> FL a d kp vp s | FR s a d k v \<Rightarrow> FR s a d kp vp)"
  shows "\<exists>tree'. swap_contents a p tree = Some tree' \<and> av_at (av_nodes tree') (gs @ f' # fs) (Nd pl p dp k v pr) \<and> av_same tree' = av_same tree"
proof -
  let ?h = "av_nodes tree" and ?P = "Nd pl p dp kp vp pr"
  obtain L R where A: "plug1 f (plug gs ?P) = Nd L a d k v R" "plug1 f' (plug gs ?P) = Nd L a d kp vp R" using assms(2) by (auto simp: f'_def)
  have a0: "av_at ?h fs (Nd L a d k v R)" using assms(1) A(1) by (simp add: heap_append heap_move)
  let ?h1 = "?h(a \<mapsto> mk_av d kp vp (rptr L) (rptr R) (top_ptr fs))"
  have "av_at ?h1 fs (Nd L a d kp vp R)" by (rule focus_upd [OF a0])
  then have a1: "av_at ?h1 (gs @ f' # fs) ?P" using A(2) by (simp add: heap_append heap_move)
  let ?h2 = "?h1(p \<mapsto> mk_av dp k v (rptr pl) (rptr pr) (top_ptr (gs @ f' # fs)))"
  have a2: "av_at ?h2 (gs @ f' # fs) (Nd pl p dp k v pr)" by (rule focus_upd [OF a1])
  have tp: "top_ptr (gs @ f' # fs) = top_ptr (gs @ f # fs)" using assms(2) by (cases gs) (auto simp: f'_def)
  have n: "?h a = Some (mk_av d k v (rptr L) (rptr R) (top_ptr fs))" "?h p = Some (mk_av dp kp vp (rptr pl) (rptr pr) (top_ptr (gs @ f' # fs)))"
    using heap_at_node [OF a0] heap_at_node [OF assms(1)] tp by simp_all
  have "a \<noteq> p" using assms(1,2) by (auto simp: av_at_def)
  then have "swap_contents a p tree = Some (tree\<lparr>av_nodes := ?h2\<rparr>)" using n by (simp add: swap_contents_def upd_avn_def mk_av_def)
  then show ?thesis using a2 n by (auto simp: av_same_def)
qed

section \<open>The invariant\<close>

context byte_key_order
begin

definition av_compares :: "avlt_t \<Rightarrow> bool" where
  "av_compares tree \<longleftrightarrow> (\<forall>x \<in> K. \<forall>y \<in> K. av_cmp tree x (length x) y (length y) = Some (cmp x y))"

definition av_ok :: "avlt_t \<Rightarrow> atree \<Rightarrow> bool" where
  "av_ok tree T \<longleftrightarrow> av_at (av_nodes tree) [] T \<and> av_tree T \<and> av_root tree = rptr T \<and> dom (av_nodes tree) = set (taddrs T) \<and> (\<forall>a \<in> set (taddrs T). a < av_brk tree) \<and>
     av_compares tree \<and> (\<forall>i. \<not> av_fail tree i) \<and> ascending cmp (inord T) \<and> fst ` set (inord T) \<subseteq> K"

lemma av_key_loop_ok:
  assumes "a_at (av_nodes tree) p t" and "av_compares tree" and "fst ` set (inord t) \<subseteq> K" and "key \<in> K"
  shows "av_key_loop tree (rptr t) key (length key) = Some (rptr (snd (way_to cmp key t fs)))"
  using assms
proof (induction t arbitrary: p fs)
  case (Nd l a d k v r)
  have K: "k \<in> K" "fst ` set (inord l) \<subseteq> K" "fst ` set (inord r) \<subseteq> K" using Nd.prems(3) by auto
  then have "av_cmp tree k (length k) key (length key) = Some (cmp k key)" using Nd.prems(2,4) by (simp add: av_compares_def)
  then show ?case using Nd.IH(1) [of "Some a" "FL a d k v r # fs", OF _ Nd.prems(2) K(2) Nd.prems(4)] Nd.IH(2) [of "Some a" "FR l a d k v # fs", OF _ Nd.prems(2) K(3) Nd.prems(4)] Nd.prems(1)
    by (simp add: av_key_loop.simps [of _ "Some a"])
qed (simp add: av_key_loop.simps)

text \<open>Which node leaves the tree, and what is left of it.\<close>

lemma victim_ok:
  assumes "av_ok tree T" and "T = plug fs (Nd l a d k v r)"
  shows "\<exists>p t1 gs pl dp pr. (if rptr l \<noteq> None \<and> rptr r \<noteq> None then if fst d > snd d then avlt_find_prev tree a else avlt_find_next tree a else Some (Some a)) = Some (Some p) \<and>
    (if p \<noteq> a then swap_contents a p tree else Some tree) = Some t1 \<and> av_same t1 = av_same tree \<and> av_at (av_nodes t1) gs (Nd pl p dp k v pr) \<and> (pl = Tip \<or> pr = Tip) \<and>
    av_tree (plug gs (Nd pl p dp k v pr)) \<and> rptr (plug gs (Nd pl p dp k v pr)) = rptr T \<and> inord (plug gs (if pl \<noteq> Tip then pl else pr)) = c_left fs @ inord l @ inord r @ c_right fs \<and>
    set (taddrs (plug gs (Nd pl p dp k v pr))) = set (taddrs T)"
proof -
  have at: "av_at (av_nodes tree) fs (Nd l a d k v r)" and av: "av_tree (plug fs (Nd l a d k v r))" using assms by (auto simp: av_ok_def heap_plug)
  note n = heap_at_node [OF at]
  consider (one) "l = Tip \<or> r = Tip" | (prev) "l \<noteq> Tip" "r \<noteq> Tip" "fst d > snd d" | (nxt) "l \<noteq> Tip" "r \<noteq> Tip" "\<not> fst d > snd d" by blast
  then show ?thesis
  proof cases
    case one
    then have "rptr l = None \<or> rptr r = None" by auto
    then show ?thesis using at av assms(2) one by - (rule exI [of _ a], rule exI [of _ tree], rule exI [of _ fs], rule exI [of _ l], rule exI [of _ d], rule exI [of _ r], auto simp: inord_plug)
  next
    case prev
    obtain b where b: "rptr l = Some b" using prev(1) by (cases l) auto
    have "a_at (av_nodes tree) (Some a) l" using at by (simp add: av_at_def)
    from rightmost_ok [OF this b] obtain gs pl p dp kp vp where g: "l = plug gs (Nd pl p dp kp vp Tip)" "c_right gs = []" "av_rightmost tree b = Some p" by blast
    have "av_at (av_nodes tree) (gs @ FL a d k v r # fs) (Nd pl p dp kp vp Tip)" using at g(1) by (simp add: heap_append heap_move)
    from swap_contents_ok [OF this, of a d k v r] obtain t1 where t1: "swap_contents a p tree = Some t1" "av_at (av_nodes t1) (gs @ FL a d kp vp r # fs) (Nd pl p dp k v Tip)" "av_same t1 = av_same tree" by auto
    have "a \<noteq> p" using t1(2) by (auto simp: av_at_def)
    moreover have "avlt_find_prev tree a = Some (Some p)" using n b g(3) by (simp add: avlt_find_prev_def)
    moreover have "rptr r \<noteq> None" using prev(2) by (cases r) auto
    moreover have "av_tree (plug gs (Nd pl p dp k v Tip)) = av_tree l" "depth (plug gs (Nd pl p dp k v Tip)) = depth l" using av_tree_cong [of "Nd pl p dp k v Tip" "Nd pl p dp kp vp Tip" gs] g(1) by simp_all
    then have "av_tree (plug (gs @ FL a d kp vp r # fs) (Nd pl p dp k v Tip))" using av av_tree_cong [of "Nd (plug gs (Nd pl p dp k v Tip)) a d kp vp r" "Nd l a d k v r" fs] by (simp add: plug_append)
    moreover have "rptr (plug (gs @ FL a d kp vp r # fs) (Nd pl p dp k v Tip)) = rptr T" using assms(2) rptr_same [of "Nd (plug gs (Nd pl p dp k v Tip)) a d kp vp r" "Nd l a d k v r" fs] by (simp add: plug_append)
    moreover have "set (taddrs (plug (gs @ FL a d kp vp r # fs) (Nd pl p dp k v Tip))) = set (taddrs T)" using assms(2) g(1) by (auto simp: set_addrs_plug)
    moreover have "inord (plug (gs @ FL a d kp vp r # fs) pl) = c_left fs @ inord l @ inord r @ c_right fs" using g(1,2) by (simp add: inord_plug c_append)
    ultimately show ?thesis using b prev(3) t1 by - (rule exI [of _ p], rule exI [of _ t1], rule exI [of _ "gs @ FL a d kp vp r # fs"], rule exI [of _ pl], rule exI [of _ dp], rule exI [of _ Tip], cases "pl = Tip"; simp)
  next
    case nxt
    obtain b where b: "rptr r = Some b" using nxt(2) by (cases r) auto
    have "a_at (av_nodes tree) (Some a) r" using at by (simp add: av_at_def)
    from leftmost_ok [OF this b] obtain gs pr p dp kp vp where g: "r = plug gs (Nd Tip p dp kp vp pr)" "c_left gs = []" "av_leftmost tree b = Some p" by blast
    have "av_at (av_nodes tree) (gs @ FR l a d k v # fs) (Nd Tip p dp kp vp pr)" using at g(1) by (simp add: heap_append heap_move)
    from swap_contents_ok [OF this, of a d k v l] obtain t1 where t1: "swap_contents a p tree = Some t1" "av_at (av_nodes t1) (gs @ FR l a d kp vp # fs) (Nd Tip p dp k v pr)" "av_same t1 = av_same tree" by auto
    have "a \<noteq> p" using t1(2) by (auto simp: av_at_def)
    moreover have "avlt_find_next tree a = Some (Some p)" using n b g(3) by (simp add: avlt_find_next_def)
    moreover have "rptr l \<noteq> None" using nxt(1) by (cases l) auto
    moreover have "av_tree (plug gs (Nd Tip p dp k v pr)) = av_tree r" "depth (plug gs (Nd Tip p dp k v pr)) = depth r" using av_tree_cong [of "Nd Tip p dp k v pr" "Nd Tip p dp kp vp pr" gs] g(1) by simp_all
    then have "av_tree (plug (gs @ FR l a d kp vp # fs) (Nd Tip p dp k v pr))" using av av_tree_cong [of "Nd l a d kp vp (plug gs (Nd Tip p dp k v pr))" "Nd l a d k v r" fs] by (simp add: plug_append)
    moreover have "rptr (plug (gs @ FR l a d kp vp # fs) (Nd Tip p dp k v pr)) = rptr T" using assms(2) rptr_same [of "Nd l a d kp vp (plug gs (Nd Tip p dp k v pr))" "Nd l a d k v r" fs] by (simp add: plug_append)
    moreover have "set (taddrs (plug (gs @ FR l a d kp vp # fs) (Nd Tip p dp k v pr))) = set (taddrs T)" using assms(2) g(1) by (auto simp: set_addrs_plug)
    moreover have "inord (plug (gs @ FR l a d kp vp # fs) pr) = c_left fs @ inord l @ inord r @ c_right fs" using g(1,2) by (simp add: inord_plug c_append)
    ultimately show ?thesis using b nxt(3) t1 by - (rule exI [of _ p], rule exI [of _ t1], rule exI [of _ "gs @ FR l a d kp vp # fs"], rule exI [of _ Tip], rule exI [of _ dp], rule exI [of _ pr], simp)
  qed
qed

text \<open>\<open>avlt_remove\<close>, whose result is 0 also for a key that is not there.\<close>

lemma avlt_remove_ok:
  assumes "av_ok tree T" and "key \<in> K"
  shows "\<exists>tree' T'. avlt_remove want key (length key) tree = Some (0, if want then al_lookup cmp key (inord T) else None, tree') \<and> av_ok tree' T' \<and>
    inord T' = al_remove cmp key (inord T) \<and> av_free_value_cb tree' = av_free_value_cb tree \<and>
    av_freed tree' = av_freed tree @ (case al_lookup cmp key (inord T) of None \<Rightarrow> [] | Some v \<Rightarrow> if \<not> want \<and> v \<noteq> 0 \<and> av_free_value_cb tree then [v] else [])"
proof -
  obtain fs u where g: "way_to cmp key T [] = (fs, u)" by fastforce
  have T: "av_at (av_nodes tree) [] T" "av_root tree = rptr T" "dom (av_nodes tree) = set (taddrs T)" "\<forall>a \<in> set (taddrs T). a < av_brk tree" "av_compares tree" "\<forall>i. \<not> av_fail tree i"
    "ascending cmp (inord T)" "fst ` set (inord T) \<subseteq> K" using assms(1) by (auto simp: av_ok_def)
  have f: "av_key_loop tree (av_root tree) key (length key) = Some (rptr u)" using av_key_loop_ok [OF _ T(5,8) assms(2), of None "[]"] T(1,2) g by (simp add: av_at_def)
  have p: "T = plug fs u" using way_plug [OF g] by simp
  note cut = way_cut [OF g T(7,8) assms(2)]
  show ?thesis
  proof (cases u)
    case Tip
    then show ?thesis using f cut assms(1) by (intro exI [of _ tree] exI [of _ T]) (simp add: avlt_remove_def)
  next
    case (Nd l a d k v r)
    from victim_ok [OF assms(1) p [unfolded Nd]] obtain q t1 gs pl dp pr where
      v: "(if rptr l \<noteq> None \<and> rptr r \<noteq> None then if fst d > snd d then avlt_find_prev tree a else avlt_find_next tree a else Some (Some a)) = Some (Some q)"
      "(if q \<noteq> a then swap_contents a q tree else Some tree) = Some t1" "av_same t1 = av_same tree" "av_at (av_nodes t1) gs (Nd pl q dp k v pr)" "pl = Tip \<or> pr = Tip"
      "av_tree (plug gs (Nd pl q dp k v pr))" "rptr (plug gs (Nd pl q dp k v pr)) = rptr T" "inord (plug gs (if pl \<noteq> Tip then pl else pr)) = c_left fs @ inord l @ inord r @ c_right fs"
      "set (taddrs (plug gs (Nd pl q dp k v pr))) = set (taddrs T)" by blast
    have "av_root t1 = rptr (plug gs (Nd pl q dp k v pr))" using v(3,7) T(2) by (simp add: av_same_def)
    from av_unlink_ok [OF v(4-6) this] obtain t2 T' where t2: "unlink_node q t1 = Some t2" "av_at (av_nodes t2) [] T'" "rebalanced (plug gs (if pl \<noteq> Tip then pl else pr)) T'" "av_root t2 = rptr T'"
      "av_conf q t2 = av_conf q t1" by blast
    have n: "av_nodes tree a = Some (mk_av d k v (rptr l) (rptr r) (top_ptr fs))" by (rule heap_at_node [OF T(1) [unfolded p Nd heap_plug]])
    have n1: "av_nodes t1 q = Some (mk_av dp k v (rptr pl) (rptr pr) (top_ptr gs))" by (rule heap_at_node [OF v(4)])
    have n2: "av_nodes t2 q = Some (mk_av dp k v (rptr pl) (rptr pr) (top_ptr gs))" using t2(5) n1 by (simp add: av_conf_def)
    let ?t3 = "t2\<lparr>av_freed := av_freed t2 @ (if v \<noteq> 0 \<and> \<not> want \<and> av_free_value_cb t2 then [v] else []), av_nodes := (av_nodes t2)(q := None)\<rparr>"
    have run: "avlt_remove want key (length key) tree = Some (0, if want then Some v else None, ?t3)"
      using f Nd n v(1,2,5) n1 n2 t2(1) by (auto simp: avlt_remove_def avlt_node_destroy_def Let_def)
    have c: "av_cmp_keys_cb t2 = av_cmp_keys_cb tree" "av_free_value_cb t2 = av_free_value_cb tree" "av_brk t2 = av_brk tree" "av_fail t2 = av_fail tree" "av_freed t2 = av_freed tree" "dom (av_nodes t2) = set (taddrs T)"
      using t2(5) v(3) T(3) by (auto simp: av_conf_def av_same_def)
    have "set (taddrs T') = set (taddrs (plug gs (if pl \<noteq> Tip then pl else pr)))" by (rule rebalanced_set [OF t2(3)])
    then have A: "set (taddrs T) = insert q (set (taddrs T'))" "q \<notin> set (taddrs T')" using v(4,5,9) by (auto simp: set_addrs_plug av_at_def)
    have I: "inord T' = al_remove cmp key (inord T)" using t2(3) v(8) cut Nd by (simp add: rebalanced_def)
    have "av_at (av_nodes ?t3) [] T'" using heap_at_upd [OF t2(2) A(2)] by simp
    moreover have "dom (av_nodes ?t3) = set (taddrs T')" using c(6) A by auto
    moreover have "av_compares ?t3" using T(5) c(1) by (simp add: av_compares_def av_cmp_def)
    moreover have "ascending cmp (al_remove cmp key (inord T))" "fst ` set (al_remove cmp key (inord T)) \<subseteq> K" using T(7,8) by (auto simp: ascending_def al_remove_def sorted_wrt_filter)
    ultimately have "av_ok ?t3 T'" using t2(3,4) T(4,6) c(3,4) A(1) I by (simp add: av_ok_def rebalanced_def)
    then show ?thesis using run I c(2,5) cut Nd by (intro exI [of _ ?t3] exI [of _ T']) auto
  qed
qed

end

end
