(* ===== verification/Avltree_Life.thy ===== *)
theory Avltree_Life
  imports Avltree_Map
begin

text \<open>
  An AVL tree from its creation to its destruction: insertions at the ends, removals, the walk in ascending order, and the
  insertions between two keys, which can break the order.
\<close>

section \<open>Insertion at the ends\<close>

definition beyond :: "(byte list \<Rightarrow> byte list \<Rightarrow> int) \<Rightarrow> byte list \<Rightarrow> (byte list \<times> nat) list \<Rightarrow> bool" where
  "beyond cmp key E \<longleftrightarrow> (\<forall>e \<in> set E. cmp (fst e) key < 0) \<or> (\<forall>e \<in> set E. 0 < cmp (fst e) key)"

text \<open>The new leaf is linked below a frame, which counts it on its side.\<close>

definition added :: "nat \<Rightarrow> avlt_t \<Rightarrow> avlt_t \<Rightarrow> bool" where
  "added n tree tree' \<longleftrightarrow> av_root tree' = av_root tree \<and> av_cmp_keys_cb tree' = av_cmp_keys_cb tree \<and> av_free_value_cb tree' = av_free_value_cb tree \<and> av_brk tree' = Suc n \<and>
     av_fail tree' = av_fail tree \<and> av_freed tree' = av_freed tree \<and> dom (av_nodes tree') = insert n (dom (av_nodes tree))"

context byte_key_order
begin

lemma add_loop_right:
  assumes "av_at (av_nodes tree) fs t" and "rptr t = Some a" and "\<forall>e \<in> set (inord t). cmp (fst e) key < 0" and "fst ` set (inord t) \<subseteq> K" and "key \<in> K" and "av_compares tree"
    and "n = av_brk tree" and "n \<notin> set (taddrs t @ caddrs fs)" and "\<forall>i. \<not> av_fail tree i"
  shows "\<exists>tree' gs l q d d' k v. t = plug gs (Nd l q d k v Tip) \<and> c_right gs = [] \<and> add_loop a key (length key) nv tree = Some (Some q, tree') \<and>
    av_at (av_nodes tree') (FR l q d' k v # gs @ fs) (Nd Tip n (0, 0) key nv Tip) \<and> added n tree tree'"
  using assms
proof (induction t arbitrary: fs a)
  case (Nd l b d k v r)
  have n: "av_nodes tree b = Some (mk_av d k v (rptr l) (rptr r) (top_ptr fs))" "b = a" using heap_at_node [OF Nd.prems(1)] Nd.prems(2) by auto
  have K: "k \<in> K" "fst ` set (inord r) \<subseteq> K" "cmp k key < 0" using Nd.prems(3,4) by auto
  have c: "av_cmp tree key (length key) k (length k) = Some (cmp key k)" "0 < cmp key k" using Nd.prems(5,6) K cmp_sign [of k key] by (auto simp: av_compares_def)
  show ?case
  proof (cases r)
    case Tip
    let ?h = "(av_nodes tree)(n \<mapsto> mk_av (0, 0) key nv None None (Some a), a \<mapsto> mk_av (fst d, snd d + 1) k v (rptr l) (Some n) (top_ptr fs))"
    let ?t = "tree\<lparr>av_nodes := ?h, av_brk := Suc n\<rparr>"
    have na: "n \<noteq> a" using Nd.prems(8) n(2) by simp
    have "add_loop a key (length key) nv tree = Some (Some a, ?t)"
      using n c Tip na Nd.prems(7,9) by (simp add: add_loop.simps [of a] avlt_node_create_def upd_avn_def) (simp add: mk_av_def fun_upd_twist)
    moreover have "av_at (av_nodes ?t) (FR l a (fst d, snd d + 1) k v # [] @ fs) (Nd Tip n (0, 0) key nv Tip)" using Nd.prems(1,8) Tip n by (auto simp: av_at_def)
    moreover have "added n tree ?t" using n na by (auto simp: added_def)
    moreover have "Nd l b d k v r = plug [] (Nd l a d k v Tip)" "c_right [] = []" using n(2) Tip by simp_all
    ultimately show ?thesis by blast
  next
    case m: (Nd rl b' d' k' v' rr)
    have R: "av_at (av_nodes tree) (FR l b d k v # fs) r" using Nd.prems(1) by (simp add: heap_move)
    then have n': "av_nodes tree b' = Some (mk_av d' k' v' (rptr rl) (rptr rr) (Some b))" using m by (simp add: av_at_def)
    have "k' \<in> K" "cmp k' key < 0" using Nd.prems(3,4) m by auto
    then have "cmp_at tree b' key (length key) = Some (cmp k' key)" using n' Nd.prems(5,6) by (simp add: cmp_at_def av_compares_def)
    then have s: "add_loop a key (length key) nv tree = add_loop b' key (length key) nv tree" using n c m \<open>cmp k' key < 0\<close> by (simp add: add_loop.simps [of a])
    have "n \<notin> set (taddrs r @ caddrs (FR l b d k v # fs))" using Nd.prems(8) by auto
    from Nd.IH(2) [OF R _ _ K(2) Nd.prems(5,6,7) this Nd.prems(9)] Nd.prems(3) m obtain t1 gs l1 q d1 d2 k1 v1 where
      g: "r = plug gs (Nd l1 q d1 k1 v1 Tip)" "c_right gs = []" "add_loop b' key (length key) nv tree = Some (Some q, t1)"
      "av_at (av_nodes t1) (FR l1 q d2 k1 v1 # gs @ FR l b d k v # fs) (Nd Tip n (0, 0) key nv Tip)" "added n tree t1" by auto
    have "Nd l b d k v r = plug (gs @ [FR l b d k v]) (Nd l1 q d1 k1 v1 Tip)" "c_right (gs @ [FR l b d k v]) = []" using g(1,2) by (simp_all add: plug_append c_append)
    moreover have "av_at (av_nodes t1) (FR l1 q d2 k1 v1 # (gs @ [FR l b d k v]) @ fs) (Nd Tip n (0, 0) key nv Tip)" using g(4) by simp
    ultimately show ?thesis using g(3,5) s by metis
  qed
qed simp

lemma add_loop_left:
  assumes "av_at (av_nodes tree) fs t" and "rptr t = Some a" and "\<forall>e \<in> set (inord t). 0 < cmp (fst e) key" and "fst ` set (inord t) \<subseteq> K" and "key \<in> K" and "av_compares tree"
    and "n = av_brk tree" and "n \<notin> set (taddrs t @ caddrs fs)" and "\<forall>i. \<not> av_fail tree i"
  shows "\<exists>tree' gs r q d d' k v. t = plug gs (Nd Tip q d k v r) \<and> c_left gs = [] \<and> add_loop a key (length key) nv tree = Some (Some q, tree') \<and>
    av_at (av_nodes tree') (FL q d' k v r # gs @ fs) (Nd Tip n (0, 0) key nv Tip) \<and> added n tree tree'"
  using assms
proof (induction t arbitrary: fs a)
  case (Nd l b d k v r)
  have n: "av_nodes tree b = Some (mk_av d k v (rptr l) (rptr r) (top_ptr fs))" "b = a" using heap_at_node [OF Nd.prems(1)] Nd.prems(2) by auto
  have K: "k \<in> K" "fst ` set (inord l) \<subseteq> K" "0 < cmp k key" using Nd.prems(3,4) by auto
  have c: "av_cmp tree key (length key) k (length k) = Some (cmp key k)" "cmp key k < 0" using Nd.prems(5,6) K cmp_sign [of key k] by (auto simp: av_compares_def)
  show ?case
  proof (cases l)
    case Tip
    let ?h = "(av_nodes tree)(n \<mapsto> mk_av (0, 0) key nv None None (Some a), a \<mapsto> mk_av (fst d + 1, snd d) k v (Some n) (rptr r) (top_ptr fs))"
    let ?t = "tree\<lparr>av_nodes := ?h, av_brk := Suc n\<rparr>"
    have na: "n \<noteq> a" using Nd.prems(8) n(2) by simp
    have "add_loop a key (length key) nv tree = Some (Some a, ?t)"
      using n c Tip na Nd.prems(7,9) by (simp add: add_loop.simps [of a] avlt_node_create_def upd_avn_def) (simp add: mk_av_def fun_upd_twist)
    moreover have "av_at (av_nodes ?t) (FL a (fst d + 1, snd d) k v r # [] @ fs) (Nd Tip n (0, 0) key nv Tip)" using Nd.prems(1,8) Tip n by (auto simp: av_at_def)
    moreover have "added n tree ?t" using n na by (auto simp: added_def)
    moreover have "Nd l b d k v r = plug [] (Nd Tip a d k v r)" "c_left [] = []" using n(2) Tip by simp_all
    ultimately show ?thesis by blast
  next
    case m: (Nd ll b' d' k' v' lr)
    have L: "av_at (av_nodes tree) (FL b d k v r # fs) l" using Nd.prems(1) by (simp add: heap_move)
    then have n': "av_nodes tree b' = Some (mk_av d' k' v' (rptr ll) (rptr lr) (Some b))" using m by (simp add: av_at_def)
    have "k' \<in> K" "0 < cmp k' key" using Nd.prems(3,4) m by auto
    then have "cmp_at tree b' key (length key) = Some (cmp k' key)" using n' Nd.prems(5,6) by (simp add: cmp_at_def av_compares_def)
    then have s: "add_loop a key (length key) nv tree = add_loop b' key (length key) nv tree" using n c m \<open>0 < cmp k' key\<close> by (simp add: add_loop.simps [of a])
    have "n \<notin> set (taddrs l @ caddrs (FL b d k v r # fs))" using Nd.prems(8) by auto
    moreover have "\<forall>e \<in> set (inord l). 0 < cmp (fst e) key" "rptr l = Some b'" using Nd.prems(3) m by auto
    ultimately obtain t1 gs r1 q d1 d2 k1 v1 where
      g: "l = plug gs (Nd Tip q d1 k1 v1 r1)" "c_left gs = []" "add_loop b' key (length key) nv tree = Some (Some q, t1)"
      "av_at (av_nodes t1) (FL q d2 k1 v1 r1 # gs @ FL b d k v r # fs) (Nd Tip n (0, 0) key nv Tip)" "added n tree t1"
      using Nd.IH(1) [OF L _ _ K(2) Nd.prems(5,6,7) _ Nd.prems(9)] by blast
    have "Nd l b d k v r = plug (gs @ [FL b d k v r]) (Nd Tip q d1 k1 v1 r1)" "c_left (gs @ [FL b d k v r]) = []" using g(1,2) by (simp_all add: plug_append c_append)
    moreover have "av_at (av_nodes t1) (FL q d2 k1 v1 r1 # (gs @ [FL b d k v r]) @ fs) (Nd Tip n (0, 0) key nv Tip)" using g(4) by simp
    ultimately show ?thesis using g(3,5) s by metis
  qed
qed simp

text \<open>Both ends in one: the new leaf gets the place of an empty subtree.\<close>

lemma add_loop_end:
  assumes "av_ok tree T" and "rptr T = Some a" and "key \<in> K" and "beyond cmp key (inord T)"
  shows "\<exists>tree' f fs. T = plug (f # fs) Tip \<and> (\<exists>f'. fa f' = fa f \<and> fsib f' = fsib f \<and> c_left (f' # fs) = c_left (f # fs) \<and> c_right (f' # fs) = c_right (f # fs) \<and>
    add_loop a key (length key) nv tree = Some (Some (fa f'), tree') \<and> av_at (av_nodes tree') (f' # fs) (Nd Tip (av_brk tree) (0, 0) key nv Tip)) \<and>
    added (av_brk tree) tree tree' \<and> al_put cmp key nv (inord T) = c_left (f # fs) @ (key, nv) # c_right (f # fs)"
proof -
  have T: "av_at (av_nodes tree) [] T" "av_compares tree" "\<forall>i. \<not> av_fail tree i" "fst ` set (inord T) \<subseteq> K" "av_brk tree \<notin> set (taddrs T @ caddrs [])" using assms(1) by (auto simp: av_ok_def)
  show ?thesis
  proof (cases "\<forall>e \<in> set (inord T). cmp (fst e) key < 0")
    case True
    from add_loop_right [OF T(1) assms(2) True T(4) assms(3) T(2) refl T(5,3), of "nv"] obtain t1 gs l q d d' k v where
      g: "T = plug gs (Nd l q d k v Tip)" "c_right gs = []" "add_loop a key (length key) nv tree = Some (Some q, t1)"
      "av_at (av_nodes t1) (FR l q d' k v # gs) (Nd Tip (av_brk tree) (0, 0) key nv Tip)" "added (av_brk tree) tree t1" by auto
    have "al_put cmp key nv (inord T @ []) = inord T @ (key, nv) # []" by (rule al_split(4)) (use True in auto)
    then show ?thesis using g by - (rule exI [of _ t1], rule exI [of _ "FR l q d k v"], rule exI [of _ gs], auto simp: inord_plug intro!: exI [of _ "FR l q d' k v"])
  next
    case False
    then have up: "\<forall>e \<in> set (inord T). 0 < cmp (fst e) key" using assms(4) by (auto simp: beyond_def)
    from add_loop_left [OF T(1) assms(2) up T(4) assms(3) T(2) refl T(5,3), of "nv"] obtain t1 gs r q d d' k v where
      g: "T = plug gs (Nd Tip q d k v r)" "c_left gs = []" "add_loop a key (length key) nv tree = Some (Some q, t1)"
      "av_at (av_nodes t1) (FL q d' k v r # gs) (Nd Tip (av_brk tree) (0, 0) key nv Tip)" "added (av_brk tree) tree t1" by auto
    have "al_put cmp key nv ([] @ inord T) = [] @ (key, nv) # inord T" by (rule al_split(4)) (use up in auto)
    then show ?thesis using g by - (rule exI [of _ t1], rule exI [of _ "FL q d k v r"], rule exI [of _ gs], auto simp: inord_plug intro!: exI [of _ "FL q d' k v r"])
  qed
qed

lemma avlt_add_ok:
  assumes "av_ok tree T" and "key \<in> K" and "beyond cmp key (inord T)"
  shows "\<exists>tree' T'. avlt_add key (length key) nv tree = Some (0, tree') \<and> av_ok tree' T' \<and> inord T' = al_put cmp key nv (inord T) \<and>
    av_free_value_cb tree' = av_free_value_cb tree \<and> av_freed tree' = av_freed tree"
proof (cases "rptr T")
  case None
  then have t: "T = Tip" by (cases T) auto
  let ?n = "av_brk tree"
  let ?t = "tree\<lparr>av_nodes := (av_nodes tree)(?n \<mapsto> mk_av (0, 0) key nv None None None), av_brk := Suc ?n, av_root := Some ?n\<rparr>"
  have "avlt_add key (length key) nv tree = Some (0, ?t)" using assms(1) t by (simp add: avlt_add_def av_ok_def avlt_node_create_def mk_av_def)
  moreover have "av_ok ?t (Nd Tip ?n (0, 0) key nv Tip)" using assms(1,2) t by (simp add: av_ok_def av_at_def av_compares_def av_cmp_def ascending_def)
  ultimately show ?thesis using t by (intro exI [of _ ?t] exI [of _ "Nd Tip ?n (0, 0) key nv Tip"]) simp
next
  case (Some a)
  let ?n = "av_brk tree" and ?leaf = "Nd Tip (av_brk tree) (0, 0) key nv Tip"
  have T: "av_tree T" "av_root tree = rptr T" "dom (av_nodes tree) = set (taddrs T)" "\<forall>a \<in> set (taddrs T). a < ?n" "av_compares tree" "\<forall>i. \<not> av_fail tree i"
    "ascending cmp (inord T)" "fst ` set (inord T) \<subseteq> K" using assms(1) by (auto simp: av_ok_def)
  from add_loop_end [OF assms(1) Some assms(2,3), of "nv"] obtain t1 f fs f' where g: "T = plug (f # fs) Tip" "fa f' = fa f" "fsib f' = fsib f" "c_left (f' # fs) = c_left (f # fs)"
    "c_right (f' # fs) = c_right (f # fs)" "add_loop a key (length key) nv tree = Some (Some (fa f'), t1)" "av_at (av_nodes t1) (f' # fs) ?leaf" "added ?n tree t1"
    "al_put cmp key nv (inord T) = c_left (f # fs) @ (key, nv) # c_right (f # fs)" by blast
  have "cav (f # fs) 0" using av_tree_plug [of "f # fs" Tip] T(1) g(1) by simp
  then have cav: "cav (f' # fs) 0" using g(3) by simp
  have root: "av_root t1 = rptr (plug (f' # fs) ?leaf)" using g(1,2,8) T(2) rptr_same [of "plug1 f Tip" "plug1 f' ?leaf" fs] by (simp add: added_def)
  have A: "set (taddrs T) = set (caddrs (f' # fs))" using g(1-3) set_addrs_plug [of "f # fs" Tip] by simp
  have "Suc ?n \<notin> set (taddrs T)" using T(4) by (metis Suc_n_not_le_n less_imp_le)
  then have z: "Suc ?n \<notin> set (taddrs ?leaf @ caddrs (f' # fs))" using A by simp
  obtain t2 T' where t2: "avlt_balance (Some (fa f')) t1 = Some t2" "av_at (av_nodes t2) [] T'" "rebalanced (plug (f' # fs) ?leaf) T'" "av_root t2 = rptr T'" "av_conf (Suc ?n) t2 = av_conf (Suc ?n) t1"
    using balance_up [OF g(7) _ cav _ root z] by auto
  have I: "inord T' = al_put cmp key nv (inord T)" using t2(3) g(4,5,9) by (simp add: rebalanced_def inord_plug [of "f' # fs"] del: plug.simps)
  have S: "set (taddrs T') = insert ?n (set (taddrs T))" using rebalanced_set [OF t2(3)] A by (auto simp: set_addrs_plug simp del: plug.simps)
  have c: "av_cmp_keys_cb t2 = av_cmp_keys_cb tree" "av_free_value_cb t2 = av_free_value_cb tree" "av_brk t2 = Suc ?n" "av_fail t2 = av_fail tree" "av_freed t2 = av_freed tree" "dom (av_nodes t2) = insert ?n (set (taddrs T))"
    using t2(5) g(8) T(3) by (auto simp: av_conf_def added_def)
  have "av_compares t2" using T(5) c(1) by (simp add: av_compares_def av_cmp_def)
  moreover have "\<forall>x \<in> set (taddrs T'). x < Suc ?n" unfolding S using T(4) by (simp add: less_SucI)
  moreover have "fst ` set (al_put cmp key nv (inord T)) \<subseteq> K" using al_put_keys [of key nv "inord T"] T(8) assms(2) by blast
  ultimately have "av_ok t2 T'" using t2(2-4) c(3,4,6) S T(6) I ascending_put [OF T(7,8) assms(2), of "nv"] by (simp add: av_ok_def rebalanced_def)
  moreover have "avlt_add key (length key) nv tree = Some (0, t2)" using T(2) Some g(6) t2(1) by (simp add: avlt_add_def)
  ultimately show ?thesis using I c(2,5) by blast
qed

text \<open>The loop of \<open>avlt_destroy\<close> removes the root until there is none.\<close>

lemma avlt_destroy_ok:
  assumes "av_ok tree T"
  shows "\<exists>tree'. avlt_destroy tree = Some tree' \<and> av_nodes tree' = Map.empty \<and>
    mset (av_freed tree') = mset (av_freed tree) + (if av_free_value_cb tree then filter_mset (\<lambda>v. v \<noteq> 0) (mset (map snd (inord T))) else {#})"
  using assms
proof (induction "length (inord T)" arbitrary: tree T rule: less_induct)
  case less
  show ?case
  proof (cases T)
    case Tip
    then show ?thesis using less.prems by (auto simp: avlt_destroy.simps av_ok_def)
  next
    case (Nd l a d k v r)
    have n: "av_nodes tree a = Some (mk_av d k v (rptr l) (rptr r) None)" "av_root tree = Some a" "k \<in> K" "ascending cmp (inord T)" "fst ` set (inord T) \<subseteq> K" using less.prems Nd by (auto simp: av_ok_def av_at_def)
    have "way_to cmp k T [] = ([], Nd l a d k v r)" using cmp_refl [OF n(3)] Nd by simp
    from way_cut [OF this n(4,5,3)] have e: "al_lookup cmp k (inord T) = Some v" "al_remove cmp k (inord T) = inord l @ inord r" by simp_all
    from avlt_remove_ok [OF less.prems n(3), of False] e obtain t1 T1 where t1: "avlt_remove False k (length k) tree = Some (0, None, t1)" "av_ok t1 T1" "inord T1 = inord l @ inord r"
      "av_free_value_cb t1 = av_free_value_cb tree" "av_freed t1 = av_freed tree @ (if v \<noteq> 0 \<and> av_free_value_cb tree then [v] else [])" by auto
    from less.hyps [OF _ t1(2)] t1(3) Nd obtain t2 where "avlt_destroy t1 = Some t2" "av_nodes t2 = Map.empty"
      "mset (av_freed t2) = mset (av_freed t1) + (if av_free_value_cb t1 then filter_mset (\<lambda>v. v \<noteq> 0) (mset (map snd (inord T1))) else {#})" by auto
    then show ?thesis using n t1 Nd by (simp add: avlt_destroy.simps [of tree])
  qed
qed

end

section \<open>The walk\<close>

definition av_goes_on :: "(byte list \<Rightarrow> nat \<Rightarrow> 'u \<Rightarrow> int \<times> 'u) \<Rightarrow> bool" where
  "av_goes_on cb \<longleftrightarrow> (\<forall>k v u. fst (cb k v u) \<notin> {0, - 1, - 2})"

lemma av_walk_internal_ok:
  assumes "a_at (av_nodes tree) p t" and "rptr t = Some a" and "av_goes_on cb" and "int (length (inord t)) \<le> INT_MAX"
  shows "avt_walk_sorted_internal cb a u tree = Some (int (length (inord t)), visit cb (inord t) u, tree)"
  using assms
proof (induction t arbitrary: p a u)
  case (Nd l b d k v r)
  let ?u = "visit cb (inord l) u"
  obtain rc u' where cb: "cb k v ?u = (rc, u')" "rc \<noteq> 0" "rc \<noteq> - 1" "rc \<noteq> - 2" using Nd.prems(3) unfolding av_goes_on_def by (metis insertI1 insertI2 prod.collapse)
  have ck: "ck (int n) = Some (int n)" if "n \<le> length (inord l) + length (inord r) + 1" for n using Nd.prems(4) that by (intro ck_Some) simp_all
  have L: "(case rptr l of None \<Rightarrow> Some (0, u, tree) | Some x \<Rightarrow> avt_walk_sorted_internal cb x u tree) = Some (int (length (inord l)), ?u, tree)"
    using Nd.IH(1) [of "Some b" _ u] Nd.prems by (cases l) simp_all
  have R: "(case rptr r of None \<Rightarrow> Some (0, u', tree) | Some x \<Rightarrow> avt_walk_sorted_internal cb x u' tree) = Some (int (length (inord r)), visit cb (inord r) u', tree)"
    using Nd.IH(2) [of "Some b" _ u'] Nd.prems by (cases r) simp_all
  show ?case
    using Nd.prems(1,2) cb L R ck [of "length (inord l) + 1"] ck [of "length (inord l) + length (inord r) + 1"]
    by (simp add: avt_walk_sorted_internal.simps [of _ a] add.commute add.left_commute)
qed simp

section \<open>The depth\<close>

lemma av_depth: "av_tree t \<Longrightarrow> 2 ^ (depth t div 2) \<le> Suc (length (inord t))"
proof (induction t)
  case (Nd l a d k v r)
  let ?m = "min (depth l) (depth r)"
  have d: "depth (Nd l a d k v r) \<le> ?m + 2" using Nd.prems by (auto simp: min_def max_def)
  have i: "2 ^ (depth l div 2) \<le> Suc (length (inord l))" "2 ^ (depth r div 2) \<le> Suc (length (inord r))" using Nd by auto
  have "2 ^ (?m div 2) \<le> (2 :: nat) ^ (depth l div 2)" "2 ^ (?m div 2) \<le> (2 :: nat) ^ (depth r div 2)" by (simp_all add: div_le_mono)
  then have "2 * 2 ^ (?m div 2) \<le> Suc (length (inord l)) + Suc (length (inord r))" using i by linarith
  moreover have "(2 :: nat) ^ (depth (Nd l a d k v r) div 2) \<le> 2 ^ ((?m + 2) div 2)" using div_le_mono [OF d, of 2] by (intro power_increasing) simp_all
  ultimately show ?case by simp
qed simp

section \<open>Calls and their answers\<close>

datatype av_call = A_add "byte list" nat | A_remove bool "byte list"

datatype av_answer = A_code int | A_removed int "nat option"

fun av_exec :: "av_call \<Rightarrow> avlt_t \<Rightarrow> (av_answer \<times> avlt_t) option" where
  "av_exec (A_add k v) tree = map_option (\<lambda>(rc, tree). (A_code rc, tree)) (avlt_add k (length k) v tree)"
| "av_exec (A_remove want k) tree = map_option (\<lambda>(rc, v, tree). (A_removed rc v, tree)) (avlt_remove want k (length k) tree)"

text \<open>
  The specification on the sorted list and the released values: an insertion is specified beyond the keys that are there, a removal
  for a key that is there.
\<close>

fun av_spec :: "(byte list \<Rightarrow> byte list \<Rightarrow> int) \<Rightarrow> bool \<Rightarrow> av_call \<Rightarrow> (byte list \<times> nat) list \<times> nat list \<Rightarrow> (av_answer \<times> (byte list \<times> nat) list \<times> nat list) option" where
  "av_spec cmp cb (A_add k v) (E, F) = (if beyond cmp k E then Some (A_code 0, al_put cmp k v E, F) else None)"
| "av_spec cmp cb (A_remove want k) (E, F) = (case al_lookup cmp k E of
     None \<Rightarrow> None
   | Some v \<Rightarrow> Some (A_removed 0 (if want then Some v else None), al_remove cmp k E, F @ (if \<not> want \<and> v \<noteq> 0 \<and> cb then [v] else [])))"

fun av_call_key :: "av_call \<Rightarrow> byte list" where
  "av_call_key (A_add k v) = k"
| "av_call_key (A_remove want k) = k"

context byte_key_order
begin

definition av_rel :: "bool \<Rightarrow> avlt_t \<Rightarrow> (byte list \<times> nat) list \<times> nat list \<Rightarrow> bool" where
  "av_rel cb tree = (\<lambda>(E, F). \<exists>T. av_ok tree T \<and> inord T = E \<and> av_free_value_cb tree = cb \<and> av_freed tree = F)"

lemma av_exec_ok:
  assumes "av_rel cb tree (E, F)" and "av_call_key c \<in> K" and "av_spec cmp cb c (E, F) = Some (a, s)"
  shows "\<exists>tree'. av_exec c tree = Some (a, tree') \<and> av_rel cb tree' s"
proof -
  obtain T where T: "av_ok tree T" "inord T = E" "av_free_value_cb tree = cb" "av_freed tree = F" using assms(1) by (auto simp: av_rel_def)
  show ?thesis
  proof (cases c)
    case (A_add k v)
    then have b: "beyond cmp k E" "a = A_code 0" "s = (al_put cmp k v E, F)" using assms(3) by (auto split: if_splits)
    then show ?thesis using avlt_add_ok [OF T(1), of k v] T(2-4) assms(2) A_add by (fastforce simp: av_rel_def)
  next
    case (A_remove want k)
    from avlt_remove_ok [OF T(1), of k want] T(2-4) A_remove assms(2) obtain t1 T1 where "avlt_remove want k (length k) tree = Some (0, if want then al_lookup cmp k E else None, t1)" "av_ok t1 T1"
      "inord T1 = al_remove cmp k E" "av_free_value_cb t1 = cb" "av_freed t1 = F @ (case al_lookup cmp k E of None \<Rightarrow> [] | Some v \<Rightarrow> if \<not> want \<and> v \<noteq> 0 \<and> cb then [v] else [])" by auto
    then show ?thesis using A_remove assms(3) by (auto simp: av_rel_def split: option.splits)
  qed
qed

lemma av_run_ok:
  assumes "av_rel cb tree s" and "\<forall>c \<in> set calls. av_call_key c \<in> K" and "calls_run (av_spec cmp cb) calls s = Some (as, t)"
  shows "\<exists>tree'. calls_run av_exec calls tree = Some (as, tree') \<and> av_rel cb tree' t"
  using assms
proof (induction calls arbitrary: tree s as)
  case (Cons c calls)
  obtain E F where s: "s = (E, F)" by fastforce
  from Cons.prems(3) obtain a s' bs where a: "av_spec cmp cb c s = Some (a, s')" "calls_run (av_spec cmp cb) calls s' = Some (bs, t)" "as = a # bs" by (auto simp: bind_eq_Some_conv)
  from av_exec_ok [of cb tree E F c a s'] Cons.prems(1,2) a(1) s obtain t1 where t1: "av_exec c tree = Some (a, t1)" "av_rel cb t1 s'" by auto
  from Cons.IH [OF t1(2) _ a(2)] Cons.prems(2) show ?case using t1(1) a(3) by auto
qed simp

end

lemma av_spec_length: "calls_run (av_spec cmp cb) calls (E, F) = Some (as, E', F') \<Longrightarrow> length E' \<le> length E + length calls"
proof (induction calls arbitrary: E F as)
  case (Cons c calls)
  then obtain a E1 F1 bs where a: "av_spec cmp cb c (E, F) = Some (a, E1, F1)" "calls_run (av_spec cmp cb) calls (E1, F1) = Some (bs, E', F')" by (auto simp: bind_eq_Some_conv)
  have "length (al_remove cmp k E) \<le> Suc (length E)" for k by (simp add: al_remove_def le_SucI)
  then have "length E1 \<le> Suc (length E)" using a(1) al_put_length by (cases c) (auto split: if_splits option.splits)
  then show ?case using Cons.IH [OF a(2)] by simp
qed simp

text \<open>
  \<open>C7\<close>: an AVL tree refines a sorted list. For every sequence of insertions of keys beyond those in the tree and of removals of
  keys that are in it: \<open>avlt_add\<close> returns 0 and adds the key; \<open>avlt_remove\<close> takes out the entry, whose value goes to the
  caller or to the release callback, and returns 0. After them the store holds an AVL tree with right heights in all nodes, whose
  entries are those of the list and whose depth is logarithmic; \<open>avlt_walk_sorted\<close> visits them in ascending order and counts
  them; \<open>avlt_destroy\<close> ends, releases every node and gives every value that is not NULL to the callback.
\<close>

theorem avlt_refines_sorted_list:
  assumes "key_order cmp K" and "avlt_create False cmp_cb cb (\<lambda>_. False) = Some tree"
    and "\<forall>x \<in> K. \<forall>y \<in> K. av_cmp tree x (length x) y (length y) = Some (cmp x y)"
    and "\<forall>c \<in> set calls. av_call_key c \<in> K" and "calls_run (av_spec cmp cb) calls ([], []) = Some (as, E, F)"
    and "int (length calls) \<le> INT_MAX" and "av_goes_on w"
  shows "\<exists>tree1 T tree2. calls_run av_exec calls tree = Some (as, tree1) \<and> av_freed tree1 = F \<and>
    av_at (av_nodes tree1) [] T \<and> av_root tree1 = rptr T \<and> av_tree T \<and> inord T = E \<and> 2 ^ (depth T div 2) \<le> Suc (length E) \<and>
    avlt_walk_sorted w u tree1 = Some (int (length E), visit w E u, tree1) \<and>
    avlt_destroy tree1 = Some tree2 \<and> av_nodes tree2 = Map.empty \<and>
    mset (av_freed tree2) = mset F + (if cb then filter_mset (\<lambda>v. v \<noteq> 0) (mset (map snd E)) else {#})"
proof -
  note ord = byte_key_order.intro [OF assms(1)]
  have c: "byte_key_order.av_compares cmp K tree" using assms(3) ord by (simp add: byte_key_order.av_compares_def)
  have "byte_key_order.av_rel cmp K cb tree ([], [])" using assms(2) c ord
    by (auto simp: byte_key_order.av_rel_def byte_key_order.av_ok_def avlt_create_def av_at_def ascending_def intro!: exI [of _ Tip])
  from byte_key_order.av_run_ok [OF ord this assms(4,5)] obtain tree1 T where r: "calls_run av_exec calls tree = Some (as, tree1)" "byte_key_order.av_ok cmp K tree1 T"
    "inord T = E" "av_free_value_cb tree1 = cb" "av_freed tree1 = F" using ord by (auto simp: byte_key_order.av_rel_def)
  have T: "av_at (av_nodes tree1) [] T" "av_root tree1 = rptr T" "av_tree T" using r(2) ord by (auto simp: byte_key_order.av_ok_def)
  then have t: "a_at (av_nodes tree1) None T" by (auto simp: av_at_def)
  have "length E \<le> length calls" using av_spec_length [OF assms(5)] by simp
  then have w: "avlt_walk_sorted w u tree1 = Some (int (length E), visit w E u, tree1)"
    using av_walk_internal_ok [OF t _ assms(7), of _ u] assms(6) r(3) T(2) by (cases T) (auto simp: avlt_walk_sorted_def)
  from byte_key_order.avlt_destroy_ok [OF ord r(2)] obtain tree2 where "avlt_destroy tree1 = Some tree2" "av_nodes tree2 = Map.empty"
    "mset (av_freed tree2) = mset F + (if cb then filter_mset (\<lambda>v. v \<noteq> 0) (mset (map snd E)) else {#})" using r(3-5) by auto
  then show ?thesis using r T w av_depth [OF T(3)] by blast
qed

theorem avlt_refines_sorted_list_witness:
  "\<exists>tree tree1. avlt_create False (Some libhl_cmp_keys_int16) True (\<lambda>_. False) = Some tree \<and>
    calls_run av_exec [A_add [2, 0] 7, A_add [3, 0] 8, A_add [1, 0] 9, A_remove True [2, 0], A_remove False [3, 0]] tree
      = Some ([A_code 0, A_code 0, A_code 0, A_removed 0 (Some 7), A_removed 0 None], tree1) \<and>
    av_freed tree1 = [8] \<and> avlt_walk_sorted (\<lambda>k v u. (1, u @ [v])) [] tree1 = Some (1, [9], tree1)"
proof -
  let ?cmp = "cmp_keys libhl_cmp_keys_int16" and ?calls = "[A_add [2, 0] 7, A_add [3, 0] 8, A_add [1, 0] 9, A_remove True [2, 0], A_remove False [3, 0]]"
  let ?w = "\<lambda>(k :: byte list) (v :: nat) u. (1 :: int, u @ [v])"
  obtain tree where tree: "avlt_create False (Some libhl_cmp_keys_int16) True (\<lambda>_. False) = Some tree" by (simp add: avlt_create_def)
  have cb: "av_cmp_keys_cb tree = Some libhl_cmp_keys_int16" using tree by (auto simp: avlt_create_def)
  have d: "\<forall>x \<in> small_keys. \<forall>y \<in> small_keys. av_cmp tree x (length x) y (length y) = Some (?cmp x y)"
    by (intro ballI) (simp only: av_cmp_def cb Option.bind.bind_lunit int16_defined)
  have c: "?cmp [2, 0] [3, 0] = - 1" "?cmp [2, 0] [1, 0] = 1" "?cmp [3, 0] [1, 0] = 2" "?cmp [1, 0] [2, 0] = - 1" "?cmp [2, 0] [2, 0] = 0" "?cmp [3, 0] [2, 0] = 1" "?cmp [1, 0] [3, 0] = - 2" "?cmp [3, 0] [3, 0] = 0"
    by code_simp+
  have k: "\<forall>c \<in> set ?calls. av_call_key c \<in> small_keys" "int (length ?calls) \<le> INT_MAX" "av_goes_on ?w" by (simp_all add: small_keys_def av_goes_on_def)
  have r: "calls_run (av_spec ?cmp True) ?calls ([], []) = Some ([A_code 0, A_code 0, A_code 0, A_removed 0 (Some 7), A_removed 0 None], [([1, 0], 9)], [8])"
    using c by (simp add: beyond_def al_remove_def)
  from avlt_refines_sorted_list [OF int16.key_order_axioms tree d k(1) r k(2,3), of "[]"] tree show ?thesis by auto
qed

section \<open>Where the operations fall short\<close>

definition av_try :: "av_call list \<Rightarrow> (av_answer list \<times> avlt_t) option" where
  "av_try calls = Option.bind (avlt_create False (Some cmp_keys_default_cb) True (\<lambda>_. False)) (calls_run av_exec calls)"

definition keys_in_order :: "avlt_t \<Rightarrow> byte list list option" where
  "keys_in_order tree = map_option (\<lambda>(cnt, ks, tree). ks) (avlt_walk_sorted (\<lambda>k v ks. (1, ks @ [k])) [] tree)"

text \<open>An insertion between two keys moves a whole subtree by its root: afterwards the keys are not in order.\<close>

lemma insertion_breaks_order:
  "Option.bind (av_try (map (\<lambda>n. A_add [n] 1) [3, 10, 8, 2, 1, 9, 7, 5])) (keys_in_order \<circ> snd) = Some [[1], [2], [5], [3], [7], [8], [9], [10]]"
  by code_simp

text \<open>It also compares with two keys only: a key that is deeper in the tree is added a second time, with the result 0.\<close>

lemma insertion_duplicates:
  "map_option fst (av_try (map (\<lambda>n. A_add [n] 1) [3, 6, 5, 1, 10, 2, 4, 3])) = Some (replicate 8 (A_code 0))"
  "Option.bind (av_try (map (\<lambda>n. A_add [n] 1) [3, 6, 5, 1, 10, 2, 4, 3])) (keys_in_order \<circ> snd) = Some [[1], [2], [3], [3], [4], [5], [6], [10]]"
  by code_simp+

text \<open>A removal of a key that is not there returns 0 and leaves the tree, where \<open>avltree.h\<close> promises \<open>-1\<close>.\<close>

lemma remove_absent_succeeds:
  "map_option fst (av_try [A_add [1] 7, A_remove True [2]]) = Some [A_code 0, A_removed 0 None]"
  "Option.bind (av_try [A_add [1] 7, A_remove True [2]]) (keys_in_order \<circ> snd) = Some [[1]]"
  by code_simp+

text \<open>A walk that is asked to remove a leaf goes on with the children of the node that it has released.\<close>

lemma walk_reads_released:
  "Option.bind (av_try [A_add [1] 7]) (\<lambda>(as, tree). avlt_walk_sorted (\<lambda>k v u. (- 1, u @ [v])) [] tree) = None"
  "Option.bind (av_try [A_add [1] 7]) (\<lambda>(as, tree). avlt_walk (\<lambda>k v u. (- 1, u @ [v])) [] tree) = None"
  by code_simp+

end
