(* ===== verification/Refcnt.thy ===== *)
theory Refcnt
  imports Rqueue
begin

text \<open>
  Model of \<open>src/src/refcnt.c\<close>: reference counted nodes. A node whose count drops to zero is terminated and goes to a
  list of nodes to be freed; when that list is longer than a threshold, the oldest nodes are handed to a callback and
  then to a pool for reuse. The list and the pool are queues of \<open>rqueue.c\<close> and are used with the operations of
  \<open>Rqueue\<close>.

  The operations are given as a single thread runs them, so a \<open>CAS\<close> compares with the value just read. Nodes are cells of a
  heap; \<open>None\<close> is an access to a node that is not allocated or to a queue that is NULL. A link is a pointer to
  a node with a mark in its lowest bit. The address of a link is given by how it is read and written, so that links
  can be in the memory of the client, whose state is the field \<open>rc_client\<close>. The callbacks are arguments.
\<close>

section \<open>Data\<close>

type_synonym node_ptr = "nat option"
type_synonym node_link = "node_ptr \<times> bool"

record ('p, 'd) refcnt_node_t =
  rn_ptr :: "'p option"
  rn_priv :: "'d option"
  rn_count :: nat
  rn_updating :: bool

record ('p, 'd, 'w) refcnt_t =
  rc_nodes :: "nat \<rightharpoonup> ('p, 'd) refcnt_node_t"
  rc_free_list :: "nat rqueue_t option"
  rc_node_pool :: "nat rqueue_t option"
  rc_gc_threshold :: nat
  rc_next :: nat
  rc_fails :: "nat \<Rightarrow> bool"
  rc_client :: 'w

record ('p, 'd, 'w) refcnt_callbacks =
  terminate_node_cb :: "(nat \<Rightarrow> 'd option \<Rightarrow> ('p, 'd, 'w) refcnt_t \<Rightarrow> ('p, 'd, 'w) refcnt_t option) option"
  free_node_ptr_cb :: "('p option \<Rightarrow> ('p, 'd, 'w) refcnt_t \<Rightarrow> ('p, 'd, 'w) refcnt_t option) option"

text \<open>The address of a link: how to read it and how to write it.\<close>

type_synonym ('p, 'd, 'w) link_addr =
  "(('p, 'd, 'w) refcnt_t \<Rightarrow> node_link option) \<times> (node_link \<Rightarrow> ('p, 'd, 'w) refcnt_t \<Rightarrow> ('p, 'd, 'w) refcnt_t option)"

definition REFCNT_MARK_ON :: "node_link \<Rightarrow> node_link" where
  "REFCNT_MARK_ON l = (fst l, True)"

definition REFCNT_MARK_OFF :: "node_link \<Rightarrow> node_ptr" where
  "REFCNT_MARK_OFF l = fst l"

definition REFCNT_IS_MARKED :: "node_link \<Rightarrow> bool" where
  "REFCNT_IS_MARKED l = snd l"

definition set_rc_node ::
  "nat \<Rightarrow> (('p, 'd) refcnt_node_t \<Rightarrow> ('p, 'd) refcnt_node_t) \<Rightarrow> ('p, 'd, 'w) refcnt_t \<Rightarrow> ('p, 'd, 'w) refcnt_t option" where
  "set_rc_node a f rc = (case rc_nodes rc a of None \<Rightarrow> None | Some n \<Rightarrow> Some (rc\<lparr>rc_nodes := (rc_nodes rc)(a \<mapsto> f n)\<rparr>))"

definition free_rc_node :: "nat \<Rightarrow> ('p, 'd, 'w) refcnt_t \<Rightarrow> ('p, 'd, 'w) refcnt_t option" where
  "free_rc_node a rc = (if rc_nodes rc a = None then None else Some (rc\<lparr>rc_nodes := (rc_nodes rc)(a := None)\<rparr>))"

fun free_nodes :: "nat list \<Rightarrow> ('p, 'd, 'w) refcnt_t \<Rightarrow> ('p, 'd, 'w) refcnt_t option" where
  "free_nodes [] rc = Some rc"
| "free_nodes (a # as) rc = do { rc \<leftarrow> free_rc_node a rc; free_nodes as rc }"

text \<open>The queues of the context. The release callback of the pool is \<open>free\<close>: what it got is freed at once.\<close>

definition free_list_length :: "('p, 'd, 'w) refcnt_t \<Rightarrow> nat" where
  "free_list_length rc = (rqueue_write_count (rc_free_list rc) + (SIZE_MAX + 1 - rqueue_read_count (rc_free_list rc))) mod (SIZE_MAX + 1)"

definition free_list_read :: "('p, 'd, 'w) refcnt_t \<Rightarrow> (nat option \<times> ('p, 'd, 'w) refcnt_t) option" where
  "free_list_read rc = do { q \<leftarrow> rc_free_list rc; (v, q) \<leftarrow> rqueue_read q; Some (v, rc\<lparr>rc_free_list := Some q\<rparr>) }"

definition free_list_write :: "nat \<Rightarrow> ('p, 'd, 'w) refcnt_t \<Rightarrow> (int \<times> ('p, 'd, 'w) refcnt_t) option" where
  "free_list_write a rc = do { q \<leftarrow> rc_free_list rc; (c, q) \<leftarrow> rqueue_write q (Some a); Some (c, rc\<lparr>rc_free_list := Some q\<rparr>) }"

definition pool_read :: "('p, 'd, 'w) refcnt_t \<Rightarrow> (nat option \<times> ('p, 'd, 'w) refcnt_t) option" where
  "pool_read rc = do { q \<leftarrow> rc_node_pool rc; (v, q) \<leftarrow> rqueue_read q; Some (v, rc\<lparr>rc_node_pool := Some q\<rparr>) }"

definition pool_write :: "nat \<Rightarrow> ('p, 'd, 'w) refcnt_t \<Rightarrow> (int \<times> ('p, 'd, 'w) refcnt_t) option" where
  "pool_write a rc = do {
     q \<leftarrow> rc_node_pool rc;
     (c, q') \<leftarrow> rqueue_write q (Some a);
     rc \<leftarrow> free_nodes (drop (length (rq_freed q)) (rq_freed q')) (rc\<lparr>rc_node_pool := Some q'\<rparr>);
     Some (c, rc)
   }"

section \<open>Creation and garbage collection\<close>

definition FREE_LIST_MIN_SIZE :: nat where
  "FREE_LIST_MIN_SIZE = 256"

definition NODE_POOL_SIZE :: nat where
  "NODE_POOL_SIZE = 65536"

text \<open>
  The results of the two calls of \<open>rqueue_create\<close> are not checked: \<open>rqueue_set_free_value_callback\<close> on NULL is
  undefined. \<open>a\<close> is the next address, \<open>w\<close> the state of the client. A queue of \<open>n\<close> values takes \<open>n + 3\<close> blocks.
\<close>

definition refcnt_create ::
  "(nat \<Rightarrow> bool) \<Rightarrow> nat \<Rightarrow> 'w \<Rightarrow> nat \<Rightarrow> ('p, 'd, 'w) refcnt_t option option" where
  "refcnt_create fails a w gc_threshold =
     (if fails a then Some None
      else do {
        let rqueue_size = to_int (add32 gc_threshold (gc_threshold div 2));
        let siz = (if rqueue_size < int FREE_LIST_MIN_SIZE then FREE_LIST_MIN_SIZE else nat rqueue_size);
        (free_list, _) \<leftarrow> rqueue_create fails (Suc a) siz RQUEUE_MODE_BLOCKING;
        (node_pool, _) \<leftarrow> rqueue_create fails (a + siz + 4) NODE_POOL_SIZE RQUEUE_MODE_BLOCKING;
        pool \<leftarrow> node_pool;
        Some (Some \<lparr>rc_nodes = Map.empty, rc_free_list = free_list,
                    rc_node_pool = Some (rqueue_set_free_value_callback pool True), rc_gc_threshold = gc_threshold,
                    rc_next = a + siz + NODE_POOL_SIZE + 7, rc_fails = fails, rc_client = w\<rparr>)
      })"

partial_function (option) gc_loop ::
  "('p, 'd, 'w) refcnt_callbacks \<Rightarrow> nat \<Rightarrow> ('p, 'd, 'w) refcnt_t \<Rightarrow> ('p, 'd, 'w) refcnt_t option" where
  "gc_loop cbs limit rc =
     (if free_list_length rc > limit then do {
        (v, rc) \<leftarrow> free_list_read rc;
        case v of
          None \<Rightarrow> Some rc
        | Some ref \<Rightarrow> do {
            rc \<leftarrow> (case free_node_ptr_cb cbs of
                     None \<Rightarrow> Some rc
                   | Some f \<Rightarrow> do { n \<leftarrow> rc_nodes rc ref; f (rn_ptr n) rc });
            (c, rc) \<leftarrow> pool_write ref rc;
            rc \<leftarrow> (if c \<noteq> 0 then free_rc_node ref rc else Some rc);
            gc_loop cbs limit rc
          }
      } else Some rc)"

definition gc :: "('p, 'd, 'w) refcnt_callbacks \<Rightarrow> ('p, 'd, 'w) refcnt_t \<Rightarrow> bool \<Rightarrow> ('p, 'd, 'w) refcnt_t option" where
  "gc cbs rc force = gc_loop cbs (if force then 0 else rc_gc_threshold rc div 2) rc"

text \<open>
  \<open>refcnt_destroy\<close>: the list of nodes to be freed has no callback; the pool frees its nodes. What is left are the pages
  and nodes that are still allocated.
\<close>

definition refcnt_destroy :: "('p, 'd, 'w) refcnt_callbacks \<Rightarrow> ('p, 'd, 'w) refcnt_t \<Rightarrow> ('p, 'd, 'w) refcnt_t option" where
  "refcnt_destroy cbs rc = do {
     rc \<leftarrow> gc cbs rc True;
     f \<leftarrow> rc_free_list rc;
     f \<leftarrow> rqueue_destroy f;
     p \<leftarrow> rc_node_pool rc;
     p' \<leftarrow> rqueue_destroy p;
     free_nodes (drop (length (rq_freed p)) (rq_freed p')) (rc\<lparr>rc_free_list := Some f, rc_node_pool := Some p'\<rparr>)
   }"

section \<open>References\<close>

definition deref_link_internal ::
  "('p, 'd, 'w) link_addr \<Rightarrow> bool \<Rightarrow> ('p, 'd, 'w) refcnt_t \<Rightarrow> (node_ptr \<times> ('p, 'd, 'w) refcnt_t) option" where
  "deref_link_internal link skip_deleted rc = do {
     l \<leftarrow> fst link rc;
     if l = REFCNT_MARK_ON l \<and> skip_deleted then Some (None, rc)
     else case REFCNT_MARK_OFF l of
       None \<Rightarrow> Some (None, rc)
     | Some node \<Rightarrow> do {
         n \<leftarrow> rc_nodes rc node;
         if \<not> (rn_updating n \<and> rn_count n = 0) then do {
           rc \<leftarrow> set_rc_node node (\<lambda>n. n\<lparr>rn_count := add32 (rn_count n) 1\<rparr>) rc;
           Some (Some node, rc)
         } else Some (None, rc)
       }
   }"

definition deref_link_d :: "('p, 'd, 'w) link_addr \<Rightarrow> ('p, 'd, 'w) refcnt_t \<Rightarrow> (node_ptr \<times> ('p, 'd, 'w) refcnt_t) option" where
  "deref_link_d link rc = deref_link_internal link False rc"

definition deref_link :: "('p, 'd, 'w) link_addr \<Rightarrow> ('p, 'd, 'w) refcnt_t \<Rightarrow> (node_ptr \<times> ('p, 'd, 'w) refcnt_t) option" where
  "deref_link link rc = deref_link_internal link True rc"

text \<open>
  \<open>release_ref\<close> with a context. The result is NULL when the node was terminated. The result of the write to the
  list of nodes to be freed is ignored.
\<close>

definition release_rc_node ::
  "('p, 'd, 'w) refcnt_callbacks \<Rightarrow> nat \<Rightarrow> ('p, 'd, 'w) refcnt_t \<Rightarrow> (node_ptr \<times> ('p, 'd, 'w) refcnt_t) option" where
  "release_rc_node cbs ref rc = do {
     n \<leftarrow> rc_nodes rc ref;
     rc \<leftarrow> (if rn_count n > 0 then set_rc_node ref (\<lambda>n. n\<lparr>rn_count := sub32 (rn_count n) 1\<rparr>) rc else Some rc);
     n \<leftarrow> rc_nodes rc ref;
     (terminated, rc) \<leftarrow>
       (if \<not> rn_updating n then do {
          rc \<leftarrow> set_rc_node ref (\<lambda>n. n\<lparr>rn_updating := True\<rparr>) rc;
          if rn_count n = 0 then do {
            rc \<leftarrow> (case terminate_node_cb cbs of None \<Rightarrow> Some rc | Some f \<Rightarrow> f ref (rn_priv n) rc);
            (_, rc) \<leftarrow> free_list_write ref rc;
            Some (True, rc)
          } else do { rc \<leftarrow> set_rc_node ref (\<lambda>n. n\<lparr>rn_updating := False\<rparr>) rc; Some (False, rc) }
        } else Some (False, rc));
     rc \<leftarrow> (if free_list_length rc > rc_gc_threshold rc then gc cbs rc False else Some rc);
     Some (if terminated then None else Some ref, rc)
   }"

text \<open>\<open>ref\<close> is dereferenced without a test.\<close>

definition release_ref ::
  "('p, 'd, 'w) refcnt_callbacks \<Rightarrow> ('p, 'd, 'w) refcnt_t option \<Rightarrow> node_ptr \<Rightarrow> (node_ptr \<times> ('p, 'd, 'w) refcnt_t option) option" where
  "release_ref cbs refcnt ref = (case refcnt of
     None \<Rightarrow> Some (None, None)
   | Some rc \<Rightarrow> do { a \<leftarrow> ref; (r, rc) \<leftarrow> release_rc_node cbs a rc; Some (r, Some rc) })"

text \<open>A marked pointer does not point to a node: access through it is undefined.\<close>

definition count_add :: "node_link \<Rightarrow> (nat \<Rightarrow> nat) \<Rightarrow> ('p, 'd, 'w) refcnt_t \<Rightarrow> ('p, 'd, 'w) refcnt_t option" where
  "count_add l f rc = (if REFCNT_IS_MARKED l then None
     else case REFCNT_MARK_OFF l of None \<Rightarrow> Some rc | Some a \<Rightarrow> set_rc_node a (\<lambda>n. n\<lparr>rn_count := f (rn_count n)\<rparr>) rc)"

definition compare_and_swap_ref ::
  "('p, 'd, 'w) link_addr \<Rightarrow> node_link \<Rightarrow> node_link \<Rightarrow> ('p, 'd, 'w) refcnt_t \<Rightarrow> (bool \<times> ('p, 'd, 'w) refcnt_t) option" where
  "compare_and_swap_ref link old ref rc = do {
     l \<leftarrow> fst link rc;
     if l = old then do {
       rc \<leftarrow> snd link ref rc;
       rc \<leftarrow> count_add ref (\<lambda>c. add32 c 1) rc;
       rc \<leftarrow> count_add old (\<lambda>c. sub32 c 1) rc;
       Some (True, rc)
     } else Some (False, rc)
   }"

text \<open>\<open>retain_ref\<close> dereferences the address of its own parameter.\<close>

definition retain_ref :: "node_link \<Rightarrow> ('p, 'd, 'w) refcnt_t \<Rightarrow> (node_ptr \<times> ('p, 'd, 'w) refcnt_t) option" where
  "retain_ref ref rc = deref_link (\<lambda>_. Some ref, \<lambda>_. Some) rc"

definition store_ref ::
  "('p, 'd, 'w) refcnt_callbacks \<Rightarrow> ('p, 'd, 'w) link_addr \<Rightarrow> node_link \<Rightarrow> ('p, 'd, 'w) refcnt_t \<Rightarrow> ('p, 'd, 'w) refcnt_t option" where
  "store_ref cbs link ref rc = do {
     old \<leftarrow> fst link rc;
     rc \<leftarrow> snd link ref rc;
     rc \<leftarrow> (if ref \<noteq> (None, False) then do { (_, rc) \<leftarrow> retain_ref ref rc; Some rc } else Some rc);
     if old \<noteq> (None, False) then do { a \<leftarrow> REFCNT_MARK_OFF old; (_, rc) \<leftarrow> release_rc_node cbs a rc; Some rc } else Some rc
   }"

definition new_node :: "'p option \<Rightarrow> 'd option \<Rightarrow> ('p, 'd, 'w) refcnt_t \<Rightarrow> (node_ptr \<times> ('p, 'd, 'w) refcnt_t) option" where
  "new_node ptr priv rc = do {
     (node, rc) \<leftarrow> pool_read rc;
     let fresh = \<lparr>rn_ptr = ptr, rn_priv = priv, rn_count = 1, rn_updating = False\<rparr>;
     case node of
       Some a \<Rightarrow> do { rc \<leftarrow> set_rc_node a (\<lambda>_. fresh) rc; Some (Some a, rc) }
     | None \<Rightarrow>
         if rc_fails rc (rc_next rc) then Some (None, rc\<lparr>rc_next := Suc (rc_next rc)\<rparr>)
         else Some (Some (rc_next rc), rc\<lparr>rc_next := Suc (rc_next rc), rc_nodes := (rc_nodes rc)(rc_next rc \<mapsto> fresh)\<rparr>)
   }"

definition get_node_ptr :: "node_ptr \<Rightarrow> ('p, 'd, 'w) refcnt_t \<Rightarrow> 'p option option" where
  "get_node_ptr node rc = (case node of None \<Rightarrow> Some None | Some a \<Rightarrow> map_option rn_ptr (rc_nodes rc a))"

definition get_node_refcount :: "node_ptr \<Rightarrow> ('p, 'd, 'w) refcnt_t \<Rightarrow> int option" where
  "get_node_refcount node rc = do { a \<leftarrow> node; n \<leftarrow> rc_nodes rc a; Some (to_int (rn_count n)) }"

end
