(* ===== verification/Refcnt_Spec.thy ===== *)
theory Refcnt_Spec
  imports Refcnt Rqueue_Life
begin

text \<open>
  What the reference counts of \<open>refcnt.c\<close> promise to a single thread. \<open>rc_at rc cap L pend pool\<close> describes a context by
  the live nodes \<open>L\<close> with their counts, the terminated nodes \<open>pend\<close> that wait to be freed and the nodes in the
  pool. The proofs are in the locale \<open>client_callbacks\<close>: callbacks that work on the memory of the client only.
\<close>

section \<open>A queue of nodes as a list\<close>

text \<open>
  A blocking queue that never dropped a value: its pages hold nothing but the list, it has released nothing, and the
  difference of its counters is the length.
\<close>

definition rq_list :: "nat \<Rightarrow> bool \<Rightarrow> 'v rqueue_t \<Rightarrow> 'v list \<Rightarrow> bool" where
  "rq_list n cb q vs \<longleftrightarrow> (\<exists>ps. rq_at q ps vs \<and> rq_size q = n \<and> rq_mode q = RQUEUE_MODE_BLOCKING \<and> rq_free_cb q = cb \<and>
     rq_freed q = [] \<and> held (rq_pages q) ps = mset vs \<and> rq_reads q \<le> SIZE_MAX \<and>
     (rq_reads q + length vs) mod (SIZE_MAX + 1) = rq_writes q)"

lemma inc64_mod: "n \<le> SIZE_MAX \<Longrightarrow> inc64 n = (n + 1) mod (SIZE_MAX + 1)"
  by (simp add: inc64_def)

lemma rq_list_length: "rq_list n cb q vs \<Longrightarrow> length vs \<le> n"
  by (auto simp: rq_list_def rq_at_def)

lemma rq_list_freed: "rq_list n cb q vs \<Longrightarrow> rq_freed q = []"
  by (auto simp: rq_list_def)

lemma rq_list_empty: "rq_list n cb q [] \<Longrightarrow> rqueue_read q = Some (None, q)"
  by (auto simp: rq_list_def rqueue_read_empty)

lemma rq_list_read:
  assumes "rq_list n cb q (v # vs)"
  shows "\<exists>q'. rqueue_read q = Some (Some v, q') \<and> rq_list n cb q' vs"
proof -
  obtain ps where q: "rq_at q ps (v # vs)" "rq_size q = n" "rq_mode q = RQUEUE_MODE_BLOCKING" "rq_free_cb q = cb"
    "rq_freed q = []" "held (rq_pages q) ps = mset (v # vs)" "rq_reads q \<le> SIZE_MAX"
    "(rq_reads q + length (v # vs)) mod (SIZE_MAX + 1) = rq_writes q" using assms by (auto simp: rq_list_def)
  obtain q' ps' where r: "rqueue_read q = Some (Some v, q')" "rq_at q' ps' vs" "rq_keeps q q'" "rq_writes q' = rq_writes q"
    "rq_reads q' = inc64 (rq_reads q)" "rq_freed q' = rq_freed q" "held (rq_pages q) ps = add_mset v (held (rq_pages q') ps')"
    using rqueue_read_ok [OF q(1)] by blast
  have "(rq_reads q' + length vs) mod (SIZE_MAX + 1) = (rq_reads q + length (v # vs)) mod (SIZE_MAX + 1)"
    unfolding r(5) inc64_mod [OF q(7)] by (simp only: mod_add_left_eq) simp
  moreover have "rq_reads q' \<le> SIZE_MAX" using q(7) by (simp add: r(5) inc64_def)
  ultimately have "rq_list n cb q' vs" using q r unfolding rq_list_def rq_keeps_def by (intro exI [of _ ps']) simp
  with r(1) show ?thesis by blast
qed

lemma held_values:
  assumes "rq_at q ps vs"
  shows "mset vs \<subseteq># held (rq_pages q) ps"
proof -
  have m: "map (page_val (rq_pages q)) (take (length vs) ps) = map Some vs" using assms by (simp add: rq_at_def)
  have "concat (map (stale (rq_pages q)) as) = ws" if "map (page_val (rq_pages q)) as = map Some ws" for as and ws :: "'a list"
    using that by (induction ws arbitrary: as) (auto simp: page_val_def stale_def Cons_eq_map_conv split: option.splits)
  then have c: "concat (map (stale (rq_pages q)) (take (length vs) ps)) = vs" using m by blast
  have "held (rq_pages q) ps = mset (concat (map (stale (rq_pages q)) (take (length vs) ps @ drop (length vs) ps)))"
    by (simp add: held_stale)
  then show ?thesis using c by (simp only: map_append concat_append mset_append mset_subset_eq_add_left)
qed

lemma rq_list_write:
  assumes "rq_list n cb q vs" and "length vs < n"
  shows "\<exists>q'. rqueue_write q (Some v) = Some (0, q') \<and> rq_list n cb q' (vs @ [v])"
proof -
  obtain ps where q: "rq_at q ps vs" "rq_size q = n" "rq_mode q = RQUEUE_MODE_BLOCKING" "rq_free_cb q = cb"
    "rq_freed q = []" "held (rq_pages q) ps = mset vs" "rq_reads q \<le> SIZE_MAX"
    "(rq_reads q + length vs) mod (SIZE_MAX + 1) = rq_writes q" using assms by (auto simp: rq_list_def)
  let ?old = "stale (rq_pages q) (ps ! length vs)"
  obtain q' where r: "rqueue_write q (Some v) = Some (0, q')" "rq_at q' ps (vs @ [v])" "rq_keeps q q'" "rq_writes q' = inc64 (rq_writes q)"
    "rq_reads q' = rq_reads q" "rq_freed q' = rq_freed q @ (if rq_free_cb q then ?old else [])"
    "held (rq_pages q') ps + mset ?old = add_mset v (held (rq_pages q) ps)"
    using rqueue_write_room [OF q(1), of v] assms(2) q(2) by auto
  from held_values [OF r(2)] obtain X where X: "held (rq_pages q') ps = mset vs + {#v#} + X" by (auto simp: mset_subset_eq_exists_conv)
  then have "X + mset ?old = {#}" using r(7) q(6) by simp
  then have old: "?old = []" "X = {#}" by simp_all
  have "rq_writes q \<le> SIZE_MAX" unfolding q(8) [symmetric] by (simp add: less_Suc_eq_le [symmetric])
  then have "rq_writes q' = (rq_reads q' + length (vs @ [v])) mod (SIZE_MAX + 1)"
    unfolding r(4,5) q(8) [symmetric] by (subst inc64_mod) (simp_all add: mod_Suc_eq)
  then have "rq_list n cb q' (vs @ [v])" using q r X old unfolding rq_list_def rq_keeps_def by (intro exI [of _ ps]) simp
  with r(1) show ?thesis by blast
qed

lemma rq_list_full: "rq_list n cb q vs \<Longrightarrow> length vs = n \<Longrightarrow> rqueue_write q v = Some (- 2, q)"
  by (auto simp: rq_list_def intro!: rqueue_write_full)

lemma rq_list_destroy:
  assumes "rq_list n cb q vs"
  shows "\<exists>q'. rqueue_destroy q = Some q' \<and> rq_pages q' = Map.empty \<and> mset (rq_freed q') = (if cb then mset vs else {#})"
  using assms by (auto simp: rq_list_def dest!: rqueue_destroy_ok)

lemma rq_list_count:
  assumes "rq_list n cb q vs" and "n \<le> SIZE_MAX"
  shows "(rq_writes q + (SIZE_MAX + 1 - rq_reads q)) mod (SIZE_MAX + 1) = length vs"
proof -
  have r: "rq_reads q \<le> SIZE_MAX" and w: "rq_writes q = (rq_reads q + length vs) mod (SIZE_MAX + 1)" and l: "length vs \<le> SIZE_MAX"
    using assms rq_list_length [OF assms(1)] by (auto simp: rq_list_def)
  have "(rq_writes q + (SIZE_MAX + 1 - rq_reads q)) mod (SIZE_MAX + 1) = (rq_reads q + length vs + (SIZE_MAX + 1 - rq_reads q)) mod (SIZE_MAX + 1)"
    unfolding w by (rule mod_add_left_eq)
  also have "rq_reads q + length vs + (SIZE_MAX + 1 - rq_reads q) = length vs + (SIZE_MAX + 1)" using r by simp
  finally show ?thesis using l by (simp only: mod_add_self2) simp
qed

lemma rq_list_create:
  assumes "\<And>x. a \<le> x \<Longrightarrow> x \<le> a + siz + 2 \<Longrightarrow> \<not> fails x" and "2 < siz"
  shows "\<exists>q. rqueue_create fails a siz RQUEUE_MODE_BLOCKING = Some (Some (q :: 'v rqueue_t), rq_pages q) \<and>
    rq_list siz cb (rqueue_set_free_value_callback q cb) [] \<and> rq_list siz False q []"
proof -
  have n: "ring_size siz = siz" using assms(2) by (simp add: RQUEUE_MIN_SIZE_def)
  obtain q ps where q: "rqueue_create fails a siz RQUEUE_MODE_BLOCKING = Some (Some (q :: 'v rqueue_t), rq_pages q)" "rq_at q ps []"
    "rq_size q = siz" "rq_mode q = RQUEUE_MODE_BLOCKING" "\<not> rq_free_cb q" "rq_writes q = 0" "rq_reads q = 0" "rq_freed q = []"
    "held (rq_pages q) ps = {#}"
    using create_ok [of a siz fails RQUEUE_MODE_BLOCKING, where 'v = 'v, unfolded n] assms(1) by blast
  then have "rq_list siz False q []" "rq_list siz cb (rqueue_set_free_value_callback q cb) []"
    unfolding rq_list_def rqueue_set_free_value_callback_def by (auto intro!: exI [of _ ps] simp: rq_at_def)
  with q(1) show ?thesis by blast
qed

section \<open>Contexts\<close>

type_synonym ('p, 'd) live = "nat \<rightharpoonup> 'p option \<times> 'd option \<times> nat"

definition live_node :: "'p option \<times> 'd option \<times> nat \<Rightarrow> ('p, 'd) refcnt_node_t" where
  "live_node x = (case x of (p, d, c) \<Rightarrow> \<lparr>rn_ptr = p, rn_priv = d, rn_count = c, rn_updating = False\<rparr>)"

definition count_ok :: "'p option \<times> 'd option \<times> nat \<Rightarrow> bool" where
  "count_ok x = (case x of (p, d, c) \<Rightarrow> 0 < c \<and> c < 4294967296)"

lemma live_simps:
  "live_node (p, d, c) = \<lparr>rn_ptr = p, rn_priv = d, rn_count = c, rn_updating = False\<rparr>"
  "count_ok (p, d, c) = (0 < c \<and> c < 4294967296)"
  by (simp_all add: live_node_def count_ok_def)

definition live_at :: "(nat \<rightharpoonup> ('p, 'd) refcnt_node_t) \<Rightarrow> nat \<Rightarrow> 'p option \<times> 'd option \<times> nat \<Rightarrow> bool" where
  "live_at h a x \<longleftrightarrow> h a = Some (live_node x) \<and> count_ok x"

definition dead_at :: "(nat \<rightharpoonup> ('p, 'd) refcnt_node_t) \<Rightarrow> nat \<times> 'p option \<Rightarrow> bool" where
  "dead_at h x \<longleftrightarrow> (\<exists>d. h (fst x) = Some \<lparr>rn_ptr = snd x, rn_priv = d, rn_count = 0, rn_updating = True\<rparr>)"

lemma at_other:
  "a \<noteq> b \<Longrightarrow> live_at (h(b := y)) a x = live_at h a x"
  "fst z \<noteq> b \<Longrightarrow> dead_at (h(b := y)) z = dead_at h z"
  by (simp_all add: live_at_def dead_at_def)

definition rc_queues :: "('p, 'd, 'w) refcnt_t \<Rightarrow> nat \<Rightarrow> nat list \<Rightarrow> nat list \<Rightarrow> bool" where
  "rc_queues rc cap fs pool \<longleftrightarrow> (\<exists>F P. rc_free_list rc = Some F \<and> rc_node_pool rc = Some P \<and> rq_list cap False F fs \<and>
     rq_list NODE_POOL_SIZE True P pool) \<and> rc_gc_threshold rc < cap \<and> cap \<le> SIZE_MAX"

definition rc_heap_ok ::
  "(nat \<rightharpoonup> ('p, 'd) refcnt_node_t) \<Rightarrow> ('p, 'd) live \<Rightarrow> (nat \<times> 'p option) list \<Rightarrow> nat list \<Rightarrow> bool" where
  "rc_heap_ok h L pend pool \<longleftrightarrow> distinct (map fst pend @ pool) \<and> dom L \<inter> set (map fst pend @ pool) = {} \<and>
     dom h = dom L \<union> set (map fst pend @ pool) \<and> (\<forall>a x. L a = Some x \<longrightarrow> live_at h a x) \<and> (\<forall>z \<in> set pend. dead_at h z)"

definition rc_at ::
  "('p, 'd, 'w) refcnt_t \<Rightarrow> nat \<Rightarrow> ('p, 'd) live \<Rightarrow> (nat \<times> 'p option) list \<Rightarrow> nat list \<Rightarrow> bool" where
  "rc_at rc cap L pend pool \<longleftrightarrow> rc_queues rc cap (map fst pend) pool \<and> rc_heap_ok (rc_nodes rc) L pend pool \<and>
     (\<forall>a \<in> dom (rc_nodes rc). a < rc_next rc)"

text \<open>What no operation changes.\<close>

definition rc_keeps :: "('p, 'd, 'w) refcnt_t \<Rightarrow> ('p, 'd, 'w) refcnt_t \<Rightarrow> bool" where
  "rc_keeps rc rc' \<longleftrightarrow> rc_gc_threshold rc' = rc_gc_threshold rc \<and> rc_fails rc' = rc_fails rc \<and> rc_next rc' = rc_next rc"

lemma rc_keeps_refl [simp]: "rc_keeps rc rc"
  by (simp add: rc_keeps_def)

lemma rc_keeps_trans: "rc_keeps a b \<Longrightarrow> rc_keeps b c \<Longrightarrow> rc_keeps a c"
  by (simp add: rc_keeps_def)

lemma rc_at_live: "rc_at rc cap L pend pool \<Longrightarrow> L a = Some x \<Longrightarrow> live_at (rc_nodes rc) a x"
  unfolding rc_at_def rc_heap_ok_def by blast

lemma heap_okI:
  assumes "distinct (map fst pend @ pool)" and "dom L \<inter> set (map fst pend @ pool) = {}" and "dom h = dom L \<union> set (map fst pend @ pool)"
    and "\<And>a x. L a = Some x \<Longrightarrow> live_at h a x" and "\<And>z. z \<in> set pend \<Longrightarrow> dead_at h z"
  shows "rc_heap_ok h L pend pool"
  using assms by (simp add: rc_heap_ok_def)

lemma heap_okD:
  assumes "rc_heap_ok h L pend pool"
  shows "distinct (map fst pend @ pool)" "dom L \<inter> set (map fst pend @ pool) = {}" "dom h = dom L \<union> set (map fst pend @ pool)"
    "L a = Some x \<Longrightarrow> live_at h a x" "z \<in> set pend \<Longrightarrow> dead_at h z"
  using assms unfolding rc_heap_ok_def by blast+

text \<open>A heap changes at one address \<open>a\<close>, which then belongs to another part or to none.\<close>

lemma heap_ok_upd:
  assumes "rc_heap_ok h L pend pool" and "distinct (map fst pend' @ pool')" and "dom L' \<inter> set (map fst pend' @ pool') = {}"
    and "dom (h(a := y)) = dom L' \<union> set (map fst pend' @ pool')"
    and "\<And>b x. L' b = Some x \<Longrightarrow> b \<noteq> a \<Longrightarrow> L b = Some x" and "\<And>x. L' a = Some x \<Longrightarrow> live_at (h(a := y)) a x"
    and "\<And>z. z \<in> set pend' \<Longrightarrow> fst z \<noteq> a \<Longrightarrow> z \<in> set pend" and "\<And>z. z \<in> set pend' \<Longrightarrow> fst z = a \<Longrightarrow> dead_at (h(a := y)) z"
  shows "rc_heap_ok (h(a := y)) L' pend' pool'"
proof (rule heap_okI)
  fix b x assume "L' b = Some x"
  then show "live_at (h(a := y)) b x" using assms(5,6) heap_okD(4) [OF assms(1)] by (cases "b = a") (auto simp: at_other)
next
  fix z assume "z \<in> set pend'"
  then show "dead_at (h(a := y)) z" using assms(7,8) heap_okD(5) [OF assms(1)] by (cases "fst z = a") (auto simp: at_other)
qed (fact assms)+

lemma heap_ok_live:
  assumes "rc_heap_ok h L pend pool" and "a \<in> dom L \<or> a \<notin> dom h" and "count_ok x"
  shows "rc_heap_ok (h(a \<mapsto> live_node x)) (L(a \<mapsto> x)) pend pool"
proof (rule heap_ok_upd [OF assms(1) heap_okD(1) [OF assms(1)]])
  note D = heap_okD [OF assms(1)]
  have a: "a \<notin> set (map fst pend @ pool)" using D(2,3) assms(2) by blast
  then show "dom (L(a \<mapsto> x)) \<inter> set (map fst pend @ pool) = {}" using D(2) by auto
  show "dom (h(a \<mapsto> live_node x)) = dom (L(a \<mapsto> x)) \<union> set (map fst pend @ pool)" using D(3) by auto
  show "dead_at (h(a \<mapsto> live_node x)) z" if "z \<in> set pend" "fst z = a" for z using that a by auto
qed (use assms(3) in \<open>simp_all add: live_at_def\<close>)

lemma heap_ok_reuse:
  assumes "rc_heap_ok h L pend (a # pool)" and "count_ok x"
  shows "rc_heap_ok (h(a \<mapsto> live_node x)) (L(a \<mapsto> x)) pend pool"
proof (rule heap_ok_upd [OF assms(1)])
  note D = heap_okD [OF assms(1)]
  show "distinct (map fst pend @ pool)" using D(1) by simp
  have a: "a \<notin> set (map fst pend @ pool)" using D(1) by auto
  then show "dom (L(a \<mapsto> x)) \<inter> set (map fst pend @ pool) = {}" using D(2) by auto
  show "dom (h(a \<mapsto> live_node x)) = dom (L(a \<mapsto> x)) \<union> set (map fst pend @ pool)" using D(3) by auto
  show "dead_at (h(a \<mapsto> live_node x)) z" if "z \<in> set pend" "fst z = a" for z using that a by auto
qed (use assms(2) in \<open>simp_all add: live_at_def\<close>)

lemma heap_ok_terminate:
  assumes "rc_heap_ok h L pend pool" and "L a = Some (p, d, c)"
  shows "rc_heap_ok (h(a \<mapsto> \<lparr>rn_ptr = p, rn_priv = d', rn_count = 0, rn_updating = True\<rparr>)) (L(a := None)) (pend @ [(a, p)]) pool"
proof (rule heap_ok_upd [OF assms(1)])
  note D = heap_okD [OF assms(1)]
  have a: "a \<notin> set (map fst pend @ pool)" using D(2) assms(2) by auto
  then show "distinct (map fst (pend @ [(a, p)]) @ pool)" using D(1) by auto
  show "dom (L(a := None)) \<inter> set (map fst (pend @ [(a, p)]) @ pool) = {}" using D(2) by auto
  show "dom (h(a \<mapsto> \<lparr>rn_ptr = p, rn_priv = d', rn_count = 0, rn_updating = True\<rparr>)) = dom (L(a := None)) \<union> set (map fst (pend @ [(a, p)]) @ pool)"
    using D(3) assms(2) by auto
  show "dead_at (h(a \<mapsto> \<lparr>rn_ptr = p, rn_priv = d', rn_count = 0, rn_updating = True\<rparr>)) z" if "z \<in> set (pend @ [(a, p)])" "fst z = a" for z
    using that a by (auto simp: dead_at_def prod_eq_iff)
qed (auto split: if_splits)

lemma heap_ok_pool:
  assumes "rc_heap_ok h L ((a, p) # pend) pool"
  shows "rc_heap_ok h L pend (pool @ [a])"
  using assms by (auto simp: rc_heap_ok_def)

lemma heap_ok_drop:
  assumes "rc_heap_ok h L ((a, p) # pend) pool"
  shows "rc_heap_ok (h(a := None)) L pend pool"
proof (rule heap_ok_upd [OF assms])
  note D = heap_okD [OF assms]
  show "distinct (map fst pend @ pool)" using D(1) by simp
  have a: "a \<notin> set (map fst pend @ pool)" "L a = None" using D(1,2) by auto
  then show "dom (h(a := None)) = dom L \<union> set (map fst pend @ pool)" using D(3) by auto
  show "dead_at (h(a := None)) z" if "z \<in> set pend" "fst z = a" for z using that a by auto
  show "dom L \<inter> set (map fst pend @ pool) = {}" using D(2) by auto
  show "live_at (h(a := None)) a x" if "L a = Some x" for x using that a(2) by simp
qed simp_all

lemma free_list_length_ok: "rc_at rc cap L pend pool \<Longrightarrow> free_list_length rc = length pend"
  by (auto simp: rc_at_def rc_queues_def free_list_length_def rqueue_write_count_def rqueue_read_count_def dest!: rq_list_count)

lemma rc_at_pend: "rc_at rc cap L pend pool \<Longrightarrow> length pend \<le> cap"
  by (auto simp: rc_at_def rc_queues_def dest!: rq_list_length)

lemma free_list_read_ok:
  assumes "rc_queues rc cap (a # fs) pool"
  shows "\<exists>F. free_list_read rc = Some (Some a, rc\<lparr>rc_free_list := Some F\<rparr>) \<and> rc_queues (rc\<lparr>rc_free_list := Some F\<rparr>) cap fs pool"
  using assms by (fastforce simp: rc_queues_def free_list_read_def dest!: rq_list_read)

lemma free_list_write_ok:
  assumes "rc_queues rc cap fs pool" and "length fs < cap"
  shows "\<exists>F. free_list_write a rc = Some (0, rc\<lparr>rc_free_list := Some F\<rparr>) \<and> rc_queues (rc\<lparr>rc_free_list := Some F\<rparr>) cap (fs @ [a]) pool"
proof -
  obtain F P where q: "rc_free_list rc = Some F" "rc_node_pool rc = Some P" "rq_list cap False F fs" "rq_list NODE_POOL_SIZE True P pool"
    "rc_gc_threshold rc < cap" "cap \<le> SIZE_MAX" using assms(1) by (auto simp: rc_queues_def)
  obtain F' where "rqueue_write F (Some a) = Some (0, F')" "rq_list cap False F' (fs @ [a])" using rq_list_write [OF q(3) assms(2)] by blast
  with q show ?thesis by (intro exI [of _ F']) (simp add: rc_queues_def free_list_write_def)
qed

lemma pool_read_ok:
  assumes "rc_queues rc cap fs pool"
  shows "\<exists>P. pool_read rc = Some (if pool = [] then None else Some (hd pool), rc\<lparr>rc_node_pool := Some P\<rparr>) \<and>
    rc_queues (rc\<lparr>rc_node_pool := Some P\<rparr>) cap fs (tl pool)"
  using assms by (cases pool) (fastforce simp: rc_queues_def pool_read_def rq_list_empty dest!: rq_list_read)+

lemma pool_write_ok:
  assumes "rc_queues rc cap fs pool"
  shows "\<exists>P. pool_write a rc = Some (if length pool < NODE_POOL_SIZE then 0 else - 2, rc\<lparr>rc_node_pool := Some P\<rparr>) \<and>
    rc_queues (rc\<lparr>rc_node_pool := Some P\<rparr>) cap fs (if length pool < NODE_POOL_SIZE then pool @ [a] else pool)"
proof -
  obtain F P where q: "rc_free_list rc = Some F" "rc_node_pool rc = Some P" "rq_list cap False F fs" "rq_list NODE_POOL_SIZE True P pool"
    "rc_gc_threshold rc < cap" "cap \<le> SIZE_MAX" using assms(1) by (auto simp: rc_queues_def)
  show ?thesis
  proof (cases "length pool < NODE_POOL_SIZE")
    case True
    obtain P' where "rqueue_write P (Some a) = Some (0, P')" "rq_list NODE_POOL_SIZE True P' (pool @ [a])"
      using rq_list_write [OF q(4) True] by blast
    with q True show ?thesis by (intro exI [of _ P']) (simp add: rc_queues_def pool_write_def rq_list_freed)
  next
    case False
    then have "rqueue_write P (Some a) = Some (- 2, P)" using rq_list_full [OF q(4)] rq_list_length [OF q(4)] by simp
    with q False show ?thesis by (intro exI [of _ P]) (simp add: rc_queues_def pool_write_def)
  qed
qed

section \<open>The operations\<close>

text \<open>The callbacks as functions on the memory of the client, and the calls for a list of pointers.\<close>

fun frees :: "('p option \<Rightarrow> 'w \<Rightarrow> 'w option) \<Rightarrow> 'p option list \<Rightarrow> 'w \<Rightarrow> 'w option" where
  "frees fre [] w = Some w"
| "frees fre (p # ps) w = do { w \<leftarrow> fre p w; frees fre ps w }"

lemma frees_append: "frees fre (ps @ qs) w = do { w \<leftarrow> frees fre ps w; frees fre qs w }"
  by (induction ps arbitrary: w) (auto split: bind_splits)

text \<open>A step to a context that is described in the same way, with the memory of the client.\<close>

definition rc_to ::
  "('p, 'd, 'w) refcnt_t \<Rightarrow> ('p, 'd, 'w) refcnt_t \<Rightarrow> 'w \<Rightarrow> nat \<Rightarrow> ('p, 'd) live \<Rightarrow> (nat \<times> 'p option) list \<Rightarrow> nat list \<Rightarrow> bool" where
  "rc_to rc rc' w cap L pend pool \<longleftrightarrow> rc_at rc' cap L pend pool \<and> rc_client rc' = w \<and> rc_keeps rc rc'"

lemma set_node_live:
  assumes "rc_at rc cap L pend pool" and "L a = Some x" and "count_ok y" and "f (live_node x) = live_node y"
  shows "\<exists>rc'. set_rc_node a f rc = Some rc' \<and> rc_to rc rc' (rc_client rc) cap (L(a \<mapsto> y)) pend pool"
proof -
  have n: "rc_nodes rc a = Some (live_node x)" using rc_at_live [OF assms(1,2)] by (simp add: live_at_def)
  have "rc_heap_ok ((rc_nodes rc)(a \<mapsto> live_node y)) (L(a \<mapsto> y)) pend pool"
    using heap_ok_live [OF _ _ assms(3), of "rc_nodes rc" L pend pool a] assms(1,2) by (auto simp: rc_at_def)
  then have "rc_at (rc\<lparr>rc_nodes := (rc_nodes rc)(a \<mapsto> live_node y)\<rparr>) cap (L(a \<mapsto> y)) pend pool"
    using assms(1) n by (auto simp: rc_at_def rc_queues_def)
  then show ?thesis using n assms(4) by (simp add: set_rc_node_def rc_to_def rc_keeps_def)
qed

lemma deref_ok:
  assumes "rc_at rc cap L pend pool" and "L a = Some (p, d, c)" and "c < 4294967295" and "fst link rc = Some (Some a, m)" and "m \<longrightarrow> \<not> skip"
  shows "\<exists>rc'. deref_link_internal link skip rc = Some (Some a, rc') \<and> rc_to rc rc' (rc_client rc) cap (L(a \<mapsto> (p, d, Suc c))) pend pool"
proof -
  have n: "rc_nodes rc a = Some (live_node (p, d, c))" using rc_at_live [OF assms(1,2)] by (simp add: live_at_def)
  obtain rc' where "set_rc_node a (\<lambda>n. n\<lparr>rn_count := add32 (rn_count n) 1\<rparr>) rc = Some rc'" "rc_to rc rc' (rc_client rc) cap (L(a \<mapsto> (p, d, Suc c))) pend pool"
    using set_node_live [OF assms(1,2), of "(p, d, Suc c)" "\<lambda>n. n\<lparr>rn_count := add32 (rn_count n) 1\<rparr>"] assms(3) by (auto simp: live_simps add32_Suc)
  then show ?thesis using assms(4,5) n
    by (cases m) (simp_all add: deref_link_internal_def REFCNT_MARK_ON_def REFCNT_MARK_OFF_def live_simps)
qed

lemma new_node_ok:
  assumes "rc_at rc cap L pend pool" and "pool = [] \<Longrightarrow> \<not> rc_fails rc (rc_next rc)"
  defines "a \<equiv> if pool = [] then rc_next rc else hd pool"
  shows "a \<notin> dom L" and "a \<notin> set (map fst pend)"
    and "\<exists>rc'. new_node p d rc = Some (Some a, rc') \<and> rc_at rc' cap (L(a \<mapsto> (p, d, 1))) pend (tl pool) \<and> rc_client rc' = rc_client rc \<and>
      rc_gc_threshold rc' = rc_gc_threshold rc \<and> rc_fails rc' = rc_fails rc \<and> rc_next rc \<le> rc_next rc' \<and> rc_next rc' \<le> Suc (rc_next rc)"
proof -
  have at: "rc_queues rc cap (map fst pend) pool" "rc_heap_ok (rc_nodes rc) L pend pool" "\<And>b. b \<in> dom (rc_nodes rc) \<Longrightarrow> b < rc_next rc"
    using assms(1) by (auto simp: rc_at_def)
  note D = heap_okD [OF at(2)]
  have fr: "rc_next rc \<notin> dom (rc_nodes rc)" using at(3) by blast
  show "a \<notin> dom L" "a \<notin> set (map fst pend)" using D(1-3) fr by (cases pool; auto simp: a_def)+
  obtain P where P: "pool_read rc = Some (if pool = [] then None else Some (hd pool), rc\<lparr>rc_node_pool := Some P\<rparr>)"
    "rc_queues (rc\<lparr>rc_node_pool := Some P\<rparr>) cap (map fst pend) (tl pool)" using pool_read_ok [OF at(1)] by blast
  have c: "count_ok (p, d, 1)" by (simp add: live_simps)
  show "\<exists>rc'. new_node p d rc = Some (Some a, rc') \<and> rc_at rc' cap (L(a \<mapsto> (p, d, 1))) pend (tl pool) \<and> rc_client rc' = rc_client rc \<and>
      rc_gc_threshold rc' = rc_gc_threshold rc \<and> rc_fails rc' = rc_fails rc \<and> rc_next rc \<le> rc_next rc' \<and> rc_next rc' \<le> Suc (rc_next rc)"
  proof (cases pool)
    case Nil
    let ?rc = "rc\<lparr>rc_node_pool := Some P, rc_next := Suc (rc_next rc), rc_nodes := (rc_nodes rc)(rc_next rc \<mapsto> live_node (p, d, 1))\<rparr>"
    have "rc_heap_ok ((rc_nodes rc)(rc_next rc \<mapsto> live_node (p, d, 1))) (L(rc_next rc \<mapsto> (p, d, 1))) pend []"
      using heap_ok_live [OF at(2) _ c] fr Nil by auto
    then have "rc_at ?rc cap (L(a \<mapsto> (p, d, 1))) pend (tl pool)" using P(2) at(3) Nil by (auto simp: rc_at_def rc_queues_def a_def less_Suc_eq)
    moreover have "new_node p d rc = Some (Some a, ?rc)" using P(1) Nil assms(2) by (simp add: new_node_def a_def live_simps Let_def)
    ultimately show ?thesis by (intro exI [of _ ?rc]) simp
  next
    case (Cons b bs)
    let ?rc = "rc\<lparr>rc_node_pool := Some P, rc_nodes := (rc_nodes rc)(b \<mapsto> live_node (p, d, 1))\<rparr>"
    have b: "b \<in> dom (rc_nodes rc)" using D(3) Cons by auto
    have "rc_heap_ok ((rc_nodes rc)(b \<mapsto> live_node (p, d, 1))) (L(b \<mapsto> (p, d, 1))) pend bs"
      using heap_ok_reuse [OF _ c, of "rc_nodes rc"] at(2) Cons by auto
    then have "rc_at ?rc cap (L(a \<mapsto> (p, d, 1))) pend (tl pool)" using P(2) at(3) b Cons by (auto simp: rc_at_def rc_queues_def a_def)
    moreover have "new_node p d rc = Some (Some a, ?rc)" using P(1) Cons b by (auto simp: new_node_def a_def live_simps set_rc_node_def Let_def)
    ultimately show ?thesis by (intro exI [of _ ?rc]) simp
  qed
qed

lemma refcnt_create_ok:
  assumes "thr < 1431655765" and "\<And>x. a \<le> x \<Longrightarrow> \<not> fails x"
  shows "\<exists>rc. refcnt_create fails a w thr = Some (Some (rc :: ('p, 'd, 'w) refcnt_t)) \<and> rc_at rc (max 256 (thr + thr div 2)) Map.empty [] [] \<and>
    rc_client rc = w \<and> rc_gc_threshold rc = thr \<and> rc_fails rc = fails \<and> a \<le> rc_next rc"
proof -
  define n where "n = max 256 (thr + thr div 2)"
  have n: "(if to_int (add32 thr (thr div 2)) < int FREE_LIST_MIN_SIZE then FREE_LIST_MIN_SIZE else nat (to_int (add32 thr (thr div 2)))) = n"
    using assms(1) by (auto simp: n_def add32_eq to_int_eq FREE_LIST_MIN_SIZE_def)
  have n': "2 < n" "thr < n" "n \<le> SIZE_MAX" using assms(1) by (auto simp: n_def SIZE_MAX_def)
  obtain F where F: "rqueue_create fails (Suc a) n RQUEUE_MODE_BLOCKING = Some (Some (F :: nat rqueue_t), rq_pages F)" "rq_list n False F []"
    using rq_list_create [of "Suc a" n fails False, where 'v = nat] assms(2) n'(1) by auto
  obtain P where P: "rqueue_create fails (a + n + 4) NODE_POOL_SIZE RQUEUE_MODE_BLOCKING = Some (Some (P :: nat rqueue_t), rq_pages P)"
    "rq_list NODE_POOL_SIZE True (rqueue_set_free_value_callback P True) []"
    using rq_list_create [of "a + n + 4" NODE_POOL_SIZE fails True, where 'v = nat] assms(2) by (auto simp: NODE_POOL_SIZE_def)
  let ?rc = "\<lparr>rc_nodes = Map.empty, rc_free_list = Some F, rc_node_pool = Some (rqueue_set_free_value_callback P True), rc_gc_threshold = thr,
    rc_next = a + n + NODE_POOL_SIZE + 7, rc_fails = fails, rc_client = w\<rparr> :: ('p, 'd, 'w) refcnt_t"
  have "refcnt_create fails a w thr = Some (Some ?rc)" using F(1) P(1) assms(2) [of a] unfolding refcnt_create_def Let_def n by simp
  moreover have "rc_at ?rc n Map.empty [] []" using F(2) P(2) n' by (simp add: rc_at_def rc_queues_def rc_heap_ok_def)
  ultimately show ?thesis unfolding n_def [symmetric] by (intro exI [of _ ?rc]) simp
qed

lemma free_nodes_ok:
  "distinct as \<Longrightarrow> set as \<subseteq> dom (rc_nodes rc) \<Longrightarrow> free_nodes as rc = Some (rc\<lparr>rc_nodes := rc_nodes rc |` (- set as)\<rparr>)"
proof (induction as arbitrary: rc)
  case (Cons a as)
  have "free_nodes (a # as) rc = free_nodes as (rc\<lparr>rc_nodes := (rc_nodes rc)(a := None)\<rparr>)" using Cons.prems by (auto simp: free_rc_node_def)
  also have "\<dots> = Some (rc\<lparr>rc_nodes := (rc_nodes rc)(a := None), rc_nodes := rc_nodes (rc\<lparr>rc_nodes := (rc_nodes rc)(a := None)\<rparr>) |` (- set as)\<rparr>)"
    by (rule Cons.IH) (use Cons.prems in auto)
  also have "rc_nodes (rc\<lparr>rc_nodes := (rc_nodes rc)(a := None)\<rparr>) |` (- set as) = rc_nodes rc |` (- set (a # as))"
    by (auto simp: restrict_map_def fun_eq_iff)
  also have "rc\<lparr>rc_nodes := (rc_nodes rc)(a := None), rc_nodes := rc_nodes rc |` (- set (a # as))\<rparr> = rc\<lparr>rc_nodes := rc_nodes rc |` (- set (a # as))\<rparr>" by simp
  finally show ?case .
qed (simp add: restrict_map_def)

text \<open>How many of \<open>n\<close> nodes a collection frees.\<close>

definition gc_cut :: "nat \<Rightarrow> nat \<Rightarrow> nat" where
  "gc_cut thr n = (if n \<le> thr then 0 else n - thr div 2)"

locale client_callbacks =
  fixes cbs :: "('p, 'd, 'w) refcnt_callbacks"
    and trm :: "nat \<Rightarrow> 'd option \<Rightarrow> 'w \<Rightarrow> 'w option"
    and fre :: "'p option \<Rightarrow> 'w \<Rightarrow> 'w option"
  assumes trm_law: "(case terminate_node_cb cbs of None \<Rightarrow> Some rc | Some f \<Rightarrow> f a d rc) =
      map_option (\<lambda>w. rc\<lparr>rc_client := w\<rparr>) (trm a d (rc_client rc))"
    and fre_law: "(case free_node_ptr_cb cbs of None \<Rightarrow> Some rc | Some f \<Rightarrow> f p rc) =
      map_option (\<lambda>w. rc\<lparr>rc_client := w\<rparr>) (fre p (rc_client rc))"
begin

lemma fre_at:
  assumes "rc_nodes rc a = Some n" and "fre (rn_ptr n) (rc_client rc) = Some w"
  shows "(case free_node_ptr_cb cbs of None \<Rightarrow> Some rc | Some f \<Rightarrow> do { n \<leftarrow> rc_nodes rc a; f (rn_ptr n) rc }) = Some (rc\<lparr>rc_client := w\<rparr>)"
  using fre_law [of rc "rn_ptr n"] assms by (cases "free_node_ptr_cb cbs") simp_all

text \<open>One round of the garbage collection.\<close>

lemma gc_round:
  assumes "rc_at rc cap L ((a, p) # pend) pool" and "limit \<le> length pend" and "fre p (rc_client rc) = Some w"
  shows "\<exists>rc'. gc_loop cbs limit rc = gc_loop cbs limit rc' \<and> rc_at rc' cap L pend (take NODE_POOL_SIZE (pool @ [a])) \<and>
    rc_client rc' = w \<and> rc_keeps rc rc'"
proof -
  have at: "rc_queues rc cap (a # map fst pend) pool" "rc_heap_ok (rc_nodes rc) L ((a, p) # pend) pool" "\<forall>b \<in> dom (rc_nodes rc). b < rc_next rc"
    using assms(1) by (simp_all add: rc_at_def)
  have len: "free_list_length rc = Suc (length pend)" using free_list_length_ok [OF assms(1)] by simp
  obtain F where F: "free_list_read rc = Some (Some a, rc\<lparr>rc_free_list := Some F\<rparr>)" "rc_queues (rc\<lparr>rc_free_list := Some F\<rparr>) cap (map fst pend) pool"
    using free_list_read_ok [OF at(1)] by blast
  obtain d where d: "rc_nodes rc a = Some \<lparr>rn_ptr = p, rn_priv = d, rn_count = 0, rn_updating = True\<rparr>"
    using heap_okD(5) [OF at(2), of "(a, p)"] by (auto simp: dead_at_def)
  let ?rc = "rc\<lparr>rc_free_list := Some F, rc_client := w\<rparr>"
  have cb: "(case free_node_ptr_cb cbs of None \<Rightarrow> Some (rc\<lparr>rc_free_list := Some F\<rparr>)
      | Some f \<Rightarrow> do { n \<leftarrow> rc_nodes (rc\<lparr>rc_free_list := Some F\<rparr>) a; f (rn_ptr n) (rc\<lparr>rc_free_list := Some F\<rparr>) }) = Some ?rc"
    using fre_at [of "rc\<lparr>rc_free_list := Some F\<rparr>" a] d assms(3) by simp
  have q: "rc_queues ?rc cap (map fst pend) pool" using F(2) by (simp add: rc_queues_def)
  then have pl: "length pool \<le> NODE_POOL_SIZE" by (auto simp: rc_queues_def dest!: rq_list_length)
  obtain P where P: "pool_write a ?rc = Some (if length pool < NODE_POOL_SIZE then 0 else - 2, ?rc\<lparr>rc_node_pool := Some P\<rparr>)"
    "rc_queues (?rc\<lparr>rc_node_pool := Some P\<rparr>) cap (map fst pend) (if length pool < NODE_POOL_SIZE then pool @ [a] else pool)"
    using pool_write_ok [OF q] by blast
  show ?thesis
  proof (cases "length pool < NODE_POOL_SIZE")
    case True
    have "gc_loop cbs limit rc = gc_loop cbs limit (?rc\<lparr>rc_node_pool := Some P\<rparr>)"
      using len assms(2) F(1) cb P(1) True by (subst gc_loop.simps) simp
    moreover have "rc_at (?rc\<lparr>rc_node_pool := Some P\<rparr>) cap L pend (pool @ [a])"
      using P(2) True heap_ok_pool [OF at(2)] at(3) by (simp add: rc_at_def)
    ultimately show ?thesis using True by (intro exI [of _ "?rc\<lparr>rc_node_pool := Some P\<rparr>"]) (simp add: rc_keeps_def)
  next
    case False
    let ?rc' = "?rc\<lparr>rc_node_pool := Some P, rc_nodes := (rc_nodes rc)(a := None)\<rparr>"
    have "gc_loop cbs limit rc = gc_loop cbs limit ?rc'"
      using len assms(2) F(1) cb P(1) False d by (subst gc_loop.simps) (simp add: free_rc_node_def)
    moreover have "rc_at ?rc' cap L pend pool"
      using P(2) False heap_ok_drop [OF at(2)] at(3) by (auto simp: rc_at_def rc_queues_def)
    ultimately show ?thesis using False pl by (intro exI [of _ ?rc']) (simp add: rc_keeps_def)
  qed
qed

lemma gc_loop_ok:
  assumes "rc_at rc cap L (xs @ ys) pool" and "length ys = limit" and "frees fre (map snd xs) (rc_client rc) = Some w"
  shows "\<exists>rc'. gc_loop cbs limit rc = Some rc' \<and> rc_at rc' cap L ys (take NODE_POOL_SIZE (pool @ map fst xs)) \<and>
    rc_client rc' = w \<and> rc_keeps rc rc'"
  using assms
proof (induction xs arbitrary: rc pool)
  case Nil
  have "length pool \<le> NODE_POOL_SIZE" using Nil.prems(1) by (auto simp: rc_at_def rc_queues_def dest!: rq_list_length)
  then show ?case using Nil free_list_length_ok [of rc cap L ys pool] by (subst gc_loop.simps) simp
next
  case (Cons x xs)
  obtain a p where x: "x = (a, p)" by force
  obtain w1 where w1: "fre p (rc_client rc) = Some w1" "frees fre (map snd xs) w1 = Some w"
    using Cons.prems(3) by (auto simp: x split: bind_splits)
  obtain rc1 where 1: "gc_loop cbs limit rc = gc_loop cbs limit rc1" "rc_at rc1 cap L (xs @ ys) (take NODE_POOL_SIZE (pool @ [a]))"
    "rc_client rc1 = w1" "rc_keeps rc rc1" using gc_round [of rc cap L a p "xs @ ys" pool limit w1] Cons.prems(1,2) w1(1) by (auto simp: x)
  obtain rc2 where 2: "gc_loop cbs limit rc1 = Some rc2" "rc_client rc2 = w" "rc_keeps rc1 rc2"
    "rc_at rc2 cap L ys (take NODE_POOL_SIZE (take NODE_POOL_SIZE (pool @ [a]) @ map fst xs))"
    using Cons.IH [OF 1(2) Cons.prems(2)] w1(2) 1(3) by auto
  have "take NODE_POOL_SIZE (take NODE_POOL_SIZE (pool @ [a]) @ map fst xs) = take NODE_POOL_SIZE (pool @ map fst (x # xs))"
    by (cases "length pool < NODE_POOL_SIZE") (simp_all add: x)
  then show ?case using 1(1) 2 rc_keeps_trans [OF 1(4) 2(3)] by auto
qed

text \<open>The end of \<open>release_ref\<close>: the collection when the list is too long.\<close>

lemma collect_ok:
  assumes "rc_at rc cap L pend pool" and "k = gc_cut (rc_gc_threshold rc) (length pend)" and "frees fre (map snd (take k pend)) (rc_client rc) = Some w"
  shows "\<exists>rc'. (if free_list_length rc > rc_gc_threshold rc then gc cbs rc False else Some rc) = Some rc' \<and>
    rc_to rc rc' w cap L (drop k pend) (take NODE_POOL_SIZE (pool @ map fst (take k pend))) \<and> length (drop k pend) \<le> rc_gc_threshold rc"
proof (cases "length pend \<le> rc_gc_threshold rc")
  case True
  then have "k = 0" using assms(2) by (simp add: gc_cut_def)
  moreover have "length pool \<le> NODE_POOL_SIZE" using assms(1) by (auto simp: rc_at_def rc_queues_def dest!: rq_list_length)
  ultimately show ?thesis using True assms(1,3) free_list_length_ok [OF assms(1)] by (simp add: rc_to_def)
next
  case False
  then have k: "length (drop k pend) = rc_gc_threshold rc div 2" using assms(2) by (simp add: gc_cut_def)
  have "rc_at rc cap L (take k pend @ drop k pend) pool" using assms(1) by simp
  from gc_loop_ok [OF this k assms(3)] show ?thesis
    using False free_list_length_ok [OF assms(1)] k by (auto simp: gc_def rc_to_def)
qed

lemma release_many:
  assumes "rc_at rc cap L pend pool" and "L a = Some (p, d, Suc c)" and "0 < c" and "length pend \<le> rc_gc_threshold rc"
  shows "\<exists>rc'. release_rc_node cbs a rc = Some (Some a, rc') \<and> rc_to rc rc' (rc_client rc) cap (L(a \<mapsto> (p, d, c))) pend pool"
proof -
  have n: "rc_nodes rc a = Some (live_node (p, d, Suc c))" and c: "Suc c < 4294967296"
    using rc_at_live [OF assms(1,2)] by (simp_all add: live_at_def live_simps)
  let ?rc = "rc\<lparr>rc_nodes := (rc_nodes rc)(a \<mapsto> live_node (p, d, c))\<rparr>"
  have "set_rc_node a (\<lambda>n. n\<lparr>rn_count := sub32 (rn_count n) 1\<rparr>) rc = Some ?rc" using n c by (simp add: set_rc_node_def live_simps sub32_eq)
  moreover have "rc_to rc ?rc (rc_client rc) cap (L(a \<mapsto> (p, d, c))) pend pool"
    using set_node_live [OF assms(1,2), of "(p, d, c)" "\<lambda>_. live_node (p, d, c)"] assms(3) c n by (auto simp: live_simps set_rc_node_def)
  moreover from this have "\<not> free_list_length ?rc > rc_gc_threshold ?rc"
    using free_list_length_ok [of ?rc] assms(4) unfolding rc_to_def by fastforce
  ultimately show ?thesis using n assms(3) by (auto simp: release_rc_node_def live_simps set_rc_node_def)
qed

lemma release_last:
  assumes "rc_at rc cap L pend pool" and "L a = Some (p, d, 1)" and "length pend \<le> rc_gc_threshold rc"
    and "trm a d (rc_client rc) = Some w1" and "pend' = pend @ [(a, p)]" and "k = gc_cut (rc_gc_threshold rc) (length pend')"
    and "frees fre (map snd (take k pend')) w1 = Some w2"
  shows "\<exists>rc'. release_rc_node cbs a rc = Some (None, rc') \<and> length (drop k pend') \<le> rc_gc_threshold rc \<and>
    rc_to rc rc' w2 cap (L(a := None)) (drop k pend') (take NODE_POOL_SIZE (pool @ map fst (take k pend')))"
proof -
  have n: "rc_nodes rc a = Some (live_node (p, d, 1))" using rc_at_live [OF assms(1,2)] by (simp add: live_at_def)
  let ?h = "(rc_nodes rc)(a \<mapsto> \<lparr>rn_ptr = p, rn_priv = d, rn_count = 0, rn_updating = True\<rparr>)"
  let ?rc0 = "rc\<lparr>rc_nodes := (rc_nodes rc)(a \<mapsto> \<lparr>rn_ptr = p, rn_priv = d, rn_count = 0, rn_updating = False\<rparr>)\<rparr>"
  define rc1 where "rc1 = rc\<lparr>rc_nodes := ?h\<rparr>"
  define rc2 where "rc2 = rc1\<lparr>rc_client := w1\<rparr>"
  have q: "rc_queues rc2 cap (map fst pend) pool" "length (map fst pend) < cap"
    using assms(1,3) by (auto simp: rc_at_def rc_queues_def rc1_def rc2_def)
  obtain F where F: "free_list_write a rc2 = Some (0, rc2\<lparr>rc_free_list := Some F\<rparr>)"
    "rc_queues (rc2\<lparr>rc_free_list := Some F\<rparr>) cap (map fst pend @ [a]) pool" using free_list_write_ok [OF q] by blast
  define rc3 where "rc3 = rc2\<lparr>rc_free_list := Some F\<rparr>"
  have 3: "rc_gc_threshold rc3 = rc_gc_threshold rc" "rc_client rc3 = w1" "rc_keeps rc rc3" by (simp_all add: rc1_def rc2_def rc3_def rc_keeps_def)
  have "rc_at rc3 cap (L(a := None)) pend' pool"
    using F(2) heap_ok_terminate [of "rc_nodes rc" L pend pool a p d 1 d] assms(1,2) n
    by (auto simp: rc_at_def assms(5) rc1_def rc2_def rc3_def)
  from collect_ok [OF this, of k w2] assms(6,7) 3 obtain rc' where
    c: "(if free_list_length rc3 > rc_gc_threshold rc3 then gc cbs rc3 False else Some rc3) = Some rc'"
    "rc_to rc3 rc' w2 cap (L(a := None)) (drop k pend') (take NODE_POOL_SIZE (pool @ map fst (take k pend')))"
    "length (drop k pend') \<le> rc_gc_threshold rc" by auto
  have t: "(case terminate_node_cb cbs of None \<Rightarrow> Some rc1 | Some f \<Rightarrow> f a d rc1) = Some rc2"
    using trm_law [of rc1 a d] assms(4) by (simp add: rc1_def rc2_def)
  have s: "set_rc_node a (\<lambda>n. n\<lparr>rn_count := sub32 (rn_count n) 1\<rparr>) rc = Some ?rc0" "set_rc_node a (\<lambda>n. n\<lparr>rn_updating := True\<rparr>) ?rc0 = Some rc1"
    using n by (simp_all add: set_rc_node_def live_simps sub32_eq rc1_def)
  have "release_rc_node cbs a rc = Some (None, rc')" using n t F(1) [folded rc3_def] c(1) s
    by (cases "terminate_node_cb cbs") (simp_all add: release_rc_node_def live_simps)
  moreover have "rc_to rc rc' w2 cap (L(a := None)) (drop k pend') (take NODE_POOL_SIZE (pool @ map fst (take k pend')))"
    using c(2) 3(3) rc_keeps_trans by (auto simp: rc_to_def)
  ultimately show ?thesis using c(3) by blast
qed

text \<open>\<open>refcnt_destroy\<close> frees everything but the nodes that still have references.\<close>

lemma rc_destroy_ok:
  assumes "rc_at rc cap L pend pool" and "frees fre (map snd pend) (rc_client rc) = Some w"
  shows "\<exists>rc' F P. refcnt_destroy cbs rc = Some rc' \<and> rc_client rc' = w \<and> dom (rc_nodes rc') = dom L \<and>
    rc_free_list rc' = Some F \<and> rc_node_pool rc' = Some P \<and> rq_pages F = Map.empty \<and> rq_pages P = Map.empty"
proof -
  have "rc_at rc cap L (pend @ []) pool" using assms(1) by simp
  from gc_loop_ok [OF this, of 0 w] assms(2) obtain rc1 ps where 1: "gc cbs rc True = Some rc1" "rc_at rc1 cap L [] ps" "rc_client rc1 = w"
    by (auto simp: gc_def)
  obtain F P where q: "rc_free_list rc1 = Some F" "rc_node_pool rc1 = Some P" "rq_list cap False F []" "rq_list NODE_POOL_SIZE True P ps"
    using 1(2) by (auto simp: rc_at_def rc_queues_def)
  obtain F' where F: "rqueue_destroy F = Some F'" "rq_pages F' = Map.empty" using rq_list_destroy [OF q(3)] by blast
  obtain P' where P: "rqueue_destroy P = Some P'" "rq_pages P' = Map.empty" "mset (rq_freed P') = mset ps" using rq_list_destroy [OF q(4)] by auto
  have h: "rc_heap_ok (rc_nodes rc1) L [] ps" using 1(2) by (simp add: rc_at_def)
  have fs: "set (rq_freed P') = set ps" "distinct (rq_freed P')"
    using P(3) heap_okD(1) [OF h] by (metis set_mset_mset, metis append_Nil list.map_disc_iff mset_eq_imp_distinct_iff self_append_conv2 list.simps(8))
  let ?rc = "rc1\<lparr>rc_free_list := Some F', rc_node_pool := Some P'\<rparr>"
  have "refcnt_destroy cbs rc = Some (?rc\<lparr>rc_nodes := rc_nodes rc1 |` (- set ps)\<rparr>)"
    using 1(1) q F(1) P(1) fs heap_okD(3) [OF h] free_nodes_ok [of "rq_freed P'" ?rc] by (simp add: refcnt_destroy_def rq_list_freed)
  moreover have "dom (rc_nodes rc1 |` (- set ps)) = dom L" using heap_okD(2,3) [OF h] by auto
  ultimately show ?thesis using 1(3) F(2) P(2) by simp
qed

end

end
