(* ===== verification/Refcnt_Life.thy ===== *)
theory Refcnt_Life
  imports Refcnt_Spec
begin

text \<open>
  The life of reference counted nodes of \<open>refcnt.c\<close> under a client that keeps to the rules: it uses only nodes to which it
  has a reference. The client records the calls of its callbacks.
\<close>

section \<open>Clients that record the callbacks\<close>

datatype ('p, 'd) event = Terminated "'d option" | Freed "'p option"

definition log_cbs :: "('p, 'd, ('p, 'd) event list) refcnt_callbacks" where
  "log_cbs = \<lparr>terminate_node_cb = Some (\<lambda>a d rc. Some (rc\<lparr>rc_client := rc_client rc @ [Terminated d]\<rparr>)),
              free_node_ptr_cb = Some (\<lambda>p rc. Some (rc\<lparr>rc_client := rc_client rc @ [Freed p]\<rparr>))\<rparr>"

interpretation log: client_callbacks log_cbs "\<lambda>a d w. Some (w @ [Terminated d])" "\<lambda>p w. Some (w @ [Freed p])"
  by unfold_locales (simp_all add: log_cbs_def)

lemma frees_log: "frees (\<lambda>p w. Some (w @ [Freed p])) ps w = Some (w @ map Freed ps)"
  by (induction ps arbitrary: w) simp_all

fun terminations :: "('p, 'd) event list \<Rightarrow> 'd option list" where
  "terminations [] = []"
| "terminations (Terminated d # es) = d # terminations es"
| "terminations (Freed p # es) = terminations es"

fun released :: "('p, 'd) event list \<Rightarrow> 'p option list" where
  "released [] = []"
| "released (Terminated d # es) = released es"
| "released (Freed p # es) = p # released es"

lemma events_append:
  "terminations (xs @ ys) = terminations xs @ terminations ys" "released (xs @ ys) = released xs @ released ys"
  by (induction xs rule: terminations.induct) simp_all

lemma events_freed: "terminations (map Freed ps) = []" "released (map Freed ps) = ps"
  by (induction ps) simp_all

section \<open>Calls and their specification\<close>

text \<open>A call names a node by the order in which the nodes were made.\<close>

datatype ('p, 'd) rc_call = NewNode "'p option" "'d option" | RetainRef nat | ReleaseRef nat
datatype rc_answer = Kept | Gone

fun rc_exec ::
  "('p, 'd) rc_call \<Rightarrow> nat list \<times> ('p, 'd, ('p, 'd) event list) refcnt_t \<Rightarrow>
   (rc_answer \<times> nat list \<times> ('p, 'd, ('p, 'd) event list) refcnt_t) option" where
  "rc_exec (NewNode p d) (hs, rc) = do { (n, rc) \<leftarrow> new_node p d rc; a \<leftarrow> n; Some (Kept, hs @ [a], rc) }"
| "rc_exec (RetainRef i) (hs, rc) = do { (r, rc) \<leftarrow> retain_ref (Some (hs ! i), False) rc; Some (if r = None then Gone else Kept, hs, rc) }"
| "rc_exec (ReleaseRef i) (hs, rc) =
     do { (r, rc) \<leftarrow> release_ref log_cbs (Some rc) (Some (hs ! i)); rc \<leftarrow> rc; Some (if r = None then Gone else Kept, hs, rc) }"

text \<open>The specification counts references; a call that is not allowed is \<open>None\<close>. The second part lists the nodes without references.\<close>

type_synonym ('p, 'd) counted = "'p option \<times> 'd option \<times> nat"

fun rc_spec_exec ::
  "('p, 'd) rc_call \<Rightarrow> ('p, 'd) counted list \<times> ('p option \<times> 'd option) list \<Rightarrow>
   (rc_answer \<times> ('p, 'd) counted list \<times> ('p option \<times> 'd option) list) option" where
  "rc_spec_exec (NewNode p d) (cs, dead) = Some (Kept, cs @ [(p, d, 1)], dead)"
| "rc_spec_exec (RetainRef i) (cs, dead) =
     (if i < length cs then case cs ! i of (p, d, c) \<Rightarrow> if c = 0 then None else Some (Kept, cs[i := (p, d, Suc c)], dead) else None)"
| "rc_spec_exec (ReleaseRef i) (cs, dead) =
     (if i < length cs then case cs ! i of (p, d, c) \<Rightarrow> (case c of
          0 \<Rightarrow> None
        | Suc 0 \<Rightarrow> Some (Gone, cs[i := (p, d, 0)], dead @ [(p, d)])
        | Suc c \<Rightarrow> Some (Kept, cs[i := (p, d, c)], dead))
      else None)"

fun calls_of :: "('c \<Rightarrow> 's \<Rightarrow> ('a \<times> 's) option) \<Rightarrow> 'c list \<Rightarrow> 's \<Rightarrow> ('a list \<times> 's) option" where
  "calls_of exec [] s = Some ([], s)"
| "calls_of exec (c # cs) s = do { (a, s) \<leftarrow> exec c s; (as, s) \<leftarrow> calls_of exec cs s; Some (a # as, s) }"

section \<open>The relation\<close>

abbreviation cnt :: "('p, 'd) counted \<Rightarrow> nat" where
  "cnt x \<equiv> snd (snd x)"

definition handles :: "nat list \<Rightarrow> ('p, 'd) counted list \<Rightarrow> ('p, 'd) live \<Rightarrow> bool" where
  "handles hs cs L \<longleftrightarrow> length hs = length cs \<and> (\<forall>i < length cs. 0 < cnt (cs ! i) \<longrightarrow> L (hs ! i) = Some (cs ! i)) \<and>
     (\<forall>a \<in> dom L. \<exists>i < length cs. hs ! i = a \<and> 0 < cnt (cs ! i)) \<and>
     (\<forall>i < length cs. \<forall>j < length cs. i \<noteq> j \<longrightarrow> 0 < cnt (cs ! i) \<longrightarrow> 0 < cnt (cs ! j) \<longrightarrow> hs ! i \<noteq> hs ! j)"

lemma handles_dom:
  assumes "handles hs cs L"
  shows "dom L = {hs ! i | i. i < length cs \<and> 0 < cnt (cs ! i)}"
proof (intro set_eqI iffI)
  fix a assume "a \<in> dom L"
  then obtain i where "i < length cs" "hs ! i = a" "0 < cnt (cs ! i)" using assms unfolding handles_def by blast
  then show "a \<in> {hs ! i | i. i < length cs \<and> 0 < cnt (cs ! i)}" by blast
next
  fix a assume "a \<in> {hs ! i | i. i < length cs \<and> 0 < cnt (cs ! i)}"
  then obtain i where "i < length cs" "a = hs ! i" "0 < cnt (cs ! i)" by blast
  moreover from this have "L (hs ! i) = Some (cs ! i)" using assms unfolding handles_def by simp
  ultimately show "a \<in> dom L" by blast
qed

lemma handles_new:
  assumes "handles hs cs L" and "a \<notin> dom L" and "0 < cnt x"
  shows "handles (hs @ [a]) (cs @ [x]) (L(a \<mapsto> x))"
proof -
  have ne: "hs ! i \<noteq> a" if "i < length cs" "0 < cnt (cs ! i)" for i using assms(1,2) that unfolding handles_def by blast
  show ?thesis unfolding handles_def
  proof (intro conjI allI ballI impI)
    fix b assume b: "b \<in> dom (L(a \<mapsto> x))"
    show "\<exists>i < length (cs @ [x]). (hs @ [a]) ! i = b \<and> 0 < cnt ((cs @ [x]) ! i)"
    proof (cases "b = a")
      case True
      then show ?thesis using assms(1,3) by (intro exI [of _ "length cs"]) (simp add: handles_def nth_append)
    next
      case False
      then have "b \<in> dom L" using b by simp
      then obtain i where "i < length cs" "hs ! i = b" "0 < cnt (cs ! i)" using assms(1) unfolding handles_def by blast
      then show ?thesis using assms(1) by (intro exI [of _ i]) (simp add: handles_def nth_append)
    qed
  qed (use assms ne in \<open>auto simp: handles_def nth_append less_Suc_eq\<close>)
qed

lemma handles_upd:
  assumes "handles hs cs L" and "i < length cs" and "0 < cnt (cs ! i)"
  shows "handles hs (cs[i := x]) (L(hs ! i := if 0 < cnt x then Some x else None))"
proof -
  have ne: "hs ! j \<noteq> hs ! i" if "j < length cs" "0 < cnt (cs ! j)" "j \<noteq> i" for j using assms that unfolding handles_def by blast
  show ?thesis unfolding handles_def
  proof (intro conjI allI ballI impI)
    fix b assume b: "b \<in> dom (L(hs ! i := if 0 < cnt x then Some x else None))"
    show "\<exists>j < length (cs[i := x]). hs ! j = b \<and> 0 < cnt (cs[i := x] ! j)"
    proof (cases "b = hs ! i")
      case True
      then show ?thesis using b assms(2) by (intro exI [of _ i]) (auto split: if_splits)
    next
      case False
      then have "b \<in> dom L" using b by (auto split: if_splits)
      then obtain j where "j < length cs" "hs ! j = b" "0 < cnt (cs ! j)" using assms(1) unfolding handles_def by blast
      moreover from this False have "j \<noteq> i" by auto
      ultimately show ?thesis by (intro exI [of _ j]) simp
    qed
  next
    fix j l assume j: "j < length (cs[i := x])" "l < length (cs[i := x])" "j \<noteq> l" "0 < cnt (cs[i := x] ! j)" "0 < cnt (cs[i := x] ! l)"
    consider "j = i" | "l = i" | "j \<noteq> i" "l \<noteq> i" by blast
    then show "hs ! j \<noteq> hs ! l"
    proof cases
      case 3
      then show ?thesis using j assms(1) unfolding handles_def by simp
    qed (use j ne [of l] ne [of j] in simp_all)
  qed (use assms ne in \<open>auto simp: handles_def nth_list_update\<close>)
qed

definition rc_rel ::
  "nat \<Rightarrow> nat \<Rightarrow> nat \<Rightarrow> ('p, 'd) counted list \<times> ('p option \<times> 'd option) list \<Rightarrow> nat list \<times> ('p, 'd, ('p, 'd) event list) refcnt_t \<Rightarrow> bool" where
  "rc_rel thr cap n s t \<longleftrightarrow> (\<exists>L pend pool. handles (fst t) (fst s) L \<and> rc_at (snd t) cap L pend pool \<and> length pend \<le> thr \<and>
     rc_gc_threshold (snd t) = thr \<and> rc_fails (snd t) = (\<lambda>_. False) \<and> (\<forall>x \<in> set (fst s). cnt x + n < 2147483648) \<and> n < 2147483647 \<and>
     terminations (rc_client (snd t)) = map snd (snd s) \<and> released (rc_client (snd t)) @ map snd pend = map fst (snd s))"

lemma rc_relE:
  assumes "rc_rel thr cap (Suc n) (cs, dead) (hs, rc)"
  obtains L pend pool where "handles hs cs L" "rc_at rc cap L pend pool" "length pend \<le> rc_gc_threshold rc" "rc_gc_threshold rc = thr"
    "rc_fails rc = (\<lambda>_. False)" "\<And>x. x \<in> set cs \<Longrightarrow> cnt x + Suc n < 2147483648" "Suc n < 2147483647"
    "terminations (rc_client rc) = map snd dead" "released (rc_client rc) @ map snd pend = map fst dead"
  using assms unfolding rc_rel_def fst_conv snd_conv by metis

lemma rc_relI:
  assumes "handles hs cs L" "rc_at rc cap L pend pool" "length pend \<le> thr" "rc_gc_threshold rc = thr" "rc_fails rc = (\<lambda>_. False)"
    "\<And>x. x \<in> set cs \<Longrightarrow> cnt x + n < 2147483648" "n < 2147483647"
    "terminations (rc_client rc) = map snd dead" "released (rc_client rc) @ map snd pend = map fst dead"
  shows "rc_rel thr cap n (cs, dead) (hs, rc)"
  unfolding rc_rel_def using assms by (intro exI [of _ L] exI [of _ pend] exI [of _ pool]) auto

lemma rc_rel_new:
  assumes "rc_rel thr cap (Suc n) (cs, dead) (hs, rc)"
  shows "\<exists>t. rc_exec (NewNode p d) (hs, rc) = Some (Kept, t) \<and> rc_rel thr cap n (cs @ [(p, d, 1)], dead) t"
  using assms
proof (rule rc_relE)
  fix L pend pool
  assume r: "handles hs cs L" "rc_at rc cap L pend pool" "length pend \<le> rc_gc_threshold rc" "rc_gc_threshold rc = thr" "rc_fails rc = (\<lambda>_. False)"
    "\<And>x. x \<in> set cs \<Longrightarrow> cnt x + Suc n < 2147483648" "Suc n < 2147483647"
    "terminations (rc_client rc) = map snd dead" "released (rc_client rc) @ map snd pend = map fst dead"
  obtain a rc' where a: "a \<notin> dom L" "new_node p d rc = Some (Some a, rc')" "rc_at rc' cap (L(a \<mapsto> (p, d, 1))) pend (tl pool)"
    "rc_client rc' = rc_client rc" "rc_gc_threshold rc' = rc_gc_threshold rc" "rc_fails rc' = rc_fails rc"
    using new_node_ok(1) [OF r(2)] new_node_ok(3) [OF r(2), of p d] r(5) by auto
  have "rc_rel thr cap n (cs @ [(p, d, 1)], dead) (hs @ [a], rc')"
  proof (rule rc_relI [OF handles_new [OF r(1) a(1)] a(3)])
    show "cnt x + n < 2147483648" if "x \<in> set (cs @ [(p, d, 1)])" for x using that r(6) [of x] r(7) by auto
  qed (use r a in simp_all)
  then show ?thesis using a(2) by simp
qed

lemma rc_rel_retain:
  assumes "rc_rel thr cap (Suc n) (cs, dead) (hs, rc)" and "i < length cs" and "cs ! i = (p, d, c)" and "0 < c"
  shows "\<exists>t. rc_exec (RetainRef i) (hs, rc) = Some (Kept, t) \<and> rc_rel thr cap n (cs[i := (p, d, Suc c)], dead) t"
  using assms(1)
proof (rule rc_relE)
  fix L pend pool
  assume r: "handles hs cs L" "rc_at rc cap L pend pool" "length pend \<le> rc_gc_threshold rc" "rc_gc_threshold rc = thr" "rc_fails rc = (\<lambda>_. False)"
    "\<And>x. x \<in> set cs \<Longrightarrow> cnt x + Suc n < 2147483648" "Suc n < 2147483647"
    "terminations (rc_client rc) = map snd dead" "released (rc_client rc) @ map snd pend = map fst dead"
  have L: "L (hs ! i) = Some (p, d, c)" using r(1) assms(2-4) unfolding handles_def by auto
  have "(p, d, c) \<in> set cs" using assms(2,3) nth_mem [of i cs] by simp
  then have c: "c + Suc n < 2147483648" using r(6) by fastforce
  obtain rc' where t: "retain_ref (Some (hs ! i), False) rc = Some (Some (hs ! i), rc')"
    "rc_to rc rc' (rc_client rc) cap (L(hs ! i \<mapsto> (p, d, Suc c))) pend pool"
    using deref_ok [OF r(2) L, of "(\<lambda>_. Some (Some (hs ! i), False), \<lambda>_. Some)" False True] c by (auto simp: retain_ref_def deref_link_def)
  have "rc_rel thr cap n (cs[i := (p, d, Suc c)], dead) (hs, rc')"
  proof (rule rc_relI)
    show "handles hs (cs[i := (p, d, Suc c)]) (L(hs ! i \<mapsto> (p, d, Suc c)))"
      using handles_upd [OF r(1) assms(2), of "(p, d, Suc c)"] assms(3,4) by simp
    show "cnt x + n < 2147483648" if "x \<in> set (cs[i := (p, d, Suc c)])" for x
      using subsetD [OF set_update_subset_insert that] r(6) [of x] c by auto
  qed (use r t(2) in \<open>auto simp: rc_to_def rc_keeps_def\<close>)
  then show ?thesis using t(1) by simp
qed

lemma rc_rel_release:
  assumes "rc_rel thr cap (Suc n) (cs, dead) (hs, rc)" and "i < length cs" and "cs ! i = (p, d, Suc c)"
  shows "\<exists>t. rc_exec (ReleaseRef i) (hs, rc) = Some (if c = 0 then Gone else Kept, t) \<and>
    rc_rel thr cap n (cs[i := (p, d, c)], if c = 0 then dead @ [(p, d)] else dead) t"
  using assms(1)
proof (rule rc_relE)
  fix L pend pool
  assume r: "handles hs cs L" "rc_at rc cap L pend pool" "length pend \<le> rc_gc_threshold rc" "rc_gc_threshold rc = thr" "rc_fails rc = (\<lambda>_. False)"
    "\<And>x. x \<in> set cs \<Longrightarrow> cnt x + Suc n < 2147483648" "Suc n < 2147483647"
    "terminations (rc_client rc) = map snd dead" "released (rc_client rc) @ map snd pend = map fst dead"
  have L: "L (hs ! i) = Some (p, d, Suc c)" using r(1) assms(2,3) unfolding handles_def by auto
  have h: "handles hs (cs[i := (p, d, c)]) (L(hs ! i := if 0 < c then Some (p, d, c) else None))"
    using handles_upd [OF r(1) assms(2), of "(p, d, c)"] assms(3) by simp
  have "(p, d, Suc c) \<in> set cs" using assms(2,3) nth_mem [of i cs] by simp
  then have b: "cnt x + n < 2147483648" if "x \<in> set (cs[i := (p, d, c)])" for x
    using subsetD [OF set_update_subset_insert that] r(6) [of x] r(6) [of "(p, d, Suc c)"] by auto
  show ?thesis
  proof (cases "c = 0")
    case False
    then obtain rc' where t: "release_rc_node log_cbs (hs ! i) rc = Some (Some (hs ! i), rc')"
      "rc_to rc rc' (rc_client rc) cap (L(hs ! i \<mapsto> (p, d, c))) pend pool" using log.release_many [OF r(2) L _ r(3)] by auto
    have "rc_rel thr cap n (cs[i := (p, d, c)], dead) (hs, rc')"
      using rc_relI [OF h _ _ _ _ b, of rc' cap pend pool thr dead] r t(2) False by (auto simp: rc_to_def rc_keeps_def)
    then show ?thesis using t(1) False by (simp add: release_ref_def)
  next
    case True
    define pend' where "pend' = pend @ [(hs ! i, p)]"
    define k where "k = gc_cut (rc_gc_threshold rc) (length pend')"
    have L1: "L (hs ! i) = Some (p, d, 1)" using L True by simp
    obtain rc' pool' where t: "release_rc_node log_cbs (hs ! i) rc = Some (None, rc')" "length (drop k pend') \<le> rc_gc_threshold rc"
      "rc_to rc rc' (rc_client rc @ [Terminated d] @ map Freed (map snd (take k pend'))) cap (L(hs ! i := None)) (drop k pend') pool'"
      using log.release_last [OF r(2) L1 r(3) refl pend'_def k_def frees_log] by auto
    have m: "map snd (take k pend') @ map snd (drop k pend') = map snd pend @ [p]"
      unfolding map_append [symmetric] append_take_drop_id by (simp add: pend'_def)
    have cl: "rc_client rc' = rc_client rc @ [Terminated d] @ map Freed (map snd (take k pend'))" using t(3) by (simp add: rc_to_def del: map_map)
    have e: "terminations (rc_client rc') = map snd (dead @ [(p, d)])" "released (rc_client rc') @ map snd (drop k pend') = map fst (dead @ [(p, d)])"
      unfolding cl events_append events_freed using r(8,9) m by (simp_all flip: append_assoc) (simp add: append_assoc)
    have "rc_rel thr cap n (cs[i := (p, d, c)], dead @ [(p, d)]) (hs, rc')"
      using rc_relI [OF h _ _ _ _ b _ e, of cap pool' thr] r(4,5,7) t(2,3) True by (simp add: rc_to_def rc_keeps_def)
    then show ?thesis using t(1) True by (simp add: release_ref_def)
  qed
qed

lemma rc_rel_step:
  assumes "rc_rel thr cap (Suc n) s t" and "rc_spec_exec c s = Some (a, s')"
  shows "\<exists>t'. rc_exec c t = Some (a, t') \<and> rc_rel thr cap n s' t'"
proof -
  obtain cs dead hs rc where st: "s = (cs, dead)" "t = (hs, rc)" by (cases s; cases t)
  show ?thesis
  proof (cases c)
    case (NewNode p d)
    then show ?thesis using assms rc_rel_new by (auto simp: st)
  next
    case (RetainRef i)
    then obtain p d k where "i < length cs" "cs ! i = (p, d, k)" "0 < k" "a = Kept" "s' = (cs[i := (p, d, Suc k)], dead)"
      using assms(2) by (auto simp: st split: if_splits prod.splits)
    then show ?thesis using rc_rel_retain [OF assms(1) [unfolded st]] RetainRef by (simp add: st)
  next
    case (ReleaseRef i)
    then obtain p d k where "i < length cs" "cs ! i = (p, d, Suc k)" "a = (if k = 0 then Gone else Kept)"
      "s' = (cs[i := (p, d, k)], if k = 0 then dead @ [(p, d)] else dead)"
      using assms(2) by (auto simp: st split: if_splits prod.splits nat.splits)
    then show ?thesis using rc_rel_release [OF assms(1) [unfolded st]] ReleaseRef by (simp add: st)
  qed
qed

lemma rc_rel_run:
  "rc_rel thr cap (length calls) s t \<Longrightarrow> calls_of rc_spec_exec calls s = Some (as, s') \<Longrightarrow>
   \<exists>t'. calls_of rc_exec calls t = Some (as, t') \<and> rc_rel thr cap 0 s' t'"
proof (induction calls arbitrary: s t as)
  case (Cons c calls)
  then obtain a s1 bs where 1: "rc_spec_exec c s = Some (a, s1)" "calls_of rc_spec_exec calls s1 = Some (bs, s')" "as = a # bs"
    by (auto split: bind_splits)
  with rc_rel_step [of thr cap "length calls" s t c a s1] Cons.prems(1) obtain t1 where t: "rc_exec c t = Some (a, t1)" "rc_rel thr cap (length calls) s1 t1" by auto
  from Cons.IH [OF t(2) 1(2)] 1(3) t(1) show ?case by auto
qed auto

section \<open>Properties\<close>

text \<open>
  \<open>C11\<close>: Reference counts: for a client that only uses nodes to which it has a reference, every sequence of calls of \<open>new_node\<close>,
  \<open>retain_ref\<close> and \<open>release_ref\<close> returns and answers as plain counters do. A node is terminated exactly when its count
  drops to zero, once, in that order; its pointer is given to the release callback later, in the same order and
  once, with at most \<open>gc_threshold\<close> pointers waiting. \<open>refcnt_destroy\<close> releases all that wait, and no node but
  those with references stays allocated, nor any page of a queue. Thresholds above \<open>1431655764\<close> overflow the size of the list.
\<close>

theorem refcnt_counts_references:
  assumes "thr < 1431655765" and "length calls < 2147483647" and "calls_of rc_spec_exec calls ([], []) = Some (as, cs, dead)"
  shows "\<exists>rc hs rc' rc'' F P. refcnt_create (\<lambda>_. False) a [] thr = Some (Some rc) \<and>
    calls_of rc_exec calls ([], rc) = Some (as, hs, rc') \<and> length hs = length cs \<and>
    (\<forall>i < length cs. 0 < cnt (cs ! i) \<longrightarrow> get_node_refcount (Some (hs ! i)) rc' = Some (int (cnt (cs ! i))) \<and>
      get_node_ptr (Some (hs ! i)) rc' = Some (fst (cs ! i))) \<and>
    terminations (rc_client rc') = map snd dead \<and>
    (\<exists>waiting. released (rc_client rc') @ waiting = map fst dead \<and> length waiting \<le> thr) \<and>
    refcnt_destroy log_cbs rc' = Some rc'' \<and> released (rc_client rc'') = map fst dead \<and> terminations (rc_client rc'') = map snd dead \<and>
    dom (rc_nodes rc'') = {hs ! i | i. i < length cs \<and> 0 < cnt (cs ! i)} \<and>
    rc_free_list rc'' = Some F \<and> rc_node_pool rc'' = Some P \<and> rq_pages F = Map.empty \<and> rq_pages P = Map.empty"
proof -
  let ?cap = "max 256 (thr + thr div 2)"
  obtain rc :: "('a, 'b, ('a, 'b) event list) refcnt_t" where rc: "refcnt_create (\<lambda>_. False) a [] thr = Some (Some rc)" "rc_at rc ?cap Map.empty [] []"
    "rc_client rc = []" "rc_gc_threshold rc = thr" "rc_fails rc = (\<lambda>_. False)"
    using refcnt_create_ok [OF assms(1), of a "\<lambda>_. False" "[]"] by auto
  have "rc_rel thr ?cap (length calls) ([], []) ([], rc)"
    by (rule rc_relI [OF _ rc(2)]) (use rc assms(2) in \<open>auto simp: handles_def\<close>)
  from rc_rel_run [OF this assms(3)] obtain hs rc' where r: "calls_of rc_exec calls ([], rc) = Some (as, hs, rc')" "rc_rel thr ?cap 0 (cs, dead) (hs, rc')"
    by (metis surj_pair)
  from r(2) obtain L pend pool where t: "handles hs cs L" "rc_at rc' ?cap L pend pool" "length pend \<le> thr" "\<And>x. x \<in> set cs \<Longrightarrow> cnt x < 2147483648"
    "terminations (rc_client rc') = map snd dead" "released (rc_client rc') @ map snd pend = map fst dead" by (auto simp: rc_rel_def)
  obtain rc'' F P where d: "refcnt_destroy log_cbs rc' = Some rc''" "rc_client rc'' = rc_client rc' @ map Freed (map snd pend)" "dom (rc_nodes rc'') = dom L"
    "rc_free_list rc'' = Some F" "rc_node_pool rc'' = Some P" "rq_pages F = Map.empty" "rq_pages P = Map.empty"
    using log.rc_destroy_ok [OF t(2) frees_log] by blast
  have A: "get_node_refcount (Some (hs ! i)) rc' = Some (int (cnt (cs ! i))) \<and> get_node_ptr (Some (hs ! i)) rc' = Some (fst (cs ! i))"
    if i: "i < length cs" "0 < cnt (cs ! i)" for i
  proof -
    have "L (hs ! i) = Some (cs ! i)" using t(1) i unfolding handles_def by blast
    then have "rc_nodes rc' (hs ! i) = Some (live_node (cs ! i))" using rc_at_live [OF t(2)] by (simp add: live_at_def)
    moreover have "cnt (cs ! i) < 2147483648" using t(4) [of "cs ! i"] i(1) by simp
    ultimately show ?thesis by (simp add: get_node_refcount_def get_node_ptr_def live_node_def to_int_eq split: prod.splits)
  qed
  have B: "dom (rc_nodes rc'') = {hs ! i | i. i < length cs \<and> 0 < cnt (cs ! i)}" "length hs = length cs"
    using handles_dom [OF t(1)] d(3) t(1) by (simp_all add: handles_def)
  have C: "released (rc_client rc'') = map fst dead" "terminations (rc_client rc'') = map snd dead"
    using t(5,6) unfolding d(2) events_append events_freed by simp_all
  have D: "\<exists>waiting. released (rc_client rc') @ waiting = map fst dead \<and> length waiting \<le> thr" using t(3,6) by (intro exI [of _ "map snd pend"]) simp
  show ?thesis
    by (rule exI [of _ rc], rule exI [of _ hs], rule exI [of _ rc'], rule exI [of _ rc''], rule exI [of _ F], rule exI [of _ P],
        intro conjI allI impI) (fact rc(1) r(1) B A [THEN conjunct1] A [THEN conjunct2] t(5) D d(1) C d(4-7))+
qed

section \<open>Witness\<close>

definition rc_ex :: "(string, string) rc_call list" where
  "rc_ex = [NewNode (Some ''a'') None, NewNode (Some ''b'') (Some ''p''), RetainRef 0, ReleaseRef 1, ReleaseRef 0, NewNode None None, ReleaseRef 2]"

theorem refcnt_counts_references_witness:
  "\<exists>rc hs rc' rc''. refcnt_create (\<lambda>_. False) 1 [] 8 = Some (Some rc) \<and>
    calls_of rc_exec rc_ex ([], rc) = Some ([Kept, Kept, Kept, Gone, Kept, Kept, Gone], hs, rc') \<and>
    get_node_refcount (Some (hs ! 0)) rc' = Some 1 \<and> terminations (rc_client rc') = [Some ''p'', None] \<and>
    refcnt_destroy log_cbs rc' = Some rc'' \<and> released (rc_client rc'') = [Some ''b'', None] \<and> dom (rc_nodes rc'') = {hs ! 0}"
proof -
  have s: "calls_of rc_spec_exec rc_ex ([], []) =
      Some ([Kept, Kept, Kept, Gone, Kept, Kept, Gone], [(Some ''a'', None, 1), (Some ''b'', Some ''p'', 0), (None, None, 0)], [(Some ''b'', Some ''p''), (None, None)])"
    by code_simp
  have l: "length rc_ex < 2147483647" by (simp add: rc_ex_def)
  have i: "{hs ! i | i. i < length [(Some ''a'', None, 1), (Some ''b'', Some ''p'', 0), (None, None :: string option, 0 :: nat)] \<and>
    0 < cnt ([(Some ''a'', None, 1), (Some ''b'', Some ''p'', 0), (None, None, 0)] ! i)} = {hs ! 0}" for hs :: "nat list"
    by (auto simp: less_Suc_eq)
  from refcnt_counts_references [OF _ l s, of 8 1] show ?thesis unfolding i by fastforce
qed

section \<open>Flaws\<close>

text \<open>
  \<open>compare_and_swap_ref\<close> takes the reference of the old node away without the test for zero: the last reference is
  gone, but the node is neither terminated nor put on the list. \<open>release_ref\<close>, by contrast, would terminate it.
\<close>

definition cas_ex :: "(string, string, node_link) refcnt_t" where
  "cas_ex = \<lparr>rc_nodes = [1 \<mapsto> \<lparr>rn_ptr = Some ''x'', rn_priv = None, rn_count = 1, rn_updating = False\<rparr>],
     rc_free_list = None, rc_node_pool = None, rc_gc_threshold = 8, rc_next = 2, rc_fails = (\<lambda>_. False), rc_client = (Some 1, False)\<rparr>"

lemma swap_forgets_old_node:
  "map_option (\<lambda>(ok, rc). (ok, rc_nodes rc 1)) (compare_and_swap_ref (\<lambda>rc. Some (rc_client rc), \<lambda>l rc. Some (rc\<lparr>rc_client := l\<rparr>))
     (Some 1, False) (None, False) cas_ex) =
   Some (True, Some \<lparr>rn_ptr = Some ''x'', rn_priv = None, rn_count = 0, rn_updating = False\<rparr>)"
  by (simp add: compare_and_swap_ref_def cas_ex_def count_add_def set_rc_node_def REFCNT_IS_MARKED_def REFCNT_MARK_OFF_def sub32_eq)

text \<open>A large threshold makes the size of the list overflow: the list has 256 places and is never collected.\<close>

lemma large_threshold_small_list:
  "\<exists>rc F. refcnt_create (\<lambda>_. False) a w 2147483648 = Some (Some rc) \<and> rc_gc_threshold rc = 2147483648 \<and> rc_free_list rc = Some F \<and> rq_list 256 False F []"
proof -
  have n: "(if to_int (add32 2147483648 (2147483648 div 2)) < int FREE_LIST_MIN_SIZE then FREE_LIST_MIN_SIZE
    else nat (to_int (add32 2147483648 (2147483648 div 2)))) = 256"
    by (simp add: add32_def to_int_def FREE_LIST_MIN_SIZE_def)
  obtain F where F: "rqueue_create (\<lambda>_. False) (Suc a) 256 RQUEUE_MODE_BLOCKING = Some (Some (F :: nat rqueue_t), rq_pages F)" "rq_list 256 False F []"
    using rq_list_create [of "Suc a" 256 "\<lambda>_. False" False, where 'v = nat] by auto
  obtain P where P: "rqueue_create (\<lambda>_. False) (a + 256 + 4) NODE_POOL_SIZE RQUEUE_MODE_BLOCKING = Some (Some (P :: nat rqueue_t), rq_pages P)"
    using rq_list_create [of "a + 256 + 4" NODE_POOL_SIZE "\<lambda>_. False" True, where 'v = nat] by (auto simp: NODE_POOL_SIZE_def)
  show ?thesis using F P unfolding refcnt_create_def Let_def n by simp
qed

text \<open>When the list is full, a terminated node gets lost: the code ignores that the write failed.\<close>

lemma full_list_loses_node:
  assumes "rc_free_list rc = Some F" and "rq_list cap False F fs" and "length fs = cap" and "cap \<le> SIZE_MAX" and "cap \<le> rc_gc_threshold rc"
    and "rc_nodes rc a = Some \<lparr>rn_ptr = p, rn_priv = d, rn_count = 1, rn_updating = False\<rparr>"
  shows "\<exists>rc'. release_rc_node log_cbs a rc = Some (None, rc') \<and> rc_free_list rc' = Some F \<and> rc_node_pool rc' = rc_node_pool rc \<and>
    rc_client rc' = rc_client rc @ [Terminated d]"
  using assms rq_list_full [OF assms(2,3)] rq_list_count [OF assms(2,4)]
  by (simp add: release_rc_node_def set_rc_node_def sub32_eq log_cbs_def free_list_write_def free_list_length_def rqueue_write_count_def rqueue_read_count_def)

end
