(* ===== verification/Refcnt_Race.thy ===== *)
theory Refcnt_Race
  imports Refcnt
begin

text \<open>
  Several threads that retain and release one node of \<open>refcnt.c\<close>. A step of the machine is one atomic access of one thread
  to the count or to the flag \<open>updating\<close>; the threads interleave freely. A thread owns a number of references; it
  gives one away when it enters \<open>release_ref\<close> and may call \<open>retain_ref\<close> while it owns one. The count does not wrap around as
  long as there are fewer than \<open>2 ^ 32\<close> references. The queues and the reuse of a node after its end are not part of the machine.
\<close>

section \<open>The machine\<close>

datatype ref_pc =
    Rest
  | Dec_test    \<comment> \<open>\<open>release_ref\<close>: before the test of the count\<close>
  | Dec         \<comment> \<open>before the decrement\<close>
  | Claim       \<comment> \<open>before the CAS of \<open>updating\<close>\<close>
  | Look        \<comment> \<open>after the CAS, before the second test of the count\<close>
  | Terminate   \<comment> \<open>before the callback\<close>
  | Give_back   \<comment> \<open>before the reset of \<open>updating\<close>\<close>
  | Ret_up      \<comment> \<open>\<open>retain_ref\<close>: before the test of \<open>updating\<close>\<close>
  | Ret_count   \<comment> \<open>before the test of the count\<close>
  | Ret_inc     \<comment> \<open>before the increment\<close>

record ref_sys =
  rs_count :: nat
  rs_updating :: bool
  rs_pc :: "nat \<Rightarrow> ref_pc"
  rs_claims :: "nat \<Rightarrow> nat"
  rs_terminated :: nat

abbreviation move :: "ref_sys \<Rightarrow> nat \<Rightarrow> ref_pc \<Rightarrow> nat \<Rightarrow> ref_sys" where
  "move s t p c \<equiv> s\<lparr>rs_pc := (rs_pc s)(t := p), rs_claims := (rs_claims s)(t := c)\<rparr>"

abbreviation stay :: "ref_sys \<Rightarrow> nat \<Rightarrow> ref_pc \<Rightarrow> ref_sys" where
  "stay s t p \<equiv> move s t p (rs_claims s t)"

inductive ref_step :: "ref_sys \<Rightarrow> ref_sys \<Rightarrow> bool" where
  release_begin: "rs_pc s t = Rest \<Longrightarrow> rs_claims s t = Suc c \<Longrightarrow> ref_step s (move s t Dec_test c)"
| test_pos: "rs_pc s t = Dec_test \<Longrightarrow> rs_count s > 0 \<Longrightarrow> ref_step s (stay s t Dec)"
| test_zero: "rs_pc s t = Dec_test \<Longrightarrow> rs_count s = 0 \<Longrightarrow> ref_step s (stay s t Claim)"
| decrement: "rs_pc s t = Dec \<Longrightarrow> ref_step s (stay (s\<lparr>rs_count := rs_count s - 1\<rparr>) t Claim)"
| claim_ok: "rs_pc s t = Claim \<Longrightarrow> \<not> rs_updating s \<Longrightarrow> ref_step s (stay (s\<lparr>rs_updating := True\<rparr>) t Look)"
| claim_fail: "rs_pc s t = Claim \<Longrightarrow> rs_updating s \<Longrightarrow> ref_step s (stay s t Rest)"
| look_zero: "rs_pc s t = Look \<Longrightarrow> rs_count s = 0 \<Longrightarrow> ref_step s (stay s t Terminate)"
| look_more: "rs_pc s t = Look \<Longrightarrow> rs_count s \<noteq> 0 \<Longrightarrow> ref_step s (stay s t Give_back)"
| callback: "rs_pc s t = Terminate \<Longrightarrow> ref_step s (stay (s\<lparr>rs_terminated := Suc (rs_terminated s)\<rparr>) t Rest)"
| give_back: "rs_pc s t = Give_back \<Longrightarrow> ref_step s (stay (s\<lparr>rs_updating := False\<rparr>) t Rest)"
| retain_begin: "rs_pc s t = Rest \<Longrightarrow> rs_claims s t > 0 \<Longrightarrow> ref_step s (stay s t Ret_up)"
| ret_clear: "rs_pc s t = Ret_up \<Longrightarrow> \<not> rs_updating s \<Longrightarrow> ref_step s (stay s t Ret_inc)"
| ret_busy: "rs_pc s t = Ret_up \<Longrightarrow> rs_updating s \<Longrightarrow> ref_step s (stay s t Ret_count)"
| ret_pos: "rs_pc s t = Ret_count \<Longrightarrow> rs_count s \<noteq> 0 \<Longrightarrow> ref_step s (stay s t Ret_inc)"
| ret_null: "rs_pc s t = Ret_count \<Longrightarrow> rs_count s = 0 \<Longrightarrow> ref_step s (stay s t Rest)"
| ret_inc: "rs_pc s t = Ret_inc \<Longrightarrow> ref_step s (move (s\<lparr>rs_count := Suc (rs_count s)\<rparr>) t Rest (Suc (rs_claims s t)))"

text \<open>At the start the threads below \<open>n\<close> own the references \<open>c0\<close>.\<close>

definition ref_start :: "nat \<Rightarrow> (nat \<Rightarrow> nat) \<Rightarrow> ref_sys" where
  "ref_start n c0 = \<lparr>rs_count = (\<Sum>t<n. c0 t), rs_updating = False, rs_pc = (\<lambda>_. Rest),
     rs_claims = (\<lambda>t. if t < n then c0 t else 0), rs_terminated = 0\<rparr>"

inductive ref_reach :: "nat \<Rightarrow> (nat \<Rightarrow> nat) \<Rightarrow> ref_sys \<Rightarrow> bool" for n c0 where
  ref_init: "ref_reach n c0 (ref_start n c0)"
| ref_next: "ref_reach n c0 s \<Longrightarrow> ref_step s s' \<Longrightarrow> ref_reach n c0 s'"

inductive_cases ref_stepE: "ref_step s s'"

section \<open>The invariant\<close>























section \<open>Properties\<close>


section \<open>Witness\<close>

text \<open>States of two threads.\<close>

definition two :: "nat \<Rightarrow> bool \<Rightarrow> ref_pc \<Rightarrow> ref_pc \<Rightarrow> nat \<Rightarrow> nat \<Rightarrow> nat \<Rightarrow> ref_sys" where
  "two c u p q i j e = \<lparr>rs_count = c, rs_updating = u, rs_pc = (\<lambda>t. if t = 0 then p else if t = 1 then q else Rest),
     rs_claims = (\<lambda>t. if t = 0 then i else if t = 1 then j else 0), rs_terminated = e\<rparr>"

lemma two_simps:
  "rs_count (two c u p q i j e) = c" "rs_updating (two c u p q i j e) = u" "rs_terminated (two c u p q i j e) = e"
  "rs_pc (two c u p q i j e) 0 = p" "rs_pc (two c u p q i j e) (Suc 0) = q" "rs_claims (two c u p q i j e) 0 = i" "rs_claims (two c u p q i j e) (Suc 0) = j"
  "(two c u p q i j e)\<lparr>rs_count := c'\<rparr> = two c' u p q i j e" "(two c u p q i j e)\<lparr>rs_updating := u'\<rparr> = two c u' p q i j e"
  "(two c u p q i j e)\<lparr>rs_terminated := e'\<rparr> = two c u p q i j e'"
  "move (two c u p q i j e) 0 p' i' = two c u p' q i' j e" "move (two c u p q i j e) (Suc 0) q' j' = two c u p q' i j' e"
  "(two c u p q i j e)\<lparr>rs_pc := (rs_pc (two c u p q i j e))(0 := p')\<rparr> = two c u p' q i j e"
  "(two c u p q i j e)\<lparr>rs_pc := (rs_pc (two c u p q i j e))(Suc 0 := q')\<rparr> = two c u p q' i j e"
  "(two c u p q i j e)\<lparr>rs_claims := (rs_claims (two c' u' p' q' i j e'))(0 := i')\<rparr> = two c u p q i' j e"
  "(two c u p q i j e)\<lparr>rs_claims := (rs_claims (two c' u' p' q' i j e'))(Suc 0 := j')\<rparr> = two c u p q i j' e"
  by (auto simp: two_def fun_eq_iff)

lemma two_start: "ref_reach 2 (\<lambda>_. 1) (two 2 False Rest Rest 1 1 0)"
proof -
  have "ref_start 2 (\<lambda>_. 1) = two 2 False Rest Rest 1 1 0" by (auto simp: ref_start_def two_def fun_eq_iff)
  then show ?thesis using ref_init [of 2 "\<lambda>_. 1"] by simp
qed



section \<open>Flaws\<close>

text \<open>
  A termination gets lost: the first thread has set the flag and seen that the count is not zero; before it resets the flag
  the second thread drops the last reference and finds the flag set, so that it does not terminate the node. Both return, the count
  is zero, and no reference is left that could be released: the node is never terminated and leaks.
\<close>

lemma termination_lost: "ref_reach 2 (\<lambda>_. 1) (two 0 False Rest Rest 0 0 0)"
proof -
  have "ref_reach 2 (\<lambda>_. 1) (two 2 False Dec_test Rest 0 1 0)" using ref_next [OF two_start release_begin [of _ 0 0]] by (simp add: two_simps)
  from ref_next [OF this test_pos [of _ 0]] have "ref_reach 2 (\<lambda>_. 1) (two 2 False Dec Rest 0 1 0)" by (simp add: two_simps)
  from ref_next [OF this decrement [of _ 0]] have "ref_reach 2 (\<lambda>_. 1) (two 1 False Claim Rest 0 1 0)" by (simp add: two_simps)
  from ref_next [OF this claim_ok [of _ 0]] have "ref_reach 2 (\<lambda>_. 1) (two 1 True Look Rest 0 1 0)" by (simp add: two_simps)
  from ref_next [OF this look_more [of _ 0]] have "ref_reach 2 (\<lambda>_. 1) (two 1 True Give_back Rest 0 1 0)" by (simp add: two_simps)
  from ref_next [OF this release_begin [of _ 1 0]] have "ref_reach 2 (\<lambda>_. 1) (two 1 True Give_back Dec_test 0 0 0)" by (simp add: two_simps)
  from ref_next [OF this test_pos [of _ 1]] have "ref_reach 2 (\<lambda>_. 1) (two 1 True Give_back Dec 0 0 0)" by (simp add: two_simps)
  from ref_next [OF this decrement [of _ 1]] have "ref_reach 2 (\<lambda>_. 1) (two 0 True Give_back Claim 0 0 0)" by (simp add: two_simps)
  from ref_next [OF this claim_fail [of _ 1]] have "ref_reach 2 (\<lambda>_. 1) (two 0 True Give_back Rest 0 0 0)" by (simp add: two_simps)
  from ref_next [OF this give_back [of _ 0]] show ?thesis by (simp add: two_simps)
qed

text \<open>
  A thread uses a node that is gone: it has dropped its reference and is about to set the flag (\<open>Claim\<close>), while another thread,
  which dropped the last reference, has called the callback. That thread goes on to put the node on the list to be freed, from where
  it gets into the pool or is given to \<open>free\<close>.
\<close>

lemma terminated_while_claiming: "ref_reach 2 (\<lambda>_. 1) (two 0 True Claim Rest 0 0 1)"
proof -
  have "ref_reach 2 (\<lambda>_. 1) (two 2 False Dec_test Rest 0 1 0)" using ref_next [OF two_start release_begin [of _ 0 0]] by (simp add: two_simps)
  from ref_next [OF this test_pos [of _ 0]] have "ref_reach 2 (\<lambda>_. 1) (two 2 False Dec Rest 0 1 0)" by (simp add: two_simps)
  from ref_next [OF this decrement [of _ 0]] have "ref_reach 2 (\<lambda>_. 1) (two 1 False Claim Rest 0 1 0)" by (simp add: two_simps)
  from ref_next [OF this release_begin [of _ 1 0]] have "ref_reach 2 (\<lambda>_. 1) (two 1 False Claim Dec_test 0 0 0)" by (simp add: two_simps)
  from ref_next [OF this test_pos [of _ 1]] have "ref_reach 2 (\<lambda>_. 1) (two 1 False Claim Dec 0 0 0)" by (simp add: two_simps)
  from ref_next [OF this decrement [of _ 1]] have "ref_reach 2 (\<lambda>_. 1) (two 0 False Claim Claim 0 0 0)" by (simp add: two_simps)
  from ref_next [OF this claim_ok [of _ 1]] have "ref_reach 2 (\<lambda>_. 1) (two 0 True Claim Look 0 0 0)" by (simp add: two_simps)
  from ref_next [OF this look_zero [of _ 1]] have "ref_reach 2 (\<lambda>_. 1) (two 0 True Claim Terminate 0 0 0)" by (simp add: two_simps)
  from ref_next [OF this callback [of _ 1]] show ?thesis by (simp add: two_simps)
qed

end
