(* ===== verification/Spec2Isabelle.thy ===== *)
theory Spec2Isabelle
  imports Rbuf Fbuf_IO Trie_Spec Hashtable_Spec Ht_Status List_Sort Tagged_Spec Rqueue_Life Pqueue_Spec Skiplist_Spec Rbtree_Life Avltree_Life
    Refcnt_Life Refcnt_Race
begin

text \<open>
  A verification library for libhl, a C library of data structures: hash tables (\<open>hashtable.c\<close>), linked
  lists (\<open>linklist.c\<close>), ring and flat byte buffers (\<open>rbuf.c\<close>, \<open>fbuf.c\<close>), tries (\<open>trie.c\<close>), key
  comparators (\<open>comparators.h\<close>), heaps, red-black and AVL trees, skip lists, graphs, lock-free queues and
  reference counts. Paths are relative
  to \<open>src/src/\<close>.

  \<^bold>\<open>How the code is modelled.\<close> A C function is a HOL function of the same name from its arguments and
  the memory it works on to \<open>'a option\<close>: \<open>None\<close> is a run that C leaves undefined (a signed overflow,
  an access outside of a block, a dereference of NULL or of a released cell) and, where a loop is a
  \<open>partial_function (option)\<close>, a run that does not end. A theorem that an operation gives \<open>Some\<close> therefore says
  that it returns and is free of these errors. Signed arithmetic goes through \<open>ck\<close>; \<open>unsigned int\<close>
  and \<open>size_t\<close> are numbers with the wrap-around written out where the code can reach it (\<open>add32\<close>, \<open>sub32\<close>,
  \<open>inc64\<close>, \<open>dec64\<close>, \<open>to_int\<close>), hashes are \<open>32 word\<close>. Structures are records, pointers optional
  addresses into explicit heaps. Allocation takes addresses in order and fails where a predicate of the
  memory says so; the calls of release callbacks are recorded in the order they are made. Callbacks, \<open>vsnprintf\<close>,
  \<open>read\<close> and \<open>write\<close> are arguments.

  \<^bold>\<open>The theories.\<close>

  \<^item> \<open>Prelude\<close>: the C fragments all components share, with the collections \<open>c_simps\<close> and \<open>c_defs\<close>.
  \<^item> \<open>Fifo\<close>, \<open>Map_Store\<close>: interfaces as locales. \<open>Fifo\<close> is a byte channel and what a client that retries with
    the remainder gets from it; \<open>Map_Store\<close> is a store of values by key.
  \<^item> \<open>Rbuf\<close> (\<open>rbuf.c\<close>): the ring buffer with its block, indices and the two modes. The invariant is that the
    indices delimit \<open>used\<close> bytes modulo the size; every operation acts on the content as on a list of bytes, writes
    are bounded by the free space in blocking mode and drop the oldest bytes in overwrite mode. It is a byte channel.
  \<^item> \<open>Fbuf\<close>, \<open>Fbuf_Spec\<close>, \<open>Fbuf_IO\<close> (\<open>fbuf.c\<close>): the flat buffer, its growth and its content; while allocations
    succeed, an append or a formatted append is all or nothing, with the maximum length as the only reason to refuse; the buffer is
    a byte channel, too.
  \<^item> \<open>Linklist\<close>, \<open>Linklist_Spec\<close> (\<open>linklist.c\<close>): entries, lists, cursor and slices on a heap. \<open>list_at m l es\<close>
    says that the list at \<open>l\<close> links the entries \<open>es\<close> in both directions and that its cursor is right. Every operation
    keeps it, touches nothing else, and refines an operation on plain lists; the locale \<open>list_store\<close> gives queue and
    stack order to clients. What the operations that add a value do is given for every pattern of failing allocations.
  \<^item> \<open>Comparators\<close> (\<open>comparators.h\<close>): the comparators of integer keys and the locale \<open>key_order\<close>.
  \<^item> \<open>List_Sort\<close> (\<open>list_sort\<close> in \<open>linklist.c\<close>): the quick sort on the links, proved in the locale
    \<open>value_comparator\<close>, which extends \<open>key_order\<close>; the 16-bit comparators are interpretations of both.
  \<^item> \<open>Tagged\<close>, \<open>Tagged_Spec\<close> (the tagged values of \<open>linklist.c\<close>): the memory of the lists extended by tagged
    values and their buffers, creation, release, search and replacement by tag.
  \<^item> \<open>Hashtable\<close>, \<open>Hashtable_Spec\<close> (\<open>hashtable.c\<close>): buckets, iterator list, growth, every operation as one thread runs it.
    \<open>ht_wf\<close> is the invariant, \<open>ht_map\<close> the map a table represents. The functions that collect keys and values build
    lists with the operations of \<open>Linklist\<close>.
  \<^item> \<open>Ht_Status\<close> (\<open>ht_get_list\<close>, \<open>ht_set_list\<close>, \<open>ht_clear\<close> and \<open>ht_grow_table\<close> of \<open>hashtable.c\<close> between threads): the
    protocol by which any number of threads share the slot array, as a step relation over the status word, the pointer to the
    array, its size, the slots and the iterator list. The invariant says who owns which array: no thread touches a
    freed one, and readers and writers of the array exclude each other in every reachable state.
  \<^item> \<open>Trie\<close>, \<open>Trie_Spec\<close> (\<open>trie.c\<close>): the nodes as a heap with parent pointers, and the memory of the blocks that
    values point to. \<open>nodes_wf\<close> says that the heap is a tree, \<open>mem_ok\<close> that every copy is a block of its own node; the effect of
    insertion, search and removal on the map of keys and on the memory follows.
  \<^item> \<open>Rqueue\<close>, \<open>Rqueue_Spec\<close>, \<open>Rqueue_Life\<close> (\<open>rqueue.c\<close>): the lock-free queue as one thread runs it: the ring of
    pages, the flag in the pointer to the head, the exchange of the reader page and the bounded attempts. The queue is
    a bounded list, and it owns the values it has accepted until it hands them out or releases them.
  \<^item> \<open>Refcnt\<close>, \<open>Refcnt_Spec\<close>, \<open>Refcnt_Life\<close> (\<open>refcnt.c\<close>): reference counted nodes with the list of nodes to be freed and the
    pool, which are queues of \<open>Rqueue\<close>, as one thread runs them; the callbacks are given by the locale
    \<open>client_callbacks\<close>. A node is terminated exactly when its count drops to zero. \<open>Refcnt_Race\<close>: \<open>release_ref\<close> and \<open>retain_ref\<close> of one
    node by any number of threads, as a step relation.
  \<^item> \<open>Binheap\<close>, \<open>Binheap_Spec\<close>, \<open>Binheap_Pq\<close> (\<open>binheap.c\<close>): nodes with pointers to parent, children and heap.
    \<open>bh_at\<close> says that the list of trees holds trees in heap order over disjoint nodes; the proofs are in the locale
    \<open>heap_order\<close>. Clients see the locale \<open>item_heap\<close>, interpreted for the default, the 16-bit and the \<open>uint64_t\<close> callbacks.
  \<^item> \<open>Pqueue\<close>, \<open>Pqueue_Spec\<close> (\<open>pqueue.c\<close>): priority queues on these heaps, over the interpretation of \<open>item_heap\<close>
    for \<open>uint64_t\<close>.

  \<^item> \<open>Tailq\<close> (the \<open>TAILQ\<close> macros of \<open>bsd_queue.h\<close>): the links with the address of the pointer to an element;
    every macro acts on a plain list. The components that use such queues have lists, which this theory justifies.
  \<^item> \<open>Sorted_Map\<close>: association lists in the order of a comparator and the locale of a sorted store.
  \<^item> \<open>Skiplist\<close>, \<open>Skiplist_Spec\<close> (\<open>skiplist.c\<close>): layers, wrappers and items; a key is in all layers up to one. The
    list answers as a sorted association list, whatever the coin gives, as long as no key is inserted before the first.
  \<^item> \<open>Ptr_Tree\<close>: binary trees with parent pointers on a heap, a position in a tree as a context and a subtree, search
    paths and in-order contents, over any record of nodes.
  \<^item> \<open>Rbtree\<close>, \<open>Rbtree_Spec\<close>, \<open>Rbtree_Map\<close>, \<open>Rbtree_Life\<close> (\<open>rbtree.c\<close>): the rotations, the five cases of the insertion and the
    removal on the heap; colours, black heights and order; walks and release.
  \<^item> \<open>Avltree\<close>, \<open>Avltree_Spec\<close>, \<open>Avltree_Map\<close>, \<open>Avltree_Life\<close> (\<open>avltree.c\<close>): the same for the balance and the stored heights.
    The queue of the walk over levels is a list, as \<open>Tailq\<close> allows.

  \<^bold>\<open>What is shown.\<close> Refinements: any sequence of operations of the hash table, of the lists, of the trie, of the
  lock-free queue, of the heaps, of the priority queues, of the skip lists and of the reference counts answers as a plain map,
  list or multiset would, within the conditions that each theorem names: tries are used with 7-bit keys, of which none is removed
  below a longer one, skip lists get no key before the first. Red-black trees answer as sorted maps under
  insertions, lookups and removals of absent keys; AVL trees as sorted lists under insertions of keys beyond
  those in the tree and removals of keys in it; their depth is logarithmic then. Invariants and safety: these
  operations keep the data well formed, values are released once, the status word excludes, a node is terminated
  at most once. Errors: lists for every pattern of failing allocations, the creation of queues for a failure at any point, appends to flat buffers
  beyond their maximum. Round trips, bounds and termination: lines through the flat buffer, values by tag, capacity of the
  buffers, the ends of the retry loops and of the sort. Where the code does not do what it means to, a lemma
  evaluates the failing run; these are collected at the end of the theories.

  \<^bold>\<open>Bounds.\<close> Lists have less than \<open>2 ^ 31\<close> entries, since the code converts lengths to \<open>int\<close>; flat
  buffers are bounded by \<open>2 ^ 30\<close>, so that \<open>unsigned int\<close> sums do not wrap; ring buffers by \<open>2 ^ 30\<close> in overwriting writes and by what
  an \<open>int\<close> holds otherwise, as the theorems say. The only fuel is the nesting depth of lists in lists in \<open>list_destroy_tagged_value_internal\<close>.
  Theorems that need allocations to succeed say so.

  \<^bold>\<open>Not modelled.\<close> Mutexes and per-bucket locks (the sequential models are what runs under them), \<open>ht_destroy\<close> and
  \<open>rbuf_destroy\<close> (they release blocks that the models do not list), the comparators of \<open>float\<close> and \<open>double\<close>, the families of
  \<open>bsd_queue.h\<close> that no component uses, \<open>atomic_defs.h\<close> (compiler intrinsics, one step each), the printing of the
  trees for debugging, and the interleavings of several threads in \<open>rqueue.c\<close>. In \<open>Ht_Status\<close> the contents of buckets and
  their spin locks are left open. \<open>queue.c\<close> and \<open>graph.c\<close> are outside of the development.
\<close>

end
